(* ===== verification/Prelude.thy ===== *)
theory Prelude
  imports Main "HOL-Library.Word"
begin

text \<open>
  The prelude of the CodexKeeper development: what the Go sources use of the language and of its
  standard library, shared by every component.

  \<^item> \<open>int64\<close> values are \<open>int\<close> with the two's complement wrap-around written out (\<open>i64\<close>);
    a value of the type is one in the range \<open>in_i64\<close>. \<open>uint64\<close> values are \<open>64 word\<close>.
  \<^item> \<open>time.Time\<close> is an \<open>int\<close> count of nanoseconds since the zero time of the package
    \<open>time\<close>, so \<open>IsZero\<close> is equality with 0; \<open>Sub\<close> saturates at the range of
    \<open>time.Duration\<close> as the library does.
  \<^item> a Go string is a \<open>string\<close> (a list of bytes). \<open>TrimSpace\<close> strips every Unicode white
    space in its UTF-8 encoding; \<open>ToLower\<close> is exact on ASCII and leaves other bytes alone.
  \<^item> a Go map whose iteration order the code uses is an association list with distinct keys:
    the list order is the iteration order of that run.
  \<^item> an operation that can fail returns \<open>'e + 'a\<close> with \<open>Inl\<close> for the error.
\<close>

named_theorems go_arith \<open>int64 arithmetic facts\<close>
named_theorems go_str \<open>facts on Go strings\<close>

section \<open>Signed 64-bit integers\<close>

definition MaxInt64 :: int where
  "MaxInt64 = 9223372036854775807"

definition MinInt64 :: int where
  "MinInt64 = - 9223372036854775808"

definition i64 :: "int \<Rightarrow> int" where
  "i64 x = (x + 9223372036854775808) mod 18446744073709551616 - 9223372036854775808"

definition in_i64 :: "int \<Rightarrow> bool" where
  "in_i64 x \<longleftrightarrow> MinInt64 \<le> x \<and> x \<le> MaxInt64"

text \<open>A \<open>uint64\<close> read as \<open>int64\<close> and back (Go's conversions keep the bit pattern).\<close>

definition int64_of_uint64 :: "64 word \<Rightarrow> int" where
  "int64_of_uint64 w = sint w"

definition uint64_of_int64 :: "int \<Rightarrow> 64 word" where
  "uint64_of_int64 x = word_of_int x"

section \<open>Time\<close>

type_synonym gotime = int
type_synonym duration = int

definition zero_time :: gotime where
  "zero_time = 0"

definition t_add :: "gotime \<Rightarrow> duration \<Rightarrow> gotime" where
  "t_add t d = t + d"

definition t_sub :: "gotime \<Rightarrow> gotime \<Rightarrow> duration" where
  "t_sub t u = max MinInt64 (min MaxInt64 (t - u))"

definition Second :: duration where
  "Second = 1000000000"

definition Minute :: duration where
  "Minute = 60 * 1000000000"

definition Hour :: duration where
  "Hour = 3600 * 1000000000"

section \<open>Strings\<close>

text \<open>
  \<open>space_prefix s\<close> is the number of bytes of the white space code point that starts \<open>s\<close>, 0
  when \<open>s\<close> starts with something else; \<open>space_suffix_rev\<close> is the same for the end of a
  string that is given reversed.
\<close>

definition ascii_space :: "nat \<Rightarrow> bool" where
  "ascii_space b \<longleftrightarrow> b = 9 \<or> b = 10 \<or> b = 11 \<or> b = 12 \<or> b = 13 \<or> b = 32"

definition wide_space2 :: "nat \<Rightarrow> nat \<Rightarrow> bool" where
  "wide_space2 a b \<longleftrightarrow> a = 194 \<and> (b = 133 \<or> b = 160)"

definition wide_space3 :: "nat \<Rightarrow> nat \<Rightarrow> nat \<Rightarrow> bool" where
  "wide_space3 a b c \<longleftrightarrow>
     (a = 225 \<and> b = 154 \<and> c = 128)
   \<or> (a = 226 \<and> b = 128 \<and> (128 \<le> c \<and> c \<le> 138 \<or> c = 168 \<or> c = 169 \<or> c = 175))
   \<or> (a = 226 \<and> b = 129 \<and> c = 159)
   \<or> (a = 227 \<and> b = 128 \<and> c = 128)"

definition byte :: "char \<Rightarrow> nat" where
  "byte c = of_char c"

fun space_prefix :: "string \<Rightarrow> nat" where
  "space_prefix [] = 0"
| "space_prefix (a # s) =
     (if ascii_space (byte a) then 1
      else case s of
        b # t \<Rightarrow>
          (if wide_space2 (byte a) (byte b) then 2
           else case t of
             c # _ \<Rightarrow> (if wide_space3 (byte a) (byte b) (byte c) then 3 else 0)
           | [] \<Rightarrow> 0)
      | [] \<Rightarrow> 0)"

fun space_suffix_rev :: "string \<Rightarrow> nat" where
  "space_suffix_rev [] = 0"
| "space_suffix_rev (c # s) =
     (if ascii_space (byte c) then 1
      else case s of
        b # t \<Rightarrow>
          (if wide_space2 (byte b) (byte c) then 2
           else case t of
             a # _ \<Rightarrow> (if wide_space3 (byte a) (byte b) (byte c) then 3 else 0)
           | [] \<Rightarrow> 0)
      | [] \<Rightarrow> 0)"

function trim_left :: "string \<Rightarrow> string" where
  "trim_left s = (if space_prefix s = 0 \<or> s = [] then s else trim_left (drop (space_prefix s) s))"
  by pat_completeness auto
termination
  by (relation "measure length") auto

function trim_right_rev :: "string \<Rightarrow> string" where
  "trim_right_rev s =
     (if space_suffix_rev s = 0 \<or> s = [] then s else trim_right_rev (drop (space_suffix_rev s) s))"
  by pat_completeness auto
termination
  by (relation "measure length") auto

definition TrimSpace :: "string \<Rightarrow> string" where
  "TrimSpace s = rev (trim_right_rev (rev (trim_left s)))"

definition lower_char :: "char \<Rightarrow> char" where
  "lower_char c = (if 65 \<le> byte c \<and> byte c \<le> 90 then char_of (byte c + 32) else c)"

definition ToLower :: "string \<Rightarrow> string" where
  "ToLower s = map lower_char s"

section \<open>Facts\<close>

declare trim_left.simps [simp del] trim_right_rev.simps [simp del]

lemma i64_id [simp, go_arith]: "in_i64 x \<Longrightarrow> i64 x = x"
  by (simp add: i64_def in_i64_def MaxInt64_def MinInt64_def)

lemma in_i64_i64 [simp, go_arith]: "in_i64 (i64 x)"
  unfolding i64_def in_i64_def MaxInt64_def MinInt64_def
  using pos_mod_bound [of 18446744073709551616 "x + 9223372036854775808"]
    pos_mod_sign [of 18446744073709551616 "x + 9223372036854775808"]
  by simp

lemma in_i64_zero [simp, go_arith]: "in_i64 0"
  by (simp add: in_i64_def MaxInt64_def MinInt64_def)

lemma in_i64_between [go_arith]: "in_i64 a \<Longrightarrow> in_i64 b \<Longrightarrow> a \<le> x \<Longrightarrow> x \<le> b \<Longrightarrow> in_i64 x"
  by (simp add: in_i64_def)

lemma int64_uint64_id [go_arith]: "int64_of_uint64 (uint64_of_int64 x) = x" if "in_i64 x"
proof -
  have "- (2 ^ 63) \<le> x" "x < 2 ^ 63"
    using that by (auto simp: in_i64_def MaxInt64_def MinInt64_def)
  then show ?thesis
    by (simp add: int64_of_uint64_def uint64_of_int64_def sint_word_ariths signed_of_int
        signed_take_bit_int_eq_self)
qed

lemma trim_left_unspaced [simp, go_str]: "space_prefix (trim_left s) = 0"
proof (induction s rule: trim_left.induct)
  case (1 s)
  then show ?case by (subst trim_left.simps) auto
qed

lemma trim_left_id [go_str]: "space_prefix s = 0 \<Longrightarrow> trim_left s = s"
  by (subst trim_left.simps) simp

lemma trim_right_rev_id [go_str]: "space_suffix_rev s = 0 \<Longrightarrow> trim_right_rev s = s"
  by (subst trim_right_rev.simps) simp

lemma trim_right_rev_unspaced [simp, go_str]: "space_suffix_rev (trim_right_rev s) = 0"
proof (induction s rule: trim_right_rev.induct)
  case (1 s)
  then show ?case by (subst trim_right_rev.simps) auto
qed

lemma lower_char_idem [simp, go_str]: "lower_char (lower_char c) = lower_char c"
proof (cases "65 \<le> byte c \<and> byte c \<le> 90")
  case True
  then have "byte (char_of (byte c + 32) :: char) = byte c + 32"
    by (simp add: byte_def)
  with True show ?thesis by (simp add: lower_char_def)
qed (auto simp: lower_char_def)

lemma ToLower_idem [simp, go_str]: "ToLower (ToLower s) = ToLower s"
  by (simp add: ToLower_def)

lemma TrimSpace_Nil [simp, go_str]: "TrimSpace [] = []"
  by (simp add: TrimSpace_def trim_left_id trim_right_rev_id)

text \<open>Trimming: what is left neither starts nor ends with white space, and lower case commutes with it.\<close>

lemma trim_right_rev_suffix: "\<exists>u. s = u @ trim_right_rev s"
proof (induction s rule: trim_right_rev.induct)
  case (1 s)
  show ?case
  proof (cases "space_suffix_rev s = 0 \<or> s = []")
    case False
    then obtain u where "drop (space_suffix_rev s) s = u @ trim_right_rev (drop (space_suffix_rev s) s)"
      using 1 by blast
    then have "s = (take (space_suffix_rev s) s @ u) @ trim_right_rev (drop (space_suffix_rev s) s)"
      by (metis append.assoc append_take_drop_id)
    with False show ?thesis unfolding trim_right_rev.simps [of s] by (simp only: if_False) blast
  qed (auto simp: trim_right_rev.simps [of s])
qed

lemma space_prefix_append: "space_prefix (t @ u) = 0 \<Longrightarrow> space_prefix t = 0"
  by (cases t rule: space_prefix.cases) (auto split: list.splits if_splits)

lemma TrimSpace_idem [simp, go_str]: "TrimSpace (TrimSpace s) = TrimSpace s"
proof -
  let ?t = "TrimSpace s"
  obtain u where "rev (trim_left s) = u @ trim_right_rev (rev (trim_left s))"
    using trim_right_rev_suffix by blast
  then have "trim_left s = ?t @ rev u" unfolding TrimSpace_def by (metis rev_append rev_rev_ident)
  then have "space_prefix ?t = 0" using trim_left_unspaced [of s] space_prefix_append by metis
  moreover have "space_suffix_rev (rev ?t) = 0" by (simp add: TrimSpace_def)
  ultimately show ?thesis by (simp add: TrimSpace_def [of ?t] trim_left_id trim_right_rev_id)
qed

lemma byte_lower: "byte (lower_char c) = (if 65 \<le> byte c \<and> byte c \<le> 90 then byte c + 32 else byte c)"
  by (simp add: lower_char_def byte_def of_char_of)

lemma space_lower:
  "ascii_space (byte (lower_char a)) = ascii_space (byte a)"
  "wide_space2 (byte (lower_char a)) (byte (lower_char b)) = wide_space2 (byte a) (byte b)"
  "wide_space3 (byte (lower_char a)) (byte (lower_char b)) (byte (lower_char c)) = wide_space3 (byte a) (byte b) (byte c)"
  unfolding byte_lower ascii_space_def wide_space2_def wide_space3_def by auto

lemma space_prefix_lower: "space_prefix (map lower_char s) = space_prefix s"
  by (cases s rule: space_prefix.cases) (auto simp: space_lower split: list.splits)

lemma space_suffix_lower: "space_suffix_rev (map lower_char s) = space_suffix_rev s"
  by (cases s rule: space_suffix_rev.cases) (auto simp: space_lower split: list.splits)

lemma trim_left_lower: "trim_left (map lower_char s) = map lower_char (trim_left s)"
proof (induction s rule: trim_left.induct)
  case (1 s)
  then show ?case
    by (cases "space_prefix s = 0 \<or> s = []")
       (auto simp: trim_left.simps [of s] trim_left.simps [of "map lower_char s"] space_prefix_lower drop_map)
qed

lemma trim_right_lower: "trim_right_rev (map lower_char s) = map lower_char (trim_right_rev s)"
proof (induction s rule: trim_right_rev.induct)
  case (1 s)
  then show ?case
    by (cases "space_suffix_rev s = 0 \<or> s = []")
       (auto simp: trim_right_rev.simps [of s] trim_right_rev.simps [of "map lower_char s"] space_suffix_lower drop_map)
qed

lemma TrimSpace_ToLower [go_str]: "TrimSpace (ToLower s) = ToLower (TrimSpace s)"
  by (simp add: TrimSpace_def ToLower_def trim_left_lower rev_map trim_right_lower)

text \<open>Filtering an association list with distinct keys.\<close>

lemma map_of_filter_distinct:
  assumes "distinct (map fst al)"
  shows "map_of (filter keep al) key = Option.bind (map_of al key) (\<lambda>v. if keep (key, v) then Some v else None)"
  using assms
proof (induction al)
  case (Cons entry al)
  have "map_of al (fst entry) = None" using Cons.prems by (simp add: map_of_eq_None_iff)
  with Cons show ?case by (cases entry) (auto split: option.splits)
qed simp

end
