(* ===== verification/Token_Registry.thy ===== *)
theory Token_Registry
  imports Prelude
begin

text \<open>
  The routing half of \<^verbatim>\<open>internal/service/tokenprocessor\<close>: the identifiers and the evidence
  of \<^verbatim>\<open>types.go\<close>, the static registry of \<^verbatim>\<open>registry.go\<close> with the executor
  definitions of \<^verbatim>\<open>*_executor.go\<close>, and the resolver of \<^verbatim>\<open>resolver.go\<close>. Go's string
  enumerations are datatypes; where the code also handles a value outside the enumeration, a
  last constructor stands for it. The lemmas show that the static registry passes its own
  validation and that a parser contract is granted for a registered executor only.
\<close>

section \<open>types.go\<close>

datatype HandlerID =
    HandlerClaude
  | HandlerResponsesInclusive
  | HandlerStrictPassThrough
  | HandlerUnregistered string

datatype EvidenceSource = EvidenceExecutor | EvidenceIdentity | EvidenceDefault

datatype EvidenceStrength = EvidenceParserContract | EvidenceIdentityHint | EvidenceUnknown

record handlerResolution =
  handlerID :: HandlerID
  evidenceSource :: EvidenceSource
  evidenceStrength :: EvidenceStrength
  executorType :: string
  identityType :: string
  needsIdentity :: bool
  unknownExecutor :: bool

section \<open>registry.go\<close>

record executorDefinition =
  exec_alias :: string
  exec_handlerID :: HandlerID

record identityAliasDefinition =
  ident_alias :: string
  ident_handlerID :: HandlerID

record registryIndexes =
  executors :: "string \<rightharpoonup> executorDefinition"
  identities :: "string \<rightharpoonup> identityAliasDefinition"

datatype registryError =
    DuplicateHandlerID HandlerID
  | RegistrySizeMismatch nat nat
  | ImplementationNotDeclared HandlerID
  | ImplementationMismatchedID HandlerID
  | EmptyExecutorAlias
  | ExecutorUnknownHandler string HandlerID
  | DuplicateExecutorAlias string
  | EmptyIdentityAlias
  | IdentityUnknownHandler string HandlerID
  | DuplicateIdentityAlias string

definition claudeExecutorDefinition :: executorDefinition where
  "claudeExecutorDefinition = \<lparr>exec_alias = ''ClaudeExecutor'', exec_handlerID = HandlerClaude\<rparr>"

definition codexExecutorDefinition :: executorDefinition where
  "codexExecutorDefinition =
     \<lparr>exec_alias = ''CodexExecutor'', exec_handlerID = HandlerResponsesInclusive\<rparr>"

definition codexWebsocketsExecutorDefinition :: executorDefinition where
  "codexWebsocketsExecutorDefinition =
     \<lparr>exec_alias = ''CodexWebsocketsExecutor'', exec_handlerID = HandlerResponsesInclusive\<rparr>"

definition codexAutoExecutorDefinition :: executorDefinition where
  "codexAutoExecutorDefinition =
     \<lparr>exec_alias = ''CodexAutoExecutor'', exec_handlerID = HandlerResponsesInclusive\<rparr>"

definition handlerDefinitions :: "HandlerID list" where
  "handlerDefinitions = [HandlerClaude, HandlerResponsesInclusive, HandlerStrictPassThrough]"

text \<open>
  The implementations as the validation sees them: the key of the map \<open>tokenHandlers\<close> and what
  the handler's method \<open>ID()\<close> reports (\<open>None\<close> for a nil handler).
\<close>

definition tokenHandlerIDs :: "(HandlerID \<times> HandlerID option) list" where
  "tokenHandlerIDs =
     [(HandlerClaude, Some HandlerClaude),
      (HandlerResponsesInclusive, Some HandlerResponsesInclusive),
      (HandlerStrictPassThrough, Some HandlerStrictPassThrough)]"

definition executorDefinitions :: "executorDefinition list" where
  "executorDefinitions =
     [claudeExecutorDefinition, codexExecutorDefinition,
      codexWebsocketsExecutorDefinition, codexAutoExecutorDefinition]"

definition identityAliasDefinitions :: "identityAliasDefinition list" where
  "identityAliasDefinitions =
     [\<lparr>ident_alias = ''claude'', ident_handlerID = HandlerClaude\<rparr>,
      \<lparr>ident_alias = ''codex'', ident_handlerID = HandlerResponsesInclusive\<rparr>]"

definition normalizeRegistryAlias :: "string \<Rightarrow> string" where
  "normalizeRegistryAlias value = ToLower (TrimSpace value)"

text \<open>The loops of \<open>buildRegistryIndexes\<close>, in order.\<close>

fun declareHandlers :: "HandlerID list \<Rightarrow> HandlerID list \<Rightarrow> registryError + HandlerID list" where
  "declareHandlers handlers [] = Inr handlers"
| "declareHandlers handlers (h # hs) =
     (if h \<in> set handlers then Inl (DuplicateHandlerID h) else declareHandlers (h # handlers) hs)"

fun checkImplementations ::
  "HandlerID list \<Rightarrow> (HandlerID \<times> HandlerID option) list \<Rightarrow> registryError + unit" where
  "checkImplementations handlers [] = Inr ()"
| "checkImplementations handlers ((h, impl) # rest) =
     (if h \<notin> set handlers then Inl (ImplementationNotDeclared h)
      else if impl \<noteq> Some h then Inl (ImplementationMismatchedID h)
      else checkImplementations handlers rest)"

fun indexExecutors ::
  "HandlerID list \<Rightarrow> (string \<rightharpoonup> executorDefinition) \<Rightarrow> executorDefinition list
   \<Rightarrow> registryError + (string \<rightharpoonup> executorDefinition)" where
  "indexExecutors handlers index [] = Inr index"
| "indexExecutors handlers index (d # ds) =
     (let alias = normalizeRegistryAlias (exec_alias d) in
      if alias = [] then Inl EmptyExecutorAlias
      else if exec_handlerID d \<notin> set handlers
        then Inl (ExecutorUnknownHandler (exec_alias d) (exec_handlerID d))
      else if index alias \<noteq> None then Inl (DuplicateExecutorAlias (exec_alias d))
      else indexExecutors handlers (index(alias \<mapsto> d)) ds)"

fun indexIdentities ::
  "HandlerID list \<Rightarrow> (string \<rightharpoonup> identityAliasDefinition) \<Rightarrow> identityAliasDefinition list
   \<Rightarrow> registryError + (string \<rightharpoonup> identityAliasDefinition)" where
  "indexIdentities handlers index [] = Inr index"
| "indexIdentities handlers index (d # ds) =
     (let alias = normalizeRegistryAlias (ident_alias d) in
      if alias = [] then Inl EmptyIdentityAlias
      else if ident_handlerID d \<notin> set handlers
        then Inl (IdentityUnknownHandler (ident_alias d) (ident_handlerID d))
      else if index alias \<noteq> None then Inl (DuplicateIdentityAlias (ident_alias d))
      else indexIdentities handlers (index(alias \<mapsto> d)) ds)"

definition buildRegistryIndexesOf ::
  "HandlerID list \<Rightarrow> (HandlerID \<times> HandlerID option) list \<Rightarrow> executorDefinition list
   \<Rightarrow> identityAliasDefinition list \<Rightarrow> registryError + registryIndexes" where
  "buildRegistryIndexesOf definitions implementations execs idents =
     (case declareHandlers [] definitions of
        Inl e \<Rightarrow> Inl e
      | Inr handlers \<Rightarrow>
          if length implementations \<noteq> length handlers
          then Inl (RegistrySizeMismatch (length implementations) (length handlers))
          else case checkImplementations handlers implementations of
            Inl e \<Rightarrow> Inl e
          | Inr _ \<Rightarrow>
              (case indexExecutors handlers Map.empty execs of
                 Inl e \<Rightarrow> Inl e
               | Inr executorIndex \<Rightarrow>
                   (case indexIdentities handlers Map.empty idents of
                      Inl e \<Rightarrow> Inl e
                    | Inr identityIndex \<Rightarrow>
                        Inr \<lparr>executors = executorIndex, identities = identityIndex\<rparr>)))"

definition buildRegistryIndexes :: "registryError + registryIndexes" where
  "buildRegistryIndexes =
     buildRegistryIndexesOf handlerDefinitions tokenHandlerIDs executorDefinitions
       identityAliasDefinitions"

section \<open>resolver.go\<close>

definition resolveExecutor :: "registryIndexes \<Rightarrow> string \<Rightarrow> handlerResolution" where
  "resolveExecutor registry executor =
     (let normalizedExecutor = normalizeRegistryAlias executor in
      case executors registry normalizedExecutor of
        Some d \<Rightarrow>
          \<lparr>handlerID = exec_handlerID d, evidenceSource = EvidenceExecutor,
           evidenceStrength = EvidenceParserContract, executorType = TrimSpace executor,
           identityType = [], needsIdentity = False, unknownExecutor = False\<rparr>
      | None \<Rightarrow>
          \<lparr>handlerID = HandlerStrictPassThrough, evidenceSource = EvidenceDefault,
           evidenceStrength = EvidenceUnknown, executorType = TrimSpace executor,
           identityType = [], needsIdentity = True,
           unknownExecutor = (normalizedExecutor \<noteq> [] \<and> normalizedExecutor \<noteq> ''unknown'')\<rparr>)"

definition ResolveExecutor :: "string \<Rightarrow> registryError + handlerResolution" where
  "ResolveExecutor executor =
     (case buildRegistryIndexes of
        Inl e \<Rightarrow> Inl e
      | Inr registry \<Rightarrow> Inr (resolveExecutor registry executor))"

definition resolveIdentityIn :: "registryIndexes \<Rightarrow> string \<Rightarrow> string \<Rightarrow> handlerResolution" where
  "resolveIdentityIn registry executor ident =
     (let resolution = resolveExecutor registry executor in
      if \<not> needsIdentity resolution then resolution\<lparr>identityType := TrimSpace ident\<rparr>
      else case identities registry (normalizeRegistryAlias ident) of
        Some d \<Rightarrow>
          resolution\<lparr>handlerID := ident_handlerID d, evidenceSource := EvidenceIdentity,
            evidenceStrength := EvidenceIdentityHint, identityType := TrimSpace ident,
            needsIdentity := False\<rparr>
      | None \<Rightarrow>
          resolution\<lparr>handlerID := HandlerStrictPassThrough, evidenceSource := EvidenceDefault,
            evidenceStrength := EvidenceUnknown, identityType := TrimSpace ident,
            needsIdentity := False\<rparr>)"

definition ResolveIdentity :: "string \<Rightarrow> string \<Rightarrow> registryError + handlerResolution" where
  "ResolveIdentity executor ident =
     (case buildRegistryIndexes of
        Inl e \<Rightarrow> Inl e
      | Inr registry \<Rightarrow> Inr (resolveIdentityIn registry executor ident))"

section \<open>The index the validation builds\<close>

text \<open>
  The two index loops share a contract: they accept a table when every alias is non-empty and new
  and every handler is declared, and then the index is the table itself. The contract is stated
  and its consequence proved once; both loops are instances of it.
\<close>

locale alias_index =
  fixes alias_of :: "'d \<Rightarrow> string"
    and handler_of :: "'d \<Rightarrow> HandlerID"
    and index_loop :: "HandlerID list \<Rightarrow> (string \<rightharpoonup> 'd) \<Rightarrow> 'd list \<Rightarrow> registryError + (string \<rightharpoonup> 'd)"
  assumes loop_Nil: "index_loop handlers index [] = Inr index"
    and loop_Cons: "index_loop handlers index (d # ds) = Inr index' \<longleftrightarrow>
      normalizeRegistryAlias (alias_of d) \<noteq> [] \<and> handler_of d \<in> set handlers \<and>
      index (normalizeRegistryAlias (alias_of d)) = None \<and>
      index_loop handlers (index(normalizeRegistryAlias (alias_of d) \<mapsto> d)) ds = Inr index'"
begin

lemma loop_accepts:
  assumes "index_loop handlers index ds = Inr index'"
  shows "index' = index ++ map_of (map (\<lambda>d. (normalizeRegistryAlias (alias_of d), d)) ds)
       \<and> distinct (map (normalizeRegistryAlias \<circ> alias_of) ds)
       \<and> (\<forall>d \<in> set ds. handler_of d \<in> set handlers
              \<and> index (normalizeRegistryAlias (alias_of d)) = None)"
  using assms
proof (induction ds arbitrary: index)
  case Nil
  then show ?case by (simp add: loop_Nil)
next
  case (Cons d ds)
  let ?a = "normalizeRegistryAlias (alias_of d)"
  from Cons.prems have d: "handler_of d \<in> set handlers" "index ?a = None"
    and rest: "index_loop handlers (index(?a \<mapsto> d)) ds = Inr index'"
    by (auto simp: loop_Cons)
  have fresh: "?a \<notin> (normalizeRegistryAlias \<circ> alias_of) ` set ds"
    using Cons.IH [OF rest] by (force split: if_splits)
  then have "map_of (map (\<lambda>d. (normalizeRegistryAlias (alias_of d), d)) ds) ?a = None"
    by (simp add: map_of_eq_None_iff image_image comp_def)
  with Cons.IH [OF rest] d fresh show ?case
    by (auto simp: map_add_def fun_eq_iff split: option.splits if_splits)
qed

lemma loop_index:
  assumes "index_loop handlers Map.empty ds = Inr index'"
  shows "index' = map_of (map (\<lambda>d. (normalizeRegistryAlias (alias_of d), d)) ds)"
    and "distinct (map (normalizeRegistryAlias \<circ> alias_of) ds)"
    and "d \<in> set ds \<Longrightarrow> handler_of d \<in> set handlers"
  using loop_accepts [OF assms] by auto

end

interpretation executor_index: alias_index exec_alias exec_handlerID indexExecutors
  by unfold_locales (auto simp: Let_def split: if_splits)

interpretation identity_index: alias_index ident_alias ident_handlerID indexIdentities
  by unfold_locales (auto simp: Let_def split: if_splits)

lemma declareHandlers_set:
  "declareHandlers handlers hs = Inr handlers' \<Longrightarrow> set handlers' = set handlers \<union> set hs"
  by (induction handlers hs rule: declareHandlers.induct) (auto split: if_splits)

lemma buildRegistryIndexesOf_Inr:
  assumes "buildRegistryIndexesOf definitions implementations execs idents = Inr registry"
  shows "executors registry =
           map_of (map (\<lambda>d. (normalizeRegistryAlias (exec_alias d), d)) execs)"
    and "identities registry =
           map_of (map (\<lambda>d. (normalizeRegistryAlias (ident_alias d), d)) idents)"
    and "distinct (map (normalizeRegistryAlias \<circ> exec_alias) execs)"
    and "\<forall>d \<in> set execs. exec_handlerID d \<in> set definitions"
    and "\<forall>d \<in> set idents. ident_handlerID d \<in> set definitions"
proof -
  obtain handlers where handlers: "declareHandlers [] definitions = Inr handlers"
    and execs: "indexExecutors handlers Map.empty execs = Inr (executors registry)"
    and idents: "indexIdentities handlers Map.empty idents = Inr (identities registry)"
    using assms by (auto simp: buildRegistryIndexesOf_def split: sum.splits if_splits)
  have "set handlers = set definitions"
    using declareHandlers_set [OF handlers] by simp
  then show "executors registry =
           map_of (map (\<lambda>d. (normalizeRegistryAlias (exec_alias d), d)) execs)"
    and "identities registry =
           map_of (map (\<lambda>d. (normalizeRegistryAlias (ident_alias d), d)) idents)"
    and "distinct (map (normalizeRegistryAlias \<circ> exec_alias) execs)"
    and "\<forall>d \<in> set execs. exec_handlerID d \<in> set definitions"
    and "\<forall>d \<in> set idents. ident_handlerID d \<in> set definitions"
    using executor_index.loop_index [OF execs] identity_index.loop_index [OF idents] by auto
qed

section \<open>The static registry is valid\<close>

text \<open>The aliases of the static tables, normalised.\<close>

lemma normalized_static_aliases [simp]:
  "normalizeRegistryAlias ''ClaudeExecutor'' = ''claudeexecutor''"
  "normalizeRegistryAlias ''CodexExecutor'' = ''codexexecutor''"
  "normalizeRegistryAlias ''CodexWebsocketsExecutor'' = ''codexwebsocketsexecutor''"
  "normalizeRegistryAlias ''CodexAutoExecutor'' = ''codexautoexecutor''"
  "normalizeRegistryAlias ''claude'' = ''claude''"
  "normalizeRegistryAlias ''codex'' = ''codex''"
  by code_simp+

lemmas static_registry_defs =
  claudeExecutorDefinition_def codexExecutorDefinition_def codexWebsocketsExecutorDefinition_def
  codexAutoExecutorDefinition_def handlerDefinitions_def tokenHandlerIDs_def
  executorDefinitions_def identityAliasDefinitions_def

lemma buildRegistryIndexes_ok: "\<exists>registry. buildRegistryIndexes = Inr registry"
  by (simp add: buildRegistryIndexes_def buildRegistryIndexesOf_def static_registry_defs
      Let_def)

text \<open>The index the code computes at package load, as an explicit table.\<close>

lemma static_registry:
  obtains registry where "buildRegistryIndexes = Inr registry"
    and "executors registry = [''claudeexecutor'' \<mapsto> claudeExecutorDefinition,
           ''codexexecutor'' \<mapsto> codexExecutorDefinition,
           ''codexwebsocketsexecutor'' \<mapsto> codexWebsocketsExecutorDefinition,
           ''codexautoexecutor'' \<mapsto> codexAutoExecutorDefinition]"
    and "identities registry = [''claude'' \<mapsto> identityAliasDefinitions ! 0,
           ''codex'' \<mapsto> identityAliasDefinitions ! 1]"
proof -
  obtain registry where r: "buildRegistryIndexes = Inr registry"
    using buildRegistryIndexes_ok by blast
  note index = buildRegistryIndexesOf_Inr(1,2) [OF r [unfolded buildRegistryIndexes_def]]
  have "executors registry = [''claudeexecutor'' \<mapsto> claudeExecutorDefinition,
           ''codexexecutor'' \<mapsto> codexExecutorDefinition,
           ''codexwebsocketsexecutor'' \<mapsto> codexWebsocketsExecutorDefinition,
           ''codexautoexecutor'' \<mapsto> codexAutoExecutorDefinition]"
    unfolding index by (rule ext) (simp add: static_registry_defs)
  moreover have "identities registry = [''claude'' \<mapsto> identityAliasDefinitions ! 0,
           ''codex'' \<mapsto> identityAliasDefinitions ! 1]"
    unfolding index by (rule ext) (simp add: static_registry_defs)
  ultimately show ?thesis using that r by blast
qed

section \<open>Properties\<close>

text \<open>
  Routing is total and exact: the static registry passes its validation, every executor and
  identity pair resolves to a handler without a further lookup, a known executor decides whatever
  the identity says, an identity decides only when the executor is unknown, and a parser contract
  is granted for the four registered executors only.
\<close>

theorem ResolveIdentity_routing:
  "\<exists>r. ResolveIdentity executor ident = Inr r \<and> \<not> needsIdentity r \<and>
     (let e = normalizeRegistryAlias executor; i = normalizeRegistryAlias ident in
      (evidenceStrength r = EvidenceParserContract \<longleftrightarrow>
         e \<in> {''claudeexecutor'', ''codexexecutor'', ''codexwebsocketsexecutor'', ''codexautoexecutor''})
      \<and> handlerID r =
          (if e = ''claudeexecutor'' then HandlerClaude
           else if e \<in> {''codexexecutor'', ''codexwebsocketsexecutor'', ''codexautoexecutor''}
             then HandlerResponsesInclusive
           else if i = ''claude'' then HandlerClaude
           else if i = ''codex'' then HandlerResponsesInclusive
           else HandlerStrictPassThrough))"
proof -
  obtain registry where r: "buildRegistryIndexes = Inr registry"
    and ex: "executors registry = [''claudeexecutor'' \<mapsto> claudeExecutorDefinition,
           ''codexexecutor'' \<mapsto> codexExecutorDefinition,
           ''codexwebsocketsexecutor'' \<mapsto> codexWebsocketsExecutorDefinition,
           ''codexautoexecutor'' \<mapsto> codexAutoExecutorDefinition]"
    and id: "identities registry = [''claude'' \<mapsto> identityAliasDefinitions ! 0,
           ''codex'' \<mapsto> identityAliasDefinitions ! 1]"
    by (rule static_registry)
  show ?thesis
    by (auto simp: ResolveIdentity_def r resolveIdentityIn_def resolveExecutor_def Let_def ex id
        static_registry_defs)
qed

text \<open>
  The validation is sound for any tables it accepts: every executor of the table resolves to
  its own definition with a parser contract, and only to a declared handler.
\<close>

theorem accepted_registry_resolves:
  assumes "buildRegistryIndexesOf definitions implementations execs idents = Inr registry"
    and "d \<in> set execs"
  shows "handlerID (resolveExecutor registry (exec_alias d)) = exec_handlerID d \<and>
    evidenceStrength (resolveExecutor registry (exec_alias d)) = EvidenceParserContract \<and>
    exec_handlerID d \<in> set definitions"
proof -
  note index = buildRegistryIndexesOf_Inr [OF assms(1)]
  have "executors registry (normalizeRegistryAlias (exec_alias d)) = Some d"
    unfolding index(1) using index(3) assms(2)
    by (intro map_of_is_SomeI) (auto simp: comp_def)
  with index(4) assms(2) show ?thesis by (simp add: resolveExecutor_def)
qed

theorem accepted_registry_resolves_witness:
  "\<exists>registry. buildRegistryIndexes = Inr registry \<and>
     handlerID (resolveExecutor registry ''CodexAutoExecutor'') = HandlerResponsesInclusive"
proof -
  obtain registry where r: "buildRegistryIndexes = Inr registry" using buildRegistryIndexes_ok by blast
  have "codexAutoExecutorDefinition \<in> set executorDefinitions" by (simp add: executorDefinitions_def)
  from accepted_registry_resolves [OF r [unfolded buildRegistryIndexes_def] this] r
  show ?thesis by (auto simp: codexAutoExecutorDefinition_def)
qed

end
