(* ===== verification/Token_Process.thy ===== *)
theory Token_Process
  imports Token_Registry
begin

text \<open>
  The computing half of \<^verbatim>\<open>internal/service/tokenprocessor\<close>: the checked addition of
  \<^verbatim>\<open>arithmetic.go\<close>, the token values, actions and violations of \<^verbatim>\<open>types.go\<close>, the
  shared cache alias of \<^verbatim>\<open>handler.go\<close>, the three protocol handlers
  (\<^verbatim>\<open>claude_executor.go\<close>, \<^verbatim>\<open>codex_executor.go\<close>, \<^verbatim>\<open>strict.go\<close>), the final total of
  \<^verbatim>\<open>final_total.go\<close> and the entry point of \<^verbatim>\<open>processor.go\<close>.
  The contract every handler keeps is the locale \<open>token_handler\<close>, interpreted on the three
  handlers; the lemmas about \<open>Process\<close> rest on it.
\<close>

section \<open>arithmetic.go\<close>

text \<open>The loop of \<open>safeAddTokenCounts\<close>: \<open>None\<close> is the result \<open>(0, false)\<close>.\<close>

fun safeAddFrom :: "int \<Rightarrow> int list \<Rightarrow> int option" where
  "safeAddFrom acc [] = Some acc"
| "safeAddFrom acc (v # vs) =
     (if v > 0 \<and> acc > i64 (MaxInt64 - v) then None
      else if v < 0 \<and> acc < i64 (MinInt64 - v) then None
      else safeAddFrom (i64 (acc + v)) vs)"

definition safeAddTokenCounts :: "int list \<Rightarrow> int option" where
  "safeAddTokenCounts values = safeAddFrom 0 values"

section \<open>types.go and handler.go: the data\<close>

datatype TokenField =
    input_tokens_field
  | output_tokens_field
  | reasoning_tokens_field
  | cached_tokens_field
  | cache_read_tokens_field
  | cache_creation_tokens_field
  | total_tokens_field

record TokenValues =
  InputTokens :: int
  OutputTokens :: int
  ReasoningTokens :: int
  CachedTokens :: int
  CacheReadTokens :: int
  CacheReadPresent :: bool
  CacheCreationTokens :: int
  TotalTokens :: int

datatype TokenOutcome =
    TokenOutcomeValid
  | TokenOutcomeNormalized
  | TokenOutcomeCompatibility
  | TokenOutcomeCorrected
  | TokenOutcomeAmbiguous
  | TokenOutcomeOverflow
  | TokenOutcomeUnset

datatype ActionCode =
    ActionClampNegativeToken
  | ActionBackfillCacheReadAlias
  | ActionNormalizeClaudeInput
  | ActionNormalizeClaudeCachedAlias
  | ActionBackfillZeroTotal
  | ActionCorrectNonzeroTotal

datatype ViolationCode =
    ViolationTokenArithmeticOverflow
  | ViolationAmbiguousTotalMismatch
  | ViolationCacheReadAliasConflict
  | ViolationInputBelowCache
  | ViolationOutputBelowReasoning

record Action =
  act_Code :: ActionCode
  act_Field :: TokenField
  act_Before :: int
  act_After :: int
  act_EvidenceSource :: EvidenceSource
  act_Rule :: string
  act_outcome :: TokenOutcome

record Violation =
  viol_Code :: ViolationCode
  viol_Fields :: "TokenField list"
  viol_Reason :: string

record ProcessResult =
  Tokens :: TokenValues
  Actions :: "Action list"
  Violations :: "Violation list"
  Outcome :: TokenOutcome

datatype totalAuthority =
    totalAuthorityCanonical
  | totalAuthorityZeroOnly
  | totalAuthorityPreserve
  | totalAuthorityOther string

type_synonym tokenFieldSet = "TokenField set"

record normalizationContext =
  nonNegative :: TokenValues
  clamped :: tokenFieldSet
  resolution :: handlerResolution

record handlerResult =
  hr_tokens :: TokenValues
  hr_authority :: totalAuthority
  hr_actions :: "Action list"
  hr_violations :: "Violation list"

abbreviation mkAction ::
  "ActionCode \<Rightarrow> TokenField \<Rightarrow> int \<Rightarrow> int \<Rightarrow> EvidenceSource \<Rightarrow> string \<Rightarrow> TokenOutcome \<Rightarrow> Action" where
  "mkAction code field before after source rule outcome \<equiv>
     \<lparr>act_Code = code, act_Field = field, act_Before = before, act_After = after,
      act_EvidenceSource = source, act_Rule = rule, act_outcome = outcome\<rparr>"

abbreviation mkViolation :: "ViolationCode \<Rightarrow> TokenField list \<Rightarrow> string \<Rightarrow> Violation" where
  "mkViolation code names reason \<equiv>
     \<lparr>viol_Code = code, viol_Fields = names, viol_Reason = reason\<rparr>"

definition fieldSet_has :: "tokenFieldSet \<Rightarrow> TokenField \<Rightarrow> bool" where
  "fieldSet_has fs field \<longleftrightarrow> field \<in> fs"

fun fieldSet_hasAny :: "tokenFieldSet \<Rightarrow> TokenField list \<Rightarrow> bool" where
  "fieldSet_hasAny fs [] = False"
| "fieldSet_hasAny fs (name # names) =
     (if fieldSet_has fs name then True else fieldSet_hasAny fs names)"

definition normalizeNonClaudeCacheRead ::
  "normalizationContext \<Rightarrow> TokenValues \<times> Action list \<times> Violation list" where
  "normalizeNonClaudeCacheRead ctx =
     (let tokens = nonNegative ctx in
      if fieldSet_has (clamped ctx) cache_read_tokens_field then
        (if CachedTokens tokens \<le> 0 then (tokens, [], [])
         else (tokens, [],
           [mkViolation ViolationAmbiguousTotalMismatch
              [cached_tokens_field, cache_read_tokens_field]
              ''cache read alias depends on a clamped read field'']))
      else if CacheReadPresent tokens
              \<and> evidenceStrength (resolution ctx) = EvidenceParserContract then
        (tokens, [], [])
      else if CacheReadTokens tokens \<noteq> 0 \<or> CachedTokens tokens \<le> 0 then
        (tokens, [], [])
      else
        (let before = CacheReadTokens tokens;
             tokens' = tokens\<lparr>CacheReadTokens := CachedTokens tokens\<rparr>
         in (tokens',
             [mkAction ActionBackfillCacheReadAlias cache_read_tokens_field before
                (CacheReadTokens tokens') (evidenceSource (resolution ctx))
                ''non_claude_cached_to_read_alias'' TokenOutcomeCompatibility],
             [])))"

section \<open>The handlers\<close>

definition claudeIdentityProvesLegacyMissingCache :: "normalizationContext \<Rightarrow> int \<Rightarrow> bool" where
  "claudeIdentityProvesLegacyMissingCache ctx canonicalInput =
     (if fieldSet_hasAny (clamped ctx)
           [input_tokens_field, output_tokens_field, cache_read_tokens_field,
            cache_creation_tokens_field, total_tokens_field] then False
      else case safeAddTokenCounts
             [CacheReadTokens (nonNegative ctx), CacheCreationTokens (nonNegative ctx)] of
        None \<Rightarrow> False
      | Some cacheTotal \<Rightarrow>
          if cacheTotal \<le> 0 then False
          else case safeAddTokenCounts
                 [InputTokens (nonNegative ctx), OutputTokens (nonNegative ctx)] of
            None \<Rightarrow> False
          | Some rawTotal \<Rightarrow>
              if rawTotal \<noteq> TotalTokens (nonNegative ctx) then False
              else case safeAddTokenCounts [canonicalInput, OutputTokens (nonNegative ctx)] of
                None \<Rightarrow> False
              | Some canonicalTotal \<Rightarrow> canonicalTotal \<noteq> TotalTokens (nonNegative ctx))"

definition claudeNormalize :: "normalizationContext \<Rightarrow> handlerResult" where
  "claudeNormalize ctx =
     (let tokens = nonNegative ctx;
          source = evidenceSource (resolution ctx);
          strength = evidenceStrength (resolution ctx);
          canonicalInput = safeAddTokenCounts
            [InputTokens tokens, CacheReadTokens tokens, CacheCreationTokens tokens];
          (tokens1, authority, actions, violations) =
            (if fieldSet_hasAny (clamped ctx)
                  [input_tokens_field, cache_read_tokens_field, cache_creation_tokens_field] then
               (tokens, totalAuthorityZeroOnly, [],
                [mkViolation ViolationAmbiguousTotalMismatch
                   [input_tokens_field, cache_read_tokens_field, cache_creation_tokens_field]
                   ''Claude input fold depends on clamped fields''])
             else case canonicalInput of
               None \<Rightarrow>
                 (tokens, totalAuthorityPreserve, [],
                  [mkViolation ViolationTokenArithmeticOverflow
                     [input_tokens_field, cache_read_tokens_field, cache_creation_tokens_field]
                     ''Claude canonical input exceeds int64''])
             | Some input \<Rightarrow>
                 (tokens\<lparr>InputTokens := input\<rparr>,
                  (if strength = EvidenceParserContract then totalAuthorityCanonical
                   else if claudeIdentityProvesLegacyMissingCache ctx input
                     then totalAuthorityCanonical
                   else totalAuthorityZeroOnly),
                  (if input \<noteq> InputTokens tokens then
                     [mkAction ActionNormalizeClaudeInput input_tokens_field (InputTokens tokens)
                        input source ''claude_input_excludes_cache'' TokenOutcomeNormalized]
                   else []),
                  []));
          violations1 =
            (if strength = EvidenceParserContract \<and> CachedTokens tokens1 > 0
                \<and> CacheReadTokens tokens1 > 0 \<and> CachedTokens tokens1 \<noteq> CacheReadTokens tokens1
             then violations @
               [mkViolation ViolationCacheReadAliasConflict
                  [cached_tokens_field, cache_read_tokens_field]
                  ''Claude cached/read aliases disagree under parser contract'']
             else violations);
          actions1 =
            (if CachedTokens tokens1 \<noteq> CacheReadTokens tokens1
             then actions @
               [mkAction ActionNormalizeClaudeCachedAlias cached_tokens_field
                  (CachedTokens tokens1) (CacheReadTokens tokens1) source
                  ''claude_cached_equals_explicit_read'' TokenOutcomeNormalized]
             else actions)
      in \<lparr>hr_tokens = tokens1\<lparr>CachedTokens := CacheReadTokens tokens1\<rparr>,
          hr_authority = authority, hr_actions = actions1, hr_violations = violations1\<rparr>)"

definition matchesLegacyCodexCachedOnlyShape :: "normalizationContext \<Rightarrow> bool" where
  "matchesLegacyCodexCachedOnlyShape ctx =
     (if evidenceStrength (resolution ctx) \<noteq> EvidenceParserContract
         \<or> normalizeRegistryAlias (executorType (resolution ctx)) \<noteq> ''codexexecutor'' then False
      else if fieldSet_hasAny (clamped ctx)
           [input_tokens_field, output_tokens_field, reasoning_tokens_field, cached_tokens_field,
            cache_read_tokens_field, cache_creation_tokens_field, total_tokens_field] then False
      else
        (let tokens = nonNegative ctx in
         if InputTokens tokens \<noteq> 0 \<or> OutputTokens tokens \<noteq> 0 \<or> ReasoningTokens tokens \<noteq> 0
         then False
         else if CachedTokens tokens \<le> 0 \<or> CacheReadTokens tokens \<noteq> 0
                 \<or> CacheCreationTokens tokens \<noteq> 0 then False
         else TotalTokens tokens = CachedTokens tokens))"

definition matchesResponsesTotalOnlyShape :: "normalizationContext \<Rightarrow> bool" where
  "matchesResponsesTotalOnlyShape ctx =
     (if clamped ctx \<noteq> {} then False
      else
        (let tokens = nonNegative ctx in
         TotalTokens tokens > 0 \<and> InputTokens tokens = 0 \<and> OutputTokens tokens = 0
         \<and> ReasoningTokens tokens = 0 \<and> CachedTokens tokens = 0 \<and> CacheReadTokens tokens = 0
         \<and> CacheCreationTokens tokens = 0))"

definition responsesInclusiveNormalize :: "normalizationContext \<Rightarrow> handlerResult" where
  "responsesInclusiveNormalize ctx =
     (let (tokens, actions, violations) = normalizeNonClaudeCacheRead ctx in
      if matchesResponsesTotalOnlyShape ctx \<or> matchesLegacyCodexCachedOnlyShape ctx then
        \<lparr>hr_tokens = tokens, hr_authority = totalAuthorityPreserve, hr_actions = actions,
         hr_violations = violations\<rparr>
      else
        (let authority =
           (if violations = [] \<and> evidenceStrength (resolution ctx) = EvidenceParserContract
               \<and> \<not> fieldSet_hasAny (clamped ctx)
                    [input_tokens_field, output_tokens_field, reasoning_tokens_field,
                     cache_read_tokens_field, cache_creation_tokens_field]
            then totalAuthorityCanonical else totalAuthorityZeroOnly)
         in \<lparr>hr_tokens = tokens, hr_authority = authority, hr_actions = actions,
             hr_violations = violations\<rparr>))"

definition strictPassThroughNormalize :: "normalizationContext \<Rightarrow> handlerResult" where
  "strictPassThroughNormalize ctx =
     (let (tokens, actions, violations) = normalizeNonClaudeCacheRead ctx in
      \<lparr>hr_tokens = tokens, hr_authority = totalAuthorityZeroOnly, hr_actions = actions,
       hr_violations = violations\<rparr>)"

definition tokenHandlers :: "HandlerID \<rightharpoonup> (normalizationContext \<Rightarrow> handlerResult)" where
  "tokenHandlers =
     [HandlerClaude \<mapsto> claudeNormalize,
      HandlerResponsesInclusive \<mapsto> responsesInclusiveNormalize,
      HandlerStrictPassThrough \<mapsto> strictPassThroughNormalize]"

section \<open>final\_total.go\<close>

definition reconcileZeroOnlyTotal ::
  "TokenValues \<Rightarrow> tokenFieldSet \<Rightarrow> handlerResolution
   \<Rightarrow> TokenValues \<times> Action list \<times> Violation list" where
  "reconcileZeroOnlyTotal tokens clampedFields res =
     (let parents = [input_tokens_field, output_tokens_field, total_tokens_field];
          source = evidenceSource res in
      if TotalTokens tokens \<noteq> 0 then
        (if handlerID res = HandlerStrictPassThrough then (tokens, [], [])
         else case safeAddTokenCounts [InputTokens tokens, OutputTokens tokens] of
           None \<Rightarrow>
             (tokens, [], [mkViolation ViolationTokenArithmeticOverflow parents
                ''zero-only comparison exceeds int64''])
         | Some expectedTotal \<Rightarrow>
             if expectedTotal \<noteq> TotalTokens tokens
             then (tokens, [], [mkViolation ViolationAmbiguousTotalMismatch parents
                ''nonzero total differs from canonical fields without correction authority''])
             else (tokens, [], []))
      else if fieldSet_hasAny clampedFields parents then
        (tokens, [], [mkViolation ViolationAmbiguousTotalMismatch parents
           ''zero total fallback depends on clamped fields''])
      else case safeAddTokenCounts [InputTokens tokens, OutputTokens tokens] of
        None \<Rightarrow>
          (tokens, [], [mkViolation ViolationTokenArithmeticOverflow parents
             ''zero-only input plus output exceeds int64''])
      | Some expectedTotal \<Rightarrow>
          if expectedTotal > 0 then
            (tokens\<lparr>TotalTokens := expectedTotal\<rparr>,
             [mkAction ActionBackfillZeroTotal total_tokens_field (TotalTokens tokens)
                expectedTotal source ''existing_zero_total_input_output''
                TokenOutcomeCompatibility], [])
          else if CacheReadTokens tokens > 0 then
            (tokens\<lparr>TotalTokens := CacheReadTokens tokens\<rparr>,
             [mkAction ActionBackfillZeroTotal total_tokens_field (TotalTokens tokens)
                (CacheReadTokens tokens) source ''existing_zero_total_cache_read''
                TokenOutcomeCompatibility], [])
          else (tokens, [], []))"

definition reconcileCanonicalConflictWithZeroFallback ::
  "TokenValues \<Rightarrow> tokenFieldSet \<Rightarrow> handlerResolution \<Rightarrow> Violation
   \<Rightarrow> TokenValues \<times> Action list \<times> Violation list" where
  "reconcileCanonicalConflictWithZeroFallback tokens clampedFields res conflict =
     (if TotalTokens tokens \<noteq> 0 then (tokens, [], [conflict])
      else
        (let (fallbackTokens, fallbackActions, fallbackViolations) =
           reconcileZeroOnlyTotal tokens clampedFields res
         in (fallbackTokens, fallbackActions, [conflict] @ fallbackViolations)))"

definition reconcileCanonicalTotal ::
  "TokenValues \<Rightarrow> tokenFieldSet \<Rightarrow> handlerResolution
   \<Rightarrow> TokenValues \<times> Action list \<times> Violation list" where
  "reconcileCanonicalTotal tokens clampedFields res =
     (let dependencies =
        [input_tokens_field, output_tokens_field, reasoning_tokens_field, cache_read_tokens_field,
         cache_creation_tokens_field, total_tokens_field];
          source = evidenceSource res in
      if fieldSet_hasAny clampedFields dependencies then
        (tokens, [], [mkViolation ViolationAmbiguousTotalMismatch dependencies
           ''canonical total depends on clamped token fields''])
      else case safeAddTokenCounts [CacheReadTokens tokens, CacheCreationTokens tokens] of
        None \<Rightarrow>
          reconcileCanonicalConflictWithZeroFallback tokens clampedFields res
            (mkViolation ViolationTokenArithmeticOverflow
               [cache_read_tokens_field, cache_creation_tokens_field]
               ''cache token components exceed int64'')
      | Some cacheComponents \<Rightarrow>
          if InputTokens tokens < cacheComponents then
            reconcileCanonicalConflictWithZeroFallback tokens clampedFields res
              (mkViolation ViolationInputBelowCache
                 [input_tokens_field, cache_read_tokens_field, cache_creation_tokens_field]
                 ''canonical input is smaller than cache read plus creation'')
          else if OutputTokens tokens < ReasoningTokens tokens then
            reconcileCanonicalConflictWithZeroFallback tokens clampedFields res
              (mkViolation ViolationOutputBelowReasoning
                 [output_tokens_field, reasoning_tokens_field]
                 ''canonical output is smaller than reasoning'')
          else case safeAddTokenCounts [InputTokens tokens, OutputTokens tokens] of
            None \<Rightarrow>
              (tokens, [], [mkViolation ViolationTokenArithmeticOverflow
                 [input_tokens_field, output_tokens_field, total_tokens_field]
                 ''canonical input plus output exceeds int64''])
          | Some expectedTotal \<Rightarrow>
              if TotalTokens tokens = expectedTotal then (tokens, [], [])
              else
                (let before = TotalTokens tokens;
                     tokens' = tokens\<lparr>TotalTokens := expectedTotal\<rparr> in
                 if before = 0 then
                   (tokens', [mkAction ActionBackfillZeroTotal total_tokens_field before
                      expectedTotal source ''canonical_zero_total'' TokenOutcomeCompatibility], [])
                 else
                   (tokens', [mkAction ActionCorrectNonzeroTotal total_tokens_field before
                      expectedTotal source ''canonical_input_plus_output''
                      TokenOutcomeCorrected], [])))"

fun reconcileFinalTotal ::
  "TokenValues \<Rightarrow> totalAuthority \<Rightarrow> tokenFieldSet \<Rightarrow> handlerResolution
   \<Rightarrow> TokenValues \<times> Action list \<times> Violation list" where
  "reconcileFinalTotal tokens totalAuthorityCanonical clampedFields res =
     reconcileCanonicalTotal tokens clampedFields res"
| "reconcileFinalTotal tokens totalAuthorityZeroOnly clampedFields res =
     reconcileZeroOnlyTotal tokens clampedFields res"
| "reconcileFinalTotal tokens totalAuthorityPreserve clampedFields res = (tokens, [], [])"
| "reconcileFinalTotal tokens (totalAuthorityOther _) clampedFields res =
     (tokens, [], [mkViolation ViolationAmbiguousTotalMismatch [total_tokens_field]
        ''token handler returned unknown total authority''])"

section \<open>processor.go\<close>

text \<open>
  The closure \<open>clamp\<close> of \<open>clampTokenValues\<close> writes through a pointer to a field of the
  values, the action list and the field set; here it takes the field's reader and writer.
\<close>

definition clampField ::
  "TokenField \<Rightarrow> (TokenValues \<Rightarrow> int) \<Rightarrow> (TokenValues \<Rightarrow> TokenValues)
   \<Rightarrow> TokenValues \<times> Action list \<times> tokenFieldSet \<Rightarrow> TokenValues \<times> Action list \<times> tokenFieldSet" where
  "clampField field get zero st =
     (let (values, actions, clampedFields) = st in
      if get values \<ge> 0 then st
      else (zero values,
            actions @ [mkAction ActionClampNegativeToken field (get values) 0 EvidenceDefault
                         ''non_negative_ingress'' TokenOutcomeCorrected],
            insert field clampedFields))"

definition clampTokenValues :: "TokenValues \<Rightarrow> TokenValues \<times> Action list \<times> tokenFieldSet" where
  "clampTokenValues values =
     (let s0 = (values, [], {});
          s1 = clampField input_tokens_field InputTokens (\<lambda>v. v\<lparr>InputTokens := 0\<rparr>) s0;
          s2 = clampField output_tokens_field OutputTokens (\<lambda>v. v\<lparr>OutputTokens := 0\<rparr>) s1;
          s3 = clampField reasoning_tokens_field ReasoningTokens (\<lambda>v. v\<lparr>ReasoningTokens := 0\<rparr>) s2;
          s4 = clampField cached_tokens_field CachedTokens (\<lambda>v. v\<lparr>CachedTokens := 0\<rparr>) s3;
          s5 = clampField cache_read_tokens_field CacheReadTokens (\<lambda>v. v\<lparr>CacheReadTokens := 0\<rparr>) s4;
          s6 = clampField cache_creation_tokens_field CacheCreationTokens
                 (\<lambda>v. v\<lparr>CacheCreationTokens := 0\<rparr>) s5
      in clampField total_tokens_field TotalTokens (\<lambda>v. v\<lparr>TotalTokens := 0\<rparr>) s6)"

fun actionOutcomeOf :: "TokenOutcome \<Rightarrow> Action list \<Rightarrow> TokenOutcome" where
  "actionOutcomeOf acc [] = acc"
| "actionOutcomeOf acc (a # as) =
     (if act_outcome a = TokenOutcomeCorrected then actionOutcomeOf TokenOutcomeCorrected as
      else if act_outcome a = TokenOutcomeCompatibility \<and> acc \<noteq> TokenOutcomeCorrected
        then actionOutcomeOf TokenOutcomeCompatibility as
      else if act_outcome a = TokenOutcomeNormalized \<and> acc = TokenOutcomeValid
        then actionOutcomeOf TokenOutcomeNormalized as
      else actionOutcomeOf acc as)"

definition summarizeTokenOutcome :: "Action list \<Rightarrow> Violation list \<Rightarrow> TokenOutcome" where
  "summarizeTokenOutcome actions violations =
     (if list_ex (\<lambda>v. viol_Code v = ViolationTokenArithmeticOverflow) violations
        then TokenOutcomeOverflow
      else if violations \<noteq> [] then TokenOutcomeAmbiguous
      else
        (let actionOutcome = actionOutcomeOf TokenOutcomeValid actions in
         if actionOutcome \<noteq> TokenOutcomeValid then actionOutcome
         else if actions \<noteq> [] then TokenOutcomeNormalized
         else TokenOutcomeValid))"

definition strictDefaultResolution :: handlerResolution where
  "strictDefaultResolution =
     \<lparr>handlerID = HandlerStrictPassThrough, evidenceSource = EvidenceDefault,
      evidenceStrength = EvidenceUnknown, executorType = [], identityType = [],
      needsIdentity = False, unknownExecutor = False\<rparr>"

text \<open>The first argument of the pair is the handler to run, the second the resolution it sees.\<close>

definition selectHandler ::
  "handlerResolution option \<Rightarrow> (normalizationContext \<Rightarrow> handlerResult) \<times> handlerResolution" where
  "selectHandler res =
     (let resolved = (case res of Some r \<Rightarrow> r | None \<Rightarrow> strictDefaultResolution) in
      case tokenHandlers (handlerID resolved) of
        Some handler \<Rightarrow> (handler, resolved)
      | None \<Rightarrow> (strictPassThroughNormalize,
          resolved\<lparr>handlerID := HandlerStrictPassThrough, evidenceSource := EvidenceDefault,
            evidenceStrength := EvidenceUnknown\<rparr>))"

text \<open>\<open>Process\<close> once the handler and its resolution are chosen.\<close>

definition processWith ::
  "(normalizationContext \<Rightarrow> handlerResult) \<Rightarrow> handlerResolution \<Rightarrow> TokenValues \<Rightarrow> ProcessResult" where
  "processWith handler resolved values =
     (let (nonNeg, clampActions, clampedFields) = clampTokenValues values;
          handled = handler \<lparr>nonNegative = nonNeg, clamped = clampedFields, resolution = resolved\<rparr>;
          (tokens, totalActions, totalViolations) =
            reconcileFinalTotal (hr_tokens handled) (hr_authority handled) clampedFields resolved;
          actions = clampActions @ hr_actions handled @ totalActions;
          violations = hr_violations handled @ totalViolations
      in \<lparr>Tokens = tokens, Actions = actions, Violations = violations,
          Outcome = summarizeTokenOutcome actions violations\<rparr>)"

definition Process :: "TokenValues \<Rightarrow> handlerResolution option \<Rightarrow> ProcessResult" where
  "Process values res =
     (let (handler, resolved) = selectHandler res in processWith handler resolved values)"

section \<open>Specification: ranges, replaying the audit trail\<close>

text \<open>
  \<open>wf_tokens\<close> is the range every stored token count has; \<open>raw_tokens\<close> only says that the
  reported counts are \<open>int64\<close> values. \<open>replay\<close> applies an audit trail: each action must start
  from the value it says it found and must change it.
\<close>

fun token_get :: "TokenField \<Rightarrow> TokenValues \<Rightarrow> int" where
  "token_get input_tokens_field v = InputTokens v"
| "token_get output_tokens_field v = OutputTokens v"
| "token_get reasoning_tokens_field v = ReasoningTokens v"
| "token_get cached_tokens_field v = CachedTokens v"
| "token_get cache_read_tokens_field v = CacheReadTokens v"
| "token_get cache_creation_tokens_field v = CacheCreationTokens v"
| "token_get total_tokens_field v = TotalTokens v"

fun token_set :: "TokenField \<Rightarrow> int \<Rightarrow> TokenValues \<Rightarrow> TokenValues" where
  "token_set input_tokens_field n v = v\<lparr>InputTokens := n\<rparr>"
| "token_set output_tokens_field n v = v\<lparr>OutputTokens := n\<rparr>"
| "token_set reasoning_tokens_field n v = v\<lparr>ReasoningTokens := n\<rparr>"
| "token_set cached_tokens_field n v = v\<lparr>CachedTokens := n\<rparr>"
| "token_set cache_read_tokens_field n v = v\<lparr>CacheReadTokens := n\<rparr>"
| "token_set cache_creation_tokens_field n v = v\<lparr>CacheCreationTokens := n\<rparr>"
| "token_set total_tokens_field n v = v\<lparr>TotalTokens := n\<rparr>"

fun replay :: "TokenValues \<Rightarrow> Action list \<Rightarrow> TokenValues option" where
  "replay v [] = Some v"
| "replay v (a # as) =
     (if token_get (act_Field a) v = act_Before a \<and> act_After a \<noteq> act_Before a
      then replay (token_set (act_Field a) (act_After a) v) as else None)"

definition raw_tokens :: "TokenValues \<Rightarrow> bool" where
  "raw_tokens v \<longleftrightarrow>
     in_i64 (InputTokens v) \<and> in_i64 (OutputTokens v) \<and> in_i64 (ReasoningTokens v) \<and>
     in_i64 (CachedTokens v) \<and> in_i64 (CacheReadTokens v) \<and> in_i64 (CacheCreationTokens v) \<and>
     in_i64 (TotalTokens v)"

definition nonneg_tokens :: "TokenValues \<Rightarrow> bool" where
  "nonneg_tokens v \<longleftrightarrow>
     0 \<le> InputTokens v \<and> 0 \<le> OutputTokens v \<and> 0 \<le> ReasoningTokens v \<and>
     0 \<le> CachedTokens v \<and> 0 \<le> CacheReadTokens v \<and> 0 \<le> CacheCreationTokens v \<and>
     0 \<le> TotalTokens v"

definition wf_tokens :: "TokenValues \<Rightarrow> bool" where
  "wf_tokens v \<longleftrightarrow> raw_tokens v \<and> nonneg_tokens v"

lemmas wf_tokens_defs = wf_tokens_def raw_tokens_def nonneg_tokens_def

section \<open>Checked addition\<close>

lemma safeAddFrom_step:
  assumes "in_i64 acc" "in_i64 v"
  shows "safeAddFrom acc (v # vs) =
    (if in_i64 (acc + v) then safeAddFrom (acc + v) vs else None)"
proof -
  have "0 < v \<Longrightarrow> in_i64 (MaxInt64 - v)" "v < 0 \<Longrightarrow> in_i64 (MinInt64 - v)"
    using assms by (auto simp: in_i64_def MaxInt64_def MinInt64_def)
  moreover have "in_i64 (acc + v) \<longleftrightarrow> acc + v \<le> MaxInt64 \<and> MinInt64 \<le> acc + v"
    by (auto simp: in_i64_def)
  moreover have "v \<le> 0 \<Longrightarrow> acc + v \<le> MaxInt64" "0 \<le> v \<Longrightarrow> MinInt64 \<le> acc + v"
    using assms by (auto simp: in_i64_def)
  ultimately show ?thesis
    by (cases v "0::int" rule: linorder_cases) auto
qed

declare safeAddFrom.simps(2) [simp del]

lemma safeAddFrom_exact:
  assumes "in_i64 acc" "\<forall>v \<in> set vs. in_i64 v"
  shows "safeAddFrom acc vs =
    (if \<forall>k \<le> length vs. in_i64 (acc + sum_list (take k vs)) then Some (acc + sum_list vs) else None)"
  using assms
proof (induction vs arbitrary: acc)
  case (Cons v vs)
  have all: "(\<forall>k \<le> length (v # vs). in_i64 (acc + sum_list (take k (v # vs)))) \<longleftrightarrow>
      in_i64 (acc + v) \<and> (\<forall>k \<le> length vs. in_i64 (acc + v + sum_list (take k vs)))"
    (is "?L \<longleftrightarrow> ?R")
  proof
    assume L: ?L
    have "in_i64 (acc + v + sum_list (take k vs))" if "k \<le> length vs" for k
      using L [rule_format, of "Suc k"] that by (simp add: add.assoc)
    then show ?R using L [rule_format, of 1] by simp
  next
    assume R: ?R
    have "in_i64 (acc + sum_list (take k (v # vs)))" if "k \<le> length (v # vs)" for k
      using R Cons.prems(1) that by (cases k) (auto simp: add.assoc)
    then show ?L by blast
  qed
  moreover have "safeAddFrom acc (v # vs) =
      (if in_i64 (acc + v) then safeAddFrom (acc + v) vs else None)"
    using Cons.prems by (intro safeAddFrom_step) simp_all
  ultimately show ?case
    using Cons.IH [of "acc + v"] Cons.prems by (simp add: add.assoc)
qed simp

lemma safeAddFrom_nonneg:
  assumes "in_i64 acc" "0 \<le> acc" "\<forall>v \<in> set vs. in_i64 v \<and> 0 \<le> v"
  shows "safeAddFrom acc vs =
    (if acc + sum_list vs \<le> MaxInt64 then Some (acc + sum_list vs) else None)"
  using assms
proof (induction vs arbitrary: acc)
  case (Cons v vs)
  have "0 \<le> sum_list vs" using Cons.prems by (simp add: sum_list_nonneg)
  moreover have "in_i64 (acc + v) \<longleftrightarrow> acc + v \<le> MaxInt64"
    using Cons.prems by (auto simp: in_i64_def MinInt64_def)
  ultimately show ?case
    using Cons.prems Cons.IH [of "acc + v"] by (simp add: safeAddFrom_step add.assoc)
qed (simp add: in_i64_def)

lemma safeAdd_nonneg:
  assumes "\<forall>v \<in> set vs. in_i64 v \<and> 0 \<le> v"
  shows "safeAddTokenCounts vs = (if sum_list vs \<le> MaxInt64 then Some (sum_list vs) else None)"
  unfolding safeAddTokenCounts_def using safeAddFrom_nonneg [OF _ _ assms, of 0] by simp

lemma safeAdd_two:
  "in_i64 a \<Longrightarrow> 0 \<le> a \<Longrightarrow> in_i64 b \<Longrightarrow> 0 \<le> b \<Longrightarrow>
   safeAddTokenCounts [a, b] = (if a + b \<le> MaxInt64 then Some (a + b) else None)"
  by (simp add: safeAdd_nonneg)

lemma safeAdd_three:
  "in_i64 a \<Longrightarrow> 0 \<le> a \<Longrightarrow> in_i64 b \<Longrightarrow> 0 \<le> b \<Longrightarrow> in_i64 c \<Longrightarrow> 0 \<le> c \<Longrightarrow>
   safeAddTokenCounts [a, b, c] = (if a + b + c \<le> MaxInt64 then Some (a + b + c) else None)"
  by (simp add: safeAdd_nonneg add.assoc)

lemma safeAdd_in_i64: "safeAddTokenCounts vs = Some s \<Longrightarrow> in_i64 s"
proof -
  have "safeAddFrom acc vs = Some s \<Longrightarrow> in_i64 acc \<Longrightarrow> in_i64 s" for acc
    by (induction vs arbitrary: acc) (auto simp: safeAddFrom.simps(2) split: if_splits)
  then show "safeAddTokenCounts vs = Some s \<Longrightarrow> in_i64 s"
    by (simp add: safeAddTokenCounts_def)
qed

lemma safeAdd_nonneg_result:
  assumes "safeAddTokenCounts vs = Some s" "\<forall>v \<in> set vs. in_i64 v \<and> 0 \<le> v"
  shows "0 \<le> s"
  using assms by (auto simp: safeAdd_nonneg split: if_splits intro: sum_list_nonneg)

section \<open>What every handler promises\<close>

lemma replay_append:
  "replay v (as @ bs) = (case replay v as of None \<Rightarrow> None | Some w \<Rightarrow> replay w bs)"
  by (induction v as rule: replay.induct) auto

lemma fieldSet_hasAny_iff [simp]: "fieldSet_hasAny fs names \<longleftrightarrow> (\<exists>f \<in> set names. f \<in> fs)"
  by (induction names) (auto simp: fieldSet_has_def)

text \<open>
  \<open>marked\<close> says that an action carries an outcome the summary knows, so that no change is
  summarised as valid.
\<close>

definition marked :: "Action \<Rightarrow> bool" where
  "marked a \<longleftrightarrow>
     act_outcome a \<in> {TokenOutcomeNormalized, TokenOutcomeCompatibility, TokenOutcomeCorrected}"

locale token_handler =
  fixes normalize :: "normalizationContext \<Rightarrow> handlerResult"
  assumes frame:
      "OutputTokens (hr_tokens (normalize ctx)) = OutputTokens (nonNegative ctx)"
      "ReasoningTokens (hr_tokens (normalize ctx)) = ReasoningTokens (nonNegative ctx)"
      "CacheCreationTokens (hr_tokens (normalize ctx)) = CacheCreationTokens (nonNegative ctx)"
      "CacheReadPresent (hr_tokens (normalize ctx)) = CacheReadPresent (nonNegative ctx)"
      "TotalTokens (hr_tokens (normalize ctx)) = TotalTokens (nonNegative ctx)"
    and range: "wf_tokens (nonNegative ctx) \<Longrightarrow> wf_tokens (hr_tokens (normalize ctx))"
    and trail: "replay (nonNegative ctx) (hr_actions (normalize ctx)) = Some (hr_tokens (normalize ctx))"
    and marks: "a \<in> set (hr_actions (normalize ctx)) \<Longrightarrow> marked a"

lemma normalizeNonClaudeCacheRead_cases:
  obtains
    (same) vs where "normalizeNonClaudeCacheRead ctx = (nonNegative ctx, [], vs)"
  | (filled) "CacheReadTokens (nonNegative ctx) = 0" "0 < CachedTokens (nonNegative ctx)"
      "normalizeNonClaudeCacheRead ctx =
         ((nonNegative ctx)\<lparr>CacheReadTokens := CachedTokens (nonNegative ctx)\<rparr>,
          [mkAction ActionBackfillCacheReadAlias cache_read_tokens_field 0
             (CachedTokens (nonNegative ctx)) (evidenceSource (resolution ctx))
             ''non_claude_cached_to_read_alias'' TokenOutcomeCompatibility], [])"
proof (cases "\<exists>vs. normalizeNonClaudeCacheRead ctx = (nonNegative ctx, [], vs)")
  case True
  then show ?thesis using same by blast
next
  case False
  then have "CacheReadTokens (nonNegative ctx) = 0" "0 < CachedTokens (nonNegative ctx)"
    by (simp_all add: normalizeNonClaudeCacheRead_def Let_def split: if_splits)
  with False show ?thesis
    by (intro filled) (simp_all add: normalizeNonClaudeCacheRead_def Let_def split: if_splits)
qed

lemma responses_tokens:
  "(hr_tokens (responsesInclusiveNormalize ctx), hr_actions (responsesInclusiveNormalize ctx),
    hr_violations (responsesInclusiveNormalize ctx)) = normalizeNonClaudeCacheRead ctx"
  by (auto simp: responsesInclusiveNormalize_def Let_def split: prod.splits)

lemma strict_tokens:
  "(hr_tokens (strictPassThroughNormalize ctx), hr_actions (strictPassThroughNormalize ctx),
    hr_violations (strictPassThroughNormalize ctx)) = normalizeNonClaudeCacheRead ctx"
  by (auto simp: strictPassThroughNormalize_def Let_def split: prod.splits)

text \<open>A handler that only runs the shared cache alias keeps the contract.\<close>

lemma alias_only_handler:
  fixes normalize :: "normalizationContext \<Rightarrow> handlerResult"
  assumes "\<And>ctx. (hr_tokens (normalize ctx), hr_actions (normalize ctx),
             hr_violations (normalize ctx)) = normalizeNonClaudeCacheRead ctx"
  shows "token_handler normalize"
proof
  fix ctx a
  show "OutputTokens (hr_tokens (normalize ctx)) = OutputTokens (nonNegative ctx)"
    "ReasoningTokens (hr_tokens (normalize ctx)) = ReasoningTokens (nonNegative ctx)"
    "CacheCreationTokens (hr_tokens (normalize ctx)) = CacheCreationTokens (nonNegative ctx)"
    "CacheReadPresent (hr_tokens (normalize ctx)) = CacheReadPresent (nonNegative ctx)"
    "TotalTokens (hr_tokens (normalize ctx)) = TotalTokens (nonNegative ctx)"
    "replay (nonNegative ctx) (hr_actions (normalize ctx)) = Some (hr_tokens (normalize ctx))"
    by (cases ctx rule: normalizeNonClaudeCacheRead_cases; use assms [of ctx] in simp)+
  show "wf_tokens (nonNegative ctx) \<Longrightarrow> wf_tokens (hr_tokens (normalize ctx))"
    by (cases ctx rule: normalizeNonClaudeCacheRead_cases; use assms [of ctx] in \<open>simp add: wf_tokens_defs\<close>)
  show "a \<in> set (hr_actions (normalize ctx)) \<Longrightarrow> marked a"
    by (cases ctx rule: normalizeNonClaudeCacheRead_cases; use assms [of ctx] in \<open>simp add: marked_def\<close>)
qed

interpretation responses_handler: token_handler responsesInclusiveNormalize
  by (rule alias_only_handler) (rule responses_tokens)

interpretation strict_handler: token_handler strictPassThroughNormalize
  by (rule alias_only_handler) (rule strict_tokens)

text \<open>
  The Claude handler folds the cache into the input or leaves the input alone, and always makes
  the cached alias equal to the explicit read.
\<close>

lemma claudeNormalize_tokens:
  "hr_tokens (claudeNormalize ctx) =
     (nonNegative ctx)\<lparr>
       InputTokens :=
         (if fieldSet_hasAny (clamped ctx)
               [input_tokens_field, cache_read_tokens_field, cache_creation_tokens_field]
          then InputTokens (nonNegative ctx)
          else case safeAddTokenCounts [InputTokens (nonNegative ctx),
                      CacheReadTokens (nonNegative ctx), CacheCreationTokens (nonNegative ctx)] of
            None \<Rightarrow> InputTokens (nonNegative ctx) | Some input \<Rightarrow> input),
       CachedTokens := CacheReadTokens (nonNegative ctx)\<rparr>"
  by (auto simp: claudeNormalize_def Let_def split: option.splits)

lemma claudeNormalize_actions:
  "hr_actions (claudeNormalize ctx) =
     (if InputTokens (hr_tokens (claudeNormalize ctx)) \<noteq> InputTokens (nonNegative ctx)
      then [mkAction ActionNormalizeClaudeInput input_tokens_field (InputTokens (nonNegative ctx))
              (InputTokens (hr_tokens (claudeNormalize ctx))) (evidenceSource (resolution ctx))
              ''claude_input_excludes_cache'' TokenOutcomeNormalized] else []) @
     (if CachedTokens (nonNegative ctx) \<noteq> CacheReadTokens (nonNegative ctx)
      then [mkAction ActionNormalizeClaudeCachedAlias cached_tokens_field
              (CachedTokens (nonNegative ctx)) (CacheReadTokens (nonNegative ctx))
              (evidenceSource (resolution ctx)) ''claude_cached_equals_explicit_read''
              TokenOutcomeNormalized] else [])"
  by (auto simp: claudeNormalize_def Let_def split: option.splits)

interpretation claude_handler: token_handler claudeNormalize
proof
  fix ctx a
  show "OutputTokens (hr_tokens (claudeNormalize ctx)) = OutputTokens (nonNegative ctx)"
    "ReasoningTokens (hr_tokens (claudeNormalize ctx)) = ReasoningTokens (nonNegative ctx)"
    "CacheCreationTokens (hr_tokens (claudeNormalize ctx)) = CacheCreationTokens (nonNegative ctx)"
    "CacheReadPresent (hr_tokens (claudeNormalize ctx)) = CacheReadPresent (nonNegative ctx)"
    "TotalTokens (hr_tokens (claudeNormalize ctx)) = TotalTokens (nonNegative ctx)"
    by (simp_all add: claudeNormalize_tokens)
  show "wf_tokens (nonNegative ctx) \<Longrightarrow> wf_tokens (hr_tokens (claudeNormalize ctx))"
    by (auto simp: claudeNormalize_tokens wf_tokens_defs safeAdd_three in_i64_def
        split: option.splits if_splits)
  show "replay (nonNegative ctx) (hr_actions (claudeNormalize ctx)) =
      Some (hr_tokens (claudeNormalize ctx))"
    by (auto simp: claudeNormalize_actions) (auto simp: claudeNormalize_tokens)
  show "a \<in> set (hr_actions (claudeNormalize ctx)) \<Longrightarrow> marked a"
    by (auto simp: claudeNormalize_actions marked_def split: if_splits)
qed

section \<open>The final total\<close>

text \<open>
  \<open>total_step t as u\<close>: the actions \<open>as\<close> explain the step from \<open>t\<close> to \<open>u\<close>, which
  changes at most the total and keeps the values in range.
\<close>

definition total_step :: "TokenValues \<Rightarrow> Action list \<Rightarrow> TokenValues \<Rightarrow> bool" where
  "total_step t as u \<longleftrightarrow>
     replay t as = Some u \<and> list_all marked as \<and> u = t\<lparr>TotalTokens := TotalTokens u\<rparr> \<and>
     (wf_tokens t \<longrightarrow> wf_tokens u)"

lemma total_step_refl [simp]: "total_step t [] t"
  by (simp add: total_step_def)

lemma total_step_set:
  assumes "before = TotalTokens t" "n \<noteq> TotalTokens t" "oc \<in> {TokenOutcomeNormalized, TokenOutcomeCompatibility, TokenOutcomeCorrected}"
    and "wf_tokens t \<Longrightarrow> in_i64 n \<and> 0 \<le> n"
  shows "total_step t [mkAction code total_tokens_field before n source rule oc]
           (t\<lparr>TotalTokens := n\<rparr>)"
  using assms by (auto simp: total_step_def marked_def wf_tokens_defs)

lemma wf_sum_range:
  assumes "wf_tokens t" "safeAddTokenCounts [InputTokens t, OutputTokens t] = Some n"
  shows "in_i64 n \<and> 0 \<le> n"
  using assms safeAdd_in_i64 safeAdd_nonneg_result [OF assms(2)] by (auto simp: wf_tokens_defs)

lemmas wf_sum_in_i64 = wf_sum_range [THEN conjunct1]
  and wf_sum_nonneg = wf_sum_range [THEN conjunct2]

lemma reconcileZeroOnlyTotal_step:
  assumes "reconcileZeroOnlyTotal t cl res = (u, as, vs)"
  shows "total_step t as u"
  using assms
  by (auto simp: reconcileZeroOnlyTotal_def Let_def intro!: total_step_set
      intro: wf_sum_in_i64 wf_sum_nonneg simp: wf_tokens_defs split: if_splits option.splits)

lemma reconcileConflict_step:
  assumes "reconcileCanonicalConflictWithZeroFallback t cl res c = (u, as, vs)"
  shows "total_step t as u"
  using assms reconcileZeroOnlyTotal_step
  by (auto simp: reconcileCanonicalConflictWithZeroFallback_def Let_def
      split: if_splits prod.splits)

lemma reconcileCanonicalTotal_step:
  assumes "reconcileCanonicalTotal t cl res = (u, as, vs)"
  shows "total_step t as u"
  using assms
  by (auto simp: reconcileCanonicalTotal_def Let_def split: if_splits option.splits
      dest!: reconcileConflict_step intro!: total_step_set intro: wf_sum_in_i64 wf_sum_nonneg)

lemma reconcileFinalTotal_step:
  assumes "reconcileFinalTotal t authority cl res = (u, as, vs)"
  shows "total_step t as u"
  using assms reconcileCanonicalTotal_step reconcileZeroOnlyTotal_step by (cases authority) auto

section \<open>Clamping\<close>

text \<open>The clamped values and the set of clamped fields in closed form.\<close>

definition nonneg_part :: "TokenValues \<Rightarrow> TokenValues" where
  "nonneg_part v =
     v\<lparr>InputTokens := max 0 (InputTokens v), OutputTokens := max 0 (OutputTokens v),
       ReasoningTokens := max 0 (ReasoningTokens v), CachedTokens := max 0 (CachedTokens v),
       CacheReadTokens := max 0 (CacheReadTokens v),
       CacheCreationTokens := max 0 (CacheCreationTokens v), TotalTokens := max 0 (TotalTokens v)\<rparr>"

definition negative_fields :: "TokenValues \<Rightarrow> tokenFieldSet" where
  "negative_fields v = {f. token_get f v < 0}"

text \<open>One call of the closure extends a valid audit trail by at most one marked action.\<close>

definition clamp_inv :: "TokenValues \<Rightarrow> TokenValues \<times> Action list \<times> tokenFieldSet \<Rightarrow> bool" where
  "clamp_inv v st \<longleftrightarrow>
     (case st of (w, as, cl) \<Rightarrow> replay v as = Some w \<and> list_all marked as \<and> (as = [] \<longleftrightarrow> cl = {}))"

lemma clampField_inv:
  assumes "clamp_inv v st" "get = token_get field" "\<And>w. zero w = token_set field 0 w"
  shows "clamp_inv v (clampField field get zero st)"
  using assms
  by (cases st) (auto simp: clamp_inv_def clampField_def replay_append marked_def)

lemma clampTokenValues_inv: "clamp_inv v (clampTokenValues v)"
  unfolding clampTokenValues_def Let_def
  by (intro clampField_inv) (simp_all add: clamp_inv_def fun_eq_iff)

definition clampAction :: "TokenField \<Rightarrow> int \<Rightarrow> Action list" where
  "clampAction field n =
     (if n < 0 then [mkAction ActionClampNegativeToken field n 0 EvidenceDefault
                       ''non_negative_ingress'' TokenOutcomeCorrected] else [])"

lemma clampField_closed:
  "clampField input_tokens_field InputTokens (\<lambda>v. v\<lparr>InputTokens := 0\<rparr>) (w, as, cl) =
     (w\<lparr>InputTokens := max 0 (InputTokens w)\<rparr>, as @ clampAction input_tokens_field (InputTokens w),
      (if InputTokens w < 0 then insert input_tokens_field cl else cl))"
  "clampField output_tokens_field OutputTokens (\<lambda>v. v\<lparr>OutputTokens := 0\<rparr>) (w, as, cl) =
     (w\<lparr>OutputTokens := max 0 (OutputTokens w)\<rparr>, as @ clampAction output_tokens_field (OutputTokens w),
      (if OutputTokens w < 0 then insert output_tokens_field cl else cl))"
  "clampField reasoning_tokens_field ReasoningTokens (\<lambda>v. v\<lparr>ReasoningTokens := 0\<rparr>) (w, as, cl) =
     (w\<lparr>ReasoningTokens := max 0 (ReasoningTokens w)\<rparr>, as @ clampAction reasoning_tokens_field (ReasoningTokens w),
      (if ReasoningTokens w < 0 then insert reasoning_tokens_field cl else cl))"
  "clampField cached_tokens_field CachedTokens (\<lambda>v. v\<lparr>CachedTokens := 0\<rparr>) (w, as, cl) =
     (w\<lparr>CachedTokens := max 0 (CachedTokens w)\<rparr>, as @ clampAction cached_tokens_field (CachedTokens w),
      (if CachedTokens w < 0 then insert cached_tokens_field cl else cl))"
  "clampField cache_read_tokens_field CacheReadTokens (\<lambda>v. v\<lparr>CacheReadTokens := 0\<rparr>) (w, as, cl) =
     (w\<lparr>CacheReadTokens := max 0 (CacheReadTokens w)\<rparr>, as @ clampAction cache_read_tokens_field (CacheReadTokens w),
      (if CacheReadTokens w < 0 then insert cache_read_tokens_field cl else cl))"
  "clampField cache_creation_tokens_field CacheCreationTokens (\<lambda>v. v\<lparr>CacheCreationTokens := 0\<rparr>) (w, as, cl) =
     (w\<lparr>CacheCreationTokens := max 0 (CacheCreationTokens w)\<rparr>, as @ clampAction cache_creation_tokens_field (CacheCreationTokens w),
      (if CacheCreationTokens w < 0 then insert cache_creation_tokens_field cl else cl))"
  "clampField total_tokens_field TotalTokens (\<lambda>v. v\<lparr>TotalTokens := 0\<rparr>) (w, as, cl) =
     (w\<lparr>TotalTokens := max 0 (TotalTokens w)\<rparr>, as @ clampAction total_tokens_field (TotalTokens w),
      (if TotalTokens w < 0 then insert total_tokens_field cl else cl))"
  by (cases w; simp add: clampField_def clampAction_def)+

lemma clampTokenValues_closed:
  "fst (clampTokenValues v) = nonneg_part v"
  "snd (snd (clampTokenValues v)) = negative_fields v"
proof -
  show "fst (clampTokenValues v) = nonneg_part v"
    by (simp add: clampTokenValues_def nonneg_part_def clampField_closed)
  have "f \<in> snd (snd (clampTokenValues v)) \<longleftrightarrow> token_get f v < 0" for f
    by (cases f) (simp_all add: clampTokenValues_def clampField_closed)
  then show "snd (snd (clampTokenValues v)) = negative_fields v"
    by (auto simp: negative_fields_def)
qed

section \<open>Processing with any handler that keeps the contract\<close>

lemma nonneg_part_wf: "raw_tokens v \<Longrightarrow> wf_tokens (nonneg_part v)"
  by (auto simp: wf_tokens_defs nonneg_part_def max_def)

lemma nonneg_part_id: "nonneg_tokens v \<Longrightarrow> nonneg_part v = v"
  by (simp add: nonneg_part_def nonneg_tokens_def)

lemma negative_fields_empty: "nonneg_tokens v \<Longrightarrow> negative_fields v = {}"
proof -
  assume v: "nonneg_tokens v"
  have "\<not> token_get f v < 0" for f
    using v by (cases f) (auto simp: nonneg_tokens_def)
  then show ?thesis by (simp add: negative_fields_def)
qed

text \<open>The context a handler sees, and the intermediate results, by name.\<close>

abbreviation contextOf :: "handlerResolution \<Rightarrow> TokenValues \<Rightarrow> normalizationContext" where
  "contextOf res v \<equiv>
     \<lparr>nonNegative = nonneg_part v, clamped = negative_fields v, resolution = res\<rparr>"

lemma processWith_parts:
  assumes "reconcileFinalTotal (hr_tokens (handler (contextOf res v)))
      (hr_authority (handler (contextOf res v))) (negative_fields v) res = (u, as, vs)"
  shows "Tokens (processWith handler res v) = u"
    and "Actions (processWith handler res v) =
           fst (snd (clampTokenValues v)) @ hr_actions (handler (contextOf res v)) @ as"
    and "Violations (processWith handler res v) = hr_violations (handler (contextOf res v)) @ vs"
proof -
  have "clampTokenValues v = (nonneg_part v, fst (snd (clampTokenValues v)), negative_fields v)"
    using clampTokenValues_closed [of v] by (metis prod.collapse)
  then obtain ca where "clampTokenValues v = (nonneg_part v, ca, negative_fields v)" by blast
  with assms show "Tokens (processWith handler res v) = u"
    "Actions (processWith handler res v) =
       fst (snd (clampTokenValues v)) @ hr_actions (handler (contextOf res v)) @ as"
    "Violations (processWith handler res v) = hr_violations (handler (contextOf res v)) @ vs"
    by (simp_all add: processWith_def Let_def)
qed

lemma Outcome_processWith:
  "Outcome (processWith handler res v) =
     summarizeTokenOutcome (Actions (processWith handler res v)) (Violations (processWith handler res v))"
  by (simp add: processWith_def Let_def split: prod.splits)

lemma actionOutcomeOf_not_valid:
  "acc \<noteq> TokenOutcomeValid \<Longrightarrow> actionOutcomeOf acc as \<noteq> TokenOutcomeValid"
  by (induction acc as rule: actionOutcomeOf.induct) auto

lemma actionOutcomeOf_range:
  "acc \<notin> {TokenOutcomeOverflow, TokenOutcomeAmbiguous} \<Longrightarrow>
   actionOutcomeOf acc as \<notin> {TokenOutcomeOverflow, TokenOutcomeAmbiguous}"
  by (induction acc as rule: actionOutcomeOf.induct) auto

lemma summarize_valid_iff:
  "summarizeTokenOutcome as vs = TokenOutcomeValid \<longleftrightarrow> as = [] \<and> vs = []"
  by (auto simp: summarizeTokenOutcome_def Let_def)

lemma summarize_ambiguous_iff:
  "summarizeTokenOutcome as vs \<in> {TokenOutcomeAmbiguous, TokenOutcomeOverflow} \<longleftrightarrow> vs \<noteq> []"
  using actionOutcomeOf_range [of TokenOutcomeValid as]
  by (auto simp: summarizeTokenOutcome_def Let_def list_ex_iff)

context token_handler
begin

text \<open>One run, taken apart: the handler's result \<open>h\<close>, then a step of the total.\<close>

lemma process_step:
  fixes res v
  defines "h \<equiv> normalize (contextOf res v)" and "r \<equiv> processWith normalize res v"
  obtains as where "total_step (hr_tokens h) as (Tokens r)"
    and "Actions r = fst (snd (clampTokenValues v)) @ hr_actions h @ as"
proof -
  obtain u as vs where r: "reconcileFinalTotal (hr_tokens h) (hr_authority h)
      (negative_fields v) res = (u, as, vs)"
    by (metis prod_cases3)
  from processWith_parts [where handler = normalize and res = res and v = v] r reconcileFinalTotal_step [OF r]
  show ?thesis by (intro that [of as]) (simp_all add: h_def r_def)
qed

lemma process_trail: "replay v (Actions (processWith normalize res v)) = Some (Tokens (processWith normalize res v))"
proof -
  have "replay v (fst (snd (clampTokenValues v))) = Some (nonneg_part v)"
    using clampTokenValues_inv [of v] clampTokenValues_closed [of v]
    by (auto simp: clamp_inv_def split: prod.splits)
  then show ?thesis
    using trail [of "contextOf res v"]
    by (rule_tac res = res and v = v in process_step) (simp add: replay_append total_step_def)
qed

lemma process_range: "raw_tokens v \<Longrightarrow> wf_tokens (Tokens (processWith normalize res v))"
  using range [of "contextOf res v"]
  by (rule_tac res = res and v = v in process_step) (simp add: nonneg_part_wf total_step_def)

lemma process_frame:
  "OutputTokens (Tokens (processWith normalize res v)) = max 0 (OutputTokens v)"
  "ReasoningTokens (Tokens (processWith normalize res v)) = max 0 (ReasoningTokens v)"
  "CacheCreationTokens (Tokens (processWith normalize res v)) = max 0 (CacheCreationTokens v)"
  "CacheReadPresent (Tokens (processWith normalize res v)) = CacheReadPresent v"
proof -
  have u: "Tokens (processWith normalize res v) = (hr_tokens (normalize (contextOf res v)))
      \<lparr>TotalTokens := TotalTokens (Tokens (processWith normalize res v))\<rparr>"
    by (rule_tac res = res and v = v in process_step) (simp add: total_step_def)
  show "OutputTokens (Tokens (processWith normalize res v)) = max 0 (OutputTokens v)"
    "ReasoningTokens (Tokens (processWith normalize res v)) = max 0 (ReasoningTokens v)"
    "CacheCreationTokens (Tokens (processWith normalize res v)) = max 0 (CacheCreationTokens v)"
    "CacheReadPresent (Tokens (processWith normalize res v)) = CacheReadPresent v"
    by (subst u, simp add: frame nonneg_part_def)+
qed

lemma process_valid_unchanged:
  "Outcome (processWith normalize res v) = TokenOutcomeValid \<Longrightarrow> Tokens (processWith normalize res v) = v"
  using process_trail [of v res] by (simp add: Outcome_processWith summarize_valid_iff)

end

lemma selectHandler_contract: "token_handler (fst (selectHandler res))"
  using claude_handler.token_handler_axioms responses_handler.token_handler_axioms
    strict_handler.token_handler_axioms
  by (auto simp: selectHandler_def tokenHandlers_def Let_def split: option.splits if_splits)

lemma Process_with:
  "Process v res = processWith (fst (selectHandler res)) (snd (selectHandler res)) v"
  by (simp add: Process_def split: prod.splits)

section \<open>The three handlers on undamaged values\<close>

text \<open>
  When no reported count is negative nothing is clamped, and the handlers and the reconciler
  have short closed forms.
\<close>

abbreviation plainContext :: "handlerResolution \<Rightarrow> TokenValues \<Rightarrow> normalizationContext" where
  "plainContext res v \<equiv> \<lparr>nonNegative = v, clamped = {}, resolution = res\<rparr>"

lemma processWith_plain:
  assumes "nonneg_tokens v"
  shows "Tokens (processWith handler res v) =
           fst (reconcileFinalTotal (hr_tokens (handler (plainContext res v)))
                  (hr_authority (handler (plainContext res v))) {} res)"
    and "Violations (processWith handler res v) =
           hr_violations (handler (plainContext res v)) @
           snd (snd (reconcileFinalTotal (hr_tokens (handler (plainContext res v)))
                  (hr_authority (handler (plainContext res v))) {} res))"
  using assms clampTokenValues_closed [of v]
  by (auto simp: processWith_def nonneg_part_id negative_fields_empty Let_def split: prod.splits)

lemma reconcileCanonicalTotal_agrees:
  assumes "wf_tokens t" "CacheReadTokens t + CacheCreationTokens t \<le> InputTokens t"
    and "ReasoningTokens t \<le> OutputTokens t" "InputTokens t + OutputTokens t \<le> MaxInt64"
  shows "fst (reconcileCanonicalTotal t {} res) = t\<lparr>TotalTokens := InputTokens t + OutputTokens t\<rparr>"
    and "snd (snd (reconcileCanonicalTotal t {} res)) = []"
proof -
  have cache: "safeAddTokenCounts [CacheReadTokens t, CacheCreationTokens t] =
      Some (CacheReadTokens t + CacheCreationTokens t)"
    using assms by (simp add: safeAdd_two wf_tokens_defs in_i64_def)
  have parents: "safeAddTokenCounts [InputTokens t, OutputTokens t] =
      Some (InputTokens t + OutputTokens t)"
    using assms by (simp add: safeAdd_two wf_tokens_defs)
  show "fst (reconcileCanonicalTotal t {} res) = t\<lparr>TotalTokens := InputTokens t + OutputTokens t\<rparr>"
    and "snd (snd (reconcileCanonicalTotal t {} res)) = []"
    using assms by (auto simp: reconcileCanonicalTotal_def Let_def cache parents)
qed

lemma reconcileZeroOnlyTotal_keeps:
  "TotalTokens t \<noteq> 0 \<Longrightarrow> fst (reconcileZeroOnlyTotal t cl res) = t"
  by (auto simp: reconcileZeroOnlyTotal_def Let_def split: option.splits)

text \<open>Whether the children contradict their parents: decided by fields the reconciler keeps.\<close>

definition parts_conflict :: "TokenValues \<Rightarrow> bool" where
  "parts_conflict t \<longleftrightarrow>
     (case safeAddTokenCounts [CacheReadTokens t, CacheCreationTokens t] of
        None \<Rightarrow> True
      | Some c \<Rightarrow> InputTokens t < c \<or> OutputTokens t < ReasoningTokens t)"

lemma parts_conflict_total [simp]: "parts_conflict (t\<lparr>TotalTokens := n\<rparr>) = parts_conflict t"
  by (simp add: parts_conflict_def split: option.split)

lemma reconcileCanonicalTotal_closed:
  "fst (reconcileCanonicalTotal t {} res) =
     (if parts_conflict t
      then (if TotalTokens t \<noteq> 0 then t else fst (reconcileZeroOnlyTotal t {} res))
      else case safeAddTokenCounts [InputTokens t, OutputTokens t] of
             None \<Rightarrow> t | Some n \<Rightarrow> t\<lparr>TotalTokens := n\<rparr>)"
  by (auto simp: reconcileCanonicalTotal_def parts_conflict_def Let_def
      reconcileCanonicalConflictWithZeroFallback_def split: option.splits prod.splits)

lemma reconcileZeroOnlyTotal_result:
  obtains "fst (reconcileZeroOnlyTotal t cl res) = t"
  | n where "n \<noteq> 0" "fst (reconcileZeroOnlyTotal t cl res) = t\<lparr>TotalTokens := n\<rparr>"
proof (cases "fst (reconcileZeroOnlyTotal t cl res) = t")
  case False
  let ?u = "fst (reconcileZeroOnlyTotal t cl res)"
  have "TotalTokens t = 0" using False reconcileZeroOnlyTotal_keeps by blast
  moreover have u: "?u = t\<lparr>TotalTokens := TotalTokens ?u\<rparr>"
    using reconcileZeroOnlyTotal_step [of t cl res] by (metis prod.collapse total_step_def)
  ultimately have "TotalTokens ?u \<noteq> 0" using False by (metis TokenValues.surjective TokenValues.update_convs(8) TokenValues.ext_inject)
  with u show ?thesis using that(2) by blast
qed (rule that(1))

lemma reconcileZeroOnlyTotal_stable:
  "fst (reconcileZeroOnlyTotal (fst (reconcileZeroOnlyTotal t cl res)) cl res) =
   fst (reconcileZeroOnlyTotal t cl res)"
  by (cases rule: reconcileZeroOnlyTotal_result [where t = t and cl = cl and res = res])
     (simp_all add: reconcileZeroOnlyTotal_keeps)

lemma reconcileCanonicalTotal_stable:
  "fst (reconcileCanonicalTotal (fst (reconcileCanonicalTotal t {} res)) {} res) =
   fst (reconcileCanonicalTotal t {} res)"
proof (cases "parts_conflict t")
  case True
  then show ?thesis
    by (cases rule: reconcileZeroOnlyTotal_result [where t = t and cl = "{}" and res = res])
       (simp_all add: reconcileCanonicalTotal_closed)
next
  case False
  then show ?thesis by (simp add: reconcileCanonicalTotal_closed split: option.splits)
qed

lemma selectHandler_registered:
  "handlerID r = HandlerClaude \<Longrightarrow> selectHandler (Some r) = (claudeNormalize, r)"
  "handlerID r = HandlerResponsesInclusive \<Longrightarrow>
     selectHandler (Some r) = (responsesInclusiveNormalize, r)"
  "handlerID r = HandlerStrictPassThrough \<Longrightarrow>
     selectHandler (Some r) = (strictPassThroughNormalize, r)"
  by (simp_all add: selectHandler_def tokenHandlers_def)

lemma selectHandler_strict:
  assumes "handlerID r \<noteq> HandlerClaude" "handlerID r \<noteq> HandlerResponsesInclusive"
  shows "fst (selectHandler (Some r)) = strictPassThroughNormalize"
  using assms by (cases "handlerID r") (auto simp: selectHandler_def tokenHandlers_def)

lemma claudeNormalize_contract:
  assumes "evidenceStrength res = EvidenceParserContract" "wf_tokens v"
    and "InputTokens v + CacheReadTokens v + CacheCreationTokens v \<le> MaxInt64"
  shows "hr_authority (claudeNormalize (plainContext res v)) = totalAuthorityCanonical"
    and "hr_tokens (claudeNormalize (plainContext res v)) =
      v\<lparr>InputTokens := InputTokens v + CacheReadTokens v + CacheCreationTokens v,
        CachedTokens := CacheReadTokens v\<rparr>"
    and "hr_violations (claudeNormalize (plainContext res v)) = [] \<longleftrightarrow>
      CachedTokens v = 0 \<or> CacheReadTokens v = 0 \<or> CachedTokens v = CacheReadTokens v"
proof -
  have fold: "safeAddTokenCounts [InputTokens v, CacheReadTokens v, CacheCreationTokens v] =
      Some (InputTokens v + CacheReadTokens v + CacheCreationTokens v)"
    using assms by (simp add: safeAdd_three wf_tokens_defs)
  show "hr_authority (claudeNormalize (plainContext res v)) = totalAuthorityCanonical"
    and "hr_tokens (claudeNormalize (plainContext res v)) =
      v\<lparr>InputTokens := InputTokens v + CacheReadTokens v + CacheCreationTokens v,
        CachedTokens := CacheReadTokens v\<rparr>"
    using assms(1) by (simp_all add: claudeNormalize_def Let_def fold)
  show "hr_violations (claudeNormalize (plainContext res v)) = [] \<longleftrightarrow>
      CachedTokens v = 0 \<or> CacheReadTokens v = 0 \<or> CachedTokens v = CacheReadTokens v"
    using assms(1,2) by (auto simp: claudeNormalize_def Let_def fold wf_tokens_defs)
qed

text \<open>
  The cache alias on undamaged values: the read it stores, as a function of the values and of the
  strength of the evidence. A second run finds nothing to fill in.
\<close>

definition alias_read :: "EvidenceStrength \<Rightarrow> TokenValues \<Rightarrow> int" where
  "alias_read strength v =
     (if CacheReadTokens v = 0 \<and> 0 < CachedTokens v
         \<and> \<not> (CacheReadPresent v \<and> strength = EvidenceParserContract)
      then CachedTokens v else CacheReadTokens v)"

lemma cacheRead_plain:
  "fst (normalizeNonClaudeCacheRead (plainContext res v)) =
     v\<lparr>CacheReadTokens := alias_read (evidenceStrength res) v\<rparr>"
  "snd (snd (normalizeNonClaudeCacheRead (plainContext res v))) = []"
  by (auto simp: normalizeNonClaudeCacheRead_def alias_read_def fieldSet_has_def Let_def)

lemma alias_handlers_plain:
  "hr_tokens (responsesInclusiveNormalize (plainContext res v)) =
     v\<lparr>CacheReadTokens := alias_read (evidenceStrength res) v\<rparr>"
  "hr_violations (responsesInclusiveNormalize (plainContext res v)) = []"
  "hr_tokens (strictPassThroughNormalize (plainContext res v)) =
     v\<lparr>CacheReadTokens := alias_read (evidenceStrength res) v\<rparr>"
  "hr_violations (strictPassThroughNormalize (plainContext res v)) = []"
  using responses_tokens [of "plainContext res v"] strict_tokens [of "plainContext res v"]
    cacheRead_plain [where res = res and v = v]
  by (metis fst_conv snd_conv)+

lemma alias_read_stable:
  "alias_read strength (v\<lparr>CacheReadTokens := alias_read strength v, TotalTokens := n\<rparr>) =
   alias_read strength v"
  by (auto simp: alias_read_def)

lemma strict_authority [simp]:
  "hr_authority (strictPassThroughNormalize ctx) = totalAuthorityZeroOnly"
  by (simp add: strictPassThroughNormalize_def split: prod.splits)

lemma responses_authority:
  "hr_authority (responsesInclusiveNormalize (plainContext res v)) =
     (if matchesResponsesTotalOnlyShape (plainContext res v)
         \<or> matchesLegacyCodexCachedOnlyShape (plainContext res v) then totalAuthorityPreserve
      else if evidenceStrength res = EvidenceParserContract then totalAuthorityCanonical
      else totalAuthorityZeroOnly)"
  using cacheRead_plain(2) [where res = res and v = v]
  by (auto simp: responsesInclusiveNormalize_def Let_def split: prod.splits)

lemma strict_result:
  assumes "nonneg_tokens v"
  shows "Tokens (processWith strictPassThroughNormalize res v) =
    fst (reconcileZeroOnlyTotal (v\<lparr>CacheReadTokens := alias_read (evidenceStrength res) v\<rparr>) {} res)"
  using processWith_plain [OF assms, of strictPassThroughNormalize res]
  by (simp add: alias_handlers_plain)

lemma responses_result:
  assumes "nonneg_tokens v"
  shows "Tokens (processWith responsesInclusiveNormalize res v) =
    (let t = v\<lparr>CacheReadTokens := alias_read (evidenceStrength res) v\<rparr> in
     if matchesResponsesTotalOnlyShape (plainContext res v)
        \<or> matchesLegacyCodexCachedOnlyShape (plainContext res v) then t
     else if evidenceStrength res = EvidenceParserContract
       then fst (reconcileCanonicalTotal t {} res)
     else fst (reconcileZeroOnlyTotal t {} res))"
  using processWith_plain [OF assms, of responsesInclusiveNormalize res]
  by (simp add: alias_handlers_plain responses_authority Let_def)

text \<open>
  The Claude handler without a parser contract may correct a total on the exact fingerprint of the
  old reporter only: a total of input plus output that leaves out a non-empty cache.
\<close>

lemma claude_identity_authority:
  assumes "wf_tokens v" "evidenceStrength res \<noteq> EvidenceParserContract"
    and "hr_authority (claudeNormalize (plainContext res v)) = totalAuthorityCanonical"
  shows "0 < CacheReadTokens v + CacheCreationTokens v"
    and "TotalTokens v = InputTokens v + OutputTokens v"
    and "InputTokens (hr_tokens (claudeNormalize (plainContext res v))) =
           InputTokens v + CacheReadTokens v + CacheCreationTokens v"
    and "InputTokens v + CacheReadTokens v + CacheCreationTokens v + OutputTokens v \<le> MaxInt64"
proof -
  let ?i = "InputTokens v + CacheReadTokens v + CacheCreationTokens v"
  have range: "in_i64 (InputTokens v)" "in_i64 (OutputTokens v)" "in_i64 (CacheReadTokens v)"
      "in_i64 (CacheCreationTokens v)" "0 \<le> InputTokens v" "0 \<le> OutputTokens v"
      "0 \<le> CacheReadTokens v" "0 \<le> CacheCreationTokens v"
    using assms(1) by (simp_all add: wf_tokens_defs)
  have i: "?i \<le> MaxInt64" and proof_of_cache: "claudeIdentityProvesLegacyMissingCache (plainContext res v) ?i"
    using assms(2,3) range
    by (auto simp: claudeNormalize_def Let_def safeAdd_three split: option.splits if_splits)
  have "in_i64 ?i" "0 \<le> ?i" using i range by (auto simp: in_i64_def)
  with proof_of_cache range show "0 < CacheReadTokens v + CacheCreationTokens v"
    and "TotalTokens v = InputTokens v + OutputTokens v"
    and "?i + OutputTokens v \<le> MaxInt64"
    by (auto simp: claudeIdentityProvesLegacyMissingCache_def safeAdd_two split: if_splits)
  show "InputTokens (hr_tokens (claudeNormalize (plainContext res v))) = ?i"
    using i range by (simp add: claudeNormalize_tokens safeAdd_three)
qed

lemma claude_authority_known:
  "hr_authority (claudeNormalize ctx) \<noteq> totalAuthorityOther x"
  by (auto simp: claudeNormalize_def Let_def split: option.splits)

lemma Process_in_range_aux: "wf_tokens v \<Longrightarrow> wf_tokens (Tokens (Process v res))"
  unfolding Process_with
  by (rule token_handler.process_range [OF selectHandler_contract]) (simp add: wf_tokens_def)

text \<open>A total step after the alias leaves nothing for the alias to fill in.\<close>

lemma alias_fixed:
  assumes "total_step (v\<lparr>CacheReadTokens := alias_read strength v\<rparr>) as u"
  shows "u\<lparr>CacheReadTokens := alias_read strength u\<rparr> = u"
proof -
  obtain n where "u = v\<lparr>CacheReadTokens := alias_read strength v, TotalTokens := n\<rparr>"
    using assms unfolding total_step_def by metis
  then show ?thesis using alias_read_stable [where strength = strength and v = v and n = n] by simp
qed

lemma zeroOnly_total_step: "\<exists>as. total_step t as (fst (reconcileZeroOnlyTotal t cl res))"
  using reconcileZeroOnlyTotal_step by (metis prod.collapse)

lemma canonical_total_step: "\<exists>as. total_step t as (fst (reconcileCanonicalTotal t cl res))"
  using reconcileCanonicalTotal_step by (metis prod.collapse)

lemma strict_stable:
  assumes "nonneg_tokens v" "nonneg_tokens (Tokens (processWith strictPassThroughNormalize res v))"
  shows "Tokens (processWith strictPassThroughNormalize res
           (Tokens (processWith strictPassThroughNormalize res v))) =
         Tokens (processWith strictPassThroughNormalize res v)"
  using strict_result [OF assms(1), of res] strict_result [OF assms(2), of res] alias_fixed
    zeroOnly_total_step [of "v\<lparr>CacheReadTokens := alias_read (evidenceStrength res) v\<rparr>" "{}" res]
  by (metis reconcileZeroOnlyTotal_stable)

text \<open>
  When the first run preserved the total because of a shape, the second either sees the shape
  again or, after the alias was filled in, an input below its cache.
\<close>

lemma shape_stable:
  assumes "matchesResponsesTotalOnlyShape (plainContext res v)
      \<or> matchesLegacyCodexCachedOnlyShape (plainContext res v)"
    and "u = v\<lparr>CacheReadTokens := alias_read (evidenceStrength res) v\<rparr>" and "wf_tokens v"
  shows "(matchesResponsesTotalOnlyShape (plainContext res u)
      \<or> matchesLegacyCodexCachedOnlyShape (plainContext res u))
    \<or> evidenceStrength res = EvidenceParserContract \<and> parts_conflict u \<and> TotalTokens u \<noteq> 0"
proof (cases "u = v")
  case False
  then have filled: "CacheReadTokens v = 0" "0 < CachedTokens v" "CacheReadTokens u = CachedTokens v"
    using assms(2) by (auto simp: alias_read_def split: if_splits)
  then have "matchesLegacyCodexCachedOnlyShape (plainContext res v)"
    using assms(1) by (auto simp: matchesResponsesTotalOnlyShape_def Let_def)
  then show ?thesis
    using filled assms(2,3)
    by (auto simp: matchesLegacyCodexCachedOnlyShape_def Let_def parts_conflict_def
        safeAdd_two wf_tokens_defs split: if_splits)
qed (use assms(1) in simp)

lemma responses_stable:
  assumes "wf_tokens v" "nonneg_tokens (Tokens (processWith responsesInclusiveNormalize res v))"
  shows "Tokens (processWith responsesInclusiveNormalize res
           (Tokens (processWith responsesInclusiveNormalize res v))) =
         Tokens (processWith responsesInclusiveNormalize res v)"
proof -
  let ?shape = "\<lambda>w. matchesResponsesTotalOnlyShape (plainContext res w)
      \<or> matchesLegacyCodexCachedOnlyShape (plainContext res w)"
  let ?t = "v\<lparr>CacheReadTokens := alias_read (evidenceStrength res) v\<rparr>"
  define u where "u = Tokens (processWith responsesInclusiveNormalize res v)"
  have u: "u = (if ?shape v then ?t
      else if evidenceStrength res = EvidenceParserContract then fst (reconcileCanonicalTotal ?t {} res)
      else fst (reconcileZeroOnlyTotal ?t {} res))"
    unfolding u_def using assms(1) by (simp only: wf_tokens_def responses_result Let_def)
  have "\<exists>as. total_step ?t as u"
    using u total_step_refl canonical_total_step zeroOnly_total_step by metis
  then have fixed: "u\<lparr>CacheReadTokens := alias_read (evidenceStrength res) u\<rparr> = u"
    using alias_fixed by blast
  have "Tokens (processWith responsesInclusiveNormalize res u) = (if ?shape u then u
      else if evidenceStrength res = EvidenceParserContract then fst (reconcileCanonicalTotal u {} res)
      else fst (reconcileZeroOnlyTotal u {} res))"
    using assms(2) by (simp only: responses_result u_def [symmetric] Let_def fixed)
  also have "\<dots> = u"
  proof (cases "?shape v")
    case True
    then show ?thesis using shape_stable [where res = res and v = v and u = u] u assms(1)
      by (auto simp: reconcileCanonicalTotal_closed)
  next
    case False
    then show ?thesis
      using u reconcileCanonicalTotal_stable reconcileZeroOnlyTotal_stable by (metis (no_types))
  qed
  finally show ?thesis by (simp only: u_def)
qed

section \<open>Properties\<close>

text \<open>
  C7. The audit trail is complete and truthful: replaying the actions of a result on the reported
  values, checking that each action finds the value it names, gives exactly the stored values.
\<close>

theorem Process_audit_trail:
  "replay v (Actions (Process v res)) = Some (Tokens (Process v res))"
  unfolding Process_with by (rule token_handler.process_trail [OF selectHandler_contract])

text \<open>
  Whatever the collector reports, every stored count is a non-negative \<open>int64\<close>.
\<close>

theorem Process_in_range:
  "raw_tokens v \<Longrightarrow> wf_tokens (Tokens (Process v res))"
  unfolding Process_with by (rule token_handler.process_range [OF selectHandler_contract])

text \<open>
  Processing never touches what it has no rule for: output, reasoning and cache creation are
  stored as reported (negative counts as zero), for every handler and every resolution.
\<close>

theorem Process_frame:
  "OutputTokens (Tokens (Process v res)) = max 0 (OutputTokens v) \<and>
   ReasoningTokens (Tokens (Process v res)) = max 0 (ReasoningTokens v) \<and>
   CacheCreationTokens (Tokens (Process v res)) = max 0 (CacheCreationTokens v) \<and>
   CacheReadPresent (Tokens (Process v res)) = CacheReadPresent v"
  unfolding Process_with by (simp add: token_handler.process_frame [OF selectHandler_contract])

text \<open>
  C14. Under the Claude parser contract, for non-negative counts whose reasoning is within the output
  and whose sum of input, cache and output does not overflow, the stored input is the reported input with
  the cache folded in, the cached alias equals the explicit read, and the stored total is that input
  plus output whatever total was reported. A violation is recorded exactly when the two aliases
  disagree. (With more reasoning than output a reported total other than zero is kept.)
\<close>

theorem Process_claude_contract:
  assumes "handlerID res = HandlerClaude" "evidenceStrength res = EvidenceParserContract"
    and "wf_tokens v" "ReasoningTokens v \<le> OutputTokens v"
    and "InputTokens v + CacheReadTokens v + CacheCreationTokens v + OutputTokens v \<le> MaxInt64"
  shows "Tokens (Process v (Some res)) =
      v\<lparr>InputTokens := InputTokens v + CacheReadTokens v + CacheCreationTokens v,
        CachedTokens := CacheReadTokens v,
        TotalTokens := InputTokens v + CacheReadTokens v + CacheCreationTokens v + OutputTokens v\<rparr>
    \<and> (Violations (Process v (Some res)) = [] \<longleftrightarrow>
        CachedTokens v = 0 \<or> CacheReadTokens v = 0 \<or> CachedTokens v = CacheReadTokens v)"
proof -
  let ?t = "v\<lparr>InputTokens := InputTokens v + CacheReadTokens v + CacheCreationTokens v,
      CachedTokens := CacheReadTokens v\<rparr>"
  have bound: "InputTokens v + CacheReadTokens v + CacheCreationTokens v \<le> MaxInt64"
    using assms by (simp add: wf_tokens_defs)
  note handled = claudeNormalize_contract [OF assms(2,3) bound]
  have "wf_tokens ?t"
    using assms(3) bound by (simp add: wf_tokens_defs in_i64_def)
  then have total: "fst (reconcileCanonicalTotal ?t {} res) =
        ?t\<lparr>TotalTokens := InputTokens ?t + OutputTokens ?t\<rparr>"
      "snd (snd (reconcileCanonicalTotal ?t {} res)) = []"
    using assms by (intro reconcileCanonicalTotal_agrees; simp add: wf_tokens_defs)+
  have "nonneg_tokens v" using assms(3) by (simp add: wf_tokens_def)
  from processWith_plain [OF this, of claudeNormalize res] handled total show ?thesis
    by (simp add: Process_with selectHandler_registered(1) [OF assms(1)])
qed

text \<open>
  C15. Under the Codex parser contract, for non-negative counts with a breakdown (input plus output
  positive and without overflow) whose children fit their parents (cache read and creation within the
  input, reasoning within the output), input and output are kept as reported, the legacy cached alias
  fills an absent cache read, a total that is not input plus output is replaced by it, and no violation
  is recorded. (Without a breakdown, or when a child exceeds its parent, the reported total is kept.)
\<close>

theorem Process_codex_contract:
  assumes "handlerID res = HandlerResponsesInclusive" "evidenceStrength res = EvidenceParserContract"
    and "wf_tokens v" "0 < InputTokens v + OutputTokens v"
    and "alias_read EvidenceParserContract v + CacheCreationTokens v \<le> InputTokens v"
    and "ReasoningTokens v \<le> OutputTokens v" "InputTokens v + OutputTokens v \<le> MaxInt64"
  shows "Tokens (Process v (Some res)) =
      v\<lparr>CacheReadTokens := alias_read EvidenceParserContract v,
        TotalTokens := InputTokens v + OutputTokens v\<rparr>
    \<and> Violations (Process v (Some res)) = []"
proof -
  let ?t = "v\<lparr>CacheReadTokens := alias_read EvidenceParserContract v\<rparr>"
  have "wf_tokens ?t" using assms(3) by (auto simp: wf_tokens_defs alias_read_def)
  then have total: "fst (reconcileCanonicalTotal ?t {} res) =
        ?t\<lparr>TotalTokens := InputTokens ?t + OutputTokens ?t\<rparr>"
      "snd (snd (reconcileCanonicalTotal ?t {} res)) = []"
    using assms by (intro reconcileCanonicalTotal_agrees; simp)+
  have "hr_authority (responsesInclusiveNormalize (plainContext res v)) = totalAuthorityCanonical"
    using assms(2,4) by (auto simp: responses_authority matchesResponsesTotalOnlyShape_def
        matchesLegacyCodexCachedOnlyShape_def Let_def)
  moreover have "nonneg_tokens v" using assms(3) by (simp add: wf_tokens_def)
  ultimately show ?thesis
    using processWith_plain [of v responsesInclusiveNormalize res] total assms(2)
    by (simp add: Process_with selectHandler_registered(2) [OF assms(1)] alias_handlers_plain)
qed

text \<open>
  Without a parser contract a reported non-zero total is kept, with one exception: the Claude
  handler replaces it on the fingerprint of the old reporter, where the total is exactly input
  plus output and leaves out a non-empty cache, and then by the total that includes the cache.
\<close>

theorem Process_keeps_nonzero_total:
  assumes "wf_tokens v" "TotalTokens v \<noteq> 0" "evidenceStrength res \<noteq> EvidenceParserContract"
  shows "TotalTokens (Tokens (Process v (Some res))) = TotalTokens v \<or>
    handlerID res = HandlerClaude \<and> 0 < CacheReadTokens v + CacheCreationTokens v \<and>
    TotalTokens v = InputTokens v + OutputTokens v \<and>
    (ReasoningTokens v \<le> OutputTokens v \<and> TotalTokens (Tokens (Process v (Some res))) =
       InputTokens v + CacheReadTokens v + CacheCreationTokens v + OutputTokens v)"
proof -
  have nn: "nonneg_tokens v" using assms(1) by (simp add: wf_tokens_def)
  consider (claude) "handlerID res = HandlerClaude" | (responses) "handlerID res = HandlerResponsesInclusive"
    | (strict) "fst (selectHandler (Some res)) = strictPassThroughNormalize"
    using selectHandler_strict by blast
  then show ?thesis
  proof cases
    case responses
    then show ?thesis using assms nn
      by (simp add: Process_with selectHandler_registered responses_result Let_def
          reconcileZeroOnlyTotal_keeps)
  next
    case strict
    then show ?thesis using assms nn
      by (simp add: Process_with strict_result reconcileZeroOnlyTotal_keeps)
  next
    case claude
    let ?h = "claudeNormalize (plainContext res v)"
    have run: "Tokens (Process v (Some res)) =
        fst (reconcileFinalTotal (hr_tokens ?h) (hr_authority ?h) {} res)"
      using processWith_plain [OF nn, of claudeNormalize res]
      by (simp add: Process_with selectHandler_registered(1) [OF claude])
    have same: "TotalTokens (hr_tokens ?h) = TotalTokens v"
      by (simp add: claude_handler.frame)
    show ?thesis
    proof (cases "hr_authority ?h")
      case totalAuthorityCanonical
      note id = claude_identity_authority [OF assms(1,3) totalAuthorityCanonical]
      have t: "OutputTokens (hr_tokens ?h) = OutputTokens v"
          "ReasoningTokens (hr_tokens ?h) = ReasoningTokens v"
          "CacheReadTokens (hr_tokens ?h) = CacheReadTokens v"
          "CacheCreationTokens (hr_tokens ?h) = CacheCreationTokens v"
        by (simp_all add: claudeNormalize_tokens)
      have "wf_tokens (hr_tokens ?h)" using assms(1) by (intro claude_handler.range) simp
      then have "ReasoningTokens v \<le> OutputTokens v \<Longrightarrow> Tokens (Process v (Some res)) =
          (hr_tokens ?h)\<lparr>TotalTokens := InputTokens (hr_tokens ?h) + OutputTokens (hr_tokens ?h)\<rparr>"
        using id t assms(1) totalAuthorityCanonical
        by (subst run) (simp add: reconcileCanonicalTotal_agrees wf_tokens_defs)
      moreover have "\<not> ReasoningTokens v \<le> OutputTokens v \<Longrightarrow> parts_conflict (hr_tokens ?h)"
        using t by (simp add: parts_conflict_def split: option.splits)
      ultimately show ?thesis
        using id t claude same assms(2) totalAuthorityCanonical run
        by (cases "ReasoningTokens v \<le> OutputTokens v")
           (simp_all add: reconcileCanonicalTotal_closed)
    qed (use run same assms(2) claude_authority_known in \<open>simp_all add: reconcileZeroOnlyTotal_keeps\<close>)
  qed
qed

text \<open>
  Processing an event that was already processed changes nothing, for every handler but
  Claude's (whose fold of the cache into the input is by design a one-time conversion): replayed
  or re-imported events keep their counts.
\<close>

theorem Process_idempotent:
  assumes "wf_tokens v" "handlerID res \<noteq> HandlerClaude"
  shows "Tokens (Process (Tokens (Process v (Some res))) (Some res)) = Tokens (Process v (Some res))"
proof -
  have nn: "nonneg_tokens v" using assms(1) by (simp add: wf_tokens_def)
  have nn2: "nonneg_tokens (Tokens (Process v r))" for r
    using Process_in_range_aux [of v r] assms(1) by (simp add: wf_tokens_def)
  show ?thesis
  proof (cases "handlerID res = HandlerResponsesInclusive")
    case True
    have run: "Process w (Some res) = processWith responsesInclusiveNormalize res w" for w
      by (simp add: Process_with selectHandler_registered(2) [OF True])
    show ?thesis unfolding run
      by (rule responses_stable [OF assms(1)]) (use nn2 [of "Some res"] in \<open>simp add: run\<close>)
  next
    case False
    then have run: "Process w (Some res) =
        processWith strictPassThroughNormalize (snd (selectHandler (Some res))) w" for w
      by (simp add: Process_with selectHandler_strict assms(2))
    show ?thesis unfolding run
      by (rule strict_stable [OF nn]) (use nn2 [of "Some res"] in \<open>simp add: run\<close>)
  qed
qed

text \<open>
  The outcome summarises faithfully: it is valid exactly when there is neither an action nor a
  violation, and then the stored values are the reported ones; it is ambiguous or overflow exactly
  when some problem was left unresolved.
\<close>

theorem Process_outcome:
  "(Outcome (Process v res) = TokenOutcomeValid \<longleftrightarrow>
      Actions (Process v res) = [] \<and> Violations (Process v res) = []) \<and>
   (Outcome (Process v res) = TokenOutcomeValid \<longrightarrow> Tokens (Process v res) = v) \<and>
   (Outcome (Process v res) \<in> {TokenOutcomeAmbiguous, TokenOutcomeOverflow} \<longleftrightarrow>
      Violations (Process v res) \<noteq> [])"
  unfolding Process_with
  using token_handler.process_valid_unchanged [OF selectHandler_contract]
    summarize_ambiguous_iff summarize_valid_iff
  by (simp add: Outcome_processWith)

text \<open>
  The checked addition is exact: on \<open>int64\<close> operands it returns the mathematical sum when no
  intermediate sum leaves the type, and fails otherwise; it never returns a wrapped value.
\<close>

theorem safeAddTokenCounts_exact:
  assumes "\<forall>v \<in> set vs. in_i64 v"
  shows "safeAddTokenCounts vs =
    (if \<forall>k \<le> length vs. in_i64 (sum_list (take k vs)) then Some (sum_list vs) else None)"
  using safeAddFrom_exact [of 0 vs] assms by (simp add: safeAddTokenCounts_def)

section \<open>Witnesses\<close>

definition sample_resolution :: "HandlerID \<Rightarrow> EvidenceStrength \<Rightarrow> handlerResolution" where
  "sample_resolution handler strength =
     \<lparr>handlerID = handler, evidenceSource = EvidenceExecutor, evidenceStrength = strength,
      executorType = ''ClaudeExecutor'', identityType = [], needsIdentity = False,
      unknownExecutor = False\<rparr>"

definition sample_tokens :: "int \<Rightarrow> TokenValues" where
  "sample_tokens reported =
     \<lparr>InputTokens = 10, OutputTokens = 20, ReasoningTokens = 4, CachedTokens = 5,
      CacheReadTokens = 5, CacheReadPresent = True, CacheCreationTokens = 3,
      TotalTokens = reported\<rparr>"

lemmas sample_defs = sample_resolution_def sample_tokens_def wf_tokens_defs in_i64_def MaxInt64_def
  MinInt64_def alias_read_def

theorem Process_in_range_witness:
  "raw_tokens (sample_tokens (- 7)) \<and> wf_tokens (Tokens (Process (sample_tokens (- 7)) None))"
proof -
  have "raw_tokens (sample_tokens (- 7))" by (simp add: sample_defs)
  with Process_in_range [OF this, of None] show ?thesis by simp
qed

theorem Process_claude_contract_witness:
  "Tokens (Process (sample_tokens 30) (Some (sample_resolution HandlerClaude EvidenceParserContract))) =
     (sample_tokens 38)\<lparr>InputTokens := 18\<rparr>"
  using Process_claude_contract [of "sample_resolution HandlerClaude EvidenceParserContract" "sample_tokens 30"]
  by (simp add: sample_defs)

theorem Process_codex_contract_witness:
  "Tokens (Process (sample_tokens 99)
      (Some (sample_resolution HandlerResponsesInclusive EvidenceParserContract))) = sample_tokens 30"
  using Process_codex_contract
    [of "sample_resolution HandlerResponsesInclusive EvidenceParserContract" "sample_tokens 99"]
  by (simp add: sample_defs)

theorem Process_keeps_nonzero_total_witness:
  "TotalTokens (Tokens (Process (sample_tokens 99)
      (Some (sample_resolution HandlerResponsesInclusive EvidenceIdentityHint)))) = 99"
  using Process_keeps_nonzero_total
    [of "sample_tokens 99" "sample_resolution HandlerResponsesInclusive EvidenceIdentityHint"]
  by (simp add: sample_defs)

theorem Process_idempotent_witness:
  "let r = Some (sample_resolution HandlerResponsesInclusive EvidenceParserContract)
   in Tokens (Process (Tokens (Process (sample_tokens 99) r)) r) = Tokens (Process (sample_tokens 99) r)"
  using Process_idempotent
    [of "sample_tokens 99" "sample_resolution HandlerResponsesInclusive EvidenceParserContract"]
  by (simp add: sample_defs)

theorem safeAddTokenCounts_exact_witness:
  "safeAddTokenCounts [9223372036854775807, 1, - 1] = None"
proof -
  let ?vs = "[9223372036854775807, 1, - 1] :: int list"
  have "\<not> in_i64 (sum_list (take 2 ?vs))" by (simp add: sample_defs)
  then have "\<not> (\<forall>k \<le> length ?vs. in_i64 (sum_list (take k ?vs)))"
    by (intro notI) (drule spec [of _ 2], simp)
  moreover have "\<forall>v \<in> set ?vs. in_i64 v" by (simp add: sample_defs)
  ultimately show ?thesis using safeAddTokenCounts_exact [of ?vs] by (simp only: if_False)
qed

theorem Process_outcome_witness:
  "Outcome (Process (sample_tokens 30) (Some (sample_resolution HandlerStrictPassThrough EvidenceUnknown))) =
     TokenOutcomeValid \<and>
   Tokens (Process (sample_tokens 30) (Some (sample_resolution HandlerStrictPassThrough EvidenceUnknown))) =
     sample_tokens 30"
proof -
  have "Outcome (Process (sample_tokens 30)
      (Some (sample_resolution HandlerStrictPassThrough EvidenceUnknown))) = TokenOutcomeValid"
    by code_simp
  then show ?thesis using Process_outcome by blast
qed

end
