(* ===== verification/Latency_Codec.thy ===== *)
theory Latency_Codec
  imports Prelude "HOL-Library.Multiset" "HOL-Library.AList"
begin

text \<open>
  The binary format of \<^verbatim>\<open>internal/latency\<close>: the variable-length integers of Go's
  \<^verbatim>\<open>encoding/binary\<close>, the zigzag coding and the readers of \<^verbatim>\<open>sketch.go\<close> and
  \<^verbatim>\<open>sample.go\<close>. A buffer is a list of bytes and an offset into it; a reader returns the value
  and the offset behind it, or the error of the source. What the two container formats need of
  a field is the locale \<open>field_codec\<close>: reading back what was written, at any offset.
\<close>

unbundle bit_operations_syntax

type_synonym bytes = "8 word list"

datatype latencyError =
    FieldTruncated string
  | FieldOverflowsUint64 string
  | FieldNotPositiveInt64 string
  | DataEmpty string
  | UnsupportedVersion string "8 word"
  | BinKeysNotIncreasing
  | InvalidBinCount "64 word"
  | TrailingBytes string
  | SketchIsNil
  | SketchValueNotPositive int
  | SketchCountOverflow
  | SketchBinOverflow int
  | SketchBinZeroCount int
  | SampleSetIsNil
  | SampleValuesNotPositive int int int
  | ConflictingSample int
  | SampleEncodingTooLong nat
  | SampleCountExceedsLimit "64 word"
  | SamplePriorityMismatch int
  | SamplePointsNotOrdered
  | MergerClosed

section \<open>encoding/binary\<close>

function AppendUvarint :: "bytes \<Rightarrow> 64 word \<Rightarrow> bytes" where
  "AppendUvarint buf x =
     (if x \<ge> 128 then AppendUvarint (buf @ [ucast x OR 128]) (drop_bit 7 x)
      else buf @ [ucast x])"
  by pat_completeness auto
termination
  by (relation "measure (\<lambda>(buf, x). unat x)")
     (auto simp: word_le_nat_alt drop_bit_eq_div unat_div)

declare AppendUvarint.simps [simp del]

text \<open>
  The loop of \<open>binary.Uvarint\<close> from index \<open>i\<close> with accumulator \<open>x\<close> and shift \<open>s\<close>: the value
  and the number of bytes read, 0 when the buffer is too small, negative on overflow.
\<close>

fun uvarintFrom :: "bytes \<Rightarrow> nat \<Rightarrow> 64 word \<Rightarrow> nat \<Rightarrow> 64 word \<times> int" where
  "uvarintFrom [] i x s = (0, 0)"
| "uvarintFrom (b # bs) i x s =
     (if i = 10 then (0, - (int i + 1))
      else if b < 128 then
        (if i = 9 \<and> b > 1 then (0, - (int i + 1))
         else (x OR push_bit s (ucast b), int i + 1))
      else uvarintFrom bs (i + 1) (x OR push_bit s (ucast (b AND 127))) (s + 7))"

definition Uvarint :: "bytes \<Rightarrow> 64 word \<times> int" where
  "Uvarint buf = uvarintFrom buf 0 0 0"

section \<open>sketch.go and sample.go: fields\<close>

definition FormatVersion :: "8 word" where
  "FormatVersion = 1"

definition zigzagEncode :: "int \<Rightarrow> 64 word" where
  "zigzagEncode v = push_bit 1 (uint64_of_int64 v) XOR signed_drop_bit 63 (uint64_of_int64 v)"

definition zigzagDecode :: "64 word \<Rightarrow> int" where
  "zigzagDecode w = int64_of_uint64 (drop_bit 1 w XOR - (w AND 1))"

definition readUvarint :: "bytes \<Rightarrow> nat \<Rightarrow> string \<Rightarrow> latencyError + 64 word \<times> nat" where
  "readUvarint encoded offset field =
     (if offset \<ge> length encoded then Inl (FieldTruncated field)
      else
        (let (value, size) = Uvarint (drop offset encoded) in
         if size = 0 then Inl (FieldTruncated field)
         else if size < 0 then Inl (FieldOverflowsUint64 field)
         else Inr (value, offset + nat size)))"

definition readPositiveInt64 :: "bytes \<Rightarrow> nat \<Rightarrow> string \<Rightarrow> latencyError + int \<times> nat" where
  "readPositiveInt64 encoded offset field =
     (case readUvarint encoded offset field of
        Inl e \<Rightarrow> Inl e
      | Inr (value, offset') \<Rightarrow>
          if value = 0 \<or> unat value > nat MaxInt64 then Inl (FieldNotPositiveInt64 field)
          else Inr (int64_of_uint64 value, offset'))"

definition splitMix64 :: "64 word \<Rightarrow> 64 word" where
  "splitMix64 v0 =
     (let v1 = v0 + 0x9e3779b97f4a7c15;
          v2 = (v1 XOR drop_bit 30 v1) * 0xbf58476d1ce4e5b9;
          v3 = (v2 XOR drop_bit 27 v2) * 0x94d049bb133111eb
      in v3 XOR drop_bit 31 v3)"

section \<open>Writing and reading back\<close>

definition uvarint :: "64 word \<Rightarrow> bytes" where
  "uvarint x = AppendUvarint [] x"

lemma AppendUvarint_small: "\<not> x \<ge> 128 \<Longrightarrow> AppendUvarint buf x = buf @ [ucast x]"
  by (simp only: AppendUvarint.simps [of buf x] if_False)

lemma AppendUvarint_large:
  "x \<ge> 128 \<Longrightarrow> AppendUvarint buf x = AppendUvarint (buf @ [ucast x OR 128]) (drop_bit 7 x)"
  by (simp only: AppendUvarint.simps [of buf x] if_True)

lemma AppendUvarint_append: "AppendUvarint buf x = buf @ uvarint x"
proof -
  have "AppendUvarint buf x = buf @ AppendUvarint [] x" for buf
  proof (induction "unat x" arbitrary: x buf rule: less_induct)
    case less
    show ?case
    proof (cases "x \<ge> 128")
      case True
      then have smaller: "unat (drop_bit 7 x) < unat x"
        by (simp add: word_le_nat_alt drop_bit_eq_div unat_div)
      have "AppendUvarint buf x = (buf @ [ucast x OR 128]) @ AppendUvarint [] (drop_bit 7 x)" for buf
        using AppendUvarint_large [OF True] less [OF smaller, of "buf @ [ucast x OR 128]"] by (rule trans)
      from this [of buf] this [of "[]"] show ?thesis by (simp only: append_Nil append_assoc)
    next
      case False
      show ?thesis
        using AppendUvarint_small [OF False, of buf] AppendUvarint_small [OF False, of "[]"]
        by (simp only: append_Nil)
    qed
  qed
  then show ?thesis unfolding uvarint_def .
qed

lemma uvarint_small: "\<not> x \<ge> 128 \<Longrightarrow> uvarint x = [ucast x]"
  by (simp only: uvarint_def AppendUvarint_small append_Nil not_False_eq_True)

lemma uvarint_large: "x \<ge> 128 \<Longrightarrow> uvarint x = (ucast x OR 128) # uvarint (drop_bit 7 x)"
  using AppendUvarint_append [of "[ucast x OR 128]" "drop_bit 7 x"]
  by (simp only: uvarint_def AppendUvarint_large append_Nil append_Cons)

lemma uvarint_nonempty [simp]: "uvarint x \<noteq> []" "0 < length (uvarint x)"
  by (cases "x \<ge> 128"; simp only: uvarint_small uvarint_large not_False_eq_True; simp)+

lemma bit_127: "bit (127 :: int) n \<longleftrightarrow> n < 7"
proof -
  have "(127 :: int) = mask 7" by (simp add: mask_eq_exp_minus_1)
  then show ?thesis by (simp only: bit_mask_iff possible_bit_def) auto
qed

lemma bit_128: "bit (128 :: int) n \<longleftrightarrow> n = 7"
  using bit_exp_iff [where 'a = int, of 7 n] by auto

lemma below_128: "(x :: 'a :: len word) < 128 \<Longrightarrow> unat (128 :: 'a word) = 128 \<Longrightarrow> bit x n \<Longrightarrow> n < 7"
proof -
  assume x: "x < 128" "unat (128 :: 'a word) = 128" and bit: "bit x n"
  then have "unat x < 128" using word_less_nat_alt [of x 128] by (simp only:)
  then have "take_bit 7 (unat x) = unat x" by (simp add: take_bit_nat_eq_self_iff)
  moreover have "bit (unat x) n" using bit by (simp add: bit_unsigned_iff)
  ultimately have "bit (take_bit 7 (unat x)) n" by simp
  then show "n < 7" by (simp add: bit_take_bit_iff)
qed

lemma low_byte: "x < 128 \<Longrightarrow> ucast (ucast x :: 8 word) = (x :: 64 word)"
  by (rule bit_word_eqI) (auto simp: bit_simps dest: below_128)

lemma small_byte: "x < (128 :: 64 word) \<Longrightarrow> (ucast x :: 8 word) < 128"
  by (simp add: word_less_nat_alt unsigned_ucast_eq unsigned_take_bit_eq take_bit_nat_eq_self_iff
      take_bit_nat_eq_self [where n = 8])

lemma flagged_byte: "\<not> (ucast (x :: 64 word) OR 128 :: 8 word) < 128"
proof -
  have "bit (ucast x OR 128 :: 8 word) 7" by (simp add: bit_128 bit_or_iff)
  then show ?thesis using below_128 [of "ucast x OR 128 :: 8 word" 7] by auto
qed

lemma flagged_low: "ucast ((ucast x OR 128 :: 8 word) AND 127) = (x :: 64 word) AND 127"
  by (rule bit_word_eqI) (auto simp: bit_127 bit_128 bit_simps)

text \<open>
  The loop invariant of the decoder: with the low \<open>7 * i\<close> bits already in \<open>x\<close>, it reads the
  rest of the encoding of \<open>w\<close> and joins it in place.
\<close>

lemma join_groups:
  "((x :: 64 word) OR push_bit s (w AND 127)) OR push_bit (s + 7) (drop_bit 7 w) = x OR push_bit s w"
proof (rule bit_word_eqI)
  fix n assume "n < LENGTH(64)"
  show "bit ((x OR push_bit s (w AND 127)) OR push_bit (s + 7) (drop_bit 7 w)) n = bit (x OR push_bit s w) n"
    by (cases "n < s + 7") (auto simp: bit_127 bit_simps)
qed

lemma uvarintFrom_uvarint:
  assumes "i < 10" "s = 7 * i" "drop_bit (64 - s) w = 0"
  shows "uvarintFrom (uvarint w @ rest) i x s = (x OR push_bit s w, int (i + length (uvarint w)))"
  using assms
proof (induction "unat w" arbitrary: w i x s rule: less_induct)
  case less
  have last: "\<not> (ucast w :: 8 word) > 1" if "i = 9"
  proof -
    have "drop_bit 1 w = 0" using less.prems that by simp
    then have "unat w < 2" by (simp add: drop_bit_eq_div unat_div word_unat_eq_iff)
    then have "w = 0 \<or> w = 1" by (simp add: word_unat_eq_iff) linarith
    then show ?thesis by auto
  qed
  show ?case
  proof (cases "w \<ge> 128")
    case False
    then have "w < 128" by simp
    with last less.prems show ?thesis
      by (simp add: uvarint_small [OF False] small_byte low_byte)
  next
    case True
    have i: "i < 9"
    proof (rule ccontr)
      assume "\<not> i < 9"
      with less.prems have "drop_bit 1 w = 0" by (cases "i = 9") auto
      then show False using True by (simp add: word_le_nat_alt drop_bit_eq_div unat_div word_unat_eq_iff)
    qed
    have smaller: "unat (drop_bit 7 w) < unat w"
      using True by (simp add: word_le_nat_alt drop_bit_eq_div unat_div)
    have "drop_bit (64 - (s + 7)) (drop_bit 7 w) = 0"
      using less.prems i by (simp add: algebra_simps)
    from less.hyps [OF smaller, of "Suc i" "s + 7" "x OR push_bit s (w AND 127)"] this i less.prems
    show ?thesis
      by (simp add: uvarint_large [OF True] flagged_byte flagged_low join_groups [unfolded push_bit_and])
  qed
qed

lemma Uvarint_uvarint: "Uvarint (uvarint w @ rest) = (w, int (length (uvarint w)))"
  using uvarintFrom_uvarint [of 0 0 w rest 0] by (simp add: Uvarint_def)

lemma uint64_id: "uint64_of_int64 (int64_of_uint64 w) = w"
  by (simp add: int64_of_uint64_def uint64_of_int64_def)

lemma signed_shift_63: "signed_drop_bit 63 (w :: 64 word) = (if bit w 63 then - 1 else 0)"
  by (rule bit_word_eqI) (auto simp: bit_signed_drop_bit_iff bit_simps Suc_le_eq)

lemma bit_zigzag:
  "n < 64 \<Longrightarrow> bit (zigzagEncode v) n \<longleftrightarrow>
     (0 < n \<and> bit (uint64_of_int64 v) (n - 1)) \<noteq> bit (uint64_of_int64 v) 63"
  unfolding zigzagEncode_def signed_shift_63 bit_xor_iff bit_push_bit_iff
  by (auto simp: Suc_le_eq)

lemma zigzag_roundtrip: "in_i64 v \<Longrightarrow> zigzagDecode (zigzagEncode v) = v"
proof -
  assume v: "in_i64 v"
  let ?w = "uint64_of_int64 v"
  have low: "zigzagEncode v AND 1 = of_bool (bit ?w 63)"
    by (rule bit_word_eqI) (auto simp: bit_and_iff bit_1_iff bit_of_bool_iff bit_zigzag)
  have "drop_bit 1 (zigzagEncode v) XOR - (zigzagEncode v AND 1) = ?w"
  proof (rule bit_word_eqI)
    fix n assume n: "n < LENGTH(64)"
    show "bit (drop_bit 1 (zigzagEncode v) XOR - (zigzagEncode v AND 1)) n = bit ?w n"
    proof (cases "n = 63")
      case True
      then show ?thesis unfolding low bit_xor_iff bit_drop_bit_eq comp_def
        by (auto dest: bit_imp_le_length)
    next
      case False
      with n bit_zigzag [of "1 + n" v] show ?thesis
        unfolding low bit_xor_iff bit_drop_bit_eq comp_def by auto
    qed
  qed
  then show ?thesis
    using v by (simp add: zigzagDecode_def int64_uint64_id)
qed

lemma update_fresh: "k \<notin> fst ` set al \<Longrightarrow> AList.update k c al = al @ [(k, c)]"
  by (induction al) auto

section \<open>The contract of a field\<close>

text \<open>
  A field codec writes a value as a non-empty run of bytes and reads it back from any buffer that
  holds those bytes at the offset, leaving the offset behind them.
\<close>

locale field_codec =
  fixes valid :: "'a \<Rightarrow> bool"
    and enc :: "'a \<Rightarrow> bytes"
    and dec :: "bytes \<Rightarrow> nat \<Rightarrow> string \<Rightarrow> latencyError + 'a \<times> nat"
  assumes write_nonempty: "enc x \<noteq> []"
    and read_write: "valid x \<Longrightarrow>
      dec (pre @ enc x @ post) (length pre) field = Inr (x, length pre + length (enc x))"
begin

lemma read_at:
  assumes "valid x" "offset = length pre" "encoded = pre @ enc x @ post"
  shows "dec encoded offset field = Inr (x, length (pre @ enc x))"
  using assms by (simp add: read_write)

end

interpretation uvarint_field: field_codec "\<lambda>_. True" uvarint readUvarint
  by unfold_locales (simp_all add: readUvarint_def Uvarint_uvarint)

lemma uint64_of_positive:
  assumes "0 < v" "v \<le> MaxInt64"
  shows "uint64_of_int64 v \<noteq> 0" "unat (uint64_of_int64 v) = nat v"
proof -
  have "uint (word_of_int v :: 64 word) = v"
    using assms by (simp add: uint_word_of_int MaxInt64_def)
  then show "unat (uint64_of_int64 v) = nat v" by (simp add: uint64_of_int64_def unat_eq_nat_uint)
  with assms show "uint64_of_int64 v \<noteq> 0" by auto
qed

interpretation positive_field:
  field_codec "\<lambda>v. 0 < v \<and> v \<le> MaxInt64" "\<lambda>v. uvarint (uint64_of_int64 v)" readPositiveInt64
  by unfold_locales
     (auto simp: readPositiveInt64_def uvarint_field.read_write uint64_of_positive int64_uint64_id
        in_i64_def MaxInt64_def MinInt64_def)

section \<open>The contract of a summary\<close>

text \<open>
  The latency aggregates are summaries that are merged in whatever order the rows arrive. A
  merge of two well-formed summaries whose weights fit the limit succeeds and joins what they
  stand for; the join is associative and commutative. Then folding any list of summaries into
  one succeeds and the order of the list does not matter.
\<close>

fun merge_all :: "('s \<Rightarrow> 's \<Rightarrow> 's option) \<Rightarrow> 's \<Rightarrow> 's list \<Rightarrow> 's option" where
  "merge_all merge s [] = Some s"
| "merge_all merge s (t # ts) = (case merge s t of None \<Rightarrow> None | Some u \<Rightarrow> merge_all merge u ts)"

locale mergeable_summary =
  fixes inv :: "'s \<Rightarrow> bool"
    and merge :: "'s \<Rightarrow> 's \<Rightarrow> 's option"
    and weight :: "'s \<Rightarrow> nat"
    and limit :: nat
    and abs :: "'s \<Rightarrow> 'm"
    and join :: "'m \<Rightarrow> 'm \<Rightarrow> 'm"
  assumes merge_ok: "inv s \<Longrightarrow> inv t \<Longrightarrow> weight s + weight t < limit \<Longrightarrow>
      \<exists>u. merge s t = Some u \<and> inv u \<and> abs u = join (abs s) (abs t) \<and> weight u \<le> weight s + weight t"
    and join_assoc: "join (join a b) c = join a (join b c)"
    and join_commute: "join a b = join b a"
begin

lemma merge_all_ok:
  assumes "inv s" "\<forall>t \<in> set ts. inv t" "weight s + sum_list (map weight ts) < limit"
  shows "\<exists>u. merge_all merge s ts = Some u \<and> inv u \<and> abs u = fold (\<lambda>t a. join a (abs t)) ts (abs s)"
  using assms
proof (induction ts arbitrary: s)
  case (Cons t ts)
  then obtain u where u: "merge s t = Some u" "inv u" "abs u = join (abs s) (abs t)"
      "weight u \<le> weight s + weight t"
    using merge_ok [of s t] by auto
  with Cons.IH [of u] Cons.prems show ?case by auto
qed simp

lemma merge_all_order:
  assumes "inv s" "\<forall>t \<in> set ts. inv t" "weight s + sum_list (map weight ts) < limit"
    and "mset ts' = mset ts"
  shows "\<exists>u u'. merge_all merge s ts = Some u \<and> merge_all merge s ts' = Some u' \<and> inv u \<and> inv u' \<and> abs u = abs u'"
proof -
  have "set ts' = set ts" using assms(4) by (rule mset_eq_setD)
  moreover have "sum_list (map weight ts') = sum_list (map weight ts)"
    using assms(4) by (metis mset_map sum_mset_sum_list)
  moreover have "fold (\<lambda>t a. join a (abs t)) ts' (abs s) = fold (\<lambda>t a. join a (abs t)) ts (abs s)"
    by (rule fold_permuted_eq [where P = "\<lambda>_. True", OF assms(4)])
       (metis join_assoc join_commute | simp)+
  ultimately show ?thesis
    using merge_all_ok [OF assms(1-3)] merge_all_ok [of s ts'] assms(1-3) by force
qed

end

end
