(* ===== verification/Latency_Sketch.thy ===== *)
theory Latency_Sketch
  imports Latency_Codec "HOL-Library.AList" "HOL-Library.Multiset"
begin

text \<open>
  The latency distribution of \<^verbatim>\<open>internal/latency/sketch.go\<close> and its query-side merger
  \<^verbatim>\<open>query_sketch.go\<close>. A Go map of bins is an association list with distinct keys, in the
  iteration order of the run; the lemmas speak of the map it stands for. The bucket of a value
  (a ceiling of a quotient of logarithms) and the representative of a bucket (a power) are
  floating-point expressions of the package \<^verbatim>\<open>math\<close>: both are parameters here. A nil
  pointer is \<open>None\<close>; an operation that can fail after it wrote returns the written state
  together with the error.
\<close>

unbundle bit_operations_syntax

section \<open>sketch.go\<close>

record Sketch =
  sk_bins :: "(int \<times> 64 word) list"
  sk_count :: "64 word"

definition MaxUint64 :: "64 word" where
  "MaxUint64 = - 1"

definition NewSketch :: Sketch where
  "NewSketch = \<lparr>sk_bins = [], sk_count = 0\<rparr>"

definition sketch_bin :: "Sketch \<Rightarrow> int \<Rightarrow> 64 word" where
  "sketch_bin sketch key = (case map_of (sk_bins sketch) key of None \<Rightarrow> 0 | Some c \<Rightarrow> c)"

definition sketch_Add :: "(int \<Rightarrow> int) \<Rightarrow> Sketch option \<Rightarrow> int \<Rightarrow> latencyError + Sketch" where
  "sketch_Add bucket sketch value =
     (case sketch of
        None \<Rightarrow> Inl SketchIsNil
      | Some s \<Rightarrow>
          if value \<le> 0 then Inl (SketchValueNotPositive value)
          else
            (let key = bucket value in
             if sketch_bin s key = MaxUint64 \<or> sk_count s = MaxUint64 then Inl SketchCountOverflow
             else Inr (s\<lparr>sk_bins := AList.update key (sketch_bin s key + 1) (sk_bins s),
                         sk_count := sk_count s + 1\<rparr>)))"

fun mergeBins :: "(int \<times> 64 word) list \<Rightarrow> Sketch \<Rightarrow> Sketch \<times> latencyError option" where
  "mergeBins [] s = (s, None)"
| "mergeBins ((key, cnt) # rest) s =
     (if sketch_bin s key > MaxUint64 - cnt then (s, Some (SketchBinOverflow key))
      else mergeBins rest (s\<lparr>sk_bins := AList.update key (sketch_bin s key + cnt) (sk_bins s)\<rparr>))"

definition sketch_Merge ::
  "Sketch option \<Rightarrow> Sketch option \<Rightarrow> Sketch option \<times> latencyError option" where
  "sketch_Merge sketch other =
     (case (sketch, other) of
        (Some s, Some t) \<Rightarrow>
          if sk_count s > MaxUint64 - sk_count t then (sketch, Some SketchCountOverflow)
          else
            (case mergeBins (sk_bins t) s of
               (s', Some e) \<Rightarrow> (Some s', Some e)
             | (s', None) \<Rightarrow> (Some (s'\<lparr>sk_count := sk_count s' + sk_count t\<rparr>), None))
      | _ \<Rightarrow> (sketch, Some SketchIsNil))"

definition sketch_Count :: "Sketch option \<Rightarrow> 64 word" where
  "sketch_Count sketch = (case sketch of None \<Rightarrow> 0 | Some s \<Rightarrow> sk_count s)"

definition sketch_Clone :: "Sketch option \<Rightarrow> Sketch" where
  "sketch_Clone sketch =
     (case sketch of
        None \<Rightarrow> NewSketch
      | Some s \<Rightarrow> fold (\<lambda>(k, c) clone. clone\<lparr>sk_bins := AList.update k c (sk_bins clone)\<rparr>)
          (sk_bins s) (NewSketch\<lparr>sk_count := sk_count s\<rparr>))"

definition sortedKeys :: "Sketch \<Rightarrow> int list" where
  "sortedKeys sketch = sort (map fst (sk_bins sketch))"

text \<open>
  The loop of \<open>P95\<close> over the sorted keys; the last argument is the key the fall-through of the
  source would use.
\<close>

fun rankKey :: "Sketch \<Rightarrow> 64 word \<Rightarrow> 64 word \<Rightarrow> int list \<Rightarrow> int \<Rightarrow> int" where
  "rankKey s rank cumulative [] lastKey = lastKey"
| "rankKey s rank cumulative (key # keys) lastKey =
     (let cumulative' = cumulative + sketch_bin s key in
      if cumulative' \<ge> rank then key else rankKey s rank cumulative' keys lastKey)"

definition p95Rank :: "64 word \<Rightarrow> 64 word" where
  "p95Rank cnt = (cnt * 95 + 99) div 100"

text \<open>\<open>None\<close> is the index panic of the source on a sketch that counts samples in no bin.\<close>

definition sketch_P95 :: "(int \<Rightarrow> int) \<Rightarrow> Sketch option \<Rightarrow> int option" where
  "sketch_P95 representative sketch =
     (case sketch of
        None \<Rightarrow> Some 0
      | Some s \<Rightarrow>
          if sk_count s = 0 then Some 0
          else if sortedKeys s = [] then None
          else Some (representative
            (rankKey s (p95Rank (sk_count s)) 0 (sortedKeys s) (last (sortedKeys s)))))"

fun appendBins :: "Sketch \<Rightarrow> bytes \<Rightarrow> int list \<Rightarrow> latencyError + bytes" where
  "appendBins s encoded [] = Inr encoded"
| "appendBins s encoded (key # keys) =
     (let cnt = sketch_bin s key in
      if cnt = 0 then Inl (SketchBinZeroCount key)
      else appendBins s (AppendUvarint (AppendUvarint encoded (zigzagEncode key)) cnt) keys)"

definition sketch_MarshalBinary :: "Sketch option \<Rightarrow> latencyError + bytes" where
  "sketch_MarshalBinary sketch =
     (case sketch of
        None \<Rightarrow> Inl SketchIsNil
      | Some s \<Rightarrow>
          (let keys = sortedKeys s in
           appendBins s (AppendUvarint [FormatVersion] (of_nat (length keys))) keys))"

text \<open>
  The loop of \<open>walkSketch\<close>: \<open>n\<close> bins are left, \<open>first\<close> says that the index is still 0. The
  visitor changes a state that is returned even when the walk fails later.
\<close>

fun walkBins ::
  "bytes \<Rightarrow> (int \<Rightarrow> 64 word \<Rightarrow> 's \<Rightarrow> 's) \<Rightarrow> nat \<Rightarrow> bool \<Rightarrow> int \<Rightarrow> 64 word \<Rightarrow> nat \<Rightarrow> 's
   \<Rightarrow> 's \<times> (latencyError + 64 word \<times> nat)" where
  "walkBins encoded visit 0 first previousKey tot offset st = (st, Inr (tot, offset))"
| "walkBins encoded visit (Suc n) first previousKey tot offset st =
     (case readUvarint encoded offset ''sketch bin key'' of
        Inl e \<Rightarrow> (st, Inl e)
      | Inr (encodedKey, offset1) \<Rightarrow>
          (let key = zigzagDecode encodedKey in
           if \<not> first \<and> key \<le> previousKey then (st, Inl BinKeysNotIncreasing)
           else case readUvarint encoded offset1 ''sketch bin count'' of
             Inl e \<Rightarrow> (st, Inl e)
           | Inr (cnt, offset2) \<Rightarrow>
               if cnt = 0 \<or> tot > MaxUint64 - cnt then (st, Inl (InvalidBinCount cnt))
               else walkBins encoded visit n False key (tot + cnt) offset2
                      (visit key cnt st)))"

definition walkSketch ::
  "bytes \<Rightarrow> (int \<Rightarrow> 64 word \<Rightarrow> 's \<Rightarrow> 's) \<Rightarrow> 's \<Rightarrow> 's \<times> (latencyError + 64 word)" where
  "walkSketch encoded visit st =
     (case encoded of
        [] \<Rightarrow> (st, Inl (DataEmpty ''sketch''))
      | version # _ \<Rightarrow>
          if version \<noteq> FormatVersion then (st, Inl (UnsupportedVersion ''sketch'' version))
          else case readUvarint encoded 1 ''sketch bin count'' of
            Inl e \<Rightarrow> (st, Inl e)
          | Inr (binCount, offset) \<Rightarrow>
              (case walkBins encoded visit (unat binCount) True 0 0 offset st of
                 (st', Inl e) \<Rightarrow> (st', Inl e)
               | (st', Inr (tot, offset')) \<Rightarrow>
                   if offset' \<noteq> length encoded then (st', Inl (TrailingBytes ''sketch''))
                   else (st', Inr tot)))"

definition putBin :: "int \<Rightarrow> 64 word \<Rightarrow> Sketch \<Rightarrow> Sketch" where
  "putBin key cnt s = s\<lparr>sk_bins := AList.update key cnt (sk_bins s)\<rparr>"

definition UnmarshalSketch :: "bytes \<Rightarrow> latencyError + Sketch" where
  "UnmarshalSketch encoded =
     (case walkSketch encoded putBin NewSketch of
        (_, Inl e) \<Rightarrow> Inl e
      | (s, Inr cnt) \<Rightarrow> Inr (s\<lparr>sk_count := cnt\<rparr>))"

section \<open>query\_sketch.go\<close>

text \<open>The merger owns one sketch; \<open>None\<close> is the closed merger.\<close>

type_synonym QuerySketchMerger = "Sketch option"

definition NewQuerySketchMerger :: QuerySketchMerger where
  "NewQuerySketchMerger = Some NewSketch"

text \<open>The state of the visitor: the sketch and the first key that overflowed, if any.\<close>

definition mergeVisit ::
  "int \<Rightarrow> 64 word \<Rightarrow> Sketch \<times> int option \<Rightarrow> Sketch \<times> int option" where
  "mergeVisit key cnt st =
     (case st of
        (s, Some k) \<Rightarrow> (s, Some k)
      | (s, None) \<Rightarrow>
          if sketch_bin s key > MaxUint64 - cnt then (s, Some key)
          else (putBin key (sketch_bin s key + cnt) s, None))"

definition querySketch_MergeBinary ::
  "QuerySketchMerger \<Rightarrow> bytes \<Rightarrow> QuerySketchMerger \<times> (latencyError + 64 word)" where
  "querySketch_MergeBinary merger encoded =
     (case merger of
        None \<Rightarrow> (None, Inl MergerClosed)
      | Some s \<Rightarrow>
          (case walkSketch encoded mergeVisit (s, None) of
             (_, Inl e) \<Rightarrow> (None, Inl e)
           | ((s', Some k), Inr _) \<Rightarrow> (None, Inl (SketchBinOverflow k))
           | ((s', None), Inr rowCount) \<Rightarrow>
               if sk_count s' > MaxUint64 - rowCount then (None, Inl SketchCountOverflow)
               else (Some (s'\<lparr>sk_count := sk_count s' + rowCount\<rparr>), Inr rowCount)))"

definition querySketch_TakeSketch :: "QuerySketchMerger \<Rightarrow> Sketch option \<times> QuerySketchMerger" where
  "querySketch_TakeSketch merger = (merger, None)"

section \<open>The distribution a sketch stands for\<close>

text \<open>
  A sketch stands for the multiset of the buckets of its samples. In a well-formed sketch the
  keys are distinct \<open>int64\<close> values, no bin is empty and the counter is the number of samples.
\<close>

definition dist :: "Sketch \<Rightarrow> int multiset" where
  "dist s = (\<Sum>k \<in> fst ` set (sk_bins s). replicate_mset (unat (sketch_bin s k)) k)"

definition sketch_inv :: "Sketch \<Rightarrow> bool" where
  "sketch_inv s \<longleftrightarrow> distinct (map fst (sk_bins s)) \<and> (\<forall>(k, c) \<in> set (sk_bins s). in_i64 k \<and> c \<noteq> 0)
     \<and> size (dist s) = unat (sk_count s)"

lemma count_dist [simp]: "count (dist s) k = unat (sketch_bin s k)"
proof -
  have "count (dist s) k =
      (\<Sum>j \<in> fst ` set (sk_bins s). if j = k then unat (sketch_bin s j) else 0)"
    unfolding dist_def by (simp add: count_sum)
  also have "\<dots> = (if k \<in> fst ` set (sk_bins s) then unat (sketch_bin s k) else 0)"
    by (simp add: sum.delta)
  also have "\<dots> = unat (sketch_bin s k)"
    by (auto simp: sketch_bin_def map_of_eq_None_iff [THEN iffD2])
  finally show ?thesis .
qed

lemma sketch_bin_put [simp]:
  "sketch_bin (s\<lparr>sk_bins := AList.update k c (sk_bins s)\<rparr>) j = (if j = k then c else sketch_bin s j)"
  by (simp add: sketch_bin_def update_conv')

lemma sketch_bin_count [simp]: "sketch_bin (s\<lparr>sk_count := c\<rparr>) k = sketch_bin s k"
  by (simp add: sketch_bin_def)

lemma dist_count [simp]: "dist (s\<lparr>sk_count := c\<rparr>) = dist s"
  by (rule multiset_eqI) simp

lemma dist_put:
  "unat c = unat (sketch_bin s k) + n \<Longrightarrow>
   dist (s\<lparr>sk_bins := AList.update k c (sk_bins s)\<rparr>) = dist s + replicate_mset n k"
  by (rule multiset_eqI) auto

lemma sketch_bin_in: "(k, c) \<in> set (sk_bins s) \<Longrightarrow> distinct (map fst (sk_bins s)) \<Longrightarrow> sketch_bin s k = c"
  by (simp add: sketch_bin_def)

lemma bins_put:
  assumes "distinct (map fst (sk_bins s))" "\<forall>(k, c) \<in> set (sk_bins s). in_i64 k \<and> c \<noteq> 0"
    and "in_i64 key" "c \<noteq> 0"
  shows "distinct (map fst (AList.update key c (sk_bins s)))"
    and "\<forall>(k, c) \<in> set (AList.update key c (sk_bins s)). in_i64 k \<and> c \<noteq> 0"
proof -
  show d: "distinct (map fst (AList.update key c (sk_bins s)))"
    using assms(1) by (rule distinct_update)
  have "x = (key, c) \<or> x \<in> set (sk_bins s)" if "x \<in> set (AList.update key c (sk_bins s))" for x
  proof -
    have "map_of (AList.update key c (sk_bins s)) (fst x) = Some (snd x)"
      using that d by simp
    then show ?thesis
      by (cases x) (auto simp: update_conv' split: if_splits dest: map_of_SomeD)
  qed
  then show "\<forall>(k, c) \<in> set (AList.update key c (sk_bins s)). in_i64 k \<and> c \<noteq> 0"
    using assms by blast
qed

lemma bin_le_count: "sketch_inv s \<Longrightarrow> unat (sketch_bin s k) \<le> unat (sk_count s)"
  unfolding sketch_inv_def by (metis count_dist count_le_size)

lemma unat_MaxUint64 [simp]: "unat MaxUint64 = 2 ^ 64 - 1"
  unfolding MaxUint64_def by (simp add: unsigned_minus_1_eq_mask mask_eq_exp_minus_1)

lemma no_wrap: "(a :: 64 word) > MaxUint64 - b \<longleftrightarrow> unat a + unat b \<ge> 2 ^ 64"
proof -
  have b: "unat b < 2 ^ 64" using unsigned_less [of b] by simp
  then have "b \<le> MaxUint64" by (simp add: word_le_nat_alt)
  then have "unat (MaxUint64 - b) = 2 ^ 64 - 1 - unat b" by (simp add: unat_sub)
  then show ?thesis using b by (auto simp: word_less_nat_alt)
qed

lemma unat_plus_no_wrap: "unat a + unat b < 2 ^ 64 \<Longrightarrow> unat (a + b :: 64 word) = unat a + unat b"
  by (simp add: unat_word_ariths)

lemma not_max_iff: "(a :: 64 word) \<noteq> MaxUint64 \<longleftrightarrow> unat a + 1 < 2 ^ 64"
proof -
  have "unat a < 2 ^ 64" using unsigned_less [of a] by simp
  then show ?thesis by (auto simp: word_unat_eq_iff)
qed

section \<open>Adding and merging\<close>

lemma sketch_inv_New [simp]: "sketch_inv NewSketch" and dist_New [simp]: "dist NewSketch = {#}"
  by (simp_all add: sketch_inv_def NewSketch_def dist_def)

lemma sketch_Add_correct:
  assumes "sketch_inv s" "0 < value" "in_i64 (bucket value)" "sk_count s \<noteq> MaxUint64"
  obtains u where "sketch_Add bucket (Some s) value = Inr u" "sketch_inv u"
    "dist u = add_mset (bucket value) (dist s)"
proof -
  let ?k = "bucket value"
  have c: "unat (sk_count s) + 1 < 2 ^ 64" using assms(4) by (simp add: not_max_iff)
  then have b: "unat (sketch_bin s ?k) + 1 < 2 ^ 64" using bin_le_count [OF assms(1), of ?k] by simp
  have unat_b: "unat (sketch_bin s ?k + 1) = unat (sketch_bin s ?k) + 1"
    and unat_c: "unat (sk_count s + 1) = unat (sk_count s) + 1"
    using b c unat_plus_no_wrap [of _ 1] by simp_all
  let ?s = "s\<lparr>sk_bins := AList.update ?k (sketch_bin s ?k + 1) (sk_bins s)\<rparr>"
  let ?u = "?s\<lparr>sk_count := sk_count s + 1\<rparr>"
  have d: "dist ?u = add_mset ?k (dist s)"
    using dist_put [where c = "sketch_bin s ?k + 1" and s = s and k = ?k and n = 1] unat_b by simp
  have "sketch_bin s ?k + 1 \<noteq> 0" using unat_b by (metis Suc_eq_plus1 nat.distinct(1) unsigned_0)
  then have "sketch_inv ?u"
    using assms bins_put [where s = s and key = ?k and c = "sketch_bin s ?k + 1"] d unat_c
    by (simp add: sketch_inv_def)
  moreover have "sketch_Add bucket (Some s) value = Inr ?u"
    using assms b [folded not_max_iff] by (simp add: sketch_Add_def Let_def)
  ultimately show ?thesis using that d by blast
qed

lemma mergeBins_correct:
  assumes "distinct (map fst (sk_bins s))" "\<forall>(k, c) \<in> set (sk_bins s). in_i64 k \<and> c \<noteq> 0"
    and "distinct (map fst bs)" "\<forall>(k, c) \<in> set bs. in_i64 k \<and> c \<noteq> 0"
    and "\<forall>(k, c) \<in> set bs. unat (sketch_bin s k) + unat c < 2 ^ 64"
  shows "\<exists>u. mergeBins bs s = (u, None) \<and> sk_count u = sk_count s
    \<and> distinct (map fst (sk_bins u)) \<and> (\<forall>(k, c) \<in> set (sk_bins u). in_i64 k \<and> c \<noteq> 0)
    \<and> (\<forall>k. unat (sketch_bin u k) =
          unat (sketch_bin s k) + (case map_of bs k of None \<Rightarrow> 0 | Some c \<Rightarrow> unat c))"
  using assms
proof (induction bs arbitrary: s)
  case (Cons b bs)
  obtain key c where b: "b = (key, c)" by (cases b)
  let ?s = "s\<lparr>sk_bins := AList.update key (sketch_bin s key + c) (sk_bins s)\<rparr>"
  have add_ok: "\<not> sketch_bin s key > MaxUint64 - c"
    using Cons.prems(5) b by (simp only: no_wrap) auto
  have add: "unat (sketch_bin s key + c) = unat (sketch_bin s key) + unat c"
    using Cons.prems(5) b by (intro unat_plus_no_wrap) auto
  have "c \<noteq> 0" "in_i64 key" using Cons.prems(4) b by auto
  then have "sketch_bin s key + c \<noteq> 0" using add by (metis add_is_0 unat_eq_zero)
  note put = bins_put [OF Cons.prems(1,2) \<open>in_i64 key\<close> this]
  have fresh: "key \<notin> fst ` set bs" using Cons.prems(3) b by simp
  have rest: "\<forall>(k, c) \<in> set bs. unat (sketch_bin ?s k) + unat c < 2 ^ 64"
    using Cons.prems(5) fresh by (force simp: b)
  obtain u where u: "mergeBins bs ?s = (u, None)" "sk_count u = sk_count s"
      "distinct (map fst (sk_bins u))" "\<forall>(k, c) \<in> set (sk_bins u). in_i64 k \<and> c \<noteq> 0"
      "\<forall>k. unat (sketch_bin u k) =
         unat (sketch_bin ?s k) + (case map_of bs k of None \<Rightarrow> 0 | Some c \<Rightarrow> unat c)"
    using Cons.IH [of ?s] put Cons.prems(3,4) rest b by auto
  have "map_of bs key = None" using fresh by (simp add: map_of_eq_None_iff)
  with u(5) add have "\<forall>k. unat (sketch_bin u k) =
      unat (sketch_bin s k) + (case map_of (b # bs) k of None \<Rightarrow> 0 | Some c \<Rightarrow> unat c)"
    by (auto simp: b)
  moreover have "mergeBins (b # bs) s = (u, None)"
    using u(1) add_ok by (simp add: b)
  ultimately show ?case using u by blast
qed simp

lemma sketch_Merge_correct:
  assumes "sketch_inv s" "sketch_inv t" "unat (sk_count s) + unat (sk_count t) < 2 ^ 64"
  obtains u where "sketch_Merge (Some s) (Some t) = (Some u, None)" "sketch_inv u"
    "dist u = dist s + dist t" "sk_count u = sk_count s + sk_count t"
proof -
  have s: "distinct (map fst (sk_bins s))" "\<forall>(k, c) \<in> set (sk_bins s). in_i64 k \<and> c \<noteq> 0"
    and t: "distinct (map fst (sk_bins t))" "\<forall>(k, c) \<in> set (sk_bins t). in_i64 k \<and> c \<noteq> 0"
    using assms by (simp_all add: sketch_inv_def)
  have "unat (sketch_bin s k) + unat c < 2 ^ 64" if "(k, c) \<in> set (sk_bins t)" for k c
    using bin_le_count [OF assms(1), of k] bin_le_count [OF assms(2), of k] assms(3)
      sketch_bin_in [OF that t(1)] by simp
  then obtain u where u: "mergeBins (sk_bins t) s = (u, None)" "sk_count u = sk_count s"
      "distinct (map fst (sk_bins u))" "\<forall>(k, c) \<in> set (sk_bins u). in_i64 k \<and> c \<noteq> 0"
      "\<forall>k. unat (sketch_bin u k) =
         unat (sketch_bin s k) + (case map_of (sk_bins t) k of None \<Rightarrow> 0 | Some c \<Rightarrow> unat c)"
    using mergeBins_correct [OF s t] by blast
  let ?u = "u\<lparr>sk_count := sk_count s + sk_count t\<rparr>"
  have "dist u = dist s + dist t"
    by (rule multiset_eqI) (use u(5) in \<open>simp add: sketch_bin_def split: option.splits\<close>)
  then have d: "dist ?u = dist s + dist t" by simp
  have "\<not> sk_count s > MaxUint64 - sk_count t" using assms(3) by (simp only: no_wrap)
  then have "sketch_Merge (Some s) (Some t) = (Some ?u, None)"
    using u(1,2) by (simp add: sketch_Merge_def)
  moreover have "sketch_inv ?u"
    using u(3,4) d assms by (simp add: sketch_inv_def unat_plus_no_wrap)
  ultimately show ?thesis using that [of ?u] d by simp
qed

lemma sketch_Merge_overflow:
  "unat (sk_count s) + unat (sk_count t) \<ge> 2 ^ 64 \<Longrightarrow>
   sketch_Merge (Some s) (Some t) = (Some s, Some SketchCountOverflow)"
  by (simp add: sketch_Merge_def no_wrap)

section \<open>Encoding and decoding\<close>

text \<open>
  What \<open>walkBins\<close> accepts, written as bytes: the bins in order, each a zigzag key and a count.
\<close>

definition binBytes :: "int \<times> 64 word \<Rightarrow> bytes" where
  "binBytes b = uvarint (zigzagEncode (fst b)) @ uvarint (snd b)"

lemma binBytes_pair: "binBytes (k, c) = uvarint (zigzagEncode k) @ uvarint c"
  by (simp add: binBytes_def)

lemma appendBins_bytes:
  assumes "\<forall>k \<in> set keys. sketch_bin s k \<noteq> 0"
  shows "appendBins s encoded keys =
    Inr (encoded @ concat (map (\<lambda>k. binBytes (k, sketch_bin s k)) keys))"
  using assms
  by (induction keys arbitrary: encoded) (auto simp: Let_def AppendUvarint_append binBytes_def)

text \<open>Walking over well-formed bins visits each of them in order and returns their total.\<close>

lemma walkBins_bytes:
  assumes "encoded = pre @ concat (map binBytes bs) @ post" "offset = length pre"
    and "sorted_wrt (<) (map fst bs)" "\<forall>(k, c) \<in> set bs. in_i64 k \<and> c \<noteq> 0"
    and "\<not> first \<Longrightarrow> \<forall>(k, c) \<in> set bs. previousKey < k"
    and "unat tot + (\<Sum>(k, c) \<leftarrow> bs. unat c) < 2 ^ 64"
  shows "walkBins encoded visit (length bs) first previousKey tot offset st =
    (fold (\<lambda>(k, c). visit k c) bs st,
     Inr (tot + (\<Sum>(k, c) \<leftarrow> bs. c), offset + length (concat (map binBytes bs))))"
  using assms
proof (induction bs arbitrary: pre offset first previousKey tot st)
  case (Cons b bs)
  obtain k c where b: "b = (k, c)" by (cases b)
  have kc: "in_i64 k" "c \<noteq> 0" using Cons.prems(4) b by auto
  let ?pre1 = "pre @ uvarint (zigzagEncode k)"
  let ?pre2 = "?pre1 @ uvarint c"
  have r1: "readUvarint encoded offset ''sketch bin key'' = Inr (zigzagEncode k, length ?pre1)"
    by (rule uvarint_field.read_at [where post = "uvarint c @ concat (map binBytes bs) @ post"])
       (use Cons.prems(1,2) b in \<open>simp_all add: binBytes_pair\<close>)
  have r2: "readUvarint encoded (length ?pre1) ''sketch bin count'' = Inr (c, length ?pre2)"
    by (rule uvarint_field.read_at [where post = "concat (map binBytes bs) @ post"])
       (use Cons.prems(1,2) b in \<open>simp_all add: binBytes_pair\<close>)
  have "unat tot + unat c < 2 ^ 64" using Cons.prems(6) b by simp
  then have ok: "\<not> tot > MaxUint64 - c" and tot: "unat (tot + c) = unat tot + unat c"
    by (simp_all only: no_wrap unat_plus_no_wrap)
  have "walkBins encoded visit (length bs) False k (tot + c) (length ?pre2) (visit k c st) =
    (fold (\<lambda>(k, c). visit k c) bs (visit k c st),
     Inr (tot + c + (\<Sum>(k, c) \<leftarrow> bs. c), length ?pre2 + length (concat (map binBytes bs))))"
    by (rule Cons.IH) (use Cons.prems b tot in \<open>auto simp: binBytes_pair\<close>)
  moreover have "first \<or> \<not> k \<le> previousKey" using Cons.prems(5) b by auto
  ultimately show ?case
    using r1 r2 ok kc Cons.prems(2) by (simp add: b zigzag_roundtrip binBytes_pair Let_def)
qed simp

text \<open>The bins in the order of the encoding.\<close>

definition sortedBins :: "Sketch \<Rightarrow> (int \<times> 64 word) list" where
  "sortedBins s = map (\<lambda>k. (k, sketch_bin s k)) (sortedKeys s)"

lemma map_fst_sortedBins [simp]: "map fst (sortedBins s) = sortedKeys s"
  by (simp add: sortedBins_def comp_def)

lemma length_sortedBins [simp]: "length (sortedBins s) = length (sortedKeys s)"
  by (simp add: sortedBins_def)

lemma set_sortedKeys [simp]: "set (sortedKeys s) = fst ` set (sk_bins s)"
  by (simp add: sortedKeys_def)

lemma sortedKeys_strict: "sketch_inv s \<Longrightarrow> sorted_wrt (<) (sortedKeys s)"
  by (simp add: sortedKeys_def strict_sorted_iff sketch_inv_def)

lemma sortedKeys_bin: "sketch_inv s \<Longrightarrow> k \<in> set (sortedKeys s) \<Longrightarrow> sketch_bin s k \<noteq> 0 \<and> in_i64 k"
  by (fastforce simp: sketch_inv_def dest: sketch_bin_in)

lemma sortedBins_valid: "sketch_inv s \<Longrightarrow> \<forall>(k, c) \<in> set (sortedBins s). in_i64 k \<and> c \<noteq> 0"
  using sortedKeys_bin by (auto simp: sortedBins_def)

lemma size_dist: "size (dist s) = (\<Sum>k \<in> fst ` set (sk_bins s). unat (sketch_bin s k))"
proof -
  have "size (\<Sum>k \<in> A. replicate_mset (f k) k) = (\<Sum>k \<in> A. f k)" if "finite A" for f and A :: "int set"
    using that by (induction A rule: finite_induct) auto
  then show ?thesis by (simp add: dist_def)
qed

lemma sum_sortedBins:
  assumes "sketch_inv s"
  shows "(\<Sum>(k, c) \<leftarrow> sortedBins s. unat c) = unat (sk_count s)"
proof -
  have "distinct (sortedKeys s)" using assms by (simp add: sortedKeys_def sketch_inv_def)
  then have "(\<Sum>k \<leftarrow> sortedKeys s. unat (sketch_bin s k)) = size (dist s)"
    by (simp add: sum_list_distinct_conv_sum_set size_dist)
  then show ?thesis using assms by (simp add: sortedBins_def comp_def sketch_inv_def)
qed

lemma sum_list_of_unat: "(\<Sum>(k, c) \<leftarrow> bs. c) = (of_nat (\<Sum>(k, c) \<leftarrow> bs. unat c) :: 64 word)"
  by (induction bs) auto

lemma length_le_sum: "\<forall>(k, c) \<in> set bs. c \<noteq> 0 \<Longrightarrow> length bs \<le> (\<Sum>(k, c) \<leftarrow> bs. unat (c :: 64 word))"
proof (induction bs)
  case (Cons b bs)
  obtain k c where b: "b = (k, c)" by (cases b)
  then have "0 < unat c" using Cons.prems by (auto simp: unat_gt_0)
  then show ?case using Cons b by auto
qed simp

lemma MarshalBinary_walk:
  assumes "sketch_inv s"
  obtains encoded where "sketch_MarshalBinary (Some s) = Inr encoded"
    "\<And>(visit :: int \<Rightarrow> 64 word \<Rightarrow> 's \<Rightarrow> 's) st. walkSketch encoded visit st =
       (fold (\<lambda>(k, c). visit k c) (sortedBins s) st, Inr (sk_count s))"
proof -
  let ?n = "of_nat (length (sortedKeys s)) :: 64 word"
  let ?pre = "FormatVersion # uvarint ?n"
  let ?body = "concat (map binBytes (sortedBins s))"
  let ?enc = "?pre @ ?body @ []"
  have less: "unat (sk_count s) < 2 ^ 64" using unsigned_less [of "sk_count s"] by simp
  have "length (sortedBins s) \<le> unat (sk_count s)"
    using length_le_sum [of "sortedBins s"] sortedBins_valid [OF assms] sum_sortedBins [OF assms]
    by fastforce
  then have n: "unat ?n = length (sortedBins s)" using less by (simp add: unat_of_nat)
  have m: "sketch_MarshalBinary (Some s) = Inr ?enc"
    using sortedKeys_bin [OF assms]
    by (simp add: sketch_MarshalBinary_def Let_def appendBins_bytes AppendUvarint_append
        sortedBins_def comp_def)
  have r: "readUvarint ?enc 1 ''sketch bin count'' = Inr (?n, length ?pre)"
    using uvarint_field.read_at [where pre = "[FormatVersion]" and x = ?n and post = ?body] by simp
  have "walkBins ?enc visit (length (sortedBins s)) True 0 0 (length ?pre) st =
      (fold (\<lambda>(k, c). visit k c) (sortedBins s) st,
       Inr (0 + (\<Sum>(k, c) \<leftarrow> sortedBins s. c), length ?pre + length ?body))" for visit :: "int \<Rightarrow> 64 word \<Rightarrow> 's \<Rightarrow> 's" and st
    by (rule walkBins_bytes [where pre = ?pre and post = "[]"])
       (use less sortedKeys_strict [OF assms] sortedBins_valid [OF assms] sum_sortedBins [OF assms]
         in \<open>auto\<close>)
  then have "walkSketch ?enc visit st =
      (fold (\<lambda>(k, c). visit k c) (sortedBins s) st, Inr (sk_count s))" for visit :: "int \<Rightarrow> 64 word \<Rightarrow> 's \<Rightarrow> 's" and st
    using r by (simp add: walkSketch_def n sum_list_of_unat sum_sortedBins [OF assms])
  with m show ?thesis using that by blast
qed

lemma walk_marshalled:
  fixes visit :: "int \<Rightarrow> 64 word \<Rightarrow> 's \<Rightarrow> 's"
  assumes "sketch_inv s" "sketch_MarshalBinary (Some s) = Inr encoded"
  shows "walkSketch encoded visit st =
    (fold (\<lambda>(k, c). visit k c) (sortedBins s) st, Inr (sk_count s))"
proof (rule MarshalBinary_walk [where 's = 's, OF assms(1)])
  fix e
  assume "sketch_MarshalBinary (Some s) = Inr e"
    and w: "\<And>(visit :: int \<Rightarrow> 64 word \<Rightarrow> 's \<Rightarrow> 's) st. walkSketch e visit st =
      (fold (\<lambda>(k, c). visit k c) (sortedBins s) st, Inr (sk_count s))"
  then have "e = encoded" using assms(2) by simp
  with w [of visit st] show ?thesis by simp
qed

lemma fold_putBin:
  "distinct (map fst (sk_bins s @ bs)) \<Longrightarrow>
   fold (\<lambda>(k, c). putBin k c) bs s = s\<lparr>sk_bins := sk_bins s @ bs\<rparr>"
proof (induction bs arbitrary: s)
  case (Cons b bs)
  obtain k c where b: "b = (k, c)" by (cases b)
  have "k \<notin> fst ` set (sk_bins s)" using Cons.prems b by auto
  then have "AList.update k c (sk_bins s) = sk_bins s @ [(k, c)]" by (rule update_fresh)
  then show ?case using Cons b by (simp add: putBin_def)
qed simp

lemma sketch_inv_sorted:
  assumes "sketch_inv s"
  shows "sketch_inv \<lparr>sk_bins = sortedBins s, sk_count = sk_count s\<rparr>" (is "sketch_inv ?t")
    and "dist \<lparr>sk_bins = sortedBins s, sk_count = sk_count s\<rparr> = dist s"
proof -
  have d: "distinct (map fst (sortedBins s))" using assms by (simp add: sortedKeys_def sketch_inv_def)
  have "sketch_bin ?t k = sketch_bin s k" for k
  proof (cases "k \<in> fst ` set (sk_bins s)")
    case True
    then have "(k, sketch_bin s k) \<in> set (sortedBins s)" by (auto simp: sortedBins_def)
    with d show ?thesis using sketch_bin_in [of k _ ?t] by simp
  next
    case False
    moreover have "fst ` set (sortedBins s) = fst ` set (sk_bins s)"
      using set_map [of fst "sortedBins s"] by simp
    ultimately show ?thesis
      by (simp add: sketch_bin_def map_of_eq_None_iff [THEN iffD2])
  qed
  then show dist: "dist ?t = dist s" by (intro multiset_eqI) simp
  then show "sketch_inv ?t"
    using assms d sortedBins_valid [OF assms] by (simp add: sketch_inv_def)
qed

text \<open>
  C33. What \<open>MarshalBinary\<close> writes of a well-formed sketch, \<open>UnmarshalSketch\<close> reads back: the
  same counter and the same distribution, again well formed, and marshalling the result gives
  the same bytes (the encoding does not depend on the iteration order of the map of bins).
\<close>

theorem sketch_marshal_roundtrip:
  assumes "sketch_inv s"
  shows "\<exists>encoded t. sketch_MarshalBinary (Some s) = Inr encoded \<and> UnmarshalSketch encoded = Inr t
    \<and> sketch_inv t \<and> dist t = dist s \<and> sk_count t = sk_count s
    \<and> sketch_MarshalBinary (Some t) = Inr encoded"
proof -
  obtain encoded where m: "sketch_MarshalBinary (Some s) = Inr encoded"
    by (rule MarshalBinary_walk [OF assms])
  note w = walk_marshalled [OF assms m, of putBin NewSketch]
  let ?t = "\<lparr>sk_bins = sortedBins s, sk_count = sk_count s\<rparr>"
  have "distinct (sortedKeys s)" using assms by (simp add: sortedKeys_def sketch_inv_def)
  then have "UnmarshalSketch encoded = Inr ?t"
    using w by (simp add: UnmarshalSketch_def fold_putBin NewSketch_def)
  moreover have "sortedKeys ?t = sortedKeys s" 
    by (simp add: sortedKeys_def [of ?t]) (simp add: sortedKeys_def sorted_sort_id)
  moreover have "sketch_bin ?t = sketch_bin s"
  proof
    fix k show "sketch_bin ?t k = sketch_bin s k"
      using arg_cong [OF sketch_inv_sorted(2) [OF assms], of "\<lambda>m. count m k"]
      by (simp add: word_unat_eq_iff)
  qed
  moreover have "appendBins ?t enc ks = appendBins s enc ks" if "sketch_bin ?t = sketch_bin s" for enc ks
    using that by (induction ks arbitrary: enc) (simp_all add: Let_def)
  ultimately have "sketch_MarshalBinary (Some ?t) = Inr encoded"
    using m by (simp add: sketch_MarshalBinary_def)
  with m \<open>UnmarshalSketch encoded = Inr ?t\<close> sketch_inv_sorted [OF assms] show ?thesis
    by (metis select_convs(2))
qed

text \<open>The merger's visitor is \<open>mergeBins\<close> on the decoded bins.\<close>

lemma fold_mergeVisit_failed: "fold (\<lambda>(k, c). mergeVisit k c) bs (s, Some k) = (s, Some k)"
  by (induction bs) (auto simp: mergeVisit_def)

lemma fold_mergeVisit:
  "mergeBins bs s = (u, None) \<Longrightarrow> fold (\<lambda>(k, c). mergeVisit k c) bs (s, None) = (u, None)"
  by (induction bs arbitrary: s) (auto simp: mergeVisit_def putBin_def split: if_splits)

lemma fold_mergeVisit_count:
  "sk_count (fst (fold (\<lambda>(k, c). mergeVisit k c) bs st)) = sk_count (fst st)"
proof (induction bs arbitrary: st)
  case (Cons b bs)
  have "sk_count (fst (mergeVisit k c st)) = sk_count (fst st)" for k c
    by (cases st) (auto simp: mergeVisit_def putBin_def split: option.splits)
  with Cons [of "mergeVisit (fst b) (snd b) st"] show ?case by (cases b) simp
qed simp

text \<open>
  C9. The streaming merger of the query path refines \<open>Sketch.Merge\<close>: fed the encoding of a
  well-formed sketch it ends with the sum of the two distributions when the counter can hold it,
  and otherwise it fails and is closed, so that no half-merged result can be taken.
\<close>

theorem query_sketch_merge_refines:
  assumes "sketch_inv s" "sketch_inv t" "sketch_MarshalBinary (Some t) = Inr encoded"
  shows "if unat (sk_count s) + unat (sk_count t) < 2 ^ 64
    then \<exists>u. querySketch_MergeBinary (Some s) encoded = (Some u, Inr (sk_count t))
       \<and> sketch_inv u \<and> dist u = dist s + dist t
    else \<exists>e. querySketch_MergeBinary (Some s) encoded = (None, Inl e)"
proof -
  have w: "walkSketch encoded mergeVisit (s, None) =
       (fold (\<lambda>(k, c). mergeVisit k c) (sortedBins t) (s, None), Inr (sk_count t))"
    by (rule walk_marshalled [OF assms(2,3)])
  show ?thesis
  proof (cases "unat (sk_count s) + unat (sk_count t) < 2 ^ 64")
    case True
    let ?t = "\<lparr>sk_bins = sortedBins t, sk_count = sk_count t\<rparr>"
    note t = sketch_inv_sorted [OF assms(2)]
    obtain u where u: "sketch_Merge (Some s) (Some ?t) = (Some u, None)" "sketch_inv u"
        "dist u = dist s + dist t"
      using sketch_Merge_correct [OF assms(1) t(1)] True t(2) by auto
    have "\<not> sk_count s > MaxUint64 - sk_count t" using True by (simp only: no_wrap)
    then obtain v where v: "mergeBins (sortedBins t) s = (v, None)" "u = v\<lparr>sk_count := sk_count v + sk_count t\<rparr>"
      using u(1) by (auto simp: sketch_Merge_def split: prod.splits option.splits)
    have "sk_count v = sk_count s"
      using fold_mergeVisit_count [of "sortedBins t" "(s, None)"] fold_mergeVisit [OF v(1)] by simp
    with v u w True \<open>\<not> _\<close> fold_mergeVisit [OF v(1)] show ?thesis
      by (simp add: querySketch_MergeBinary_def)
  next
    case False
    obtain v k where v: "fold (\<lambda>(k, c). mergeVisit k c) (sortedBins t) (s, None) = (v, k)"
      by fastforce
    then have "sk_count v = sk_count s"
      using fold_mergeVisit_count [of "sortedBins t" "(s, None)"] by simp
    then have "sk_count v > MaxUint64 - sk_count t" using False by (simp only: no_wrap)
    with False v w show ?thesis by (cases k) (simp_all add: querySketch_MergeBinary_def)
  qed
qed

section \<open>The nearest-rank percentile\<close>

text \<open>The samples of a sketch in order, bucket by bucket.\<close>

definition expand :: "Sketch \<Rightarrow> int list \<Rightarrow> int list" where
  "expand s keys = concat (map (\<lambda>k. replicate (unat (sketch_bin s k)) k) keys)"

lemma mset_expand: "distinct keys \<Longrightarrow> set keys = fst ` set (sk_bins s) \<Longrightarrow> mset (expand s keys) = dist s"
proof -
  assume "distinct keys" "set keys = fst ` set (sk_bins s)"
  moreover have "mset (expand s keys) = (\<Sum>k \<leftarrow> keys. replicate_mset (unat (sketch_bin s k)) k)"
    by (induction keys) (auto simp: expand_def)
  ultimately show ?thesis by (simp add: sum_list_distinct_conv_sum_set dist_def)
qed

lemma sorted_expand: "sorted keys \<Longrightarrow> sorted (expand s keys)"
  by (induction keys) (auto simp: expand_def sorted_append)

lemma expand_dist: "sketch_inv s \<Longrightarrow> expand s (sortedKeys s) = sorted_list_of_multiset (dist s)"
proof -
  assume s: "sketch_inv s"
  then have "distinct (sortedKeys s)" by (simp add: sortedKeys_def sketch_inv_def)
  then have "mset (expand s (sortedKeys s)) = dist s" by (rule mset_expand) simp
  moreover have "sorted (expand s (sortedKeys s))" by (rule sorted_expand) (simp add: sortedKeys_def)
  ultimately show ?thesis by (metis sorted_list_of_multiset_mset sorted_sort_id)
qed

lemma rankKey_nth:
  assumes "unat cumulative < unat rank" "unat rank \<le> unat cumulative + length (expand s keys)"
    and "unat cumulative + length (expand s keys) < 2 ^ 64"
  shows "rankKey s rank cumulative keys lastKey = expand s keys ! (unat rank - unat cumulative - 1)"
  using assms
proof (induction keys arbitrary: cumulative)
  case (Cons k keys)
  let ?c = "sketch_bin s k"
  have e: "expand s (k # keys) = replicate (unat ?c) k @ expand s keys" by (simp add: expand_def)
  have add: "unat (cumulative + ?c) = unat cumulative + unat ?c"
    using Cons.prems(3) by (intro unat_plus_no_wrap) (simp add: e)
  show ?case
  proof (cases "cumulative + ?c \<ge> rank")
    case True
    then have "unat rank \<le> unat cumulative + unat ?c" by (simp add: word_le_nat_alt add)
    then have "unat rank - unat cumulative - 1 < unat ?c" using Cons.prems(1) by simp
    with True show ?thesis by (simp add: e Let_def nth_append)
  next
    case False
    then have "unat cumulative + unat ?c < unat rank" by (simp add: word_le_nat_alt add)
    moreover from this have "\<not> unat rank - unat cumulative - 1 < unat ?c" by simp
    ultimately show ?thesis using Cons False add by (simp add: e Let_def nth_append)
  qed
qed (simp add: expand_def)

lemma p95Rank_nat:
  "unat cnt * 95 + 99 < 2 ^ 64 \<Longrightarrow> unat (p95Rank cnt) = (unat cnt * 95 + 99) div 100"
  by (simp add: p95Rank_def unat_div unat_word_ariths)

text \<open>
  C35. \<open>P95\<close> of a well-formed non-empty sketch is the representative of the nearest-rank bucket:
  of the sorted samples the one at position \<open>\<lceil>0.95 n\<rceil>\<close>, as long as the product in the
  rank formula stays below \<open>2 ^ 64\<close>.
\<close>

theorem sketch_P95_nearest_rank:
  assumes "sketch_inv s" "sk_count s \<noteq> 0" "unat (sk_count s) * 95 + 99 < 2 ^ 64"
  shows "sketch_P95 representative (Some s) =
    Some (representative (sorted_list_of_multiset (dist s) ! ((95 * size (dist s) + 99) div 100 - 1)))"
proof -
  let ?r = "p95Rank (sk_count s)"
  have size: "size (dist s) = unat (sk_count s)" using assms(1) by (simp add: sketch_inv_def)
  have len: "length (expand s (sortedKeys s)) = unat (sk_count s)"
    using expand_dist [OF assms(1)] size by (simp flip: size_mset)
  have n: "0 < unat (sk_count s)" using assms(2) by (simp add: unat_gt_0)
  then have r: "0 < unat ?r" "unat ?r \<le> unat (sk_count s)" using p95Rank_nat [OF assms(3)] by auto
  have "sortedKeys s \<noteq> []" using len n by (auto simp: expand_def)
  moreover have "rankKey s ?r 0 (sortedKeys s) lastKey = expand s (sortedKeys s) ! (unat ?r - 1)" for lastKey
    using rankKey_nth [of 0 ?r s "sortedKeys s" lastKey] r len unsigned_less [of "sk_count s"] by simp
  ultimately show ?thesis
    using assms(2) by (simp add: sketch_P95_def expand_dist [OF assms(1)] p95Rank_nat [OF assms(3)]
        size mult.commute)
qed

text \<open>A sketch that the theorems are applied to: buckets -2 and 5 with 3 and 2 samples.\<close>

definition sample_sketch :: Sketch where
  "sample_sketch = \<lparr>sk_bins = [(5, 2), (- 2, 3)], sk_count = 5\<rparr>"

lemma sample_sketch_inv [simp]: "sketch_inv sample_sketch"
  by (simp add: sample_sketch_def sketch_inv_def size_dist sketch_bin_def in_i64_def MinInt64_def MaxInt64_def)

lemma sketch_marshal_roundtrip_witness:
  "\<exists>encoded t. sketch_MarshalBinary (Some sample_sketch) = Inr encoded \<and> UnmarshalSketch encoded = Inr t
    \<and> sketch_inv t \<and> dist t = dist sample_sketch \<and> sk_count t = sk_count sample_sketch
    \<and> sketch_MarshalBinary (Some t) = Inr encoded"
  by (rule sketch_marshal_roundtrip) simp

lemma sketch_P95_nearest_rank_witness:
  "sketch_P95 (\<lambda>k. k) (Some sample_sketch) =
   Some (sorted_list_of_multiset (dist sample_sketch) ! ((95 * size (dist sample_sketch) + 99) div 100 - 1))"
  by (rule sketch_P95_nearest_rank) (simp, simp_all add: sample_sketch_def)

section \<open>Merging many sketches\<close>

definition mergedSketch :: "Sketch \<Rightarrow> Sketch \<Rightarrow> Sketch option" where
  "mergedSketch s t = (case sketch_Merge (Some s) (Some t) of (Some u, None) \<Rightarrow> Some u | _ \<Rightarrow> None)"

interpretation sketch_summary: mergeable_summary
  sketch_inv mergedSketch "\<lambda>s. unat (sk_count s)" "2 ^ 64" dist "(+)"
proof unfold_locales
  fix s t assume fits: "sketch_inv s" "sketch_inv t" "unat (sk_count s) + unat (sk_count t) < 2 ^ 64"
  obtain u where "sketch_Merge (Some s) (Some t) = (Some u, None)" "sketch_inv u"
      "dist u = dist s + dist t" "sk_count u = sk_count s + sk_count t"
    by (rule sketch_Merge_correct [OF fits])
  with unat_plus_no_wrap [OF fits(3)]
  show "\<exists>u. mergedSketch s t = Some u \<and> sketch_inv u \<and> dist u = dist s + dist t
      \<and> unat (sk_count u) \<le> unat (sk_count s) + unat (sk_count t)"
    by (simp add: mergedSketch_def)
qed (simp_all add: ac_simps)

text \<open>Everything a reader of a sketch sees is a function of its distribution.\<close>

lemma P95_dist:
  assumes "sketch_inv s" "sketch_inv t" "dist s = dist t"
  shows "sketch_P95 representative (Some s) = sketch_P95 representative (Some t)"
proof -
  have bin: "sketch_bin s = sketch_bin t"
  proof
    fix k show "sketch_bin s k = sketch_bin t k"
      using arg_cong [OF assms(3), of "\<lambda>m. count m k"] by (simp add: word_unat_eq_iff)
  qed
  have "set (sortedKeys s) = set (sortedKeys t)"
  proof -
    have "set (sortedKeys u) = {k. sketch_bin u k \<noteq> 0}" if "sketch_inv u" for u
    proof -
      have "k \<in> fst ` set (sk_bins u)" if "sketch_bin u k \<noteq> 0" for k
        using that by (metis map_of_eq_None_iff option.simps(4) sketch_bin_def)
      then show ?thesis using sortedKeys_bin [OF that] by auto
    qed
    with assms bin show ?thesis by simp
  qed
  then have keys: "sortedKeys s = sortedKeys t"
    using assms sortedKeys_strict strict_sorted_equal by blast
  have "sk_count s = sk_count t"
    using assms by (simp add: sketch_inv_def word_unat_eq_iff)
  moreover have "rankKey s r c ks l = rankKey t r c ks l" for r c ks l
    by (induction ks arbitrary: c) (simp_all add: Let_def bin)
  ultimately show ?thesis by (simp add: sketch_P95_def keys)
qed

text \<open>
  Merging any rows into a sketch with \<open>Sketch.Merge\<close> succeeds while the counter can hold
  all samples, gives exactly the sum of the distributions, and neither the distribution nor the
  reported \<open>P95\<close> depends on the order in which the rows are merged.
\<close>

theorem sketch_merge_order_independent:
  assumes "sketch_inv s" "\<forall>t \<in> set ts. sketch_inv t"
    and "unat (sk_count s) + (\<Sum>t \<leftarrow> ts. unat (sk_count t)) < 2 ^ 64" "mset ts' = mset ts"
  shows "\<exists>u u'. merge_all mergedSketch s ts = Some u \<and> merge_all mergedSketch s ts' = Some u'
    \<and> sketch_inv u \<and> dist u = dist s + (\<Sum>t \<leftarrow> ts. dist t) \<and> dist u' = dist u
    \<and> sketch_P95 representative (Some u') = sketch_P95 representative (Some u)"
proof -
  have "fold (\<lambda>t a. a + dist t) ts a = a + (\<Sum>t \<leftarrow> ts. dist t)" for a
    by (induction ts arbitrary: a) (simp_all add: ac_simps)
  then have sum: "\<exists>u. merge_all mergedSketch s ts = Some u \<and> dist u = dist s + (\<Sum>t \<leftarrow> ts. dist t)"
    using sketch_summary.merge_all_ok [OF assms(1-3)] by auto
  obtain u u' where u: "merge_all mergedSketch s ts = Some u" "merge_all mergedSketch s ts' = Some u'"
      "sketch_inv u" "sketch_inv u'" "dist u = dist u'"
    using sketch_summary.merge_all_order [OF assms] by blast
  with sum P95_dist [OF u(3-5)] show ?thesis by auto
qed

lemma sketch_merge_order_independent_witness:
  "\<exists>u u'. merge_all mergedSketch NewSketch [sample_sketch, NewSketch] = Some u
    \<and> merge_all mergedSketch NewSketch [NewSketch, sample_sketch] = Some u'
    \<and> sketch_inv u \<and> dist u = dist NewSketch + (\<Sum>t \<leftarrow> [sample_sketch, NewSketch]. dist t) \<and> dist u' = dist u
    \<and> sketch_P95 (\<lambda>k. k) (Some u') = sketch_P95 (\<lambda>k. k) (Some u)"
  by (rule sketch_merge_order_independent) (simp, simp, simp_all add: sample_sketch_def NewSketch_def)

lemma query_sketch_merge_refines_witness:
  "\<exists>encoded. sketch_MarshalBinary (Some sample_sketch) = Inr encoded \<and>
   (if unat (sk_count sample_sketch) + unat (sk_count sample_sketch) < 2 ^ 64
    then \<exists>u. querySketch_MergeBinary (Some sample_sketch) encoded = (Some u, Inr (sk_count sample_sketch))
       \<and> sketch_inv u \<and> dist u = dist sample_sketch + dist sample_sketch
    else \<exists>e. querySketch_MergeBinary (Some sample_sketch) encoded = (None, Inl e))"
proof -
  obtain encoded where "sketch_MarshalBinary (Some sample_sketch) = Inr encoded"
    by (rule MarshalBinary_walk [OF sample_sketch_inv])
  with query_sketch_merge_refines [OF sample_sketch_inv sample_sketch_inv this] show ?thesis by blast
qed

text \<open>
  \<open>Sketch.Add\<close> of a positive sample adds exactly its bucket to the distribution while the
  counter has room; every failure (nil receiver, non-positive value, full counter) changes nothing.
\<close>

theorem sketch_Add_refines:
  assumes "sketch_inv s" "in_i64 (bucket v)"
  shows "if v \<le> 0 then sketch_Add bucket (Some s) v = Inl (SketchValueNotPositive v)
    else if sk_count s = MaxUint64 then sketch_Add bucket (Some s) v = Inl SketchCountOverflow
    else \<exists>u. sketch_Add bucket (Some s) v = Inr u \<and> sketch_inv u \<and> dist u = add_mset (bucket v) (dist s)"
proof -
  consider "v \<le> 0" | "0 < v" "sk_count s = MaxUint64" | "0 < v" "sk_count s \<noteq> MaxUint64" by linarith
  then show ?thesis
  proof cases
    case 3
    then show ?thesis using sketch_Add_correct [OF assms(1), of v bucket] assms(2) by fastforce
  qed (simp_all add: sketch_Add_def Let_def)
qed

lemma sketch_Add_refines_witness:
  "if (7 :: int) \<le> 0 then sketch_Add (\<lambda>v. v) (Some sample_sketch) 7 = Inl (SketchValueNotPositive 7)
   else if sk_count sample_sketch = MaxUint64 then sketch_Add (\<lambda>v. v) (Some sample_sketch) 7 = Inl SketchCountOverflow
   else \<exists>u. sketch_Add (\<lambda>v. v) (Some sample_sketch) 7 = Inr u \<and> sketch_inv u
     \<and> dist u = add_mset 7 (dist sample_sketch)"
  by (rule sketch_Add_refines) (simp_all add: in_i64_def MinInt64_def MaxInt64_def)

end
