(* ===== verification/Latency_Samples.thy ===== *)
theory Latency_Samples
  imports Latency_Codec "HOL-Library.AList" "HOL-Library.Product_Lexorder"
begin

text \<open>
  The stable sample of \<^verbatim>\<open>internal/latency/sample.go\<close>: \<open>SampleSet\<close> keeps the points with
  the smallest keys, and \<open>QuerySampleMerger\<close> does the same for a stream of encoded rows with a
  heap that it keeps between rows. The map of points is an association list from event ids in
  the iteration order of the run, a slice is a list, and a slice that the code changes in place
  is returned.
\<close>

section \<open>Points\<close>

record SamplePoint =
  EventID :: int
  Priority :: "64 word"
  TTFTMS :: int
  LatencyMS :: int

definition MaxSamplePoints :: nat where
  "MaxSamplePoints = 1000"

definition MaxEncodedSamplePoints :: nat where
  "MaxEncodedSamplePoints = 2500"

definition samplePointLess :: "SamplePoint \<Rightarrow> SamplePoint \<Rightarrow> bool" where
  "samplePointLess left right =
     (if Priority left \<noteq> Priority right then Priority left < Priority right
      else EventID left < EventID right)"

definition swapPoints :: "SamplePoint list \<Rightarrow> nat \<Rightarrow> nat \<Rightarrow> SamplePoint list" where
  "swapPoints heap i j = heap[i := heap ! j, j := heap ! i]"

function siftDownWorst :: "SamplePoint list \<Rightarrow> nat \<Rightarrow> SamplePoint list" where
  "siftDownWorst heap parent =
     (let child = parent * 2 + 1 in
      if child \<ge> length heap then heap
      else
        (let right = child + 1;
             worst = (if right < length heap \<and> samplePointLess (heap ! child) (heap ! right)
                      then right else child)
         in if \<not> samplePointLess (heap ! parent) (heap ! worst) then heap
            else siftDownWorst (swapPoints heap parent worst) worst))"
  by pat_completeness auto
termination
  by (relation "measure (\<lambda>(heap, parent). length heap - parent)") (auto simp: swapPoints_def)

declare siftDownWorst.simps [simp del]

section \<open>SampleSet\<close>

record SampleSet =
  ss_points :: "(int \<times> SamplePoint) list"

definition NewSampleSet :: SampleSet where
  "NewSampleSet = \<lparr>ss_points = []\<rparr>"

definition addPoint :: "SampleSet \<Rightarrow> SamplePoint \<Rightarrow> latencyError + SampleSet" where
  "addPoint samples point =
     (case map_of (ss_points samples) (EventID point) of
        Some existing \<Rightarrow>
          if existing \<noteq> point then Inl (ConflictingSample (EventID point)) else Inr samples
      | None \<Rightarrow> Inr (samples\<lparr>ss_points := AList.update (EventID point) point (ss_points samples)\<rparr>))"

text \<open>The heap is built bottom-up: the indices \<open>n - 1\<close> down to 0 are sifted.\<close>

fun buildHeap :: "SamplePoint list \<Rightarrow> nat \<Rightarrow> SamplePoint list" where
  "buildHeap heap 0 = heap"
| "buildHeap heap (Suc index) = buildHeap (siftDownWorst heap index) index"

fun trimRest ::
  "SamplePoint list \<Rightarrow> SamplePoint list \<Rightarrow> SampleSet \<Rightarrow> SamplePoint list \<times> SampleSet" where
  "trimRest [] heap samples = (heap, samples)"
| "trimRest (point # rest) heap samples =
     (if samplePointLess point (heap ! 0)
      then trimRest rest (siftDownWorst (heap[0 := point]) 0)
             (samples\<lparr>ss_points := AList.delete (EventID (heap ! 0)) (ss_points samples)\<rparr>)
      else trimRest rest heap
             (samples\<lparr>ss_points := AList.delete (EventID point) (ss_points samples)\<rparr>))"

definition trim :: "SampleSet \<Rightarrow> SampleSet \<times> SamplePoint option" where
  "trim samples =
     (if length (ss_points samples) \<le> MaxSamplePoints then (samples, None)
      else
        (let points = map snd (ss_points samples);
             heap0 = take MaxSamplePoints points;
             heap = buildHeap heap0 (length heap0 div 2);
             (heap', samples') = trimRest (drop MaxSamplePoints points) heap samples
         in (samples', Some (heap' ! 0))))"

definition sampleSet_Add ::
  "SampleSet option \<Rightarrow> int \<Rightarrow> int \<Rightarrow> int \<Rightarrow> latencyError + SampleSet" where
  "sampleSet_Add samples eventID ttftMS latencyMS =
     (case samples of
        None \<Rightarrow> Inl SampleSetIsNil
      | Some ss \<Rightarrow>
          if eventID \<le> 0 \<or> ttftMS \<le> 0 \<or> latencyMS \<le> 0
          then Inl (SampleValuesNotPositive eventID ttftMS latencyMS)
          else
            (let point = \<lparr>EventID = eventID, Priority = splitMix64 (uint64_of_int64 eventID),
                          TTFTMS = ttftMS, LatencyMS = latencyMS\<rparr>
             in case addPoint ss point of
                  Inl e \<Rightarrow> Inl e
                | Inr ss' \<Rightarrow> Inr (fst (trim ss'))))"

fun addPoints :: "SamplePoint list \<Rightarrow> SampleSet \<Rightarrow> SampleSet \<times> latencyError option" where
  "addPoints [] samples = (samples, None)"
| "addPoints (point # rest) samples =
     (case addPoint samples point of
        Inl e \<Rightarrow> (samples, Some e)
      | Inr samples' \<Rightarrow> addPoints rest samples')"

text \<open>A merge that meets a conflict returns the error and keeps the points it had added.\<close>

definition sampleSet_Merge ::
  "SampleSet option \<Rightarrow> SampleSet option \<Rightarrow> SampleSet option \<times> latencyError option" where
  "sampleSet_Merge samples other =
     (case (samples, other) of
        (Some ss, Some os) \<Rightarrow>
          (case addPoints (map snd (ss_points os)) ss of
             (ss', Some e) \<Rightarrow> (Some ss', Some e)
           | (ss', None) \<Rightarrow> (Some (fst (trim ss')), None))
      | _ \<Rightarrow> (samples, Some SampleSetIsNil))"

definition sampleSet_Clone :: "SampleSet option \<Rightarrow> SampleSet" where
  "sampleSet_Clone samples =
     (case samples of
        None \<Rightarrow> NewSampleSet
      | Some ss \<Rightarrow> fold (\<lambda>(eventID, point) clone.
          clone\<lparr>ss_points := AList.update eventID point (ss_points clone)\<rparr>) (ss_points ss) NewSampleSet)"

definition sampleSet_Count :: "SampleSet option \<Rightarrow> nat" where
  "sampleSet_Count samples = (case samples of None \<Rightarrow> 0 | Some ss \<Rightarrow> length (ss_points ss))"

definition sampleKey :: "SamplePoint \<Rightarrow> 64 word \<times> int" where
  "sampleKey p = (Priority p, EventID p)"

definition sampleSet_Points :: "SampleSet option \<Rightarrow> SamplePoint list" where
  "sampleSet_Points samples =
     (case samples of None \<Rightarrow> [] | Some ss \<Rightarrow> sort_key sampleKey (map snd (ss_points ss)))"

definition appendPoint :: "SamplePoint \<Rightarrow> bytes \<Rightarrow> bytes" where
  "appendPoint point encoded =
     AppendUvarint
       (AppendUvarint
          (AppendUvarint
             (AppendUvarint encoded (uint64_of_int64 (EventID point)))
             (Priority point))
          (uint64_of_int64 (TTFTMS point)))
       (uint64_of_int64 (LatencyMS point))"

definition sampleSet_MarshalBinary :: "SampleSet option \<Rightarrow> latencyError + bytes" where
  "sampleSet_MarshalBinary samples =
     (case samples of
        None \<Rightarrow> Inl SampleSetIsNil
      | Some ss \<Rightarrow>
          (let points = sampleSet_Points (Some ss) in
           if length points > MaxSamplePoints then Inl (SampleEncodingTooLong (length points))
           else Inr (fold appendPoint points
                  (AppendUvarint [FormatVersion] (of_nat (length points))))))"

fun walkPoints ::
  "bytes \<Rightarrow> (SamplePoint \<Rightarrow> 's \<Rightarrow> 's) \<Rightarrow> nat \<Rightarrow> SamplePoint option \<Rightarrow> nat \<Rightarrow> 's
   \<Rightarrow> 's \<times> (latencyError + nat)" where
  "walkPoints encoded visit 0 previous offset st = (st, Inr offset)"
| "walkPoints encoded visit (Suc n) previous offset st =
     (case readPositiveInt64 encoded offset ''sample event ID'' of
        Inl e \<Rightarrow> (st, Inl e)
      | Inr (eventID, offset1) \<Rightarrow>
      (case readUvarint encoded offset1 ''sample priority'' of
        Inl e \<Rightarrow> (st, Inl e)
      | Inr (priority, offset2) \<Rightarrow>
      (case readPositiveInt64 encoded offset2 ''sample TTFT'' of
        Inl e \<Rightarrow> (st, Inl e)
      | Inr (ttftMS, offset3) \<Rightarrow>
      (case readPositiveInt64 encoded offset3 ''sample latency'' of
        Inl e \<Rightarrow> (st, Inl e)
      | Inr (latencyMS, offset4) \<Rightarrow>
          (let point = \<lparr>EventID = eventID, Priority = priority, TTFTMS = ttftMS, LatencyMS = latencyMS\<rparr> in
           if priority \<noteq> splitMix64 (uint64_of_int64 eventID)
           then (st, Inl (SamplePriorityMismatch eventID))
           else if (case previous of None \<Rightarrow> False | Some p \<Rightarrow> \<not> samplePointLess p point)
           then (st, Inl SamplePointsNotOrdered)
           else walkPoints encoded visit n (Some point) offset4 (visit point st))))))"

definition walkSampleSet ::
  "bytes \<Rightarrow> (SamplePoint \<Rightarrow> 's \<Rightarrow> 's) \<Rightarrow> 's \<Rightarrow> 's \<times> (latencyError + nat)" where
  "walkSampleSet encoded visit st =
     (case encoded of
        [] \<Rightarrow> (st, Inl (DataEmpty ''sample''))
      | version # _ \<Rightarrow>
          if version \<noteq> FormatVersion then (st, Inl (UnsupportedVersion ''sample'' version))
          else case readUvarint encoded 1 ''sample count'' of
            Inl e \<Rightarrow> (st, Inl e)
          | Inr (cnt, offset) \<Rightarrow>
              if unat cnt > MaxEncodedSamplePoints then (st, Inl (SampleCountExceedsLimit cnt))
              else
                (case walkPoints encoded visit (unat cnt) None offset st of
                   (st', Inl e) \<Rightarrow> (st', Inl e)
                 | (st', Inr offset') \<Rightarrow>
                     if offset' \<noteq> length encoded then (st', Inl (TrailingBytes ''sample''))
                     else (st', Inr (unat cnt))))"

definition putPoint :: "SamplePoint \<Rightarrow> SampleSet \<Rightarrow> SampleSet" where
  "putPoint point samples =
     samples\<lparr>ss_points := AList.update (EventID point) point (ss_points samples)\<rparr>"

definition UnmarshalSampleSet :: "bytes \<Rightarrow> latencyError + SampleSet" where
  "UnmarshalSampleSet encoded =
     (case walkSampleSet encoded putPoint NewSampleSet of
        (_, Inl e) \<Rightarrow> Inl e
      | (samples, Inr _) \<Rightarrow> Inr samples)"

section \<open>QuerySampleMerger\<close>

text \<open>\<open>qs_samples = None\<close> is the merger after \<open>TakeSamples\<close>.\<close>

record QuerySampleMerger =
  qs_samples :: "SampleSet option"
  qs_heap :: "SamplePoint list"

definition NewQuerySampleMerger :: QuerySampleMerger where
  "NewQuerySampleMerger = \<lparr>qs_samples = Some NewSampleSet, qs_heap = []\<rparr>"

text \<open>The visitor of \<open>MergeBinary\<close>; its state is the candidates and the conflicting event (0 for none).\<close>

definition visitCandidate ::
  "SampleSet \<Rightarrow> SamplePoint list \<Rightarrow> SamplePoint \<Rightarrow> SamplePoint list \<times> int \<Rightarrow> SamplePoint list \<times> int" where
  "visitCandidate samples heap point st =
     (case st of (candidates, conflictEvent) \<Rightarrow>
        if length heap = MaxSamplePoints \<and> samplePointLess (heap ! 0) point then st
        else case map_of (ss_points samples) (EventID point) of
          Some previous \<Rightarrow>
            if previous \<noteq> point \<and> conflictEvent = 0 then (candidates, EventID point) else st
        | None \<Rightarrow>
            if length heap < MaxSamplePoints \<or> samplePointLess point (heap ! 0)
            then (candidates @ [point], conflictEvent) else st)"

fun siftUpWorst :: "SamplePoint list \<Rightarrow> nat \<Rightarrow> SamplePoint list" where
  "siftUpWorst heap child =
     (if child = 0 then heap
      else
        (let parent = (child - 1) div 2 in
         if \<not> samplePointLess (heap ! parent) (heap ! child) then heap
         else siftUpWorst (swapPoints heap parent child) parent))"

declare siftUpWorst.simps [simp del]

definition admit :: "SamplePoint \<Rightarrow> SampleSet \<times> SamplePoint list \<Rightarrow> SampleSet \<times> SamplePoint list" where
  "admit point st =
     (case st of (samples, heap) \<Rightarrow>
        if length heap < MaxSamplePoints
        then (putPoint point samples, siftUpWorst (heap @ [point]) (length heap))
        else if samplePointLess point (heap ! 0)
        then (putPoint point
                (samples\<lparr>ss_points := AList.delete (EventID (heap ! 0)) (ss_points samples)\<rparr>),
              siftDownWorst (heap[0 := point]) 0)
        else st)"

definition querySample_MergeBinary ::
  "QuerySampleMerger \<Rightarrow> bytes \<Rightarrow> QuerySampleMerger \<times> (latencyError + nat)" where
  "querySample_MergeBinary merger encoded =
     (case qs_samples merger of
        None \<Rightarrow> (merger, Inl MergerClosed)
      | Some samples \<Rightarrow>
          (case walkSampleSet encoded (visitCandidate samples (qs_heap merger)) ([], 0) of
             (_, Inl e) \<Rightarrow> (merger, Inl e)
           | ((candidates, conflictEvent), Inr cnt) \<Rightarrow>
               if conflictEvent \<noteq> 0 then (merger, Inl (ConflictingSample conflictEvent))
               else if candidates = [] then (merger, Inr cnt)
               else
                 (let (samples', heap') = fold admit candidates (samples, qs_heap merger)
                  in (\<lparr>qs_samples = Some samples', qs_heap = heap'\<rparr>, Inr cnt))))"

definition querySample_TakeSamples ::
  "QuerySampleMerger \<Rightarrow> SampleSet option \<times> QuerySampleMerger" where
  "querySample_TakeSamples merger = (qs_samples merger, \<lparr>qs_samples = None, qs_heap = []\<rparr>)"

section \<open>The order of points\<close>

lemma less_key: "samplePointLess a b \<longleftrightarrow> sampleKey a < sampleKey b"
  by (auto simp: samplePointLess_def sampleKey_def)

lemma not_less_key: "\<not> samplePointLess a b \<longleftrightarrow> sampleKey b \<le> sampleKey a"
  by (simp add: less_key not_less)

section \<open>The heap\<close>

text \<open>
  \<open>heap_from lo h\<close>: every index whose parent is at least \<open>lo\<close> is no worse than its parent.
  \<open>heap_hole lo p h\<close>: the same, but \<open>p\<close> may be too good for its children; the children are
  still no worse than the parent of \<open>p\<close>.
\<close>

definition heap_from :: "nat \<Rightarrow> SamplePoint list \<Rightarrow> bool" where
  "heap_from lo h \<longleftrightarrow>
     (\<forall>i < length h. 0 < i \<and> lo \<le> (i - 1) div 2 \<longrightarrow> sampleKey (h ! i) \<le> sampleKey (h ! ((i - 1) div 2)))"

definition heap_hole :: "nat \<Rightarrow> nat \<Rightarrow> SamplePoint list \<Rightarrow> bool" where
  "heap_hole lo p h \<longleftrightarrow>
     (\<forall>i < length h. 0 < i \<and> lo \<le> (i - 1) div 2 \<and> (i - 1) div 2 \<noteq> p \<longrightarrow>
        sampleKey (h ! i) \<le> sampleKey (h ! ((i - 1) div 2)))
   \<and> (0 < p \<and> lo \<le> (p - 1) div 2 \<longrightarrow>
        (\<forall>i < length h. 0 < i \<and> (i - 1) div 2 = p \<longrightarrow> sampleKey (h ! i) \<le> sampleKey (h ! ((p - 1) div 2))))"

lemma length_swap [simp]: "length (swapPoints h i j) = length h"
  by (simp add: swapPoints_def)

lemma mset_swapPoints: "i < length h \<Longrightarrow> j < length h \<Longrightarrow> mset (swapPoints h i j) = mset h"
  by (simp add: swapPoints_def mset_swap)

lemma nth_swap:
  "i < length h \<Longrightarrow> j < length h \<Longrightarrow>
   swapPoints h i j ! k = (if k = j then h ! i else if k = i then h ! j else h ! k)"
  by (auto simp: swapPoints_def nth_list_update)

lemma children: "0 < i \<Longrightarrow> (i - 1) div 2 = p \<longleftrightarrow> i = 2 * p + 1 \<or> i = 2 * p + 2" for i p :: nat
  by auto

lemma sift_step_hole:
  assumes hole: "heap_hole lo p h" and p: "p < length h" and c: "c < length h" "0 < c" "(c - 1) div 2 = p"
    and worst: "\<forall>i < length h. 0 < i \<and> (i - 1) div 2 = p \<longrightarrow> sampleKey (h ! i) \<le> sampleKey (h ! c)"
    and less: "sampleKey (h ! p) < sampleKey (h ! c)"
  shows "heap_hole lo c (swapPoints h p c)"
proof -
  have pc: "p < c" using c by auto
  have edge: "sampleKey (swapPoints h p c ! i) \<le> sampleKey (swapPoints h p c ! ((i - 1) div 2))"
    if i: "i < length h" "0 < i" "lo \<le> (i - 1) div 2" "(i - 1) div 2 \<noteq> c" for i
  proof (cases "(i - 1) div 2 = p")
    case True
    then show ?thesis
      using worst less i pc by (auto simp: nth_swap [OF p c(1)])
  next
    case False
    have up: "sampleKey (h ! i) \<le> sampleKey (h ! ((i - 1) div 2))"
      using hole i False by (auto simp: heap_hole_def)
    have "i \<noteq> c" using c False by auto
    show ?thesis
    proof (cases "i = p")
      case True
      then have "sampleKey (h ! c) \<le> sampleKey (h ! ((p - 1) div 2))"
        using hole i c by (auto simp: heap_hole_def)
      then show ?thesis using True i \<open>i \<noteq> c\<close> by (auto simp: nth_swap [OF p c(1)])
    next
      case np: False
      then show ?thesis using up False i(4) \<open>i \<noteq> c\<close> by (simp add: nth_swap [OF p c(1)])
    qed
  qed
  have below: "sampleKey (swapPoints h p c ! i) \<le> sampleKey (swapPoints h p c ! ((c - 1) div 2))"
    if "lo \<le> p" "i < length h" "0 < i" "(i - 1) div 2 = c" for i
  proof -
    have "c < i" using that by auto
    then have "sampleKey (h ! i) \<le> sampleKey (h ! c)"
      using hole that pc by (auto simp: heap_hole_def)
    then show ?thesis using c(3) pc \<open>c < i\<close> by (simp add: nth_swap [OF p c(1)])
  qed
  show ?thesis unfolding heap_hole_def using edge below c(3) by simp
qed

lemma hole_closed:
  assumes "heap_hole lo p h"
    and kids: "\<forall>i < length h. 0 < i \<and> (i - 1) div 2 = p \<longrightarrow> sampleKey (h ! i) \<le> sampleKey (h ! p)"
  shows "heap_from lo h"
proof (unfold heap_from_def, intro allI impI)
  fix i assume i: "i < length h" "0 < i \<and> lo \<le> (i - 1) div 2"
  show "sampleKey (h ! i) \<le> sampleKey (h ! ((i - 1) div 2))"
  proof (cases "(i - 1) div 2 = p")
    case True
    have "sampleKey (h ! i) \<le> sampleKey (h ! p)" using kids i(1) conjunct1 [OF i(2)] True by simp
    then show ?thesis unfolding True .
  next
    case False
    with assms(1) i show ?thesis unfolding heap_hole_def by blast
  qed
qed

lemma siftDownWorst_spec:
  assumes "heap_hole lo p h" "p < length h"
  shows "heap_from lo (siftDownWorst h p) \<and> mset (siftDownWorst h p) = mset h"
  using assms
proof (induction h p rule: siftDownWorst.induct)
  case (1 h p)
  let ?l = "p * 2 + 1"
  let ?w = "if ?l + 1 < length h \<and> samplePointLess (h ! ?l) (h ! (?l + 1)) then ?l + 1 else ?l"
  have kids: "i = ?l \<or> i = ?l + 1" if "0 < i" "(i - 1) div 2 = p" for i
    using that by auto
  show ?case
  proof (cases "?l \<ge> length h")
    case True
    then have "\<not> (0 < i \<and> (i - 1) div 2 = p)" if "i < length h" for i using that kids [of i] by auto
    then have "heap_from lo h" by (intro hole_closed [OF 1(2)]) blast
    with True show ?thesis by (simp add: siftDownWorst.simps [of h p])
  next
    case False
    have w: "?w < length h" "0 < ?w" "(?w - 1) div 2 = p" using False by auto
    have worst: "\<forall>i < length h. 0 < i \<and> (i - 1) div 2 = p \<longrightarrow> sampleKey (h ! i) \<le> sampleKey (h ! ?w)"
    proof (intro allI impI)
      fix i assume i: "i < length h" "0 < i \<and> (i - 1) div 2 = p"
      then consider "i = ?l" | "i = ?l + 1" using kids by blast
      then show "sampleKey (h ! i) \<le> sampleKey (h ! ?w)"
        using i(1) by cases (auto simp: less_key not_less)
    qed
    show ?thesis
    proof (cases "samplePointLess (h ! p) (h ! ?w)")
      case True
      have "heap_hole lo ?w (swapPoints h p ?w)"
        by (rule sift_step_hole [OF 1(2,3) w worst]) (use True in \<open>simp only: less_key\<close>)
      then have "heap_from lo (siftDownWorst (swapPoints h p ?w) ?w)
          \<and> mset (siftDownWorst (swapPoints h p ?w) ?w) = mset (swapPoints h p ?w)"
        using 1(1) [OF refl False refl refl] True w(1) by simp
      moreover have "siftDownWorst h p = siftDownWorst (swapPoints h p ?w) ?w"
        using False True
        by (simp only: siftDownWorst.simps [of h p] Let_def if_False not_True_eq_False)
      ultimately show ?thesis using mset_swapPoints [OF 1(3) w(1)] by simp
    next
      case stop: False
      then have "sampleKey (h ! ?w) \<le> sampleKey (h ! p)" by (simp only: not_less_key)
      then have "heap_from lo h" using worst by (intro hole_closed [OF 1(2)]) (blast intro: order_trans)
      moreover have "siftDownWorst h p = h"
        using False stop
        by (simp only: siftDownWorst.simps [of h p] Let_def if_False if_True not_False_eq_True)
      ultimately show ?thesis by simp
    qed
  qed
qed

lemma length_siftDownWorst: "heap_hole lo p h \<Longrightarrow> p < length h \<Longrightarrow> length (siftDownWorst h p) = length h"
  using siftDownWorst_spec [of lo p h] by (metis size_mset)

lemma heap_from_top: "heap_from (length h div 2) h"
  by (auto simp: heap_from_def)

lemma heap_hole_build: "heap_from (Suc lo) h \<Longrightarrow> heap_hole lo lo h"
  unfolding heap_from_def heap_hole_def by auto

lemma buildHeap_spec:
  "heap_from n h \<Longrightarrow> n \<le> length h \<Longrightarrow> heap_from 0 (buildHeap h n) \<and> mset (buildHeap h n) = mset h"
proof (induction n arbitrary: h)
  case (Suc n)
  note hole = heap_hole_build [OF Suc.prems(1)]
  have n: "n < length h" using Suc.prems(2) by simp
  from siftDownWorst_spec [OF hole n] length_siftDownWorst [OF hole n] Suc.IH [of "siftDownWorst h n"] n
  show ?case by simp
qed simp

text \<open>Replacing the root leaves a hole there; the root of a heap is its worst point.\<close>

lemma heap_hole_root: "heap_from 0 h \<Longrightarrow> heap_hole 0 0 (h[0 := x])"
proof -
  assume "heap_from 0 h"
  then have "sampleKey (h[0 := x] ! i) \<le> sampleKey (h[0 := x] ! ((i - 1) div 2))"
    if "i < length h" "0 < i" "(i - 1) div 2 \<noteq> 0" for i
    using that by (simp add: heap_from_def nth_list_update)
  then show ?thesis by (simp add: heap_hole_def)
qed

lemma heap_root_worst: "heap_from 0 h \<Longrightarrow> i < length h \<Longrightarrow> sampleKey (h ! i) \<le> sampleKey (h ! 0)"
proof (induction i rule: less_induct)
  case (less i)
  show ?case
  proof (cases "i = 0")
    case False
    then have "sampleKey (h ! i) \<le> sampleKey (h ! ((i - 1) div 2))"
      using less.prems by (simp add: heap_from_def)
    also have "\<dots> \<le> sampleKey (h ! 0)" using less False by simp
    finally show ?thesis .
  qed simp
qed

lemma replace_root:
  assumes "heap_from 0 h" "h \<noteq> []"
  shows "heap_from 0 (siftDownWorst (h[0 := x]) 0)"
    and "mset (siftDownWorst (h[0 := x]) 0) = add_mset x (mset h - {#h ! 0#})"
  using siftDownWorst_spec [OF heap_hole_root [OF assms(1), of x]] assms(2)
  by (simp_all add: mset_update)

text \<open>Appending a point breaks the order at the last index only; \<open>siftUpWorst\<close> carries it up.\<close>

definition heap_up :: "nat \<Rightarrow> SamplePoint list \<Rightarrow> bool" where
  "heap_up c h \<longleftrightarrow>
     (\<forall>i < length h. 0 < i \<and> i \<noteq> c \<longrightarrow> sampleKey (h ! i) \<le> sampleKey (h ! ((i - 1) div 2)))
   \<and> (0 < c \<longrightarrow> (\<forall>i < length h. 0 < i \<and> (i - 1) div 2 = c \<longrightarrow>
        sampleKey (h ! i) \<le> sampleKey (h ! ((c - 1) div 2))))"

lemma up_step:
  assumes up: "heap_up c h" and c: "0 < c" "c < length h" and p: "p = (c - 1) div 2"
    and less: "sampleKey (h ! p) < sampleKey (h ! c)"
  shows "heap_up p (swapPoints h p c)"
proof -
  have pc: "p < c" "p < length h" using c p by auto
  have edge: "sampleKey (swapPoints h p c ! i) \<le> sampleKey (swapPoints h p c ! ((i - 1) div 2))"
    if i: "i < length h" "0 < i" "i \<noteq> p" for i
  proof (cases "i = c")
    case True
    then have "(i - 1) div 2 = p" using p by simp
    with True less pc show ?thesis by (simp add: nth_swap [OF pc(2) c(2)])
  next
    case False
    have e: "sampleKey (h ! i) \<le> sampleKey (h ! ((i - 1) div 2))" using up i False by (simp add: heap_up_def)
    consider "(i - 1) div 2 = c" | "(i - 1) div 2 = p" | "(i - 1) div 2 \<noteq> c" "(i - 1) div 2 \<noteq> p" by blast
    then show ?thesis
    proof cases
      case 1
      then have "sampleKey (h ! i) \<le> sampleKey (h ! p)" using up i c p by (simp add: heap_up_def)
      then show ?thesis using 1 i False by (simp add: nth_swap [OF pc(2) c(2)])
    next
      case 2
      then have "sampleKey (h ! i) \<le> sampleKey (h ! c)" using e less by simp
      then show ?thesis using 2 i False pc by (simp add: nth_swap [OF pc(2) c(2)])
    next
      case 3
      then show ?thesis using e i False by (simp add: nth_swap [OF pc(2) c(2)])
    qed
  qed
  have below: "sampleKey (swapPoints h p c ! i) \<le> sampleKey (swapPoints h p c ! ((p - 1) div 2))"
    if i: "0 < p" "i < length h" "0 < i" "(i - 1) div 2 = p" for i
  proof -
    have pp: "sampleKey (h ! p) \<le> sampleKey (h ! ((p - 1) div 2))" using up i pc by (simp add: heap_up_def)
    have "sampleKey (h ! i) \<le> sampleKey (h ! p)" if "i \<noteq> c"
      using up i(2,3) that unfolding heap_up_def i(4) [symmetric] by blast
    moreover have "(p - 1) div 2 \<noteq> p" "(p - 1) div 2 \<noteq> c" "i \<noteq> p" using i pc by auto
    ultimately show ?thesis using pp by (auto simp: nth_swap [OF pc(2) c(2)])
  qed
  show ?thesis unfolding heap_up_def using edge below by simp
qed

lemma siftUpWorst_spec:
  assumes "heap_up c h" "c < length h"
  shows "heap_from 0 (siftUpWorst h c) \<and> mset (siftUpWorst h c) = mset h"
  using assms
proof (induction h c rule: siftUpWorst.induct)
  case (1 h c)
  let ?p = "(c - 1) div 2"
  show ?case
  proof (cases "c = 0 \<or> \<not> samplePointLess (h ! ?p) (h ! c)")
    case True
    then have "heap_from 0 h"
      using 1(2) unfolding heap_from_def heap_up_def not_less_key by auto
    with True show ?thesis by (auto simp: siftUpWorst.simps [of h c] Let_def)
  next
    case False
    then have "heap_up ?p (swapPoints h ?p c)"
      using up_step [OF 1(2) _ 1(3) refl] by (simp add: less_key)
    moreover have "?p < length h" using 1(3) by simp
    ultimately show ?thesis
      using 1(1) [OF _ refl] False mset_swapPoints [of ?p h c] 1(3)
      by (simp add: siftUpWorst.simps [of h c] Let_def)
  qed
qed

lemma push_heap:
  assumes "heap_from 0 h"
  shows "heap_from 0 (siftUpWorst (h @ [x]) (length h))"
    and "mset (siftUpWorst (h @ [x]) (length h)) = add_mset x (mset h)"
proof -
  have "heap_up (length h) (h @ [x])"
  proof -
    have "(i - 1) div 2 < length h \<and> (i - 1) div 2 \<noteq> length h" if "i < length (h @ [x])" "0 < i" for i
      using that by auto
    then show ?thesis using assms unfolding heap_up_def heap_from_def by (auto simp: nth_append)
  qed
  from siftUpWorst_spec [OF this]
  show "heap_from 0 (siftUpWorst (h @ [x]) (length h))"
    "mset (siftUpWorst (h @ [x]) (length h)) = add_mset x (mset h)" by simp_all
qed

section \<open>The points to keep\<close>

text \<open>\<open>best n A\<close>: the points of \<open>A\<close> with fewer than \<open>n\<close> points of \<open>A\<close> before them.\<close>

definition best :: "nat \<Rightarrow> SamplePoint set \<Rightarrow> SamplePoint set" where
  "best n A = {p \<in> A. card {q \<in> A. sampleKey q < sampleKey p} < n}"

definition before :: "SamplePoint set \<Rightarrow> SamplePoint set \<Rightarrow> bool" where
  "before H B \<longleftrightarrow> (\<forall>h \<in> H. \<forall>q \<in> B. sampleKey h < sampleKey q)"

lemma best_subset: "best n A \<subseteq> A"
  by (auto simp: best_def)

lemma best_small: "finite A \<Longrightarrow> card A \<le> n \<Longrightarrow> best n A = A"
proof -
  assume A: "finite A" "card A \<le> n"
  have "card {q \<in> A. sampleKey q < sampleKey p} < card A" if "p \<in> A" for p
    using A(1) that by (intro psubset_card_mono) auto
  with A show ?thesis by (force simp: best_def)
qed

lemma best_unique:
  assumes A: "finite A" "inj_on sampleKey A" and H: "H \<subseteq> A" "card H = n" "before H (A - H)"
  shows "best n A = H"
proof -
  have fin: "finite H" using A H finite_subset by blast
  have "card {q \<in> A. sampleKey q < sampleKey p} < n" if p: "p \<in> H" for p
  proof -
    have "q \<in> H" if "q \<in> A" "sampleKey q < sampleKey p" for q
      using H(3) p that unfolding before_def by (meson DiffI less_asym)
    then have "{q \<in> A. sampleKey q < sampleKey p} \<subset> H" using p by blast
    then show ?thesis using psubset_card_mono [OF fin] H(2) by simp
  qed
  moreover have "\<not> card {q \<in> A. sampleKey q < sampleKey p} < n" if "p \<in> A - H" for p
  proof -
    have "H \<subseteq> {q \<in> A. sampleKey q < sampleKey p}" using H that by (auto simp: before_def)
    then have "card H \<le> card {q \<in> A. sampleKey q < sampleKey p}" using A(1) by (intro card_mono) auto
    then show ?thesis using H(2) by simp
  qed
  ultimately show ?thesis using H(1) unfolding best_def by blast
qed

lemma best_take:
  assumes "distinct xs" "inj_on sampleKey (set xs)" "n \<le> length xs"
  shows "best n (set xs) = set (take n (sort_key sampleKey xs))"
    and "card (set (take n (sort_key sampleKey xs))) = n"
    and "before (set (take n (sort_key sampleKey xs))) (set xs - set (take n (sort_key sampleKey xs)))"
proof -
  let ?ys = "sort_key sampleKey xs"
  let ?H = "set (take n ?ys)"
  have ys: "distinct ?ys" "set ?ys = set xs" "sorted (map sampleKey ?ys)"
    using assms(1) by simp_all
  show c: "card ?H = n" using ys(1) assms(3) by (simp add: distinct_card)
  have sub: "?H \<subseteq> set xs" using set_take_subset [of n ?ys] ys(2) by simp
  show b: "before ?H (set xs - ?H)"
    unfolding before_def
  proof (intro ballI)
    fix h q assume h: "h \<in> ?H" and q: "q \<in> set xs - ?H"
    then have "q \<in> set (drop n ?ys)" using ys(2) by (metis DiffE UnE append_take_drop_id set_append)
    then have "sampleKey h \<le> sampleKey q"
      using ys(3) h sorted_append [of "map sampleKey (take n ?ys)" "map sampleKey (drop n ?ys)"]
      by (simp flip: map_append)
    moreover have "sampleKey h \<noteq> sampleKey q" using assms(2) h q sub by (metis DiffD1 DiffD2 inj_onD subsetD)
    ultimately show "sampleKey h < sampleKey q" by simp
  qed
  show "best n (set xs) = ?H" by (rule best_unique [OF _ assms(2) sub c b]) simp
qed

lemma best_large:
  assumes "finite A" "inj_on sampleKey A" "n \<le> card A"
  shows "card (best n A) = n" "before (best n A) (A - best n A)"
proof -
  obtain xs where "A = set xs" "distinct xs" using finite_distinct_list [OF assms(1)] by metis
  with best_take [of xs n] assms show "card (best n A) = n" "before (best n A) (A - best n A)"
    by (simp_all add: distinct_card)
qed

lemma best_absorb:
  assumes "finite A" "finite B" "inj_on sampleKey (A \<union> B)"
  shows "best n (best n A \<union> B) = best n (A \<union> B)"
proof (cases "n \<le> card A")
  case True
  let ?H = "best n A"
  let ?G = "best n (A \<union> B)"
  have injA: "inj_on sampleKey A" using assms(3) inj_on_subset by blast
  note H = best_large [OF assms(1) injA True] best_subset [of n A]
  have finH: "finite ?H" using H(3) assms(1) finite_subset by blast
  have "n \<le> card (A \<union> B)" using True assms card_mono [of "A \<union> B" A] by simp
  note G = best_large [OF _ assms(3) this] best_subset [of n "A \<union> B"]
  have finG: "finite ?G" using G(3) assms finite_subset by blast
  have sub: "?G \<subseteq> ?H \<union> B"
  proof
    fix g assume g: "g \<in> ?G"
    show "g \<in> ?H \<union> B"
    proof (rule ccontr)
      assume no: "g \<notin> ?H \<union> B"
      then have "g \<in> A - ?H" using g G(3) by auto
      then have "sampleKey h < sampleKey g" if "h \<in> ?H" for h using H(2) that by (auto simp: before_def)
      moreover have "before ?G (A \<union> B - ?G)" using G(2) assms(1,2) by simp
      ultimately have "h \<in> ?G" if "h \<in> ?H" for h
        using that g H(3) unfolding before_def by (meson DiffI UnI1 less_asym subsetD)
      then have "?H \<subseteq> ?G" by blast
      then have "insert g ?H \<subseteq> ?G" using g by simp
      then have "card (insert g ?H) \<le> card ?G" using finG by (rule card_mono [rotated])
      then show False using no finH H(1) G(1) assms(1,2) by simp
    qed
  qed
  show ?thesis
  proof (rule best_unique [OF _ _ sub])
    show "inj_on sampleKey (?H \<union> B)" using assms(3) H(3) by (meson inj_on_subset order_refl sup.mono)
    show "before ?G (?H \<union> B - ?G)" using G(2) H(3) assms(1,2) by (auto simp: before_def)
  qed (use finH assms G(1) in auto)
next
  case False
  then show ?thesis using best_small [OF assms(1)] by simp
qed

section \<open>Well-formed sample sets\<close>

text \<open>
  The map of a sample set is keyed by the event of its points; every point is valid, in
  particular its priority is the hash of its event, so that points with different events have
  different keys.
\<close>

definition valid_point :: "SamplePoint \<Rightarrow> bool" where
  "valid_point p \<longleftrightarrow> 0 < EventID p \<and> EventID p \<le> MaxInt64 \<and> 0 < TTFTMS p \<and> TTFTMS p \<le> MaxInt64
     \<and> 0 < LatencyMS p \<and> LatencyMS p \<le> MaxInt64 \<and> Priority p = splitMix64 (uint64_of_int64 (EventID p))"

definition samples_inv :: "SampleSet \<Rightarrow> bool" where
  "samples_inv ss \<longleftrightarrow> distinct (map fst (ss_points ss))
     \<and> (\<forall>(k, p) \<in> set (ss_points ss). k = EventID p \<and> valid_point p)"

definition pts :: "SampleSet \<Rightarrow> SamplePoint set" where
  "pts ss = snd ` set (ss_points ss)"

lemma finite_pts [simp]: "finite (pts ss)"
  by (simp add: pts_def)

lemma samples_inv_New [simp]: "samples_inv NewSampleSet" "pts NewSampleSet = {}"
  by (simp_all add: samples_inv_def NewSampleSet_def pts_def)

lemma inj_key: "inj_on EventID A \<Longrightarrow> inj_on sampleKey A"
  by (auto simp: inj_on_def sampleKey_def)

lemma pts_map_of:
  assumes "samples_inv ss"
  shows "map_of (ss_points ss) e = Some p \<longleftrightarrow> p \<in> pts ss \<and> EventID p = e"
proof -
  have "map_of (ss_points ss) e = Some p \<longleftrightarrow> (e, p) \<in> set (ss_points ss)"
    using assms by (simp add: samples_inv_def)
  also have "\<dots> \<longleftrightarrow> p \<in> pts ss \<and> EventID p = e" using assms by (force simp: samples_inv_def pts_def)
  finally show ?thesis .
qed

lemma pts_valid: "samples_inv ss \<Longrightarrow> p \<in> pts ss \<Longrightarrow> valid_point p"
  by (auto simp: samples_inv_def pts_def)

lemma pts_inj: "samples_inv ss \<Longrightarrow> inj_on EventID (pts ss)"
  by (rule inj_onI) (metis option.inject pts_map_of)

lemma distinct_points: "samples_inv ss \<Longrightarrow> distinct (map snd (ss_points ss))"
proof -
  assume ss: "samples_inv ss"
  then have "map fst (ss_points ss) = map EventID (map snd (ss_points ss))"
    by (auto simp: samples_inv_def)
  with ss show ?thesis by (metis distinct_map samples_inv_def)
qed

lemma card_pts: "samples_inv ss \<Longrightarrow> card (pts ss) = length (ss_points ss)"
  using distinct_card [OF distinct_points, of ss] by (simp add: pts_def)

lemma pts_delete:
  assumes "samples_inv ss" "p \<in> pts ss"
  shows "samples_inv (ss\<lparr>ss_points := AList.delete (EventID p) (ss_points ss)\<rparr>)"
    and "pts (ss\<lparr>ss_points := AList.delete (EventID p) (ss_points ss)\<rparr>) = pts ss - {p}"
proof -
  let ?ss = "ss\<lparr>ss_points := AList.delete (EventID p) (ss_points ss)\<rparr>"
  show inv: "samples_inv ?ss" using assms(1) by (auto simp: samples_inv_def AList.delete_eq distinct_map_filter)
  have "q \<in> pts ?ss \<longleftrightarrow> q \<in> pts ss \<and> EventID q \<noteq> EventID p" for q
    using pts_map_of [OF inv, of "EventID q" q] pts_map_of [OF assms(1), of "EventID q" q]
    by (simp add: delete_conv' split: if_splits)
  then show "pts ?ss = pts ss - {p}" using pts_inj [OF assms(1)] assms(2) by (auto dest: inj_onD)
qed

lemma pts_put:
  assumes "samples_inv ss" "valid_point p" "map_of (ss_points ss) (EventID p) = None"
  shows "samples_inv (putPoint p ss)" "pts (putPoint p ss) = insert p (pts ss)"
proof -
  have fresh: "EventID p \<notin> fst ` set (ss_points ss)" using assms(3) by (simp add: map_of_eq_None_iff)
  then have "AList.update (EventID p) p (ss_points ss) = ss_points ss @ [(EventID p, p)]"
    by (rule update_fresh)
  then show "samples_inv (putPoint p ss)" "pts (putPoint p ss) = insert p (pts ss)"
    using assms(1,2) fresh by (auto simp: putPoint_def samples_inv_def pts_def)
qed

section \<open>Trimming\<close>

text \<open>One step of the selection: a new point replaces the worst one, or is dropped.\<close>

lemma root_replaced:
  assumes "heap_from 0 h" "h \<noteq> []" "distinct h" "p \<notin> set h"
  shows "distinct (siftDownWorst (h[0 := p]) 0)"
    and "set (siftDownWorst (h[0 := p]) 0) = insert p (set h - {h ! 0})"
    and "length (siftDownWorst (h[0 := p]) 0) = length h"
proof -
  have r: "h ! 0 \<in> set h" using assms(2) by simp
  have m: "mset (siftDownWorst (h[0 := p]) 0) = mset (p # remove1 (h ! 0) h)"
    using replace_root [OF assms(1,2), of p] by simp
  have "distinct (p # remove1 (h ! 0) h)" using assms(3,4) set_remove1_subset [of "h ! 0" h] by auto
  with m show "distinct (siftDownWorst (h[0 := p]) 0)" by (metis mset_eq_imp_distinct_iff)
  have "set (remove1 (h ! 0) h) = set h - {h ! 0}" by (rule set_remove1_eq [OF assms(3)])
  with mset_eq_setD [OF m] show "set (siftDownWorst (h[0 := p]) 0) = insert p (set h - {h ! 0})" by simp
  have "0 < length h" using assms(2) by simp
  then show "length (siftDownWorst (h[0 := p]) 0) = length h"
    using mset_eq_length [OF m] r by (simp add: length_remove1)
qed

lemma root_max:
  assumes "heap_from 0 h" "h \<noteq> []" "inj_on sampleKey (set h)" "g \<in> set h"
  shows "g = h ! 0 \<or> sampleKey g < sampleKey (h ! 0)"
proof -
  have "sampleKey g \<le> sampleKey (h ! 0)"
    using assms(4) heap_root_worst [OF assms(1)] by (auto simp: in_set_conv_nth)
  moreover have "sampleKey g = sampleKey (h ! 0) \<Longrightarrow> g = h ! 0"
    using assms by (simp add: inj_on_eq_iff)
  ultimately show ?thesis by auto
qed

lemma before_replace:
  assumes "before H (P - H)" "r \<in> H" "\<forall>g \<in> H. g = r \<or> sampleKey g < sampleKey r" "sampleKey p < sampleKey r"
  shows "before (insert p (H - {r})) (insert p P - insert p (H - {r}))"
  unfolding before_def
proof (intro ballI)
  fix g q assume g: "g \<in> insert p (H - {r})" and q: "q \<in> insert p P - insert p (H - {r})"
  have gr: "sampleKey g < sampleKey r" using g assms(3,4) by auto
  show "sampleKey g < sampleKey q"
  proof (cases "q = r")
    case False
    then have "sampleKey r < sampleKey q" using q assms(1,2) by (auto simp: before_def)
    with gr show ?thesis by (rule less_trans)
  qed (use gr in simp)
qed

lemma before_drop:
  assumes "before H (P - H)" "\<forall>g \<in> H. g = r \<or> sampleKey g < sampleKey r" "sampleKey r < sampleKey p"
  shows "before H (insert p P - H)"
  using assms unfolding before_def by (metis DiffD1 DiffD2 DiffI insertE less_trans)

lemma trimRest_spec:
  assumes "heap_from 0 h" "h \<noteq> []" "distinct h" "samples_inv ss" "pts ss = set h \<union> set rest"
    and "distinct rest" "P \<inter> set rest = {}" "finite P" "inj_on sampleKey (P \<union> set rest)"
    and "set h \<subseteq> P" "before (set h) (P - set h)"
  shows "samples_inv (snd (trimRest rest h ss))
    \<and> pts (snd (trimRest rest h ss)) = best (length h) (P \<union> set rest)"
  using assms
proof (induction rest arbitrary: h ss P)
  case Nil
  then show ?case using best_unique [of P "set h" "length h"] by (simp add: distinct_card)
next
  case (Cons p rest)
  let ?r = "h ! 0"
  have r: "?r \<in> set h" using Cons.prems(2) by simp
  have pP: "p \<notin> P" "p \<notin> set h" using Cons.prems(7,10) by auto
  have "inj_on sampleKey (set h)" using Cons.prems(9,10) by (meson inj_on_subset le_supI1)
  then have worst: "\<forall>g \<in> set h. g = ?r \<or> sampleKey g < sampleKey ?r"
    using root_max [OF Cons.prems(1,2)] by blast
  have step: "distinct rest" "insert p P \<inter> set rest = {}" "finite (insert p P)"
      "inj_on sampleKey (insert p P \<union> set rest)" "insert p P \<union> set rest = P \<union> set (p # rest)"
    using Cons.prems(6-9) by auto
  show ?case
  proof (cases "samplePointLess p ?r")
    case True
    note R = root_replaced [OF Cons.prems(1-3) pP(2)]
    let ?h = "siftDownWorst (h[0 := p]) 0"
    let ?ss = "ss\<lparr>ss_points := AList.delete (EventID ?r) (ss_points ss)\<rparr>"
    have "?r \<in> pts ss" using Cons.prems(5) r by simp
    note D = pts_delete [OF Cons.prems(4) this]
    have "?r \<notin> set rest" "?r \<noteq> p" using r pP Cons.prems(7,10) by auto
    then have "pts ?ss = set ?h \<union> set rest" using D(2) Cons.prems(5) R(2) by auto
    moreover have "before (set ?h) (insert p P - set ?h)"
      unfolding R(2) by (rule before_replace [OF Cons.prems(11) r worst]) (use True in \<open>simp add: less_key\<close>)
    moreover have "set ?h \<subseteq> insert p P" "?h \<noteq> []" using R(2) Cons.prems(10) by auto
    ultimately have "samples_inv (snd (trimRest rest ?h ?ss))
        \<and> pts (snd (trimRest rest ?h ?ss)) = best (length ?h) (insert p P \<union> set rest)"
      using Cons.IH [OF replace_root(1) [OF Cons.prems(1,2)] _ R(1) D(1)] step by blast
    then show ?thesis using True R(3) step(5) by simp
  next
    case False
    let ?ss = "ss\<lparr>ss_points := AList.delete (EventID p) (ss_points ss)\<rparr>"
    have "p \<in> pts ss" using Cons.prems(5) by simp
    note D = pts_delete [OF Cons.prems(4) this]
    have "pts ?ss = set h \<union> set rest" using D(2) Cons.prems(5,6) pP(2) by auto
    moreover have "?r \<in> P \<union> set (p # rest)" "p \<in> P \<union> set (p # rest)" "?r \<noteq> p"
      using r Cons.prems(10) pP(2) by auto
    then have "sampleKey ?r < sampleKey p"
      using False inj_on_eq_iff [OF Cons.prems(9)] unfolding less_key not_less
      by (metis order_le_imp_less_or_eq)
    then have "before (set h) (insert p P - set h)" by (rule before_drop [OF Cons.prems(11) worst])
    moreover have "set h \<subseteq> insert p P" using Cons.prems(10) by auto
    ultimately have "samples_inv (snd (trimRest rest h ?ss))
        \<and> pts (snd (trimRest rest h ?ss)) = best (length h) (insert p P \<union> set rest)"
      using Cons.IH [OF Cons.prems(1-3) D(1)] step by blast
    then show ?thesis using False step(5) by simp
  qed
qed

lemma trim_spec:
  assumes "samples_inv ss"
  shows "samples_inv (fst (trim ss))" "pts (fst (trim ss)) = best MaxSamplePoints (pts ss)"
proof -
  have "samples_inv (fst (trim ss)) \<and> pts (fst (trim ss)) = best MaxSamplePoints (pts ss)"
  proof (cases "length (ss_points ss) \<le> MaxSamplePoints")
    case True
    then show ?thesis using assms best_small [of "pts ss"] card_pts [OF assms] by (simp add: trim_def)
  next
    case False
    let ?ps = "map snd (ss_points ss)"
    let ?t = "take MaxSamplePoints ?ps"
    let ?d = "drop MaxSamplePoints ?ps"
    let ?h = "buildHeap ?t (length ?t div 2)"
    have B: "heap_from 0 ?h" "mset ?h = mset ?t" 
      using buildHeap_spec [OF heap_from_top [of ?t]] div_le_dividend by blast+
    have split: "?t @ ?d = ?ps" by (rule append_take_drop_id)
    then have dist: "distinct (?t @ ?d)" using distinct_points [OF assms] by (simp only:)
    have all: "set ?t \<union> set ?d = pts ss" using arg_cong [OF split, of set] by (simp only: set_append pts_def set_map)
    have "distinct ?t" using dist by (simp only: distinct_append)
    then have h: "set ?h = set ?t" "distinct ?h" "length ?h = MaxSamplePoints"
      using mset_eq_setD [OF B(2)] mset_eq_imp_distinct_iff [OF B(2)] mset_eq_length [OF B(2)] False
      by (simp_all only:) simp
    have "?h \<noteq> []" using h(3) by (auto simp: MaxSamplePoints_def)
    moreover have "inj_on sampleKey (set ?t \<union> set ?d)" using inj_key [OF pts_inj [OF assms]] all by simp
    ultimately have "samples_inv (snd (trimRest ?d ?h ss))
        \<and> pts (snd (trimRest ?d ?h ss)) = best (length ?h) (set ?t \<union> set ?d)"
      using B(1) h dist all assms unfolding distinct_append
      by (intro trimRest_spec) (simp_all only: order_refl before_def Diff_cancel finite_set, auto)
    then show ?thesis using False h(3) all by (simp add: trim_def Let_def split_beta)
  qed
  then show "samples_inv (fst (trim ss))" "pts (fst (trim ss)) = best MaxSamplePoints (pts ss)" by simp_all
qed

lemma trim_bound: "samples_inv ss \<Longrightarrow> length (ss_points (fst (trim ss))) \<le> MaxSamplePoints"
proof -
  assume ss: "samples_inv ss"
  have "card (best MaxSamplePoints (pts ss)) \<le> MaxSamplePoints"
  proof (cases "MaxSamplePoints \<le> card (pts ss)")
    case True
    then show ?thesis using best_large(1) [OF finite_pts inj_key [OF pts_inj [OF ss]]] by simp
  next
    case False
    then show ?thesis using best_small [OF finite_pts, of ss] by simp
  qed
  then show ?thesis using trim_spec [OF ss] card_pts by metis
qed

section \<open>Adding and merging\<close>

lemma addPoint_spec:
  assumes "samples_inv ss" "valid_point p"
  shows "if inj_on EventID (insert p (pts ss))
    then \<exists>ss'. addPoint ss p = Inr ss' \<and> samples_inv ss' \<and> pts ss' = insert p (pts ss)
    else addPoint ss p = Inl (ConflictingSample (EventID p))"
proof (cases "map_of (ss_points ss) (EventID p)")
  case None
  then have "\<forall>q \<in> pts ss. EventID q \<noteq> EventID p" using pts_map_of [OF assms(1), of "EventID p"] by auto
  then have "inj_on EventID (insert p (pts ss))" using pts_inj [OF assms(1)] by (auto simp: inj_on_def)
  with None pts_put [OF assms None] show ?thesis by (simp add: addPoint_def putPoint_def)
next
  case (Some q)
  then have q: "q \<in> pts ss" "EventID q = EventID p" using pts_map_of [OF assms(1)] by auto
  have "inj_on EventID (insert p (pts ss)) \<longleftrightarrow> q = p"
    using q pts_inj [OF assms(1)] by (metis inj_onD insertCI insert_absorb)
  with Some q assms show ?thesis by (auto simp: addPoint_def insert_absorb)
qed

lemma addPoints_spec:
  assumes "samples_inv ss" "\<forall>p \<in> set ps. valid_point p"
  shows "if inj_on EventID (pts ss \<union> set ps)
    then \<exists>ss'. addPoints ps ss = (ss', None) \<and> samples_inv ss' \<and> pts ss' = pts ss \<union> set ps
    else \<exists>ss' e. addPoints ps ss = (ss', Some (ConflictingSample e))"
  using assms
proof (induction ps arbitrary: ss)
  case Nil
  then show ?case using pts_inj by simp
next
  case (Cons p ps)
  have eq: "pts ss \<union> set (p # ps) = insert p (pts ss) \<union> set ps" by auto
  show ?case
  proof (cases "inj_on EventID (insert p (pts ss))")
    case True
    then obtain ss' where ss': "addPoint ss p = Inr ss'" "samples_inv ss'" "pts ss' = insert p (pts ss)"
      using addPoint_spec [OF Cons.prems(1), of p] Cons.prems(2) by auto
    then show ?thesis unfolding eq ss'(3) [symmetric] using Cons.IH [OF ss'(2)] Cons.prems(2) by simp
  next
    case False
    then have "\<not> inj_on EventID (pts ss \<union> set (p # ps))" unfolding eq by (meson Un_upper1 inj_on_subset)
    moreover have "addPoint ss p = Inl (ConflictingSample (EventID p))"
      using False addPoint_spec [OF Cons.prems(1), of p] Cons.prems(2) by auto
    ultimately show ?thesis by simp
  qed
qed

lemma sampleSet_Merge_facts:
  assumes "samples_inv ss" "samples_inv os"
  shows "if inj_on EventID (pts ss \<union> pts os)
    then \<exists>u. sampleSet_Merge (Some ss) (Some os) = (Some u, None) \<and> samples_inv u
       \<and> pts u = best MaxSamplePoints (pts ss \<union> pts os) \<and> length (ss_points u) \<le> MaxSamplePoints
    else \<exists>u e. sampleSet_Merge (Some ss) (Some os) = (Some u, Some (ConflictingSample e))"
proof -
  have os: "set (map snd (ss_points os)) = pts os" by (simp add: pts_def)
  have "\<forall>p \<in> set (map snd (ss_points os)). valid_point p" using pts_valid [OF assms(2)] os by simp
  note add = addPoints_spec [OF assms(1) this, unfolded os]
  show ?thesis
  proof (cases "inj_on EventID (pts ss \<union> pts os)")
    case True
    then obtain v where v: "addPoints (map snd (ss_points os)) ss = (v, None)" "samples_inv v"
        "pts v = pts ss \<union> pts os" using add by auto
    with True trim_spec [OF v(2)] trim_bound [OF v(2)] show ?thesis by (simp add: sampleSet_Merge_def)
  next
    case False
    with add show ?thesis by (auto simp: sampleSet_Merge_def)
  qed
qed

text \<open>
  \<open>SampleSet.Merge\<close> keeps, of the union of the two sets, exactly the \<open>MaxSamplePoints\<close>
  points that come first by priority and event; two different points of one event anywhere in
  the two sets make it fail.
\<close>

theorem sampleSet_Merge_keeps_best:
  assumes "samples_inv ss" "samples_inv os"
  shows "if inj_on EventID (pts ss \<union> pts os)
    then \<exists>u. sampleSet_Merge (Some ss) (Some os) = (Some u, None) \<and> samples_inv u
       \<and> pts u = best MaxSamplePoints (pts ss \<union> pts os) \<and> length (ss_points u) \<le> MaxSamplePoints
    else \<exists>u e. sampleSet_Merge (Some ss) (Some os) = (Some u, Some (ConflictingSample e))"
  by (rule sampleSet_Merge_facts [OF assms])

text \<open>
  \<open>SampleSet.Add\<close> of positive \<open>int64\<close> values keeps the first \<open>MaxSamplePoints\<close> points of
  the set with the new point, whose priority is the hash of the event; a non-positive value and
  a conflicting event are refused.
\<close>

theorem sampleSet_Add_keeps_best:
  assumes "samples_inv ss" "e \<le> MaxInt64" "t \<le> MaxInt64" "l \<le> MaxInt64"
    and p: "p = \<lparr>EventID = e, Priority = splitMix64 (uint64_of_int64 e), TTFTMS = t, LatencyMS = l\<rparr>"
  shows "if e \<le> 0 \<or> t \<le> 0 \<or> l \<le> 0 then sampleSet_Add (Some ss) e t l = Inl (SampleValuesNotPositive e t l)
    else if \<exists>q \<in> pts ss. EventID q = e \<and> q \<noteq> p then sampleSet_Add (Some ss) e t l = Inl (ConflictingSample e)
    else \<exists>u. sampleSet_Add (Some ss) e t l = Inr u \<and> samples_inv u
       \<and> pts u = best MaxSamplePoints (insert p (pts ss)) \<and> length (ss_points u) \<le> MaxSamplePoints"
proof (cases "e \<le> 0 \<or> t \<le> 0 \<or> l \<le> 0")
  case True
  then show ?thesis by (simp add: sampleSet_Add_def)
next
  case False
  then have valid: "valid_point p" using assms by (auto simp: valid_point_def)
  have conflict: "inj_on EventID (insert p (pts ss)) \<longleftrightarrow> \<not> (\<exists>q \<in> pts ss. EventID q = e \<and> q \<noteq> p)"
    using pts_inj [OF assms(1)] p by (auto simp: inj_on_def)
  have run: "sampleSet_Add (Some ss) e t l =
      (case addPoint ss p of Inl err \<Rightarrow> Inl err | Inr ss' \<Rightarrow> Inr (fst (trim ss')))"
    using False p by (simp add: sampleSet_Add_def Let_def)
  have add: "if \<not> (\<exists>q \<in> pts ss. EventID q = e \<and> q \<noteq> p)
     then \<exists>ss'. addPoint ss p = Inr ss' \<and> samples_inv ss' \<and> pts ss' = insert p (pts ss)
     else addPoint ss p = Inl (ConflictingSample e)"
  proof -
    have "EventID p = e" using p by simp
    with addPoint_spec [OF assms(1) valid] show ?thesis unfolding conflict by (simp only:)
  qed
  show ?thesis
  proof (cases "\<exists>q \<in> pts ss. EventID q = e \<and> q \<noteq> p")
    case True
    then have "addPoint ss p = Inl (ConflictingSample e)" using add by (simp only: not_True_eq_False if_False)
    then have "sampleSet_Add (Some ss) e t l = Inl (ConflictingSample e)" using run by simp
    then show ?thesis using False True by simp
  next
    case fresh: False
    then obtain ss' where ss': "addPoint ss p = Inr ss'" "samples_inv ss'" "pts ss' = insert p (pts ss)"
      using add by (simp only: not_False_eq_True if_True) blast
    then have "sampleSet_Add (Some ss) e t l = Inr (fst (trim ss'))" using run by simp
    with ss' trim_spec [OF ss'(2)] trim_bound [OF ss'(2)] False fresh show ?thesis by simp
  qed
qed

section \<open>Encoding and decoding\<close>

definition pointBytes :: "SamplePoint \<Rightarrow> bytes" where
  "pointBytes p = uvarint (uint64_of_int64 (EventID p)) @ uvarint (Priority p)
     @ uvarint (uint64_of_int64 (TTFTMS p)) @ uvarint (uint64_of_int64 (LatencyMS p))"

lemma appendPoint_bytes: "appendPoint p encoded = encoded @ pointBytes p"
  by (simp add: appendPoint_def pointBytes_def AppendUvarint_append)

lemma fold_appendPoint: "fold appendPoint ps encoded = encoded @ concat (map pointBytes ps)"
  by (induction ps arbitrary: encoded) (simp_all add: appendPoint_bytes)

lemma walkPoints_bytes:
  assumes "encoded = pre @ concat (map pointBytes ps) @ post" "offset = length pre"
    and "sorted_wrt (\<lambda>a b. sampleKey a < sampleKey b) ps" "\<forall>p \<in> set ps. valid_point p"
    and "\<And>q. previous = Some q \<Longrightarrow> \<forall>p \<in> set ps. sampleKey q < sampleKey p"
  shows "walkPoints encoded visit (length ps) previous offset st =
    (fold visit ps st, Inr (offset + length (concat (map pointBytes ps))))"
  using assms
proof (induction ps arbitrary: pre offset previous st)
  case (Cons p ps)
  let ?rest = "concat (map pointBytes ps) @ post"
  let ?p1 = "pre @ uvarint (uint64_of_int64 (EventID p))"
  let ?p2 = "?p1 @ uvarint (Priority p)"
  let ?p3 = "?p2 @ uvarint (uint64_of_int64 (TTFTMS p))"
  let ?p4 = "?p3 @ uvarint (uint64_of_int64 (LatencyMS p))"
  have v: "valid_point p" using Cons.prems(4) by simp
  have enc: "encoded = ?p4 @ ?rest" using Cons.prems(1) by (simp add: pointBytes_def [of p])
  have r1: "readPositiveInt64 encoded offset f = Inr (EventID p, length ?p1)" for f
    using v enc Cons.prems(2) by (intro positive_field.read_at) (auto simp: valid_point_def)
  have r2: "readUvarint encoded (length ?p1) f = Inr (Priority p, length ?p2)" for f
    using enc by (intro uvarint_field.read_at) auto
  have r3: "readPositiveInt64 encoded (length ?p2) f = Inr (TTFTMS p, length ?p3)" for f
    using v enc by (intro positive_field.read_at) (auto simp: valid_point_def)
  have r4: "readPositiveInt64 encoded (length ?p3) f = Inr (LatencyMS p, length ?p4)" for f
    using v enc by (intro positive_field.read_at) (auto simp: valid_point_def)
  have eta: "\<lparr>EventID = EventID p, Priority = Priority p, TTFTMS = TTFTMS p, LatencyMS = LatencyMS p\<rparr> = p"
    by simp
  have prio: "Priority p = splitMix64 (uint64_of_int64 (EventID p))" using v by (simp add: valid_point_def)
  have order: "\<not> (case previous of None \<Rightarrow> False | Some q \<Rightarrow> \<not> samplePointLess q p)"
    using Cons.prems(5) by (auto simp: less_key split: option.splits)
  have "walkPoints encoded visit (length ps) (Some p) (length ?p4) (visit p st) =
      (fold visit ps (visit p st), Inr (length ?p4 + length (concat (map pointBytes ps))))"
    using Cons.prems(3,4) enc by (intro Cons.IH [of ?p4]) auto
  moreover have "walkPoints encoded visit (length (p # ps)) previous offset st =
      walkPoints encoded visit (length ps) (Some p) (length ?p4) (visit p st)"
    using order by (simp only: prio [symmetric] list.size walkPoints.simps r1 r2 r3 r4 eta sum.case prod.case Let_def
        add_Suc_right add_0_right if_False not_True_eq_False simp_thms)
  ultimately show ?case
    using Cons.prems(2) by (simp add: pointBytes_def [of p])
qed simp

lemma Points_facts:
  assumes "samples_inv ss"
  shows "set (sampleSet_Points (Some ss)) = pts ss" "length (sampleSet_Points (Some ss)) = length (ss_points ss)"
    and "sorted_wrt (\<lambda>a b. sampleKey a < sampleKey b) (sampleSet_Points (Some ss))"
    and "distinct (sampleSet_Points (Some ss))"
proof -
  let ?ps = "sampleSet_Points (Some ss)"
  show set: "set ?ps = pts ss" and "length ?ps = length (ss_points ss)"
    by (simp_all add: sampleSet_Points_def pts_def)
  show d: "distinct ?ps" using distinct_points [OF assms] by (simp add: sampleSet_Points_def)
  have "sorted (map sampleKey ?ps)" by (simp add: sampleSet_Points_def)
  moreover have "distinct (map sampleKey ?ps)"
    using d set inj_key [OF pts_inj [OF assms]] by (simp add: distinct_map)
  ultimately show "sorted_wrt (\<lambda>a b. sampleKey a < sampleKey b) ?ps"
    using strict_sorted_iff [of "map sampleKey ?ps"] by (simp add: sorted_wrt_map)
qed

lemma Points_determined:
  assumes "samples_inv s" "samples_inv t" "pts s = pts t"
  shows "sampleSet_Points (Some s) = sampleSet_Points (Some t)"
proof -
  note S = Points_facts [OF assms(1)] and T = Points_facts [OF assms(2)]
  have inj: "inj_on sampleKey (pts t)" by (rule inj_key [OF pts_inj [OF assms(2)]])
  have key: "sorted (map sampleKey (sampleSet_Points (Some v)))" for v by (simp add: sampleSet_Points_def)
  have "map sampleKey (sampleSet_Points (Some s)) = map sampleKey (sampleSet_Points (Some t))"
    using S T assms(3) inj key by (intro sorted_distinct_set_unique) (auto simp: distinct_map)
  then show ?thesis by (rule map_inj_on) (use S(1) T(1) assms(3) inj in simp)
qed

lemma sampleSet_marshal_walk:
  assumes "samples_inv ss" "length (ss_points ss) \<le> MaxSamplePoints"
  shows "sampleSet_MarshalBinary (Some ss) =
      Inr (fold appendPoint (sampleSet_Points (Some ss)) (AppendUvarint [FormatVersion] (of_nat (length (ss_points ss)))))"
    and "walkSampleSet (fold appendPoint (sampleSet_Points (Some ss))
        (AppendUvarint [FormatVersion] (of_nat (length (ss_points ss))))) visit st =
      (fold visit (sampleSet_Points (Some ss)) st, Inr (length (ss_points ss)))"
proof -
  let ?ps = "sampleSet_Points (Some ss)"
  let ?n = "of_nat (length (ss_points ss)) :: 64 word"
  let ?pre = "FormatVersion # uvarint ?n"
  let ?enc = "?pre @ concat (map pointBytes ?ps) @ []"
  note P = Points_facts [OF assms(1)]
  show "sampleSet_MarshalBinary (Some ss) =
      Inr (fold appendPoint ?ps (AppendUvarint [FormatVersion] ?n))"
    using assms(2) P(2) by (simp add: sampleSet_MarshalBinary_def)
  have enc: "fold appendPoint ?ps (AppendUvarint [FormatVersion] ?n) = ?enc"
    by (simp add: fold_appendPoint AppendUvarint_append)
  have n: "unat ?n = length ?ps" "length ?ps \<le> MaxEncodedSamplePoints"
    using assms(2) P(2) by (simp_all add: unat_of_nat MaxSamplePoints_def MaxEncodedSamplePoints_def)
  have r: "readUvarint ?enc 1 ''sample count'' = Inr (?n, length ?pre)"
    using uvarint_field.read_at [where pre = "[FormatVersion]" and x = ?n
        and post = "concat (map pointBytes ?ps)"] by simp
  have "walkPoints ?enc visit (length ?ps) None (length ?pre) st =
      (fold visit ?ps st, Inr (length ?pre + length (concat (map pointBytes ?ps))))"
    using P pts_valid [OF assms(1)] by (intro walkPoints_bytes [of _ ?pre _ "[]"]) auto
  then show "walkSampleSet (fold appendPoint ?ps (AppendUvarint [FormatVersion] ?n)) visit st =
      (fold visit ?ps st, Inr (length (ss_points ss)))"
    unfolding enc using r n P(2) by (simp add: walkSampleSet_def)
qed

lemma fold_putPoint:
  assumes "samples_inv ss" "\<forall>p \<in> set ps. valid_point p" "inj_on EventID (pts ss \<union> set ps)"
    and "distinct ps" "pts ss \<inter> set ps = {}"
  shows "samples_inv (fold putPoint ps ss) \<and> pts (fold putPoint ps ss) = pts ss \<union> set ps"
  using assms
proof (induction ps arbitrary: ss)
  case (Cons p ps)
  have "map_of (ss_points ss) (EventID p) = None"
  proof (rule ccontr)
    assume "map_of (ss_points ss) (EventID p) \<noteq> None"
    then obtain q where q: "q \<in> pts ss" "EventID q = EventID p" using pts_map_of [OF Cons.prems(1)] by auto
    then have "q = p" using Cons.prems(3) by (metis UnI1 UnI2 inj_onD list.set_intros(1))
    then show False using q Cons.prems(5) by auto
  qed
  note put = pts_put [OF Cons.prems(1) _ this]
  show ?case using Cons.IH [OF put(1)] put(2) Cons.prems(2-5) by (simp add: insert_commute)
qed simp

text \<open>
  C34. What \<open>MarshalBinary\<close> writes of a well-formed sample set within the limit,
  \<open>UnmarshalSampleSet\<close> reads back with the same points in the same order.
\<close>

theorem sampleSet_marshal_roundtrip:
  assumes "samples_inv ss" "length (ss_points ss) \<le> MaxSamplePoints"
  shows "\<exists>encoded u. sampleSet_MarshalBinary (Some ss) = Inr encoded \<and> UnmarshalSampleSet encoded = Inr u
    \<and> samples_inv u \<and> sampleSet_Points (Some u) = sampleSet_Points (Some ss)"
proof -
  note w = sampleSet_marshal_walk(1) [OF assms] sampleSet_marshal_walk(2) [OF assms, where 'a = SampleSet]
  note P = Points_facts [OF assms(1)]
  let ?u = "fold putPoint (sampleSet_Points (Some ss)) NewSampleSet"
  have u: "samples_inv ?u" "pts ?u = pts ss"
    using fold_putPoint [of NewSampleSet "sampleSet_Points (Some ss)"] P pts_valid [OF assms(1)]
      pts_inj [OF assms(1)] by simp_all
  have "sampleSet_Points (Some ?u) = sampleSet_Points (Some ss)"
    by (rule Points_determined [OF u(1) assms(1) u(2)])
  moreover have "UnmarshalSampleSet (fold appendPoint (sampleSet_Points (Some ss))
      (AppendUvarint [FormatVersion] (of_nat (length (ss_points ss))))) = Inr ?u"
    using w(2) [of putPoint NewSampleSet] by (simp only: UnmarshalSampleSet_def prod.case sum.case)
  ultimately show ?thesis using w(1) u(1) by blast
qed

section \<open>The query merger\<close>

text \<open>Between rows the heap holds exactly the points of the set, at most \<open>MaxSamplePoints\<close>.\<close>

definition merger_inv :: "SampleSet \<Rightarrow> SamplePoint list \<Rightarrow> bool" where
  "merger_inv ss h \<longleftrightarrow> samples_inv ss \<and> heap_from 0 h \<and> distinct h \<and> set h = pts ss
     \<and> length h \<le> MaxSamplePoints"

lemma admit_spec:
  assumes "merger_inv ss h" "finite P" "inj_on EventID (insert p P)" "p \<notin> P" "valid_point p"
    and best: "pts ss = best MaxSamplePoints P"
  shows "\<exists>ss' h'. admit p (ss, h) = (ss', h') \<and> merger_inv ss' h' \<and> pts ss' = best MaxSamplePoints (insert p P)"
proof -
  have inv: "samples_inv ss" "heap_from 0 h" "distinct h" "set h = pts ss" "length h \<le> MaxSamplePoints"
    using assms(1) by (simp_all add: merger_inv_def)
  have sub: "pts ss \<subseteq> P" using best best_subset by simp
  then have ph: "p \<notin> set h" using assms(4) inv(4) by auto
  have keyP: "inj_on sampleKey (insert p P)" by (rule inj_key [OF assms(3)])
  then have keyP': "inj_on sampleKey P" and keyh: "inj_on sampleKey (set h)"
    using sub inv(4) by (auto intro: inj_on_subset)
  have fresh: "q \<in> P \<Longrightarrow> EventID q \<noteq> EventID p" for q using assms(3,4) by (metis inj_onD insertCI)
  then have no: "map_of (ss_points ss) (EventID p) = None"
    using pts_map_of [OF inv(1), of "EventID p"] sub by (cases "map_of (ss_points ss) (EventID p)") auto
  have len: "card (pts ss) = length h" using distinct_card [OF inv(3)] inv(4) by simp
  show ?thesis
  proof (cases "length h < MaxSamplePoints")
    case True
    then have "card P < MaxSamplePoints"
      using best_large(1) [OF assms(2) keyP'] len best by (metis less_le_not_le not_le)
    then have "best MaxSamplePoints P = P" "best MaxSamplePoints (insert p P) = insert p P"
      using assms(2,4) by (auto intro!: best_small)
    moreover note put = pts_put [OF inv(1) assms(5) no] and push = push_heap [OF inv(2), of p]
    moreover have "distinct (p # h)" "set (p # h) = insert p (pts ss)" using inv(3,4) ph by auto
    moreover from push(2) have "mset (siftUpWorst (h @ [p]) (length h)) = mset (p # h)" by simp
    moreover note mset_eq_imp_distinct_iff [OF this] mset_eq_setD [OF this] mset_eq_length [OF this]
    ultimately show ?thesis using True best by (simp add: admit_def merger_inv_def)
  next
    case full: False
    then have lenh: "length h = MaxSamplePoints" and ne: "h \<noteq> []"
      using inv(5) by (auto simp: MaxSamplePoints_def)
    have cardP: "MaxSamplePoints \<le> card P" using len lenh sub card_mono [OF assms(2)] by metis
    have bef: "before (set h) (P - set h)" using best_large(2) [OF assms(2) keyP' cardP] best inv(4) by simp
    have worst: "\<forall>g \<in> set h. g = h ! 0 \<or> sampleKey g < sampleKey (h ! 0)"
      using root_max [OF inv(2) ne keyh] by blast
    have r: "h ! 0 \<in> set h" using ne by simp
    show ?thesis
    proof (cases "samplePointLess p (h ! 0)")
      case True
      note R = root_replaced [OF inv(2) ne inv(3) ph]
      note D = pts_delete [OF inv(1) r [unfolded inv(4)]]
      let ?ss = "ss\<lparr>ss_points := AList.delete (EventID (h ! 0)) (ss_points ss)\<rparr>"
      let ?h = "siftDownWorst (h[0 := p]) 0"
      have "map_of (ss_points ?ss) (EventID p) = None" using no by (simp add: delete_conv')
      note put = pts_put [OF D(1) assms(5) this]
      have pts: "pts (putPoint p ?ss) = set ?h" using put(2) D(2) R(2) inv(4) by simp
      have "before (set ?h) (insert p P - set ?h)"
        unfolding R(2) by (rule before_replace [OF bef r worst]) (use True in \<open>simp add: less_key\<close>)
      moreover have "set ?h \<subseteq> insert p P" using R(2) sub inv(4) by auto
      moreover have "card (set ?h) = MaxSamplePoints" using distinct_card [OF R(1)] R(3) lenh by simp
      ultimately have "best MaxSamplePoints (insert p P) = set ?h"
        using assms(2) keyP by (intro best_unique) auto
      then show ?thesis
        using full True pts put(1) R(1,3) replace_root(1) [OF inv(2) ne] lenh
        by (simp add: admit_def merger_inv_def)
    next
      case False
      have "sampleKey (h ! 0) \<noteq> sampleKey p"
        using inj_on_eq_iff [OF keyP, of "h ! 0" p] r sub inv(4) ph by auto
      then have "sampleKey (h ! 0) < sampleKey p" using False by (simp add: less_key)
      then have "before (set h) (insert p P - set h)" by (rule before_drop [OF bef worst])
      moreover have "set h \<subseteq> insert p P" using sub inv(4) by auto
      ultimately have "best MaxSamplePoints (insert p P) = set h"
        using assms(2) keyP distinct_card [OF inv(3)] lenh by (intro best_unique) auto
      then show ?thesis using full False assms(1) inv(4) by (simp add: admit_def)
    qed
  qed
qed

lemma fold_admit:
  assumes "merger_inv ss h" "finite P" "inj_on EventID (P \<union> set ps)" "distinct ps" "P \<inter> set ps = {}"
    and "\<forall>p \<in> set ps. valid_point p" "pts ss = best MaxSamplePoints P"
  shows "\<exists>ss' h'. fold admit ps (ss, h) = (ss', h') \<and> merger_inv ss' h'
    \<and> pts ss' = best MaxSamplePoints (P \<union> set ps)"
  using assms
proof (induction ps arbitrary: ss h P)
  case (Cons p ps)
  have "inj_on EventID (insert p P)" using Cons.prems(3) by (rule inj_on_subset) auto
  then obtain ss' h' where a: "admit p (ss, h) = (ss', h')" "merger_inv ss' h'"
      "pts ss' = best MaxSamplePoints (insert p P)"
    using admit_spec [OF Cons.prems(1,2), of p] Cons.prems(5-7) by auto
  have "insert p P \<union> set ps = P \<union> set (p # ps)" by auto
  with Cons.IH [OF a(2), of "insert p P"] a Cons.prems(2-6) show ?case by auto
qed auto

text \<open>What the visitor collects: the candidates and the first conflicting event.\<close>

definition is_candidate :: "SampleSet \<Rightarrow> SamplePoint list \<Rightarrow> SamplePoint \<Rightarrow> bool" where
  "is_candidate ss h p \<longleftrightarrow> \<not> (length h = MaxSamplePoints \<and> samplePointLess (h ! 0) p)
     \<and> map_of (ss_points ss) (EventID p) = None \<and> (length h < MaxSamplePoints \<or> samplePointLess p (h ! 0))"

definition is_conflict :: "SampleSet \<Rightarrow> SamplePoint list \<Rightarrow> SamplePoint \<Rightarrow> bool" where
  "is_conflict ss h p \<longleftrightarrow> \<not> (length h = MaxSamplePoints \<and> samplePointLess (h ! 0) p)
     \<and> (\<exists>q. map_of (ss_points ss) (EventID p) = Some q \<and> q \<noteq> p)"

lemma fold_visitCandidate:
  assumes "\<forall>p \<in> set ps. EventID p \<noteq> 0"
  shows "fold (visitCandidate ss h) ps (cs, ev) =
    (cs @ filter (is_candidate ss h) ps,
     if ev \<noteq> 0 then ev else case find (is_conflict ss h) ps of None \<Rightarrow> 0 | Some p \<Rightarrow> EventID p)"
  using assms
proof (induction ps arbitrary: cs ev)
  case (Cons p ps)
  have "visitCandidate ss h p (cs, ev) =
      (if is_candidate ss h p then cs @ [p] else cs,
       if ev = 0 \<and> is_conflict ss h p then EventID p else ev)"
    by (auto simp: visitCandidate_def is_candidate_def is_conflict_def split: option.splits)
  then show ?case using Cons by auto
qed simp

text \<open>The cutoff never hides a conflict: equal events have equal priorities, hence equal keys.\<close>

lemma is_conflict_iff:
  assumes "merger_inv ss h" "valid_point p"
  shows "is_conflict ss h p \<longleftrightarrow> (\<exists>q \<in> pts ss. EventID q = EventID p \<and> q \<noteq> p)"
proof -
  have inv: "samples_inv ss" "heap_from 0 h" "set h = pts ss" using assms(1) by (auto simp: merger_inv_def)
  have "\<not> samplePointLess (h ! 0) p" if q: "q \<in> pts ss" "EventID q = EventID p" for q
  proof -
    have "Priority q = Priority p" using q pts_valid [OF inv(1) q(1)] assms(2) by (simp add: valid_point_def)
    then have "sampleKey q = sampleKey p" using q(2) by (simp add: sampleKey_def)
    moreover have "sampleKey q \<le> sampleKey (h ! 0)"
      using q(1) inv(3) heap_root_worst [OF inv(2)] by (metis in_set_conv_nth)
    ultimately show ?thesis by (simp add: less_key)
  qed
  then show ?thesis using pts_map_of [OF inv(1)] unfolding is_conflict_def by blast
qed

lemma best_candidates:
  assumes "merger_inv ss h" "finite T" "inj_on EventID (pts ss \<union> T)"
  shows "best MaxSamplePoints (pts ss \<union> {p \<in> T. is_candidate ss h p}) = best MaxSamplePoints (pts ss \<union> T)"
proof -
  let ?C = "{p \<in> T. is_candidate ss h p}"
  let ?D = "pts ss \<union> (T - ?C)"
  have inv: "samples_inv ss" "heap_from 0 h" "distinct h" "set h = pts ss" "length h \<le> MaxSamplePoints"
    using assms(1) by (auto simp: merger_inv_def)
  have card: "card (pts ss) = length h" using distinct_card [OF inv(3)] inv(4) by simp
  have key: "inj_on sampleKey (pts ss \<union> T)" by (rule inj_key [OF assms(3)])
  have old: "map_of (ss_points ss) (EventID p) = None \<longleftrightarrow> p \<notin> pts ss" if "p \<in> T" for p
  proof -
    have "q = p" if "q \<in> pts ss" "EventID q = EventID p" for q
      using that \<open>p \<in> T\<close> assms(3) by (metis UnI1 UnI2 inj_onD)
    then show ?thesis using pts_map_of [OF inv(1), of "EventID p"]
      by (cases "map_of (ss_points ss) (EventID p)") auto
  qed
  have "best MaxSamplePoints ?D = pts ss"
  proof (cases "length h < MaxSamplePoints")
    case True
    then have "T - ?C \<subseteq> pts ss" using old by (auto simp: is_candidate_def)
    then have "?D = pts ss" by auto
    then show ?thesis using best_small [of "pts ss"] True card by simp
  next
    case False
    then have full: "length h = MaxSamplePoints" and ne: "h \<noteq> []" using inv(5) by (auto simp: MaxSamplePoints_def)
    have "sampleKey g < sampleKey p" if g: "g \<in> pts ss" and p: "p \<in> ?D - pts ss" for g p
    proof -
      have r: "h ! 0 \<in> pts ss" using ne inv(4) by (metis length_greater_0_conv nth_mem)
      have "\<not> samplePointLess p (h ! 0)"
        using p old [of p] full by (auto simp: is_candidate_def less_key)
      moreover have "sampleKey (h ! 0) \<noteq> sampleKey p" using inj_on_eq_iff [OF key, of "h ! 0" p] r p by auto
      moreover have "sampleKey g \<le> sampleKey (h ! 0)"
        using g inv(4) heap_root_worst [OF inv(2)] by (metis in_set_conv_nth)
      ultimately show ?thesis by (simp add: less_key)
    qed
    then show ?thesis
      using assms(2) full card inj_on_subset [OF key, of ?D] by (intro best_unique) (auto simp: before_def)
  qed
  moreover have "?D \<union> ?C = pts ss \<union> T" by auto
  ultimately show ?thesis
    using best_absorb [of ?D ?C MaxSamplePoints] assms(2) key by simp
qed

text \<open>
  C10. The streaming sample merger of the query path refines \<open>SampleSet.Merge\<close>: fed the encoding
  of a well-formed set, it ends with the first \<open>MaxSamplePoints\<close> points of the union of that set
  and the points it currently retains, and an intact heap. A point of the row that differs from a
  point the merger currently retains for the same event is detected, although the row is cut off at the
  worst kept point, and then the merger is left exactly as it was. Nothing is said of events whose points
  were evicted by earlier rows: of those the merger remembers nothing, and a conflict between rows over
  them passes, as the comment on the type says.
\<close>

theorem query_sample_merge_refines:
  assumes "qs_samples m = Some ss" "merger_inv ss (qs_heap m)" "samples_inv t"
    and "sampleSet_MarshalBinary (Some t) = Inr encoded"
  shows "if inj_on EventID (pts ss \<union> pts t)
    then \<exists>m' u. querySample_MergeBinary m encoded = (m', Inr (length (ss_points t)))
       \<and> qs_samples m' = Some u \<and> merger_inv u (qs_heap m')
       \<and> pts u = best MaxSamplePoints (pts ss \<union> pts t)
    else \<exists>e. querySample_MergeBinary m encoded = (m, Inl (ConflictingSample e))"
proof -
  let ?h = "qs_heap m"
  let ?T = "sampleSet_Points (Some t)"
  note T = Points_facts [OF assms(3)]
  have validT: "\<forall>p \<in> set ?T. valid_point p \<and> EventID p \<noteq> 0"
    using pts_valid [OF assms(3)] T(1) by (fastforce simp: valid_point_def)
  have fits: "length (ss_points t) \<le> MaxSamplePoints"
    using assms(4) T(2) by (auto simp: sampleSet_MarshalBinary_def Let_def split: if_splits)
  have walk: "walkSampleSet encoded (visitCandidate ss ?h) ([], 0) =
      ((filter (is_candidate ss ?h) ?T,
        case find (is_conflict ss ?h) ?T of None \<Rightarrow> 0 | Some p \<Rightarrow> EventID p), Inr (length (ss_points t)))"
    using sampleSet_marshal_walk(1) [OF assms(3) fits] assms(4) fold_visitCandidate [of ?T ss ?h "[]" 0] validT
      sampleSet_marshal_walk(2) [OF assms(3) fits, of "visitCandidate ss ?h" "([], 0)"]
    by simp
  have conflict: "find (is_conflict ss ?h) ?T = None \<longleftrightarrow> inj_on EventID (pts ss \<union> pts t)"
  proof -
    have "find (is_conflict ss ?h) ?T = None \<longleftrightarrow>
        (\<forall>p \<in> pts t. \<forall>q \<in> pts ss. EventID q = EventID p \<longrightarrow> q = p)"
      using is_conflict_iff [OF assms(2)] validT T(1) by (auto simp: find_None_iff)
    also have "\<dots> \<longleftrightarrow> inj_on EventID (pts ss \<union> pts t)"
    proof -
      have "inj_on EventID (pts ss)" using pts_inj assms(2) by (simp add: merger_inv_def)
      with pts_inj [OF assms(3)] show ?thesis unfolding inj_on_def by (metis UnCI UnE)
    qed
    finally show ?thesis .
  qed
  show ?thesis
  proof (cases "inj_on EventID (pts ss \<union> pts t)")
    case True
    let ?cs = "filter (is_candidate ss ?h) ?T"
    have cs: "set ?cs = {p \<in> pts t. is_candidate ss ?h p}" using T(1) by auto
    have "card (pts ss) = length ?h"
      using assms(2) distinct_card [of ?h] by (simp add: merger_inv_def)
    then have self: "pts ss = best MaxSamplePoints (pts ss)"
      using assms(2) by (intro best_small [symmetric]) (simp_all add: merger_inv_def)
    have "inj_on EventID (pts ss \<union> set ?cs)" by (rule inj_on_subset [OF True]) (use cs in auto)
    moreover have "pts ss \<inter> set ?cs = {}"
    proof -
      have "map_of (ss_points ss) (EventID p) = Some p" if "p \<in> pts ss" for p
        using that pts_map_of assms(2) by (simp add: merger_inv_def)
      then show ?thesis unfolding cs is_candidate_def by auto
    qed
    ultimately obtain u h' where u: "fold admit ?cs (ss, ?h) = (u, h')" "merger_inv u h'"
        "pts u = best MaxSamplePoints (pts ss \<union> set ?cs)"
      using fold_admit [OF assms(2) finite_pts _ _ _ _ self, of ?cs] T(4) validT by auto
    then have pu: "pts u = best MaxSamplePoints (pts ss \<union> pts t)"
      using best_candidates [OF assms(2) finite_pts True] cs by simp
    have run: "querySample_MergeBinary m encoded =
        (if ?cs = [] then m else \<lparr>qs_samples = Some u, qs_heap = h'\<rparr>, Inr (length (ss_points t)))"
      using walk True conflict assms(1) u(1) by (simp add: querySample_MergeBinary_def)
    show ?thesis
    proof (cases "?cs = []")
      case empty: True
      then have "u = ss" "h' = ?h" using u(1) by simp_all
      then show ?thesis using True run empty assms(1) u(2) pu by simp
    qed (use True run u(2) pu in simp)
  next
    case False
    then obtain p where "find (is_conflict ss ?h) ?T = Some p" "EventID p \<noteq> 0"
      using conflict validT by (cases "find (is_conflict ss ?h) ?T") (auto simp: find_Some_iff)
    then show ?thesis using False walk assms(1) by (simp add: querySample_MergeBinary_def)
  qed
qed

section \<open>Merging many sample sets\<close>

text \<open>
  The sample sets of one history of events are a mergeable summary. A history gives each event
  its one point; joining keeps the first \<open>MaxSamplePoints\<close> points of the union.
\<close>

definition mergedSamples :: "SampleSet \<Rightarrow> SampleSet \<Rightarrow> SampleSet option" where
  "mergedSamples s t = (case sampleSet_Merge (Some s) (Some t) of (Some u, None) \<Rightarrow> Some u | _ \<Rightarrow> None)"

definition history :: "(int \<Rightarrow> SamplePoint) \<Rightarrow> SamplePoint set" where
  "history h = {p. 0 < EventID p \<and> EventID p \<le> MaxInt64 \<and> h (EventID p) = p}"

definition keepBest :: "SamplePoint set \<Rightarrow> SamplePoint set \<Rightarrow> SamplePoint set \<Rightarrow> SamplePoint set" where
  "keepBest U A B = best MaxSamplePoints ((A \<union> B) \<inter> U)"

lemma finite_history: "finite (history h)"
proof -
  have "p \<in> h ` {1 .. MaxInt64}" if "p \<in> history h" for p
    using that by (intro image_eqI [of _ _ "EventID p"]) (simp_all add: history_def)
  then have "history h \<subseteq> h ` {1 .. MaxInt64}" by blast
  then show ?thesis by (rule finite_subset) simp
qed

lemma inj_history: "inj_on EventID (history h)"
proof (rule inj_onI)
  fix p q assume "p \<in> history h" "q \<in> history h" "EventID p = EventID q"
  then have "p = h (EventID p)" "q = h (EventID p)" by (simp_all add: history_def)
  then show "p = q" by (rule trans [OF _ sym])
qed

lemma mergedSamples_ok:
  assumes "samples_inv s" "pts s \<subseteq> history h" "samples_inv t" "pts t \<subseteq> history h"
  shows "\<exists>u. mergedSamples s t = Some u \<and> (samples_inv u \<and> pts u \<subseteq> history h)
    \<and> pts u = keepBest (history h) (pts s) (pts t)"
proof -
  have sub: "pts s \<union> pts t \<subseteq> history h" using assms by simp
  have "inj_on EventID (pts s \<union> pts t)" by (rule inj_on_subset [OF inj_history sub])
  then obtain u where u: "sampleSet_Merge (Some s) (Some t) = (Some u, None)" "samples_inv u"
      "pts u = best MaxSamplePoints (pts s \<union> pts t)"
    using sampleSet_Merge_facts [OF assms(1,3)] by auto
  have "pts u \<subseteq> history h" using u(3) best_subset sub by (metis order_trans)
  moreover have "(pts s \<union> pts t) \<inter> history h = pts s \<union> pts t" using sub by auto
  ultimately show ?thesis using u by (simp add: mergedSamples_def keepBest_def)
qed

lemma keepBest_absorb:
  "best MaxSamplePoints ((keepBest (history h) A B \<union> C) \<inter> history h) =
   best MaxSamplePoints ((A \<union> B \<union> C) \<inter> history h)"
proof -
  let ?U = "history h"
  have fin: "finite (X \<inter> ?U)" for X using finite_history by simp
  have inj: "inj_on sampleKey (X \<inter> ?U)" for X by (rule inj_on_subset [OF inj_key [OF inj_history [of h]]]) simp
  have "(keepBest ?U A B \<union> C) \<inter> ?U = best MaxSamplePoints ((A \<union> B) \<inter> ?U) \<union> (C \<inter> ?U)"
    using best_subset [of MaxSamplePoints "(A \<union> B) \<inter> ?U"] by (auto simp: keepBest_def)
  moreover have "(A \<union> B) \<inter> ?U \<union> C \<inter> ?U = (A \<union> B \<union> C) \<inter> ?U" by auto
  ultimately show ?thesis using best_absorb [OF fin fin, of "A \<union> B" C] inj [of "A \<union> B \<union> C"] by simp
qed

interpretation sample_summary: mergeable_summary
  "\<lambda>s. samples_inv s \<and> pts s \<subseteq> history h" mergedSamples "\<lambda>_. 0" 1 pts "keepBest (history h)"
  for h
proof unfold_locales
  fix a b c
  show "keepBest (history h) (keepBest (history h) a b) c = keepBest (history h) a (keepBest (history h) b c)"
    using keepBest_absorb [of h a b c] keepBest_absorb [of h b c a]
    by (simp add: keepBest_def [of _ _ c] keepBest_def [of _ a] ac_simps)
qed (use mergedSamples_ok in \<open>auto simp: keepBest_def Un_commute\<close>)

text \<open>
  Merging any rows of one history into a sample set succeeds and gives the same points in
  the same order, whatever the order in which the rows are merged.
\<close>

theorem sample_merge_order_independent:
  assumes "samples_inv s" "pts s \<subseteq> history h" "\<forall>t \<in> set ts. samples_inv t \<and> pts t \<subseteq> history h"
    and "mset ts' = mset ts"
  shows "\<exists>u u'. merge_all mergedSamples s ts = Some u \<and> merge_all mergedSamples s ts' = Some u'
    \<and> samples_inv u \<and> sampleSet_Points (Some u') = sampleSet_Points (Some u)"
proof -
  have "\<exists>u u'. merge_all mergedSamples s ts = Some u \<and> merge_all mergedSamples s ts' = Some u'
      \<and> (samples_inv u \<and> pts u \<subseteq> history h) \<and> (samples_inv u' \<and> pts u' \<subseteq> history h) \<and> pts u = pts u'"
    using assms by (intro sample_summary.merge_all_order) simp_all
  then show ?thesis using Points_determined by metis
qed

section \<open>Instances\<close>

definition sample_points :: SampleSet where
  "sample_points = \<lparr>ss_points = [(7, \<lparr>EventID = 7, Priority = splitMix64 (uint64_of_int64 7), TTFTMS = 20, LatencyMS = 90\<rparr>)]\<rparr>"

definition sample_history :: "int \<Rightarrow> SamplePoint" where
  "sample_history e = \<lparr>EventID = e, Priority = splitMix64 (uint64_of_int64 e), TTFTMS = 20, LatencyMS = 90\<rparr>"

lemma sample_points_inv [simp]: "samples_inv sample_points"
  by (simp add: samples_inv_def sample_points_def valid_point_def MaxInt64_def)

lemma sample_points_history [simp]: "pts sample_points \<subseteq> history sample_history"
  by (simp add: pts_def history_def sample_history_def sample_points_def MaxInt64_def)

lemma sample_merge_order_independent_witness:
  "\<exists>u u'. merge_all mergedSamples NewSampleSet [sample_points, NewSampleSet] = Some u
    \<and> merge_all mergedSamples NewSampleSet [NewSampleSet, sample_points] = Some u'
    \<and> samples_inv u \<and> sampleSet_Points (Some u') = sampleSet_Points (Some u)"
  by (rule sample_merge_order_independent [where h = sample_history]) simp_all

lemma sampleSet_Merge_keeps_best_witness:
  "if inj_on EventID (pts NewSampleSet \<union> pts sample_points)
    then \<exists>u. sampleSet_Merge (Some NewSampleSet) (Some sample_points) = (Some u, None) \<and> samples_inv u
       \<and> pts u = best MaxSamplePoints (pts NewSampleSet \<union> pts sample_points) \<and> length (ss_points u) \<le> MaxSamplePoints
    else \<exists>u e. sampleSet_Merge (Some NewSampleSet) (Some sample_points) = (Some u, Some (ConflictingSample e))"
  by (rule sampleSet_Merge_keeps_best) simp_all

lemma sampleSet_Add_keeps_best_witness:
  "if (9 :: int) \<le> 0 \<or> (1 :: int) \<le> 0 \<or> (2 :: int) \<le> 0
    then sampleSet_Add (Some sample_points) 9 1 2 = Inl (SampleValuesNotPositive 9 1 2)
    else if \<exists>q \<in> pts sample_points. EventID q = 9 \<and> q \<noteq> \<lparr>EventID = 9, Priority = splitMix64 (uint64_of_int64 9), TTFTMS = 1, LatencyMS = 2\<rparr>
    then sampleSet_Add (Some sample_points) 9 1 2 = Inl (ConflictingSample 9)
    else \<exists>u. sampleSet_Add (Some sample_points) 9 1 2 = Inr u \<and> samples_inv u
       \<and> pts u = best MaxSamplePoints (insert \<lparr>EventID = 9, Priority = splitMix64 (uint64_of_int64 9), TTFTMS = 1, LatencyMS = 2\<rparr> (pts sample_points))
       \<and> length (ss_points u) \<le> MaxSamplePoints"
  by (rule sampleSet_Add_keeps_best) (simp_all add: MaxInt64_def)

lemma sampleSet_marshal_roundtrip_witness:
  "\<exists>encoded u. sampleSet_MarshalBinary (Some sample_points) = Inr encoded \<and> UnmarshalSampleSet encoded = Inr u
    \<and> samples_inv u \<and> sampleSet_Points (Some u) = sampleSet_Points (Some sample_points)"
  by (rule sampleSet_marshal_roundtrip) (simp, simp add: sample_points_def MaxSamplePoints_def)

lemma query_sample_merge_refines_witness:
  "\<exists>encoded. sampleSet_MarshalBinary (Some sample_points) = Inr encoded \<and>
   (if inj_on EventID (pts NewSampleSet \<union> pts sample_points)
    then \<exists>m' u. querySample_MergeBinary NewQuerySampleMerger encoded = (m', Inr (length (ss_points sample_points)))
       \<and> qs_samples m' = Some u \<and> merger_inv u (qs_heap m')
       \<and> pts u = best MaxSamplePoints (pts NewSampleSet \<union> pts sample_points)
    else \<exists>e. querySample_MergeBinary NewQuerySampleMerger encoded = (NewQuerySampleMerger, Inl (ConflictingSample e)))"
proof -
  have "length (ss_points sample_points) \<le> MaxSamplePoints" by (simp add: sample_points_def MaxSamplePoints_def)
  from sampleSet_marshal_walk(1) [OF sample_points_inv this]
  obtain encoded where m: "sampleSet_MarshalBinary (Some sample_points) = Inr encoded" by simp
  have "qs_samples NewQuerySampleMerger = Some NewSampleSet"
    "merger_inv NewSampleSet (qs_heap NewQuerySampleMerger)"
    by (simp_all add: NewQuerySampleMerger_def merger_inv_def heap_from_def)
  from query_sample_merge_refines [OF this sample_points_inv m] m show ?thesis by blast
qed

end
