(* ===== verification/Login_Limiter.thy ===== *)
theory Login_Limiter
  imports Prelude "HOL-Library.AList"
begin

text \<open>
  The login attempt limiter of \<^verbatim>\<open>internal/auth/login_limiter.go\<close>: a fixed window of attempts
  per source inside one global window, with a hard bound on the number of sources. The mutex
  makes every method atomic, so a run is a sequence of calls; the clock reading of a call is an
  argument. A source map is an association list in the iteration order of the run.
\<close>

section \<open>Model\<close>

record LoginAttemptLimiterOptions =
  o_Window :: duration
  o_PerSourceLimit :: int
  o_GlobalLimit :: int
  o_MaxSources :: int

record loginAttemptWindow =
  StartedAt :: gotime
  LastSeen :: gotime
  Attempts :: int

record LoginAttemptLimiter =
  l_window :: duration
  l_perSourceLimit :: int
  l_globalLimit :: int
  l_maxSources :: int
  l_sources :: "(string \<times> loginAttemptWindow) list"
  l_global :: loginAttemptWindow

definition NewLoginAttemptLimiter :: "LoginAttemptLimiterOptions \<Rightarrow> LoginAttemptLimiter" where
  "NewLoginAttemptLimiter options =
     \<lparr>l_window = (if o_Window options \<le> 0 then Minute else o_Window options),
      l_perSourceLimit = (if o_PerSourceLimit options \<le> 0 then 5 else o_PerSourceLimit options),
      l_globalLimit = (if o_GlobalLimit options \<le> 0 then 60 else o_GlobalLimit options),
      l_maxSources = (if o_MaxSources options \<le> 0 then 4096 else o_MaxSources options),
      l_sources = [],
      l_global = \<lparr>StartedAt = zero_time, LastSeen = zero_time, Attempts = 0\<rparr>\<rparr>"

definition retryAfter :: "gotime \<Rightarrow> gotime \<Rightarrow> duration \<Rightarrow> duration" where
  "retryAfter now startedAt window =
     (let retry = t_sub (t_add startedAt window) now in if retry \<le> 0 then Second else retry)"

definition resetGlobalWindowLocked :: "gotime \<Rightarrow> LoginAttemptLimiter \<Rightarrow> LoginAttemptLimiter" where
  "resetGlobalWindowLocked now l =
     (if StartedAt (l_global l) = zero_time \<or> t_sub now (StartedAt (l_global l)) \<ge> l_window l
      then l\<lparr>l_global := \<lparr>StartedAt = now, LastSeen = now, Attempts = 0\<rparr>\<rparr>
      else l)"

definition removeExpiredSourcesLocked :: "gotime \<Rightarrow> LoginAttemptLimiter \<Rightarrow> LoginAttemptLimiter" where
  "removeExpiredSourcesLocked now l =
     l\<lparr>l_sources := filter (\<lambda>(source, st). \<not> t_sub now (StartedAt st) \<ge> l_window l) (l_sources l)\<rparr>"

fun oldestFrom :: "(string \<times> loginAttemptWindow) list \<Rightarrow> string \<Rightarrow> gotime \<Rightarrow> string" where
  "oldestFrom [] oldestSource oldestSeen = oldestSource"
| "oldestFrom ((source, st) # rest) oldestSource oldestSeen =
     (if oldestSource = [] \<or> LastSeen st < oldestSeen then oldestFrom rest source (LastSeen st)
      else oldestFrom rest oldestSource oldestSeen)"

definition makeSourceCapacityLocked :: "LoginAttemptLimiter \<Rightarrow> LoginAttemptLimiter" where
  "makeSourceCapacityLocked l =
     (if int (length (l_sources l)) < l_maxSources l then l
      else l\<lparr>l_sources := AList.delete (oldestFrom (l_sources l) [] zero_time) (l_sources l)\<rparr>)"

definition limiter_Allow ::
  "LoginAttemptLimiter \<Rightarrow> string \<Rightarrow> gotime \<Rightarrow> LoginAttemptLimiter \<times> bool \<times> duration" where
  "limiter_Allow l0 source0 now =
     (let source = (if source0 = [] then ''unknown'' else source0);
          l = removeExpiredSourcesLocked now (resetGlobalWindowLocked now l0)
      in if Attempts (l_global l) \<ge> l_globalLimit l
         then (l, False, retryAfter now (StartedAt (l_global l)) (l_window l))
         else
           (let (l', st) =
                  (case map_of (l_sources l) source of
                     Some st \<Rightarrow> (l, st)
                   | None \<Rightarrow> (makeSourceCapacityLocked l,
                       \<lparr>StartedAt = now, LastSeen = zero_time, Attempts = 0\<rparr>))
            in if Attempts st \<ge> l_perSourceLimit l'
               then (l'\<lparr>l_sources := AList.update source (st\<lparr>LastSeen := now\<rparr>) (l_sources l')\<rparr>,
                     False, retryAfter now (StartedAt st) (l_window l'))
               else
                 (l'\<lparr>l_sources := AList.update source (st\<lparr>Attempts := Attempts st + 1, LastSeen := now\<rparr>) (l_sources l'),
                     l_global := (l_global l')\<lparr>Attempts := Attempts (l_global l') + 1, LastSeen := now\<rparr>\<rparr>,
                  True, 0)))"

definition limiter_Reset :: "LoginAttemptLimiter \<Rightarrow> string \<Rightarrow> LoginAttemptLimiter" where
  "limiter_Reset l source =
     (if source = [] then l else l\<lparr>l_sources := AList.delete source (l_sources l)\<rparr>)"

section \<open>Runs\<close>

datatype limiterCall = CallAllow string gotime | CallReset string

fun callStep :: "LoginAttemptLimiter \<Rightarrow> limiterCall \<Rightarrow> LoginAttemptLimiter \<times> bool" where
  "callStep l (CallAllow source now) = (case limiter_Allow l source now of (l', ok, _) \<Rightarrow> (l', ok))"
| "callStep l (CallReset source) = (limiter_Reset l source, False)"

text \<open>The number of attempts a run of calls lets through.\<close>

fun granted :: "LoginAttemptLimiter \<Rightarrow> limiterCall list \<Rightarrow> int" where
  "granted l [] = 0"
| "granted l (c # cs) = (case callStep l c of (l', ok) \<Rightarrow> (if ok then 1 else 0) + granted l' cs)"

fun callTimes :: "limiterCall list \<Rightarrow> gotime list" where
  "callTimes [] = []"
| "callTimes (CallAllow source now # cs) = now # callTimes cs"
| "callTimes (CallReset source # cs) = callTimes cs"

section \<open>The invariant\<close>

definition limiter_inv :: "LoginAttemptLimiter \<Rightarrow> bool" where
  "limiter_inv l \<longleftrightarrow> 0 < l_window l \<and> l_window l \<le> MaxInt64 \<and> 0 < l_perSourceLimit l \<and> 0 < l_globalLimit l
     \<and> 0 < l_maxSources l \<and> 0 \<le> Attempts (l_global l) \<and> Attempts (l_global l) \<le> l_globalLimit l
     \<and> distinct (map fst (l_sources l)) \<and> int (length (l_sources l)) \<le> l_maxSources l
     \<and> (\<forall>(s, st) \<in> set (l_sources l). s \<noteq> [] \<and> 0 \<le> Attempts st \<and> Attempts st \<le> l_perSourceLimit l)"

lemma oldestFrom_in: "oldestFrom xs s t \<in> insert s (fst ` set xs)"
  by (induction xs s t rule: oldestFrom.induct) auto

lemma oldestFrom_cons_in:
  "xs \<noteq> [] \<Longrightarrow> oldestFrom xs [] t \<in> fst ` set xs"
  using oldestFrom_in by (cases xs) (auto, metis image_iff insert_iff fst_conv)

lemma length_delete_in: "k \<in> fst ` set al \<Longrightarrow> length (AList.delete k al) < length al"
  by (induction al) (auto intro: le_imp_less_Suc length_delete_le)

lemma length_update_in: "k \<in> fst ` set al \<Longrightarrow> length (AList.update k v al) = length al"
  by (induction al) auto

lemma length_update_le: "length (AList.update k v al) \<le> Suc (length al)"
  by (induction al) auto

lemma set_update_sub: "set (AList.update k v al) \<subseteq> insert (k, v) (set al)"
  by (induction al) auto

lemma set_delete_sub: "set (AList.delete k al) \<subseteq> set al"
  by (auto simp: AList.delete_eq)

lemma reset_inv [simp]: "limiter_inv l \<Longrightarrow> limiter_inv (resetGlobalWindowLocked now l)"
  by (simp add: resetGlobalWindowLocked_def limiter_inv_def)

lemma expire_inv [simp]: "limiter_inv l \<Longrightarrow> limiter_inv (removeExpiredSourcesLocked now l)"
  unfolding limiter_inv_def removeExpiredSourcesLocked_def
  by (auto simp: distinct_map_filter intro: order_trans [OF of_nat_mono [OF length_filter_le]])

lemma capacity_spec:
  assumes "limiter_inv l"
  shows "limiter_inv (makeSourceCapacityLocked l)"
    and "int (length (l_sources (makeSourceCapacityLocked l))) < l_maxSources l"
proof -
  have "limiter_inv (makeSourceCapacityLocked l)
    \<and> int (length (l_sources (makeSourceCapacityLocked l))) < l_maxSources l"
  proof (cases "int (length (l_sources l)) < l_maxSources l")
    case False
    let ?o = "oldestFrom (l_sources l) [] zero_time"
    have "l_sources l \<noteq> []" using False assms by (auto simp: limiter_inv_def)
    from length_delete_in [OF oldestFrom_cons_in [OF this, of zero_time]]
    have "length (AList.delete ?o (l_sources l)) < length (l_sources l)" .
    moreover have "distinct (map fst (AList.delete ?o (l_sources l)))"
      using assms by (simp add: limiter_inv_def distinct_delete)
    moreover have "\<forall>x \<in> set (AList.delete ?o (l_sources l)). x \<in> set (l_sources l)"
      using set_delete_sub by fastforce
    ultimately show ?thesis
      using False assms by (auto simp: makeSourceCapacityLocked_def limiter_inv_def)
  qed (use assms in \<open>simp add: makeSourceCapacityLocked_def\<close>)
  then show "limiter_inv (makeSourceCapacityLocked l)"
    "int (length (l_sources (makeSourceCapacityLocked l))) < l_maxSources l" by simp_all
qed

lemma put_inv:
  assumes "limiter_inv l" "s \<noteq> []" "0 \<le> Attempts st" "Attempts st \<le> l_perSourceLimit l"
    and "s \<in> fst ` set (l_sources l) \<or> int (length (l_sources l)) < l_maxSources l"
  shows "limiter_inv (l\<lparr>l_sources := AList.update s st (l_sources l)\<rparr>)"
proof -
  have "int (length (AList.update s st (l_sources l))) \<le> l_maxSources l"
    using assms(1,5) length_update_in [of s "l_sources l" st] length_update_le [of s st "l_sources l"]
    by (cases "s \<in> fst ` set (l_sources l)") (simp_all add: limiter_inv_def)
  moreover have "distinct (map fst (AList.update s st (l_sources l)))"
    using assms(1) by (simp add: limiter_inv_def distinct_update)
  moreover have "\<forall>(k, v) \<in> set (AList.update s st (l_sources l)).
      k \<noteq> [] \<and> 0 \<le> Attempts v \<and> Attempts v \<le> l_perSourceLimit l"
    using assms(1-4) set_update_sub [of s st "l_sources l"] unfolding limiter_inv_def by blast
  ultimately show ?thesis using assms(1) by (simp add: limiter_inv_def)
qed

text \<open>The state in which \<open>Allow\<close> decides, and the name it files the source under.\<close>

definition refreshed :: "gotime \<Rightarrow> LoginAttemptLimiter \<Rightarrow> LoginAttemptLimiter" where
  "refreshed now l = removeExpiredSourcesLocked now (resetGlobalWindowLocked now l)"

definition filed :: "string \<Rightarrow> string" where
  "filed source = (if source = [] then ''unknown'' else source)"

definition attemptsOf :: "LoginAttemptLimiter \<Rightarrow> string \<Rightarrow> int" where
  "attemptsOf l source = (case map_of (l_sources l) source of None \<Rightarrow> 0 | Some st \<Rightarrow> Attempts st)"

lemma refreshed_inv [simp]: "limiter_inv l \<Longrightarrow> limiter_inv (refreshed now l)"
  by (simp add: refreshed_def)

lemma refreshed_limits [simp]:
  "l_window (refreshed now l) = l_window l" "l_globalLimit (refreshed now l) = l_globalLimit l"
  "l_perSourceLimit (refreshed now l) = l_perSourceLimit l" "l_maxSources (refreshed now l) = l_maxSources l"
  by (simp_all add: refreshed_def removeExpiredSourcesLocked_def resetGlobalWindowLocked_def)

lemma capacity_fields [simp]:
  "l_window (makeSourceCapacityLocked l) = l_window l" "l_globalLimit (makeSourceCapacityLocked l) = l_globalLimit l"
  "l_perSourceLimit (makeSourceCapacityLocked l) = l_perSourceLimit l"
  "l_maxSources (makeSourceCapacityLocked l) = l_maxSources l" "l_global (makeSourceCapacityLocked l) = l_global l"
  by (simp_all add: makeSourceCapacityLocked_def)

lemma Allow_cases:
  assumes "limiter_inv l"
  obtains (global) "Attempts (l_global (refreshed now l)) \<ge> l_globalLimit l"
      "limiter_Allow l source now =
        (refreshed now l, False, retryAfter now (StartedAt (l_global (refreshed now l))) (l_window l))"
  | (source) st where "Attempts (l_global (refreshed now l)) < l_globalLimit l"
      "map_of (l_sources (refreshed now l)) (filed source) = Some st" "Attempts st \<ge> l_perSourceLimit l"
      "limiter_Allow l source now =
        ((refreshed now l)\<lparr>l_sources := AList.update (filed source) (st\<lparr>LastSeen := now\<rparr>) (l_sources (refreshed now l))\<rparr>,
         False, retryAfter now (StartedAt st) (l_window l))"
  | (allowed) l' st where "Attempts (l_global (refreshed now l)) < l_globalLimit l"
      "attemptsOf (refreshed now l) (filed source) < l_perSourceLimit l"
      "limiter_inv l'" "l_global l' = l_global (refreshed now l)"
      "l_window l' = l_window l" "l_globalLimit l' = l_globalLimit l"
      "l_perSourceLimit l' = l_perSourceLimit l" "l_maxSources l' = l_maxSources l"
      "Attempts st = attemptsOf (refreshed now l) (filed source)"
      "filed source \<in> fst ` set (l_sources l') \<or> int (length (l_sources l')) < l_maxSources l'"
      "limiter_Allow l source now =
        (l'\<lparr>l_sources := AList.update (filed source) (st\<lparr>Attempts := Attempts st + 1, LastSeen := now\<rparr>) (l_sources l'),
            l_global := (l_global l')\<lparr>Attempts := Attempts (l_global l') + 1, LastSeen := now\<rparr>\<rparr>, True, 0)"
proof -
  let ?r = "refreshed now l"
  have inv: "limiter_inv ?r" using assms by simp
  show ?thesis
  proof (cases "Attempts (l_global ?r) \<ge> l_globalLimit l")
    case True
    then show ?thesis by (intro global) (simp_all add: limiter_Allow_def Let_def flip: refreshed_def)
  next
    case False
    show ?thesis
    proof (cases "map_of (l_sources ?r) (filed source)")
      case None
      have "0 < l_perSourceLimit l" using assms by (simp add: limiter_inv_def)
      with None False inv capacity_spec [OF inv] show ?thesis
        by (intro allowed [where l' = "makeSourceCapacityLocked ?r"
              and st = "\<lparr>StartedAt = now, LastSeen = zero_time, Attempts = 0\<rparr>"])
           (simp_all add: attemptsOf_def limiter_Allow_def Let_def flip: refreshed_def filed_def)
    next
      case (Some st)
      show ?thesis
      proof (cases "Attempts st \<ge> l_perSourceLimit l")
        case True
        with Some False show ?thesis
          by (intro source [of st]) (simp_all add: limiter_Allow_def Let_def flip: refreshed_def filed_def)
      next
        case room: False
        have "filed source \<in> fst ` set (l_sources ?r)" using Some by (metis domI dom_map_of_conv_image_fst)
        with room Some False inv show ?thesis
          by (intro allowed [where l' = ?r and st = st])
             (simp_all add: attemptsOf_def limiter_Allow_def Let_def flip: refreshed_def filed_def)
      qed
    qed
  qed
qed

lemma filed_nonempty [simp]: "filed source \<noteq> []"
  by (simp add: filed_def)

lemma Allow_inv:
  assumes "limiter_inv l"
  shows "limiter_inv (fst (limiter_Allow l source now))"
  using assms
proof (cases rule: Allow_cases [where source = source and now = now])
  case global
  then show ?thesis using assms by simp
next
  case (source st)
  have r: "limiter_inv (refreshed now l)" using assms by simp
  have k: "(filed source, st) \<in> set (l_sources (refreshed now l))" using source(2) by (rule map_of_SomeD)
  then have "0 \<le> Attempts st \<and> Attempts st \<le> l_perSourceLimit (refreshed now l)"
    using r unfolding limiter_inv_def by blast
  moreover have "filed source \<in> fst ` set (l_sources (refreshed now l))" using k by force
  ultimately have "limiter_inv ((refreshed now l)\<lparr>l_sources :=
      AList.update (filed source) (st\<lparr>LastSeen := now\<rparr>) (l_sources (refreshed now l))\<rparr>)"
    by (intro put_inv [OF r]) simp_all
  then show ?thesis using source(4) by simp
next
  case (allowed l' st)
  have "0 \<le> attemptsOf (refreshed now l) (filed source)"
    using refreshed_inv [OF assms, of now]
    by (force simp: attemptsOf_def limiter_inv_def split: option.splits dest: map_of_SomeD)
  then have "limiter_inv (l'\<lparr>l_sources :=
      AList.update (filed source) (st\<lparr>Attempts := Attempts st + 1, LastSeen := now\<rparr>) (l_sources l')\<rparr>)"
    using allowed by (intro put_inv) auto
  then show ?thesis using allowed(1,4,6,11) by (simp add: limiter_inv_def)
qed

lemma Reset_inv: "limiter_inv l \<Longrightarrow> limiter_inv (limiter_Reset l source)"
proof -
  assume l: "limiter_inv l"
  have "int (length (AList.delete source (l_sources l))) \<le> l_maxSources l"
    using l length_delete_le [of source "l_sources l"] by (simp add: limiter_inv_def)
  then show ?thesis
    using l set_delete_sub [of source "l_sources l"] unfolding limiter_inv_def limiter_Reset_def
    by (auto simp: distinct_delete)
qed

section \<open>Bounds\<close>

fun runCalls :: "LoginAttemptLimiter \<Rightarrow> limiterCall list \<Rightarrow> LoginAttemptLimiter" where
  "runCalls l [] = l"
| "runCalls l (c # cs) = runCalls (fst (callStep l c)) cs"

lemma callStep_inv: "limiter_inv l \<Longrightarrow> limiter_inv (fst (callStep l c))"
  using Allow_inv Reset_inv by (cases c) (auto simp: split_beta)

lemma runCalls_inv: "limiter_inv l \<Longrightarrow> limiter_inv (runCalls l cs)"
  using callStep_inv by (induction cs arbitrary: l) auto

lemma New_inv: "o_Window opts \<le> MaxInt64 \<Longrightarrow> limiter_inv (NewLoginAttemptLimiter opts)"
  by (simp add: NewLoginAttemptLimiter_def limiter_inv_def Minute_def MaxInt64_def)

text \<open>
  Whatever calls a limiter serves, in whatever order and with whatever clock readings, the
  table of sources never outgrows \<open>maxSources\<close>, no source exceeds its limit and the global
  counter never exceeds the global limit.
\<close>

theorem limiter_bounded:
  assumes "o_Window opts \<le> MaxInt64"
  shows "let l = runCalls (NewLoginAttemptLimiter opts) calls in
    int (length (l_sources l)) \<le> l_maxSources l
    \<and> (\<forall>(s, st) \<in> set (l_sources l). Attempts st \<le> l_perSourceLimit l)
    \<and> Attempts (l_global l) \<le> l_globalLimit l"
  using runCalls_inv [OF New_inv [OF assms], of calls]
  by (auto simp: Let_def limiter_inv_def)

text \<open>
  An attempt is let through exactly when, after expired windows are dropped, both the global
  counter and the counter of the source are below their limits; it then counts once in both.
  A refused attempt counts nowhere and gets a positive waiting time.
\<close>

theorem limiter_Allow_decision:
  assumes "limiter_inv l"
  shows "\<exists>l' retry. limiter_Allow l source now =
      (l', Attempts (l_global (refreshed now l)) < l_globalLimit l
         \<and> attemptsOf (refreshed now l) (filed source) < l_perSourceLimit l, retry)
    \<and> (if Attempts (l_global (refreshed now l)) < l_globalLimit l
         \<and> attemptsOf (refreshed now l) (filed source) < l_perSourceLimit l
       then retry = 0 \<and> attemptsOf l' (filed source) = attemptsOf (refreshed now l) (filed source) + 1
         \<and> Attempts (l_global l') = Attempts (l_global (refreshed now l)) + 1
       else retry > 0 \<and> attemptsOf l' (filed source) = attemptsOf (refreshed now l) (filed source)
         \<and> l_global l' = l_global (refreshed now l))"
proof -
  have retry: "retryAfter now t w > 0" for t w by (simp add: retryAfter_def Let_def Second_def)
  show ?thesis
    using assms
  proof (cases rule: Allow_cases [where source = source and now = now])
    case global
    then show ?thesis using retry by simp
  next
    case (source st)
    then have "attemptsOf (refreshed now l) (filed source) \<ge> l_perSourceLimit l" by (simp add: attemptsOf_def)
    with source retry show ?thesis by (simp add: attemptsOf_def update_conv')
  next
    case (allowed l' st)
    then show ?thesis by (simp add: attemptsOf_def update_conv')
  qed
qed

section \<open>Attempts per window\<close>

lemma refreshed_global:
  "l_global (refreshed now l) =
     (if StartedAt (l_global l) = zero_time \<or> t_sub now (StartedAt (l_global l)) \<ge> l_window l
      then \<lparr>StartedAt = now, LastSeen = now, Attempts = 0\<rparr> else l_global l)"
  by (simp add: refreshed_def removeExpiredSourcesLocked_def resetGlobalWindowLocked_def)

lemma refreshed_sources:
  "l_sources (refreshed now l) =
     filter (\<lambda>(s, st). \<not> t_sub now (StartedAt st) \<ge> l_window l) (l_sources l)"
  by (simp add: refreshed_def removeExpiredSourcesLocked_def resetGlobalWindowLocked_def)

lemma t_sub_less: "w \<le> MaxInt64 \<Longrightarrow> 0 < w \<Longrightarrow> t_sub now s < w \<longleftrightarrow> now - s < w"
  by (auto simp: t_sub_def MaxInt64_def MinInt64_def)

text \<open>
  One call either leaves the global window alone (and pays one attempt for a grant) or opens a
  new one at the time of the call.
\<close>

lemma callStep_fields:
  assumes "limiter_inv l"
  shows "l_window (fst (callStep l c)) = l_window l" "l_globalLimit (fst (callStep l c)) = l_globalLimit l"
proof -
  have "l_window (fst (callStep l c)) = l_window l \<and> l_globalLimit (fst (callStep l c)) = l_globalLimit l"
  proof (cases c)
    case (CallAllow source now)
    from assms show ?thesis
      by (cases rule: Allow_cases [where source = source and now = now]) (auto simp: CallAllow)
  qed (simp add: limiter_Reset_def)
  then show "l_window (fst (callStep l c)) = l_window l" "l_globalLimit (fst (callStep l c)) = l_globalLimit l"
    by simp_all
qed

lemma Allow_global:
  assumes "limiter_inv l"
  shows "StartedAt (l_global (fst (limiter_Allow l source now))) = StartedAt (l_global (refreshed now l))
    \<and> Attempts (l_global (fst (limiter_Allow l source now))) =
      Attempts (l_global (refreshed now l)) + (if fst (snd (limiter_Allow l source now)) then 1 else 0)"
  using assms
  by (cases rule: Allow_cases [where source = source and now = now]) simp_all

lemma granted_same_window:
  assumes "limiter_inv l" "StartedAt (l_global l) \<noteq> zero_time"
    and "\<forall>t \<in> set (callTimes cs). t < StartedAt (l_global l) + l_window l"
  shows "granted l cs \<le> l_globalLimit l - Attempts (l_global l)"
  using assms
proof (induction cs arbitrary: l)
  case Nil
  then show ?case by (simp add: limiter_inv_def)
next
  case (Cons c cs)
  let ?l = "fst (callStep l c)"
  have inv: "limiter_inv ?l" by (rule callStep_inv [OF Cons.prems(1)])
  note F = callStep_fields [OF Cons.prems(1), of c]
  have step: "StartedAt (l_global ?l) = StartedAt (l_global l)
      \<and> Attempts (l_global ?l) = Attempts (l_global l) + (if snd (callStep l c) then 1 else 0)"
  proof (cases c)
    case (CallAllow source now)
    have "now - StartedAt (l_global l) < l_window l" using Cons.prems(3) CallAllow by simp
    then have "t_sub now (StartedAt (l_global l)) < l_window l"
      using Cons.prems(1) by (simp add: t_sub_less limiter_inv_def)
    then have "l_global (refreshed now l) = l_global l" using Cons.prems(2) by (simp add: refreshed_global)
    then show ?thesis using Allow_global [OF Cons.prems(1), of source now] by (simp add: CallAllow split_beta)
  qed (simp add: limiter_Reset_def)
  have "\<forall>t \<in> set (callTimes cs). t < StartedAt (l_global ?l) + l_window ?l"
    using Cons.prems(3) step F by (cases c) auto
  then have "granted ?l cs \<le> l_globalLimit ?l - Attempts (l_global ?l)"
    using Cons.IH [OF inv] Cons.prems(2) step by simp
  then show ?case using step F by (simp add: split_beta split: if_splits)
qed

text \<open>
  C37. Within any span of time as long as the window, the limiter lets at most twice the global
  limit of attempts through, whatever the sources and however often sources are reset.
\<close>

theorem limiter_window_bound:
  assumes "limiter_inv l" "0 < a" "StartedAt (l_global l) \<le> a" "sorted (callTimes cs)"
    and "\<forall>t \<in> set (callTimes cs). a \<le> t \<and> t < a + l_window l"
  shows "granted l cs \<le> 2 * l_globalLimit l"
proof -
  have "granted l cs \<le> 2 * l_globalLimit l - Attempts (l_global l)"
    using assms
  proof (induction cs arbitrary: l)
    case Nil
    then show ?case by (simp add: limiter_inv_def)
  next
    case (Cons c cs)
    let ?l = "fst (callStep l c)"
    have inv: "limiter_inv ?l" by (rule callStep_inv [OF Cons.prems(1)])
    note F = callStep_fields [OF Cons.prems(1), of c]
    have run: "granted l (c # cs) = (if snd (callStep l c) then 1 else 0) + granted ?l cs"
      by (simp add: split_beta)
    have bounds: "0 \<le> Attempts (l_global l)" "Attempts (l_global l) \<le> l_globalLimit l"
      using Cons.prems(1) by (simp_all add: limiter_inv_def)
    show ?case
    proof (cases c)
      case (CallReset source)
      then have "l_global ?l = l_global l" by (simp add: limiter_Reset_def)
      with Cons.IH [OF inv] Cons.prems F run CallReset show ?thesis by simp
    next
      case (CallAllow source now)
      have now: "0 < now" "a \<le> now" "\<forall>t \<in> set (callTimes cs). now \<le> t \<and> t < a + l_window l" "sorted (callTimes cs)"
        using Cons.prems(2,4,5) CallAllow by auto
      note G = Allow_global [OF Cons.prems(1), of source now]
      show ?thesis
      proof (cases "l_global (refreshed now l) = l_global l")
        case True
        then have "StartedAt (l_global ?l) = StartedAt (l_global l)"
          "Attempts (l_global ?l) = Attempts (l_global l) + (if snd (callStep l c) then 1 else 0)"
          using G CallAllow by (simp_all add: split_beta)
        moreover have "\<forall>t \<in> set (callTimes cs). a \<le> t \<and> t < a + l_window l" using now by auto
        ultimately show ?thesis using Cons.IH [OF inv Cons.prems(2)] Cons.prems(3) now(4) F run by simp
      next
        case False
        then have new: "l_global (refreshed now l) = \<lparr>StartedAt = now, LastSeen = now, Attempts = 0\<rparr>"
          by (auto simp: refreshed_global split: if_splits)
        then have s: "StartedAt (l_global ?l) = now"
          "Attempts (l_global ?l) = (if snd (callStep l c) then 1 else 0)"
          using G CallAllow by (simp_all add: split_beta)
        then have "granted ?l cs \<le> l_globalLimit ?l - Attempts (l_global ?l)"
          using now F by (intro granted_same_window [OF inv]) (auto simp: zero_time_def)
        with s F run bounds show ?thesis by simp
      qed
    qed
  qed
  then show ?thesis using assms(1) by (simp add: limiter_inv_def)
qed

section \<open>The waiting time\<close>

lemma Allow_ok_iff:
  assumes "limiter_inv l"
  shows "fst (snd (limiter_Allow l source now)) \<longleftrightarrow>
    Attempts (l_global (refreshed now l)) < l_globalLimit l
    \<and> attemptsOf (refreshed now l) (filed source) < l_perSourceLimit l"
  using assms
  by (cases rule: Allow_cases [where source = source and now = now]) (auto simp: attemptsOf_def)

lemma attemptsOf_refreshed:
  assumes "limiter_inv l"
  shows "attemptsOf (refreshed now l) s =
    (case map_of (l_sources l) s of
       None \<Rightarrow> 0
     | Some st \<Rightarrow> if now - StartedAt st < l_window l then Attempts st else 0)"
proof -
  let ?P = "\<lambda>(s :: string, st). \<not> t_sub now (StartedAt st) \<ge> l_window l"
  have d: "distinct (map fst (l_sources l))" and w: "0 < l_window l" "l_window l \<le> MaxInt64"
    using assms by (simp_all add: limiter_inv_def)
  have "map_of (filter ?P (l_sources l)) s =
      Option.bind (map_of (l_sources l) s) (\<lambda>st. if ?P (s, st) then Some st else None)"
    by (rule map_of_filter_distinct [OF d])
  then show ?thesis
    using t_sub_less [OF w(2,1)]
    by (auto simp: attemptsOf_def refreshed_sources not_le split: option.splits)
qed

text \<open>
  The waiting time of an attempt refused because of its source is exact: while nothing else
  happens, the source stays refused until that much time has passed and is let through from
  then on.
\<close>

theorem limiter_retry_exact:
  assumes "limiter_inv l" "limiter_Allow l source now = (l', False, retry)"
    and "Attempts (l_global (refreshed now l)) < l_globalLimit l"
    and "\<forall>(s, st) \<in> set (l_sources l). StartedAt st \<le> now"
  shows "(now \<le> t \<and> t < now + retry \<longrightarrow> \<not> fst (snd (limiter_Allow l' source t)))
    \<and> (now + retry \<le> t \<longrightarrow> fst (snd (limiter_Allow l' source t)))"
proof -
  have w: "0 < l_window l" "l_window l \<le> MaxInt64" using assms(1) by (simp_all add: limiter_inv_def)
  have inv': "limiter_inv l'" using Allow_inv [OF assms(1), of source now] assms(2) by simp
  from assms(1) show ?thesis
  proof (cases rule: Allow_cases [where source = source and now = now])
    case (source st)
    have mem: "(filed source, st) \<in> set (l_sources (refreshed now l))" using source(2) by (rule map_of_SomeD)
    then have st: "(filed source, st) \<in> set (l_sources l)" "now - StartedAt st < l_window l"
      using t_sub_less [OF w(2,1), of now "StartedAt st"] by (auto simp: refreshed_sources)
    then have "StartedAt st \<le> now" using assms(4) by auto
    then have retry: "retry = StartedAt st + l_window l - now"
      using source(4) assms(2) st(2) w by (simp add: retryAfter_def t_sub_def t_add_def MinInt64_def)
    have l': "l' = (refreshed now l)\<lparr>l_sources :=
        AList.update (filed source) (st\<lparr>LastSeen := now\<rparr>) (l_sources (refreshed now l))\<rparr>"
      using source(4) assms(2) by simp
    have count: "attemptsOf (refreshed t l') (filed source) = (if t - StartedAt st < l_window l then Attempts st else 0)"
      using attemptsOf_refreshed [OF inv', of t] by (simp add: l' update_conv')
    have "Attempts (l_global (refreshed t l')) < l_globalLimit l'"
      using assms(1,3) by (simp add: refreshed_global [of t] l' limiter_inv_def)
    then have "fst (snd (limiter_Allow l' source t)) \<longleftrightarrow> \<not> t - StartedAt st < l_window l"
      using Allow_ok_iff [OF inv', of source t] count source(3) assms(1) by (simp add: l' limiter_inv_def)
    then show ?thesis using retry by auto
  qed (use assms(2,3) in simp_all)
qed

section \<open>Instances\<close>

definition sample_options :: LoginAttemptLimiterOptions where
  "sample_options = \<lparr>o_Window = 10, o_PerSourceLimit = 1, o_GlobalLimit = 3, o_MaxSources = 2\<rparr>"

definition sample_limiter :: LoginAttemptLimiter where
  "sample_limiter = runCalls (NewLoginAttemptLimiter sample_options) [CallAllow ''a'' 5]"

lemma sample_limiter_value:
  "sample_limiter = \<lparr>l_window = 10, l_perSourceLimit = 1, l_globalLimit = 3, l_maxSources = 2,
     l_sources = [(''a'', \<lparr>StartedAt = 5, LastSeen = 5, Attempts = 1\<rparr>)],
     l_global = \<lparr>StartedAt = 5, LastSeen = 5, Attempts = 1\<rparr>\<rparr>"
  by code_simp

lemma sample_limiter_inv: "limiter_inv sample_limiter"
  by (simp add: sample_limiter_value limiter_inv_def MaxInt64_def)

lemma limiter_bounded_witness:
  "let l = runCalls (NewLoginAttemptLimiter sample_options) [CallAllow ''a'' 5, CallAllow ''b'' 6, CallAllow ''c'' 7] in
    int (length (l_sources l)) \<le> l_maxSources l
    \<and> (\<forall>(s, st) \<in> set (l_sources l). Attempts st \<le> l_perSourceLimit l)
    \<and> Attempts (l_global l) \<le> l_globalLimit l"
  by (rule limiter_bounded) (simp add: sample_options_def MaxInt64_def)

lemma limiter_Allow_decision_witness:
  "\<exists>l' retry. limiter_Allow sample_limiter ''a'' 6 =
      (l', Attempts (l_global (refreshed 6 sample_limiter)) < l_globalLimit sample_limiter
         \<and> attemptsOf (refreshed 6 sample_limiter) (filed ''a'') < l_perSourceLimit sample_limiter, retry)
    \<and> (if Attempts (l_global (refreshed 6 sample_limiter)) < l_globalLimit sample_limiter
         \<and> attemptsOf (refreshed 6 sample_limiter) (filed ''a'') < l_perSourceLimit sample_limiter
       then retry = 0 \<and> attemptsOf l' (filed ''a'') = attemptsOf (refreshed 6 sample_limiter) (filed ''a'') + 1
         \<and> Attempts (l_global l') = Attempts (l_global (refreshed 6 sample_limiter)) + 1
       else retry > 0 \<and> attemptsOf l' (filed ''a'') = attemptsOf (refreshed 6 sample_limiter) (filed ''a'')
         \<and> l_global l' = l_global (refreshed 6 sample_limiter))"
  by (rule limiter_Allow_decision [OF sample_limiter_inv])

lemma limiter_window_bound_witness:
  "granted sample_limiter [CallAllow ''b'' 7, CallReset ''b'', CallAllow ''b'' 16] \<le> 2 * l_globalLimit sample_limiter"
  by (rule limiter_window_bound [OF sample_limiter_inv, of 7]) (simp_all add: sample_limiter_value)

lemma limiter_retry_exact_witness:
  "limiter_Allow sample_limiter ''a'' 6 = (fst (limiter_Allow sample_limiter ''a'' 6), False, 9)
   \<and> \<not> fst (snd (limiter_Allow (fst (limiter_Allow sample_limiter ''a'' 6)) ''a'' 14))
   \<and> fst (snd (limiter_Allow (fst (limiter_Allow sample_limiter ''a'' 6)) ''a'' 15))"
proof -
  have run: "limiter_Allow sample_limiter ''a'' 6 = (fst (limiter_Allow sample_limiter ''a'' 6), False, 9)"
    by code_simp
  have "Attempts (l_global (refreshed 6 sample_limiter)) < l_globalLimit sample_limiter"
    "\<forall>(s, st) \<in> set (l_sources sample_limiter). StartedAt st \<le> 6"
    by (code_simp, simp add: sample_limiter_value)
  note exact = limiter_retry_exact [OF sample_limiter_inv run this]
  from run exact [of 14] exact [of 15] show ?thesis by simp
qed

end
