(* ===== verification/Auth_Session.thy ===== *)
theory Auth_Session
  imports Prelude "HOL-Library.AList" "HOL-Library.Char_ord" "HOL-Library.List_Lexorder"
    "HOL-Library.Product_Lexorder"
begin

text \<open>
  Browser sessions: \<^verbatim>\<open>internal/auth/session.go\<close>. The manager keeps a cache of sessions and may
  have a store behind it, the interface \<open>SessionStore\<close>: a record of operations over a store
  state, with its laws as the locale \<open>session_store\<close>. \<open>GormSessionStore\<close> over the table
  \<open>auth_sessions\<close> is the implementation of the source.

  The hash of a token (SHA-256) and the text of a stored time (which depends on the time zone of
  the process) are the parameters \<open>hash\<close> and \<open>fmt\<close>. A statement against the database can fail:
  \<open>db_faults\<close> lists the outcomes of the coming statements, \<open>True\<close> for a failure, and statements
  succeed once it is empty. Times a method reads from the clock are its arguments, one per
  reading. A panic of the source is \<open>Panicked\<close>, together with the state it leaves.
\<close>

section \<open>Data\<close>

datatype authError =
    StoreNotConfigured
  | DbError
  | UnknownRole string
  | GenerateFailed

datatype 'a outcome = Returned 'a | Panicked string authError

definition RoleAdmin :: string where "RoleAdmin = ''admin''"
definition RoleAPIKeyViewer :: string where "RoleAPIKeyViewer = ''api_key_viewer''"
definition SessionSourceStandard :: string where "SessionSourceStandard = ''standard''"
definition SessionSourceEmbed :: string where "SessionSourceEmbed = ''embed''"

definition NormalizeSessionSource :: "string \<Rightarrow> string" where
  "NormalizeSessionSource source =
     (if source = SessionSourceEmbed then SessionSourceEmbed else SessionSourceStandard)"

record Session =
  Role :: string
  Source :: string
  Alias :: string
  CPAAPIKeyID :: int
  LoginIP :: string
  LastSeenIP :: string
  UserAgent :: string
  LastSeenAt :: gotime
  ExpiresAt :: gotime
  CreatedAt :: gotime

record SessionRecord =
  rec_TokenHash :: string
  rec_session :: Session

record SessionClientMetadata =
  md_IP :: string
  md_UserAgent :: string

record sessionActivityUpdate =
  up_token :: string
  up_lastSeenIP :: string
  up_lastSeenAt :: gotime

definition normalizeSessionIP :: "string \<Rightarrow> string" where
  "normalizeSessionIP v = (let trimmed = TrimSpace v in if length trimmed > 64 then [] else trimmed)"

definition normalizeSessionClientMetadata :: "SessionClientMetadata \<Rightarrow> SessionClientMetadata" where
  "normalizeSessionClientMetadata metadata = metadata\<lparr>md_IP := normalizeSessionIP (md_IP metadata)\<rparr>"

definition sessionTimePointer :: "gotime \<Rightarrow> gotime option" where
  "sessionTimePointer v = (if v = zero_time then None else Some v)"

section \<open>The interface SessionStore\<close>

record 'st SessionStoreOps =
  op_Save :: "'st \<Rightarrow> string \<Rightarrow> Session \<Rightarrow> 'st \<times> authError option"
  op_Get :: "'st \<Rightarrow> string \<Rightarrow> 'st \<times> (authError + Session option)"
  op_List :: "'st \<Rightarrow> gotime \<Rightarrow> 'st \<times> (authError + SessionRecord list)"
  op_UpdateActivity :: "'st \<Rightarrow> string \<Rightarrow> string \<Rightarrow> gotime \<Rightarrow> 'st \<times> authError option"
  op_UpdateAdminAlias :: "'st \<Rightarrow> string \<Rightarrow> string \<Rightarrow> gotime \<Rightarrow> 'st \<times> (authError + nat)"
  op_Delete :: "'st \<Rightarrow> string \<Rightarrow> 'st \<times> authError option"
  op_DeleteByTokenHash :: "'st \<Rightarrow> string \<Rightarrow> 'st \<times> (authError + nat)"
  op_DeleteByRole :: "'st \<Rightarrow> string \<Rightarrow> 'st \<times> (authError + nat)"
  op_DeleteExpired :: "'st \<Rightarrow> gotime \<Rightarrow> 'st \<times> authError option"

section \<open>GormSessionStore\<close>

record AuthSession =
  row_TokenHash :: string
  row_Role :: string
  row_Source :: string
  row_Alias :: string
  row_CPAAPIKeyID :: int
  row_LoginIP :: string
  row_LastSeenIP :: string
  row_UserAgent :: string
  row_LastSeenAt :: "gotime option"
  row_ExpiresAt :: gotime
  row_CreatedAt :: gotime
  row_UpdatedAt :: gotime

record SessionDb =
  db_rows :: "AuthSession list"
  db_faults :: "bool list"

text \<open>\<open>None\<close> is a store without a database.\<close>

type_synonym GormSessionStore = "SessionDb option"

text \<open>One statement: the failure of the database, or the effect on the rows with its result.\<close>

definition statement ::
  "(AuthSession list \<Rightarrow> AuthSession list \<times> 'a) \<Rightarrow> GormSessionStore \<Rightarrow> GormSessionStore \<times> (authError + 'a)" where
  "statement effect store =
     (case store of
        None \<Rightarrow> (store, Inl StoreNotConfigured)
      | Some db \<Rightarrow>
          (case db_faults db of
             True # faults \<Rightarrow> (Some (db\<lparr>db_faults := faults\<rparr>), Inl DbError)
           | faults \<Rightarrow>
               (let (rows, result) = effect (db_rows db)
                in (Some (db\<lparr>db_rows := rows, db_faults := tl faults\<rparr>), Inr result))))"

definition onlyError :: "'st \<times> (authError + 'a) \<Rightarrow> 'st \<times> authError option" where
  "onlyError r = (case r of (st, Inl e) \<Rightarrow> (st, Some e) | (st, Inr _) \<Rightarrow> (st, None))"

definition upsert :: "AuthSession \<Rightarrow> AuthSession list \<Rightarrow> AuthSession list" where
  "upsert row rows =
     (if row_TokenHash row \<in> set (map row_TokenHash rows)
      then map (\<lambda>r. if row_TokenHash r = row_TokenHash row then row else r) rows
      else rows @ [row])"

definition gorm_Save ::
  "(string \<Rightarrow> string) \<Rightarrow> GormSessionStore \<Rightarrow> string \<Rightarrow> Session \<Rightarrow> GormSessionStore \<times> authError option" where
  "gorm_Save hash s token session =
     (let row = \<lparr>row_TokenHash = hash token, row_Role = Role session,
                 row_Source = NormalizeSessionSource (Source session), row_Alias = Alias session,
                 row_CPAAPIKeyID = CPAAPIKeyID session, row_LoginIP = LoginIP session,
                 row_LastSeenIP = LastSeenIP session, row_UserAgent = UserAgent session,
                 row_LastSeenAt = sessionTimePointer (LastSeenAt session),
                 row_ExpiresAt = ExpiresAt session, row_CreatedAt = CreatedAt session,
                 row_UpdatedAt = CreatedAt session\<rparr>
      in onlyError (statement (\<lambda>rows. (upsert row rows, ())) s))"

definition gorm_UpdateAdminAlias ::
  "GormSessionStore \<Rightarrow> string \<Rightarrow> string \<Rightarrow> gotime \<Rightarrow> GormSessionStore \<times> (authError + nat)" where
  "gorm_UpdateAdminAlias s tokenHash alias' updatedAt =
     (let hit = (\<lambda>r. row_TokenHash r = tokenHash \<and> row_Role r = RoleAdmin)
      in statement (\<lambda>rows.
           (map (\<lambda>r. if hit r then r\<lparr>row_Alias := alias', row_UpdatedAt := updatedAt\<rparr> else r) rows,
            length (filter hit rows))) s)"

definition gorm_UpdateActivity ::
  "(string \<Rightarrow> string) \<Rightarrow> GormSessionStore \<Rightarrow> string \<Rightarrow> string \<Rightarrow> gotime \<Rightarrow> GormSessionStore \<times> authError option" where
  "gorm_UpdateActivity hash s token lastSeenIP lastSeenAt =
     onlyError (statement (\<lambda>rows.
       (map (\<lambda>r. if row_TokenHash r = hash token
                 then r\<lparr>row_LastSeenIP := lastSeenIP, row_LastSeenAt := Some lastSeenAt, row_UpdatedAt := lastSeenAt\<rparr>
                 else r) rows, ())) s)"

definition authSessionFromRow :: "AuthSession \<Rightarrow> authError + Session" where
  "authSessionFromRow row =
     (let source = NormalizeSessionSource (row_Source row);
          lastSeenAt = (case row_LastSeenAt row of
             Some t \<Rightarrow> if t \<noteq> zero_time then t else row_CreatedAt row
           | None \<Rightarrow> row_CreatedAt row)
      in if row_Role row = RoleAdmin then
           Inr \<lparr>Role = RoleAdmin, Source = source, Alias = row_Alias row, CPAAPIKeyID = 0,
                LoginIP = row_LoginIP row, LastSeenIP = row_LastSeenIP row, UserAgent = row_UserAgent row,
                LastSeenAt = lastSeenAt, ExpiresAt = row_ExpiresAt row, CreatedAt = row_CreatedAt row\<rparr>
         else if row_Role row = RoleAPIKeyViewer then
           Inr \<lparr>Role = RoleAPIKeyViewer, Source = source, Alias = [], CPAAPIKeyID = row_CPAAPIKeyID row,
                LoginIP = row_LoginIP row, LastSeenIP = row_LastSeenIP row, UserAgent = row_UserAgent row,
                LastSeenAt = lastSeenAt, ExpiresAt = row_ExpiresAt row, CreatedAt = row_CreatedAt row\<rparr>
         else Inl (UnknownRole (row_Role row)))"

definition authSessionRecordFromRow :: "AuthSession \<Rightarrow> authError + SessionRecord" where
  "authSessionRecordFromRow row =
     (case authSessionFromRow row of
        Inl e \<Rightarrow> Inl e
      | Inr session \<Rightarrow> Inr \<lparr>rec_TokenHash = row_TokenHash row, rec_session = session\<rparr>)"

definition gorm_Get ::
  "(string \<Rightarrow> string) \<Rightarrow> GormSessionStore \<Rightarrow> string \<Rightarrow> GormSessionStore \<times> (authError + Session option)" where
  "gorm_Get hash s token =
     (case statement (\<lambda>rows. (rows, find (\<lambda>r. row_TokenHash r = hash token) rows)) s of
        (s', Inl e) \<Rightarrow> (s', Inl e)
      | (s', Inr None) \<Rightarrow> (s', Inr None)
      | (s', Inr (Some row)) \<Rightarrow>
          (s', case authSessionFromRow row of Inl e \<Rightarrow> Inl e | Inr session \<Rightarrow> Inr (Some session)))"

fun recordsFromRows :: "AuthSession list \<Rightarrow> authError + SessionRecord list" where
  "recordsFromRows [] = Inr []"
| "recordsFromRows (row # rows) =
     (case authSessionRecordFromRow row of
        Inl e \<Rightarrow> Inl e
      | Inr r \<Rightarrow> (case recordsFromRows rows of Inl e \<Rightarrow> Inl e | Inr rs \<Rightarrow> Inr (r # rs)))"

definition gorm_List ::
  "(gotime \<Rightarrow> string) \<Rightarrow> GormSessionStore \<Rightarrow> gotime \<Rightarrow> GormSessionStore \<times> (authError + SessionRecord list)" where
  "gorm_List fmt s now =
     (case statement (\<lambda>rows. (rows, sort_key (\<lambda>r. (fmt (row_CreatedAt r), row_TokenHash r))
             (filter (\<lambda>r. fmt (row_ExpiresAt r) > fmt now) rows))) s of
        (s', Inl e) \<Rightarrow> (s', Inl e)
      | (s', Inr rows) \<Rightarrow> (s', recordsFromRows rows))"

definition gorm_Delete ::
  "(string \<Rightarrow> string) \<Rightarrow> GormSessionStore \<Rightarrow> string \<Rightarrow> GormSessionStore \<times> authError option" where
  "gorm_Delete hash s token =
     onlyError (statement (\<lambda>rows. (filter (\<lambda>r. row_TokenHash r \<noteq> hash token) rows, ())) s)"

definition gorm_DeleteByTokenHash ::
  "GormSessionStore \<Rightarrow> string \<Rightarrow> GormSessionStore \<times> (authError + nat)" where
  "gorm_DeleteByTokenHash s tokenHash =
     statement (\<lambda>rows. (filter (\<lambda>r. row_TokenHash r \<noteq> tokenHash) rows,
                        length (filter (\<lambda>r. row_TokenHash r = tokenHash) rows))) s"

definition gorm_DeleteByRole ::
  "GormSessionStore \<Rightarrow> string \<Rightarrow> GormSessionStore \<times> (authError + nat)" where
  "gorm_DeleteByRole s role =
     statement (\<lambda>rows. (filter (\<lambda>r. row_Role r \<noteq> role) rows,
                        length (filter (\<lambda>r. row_Role r = role) rows))) s"

definition gorm_DeleteExpired ::
  "(gotime \<Rightarrow> string) \<Rightarrow> GormSessionStore \<Rightarrow> gotime \<Rightarrow> GormSessionStore \<times> authError option" where
  "gorm_DeleteExpired fmt s now =
     onlyError (statement (\<lambda>rows. (filter (\<lambda>r. \<not> fmt (row_ExpiresAt r) \<le> fmt now) rows, ())) s)"

definition GormSessionStoreOps ::
  "(string \<Rightarrow> string) \<Rightarrow> (gotime \<Rightarrow> string) \<Rightarrow> GormSessionStore SessionStoreOps" where
  "GormSessionStoreOps hash fmt =
     \<lparr>op_Save = gorm_Save hash, op_Get = gorm_Get hash, op_List = gorm_List fmt,
      op_UpdateActivity = gorm_UpdateActivity hash, op_UpdateAdminAlias = gorm_UpdateAdminAlias,
      op_Delete = gorm_Delete hash, op_DeleteByTokenHash = gorm_DeleteByTokenHash,
      op_DeleteByRole = gorm_DeleteByRole, op_DeleteExpired = gorm_DeleteExpired fmt\<rparr>"

section \<open>SessionManager\<close>

record 'st SessionManager =
  m_ttl :: duration
  m_sessions :: "(string \<times> Session) list"
  m_pendingActivity :: "(string \<times> sessionActivityUpdate) list"
  m_activityWriterRunning :: bool
  m_store :: "'st option"

definition sessionActivityWriteInterval :: duration where
  "sessionActivityWriteInterval = Minute"

definition NewSessionManager :: "duration \<Rightarrow> 'st SessionManager" where
  "NewSessionManager ttl =
     \<lparr>m_ttl = ttl, m_sessions = [], m_pendingActivity = [], m_activityWriterRunning = False, m_store = None\<rparr>"

definition NewPersistentSessionManager :: "duration \<Rightarrow> 'st \<Rightarrow> 'st SessionManager" where
  "NewPersistentSessionManager ttl store = (NewSessionManager ttl)\<lparr>m_store := Some store\<rparr>"

definition cleanupExpiredLocked ::
  "'st SessionStoreOps \<Rightarrow> 'st SessionManager \<Rightarrow> gotime \<Rightarrow> 'st SessionManager \<times> unit outcome" where
  "cleanupExpiredLocked ops m now =
     (let m1 = m\<lparr>m_sessions := filter (\<lambda>(token, session). ExpiresAt session > now) (m_sessions m)\<rparr>
      in case m_store m1 of
           None \<Rightarrow> (m1, Returned ())
         | Some st \<Rightarrow>
             (case op_DeleteExpired ops st now of
                (st', Some e) \<Rightarrow> (m1\<lparr>m_store := Some st'\<rparr>, Panicked ''delete expired auth sessions'' e)
              | (st', None) \<Rightarrow> (m1\<lparr>m_store := Some st'\<rparr>, Returned ())))"

text \<open>\<open>generated\<close> is what \<open>generate\<close> returns; the two times are those of the cleanup and of the session.\<close>

definition mgr_create ::
  "'st SessionStoreOps \<Rightarrow> 'st SessionManager \<Rightarrow> Session \<Rightarrow> SessionClientMetadata
   \<Rightarrow> authError + string \<Rightarrow> gotime \<Rightarrow> gotime \<Rightarrow> 'st SessionManager \<times> (authError + string \<times> gotime) outcome" where
  "mgr_create ops m session metadata generated t1 now =
     (case generated of
        Inl e \<Rightarrow> (m, Returned (Inl e))
      | Inr token \<Rightarrow>
          (case cleanupExpiredLocked ops m t1 of
             (m1, Panicked msg e) \<Rightarrow> (m1, Panicked msg e)
           | (m1, Returned _) \<Rightarrow>
               (let expiresAt = t_add now (m_ttl m1);
                    md = normalizeSessionClientMetadata metadata;
                    s = session\<lparr>Source := NormalizeSessionSource (Source session), LoginIP := md_IP md,
                          LastSeenIP := md_IP md, UserAgent := md_UserAgent md, LastSeenAt := now,
                          ExpiresAt := expiresAt, CreatedAt := now\<rparr>
                in case m_store m1 of
                     None \<Rightarrow> (m1\<lparr>m_sessions := AList.update token s (m_sessions m1)\<rparr>,
                              Returned (Inr (token, expiresAt)))
                   | Some st \<Rightarrow>
                       (case op_Save ops st token s of
                          (st', Some e) \<Rightarrow> (m1\<lparr>m_store := Some st'\<rparr>, Returned (Inl e))
                        | (st', None) \<Rightarrow>
                            (m1\<lparr>m_store := Some st', m_sessions := AList.update token s (m_sessions m1)\<rparr>,
                             Returned (Inr (token, expiresAt)))))))"

definition emptySession :: Session where
  "emptySession = \<lparr>Role = [], Source = [], Alias = [], CPAAPIKeyID = 0, LoginIP = [], LastSeenIP = [],
     UserAgent = [], LastSeenAt = zero_time, ExpiresAt = zero_time, CreatedAt = zero_time\<rparr>"

definition CreateWithSourceAndMetadata ::
  "'st SessionStoreOps \<Rightarrow> 'st SessionManager \<Rightarrow> string \<Rightarrow> SessionClientMetadata
   \<Rightarrow> authError + string \<Rightarrow> gotime \<Rightarrow> gotime \<Rightarrow> 'st SessionManager \<times> (authError + string \<times> gotime) outcome" where
  "CreateWithSourceAndMetadata ops m source metadata =
     mgr_create ops m (emptySession\<lparr>Role := RoleAdmin, Source := NormalizeSessionSource source\<rparr>) metadata"

definition CreateAPIKeyViewerWithSourceAndMetadata ::
  "'st SessionStoreOps \<Rightarrow> 'st SessionManager \<Rightarrow> int \<Rightarrow> string \<Rightarrow> SessionClientMetadata
   \<Rightarrow> authError + string \<Rightarrow> gotime \<Rightarrow> gotime \<Rightarrow> 'st SessionManager \<times> (authError + string \<times> gotime) outcome" where
  "CreateAPIKeyViewerWithSourceAndMetadata ops m cpaAPIKeyID source metadata =
     mgr_create ops m (emptySession\<lparr>Role := RoleAPIKeyViewer, Source := NormalizeSessionSource source,
       CPAAPIKeyID := cpaAPIKeyID\<rparr>) metadata"

definition emptyMetadata :: SessionClientMetadata where
  "emptyMetadata = \<lparr>md_IP = [], md_UserAgent = []\<rparr>"

definition CreateWithSource ::
  "'st SessionStoreOps \<Rightarrow> 'st SessionManager \<Rightarrow> string
   \<Rightarrow> authError + string \<Rightarrow> gotime \<Rightarrow> gotime \<Rightarrow> 'st SessionManager \<times> (authError + string \<times> gotime) outcome" where
  "CreateWithSource ops m source = CreateWithSourceAndMetadata ops m source emptyMetadata"

definition mgr_Create ::
  "'st SessionStoreOps \<Rightarrow> 'st SessionManager
   \<Rightarrow> authError + string \<Rightarrow> gotime \<Rightarrow> gotime \<Rightarrow> 'st SessionManager \<times> (authError + string \<times> gotime) outcome" where
  "mgr_Create ops m = CreateWithSource ops m SessionSourceStandard"

definition CreateAPIKeyViewerWithSource ::
  "'st SessionStoreOps \<Rightarrow> 'st SessionManager \<Rightarrow> int \<Rightarrow> string
   \<Rightarrow> authError + string \<Rightarrow> gotime \<Rightarrow> gotime \<Rightarrow> 'st SessionManager \<times> (authError + string \<times> gotime) outcome" where
  "CreateAPIKeyViewerWithSource ops m cpaAPIKeyID source =
     CreateAPIKeyViewerWithSourceAndMetadata ops m cpaAPIKeyID source emptyMetadata"

definition CreateAPIKeyViewer ::
  "'st SessionStoreOps \<Rightarrow> 'st SessionManager \<Rightarrow> int
   \<Rightarrow> authError + string \<Rightarrow> gotime \<Rightarrow> gotime \<Rightarrow> 'st SessionManager \<times> (authError + string \<times> gotime) outcome" where
  "CreateAPIKeyViewer ops m cpaAPIKeyID = CreateAPIKeyViewerWithSource ops m cpaAPIKeyID SessionSourceStandard"

definition mgr_Delete ::
  "'st SessionStoreOps \<Rightarrow> 'st SessionManager \<Rightarrow> string \<Rightarrow> 'st SessionManager \<times> unit outcome" where
  "mgr_Delete ops m token =
     (if token = [] then (m, Returned ())
      else
        (let m1 = m\<lparr>m_sessions := AList.delete token (m_sessions m)\<rparr>
         in case m_store m1 of
              None \<Rightarrow> (m1, Returned ())
            | Some st \<Rightarrow>
                (case op_Delete ops st token of
                   (st', Some e) \<Rightarrow> (m1\<lparr>m_store := Some st'\<rparr>, Panicked ''delete auth session'' e)
                 | (st', None) \<Rightarrow> (m1\<lparr>m_store := Some st'\<rparr>, Returned ()))))"

definition getPersisted ::
  "'st SessionStoreOps \<Rightarrow> 'st SessionManager \<Rightarrow> string \<Rightarrow> gotime \<Rightarrow> 'st SessionManager \<times> Session option outcome" where
  "getPersisted ops m token now =
     (case m_store m of
        None \<Rightarrow> (m, Returned None)
      | Some st \<Rightarrow>
          (case map_of (m_sessions m) token of
             Some session \<Rightarrow>
               if \<not> ExpiresAt session > now
               then
                 (let m1 = m\<lparr>m_sessions := AList.delete token (m_sessions m)\<rparr>
                  in case op_Delete ops st token of
                       (st', Some e) \<Rightarrow> (m1\<lparr>m_store := Some st'\<rparr>, Panicked ''delete auth session'' e)
                     | (st', None) \<Rightarrow> (m1\<lparr>m_store := Some st'\<rparr>, Returned None))
               else (m, Returned (Some session))
           | None \<Rightarrow>
               (case op_Get ops st token of
                  (st', Inl e) \<Rightarrow> (m\<lparr>m_store := Some st'\<rparr>, Panicked ''load auth session'' e)
                | (st', Inr None) \<Rightarrow> (m\<lparr>m_store := Some st'\<rparr>, Returned None)
                | (st', Inr (Some session)) \<Rightarrow>
                    if \<not> ExpiresAt session > now
                    then
                      (case op_Delete ops st' token of
                         (st'', Some e) \<Rightarrow> (m\<lparr>m_store := Some st''\<rparr>, Panicked ''delete auth session'' e)
                       | (st'', None) \<Rightarrow> (m\<lparr>m_store := Some st''\<rparr>, Returned None))
                    else
                      (m\<lparr>m_store := Some st', m_sessions := AList.update token session (m_sessions m)\<rparr>,
                       Returned (Some session)))))"

definition mgr_Get ::
  "'st SessionStoreOps \<Rightarrow> 'st SessionManager \<Rightarrow> string \<Rightarrow> gotime \<Rightarrow> 'st SessionManager \<times> Session option outcome" where
  "mgr_Get ops m token now =
     (if token = [] then (m, Returned None)
      else case map_of (m_sessions m) token of
        None \<Rightarrow> getPersisted ops m token now
      | Some session \<Rightarrow>
          if \<not> ExpiresAt session > now
          then (case mgr_Delete ops m token of
                  (m', Returned _) \<Rightarrow> (m', Returned None)
                | (m', Panicked msg e) \<Rightarrow> (m', Panicked msg e))
          else (m, Returned (Some session)))"

definition mgr_Validate ::
  "'st SessionStoreOps \<Rightarrow> 'st SessionManager \<Rightarrow> string \<Rightarrow> gotime \<Rightarrow> 'st SessionManager \<times> bool outcome" where
  "mgr_Validate ops m token now =
     (case mgr_Get ops m token now of
        (m', Returned r) \<Rightarrow> (m', Returned (r \<noteq> None))
      | (m', Panicked msg e) \<Rightarrow> (m', Panicked msg e))"

text \<open>
  \<open>Touch\<close> looks the token up and then, in a critical section of its own, looks it up again and
  records the activity: \<open>touchLocked\<close> is that second section, between which and the lookup other
  calls may run. The result also says whether the background writer has to be started. The times are
  those of the lookup, of the second expiry check and of the update.
\<close>

definition touchLocked ::
  "'st SessionManager \<Rightarrow> string \<Rightarrow> string \<Rightarrow> gotime \<Rightarrow> gotime \<Rightarrow> 'st SessionManager \<times> bool \<times> bool" where
  "touchLocked m token ip t2 now =
     (case map_of (m_sessions m) token of
        None \<Rightarrow> (m, False, False)
      | Some session \<Rightarrow>
          if \<not> ExpiresAt session > t2 then (m, False, False)
          else
            (let ip1 = normalizeSessionIP ip;
                 lastSeenIP = (if ip1 = [] then LastSeenIP session else ip1)
             in if lastSeenIP = LastSeenIP session
                   \<and> t_add (LastSeenAt session) sessionActivityWriteInterval > now
                then (m, False, False)
                else
                  (let m2 = m\<lparr>m_sessions := AList.update token
                          (session\<lparr>LastSeenIP := lastSeenIP, LastSeenAt := now\<rparr>) (m_sessions m)\<rparr>
                   in if m_store m2 = None then (m2, True, False)
                      else
                        (let m3 = m2\<lparr>m_pendingActivity := AList.update token
                                \<lparr>up_token = token, up_lastSeenIP = lastSeenIP, up_lastSeenAt = now\<rparr>
                                (m_pendingActivity m2)\<rparr>
                         in if \<not> m_activityWriterRunning m3
                            then (m3\<lparr>m_activityWriterRunning := True\<rparr>, True, True)
                            else (m3, True, False)))))"

definition mgr_Touch ::
  "'st SessionStoreOps \<Rightarrow> 'st SessionManager \<Rightarrow> string \<Rightarrow> string \<Rightarrow> gotime \<Rightarrow> gotime \<Rightarrow> gotime
   \<Rightarrow> 'st SessionManager \<times> (bool \<times> bool) outcome" where
  "mgr_Touch ops m token ip t1 t2 now =
     (if token = [] then (m, Returned (False, False))
      else case mgr_Get ops m token t1 of
        (m1, Panicked msg e) \<Rightarrow> (m1, Panicked msg e)
      | (m1, Returned None) \<Rightarrow> (m1, Returned (False, False))
      | (m1, Returned (Some _)) \<Rightarrow> (case touchLocked m1 token ip t2 now of (m2, r) \<Rightarrow> (m2, Returned r)))"

text \<open>
  The background writer: one locked section that takes a pending update or stops the writer, and
  one unlocked write of the update it took. A failed write is logged and dropped.
\<close>

definition writerTake ::
  "'st SessionManager \<Rightarrow> 'st SessionManager \<times> sessionActivityUpdate option" where
  "writerTake m =
     (case m_pendingActivity m of
        [] \<Rightarrow> (m\<lparr>m_activityWriterRunning := False\<rparr>, None)
      | (token, pending) # rest \<Rightarrow>
          (m\<lparr>m_pendingActivity := AList.delete token (m_pendingActivity m)\<rparr>, Some pending))"

definition writerWrite ::
  "'st SessionStoreOps \<Rightarrow> 'st SessionManager \<Rightarrow> sessionActivityUpdate \<Rightarrow> 'st SessionManager" where
  "writerWrite ops m update =
     (case m_store m of
        None \<Rightarrow> m
      | Some st \<Rightarrow>
          m\<lparr>m_store := Some (fst (op_UpdateActivity ops st (up_token update) (up_lastSeenIP update)
              (up_lastSeenAt update)))\<rparr>)"

function writePendingActivity :: "'st SessionStoreOps \<Rightarrow> 'st SessionManager \<Rightarrow> 'st SessionManager" where
  "writePendingActivity ops m =
     (case writerTake m of
        (m1, None) \<Rightarrow> m1
      | (m1, Some update) \<Rightarrow> writePendingActivity ops (writerWrite ops m1 update))"
  by pat_completeness auto
termination
  by (relation "measure (\<lambda>(ops, m). length (m_pendingActivity m))")
     (auto simp: writerTake_def writerWrite_def less_Suc_eq_le length_delete_le
       split: list.splits option.splits)

declare writePendingActivity.simps [simp del]

definition mgr_CleanupExpired ::
  "'st SessionStoreOps \<Rightarrow> 'st SessionManager \<Rightarrow> gotime \<Rightarrow> 'st SessionManager \<times> unit outcome" where
  "mgr_CleanupExpired ops m now = cleanupExpiredLocked ops m now"

definition cachedByHash :: "(string \<Rightarrow> string) \<Rightarrow> (string \<times> Session) list \<Rightarrow> (string \<times> Session) list" where
  "cachedByHash hash sessions = fold (\<lambda>(token, session). AList.update (hash token) session) sessions []"

definition refreshRecord :: "(string \<times> Session) list \<Rightarrow> SessionRecord \<Rightarrow> SessionRecord" where
  "refreshRecord cached r =
     (case map_of cached (rec_TokenHash r) of
        None \<Rightarrow> r
      | Some session \<Rightarrow>
          r\<lparr>rec_session := (rec_session r)\<lparr>Alias := Alias session, LoginIP := LoginIP session,
             LastSeenIP := LastSeenIP session, UserAgent := UserAgent session, LastSeenAt := LastSeenAt session\<rparr>\<rparr>)"

definition mgr_List ::
  "(string \<Rightarrow> string) \<Rightarrow> 'st SessionStoreOps \<Rightarrow> 'st SessionManager \<Rightarrow> gotime \<Rightarrow> gotime
   \<Rightarrow> 'st SessionManager \<times> SessionRecord list outcome" where
  "mgr_List hash ops m t1 t2 =
     (case cleanupExpiredLocked ops m t1 of
        (m1, Panicked msg e) \<Rightarrow> (m1, Panicked msg e)
      | (m1, Returned _) \<Rightarrow>
          (case m_store m1 of
             Some st \<Rightarrow>
               (case op_List ops st t2 of
                  (st', Inl e) \<Rightarrow> (m1\<lparr>m_store := Some st'\<rparr>, Panicked ''list auth sessions'' e)
                | (st', Inr records) \<Rightarrow>
                    (m1\<lparr>m_store := Some st'\<rparr>,
                     Returned (map (refreshRecord (cachedByHash hash (m_sessions m1))) records)))
           | None \<Rightarrow>
               (m1, Returned (sort_key (\<lambda>r. (CreatedAt (rec_session r), rec_TokenHash r))
                  (map (\<lambda>(token, session). \<lparr>rec_TokenHash = hash token,
                      rec_session = session\<lparr>Source := NormalizeSessionSource (Source session)\<rparr>\<rparr>)
                    (m_sessions m1))))))"

fun aliasLoop ::
  "(string \<Rightarrow> string) \<Rightarrow> string \<Rightarrow> string \<Rightarrow> bool \<Rightarrow> (string \<times> Session) list \<Rightarrow> (string \<times> Session) list \<Rightarrow> bool
   \<Rightarrow> (string \<times> Session) list \<times> bool" where
  "aliasLoop hash tokenHash alias' persistent [] sessions updated = (sessions, updated)"
| "aliasLoop hash tokenHash alias' persistent ((token, session) # rest) sessions updated =
     (if hash token \<noteq> tokenHash \<or> Role session \<noteq> RoleAdmin
      then aliasLoop hash tokenHash alias' persistent rest sessions updated
      else if persistent \<and> \<not> updated then (sessions, False)
      else aliasLoop hash tokenHash alias' persistent rest
             (AList.update token (session\<lparr>Alias := alias'\<rparr>) sessions) True)"

definition mgr_UpdateAdminAlias ::
  "(string \<Rightarrow> string) \<Rightarrow> 'st SessionStoreOps \<Rightarrow> 'st SessionManager \<Rightarrow> string \<Rightarrow> string \<Rightarrow> gotime \<Rightarrow> gotime
   \<Rightarrow> 'st SessionManager \<times> bool outcome" where
  "mgr_UpdateAdminAlias hash ops m tokenHash0 alias0 t1 t2 =
     (let tokenHash = TrimSpace tokenHash0; alias' = TrimSpace alias0
      in if tokenHash = [] then (m, Returned False)
         else case cleanupExpiredLocked ops m t1 of
           (m1, Panicked msg e) \<Rightarrow> (m1, Panicked msg e)
         | (m1, Returned _) \<Rightarrow>
             (case m_store m1 of
                None \<Rightarrow>
                  (let (sessions, updated) = aliasLoop hash tokenHash alias' False (m_sessions m1) (m_sessions m1) False
                   in (m1\<lparr>m_sessions := sessions\<rparr>, Returned updated))
              | Some st \<Rightarrow>
                  (case op_UpdateAdminAlias ops st tokenHash alias' t2 of
                     (st', Inl e) \<Rightarrow> (m1\<lparr>m_store := Some st'\<rparr>, Panicked ''update admin auth session alias'' e)
                   | (st', Inr n) \<Rightarrow>
                       (let (sessions, updated) =
                              aliasLoop hash tokenHash alias' True (m_sessions m1) (m_sessions m1) (n > 0)
                        in (m1\<lparr>m_store := Some st', m_sessions := sessions\<rparr>, Returned updated)))))"

definition mgr_DeleteByTokenHash ::
  "(string \<Rightarrow> string) \<Rightarrow> 'st SessionStoreOps \<Rightarrow> 'st SessionManager \<Rightarrow> string \<Rightarrow> gotime
   \<Rightarrow> 'st SessionManager \<times> nat outcome" where
  "mgr_DeleteByTokenHash hash ops m tokenHash0 t1 =
     (let tokenHash = TrimSpace tokenHash0
      in if tokenHash = [] then (m, Returned 0)
         else case cleanupExpiredLocked ops m t1 of
           (m1, Panicked msg e) \<Rightarrow> (m1, Panicked msg e)
         | (m1, Returned _) \<Rightarrow>
             (let m2 = m1\<lparr>m_sessions := filter (\<lambda>(token, _). hash token \<noteq> tokenHash) (m_sessions m1)\<rparr>;
                  deleted = (if \<exists>x \<in> set (m_sessions m1). hash (fst x) = tokenHash then 1 else 0)
              in case m_store m2 of
                   None \<Rightarrow> (m2, Returned deleted)
                 | Some st \<Rightarrow>
                     (case op_DeleteByTokenHash ops st tokenHash of
                        (st', Inl e) \<Rightarrow>
                          (m2\<lparr>m_store := Some st'\<rparr>, Panicked ''delete auth session by token hash'' e)
                      | (st', Inr n) \<Rightarrow> (m2\<lparr>m_store := Some st'\<rparr>, Returned (max deleted n)))))"

definition mgr_DeleteByRole ::
  "'st SessionStoreOps \<Rightarrow> 'st SessionManager \<Rightarrow> string \<Rightarrow> gotime \<Rightarrow> 'st SessionManager \<times> nat outcome" where
  "mgr_DeleteByRole ops m role t1 =
     (case cleanupExpiredLocked ops m t1 of
        (m1, Panicked msg e) \<Rightarrow> (m1, Panicked msg e)
      | (m1, Returned _) \<Rightarrow>
          (let m2 = m1\<lparr>m_sessions := filter (\<lambda>(_, session). Role session \<noteq> role) (m_sessions m1)\<rparr>;
               deleted = length (filter (\<lambda>(_, session). Role session = role) (m_sessions m1))
           in case m_store m2 of
                None \<Rightarrow> (m2, Returned deleted)
              | Some st \<Rightarrow>
                  (case op_DeleteByRole ops st role of
                     (st', Inl e) \<Rightarrow> (m2\<lparr>m_store := Some st'\<rparr>, Panicked ''delete auth sessions by role'' e)
                   | (st', Inr n) \<Rightarrow> (m2\<lparr>m_store := Some st'\<rparr>, Returned (max deleted n)))))"

section \<open>Calls\<close>

text \<open>
  The calls a manager serves. A method that is one critical section is one call. Of the methods with
  two (\<open>Get\<close>, \<open>Touch\<close> and the background writer) the second section is also a call of its own, so
  that any method can run between the two: an interrupted \<open>Touch\<close> is a \<open>CallGet\<close>, whatever runs
  in between, and a \<open>CallTouchLocked\<close>; an interrupted \<open>Get\<close> ends with a \<open>CallGetPersisted\<close> or a
  \<open>CallDelete\<close>. The writer may hold any update (\<open>CallWrite\<close>), which covers one taken long ago.
\<close>

datatype sessionCall =
    CallCreate Session SessionClientMetadata "authError + string" gotime gotime
  | CallGet string gotime
  | CallGetPersisted string gotime
  | CallTouch string string gotime gotime gotime
  | CallTouchLocked string string gotime gotime
  | CallTake
  | CallWrite sessionActivityUpdate
  | CallList gotime gotime
  | CallAlias string string gotime gotime
  | CallDelete string
  | CallDeleteByTokenHash string gotime
  | CallDeleteByRole string gotime
  | CallCleanup gotime

fun session_call ::
  "(string \<Rightarrow> string) \<Rightarrow> 'st SessionStoreOps \<Rightarrow> 'st SessionManager \<Rightarrow> sessionCall \<Rightarrow> 'st SessionManager" where
  "session_call hash ops m (CallCreate s md g t1 t2) = fst (mgr_create ops m s md g t1 t2)"
| "session_call hash ops m (CallGet token t) = fst (mgr_Get ops m token t)"
| "session_call hash ops m (CallGetPersisted token t) = fst (getPersisted ops m token t)"
| "session_call hash ops m (CallTouch token ip t1 t2 t3) = fst (mgr_Touch ops m token ip t1 t2 t3)"
| "session_call hash ops m (CallTouchLocked token ip t2 t3) = fst (touchLocked m token ip t2 t3)"
| "session_call hash ops m CallTake = fst (writerTake m)"
| "session_call hash ops m (CallWrite u) = writerWrite ops m u"
| "session_call hash ops m (CallList t1 t2) = fst (mgr_List hash ops m t1 t2)"
| "session_call hash ops m (CallAlias h a t1 t2) = fst (mgr_UpdateAdminAlias hash ops m h a t1 t2)"
| "session_call hash ops m (CallDelete token) = fst (mgr_Delete ops m token)"
| "session_call hash ops m (CallDeleteByTokenHash h t1) = fst (mgr_DeleteByTokenHash hash ops m h t1)"
| "session_call hash ops m (CallDeleteByRole role t1) = fst (mgr_DeleteByRole ops m role t1)"
| "session_call hash ops m (CallCleanup t) = fst (mgr_CleanupExpired ops m t)"

fun session_calls ::
  "(string \<Rightarrow> string) \<Rightarrow> 'st SessionStoreOps \<Rightarrow> 'st SessionManager \<Rightarrow> sessionCall list \<Rightarrow> 'st SessionManager" where
  "session_calls hash ops m [] = m"
| "session_calls hash ops m (c # cs) = session_calls hash ops (session_call hash ops m c) cs"

fun creates :: "(string \<Rightarrow> string) \<Rightarrow> string \<Rightarrow> sessionCall \<Rightarrow> bool" where
  "creates hash h (CallCreate s md (Inr token) t1 t2) = (hash token = h)"
| "creates hash h _ = False"

definition valid_role :: "Session \<Rightarrow> bool" where
  "valid_role s \<longleftrightarrow> Role s = RoleAdmin \<or> Role s = RoleAPIKeyViewer"

text \<open>What a store keeps of a session.\<close>

definition stored :: "Session \<Rightarrow> Session" where
  "stored s = s\<lparr>Source := NormalizeSessionSource (Source s),
     Alias := (if Role s = RoleAdmin then Alias s else []),
     CPAAPIKeyID := (if Role s = RoleAdmin then 0 else CPAAPIKeyID s),
     LastSeenAt := (if LastSeenAt s = zero_time then CreatedAt s else LastSeenAt s)\<rparr>"

text \<open>A hash is dead when neither the cache nor the store knows a session under it.\<close>

definition dead ::
  "(string \<Rightarrow> string) \<Rightarrow> ('st \<Rightarrow> bool) \<Rightarrow> ('st \<Rightarrow> string \<Rightarrow> Session option) \<Rightarrow> string \<Rightarrow> 'st SessionManager \<Rightarrow> bool" where
  "dead hash ok content h m \<longleftrightarrow> (\<forall>x \<in> set (m_sessions m). hash (fst x) \<noteq> h)
     \<and> (\<forall>st. m_store m = Some st \<longrightarrow> ok st \<and> content st h = None)"

lemma dead_simps [simp]:
  "dead hash ok content h (m\<lparr>m_pendingActivity := p\<rparr>) = dead hash ok content h m"
  "dead hash ok content h (m\<lparr>m_activityWriterRunning := b\<rparr>) = dead hash ok content h m"
  by (simp_all add: dead_def)

lemma dead_store [intro]:
  "dead hash ok content h m \<Longrightarrow> ok st \<Longrightarrow> content st h = None \<Longrightarrow>
   dead hash ok content h (m\<lparr>m_store := Some st\<rparr>)"
  by (simp add: dead_def)

lemma dead_sub:
  "dead hash ok content h m \<Longrightarrow> set ss \<subseteq> set (m_sessions m) \<Longrightarrow>
   dead hash ok content h (m\<lparr>m_sessions := ss\<rparr>)"
  by (auto simp: dead_def)

lemma set_alist_update: "set (AList.update k v al) \<subseteq> insert (k, v) (set al)"
  by (induction al) auto

lemma dead_put:
  "dead hash ok content h m \<Longrightarrow> hash t \<noteq> h \<Longrightarrow>
   dead hash ok content h (m\<lparr>m_sessions := AList.update t s (m_sessions m)\<rparr>)"
  using set_alist_update [of t s "m_sessions m"] unfolding dead_def by fastforce

lemma dead_cache: "dead hash ok content h m \<Longrightarrow> hash t = h \<Longrightarrow> map_of (m_sessions m) t = None"
  by (auto simp: dead_def map_of_eq_None_iff)

lemma dead_cached: "dead hash ok content h m \<Longrightarrow> map_of (m_sessions m) t = Some s \<Longrightarrow> hash t \<noteq> h"
  by (metis dead_cache option.distinct(1))

lemma dead_deleted: "dead hash ok content h m \<Longrightarrow>
  dead hash ok content h (m\<lparr>m_sessions := AList.delete t (m_sessions m)\<rparr>)"
  by (rule dead_sub) (auto simp: AList.delete_eq)

lemma map_le_None: "f \<subseteq>\<^sub>m g \<Longrightarrow> g x = None \<Longrightarrow> f x = None"
  by (metis domIff map_le_implies_dom_le subsetD)

section \<open>The laws of a store\<close>

text \<open>
  A store stands for a partial map from token hashes to sessions (\<open>content\<close>). Every operation
  either does what its name says of that map or fails and leaves the map alone; no operation but
  \<open>Save\<close> adds to it.
\<close>

locale session_store =
  fixes hash :: "string \<Rightarrow> string"
    and ops :: "'st SessionStoreOps"
    and ok :: "'st \<Rightarrow> bool"
    and content :: "'st \<Rightarrow> string \<Rightarrow> Session option"
  assumes save: "ok st \<Longrightarrow> op_Save ops st t s = (st', r) \<Longrightarrow>
      ok st' \<and> (r = None \<longrightarrow> valid_role s \<longrightarrow> content st' = (content st)(hash t \<mapsto> stored s))
      \<and> (\<forall>h. h \<noteq> hash t \<longrightarrow> content st' h = content st h)"
    and get: "ok st \<Longrightarrow> op_Get ops st t = (st', g) \<Longrightarrow>
      ok st' \<and> content st' = content st \<and> (\<forall>x. g = Inr x \<longrightarrow> x = content st (hash t))"
    and list: "ok st \<Longrightarrow> op_List ops st now = (st', rs) \<Longrightarrow> ok st' \<and> content st' = content st"
    and activity: "ok st \<Longrightarrow> op_UpdateActivity ops st t ip at = (st', r) \<Longrightarrow>
      ok st' \<and> (\<forall>h. h \<noteq> hash t \<or> content st h = None \<longrightarrow> content st' h = content st h)
      \<and> (r = None \<and> at \<noteq> zero_time \<longrightarrow> content st' (hash t) =
           map_option (\<lambda>s. s\<lparr>LastSeenIP := ip, LastSeenAt := at\<rparr>) (content st (hash t)))"
    and admin_alias: "ok st \<Longrightarrow> op_UpdateAdminAlias ops st h a at = (st', n) \<Longrightarrow>
      ok st' \<and> (\<forall>h'. h' \<noteq> h \<or> content st h' = None \<longrightarrow> content st' h' = content st h')"
    and delete: "ok st \<Longrightarrow> op_Delete ops st t = (st', r) \<Longrightarrow>
      ok st' \<and> content st' = (if r = None then (content st)(hash t := None) else content st)"
    and delete_hash: "ok st \<Longrightarrow> op_DeleteByTokenHash ops st h = (st', n) \<Longrightarrow>
      ok st' \<and> (case n of Inr _ \<Rightarrow> content st' = (content st)(h := None) | Inl _ \<Rightarrow> content st' = content st)"
    and delete_role: "ok st \<Longrightarrow> op_DeleteByRole ops st role = (st', n) \<Longrightarrow>
      ok st' \<and> content st' \<subseteq>\<^sub>m content st \<and> (\<forall>k. n = Inr k \<longrightarrow> (\<forall>h s. content st' h = Some s \<longrightarrow> Role s \<noteq> role))"
    and delete_expired: "ok st \<Longrightarrow> op_DeleteExpired ops st now = (st', r) \<Longrightarrow>
      ok st' \<and> content st' \<subseteq>\<^sub>m content st"
begin

lemma dead_st: "dead hash ok content h m \<Longrightarrow> m_store m = Some st \<Longrightarrow> ok st \<and> content st h = None"
  by (simp add: dead_def)

lemma dead_cleanup:
  assumes "dead hash ok content h m"
  shows "dead hash ok content h (fst (cleanupExpiredLocked ops m now))"
proof -
  let ?m = "m\<lparr>m_sessions := filter (\<lambda>(token, session). ExpiresAt session > now) (m_sessions m)\<rparr>"
  have m: "dead hash ok content h ?m" by (rule dead_sub [OF assms]) auto
  show ?thesis
  proof (cases "m_store m")
    case (Some st)
    obtain st' r where r: "op_DeleteExpired ops st now = (st', r)" by fastforce
    note st = dead_st [OF assms Some]
    note E = delete_expired [OF conjunct1 [OF st] r]
    have "dead hash ok content h (?m\<lparr>m_store := Some st'\<rparr>)"
      using m E st map_le_None [of "content st'" "content st" h] by (intro dead_store) simp_all
    then show ?thesis using Some r by (simp add: cleanupExpiredLocked_def Let_def split: option.splits)
  qed (use m in \<open>simp add: cleanupExpiredLocked_def Let_def\<close>)
qed

lemma dead_Delete:
  assumes "dead hash ok content h m"
  shows "dead hash ok content h (fst (mgr_Delete ops m token))"
proof (cases "m_store m")
  case (Some st)
  obtain st' r where r: "op_Delete ops st token = (st', r)" by fastforce
  note st = dead_st [OF assms Some]
  note E = delete [OF conjunct1 [OF st] r]
  have "dead hash ok content h (m\<lparr>m_sessions := AList.delete token (m_sessions m), m_store := Some st'\<rparr>)"
    using dead_deleted [OF assms] E st by (intro dead_store) simp_all
  then show ?thesis using Some r assms by (simp add: mgr_Delete_def Let_def split: option.splits)
qed (use assms dead_deleted [OF assms] in \<open>simp add: mgr_Delete_def Let_def\<close>)

lemma dead_getPersisted:
  assumes "dead hash ok content h m"
  shows "dead hash ok content h (fst (getPersisted ops m token now))"
    and "hash token = h \<Longrightarrow> snd (getPersisted ops m token now) = Returned (Some s) \<Longrightarrow> False"
proof -
  have "dead hash ok content h (fst (getPersisted ops m token now))
    \<and> (hash token = h \<longrightarrow> snd (getPersisted ops m token now) \<noteq> Returned (Some s))"
  proof (cases "m_store m")
    case None
    then show ?thesis using assms by (simp add: getPersisted_def)
  next
    case (Some st)
    obtain st1 r1 where r1: "op_Delete ops st token = (st1, r1)" by fastforce
    obtain st2 r2 where r2: "op_Get ops st token = (st2, r2)" by fastforce
    obtain st3 r3 where r3: "op_Delete ops st2 token = (st3, r3)" by fastforce
    have st: "ok st" "content st h = None" using dead_st [OF assms Some] by simp_all
    have st1: "ok st1" "content st1 h = None" using delete [OF st(1) r1] st(2) by (auto split: if_splits)
    have st2: "ok st2" "content st2 h = None" "\<forall>x. r2 = Inr x \<longrightarrow> x = content st (hash token)"
      using get [OF st(1) r2] st(2) by auto
    have st3: "ok st3" "content st3 h = None" using delete [OF st2(1) r3] st2(2) by (auto split: if_splits)
    show ?thesis
    proof (cases "map_of (m_sessions m) token")
      case cached: (Some session)
      then have "hash token \<noteq> h" by (rule dead_cached [OF assms])
      with cached Some r1 st1 dead_deleted [OF assms] assms show ?thesis
        by (auto simp: getPersisted_def Let_def intro: dead_store split: option.splits)
    next
      case new: None
      show ?thesis
      proof (cases "hash token = h")
        case True
        then have "r2 = Inr None \<or> (\<exists>e. r2 = Inl e)" using st2(3) st(2) by (cases r2) auto
        moreover have "dead hash ok content h (m\<lparr>m_store := Some st2\<rparr>)"
          by (rule dead_store [where ok = ok, OF assms st2(1,2)])
        ultimately show ?thesis using new Some r2 by (auto simp: getPersisted_def)
      next
        case False
        have "dead hash ok content h (m\<lparr>m_store := Some st2, m_sessions := AList.update token session (m_sessions m)\<rparr>)" for session
          using dead_put [OF dead_store [of hash ok content h m st2], of token session] assms st2 False by simp
        with False new Some r2 r3 st2 st3 assms show ?thesis
          by (auto simp: getPersisted_def Let_def intro!: dead_store split: sum.splits option.splits)
      qed
    qed
  qed
  then show "dead hash ok content h (fst (getPersisted ops m token now))"
    "hash token = h \<Longrightarrow> snd (getPersisted ops m token now) = Returned (Some s) \<Longrightarrow> False" by blast+
qed

lemma dead_Get:
  assumes "dead hash ok content h m"
  shows "dead hash ok content h (fst (mgr_Get ops m token now))"
    and "hash token = h \<Longrightarrow> snd (mgr_Get ops m token now) \<noteq> Returned (Some s)"
proof -
  show "dead hash ok content h (fst (mgr_Get ops m token now))"
    using assms dead_getPersisted(1) [OF assms, of token now] dead_Delete [OF assms, of token]
    by (auto simp: mgr_Get_def split: option.splits prod.splits outcome.splits)
  show "hash token = h \<Longrightarrow> snd (mgr_Get ops m token now) \<noteq> Returned (Some s)"
    using dead_cache [OF assms, of token] dead_getPersisted(2) [OF assms, of token now s]
    by (auto simp: mgr_Get_def)
qed

lemma dead_touchLocked:
  assumes "dead hash ok content h m"
  shows "dead hash ok content h (fst (touchLocked m token ip t2 now))"
proof -
  have "dead hash ok content h (m\<lparr>m_sessions := AList.update token s (m_sessions m)\<rparr>)"
    if "map_of (m_sessions m) token = Some session" for s session
    by (rule dead_put [OF assms dead_cached [OF assms that]])
  with assms show ?thesis by (auto simp: touchLocked_def Let_def split: option.splits)
qed

lemma dead_Touch:
  assumes "dead hash ok content h m"
  shows "dead hash ok content h (fst (mgr_Touch ops m token ip t1 t2 now))"
  using assms dead_Get(1) [OF assms, of token t1] dead_touchLocked
  by (auto simp: mgr_Touch_def split: option.splits outcome.splits prod.splits) (metis fst_conv)

lemma dead_writer:
  "dead hash ok content h m \<Longrightarrow> dead hash ok content h (fst (writerTake m))"
  "dead hash ok content h m \<Longrightarrow> dead hash ok content h (writerWrite ops m u)"
proof -
  assume m: "dead hash ok content h m"
  then show "dead hash ok content h (fst (writerTake m))"
    by (auto simp: writerTake_def split: list.splits)
  show "dead hash ok content h (writerWrite ops m u)"
  proof (cases "m_store m")
    case (Some st)
    obtain st' r where r: "op_UpdateActivity ops st (up_token u) (up_lastSeenIP u) (up_lastSeenAt u) = (st', r)"
      by fastforce
    note st = dead_st [OF m Some]
    have "ok st' \<and> content st' h = content st h" using activity [OF conjunct1 [OF st] r] st by blast
    then show ?thesis using m Some r st by (auto simp: writerWrite_def intro: dead_store)
  qed (use m in \<open>simp add: writerWrite_def\<close>)
qed

lemma dead_create:
  assumes "dead hash ok content h m" "\<And>t. g = Inr t \<Longrightarrow> hash t \<noteq> h"
  shows "dead hash ok content h (fst (mgr_create ops m s md g t1 now))"
proof (cases g)
  case (Inr token)
  obtain m1 r where c: "cleanupExpiredLocked ops m t1 = (m1, r)" by fastforce
  then have m1: "dead hash ok content h m1" using dead_cleanup [OF assms(1), of t1] by simp
  have ht: "hash token \<noteq> h" using assms(2) Inr by blast
  have put: "dead hash ok content h (m2\<lparr>m_sessions := AList.update token x (m_sessions m1)\<rparr>)"
    if "dead hash ok content h m2" "m_sessions m2 = m_sessions m1" for x m2
    using dead_put [OF that(1) ht, of x] that(2) by simp
  have saved: "ok st' \<and> content st' h = None" if "m_store m1 = Some st" "op_Save ops st token x = (st', e)" for st x st' e
  proof -
    note st = dead_st [OF m1 that(1)]
    note E = save [OF conjunct1 [OF st] that(2)]
    have "content st' h = content st h" using E ht by metis
    then show ?thesis using E st by simp
  qed
  show ?thesis
  proof (cases "m_store m1")
    case None
    then show ?thesis using Inr c m1 put [OF m1 refl]
      by (auto simp: mgr_create_def Let_def split: outcome.splits)
  next
    case (Some st)
    have "dead hash ok content h (m1\<lparr>m_store := Some st', m_sessions := AList.update token x (m_sessions m1)\<rparr>)
        \<and> dead hash ok content h (m1\<lparr>m_store := Some st'\<rparr>)"
      if "op_Save ops st token x = (st', e)" for x st' e
      using saved [OF Some that] m1 put [OF dead_store [of hash ok content h m1 st']] by auto
    then show ?thesis using Inr c m1 Some
      by (auto simp: mgr_create_def Let_def split: outcome.splits prod.splits option.splits)
  qed
qed (use assms in \<open>simp add: mgr_create_def\<close>)

lemma dead_List:
  assumes "dead hash ok content h m"
  shows "dead hash ok content h (fst (mgr_List hash ops m t1 t2))"
proof -
  obtain m1 r where c: "cleanupExpiredLocked ops m t1 = (m1, r)" by fastforce
  then have m1: "dead hash ok content h m1" using dead_cleanup [OF assms, of t1] by simp
  have "ok st' \<and> content st' h = None" if "m_store m1 = Some st" "op_List ops st t2 = (st', e)" for st st' e
    using dead_st [OF m1 that(1)] list [of st t2 st' e] that(2) by simp
  with c m1 show ?thesis
    by (auto simp: mgr_List_def intro!: dead_store split: outcome.splits option.splits prod.splits sum.splits)
qed

lemma dead_aliasLoop:
  assumes "\<forall>x \<in> set sessions. hash (fst x) \<noteq> h" "\<forall>x \<in> set rest. hash (fst x) \<noteq> h"
  shows "\<forall>x \<in> set (fst (aliasLoop hash tokenHash a p rest sessions upd)). hash (fst x) \<noteq> h"
  using assms
proof (induction rest arbitrary: sessions upd)
  case (Cons y rest)
  obtain token session where y: "y = (token, session)" by (cases y)
  let ?sessions = "AList.update token (session\<lparr>Alias := a\<rparr>) sessions"
  have "\<forall>x \<in> set ?sessions. hash (fst x) \<noteq> h"
  proof
    fix x assume "x \<in> set ?sessions"
    then have "x = (token, session\<lparr>Alias := a\<rparr>) \<or> x \<in> set sessions" using set_alist_update by fastforce
    then show "hash (fst x) \<noteq> h" using Cons.prems y by auto
  qed
  moreover have tail: "\<forall>x \<in> set rest. hash (fst x) \<noteq> h" using Cons.prems(2) by simp
  ultimately have updated: "\<forall>x \<in> set (fst (aliasLoop hash tokenHash a p rest ?sessions True)). hash (fst x) \<noteq> h"
    by (rule Cons.IH)
  have skipped: "\<forall>x \<in> set (fst (aliasLoop hash tokenHash a p rest sessions upd)). hash (fst x) \<noteq> h"
    by (rule Cons.IH [OF Cons.prems(1) tail])
  have "aliasLoop hash tokenHash a p (y # rest) sessions upd \<in>
      {aliasLoop hash tokenHash a p rest sessions upd, (sessions, False), aliasLoop hash tokenHash a p rest ?sessions True}"
    unfolding y by simp
  then consider "fst (aliasLoop hash tokenHash a p (y # rest) sessions upd) = fst (aliasLoop hash tokenHash a p rest sessions upd)"
    | "fst (aliasLoop hash tokenHash a p (y # rest) sessions upd) = sessions"
    | "fst (aliasLoop hash tokenHash a p (y # rest) sessions upd) = fst (aliasLoop hash tokenHash a p rest ?sessions True)"
    by fastforce
  then show ?case
  proof cases
    case 1
    show ?thesis unfolding 1 by (rule skipped)
  next
    case 2
    show ?thesis unfolding 2 by (rule Cons.prems(1))
  next
    case 3
    show ?thesis unfolding 3 by (rule updated)
  qed
qed simp

lemma dead_Alias:
  assumes "dead hash ok content h m"
  shows "dead hash ok content h (fst (mgr_UpdateAdminAlias hash ops m th a t1 t2))"
proof -
  obtain m1 r where c: "cleanupExpiredLocked ops m t1 = (m1, r)" by fastforce
  then have m1: "dead hash ok content h m1" using dead_cleanup [OF assms, of t1] by simp
  have kept: "ok (fst (op_UpdateAdminAlias ops st x y t2)) \<and> content (fst (op_UpdateAdminAlias ops st x y t2)) h = None"
    if "m_store m1 = Some st" for st x y
  proof -
    note st = dead_st [OF m1 that]
    from admin_alias [OF conjunct1 [OF st] surjective_pairing] st show ?thesis by metis
  qed
  have looped: "dead hash ok content h (m2\<lparr>m_sessions := fst (aliasLoop hash x y p (m_sessions m1) (m_sessions m1) upd)\<rparr>)"
    if "dead hash ok content h m2" for m2 x y p upd
    using that m1 dead_aliasLoop [of "m_sessions m1" h "m_sessions m1" x y p upd] by (simp add: dead_def)
  show ?thesis
    using c m1 assms kept looped looped [OF dead_store [where ok = ok, OF m1]]
    by (auto simp: mgr_UpdateAdminAlias_def Let_def split_beta intro!: dead_store
        split: outcome.splits option.splits sum.splits)
qed

lemma dead_DeleteByTokenHash:
  assumes "dead hash ok content h m"
  shows "dead hash ok content h (fst (mgr_DeleteByTokenHash hash ops m th t1))"
proof -
  obtain m1 r where c: "cleanupExpiredLocked ops m t1 = (m1, r)" by fastforce
  then have m1: "dead hash ok content h m1" using dead_cleanup [OF assms, of t1] by simp
  let ?m = "\<lambda>x. m1\<lparr>m_sessions := filter (\<lambda>(token, _). hash token \<noteq> x) (m_sessions m1)\<rparr>"
  have m2: "dead hash ok content h (?m x)" for x by (rule dead_sub [OF m1]) auto
  have kept: "ok st' \<and> content st' h = None"
    if "m_store m1 = Some st" "op_DeleteByTokenHash ops st x = (st', e)" for st x st' e
    using dead_st [OF m1 that(1)] delete_hash [of st x st' e] that(2) by (auto split: sum.splits)
  show ?thesis
    using c m1 assms m2 kept
    by (auto simp: mgr_DeleteByTokenHash_def Let_def intro!: dead_store
        split: outcome.splits option.splits sum.splits prod.splits)
qed

lemma dead_DeleteByRole:
  assumes "dead hash ok content h m"
  shows "dead hash ok content h (fst (mgr_DeleteByRole ops m role t1))"
proof -
  obtain m1 r where c: "cleanupExpiredLocked ops m t1 = (m1, r)" by fastforce
  then have m1: "dead hash ok content h m1" using dead_cleanup [OF assms, of t1] by simp
  let ?m = "m1\<lparr>m_sessions := filter (\<lambda>(_, session). Role session \<noteq> role) (m_sessions m1)\<rparr>"
  have m2: "dead hash ok content h ?m" by (rule dead_sub [OF m1]) auto
  have kept: "ok st' \<and> content st' h = None"
    if "m_store m1 = Some st" "op_DeleteByRole ops st role = (st', e)" for st st' e
    using dead_st [OF m1 that(1)] delete_role [of st role st' e] that(2) map_le_None by metis
  show ?thesis
    using c m1 m2 kept
    by (auto simp: mgr_DeleteByRole_def Let_def intro!: dead_store
        split: outcome.splits option.splits sum.splits prod.splits)
qed

text \<open>Nothing but creating a session under the hash brings a dead hash back.\<close>

lemma dead_call:
  assumes "dead hash ok content h m" "\<not> creates hash h c"
  shows "dead hash ok content h (session_call hash ops m c)"
proof (cases c)
  case (CallCreate s md g t1 t2)
  then have "\<And>t. g = Inr t \<Longrightarrow> hash t \<noteq> h" using assms(2) by auto
  with CallCreate dead_create [OF assms(1)] show ?thesis by simp
qed (use assms(1) dead_Get(1) dead_getPersisted(1) dead_Touch dead_touchLocked dead_writer dead_List dead_Alias dead_Delete
    dead_DeleteByTokenHash dead_DeleteByRole dead_cleanup in \<open>simp_all add: mgr_CleanupExpired_def\<close>)

lemma dead_calls:
  "dead hash ok content h m \<Longrightarrow> \<forall>c \<in> set cs. \<not> creates hash h c \<Longrightarrow>
   dead hash ok content h (session_calls hash ops m cs)"
  by (induction cs arbitrary: m) (simp_all add: dead_call)

lemma cleanup_store_ok:
  assumes "\<forall>st. m_store m = Some st \<longrightarrow> ok st"
  shows "\<forall>st. m_store (fst (cleanupExpiredLocked ops m now)) = Some st \<longrightarrow> ok st"
proof (cases "m_store m")
  case (Some st)
  obtain st' r where r: "op_DeleteExpired ops st now = (st', r)" by fastforce
  then have "ok st'" using delete_expired [OF _ r] assms Some by blast
  then show ?thesis using Some r by (simp add: cleanupExpiredLocked_def Let_def split: option.splits)
qed (simp add: cleanupExpiredLocked_def Let_def)

text \<open>A revocation by hash that returns leaves the hash dead.\<close>

lemma revoke_dead:
  assumes "\<forall>st. m_store m = Some st \<longrightarrow> ok st" "TrimSpace h \<noteq> []"
    and "mgr_DeleteByTokenHash hash ops m h t1 = (m', Returned n)"
  shows "dead hash ok content (TrimSpace h) m'"
proof -
  obtain m1 r where c: "cleanupExpiredLocked ops m t1 = (m1, r)" by fastforce
  have r: "r = Returned ()" using assms(2,3) c by (cases r) (auto simp: mgr_DeleteByTokenHash_def Let_def)
  have ok1: "\<forall>st. m_store m1 = Some st \<longrightarrow> ok st" using cleanup_store_ok [OF assms(1), of t1] c by simp
  let ?m = "m1\<lparr>m_sessions := filter (\<lambda>(token, _). hash token \<noteq> TrimSpace h) (m_sessions m1)\<rparr>"
  show ?thesis
  proof (cases "m_store m1")
    case None
    then have "m' = ?m" using assms(2,3) c r by (simp add: mgr_DeleteByTokenHash_def Let_def)
    then show ?thesis using None by (auto simp: dead_def)
  next
    case (Some st)
    obtain st' k where d: "op_DeleteByTokenHash ops st (TrimSpace h) = (st', k)" by fastforce
    then obtain j where k: "k = Inr j" and m': "m' = ?m\<lparr>m_store := Some st'\<rparr>"
      using assms(2,3) c r Some by (cases k) (auto simp: mgr_DeleteByTokenHash_def Let_def)
    have "ok st' \<and> content st' (TrimSpace h) = None" using delete_hash [OF _ d] ok1 Some k by auto
    then show ?thesis by (auto simp: m' dead_def)
  qed
qed

end

section \<open>The database keeps the laws\<close>

definition rowsOf :: "GormSessionStore \<Rightarrow> AuthSession list" where
  "rowsOf s = (case s of None \<Rightarrow> [] | Some db \<Rightarrow> db_rows db)"

definition tbl :: "AuthSession list \<Rightarrow> string \<Rightarrow> AuthSession option" where
  "tbl rows = map_of (map (\<lambda>r. (row_TokenHash r, r)) rows)"

definition gormOk :: "GormSessionStore \<Rightarrow> bool" where
  "gormOk s \<longleftrightarrow> distinct (map row_TokenHash (rowsOf s))"

definition gormContent :: "GormSessionStore \<Rightarrow> string \<Rightarrow> Session option" where
  "gormContent s h =
     (case tbl (rowsOf s) h of
        None \<Rightarrow> None
      | Some row \<Rightarrow> (case authSessionFromRow row of Inl _ \<Rightarrow> None | Inr session \<Rightarrow> Some session))"

lemma find_tbl: "find (\<lambda>r. row_TokenHash r = h) rows = tbl rows h"
  by (induction rows) (auto simp: tbl_def)

lemma tbl_map: "(\<And>r. row_TokenHash (f r) = row_TokenHash r) \<Longrightarrow> tbl (map f rows) h = map_option f (tbl rows h)"
  by (induction rows) (auto simp: tbl_def)

lemma tbl_key: "tbl rows h = Some r \<Longrightarrow> row_TokenHash r = h"
  by (induction rows) (auto simp: tbl_def split: if_splits)

lemma tbl_filter:
  assumes "distinct (map row_TokenHash rows)"
  shows "tbl (filter P rows) h = Option.bind (tbl rows h) (\<lambda>r. if P r then Some r else None)"
proof -
  have "map (\<lambda>r. (row_TokenHash r, r)) (filter P rows) =
      filter (\<lambda>x. P (snd x)) (map (\<lambda>r. (row_TokenHash r, r)) rows)"
    by (simp add: filter_map comp_def)
  moreover have "distinct (map fst (map (\<lambda>r. (row_TokenHash r, r)) rows))" using assms by (simp add: comp_def)
  ultimately show ?thesis
    using map_of_filter_distinct [of "map (\<lambda>r. (row_TokenHash r, r)) rows" "\<lambda>x. P (snd x)" h]
    unfolding tbl_def snd_conv by (simp only:)
qed

lemma tbl_None: "tbl rows h = None \<longleftrightarrow> h \<notin> set (map row_TokenHash rows)"
  by (induction rows) (auto simp: tbl_def)

lemma map_upsert: "map row_TokenHash (upsert row rows) =
  (if row_TokenHash row \<in> set (map row_TokenHash rows) then map row_TokenHash rows
   else map row_TokenHash rows @ [row_TokenHash row])"
  by (auto simp: upsert_def)

lemma tbl_upsert: "tbl (upsert row rows) h = (if h = row_TokenHash row then Some row else tbl rows h)"
proof (cases "row_TokenHash row \<in> set (map row_TokenHash rows)")
  case True
  then obtain r where r: "tbl rows (row_TokenHash row) = Some r"
    using tbl_None [of rows "row_TokenHash row"] by auto
  have "tbl (upsert row rows) h =
      map_option (\<lambda>r. if row_TokenHash r = row_TokenHash row then row else r) (tbl rows h)"
    using True tbl_map [of "\<lambda>r. if row_TokenHash r = row_TokenHash row then row else r" rows h]
    by (simp add: upsert_def)
  then show ?thesis using r tbl_key [of rows h] by (cases "tbl rows h") auto
next
  case False
  then have "tbl rows (row_TokenHash row) = None" by (simp only: tbl_None not_False_eq_True)
  with False show ?thesis by (auto simp: upsert_def tbl_def map_add_def split: option.splits)
qed

lemma statement_cases:
  assumes "statement eff s = (s', x)"
  obtains (fault) e where "x = Inl e" "rowsOf s' = rowsOf s"
  | (effect) r where "x = Inr r" "eff (rowsOf s) = (rowsOf s', r)"
  using assms
  by (auto simp: statement_def rowsOf_def Let_def split_beta split: option.splits list.splits bool.splits)

lemma onlyError_cases:
  assumes "onlyError (statement eff s) = (s', x)"
  obtains (fault) e where "x = Some e" "rowsOf s' = rowsOf s"
  | (effect) r where "x = None" "eff (rowsOf s) = (rowsOf s', r)"
proof -
  obtain y where y: "statement eff s = (s', y)"
    using assms by (cases "statement eff s") (auto simp: onlyError_def split: sum.splits)
  then show ?thesis
  proof (cases rule: statement_cases)
    case (fault e)
    then have "x = Some e" using assms y by (simp add: onlyError_def)
    then show ?thesis using fault(2) by (rule that(1))
  next
    case (effect r)
    then have "x = None" using assms y by (simp add: onlyError_def)
    then show ?thesis using effect(2) by (rule that(2))
  qed
qed

lemma rows_determine:
  "rowsOf s' = rowsOf s \<Longrightarrow> gormOk s' = gormOk s \<and> gormContent s' = gormContent s"
  by (auto simp: gormOk_def gormContent_def)

lemma gormContent_put:
  assumes "rowsOf s' = upsert row (rowsOf s)" "authSessionFromRow row = Inr session"
  shows "gormContent s' = (gormContent s)(row_TokenHash row \<mapsto> session)"
  using assms by (auto simp: gormContent_def tbl_upsert)

lemma gormContent_filter:
  assumes "gormOk s" "rowsOf s' = filter P (rowsOf s)"
  shows "gormOk s'" "gormContent s' h = (case tbl (rowsOf s) h of None \<Rightarrow> None
    | Some r \<Rightarrow> if P r then gormContent s h else None)"
  using assms by (auto simp: gormOk_def gormContent_def tbl_filter distinct_map_filter split: option.splits)

lemma gormContent_map:
  assumes "gormOk s" "rowsOf s' = map f (rowsOf s)" "\<And>r. row_TokenHash (f r) = row_TokenHash r"
  shows "gormOk s'" "tbl (rowsOf s') h = map_option f (tbl (rowsOf s) h)"
  using assms by (auto simp: gormOk_def tbl_map comp_def)

lemma gorm_save_law:
  assumes "gormOk st" "gorm_Save hash st t s = (st', r)"
  shows "gormOk st' \<and> (r = None \<longrightarrow> valid_role s \<longrightarrow> gormContent st' = (gormContent st)(hash t \<mapsto> stored s))
    \<and> (\<forall>h. h \<noteq> hash t \<longrightarrow> gormContent st' h = gormContent st h)"
proof -
  let ?row = "\<lparr>row_TokenHash = hash t, row_Role = Role s, row_Source = NormalizeSessionSource (Source s),
     row_Alias = Alias s, row_CPAAPIKeyID = CPAAPIKeyID s, row_LoginIP = LoginIP s,
     row_LastSeenIP = LastSeenIP s, row_UserAgent = UserAgent s,
     row_LastSeenAt = sessionTimePointer (LastSeenAt s), row_ExpiresAt = ExpiresAt s,
     row_CreatedAt = CreatedAt s, row_UpdatedAt = CreatedAt s\<rparr>"
  have "onlyError (statement (\<lambda>rows. (upsert ?row rows, ())) st) = (st', r)"
    using assms(2) by (simp add: gorm_Save_def)
  then show ?thesis
  proof (cases rule: onlyError_cases)
    case (fault e)
    then show ?thesis using rows_determine [OF fault(2)] assms(1) by simp
  next
    case (effect u)
    then have rows: "rowsOf st' = upsert ?row (rowsOf st)" by simp
    have "gormOk st'" using assms(1) unfolding gormOk_def rows map_upsert by auto
    moreover have "gormContent st' h = gormContent st h" if "h \<noteq> hash t" for h
      using that rows by (simp add: gormContent_def tbl_upsert)
    moreover have "authSessionFromRow ?row = Inr (stored s)" if "valid_role s"
      using that by (auto simp: authSessionFromRow_def valid_role_def stored_def sessionTimePointer_def
          NormalizeSessionSource_def RoleAdmin_def RoleAPIKeyViewer_def Let_def)
    ultimately show ?thesis using gormContent_put [OF rows] by auto
  qed
qed

lemma gorm_get_law:
  assumes "gormOk st" "gorm_Get hash st t = (st', g)"
  shows "gormOk st' \<and> gormContent st' = gormContent st \<and> (\<forall>x. g = Inr x \<longrightarrow> x = gormContent st (hash t))"
proof -
  obtain y where y: "statement (\<lambda>rows. (rows, find (\<lambda>r. row_TokenHash r = hash t) rows)) st = (st', y)"
    and g: "g = (case y of Inl e \<Rightarrow> Inl e | Inr None \<Rightarrow> Inr None
      | Inr (Some row) \<Rightarrow> (case authSessionFromRow row of Inl e \<Rightarrow> Inl e | Inr session \<Rightarrow> Inr (Some session)))"
    using assms(2) by (auto simp: gorm_Get_def split: prod.splits sum.splits option.splits)
  from y show ?thesis
  proof (cases rule: statement_cases)
    case (fault e)
    then show ?thesis using rows_determine [OF fault(2)] assms(1) g by simp
  next
    case (effect r)
    then have rows: "rowsOf st' = rowsOf st" and r: "r = tbl (rowsOf st) (hash t)" by (auto simp: find_tbl)
    have "\<forall>x. g = Inr x \<longrightarrow> x = gormContent st (hash t)"
      using g effect(1) r by (auto simp: gormContent_def split: option.splits sum.splits)
    then show ?thesis using rows_determine [OF rows] assms(1) by blast
  qed
qed

lemma gorm_list_law:
  assumes "gormOk st" "gorm_List fmt st now = (st', rs)"
  shows "gormOk st' \<and> gormContent st' = gormContent st"
proof -
  obtain y where "statement (\<lambda>rows. (rows, sort_key (\<lambda>r. (fmt (row_CreatedAt r), row_TokenHash r))
             (filter (\<lambda>r. fmt (row_ExpiresAt r) > fmt now) rows))) st = (st', y)"
    using assms(2) by (auto simp: gorm_List_def split: prod.splits sum.splits)
  then have "rowsOf st' = rowsOf st" by (cases rule: statement_cases) auto
  then show ?thesis using rows_determine assms(1) by blast
qed

lemma fromRow_activity:
  "at \<noteq> zero_time \<Longrightarrow>
   (case authSessionFromRow (r\<lparr>row_LastSeenIP := ip, row_LastSeenAt := Some at, row_UpdatedAt := u\<rparr>) of
      Inl _ \<Rightarrow> None | Inr s \<Rightarrow> Some s) =
   map_option (\<lambda>s. s\<lparr>LastSeenIP := ip, LastSeenAt := at\<rparr>)
     (case authSessionFromRow r of Inl _ \<Rightarrow> None | Inr s \<Rightarrow> Some s)"
  by (simp add: authSessionFromRow_def Let_def)

lemma fromRow_role: "authSessionFromRow r = Inr s \<Longrightarrow> Role s = row_Role r"
  by (auto simp: authSessionFromRow_def Let_def split: if_splits)

lemma fromRow_isl: "isl (authSessionFromRow r) \<longleftrightarrow> row_Role r \<noteq> RoleAdmin \<and> row_Role r \<noteq> RoleAPIKeyViewer"
  by (simp add: authSessionFromRow_def Let_def)

lemma gormContent_None:
  "gormContent s h = None \<longleftrightarrow> (case tbl (rowsOf s) h of None \<Rightarrow> True | Some r \<Rightarrow> isl (authSessionFromRow r))"
  by (auto simp: gormContent_def split: option.splits sum.splits)

lemma gormContent_map_None:
  assumes "tbl (rowsOf s') h = map_option f (tbl (rowsOf s) h)" "\<And>r. row_Role (f r) = row_Role r"
    and "gormContent s h = None"
  shows "gormContent s' h = None"
  using assms by (auto simp: gormContent_None fromRow_isl split: option.splits)

lemma gorm_activity_law:
  assumes "gormOk st" "gorm_UpdateActivity hash st t ip at = (st', r)"
  shows "gormOk st' \<and> (\<forall>h. h \<noteq> hash t \<or> gormContent st h = None \<longrightarrow> gormContent st' h = gormContent st h)
    \<and> (r = None \<and> at \<noteq> zero_time \<longrightarrow> gormContent st' (hash t) =
         map_option (\<lambda>s. s\<lparr>LastSeenIP := ip, LastSeenAt := at\<rparr>) (gormContent st (hash t)))"
proof -
  let ?f = "\<lambda>r. if row_TokenHash r = hash t
     then r\<lparr>row_LastSeenIP := ip, row_LastSeenAt := Some at, row_UpdatedAt := at\<rparr> else r"
  have "onlyError (statement (\<lambda>rows. (map ?f rows, ())) st) = (st', r)"
    using assms(2) by (simp add: gorm_UpdateActivity_def)
  then show ?thesis
  proof (cases rule: onlyError_cases)
    case (fault e)
    then show ?thesis using rows_determine [OF fault(2)] assms(1) by simp
  next
    case (effect u)
    then have rows: "rowsOf st' = map ?f (rowsOf st)" by simp
    note M = gormContent_map [OF assms(1) rows]
    have none: "gormContent st' h = None" if "gormContent st h = None" for h
      by (rule gormContent_map_None [OF M(2) _ that]) simp_all
    have other: "gormContent st' h = gormContent st h" if "h \<noteq> hash t" for h
      using that M(2) [of h] tbl_key [of "rowsOf st" h]
      by (cases "tbl (rowsOf st) h") (auto simp: gormContent_def)
    have hit: "gormContent st' (hash t) = map_option (\<lambda>s. s\<lparr>LastSeenIP := ip, LastSeenAt := at\<rparr>) (gormContent st (hash t))"
      if "at \<noteq> zero_time"
      using M(2) [of "hash t"] tbl_key [of "rowsOf st" "hash t"] fromRow_activity [OF that]
      by (cases "tbl (rowsOf st) (hash t)") (auto simp: gormContent_def)
    have "gormOk st'" by (rule M(1)) simp
    moreover have "\<forall>h. h \<noteq> hash t \<or> gormContent st h = None \<longrightarrow> gormContent st' h = gormContent st h"
      using none other by metis
    ultimately show ?thesis using hit by blast
  qed
qed

lemma gorm_alias_law:
  assumes "gormOk st" "gorm_UpdateAdminAlias st h a at = (st', n)"
  shows "gormOk st' \<and> (\<forall>h'. h' \<noteq> h \<or> gormContent st h' = None \<longrightarrow> gormContent st' h' = gormContent st h')"
proof -
  let ?hit = "\<lambda>r. row_TokenHash r = h \<and> row_Role r = RoleAdmin"
  let ?f = "\<lambda>r. if ?hit r then r\<lparr>row_Alias := a, row_UpdatedAt := at\<rparr> else r"
  have "statement (\<lambda>rows. (map ?f rows, length (filter ?hit rows))) st = (st', n)"
    using assms(2) by (simp add: gorm_UpdateAdminAlias_def Let_def)
  then show ?thesis
  proof (cases rule: statement_cases)
    case (fault e)
    then show ?thesis using rows_determine [OF fault(2)] assms(1) by simp
  next
    case (effect u)
    then have rows: "rowsOf st' = map ?f (rowsOf st)" by simp
    note M = gormContent_map [OF assms(1) rows]
    have none: "gormContent st' k = None" if "gormContent st k = None" for k
      by (rule gormContent_map_None [OF M(2) _ that]) simp_all
    have other: "gormContent st' k = gormContent st k" if "k \<noteq> h" for k
      using that M(2) [of k] tbl_key [of "rowsOf st" k]
      by (cases "tbl (rowsOf st) k") (auto simp: gormContent_def)
    have "gormOk st'" by (rule M(1)) simp
    then show ?thesis using none other by metis
  qed
qed

lemma gorm_delete_law:
  assumes "gormOk st" "gorm_Delete hash st t = (st', r)"
  shows "gormOk st' \<and> gormContent st' = (if r = None then (gormContent st)(hash t := None) else gormContent st)"
proof -
  have "onlyError (statement (\<lambda>rows. (filter (\<lambda>r. row_TokenHash r \<noteq> hash t) rows, ())) st) = (st', r)"
    using assms(2) by (simp add: gorm_Delete_def)
  then show ?thesis
  proof (cases rule: onlyError_cases)
    case (fault e)
    then show ?thesis using rows_determine [OF fault(2)] assms(1) by simp
  next
    case (effect u)
    note F = gormContent_filter [OF assms(1), of st' "\<lambda>r. row_TokenHash r \<noteq> hash t"]
    have "gormContent st' h = ((gormContent st)(hash t := None)) h" for h
      using F(2) effect(2) tbl_key [of "rowsOf st" h]
      by (cases "tbl (rowsOf st) h") (auto simp: gormContent_def)
    then show ?thesis using F(1) effect by auto
  qed
qed

lemma gorm_delete_hash_law:
  assumes "gormOk st" "gorm_DeleteByTokenHash st h = (st', n)"
  shows "gormOk st' \<and> (case n of Inr _ \<Rightarrow> gormContent st' = (gormContent st)(h := None) | Inl _ \<Rightarrow> gormContent st' = gormContent st)"
proof -
  have "statement (\<lambda>rows. (filter (\<lambda>r. row_TokenHash r \<noteq> h) rows,
                        length (filter (\<lambda>r. row_TokenHash r = h) rows))) st = (st', n)"
    using assms(2) by (simp add: gorm_DeleteByTokenHash_def)
  then show ?thesis
  proof (cases rule: statement_cases)
    case (fault e)
    then show ?thesis using rows_determine [OF fault(2)] assms(1) by simp
  next
    case (effect u)
    note F = gormContent_filter [OF assms(1), of st' "\<lambda>r. row_TokenHash r \<noteq> h"]
    have "gormContent st' k = ((gormContent st)(h := None)) k" for k
      using F(2) effect(2) tbl_key [of "rowsOf st" k]
      by (cases "tbl (rowsOf st) k") (auto simp: gormContent_def)
    then show ?thesis using F(1) effect by auto
  qed
qed

lemma gorm_delete_role_law:
  assumes "gormOk st" "gorm_DeleteByRole st role = (st', n)"
  shows "gormOk st' \<and> gormContent st' \<subseteq>\<^sub>m gormContent st
    \<and> (\<forall>k. n = Inr k \<longrightarrow> (\<forall>h s. gormContent st' h = Some s \<longrightarrow> Role s \<noteq> role))"
proof -
  have "statement (\<lambda>rows. (filter (\<lambda>r. row_Role r \<noteq> role) rows,
                        length (filter (\<lambda>r. row_Role r = role) rows))) st = (st', n)"
    using assms(2) by (simp add: gorm_DeleteByRole_def)
  then show ?thesis
  proof (cases rule: statement_cases)
    case (fault e)
    then show ?thesis using rows_determine [OF fault(2)] assms(1) by simp
  next
    case (effect u)
    note F = gormContent_filter [OF assms(1), of st' "\<lambda>r. row_Role r \<noteq> role"]
    have val: "gormContent st' h = Some s \<Longrightarrow> gormContent st h = Some s \<and> Role s \<noteq> role" for h s
      using F(2) [of h] effect(2) fromRow_role
      by (auto simp: gormContent_def split: option.splits if_splits sum.splits)
    then have "gormContent st' \<subseteq>\<^sub>m gormContent st" by (auto simp: map_le_def)
    then show ?thesis using val F(1) effect(2) by auto
  qed
qed

lemma gorm_delete_expired_law:
  assumes "gormOk st" "gorm_DeleteExpired fmt st now = (st', r)"
  shows "gormOk st' \<and> gormContent st' \<subseteq>\<^sub>m gormContent st"
proof -
  have "onlyError (statement (\<lambda>rows. (filter (\<lambda>r. \<not> fmt (row_ExpiresAt r) \<le> fmt now) rows, ())) st) = (st', r)"
    using assms(2) by (simp add: gorm_DeleteExpired_def)
  then show ?thesis
  proof (cases rule: onlyError_cases)
    case (fault e)
    then show ?thesis using rows_determine [OF fault(2)] assms(1) by simp
  next
    case (effect u)
    note F = gormContent_filter [OF assms(1), of st' "\<lambda>r. \<not> fmt (row_ExpiresAt r) \<le> fmt now"]
    have "gormContent st' h = Some s \<Longrightarrow> gormContent st h = Some s" for h s
      using F(2) [of h] effect(2) by (auto split: option.splits if_splits)
    then show ?thesis using F(1) effect(2) by (auto simp: map_le_def)
  qed
qed

interpretation gorm: session_store hash "GormSessionStoreOps hash fmt" gormOk gormContent
  for hash fmt
proof (unfold_locales, unfold GormSessionStoreOps_def SessionStoreOps.select_convs)
qed (erule (1) gorm_save_law | erule (1) gorm_get_law | erule (1) gorm_list_law | erule (1) gorm_activity_law
    | erule (1) gorm_alias_law | erule (1) gorm_delete_law | erule (1) gorm_delete_hash_law
    | erule (1) gorm_delete_role_law | erule (1) gorm_delete_expired_law)+

section \<open>Properties\<close>

text \<open>
  A session that is returned has not expired at the time of the lookup, whatever the cache
  and whatever store is behind it.
\<close>

theorem mgr_Get_unexpired:
  assumes "mgr_Get ops m token now = (m', Returned (Some s))"
  shows "now < ExpiresAt s"
  using assms
  by (auto simp: mgr_Get_def getPersisted_def Let_def
      split: if_splits option.splits prod.splits sum.splits outcome.splits)

text \<open>
  C8. Revocation is final: once a revocation by token hash has returned, no sequence of logins of
  other tokens, lookups, activity updates, late writes of the background writer, listings, alias
  changes and further revocations makes a token with that hash valid again.
\<close>

theorem revoked_stays_revoked:
  assumes "\<forall>st. m_store m = Some st \<longrightarrow> gormOk st" "TrimSpace h = h" "h \<noteq> []"
    and "mgr_DeleteByTokenHash hash (GormSessionStoreOps hash fmt) m h t1 = (m1, Returned n)"
    and "\<forall>c \<in> set calls. \<not> creates hash h c" "hash token = h"
  shows "snd (mgr_Get (GormSessionStoreOps hash fmt)
      (session_calls hash (GormSessionStoreOps hash fmt) m1 calls) token now) \<noteq> Returned (Some s)"
proof -
  have "dead hash gormOk gormContent h m1"
    using gorm.revoke_dead [OF assms(1) _ assms(4)] assms(2,3) by simp
  from gorm.dead_Get(2) [OF gorm.dead_calls [OF this assms(5)] assms(6)] show ?thesis .
qed

text \<open>A pending update implies a running writer.\<close>

definition writer_inv :: "'st SessionManager \<Rightarrow> bool" where
  "writer_inv m \<longleftrightarrow> (m_pendingActivity m \<noteq> [] \<longrightarrow> m_activityWriterRunning m)"

lemma pending_cleanup [simp]:
  "m_pendingActivity (fst (cleanupExpiredLocked ops m t)) = m_pendingActivity m"
  "m_activityWriterRunning (fst (cleanupExpiredLocked ops m t)) = m_activityWriterRunning m"
  by (auto simp: cleanupExpiredLocked_def Let_def split: option.splits prod.splits)

lemma pending_Get [simp]:
  "m_pendingActivity (fst (getPersisted ops m token t)) = m_pendingActivity m"
  "m_activityWriterRunning (fst (getPersisted ops m token t)) = m_activityWriterRunning m"
  "m_pendingActivity (fst (mgr_Get ops m token t)) = m_pendingActivity m"
  "m_activityWriterRunning (fst (mgr_Get ops m token t)) = m_activityWriterRunning m"
  by (auto simp: mgr_Get_def getPersisted_def mgr_Delete_def Let_def
      split: option.splits prod.splits sum.splits outcome.splits)

lemma writer_inv_cleanup:
  "writer_inv m \<Longrightarrow> cleanupExpiredLocked ops m t = (m1, r) \<Longrightarrow> writer_inv m1"
  using pending_cleanup [of ops m t] by (simp add: writer_inv_def)

lemma writer_inv_cleanup' [simp]: "writer_inv m \<Longrightarrow> writer_inv (fst (cleanupExpiredLocked ops m t))"
  by (rule writer_inv_cleanup [OF _ surjective_pairing])

lemma writer_inv_simps [simp]:
  "writer_inv (m\<lparr>m_sessions := x\<rparr>) = writer_inv m" "writer_inv (m\<lparr>m_store := y\<rparr>) = writer_inv m"
  by (simp_all add: writer_inv_def)

lemma writer_inv_touchLocked: "writer_inv m \<Longrightarrow> writer_inv (fst (touchLocked m token ip t2 t3))"
  by (auto simp: touchLocked_def Let_def split: option.splits) (simp_all add: writer_inv_def)

lemma writer_inv_Get:
  "writer_inv m \<Longrightarrow> writer_inv (fst (mgr_Get ops m token t))" "writer_inv m \<Longrightarrow> writer_inv (fst (getPersisted ops m token t))"
  by (simp_all add: writer_inv_def)

lemma writer_inv_Touch: "writer_inv m \<Longrightarrow> writer_inv (fst (mgr_Touch ops m token ip t1 t2 t3))"
  using writer_inv_Get(1) [of m ops token t1]
  by (cases "mgr_Get ops m token t1") (auto simp: mgr_Touch_def case_prod_beta writer_inv_touchLocked split: option.splits outcome.splits)

lemma writer_inv_call: "writer_inv m \<Longrightarrow> writer_inv (session_call hash ops m c)"
proof (cases c)
  case (CallGet token t)
  assume "writer_inv m"
  then show ?thesis using CallGet by (simp add: writer_inv_Get)
next
  case (CallGetPersisted token t)
  assume "writer_inv m"
  then show ?thesis using CallGetPersisted by (simp add: writer_inv_Get)
next
  case CallTake
  assume "writer_inv m"
  then show ?thesis using CallTake by (auto simp: writer_inv_def writerTake_def split: list.splits)
qed (auto simp: writer_inv_Touch writer_inv_touchLocked mgr_create_def mgr_List_def mgr_UpdateAdminAlias_def mgr_Delete_def
    mgr_DeleteByTokenHash_def mgr_DeleteByRole_def mgr_CleanupExpired_def writerWrite_def Let_def
    split: sum.splits prod.splits outcome.splits option.splits dest: writer_inv_cleanup)

text \<open>
  No activity update waits without a writer: in every state a manager can reach, a pending
  update implies that the background writer is running.
\<close>

theorem pending_has_writer:
  assumes "m = NewSessionManager ttl \<or> m = NewPersistentSessionManager ttl store"
    and "m_pendingActivity (session_calls hash ops m calls) \<noteq> []"
  shows "m_activityWriterRunning (session_calls hash ops m calls)"
proof -
  have "writer_inv m \<Longrightarrow> writer_inv (session_calls hash ops m calls)"
    by (induction calls arbitrary: m) (simp_all add: writer_inv_call)
  moreover have "writer_inv m"
    using assms(1) by (auto simp: writer_inv_def NewPersistentSessionManager_def NewSessionManager_def)
  ultimately show ?thesis using assms(2) by (simp add: writer_inv_def)
qed

text \<open>
  C36. A login survives a restart: the session a successful \<open>create\<close> hands out is found by the
  manager until it expires, and a fresh manager over the same database finds the same session
  from the token alone.
\<close>

theorem create_survives_restart:
  assumes "m_store m = Some st" "gormOk st" "token \<noteq> []"
    and "Role session = RoleAdmin \<and> CPAAPIKeyID session = 0 \<or> Role session = RoleAPIKeyViewer \<and> Alias session = []"
    and "mgr_create (GormSessionStoreOps hash fmt) m session md (Inr token) t1 now = (m1, Returned (Inr (token', exp)))"
    and "m_store m1 = Some (Some db)" "db_faults db = []" "t < exp"
  shows "\<exists>s. Role s = Role session \<and> LoginIP s = normalizeSessionIP (md_IP md) \<and> ExpiresAt s = exp
    \<and> token' = token \<and> exp = now + m_ttl m
    \<and> snd (mgr_Get (GormSessionStoreOps hash fmt) m1 token t) = Returned (Some s)
    \<and> snd (mgr_Get (GormSessionStoreOps hash fmt) (NewPersistentSessionManager ttl (Some db)) token t) = Returned (Some s)"
proof -
  let ?ops = "GormSessionStoreOps hash fmt"
  obtain m0 r where c: "cleanupExpiredLocked ?ops m t1 = (m0, r)" by fastforce
  have r: "r = Returned ()" using assms(5) c by (cases r) (auto simp: mgr_create_def)
  have ttl: "m_ttl m0 = m_ttl m"
    using c by (auto simp: cleanupExpiredLocked_def Let_def split: option.splits prod.splits)
  obtain st0 where st0: "m_store m0 = Some st0"
    using c assms(1) by (auto simp: cleanupExpiredLocked_def Let_def split: prod.splits option.splits)
  have "\<forall>st'. m_store m = Some st' \<longrightarrow> gormOk st'" using assms(1,2) by simp
  from gorm.cleanup_store_ok [OF this, of hash fmt t1] c st0 have ok0: "gormOk st0" by simp
  let ?md = "normalizeSessionClientMetadata md"
  let ?s = "session\<lparr>Source := NormalizeSessionSource (Source session), LoginIP := md_IP ?md,
     LastSeenIP := md_IP ?md, UserAgent := md_UserAgent ?md, LastSeenAt := now,
     ExpiresAt := now + m_ttl m, CreatedAt := now\<rparr>"
  obtain st1 e where sv: "gorm_Save hash st0 token ?s = (st1, e)" by fastforce
  then have "op_Save ?ops st0 token ?s = (st1, e)" by (simp add: GormSessionStoreOps_def)
  then have "mgr_create ?ops m session md (Inr token) t1 now =
      (case e of Some x \<Rightarrow> (m0\<lparr>m_store := Some st1\<rparr>, Returned (Inl x))
       | None \<Rightarrow> (m0\<lparr>m_store := Some st1, m_sessions := AList.update token ?s (m_sessions m0)\<rparr>,
           Returned (Inr (token, now + m_ttl m))))"
    using c r st0 ttl by (simp add: mgr_create_def Let_def t_add_def)
  then have e: "e = None" and save: "gorm_Save hash st0 token ?s = (st1, None)"
      "m1 = m0\<lparr>m_store := Some st1, m_sessions := AList.update token ?s (m_sessions m0)\<rparr>"
      "token' = token" "exp = now + m_ttl m"
    using assms(5) sv by (cases e; simp)+
  have "stored ?s = ?s"
    using assms(4) by (auto simp: stored_def NormalizeSessionSource_def RoleAdmin_def RoleAPIKeyViewer_def)
  moreover have "valid_role ?s" using assms(4) by (auto simp: valid_role_def)
  ultimately have content: "gormContent st1 (hash token) = Some ?s" "gormOk st1"
    using gorm_save_law [OF ok0 save(1)] by simp_all
  have db: "st1 = Some db" using assms(6) save(2) by simp
  obtain st2 g where g: "gorm_Get hash st1 token = (st2, g)" by fastforce
  have "\<exists>x. g = Inr x"
  proof -
    obtain row where "tbl (db_rows db) (hash token) = Some row" "authSessionFromRow row = Inr ?s"
      using content(1) db by (auto simp: gormContent_def rowsOf_def split: option.splits sum.splits)
    then show ?thesis
      using g db assms(7) by (auto simp: gorm_Get_def statement_def Let_def find_tbl)
  qed
  then have "g = Inr (Some ?s)" using gorm_get_law [OF content(2) g] content(1) by auto
  then have "snd (mgr_Get ?ops (NewPersistentSessionManager ttl (Some db)) token t) = Returned (Some ?s)"
    using g db assms(3,8) save(4)
    by (simp add: mgr_Get_def getPersisted_def NewPersistentSessionManager_def NewSessionManager_def
        GormSessionStoreOps_def)
  moreover have "snd (mgr_Get ?ops m1 token t) = Returned (Some ?s)"
    using assms(3,8) save by (simp add: mgr_Get_def update_conv')
  ultimately show ?thesis
    using save by (intro exI [of _ ?s]) (simp add: normalizeSessionClientMetadata_def)
qed

section \<open>The background writer\<close>

text \<open>
  The pending updates are keyed by their token; two tokens with updates pending have different
  hashes.
\<close>

definition pending_ok :: "(string \<Rightarrow> string) \<Rightarrow> (string \<times> sessionActivityUpdate) list \<Rightarrow> bool" where
  "pending_ok hash ps \<longleftrightarrow> distinct (map (\<lambda>x. hash (fst x)) ps)
     \<and> (\<forall>(k, u) \<in> set ps. up_token u = k \<and> up_lastSeenAt u \<noteq> zero_time)"

definition seen :: "sessionActivityUpdate \<Rightarrow> Session \<Rightarrow> Session" where
  "seen u s = s\<lparr>LastSeenIP := up_lastSeenIP u, LastSeenAt := up_lastSeenAt u\<rparr>"

lemma gorm_activity_faultless:
  assumes "gormOk (Some db)" "db_faults db = []" "at \<noteq> zero_time"
    "gorm_UpdateActivity hash (Some db) t ip at = (st', r)"
  obtains db' where "st' = Some db'" "db_faults db' = []" "gormOk st'"
    "gormContent st' = (gormContent (Some db))(hash t := map_option
       (\<lambda>s. s\<lparr>LastSeenIP := ip, LastSeenAt := at\<rparr>) (gormContent (Some db) (hash t)))"
proof -
  have r: "r = None" "\<exists>db'. st' = Some db' \<and> db_faults db' = []"
    using assms(2,4) by (auto simp: gorm_UpdateActivity_def statement_def onlyError_def Let_def)
  note L = gorm_activity_law [OF assms(1,4)]
  have "gormContent st' h = ((gormContent (Some db))(hash t := map_option
       (\<lambda>s. s\<lparr>LastSeenIP := ip, LastSeenAt := at\<rparr>) (gormContent (Some db) (hash t)))) h" for h
    using L r(1) assms(3) by (cases "h = hash t") simp_all
  then show ?thesis using r(2) L that by blast
qed

text \<open>
  The background writer always stops, with nothing pending, and a reliable database then
  holds the last activity of every session that had one pending: nothing is lost by merging the
  updates of a token.
\<close>

theorem writer_flushes:
  assumes "m_store m = Some (Some db)" "gormOk (Some db)" "db_faults db = []"
    and "pending_ok hash (m_pendingActivity m)"
  shows "\<exists>st. m_store (writePendingActivity (GormSessionStoreOps hash fmt) m) = Some st
    \<and> m_pendingActivity (writePendingActivity (GormSessionStoreOps hash fmt) m) = []
    \<and> \<not> m_activityWriterRunning (writePendingActivity (GormSessionStoreOps hash fmt) m)
    \<and> (\<forall>(k, u) \<in> set (m_pendingActivity m). gormContent st (hash k) = map_option (seen u) (gormContent (Some db) (hash k)))
    \<and> (\<forall>h. h \<notin> (\<lambda>x. hash (fst x)) ` set (m_pendingActivity m) \<longrightarrow> gormContent st h = gormContent (Some db) h)"
  using assms
proof (induction "m_pendingActivity m" arbitrary: m db)
  case Nil
  then have "writePendingActivity (GormSessionStoreOps hash fmt) m = m\<lparr>m_activityWriterRunning := False\<rparr>"
    by (simp add: writePendingActivity.simps [of _ m] writerTake_def)
  then show ?case using Nil by auto
next
  case (Cons x ps)
  let ?ops = "GormSessionStoreOps hash fmt"
  obtain k u where x: "x = (k, u)" by (cases x)
  note pend = Cons.hyps(2) [symmetric, unfolded x]
  have ps: "pending_ok hash ps" and u: "up_token u = k" "up_lastSeenAt u \<noteq> zero_time"
    and fresh: "hash k \<notin> (\<lambda>x. hash (fst x)) ` set ps"
    using Cons.prems(4) by (auto simp: pend pending_ok_def)
  have "k \<notin> fst ` set ps" using fresh by auto
  then have take: "writerTake m = (m\<lparr>m_pendingActivity := ps\<rparr>, Some u)"
    by (simp add: writerTake_def pend)
  obtain st' r where a: "gorm_UpdateActivity hash (Some db) k (up_lastSeenIP u) (up_lastSeenAt u) = (st', r)"
    by fastforce
  obtain db' where db': "st' = Some db'" "db_faults db' = []" "gormOk st'"
    and c: "gormContent st' = (gormContent (Some db))(hash k := map_option (seen u) (gormContent (Some db) (hash k)))"
    using gorm_activity_faultless [OF Cons.prems(2,3) u(2) a] unfolding seen_def by metis
  let ?m = "m\<lparr>m_pendingActivity := ps, m_store := Some st'\<rparr>"
  have step: "writePendingActivity ?ops m = writePendingActivity ?ops ?m"
    using take a Cons.prems(1) u(1)
    by (simp add: writePendingActivity.simps [of _ m] writerWrite_def GormSessionStoreOps_def)
  obtain st where IH: "m_store (writePendingActivity ?ops ?m) = Some st"
      "m_pendingActivity (writePendingActivity ?ops ?m) = []"
      "\<not> m_activityWriterRunning (writePendingActivity ?ops ?m)"
      "\<forall>(j, v) \<in> set ps. gormContent st (hash j) = map_option (seen v) (gormContent st' (hash j))"
      "\<forall>h. h \<notin> (\<lambda>x. hash (fst x)) ` set ps \<longrightarrow> gormContent st h = gormContent st' h"
    using Cons.hyps(1) [of ?m db'] db' ps by auto
  have "gormContent st (hash j) = map_option (seen v) (gormContent (Some db) (hash j))" if "(j, v) \<in> set ps" for j v
  proof -
    have "hash j \<noteq> hash k" using fresh that by force
    with IH(4) that c show ?thesis by fastforce
  qed
  moreover have "gormContent st (hash k) = map_option (seen u) (gormContent (Some db) (hash k))"
    using IH(5) fresh c by simp
  moreover have "gormContent st h = gormContent (Some db) h" if "h \<noteq> hash k" "h \<notin> (\<lambda>x. hash (fst x)) ` set ps" for h
    using IH(5) that c by simp
  ultimately show ?case using IH(1-3) step by (auto simp: pend)
qed

section \<open>Instances\<close>

definition sample_hash :: "string \<Rightarrow> string" where
  "sample_hash t = CHR ''h'' # t"

definition sample_fmt :: "gotime \<Rightarrow> string" where
  "sample_fmt t = (if t < 100 then ''0'' else ''1'')"

abbreviation sample_ops :: "GormSessionStore SessionStoreOps" where
  "sample_ops \<equiv> GormSessionStoreOps sample_hash sample_fmt"

definition sample_manager :: "GormSessionStore SessionManager" where
  "sample_manager = NewPersistentSessionManager 100 (Some \<lparr>db_rows = [], db_faults = []\<rparr>)"

definition sample_md :: SessionClientMetadata where
  "sample_md = \<lparr>md_IP = ''10.0.0.1'', md_UserAgent = ''ua''\<rparr>"

definition sample_session :: Session where
  "sample_session = emptySession\<lparr>Role := RoleAdmin, Source := SessionSourceEmbed\<rparr>"

definition sample_db :: SessionDb where
  "sample_db = \<lparr>db_rows = [\<lparr>row_TokenHash = ''htok'', row_Role = ''admin'', row_Source = ''embed'',
     row_Alias = [], row_CPAAPIKeyID = 0, row_LoginIP = ''10.0.0.1'', row_LastSeenIP = ''10.0.0.1'',
     row_UserAgent = ''ua'', row_LastSeenAt = Some 7, row_ExpiresAt = 107, row_CreatedAt = 7,
     row_UpdatedAt = 7\<rparr>], db_faults = []\<rparr>"

definition logged_in :: "GormSessionStore SessionManager" where
  "logged_in = \<lparr>m_ttl = 100, m_sessions = [(''tok'', \<lparr>Role = ''admin'', Source = ''embed'', Alias = [],
     CPAAPIKeyID = 0, LoginIP = ''10.0.0.1'', LastSeenIP = ''10.0.0.1'', UserAgent = ''ua'', LastSeenAt = 7,
     ExpiresAt = 107, CreatedAt = 7\<rparr>)], m_pendingActivity = [], m_activityWriterRunning = False,
     m_store = Some (Some sample_db)\<rparr>"

lemma sample_login:
  "mgr_create sample_ops sample_manager sample_session sample_md (Inr ''tok'') 5 7 =
   (logged_in, Returned (Inr (''tok'', 107)))"
  by code_simp

lemma sample_db_ok: "gormOk (Some sample_db)" "db_faults sample_db = []" "m_store logged_in = Some (Some sample_db)"
  by (simp_all add: gormOk_def rowsOf_def sample_db_def logged_in_def)

lemma mgr_Get_unexpired_witness:
  "\<exists>m' s. mgr_Get sample_ops logged_in ''tok'' 50 = (m', Returned (Some s)) \<and> 50 < ExpiresAt s"
proof -
  have "mgr_Get sample_ops logged_in ''tok'' 50 = (logged_in, Returned (Some (snd (hd (m_sessions logged_in)))))"
    by code_simp
  from this mgr_Get_unexpired [OF this] show ?thesis by blast
qed

lemma revoked_stays_revoked_witness:
  "snd (mgr_Get sample_ops (session_calls sample_hash sample_ops
      (fst (mgr_DeleteByTokenHash sample_hash sample_ops logged_in ''htok'' 8))
      [CallWrite \<lparr>up_token = ''tok'', up_lastSeenIP = ''10.0.0.2'', up_lastSeenAt = 9\<rparr>]) ''tok'' 10)
   \<noteq> Returned (Some sample_session)"
proof (rule revoked_stays_revoked [where m = logged_in and h = "''htok''"])
  show "mgr_DeleteByTokenHash sample_hash sample_ops logged_in ''htok'' 8 =
      (fst (mgr_DeleteByTokenHash sample_hash sample_ops logged_in ''htok'' 8), Returned 1)"
    by code_simp
  show "TrimSpace ''htok'' = ''htok''" by code_simp
qed (simp_all add: sample_db_ok sample_hash_def)

definition touched :: "GormSessionStore SessionManager" where
  "touched = fst (mgr_Touch sample_ops logged_in ''tok'' ''10.0.0.2'' 50 50 51)"

lemma touched_pending: "m_store touched = Some (Some sample_db)"
  "m_pendingActivity touched = [(''tok'', \<lparr>up_token = ''tok'', up_lastSeenIP = ''10.0.0.2'', up_lastSeenAt = 51\<rparr>)]"
  by code_simp+

lemma pending_has_writer_witness:
  "m_activityWriterRunning (session_calls sample_hash sample_ops sample_manager
     [CallCreate sample_session sample_md (Inr ''tok'') 5 7, CallTouch ''tok'' ''10.0.0.2'' 50 50 51])"
proof (rule pending_has_writer)
  show "sample_manager = NewSessionManager 100 \<or>
      sample_manager = NewPersistentSessionManager 100 (Some \<lparr>db_rows = [], db_faults = []\<rparr>)"
    by (simp add: sample_manager_def)
  show "m_pendingActivity (session_calls sample_hash sample_ops sample_manager
     [CallCreate sample_session sample_md (Inr ''tok'') 5 7, CallTouch ''tok'' ''10.0.0.2'' 50 50 51]) \<noteq> []"
    using touched_pending(2) by (simp add: sample_login touched_def)
qed

lemma create_survives_restart_witness:
  "\<exists>s. Role s = Role sample_session \<and> LoginIP s = normalizeSessionIP (md_IP sample_md) \<and> ExpiresAt s = 107
    \<and> ''tok'' = ''tok'' \<and> (107 :: int) = 7 + m_ttl sample_manager
    \<and> snd (mgr_Get sample_ops logged_in ''tok'' 60) = Returned (Some s)
    \<and> snd (mgr_Get sample_ops (NewPersistentSessionManager 5 (Some sample_db)) ''tok'' 60) = Returned (Some s)"
  by (rule create_survives_restart [where st = "Some \<lparr>db_rows = [], db_faults = []\<rparr>", OF _ _ _ _ sample_login])
     (simp_all add: sample_db_ok sample_manager_def NewPersistentSessionManager_def gormOk_def rowsOf_def
       sample_session_def emptySession_def)

lemma writer_flushes_witness:
  "\<exists>st. m_store (writePendingActivity sample_ops touched) = Some st
    \<and> m_pendingActivity (writePendingActivity sample_ops touched) = []
    \<and> \<not> m_activityWriterRunning (writePendingActivity sample_ops touched)
    \<and> (\<forall>(k, u) \<in> set (m_pendingActivity touched).
         gormContent st (sample_hash k) = map_option (seen u) (gormContent (Some sample_db) (sample_hash k)))
    \<and> (\<forall>h. h \<notin> (\<lambda>x. sample_hash (fst x)) ` set (m_pendingActivity touched) \<longrightarrow>
         gormContent st h = gormContent (Some sample_db) h)"
  by (rule writer_flushes)
     (simp_all add: touched_pending sample_db_ok pending_ok_def zero_time_def)

end
