(* ===== verification/Ingest_Control.thy ===== *)
theory Ingest_Control
  imports Prelude
begin

text \<open>
  What decides which raw messages of the usage queue reach the inbox:
  \<^verbatim>\<open>internal/providers/providers.go\<close>, the hand-written control message scanner of
  \<^verbatim>\<open>internal/poller/control_message.go\<close> and the writers of
  \<^verbatim>\<open>internal/poller/redis_inbox_writer.go\<close>. The scanner works on a string and an index, as in
  the source; the grammar it accepts is stated separately and proved equal. The JSON decoder of
  the standard library is the parameter \<open>decode\<close> of the repository writer, the next writer is the
  parameter \<open>delegate\<close> of the control-aware writer, and the calls to the observer are returned as
  a list.
\<close>

section \<open>providers.go\<close>

definition Normalize :: "string \<Rightarrow> string" where
  "Normalize provider = ToLower (TrimSpace provider)"

definition Supported :: "string \<Rightarrow> bool" where
  "Supported provider \<longleftrightarrow> Normalize provider = ''codex'' \<or> Normalize provider = ''claude''"

definition UsageProvider :: "string \<Rightarrow> string \<Rightarrow> string \<times> bool" where
  "UsageProvider provider0 executor =
     (let provider = Normalize provider0 in
      if provider \<noteq> [] then (provider, Supported provider)
      else
        (let e = Normalize executor in
         if e = ''codexexecutor'' \<or> e = ''codexwebsocketsexecutor'' \<or> e = ''codexautoexecutor''
         then (''codex'', True)
         else if e = ''claudeexecutor'' then (''claude'', True)
         else ([], False)))"

section \<open>control\_message.go\<close>

datatype redisControl = redisControlNone | redisControlSupportRefresh | redisControlRefresh

record RedisControlMessage =
  IsControl :: bool
  SupportRefresh :: bool
  Refresh :: bool

abbreviation quote :: char where
  "quote \<equiv> CHR 0x22"

definition isJSONSpace :: "char \<Rightarrow> bool" where
  "isJSONSpace c \<longleftrightarrow> c = CHR '' '' \<or> c = CHR 0x0A \<or> c = CHR 0x0D \<or> c = CHR 0x09"

function skipJSONWhitespace :: "string \<Rightarrow> nat \<Rightarrow> nat" where
  "skipJSONWhitespace raw i =
     (if i < length raw \<and> isJSONSpace (raw ! i) then skipJSONWhitespace raw (i + 1) else i)"
  by pat_completeness auto
termination
  by (relation "measure (\<lambda>(raw, i). length raw - i)") auto

declare skipJSONWhitespace.simps [simp del]

definition hasLiteralAt :: "string \<Rightarrow> nat \<Rightarrow> string \<Rightarrow> bool" where
  "hasLiteralAt raw i literal \<longleftrightarrow>
     \<not> i + length literal > length raw \<and> take (length literal) (drop i raw) = literal"

definition matchJSONStringLiteral :: "string \<Rightarrow> nat \<Rightarrow> string \<Rightarrow> nat \<times> bool" where
  "matchJSONStringLiteral raw i v =
     (if i \<ge> length raw \<or> raw ! i \<noteq> quote then (i, False)
      else
        (let start = i + 1; end' = start + length v in
         if end' \<ge> length raw then (i, False)
         else if take (end' - start) (drop start raw) \<noteq> v then (i, False)
         else if raw ! end' \<noteq> quote then (i, False)
         else (end' + 1, True)))"

definition matchControlField :: "string \<Rightarrow> nat \<Rightarrow> redisControl \<times> nat" where
  "matchControlField raw i =
     (case matchJSONStringLiteral raw i ''support_refresh'' of
        (next', True) \<Rightarrow> (redisControlSupportRefresh, next')
      | (_, False) \<Rightarrow>
          (case matchJSONStringLiteral raw i ''refresh'' of
             (next', True) \<Rightarrow> (redisControlRefresh, next')
           | (_, False) \<Rightarrow> (redisControlNone, i)))"

definition parseSingleTrueControlField :: "string \<Rightarrow> redisControl" where
  "parseSingleTrueControlField raw =
     (let i = skipJSONWhitespace raw 0 in
      if i \<ge> length raw \<or> raw ! i \<noteq> CHR ''{'' then redisControlNone
      else
        (let i = skipJSONWhitespace raw (i + 1);
             (field, next') = matchControlField raw i
         in if field = redisControlNone then redisControlNone
         else
           (let i = skipJSONWhitespace raw next' in
            if i \<ge> length raw \<or> raw ! i \<noteq> CHR '':'' then redisControlNone
            else
              (let i = skipJSONWhitespace raw (i + 1) in
               if \<not> hasLiteralAt raw i ''true'' then redisControlNone
               else
                 (let i = skipJSONWhitespace raw (i + length ''true'') in
                  if i \<ge> length raw \<or> raw ! i \<noteq> CHR ''}'' then redisControlNone
                  else
                    (let i = skipJSONWhitespace raw (i + 1) in
                     if i \<noteq> length raw then redisControlNone else field))))))"

fun Contains :: "string \<Rightarrow> string \<Rightarrow> bool" where
  "Contains [] sub = (sub = [])"
| "Contains (c # s) sub = (take (length sub) (c # s) = sub \<or> Contains s sub)"

definition requestIDKey :: string where
  "requestIDKey = quote # ''request_id'' @ [quote]"

definition ClassifyRedisControlMessage :: "string \<Rightarrow> RedisControlMessage" where
  "ClassifyRedisControlMessage raw =
     (if Contains raw requestIDKey
      then \<lparr>IsControl = False, SupportRefresh = False, Refresh = False\<rparr>
      else case parseSingleTrueControlField raw of
        redisControlSupportRefresh \<Rightarrow> \<lparr>IsControl = True, SupportRefresh = True, Refresh = False\<rparr>
      | redisControlRefresh \<Rightarrow> \<lparr>IsControl = True, SupportRefresh = True, Refresh = True\<rparr>
      | redisControlNone \<Rightarrow> \<lparr>IsControl = False, SupportRefresh = False, Refresh = False\<rparr>)"

section \<open>redis\_inbox\_writer.go\<close>

definition isIgnorableRawPayload :: "string \<Rightarrow> bool" where
  "isIgnorableRawPayload raw =
     (let i = skipJSONWhitespace raw 0 in
      if i = length raw then True
      else if \<not> hasLiteralAt raw i ''null'' then False
      else skipJSONWhitespace raw (i + length ''null'') = length raw)"

definition cloneUsagePrefix :: "string list \<Rightarrow> nat \<Rightarrow> string list" where
  "cloneUsagePrefix messages end' = take end' messages"

datatype observerCall = MarkRefreshSupported | RequestMetadataRefresh

definition observerCalls :: "bool \<Rightarrow> RedisControlMessage \<Rightarrow> observerCall list" where
  "observerCalls present control =
     (if present \<and> SupportRefresh control then [MarkRefreshSupported] else [])
   @ (if present \<and> Refresh control then [RequestMetadataRefresh] else [])"

text \<open>The loop over the batch: index, kept messages, whether filtering has started, observer calls.\<close>

function insertLoop ::
  "bool \<Rightarrow> string list \<Rightarrow> nat \<Rightarrow> string list \<Rightarrow> bool \<Rightarrow> observerCall list
   \<Rightarrow> string list \<times> bool \<times> observerCall list" where
  "insertLoop observer messages i usageMessages filtered calls =
     (if i \<ge> length messages then (usageMessages, filtered, calls)
      else
        (let message = messages ! i in
         if isIgnorableRawPayload message
         then insertLoop observer messages (i + 1)
                (if \<not> filtered then cloneUsagePrefix messages i else usageMessages) True calls
         else
           (let control = ClassifyRedisControlMessage message in
            if \<not> IsControl control
            then insertLoop observer messages (i + 1)
                   (if filtered then usageMessages @ [message] else usageMessages) filtered calls
            else insertLoop observer messages (i + 1)
                   (if \<not> filtered then cloneUsagePrefix messages i else usageMessages) True
                   (calls @ observerCalls observer control))))"
  by pat_completeness auto
termination
  by (relation "measure (\<lambda>(observer, messages, i, _). length messages - i)") auto

declare insertLoop.simps [simp del]

datatype inboxError = DelegateIsNil | WriterDatabaseNil | InboxContextErr | InboxInsertErr

text \<open>\<open>delegate\<close> gets the batch and the state of the inbox; \<open>None\<close> is a missing delegate.\<close>

definition controlAware_Insert ::
  "(string list \<Rightarrow> 'st \<Rightarrow> 'st \<times> (inboxError + nat)) option \<Rightarrow> bool \<Rightarrow> string list \<Rightarrow> 'st
   \<Rightarrow> 'st \<times> observerCall list \<times> (inboxError + nat)" where
  "controlAware_Insert delegate observer messages st =
     (case delegate of
        None \<Rightarrow> (st, [], Inl DelegateIsNil)
      | Some ins \<Rightarrow>
          if messages = [] then (st, [], Inr 0)
          else
            (let (usageMessages, filtered, calls) = insertLoop observer messages 0 [] False [] in
             if \<not> filtered then (case ins messages st of (st', r) \<Rightarrow> (st', calls, r))
             else if usageMessages = [] then (st, calls, Inr 0)
             else (case ins usageMessages st of (st', r) \<Rightarrow> (st', calls, r))))"

text \<open>
  The repository writer: \<open>decode\<close> reads provider and executor of a JSON message (\<open>None\<close> when it
  does not parse), \<open>insertRows\<close> writes rows, \<open>configured\<close> and \<open>cancelled\<close> are the two guards.
\<close>

definition supportedMessages :: "(string \<Rightarrow> (string \<times> string) option) \<Rightarrow> string list \<Rightarrow> string list" where
  "supportedMessages decode messages =
     filter (\<lambda>message. case decode message of
         Some (provider, executor) \<Rightarrow> snd (UsageProvider provider executor)
       | None \<Rightarrow> True) messages"

definition repositoryInbox_Insert ::
  "(string \<Rightarrow> (string \<times> string) option) \<Rightarrow> (string list \<Rightarrow> 'st \<Rightarrow> 'st \<times> (inboxError + nat))
   \<Rightarrow> bool \<Rightarrow> bool \<Rightarrow> string list \<Rightarrow> 'st \<Rightarrow> 'st \<times> (inboxError + nat)" where
  "repositoryInbox_Insert decode insertRows configured cancelled messages st =
     (if messages = [] then (st, Inr 0)
      else if \<not> configured then (st, Inl WriterDatabaseNil)
      else if cancelled then (st, Inl InboxContextErr)
      else insertRows (supportedMessages decode messages) st)"

section \<open>The grammar of a control message\<close>

definition blank :: "string \<Rightarrow> bool" where
  "blank s \<longleftrightarrow> (\<forall>c \<in> set s. isJSONSpace c)"

text \<open>A JSON object with one field of the given name and the value \<open>true\<close>, JSON white space anywhere.\<close>

definition controlText :: "string \<Rightarrow> string \<Rightarrow> bool" where
  "controlText name raw \<longleftrightarrow> (\<exists>w1 w2 w3 w4 w5 w6.
     blank w1 \<and> blank w2 \<and> blank w3 \<and> blank w4 \<and> blank w5 \<and> blank w6 \<and>
     raw = w1 @ CHR ''{'' # w2 @ quote # name @ quote # w3 @ CHR '':'' # w4 @ ''true'' @ w5 @ CHR ''}'' # w6)"

lemma skip_bound: "i \<le> length raw \<Longrightarrow> i \<le> skipJSONWhitespace raw i \<and> skipJSONWhitespace raw i \<le> length raw"
proof (induction raw i rule: skipJSONWhitespace.induct)
  case (1 raw i)
  then show ?case by (cases "i < length raw \<and> isJSONSpace (raw ! i)") (auto simp: skipJSONWhitespace.simps [of raw i])
qed

lemma skip_blank: "i \<le> length raw \<Longrightarrow>
  \<exists>w. blank w \<and> drop i raw = w @ drop (skipJSONWhitespace raw i) raw"
proof (induction raw i rule: skipJSONWhitespace.induct)
  case (1 raw i)
  show ?case
  proof (cases "i < length raw \<and> isJSONSpace (raw ! i)")
    case True
    then obtain w where "blank w" "drop (i + 1) raw = w @ drop (skipJSONWhitespace raw (i + 1)) raw"
      using 1 by auto
    with True show ?thesis
      by (intro exI [of _ "raw ! i # w"])
         (simp add: skipJSONWhitespace.simps [of raw i] blank_def Cons_nth_drop_Suc [symmetric])
  next
    case False
    then have "skipJSONWhitespace raw i = i" by (subst skipJSONWhitespace.simps) (simp only: if_False)
    then show ?thesis by (intro exI [of _ "[]"]) (simp add: blank_def)
  qed
qed

lemma skip_over:
  assumes "blank w" "t = [] \<or> \<not> isJSONSpace (hd t)" "raw = p @ w @ t" "i = length p"
  shows "skipJSONWhitespace raw i = length p + length w"
  using assms
proof (induction w arbitrary: p i)
  case Nil
  then have "\<not> (i < length raw \<and> isJSONSpace (raw ! i))" by (cases t) (auto simp: nth_append)
  then have "skipJSONWhitespace raw i = i" by (subst skipJSONWhitespace.simps) (simp only: if_False)
  then show ?case using Nil by simp
next
  case (Cons c w)
  have "i < length raw \<and> isJSONSpace (raw ! i)" using Cons.prems by (auto simp: nth_append blank_def)
  then have "skipJSONWhitespace raw i = skipJSONWhitespace raw (i + 1)"
    by (subst skipJSONWhitespace.simps) (simp only: if_True simp_thms)
  also have "\<dots> = length (p @ [c]) + length w"
    using Cons.prems by (intro Cons.IH) (auto simp: blank_def)
  finally show ?case by simp
qed

lemma char_at: "i < length raw \<Longrightarrow> raw ! i = c \<Longrightarrow> drop i raw = c # drop (i + 1) raw"
  by (simp add: Cons_nth_drop_Suc [symmetric])

lemma literal_at: "hasLiteralAt raw i l \<Longrightarrow> i + length l \<le> length raw \<and> drop i raw = l @ drop (i + length l) raw"
  unfolding hasLiteralAt_def by (metis append_take_drop_id drop_drop add.commute not_le)

lemma string_at:
  assumes "matchJSONStringLiteral raw i v = (j, True)"
  shows "j \<le> length raw" "drop i raw = quote # v @ quote # drop j raw"
proof -
  let ?e = "i + 1 + length v"
  have m: "i < length raw" "raw ! i = quote" "?e < length raw" "take (length v) (drop (i + 1) raw) = v"
      "raw ! ?e = quote" "j = ?e + 1"
    using assms by (auto simp: matchJSONStringLiteral_def Let_def split: if_splits)
  have "drop i raw = quote # drop (i + 1) raw" using m(1,2) by (rule char_at)
  also have "drop (i + 1) raw = v @ drop ?e raw"
    using m(4) append_take_drop_id [of "length v" "drop (i + 1) raw"] by (simp add: add.commute)
  also have "drop ?e raw = quote # drop j raw" using char_at [OF m(3,5)] m(6) by simp
  finally show "drop i raw = quote # v @ quote # drop j raw" .
  show "j \<le> length raw" using m by simp
qed

lemma string_match:
  "raw = p @ quote # v @ quote # t \<Longrightarrow> i = length p \<Longrightarrow>
   matchJSONStringLiteral raw i v = (length p + length v + 2, True)"
  by (simp add: matchJSONStringLiteral_def nth_append)

lemma string_mismatch:
  assumes "raw = p @ quote # v @ quote # t" "i = length p" "v \<noteq> u" "quote \<notin> set v" "quote \<notin> set u"
  shows "snd (matchJSONStringLiteral raw i u) = False"
proof (rule ccontr)
  assume "snd (matchJSONStringLiteral raw i u) \<noteq> False"
  then obtain j where "matchJSONStringLiteral raw i u = (j, True)"
    by (metis (full_types) prod.collapse)
  from string_at(2) [OF this] have "v @ quote # t = u @ quote # drop j raw"
    using assms(1,2) by simp
  then have "takeWhile (\<lambda>c. c \<noteq> quote) (v @ quote # t) = takeWhile (\<lambda>c. c \<noteq> quote) (u @ quote # drop j raw)"
    by (simp only:)
  moreover have "takeWhile (\<lambda>c. c \<noteq> quote) (x @ quote # y) = x" if "quote \<notin> set x" for x y
    using that by (induction x) auto
  ultimately have "v = u" using assms(4,5) by simp
  then show False using assms(3) by simp
qed

lemma control_sound:
  assumes "parseSingleTrueControlField raw = field" "field \<noteq> redisControlNone"
  shows "controlText (if field = redisControlRefresh then ''refresh'' else ''support_refresh'') raw"
proof -
  let ?sk = "skipJSONWhitespace raw"
  let ?name = "if field = redisControlRefresh then ''refresh'' else ''support_refresh''"
  define i1 where "i1 = ?sk 0"
  define i2 where "i2 = ?sk (i1 + 1)"
  obtain f i3 where f: "matchControlField raw i2 = (f, i3)" by fastforce
  define i4 where "i4 = ?sk i3"
  define i5 where "i5 = ?sk (i4 + 1)"
  define i6 where "i6 = ?sk (i5 + length ''true'')"
  define i7 where "i7 = ?sk (i6 + 1)"
  have g: "i1 < length raw" "raw ! i1 = CHR ''{''" "f = field" "i4 < length raw" "raw ! i4 = CHR '':''"
      "hasLiteralAt raw i5 ''true''" "i6 < length raw" "raw ! i6 = CHR ''}''" "i7 = length raw"
    using assms f unfolding parseSingleTrueControlField_def Let_def i7_def i6_def i5_def i4_def i2_def i1_def
    by (simp_all split: if_splits)
  have "matchJSONStringLiteral raw i2 ?name = (i3, True)"
    using f g(3) assms(2) by (auto simp: matchControlField_def split: prod.splits bool.splits if_splits)
  note m = string_at [OF this]
  note lit = literal_at [OF g(6)]
  obtain w1 where w1: "blank w1" "raw = w1 @ drop i1 raw" using skip_blank [of 0 raw] by (auto simp: i1_def)
  obtain w2 where w2: "blank w2" "drop (i1 + 1) raw = w2 @ drop i2 raw"
    using skip_blank [of "i1 + 1" raw] g(1) by (auto simp: i2_def)
  obtain w3 where w3: "blank w3" "drop i3 raw = w3 @ drop i4 raw" using skip_blank [OF m(1)] by (auto simp: i4_def)
  obtain w4 where w4: "blank w4" "drop (i4 + 1) raw = w4 @ drop i5 raw"
    using skip_blank [of "i4 + 1" raw] g(4) by (auto simp: i5_def)
  obtain w5 where w5: "blank w5" "drop (i5 + length ''true'') raw = w5 @ drop i6 raw"
    using skip_blank [of "i5 + length ''true''" raw] lit by (auto simp: i6_def)
  obtain w6 where w6: "blank w6" "drop (i6 + 1) raw = w6 @ drop i7 raw"
    using skip_blank [of "i6 + 1" raw] g(7) by (auto simp: i7_def)
  have e6: "drop i6 raw = CHR ''}'' # w6" using char_at [OF g(7,8)] w6(2) g(9) by simp
  have e5: "drop i5 raw = ''true'' @ w5 @ CHR ''}'' # w6" using lit w5(2) e6 by simp
  have e4: "drop i4 raw = CHR '':'' # w4 @ ''true'' @ w5 @ CHR ''}'' # w6"
    using char_at [OF g(4,5)] w4(2) e5 by simp
  have e2: "drop i2 raw = quote # ?name @ quote # w3 @ CHR '':'' # w4 @ ''true'' @ w5 @ CHR ''}'' # w6"
    using m(2) w3(2) e4 by (simp only:)
  have e1: "drop i1 raw = CHR ''{'' # w2 @ quote # ?name @ quote # w3 @ CHR '':'' # w4 @ ''true'' @ w5 @ CHR ''}'' # w6"
    using char_at [OF g(1,2)] w2(2) e2 by (simp only:)
  have "raw = w1 @ CHR ''{'' # w2 @ quote # ?name @ quote # w3 @ CHR '':'' # w4 @ ''true'' @ w5 @ CHR ''}'' # w6"
    using w1(2) e1 by (simp only:)
  then show ?thesis unfolding controlText_def using w1(1) w2(1) w3(1) w4(1) w5(1) w6(1) by blast
qed

lemma control_complete:
  assumes "controlText name raw" "name = ''refresh'' \<and> field = redisControlRefresh
    \<or> name = ''support_refresh'' \<and> field = redisControlSupportRefresh"
  shows "parseSingleTrueControlField raw = field"
proof -
  let ?sk = "skipJSONWhitespace raw"
  obtain w1 w2 w3 w4 w5 w6 where w: "blank w1" "blank w2" "blank w3" "blank w4" "blank w5" "blank w6"
    and raw: "raw = w1 @ CHR ''{'' # w2 @ quote # name @ quote # w3 @ CHR '':'' # w4 @ ''true'' @ w5 @ CHR ''}'' # w6"
    using assms(1) unfolding controlText_def by (elim exE conjE) (rule that)
  define p1 where "p1 = w1 @ [CHR ''{'']"
  define p2 where "p2 = p1 @ w2"
  define p3 where "p3 = p2 @ quote # name @ [quote]"
  define p4 where "p4 = p3 @ w3 @ [CHR '':'']"
  define p5 where "p5 = p4 @ w4"
  define p6 where "p6 = p5 @ ''true''"
  define p7 where "p7 = p6 @ w5 @ [CHR ''}'']"
  note ps = p7_def p6_def p5_def p4_def p3_def p2_def p1_def
  have s0: "?sk 0 = length w1"
    using skip_over [where p = "[]" and w = w1] w(1) raw by (simp add: isJSONSpace_def)
  have s1: "?sk (length p1) = length p2"
    using skip_over [where p = p1 and w = w2] w(2) raw by (simp add: isJSONSpace_def ps)
  have s3: "?sk (length p3) = length (p3 @ w3)"
    using skip_over [where p = p3 and w = w3] w(3) raw by (simp add: isJSONSpace_def ps)
  have s4: "?sk (length p4) = length p5"
    using skip_over [where p = p4 and w = w4] w(4) raw by (simp add: isJSONSpace_def ps)
  have s6: "?sk (length p6) = length (p6 @ w5)"
    using skip_over [where p = p6 and w = w5] w(5) raw by (simp add: isJSONSpace_def ps)
  have s7: "?sk (length p7) = length raw"
    using skip_over [where p = p7 and w = w6 and t = "[]"] w(6) raw by (simp add: ps)
  have rawp2: "raw = p2 @ quote # name @ quote # (w3 @ CHR '':'' # w4 @ ''true'' @ w5 @ CHR ''}'' # w6)"
    using raw by (simp add: ps)
  have "matchJSONStringLiteral raw (length p2) name = (length p3, True)"
    using string_match [OF rawp2 refl] by (simp add: p3_def)
  moreover have "snd (matchJSONStringLiteral raw (length p2) ''support_refresh'') = False" if "name = ''refresh''"
    by (rule string_mismatch [OF rawp2 refl]) (simp_all add: that)
  ultimately have f: "matchControlField raw (length p2) = (field, length p3)"
    using assms(2) by (auto simp: matchControlField_def split: prod.splits bool.splits)
  have "raw ! length w1 = CHR ''{''" "length w1 < length raw" using raw by (simp_all add: nth_append)
  moreover have "raw ! length (p3 @ w3) = CHR '':''" "length (p3 @ w3) < length raw"
    using raw by (simp_all add: ps nth_append)
  moreover have "raw = p5 @ ''true'' @ w5 @ CHR ''}'' # w6" using raw by (simp add: ps)
  then have "hasLiteralAt raw (length p5) ''true''" by (simp add: hasLiteralAt_def)
  moreover have "raw ! length (p6 @ w5) = CHR ''}''" "length (p6 @ w5) < length raw"
    using raw by (simp_all add: ps nth_append)
  moreover have "length p1 = length w1 + 1" "length p4 = length (p3 @ w3) + 1" "length p6 = length p5 + length ''true''"
    "length p7 = length (p6 @ w5) + 1" by (simp_all add: ps)
  moreover have "field \<noteq> redisControlNone" using assms(2) by auto
  ultimately show ?thesis
    using s0 s1 s3 s4 s6 s7 f by (simp add: parseSingleTrueControlField_def Let_def)
qed

text \<open>
  C38. The hand-written scanner accepts exactly the JSON objects with the single field
  \<open>support_refresh\<close> or \<open>refresh\<close> and the value \<open>true\<close>, with JSON white space anywhere and
  nothing else; everything else passes through as usage data.
\<close>

theorem control_scanner_exact:
  "parseSingleTrueControlField raw =
     (if controlText ''refresh'' raw then redisControlRefresh
      else if controlText ''support_refresh'' raw then redisControlSupportRefresh
      else redisControlNone)"
proof (cases "parseSingleTrueControlField raw")
  case redisControlNone
  then have "\<not> controlText ''refresh'' raw" "\<not> controlText ''support_refresh'' raw"
    using control_complete by fastforce+
  with redisControlNone show ?thesis by simp
next
  case redisControlSupportRefresh
  then have "controlText ''support_refresh'' raw" using control_sound [OF redisControlSupportRefresh] by simp
  moreover have "\<not> controlText ''refresh'' raw" using control_complete redisControlSupportRefresh by fastforce
  ultimately show ?thesis using redisControlSupportRefresh by simp
next
  case redisControlRefresh
  then have "controlText ''refresh'' raw" using control_sound [OF redisControlRefresh] by simp
  with redisControlRefresh show ?thesis by simp
qed

section \<open>What reaches the inbox\<close>

definition isUsage :: "string \<Rightarrow> bool" where
  "isUsage message \<longleftrightarrow> \<not> isIgnorableRawPayload message \<and> \<not> IsControl (ClassifyRedisControlMessage message)"

definition controlCalls :: "bool \<Rightarrow> string \<Rightarrow> observerCall list" where
  "controlCalls observer message =
     (if isIgnorableRawPayload message \<or> isUsage message then []
      else observerCalls observer (ClassifyRedisControlMessage message))"

lemma insertLoop_spec:
  assumes "i \<le> length messages" "filtered \<longleftrightarrow> (\<exists>m \<in> set (take i messages). \<not> isUsage m)"
    and "filtered \<Longrightarrow> usage = filter isUsage (take i messages)"
    and "calls = concat (map (controlCalls observer) (take i messages))"
  shows "insertLoop observer messages i usage filtered calls = (us, f, cs) \<Longrightarrow>
    (f \<longleftrightarrow> (\<exists>m \<in> set messages. \<not> isUsage m)) \<and> (f \<longrightarrow> us = filter isUsage messages)
    \<and> cs = concat (map (controlCalls observer) messages)"
  using assms
proof (induction observer messages i usage filtered calls rule: insertLoop.induct)
  case (1 observer messages i usage filtered calls)
  show ?case
  proof (cases "i \<ge> length messages")
    case True
    then have "take i messages = messages" by simp
    then show ?thesis using 1(4-8) True by (simp add: insertLoop.simps [of observer messages i])
  next
    case False
    let ?m = "messages ! i"
    have next_take: "take (Suc i) messages = take i messages @ [?m]"
      using False by (simp add: take_Suc_conv_app_nth)
    have unfiltered: "\<not> filtered \<Longrightarrow> filter isUsage (take i messages) = take i messages"
      using 1(6) by (auto simp: filter_id_conv)
    consider (ignored) "isIgnorableRawPayload ?m"
      | (usage) "\<not> isIgnorableRawPayload ?m" "\<not> IsControl (ClassifyRedisControlMessage ?m)"
      | (control) "\<not> isIgnorableRawPayload ?m" "IsControl (ClassifyRedisControlMessage ?m)" by blast
    then show ?thesis
    proof cases
      case ignored
      then have m: "\<not> isUsage ?m" "controlCalls observer ?m = []"
        by (simp_all add: isUsage_def controlCalls_def)
      have run: "insertLoop observer messages (i + 1)
          (if \<not> filtered then cloneUsagePrefix messages i else usage) True calls = (us, f, cs)"
        using 1(4) False ignored by (simp add: insertLoop.simps [of observer messages i])
      show ?thesis
        by (rule 1(1) [OF False refl ignored run])
           (use 1(5-8) False m unfiltered in \<open>simp_all add: next_take cloneUsagePrefix_def\<close>)
    next
      case usage
      then have m: "isUsage ?m" "controlCalls observer ?m = []"
        by (simp_all add: isUsage_def controlCalls_def)
      have run: "insertLoop observer messages (i + 1)
          (if filtered then usage @ [?m] else usage) filtered calls = (us, f, cs)"
        using 1(4) False usage by (simp add: insertLoop.simps [of observer messages i])
      show ?thesis
        by (rule 1(2) [OF False refl usage(1) refl usage(2) run])
           (use 1(5-8) False m in \<open>simp_all add: next_take\<close>)
    next
      case control
      then have m: "\<not> isUsage ?m" "controlCalls observer ?m = observerCalls observer (ClassifyRedisControlMessage ?m)"
        by (simp_all add: isUsage_def controlCalls_def)
      have run: "insertLoop observer messages (i + 1)
          (if \<not> filtered then cloneUsagePrefix messages i else usage) True
          (calls @ observerCalls observer (ClassifyRedisControlMessage ?m)) = (us, f, cs)"
        using 1(4) False control by (simp add: insertLoop.simps [of observer messages i])
      show ?thesis
        by (rule 1(3) [OF False refl control(1) refl _ run])
           (use 1(5-8) False m control unfiltered in \<open>simp_all add: next_take cloneUsagePrefix_def\<close>)
    qed
  qed
qed

text \<open>
  The control-aware writer hands exactly the usage messages of a batch, in their order, to
  the next writer (which is not called when there are none) and reports exactly the control
  messages to the observer, in their order.
\<close>

theorem controlAware_Insert_splits:
  "controlAware_Insert (Some delegate) observer messages st =
    (if filter isUsage messages = [] then (st, concat (map (controlCalls observer) messages), Inr 0)
     else case delegate (filter isUsage messages) st of
       (st', r) \<Rightarrow> (st', concat (map (controlCalls observer) messages), r))"
proof -
  obtain us f cs where run: "insertLoop observer messages 0 [] False [] = (us, f, cs)"
    by (metis prod_cases3)
  have loop: "(f \<longleftrightarrow> (\<exists>m \<in> set messages. \<not> isUsage m)) \<and> (f \<longrightarrow> us = filter isUsage messages)
      \<and> cs = concat (map (controlCalls observer) messages)"
    by (rule insertLoop_spec [OF _ _ _ _ run]) simp_all
  show ?thesis
  proof (cases f)
    case True
    then show ?thesis using loop run by (auto simp: controlAware_Insert_def)
  next
    case False
    then have "filter isUsage messages = messages" using loop by (auto simp: filter_id_conv)
    then show ?thesis using False loop run by (simp add: controlAware_Insert_def)
  qed
qed

text \<open>
  A message that the usage decoder accepts is dropped by the repository writer exactly when
  it names an unsupported provider, or names none and a foreign executor; a message that does
  not parse is kept, and kept messages keep their order.
\<close>

theorem repositoryInbox_keeps_supported:
  assumes "messages \<noteq> []"
  shows "repositoryInbox_Insert decode insertRows True False messages st =
    insertRows (filter (\<lambda>message. case decode message of None \<Rightarrow> True
      | Some (provider, executor) \<Rightarrow>
          (if Normalize provider \<noteq> [] then Normalize provider \<in> {''codex'', ''claude''}
           else Normalize executor \<in> {''codexexecutor'', ''codexwebsocketsexecutor'', ''codexautoexecutor'', ''claudeexecutor''}))
      messages) st"
proof -
  have norm: "Normalize (Normalize p) = Normalize p" for p
    by (simp add: Normalize_def TrimSpace_ToLower)
  have "snd (UsageProvider provider executor) \<longleftrightarrow>
      (if Normalize provider \<noteq> [] then Normalize provider \<in> {''codex'', ''claude''}
       else Normalize executor \<in> {''codexexecutor'', ''codexwebsocketsexecutor'', ''codexautoexecutor'', ''claudeexecutor''})"
    for provider executor
    by (simp add: UsageProvider_def Let_def Supported_def norm)
  then show ?thesis
    using assms by (simp add: repositoryInbox_Insert_def supportedMessages_def case_prod_unfold cong: option.case_cong)
qed

text \<open>A batch with one message of each kind: the decoder is a table.\<close>

theorem repositoryInbox_keeps_supported_witness:
  "repositoryInbox_Insert
     (map_of [(''a'', '' Codex '', []), (''b'', ''gemini'', ''CodexExecutor''), (''c'', [], ''ClaudeExecutor''), (''d'', [], [])])
     (\<lambda>messages st. (st @ messages, Inr (length messages))) True False [''a'', ''b'', ''c'', ''d'', ''e''] [''old'']
   = ([''old'', ''a'', ''c'', ''e''], Inr 3)"
  by (subst repositoryInbox_keeps_supported) (simp, code_simp)

end
