(* ===== verification/Ingest_Runner.thy ===== *)
theory Ingest_Runner
  imports Prelude
begin

text \<open>
  The usage ingest loop of \<^verbatim>\<open>internal/poller/redis_ingest_runner.go\<close> and its backoff,
  \<^verbatim>\<open>redis_ingest_backoff.go\<close>. Everything outside the loop (the context, the subscription, the
  backlog queue, the inbox writer, the timer) answers from a script: the list of the replies in
  the order in which the loop asks. A run ends with a value and the rest of the script, or it is
  still \<open>Waiting\<close> for a reply when the script ends, so every script, hence every finite run, is
  covered and no fuel is needed. The calls are recorded in \<open>trace\<close>. \<open>clock n\<close> is the \<open>n\<close>-th
  reading of the clock. The one-second window of a batch shows as a \<open>DeadlineExceeded\<close> reply.
\<close>

section \<open>redis\_ingest\_backoff.go\<close>

record RedisIngestBackoff =
  b_initial :: duration
  b_max :: duration
  b_next :: duration

definition NewRedisIngestBackoff :: "duration \<Rightarrow> duration \<Rightarrow> RedisIngestBackoff" where
  "NewRedisIngestBackoff initial mx = \<lparr>b_initial = initial, b_max = mx, b_next = initial\<rparr>"

definition NextDelay :: "RedisIngestBackoff \<Rightarrow> RedisIngestBackoff \<times> duration" where
  "NextDelay b =
     (let delay = b_next b;
          delay = (if delay \<le> 0 then b_initial b else delay);
          delay = (if delay \<le> 0 then Second else delay);
          next' = i64 (delay * 2);
          next' = (if b_max b > 0 \<and> next' > b_max b then b_max b else next')
      in (b\<lparr>b_next := next'\<rparr>, delay))"

definition backoff_Reset :: "RedisIngestBackoff \<Rightarrow> RedisIngestBackoff" where
  "backoff_Reset b = b\<lparr>b_next := b_initial b\<rparr>"

section \<open>The state, the replies and the trace\<close>

datatype ioError = DeadlineExceeded | Canceled | OtherError string

datatype runError =
    Io ioError | ReadBacklog ioError | FlushInbox ioError | NilSubscription
  | MissingDependencies | SyncAlreadyRunning

fun ioText :: "ioError \<Rightarrow> string" where
  "ioText DeadlineExceeded = ''context deadline exceeded''"
| "ioText Canceled = ''context canceled''"
| "ioText (OtherError s) = s"

fun errText :: "runError \<Rightarrow> string" where
  "errText (Io e) = ioText e"
| "errText (ReadBacklog e) = ''read usage backlog: '' @ ioText e"
| "errText (FlushInbox e) = ''flush usage inbox: '' @ ioText e"
| "errText NilSubscription = ''usage subscription is nil''"
| "errText MissingDependencies = ''usage subscription, backlog source, and inbox writer are required''"
| "errText SyncAlreadyRunning = ''sync already running''"

datatype reply =
    CtxErr "ioError option"
  | SubscribeReply "ioError + bool"
  | PullReply "ioError + string list"
  | ReceiveReply "ioError + string"
  | InsertReply "ioError + nat"
  | SleepReply bool

datatype event =
    Warned string
  | Subscribed
  | NotifyConnected
  | PollingRequired
  | Pulled "string list"
  | Received string
  | InsertTried string "string list" gotime bool bool
  | Slept duration
  | Closed

text \<open>\<open>InsertTried source messages receivedAt detached ok\<close>: \<open>detached\<close> is the context without cancellation.\<close>

record ingest =
  BatchSize :: int
  RetryInterval :: duration
  controlObserver :: bool
  Running :: bool
  SyncRunning :: bool
  LastStatus :: string
  LastError :: string
  LastRunAt :: gotime
  ticks :: nat
  trace :: "event list"

datatype 'a run = Waiting ingest | Return "reply list" ingest 'a

abbreviation emit :: "event \<Rightarrow> ingest \<Rightarrow> ingest" where
  "emit e r \<equiv> r\<lparr>trace := trace r @ [e]\<rparr>"

section \<open>redis\_ingest\_runner.go\<close>

definition NewRedisIngestRunner :: "int \<Rightarrow> duration \<Rightarrow> ingest" where
  "NewRedisIngestRunner batch retry =
     \<lparr>BatchSize = (if batch \<le> 0 then 10000 else batch),
      RetryInterval = (if retry \<le> 0 then Second else retry),
      controlObserver = False, Running = False, SyncRunning = False,
      LastStatus = [], LastError = [], LastRunAt = zero_time, ticks = 0, trace = []\<rparr>"

definition SetControlMessageObserver :: "bool \<Rightarrow> ingest \<Rightarrow> ingest" where
  "SetControlMessageObserver observer r = r\<lparr>controlObserver := observer\<rparr>"

definition record_state :: "(nat \<Rightarrow> gotime) \<Rightarrow> string \<Rightarrow> runError option \<Rightarrow> bool \<Rightarrow> ingest \<Rightarrow> ingest" where
  "record_state clock state err available r =
     (let previous = LastStatus r;
          r' = r\<lparr>LastStatus := state, LastRunAt := clock (ticks r), ticks := ticks r + 1,
                 SyncRunning := available,
                 LastError := (case err of None \<Rightarrow> [] | Some e \<Rightarrow> errText e)\<rparr>
      in if err \<noteq> None \<and> previous \<noteq> state then emit (Warned state) r' else r')"

definition RedisIngestSourceSubscribe :: string where
  "RedisIngestSourceSubscribe = ''redis_subscribe:usage''"

definition RedisIngestSourceRedisPull :: string where
  "RedisIngestSourceRedisPull = ''redis_pull:usage''"

text \<open>\<open>persist\<close>: the loop that holds a batch until the writer accepts it.\<close>

function persistLoop ::
  "(nat \<Rightarrow> gotime) \<Rightarrow> string \<Rightarrow> string list \<Rightarrow> gotime \<Rightarrow> RedisIngestBackoff \<Rightarrow> reply list \<Rightarrow> ingest
   \<Rightarrow> runError option run" where
  "persistLoop clock source messages receivedAt b rs r =
     (case rs of
        CtxErr c # InsertReply ins # rs1 \<Rightarrow>
          (let detached = (c \<noteq> None) in
           case ins of
             Inr _ \<Rightarrow> Return rs1 (emit (InsertTried source messages receivedAt detached True) r) None
           | Inl e \<Rightarrow>
               (let r1 = record_state clock ''inbox_write_failed'' (Some (Io e)) False
                           (emit (InsertTried source messages receivedAt detached False) r)
                in case rs1 of
                     CtxErr (Some _) # rs2 \<Rightarrow> Return rs2 r1 (Some (FlushInbox e))
                   | CtxErr None # SleepReply _ # rs3 \<Rightarrow>
                       (case NextDelay b of (b', delay) \<Rightarrow>
                          persistLoop clock source messages receivedAt b' rs3 (emit (Slept delay) r1))
                   | _ \<Rightarrow> Waiting r1))
      | _ \<Rightarrow> Waiting r)"
  by pat_completeness auto
termination
  by (relation "measure (\<lambda>(clock, source, messages, at, b, rs, r). length rs)") auto

declare persistLoop.simps [simp del]

definition persist ::
  "(nat \<Rightarrow> gotime) \<Rightarrow> string \<Rightarrow> string list \<Rightarrow> reply list \<Rightarrow> ingest \<Rightarrow> runError option run" where
  "persist clock source messages rs r =
     (if messages = [] then Return rs r None
      else persistLoop clock source messages (clock (ticks r))
             (NewRedisIngestBackoff (RetryInterval r) (30 * Second)) rs (r\<lparr>ticks := ticks r + 1\<rparr>))"

lemma persistLoop_shrinks:
  "persistLoop clock source messages at b rs r = Return rs' r' res \<Longrightarrow> length rs' < length rs"
proof (induction clock source messages at b rs r rule: persistLoop.induct)
  case (1 clock source messages at b rs r)
  show ?case
    using 1(2) 1(1) unfolding persistLoop.simps [of clock source messages at b rs r]
    by (fastforce split: list.splits reply.splits sum.splits option.splits prod.splits simp: Let_def)
qed

lemma persist_shrinks: "persist clock source messages rs r = Return rs' r' res \<Longrightarrow> length rs' \<le> length rs"
  using persistLoop_shrinks by (fastforce simp: persist_def split: if_splits)

text \<open>The first loop of \<open>consume\<close>: drain the backlog that was queued before the subscription.\<close>

function pullLoop :: "(nat \<Rightarrow> gotime) \<Rightarrow> reply list \<Rightarrow> ingest \<Rightarrow> runError option run" where
  "pullLoop clock rs r =
     (case rs of
        CtxErr (Some _) # rs1 \<Rightarrow> Return rs1 r None
      | CtxErr None # PullReply (Inl e) # rs2 \<Rightarrow> Return rs2 r (Some (ReadBacklog e))
      | CtxErr None # PullReply (Inr messages) # rs2 \<Rightarrow>
          (case persist clock RedisIngestSourceRedisPull messages rs2 (emit (Pulled messages) r) of
             Waiting r' \<Rightarrow> Waiting r'
           | Return rs3 r' (Some err) \<Rightarrow> Return rs3 r' (Some err)
           | Return rs3 r' None \<Rightarrow>
               if int (length messages) < BatchSize r' then Return rs3 r' None else pullLoop clock rs3 r')
      | _ \<Rightarrow> Waiting r)"
  by pat_completeness auto
termination
  by (relation "measure (\<lambda>(clock, rs, r). length rs)") (auto dest: persist_shrinks)

declare pullLoop.simps [simp del]

text \<open>The inner loop of a batch: up to \<open>BatchSize\<close> messages, or the error that ended the window.\<close>

function batchLoop :: "string list \<Rightarrow> reply list \<Rightarrow> ingest \<Rightarrow> (string list \<times> ioError option) run" where
  "batchLoop batch rs r =
     (if int (length batch) < BatchSize r
      then (case rs of
          ReceiveReply (Inl e) # rs1 \<Rightarrow> Return rs1 r (batch, Some e)
        | ReceiveReply (Inr message) # rs1 \<Rightarrow>
            batchLoop (batch @ [message]) rs1 (emit (Received message) r)
        | _ \<Rightarrow> Waiting r)
      else Return rs r (batch, None))"
  by pat_completeness auto
termination
  by (relation "measure (\<lambda>(batch, rs, r). length rs)") auto

declare batchLoop.simps [simp del]

lemma batchLoop_shrinks: "batchLoop batch rs r = Return rs' r' res \<Longrightarrow> length rs' \<le> length rs"
proof (induction batch rs r rule: batchLoop.induct)
  case (1 batch rs r)
  show ?case
    using 1(2) 1(1) unfolding batchLoop.simps [of batch rs r]
    by (fastforce split: if_splits list.splits reply.splits sum.splits)
qed

text \<open>The second loop of \<open>consume\<close>; the final \<open>return ctx.Err()\<close> asks the context once more.\<close>

function receiveLoop :: "(nat \<Rightarrow> gotime) \<Rightarrow> reply list \<Rightarrow> ingest \<Rightarrow> runError option run" where
  "receiveLoop clock rs r =
     (case rs of
        CtxErr (Some _) # CtxErr c # rs1 \<Rightarrow> Return rs1 r (map_option Io c)
      | CtxErr None # rs1 \<Rightarrow>
          (let r1 = record_state clock ''subscribing'' None True r in
           case rs1 of
             ReceiveReply (Inl e) # rs2 \<Rightarrow> Return rs2 r1 (Some (Io e))
           | ReceiveReply (Inr first) # rs2 \<Rightarrow>
               (case batchLoop [first] rs2 (emit (Received first) r1) of
                  Waiting r' \<Rightarrow> Waiting r'
                | Return rs3 r2 (batch, receiveErr) \<Rightarrow>
                    (case persist clock RedisIngestSourceSubscribe batch rs3 r2 of
                       Waiting r' \<Rightarrow> Waiting r'
                     | Return rs4 r3 (Some err) \<Rightarrow> Return rs4 r3 (Some err)
                     | Return rs4 r3 None \<Rightarrow>
                         (case receiveErr of
                            Some e \<Rightarrow> if e \<noteq> DeadlineExceeded then Return rs4 r3 (Some (Io e))
                                      else receiveLoop clock rs4 r3
                          | None \<Rightarrow> receiveLoop clock rs4 r3)))
           | _ \<Rightarrow> Waiting r1)
      | _ \<Rightarrow> Waiting r)"
  by pat_completeness auto
termination
  by (relation "measure (\<lambda>(clock, rs, r). length rs)") (auto dest!: persist_shrinks batchLoop_shrinks)

declare receiveLoop.simps [simp del]

definition consume :: "(nat \<Rightarrow> gotime) \<Rightarrow> reply list \<Rightarrow> ingest \<Rightarrow> runError option run" where
  "consume clock rs r =
     (case pullLoop clock rs (record_state clock ''subscribe_backfill'' None True r) of
        Waiting r' \<Rightarrow> Waiting r'
      | Return rs1 r1 (Some err) \<Rightarrow> Return rs1 r1 (Some err)
      | Return rs1 r1 None \<Rightarrow> receiveLoop clock rs1 r1)"

lemma pullLoop_shrinks: "pullLoop clock rs r = Return rs' r' res \<Longrightarrow> length rs' \<le> length rs"
proof (induction clock rs r rule: pullLoop.induct)
  case (1 clock rs r)
  show ?case
    using 1(2) 1(1) unfolding pullLoop.simps [of clock rs r]
    by (fastforce split: if_splits list.splits reply.splits sum.splits option.splits run.splits dest: persist_shrinks)
qed

lemma receiveLoop_shrinks: "receiveLoop clock rs r = Return rs' r' res \<Longrightarrow> length rs' \<le> length rs"
proof (induction clock rs r rule: receiveLoop.induct)
  case (1 clock rs r)
  show ?case
    using 1(3) 1(1,2) unfolding receiveLoop.simps [of clock rs r]
    by (fastforce split: if_splits list.splits reply.splits sum.splits option.splits run.splits prod.splits
          simp: Let_def dest!: persist_shrinks batchLoop_shrinks)
qed

lemma consume_shrinks: "consume clock rs r = Return rs' r' res \<Longrightarrow> length rs' \<le> length rs"
  by (fastforce simp: consume_def split: run.splits option.splits dest!: pullLoop_shrinks receiveLoop_shrinks)

text \<open>One connection of \<open>Run\<close>: subscribe, consume, close. The result carries the backoff.\<close>

definition connection ::
  "(nat \<Rightarrow> gotime) \<Rightarrow> RedisIngestBackoff \<Rightarrow> ioError + bool \<Rightarrow> reply list \<Rightarrow> ingest
   \<Rightarrow> (runError option \<times> RedisIngestBackoff) run" where
  "connection clock b subscribed rs r =
     (case subscribed of
        Inl e \<Rightarrow> Return rs r (Some (Io e), b)
      | Inr False \<Rightarrow> Return rs r (Some NilSubscription, b)
      | Inr True \<Rightarrow>
          (let r1 = emit Subscribed r;
               r2 = (if controlObserver r1 then emit NotifyConnected r1 else r1)
           in case consume clock rs r2 of
                Waiting r' \<Rightarrow> Waiting r'
              | Return rs' r' err \<Rightarrow> Return rs' (emit Closed r') (err, backoff_Reset b)))"

lemma connection_shrinks: "connection clock b s rs r = Return rs' r' res \<Longrightarrow> length rs' \<le> length rs"
  by (auto simp: connection_def Let_def split: sum.splits bool.splits run.splits if_splits dest!: consume_shrinks)

definition disconnected :: "(nat \<Rightarrow> gotime) \<Rightarrow> runError option \<Rightarrow> ingest \<Rightarrow> ingest" where
  "disconnected clock err r =
     (let r1 = record_state clock ''reconnecting'' err False r
      in if controlObserver r1 then emit PollingRequired r1 else r1)"

function runLoop :: "(nat \<Rightarrow> gotime) \<Rightarrow> RedisIngestBackoff \<Rightarrow> reply list \<Rightarrow> ingest \<Rightarrow> unit run" where
  "runLoop clock b rs r =
     (case rs of
        CtxErr (Some _) # rs1 \<Rightarrow> Return rs1 r ()
      | CtxErr None # rs1 \<Rightarrow>
          (let r1 = record_state clock ''connecting'' None False r in
           case rs1 of
             SubscribeReply s # rs2 \<Rightarrow>
               (case connection clock b s rs2 r1 of
                  Waiting r' \<Rightarrow> Waiting r'
                | Return rs3 r2 (err, b1) \<Rightarrow>
                    (case rs3 of
                       CtxErr (Some _) # rs4 \<Rightarrow> Return rs4 r2 ()
                     | CtxErr None # rs4 \<Rightarrow>
                         (case NextDelay b1 of (b2, delay) \<Rightarrow>
                            (let r3 = emit (Slept delay) (disconnected clock err r2) in
                             case rs4 of
                               SleepReply True # rs5 \<Rightarrow> runLoop clock b2 rs5 r3
                             | SleepReply False # rs5 \<Rightarrow> Return rs5 r3 ()
                             | _ \<Rightarrow> Waiting r3))
                     | _ \<Rightarrow> Waiting r2))
           | _ \<Rightarrow> Waiting r1)
      | _ \<Rightarrow> Waiting r)"
  by pat_completeness auto
termination
  by (relation "measure (\<lambda>(clock, b, rs, r). length rs)") (auto dest!: connection_shrinks)

declare runLoop.simps [simp del]

definition ingest_Run :: "(nat \<Rightarrow> gotime) \<Rightarrow> bool \<Rightarrow> reply list \<Rightarrow> ingest \<Rightarrow> runError option run" where
  "ingest_Run clock configured rs r =
     (if \<not> configured then Return rs r (Some MissingDependencies)
      else if Running r then Return rs r (Some SyncAlreadyRunning)
      else case runLoop clock (NewRedisIngestBackoff (RetryInterval r) (30 * Second)) rs (r\<lparr>Running := True\<rparr>) of
             Waiting r' \<Rightarrow> Waiting r'
           | Return rs' r' _ \<Rightarrow> Return rs' (r'\<lparr>Running := False, SyncRunning := False\<rparr>) None)"

section \<open>The delays\<close>

lemma NextDelay_positive:
  assumes "0 < b_next b" "b_next b \<le> b_max b" "2 * b_max b \<le> MaxInt64"
  shows "NextDelay b = (b\<lparr>b_next := min (2 * b_next b) (b_max b)\<rparr>, b_next b)"
proof -
  have "i64 (b_next b * 2) = 2 * b_next b"
    using assms by (simp add: i64_def MaxInt64_def)
  then show ?thesis using assms by (simp add: NextDelay_def Let_def min_def)
qed

primrec delaysFrom :: "nat \<Rightarrow> RedisIngestBackoff \<Rightarrow> duration list" where
  "delaysFrom 0 b = []"
| "delaysFrom (Suc n) b = (case NextDelay b of (b', d) \<Rightarrow> d # delaysFrom n b')"

lemma delaysFrom_doubling:
  assumes "0 < initial" "initial \<le> mx" "2 * mx \<le> MaxInt64" "b_max b = mx" "b_next b = min (initial * 2 ^ k) mx"
  shows "delaysFrom n b = map (\<lambda>j. min (initial * 2 ^ (k + j)) mx) [0..<n]"
  using assms(4,5)
proof (induction n arbitrary: b k)
  case (Suc n)
  let ?b = "b\<lparr>b_next := min (2 * b_next b) (b_max b)\<rparr>"
  have "0 < b_next b" using assms(1,2) Suc.prems by simp
  then have step: "NextDelay b = (?b, b_next b)"
    using Suc.prems assms(3) by (intro NextDelay_positive) auto
  have "b_next ?b = min (initial * 2 ^ (k + 1)) mx"
    using Suc.prems assms(1,2) by (simp add: min_def)
  then have "delaysFrom n ?b = map (\<lambda>j. min (initial * 2 ^ (k + 1 + j)) mx) [0..<n]"
    using Suc.prems by (intro Suc.IH) simp_all
  moreover have "[0..<Suc n] = 0 # map Suc [0..<n]" by (simp add: upt_conv_Cons map_Suc_upt del: upt_Suc)
  ultimately show ?case using Suc.prems step by (simp add: o_def del: upt_Suc)
qed simp

text \<open>
  Consecutive failures wait for the initial delay doubled each time, never longer than the
  maximum, and a reset starts again from the initial delay.
\<close>

theorem backoff_doubles:
  assumes "0 < initial" "initial \<le> mx" "2 * mx \<le> MaxInt64"
  shows "delaysFrom n (NewRedisIngestBackoff initial mx) = map (\<lambda>j. min (initial * 2 ^ j) mx) [0..<n]
    \<and> backoff_Reset (((fst \<circ> NextDelay) ^^ m) (NewRedisIngestBackoff initial mx)) = NewRedisIngestBackoff initial mx"
proof
  show "delaysFrom n (NewRedisIngestBackoff initial mx) = map (\<lambda>j. min (initial * 2 ^ j) mx) [0..<n]"
    using assms delaysFrom_doubling [of initial mx "NewRedisIngestBackoff initial mx" 0 n]
    by (simp add: NewRedisIngestBackoff_def)
  have "b_initial (((fst \<circ> NextDelay) ^^ m) b) = b_initial b \<and> b_max (((fst \<circ> NextDelay) ^^ m) b) = b_max b" for b
    by (induction m) (simp_all add: NextDelay_def Let_def)
  then show "backoff_Reset (((fst \<circ> NextDelay) ^^ m) (NewRedisIngestBackoff initial mx)) = NewRedisIngestBackoff initial mx"
    by (simp add: backoff_Reset_def NewRedisIngestBackoff_def)
qed

theorem backoff_doubles_witness:
  "delaysFrom 7 (NewRedisIngestBackoff Second (30 * Second))
     = map (\<lambda>s. s * Second) [1, 2, 4, 8, 16, 30, 30]"
  using backoff_doubles [of Second "30 * Second" 7 0]
  by (simp add: Second_def MaxInt64_def upt_rec)

section \<open>What a run has consumed and what the inbox has accepted\<close>

fun final :: "'a run \<Rightarrow> ingest" where
  "final (Waiting r) = r"
| "final (Return _ r _) = r"

fun consumedBy :: "event \<Rightarrow> string list" where
  "consumedBy (Pulled messages) = messages"
| "consumedBy (Received message) = [message]"
| "consumedBy _ = []"

fun acceptedBy :: "event \<Rightarrow> string list" where
  "acceptedBy (InsertTried _ messages _ _ True) = messages"
| "acceptedBy _ = []"

fun sleptBy :: "event \<Rightarrow> duration list" where
  "sleptBy (Slept d) = [d]"
| "sleptBy _ = []"

fun isInsert :: "event \<Rightarrow> bool" where
  "isInsert (InsertTried _ _ _ _ _) = True"
| "isInsert _ = False"

definition consumed :: "event list \<Rightarrow> string list" where
  "consumed tr = concat (map consumedBy tr)"

definition accepted :: "event list \<Rightarrow> string list" where
  "accepted tr = concat (map acceptedBy tr)"

definition slept :: "event list \<Rightarrow> duration list" where
  "slept tr = concat (map sleptBy tr)"

lemmas ledger_defs = consumed_def accepted_def slept_def

lemma record_state_trace: "\<exists>w. trace (record_state clock state err av r) = trace r @ w
    \<and> (w = [] \<or> w = [Warned state])"
  by (simp add: record_state_def Let_def)

lemma record_state_frame [simp]:
  "BatchSize (record_state clock state err av r) = BatchSize r"
  "RetryInterval (record_state clock state err av r) = RetryInterval r"
  "controlObserver (record_state clock state err av r) = controlObserver r"
  "Running (record_state clock state err av r) = Running r"
  "consumed (trace (record_state clock state err av r)) = consumed (trace r)"
  "accepted (trace (record_state clock state err av r)) = accepted (trace r)"
  "slept (trace (record_state clock state err av r)) = slept (trace r)"
  "filter isInsert (trace (record_state clock state err av r)) = filter isInsert (trace r)"
  by (simp_all add: record_state_def Let_def ledger_defs)

lemma emit_ledger [simp]:
  "consumed (tr @ [e]) = consumed tr @ consumedBy e"
  "accepted (tr @ [e]) = accepted tr @ acceptedBy e"
  "slept (tr @ [e]) = slept tr @ sleptBy e"
  by (simp_all add: ledger_defs)

fun persisted :: "runError option run \<Rightarrow> bool" where
  "persisted (Return _ _ None) = True"
| "persisted _ = False"

section \<open>Persisting one batch\<close>

abbreviation insertFailed ::
  "(nat \<Rightarrow> gotime) \<Rightarrow> string \<Rightarrow> string list \<Rightarrow> gotime \<Rightarrow> bool \<Rightarrow> ioError \<Rightarrow> ingest \<Rightarrow> ingest" where
  "insertFailed clock source messages at d e r \<equiv>
     record_state clock ''inbox_write_failed'' (Some (Io e)) False (emit (InsertTried source messages at d False) r)"

text \<open>The four ways an iteration of the loop ends, as an induction rule on its runs.\<close>

lemma persistLoop_induct [case_names wait accept flush stuck retry]:
  assumes wait: "\<And>b rs r. P b rs r (Waiting r)"
    and accept: "\<And>b c n rs r. P b (CtxErr c # InsertReply (Inr n) # rs) r
        (Return rs (emit (InsertTried source messages at (c \<noteq> None) True) r) None)"
    and flush: "\<And>b c e x rs r. P b (CtxErr c # InsertReply (Inl e) # CtxErr (Some x) # rs) r
        (Return rs (insertFailed clock source messages at (c \<noteq> None) e r) (Some (FlushInbox e)))"
    and stuck: "\<And>b c e rs r. P b (CtxErr c # InsertReply (Inl e) # rs) r
        (Waiting (insertFailed clock source messages at (c \<noteq> None) e r))"
    and retry: "\<And>b b' delay c e k rs r out. NextDelay b = (b', delay) \<Longrightarrow>
        P b' rs (emit (Slept delay) (insertFailed clock source messages at (c \<noteq> None) e r)) out \<Longrightarrow>
        P b (CtxErr c # InsertReply (Inl e) # CtxErr None # SleepReply k # rs) r out"
  shows "P b rs r (persistLoop clock source messages at b rs r)"
proof (induction "length rs" arbitrary: b rs r rule: less_induct)
  case less
  let ?out = "persistLoop clock source messages at b rs r"
  note unfold = persistLoop.simps [of clock source messages at b rs r]
  have other: "?out = Waiting r" if "\<forall>c ins rs1. rs \<noteq> CtxErr c # InsertReply ins # rs1"
    using that unfolding unfold by (auto split: list.splits reply.splits)
  consider (a) c n rs1 where "rs = CtxErr c # InsertReply (Inr n) # rs1"
    | (f) c e rs1 where "rs = CtxErr c # InsertReply (Inl e) # rs1"
    | (w) "?out = Waiting r"
    using other by (metis sum.exhaust)
  then show ?case
  proof cases
    case a
    then have "?out = Return rs1 (emit (InsertTried source messages at (c \<noteq> None) True) r) None"
      unfolding unfold by simp
    then show ?thesis using accept a by metis
  next
    case f
    let ?r1 = "insertFailed clock source messages at (c \<noteq> None) e r"
    have "?out = Waiting ?r1"
      if "\<forall>x rs2. rs1 \<noteq> CtxErr (Some x) # rs2" "\<forall>k rs3. rs1 \<noteq> CtxErr None # SleepReply k # rs3"
      using that unfolding unfold unfolding f by (auto simp: Let_def split: list.splits reply.splits option.splits)
    then consider (x) x rs2 where "rs1 = CtxErr (Some x) # rs2"
      | (s) k rs3 where "rs1 = CtxErr None # SleepReply k # rs3"
      | (n) "?out = Waiting ?r1"
      by blast
    then show ?thesis
    proof cases
      case x
      then have "?out = Return rs2 ?r1 (Some (FlushInbox e))" unfolding unfold unfolding f x by (simp add: Let_def)
      then show ?thesis using flush f x by metis
    next
      case s
      obtain b' delay where nd: "NextDelay b = (b', delay)" by fastforce
      have "?out = persistLoop clock source messages at b' rs3 (emit (Slept delay) ?r1)"
        unfolding unfold unfolding f s by (simp add: Let_def nd)
      then show ?thesis using retry [OF nd less] f s by simp
    qed (use stuck f in simp)
  qed (use wait in simp)
qed

definition holdsBatch :: "string \<Rightarrow> string list \<Rightarrow> gotime \<Rightarrow> RedisIngestBackoff \<Rightarrow> bool \<Rightarrow> event list \<Rightarrow> bool" where
  "holdsBatch source messages at b ok new \<longleftrightarrow>
     consumed new = [] \<and> accepted new = (if ok then messages else []) \<and>
     (\<forall>e \<in> set new. isInsert e \<longrightarrow> (\<exists>d k. e = InsertTried source messages at d k)) \<and>
     slept new = delaysFrom (length (slept new)) b"

lemma insertFailed_trace:
  "\<exists>w. trace (insertFailed clock source messages at d e r) = trace r @ InsertTried source messages at d False # w
     \<and> (w = [] \<or> w = [Warned ''inbox_write_failed''])"
  using record_state_trace [of clock "''inbox_write_failed''" "Some (Io e)" False
      "emit (InsertTried source messages at d False) r"] by auto

lemma holdsBatch_failed:
  assumes "w = [] \<or> w = [Warned state]"
  shows "holdsBatch source messages at b False (InsertTried source messages at d False # w)"
  using assms by (auto simp: holdsBatch_def ledger_defs)

lemma holdsBatch_retry:
  assumes "NextDelay b = (b', delay)" "w = [] \<or> w = [Warned state]" "holdsBatch source messages at b' ok new"
  shows "holdsBatch source messages at b ok (InsertTried source messages at d False # w @ Slept delay # new)"
  using assms by (auto simp: holdsBatch_def ledger_defs)

lemma persistLoop_holds:
  "\<exists>new. trace (final (persistLoop clock source messages at b rs r)) = trace r @ new
     \<and> holdsBatch source messages at b (persisted (persistLoop clock source messages at b rs r)) new"
proof (induction rule: persistLoop_induct)
  case (wait b rs r)
  then show ?case by (intro exI [of _ "[]"]) (simp add: holdsBatch_def ledger_defs)
next
  case (accept b c n rs r)
  then show ?case
    by (intro exI [of _ "[InsertTried source messages at (c \<noteq> None) True]"]) (auto simp: holdsBatch_def ledger_defs)
next
  case (flush b c e x rs r)
  show ?case using insertFailed_trace holdsBatch_failed by simp blast
next
  case (stuck b c e rs r)
  show ?case using insertFailed_trace holdsBatch_failed by simp blast
next
  case (retry b b' delay c e k rs r out)
  let ?r1 = "insertFailed clock source messages at (c \<noteq> None) e r"
  obtain w where w: "trace ?r1 = trace r @ InsertTried source messages at (c \<noteq> None) False # w"
      "w = [] \<or> w = [Warned ''inbox_write_failed'']"
    using insertFailed_trace by blast
  obtain new where new: "trace (final out) = trace (emit (Slept delay) ?r1) @ new"
      "holdsBatch source messages at b' (persisted out) new"
    using retry.IH by blast
  have "trace (final out) = trace r @ (InsertTried source messages at (c \<noteq> None) False # w @ Slept delay # new)"
    using w(1) new(1) by simp
  then show ?case using holdsBatch_retry [OF retry.hyps w(2) new(2)] by blast
qed

text \<open>
  C40. While a batch that is not empty is being persisted nothing else is read from the queue or the
  subscription; every attempt carries the same source, messages and receive time; the batch is accepted
  once when the loop returns without an error and not at all otherwise; the waits between the attempts
  are the retry interval (positive and at most 30 seconds) doubled each time, at most 30 seconds.
\<close>

theorem persist_holds_batch:
  assumes "messages \<noteq> []" "0 < RetryInterval r" "RetryInterval r \<le> 30 * Second"
  shows "\<exists>new. trace (final (persist clock source messages rs r)) = trace r @ new \<and>
    consumed new = [] \<and>
    (\<forall>e \<in> set new. isInsert e \<longrightarrow> (\<exists>d k. e = InsertTried source messages (clock (ticks r)) d k)) \<and>
    accepted new = (if persisted (persist clock source messages rs r) then messages else []) \<and>
    slept new = map (\<lambda>j. min (RetryInterval r * 2 ^ j) (30 * Second)) [0..<length (slept new)]"
proof -
  let ?b = "NewRedisIngestBackoff (RetryInterval r) (30 * Second)"
  have "delaysFrom n ?b = map (\<lambda>j. min (RetryInterval r * 2 ^ j) (30 * Second)) [0..<n]" for n
    using delaysFrom_doubling [of "RetryInterval r" "30 * Second" ?b 0 n] assms(2,3)
    by (simp add: NewRedisIngestBackoff_def MaxInt64_def Second_def)
  then show ?thesis
    using persistLoop_holds [of clock source messages "clock (ticks r)" ?b rs "r\<lparr>ticks := ticks r + 1\<rparr>"] assms(1)
    by (simp add: persist_def holdsBatch_def) metis
qed

text \<open>Two failed writes, then a third one after the shutdown has begun.\<close>

abbreviation retryScript :: "reply list" where
  "retryScript \<equiv> [CtxErr None, InsertReply (Inl (OtherError ''busy'')), CtxErr None, SleepReply True,
     CtxErr None, InsertReply (Inl (OtherError ''busy'')), CtxErr None, SleepReply False,
     CtxErr (Some Canceled), InsertReply (Inr 1)]"

theorem persist_holds_batch_witness:
  "\<exists>new. trace (final (persist (\<lambda>n. int n) ''q'' [''m''] retryScript (NewRedisIngestRunner 0 0))) = [] @ new \<and>
     consumed new = [] \<and> accepted new = [''m''] \<and> slept new = [Second, 2 * Second]"
proof -
  let ?r = "NewRedisIngestRunner 0 0" and ?clock = "\<lambda>n. int n"
  let ?out = "persist ?clock ''q'' [''m''] retryScript ?r"
  have p: "persisted ?out" by code_simp
  have s: "length (slept (trace (final ?out))) = 2" by code_simp
  have r: "trace ?r = []" "RetryInterval ?r = Second" by (simp_all add: NewRedisIngestRunner_def)
  have "[''m''] \<noteq> []" "0 < RetryInterval ?r" "RetryInterval ?r \<le> 30 * Second" by (simp_all add: r Second_def)
  from persist_holds_batch [OF this, of ?clock "''q''" retryScript]
  obtain new where new: "trace (final ?out) = trace ?r @ new" "consumed new = []"
      "accepted new = (if persisted ?out then [''m''] else [])"
      "slept new = map (\<lambda>j. min (RetryInterval ?r * 2 ^ j) (30 * Second)) [0..<length (slept new)]" by blast
  have "length (slept new) = 2" using s new(1) r(1) by simp
  then have "slept new = [Second, 2 * Second]" using new(4) r(2) by (simp add: upt_rec Second_def)
  then show ?thesis using new(1-3) p r(1) by (intro exI [of _ new]) (simp only: append_Nil if_True simp_thms)
qed

text \<open>
  The write that is under way when the shutdown begins is the only attempt on its batch: if
  the cancelled context makes it fail, the batch is given up with an error and the write without
  cancellation, which the loop has for exactly this case, is not tried.
\<close>

theorem persist_cancel_in_flight:
  assumes "messages \<noteq> []"
  shows "\<exists>r' w. persist clock source messages
      [CtxErr None, InsertReply (Inl Canceled), CtxErr (Some Canceled), InsertReply (Inr n)] r
      = Return [InsertReply (Inr n)] r' (Some (FlushInbox Canceled))
    \<and> trace r' = trace r @ InsertTried source messages (clock (ticks r)) False False # w
    \<and> (w = [] \<or> w = [Warned ''inbox_write_failed''])"
  using assms by (auto simp: persist_def persistLoop.simps record_state_def Let_def)

theorem persist_cancel_in_flight_witness:
  "\<exists>r' w. persist (\<lambda>n. int n) ''q'' [''m'']
      [CtxErr None, InsertReply (Inl Canceled), CtxErr (Some Canceled), InsertReply (Inr 1)] (NewRedisIngestRunner 0 0)
      = Return [InsertReply (Inr 1)] r' (Some (FlushInbox Canceled))
    \<and> trace r' = InsertTried ''q'' [''m''] 0 False False # w"
  using persist_cancel_in_flight [of "[''m'']" "\<lambda>n. int n" "''q''" 1 "NewRedisIngestRunner 0 0"]
  by (auto simp: NewRedisIngestRunner_def)

section \<open>No message is lost or duplicated\<close>

definition ledger :: "ingest \<Rightarrow> string list \<Rightarrow> bool" where
  "ledger r held \<longleftrightarrow> consumed (trace r) = accepted (trace r) @ held"

definition lastInsert :: "event list \<Rightarrow> event option" where
  "lastInsert tr = (if filter isInsert tr = [] then None else Some (last (filter isInsert tr)))"

text \<open>The batch \<open>held\<close> is the one batch that is missing, and the last attempt to store it failed.\<close>

definition lost :: "ingest \<Rightarrow> string list \<Rightarrow> bool" where
  "lost r held \<longleftrightarrow> ledger r held \<and> (\<exists>source at d. lastInsert (trace r) = Some (InsertTried source held at d False))"

fun flushFailed :: "runError option \<Rightarrow> bool" where
  "flushFailed (Some (FlushInbox _)) = True"
| "flushFailed _ = False"

definition cancelSeen :: "reply list \<Rightarrow> bool" where
  "cancelSeen rs \<longleftrightarrow> (\<exists>x. CtxErr (Some x) \<in> set rs)"

definition conserves :: "reply list \<Rightarrow> runError option run \<Rightarrow> bool" where
  "conserves rs out \<longleftrightarrow> (case out of
       Waiting r' \<Rightarrow> \<exists>held. ledger r' held
     | Return rs' r' res \<Rightarrow> \<exists>pre. rs = pre @ rs' \<and>
         (if flushFailed res then cancelSeen pre \<and> (\<exists>held. lost r' held) else ledger r' []))"

lemma conserves_append: "conserves rs out \<Longrightarrow> conserves (pre @ rs) out"
proof (cases out)
  case (Return rs' r' res)
  assume "conserves rs out"
  then obtain p where "rs = p @ rs'"
      "if flushFailed res then cancelSeen p \<and> (\<exists>held. lost r' held) else ledger r' []"
    by (auto simp: conserves_def Return)
  then show ?thesis
    by (auto simp: conserves_def cancelSeen_def Return intro!: exI [of _ "pre @ p"])
qed (simp add: conserves_def)

lemma ledger_simps [simp]:
  "ledger (record_state clock state err av r) held = ledger r held"
  "ledger (r\<lparr>ticks := k\<rparr>) held = ledger r held"
  "ledger (r\<lparr>Running := v\<rparr>) held = ledger r held"
  "ledger (r\<lparr>Running := v, SyncRunning := v'\<rparr>) held = ledger r held"
  by (simp_all add: ledger_def)

lemma ledger_emit:
  "ledger (emit (Pulled messages) r) (held @ messages) \<longleftrightarrow> ledger r held"
  "ledger (emit (Received message) r) (held @ [message]) \<longleftrightarrow> ledger r held"
  "ledger (emit (InsertTried source held at d True) r) [] \<longleftrightarrow> ledger r held"
  "ledger (emit (InsertTried source messages at d False) r) held \<longleftrightarrow> ledger r held"
  "acceptedBy e = [] \<Longrightarrow> consumedBy e = [] \<Longrightarrow> ledger (emit e r) held \<longleftrightarrow> ledger r held"
  by (auto simp: ledger_def)

lemma lastInsert_snoc: "lastInsert (tr @ [e]) = (if isInsert e then Some e else lastInsert tr)"
  by (simp add: lastInsert_def)

lemma lastInsert_record: "lastInsert (trace (record_state clock state err av r)) = lastInsert (trace r)"
  by (simp add: lastInsert_def)

lemma insertFailed_lost: "ledger r held \<Longrightarrow> lost (insertFailed clock source held at d e r) held"
  by (simp add: lost_def ledger_emit lastInsert_record lastInsert_snoc)

lemma persistLoop_conserves:
  "ledger r messages \<Longrightarrow> conserves rs (persistLoop clock source messages at b rs r)"
proof (induction rule: persistLoop_induct)
  case (accept b c n rs r)
  then show ?case
    by (auto simp: conserves_def ledger_emit intro!: exI [of _ "[CtxErr c, InsertReply (Inr n)]"])
next
  case (flush b c e x rs r)
  then show ?case using insertFailed_lost [of r messages clock e source at "c \<noteq> None"]
    by (auto simp: conserves_def cancelSeen_def intro!: exI [of _ "[CtxErr c, InsertReply (Inl e), CtxErr (Some x)]"])
next
  case (retry b b' delay c e k rs r out)
  then have "conserves rs out" by (simp add: ledger_emit)
  from conserves_append [OF this, of "[CtxErr c, InsertReply (Inl e), CtxErr None, SleepReply k]"]
  show ?case by simp
qed (auto simp: conserves_def ledger_emit)

lemma persist_conserves: "ledger r messages \<Longrightarrow> conserves rs (persist clock source messages rs r)"
  by (cases "messages = []") (simp_all add: persist_def persistLoop_conserves, simp add: conserves_def)

lemma batchLoop_ledger:
  assumes "ledger r batch"
  shows "(\<exists>held. ledger (final (batchLoop batch rs r)) held) \<and>
    (\<forall>rs' r' batch' err. batchLoop batch rs r = Return rs' r' (batch', err) \<longrightarrow>
       (\<exists>pre. rs = pre @ rs') \<and> ledger r' batch')"
  using assms
proof (induction batch rs r rule: batchLoop.induct)
  case (1 batch rs r)
  note unfold = batchLoop.simps [of batch rs r]
  consider (m) message rs1 where "int (length batch) < BatchSize r" "rs = ReceiveReply (Inr message) # rs1"
    | (o) "\<not> (int (length batch) < BatchSize r \<and> (\<exists>message rs1. rs = ReceiveReply (Inr message) # rs1))" by blast
  then show ?case
  proof cases
    case m
    have "batchLoop batch rs r = batchLoop (batch @ [message]) rs1 (emit (Received message) r)"
      unfolding unfold using m by simp
    moreover have "ledger (emit (Received message) r) (batch @ [message])" using 1(2) by (simp add: ledger_emit)
    ultimately show ?thesis using 1(1) [OF m(1,2) refl refl] m(2) by (metis append_Cons)
  next
    case o
    then have "(\<exists>rs' e. batchLoop batch rs r = Return rs' r (batch, e) \<and> (\<exists>pre. rs = pre @ rs')) \<or> batchLoop batch rs r = Waiting r"
      unfolding unfold by (auto split: list.splits reply.splits sum.splits)
    then show ?thesis using 1(2) by auto
  qed
qed

text \<open>What follows a \<open>persist\<close> that returned: the rest of the loop, or the error.\<close>

lemma conserves_bind:
  assumes "conserves rs out" "\<And>r'. out = Waiting r' \<Longrightarrow> out' = Waiting r'"
    and "\<And>rs' r' e. out = Return rs' r' (Some e) \<Longrightarrow> out' = Return rs' r' (Some e)"
    and "\<And>rs' r'. out = Return rs' r' None \<Longrightarrow> ledger r' [] \<Longrightarrow> conserves rs' out'"
  shows "conserves rs out'"
proof (cases out)
  case (Return rs' r' res)
  show ?thesis
  proof (cases res)
    case None
    obtain pre where "rs = pre @ rs'" "ledger r' []" using assms(1) by (auto simp: conserves_def Return None)
    then show ?thesis using assms(4) Return None conserves_append by blast
  qed (use assms(1,3) Return in simp)
qed (use assms(1,2) in simp)

lemma pullLoop_conserves: "ledger r [] \<Longrightarrow> conserves rs (pullLoop clock rs r)"
proof (induction clock rs r rule: pullLoop.induct)
  case (1 clock rs r)
  note unfold = pullLoop.simps [of clock rs r]
  show ?case
  proof (cases "\<exists>messages rs2. rs = CtxErr None # PullReply (Inr messages) # rs2")
    case True
    then obtain messages rs2 where rs: "rs = CtxErr None # PullReply (Inr messages) # rs2" by blast
    let ?p = "persist clock RedisIngestSourceRedisPull messages rs2 (emit (Pulled messages) r)"
    have led: "ledger (emit (Pulled messages) r) messages"
      using ledger_emit(1) [where held = "[]"] 1(2) by simp
    have step: "pullLoop clock rs r = (case ?p of
        Waiting r' \<Rightarrow> Waiting r'
      | Return rs3 r' (Some err) \<Rightarrow> Return rs3 r' (Some err)
      | Return rs3 r' None \<Rightarrow>
          if int (length messages) < BatchSize r' then Return rs3 r' None else pullLoop clock rs3 r')"
      unfolding unfold unfolding rs by simp
    have "conserves rs2 (pullLoop clock rs r)"
    proof (rule conserves_bind [OF persist_conserves [OF led, of rs2 clock RedisIngestSourceRedisPull]])
      fix rs' r' assume out: "?p = Return rs' r' None" and "ledger r' []"
      then show "conserves rs' (pullLoop clock rs r)"
        using 1(1) [OF rs refl refl refl refl refl out refl] unfolding step out by (simp add: conserves_def)
    qed (simp_all add: step)
    then show ?thesis using conserves_append [of rs2 _ "[CtxErr None, PullReply (Inr messages)]"] rs by simp
  next
    case False
    then have "pullLoop clock rs r = Waiting r \<or> (\<exists>pre rs' res. pullLoop clock rs r = Return rs' r res \<and> rs = pre @ rs' \<and> \<not> flushFailed res)"
      unfolding unfold by (auto split: list.splits reply.splits option.splits sum.splits)
    then show ?thesis using 1(2) by (auto simp: conserves_def)
  qed
qed

lemma flushFailed_Io [simp]: "\<not> flushFailed (map_option Io c)"
  by (cases c) simp_all

lemma conserves_here: "ledger r [] \<Longrightarrow> \<not> flushFailed res \<Longrightarrow> conserves rs (Return rs r res)"
  by (simp add: conserves_def)

lemma receiveLoop_conserves: "ledger r [] \<Longrightarrow> conserves rs (receiveLoop clock rs r)"
proof (induction "length rs" arbitrary: rs r rule: less_induct)
  case less
  note unfold = receiveLoop.simps [of clock rs r]
  let ?r1 = "record_state clock ''subscribing'' None True r"
  show ?case
  proof (cases "\<exists>first rs2. rs = CtxErr None # ReceiveReply (Inr first) # rs2")
    case True
    then obtain first rs2 where rs: "rs = CtxErr None # ReceiveReply (Inr first) # rs2" by blast
    let ?r2 = "emit (Received first) ?r1"
    have "ledger ?r2 ([] @ [first])" using less.prems unfolding ledger_emit by simp
    then have led: "ledger ?r2 [first]" by simp
    note batch = batchLoop_ledger [OF led, of rs2]
    show ?thesis
    proof (cases "batchLoop [first] rs2 ?r2")
      case (Waiting r')
      then have "receiveLoop clock rs r = Waiting r'" unfolding unfold unfolding rs by (simp add: Let_def)
      then show ?thesis using batch Waiting by (simp add: conserves_def)
    next
      case (Return rs3 r3 res)
      obtain batch err where res: "res = (batch, err)" by fastforce
      obtain pre where pre: "rs2 = pre @ rs3" and led3: "ledger r3 batch" using batch Return res by blast
      let ?p = "persist clock RedisIngestSourceSubscribe batch rs3 r3"
      have step: "receiveLoop clock rs r = (case ?p of
          Waiting r' \<Rightarrow> Waiting r'
        | Return rs4 r4 (Some err) \<Rightarrow> Return rs4 r4 (Some err)
        | Return rs4 r4 None \<Rightarrow>
            (case err of
               Some e \<Rightarrow> if e \<noteq> DeadlineExceeded then Return rs4 r4 (Some (Io e)) else receiveLoop clock rs4 r4
             | None \<Rightarrow> receiveLoop clock rs4 r4))"
        unfolding unfold unfolding rs using Return res by (simp add: Let_def)
      have "conserves rs3 (receiveLoop clock rs r)"
      proof (rule conserves_bind [OF persist_conserves [OF led3, of rs3 clock RedisIngestSourceSubscribe]])
        fix rs' r' assume out: "?p = Return rs' r' None" and led': "ledger r' []"
        have "length rs' < length rs" using persist_shrinks [OF out] rs pre by simp
        then have "conserves rs' (receiveLoop clock rs' r')" using less.hyps led' by blast
        then show "conserves rs' (receiveLoop clock rs r)"
          unfolding step out using led' by (auto simp: conserves_here split: option.splits)
      qed (simp_all add: step)
      then show ?thesis
        using conserves_append [of rs3 _ "[CtxErr None, ReceiveReply (Inr first)] @ pre"] rs pre by simp
    qed
  next
    case False
    then have "receiveLoop clock rs r \<in> {Waiting r, Waiting ?r1} \<or>
        (\<exists>pre rs' r' res. receiveLoop clock rs r = Return rs' r' res \<and> r' \<in> {r, ?r1} \<and> rs = pre @ rs' \<and> \<not> flushFailed res)"
      unfolding unfold by (auto simp: Let_def split: list.splits reply.splits option.splits sum.splits)
    then show ?thesis using less.prems by (auto simp: conserves_def) (rule exI [of _ "[]"], simp)
  qed
qed

lemma consume_conserves: 
  assumes "ledger r []"
  shows "conserves rs (consume clock rs r)"
proof -
  let ?r1 = "record_state clock ''subscribe_backfill'' None True r"
  have "conserves rs (pullLoop clock rs ?r1)" using assms by (simp add: pullLoop_conserves)
  then show ?thesis
    by (rule conserves_bind) (simp_all add: consume_def receiveLoop_conserves)
qed

section \<open>The whole run\<close>

text \<open>A context that is done stays done.\<close>

fun ctxStays :: "reply list \<Rightarrow> bool" where
  "ctxStays [] = True"
| "ctxStays (CtxErr (Some _) # rs) = (CtxErr None \<notin> set rs \<and> ctxStays rs)"
| "ctxStays (_ # rs) = ctxStays rs"

lemma ctxStays_append: "ctxStays (pre @ rs) \<Longrightarrow> ctxStays rs \<and> (cancelSeen pre \<longrightarrow> CtxErr None \<notin> set rs)"
  by (induction pre rule: ctxStays.induct) (auto simp: cancelSeen_def)

text \<open>
  A connection either leaves nothing behind, or it lost the batch of a failed flush after the
  context was done; the rest of the script is a suffix of the script it started with.
\<close>

lemma connection_conserves:
  assumes "ledger r []"
  shows "(case connection clock b s rs r of
      Waiting r' \<Rightarrow> \<exists>held. ledger r' held
    | Return rs' r' _ \<Rightarrow> \<exists>pre. rs = pre @ rs' \<and> (ledger r' [] \<or> cancelSeen pre \<and> (\<exists>held. lost r' held)))"
proof -
  let ?r2 = "if controlObserver r then emit NotifyConnected (emit Subscribed r) else emit Subscribed r"
  have "ledger ?r2 []" using assms by (simp add: ledger_def ledger_defs)
  from consume_conserves [OF this, of rs clock] assms show ?thesis
    by (auto simp: connection_def conserves_def Let_def ledger_emit lost_def lastInsert_snoc
        split: sum.splits bool.splits run.splits if_splits)
qed

lemma connection_waiting: "connection clock b s rs r = Waiting r' \<Longrightarrow> ledger r [] \<Longrightarrow> \<exists>held. ledger r' held"
  using connection_conserves [where clock = clock and b = b and s = s and rs = rs and r = r] by simp

lemma connection_returns:
  "connection clock b s rs r = Return rs' r' res \<Longrightarrow> ledger r [] \<Longrightarrow>
   \<exists>pre. rs = pre @ rs' \<and> (ledger r' [] \<or> cancelSeen pre \<and> (\<exists>held. lost r' held))"
  using connection_conserves [where clock = clock and b = b and s = s and rs = rs and r = r] by simp

text \<open>One iteration of the outer loop, as an induction rule on its runs.\<close>

lemma runLoop_induct [case_names wait stop connecting waiting closed sleeping asleep again]:
  assumes wait: "\<And>b rs r. P b rs r (Waiting r)"
    and stop: "\<And>b x rs r. P b (CtxErr (Some x) # rs) r (Return rs r ())"
    and connecting: "\<And>b rs r. P b (CtxErr None # rs) r (Waiting (record_state clock ''connecting'' None False r))"
    and waiting: "\<And>b s rs r r'. connection clock b s rs (record_state clock ''connecting'' None False r) = Waiting r' \<Longrightarrow>
        P b (CtxErr None # SubscribeReply s # rs) r (Waiting r')"
    and closed: "\<And>b s rs r rs' r' e b' x rs''. connection clock b s rs (record_state clock ''connecting'' None False r)
          = Return rs' r' (e, b') \<Longrightarrow> rs' = CtxErr (Some x) # rs'' \<Longrightarrow>
        P b (CtxErr None # SubscribeReply s # rs) r (Return rs'' r' ())"
    and sleeping: "\<And>b s rs r rs' r' e b'. connection clock b s rs (record_state clock ''connecting'' None False r)
          = Return rs' r' (e, b') \<Longrightarrow>
        P b (CtxErr None # SubscribeReply s # rs) r (Waiting r')"
    and asleep: "\<And>b s rs r rs' r' e b' b'' d rs'' out. connection clock b s rs (record_state clock ''connecting'' None False r)
          = Return rs' r' (e, b') \<Longrightarrow> rs' = CtxErr None # rs'' \<Longrightarrow> NextDelay b' = (b'', d) \<Longrightarrow>
          out = Waiting (emit (Slept d) (disconnected clock e r')) \<or>
            (\<exists>tl. rs'' = SleepReply False # tl \<and> out = Return tl (emit (Slept d) (disconnected clock e r')) ()) \<Longrightarrow>
        P b (CtxErr None # SubscribeReply s # rs) r out"
    and again: "\<And>b s rs r rs' r' e b' b'' d rs'' out. connection clock b s rs (record_state clock ''connecting'' None False r)
          = Return rs' r' (e, b') \<Longrightarrow> rs' = CtxErr None # SleepReply True # rs'' \<Longrightarrow> NextDelay b' = (b'', d) \<Longrightarrow>
          P b'' rs'' (emit (Slept d) (disconnected clock e r')) out \<Longrightarrow>
        P b (CtxErr None # SubscribeReply s # rs) r out"
  shows "P b rs r (runLoop clock b rs r)"
proof (induction "length rs" arbitrary: b rs r rule: less_induct)
  case less
  note unfold = runLoop.simps [of clock b rs r]
  let ?out = "runLoop clock b rs r" and ?r1 = "record_state clock ''connecting'' None False r"
  consider (s) s rs2 where "rs = CtxErr None # SubscribeReply s # rs2"
    | (o) "\<forall>s rs2. rs \<noteq> CtxErr None # SubscribeReply s # rs2" by blast
  then show ?case
  proof cases
    case o
    then show ?thesis unfolding unfold using wait stop connecting
      by (auto simp: Let_def split: list.splits reply.splits option.splits)
  next
    case s
    show ?thesis
    proof (cases "connection clock b s rs2 ?r1")
      case (Waiting r')
      then have "?out = Waiting r'" unfolding unfold unfolding s by (simp add: Let_def)
      then show ?thesis using waiting [OF Waiting] s by simp
    next
      case (Return rs3 r2 res)
      obtain e b1 where res: "res = (e, b1)" by fastforce
      obtain b2 d where nd: "NextDelay b1 = (b2, d)" by fastforce
      note conn = Return [unfolded res]
      let ?r3 = "emit (Slept d) (disconnected clock e r2)"
      have step: "?out = (case rs3 of
            CtxErr (Some _) # rs4 \<Rightarrow> Return rs4 r2 ()
          | CtxErr None # rs4 \<Rightarrow> (case rs4 of
                SleepReply True # rs5 \<Rightarrow> runLoop clock b2 rs5 ?r3
              | SleepReply False # rs5 \<Rightarrow> Return rs5 ?r3 ()
              | _ \<Rightarrow> Waiting ?r3)
          | _ \<Rightarrow> Waiting r2)"
        unfolding unfold unfolding s using Return res nd
        by (simp add: Let_def split: list.splits reply.splits option.splits)
      show ?thesis
      proof (cases "\<exists>rs5. rs3 = CtxErr None # SleepReply True # rs5")
        case True
        then obtain rs5 where rs3: "rs3 = CtxErr None # SleepReply True # rs5" by blast
        have "length rs5 < length rs" using connection_shrinks [OF conn] rs3 s by simp
        from less [OF this] show ?thesis using again [OF conn rs3 nd] step rs3 s by simp
      next
        case False
        then show ?thesis unfolding step unfolding s
          using closed [OF conn] sleeping [OF conn] asleep [OF conn _ nd]
          by (auto split: list.splits reply.splits option.splits bool.splits)
      qed
    qed
  qed
qed

lemma disconnected_ledger [simp]: "ledger (disconnected clock err r) held = ledger r held"
  by (simp add: disconnected_def Let_def ledger_emit)

definition stopSeen :: "reply list \<Rightarrow> bool" where
  "stopSeen rs \<longleftrightarrow> cancelSeen rs \<or> SleepReply False \<in> set rs"

lemma stopSeen_append: "stopSeen rs \<Longrightarrow> stopSeen (pre @ rs)"
  by (auto simp: stopSeen_def cancelSeen_def)

lemma stopSeen_here [simp]: "stopSeen (CtxErr (Some x) # rs)" "stopSeen (SleepReply False # rs)"
  by (auto simp: stopSeen_def cancelSeen_def)

lemma stopSeen_Cons: "stopSeen rs \<Longrightarrow> stopSeen (x # rs)"
  using stopSeen_append [of rs "[x]"] by simp

lemma runLoop_conserves:
  "ctxStays rs \<Longrightarrow> ledger r [] \<Longrightarrow>
   (case runLoop clock b rs r of
      Waiting r' \<Rightarrow> \<exists>held. ledger r' held
    | Return rs' r' _ \<Rightarrow> stopSeen rs \<and> (ledger r' [] \<or> (\<exists>held. lost r' held)))"
proof (induction rule: runLoop_induct)
  case (waiting b s rs r r')
  then show ?case using connection_waiting [OF waiting.hyps] by simp
next
  case (closed b s rs r rs' r' e b' x rs'')
  then show ?case using connection_returns [OF closed.hyps(1)] by (auto simp: stopSeen_def cancelSeen_def)
next
  case (sleeping b s rs r rs' r' e b')
  then show ?case using connection_returns [OF sleeping.hyps] by (auto simp: lost_def)
next
  case (asleep b s rs r rs' r' e b' b'' d rs'' out)
  obtain pre where pre: "rs = pre @ rs'" "ledger r' [] \<or> cancelSeen pre"
    using connection_returns [OF asleep.hyps(1)] asleep.prems(2) by auto
  then have "\<not> cancelSeen pre" using ctxStays_append [of pre rs'] asleep.hyps(2) asleep.prems(1) by auto
  then show ?case using asleep.hyps(2,4) pre
    by (auto simp: ledger_emit stopSeen_def) (rule exI [of _ "[]"], simp add: ledger_emit)
next
  case (again b s rs r rs' r' e b' b'' d rs'' out)
  obtain pre where pre: "rs = pre @ rs'" "ledger r' [] \<or> cancelSeen pre"
    using connection_returns [OF again.hyps(1)] again.prems(2) by auto
  then have "ctxStays rs'" "\<not> cancelSeen pre" using ctxStays_append [of pre rs'] again.hyps(2) again.prems(1) by auto
  then show ?case using again.IH again.hyps(2) pre
    by (auto simp: ledger_emit intro!: stopSeen_Cons stopSeen_append split: run.splits)
qed (auto simp: ledger_emit)

text \<open>
  C3. Whatever the queue, the subscription, the inbox and the clock answer, and however often the
  runner reconnects: the messages the inbox accepted are a prefix of the messages taken from the
  queue and the subscription, in their order and each once. When the run returns, they are all of
  them, or the one missing batch is the one whose last write failed at the shutdown.
\<close>

theorem ingest_Run_conserves:
  assumes "ctxStays rs" "trace r = []"
  shows "case ingest_Run clock configured rs r of
      Waiting r' \<Rightarrow> \<exists>held. consumed (trace r') = accepted (trace r') @ held
    | Return _ r' _ \<Rightarrow> consumed (trace r') = accepted (trace r') \<or>
        (\<exists>held source at d. consumed (trace r') = accepted (trace r') @ held \<and>
           lastInsert (trace r') = Some (InsertTried source held at d False))"
proof -
  let ?b = "NewRedisIngestBackoff (RetryInterval r) (30 * Second)"
  have start: "ledger r []" using assms(2) by (simp add: ledger_def ledger_defs)
  then have "ledger (r\<lparr>Running := True\<rparr>) []" by simp
  note run = runLoop_conserves [OF assms(1) this, of clock ?b]
  show ?thesis
  proof (cases "configured \<and> \<not> Running r")
    case True
    with run show ?thesis
      by (cases "runLoop clock ?b rs (r\<lparr>Running := True\<rparr>)") (auto simp: ingest_Run_def ledger_def lost_def)
  next
    case False
    then show ?thesis using start by (auto simp: ingest_Run_def ledger_def)
  qed
qed

text \<open>
  A run with one subscription: a backlog of one message, then two live messages in one window,
  stored at the second attempt, then the shutdown.
\<close>

abbreviation sessionScript :: "reply list" where
  "sessionScript \<equiv> [CtxErr None, SubscribeReply (Inr True), CtxErr None, PullReply (Inr [''a'']), CtxErr None,
     InsertReply (Inr 1), CtxErr None, ReceiveReply (Inr ''b''), ReceiveReply (Inr ''c''), ReceiveReply (Inl DeadlineExceeded),
     CtxErr None, InsertReply (Inl (OtherError ''busy'')), CtxErr None, SleepReply True, CtxErr None, InsertReply (Inr 2),
     CtxErr (Some Canceled), CtxErr (Some Canceled), CtxErr (Some Canceled)]"

theorem ingest_Run_conserves_witness:
  "accepted (trace (final (ingest_Run int True sessionScript (NewRedisIngestRunner 0 0)))) = [''a'', ''b'', ''c'']
   \<and> consumed (trace (final (ingest_Run int True sessionScript (NewRedisIngestRunner 0 0)))) = [''a'', ''b'', ''c'']"
proof -
  let ?out = "ingest_Run int True sessionScript (NewRedisIngestRunner 0 0)"
  have returned: "case ?out of Return rs r res \<Rightarrow> rs = [] \<and> res = None | Waiting _ \<Rightarrow> False" by code_simp
  have acc: "accepted (trace (final ?out)) = [''a'', ''b'', ''c'']"
    and stored: "case lastInsert (trace (final ?out)) of Some (InsertTried _ _ _ _ ok) \<Rightarrow> ok | _ \<Rightarrow> False"
    by code_simp+
  have "ctxStays sessionScript" "trace (NewRedisIngestRunner 0 0) = []" by (simp_all add: NewRedisIngestRunner_def)
  from ingest_Run_conserves [OF this, of int True] returned stored
  have "consumed (trace (final ?out)) = accepted (trace (final ?out))"
    by (cases ?out) auto
  with acc show ?thesis by simp
qed

section \<open>Subscribe first, then drain the backlog, then live messages\<close>

datatype phase = Idle | Backlog | Live

fun phaseStep :: "event \<Rightarrow> phase \<Rightarrow> phase option" where
  "phaseStep Subscribed p = (if p = Idle then Some Backlog else None)"
| "phaseStep Closed p = (if p = Idle then None else Some Idle)"
| "phaseStep (Pulled _) p = (if p = Backlog then Some Backlog else None)"
| "phaseStep (Received _) p = (if p = Idle then None else Some Live)"
| "phaseStep (InsertTried source _ _ _ _) p =
     (if p = Backlog \<and> source = RedisIngestSourceRedisPull \<or> p = Live \<and> source = RedisIngestSourceSubscribe
      then Some p else None)"
| "phaseStep NotifyConnected p = (if p = Backlog then Some p else None)"
| "phaseStep PollingRequired p = (if p = Idle then Some p else None)"
| "phaseStep _ p = Some p"

definition phaseOf :: "event list \<Rightarrow> phase option" where
  "phaseOf tr = fold (\<lambda>e p. Option.bind p (phaseStep e)) tr (Some Idle)"

lemma phaseOf_simps [simp]:
  "phaseOf [] = Some Idle"
  "phaseOf (tr @ [e]) = Option.bind (phaseOf tr) (phaseStep e)"
  by (simp_all add: phaseOf_def)

lemma phaseOf_record [simp]: "phaseOf (trace (record_state clock state err av r)) = phaseOf (trace r)"
  by (cases "phaseOf (trace r)") (simp_all add: record_state_def Let_def)

lemma phaseOf_disconnected [simp]:
  "phaseOf (trace r) = Some Idle \<Longrightarrow> phaseOf (trace (disconnected clock err r)) = Some Idle"
  by (simp add: disconnected_def Let_def)

lemma persistLoop_phase:
  assumes "phaseStep (InsertTried source messages at True True) p = Some p"
  shows "phaseOf (trace r) = Some p \<Longrightarrow> phaseOf (trace (final (persistLoop clock source messages at b rs r))) = Some p"
  by (rule persistLoop_induct [where P = "\<lambda>b rs r out. phaseOf (trace r) = Some p \<longrightarrow> phaseOf (trace (final out)) = Some p", THEN mp])
     (use assms in \<open>simp_all split: if_splits\<close>)

lemma persist_phase:
  assumes "phaseOf (trace r) = Some p"
    and "p = Backlog \<and> source = RedisIngestSourceRedisPull \<or> p = Live \<and> source = RedisIngestSourceSubscribe"
  shows "phaseOf (trace (final (persist clock source messages rs r))) = Some p"
  using assms persistLoop_phase [of source messages "clock (ticks r)" p "r\<lparr>ticks := ticks r + 1\<rparr>"]
  by (auto simp: persist_def)

lemma pulled_phase:
  assumes "phaseOf (trace r) = Some Backlog"
  shows "persist clock RedisIngestSourceRedisPull messages rs (emit (Pulled messages) r) = Waiting r' \<Longrightarrow>
      phaseOf (trace r') = Some Backlog"
    and "persist clock RedisIngestSourceRedisPull messages rs (emit (Pulled messages) r) = Return rs' r' res \<Longrightarrow>
      phaseOf (trace r') = Some Backlog"
  using persist_phase [of "emit (Pulled messages) r" Backlog RedisIngestSourceRedisPull clock messages rs] assms
  by simp_all

lemma pullLoop_phase:
  "phaseOf (trace r) = Some Backlog \<Longrightarrow> phaseOf (trace (final (pullLoop clock rs r))) = Some Backlog"
proof (induction "length rs" arbitrary: rs r rule: less_induct)
  case less
  have ih: "phaseOf (trace (final (pullLoop clock rs3 r'))) = Some Backlog"
    if "persist clock RedisIngestSourceRedisPull messages rs2 (emit (Pulled messages) r) = Return rs3 r' None"
      "rs = x # y # rs2" for messages rs2 rs3 r' x y
    using less.hyps [of rs3 r'] persist_shrinks [OF that(1)] pulled_phase(2) [OF less.prems that(1)] that(2) by simp
  show ?case unfolding pullLoop.simps [of clock rs r]
    using less.prems ih pulled_phase [OF less.prems]
    by (auto split: list.splits reply.splits option.splits sum.splits run.splits)
qed

definition connected :: "ingest \<Rightarrow> bool" where
  "connected r \<longleftrightarrow> phaseOf (trace r) \<in> {Some Backlog, Some Live}"

lemma received_phase: "connected r \<Longrightarrow> phaseOf (trace (emit (Received message) r)) = Some Live"
  by (auto simp: connected_def)

lemma batchLoop_phase:
  "phaseOf (trace r) = Some Live \<Longrightarrow> phaseOf (trace (final (batchLoop batch rs r))) = Some Live"
proof (induction batch rs r rule: batchLoop.induct)
  case (1 batch rs r)
  then show ?case
    by (subst batchLoop.simps) (auto split: list.splits reply.splits sum.splits)
qed

lemma received_batch_phase:
  assumes "connected r"
  shows "batchLoop batch rs (emit (Received message) r) = Waiting r' \<Longrightarrow> phaseOf (trace r') = Some Live"
    and "batchLoop batch rs (emit (Received message) r) = Return rs' r' res \<Longrightarrow> phaseOf (trace r') = Some Live"
  using batchLoop_phase [OF received_phase [OF assms], of batch rs message] by simp_all

lemma live_phase:
  assumes "phaseOf (trace r) = Some Live"
  shows "persist clock RedisIngestSourceSubscribe messages rs r = Waiting r' \<Longrightarrow> connected r'"
    and "persist clock RedisIngestSourceSubscribe messages rs r = Return rs' r' res \<Longrightarrow> connected r'"
  using persist_phase [OF assms, of RedisIngestSourceSubscribe clock messages rs]
  by (simp_all add: connected_def)

lemma connected_simps [simp]: "connected (record_state clock state err av r) = connected r"
  by (simp add: connected_def)

lemma receiveLoop_phase: "connected r \<Longrightarrow> connected (final (receiveLoop clock rs r))"
proof (induction "length rs" arbitrary: rs r rule: less_induct)
  case less
  let ?r1 = "record_state clock ''subscribing'' None True r"
  have r1: "connected ?r1" using less.prems by simp
  have live: "phaseOf (trace r2) = Some Live" if "batchLoop [first] rs2 (emit (Received first) ?r1) = Return rs3 r2 res"
    for first rs2 rs3 r2 res using received_batch_phase(2) [OF r1 that] .
  have ih: "connected (final (receiveLoop clock rs4 r3))"
    if "batchLoop [first] rs2 (emit (Received first) ?r1) = Return rs3 r2 res"
      "persist clock RedisIngestSourceSubscribe batch rs3 r2 = Return rs4 r3 None" "rs = x # y # rs2"
    for first rs2 rs3 r2 res batch rs4 r3 x y
    using less.hyps [of rs4 r3] batchLoop_shrinks [OF that(1)] persist_shrinks [OF that(2)] that(3)
      live_phase(2) [OF live [OF that(1)] that(2)] by simp
  have stop: "connected r'" if "batchLoop [first] rs2 (emit (Received first) ?r1) = Waiting r'" for first rs2 r'
    using received_batch_phase(1) [OF r1 that] by (simp add: connected_def)
  show ?case unfolding receiveLoop.simps [of clock rs r]
    using less.prems r1 live_phase [OF live]
    by (auto simp: Let_def split: list.splits reply.splits option.splits sum.splits run.splits prod.splits
        intro: ih stop)
qed

lemma consume_phase:
  assumes "phaseOf (trace r) = Some Backlog"
  shows "connected (final (consume clock rs r))"
proof -
  have "phaseOf (trace (final (pullLoop clock rs (record_state clock ''subscribe_backfill'' None True r)))) = Some Backlog"
    using assms by (intro pullLoop_phase) simp
  then have "connected (final (pullLoop clock rs (record_state clock ''subscribe_backfill'' None True r)))"
    by (simp add: connected_def)
  then show ?thesis
    by (auto simp: consume_def receiveLoop_phase split: run.splits option.splits)
qed

lemma connection_phase:
  assumes "phaseOf (trace r) = Some Idle"
  shows "connection clock b s rs r = Waiting r' \<Longrightarrow> connected r'"
    and "connection clock b s rs r = Return rs' r' res \<Longrightarrow> phaseOf (trace r') = Some Idle"
proof -
  let ?r2 = "if controlObserver r then emit NotifyConnected (emit Subscribed r) else emit Subscribed r"
  have "phaseOf (trace (emit NotifyConnected (emit Subscribed r))) = Some Backlog"
    using assms phaseOf_simps(2) [of "trace r @ [Subscribed]" NotifyConnected] by simp
  then have "phaseOf (trace ?r2) = Some Backlog" using assms by simp
  from consume_phase [OF this, of clock rs] assms
  show "connection clock b s rs r = Waiting r' \<Longrightarrow> connected r'"
    and "connection clock b s rs r = Return rs' r' res \<Longrightarrow> phaseOf (trace r') = Some Idle"
    by (auto simp: connection_def Let_def connected_def split: sum.splits bool.splits run.splits if_splits)
qed

lemma runLoop_phase:
  "phaseOf (trace r) = Some Idle \<longrightarrow> phaseOf (trace (final (runLoop clock b rs r))) \<noteq> None"
proof (induction rule: runLoop_induct [where
      P = "\<lambda>b rs r out. phaseOf (trace r) = Some Idle \<longrightarrow> phaseOf (trace (final out)) \<noteq> None"])
  case (waiting b s rs r r')
  then show ?case using connection_phase(1) [OF _ waiting(1)] by (auto simp: connected_def)
next
  case (closed b s rs r rs' r' e b' x rs'')
  then show ?case using connection_phase(2) [OF _ closed(1)] by simp
next
  case (sleeping b s rs r rs' r' e b')
  then show ?case using connection_phase(2) [OF _ sleeping(1)] by simp
next
  case (asleep b s rs r rs' r' e b' b'' d rs'' out)
  then show ?case using connection_phase(2) [OF _ asleep(1)] by auto
next
  case (again b s rs r rs' r' e b' b'' d rs'' out)
  then show ?case using connection_phase(2) [OF _ again(1)] by simp
qed simp_all

text \<open>
  In every run, finished or not, the backlog is read only over an open subscription and
  before its first live message; every write is tagged with the source its messages came from;
  the observer is told of a connection before the backlog is read and asked to poll again only
  while disconnected.
\<close>

theorem ingest_Run_subscribes_first:
  assumes "trace r = []"
  shows "phaseOf (trace (final (ingest_Run clock configured rs r))) \<noteq> None"
proof (cases "configured \<and> \<not> Running r")
  case True
  let ?out = "runLoop clock (NewRedisIngestBackoff (RetryInterval r) (30 * Second)) rs (r\<lparr>Running := True\<rparr>)"
  have "phaseOf (trace (final ?out)) \<noteq> None" using assms runLoop_phase by simp
  then show ?thesis using True by (cases ?out) (simp_all add: ingest_Run_def)
next
  case False
  then show ?thesis using assms by (auto simp: ingest_Run_def)
qed

theorem ingest_Run_subscribes_first_witness:
  "phaseOf (trace (final (ingest_Run int True sessionScript (NewRedisIngestRunner 0 0)))) \<noteq> None"
  by (rule ingest_Run_subscribes_first) (simp add: NewRedisIngestRunner_def)

section \<open>The run ends at the shutdown only\<close>

text \<open>
  With its dependencies in place the runner returns without an error, only after the context
  was done or a wait was interrupted by it, and leaves both running flags cleared; no failure of
  the queue, the subscription or the inbox ends it.
\<close>

theorem ingest_Run_stops_at_shutdown:
  assumes "ctxStays rs" "trace r = []" "\<not> Running r" "ingest_Run clock True rs r = Return rest r' res"
  shows "res = None \<and> stopSeen rs \<and> \<not> Running r' \<and> \<not> SyncRunning r'"
proof -
  let ?b = "NewRedisIngestBackoff (RetryInterval r) (30 * Second)"
  have "ledger (r\<lparr>Running := True\<rparr>) []" using assms(2) by (simp add: ledger_def ledger_defs)
  note run = runLoop_conserves [OF assms(1) this, of clock ?b]
  from assms(3,4) run show ?thesis
    by (cases "runLoop clock ?b rs (r\<lparr>Running := True\<rparr>)") (auto simp: ingest_Run_def)
qed

theorem ingest_Run_stops_at_shutdown_witness:
  "\<exists>rest r'. ingest_Run int True sessionScript (NewRedisIngestRunner 0 0) = Return rest r' None \<and> \<not> Running r'"
proof -
  let ?out = "ingest_Run int True sessionScript (NewRedisIngestRunner 0 0)"
  have returned: "case ?out of Return rs r res \<Rightarrow> True | Waiting _ \<Rightarrow> False" by code_simp
  have "ctxStays sessionScript" "trace (NewRedisIngestRunner 0 0) = []" "\<not> Running (NewRedisIngestRunner 0 0)"
    by (simp_all add: NewRedisIngestRunner_def)
  from ingest_Run_stops_at_shutdown [OF this, of int] returned show ?thesis
    by (cases ?out) auto
qed

end
