(* ===== verification/Usage_Inbox.thy ===== *)
theory Usage_Inbox
  imports Ingest_Control "HOL-Library.Multiset"
begin

text \<open>
  The durable inbox of raw usage messages: \<^verbatim>\<open>internal/repository/redis_usage_inbox.go\<close>, the
  entity \<^verbatim>\<open>internal/entities/redis_usage_inbox.go\<close> and the batch size of
  \<^verbatim>\<open>internal/repository/batch.go\<close>.

  The database is a record of tables. Every statement first takes the head of \<open>faults\<close>: an
  error text there makes the statement fail without an effect (SQLite statements are atomic), so
  a theorem over all stores covers every pattern of failing statements. A transaction that fails
  restores the tables. \<open>gorm_now\<close> is the clock GORM stamps rows with. The hash function is the
  parameter \<open>hash\<close>; stored times are compared by the database as texts, \<open>before\<close> is that order.
\<close>

section \<open>The tables\<close>

datatype inboxStatus =
    RedisUsageInboxStatusPending
  | RedisUsageInboxStatusProcessed
  | RedisUsageInboxStatusDecodeFailed
  | RedisUsageInboxStatusProcessFailed
  | RedisUsageInboxStatusDiscarded

record RedisUsageInbox =
  in_ID :: int
  in_Source :: string
  MessageHash :: string
  RawMessage :: string
  in_Status :: inboxStatus
  AttemptCount :: int
  in_LastError :: string
  UsageEventKey :: string
  PoppedAt :: gotime
  ProcessedAt :: "gotime option"
  in_UpdatedAt :: gotime

text \<open>The rest of the database, \<open>'ev\<close> the rows of \<open>usage_events\<close>, \<open>'id\<close> those of \<open>usage_identities\<close>.\<close>

record ('ev, 'id) store =
  inbox :: "RedisUsageInbox list"
  usage_events :: "'ev list"
  usage_identities :: "'id list"
  next_inbox :: int
  next_event :: int
  gorm_now :: gotime
  faults :: "string option list"

definition stmt :: "(('ev, 'id) store \<Rightarrow> ('ev, 'id) store) \<Rightarrow> ('ev, 'id) store \<Rightarrow> ('ev, 'id) store \<times> string option" where
  "stmt f s =
     (case faults s of
        [] \<Rightarrow> (f s, None)
      | None # fs \<Rightarrow> (f (s\<lparr>faults := fs\<rparr>), None)
      | Some e # fs \<Rightarrow> (s\<lparr>faults := fs\<rparr>, Some e))"

definition query :: "(('ev, 'id) store \<Rightarrow> 'r) \<Rightarrow> ('ev, 'id) store \<Rightarrow> ('ev, 'id) store \<times> (string + 'r)" where
  "query f s =
     (case faults s of
        [] \<Rightarrow> (s, Inr (f s))
      | None # fs \<Rightarrow> (s\<lparr>faults := fs\<rparr>, Inr (f s))
      | Some e # fs \<Rightarrow> (s\<lparr>faults := fs\<rparr>, Inl e))"

text \<open>A transaction: the body, then the commit; an error of either restores the tables.\<close>

definition rollback :: "('ev, 'id) store \<Rightarrow> ('ev, 'id) store \<Rightarrow> ('ev, 'id) store" where
  "rollback s s' = s\<lparr>faults := faults s'\<rparr>"

definition transaction ::
  "(('ev, 'id) store \<Rightarrow> ('ev, 'id) store \<times> (string + 'r)) \<Rightarrow> ('ev, 'id) store \<Rightarrow> ('ev, 'id) store \<times> (string + 'r)" where
  "transaction body s =
     (case body s of
        (s1, Inl e) \<Rightarrow> (rollback s s1, Inl e)
      | (s1, Inr r) \<Rightarrow>
          (case stmt (\<lambda>t. t) s1 of
             (s2, None) \<Rightarrow> (s2, Inr r)
           | (s2, Some e) \<Rightarrow> (rollback s s2, Inl e)))"

section \<open>batch.go\<close>

definition insertBatchSize :: "int \<Rightarrow> int" where
  "insertBatchSize columnCount =
     (if columnCount \<le> 0 then 900
      else (let batchSize = 999 div columnCount in if batchSize \<le> 0 then 1 else min 900 batchSize))"

section \<open>redis\_usage\_inbox.go\<close>

definition redisUsageInboxMaxProcessAttempts :: int where
  "redisUsageInboxMaxProcessAttempts = 5"

definition redisUsageInboxMaxErrorLength :: nat where
  "redisUsageInboxMaxErrorLength = 1024"

definition redisUsageInboxProcessedBatchSize :: nat where
  "redisUsageInboxProcessedBatchSize = 300"

definition processable :: "RedisUsageInbox \<Rightarrow> bool" where
  "processable row \<longleftrightarrow> in_Status row = RedisUsageInboxStatusPending \<or> in_Status row = RedisUsageInboxStatusProcessFailed"

definition HasProcessableRedisUsageInbox :: "('ev, 'id) store \<Rightarrow> ('ev, 'id) store \<times> (string + bool)" where
  "HasProcessableRedisUsageInbox s =
     (case query (\<lambda>t. list_ex processable (inbox t)) s of
        (s', Inl e) \<Rightarrow> (s', Inl (''check processable redis usage inbox: '' @ e))
      | (s', Inr found) \<Rightarrow> (s', Inr found))"

definition redisUsageInboxSource :: "string \<Rightarrow> string" where
  "redisUsageInboxSource v = (let trimmed = TrimSpace v in if trimmed = [] then ''unknown'' else trimmed)"

definition inboxRow :: "(string \<Rightarrow> string) \<Rightarrow> string \<Rightarrow> gotime \<Rightarrow> string \<Rightarrow> RedisUsageInbox" where
  "inboxRow hash source poppedAt message =
     \<lparr>in_ID = 0, in_Source = redisUsageInboxSource source, MessageHash = hash message, RawMessage = message,
      in_Status = RedisUsageInboxStatusPending, AttemptCount = 0, in_LastError = [], UsageEventKey = [],
      PoppedAt = poppedAt, ProcessedAt = None, in_UpdatedAt = zero_time\<rparr>"

text \<open>One INSERT statement gives its rows the next ids and the time stamps.\<close>

fun numberRows :: "int \<Rightarrow> gotime \<Rightarrow> RedisUsageInbox list \<Rightarrow> RedisUsageInbox list" where
  "numberRows n now [] = []"
| "numberRows n now (r # rs) = r\<lparr>in_ID := n, in_UpdatedAt := now\<rparr> # numberRows (n + 1) now rs"

definition createRows :: "RedisUsageInbox list \<Rightarrow> ('ev, 'id) store \<Rightarrow> ('ev, 'id) store" where
  "createRows rows s = s\<lparr>inbox := inbox s @ numberRows (next_inbox s) (gorm_now s) rows,
                         next_inbox := next_inbox s + int (length rows)\<rparr>"

function createInBatches ::
  "nat \<Rightarrow> RedisUsageInbox list \<Rightarrow> ('ev, 'id) store \<Rightarrow> ('ev, 'id) store \<times> (string + unit)" where
  "createInBatches sz rows s =
     (if rows = [] \<or> sz = 0 then (s, Inr ())
      else case stmt (createRows (take sz rows)) s of
             (s', Some e) \<Rightarrow> (s', Inl e)
           | (s', None) \<Rightarrow> createInBatches sz (drop sz rows) s')"
  by pat_completeness auto
termination
  by (relation "measure (\<lambda>(sz, rows, s). length rows)") auto

declare createInBatches.simps [simp del]

definition InsertRedisUsageInboxRawMessages ::
  "(string \<Rightarrow> string) \<Rightarrow> int \<Rightarrow> string \<Rightarrow> string list \<Rightarrow> gotime \<Rightarrow> ('ev, 'id) store
   \<Rightarrow> ('ev, 'id) store \<times> (string + nat)" where
  "InsertRedisUsageInboxRawMessages hash columns source messages poppedAt s =
     (if messages = [] then (s, Inr 0)
      else
        (let rows = map (inboxRow hash source poppedAt) messages in
         case transaction (createInBatches (nat (insertBatchSize columns)) rows) s of
           (s', Inl e) \<Rightarrow> (s', Inl e)
         | (s', Inr _) \<Rightarrow> (s', Inr (length rows))))"

text \<open>\<open>UPDATE ... WHERE id IN ids\<close>; GORM stamps \<open>updated_at\<close>.\<close>

definition updateRows ::
  "(int \<Rightarrow> bool) \<Rightarrow> (RedisUsageInbox \<Rightarrow> RedisUsageInbox) \<Rightarrow> ('ev, 'id) store \<Rightarrow> ('ev, 'id) store" where
  "updateRows p f s =
     s\<lparr>inbox := map (\<lambda>row. if p (in_ID row) then (f row)\<lparr>in_UpdatedAt := gorm_now s\<rparr> else row) (inbox s)\<rparr>"

definition setProcessed :: "(RedisUsageInbox \<Rightarrow> string) \<Rightarrow> gotime \<Rightarrow> RedisUsageInbox \<Rightarrow> RedisUsageInbox" where
  "setProcessed key at row =
     row\<lparr>in_Status := RedisUsageInboxStatusProcessed, UsageEventKey := key row, ProcessedAt := Some at, in_LastError := []\<rparr>"

definition MarkRedisUsageInboxProcessed ::
  "int \<Rightarrow> string \<Rightarrow> gotime \<Rightarrow> ('ev, 'id) store \<Rightarrow> ('ev, 'id) store \<times> string option" where
  "MarkRedisUsageInboxProcessed rowID eventKey at = stmt (updateRows (\<lambda>i. i = rowID) (setProcessed (\<lambda>_. eventKey) at))"

text \<open>\<open>CASE id WHEN ? THEN ? ... ELSE usage_event_key END\<close>: the first matching pair decides.\<close>

definition eventKeyCase :: "(int \<times> string) list \<Rightarrow> RedisUsageInbox \<Rightarrow> string" where
  "eventKeyCase updates row = (case map_of updates (in_ID row) of Some key \<Rightarrow> key | None \<Rightarrow> UsageEventKey row)"

function decimal :: "nat \<Rightarrow> string" where
  "decimal n = (if n < 10 then [char_of (48 + n)] else decimal (n div 10) @ [char_of (48 + n mod 10)])"
  by pat_completeness auto
termination
  by (relation "measure id") auto

declare decimal.simps [simp del]

text \<open>The batches of at most 300 updates; \<open>start\<close> is the index of the first of \<open>updates\<close>.\<close>

function markBatches ::
  "nat \<Rightarrow> (int \<times> string) list \<Rightarrow> gotime \<Rightarrow> ('ev, 'id) store \<Rightarrow> ('ev, 'id) store \<times> string option" where
  "markBatches start updates at s =
     (if updates = [] then (s, None)
      else
        (let batch = take redisUsageInboxProcessedBatchSize updates in
         case stmt (updateRows (\<lambda>i. i \<in> set (map fst batch)) (setProcessed (eventKeyCase batch) at)) s of
           (s', Some e) \<Rightarrow>
             (s', Some (''mark redis usage inbox processed batch ['' @ decimal start @ '':''
                        @ decimal (start + length batch) @ '']: '' @ e))
         | (s', None) \<Rightarrow>
             markBatches (start + redisUsageInboxProcessedBatchSize)
               (drop redisUsageInboxProcessedBatchSize updates) at s'))"
  by pat_completeness auto
termination
  by (relation "measure (\<lambda>(start, updates, at, s). length updates)") (auto simp: redisUsageInboxProcessedBatchSize_def)

declare markBatches.simps [simp del]

definition MarkRedisUsageInboxProcessedBatch ::
  "(int \<times> string) list \<Rightarrow> gotime \<Rightarrow> ('ev, 'id) store \<Rightarrow> ('ev, 'id) store \<times> string option" where
  "MarkRedisUsageInboxProcessedBatch updates = markBatches 0 updates"

text \<open>\<open>utf8.ValidString\<close>.\<close>

definition cont :: "char \<Rightarrow> bool" where
  "cont c \<longleftrightarrow> 128 \<le> byte c \<and> byte c \<le> 191"

definition second_ok :: "nat \<Rightarrow> nat \<Rightarrow> bool" where
  "second_ok a b \<longleftrightarrow>
     (if a = 224 then 160 \<le> b \<and> b \<le> 191
      else if a = 237 then 128 \<le> b \<and> b \<le> 159
      else if a = 240 then 144 \<le> b \<and> b \<le> 191
      else if a = 244 then 128 \<le> b \<and> b \<le> 143
      else 128 \<le> b \<and> b \<le> 191)"

definition rune_len :: "nat \<Rightarrow> nat" where
  "rune_len a = (if a < 128 then 1 else if 194 \<le> a \<and> a \<le> 223 then 2 else if 224 \<le> a \<and> a \<le> 239 then 3
                 else if 240 \<le> a \<and> a \<le> 244 then 4 else 0)"

definition rune_ok :: "string \<Rightarrow> bool" where
  "rune_ok s = (case s of [] \<Rightarrow> False
     | a # r \<Rightarrow>
         (let n = rune_len (byte a) in
          n \<noteq> 0 \<and> n \<le> length s \<and>
          (n \<ge> 2 \<longrightarrow> second_ok (byte a) (byte (s ! 1))) \<and> (\<forall>c \<in> set (drop 2 (take n s)). cont c)))"

function utf8_ValidString :: "string \<Rightarrow> bool" where
  "utf8_ValidString s =
     (if s = [] then True else if rune_ok s then utf8_ValidString (drop (rune_len (byte (hd s))) s) else False)"
  by pat_completeness auto
termination
  by (relation "measure length") (auto simp: rune_ok_def Let_def split: list.splits)

declare utf8_ValidString.simps [simp del]

text \<open>The loop that removes bytes until the rest is valid UTF-8.\<close>

function cutInvalid :: "string \<Rightarrow> string" where
  "cutInvalid s = (if s = [] \<or> utf8_ValidString s then s else cutInvalid (butlast s))"
  by pat_completeness auto
termination
  by (relation "measure length") auto

declare cutInvalid.simps [simp del]

definition boundedRedisUsageInboxError :: "string option \<Rightarrow> string" where
  "boundedRedisUsageInboxError err =
     (case err of None \<Rightarrow> []
      | Some message \<Rightarrow>
          if length message \<le> redisUsageInboxMaxErrorLength then message
          else cutInvalid (take redisUsageInboxMaxErrorLength message))"

definition setFailed :: "inboxStatus \<Rightarrow> string option \<Rightarrow> RedisUsageInbox \<Rightarrow> RedisUsageInbox" where
  "setFailed status err row =
     row\<lparr>in_Status := status, AttemptCount := AttemptCount row + 1, in_LastError := boundedRedisUsageInboxError err\<rparr>"

definition markRedisUsageInboxFailed ::
  "int \<Rightarrow> inboxStatus \<Rightarrow> string option \<Rightarrow> ('ev, 'id) store \<Rightarrow> ('ev, 'id) store \<times> string option" where
  "markRedisUsageInboxFailed rowID status err = stmt (updateRows (\<lambda>i. i = rowID) (setFailed status err))"

definition MarkRedisUsageInboxDecodeFailed ::
  "int \<Rightarrow> string option \<Rightarrow> ('ev, 'id) store \<Rightarrow> ('ev, 'id) store \<times> string option" where
  "MarkRedisUsageInboxDecodeFailed rowID decodeErr =
     markRedisUsageInboxFailed rowID RedisUsageInboxStatusDecodeFailed decodeErr"

text \<open>\<open>CASE WHEN attempt_count + 1 >= 5 THEN 'discarded' ELSE 'process_failed' END\<close>.\<close>

definition setProcessFailed :: "string option \<Rightarrow> RedisUsageInbox \<Rightarrow> RedisUsageInbox" where
  "setProcessFailed err row =
     setFailed (if AttemptCount row + 1 \<ge> redisUsageInboxMaxProcessAttempts
                then RedisUsageInboxStatusDiscarded else RedisUsageInboxStatusProcessFailed) err row"

definition MarkRedisUsageInboxProcessFailed ::
  "int \<Rightarrow> string option \<Rightarrow> ('ev, 'id) store \<Rightarrow> ('ev, 'id) store \<times> string option" where
  "MarkRedisUsageInboxProcessFailed rowID processErr = stmt (updateRows (\<lambda>i. i = rowID) (setProcessFailed processErr))"

definition limitRows :: "int \<Rightarrow> 'a list \<Rightarrow> 'a list" where
  "limitRows limit rows = (if limit > 0 then take (nat limit) rows else rows)"

definition ListProcessableRedisUsageInbox ::
  "int \<Rightarrow> ('ev, 'id) store \<Rightarrow> ('ev, 'id) store \<times> (string + RedisUsageInbox list)" where
  "ListProcessableRedisUsageInbox limit =
     query (\<lambda>s. limitRows limit (sort_key in_ID (filter processable (inbox s))))"

definition ListPendingRedisUsageInbox ::
  "int \<Rightarrow> ('ev, 'id) store \<Rightarrow> ('ev, 'id) store \<times> (string + RedisUsageInbox list)" where
  "ListPendingRedisUsageInbox limit =
     query (\<lambda>s. limitRows limit (sort_key in_ID
       (filter (\<lambda>row. in_Status row = RedisUsageInboxStatusPending) (inbox s))))"

definition expiredProcessed :: "(gotime \<Rightarrow> gotime \<Rightarrow> bool) \<Rightarrow> gotime \<Rightarrow> RedisUsageInbox \<Rightarrow> bool" where
  "expiredProcessed before cutoff row \<longleftrightarrow>
     in_Status row = RedisUsageInboxStatusProcessed \<and>
     (case ProcessedAt row of None \<Rightarrow> False | Some at \<Rightarrow> before at cutoff)"

definition expiredFailed :: "(gotime \<Rightarrow> gotime \<Rightarrow> bool) \<Rightarrow> gotime \<Rightarrow> RedisUsageInbox \<Rightarrow> bool" where
  "expiredFailed before cutoff row \<longleftrightarrow>
     in_Status row \<in> {RedisUsageInboxStatusDecodeFailed, RedisUsageInboxStatusProcessFailed, RedisUsageInboxStatusDiscarded} \<and>
     before (in_UpdatedAt row) cutoff"

text \<open>
  The two DELETE statements; the result counts what each removed. \<open>dayStart\<close> and \<open>weekBefore\<close> are
  the local calendar: the start of the local day and seven days earlier.
\<close>

definition CleanupRedisUsageInbox ::
  "(gotime \<Rightarrow> gotime) \<Rightarrow> (gotime \<Rightarrow> gotime) \<Rightarrow> (gotime \<Rightarrow> gotime \<Rightarrow> bool) \<Rightarrow> gotime \<Rightarrow> ('ev, 'id) store
   \<Rightarrow> ('ev, 'id) store \<times> (nat \<times> nat) \<times> string option" where
  "CleanupRedisUsageInbox dayStart weekBefore before now s =
     (let oldProcessed = expiredProcessed before (dayStart now);
          oldFailed = expiredFailed before (weekBefore now)
      in case stmt (\<lambda>t. t\<lparr>inbox := filter (\<lambda>row. \<not> oldProcessed row) (inbox t)\<rparr>) s of
           (s1, Some e) \<Rightarrow> (s1, (0, 0), Some e)
         | (s1, None) \<Rightarrow>
             (let processedDeleted = length (filter oldProcessed (inbox s)) in
              case stmt (\<lambda>t. t\<lparr>inbox := filter (\<lambda>row. \<not> oldFailed row) (inbox t)\<rparr>) s1 of
                (s2, Some e) \<Rightarrow> (s2, (processedDeleted, 0), Some e)
              | (s2, None) \<Rightarrow> (s2, (processedDeleted, length (filter oldFailed (inbox s1))), None)))"

section \<open>Statements and transactions\<close>

lemma stmt_cases:
  assumes "stmt f s = (s', e)"
  obtains fs where "e = None" "s' = f (s\<lparr>faults := fs\<rparr>)" | fs m where "e = Some m" "s' = s\<lparr>faults := fs\<rparr>"
proof (cases "faults s")
  case Nil
  then have "s = s\<lparr>faults := []\<rparr>" by simp
  with Nil assms that(1) [of "[]"] show ?thesis by (simp add: stmt_def)
next
  case (Cons a fs)
  with assms that show ?thesis by (cases a) (auto simp: stmt_def)
qed

lemma query_cases:
  assumes "query f s = (s', r)"
  obtains fs where "s' = s\<lparr>faults := fs\<rparr>" "r = Inr (f s)" | fs m where "s' = s\<lparr>faults := fs\<rparr>" "r = Inl m"
proof (cases "faults s")
  case Nil
  then have "s = s\<lparr>faults := []\<rparr>" by simp
  with Nil assms that(1) [of "[]"] show ?thesis by (auto simp: query_def)
next
  case (Cons a fs)
  with assms that show ?thesis by (cases a) (auto simp: query_def)
qed

lemma transaction_cases:
  assumes "transaction body s = (s', r)"
  obtains m fs where "r = Inl m" "s' = s\<lparr>faults := fs\<rparr>"
    | s1 v fs where "body s = (s1, Inr v)" "r = Inr v" "s' = s1\<lparr>faults := fs\<rparr>"
proof (cases "body s")
  case (Pair s1 v)
  show ?thesis
  proof (cases v)
    case (Inl m)
    then show ?thesis using Pair assms that(1) by (auto simp: transaction_def rollback_def)
  next
    case (Inr w)
    obtain s2 e where st: "stmt (\<lambda>t. t) s1 = (s2, e)" by fastforce
    then show ?thesis
    proof (cases rule: stmt_cases)
      case (1 fs)
      then have "r = Inr w" "s' = s1\<lparr>faults := fs\<rparr>" using Pair Inr assms st by (auto simp: transaction_def)
      then show ?thesis using that(2) Pair Inr by blast
    next
      case (2 fs m)
      then have "r = Inl m" "s' = s\<lparr>faults := faults s2\<rparr>"
        using Pair Inr assms st by (auto simp: transaction_def rollback_def)
      then show ?thesis using that(1) by blast
    qed
  qed
qed

text \<open>A store whose statements all succeed.\<close>

lemma stmt_clean [simp]: "faults s = [] \<Longrightarrow> stmt f s = (f s, None)"
  by (simp add: stmt_def)

lemma query_clean [simp]: "faults s = [] \<Longrightarrow> query f s = (s, Inr (f s))"
  by (simp add: query_def)

section \<open>The life of an inbox row\<close>

text \<open>What may happen to a row in one round: it is left alone, or it leaves \<open>pending\<close> or \<open>process_failed\<close>.\<close>

definition rowMove :: "RedisUsageInbox \<Rightarrow> RedisUsageInbox \<Rightarrow> bool" where
  "rowMove r r' \<longleftrightarrow> processable r \<and> in_ID r' = in_ID r \<and> RawMessage r' = RawMessage r \<and>
     (in_Status r' = RedisUsageInboxStatusProcessed \<and> AttemptCount r' = AttemptCount r
      \<or> UsageEventKey r' = UsageEventKey r \<and> AttemptCount r' = AttemptCount r + 1 \<and>
        (in_Status r' = RedisUsageInboxStatusDecodeFailed
         \<or> in_Status r' = RedisUsageInboxStatusProcessFailed \<and> AttemptCount r' < redisUsageInboxMaxProcessAttempts
         \<or> in_Status r' = RedisUsageInboxStatusDiscarded \<and> AttemptCount r' \<ge> redisUsageInboxMaxProcessAttempts))"

definition rowStep :: "RedisUsageInbox \<Rightarrow> RedisUsageInbox \<Rightarrow> bool" where
  "rowStep r r' \<longleftrightarrow> r' = r \<or> rowMove r r'"

lemma rowStep_keeps: "rowStep r r' \<Longrightarrow> in_ID r' = in_ID r \<and> RawMessage r' = RawMessage r"
  by (auto simp: rowStep_def rowMove_def)

definition rowOK :: "RedisUsageInbox \<Rightarrow> bool" where
  "rowOK r \<longleftrightarrow> (case in_Status r of
       RedisUsageInboxStatusPending \<Rightarrow> AttemptCount r = 0 \<and> UsageEventKey r = []
     | RedisUsageInboxStatusProcessed \<Rightarrow> 0 \<le> AttemptCount r \<and> AttemptCount r < 5
     | RedisUsageInboxStatusDecodeFailed \<Rightarrow> 1 \<le> AttemptCount r \<and> AttemptCount r \<le> 5 \<and> UsageEventKey r = []
     | RedisUsageInboxStatusProcessFailed \<Rightarrow> 1 \<le> AttemptCount r \<and> AttemptCount r < 5 \<and> UsageEventKey r = []
     | RedisUsageInboxStatusDiscarded \<Rightarrow> AttemptCount r = 5 \<and> UsageEventKey r = [])"

lemma rowStep_OK: "rowOK r \<Longrightarrow> rowStep r r' \<Longrightarrow> rowOK r'"
  by (cases "in_Status r")
     (auto simp: rowOK_def rowStep_def rowMove_def processable_def redisUsageInboxMaxProcessAttempts_def)

lemma rowStep_refl [simp]: "rowStep r r"
  by (simp add: rowStep_def)

text \<open>The keys of the events that the processed rows stand for.\<close>

definition bookedKey :: "RedisUsageInbox \<Rightarrow> string list" where
  "bookedKey r = (if in_Status r = RedisUsageInboxStatusProcessed \<and> UsageEventKey r \<noteq> [] then [UsageEventKey r] else [])"

definition bookedKeys :: "RedisUsageInbox list \<Rightarrow> string list" where
  "bookedKeys rows = concat (map bookedKey rows)"

definition openRow :: "RedisUsageInbox list \<Rightarrow> int \<Rightarrow> bool" where
  "openRow rows i \<longleftrightarrow> i \<in> set (map in_ID rows) \<and> (\<forall>r \<in> set rows. in_ID r = i \<longrightarrow> processable r)"

text \<open>
  \<open>moved A s s'\<close>: between the stores only rows with an id in \<open>A\<close> changed, each by one step, and
  the other tables are the same. Such changes compose while their id sets are disjoint.
\<close>

definition moved :: "int set \<Rightarrow> ('ev, 'id) store \<Rightarrow> ('ev, 'id) store \<Rightarrow> bool" where
  "moved A s s' \<longleftrightarrow>
     list_all2 (\<lambda>r r'. rowStep r r' \<and> (in_ID r \<notin> A \<longrightarrow> r' = r)) (inbox s) (inbox s') \<and>
     usage_identities s' = usage_identities s \<and> next_inbox s' = next_inbox s \<and> gorm_now s' = gorm_now s"

lemma moved_refl: "moved A s (s\<lparr>faults := fs\<rparr>)"
  by (auto simp: moved_def intro!: list_all2_refl)

lemma moved_mono: "moved A s s' \<Longrightarrow> A \<subseteq> B \<Longrightarrow> moved B s s'"
  unfolding moved_def by (auto elim!: list_all2_mono)

lemma moved_ids:
  assumes "moved A s s'"
  shows "map in_ID (inbox s') = map in_ID (inbox s)"
proof -
  have "list_all2 (\<lambda>r r'. in_ID r = in_ID r') (inbox s) (inbox s')"
    using assms unfolding moved_def by (auto elim!: list_all2_mono simp: rowStep_keeps)
  then show ?thesis by (simp add: list.rel_map flip: list.rel_eq) (simp add: list_all2_conv_all_nth)
qed

lemma moved_trans:
  assumes "moved A s s'" "moved B s' s''" "A \<inter> B = {}"
  shows "moved (A \<union> B) s s''"
proof -
  have step: "rowStep r r'' \<and> (in_ID r \<notin> A \<union> B \<longrightarrow> r'' = r)"
    if "rowStep r r' \<and> (in_ID r \<notin> A \<longrightarrow> r' = r)" "rowStep r' r'' \<and> (in_ID r' \<notin> B \<longrightarrow> r'' = r')" for r r' r''
  proof (cases "in_ID r \<in> A")
    case True
    then have "in_ID r' \<notin> B" using that(1) assms(3) rowStep_keeps by (metis disjoint_iff)
    then show ?thesis using that True by auto
  qed (use that in auto)
  show ?thesis using assms(1,2) list_all2_trans [OF step] by (auto simp: moved_def)
qed

lemma moved_open:
  assumes "moved A s s'" "openRow (inbox s) i" "i \<notin> A"
  shows "openRow (inbox s') i"
proof -
  have "i \<in> set (map in_ID (inbox s'))" using assms(1,2) moved_ids by (metis openRow_def)
  moreover have "processable r" if mem: "r \<in> set (inbox s')" and rid: "in_ID r = i" for r
  proof -
    obtain k where k: "k < length (inbox s')" "r = inbox s' ! k" using mem unfolding in_set_conv_nth by blast
    let ?r = "inbox s ! k"
    have "k < length (inbox s)" "rowStep ?r r" "in_ID ?r \<notin> A \<longrightarrow> r = ?r"
      using assms(1) k unfolding moved_def list_all2_conv_all_nth by auto
    moreover have "in_ID ?r = i" using rowStep_keeps [OF calculation(2)] rid by simp
    ultimately have "r = ?r" "?r \<in> set (inbox s)" using assms(3) by auto
    then show ?thesis using assms(2) rid by (simp add: openRow_def)
  qed
  ultimately show ?thesis by (simp add: openRow_def)
qed

lemma openRow_distinct:
  "distinct (map in_ID rows) \<Longrightarrow> r \<in> set rows \<Longrightarrow> processable r \<Longrightarrow> openRow rows (in_ID r)"
  by (auto simp: openRow_def distinct_map dest: inj_onD)

text \<open>\<open>progress A keys s s'\<close>: besides, the processed rows now also stand for the events \<open>keys\<close>.\<close>

definition progress :: "int set \<Rightarrow> string list \<Rightarrow> ('ev, 'id) store \<Rightarrow> ('ev, 'id) store \<Rightarrow> bool" where
  "progress A keys s s' \<longleftrightarrow>
     moved A s s' \<and> mset (bookedKeys (inbox s')) = mset (bookedKeys (inbox s)) + mset keys"

lemma progress_refl: "progress A [] s (s\<lparr>faults := fs\<rparr>)"
  by (simp add: progress_def moved_refl)

lemma progress_self [simp]: "progress A [] s s"
  using progress_refl [of A s "faults s"] by simp

lemma progress_trans:
  "progress A ks s s' \<Longrightarrow> progress B ls s' s'' \<Longrightarrow> A \<inter> B = {} \<Longrightarrow> progress (A \<union> B) (ks @ ls) s s''"
  by (auto simp: progress_def intro: moved_trans)

lemma progress_mono: "progress A ks s s' \<Longrightarrow> A \<subseteq> B \<Longrightarrow> progress B ks s s'"
  by (auto simp: progress_def intro: moved_mono)

lemma progress_open: "progress A ks s s' \<Longrightarrow> openRow (inbox s) i \<Longrightarrow> i \<notin> A \<Longrightarrow> openRow (inbox s') i"
  by (auto simp: progress_def intro: moved_open)

lemma progress_ids: "progress A ks s s' \<Longrightarrow> map in_ID (inbox s') = map in_ID (inbox s)"
  unfolding progress_def using moved_ids by blast

section \<open>The marks\<close>

lemma updateRows_faults: "updateRows p f (s\<lparr>faults := fs\<rparr>) = (updateRows p f s)\<lparr>faults := fs\<rparr>"
  by (simp add: updateRows_def)

lemma progress_faults [simp]: "progress A ks s (s'\<lparr>faults := fs\<rparr>) = progress A ks s s'"
  by (simp add: progress_def moved_def)

lemma processable_unbooked: "processable r \<Longrightarrow> bookedKey r = []"
  by (auto simp: processable_def bookedKey_def)

lemma bookedKey_stamp [simp]: "bookedKey (r\<lparr>in_UpdatedAt := t\<rparr>) = bookedKey r"
  by (simp add: bookedKey_def)

lemma updateRows_moved:
  assumes "\<And>i. p i \<Longrightarrow> i \<in> A" "\<And>r. r \<in> set (inbox s) \<Longrightarrow> p (in_ID r) \<Longrightarrow> rowMove r (f r)"
  shows "moved A s (updateRows p f s)"
  using assms unfolding moved_def updateRows_def
  by (auto simp: list_all2_conv_all_nth rowStep_def rowMove_def)

lemma update_one:
  assumes "openRow (inbox s) i" "\<And>r. processable r \<Longrightarrow> rowMove r (f r) \<and> bookedKey (f r) = []"
  shows "progress {i} [] s (updateRows (\<lambda>j. j = i) f s)"
proof -
  have "moved {i} s (updateRows (\<lambda>j. j = i) f s)"
    using assms by (intro updateRows_moved) (auto simp: openRow_def)
  moreover have "map bookedKey (inbox (updateRows (\<lambda>j. j = i) f s)) = map bookedKey (inbox s)"
    using assms by (auto simp: updateRows_def openRow_def processable_unbooked)
  ultimately show ?thesis by (simp add: progress_def bookedKeys_def)
qed

lemma stmt_update_one:
  assumes "stmt (updateRows (\<lambda>j. j = i) f) s = (s', e)" "openRow (inbox s) i"
    and "\<And>r. processable r \<Longrightarrow> rowMove r (f r) \<and> bookedKey (f r) = []"
  shows "progress {i} [] s s'"
  using assms(1)
  by (cases rule: stmt_cases) (use update_one [OF assms(2,3)] progress_refl in \<open>auto simp: updateRows_faults\<close>)

lemma mark_one:
  assumes "openRow (inbox s) i"
  shows "MarkRedisUsageInboxProcessed i [] at s = (s', e) \<Longrightarrow> progress {i} [] s s'"
    and "MarkRedisUsageInboxDecodeFailed i err s = (s', e) \<Longrightarrow> progress {i} [] s s'"
    and "MarkRedisUsageInboxProcessFailed i err s = (s', e) \<Longrightarrow> progress {i} [] s s'"
  unfolding MarkRedisUsageInboxProcessed_def MarkRedisUsageInboxDecodeFailed_def markRedisUsageInboxFailed_def
    MarkRedisUsageInboxProcessFailed_def
  by (auto elim!: stmt_update_one [OF _ assms]
      simp: rowMove_def bookedKey_def setProcessed_def setFailed_def setProcessFailed_def)

lemma mset_split_key:
  "distinct (map fst b) \<Longrightarrow> mset (map snd b) =
     mset (map snd (filter (\<lambda>u. fst u \<noteq> i) b)) + mset (case map_of b i of Some k \<Rightarrow> [k] | None \<Rightarrow> [])"
proof (induction b)
  case (Cons u b)
  show ?case
  proof (cases "fst u = i")
    case True
    then have "i \<notin> set (map fst b)" using Cons.prems by auto
    then have "filter (\<lambda>u. fst u \<noteq> i) b = b" by (auto simp: filter_id_conv)
    then show ?thesis using True by simp
  qed (use Cons in simp)
qed simp

lemma booked_batch:
  assumes "distinct (map fst b)" "distinct (map in_ID rows)" "set (map fst b) \<subseteq> set (map in_ID rows)"
    and "\<forall>r \<in> set rows. in_ID r \<in> set (map fst b) \<longrightarrow> bookedKey r = []"
  shows "mset (concat (map (\<lambda>r. case map_of b (in_ID r) of Some k \<Rightarrow> [k] | None \<Rightarrow> bookedKey r) rows))
    = mset (bookedKeys rows) + mset (map snd b)"
  using assms
proof (induction rows arbitrary: b)
  case (Cons r rows)
  let ?i = "in_ID r" and ?b = "filter (\<lambda>u. fst u \<noteq> in_ID r) b"
  have same: "map_of ?b j = map_of b j" if "j \<noteq> ?i" for j
    using that by (induction b) auto
  have "mset (concat (map (\<lambda>r. case map_of ?b (in_ID r) of Some k \<Rightarrow> [k] | None \<Rightarrow> bookedKey r) rows))
      = mset (bookedKeys rows) + mset (map snd ?b)"
    using Cons.prems by (intro Cons.IH) (auto simp: distinct_map_filter)
  moreover have "map (\<lambda>r. case map_of ?b (in_ID r) of Some k \<Rightarrow> [k] | None \<Rightarrow> bookedKey r) rows
      = map (\<lambda>r. case map_of b (in_ID r) of Some k \<Rightarrow> [k] | None \<Rightarrow> bookedKey r) rows"
    using Cons.prems(2) same by (intro map_cong refl) (metis distinct.simps(2) imageI list.set_map list.simps(9))
  moreover have "mset (map snd b) = mset (map snd ?b) + mset (case map_of b ?i of Some k \<Rightarrow> [k] | None \<Rightarrow> [])"
    using Cons.prems(1) by (rule mset_split_key)
  moreover have "map_of b ?i = None \<or> bookedKey r = []"
    using Cons.prems(4) by (auto simp: map_of_eq_None_iff)
  ultimately show ?case by (auto simp: bookedKeys_def split: option.splits)
qed (auto simp: bookedKeys_def)

lemma mark_batch:
  assumes "distinct (map fst b)" "distinct (map in_ID (inbox s))"
    and "\<forall>u \<in> set b. openRow (inbox s) (fst u) \<and> snd u \<noteq> []"
  shows "progress (set (map fst b)) (map snd b) s
    (updateRows (\<lambda>i. i \<in> set (map fst b)) (setProcessed (eventKeyCase b) at) s)"
proof -
  let ?s = "updateRows (\<lambda>i. i \<in> set (map fst b)) (setProcessed (eventKeyCase b) at) s"
  have "moved (set (map fst b)) s ?s"
    using assms(3) by (intro updateRows_moved) (auto simp: openRow_def rowMove_def setProcessed_def)
  moreover have "bookedKey (if in_ID r \<in> set (map fst b) then (setProcessed (eventKeyCase b) at r)\<lparr>in_UpdatedAt := t\<rparr> else r)
      = (case map_of b (in_ID r) of Some k \<Rightarrow> [k] | None \<Rightarrow> bookedKey r)" for r t
  proof (cases "map_of b (in_ID r)")
    case (Some k)
    then have "(in_ID r, k) \<in> set b" by (rule map_of_SomeD)
    then show ?thesis using Some assms(3) by (force simp: setProcessed_def bookedKey_def eventKeyCase_def)
  next
    case None
    then have "in_ID r \<notin> set (map fst b)" by (simp add: map_of_eq_None_iff)
    then show ?thesis by (simp add: None)
  qed
  then have "map bookedKey (inbox ?s)
      = map (\<lambda>r. case map_of b (in_ID r) of Some k \<Rightarrow> [k] | None \<Rightarrow> bookedKey r) (inbox s)"
    by (simp add: updateRows_def)
  moreover have "mset (concat (map (\<lambda>r. case map_of b (in_ID r) of Some k \<Rightarrow> [k] | None \<Rightarrow> bookedKey r) (inbox s)))
      = mset (bookedKeys (inbox s)) + mset (map snd b)"
    using assms processable_unbooked by (intro booked_batch) (auto simp: openRow_def)
  ultimately show ?thesis by (simp add: progress_def bookedKeys_def)
qed

lemma markBatches_progress:
  assumes "markBatches start updates at s = (s', None)"
    and "distinct (map fst updates)" "distinct (map in_ID (inbox s))"
    and "\<forall>u \<in> set updates. openRow (inbox s) (fst u) \<and> snd u \<noteq> []"
  shows "progress (set (map fst updates)) (map snd updates) s s'"
  using assms
proof (induction start updates at s rule: markBatches.induct)
  case (1 start updates at s)
  show ?case
  proof (cases "updates = []")
    case True
    then show ?thesis using 1(2) progress_refl [of "{}" s "faults s"] by (simp add: markBatches.simps)
  next
    case False
    let ?N = redisUsageInboxProcessedBatchSize
    let ?b = "take ?N updates" and ?rest = "drop ?N updates"
    let ?upd = "updateRows (\<lambda>i. i \<in> set (map fst ?b)) (setProcessed (eventKeyCase ?b) at)"
    obtain s1 where st: "stmt ?upd s = (s1, None)" and rest: "markBatches (start + ?N) ?rest at s1 = (s', None)"
      using 1(2) False unfolding markBatches.simps [of start updates]
      by (auto simp: Let_def split: prod.splits option.splits)
    have split: "updates = ?b @ ?rest" by simp
    have dist: "distinct (map fst ?b)" "distinct (map fst ?rest)" "set (map fst ?b) \<inter> set (map fst ?rest) = {}"
      using 1(3) distinct_append [of "map fst ?b" "map fst ?rest"] by (simp_all flip: map_append)
    have sub: "set ?b \<subseteq> set updates" "set ?rest \<subseteq> set updates" by (simp_all add: set_take_subset set_drop_subset)
    obtain fs where "s1 = ?upd (s\<lparr>faults := fs\<rparr>)" using st by (cases rule: stmt_cases) auto
    moreover have "\<forall>u \<in> set ?b. openRow (inbox s) (fst u) \<and> snd u \<noteq> []" using 1(5) sub(1) by blast
    ultimately have one: "progress (set (map fst ?b)) (map snd ?b) s s1"
      using mark_batch [OF dist(1) 1(4)] by (simp only: updateRows_faults progress_faults)
    have "progress (set (map fst ?rest)) (map snd ?rest) s1 s'"
    proof (rule 1(1) [OF False refl st [symmetric] refl rest dist(2)])
      show "distinct (map in_ID (inbox s1))" using 1(4) progress_ids [OF one] by simp
      show "\<forall>u \<in> set ?rest. openRow (inbox s1) (fst u) \<and> snd u \<noteq> []"
      proof
        fix u assume u: "u \<in> set ?rest"
        then have "fst u \<notin> set (map fst ?b)" using dist(3) by (metis disjoint_iff image_eqI list.set_map)
        moreover have "openRow (inbox s) (fst u)" "snd u \<noteq> []" using 1(5) sub(2) u by blast+
        ultimately show "openRow (inbox s1) (fst u) \<and> snd u \<noteq> []" using progress_open [OF one] by blast
      qed
    qed
    from progress_trans [OF one this dist(3)] show ?thesis
      by (simp only: flip: set_append map_append) simp
  qed
qed

end
