(* ===== verification/Usage_Event.thy ===== *)
theory Usage_Event
  imports Token_Process Usage_Inbox
begin

text \<open>
  The usage event and how a raw message becomes one: \<^verbatim>\<open>internal/entities/usage_event.go\<close>,
  \<^verbatim>\<open>internal/service/redis_usage.go\<close> and \<open>InsertUsageEvents\<close> of
  \<^verbatim>\<open>internal/repository/db.go\<close>. The JSON decoder of the standard library is the parameter
  \<open>unmarshal\<close>, \<open>net.ParseIP\<close> is \<open>parseIP\<close>; the response headers and the quota projection built
  from them are the parameter \<open>buildSnapshot\<close>.
\<close>

section \<open>usage\_event.go\<close>

record UsageEvent =
  ev_ID :: int
  EventKey :: string
  APIGroupKey :: string
  ev_Provider :: string
  Endpoint :: string
  AuthType :: string
  RequestID :: string
  SessionID :: string
  ParentSessionID :: "string option"
  ClientIP :: "string option"
  XForwardedFor :: "string option"
  UserAgent :: "string option"
  Model :: string
  ModelAlias :: "string option"
  ResponseModel :: string
  ReasoningEffort :: string
  ServiceTier :: string
  ResponseServiceTier :: string
  ev_ExecutorType :: string
  Timestamp :: gotime
  ev_Source :: string
  AuthIndex :: string
  ev_Failed :: bool
  StatusCode :: "int option"
  Generate :: "bool option"
  ev_Stream :: "bool option"
  LatencyMS :: int
  TTFTMS :: "int option"
  ev_InputTokens :: int
  ev_OutputTokens :: int
  ev_ReasoningTokens :: int
  ev_CachedTokens :: int
  ev_CacheReadTokens :: int
  ev_CacheReadPresent :: bool
  ev_CacheCreationTokens :: int
  ev_TotalTokens :: int

section \<open>redis\_usage.go\<close>

record TokenStats =
  ts_InputTokens :: int
  ts_OutputTokens :: int
  ts_ReasoningTokens :: int
  ts_CachedTokens :: int
  ts_CacheReadTokens :: int
  ts_CacheReadPresent :: bool
  ts_CacheCreationTokens :: int
  ts_TotalTokens :: int

record queuedUsageDetail =
  q_Timestamp :: gotime
  q_LatencyMS :: int
  q_TTFTMS :: "int option"
  q_Source :: string
  q_AuthIndex :: string
  q_ClientIP :: "string option"
  q_ResolvedClientIP :: "string option"
  q_XForwardedFor :: "string option"
  q_UserAgent :: "string option"
  q_Tokens :: TokenStats
  q_Failed :: bool
  q_Generate :: "bool option"
  q_Provider :: string
  q_Model :: string
  q_Alias :: "string option"
  q_ResponseModel :: string
  q_ReasoningEffort :: string
  q_ServiceTier :: string
  q_ResponseServiceTier :: string
  q_ExecutorType :: string
  q_Endpoint :: string
  q_AuthType :: string
  q_APIKey :: string
  q_RequestID :: string
  q_SessionID :: string
  q_ParentSessionID :: string
  q_Stream :: "bool option"
  q_StatusCode :: "int option"
  q_ResponseHeaders :: string

definition normalizeRedisAuthType :: "string \<Rightarrow> string" where
  "normalizeRedisAuthType v =
     (let trimmed = ToLower (TrimSpace v) in if trimmed = ''api_key'' then ''apikey'' else trimmed)"

definition trimRedisOptionalString :: "string option \<Rightarrow> string option" where
  "trimRedisOptionalString v =
     (case v of None \<Rightarrow> None
      | Some x \<Rightarrow> (let trimmed = TrimSpace x in if trimmed = [] then None else Some trimmed))"

definition clientIP :: "(string \<Rightarrow> bool) \<Rightarrow> queuedUsageDetail \<Rightarrow> string option" where
  "clientIP parseIP d =
     (case trimRedisOptionalString (q_ResolvedClientIP d) of
        Some resolved \<Rightarrow> if parseIP resolved then Some resolved else q_ClientIP d
      | None \<Rightarrow> q_ClientIP d)"

definition redisTokenStatsAllZero :: "TokenStats \<Rightarrow> bool" where
  "redisTokenStatsAllZero t \<longleftrightarrow>
     ts_InputTokens t = 0 \<and> ts_OutputTokens t = 0 \<and> ts_ReasoningTokens t = 0 \<and> ts_CachedTokens t = 0 \<and>
     ts_CacheReadTokens t = 0 \<and> ts_CacheCreationTokens t = 0 \<and> ts_TotalTokens t = 0"

definition normalizeRedisGenerate :: "bool option \<Rightarrow> bool \<Rightarrow> string \<Rightarrow> TokenStats \<Rightarrow> bool option" where
  "normalizeRedisGenerate v failed executor tokens =
     (case v of
        Some b \<Rightarrow> Some b
      | None \<Rightarrow>
          if \<not> failed \<and> TrimSpace executor = ''CodexWebsocketsExecutor'' \<and> redisTokenStatsAllZero tokens
          then Some False else Some True)"

fun firstNonEmpty :: "string list \<Rightarrow> string" where
  "firstNonEmpty [] = []"
| "firstNonEmpty (v # vs) = (let trimmed = TrimSpace v in if trimmed \<noteq> [] then trimmed else firstNonEmpty vs)"

definition toUsageEvent :: "(string \<Rightarrow> bool) \<Rightarrow> queuedUsageDetail \<Rightarrow> gotime \<Rightarrow> UsageEvent" where
  "toUsageEvent parseIP d fetchedAt =
     \<lparr>ev_ID = 0,
      EventKey = TrimSpace (q_RequestID d),
      APIGroupKey = firstNonEmpty [q_APIKey d, q_Provider d, q_Endpoint d, ''unknown''],
      ev_Provider = TrimSpace (q_Provider d),
      Endpoint = TrimSpace (q_Endpoint d),
      AuthType = normalizeRedisAuthType (q_AuthType d),
      RequestID = TrimSpace (q_RequestID d),
      SessionID = TrimSpace (q_SessionID d),
      ParentSessionID = trimRedisOptionalString (Some (q_ParentSessionID d)),
      ClientIP = clientIP parseIP d,
      XForwardedFor = q_XForwardedFor d,
      UserAgent = q_UserAgent d,
      Model = firstNonEmpty [q_Model d, ''unknown''],
      ModelAlias = trimRedisOptionalString (q_Alias d),
      ResponseModel = TrimSpace (q_ResponseModel d),
      ReasoningEffort = TrimSpace (q_ReasoningEffort d),
      ServiceTier = TrimSpace (q_ServiceTier d),
      ResponseServiceTier = TrimSpace (q_ResponseServiceTier d),
      ev_ExecutorType = TrimSpace (q_ExecutorType d),
      Timestamp = (if q_Timestamp d = zero_time then fetchedAt else q_Timestamp d),
      ev_Source = TrimSpace (q_Source d),
      AuthIndex = TrimSpace (q_AuthIndex d),
      ev_Failed = q_Failed d,
      StatusCode = q_StatusCode d,
      Generate = normalizeRedisGenerate (q_Generate d) (q_Failed d) (q_ExecutorType d) (q_Tokens d),
      ev_Stream = q_Stream d,
      LatencyMS = max (q_LatencyMS d) 0,
      TTFTMS = q_TTFTMS d,
      ev_InputTokens = ts_InputTokens (q_Tokens d),
      ev_OutputTokens = ts_OutputTokens (q_Tokens d),
      ev_ReasoningTokens = ts_ReasoningTokens (q_Tokens d),
      ev_CachedTokens = ts_CachedTokens (q_Tokens d),
      ev_CacheReadTokens = ts_CacheReadTokens (q_Tokens d),
      ev_CacheReadPresent = ts_CacheReadPresent (q_Tokens d),
      ev_CacheCreationTokens = ts_CacheCreationTokens (q_Tokens d),
      ev_TotalTokens = ts_TotalTokens (q_Tokens d)\<rparr>"

definition toUsageHeaderSnapshot ::
  "(string \<Rightarrow> UsageEvent \<Rightarrow> string \<Rightarrow> 'snap option) \<Rightarrow> queuedUsageDetail \<Rightarrow> UsageEvent \<Rightarrow> 'snap option" where
  "toUsageHeaderSnapshot buildSnapshot d event =
     (if AuthType event \<noteq> ''oauth'' \<or> AuthIndex event = [] then None
      else case UsageProvider (ev_Provider event) (ev_ExecutorType event) of
             (provider, supported) \<Rightarrow>
               if \<not> supported then None else buildSnapshot (q_ResponseHeaders d) event provider)"

definition DecodeRedisUsageMessageWithHeaders ::
  "(string \<Rightarrow> string + queuedUsageDetail) \<Rightarrow> (string \<Rightarrow> bool) \<Rightarrow> (string \<Rightarrow> UsageEvent \<Rightarrow> string \<Rightarrow> 'snap option)
   \<Rightarrow> string \<Rightarrow> gotime \<Rightarrow> string + UsageEvent \<times> 'snap option" where
  "DecodeRedisUsageMessageWithHeaders unmarshal parseIP buildSnapshot message fetchedAt =
     (case unmarshal message of
        Inl e \<Rightarrow> Inl (''decode redis usage message: '' @ e)
      | Inr payload \<Rightarrow>
          if TrimSpace (q_RequestID payload) = []
          then Inl ''decode redis usage message: request_id is required''
          else
            (let event = toUsageEvent parseIP payload fetchedAt
             in Inr (event, toUsageHeaderSnapshot buildSnapshot payload event)))"

definition DecodeRedisUsageMessage ::
  "(string \<Rightarrow> string + queuedUsageDetail) \<Rightarrow> (string \<Rightarrow> bool) \<Rightarrow> string \<Rightarrow> gotime \<Rightarrow> string + UsageEvent" where
  "DecodeRedisUsageMessage unmarshal parseIP message fetchedAt =
     (case DecodeRedisUsageMessageWithHeaders unmarshal parseIP (\<lambda>_ _ _. None :: unit option) message fetchedAt of
        Inl e \<Rightarrow> Inl e
      | Inr (event, _) \<Rightarrow> Inr event)"

section \<open>db.go: InsertUsageEvents\<close>

fun numberEvents :: "int \<Rightarrow> UsageEvent list \<Rightarrow> UsageEvent list" where
  "numberEvents n [] = []"
| "numberEvents n (e # es) = e\<lparr>ev_ID := n\<rparr> # numberEvents (n + 1) es"

definition createEvents :: "UsageEvent list \<Rightarrow> (UsageEvent, 'id) store \<Rightarrow> (UsageEvent, 'id) store" where
  "createEvents batch s = s\<lparr>usage_events := usage_events s @ numberEvents (next_event s) batch,
                            next_event := next_event s + int (length batch)\<rparr>"

text \<open>The batches, with the events as GORM leaves them (their ids filled in) and the rows inserted.\<close>

function insertEventBatches ::
  "nat \<Rightarrow> UsageEvent list \<Rightarrow> (UsageEvent, 'id) store \<Rightarrow> (UsageEvent, 'id) store \<times> (string + UsageEvent list)" where
  "insertEventBatches sz events s =
     (if events = [] \<or> sz = 0 then (s, Inr [])
      else case stmt (createEvents (take sz events)) s of
             (s', Some e) \<Rightarrow> (s', Inl (''insert usage events: '' @ e))
           | (s', None) \<Rightarrow>
               (case insertEventBatches sz (drop sz events) s' of
                  (s'', Inl e) \<Rightarrow> (s'', Inl e)
                | (s'', Inr stored) \<Rightarrow> (s'', Inr (numberEvents (next_event s) (take sz events) @ stored))))"
  by pat_completeness auto
termination
  by (relation "measure (\<lambda>(sz, events, s). length events)") auto

declare insertEventBatches.simps [simp del]

definition InsertUsageEvents ::
  "int \<Rightarrow> UsageEvent list \<Rightarrow> (UsageEvent, 'id) store \<Rightarrow> (UsageEvent, 'id) store \<times> (string + UsageEvent list)" where
  "InsertUsageEvents columns events s =
     (if events = [] then (s, Inr [])
      else transaction (insertEventBatches (nat (insertBatchSize columns)) events) s)"

section \<open>Facts on decoded and stored events\<close>

lemma decoded_key: "DecodeRedisUsageMessageWithHeaders unmarshal parseIP build m t = Inr (event, snap) \<Longrightarrow> EventKey event \<noteq> []"
  by (auto simp: DecodeRedisUsageMessageWithHeaders_def toUsageEvent_def Let_def split: sum.splits if_splits)

lemma numberEvents_simps [simp]:
  "length (numberEvents n es) = length es"
  "map EventKey (numberEvents n es) = map EventKey es"
  "numberEvents n es = [] \<longleftrightarrow> es = []"
  "numberEvents n (numberEvents n es) = numberEvents n es"
  by (induction es arbitrary: n) auto

lemma numberEvents_append: "numberEvents n (es @ fs) = numberEvents n es @ numberEvents (n + int (length es)) fs"
  by (induction es arbitrary: n) (auto simp: algebra_simps)

lemma insertBatchSize_pos: "0 < insertBatchSize c"
  by (simp add: insertBatchSize_def Let_def)

text \<open>
  \<open>booked A evs s s'\<close>: the events \<open>evs\<close> were appended with the next ids, the rows with an id in
  \<open>A\<close> moved by one step, and the processed rows account for exactly those events.
\<close>

definition booked :: "int set \<Rightarrow> UsageEvent list \<Rightarrow> (UsageEvent, 'id) store \<Rightarrow> (UsageEvent, 'id) store \<Rightarrow> bool" where
  "booked A evs s s' \<longleftrightarrow> progress A (map EventKey evs) s s' \<and>
     usage_events s' = usage_events s @ evs \<and> next_event s' = next_event s + int (length evs) \<and>
     numberEvents (next_event s) evs = evs"

lemma booked_self [simp]: "booked A [] s s"
  by (simp add: booked_def)

lemma booked_trans:
  "booked A es s s' \<Longrightarrow> booked B fs s' s'' \<Longrightarrow> A \<inter> B = {} \<Longrightarrow> booked (A \<union> B) (es @ fs) s s''"
  by (auto simp: booked_def numberEvents_append intro: progress_trans)

lemma booked_mono: "booked A es s s' \<Longrightarrow> A \<subseteq> B \<Longrightarrow> booked B es s s'"
  by (auto simp: booked_def intro: progress_mono)

lemma booked_open: "booked A es s s' \<Longrightarrow> openRow (inbox s) i \<Longrightarrow> i \<notin> A \<Longrightarrow> openRow (inbox s') i"
  by (auto simp: booked_def intro: progress_open)

lemma booked_ids: "booked A es s s' \<Longrightarrow> map in_ID (inbox s') = map in_ID (inbox s)"
  unfolding booked_def using progress_ids by blast

lemma booked_faults [simp]: "booked A es s (s'\<lparr>faults := fs\<rparr>) = booked A es s s'"
  by (simp add: booked_def)

lemma stmt_keeps_events:
  assumes "stmt (updateRows p f) s = (s', e)"
  shows "usage_events s' = usage_events s" "next_event s' = next_event s"
  using assms by (auto elim!: stmt_cases simp: updateRows_def)

lemma mark_booked:
  assumes "openRow (inbox s) i"
  shows "MarkRedisUsageInboxProcessed i [] at s = (s', e) \<Longrightarrow> booked {i} [] s s'"
    and "MarkRedisUsageInboxDecodeFailed i err s = (s', e) \<Longrightarrow> booked {i} [] s s'"
    and "MarkRedisUsageInboxProcessFailed i err s = (s', e) \<Longrightarrow> booked {i} [] s s'"
  using mark_one [OF assms] stmt_keeps_events
  unfolding booked_def MarkRedisUsageInboxProcessed_def MarkRedisUsageInboxDecodeFailed_def
    markRedisUsageInboxFailed_def MarkRedisUsageInboxProcessFailed_def
  by fastforce+

lemma createEvents_faults: "createEvents b (s\<lparr>faults := fs\<rparr>) = (createEvents b s)\<lparr>faults := fs\<rparr>"
  by (simp add: createEvents_def)

lemma createEvents_append: "createEvents (b @ c) s = createEvents c (createEvents b s)"
  by (simp add: createEvents_def numberEvents_append algebra_simps)

lemma insertEventBatches_stores:
  assumes "insertEventBatches sz events s = (s', Inr stored)" "0 < sz"
  shows "stored = numberEvents (next_event s) events \<and> (\<exists>fs. s' = (createEvents events s)\<lparr>faults := fs\<rparr>)"
  using assms
proof (induction sz events s arbitrary: s' stored rule: insertEventBatches.induct)
  case (1 sz events s)
  show ?case
  proof (cases "events = []")
    case True
    then have "s' = s" "stored = []" using 1(2) by (simp_all add: insertEventBatches.simps)
    then show ?thesis using True by (intro conjI exI [of _ "faults s"]) (simp_all add: createEvents_def)
  next
    case False
    let ?b = "take sz events"
    obtain s1 rest where st: "stmt (createEvents ?b) s = (s1, None)"
      and rec: "insertEventBatches sz (drop sz events) s1 = (s', Inr rest)"
      and stored: "stored = numberEvents (next_event s) ?b @ rest"
      using 1(2,3) False unfolding insertEventBatches.simps [of sz events s]
      by (auto split: prod.splits option.splits sum.splits)
    obtain fs where s1: "s1 = (createEvents ?b s)\<lparr>faults := fs\<rparr>"
      using st by (cases rule: stmt_cases) (auto simp: createEvents_faults)
    have cond: "\<not> (events = [] \<or> sz = 0)" using False 1(3) by simp
    have rest: "rest = numberEvents (next_event s1) (drop sz events)" and
      "\<exists>fs. s' = (createEvents (drop sz events) s1)\<lparr>faults := fs\<rparr>"
      using 1(1) [OF cond st [symmetric] refl rec 1(3)] by simp_all
    then have "\<exists>fs. s' = (createEvents events s)\<lparr>faults := fs\<rparr>"
      using createEvents_append [of ?b "drop sz events" s] by (auto simp: s1 createEvents_faults)
    moreover have "stored = numberEvents (next_event s) events"
      using stored rest s1 numberEvents_append [of "next_event s" ?b "drop sz events"] by (simp add: createEvents_def)
    ultimately show ?thesis by blast
  qed
qed

lemma InsertUsageEvents_stores:
  assumes "InsertUsageEvents columns events s = (s', Inr stored)"
  shows "stored = numberEvents (next_event s) events \<and> (\<exists>fs. s' = (createEvents events s)\<lparr>faults := fs\<rparr>)"
proof (cases "events = []")
  case True
  then have "s' = s" "stored = []" using assms by (simp_all add: InsertUsageEvents_def)
  then show ?thesis using True by (intro conjI exI [of _ "faults s"]) (simp_all add: createEvents_def)
next
  case False
  then have "transaction (insertEventBatches (nat (insertBatchSize columns)) events) s = (s', Inr stored)"
    using assms by (simp add: InsertUsageEvents_def)
  then show ?thesis
    by (cases rule: transaction_cases)
       (use insertBatchSize_pos [of columns] in \<open>auto dest!: insertEventBatches_stores\<close>)
qed

end
