(* ===== verification/Usage_Counts.thy ===== *)
theory Usage_Counts
  imports Usage_Event "HOL-Library.Multiset"
begin

text \<open>
  The counters that the aggregate tables keep of usage events: one value per table row, with
  componentwise addition, what an event adds, and sums over events. A table that lacks a column
  keeps 0 there.
\<close>

section \<open>Counters\<close>

datatype Counts = Counts
  (RequestCount: int) (SuccessCount: int) (FailureCount: int) (c_InputTokens: int) (c_OutputTokens: int)
  (c_ReasoningTokens: int) (c_CachedTokens: int) (c_CacheReadTokens: int) (c_CacheCreationTokens: int) (c_TotalTokens: int)

instantiation Counts :: comm_monoid_add
begin

definition zero_Counts :: Counts where
  "0 = Counts 0 0 0 0 0 0 0 0 0 0"

definition plus_Counts :: "Counts \<Rightarrow> Counts \<Rightarrow> Counts" where
  "a + b = Counts (RequestCount a + RequestCount b) (SuccessCount a + SuccessCount b) (FailureCount a + FailureCount b)
     (c_InputTokens a + c_InputTokens b) (c_OutputTokens a + c_OutputTokens b)
     (c_ReasoningTokens a + c_ReasoningTokens b) (c_CachedTokens a + c_CachedTokens b)
     (c_CacheReadTokens a + c_CacheReadTokens b) (c_CacheCreationTokens a + c_CacheCreationTokens b)
     (c_TotalTokens a + c_TotalTokens b)"

instance
proof
qed (simp_all add: plus_Counts_def zero_Counts_def add_ac)

end

text \<open>What one event adds to a row of the overview.\<close>

definition eventCounts :: "UsageEvent \<Rightarrow> Counts" where
  "eventCounts e = Counts 1 (if ev_Failed e then 0 else 1) (if ev_Failed e then 1 else 0)
     (ev_InputTokens e) (ev_OutputTokens e) (ev_ReasoningTokens e) (ev_CachedTokens e)
     (ev_CacheReadTokens e) (ev_CacheCreationTokens e) (ev_TotalTokens e)"

section \<open>Sums of counters\<close>

definition nonneg :: "Counts \<Rightarrow> bool" where
  "nonneg c \<longleftrightarrow> 0 \<le> RequestCount c \<and> 0 \<le> SuccessCount c \<and> 0 \<le> FailureCount c \<and> 0 \<le> c_InputTokens c \<and>
     0 \<le> c_OutputTokens c \<and> 0 \<le> c_ReasoningTokens c \<and> 0 \<le> c_CachedTokens c \<and> 0 \<le> c_CacheReadTokens c \<and>
     0 \<le> c_CacheCreationTokens c \<and> 0 \<le> c_TotalTokens c"

definition fits :: "Counts \<Rightarrow> bool" where
  "fits c \<longleftrightarrow> nonneg c \<and> RequestCount c \<le> MaxInt64 \<and> SuccessCount c \<le> MaxInt64 \<and> FailureCount c \<le> MaxInt64 \<and>
     c_InputTokens c \<le> MaxInt64 \<and> c_OutputTokens c \<le> MaxInt64 \<and> c_ReasoningTokens c \<le> MaxInt64 \<and>
     c_CachedTokens c \<le> MaxInt64 \<and> c_CacheReadTokens c \<le> MaxInt64 \<and> c_CacheCreationTokens c \<le> MaxInt64 \<and>
     c_TotalTokens c \<le> MaxInt64"

lemma nonneg_zero [simp]: "nonneg 0"
  by (simp add: nonneg_def zero_Counts_def)

lemma fits_zero [simp]: "fits 0"
  by (simp add: fits_def nonneg_def zero_Counts_def MaxInt64_def)

lemma nonneg_add [simp]: "nonneg a \<Longrightarrow> nonneg b \<Longrightarrow> nonneg (a + b)"
  by (simp add: nonneg_def plus_Counts_def)

lemma nonneg_sum_list: "(\<forall>x \<in> set xs. nonneg (f x)) \<Longrightarrow> nonneg (sum_list (map f xs))"
  by (induction xs) auto

lemma fits_part: "fits (a + b) \<Longrightarrow> nonneg a \<Longrightarrow> nonneg b \<Longrightarrow> fits a"
  by (simp add: fits_def nonneg_def plus_Counts_def)

lemma sum_list_split:
  "sum_list (map f xs) = sum_list (map f (filter P xs)) + sum_list (map f (filter (\<lambda>x. \<not> P x) xs))"
  for f :: "'a \<Rightarrow> 'b::comm_monoid_add"
  by (induction xs) (simp_all add: add_ac)

lemma fits_filter:
  assumes "fits (sum_list (map f xs))" "\<forall>x \<in> set xs. nonneg (f x)"
  shows "fits (sum_list (map f (filter P xs)))"
proof (rule fits_part)
  show "fits (sum_list (map f (filter P xs)) + sum_list (map f (filter (\<lambda>x. \<not> P x) xs)))"
    using assms(1) sum_list_split [of f xs P] by simp
qed (use assms(2) in \<open>auto intro!: nonneg_sum_list\<close>)

lemma i64_small: "0 \<le> x \<Longrightarrow> x \<le> MaxInt64 \<Longrightarrow> i64 x = x"
  by (simp add: in_i64_def MinInt64_def)

definition eventSum :: "('e \<Rightarrow> Counts) \<Rightarrow> ('e \<Rightarrow> bool) \<Rightarrow> 'e list \<Rightarrow> Counts" where
  "eventSum cnt P es = sum_list (map cnt (filter P es))"

lemma eventSum_append [simp]: "eventSum cnt P (xs @ ys) = eventSum cnt P xs + eventSum cnt P ys"
  by (simp add: eventSum_def)

lemma eventSum_Nil [simp]: "eventSum cnt P [] = 0"
  by (simp add: eventSum_def)

text \<open>The events of a page are countable: no negative count, and their sum is an \<open>int64\<close>.\<close>

definition countable_events :: "('e \<Rightarrow> Counts) \<Rightarrow> 'e list \<Rightarrow> bool" where
  "countable_events cnt es \<longleftrightarrow> (\<forall>e \<in> set es. nonneg (cnt e)) \<and> fits (sum_list (map cnt es))"

lemma countable_fits: "countable_events cnt es \<Longrightarrow> fits (eventSum cnt P es)"
  by (simp add: countable_events_def eventSum_def fits_filter)

lemma countable_nonneg: "countable_events cnt es \<Longrightarrow> nonneg (eventSum cnt P es)"
  by (auto simp: countable_events_def eventSum_def intro!: nonneg_sum_list)

lemma countable_append:
  assumes "countable_events cnt (xs @ ys)"
  shows "countable_events cnt xs" "countable_events cnt ys"
proof -
  have nn: "nonneg (sum_list (map cnt xs))" "nonneg (sum_list (map cnt ys))"
    using assms by (auto simp: countable_events_def intro!: nonneg_sum_list)
  have f: "fits (sum_list (map cnt xs) + sum_list (map cnt ys))" using assms by (simp add: countable_events_def)
  then show "countable_events cnt xs" using assms fits_part [OF f nn] by (simp add: countable_events_def)
  have "fits (sum_list (map cnt ys) + sum_list (map cnt xs))" using f by (simp add: add.commute)
  from fits_part [OF this nn(2,1)] show "countable_events cnt ys" using assms by (simp add: countable_events_def)
qed

lemma countable_filter: "countable_events cnt es \<Longrightarrow> countable_events cnt (filter P es)"
  by (auto simp: countable_events_def intro!: fits_filter)

end
