(* ===== verification/Usage_Sync.thy ===== *)
theory Usage_Sync
  imports Usage_Counts
begin

text \<open>
  The local half of the ingest: \<^verbatim>\<open>internal/service/sync.go\<close> takes the processable rows of the
  inbox, decodes them, settles their token counts and writes the events together with the new
  row states. Errors are their texts, as \<open>joinErrors\<close> handles them. What follows the commit
  (recent cache, aggregation notice, header snapshots) is returned as a list of notices; the
  synchronous aggregation of the path without a notifier is the parameter \<open>aggregateFallback\<close>,
  and the check whether it has work to do is \<open>aggregationPending\<close>. Logging is left out.
\<close>

section \<open>Results\<close>

record RedisBatchSyncResult =
  Empty :: bool
  res_Status :: string
  InsertedEvents :: nat
  DedupedEvents :: nat
  ProcessedRows :: nat
  BatchFull :: bool
  RetryPending :: bool
  DiscardedRows :: nat

definition redisInboxProcessLimit :: nat where
  "redisInboxProcessLimit = 1000"

definition newRedisBatchSyncResult :: "string \<Rightarrow> nat \<Rightarrow> RedisBatchSyncResult" where
  "newRedisBatchSyncResult status processedRows =
     \<lparr>Empty = False, res_Status = status, InsertedEvents = 0, DedupedEvents = 0, ProcessedRows = processedRows,
      BatchFull = (processedRows \<ge> redisInboxProcessLimit), RetryPending = False, DiscardedRows = 0\<rparr>"

fun joinWith :: "string \<Rightarrow> string list \<Rightarrow> string" where
  "joinWith sep [] = []"
| "joinWith sep [x] = x"
| "joinWith sep (x # y # zs) = x @ sep @ joinWith sep (y # zs)"

definition joinErrors :: "string option list \<Rightarrow> string option" where
  "joinErrors errs =
     (let messages = map TrimSpace (concat (map (\<lambda>e. case e of None \<Rightarrow> [] | Some m \<Rightarrow> [m]) errs))
      in if messages = [] then None else Some (joinWith ''; '' messages))"

record redisInboxFailureCounts =
  processFailed :: nat
  discarded :: nat
  statusUncertain :: bool

definition noFailures :: redisInboxFailureCounts where
  "noFailures = \<lparr>processFailed = 0, discarded = 0, statusUncertain = False\<rparr>"

definition counts_add :: "redisInboxFailureCounts \<Rightarrow> redisInboxFailureCounts \<Rightarrow> redisInboxFailureCounts" where
  "counts_add a b = \<lparr>processFailed = processFailed a + processFailed b, discarded = discarded a + discarded b,
                     statusUncertain = (statusUncertain a \<or> statusUncertain b)\<rparr>"

definition requiresRetryWait :: "redisInboxFailureCounts \<Rightarrow> bool" where
  "requiresRetryWait counts \<longleftrightarrow> processFailed counts > 0 \<or> statusUncertain counts"

section \<open>Identity types\<close>

datatype UsageIdentityAuthType = UsageIdentityAuthTypeAuthFile | UsageIdentityAuthTypeAIProvider

text \<open>
  A row of \<open>usage_identities\<close>. Its nine counters are one \<^typ>\<open>Counts\<close> value (the table has no
  column for cache creation), the six baselines of a reset another.
\<close>

record UsageIdentity =
  id_ID :: int
  id_Name :: string
  id_Alias :: "string option"
  id_AuthType :: UsageIdentityAuthType
  id_AuthTypeName :: string
  Identity :: string
  id_Type :: string
  id_Provider :: string
  id_LookupKey :: string
  id_Prefix :: string
  id_BaseURL :: string
  id_FileName :: "string option"
  id_FilePath :: "string option"
  id_Priority :: "int option"
  id_Disabled :: "bool option"
  id_Note :: "string option"
  id_AccountID :: "string option"
  id_ProjectID :: "string option"
  id_XAIUserID :: "string option"
  id_ActiveStart :: "gotime option"
  id_ActiveUntil :: "gotime option"
  id_PlanType :: "string option"
  id_totals :: Counts
  id_StatsResetAt :: "gotime option"
  id_reset :: Counts
  id_LastAggregatedUsageEventID :: int
  id_FirstUsedAt :: "gotime option"
  id_LastUsedAt :: "gotime option"
  id_StatsUpdatedAt :: "gotime option"
  IsDeleted :: bool
  id_CreatedAt :: gotime
  id_UpdatedAt :: gotime
  id_DeletedAt :: "gotime option"

type_synonym identityKey = "UsageIdentityAuthType \<times> string"
type_synonym db = "(UsageEvent, UsageIdentity) store"

definition redisUsageIdentityAuthType :: "string \<Rightarrow> UsageIdentityAuthType option" where
  "redisUsageIdentityAuthType authType =
     (let a = normalizeRedisAuthType authType in
      if a = ''oauth'' then Some UsageIdentityAuthTypeAuthFile
      else if a = ''apikey'' then Some UsageIdentityAuthTypeAIProvider else None)"

fun identityKeysFrom :: "identityKey list \<Rightarrow> UsageEvent list \<Rightarrow> identityKey list" where
  "identityKeysFrom keys [] = keys"
| "identityKeysFrom keys (event # es) =
     (let authIndex = TrimSpace (AuthIndex event) in
      if authIndex = [] then identityKeysFrom keys es
      else case redisUsageIdentityAuthType (AuthType event) of
             None \<Rightarrow> identityKeysFrom keys es
           | Some t \<Rightarrow>
               if (t, authIndex) \<in> set keys then identityKeysFrom keys es
               else identityKeysFrom (keys @ [(t, authIndex)]) es)"

definition redisUsageIdentityKeys :: "UsageEvent list \<Rightarrow> identityKey list" where
  "redisUsageIdentityKeys events = identityKeysFrom [] events"

text \<open>The grouping map, its keys in the order of the run's iteration.\<close>

fun groupRedisUsageIdentityKeysByAuthType ::
  "identityKey list \<Rightarrow> (UsageIdentityAuthType \<times> string list) list" where
  "groupRedisUsageIdentityKeysByAuthType keys =
     map (\<lambda>t. (t, map snd (filter (\<lambda>k. fst k = t) keys))) (remdups (map fst keys))"

function loadBatches ::
  "UsageIdentityAuthType \<Rightarrow> string list \<Rightarrow> bool \<Rightarrow> UsageIdentity list \<Rightarrow> db \<Rightarrow> db \<times> (string + UsageIdentity list)" where
  "loadBatches authType ids isDeleted rows s =
     (if ids = [] then (s, Inr rows)
      else case query (\<lambda>t. filter (\<lambda>r. id_AuthType r = authType \<and> Identity r \<in> set (take 500 ids) \<and> IsDeleted r = isDeleted)
                             (usage_identities t)) s of
             (s', Inl e) \<Rightarrow> (s', Inl e)
           | (s', Inr batchRows) \<Rightarrow> loadBatches authType (drop 500 ids) isDeleted (rows @ batchRows) s')"
  by pat_completeness auto
termination
  by (relation "measure (\<lambda>(t, ids, d, rows, s). length ids)") auto

declare loadBatches.simps [simp del]

fun loadGroups ::
  "(UsageIdentityAuthType \<times> string list) list \<Rightarrow> bool \<Rightarrow> UsageIdentity list \<Rightarrow> db \<Rightarrow> db \<times> (string + UsageIdentity list)" where
  "loadGroups [] isDeleted rows s = (s, Inr rows)"
| "loadGroups ((t, ids) # gs) isDeleted rows s =
     (case loadBatches t ids isDeleted rows s of
        (s', Inl e) \<Rightarrow> (s', Inl e)
      | (s', Inr rows') \<Rightarrow> loadGroups gs isDeleted rows' s')"

definition loadRedisUsageIdentityTypeRows ::
  "identityKey list \<Rightarrow> bool \<Rightarrow> db \<Rightarrow> db \<times> (string + UsageIdentity list)" where
  "loadRedisUsageIdentityTypeRows keys isDeleted s =
     loadGroups (groupRedisUsageIdentityKeysByAuthType keys) isDeleted [] s"

definition addRedisUsageIdentityTypes ::
  "UsageIdentity list \<Rightarrow> (identityKey \<rightharpoonup> string) \<Rightarrow> (identityKey \<rightharpoonup> string)" where
  "addRedisUsageIdentityTypes rows m =
     fold (\<lambda>row m. let i = TrimSpace (Identity row); t = TrimSpace (id_Type row) in
                   if i \<noteq> [] \<and> t \<noteq> [] then m((id_AuthType row, i) \<mapsto> t) else m) rows m"

definition missingRedisUsageIdentityKeys :: "identityKey list \<Rightarrow> (identityKey \<rightharpoonup> string) \<Rightarrow> identityKey list" where
  "missingRedisUsageIdentityKeys keys m = filter (\<lambda>k. m k = None) keys"

definition buildUsageEventTypeResolver :: "UsageEvent list \<Rightarrow> db \<Rightarrow> db \<times> (string + (identityKey \<rightharpoonup> string))" where
  "buildUsageEventTypeResolver events s =
     (let keys = redisUsageIdentityKeys events in
      if keys = [] then (s, Inr Map.empty)
      else case loadRedisUsageIdentityTypeRows keys False s of
        (s1, Inl e) \<Rightarrow> (s1, Inl (''load active usage identity types for redis usage: '' @ e))
      | (s1, Inr activeRows) \<Rightarrow>
          (let m = addRedisUsageIdentityTypes activeRows Map.empty;
               missing = missingRedisUsageIdentityKeys keys m
           in if missing = [] then (s1, Inr m)
              else case loadRedisUsageIdentityTypeRows missing True s1 of
                (s2, Inl e) \<Rightarrow> (s2, Inl (''load deleted usage identity types for redis usage: '' @ e))
              | (s2, Inr deletedRows) \<Rightarrow> (s2, Inr (addRedisUsageIdentityTypes deletedRows m))))"

definition resolveUsageEventType :: "UsageEvent \<Rightarrow> (identityKey \<rightharpoonup> string) \<Rightarrow> string" where
  "resolveUsageEventType event m =
     (let a = normalizeRedisAuthType (AuthType event);
          authIndex = TrimSpace (AuthIndex event);
          lookup = (\<lambda>t. TrimSpace (case m (t, authIndex) of None \<Rightarrow> [] | Some u \<Rightarrow> u))
      in if a = ''oauth''
         then (if authIndex \<noteq> [] \<and> lookup UsageIdentityAuthTypeAuthFile \<noteq> []
               then lookup UsageIdentityAuthTypeAuthFile else TrimSpace (ev_Provider event))
         else if a = ''apikey'' then lookup UsageIdentityAuthTypeAIProvider
         else ''default'')"

section \<open>Token normalization of a batch\<close>

definition tokenValuesFromUsageEvent :: "UsageEvent \<Rightarrow> TokenValues" where
  "tokenValuesFromUsageEvent event =
     \<lparr>InputTokens = ev_InputTokens event, OutputTokens = ev_OutputTokens event,
      ReasoningTokens = ev_ReasoningTokens event, CachedTokens = ev_CachedTokens event,
      CacheReadTokens = ev_CacheReadTokens event, CacheReadPresent = ev_CacheReadPresent event,
      CacheCreationTokens = ev_CacheCreationTokens event, TotalTokens = ev_TotalTokens event\<rparr>"

definition applyTokenProcessResult :: "UsageEvent \<Rightarrow> ProcessResult \<Rightarrow> UsageEvent" where
  "applyTokenProcessResult event result =
     event\<lparr>ev_InputTokens := InputTokens (Tokens result), ev_OutputTokens := OutputTokens (Tokens result),
           ev_ReasoningTokens := ReasoningTokens (Tokens result), ev_CachedTokens := CachedTokens (Tokens result),
           ev_CacheReadTokens := CacheReadTokens (Tokens result),
           ev_CacheCreationTokens := CacheCreationTokens (Tokens result), ev_TotalTokens := TotalTokens (Tokens result)\<rparr>"

record normalizedUsageEvent =
  n_event :: UsageEvent
  n_resolution :: "handlerResolution option"
  n_ready :: bool

definition processResolvedUsageEvent :: "UsageEvent \<Rightarrow> handlerResolution \<Rightarrow> normalizedUsageEvent" where
  "processResolvedUsageEvent event res =
     \<lparr>n_event = applyTokenProcessResult event (Process (tokenValuesFromUsageEvent event) (Some res)),
      n_resolution = Some res, n_ready = True\<rparr>"

text \<open>The first pass, by executor alone; an error of the registry stops it.\<close>

fun resolveByExecutor :: "UsageEvent list \<Rightarrow> string + normalizedUsageEvent list" where
  "resolveByExecutor [] = Inr []"
| "resolveByExecutor (event # es) =
     (case ResolveExecutor (ev_ExecutorType event) of
        Inl _ \<Rightarrow> Inl ''token handler registry is invalid''
      | Inr res \<Rightarrow>
          (case resolveByExecutor es of
             Inl e \<Rightarrow> Inl e
           | Inr items \<Rightarrow>
               Inr ((if needsIdentity res
                     then \<lparr>n_event = event, n_resolution = Some res, n_ready = False\<rparr>
                     else processResolvedUsageEvent event res) # items)))"

fun resolveByIdentity ::
  "(identityKey \<rightharpoonup> string) \<Rightarrow> normalizedUsageEvent list \<Rightarrow> string + normalizedUsageEvent list" where
  "resolveByIdentity m [] = Inr []"
| "resolveByIdentity m (item # items) =
     (if n_ready item
      then map_sum (\<lambda>e. e) (\<lambda>rest. item # rest) (resolveByIdentity m items)
      else case ResolveIdentity (ev_ExecutorType (n_event item)) (resolveUsageEventType (n_event item) m) of
             Inl _ \<Rightarrow> Inl ''token handler registry is invalid''
           | Inr res \<Rightarrow>
               map_sum (\<lambda>e. e) (\<lambda>rest. processResolvedUsageEvent (n_event item) res # rest)
                 (resolveByIdentity m items))"

text \<open>
  The items, in the order of the events, and the error that left some of them not ready. The
  indexes of those are the positions of the items that are not ready. A registry that does not
  validate fails for every executor alike, so its error comes with the first event.
\<close>

definition blankItem :: "UsageEvent \<Rightarrow> normalizedUsageEvent" where
  "blankItem event = \<lparr>n_event = event, n_resolution = None, n_ready = False\<rparr>"

definition normalizeRedisUsageEventsDetailed ::
  "UsageEvent list \<Rightarrow> db \<Rightarrow> db \<times> normalizedUsageEvent list \<times> string option" where
  "normalizeRedisUsageEventsDetailed events s =
     (case resolveByExecutor events of
        Inl e \<Rightarrow> (s, map blankItem events, Some e)
      | Inr items \<Rightarrow>
          (let unresolved = map n_event (filter (\<lambda>item. \<not> n_ready item) items) in
           if unresolved = [] then (s, items, None)
           else case buildUsageEventTypeResolver unresolved s of
             (s', Inl e) \<Rightarrow> (s', items, Some e)
           | (s', Inr m) \<Rightarrow>
               (case resolveByIdentity m items of
                  Inl e \<Rightarrow> (s', items, Some e)
                | Inr items' \<Rightarrow> (s', items', None))))"

section \<open>Failure marks\<close>

fun markFailedRows ::
  "string \<Rightarrow> RedisUsageInbox list \<Rightarrow> redisInboxFailureCounts \<Rightarrow> db \<Rightarrow> db \<times> redisInboxFailureCounts" where
  "markFailedRows err [] counts s = (s, counts)"
| "markFailedRows err (row # rows) counts s =
     (case MarkRedisUsageInboxProcessFailed (in_ID row) (Some err) s of
        (s1, Some _) \<Rightarrow> markFailedRows err rows (counts\<lparr>statusUncertain := True\<rparr>) s1
      | (s1, None) \<Rightarrow>
          (case query (\<lambda>t. List.find (\<lambda>r. in_ID r = in_ID row) (inbox t)) s1 of
             (s2, Inr (Some stored)) \<Rightarrow>
               markFailedRows err rows
                 (if in_Status stored = RedisUsageInboxStatusDiscarded then counts\<lparr>discarded := discarded counts + 1\<rparr>
                  else if in_Status stored = RedisUsageInboxStatusProcessFailed
                  then counts\<lparr>processFailed := processFailed counts + 1\<rparr>
                  else counts) s2
           | (s2, _) \<Rightarrow> markFailedRows err rows (counts\<lparr>statusUncertain := True\<rparr>) s2))"

definition markRedisInboxRowsProcessFailed ::
  "RedisUsageInbox list \<Rightarrow> string option \<Rightarrow> db \<Rightarrow> db \<times> redisInboxFailureCounts" where
  "markRedisInboxRowsProcessFailed rows err s =
     (case err of None \<Rightarrow> (s, noFailures) | Some e \<Rightarrow> markFailedRows e rows noFailures s)"

section \<open>One batch of inbox rows\<close>

record 'snap deps =
  decode :: "string \<Rightarrow> gotime \<Rightarrow> string + UsageEvent \<times> 'snap option"
  event_columns :: int
  recentUsage :: bool
  usageAggregation :: bool
  usageHeaderQuota :: bool
  aggregateFallback :: "db \<Rightarrow> db \<times> string option"
  aggregationPending :: "db \<Rightarrow> db \<times> (string + bool)"

datatype 'snap notice =
    RecentAppend "UsageEvent list"
  | AggregationNotice "UsageEvent list"
  | HeaderSnapshots "'snap list"

type_synonym 'snap work = "RedisUsageInbox \<times> UsageEvent \<times> 'snap option"

text \<open>
  The decode loop: a bad message is marked and skipped, an unsupported provider is marked as
  processed without an event, the rest is collected. \<open>n\<close> is the number of rows of the batch.
\<close>

fun decodeLoop ::
  "'snap deps \<Rightarrow> nat \<Rightarrow> gotime \<Rightarrow> RedisUsageInbox list \<Rightarrow> 'snap work list \<Rightarrow> string list \<Rightarrow> db
   \<Rightarrow> db \<times> ((RedisBatchSyncResult option \<times> string) + ('snap work list \<times> string list))" where
  "decodeLoop d n fetchedAt [] valid errs s = (s, Inr (valid, errs))"
| "decodeLoop d n fetchedAt (row # rows) valid errs s =
     (case decode d (RawMessage row) fetchedAt of
        Inl e \<Rightarrow>
          (case MarkRedisUsageInboxDecodeFailed (in_ID row) (Some e) s of
             (s', Some m) \<Rightarrow>
               (s', Inl (Some (newRedisBatchSyncResult ''failed'' n), ''mark redis usage inbox decode failed: '' @ m))
           | (s', None) \<Rightarrow> decodeLoop d n fetchedAt rows valid (errs @ [e]) s')
      | Inr (event, snapshot) \<Rightarrow>
          (case UsageProvider (ev_Provider event) (ev_ExecutorType event) of
             (provider, supported) \<Rightarrow>
               if \<not> supported
               then (case MarkRedisUsageInboxProcessed (in_ID row) [] fetchedAt s of
                       (s', Some m) \<Rightarrow> (s', Inl (None, ''discard unsupported usage provider: '' @ m))
                     | (s', None) \<Rightarrow> decodeLoop d n fetchedAt rows valid errs s')
               else decodeLoop d n fetchedAt rows
                      (valid @ [(row, event\<lparr>ev_Provider := provider\<rparr>, snapshot)]) errs s))"

definition persistRedisUsageEvents :: "int \<Rightarrow> UsageEvent list \<Rightarrow> db \<Rightarrow> db \<times> (string + UsageEvent list)" where
  "persistRedisUsageEvents columns events s =
     (case InsertUsageEvents columns events s of
        (s', Inl e) \<Rightarrow> (s', Inl (''insert usage events: '' @ e))
      | (s', Inr stored) \<Rightarrow> (s', Inr stored))"

text \<open>The body of the transaction: the events and the marks of their rows.\<close>

definition commitBody ::
  "int \<Rightarrow> gotime \<Rightarrow> RedisUsageInbox list \<Rightarrow> UsageEvent list \<Rightarrow> db \<Rightarrow> db \<times> (string + UsageEvent list)" where
  "commitBody columns fetchedAt rows events s =
     (case persistRedisUsageEvents columns events s of
        (s1, Inl e) \<Rightarrow> (s1, Inl e)
      | (s1, Inr stored) \<Rightarrow>
          (case MarkRedisUsageInboxProcessedBatch (zip (map in_ID rows) (map EventKey events)) fetchedAt s1 of
             (s2, Some e) \<Rightarrow> (s2, Inl (''mark redis usage inbox processed: '' @ e))
           | (s2, None) \<Rightarrow> (s2, Inr stored)))"

definition failureResult :: "nat \<Rightarrow> redisInboxFailureCounts \<Rightarrow> RedisBatchSyncResult" where
  "failureResult n counts =
     (newRedisBatchSyncResult ''failed'' n)\<lparr>RetryPending := requiresRetryWait counts, DiscardedRows := discarded counts\<rparr>"

text \<open>What follows a commit; the fallback aggregation can fail.\<close>

definition afterCommit ::
  "'snap deps \<Rightarrow> UsageEvent list \<Rightarrow> 'snap list \<Rightarrow> db \<Rightarrow> db \<times> 'snap notice list \<times> string option" where
  "afterCommit d events snapshots s =
     (if events = [] then (s, [], None)
      else
        (let recent = (if recentUsage d then [RecentAppend events] else []);
             headers = (if usageHeaderQuota d \<and> snapshots \<noteq> [] then [HeaderSnapshots snapshots] else [])
         in if usageAggregation d then (s, recent @ [AggregationNotice events] @ headers, None)
            else case aggregateFallback d s of
                   (s', Some e) \<Rightarrow> (s', recent, Some e)
                 | (s', None) \<Rightarrow> (s', recent @ headers, None)))"

text \<open>The last part of \<open>processRedisInboxRows\<close>: the transaction over the ready events and its result.\<close>

definition commitReady ::
  "'snap deps \<Rightarrow> nat \<Rightarrow> gotime \<Rightarrow> redisInboxFailureCounts \<Rightarrow> string option \<Rightarrow> string option
   \<Rightarrow> RedisUsageInbox list \<Rightarrow> UsageEvent list \<Rightarrow> 'snap list \<Rightarrow> db
   \<Rightarrow> db \<times> 'snap notice list \<times> RedisBatchSyncResult option \<times> string option" where
  "commitReady d n fetchedAt counts decodeErr typeErr rows events snapshots s =
     (case transaction (commitBody (event_columns d) fetchedAt rows events) s of
        (s1, Inl e) \<Rightarrow>
          (case markRedisInboxRowsProcessFailed rows (Some e) s1 of
             (s2, extra) \<Rightarrow> (s2, [], Some (failureResult n (counts_add counts extra)), Some e))
      | (s1, Inr stored) \<Rightarrow>
          (case afterCommit d stored snapshots s1 of
             (s2, notices, Some e) \<Rightarrow> (s2, notices, Some (failureResult n counts), Some e)
           | (s2, notices, None) \<Rightarrow>
               (let warned = (decodeErr \<noteq> None \<or> typeErr \<noteq> None) in
                (s2, notices,
                 Some \<lparr>Empty = False,
                       res_Status = (if warned then ''completed_with_warnings'' else ''completed''),
                       InsertedEvents = length stored, DedupedEvents = 0, ProcessedRows = n,
                       BatchFull = (n \<ge> redisInboxProcessLimit),
                       RetryPending = requiresRetryWait counts, DiscardedRows = discarded counts\<rparr>,
                 if warned then joinErrors [decodeErr, typeErr] else None))))"

text \<open>The middle part: normalize, split into ready and unresolved rows, mark the unresolved ones.\<close>

definition settleValid ::
  "'snap deps \<Rightarrow> nat \<Rightarrow> gotime \<Rightarrow> string option \<Rightarrow> 'snap work list \<Rightarrow> db
   \<Rightarrow> db \<times> 'snap notice list \<times> RedisBatchSyncResult option \<times> string option" where
  "settleValid d n fetchedAt decodeErr valid s =
     (case normalizeRedisUsageEventsDetailed (map (\<lambda>w. fst (snd w)) valid) s of
        (s1, items, typeErr) \<Rightarrow>
          (let pairs = zip items valid;
               ready = filter (\<lambda>p. n_ready (fst p)) pairs;
               readyRows = map (\<lambda>p. fst (snd p)) ready;
               readyEvents = map (\<lambda>p. n_event (fst p)) ready;
               snapshots = concat (map (\<lambda>p. case snd (snd (snd p)) of None \<Rightarrow> [] | Some x \<Rightarrow> [x]) ready);
               unresolvedRows = map (\<lambda>p. fst (snd p)) (filter (\<lambda>p. \<not> n_ready (fst p)) pairs);
               (s2, counts) = (if typeErr \<noteq> None then markRedisInboxRowsProcessFailed unresolvedRows typeErr s1
                               else (s1, noFailures))
           in if typeErr \<noteq> None \<and> readyEvents = []
              then (s2, [], Some (failureResult n counts), joinErrors [decodeErr, typeErr])
              else commitReady d n fetchedAt counts decodeErr typeErr readyRows readyEvents snapshots s2))"

definition processRedisInboxRows ::
  "'snap deps \<Rightarrow> RedisUsageInbox list \<Rightarrow> gotime \<Rightarrow> db
   \<Rightarrow> db \<times> 'snap notice list \<times> RedisBatchSyncResult option \<times> string option" where
  "processRedisInboxRows d inboxRows fetchedAt s =
     (let n = length inboxRows in
      case decodeLoop d n fetchedAt inboxRows [] [] s of
        (s1, Inl (r, e)) \<Rightarrow> (s1, [], r, Some e)
      | (s1, Inr (valid, decodeErrs)) \<Rightarrow>
          (let decodeErr = joinErrors (map Some decodeErrs) in
           if valid = []
           then (if decodeErr \<noteq> None
                 then (s1, [], Some (newRedisBatchSyncResult ''completed_with_warnings'' n), decodeErr)
                 else (s1, [], Some (newRedisBatchSyncResult ''empty'' n), None))
           else settleValid d n fetchedAt decodeErr valid s1))"

section \<open>ProcessRedisUsageInbox\<close>

definition emptyResult :: "string \<Rightarrow> RedisBatchSyncResult" where
  "emptyResult status = (newRedisBatchSyncResult status 0)\<lparr>Empty := True\<rparr>"

text \<open>\<open>configured\<close> is the check of the dependencies, \<open>now\<close> the reading of the service clock.\<close>

definition ProcessRedisUsageInbox ::
  "'snap deps \<Rightarrow> bool \<Rightarrow> gotime \<Rightarrow> db \<Rightarrow> db \<times> 'snap notice list \<times> RedisBatchSyncResult option \<times> string option" where
  "ProcessRedisUsageInbox d configured now s =
     (if \<not> configured then (s, [], None, Some ''sync service database is nil'')
      else case ListProcessableRedisUsageInbox (int redisInboxProcessLimit) s of
        (s1, Inl e) \<Rightarrow>
          (s1, [], Some (newRedisBatchSyncResult ''failed'' 0), Some (''list processable redis usage inbox: '' @ e))
      | (s1, Inr rows) \<Rightarrow>
          if rows = []
          then (if usageAggregation d then (s1, [], Some (emptyResult ''empty''), None)
                else case aggregationPending d s1 of
                  (s2, Inl e) \<Rightarrow> (s2, [], Some (emptyResult ''failed''), Some e)
                | (s2, Inr pending) \<Rightarrow>
                    if pending
                    then (case aggregateFallback d s2 of
                            (s3, Some e) \<Rightarrow> (s3, [], Some (emptyResult ''failed''), Some e)
                          | (s3, None) \<Rightarrow> (s3, [], Some (emptyResult ''empty''), None))
                    else (s2, [], Some (emptyResult ''empty''), None))
          else processRedisInboxRows d rows now s1)"

section \<open>Queries change nothing\<close>

definition untouched :: "db \<Rightarrow> db \<Rightarrow> bool" where
  "untouched s s' \<longleftrightarrow> (\<exists>fs. s' = s\<lparr>faults := fs\<rparr>)"

lemma untouched_refl [simp]: "untouched s s"
  unfolding untouched_def by (rule exI [of _ "faults s"]) simp

lemma untouched_trans: "untouched s s' \<Longrightarrow> untouched s' s'' \<Longrightarrow> untouched s s''"
  by (auto simp: untouched_def)

lemma query_untouched: "query f s = (s', r) \<Longrightarrow> untouched s s'"
  by (erule query_cases) (auto simp: untouched_def)

lemma untouched_booked: "untouched s s' \<Longrightarrow> booked A [] s s'"
  by (auto simp: untouched_def)

lemma loadBatches_untouched: "loadBatches t ids del rows s = (s', r) \<Longrightarrow> untouched s s'"
proof (induction t ids del rows s rule: loadBatches.induct)
  case (1 t ids del rows s)
  show ?case
    using 1(2) 1(1) unfolding loadBatches.simps [of t ids]
    by (auto split: if_splits prod.splits sum.splits dest!: query_untouched intro: untouched_trans)
qed

lemma loadGroups_untouched: "loadGroups gs del rows s = (s', r) \<Longrightarrow> untouched s s'"
  by (induction gs del rows s rule: loadGroups.induct)
     (auto split: prod.splits sum.splits dest!: loadBatches_untouched intro: untouched_trans)

lemma resolver_untouched: "buildUsageEventTypeResolver events s = (s', r) \<Longrightarrow> untouched s s'"
  by (auto simp: buildUsageEventTypeResolver_def loadRedisUsageIdentityTypeRows_def Let_def
      split: if_splits prod.splits sum.splits dest!: loadGroups_untouched intro: untouched_trans)

section \<open>Normalized batches\<close>

lemma process_key [simp]: "EventKey (n_event (processResolvedUsageEvent event res)) = EventKey event"
  by (simp add: processResolvedUsageEvent_def applyTokenProcessResult_def)

lemma process_ready [simp]: "n_ready (processResolvedUsageEvent event res)"
  by (simp add: processResolvedUsageEvent_def)

lemma resolveByExecutor_keys:
  "resolveByExecutor events = Inr items \<Longrightarrow> map (EventKey \<circ> n_event) items = map EventKey events"
  by (induction events arbitrary: items) (auto split: sum.splits)

lemma resolveByIdentity_keys:
  "resolveByIdentity m items = Inr items' \<Longrightarrow>
   map (EventKey \<circ> n_event) items' = map (EventKey \<circ> n_event) items \<and> list_all n_ready items'"
  by (induction items arbitrary: items') (auto split: sum.splits if_splits simp: map_sum_def)

lemma normalized:
  assumes "normalizeRedisUsageEventsDetailed events s = (s', items, err)"
  shows "untouched s s'" "map (EventKey \<circ> n_event) items = map EventKey events" "length items = length events"
    "err = None \<Longrightarrow> list_all n_ready items"
proof -
  show "untouched s s'"
    using assms resolver_untouched unfolding normalizeRedisUsageEventsDetailed_def Let_def
    by (auto split: sum.splits prod.splits if_splits)
  show keys: "map (EventKey \<circ> n_event) items = map EventKey events"
    using assms resolveByExecutor_keys resolveByIdentity_keys unfolding normalizeRedisUsageEventsDetailed_def Let_def
    by (auto split: sum.splits prod.splits if_splits simp: blankItem_def)
  then show "length items = length events" by (metis length_map)
  show "err = None \<Longrightarrow> list_all n_ready items"
    using assms resolveByIdentity_keys unfolding normalizeRedisUsageEventsDetailed_def Let_def
    by (auto split: sum.splits prod.splits if_splits simp: filter_empty_conv list_all_iff)
qed

section \<open>What a batch does to the store\<close>

abbreviation ids :: "RedisUsageInbox list \<Rightarrow> int set" where
  "ids rows \<equiv> set (map in_ID rows)"

definition allOpen :: "db \<Rightarrow> RedisUsageInbox list \<Rightarrow> bool" where
  "allOpen s rows \<longleftrightarrow> (\<forall>row \<in> set rows. openRow (inbox s) (in_ID row))"

lemma allOpen_booked: "booked A es s s' \<Longrightarrow> allOpen s rows \<Longrightarrow> A \<inter> ids rows = {} \<Longrightarrow> allOpen s' rows"
  unfolding allOpen_def
proof
  fix row assume b: "booked A es s s'" and o: "\<forall>row \<in> set rows. openRow (inbox s) (in_ID row)"
    and "A \<inter> ids rows = {}" "row \<in> set rows"
  then have "in_ID row \<notin> A" by auto
  then show "openRow (inbox s') (in_ID row)" using booked_open [OF b] o \<open>row \<in> set rows\<close> by blast
qed

lemma markFailedRows_booked:
  "markFailedRows err rows counts s = (s', counts') \<Longrightarrow> distinct (map in_ID rows) \<Longrightarrow> allOpen s rows \<Longrightarrow>
   booked (ids rows) [] s s'"
proof (induction rows arbitrary: counts s)
  case (Cons row rows)
  obtain s1 e where m: "MarkRedisUsageInboxProcessFailed (in_ID row) (Some err) s = (s1, e)" by fastforce
  have one: "booked {in_ID row} [] s s1" using mark_booked(3) [OF _ m] Cons.prems(3) by (simp add: allOpen_def)
  have "\<exists>s2 c2. untouched s1 s2 \<and> markFailedRows err rows c2 s2 = (s', counts')"
  proof (cases e)
    case None
    then show ?thesis using Cons.prems(1) m
      by (auto split: option.splits prod.splits sum.splits dest!: query_untouched)
  next
    case (Some x)
    then have "markFailedRows err rows (counts\<lparr>statusUncertain := True\<rparr>) s1 = (s', counts')"
      using Cons.prems(1) m by simp
    then show ?thesis using untouched_refl by blast
  qed
  then obtain s2 c2 where s2: "untouched s1 s2" and rec: "markFailedRows err rows c2 s2 = (s', counts')" by blast
  have two: "booked {in_ID row} [] s s2" using one s2 by (auto simp: untouched_def)
  have "allOpen s2 rows" using Cons.prems(2,3) by (intro allOpen_booked [OF two]) (auto simp: allOpen_def)
  then have "booked (ids rows) [] s2 s'" using Cons.IH [OF rec] Cons.prems(2) by simp
  from booked_trans [OF two this] Cons.prems(2) show ?case by simp
qed (simp add: untouched_booked)

lemma markRows_booked:
  "markRedisInboxRowsProcessFailed rows err s = (s', counts) \<Longrightarrow> distinct (map in_ID rows) \<Longrightarrow> allOpen s rows \<Longrightarrow>
   booked (ids rows) [] s s'"
  by (auto simp: markRedisInboxRowsProcessFailed_def split: option.splits dest: markFailedRows_booked)

text \<open>The decode loop: every row it does not pass on is closed, the others stay open.\<close>

lemma decodeLoop_booked:
  assumes "decodeLoop d n at rows valid errs s = (s', out)"
    and "distinct (map in_ID rows)" "allOpen s rows"
  shows "case out of
      Inl _ \<Rightarrow> booked (ids rows) [] s s'
    | Inr (valid', errs') \<Rightarrow> \<exists>new. valid' = valid @ new \<and> set (map fst new) \<subseteq> set rows \<and>
        distinct (map (in_ID \<circ> fst) new) \<and>
        (\<forall>w \<in> set new. \<exists>ev. decode d (RawMessage (fst w)) at = Inr (ev, snd (snd w)) \<and> EventKey (fst (snd w)) = EventKey ev) \<and>
        booked (ids rows - ids (map fst new)) [] s s'"
  using assms
proof (induction rows arbitrary: valid errs s)
  case (Cons row rows)
  have dist: "distinct (map in_ID rows)" "in_ID row \<notin> ids rows" using Cons.prems(2) by auto
  have opn: "openRow (inbox s) (in_ID row)" using Cons.prems(3) by (simp add: allOpen_def)
  have close: ?case
    if one: "booked {in_ID row} [] s s1" and rest: "decodeLoop d n at rows valid e1 s1 = (s', out)" for s1 e1
  proof -
    have "allOpen s1 rows" using Cons.prems(3) dist by (intro allOpen_booked [OF one]) (auto simp: allOpen_def)
    note ih = Cons.IH [OF rest dist(1) this]
    show ?thesis
    proof (cases out)
      case (Inl a)
      then have "booked (ids rows) [] s1 s'" using ih by simp
      from booked_trans [OF one this] dist(2) show ?thesis by (simp add: Inl)
    next
      case (Inr a)
      obtain valid' errs' where a: "a = (valid', errs')" by fastforce
      obtain new where new: "valid' = valid @ new" "set (map fst new) \<subseteq> set rows" "distinct (map (in_ID \<circ> fst) new)"
          "\<forall>w \<in> set new. \<exists>ev. decode d (RawMessage (fst w)) at = Inr (ev, snd (snd w)) \<and> EventKey (fst (snd w)) = EventKey ev"
          "booked (ids rows - ids (map fst new)) [] s1 s'"
        using ih by (auto simp: Inr a)
      have "in_ID row \<notin> ids (map fst new)" using dist(2) new(2) by auto
      then have "booked (ids (row # rows) - ids (map fst new)) [] s s'"
        using booked_trans [OF one new(5)] dist(2) by (simp add: insert_Diff_if)
      then show ?thesis using new(1-4) by (auto simp: Inr a)
    qed
  qed
  have stop: ?case if "booked {in_ID row} [] s s'" "out = Inl x" for x
    using booked_mono [OF that(1), of "ids (row # rows)"] that(2) by simp
  show ?case
  proof (cases "decode d (RawMessage row) at")
    case (Inl e)
    obtain s1 m where mark: "MarkRedisUsageInboxDecodeFailed (in_ID row) (Some e) s = (s1, m)" by fastforce
    note one = mark_booked(2) [OF opn mark]
    show ?thesis
    proof (cases m)
      case None
      then show ?thesis using close [OF one] Cons.prems(1) Inl mark by simp
    next
      case (Some x)
      then show ?thesis using stop one Cons.prems(1) Inl mark by auto
    qed
  next
    case (Inr p)
    obtain event snapshot where p: "p = (event, snapshot)" by fastforce
    obtain provider supported where prov: "UsageProvider (ev_Provider event) (ev_ExecutorType event) = (provider, supported)"
      by fastforce
    show ?thesis
    proof (cases supported)
      case True
      let ?w = "(row, event\<lparr>ev_Provider := provider\<rparr>, snapshot)"
      have run: "decodeLoop d n at rows (valid @ [?w]) errs s = (s', out)"
        using Cons.prems(1) Inr p prov True by simp
      have "allOpen s rows" using Cons.prems(3) by (simp add: allOpen_def)
      note ih = Cons.IH [OF run dist(1) this]
      show ?thesis
      proof (cases out)
        case (Inl a)
        then show ?thesis using ih booked_mono [of "ids rows" "[]" s s' "ids (row # rows)"] by auto
      next
        case out: (Inr a)
        obtain valid' errs' where a: "a = (valid', errs')" by fastforce
        obtain new where new: "valid' = (valid @ [?w]) @ new" "set (map fst new) \<subseteq> set rows" "distinct (map (in_ID \<circ> fst) new)"
            "\<forall>w \<in> set new. \<exists>ev. decode d (RawMessage (fst w)) at = Inr (ev, snd (snd w)) \<and> EventKey (fst (snd w)) = EventKey ev"
            "booked (ids rows - ids (map fst new)) [] s s'"
          using ih by (auto simp: out a)
        have "in_ID row \<notin> (in_ID \<circ> fst) ` set new" using dist(2) new(2) by auto
        moreover have "ids (row # rows) - ids (map fst (?w # new)) = ids rows - ids (map fst new)"
          using dist(2) by auto
        ultimately show ?thesis
          using new Inr p by (auto simp: out a intro!: exI [of _ "?w # new"])
      qed
    next
      case False
      obtain s1 m where mark: "MarkRedisUsageInboxProcessed (in_ID row) [] at s = (s1, m)" by fastforce
      note one = mark_booked(1) [OF opn mark]
      show ?thesis
      proof (cases m)
        case None
        then show ?thesis using close [OF one] Cons.prems(1) Inr p prov False mark by simp
      next
        case (Some x)
        then show ?thesis using stop one Cons.prems(1) Inr p prov False mark by auto
      qed
    qed
  qed
qed auto

lemma stmt_keeps: "stmt (updateRows p f) s = (s', e) \<Longrightarrow> usage_events s' = usage_events s \<and> next_event s' = next_event s"
  using stmt_keeps_events by blast

lemma markBatches_keeps_events:
  "markBatches start updates at s = (s', e) \<Longrightarrow> usage_events s' = usage_events s \<and> next_event s' = next_event s"
proof (induction start updates at s rule: markBatches.induct)
  case (1 start updates at s)
  show ?case
    using 1(2) 1(1) unfolding markBatches.simps [of start updates]
    by (auto simp: Let_def split: if_splits prod.splits option.splits dest!: stmt_keeps)
qed

lemma commit_booked:
  assumes run: "transaction (commitBody columns at rows events) s = (s', r)"
    and len: "length rows = length events" and dist: "distinct (map in_ID rows)" "distinct (map in_ID (inbox s))"
    and opn: "allOpen s rows" and keys: "\<forall>e \<in> set events. EventKey e \<noteq> []"
  shows "case r of
      Inl _ \<Rightarrow> untouched s s'
    | Inr stored \<Rightarrow> stored = numberEvents (next_event s) events \<and> booked (ids rows) stored s s'"
  using run
proof (cases rule: transaction_cases)
  case (1 m fs)
  then show ?thesis by (auto simp: untouched_def)
next
  case (2 s1 stored fs)
  let ?u = "zip (map in_ID rows) (map EventKey events)"
  obtain t where ins: "InsertUsageEvents columns events s = (t, Inr stored)"
    and mark: "markBatches 0 ?u at t = (s1, None)"
    using 2(1) by (auto simp: commitBody_def persistRedisUsageEvents_def MarkRedisUsageInboxProcessedBatch_def
        split: prod.splits sum.splits option.splits)
  obtain gs where t: "t = (createEvents events s)\<lparr>faults := gs\<rparr>" and stored: "stored = numberEvents (next_event s) events"
    using InsertUsageEvents_stores [OF ins] by blast
  have fsts: "map fst ?u = map in_ID rows" "map snd ?u = map EventKey events" using len by simp_all
  have "\<forall>u \<in> set ?u. openRow (inbox t) (fst u) \<and> snd u \<noteq> []"
  proof
    fix u assume "u \<in> set ?u"
    then have "fst u \<in> set (map in_ID rows)" "snd u \<in> set (map EventKey events)"
      by (metis fst_conv set_zip_leftD surj_pair, metis snd_conv set_zip_rightD surj_pair)
    then show "openRow (inbox t) (fst u) \<and> snd u \<noteq> []" using opn keys by (auto simp: t createEvents_def allOpen_def)
  qed
  then have "progress (ids rows) (map EventKey events) t s1"
    using markBatches_progress [OF mark] fsts dist by (simp add: t createEvents_def)
  then have "progress (ids rows) (map EventKey stored) s s1"
    by (simp add: progress_def moved_def t createEvents_def stored)
  then have "booked (ids rows) stored s s1"
    using markBatches_keeps_events [OF mark] by (simp add: booked_def t createEvents_def stored)
  then show ?thesis using 2(2,3) stored by simp
qed

text \<open>What the batch tells others: events that were committed.\<close>

fun noticeEvents :: "'snap notice \<Rightarrow> UsageEvent list" where
  "noticeEvents (RecentAppend es) = es"
| "noticeEvents (AggregationNotice es) = es"
| "noticeEvents (HeaderSnapshots _) = []"

definition tellsOnly :: "UsageEvent list \<Rightarrow> 'snap notice list \<Rightarrow> bool" where
  "tellsOnly evs notices \<longleftrightarrow> (\<forall>n \<in> set notices. noticeEvents n = evs \<or> (\<exists>x. n = HeaderSnapshots x))
     \<and> (evs \<noteq> [] \<longrightarrow> AggregationNotice evs \<in> set notices) \<and> (evs = [] \<longrightarrow> notices = [])"

lemma afterCommit_notices:
  assumes "usageAggregation d" "afterCommit d evs snaps s = (s', notices, e)"
  shows "s' = s \<and> e = None \<and> tellsOnly evs notices"
  using assms by (auto simp: afterCommit_def tellsOnly_def Let_def split: if_splits)

lemma tellsOnly_Nil [simp]: "tellsOnly [] []"
  by (simp add: tellsOnly_def)

text \<open>The pairs of a normalized batch, split into ready and unresolved ones.\<close>

lemma ready_split:
  assumes "distinct (map (in_ID \<circ> fst) valid)" "length items = length valid"
  shows "distinct (map (\<lambda>p. in_ID (fst (snd p))) (filter P (zip items valid)))"
    and "set (map (\<lambda>p. in_ID (fst (snd p))) (filter P (zip items valid))) \<inter>
      set (map (\<lambda>p. in_ID (fst (snd p))) (filter (\<lambda>p. \<not> P p) (zip items valid))) = {}"
    and "set (map (\<lambda>p. in_ID (fst (snd p))) (filter P (zip items valid))) \<subseteq> set (map (in_ID \<circ> fst) valid)"
proof -
  have *: "map (\<lambda>p. in_ID (fst (snd p))) (zip items valid) = map (in_ID \<circ> fst) valid"
  proof -
    have "map (\<lambda>p. in_ID (fst (snd p))) (zip items valid) = map (in_ID \<circ> fst) (map snd (zip items valid))" by simp
    then show ?thesis using assms(2) by (simp only: map_snd_zip)
  qed
  then have d: "distinct (map (\<lambda>p. in_ID (fst (snd p))) (zip items valid))" using assms(1) by simp
  then show "distinct (map (\<lambda>p. in_ID (fst (snd p))) (filter P (zip items valid)))" by (rule distinct_map_filter)
  show "set (map (\<lambda>p. in_ID (fst (snd p))) (filter P (zip items valid))) \<inter>
      set (map (\<lambda>p. in_ID (fst (snd p))) (filter (\<lambda>p. \<not> P p) (zip items valid))) = {}"
    using d by (auto simp: distinct_map dest: inj_onD)
  show "set (map (\<lambda>p. in_ID (fst (snd p))) (filter P (zip items valid))) \<subseteq> set (map (in_ID \<circ> fst) valid)"
    unfolding * [symmetric] by auto
qed

lemma allOpen_subset: "set rows \<subseteq> set rows' \<Longrightarrow> allOpen s rows' \<Longrightarrow> allOpen s rows"
  unfolding allOpen_def by blast

lemma untouched_open: "untouched s s' \<Longrightarrow> allOpen s' rows = allOpen s rows"
  by (auto simp: untouched_def allOpen_def)

lemma commitReady_booked:
  assumes run: "commitReady d n at counts de te rows events snaps s = (s', notices, r, e)" and "usageAggregation d"
    and "length rows = length events" "distinct (map in_ID rows)" "distinct (map in_ID (inbox s))"
    and "allOpen s rows" "\<forall>e \<in> set events. EventKey e \<noteq> []"
  shows "\<exists>evs. booked (ids rows) evs s s' \<and> tellsOnly evs notices"
proof (cases "transaction (commitBody (event_columns d) at rows events) s")
  case (Pair s1 out)
  note commit = commit_booked [OF Pair assms(3-7)]
  show ?thesis
  proof (cases out)
    case (Inl x)
    obtain s2 extra where mark: "markRedisInboxRowsProcessFailed rows (Some x) s1 = (s2, extra)" by fastforce
    have un: "untouched s s1" using commit Inl by simp
    then have "allOpen s1 rows" using assms(6) by (auto simp: untouched_def allOpen_def)
    then have "booked (ids rows) [] s1 s2" using markRows_booked [OF mark assms(4)] by simp
    then have "booked (ids rows) [] s s2" using un booked_trans [OF untouched_booked [OF un, of "{}"]] by simp
    moreover have "s' = s2 \<and> notices = []" using run Pair Inl mark by (simp add: commitReady_def)
    ultimately show ?thesis by (intro exI [of _ "[]"]) simp
  next
    case (Inr stored)
    obtain s2 ns err where after: "afterCommit d stored snaps s1 = (s2, ns, err)" using prod_cases3 by blast
    have "s2 = s1 \<and> err = None \<and> tellsOnly stored ns" by (rule afterCommit_notices [OF assms(2) after])
    moreover have "s' = s2 \<and> notices = ns"
      using run Pair Inr after calculation by (simp add: commitReady_def Let_def)
    ultimately show ?thesis using commit Inr by (intro exI [of _ stored]) auto
  qed
qed

lemma settleValid_booked:
  assumes run: "settleValid d n at de valid s = (s', notices, r, e)" and agg: "usageAggregation d"
    and dist: "distinct (map (in_ID \<circ> fst) valid)" "distinct (map in_ID (inbox s))"
    and opn: "allOpen s (map fst valid)" and keys: "\<forall>w \<in> set valid. EventKey (fst (snd w)) \<noteq> []"
  shows "\<exists>evs. booked (ids (map fst valid)) evs s s' \<and> tellsOnly evs notices"
proof -
  let ?id = "\<lambda>p :: normalizedUsageEvent \<times> 'a work. in_ID (fst (snd p))"
  obtain s1 items te where norm: "normalizeRedisUsageEventsDetailed (map (\<lambda>w. fst (snd w)) valid) s = (s1, items, te)"
    using prod_cases3 by blast
  have un: "untouched s s1" and ks: "map (EventKey \<circ> n_event) items = map EventKey (map (\<lambda>w. fst (snd w)) valid)"
    and len: "length items = length valid" using normalized [OF norm] by simp_all
  let ?pairs = "zip items valid"
  let ?ready = "filter (\<lambda>p. n_ready (fst p)) ?pairs" and ?rest = "filter (\<lambda>p. \<not> n_ready (fst p)) ?pairs"
  let ?rows = "map (\<lambda>p. fst (snd p)) ?ready" and ?open = "map (\<lambda>p. fst (snd p)) ?rest"
  let ?events = "map (\<lambda>p. n_event (fst p)) ?ready"
  obtain s2 counts where s2: "(if te \<noteq> None then markRedisInboxRowsProcessFailed ?open te s1 else (s1, noFailures)) = (s2, counts)"
    by fastforce
  have idrows: "map in_ID ?rows = map ?id ?ready" "map in_ID ?open = map ?id ?rest" by simp_all
  have split: "distinct (map in_ID ?rows)" "distinct (map in_ID ?open)" "ids ?open \<inter> ids ?rows = {}"
      "ids ?rows \<subseteq> ids (map fst valid)" "ids ?open \<subseteq> ids (map fst valid)"
    using ready_split [OF dist(1) len, where P = "\<lambda>p. n_ready (fst p)"]
      ready_split [OF dist(1) len, where P = "\<lambda>p. \<not> n_ready (fst p)"]
    unfolding idrows by auto
  have sub: "set (map fst (map snd ?pairs)) \<subseteq> set (map fst valid)" using len by simp
  have rowsin: "set ?rows \<subseteq> set (map fst valid)" "set ?open \<subseteq> set (map fst valid)" using sub by auto
  have "allOpen s1 ?open" using untouched_open [OF un] allOpen_subset [OF rowsin(2) opn] by simp
  then have mark: "booked (ids ?open) [] s1 s2"
    using s2 split(2) by (auto split: if_splits dest: markRows_booked)
  then have one: "booked (ids ?open) [] s s2"
    using booked_trans [OF untouched_booked [OF un, of "{}"] mark] by simp
  have "allOpen s ?rows" by (rule allOpen_subset [OF rowsin(1) opn])
  then have open2: "allOpen s2 ?rows" by (rule allOpen_booked [OF one]) (use split(3) in blast)
  have dist2: "distinct (map in_ID (inbox s2))" using booked_ids [OF one] dist(2) by simp
  have "EventKey (n_event (fst p)) = EventKey (fst (snd (snd p)))" if "p \<in> set ?pairs" for p
    using that ks len by (auto simp: in_set_conv_nth list_eq_iff_nth_eq)
  moreover have "snd p \<in> set valid" if "p \<in> set ?pairs" for p using that by (metis prod.collapse set_zip_rightD)
  ultimately have keys2: "\<forall>e \<in> set ?events. EventKey e \<noteq> []" using keys by fastforce
  show ?thesis
  proof (cases "te \<noteq> None \<and> ?events = []")
    case True
    then have "s' = s2 \<and> notices = []"
      using run norm s2 by (simp add: settleValid_def Let_def)
    then show ?thesis using booked_mono [OF one split(5)] by (intro exI [of _ "[]"]) simp
  next
    case False
    then obtain snaps where "commitReady d n at counts de te ?rows ?events snaps s2 = (s', notices, r, e)"
      using run norm s2 by (auto simp: settleValid_def Let_def split: if_splits)
    from commitReady_booked [OF this agg _ split(1) dist2 open2 keys2]
    obtain evs where "booked (ids ?rows) evs s2 s'" "tellsOnly evs notices" by auto
    moreover have "booked (ids ?open \<union> ids ?rows) evs s s'"
      using booked_trans [OF one calculation(1) split(3)] by simp
    ultimately show ?thesis using booked_mono split(4,5) by blast
  qed
qed

definition keysGiven :: "'snap deps \<Rightarrow> bool" where
  "keysGiven d \<longleftrightarrow> (\<forall>m t ev snap. decode d m t = Inr (ev, snap) \<longrightarrow> EventKey ev \<noteq> [])"

lemma processRows_booked:
  assumes run: "processRedisInboxRows d rows at s = (s', notices, r, e)" and agg: "usageAggregation d" and kg: "keysGiven d"
    and dist: "distinct (map in_ID rows)" "distinct (map in_ID (inbox s))" and opn: "allOpen s rows"
  shows "\<exists>evs. booked (ids rows) evs s s' \<and> tellsOnly evs notices"
proof -
  obtain s1 out where dec: "decodeLoop d (length rows) at rows [] [] s = (s1, out)" by fastforce
  note loop = decodeLoop_booked [OF dec dist(1) opn]
  show ?thesis
  proof (cases out)
    case (Inl a)
    then have "s' = s1 \<and> notices = []" using run dec by (cases a) (simp add: processRedisInboxRows_def Let_def)
    then show ?thesis using loop Inl by (intro exI [of _ "[]"]) simp
  next
    case (Inr a)
    obtain valid errs where a: "a = (valid, errs)" by fastforce
    have sub: "set (map fst valid) \<subseteq> set rows" and dv: "distinct (map (in_ID \<circ> fst) valid)"
      and known: "\<forall>w \<in> set valid. \<exists>ev. decode d (RawMessage (fst w)) at = Inr (ev, snd (snd w)) \<and> EventKey (fst (snd w)) = EventKey ev"
      and one: "booked (ids rows - ids (map fst valid)) [] s s1"
      using loop by (auto simp: Inr a)
    have idsub: "ids (map fst valid) \<subseteq> ids rows" using sub by auto
    show ?thesis
    proof (cases "valid = []")
      case True
      then have "s' = s1 \<and> notices = []"
        using run dec Inr a by (auto simp: processRedisInboxRows_def Let_def split: if_splits)
      then show ?thesis using booked_mono [OF one] by (intro exI [of _ "[]"]) auto
    next
      case False
      obtain de where settle: "settleValid d (length rows) at de valid s1 = (s', notices, r, e)"
        using run dec Inr a False by (auto simp: processRedisInboxRows_def Let_def)
      have "allOpen s1 (map fst valid)"
        by (rule allOpen_booked [OF one allOpen_subset [OF sub opn]]) auto
      moreover have "distinct (map in_ID (inbox s1))" using booked_ids [OF one] dist(2) by simp
      moreover have "\<forall>w \<in> set valid. EventKey (fst (snd w)) \<noteq> []" using known kg by (metis keysGiven_def)
      ultimately obtain evs where "booked (ids (map fst valid)) evs s1 s'" "tellsOnly evs notices"
        using settleValid_booked [OF settle agg dv] by blast
      moreover have "(ids rows - ids (map fst valid)) \<inter> ids (map fst valid) = {}" by blast
      from booked_trans [OF one calculation(1) this] have "booked (ids rows) evs s s'"
        using idsub by (simp add: Un_absorb2 Un_commute)
      ultimately show ?thesis by blast
    qed
  qed
qed

section \<open>A round of ProcessRedisUsageInbox\<close>

lemma listed_rows:
  assumes "ListProcessableRedisUsageInbox limit s = (s1, Inr rows)" "distinct (map in_ID (inbox s))"
  shows "untouched s s1" "distinct (map in_ID rows)" "allOpen s rows" "set rows \<subseteq> set (filter processable (inbox s))"
    "rows = limitRows limit (sort_key in_ID (filter processable (inbox s)))"
proof -
  let ?all = "sort_key in_ID (filter processable (inbox s))"
  show "untouched s s1" using assms(1) query_untouched unfolding ListProcessableRedisUsageInbox_def by blast
  show rows: "rows = limitRows limit ?all"
    using assms(1) unfolding ListProcessableRedisUsageInbox_def by (auto elim!: query_cases)
  then show sub: "set rows \<subseteq> set (filter processable (inbox s))"
    using set_take_subset [of "nat limit" ?all] by (auto simp: limitRows_def split: if_splits)
  have "distinct (map in_ID (filter processable (inbox s)))" using assms(2) by (rule distinct_map_filter)
  moreover have "mset (map in_ID ?all) = mset (map in_ID (filter processable (inbox s)))" by simp
  ultimately have "distinct (map in_ID ?all)" by (metis mset_eq_imp_distinct_iff)
  then show "distinct (map in_ID rows)" unfolding rows limitRows_def by (simp flip: take_map)
  show "allOpen s rows" using sub assms(2) by (auto simp: allOpen_def intro: openRow_distinct)
qed

lemma round_booked:
  assumes run: "ProcessRedisUsageInbox d configured now s = (s', notices, r, e)" and "usageAggregation d" "keysGiven d"
    and dist: "distinct (map in_ID (inbox s))"
  shows "\<exists>evs. booked (ids (limitRows (int redisInboxProcessLimit) (sort_key in_ID (filter processable (inbox s))))) evs s s'
    \<and> tellsOnly evs notices"
proof (cases configured)
  case True
  obtain s1 out where list: "ListProcessableRedisUsageInbox (int redisInboxProcessLimit) s = (s1, out)" by fastforce
  show ?thesis
  proof (cases out)
    case (Inl m)
    have "untouched s s1" using list query_untouched unfolding ListProcessableRedisUsageInbox_def by blast
    moreover have "s' = s1 \<and> notices = []" using run list Inl True by (simp add: ProcessRedisUsageInbox_def)
    ultimately show ?thesis using untouched_booked by (intro exI [of _ "[]"]) simp
  next
    case (Inr rows)
    note listed = listed_rows [OF list [unfolded Inr] dist]
    show ?thesis
    proof (cases "rows = []")
      case True
      then have "s' = s1 \<and> notices = []"
        using run list Inr \<open>configured\<close> assms(2) by (simp add: ProcessRedisUsageInbox_def)
      then show ?thesis using untouched_booked [OF listed(1)] by (intro exI [of _ "[]"]) simp
    next
      case False
      then have proc: "processRedisInboxRows d rows now s1 = (s', notices, r, e)"
        using run list Inr \<open>configured\<close> by (simp add: ProcessRedisUsageInbox_def)
      have "distinct (map in_ID (inbox s1))" "allOpen s1 rows"
        using listed(1,3) dist untouched_open by (auto simp: untouched_def)
      from processRows_booked [OF proc assms(2,3) listed(2) this]
      obtain evs where "booked (ids rows) evs s1 s'" "tellsOnly evs notices" by blast
      moreover have "booked (ids rows) evs s s'"
        using booked_trans [OF untouched_booked [OF listed(1), of "{}"] calculation(1)] by simp
      ultimately show ?thesis using listed(5) by blast
    qed
  qed
next
  case False
  then have "s' = s \<and> notices = []" using run by (simp add: ProcessRedisUsageInbox_def)
  then show ?thesis by (intro exI [of _ "[]"]) simp
qed

section \<open>Exactly once\<close>

text \<open>
  The invariant of the inbox: row ids are unique, every row is in a state its attempts allow, and
  the stored events are exactly those the processed rows stand for.
\<close>

definition pipelineOK :: "db \<Rightarrow> bool" where
  "pipelineOK s \<longleftrightarrow> distinct (map in_ID (inbox s)) \<and> (\<forall>r \<in> set (inbox s). rowOK r \<and> in_ID r < next_inbox s) \<and>
     mset (map EventKey (usage_events s)) = mset (bookedKeys (inbox s))"

lemma list_all2_forward: "list_all2 P xs ys \<Longrightarrow> y \<in> set ys \<Longrightarrow> \<exists>x \<in> set xs. P x y"
  by (induction rule: list_all2_induct) auto

lemma booked_pipeline:
  assumes "booked A evs s s'" "pipelineOK s"
  shows "pipelineOK s'" "list_all2 rowStep (inbox s) (inbox s')"
proof -
  have moved: "list_all2 (\<lambda>r r'. rowStep r r' \<and> (in_ID r \<notin> A \<longrightarrow> r' = r)) (inbox s) (inbox s')"
      "next_inbox s' = next_inbox s"
    using assms(1) by (simp_all add: booked_def progress_def moved_def)
  then show "list_all2 rowStep (inbox s) (inbox s')" by (auto elim: list_all2_mono)
  have "rowOK r' \<and> in_ID r' < next_inbox s'" if "r' \<in> set (inbox s')" for r'
    using list_all2_forward [OF moved(1) that] assms(2) rowStep_OK rowStep_keeps moved(2)
    by (auto simp: pipelineOK_def)
  then show "pipelineOK s'"
    using assms booked_ids [OF assms(1)] by (auto simp: pipelineOK_def booked_def progress_def)
qed

text \<open>The wiring of the application: the decoder of \<open>redis_usage.go\<close> and the background notifier.\<close>

definition productionDeps ::
  "(string \<Rightarrow> string + queuedUsageDetail) \<Rightarrow> (string \<Rightarrow> bool) \<Rightarrow> (string \<Rightarrow> UsageEvent \<Rightarrow> string \<Rightarrow> 'snap option)
   \<Rightarrow> int \<Rightarrow> 'snap deps" where
  "productionDeps unmarshal parseIP buildSnapshot columns =
     \<lparr>decode = DecodeRedisUsageMessageWithHeaders unmarshal parseIP buildSnapshot, event_columns = columns,
      recentUsage = True, usageAggregation = True, usageHeaderQuota = True,
      aggregateFallback = (\<lambda>s. (s, None)), aggregationPending = (\<lambda>s. (s, Inr False))\<rparr>"

lemma production_given: "usageAggregation (productionDeps u p b c)" "keysGiven (productionDeps u p b c)"
  by (auto simp: productionDeps_def keysGiven_def dest: decoded_key)

text \<open>
  C11. A round of the inbox processor, whichever of its database statements fail: the events it
  stores are exactly those of the rows it marks processed, every row takes at most one step of
  its life cycle (a terminal row none), and the other components hear of the stored events only.
\<close>

theorem round_exactly_once:
  assumes "pipelineOK s"
    and "ProcessRedisUsageInbox (productionDeps unmarshal parseIP buildSnapshot columns) configured now s = (s', notices, r, e)"
  shows "pipelineOK s' \<and> list_all2 rowStep (inbox s) (inbox s') \<and>
    (\<exists>evs. usage_events s' = usage_events s @ evs \<and> tellsOnly evs notices)"
proof -
  have "distinct (map in_ID (inbox s))" using assms(1) by (simp add: pipelineOK_def)
  from round_booked [OF assms(2) production_given this]
  obtain evs A where "booked A evs s s'" "tellsOnly evs notices" by blast
  then show ?thesis using booked_pipeline [OF _ assms(1)] by (auto simp: booked_def)
qed

section \<open>The pipeline from the queue to the events\<close>

lemma numberRows_ids: "map in_ID (numberRows n now rows) = map (\<lambda>k. n + int k) [0..<length rows]"
proof (induction rows arbitrary: n)
  case (Cons r rows)
  have "[0..<Suc (length rows)] = 0 # map Suc [0..<length rows]" by (simp add: upt_conv_Cons map_Suc_upt del: upt_Suc)
  then show ?case using Cons.IH [of "n + 1"] by (simp add: algebra_simps del: upt_Suc)
qed simp

lemma numberRows_length [simp]: "length (numberRows n now rows) = length rows"
  by (induction rows arbitrary: n) simp_all

lemma numberRows_new:
  assumes "r \<in> set (numberRows n now (map (inboxRow hash src at) messages))"
  shows "rowOK r" "bookedKey r = []" "n \<le> in_ID r" "in_ID r < n + int (length messages)"
proof -
  have fields: "in_Status r = RedisUsageInboxStatusPending \<and> AttemptCount r = 0 \<and> UsageEventKey r = []"
    using assms by (induction messages arbitrary: n) (auto simp: inboxRow_def)
  then show "rowOK r" "bookedKey r = []" by (simp_all add: rowOK_def bookedKey_def)
  have "in_ID r \<in> set (map in_ID (numberRows n now (map (inboxRow hash src at) messages)))" using assms by simp
  then show "n \<le> in_ID r" "in_ID r < n + int (length messages)" unfolding numberRows_ids by auto
qed

lemma createRows_ok:
  assumes "pipelineOK s"
  shows "pipelineOK (createRows (map (inboxRow hash src at) messages) s)"
proof -
  let ?new = "numberRows (next_inbox s) (gorm_now s) (map (inboxRow hash src at) messages)"
  have "distinct (map in_ID ?new)" unfolding numberRows_ids by (simp add: distinct_map inj_on_def)
  moreover have "set (map in_ID (inbox s)) \<inter> set (map in_ID ?new) = {}"
    using assms numberRows_new(3) by (fastforce simp: pipelineOK_def)
  moreover have "concat (map bookedKey ?new) = []" using numberRows_new(2) by simp
  ultimately show ?thesis
    using assms numberRows_new(1,4) [of _ "next_inbox s" "gorm_now s" hash src at messages]
    by (fastforce simp: pipelineOK_def createRows_def bookedKeys_def)
qed

lemma pipelineOK_faults [simp]: "pipelineOK (s\<lparr>faults := fs\<rparr>) = pipelineOK s"
  by (simp add: pipelineOK_def)

lemma createInBatches_ok:
  "createInBatches sz (map (inboxRow hash src at) messages) s = (s', r) \<Longrightarrow> pipelineOK s \<Longrightarrow> pipelineOK s'"
proof (induction "length messages" arbitrary: messages s rule: less_induct)
  case less
  show ?case
  proof (cases "messages = [] \<or> sz = 0")
    case True
    then show ?thesis using less.prems by (auto simp: createInBatches.simps [of sz])
  next
    case False
    obtain s1 e where st: "stmt (createRows (map (inboxRow hash src at) (take sz messages))) s = (s1, e)" by fastforce
    have ok: "pipelineOK s1"
      using st by (cases rule: stmt_cases)
        (use createRows_ok less.prems(2) in auto)
    show ?thesis
    proof (cases e)
      case None
      then have "createInBatches sz (map (inboxRow hash src at) (drop sz messages)) s1 = (s', r)"
        using less.prems(1) False st by (simp add: createInBatches.simps [of sz "map _ messages"] take_map drop_map)
      moreover have "length (drop sz messages) < length messages" using False by simp
      ultimately show ?thesis using less.hyps ok by blast
    next
      case (Some x)
      then show ?thesis using less.prems(1) False st ok by (simp add: createInBatches.simps [of sz "map _ messages"] take_map)
    qed
  qed
qed

lemma insert_ok:
  assumes "InsertRedisUsageInboxRawMessages hash columns src messages at s = (s', r)" "pipelineOK s"
  shows "pipelineOK s'"
proof (cases "messages = []")
  case False
  obtain out where "transaction (createInBatches (nat (insertBatchSize columns)) (map (inboxRow hash src at) messages)) s = (s', out)"
    using assms(1) False by (auto simp: InsertRedisUsageInboxRawMessages_def Let_def split: prod.splits sum.splits)
  then show ?thesis
    by (cases rule: transaction_cases) (use assms(2) createInBatches_ok in auto)
qed (use assms in \<open>simp add: InsertRedisUsageInboxRawMessages_def\<close>)

text \<open>
  The reachable stores: new messages arrive, the processor runs, and between them the environment
  decides which statements will fail, what the clock shows and which identities are known.
\<close>

inductive pipeline :: "db \<Rightarrow> bool" where
  pipe_start: "inbox s = [] \<Longrightarrow> usage_events s = [] \<Longrightarrow> pipeline s"
| pipe_receive: "pipeline s \<Longrightarrow> InsertRedisUsageInboxRawMessages hash columns src messages at s = (s', r) \<Longrightarrow> pipeline s'"
| pipe_process: "pipeline s \<Longrightarrow>
    ProcessRedisUsageInbox (productionDeps unmarshal parseIP (buildSnapshot :: string \<Rightarrow> UsageEvent \<Rightarrow> string \<Rightarrow> unit option) columns)
      configured now s = (s', notices, res, e) \<Longrightarrow> pipeline s'"
| pipe_environment: "pipeline s \<Longrightarrow> pipeline (s\<lparr>faults := fs, gorm_now := t, usage_identities := known\<rparr>)"

text \<open>
  C1. In every store that messages, rounds and failures can lead to: the stored usage events are,
  with their multiplicity, the events of the rows marked processed; no row is pending or waiting
  for a retry once its event is stored; a row is discarded exactly after five failed attempts.
\<close>

theorem pipeline_exactly_once:
  assumes "pipeline s"
  shows "mset (map EventKey (usage_events s)) = mset (bookedKeys (inbox s)) \<and> distinct (map in_ID (inbox s))
    \<and> (\<forall>r \<in> set (inbox s).
        (processable r \<longrightarrow> UsageEventKey r = [] \<and> AttemptCount r < 5) \<and>
        (in_Status r = RedisUsageInboxStatusDiscarded \<longrightarrow> UsageEventKey r = [] \<and> AttemptCount r = 5))"
proof -
  have "pipelineOK s" using assms
  proof (induction rule: pipeline.induct)
    case (pipe_process s unmarshal parseIP buildSnapshot columns configured now s' notices res e)
    have "distinct (map in_ID (inbox s))" using pipe_process.IH by (simp add: pipelineOK_def)
    from round_booked [OF pipe_process.hyps(2) production_given this]
    show ?case using booked_pipeline(1) [OF _ pipe_process.IH] by blast
  qed (auto simp: pipelineOK_def bookedKeys_def dest: insert_ok)
  then show ?thesis
    by (auto simp: pipelineOK_def rowOK_def processable_def split: inboxStatus.splits)
qed

section \<open>A concrete run\<close>

text \<open>Three messages: a Codex request, one that does not decode, one of a foreign provider.\<close>

definition samplePayload :: "string \<Rightarrow> string \<Rightarrow> queuedUsageDetail" where
  "samplePayload key provider =
     \<lparr>q_Timestamp = 5, q_LatencyMS = 7, q_TTFTMS = None, q_Source = [], q_AuthIndex = [], q_ClientIP = None,
      q_ResolvedClientIP = None, q_XForwardedFor = None, q_UserAgent = None,
      q_Tokens = \<lparr>ts_InputTokens = 10, ts_OutputTokens = 4, ts_ReasoningTokens = 0, ts_CachedTokens = 0,
                   ts_CacheReadTokens = 0, ts_CacheReadPresent = True, ts_CacheCreationTokens = 0, ts_TotalTokens = 0\<rparr>,
      q_Failed = False, q_Generate = None, q_Provider = provider, q_Model = ''m'', q_Alias = None, q_ResponseModel = [],
      q_ReasoningEffort = [], q_ServiceTier = [], q_ResponseServiceTier = [], q_ExecutorType = ''CodexExecutor'',
      q_Endpoint = [], q_AuthType = ''apikey'', q_APIKey = [], q_RequestID = key, q_SessionID = [],
      q_ParentSessionID = [], q_Stream = None, q_StatusCode = None, q_ResponseHeaders = []\<rparr>"

definition sampleUnmarshal :: "string \<Rightarrow> string + queuedUsageDetail" where
  "sampleUnmarshal m =
     (if m = ''a'' then Inr (samplePayload ''r1'' ''codex'') else if m = ''c'' then Inr (samplePayload ''r2'' ''gemini'')
      else Inl ''bad json'')"

definition sampleDeps :: "unit deps" where
  "sampleDeps = productionDeps sampleUnmarshal (\<lambda>_. False) (\<lambda>_ _ _. None) 36"

definition emptyStore :: "string option list \<Rightarrow> db" where
  "emptyStore fs = \<lparr>inbox = [], usage_events = [], usage_identities = [], next_inbox = 1, next_event = 1, gorm_now = 9, faults = fs\<rparr>"

definition filledStore :: db where
  "filledStore = fst (InsertRedisUsageInboxRawMessages (\<lambda>m. m) 10 ''redis_pull:usage'' [''a'', ''b'', ''c''] 8 (emptyStore []))"

lemma filled: "inbox filledStore \<noteq> [] \<and> map RawMessage (inbox filledStore) = [''a'', ''b'', ''c'']"
  by code_simp

definition sampleRound :: "string option list \<Rightarrow> db \<times> unit notice list \<times> RedisBatchSyncResult option \<times> string option" where
  "sampleRound fs = ProcessRedisUsageInbox sampleDeps True 20 (filledStore\<lparr>faults := fs\<rparr>)"

lemma sample_clean: "map EventKey (usage_events (fst (sampleRound []))) = [''r1'']
    \<and> map in_Status (inbox (fst (sampleRound []))) = [RedisUsageInboxStatusProcessed, RedisUsageInboxStatusDecodeFailed, RedisUsageInboxStatusProcessed]"
  by code_simp

lemma pipeline_filled: "pipeline filledStore"
proof -
  have "pipeline (emptyStore [])" by (rule pipe_start) (simp_all add: emptyStore_def)
  then show ?thesis unfolding filledStore_def by (rule pipe_receive) (rule prod.collapse [symmetric])
qed

lemma filled_ok: "pipelineOK (filledStore\<lparr>faults := fs\<rparr>)"
proof -
  have "pipelineOK (emptyStore [])" by (simp add: pipelineOK_def emptyStore_def bookedKeys_def)
  then show ?thesis unfolding filledStore_def pipelineOK_faults by (rule insert_ok [rotated]) (rule prod.collapse [symmetric])
qed

text \<open>The same messages with an INSERT that fails: nothing is stored and the row waits for its retry.\<close>

theorem round_exactly_once_witness:
  "pipelineOK (fst (sampleRound [None, None, None, Some ''busy'']))
   \<and> usage_events (fst (sampleRound [None, None, None, Some ''busy''])) = []
   \<and> map in_Status (inbox (fst (sampleRound [None, None, None, Some ''busy'']))) =
       [RedisUsageInboxStatusProcessFailed, RedisUsageInboxStatusDecodeFailed, RedisUsageInboxStatusProcessed]"
proof -
  obtain s' notices r e where out: "sampleRound [None, None, None, Some ''busy''] = (s', notices, r, e)"
    using prod_cases4 by blast
  have "pipelineOK s'"
    using round_exactly_once [OF filled_ok out [unfolded sampleRound_def sampleDeps_def]] by simp
  moreover have "usage_events (fst (sampleRound [None, None, None, Some ''busy''])) = []" by code_simp
  moreover have "map in_Status (inbox (fst (sampleRound [None, None, None, Some ''busy'']))) =
       [RedisUsageInboxStatusProcessFailed, RedisUsageInboxStatusDecodeFailed, RedisUsageInboxStatusProcessed]" by code_simp
  ultimately show ?thesis by (simp add: out)
qed

theorem pipeline_exactly_once_witness:
  "map EventKey (usage_events (fst (sampleRound []))) = [''r1'']
   \<and> mset (bookedKeys (inbox (fst (sampleRound [])))) = mset [''r1'']"
proof -
  obtain s' notices r e where out: "sampleRound [] = (s', notices, r, e)" using prod_cases4 by blast
  have "filledStore\<lparr>faults := []\<rparr> = filledStore" by code_simp
  then have "ProcessRedisUsageInbox sampleDeps True 20 filledStore = (s', notices, r, e)"
    using out by (simp add: sampleRound_def)
  note pipeline_exactly_once [OF pipe_process [OF pipeline_filled this [unfolded sampleDeps_def]]]
  moreover have "map EventKey (usage_events s') = [''r1'']" using sample_clean by (simp add: out)
  ultimately have "mset (bookedKeys (inbox s')) = mset [''r1'']" by metis
  with \<open>map EventKey (usage_events s') = [''r1'']\<close> show ?thesis by (simp only: out fst_conv simp_thms)
qed

end
