(* ===== verification/Usage_Progress.thy ===== *)
theory Usage_Progress
  imports Usage_Sync
begin

text \<open>
  Progress of the inbox processor of \<^verbatim>\<open>internal/service/sync.go\<close>: while the database works, every
  round closes all the rows it took, so a backlog is gone after as many rounds as it has batches.
\<close>

section \<open>Closed rows stay closed\<close>

definition settled :: "int set \<Rightarrow> db \<Rightarrow> bool" where
  "settled A s \<longleftrightarrow> (\<forall>r \<in> set (inbox s). in_ID r \<in> A \<longrightarrow> \<not> processable r)"

lemma settled_update:
  assumes "settled A s" "\<And>r. \<not> processable (f r) \<and> in_ID (f r) = in_ID r"
  shows "settled (A \<union> {i. p i}) (updateRows p f s)"
  using assms by (auto simp: settled_def updateRows_def processable_def)

lemma settled_mono: "settled A s \<Longrightarrow> B \<subseteq> A \<Longrightarrow> settled B s"
  by (auto simp: settled_def)

lemma closing [simp]:
  "\<not> processable (setProcessed k at r)" "in_ID (setProcessed k at r) = in_ID r"
  "\<not> processable (setFailed RedisUsageInboxStatusDecodeFailed err r)" "in_ID (setFailed st err r) = in_ID r"
  by (simp_all add: setProcessed_def setFailed_def processable_def)

lemma updateRows_clean [simp]: "faults (updateRows p f s) = faults s"
  by (simp add: updateRows_def)

lemma decodeLoop_clean:
  "decodeLoop d n at rows valid errs s = (s', out) \<Longrightarrow> faults s = [] \<Longrightarrow> settled A s \<Longrightarrow>
   \<exists>new errs'. out = Inr (valid @ new, errs') \<and> faults s' = [] \<and> settled (A \<union> (ids rows - ids (map fst new))) s'"
proof (induction rows arbitrary: valid errs s A)
  case (Cons row rows)
  have closed: ?case
    if run: "decodeLoop d n at rows valid e1 (updateRows (\<lambda>i. i = in_ID row) f s) = (s', out)"
      and f: "\<And>r. \<not> processable (f r) \<and> in_ID (f r) = in_ID r" for e1 f
  proof -
    have "settled (A \<union> {i. i = in_ID row}) (updateRows (\<lambda>i. i = in_ID row) f s)"
      by (rule settled_update [OF Cons.prems(3) f])
    from Cons.IH [OF run _ this] Cons.prems(2)
    obtain new errs' where new: "out = Inr (valid @ new, errs')" "faults s' = []"
        "settled (A \<union> {i. i = in_ID row} \<union> (ids rows - ids (map fst new))) s'" by auto
    have "settled (A \<union> (ids (row # rows) - ids (map fst new))) s'"
      by (rule settled_mono [OF new(3)]) auto
    then show ?thesis using new(1,2) by blast
  qed
  show ?case
  proof (cases "decode d (RawMessage row) at")
    case (Inl e)
    then have "decodeLoop d n at rows valid (errs @ [e])
        (updateRows (\<lambda>i. i = in_ID row) (setFailed RedisUsageInboxStatusDecodeFailed (Some e)) s) = (s', out)"
      using Cons.prems(1,2) by (simp add: MarkRedisUsageInboxDecodeFailed_def markRedisUsageInboxFailed_def)
    then show ?thesis by (rule closed) simp
  next
    case (Inr p)
    obtain event snapshot provider supported where p: "p = (event, snapshot)"
      and prov: "UsageProvider (ev_Provider event) (ev_ExecutorType event) = (provider, supported)"
      by (metis prod.collapse)
    show ?thesis
    proof (cases supported)
      case True
      let ?w = "(row, event\<lparr>ev_Provider := provider\<rparr>, snapshot)"
      have "decodeLoop d n at rows (valid @ [?w]) errs s = (s', out)" using Cons.prems(1) Inr p prov True by simp
      from Cons.IH [OF this Cons.prems(2,3)]
      obtain new errs' where new: "out = Inr ((valid @ [?w]) @ new, errs')" "faults s' = []"
          "settled (A \<union> (ids rows - ids (map fst new))) s'" by blast
      have "settled (A \<union> (ids (row # rows) - ids (map fst (?w # new)))) s'"
        by (rule settled_mono [OF new(3)]) auto
      then show ?thesis using new(1,2) by (intro exI [of _ "?w # new"] exI [of _ errs']) simp
    next
      case False
      then have "decodeLoop d n at rows valid errs
          (updateRows (\<lambda>i. i = in_ID row) (setProcessed (\<lambda>_. []) at) s) = (s', out)"
        using Cons.prems(1,2) Inr p prov by (simp add: MarkRedisUsageInboxProcessed_def)
      then show ?thesis by (rule closed) simp
    qed
  qed
qed auto

section \<open>Queries and the registry do not fail\<close>

lemma loadBatches_clean: "faults s = [] \<Longrightarrow> \<exists>rows'. loadBatches t is del rows s = (s, Inr rows')"
proof (induction t "is" del rows s rule: loadBatches.induct)
  case (1 t "is" del rows s)
  then show ?case by (subst loadBatches.simps) auto
qed

lemma loadGroups_clean: "faults s = [] \<Longrightarrow> \<exists>rows'. loadGroups gs del rows s = (s, Inr rows')"
proof (induction gs arbitrary: rows)
  case (Cons g gs)
  obtain t "is" where g: "g = (t, is)" by fastforce
  obtain rows' where "loadBatches t is del rows s = (s, Inr rows')" using loadBatches_clean [OF Cons.prems] by blast
  then show ?case using Cons g by simp
qed simp

lemma resolver_clean: "faults s = [] \<Longrightarrow> \<exists>m. buildUsageEventTypeResolver events s = (s, Inr m)"
proof -
  assume clean: "faults s = []"
  have "\<exists>rows'. loadRedisUsageIdentityTypeRows keys del s = (s, Inr rows')" for keys del
    using loadGroups_clean [OF clean] by (simp add: loadRedisUsageIdentityTypeRows_def)
  then show ?thesis unfolding buildUsageEventTypeResolver_def Let_def
    by (smt (verit) old.prod.case old.sum.simps(6))
qed

lemma registry_resolves: "\<exists>r. ResolveExecutor e = Inr r" "\<exists>r. ResolveIdentity e i = Inr r"
proof -
  obtain registry where r: "buildRegistryIndexes = Inr registry" by (rule static_registry) blast
  show "\<exists>r. ResolveExecutor e = Inr r" by (simp add: ResolveExecutor_def r)
  show "\<exists>r. ResolveIdentity e i = Inr r" by (simp add: ResolveIdentity_def r)
qed

lemma resolveByExecutor_total: "\<exists>items. resolveByExecutor events = Inr items"
proof (induction events)
  case (Cons event events)
  obtain r where "ResolveExecutor (ev_ExecutorType event) = Inr r" using registry_resolves(1) by blast
  then show ?case using Cons by auto
qed simp

lemma resolveByIdentity_total: "\<exists>items'. resolveByIdentity m items = Inr items'"
proof (induction items)
  case (Cons item items)
  obtain r where "ResolveIdentity (ev_ExecutorType (n_event item)) (resolveUsageEventType (n_event item) m) = Inr r"
    using registry_resolves(2) by blast
  then show ?case using Cons by auto
qed simp

lemma normalize_clean:
  assumes "faults s = []"
  shows "\<exists>items. normalizeRedisUsageEventsDetailed events s = (s, items, None)"
proof -
  obtain items where items: "resolveByExecutor events = Inr items" using resolveByExecutor_total by blast
  obtain m where m: "buildUsageEventTypeResolver (map n_event (filter (\<lambda>item. \<not> n_ready item) items)) s = (s, Inr m)"
    using resolver_clean [OF assms] by blast
  obtain items' where "resolveByIdentity m items = Inr items'" using resolveByIdentity_total by blast
  then show ?thesis using items m by (auto simp: normalizeRedisUsageEventsDetailed_def Let_def)
qed

section \<open>The transaction\<close>

lemma markBatches_clean:
  "faults s = [] \<Longrightarrow> settled A s \<Longrightarrow>
   \<exists>s'. markBatches start updates at s = (s', None) \<and> faults s' = [] \<and> settled (A \<union> set (map fst updates)) s'"
proof (induction start updates at s arbitrary: A rule: markBatches.induct)
  case (1 start updates at s)
  show ?case
  proof (cases "updates = []")
    case False
    let ?N = redisUsageInboxProcessedBatchSize
    let ?b = "take ?N updates"
    let ?s = "updateRows (\<lambda>i. i \<in> set (map fst ?b)) (setProcessed (eventKeyCase ?b) at) s"
    have st: "stmt (updateRows (\<lambda>i. i \<in> set (map fst ?b)) (setProcessed (eventKeyCase ?b) at)) s = (?s, None)"
      using 1(2) by simp
    have "settled (A \<union> {i. i \<in> set (map fst ?b)}) ?s" by (rule settled_update [OF 1(3)]) simp
    from 1(1) [OF False refl st [symmetric] refl _ this] 1(2)
    obtain s' where s': "markBatches (start + ?N) (drop ?N updates) at ?s = (s', None)" "faults s' = []"
        "settled (A \<union> {i. i \<in> set (map fst ?b)} \<union> set (map fst (drop ?N updates))) s'" by auto
    have "set (map fst updates) = set (map fst ?b) \<union> set (map fst (drop ?N updates))"
      by (metis append_take_drop_id map_append set_append)
    then have "settled (A \<union> set (map fst updates)) s'" by (intro settled_mono [OF s'(3)]) auto
    moreover have "markBatches start updates at s = (s', None)"
      unfolding markBatches.simps [of start updates] using False st s'(1) by (simp add: Let_def)
    ultimately show ?thesis using s'(2) by blast
  qed (use 1 in \<open>simp add: markBatches.simps\<close>)
qed

lemma insertEventBatches_clean: "faults s = [] \<Longrightarrow> \<exists>s' st. insertEventBatches sz events s = (s', Inr st) \<and> faults s' = [] \<and> inbox s' = inbox s"
proof (induction sz events s rule: insertEventBatches.induct)
  case (1 sz events s)
  show ?case
  proof (cases "events = [] \<or> sz = 0")
    case False
    let ?s = "createEvents (take sz events) s"
    have st: "stmt (createEvents (take sz events)) s = (?s, None)" and clean: "faults ?s = []" "inbox ?s = inbox s"
      using 1(2) by (simp_all add: createEvents_def)
    from 1(1) [OF False st [symmetric] refl clean(1)] show ?thesis
      using False st clean(2) unfolding insertEventBatches.simps [of sz events s] by auto
  qed (use 1(2) in \<open>simp add: insertEventBatches.simps [of sz events s]\<close>)
qed

lemma transaction_clean:
  "body s = (s1, Inr v) \<Longrightarrow> faults s1 = [] \<Longrightarrow> transaction body s = (s1, Inr v)"
  by (simp add: transaction_def)

lemma commit_clean:
  assumes "faults s = []" "settled A s" "length rows = length events"
  shows "\<exists>s' stored. transaction (commitBody columns at rows events) s = (s', Inr stored) \<and> faults s' = []
    \<and> settled (A \<union> ids rows) s'"
proof -
  obtain s1 stored where ins: "InsertUsageEvents columns events s = (s1, Inr stored)" and s1: "faults s1 = []" "inbox s1 = inbox s"
  proof (cases "events = []")
    case True
    then show ?thesis using that assms(1) by (simp add: InsertUsageEvents_def)
  next
    case False
    obtain t st where t: "insertEventBatches (nat (insertBatchSize columns)) events s = (t, Inr st)" "faults t = []" "inbox t = inbox s"
      using insertEventBatches_clean [OF assms(1)] by blast
    then have "InsertUsageEvents columns events s = (t, Inr st)"
      using transaction_clean [of "insertEventBatches (nat (insertBatchSize columns)) events", OF t(1,2)] False
      by (simp add: InsertUsageEvents_def)
    then show ?thesis using that t(2,3) by blast
  qed
  have "settled A s1" using assms(2) s1(2) by (simp add: settled_def)
  from markBatches_clean [OF s1(1) this, of 0 "zip (map in_ID rows) (map EventKey events)" at]
  obtain s2 where s2: "markBatches 0 (zip (map in_ID rows) (map EventKey events)) at s1 = (s2, None)" "faults s2 = []"
      "settled (A \<union> ids rows) s2" using assms(3) by auto
  have "commitBody columns at rows events s = (s2, Inr stored)"
    using ins s2(1) by (simp add: commitBody_def persistRedisUsageEvents_def MarkRedisUsageInboxProcessedBatch_def)
  from transaction_clean [of "commitBody columns at rows events", OF this s2(2)] show ?thesis using s2(2,3) by blast
qed

section \<open>A round without failures\<close>

definition worked :: "RedisBatchSyncResult option \<Rightarrow> bool" where
  "worked r \<longleftrightarrow> (\<exists>x. r = Some x \<and> res_Status x \<noteq> ''failed'')"

text \<open>The report of a round over \<open>n\<close> rows that leaves none of them to a retry.\<close>

definition batchReport :: "nat \<Rightarrow> RedisBatchSyncResult option \<Rightarrow> bool" where
  "batchReport n r \<longleftrightarrow> (\<exists>x. r = Some x \<and> BatchFull x = (redisInboxProcessLimit \<le> n) \<and> \<not> RetryPending x \<and> res_Status x \<noteq> [])"

lemma settleValid_clean:
  assumes run: "settleValid d n at de valid s = (s', notices, r, e)" and agg: "usageAggregation d"
    and clean: "faults s = []" "settled A s"
  shows "faults s' = [] \<and> settled (A \<union> ids (map fst valid)) s' \<and> worked r \<and> batchReport n r"
proof -
  obtain items where norm: "normalizeRedisUsageEventsDetailed (map (\<lambda>w. fst (snd w)) valid) s = (s, items, None)"
    using normalize_clean [OF clean(1)] by blast
  have len: "length items = length valid" and rdy: "list_all n_ready items" using normalized [OF norm] by simp_all
  have "n_ready (fst p)" if "p \<in> set (zip items valid)" for p
    using that rdy by (metis list_all_iff prod.collapse set_zip_leftD)
  then have all: "filter (\<lambda>p. n_ready (fst p)) (zip items valid) = zip items valid" by (simp add: filter_id_conv)
  let ?rows = "map (\<lambda>p. fst (snd p)) (zip items valid)" and ?events = "map (\<lambda>p. n_event (fst p)) (zip items valid)"
  have "?rows = map fst (map snd (zip items valid))" by simp
  then have rows: "?rows = map fst valid" using len by (simp only: map_snd_zip)
  obtain s1 stored where tx: "transaction (commitBody (event_columns d) at ?rows ?events) s = (s1, Inr stored)"
      "faults s1 = []" "settled (A \<union> ids ?rows) s1"
    using commit_clean [OF clean, of ?rows ?events "event_columns d" at] by auto
  obtain snaps where commit: "commitReady d n at noFailures de None ?rows ?events snaps s = (s', notices, r, e)"
    using run norm all by (simp add: settleValid_def Let_def)
  obtain s2 ns err where after: "afterCommit d stored snaps s1 = (s2, ns, err)" using prod_cases3 by blast
  have "s2 = s1 \<and> err = None" using afterCommit_notices [OF agg after] by simp
  then have "s' = s1" and "r = Some \<lparr>Empty = False,
      res_Status = (if de \<noteq> None then ''completed_with_warnings'' else ''completed''), InsertedEvents = length stored, DedupedEvents = 0,
      ProcessedRows = n, BatchFull = (n \<ge> redisInboxProcessLimit), RetryPending = requiresRetryWait noFailures, DiscardedRows = discarded noFailures\<rparr>"
    using commit tx(1) after by (simp_all add: commitReady_def Let_def)
  with tx(2,3) rows show ?thesis
    by (simp add: worked_def batchReport_def requiresRetryWait_def noFailures_def)
qed

lemma processRows_clean:
  assumes run: "processRedisInboxRows d rows at s = (s', notices, r, e)" and agg: "usageAggregation d"
    and clean: "faults s = []"
  shows "faults s' = [] \<and> settled (ids rows) s' \<and> worked r \<and> batchReport (length rows) r"
proof -
  obtain s1 out where dec: "decodeLoop d (length rows) at rows [] [] s = (s1, out)" by fastforce
  have "settled {} s" by (simp add: settled_def)
  from decodeLoop_clean [OF dec clean this]
  obtain valid errs where out: "out = Inr (valid, errs)" and s1: "faults s1 = []" "settled (ids rows - ids (map fst valid)) s1"
    by auto
  show ?thesis
  proof (cases "valid = []")
    case True
    then have "s' = s1 \<and> r \<in> {Some (newRedisBatchSyncResult ''completed_with_warnings'' (length rows)),
        Some (newRedisBatchSyncResult ''empty'' (length rows))}"
      using run dec out by (cases "joinErrors (map Some errs)") (simp_all add: processRedisInboxRows_def Let_def)
    moreover have "worked (Some (newRedisBatchSyncResult ''completed_with_warnings'' (length rows)))"
      "worked (Some (newRedisBatchSyncResult ''empty'' (length rows)))"
      "batchReport (length rows) (Some (newRedisBatchSyncResult ''completed_with_warnings'' (length rows)))"
      "batchReport (length rows) (Some (newRedisBatchSyncResult ''empty'' (length rows)))"
      by (simp_all add: worked_def batchReport_def newRedisBatchSyncResult_def)
    ultimately show ?thesis using s1 True by auto
  next
    case False
    have "settleValid d (length rows) at (joinErrors (map Some errs)) valid s1 = (s', notices, r, e)"
      using run dec out False by (simp add: processRedisInboxRows_def Let_def)
    from settleValid_clean [OF this agg s1] have "faults s' = []" "worked r" "batchReport (length rows) r"
      and closedAll: "settled (ids rows - ids (map fst valid) \<union> ids (map fst valid)) s'" by simp_all
    moreover have "settled (ids rows) s'" by (rule settled_mono [OF closedAll]) auto
    ultimately show ?thesis by simp
  qed
qed

lemma moved_filter:
  assumes "list_all2 (\<lambda>r r'. rowStep r r' \<and> (in_ID r \<notin> A \<longrightarrow> r' = r)) rows rows'"
    and "\<forall>r \<in> set rows'. in_ID r \<in> A \<longrightarrow> \<not> processable r"
  shows "filter processable rows' = filter (\<lambda>r. processable r \<and> in_ID r \<notin> A) rows"
  using assms
proof (induction rule: list_all2_induct)
  case (Cons r rows r' rows')
  then show ?case using rowStep_keeps [of r r'] by (cases "in_ID r \<in> A") auto
qed simp

definition backlog :: "db \<Rightarrow> RedisUsageInbox list" where
  "backlog s = filter processable (inbox s)"

definition openIDs :: "db \<Rightarrow> int list" where
  "openIDs s = sort (map in_ID (backlog s))"

lemma openIDs_mset: "mset (backlog s) = mset rows \<Longrightarrow> openIDs s = sort (map in_ID rows)"
  unfolding openIDs_def by (rule properties_for_sort) simp_all

lemma round_clean:
  assumes run: "ProcessRedisUsageInbox d True now s = (s', notices, r, e)" and agg: "usageAggregation d" and kg: "keysGiven d"
    and clean: "faults s = []" and dist: "distinct (map in_ID (inbox s))"
  shows "faults s' = [] \<and> distinct (map in_ID (inbox s')) \<and> worked r \<and> length (backlog s') = length (backlog s) - redisInboxProcessLimit \<and>
    batchReport (length (backlog s)) r \<and> openIDs s' = drop redisInboxProcessLimit (openIDs s)"
proof -
  let ?all = "sort_key in_ID (backlog s)"
  let ?rows = "limitRows (int redisInboxProcessLimit) ?all" and ?rest = "drop redisInboxProcessLimit ?all"
  have rows: "?rows = take redisInboxProcessLimit ?all" by (simp add: limitRows_def redisInboxProcessLimit_def)
  have list: "ListProcessableRedisUsageInbox (int redisInboxProcessLimit) s = (s, Inr ?rows)"
    using clean by (simp add: ListProcessableRedisUsageInbox_def backlog_def)
  obtain evs where bk: "booked (ids ?rows) evs s s'"
    using round_booked [OF run agg kg dist] unfolding backlog_def by blast
  have "length ?rows = min redisInboxProcessLimit (length (backlog s))" unfolding rows by (simp add: min.commute)
  then have same: "batchReport (length ?rows) r = batchReport (length (backlog s)) r" by (simp add: batchReport_def)
  have here: "faults s' = [] \<and> settled (ids ?rows) s' \<and> worked r \<and> batchReport (length ?rows) r"
  proof (cases "?rows = []")
    case True
    then have "s' = s \<and> r = Some (emptyResult ''empty'')"
      using run list agg by (simp add: ProcessRedisUsageInbox_def)
    then show ?thesis using clean True
      by (simp add: settled_def worked_def batchReport_def emptyResult_def newRedisBatchSyncResult_def)
  next
    case False
    then have "processRedisInboxRows d ?rows now s = (s', notices, r, e)"
      using run list by (simp add: ProcessRedisUsageInbox_def)
    then show ?thesis by (rule processRows_clean [OF _ agg clean])
  qed
  have left: "backlog s' = filter (\<lambda>r. in_ID r \<notin> ids ?rows) (backlog s)"
    using moved_filter [of "ids ?rows" "inbox s" "inbox s'"] bk here
    by (simp add: booked_def progress_def moved_def settled_def backlog_def conj_commute)
  have "distinct (map in_ID ?all)"
    using distinct_map_filter [OF dist, of processable] by (metis backlog_def mset_eq_imp_distinct_iff mset_map mset_sort)
  then have dis: "distinct (map in_ID (?rows @ ?rest))" unfolding rows by simp
  then have "filter (\<lambda>r. in_ID r \<notin> ids ?rows) ?rows = []" "filter (\<lambda>r. in_ID r \<notin> ids ?rows) ?rest = ?rest"
    by (auto simp: filter_empty_conv filter_id_conv)
  then have "filter (\<lambda>r. in_ID r \<notin> ids ?rows) (?rows @ ?rest) = ?rest" by simp
  moreover have "mset (?rows @ ?rest) = mset (backlog s)" unfolding rows by simp
  ultimately have "mset (backlog s') = mset ?rest" unfolding left by (metis mset_filter)
  moreover from this have "length (backlog s') = length (backlog s) - redisInboxProcessLimit"
    using mset_eq_length by fastforce
  moreover have "openIDs s = map in_ID ?all" using openIDs_mset [of s ?all] by (simp add: sorted_sort_id)
  moreover have "sort (map in_ID ?rest) = map in_ID ?rest" by (simp add: sorted_sort_id sorted_wrt_drop drop_map [symmetric])
  ultimately show ?thesis using here same booked_ids [OF bk] dist openIDs_mset [of s' ?rest] by (simp add: drop_map)
qed

text \<open>
  C12. While the database answers, the processor drains any backlog, oldest rows first: after \<open>j\<close>
  rounds the rows pending or waiting for a retry are those of the start less its \<open>j\<close> thousand
  lowest ids, so every round closes the oldest thousand open rows for good, and every round reports no
  failure. After as many rounds as the backlog has batches no row is open.
\<close>

theorem inbox_drains:
  assumes "pipelineOK s" "faults s = []" "length (backlog s) \<le> redisInboxProcessLimit * k"
  shows "(\<forall>j. let t = ((\<lambda>t. fst (ProcessRedisUsageInbox (productionDeps unmarshal parseIP buildSnapshot columns) True now t)) ^^ j) s in
      openIDs t = drop (redisInboxProcessLimit * j) (openIDs s) \<and>
      worked (fst (snd (snd (ProcessRedisUsageInbox (productionDeps unmarshal parseIP buildSnapshot columns) True now t)))))
    \<and> backlog (((\<lambda>t. fst (ProcessRedisUsageInbox (productionDeps unmarshal parseIP buildSnapshot columns) True now t)) ^^ k) s) = []"
proof -
  let ?d = "productionDeps unmarshal parseIP buildSnapshot columns"
  let ?f = "\<lambda>t. fst (ProcessRedisUsageInbox ?d True now t)"
  have step: "faults (?f t) = [] \<and> distinct (map in_ID (inbox (?f t))) \<and> worked (fst (snd (snd (ProcessRedisUsageInbox ?d True now t))))
      \<and> openIDs (?f t) = drop redisInboxProcessLimit (openIDs t)"
    if "faults t = []" "distinct (map in_ID (inbox t))" for t
    using round_clean [OF _ production_given that, of _ _ _ _ now "?f t"] by (metis prod.collapse)
  have run: "faults ((?f ^^ j) s) = [] \<and> distinct (map in_ID (inbox ((?f ^^ j) s)))
      \<and> openIDs ((?f ^^ j) s) = drop (redisInboxProcessLimit * j) (openIDs s)" for j
  proof (induction j)
    case 0
    then show ?case using assms(1,2) by (simp add: pipelineOK_def)
  next
    case (Suc j)
    then show ?case using step [of "(?f ^^ j) s"] by (simp add: add.commute)
  qed
  have "openIDs ((?f ^^ k) s) = []" using run [of k] assms(3) by (simp add: openIDs_def)
  then have "length (openIDs ((?f ^^ k) s)) = 0" by (simp only: list.size)
  then have "backlog ((?f ^^ k) s) = []" unfolding openIDs_def by (simp only: length_sort length_map length_0_conv)
  moreover have "worked (fst (snd (snd (ProcessRedisUsageInbox ?d True now ((?f ^^ j) s)))))" for j
    using step run by blast
  ultimately show ?thesis using run by (simp add: Let_def)
qed

theorem inbox_drains_witness:
  "length (backlog filledStore) = 3 \<and> backlog (fst (ProcessRedisUsageInbox sampleDeps True 20 filledStore)) = []"
proof -
  have start: "length (backlog filledStore) = 3" "faults filledStore = []" by code_simp+
  have "pipelineOK filledStore" using filled_ok [of "[]"] by simp
  from inbox_drains [OF this start(2), of 1 sampleUnmarshal "\<lambda>_. False" "\<lambda>_ _ _. None :: unit option" 36 20] start(1)
  show ?thesis by (simp add: sampleDeps_def redisInboxProcessLimit_def)
qed

end
