(* ===== verification/Process_Runner.thy ===== *)
theory Process_Runner
  imports Usage_Progress Ingest_Runner
begin

text \<open>
  The goroutine that processes the inbox: \<^verbatim>\<open>internal/poller/redis_process_runner.go\<close> with the status of
  the whole poller. A \<open>moment\<close> is what one turn of the loop meets: whether the application stops,
  what others have done to the database, whether another caller holds the process flag, the two clock
  readings and whether the wait runs to its end; a run is driven by a list of moments.
\<close>

section \<open>State\<close>

definition redisInboxProcessInterval :: duration where
  "redisInboxProcessInterval = Second"

datatype processError = SyncAlreadyRunning | SyncCompletedWithWarnings string | ProcessFailed string | RunnerInvalid string

record Status =
  st_Running :: bool
  st_LastRunAt :: gotime
  st_LastError :: string
  st_LastWarning :: string
  st_LastStatus :: string
  st_SyncRunning :: bool

datatype processEvent = Rounded | BatchFailureLogged | ProcessSlept duration

record RedisProcessRunner =
  pr_syncer :: bool
  pr_running :: bool
  processRunning :: bool
  pr_lastRunAt :: gotime
  pr_lastError :: string
  pr_lastWarning :: string
  pr_lastStatus :: string
  pr_trace :: "processEvent list"

definition NewRedisProcessRunner :: "bool \<Rightarrow> RedisProcessRunner" where
  "NewRedisProcessRunner syncer =
     \<lparr>pr_syncer = syncer, pr_running = False, processRunning = False, pr_lastRunAt = zero_time, pr_lastError = [],
      pr_lastWarning = [], pr_lastStatus = [], pr_trace = []\<rparr>"

definition process_validate :: "RedisProcessRunner \<Rightarrow> processError option" where
  "process_validate r = (if pr_syncer r then None else Some (RunnerInvalid ''redis process syncer is nil''))"

section \<open>One round\<close>

text \<open>A result that reports more than a failure, so that an error beside it is only a warning.\<close>

definition partlyDone :: "RedisBatchSyncResult option \<Rightarrow> bool" where
  "partlyDone result = (case result of None \<Rightarrow> False | Some x \<Rightarrow> res_Status x \<noteq> [] \<and> res_Status x \<noteq> ''failed'')"

definition recordProcessResult ::
  "gotime \<Rightarrow> RedisBatchSyncResult option \<Rightarrow> string option \<Rightarrow> RedisProcessRunner \<Rightarrow> RedisProcessRunner" where
  "recordProcessResult now result err r =
     (let status = (case result of None \<Rightarrow> [] | Some x \<Rightarrow> res_Status x) in
      r\<lparr>pr_lastRunAt := now,
        pr_lastStatus := (if status = [] \<and> err = None then ''completed'' else status),
        pr_lastError := (case err of None \<Rightarrow> [] | Some e \<Rightarrow> if partlyDone result then [] else e),
        pr_lastWarning := (case err of None \<Rightarrow> [] | Some e \<Rightarrow> if partlyDone result then e else [])\<rparr>)"

text \<open>\<open>now\<close> is the clock of the service, \<open>recorded\<close> the reading of the runner after the round.\<close>

definition ProcessOnce ::
  "'snap deps \<Rightarrow> bool \<Rightarrow> gotime \<Rightarrow> gotime \<Rightarrow> RedisProcessRunner \<Rightarrow> db
   \<Rightarrow> RedisProcessRunner \<times> db \<times> 'snap notice list \<times> RedisBatchSyncResult option \<times> processError option" where
  "ProcessOnce d configured now recorded r s =
     (case process_validate r of
        Some e \<Rightarrow> (r, s, [], None, Some e)
      | None \<Rightarrow>
          if processRunning r then (r, s, [], None, Some SyncAlreadyRunning)
          else
            (case ProcessRedisUsageInbox d configured now s of
               (s', notices, result, err) \<Rightarrow>
                 ((recordProcessResult recorded result err (r\<lparr>processRunning := True\<rparr>))\<lparr>processRunning := False\<rparr>, s', notices, result,
                  case err of
                    None \<Rightarrow> None
                  | Some e \<Rightarrow> Some (if partlyDone result then SyncCompletedWithWarnings e else ProcessFailed e))))"

section \<open>The loop\<close>

text \<open>\<open>canceled\<close> says which errors are the cancellation of the context.\<close>

definition shouldLogSyncError :: "(string \<Rightarrow> bool) \<Rightarrow> processError option \<Rightarrow> bool" where
  "shouldLogSyncError canceled err =
     (case err of
        None \<Rightarrow> False
      | Some SyncAlreadyRunning \<Rightarrow> False
      | Some (SyncCompletedWithWarnings _) \<Rightarrow> False
      | Some (ProcessFailed e) \<Rightarrow> \<not> canceled e
      | Some (RunnerInvalid _) \<Rightarrow> True)"

definition shouldLogRedisProcessBatchFailure ::
  "(string \<Rightarrow> bool) \<Rightarrow> RedisBatchSyncResult option \<Rightarrow> processError option \<Rightarrow> bool" where
  "shouldLogRedisProcessBatchFailure canceled result err =
     (if \<not> shouldLogSyncError canceled err then False
      else case result of
        None \<Rightarrow> True
      | Some x \<Rightarrow> if RetryPending x then False else if DiscardedRows x > 0 then False else True)"

fun onlyWarns :: "processError option \<Rightarrow> bool" where
  "onlyWarns None = True"
| "onlyWarns (Some (SyncCompletedWithWarnings _)) = True"
| "onlyWarns _ = False"

definition shouldContinueRedisProcessImmediately :: "RedisBatchSyncResult option \<Rightarrow> processError option \<Rightarrow> bool" where
  "shouldContinueRedisProcessImmediately result err =
     (case result of
        None \<Rightarrow> False
      | Some x \<Rightarrow> if \<not> BatchFull x then False else if RetryPending x then False else onlyWarns err)"

record moment =
  m_done :: bool
  m_before :: "db \<Rightarrow> db"
  m_busy :: bool
  m_now :: gotime
  m_recorded :: gotime
  m_slept :: bool

datatype processRun = Processing RedisProcessRunner db | Finished RedisProcessRunner db

fun process_loop :: "'snap deps \<Rightarrow> bool \<Rightarrow> (string \<Rightarrow> bool) \<Rightarrow> moment list \<Rightarrow> RedisProcessRunner \<Rightarrow> db \<Rightarrow> processRun" where
  "process_loop d configured canceled [] r s = Processing r s"
| "process_loop d configured canceled (m # ms) r s =
     (if m_done m then Finished (r\<lparr>pr_running := False\<rparr>) s
      else
        (case ProcessOnce d configured (m_now m) (m_recorded m) (r\<lparr>processRunning := m_busy m\<rparr>) (m_before m s) of
           (r1, s1, _, result, err) \<Rightarrow>
             (let logged = (if \<not> onlyWarns err \<and> shouldLogRedisProcessBatchFailure canceled result err then [BatchFailureLogged] else []);
                  r2 = r1\<lparr>pr_trace := pr_trace r1 @ [Rounded] @ logged\<rparr>
              in if shouldContinueRedisProcessImmediately result err then process_loop d configured canceled ms r2 s1
                 else if \<not> m_slept m then Finished (r2\<lparr>pr_running := False\<rparr>) s1
                 else process_loop d configured canceled ms
                        (r2\<lparr>pr_trace := pr_trace r2 @ [ProcessSlept redisInboxProcessInterval]\<rparr>) s1)))"

definition process_Run ::
  "'snap deps \<Rightarrow> bool \<Rightarrow> (string \<Rightarrow> bool) \<Rightarrow> moment list \<Rightarrow> RedisProcessRunner \<Rightarrow> db \<Rightarrow> processError + processRun" where
  "process_Run d configured canceled ms r s =
     (case process_validate r of
        Some e \<Rightarrow> Inl e
      | None \<Rightarrow> Inr (process_loop d configured canceled ms (r\<lparr>pr_running := True\<rparr>) s))"

section \<open>Status\<close>

definition process_Status :: "RedisProcessRunner \<Rightarrow> Status" where
  "process_Status r =
     \<lparr>st_Running = pr_running r, st_LastRunAt = pr_lastRunAt r, st_LastError = pr_lastError r, st_LastWarning = pr_lastWarning r,
      st_LastStatus = pr_lastStatus r, st_SyncRunning = processRunning r\<rparr>"

text \<open>The ingest runner sets no warning.\<close>

definition ingest_Status :: "ingest \<Rightarrow> Status" where
  "ingest_Status r =
     \<lparr>st_Running = Running r, st_LastRunAt = LastRunAt r, st_LastError = LastError r, st_LastWarning = [],
      st_LastStatus = LastStatus r, st_SyncRunning = SyncRunning r\<rparr>"

definition emptyStatus :: Status where
  "emptyStatus = \<lparr>st_Running = False, st_LastRunAt = zero_time, st_LastError = [], st_LastWarning = [], st_LastStatus = [],
     st_SyncRunning = False\<rparr>"

definition poller_Status :: "(ingest option \<times> RedisProcessRunner option) option \<Rightarrow> Status" where
  "poller_Status p =
     (case p of
        None \<Rightarrow> emptyStatus
      | Some (i, r) \<Rightarrow>
          (let ingestStatus = (case i of None \<Rightarrow> emptyStatus | Some x \<Rightarrow> ingest_Status x);
               processStatus = (case r of None \<Rightarrow> emptyStatus | Some x \<Rightarrow> process_Status x);
               later = st_LastRunAt processStatus > st_LastRunAt ingestStatus
           in \<lparr>st_Running = (st_Running ingestStatus \<or> st_Running processStatus),
               st_LastRunAt = (if later then st_LastRunAt processStatus else st_LastRunAt ingestStatus),
               st_LastError = (if st_LastError ingestStatus \<noteq> [] \<and> st_LastError processStatus \<noteq> []
                               then st_LastError ingestStatus @ ''; '' @ st_LastError processStatus
                               else if st_LastError processStatus \<noteq> [] then st_LastError processStatus
                               else st_LastError ingestStatus),
               st_LastWarning = (if st_LastWarning processStatus \<noteq> [] then st_LastWarning processStatus else st_LastWarning ingestStatus),
               st_LastStatus = (if later then st_LastStatus processStatus else st_LastStatus ingestStatus),
               st_SyncRunning = (st_SyncRunning ingestStatus \<or> st_SyncRunning processStatus)\<rparr>))"

section \<open>The runner drains the inbox\<close>

text \<open>A moment in which nothing interferes.\<close>

definition undisturbed :: "moment \<Rightarrow> bool" where
  "undisturbed m \<longleftrightarrow> \<not> m_done m \<and> m_before m = (\<lambda>s. s) \<and> \<not> m_busy m \<and> m_slept m"

text \<open>What the loop does in a row of such moments: it waits only after a batch that was not full.\<close>

fun drainTrace :: "nat \<Rightarrow> nat \<Rightarrow> processEvent list" where
  "drainTrace waiting 0 = []"
| "drainTrace waiting (Suc k) =
     (if redisInboxProcessLimit \<le> waiting then [Rounded] else [Rounded, ProcessSlept redisInboxProcessInterval]) @
     drainTrace (waiting - redisInboxProcessLimit) k"

lemma quiet_round:
  assumes "usageAggregation d" "keysGiven d" "faults s = []" "distinct (map in_ID (inbox s))" "pr_syncer r" "\<not> processRunning r"
    and "ProcessOnce d True now recorded r s = (r', s', notices, result, err)"
  shows "faults s' = [] \<and> distinct (map in_ID (inbox s')) \<and> length (backlog s') = length (backlog s) - redisInboxProcessLimit \<and>
    pr_syncer r' \<and> pr_trace r' = pr_trace r \<and> onlyWarns err \<and> pr_lastError r' = [] \<and>
    shouldContinueRedisProcessImmediately result err = (redisInboxProcessLimit \<le> length (backlog s))"
proof -
  obtain err0 where run: "ProcessRedisUsageInbox d True now s = (s', notices, result, err0)"
    and r': "r' = (recordProcessResult recorded result err0 (r\<lparr>processRunning := True\<rparr>))\<lparr>processRunning := False\<rparr>"
    and err: "err = (case err0 of None \<Rightarrow> None | Some e \<Rightarrow> Some (if partlyDone result then SyncCompletedWithWarnings e else ProcessFailed e))"
    using assms(5-7) by (auto simp: ProcessOnce_def process_validate_def split: prod.splits)
  from round_clean [OF run assms(1-4)] have c: "faults s' = []" "distinct (map in_ID (inbox s'))"
    "length (backlog s') = length (backlog s) - redisInboxProcessLimit" "worked result" "batchReport (length (backlog s)) result" by simp_all
  have fin: "partlyDone result" using c(4,5) by (auto simp: worked_def batchReport_def partlyDone_def)
  then have w: "onlyWarns err" by (cases err0) (simp_all add: err)
  have "shouldContinueRedisProcessImmediately result err = (redisInboxProcessLimit \<le> length (backlog s))"
    using c(5) w by (auto simp: batchReport_def shouldContinueRedisProcessImmediately_def)
  then show ?thesis using c(1-3) assms(5) w fin
    by (cases err0) (simp_all add: r' recordProcessResult_def Let_def)
qed

lemma quiet_loop:
  assumes "usageAggregation d" "keysGiven d" "\<forall>m \<in> set ms. undisturbed m" "faults s = []" "distinct (map in_ID (inbox s))" "pr_syncer r"
  shows "\<exists>r' s'. process_loop d True canceled ms r s = Processing r' s' \<and> faults s' = [] \<and>
    length (backlog s') = length (backlog s) - redisInboxProcessLimit * length ms \<and>
    pr_trace r' = pr_trace r @ drainTrace (length (backlog s)) (length ms) \<and> (ms \<noteq> [] \<longrightarrow> pr_lastError r' = [])"
  using assms(3-)
proof (induction ms arbitrary: r s)
  case Nil
  then show ?case by simp
next
  case (Cons m ms)
  let ?r = "r\<lparr>processRunning := False\<rparr>"
  have m: "\<not> m_done m" "m_before m = (\<lambda>s. s)" "\<not> m_busy m" "m_slept m" using Cons.prems(1) by (simp_all add: undisturbed_def)
  obtain r1 s1 notices result err where once: "ProcessOnce d True (m_now m) (m_recorded m) ?r s = (r1, s1, notices, result, err)"
    using prod_cases5 by blast
  note Q = quiet_round [OF assms(1,2) Cons.prems(2,3) _ _ once, simplified, OF Cons.prems(4)]
  define r2 where "r2 = r1\<lparr>pr_trace := pr_trace r @ (if redisInboxProcessLimit \<le> length (backlog s) then [Rounded]
      else [Rounded, ProcessSlept redisInboxProcessInterval])\<rparr>"
  have loop: "process_loop d True canceled (m # ms) r s = process_loop d True canceled ms r2 s1"
    using m once Q by (auto simp: r2_def Let_def)
  have "pr_syncer r2" "\<forall>m \<in> set ms. undisturbed m" using Q Cons.prems(1) by (simp_all add: r2_def)
  from Cons.IH [OF this(2) _ _ this(1)] Q obtain r' s' where IH: "process_loop d True canceled ms r2 s1 = Processing r' s'" "faults s' = []"
    "length (backlog s') = length (backlog s1) - redisInboxProcessLimit * length ms"
    "pr_trace r' = pr_trace r2 @ drainTrace (length (backlog s1)) (length ms)" "ms \<noteq> [] \<longrightarrow> pr_lastError r' = []" by blast
  have "pr_lastError r' = []" using IH(1,5) Q by (cases "ms = []") (auto simp: r2_def)
  then show ?case using IH Q loop by (simp add: r2_def)
qed

text \<open>
  C24. The runner drains the inbox without pausing. While the database answers and nothing interferes,
  as many turns of the loop as the backlog has batches leave no open row, the loop waits its interval
  exactly after the rounds that were not full, it logs no failure and shows no error.
\<close>

theorem process_runner_drains:
  assumes "pipelineOK s" "faults s = []" "\<forall>m \<in> set ms. undisturbed m" "ms \<noteq> []" "length (backlog s) \<le> redisInboxProcessLimit * length ms"
  shows "\<exists>r s'. process_Run (productionDeps unmarshal parseIP buildSnapshot columns) True canceled ms (NewRedisProcessRunner True) s =
      Inr (Processing r s') \<and> backlog s' = [] \<and> pr_trace r = drainTrace (length (backlog s)) (length ms) \<and>
      st_LastError (poller_Status (Some (None, Some r))) = []"
proof -
  let ?d = "productionDeps unmarshal parseIP buildSnapshot columns"
  have "distinct (map in_ID (inbox s))" using assms(1) by (simp add: pipelineOK_def)
  from quiet_loop [OF production_given(1,2) [of unmarshal parseIP buildSnapshot columns] assms(3,2) this, where r = "(NewRedisProcessRunner True)\<lparr>pr_running := True\<rparr>" and canceled = canceled]
  obtain r s' where "process_loop ?d True canceled ms ((NewRedisProcessRunner True)\<lparr>pr_running := True\<rparr>) s = Processing r s'"
    "length (backlog s') = length (backlog s) - redisInboxProcessLimit * length ms"
    "pr_trace r = drainTrace (length (backlog s)) (length ms)" "pr_lastError r = []"
    using assms(4) by (auto simp: NewRedisProcessRunner_def)
  then show ?thesis using assms(5)
    by (simp add: process_Run_def process_validate_def NewRedisProcessRunner_def poller_Status_def process_Status_def emptyStatus_def Let_def)
qed

theorem process_runner_drains_witness:
  "\<exists>r s'. process_Run sampleDeps True (\<lambda>_. False)
      [\<lparr>m_done = False, m_before = (\<lambda>s. s), m_busy = False, m_now = 20, m_recorded = 21, m_slept = True\<rparr>] (NewRedisProcessRunner True) filledStore =
      Inr (Processing r s') \<and> backlog s' = [] \<and> pr_trace r = [Rounded, ProcessSlept Second]"
proof -
  have start: "length (backlog filledStore) = 3" "faults filledStore = []" by code_simp+
  have ok: "pipelineOK filledStore" using filled_ok [of "[]"] by simp
  show ?thesis
    using process_runner_drains [OF ok start(2), of "[\<lparr>m_done = False, m_before = (\<lambda>s. s), m_busy = False, m_now = 20, m_recorded = 21, m_slept = True\<rparr>]"
        sampleUnmarshal "\<lambda>_. False" "\<lambda>_ _ _. None :: unit option" 36 "\<lambda>_. False"] start(1)
    by (auto simp: undisturbed_def redisInboxProcessLimit_def sampleDeps_def redisInboxProcessInterval_def)
qed

end
