(* ===== verification/Local_Time.thy ===== *)
theory Local_Time
  imports Prelude
begin

text \<open>
  What the rollups use of Go's package \<open>time\<close> and of \<^verbatim>\<open>internal/timeutil/storage.go\<close>: the project
  time zone as a table of clock changes, the local reading of an instant, \<open>time.Date\<close> and
  \<open>AddDate\<close>. A calendar date is its number of days since 1970-01-01, which is how \<open>time.Date\<close>
  normalises a day beyond the end of its month, so that \<open>AddDate(0, 0, n)\<close> adds \<open>n\<close> to it.

  A \<open>Location\<close> is the offset before the first change and the changes: the Unix second of each and
  the offset from then on. \<open>regular\<close> holds of a table whose clock changes are at least two days
  apart, do not touch local midnight and move the clock by at most two hours; the lemmas show that in such a zone the local days
  partition the time line.
\<close>

type_synonym Location = "int \<times> (int \<times> int) list"

section \<open>Instants\<close>

lemma le_div_iff_int: "x \<le> a div k \<longleftrightarrow> x * k \<le> a" if "0 < k" for a k x :: int
proof
  assume "x \<le> a div k"
  then have "x * k \<le> a div k * k" using that by (simp add: mult_right_mono)
  also have "\<dots> \<le> a" using pos_mod_sign [OF that, of a] div_mult_mod_eq [of a k] by linarith
  finally show "x * k \<le> a" .
next
  assume "x * k \<le> a"
  then have "x * k div k \<le> a div k" using that by (rule zdiv_mono1)
  then show "x \<le> a div k" using that by simp
qed

definition unixToInternal :: int where
  "unixToInternal = 62135596800"

definition t_unix :: "gotime \<Rightarrow> int" where
  "t_unix t = t div 1000000000 - unixToInternal"

definition t_nsec :: "gotime \<Rightarrow> int" where
  "t_nsec t = t mod 1000000000"

definition time_Unix :: "int \<Rightarrow> gotime" where
  "time_Unix sec = (sec + unixToInternal) * 1000000000"

lemma t_unix_time_Unix [simp]: "t_unix (time_Unix sec) = sec"
  by (simp add: t_unix_def time_Unix_def)

lemma t_nsec_time_Unix [simp]: "t_nsec (time_Unix sec) = 0"
  by (simp add: t_nsec_def time_Unix_def)

lemma time_Unix_less [simp]: "time_Unix a < time_Unix b \<longleftrightarrow> a < b"
  by (simp add: time_Unix_def)

lemma time_Unix_eq [simp]: "time_Unix a = time_Unix b \<longleftrightarrow> a = b"
  by (simp add: time_Unix_def)

lemma time_Unix_le: "time_Unix sec \<le> t \<longleftrightarrow> sec \<le> t_unix t"
  using le_div_iff_int [of 1000000000 "sec + unixToInternal" t] by (auto simp: t_unix_def time_Unix_def)

lemma less_time_Unix: "t < time_Unix sec \<longleftrightarrow> t_unix t < sec"
  using time_Unix_le [of sec t] by linarith

lemma t_unix_mono: "t \<le> u \<Longrightarrow> t_unix t \<le> t_unix u"
  by (simp add: t_unix_def zdiv_mono1)

section \<open>Time zones\<close>

text \<open>\<open>Location.lookup\<close>: the offset in effect and the bounds of its period; \<open>None\<close> for no bound.\<close>

fun zoneAt :: "int \<Rightarrow> int option \<Rightarrow> (int \<times> int) list \<Rightarrow> int \<Rightarrow> int \<times> int option \<times> int option" where
  "zoneAt off start [] sec = (off, start, None)"
| "zoneAt off start ((w, o') # tx) sec =
     (if sec < w then (off, start, Some w) else zoneAt o' (Some w) tx sec)"

definition lookup :: "Location \<Rightarrow> int \<Rightarrow> int \<times> int option \<times> int option" where
  "lookup loc = zoneAt (fst loc) None (snd loc)"

definition offset_at :: "Location \<Rightarrow> int \<Rightarrow> int" where
  "offset_at loc sec = fst (lookup loc sec)"

definition localSec :: "Location \<Rightarrow> int \<Rightarrow> int" where
  "localSec loc sec = sec + offset_at loc sec"

definition localDay :: "Location \<Rightarrow> gotime \<Rightarrow> int" where
  "localDay loc t = localSec loc (t_unix t) div 86400"

definition localClock :: "Location \<Rightarrow> gotime \<Rightarrow> int" where
  "localClock loc t = localSec loc (t_unix t) mod 86400"

definition outside :: "int \<Rightarrow> int option \<Rightarrow> int option \<Rightarrow> bool" where
  "outside utc start end \<longleftrightarrow>
     (case start of None \<Rightarrow> False | Some s \<Rightarrow> utc < s) \<or> (case end of None \<Rightarrow> False | Some e \<Rightarrow> utc \<ge> e)"

text \<open>\<open>time.Date\<close> of a day and a second of the day, as a Unix second.\<close>

definition dateSec :: "Location \<Rightarrow> int \<Rightarrow> int \<Rightarrow> int" where
  "dateSec loc day sec =
     (let unix = day * 86400 + sec in
      case lookup loc unix of (offset, start, end) \<Rightarrow>
        if offset \<noteq> 0 then
          (let utc = unix - offset in
           unix - (if outside utc start end then offset_at loc utc else offset))
        else unix)"

definition time_Date :: "Location \<Rightarrow> int \<Rightarrow> int \<Rightarrow> int \<Rightarrow> gotime" where
  "time_Date loc day sec nsec = time_Unix (dateSec loc day sec) + nsec"

definition AddDays :: "Location \<Rightarrow> gotime \<Rightarrow> int \<Rightarrow> gotime" where
  "AddDays loc t n = time_Date loc (localDay loc t + n) (localClock loc t) (t_nsec t)"

text \<open>\<open>time.Date(y, m, d, 0, 0, 0, 0, loc)\<close> of the local date of an instant.\<close>

definition dayStart :: "Location \<Rightarrow> gotime \<Rightarrow> gotime" where
  "dayStart loc t = time_Date loc (localDay loc t) 0 0"

section \<open>Regular zones\<close>

definition quiet_change :: "int \<Rightarrow> int \<Rightarrow> int \<Rightarrow> bool" where
  "quiet_change w off o' \<longleftrightarrow>
     (w + off) div 86400 = (w + o') div 86400 \<and> (w + min off o') mod 86400 \<noteq> 0 \<and> \<bar>o' - off\<bar> \<le> 7200"

fun regularFrom :: "int \<Rightarrow> (int \<times> int) list \<Rightarrow> bool" where
  "regularFrom off [] \<longleftrightarrow> \<bar>off\<bar> \<le> 86400"
| "regularFrom off ((w, o') # tx) \<longleftrightarrow>
     \<bar>off\<bar> \<le> 86400 \<and> quiet_change w off o' \<and>
     (case tx of [] \<Rightarrow> True | (w', _) # _ \<Rightarrow> w + 2 * 86400 < w') \<and> regularFrom o' tx"

definition regular :: "Location \<Rightarrow> bool" where
  "regular loc \<longleftrightarrow> regularFrom (fst loc) (snd loc)"

lemma regularFrom_next:
  "regularFrom off ((w, o') # tx) \<Longrightarrow> (\<forall>x\<in>set tx. w + 2 * 86400 < fst x)"
proof (induction tx arbitrary: off w o')
  case (Cons y tx)
  obtain w' o'' where y: "y = (w', o'')" by (cases y)
  have "w + 2 * 86400 < w'" and r: "regularFrom o' ((w', o'') # tx)" using Cons.prems y by auto
  then show ?case using Cons.IH [OF r] y by fastforce
qed simp

lemma zoneAt_bound: "regularFrom off tx \<Longrightarrow> \<bar>fst (zoneAt off start tx sec)\<bar> \<le> 86400"
  by (induction tx arbitrary: off start) auto

lemma zoneAt_first: "(\<forall>x\<in>set tx. sec < fst x) \<Longrightarrow> zoneAt off start tx sec = (off, start, case tx of [] \<Rightarrow> None | x # _ \<Rightarrow> Some (fst x))"
  by (cases tx) auto

text \<open>The bounds that a lookup returns are clock changes; it is constant between them.\<close>

lemma zoneAt_bounds:
  assumes "zoneAt off start tx u = (z, s, e)"
  shows "(s = start \<and> z = off \<or> s \<in> Some ` fst ` set tx) \<and> (e = None \<or> e \<in> Some ` fst ` set tx)"
  using assms
proof (induction off start tx u rule: zoneAt.induct)
  case (2 off start w o' tx sec)
  then show ?case by (cases "sec < w") auto
qed simp

lemma zoneAt_period:
  assumes "zoneAt off start tx u = (z, s, e)" "regularFrom off tx" "\<not> outside v s e"
  shows "zoneAt off start tx v = (z, s, e)"
  using assms
proof (induction off start tx u rule: zoneAt.induct)
  case (2 off start w o' tx sec)
  show ?case
  proof (cases "sec < w")
    case True
    with 2 show ?thesis by (auto simp: outside_def)
  next
    case False
    then have "zoneAt o' (Some w) tx sec = (z, s, e)" using 2(2) by simp
    from zoneAt_bounds [OF this] have "\<exists>w'. s = Some w' \<and> w \<le> w'"
      using regularFrom_next [OF 2(3)] by fastforce
    then have "w \<le> v" using 2(4) by (auto simp: outside_def)
    then show ?thesis using 2 False by simp
  qed
qed (auto simp: outside_def)

lemma zoneAt_inside:
  assumes "zoneAt off start tx u = (z, s, e)" "case start of None \<Rightarrow> True | Some w \<Rightarrow> w \<le> u"
  shows "\<not> outside u s e"
  using assms by (induction off start tx u rule: zoneAt.induct) (auto simp: outside_def split: if_splits option.splits)

lemma zoneAt_next:
  assumes "zoneAt off start tx u = (z, s, Some w)" "regularFrom off tx"
  shows "\<exists>z' e'. quiet_change w z z' \<and> (\<forall>v. w \<le> v \<longrightarrow> v \<le> w + 2 * 86400 \<longrightarrow> zoneAt off start tx v = (z', Some w, e'))"
  using assms
proof (induction off start tx u rule: zoneAt.induct)
  case (2 off start w1 o' tx sec)
  have nxt: "\<forall>x\<in>set tx. w1 + 2 * 86400 < fst x" using 2(3) by (rule regularFrom_next)
  show ?case
  proof (cases "sec < w1")
    case True
    then have [simp]: "w1 = w" "z = off" using 2 by auto
    have "zoneAt o' (Some w) tx v = (o', Some w, case tx of [] \<Rightarrow> None | x # _ \<Rightarrow> Some (fst x))"
      if "v \<le> w + 2 * 86400" for v
    proof (rule zoneAt_first)
      show "\<forall>x\<in>set tx. v < fst x" using nxt that by auto
    qed
    then show ?thesis using 2(3) by (intro exI [of _ o'] exI) (auto simp del: regularFrom.simps simp: regularFrom.simps(2))
  next
    case False
    then have z: "zoneAt o' (Some w1) tx sec = (z, s, Some w)" using 2(2) by simp
    from zoneAt_bounds [OF this] have w: "w1 \<le> w" using nxt by auto
    from 2(1) [OF False z] 2(3) obtain z' e' where
      "quiet_change w z z'" "\<forall>v. w \<le> v \<longrightarrow> v \<le> w + 2 * 86400 \<longrightarrow> zoneAt o' (Some w1) tx v = (z', Some w, e')" by auto
    with w show ?thesis by (intro exI [of _ z'] exI [of _ e']) auto
  qed
qed simp

lemma zoneAt_previous:
  assumes "zoneAt off start tx u = (z, Some w, e)" "regularFrom off tx" "start \<noteq> Some w"
  shows "\<exists>z' s'. quiet_change w z' z \<and> (\<forall>v. w - 2 * 86400 \<le> v \<longrightarrow> v < w \<longrightarrow> zoneAt off start tx v = (z', s', Some w))"
  using assms
proof (induction off start tx u rule: zoneAt.induct)
  case (2 off start w1 o' tx sec)
  have nxt: "\<forall>x\<in>set tx. w1 + 2 * 86400 < fst x" using 2(3) by (rule regularFrom_next)
  have F: "\<not> sec < w1" using 2 by auto
  then have z: "zoneAt o' (Some w1) tx sec = (z, Some w, e)" using 2(2) by simp
  show ?case
  proof (cases "w = w1")
    case True
    then have "z = o'" using zoneAt_bounds [OF z] nxt by fastforce
    then show ?thesis using True 2(3) by auto
  next
    case False
    then have w: "w1 + 2 * 86400 < w" using zoneAt_bounds [OF z] nxt by auto
    from 2(1) [OF F z] 2(3) False obtain z' s' where
      "quiet_change w z' z" "\<forall>v. w - 2 * 86400 \<le> v \<longrightarrow> v < w \<longrightarrow> zoneAt o' (Some w1) tx v = (z', s', Some w)" by auto
    with w show ?thesis by (intro exI [of _ z'] exI [of _ s']) auto
  qed
qed simp

text \<open>A clock change that is quiet does not cross a local midnight.\<close>

lemma div_midnight: "d * 86400 < x \<longleftrightarrow> d \<le> x div 86400" if "x mod 86400 \<noteq> 0" for d x :: int
  using le_div_iff_int [of 86400 d x] that by (auto simp: order_less_le)

lemma quiet_midnight:
  assumes "quiet_change w off o'"
  shows "d * 86400 < w + off \<longleftrightarrow> d * 86400 < w + o'" "d * 86400 \<noteq> w + off" "d * 86400 \<noteq> w + o'"
proof -
  have q: "(w + off) div 86400 = (w + o') div 86400" "(w + min off o') mod 86400 \<noteq> 0"
    using assms by (auto simp: quiet_change_def)
  have no: "x mod 86400 \<noteq> 0" if "y \<le> x" "y div 86400 = x div 86400" "y mod 86400 \<noteq> 0" for x y :: int
    using that mult_div_mod_eq [of 86400 x] mult_div_mod_eq [of 86400 y] pos_mod_sign [of 86400 y] by linarith
  have m: "(w + off) mod 86400 \<noteq> 0 \<and> (w + o') mod 86400 \<noteq> 0"
  proof (cases "off \<le> o'")
    case True
    then show ?thesis using q no [of "w + off" "w + o'"] by (simp add: min_def)
  next
    case False
    then show ?thesis using q no [of "w + o'" "w + off"] by (simp add: min_def)
  qed
  then show "d * 86400 < w + off \<longleftrightarrow> d * 86400 < w + o'" using q(1) div_midnight by metis
  from m show "d * 86400 \<noteq> w + off" "d * 86400 \<noteq> w + o'" by (metis mod_mult_self2_is_0)+
qed

text \<open>The local reading reaches the midnight of a day once and stays at or after it.\<close>

lemma zoneAt_crossing:
  "regularFrom off tx \<Longrightarrow> \<exists>u0. \<forall>u. u0 \<le> u \<longleftrightarrow> d * 86400 \<le> u + fst (zoneAt off start tx u)"
proof (induction tx arbitrary: off start)
  case Nil
  show ?case by (rule exI [of _ "d * 86400 - off"]) auto
next
  case (Cons x tx)
  obtain w o' where x: "x = (w, o')" by (cases x)
  have r: "regularFrom off ((w, o') # tx)" and q: "quiet_change w off o'" and r': "regularFrom o' tx"
    using Cons.prems x by auto
  obtain u1 where u1: "\<forall>u. u1 \<le> u \<longleftrightarrow> d * 86400 \<le> u + fst (zoneAt o' (Some w) tx u)"
    using Cons.IH [OF r'] by blast
  have "\<forall>x\<in>set tx. w < fst x" using regularFrom_next [OF r] by auto
  then have atw: "fst (zoneAt o' (Some w) tx w) = o'" by (simp add: zoneAt_first)
  show ?case
  proof (cases "d * 86400 < w + off")
    case True
    then have "u1 \<le> w" using spec [OF u1, of w] atw quiet_midnight(1) [OF q, of d] by simp
    have "d * 86400 - off \<le> u \<longleftrightarrow> d * 86400 \<le> u + fst (zoneAt off start (x # tx) u)" for u
    proof (cases "u < w")
      case False
      then have "d * 86400 \<le> u + fst (zoneAt o' (Some w) tx u)" using spec [OF u1, of u] \<open>u1 \<le> w\<close> by linarith
      with False True x show ?thesis by simp
    qed (use x in auto)
    then show ?thesis by blast
  next
    case False
    then have "\<not> u1 \<le> w" using spec [OF u1, of w] atw quiet_midnight [OF q, of d] by simp
    then have "u1 \<le> u \<longleftrightarrow> d * 86400 \<le> u + fst (zoneAt off start (x # tx) u)" for u
      using False x spec [OF u1, of u] by (cases "u < w") simp_all
    then show ?thesis by blast
  qed
qed

lemma lookup_inside: "lookup loc u = (z, s, e) \<Longrightarrow> \<not> outside u s e"
  using zoneAt_inside [of "fst loc" None] by (simp add: lookup_def)

lemma lookup_period: "regular loc \<Longrightarrow> lookup loc u = (z, s, e) \<Longrightarrow> \<not> outside v s e \<Longrightarrow> lookup loc v = (z, s, e)"
  unfolding lookup_def regular_def by (rule zoneAt_period)

lemma lookup_bound: "regular loc \<Longrightarrow> lookup loc u = (z, s, e) \<Longrightarrow> \<bar>z\<bar> \<le> 86400"
  using zoneAt_bound [of "fst loc" "snd loc" None u] by (simp add: lookup_def regular_def)

lemma lookup_next:
  assumes "regular loc" "lookup loc u = (z, s, Some w)"
  obtains z' e' where "quiet_change w z z'" "\<And>v. w \<le> v \<Longrightarrow> v \<le> w + 2 * 86400 \<Longrightarrow> lookup loc v = (z', Some w, e')"
  using zoneAt_next [of "fst loc" None "snd loc" u z s w] assms unfolding lookup_def regular_def by metis

lemma lookup_previous:
  assumes "regular loc" "lookup loc u = (z, Some w, e)"
  obtains z' s' where "quiet_change w z' z" "\<And>v. w - 2 * 86400 \<le> v \<Longrightarrow> v < w \<Longrightarrow> lookup loc v = (z', s', Some w)"
  using zoneAt_previous [of "fst loc" None "snd loc" u z w e] assms unfolding lookup_def regular_def
  by (metis option.distinct(1))

lemma dateSec_midnight:
  assumes reg: "regular loc"
  shows "localSec loc (dateSec loc d 0) = d * 86400"
proof -
  let ?M = "d * 86400"
  obtain z s e where l: "lookup loc ?M = (z, s, e)" by (metis prod_cases3)
  have ins: "\<not> outside ?M s e" and z: "\<bar>z\<bar> \<le> 86400" using lookup_inside [OF l] lookup_bound [OF reg l] .
  consider "z = 0" | "z \<noteq> 0" "\<not> outside (?M - z) s e" | w where "s = Some w" "?M - z < w" "z \<noteq> 0"
    | w where "e = Some w" "?M - z \<ge> w" "z \<noteq> 0"
    by (cases s; cases e) (auto simp: outside_def)
  then show ?thesis
  proof cases
    case 1
    then show ?thesis using l by (simp add: dateSec_def localSec_def offset_at_def)
  next
    case 2
    from lookup_period [OF reg l 2(2)] l 2 show ?thesis by (simp add: dateSec_def localSec_def offset_at_def)
  next
    case 3
    obtain z' s' where q: "quiet_change w z' z"
      and before: "\<And>v. w - 2 * 86400 \<le> v \<Longrightarrow> v < w \<Longrightarrow> lookup loc v = (z', s', Some w)"
      using lookup_previous [OF reg, of ?M z w e] l 3(1) by metis
    have M: "w \<le> ?M" using ins 3(1) by (auto simp: outside_def)
    have z': "\<bar>z'\<bar> \<le> 86400" using lookup_bound [OF reg] before [of "w - 1"] by force
    have "?M < w + z'" using 3(2) quiet_midnight(1) [OF q, of d] by auto
    then have "lookup loc (?M - z') = (z', s', Some w)" using before [of "?M - z'"] M z' by auto
    moreover have "lookup loc (?M - z) = (z', s', Some w)" using before [of "?M - z"] M z 3(2) by auto
    moreover have "outside (?M - z) s e" using 3 by (simp add: outside_def)
    ultimately show ?thesis using l 3 by (simp add: dateSec_def localSec_def offset_at_def)
  next
    case 4
    obtain z' e' where q: "quiet_change w z z'"
      and after: "\<And>v. w \<le> v \<Longrightarrow> v \<le> w + 2 * 86400 \<Longrightarrow> lookup loc v = (z', Some w, e')"
      using lookup_next [OF reg, of ?M z s w] l 4(1) by metis
    have M: "?M < w" using ins 4(1) by (auto simp: outside_def)
    have z': "\<bar>z'\<bar> \<le> 86400" using lookup_bound [OF reg] after [of w] by force
    have "\<not> ?M < w + z'" using 4(2) quiet_midnight(1) [OF q, of d] by auto
    then have "lookup loc (?M - z') = (z', Some w, e')" using after [of "?M - z'"] M z' by auto
    moreover have "lookup loc (?M - z) = (z', Some w, e')" using after [of "?M - z"] M z 4(2) by auto
    moreover have "outside (?M - z) s e" using 4 by (simp add: outside_def)
    ultimately show ?thesis using l 4 by (simp add: dateSec_def localSec_def offset_at_def)
  qed
qed

lemma midnight_first:
  assumes reg: "regular loc"
  shows "localSec loc (dateSec loc d 0 - 1) < d * 86400"
proof -
  let ?r = "dateSec loc d 0"
  obtain z s e where l: "lookup loc ?r = (z, s, e)" by (metis prod_cases3)
  have M: "?r + z = d * 86400" using dateSec_midnight [OF reg, of d] l by (simp add: localSec_def offset_at_def)
  have ins: "\<not> outside ?r s e" using lookup_inside [OF l] .
  have "\<not> outside (?r - 1) s e"
  proof (cases s)
    case (Some w)
    obtain z' where "quiet_change w z' z" using lookup_previous [OF reg, of ?r z w e] l Some by metis
    then have "?r \<noteq> w" using M quiet_midnight(3) [of w z' z d] by auto
    then show ?thesis using ins Some by (auto simp: outside_def split: option.splits)
  qed (use ins in \<open>auto simp: outside_def split: option.splits\<close>)
  from lookup_period [OF reg l this] M show ?thesis by (simp add: localSec_def offset_at_def)
qed

lemma midnight_iff:
  assumes reg: "regular loc"
  shows "dateSec loc d 0 \<le> u \<longleftrightarrow> d \<le> localSec loc u div 86400"
proof -
  obtain u0 where "\<forall>u. u0 \<le> u \<longleftrightarrow> d * 86400 \<le> u + fst (zoneAt (fst loc) None (snd loc) u)"
    using zoneAt_crossing reg unfolding regular_def by blast
  then have u0: "u0 \<le> u \<longleftrightarrow> d * 86400 \<le> localSec loc u" for u
    by (simp add: localSec_def offset_at_def lookup_def)
  have "u0 \<le> dateSec loc d 0" "\<not> u0 \<le> dateSec loc d 0 - 1"
    using u0 [of "dateSec loc d 0"] u0 [of "dateSec loc d 0 - 1"] dateSec_midnight [OF reg, of d] midnight_first [OF reg, of d] by auto
  then have "u0 = dateSec loc d 0" by auto
  then show ?thesis using u0 [of u] le_div_iff_int [of 86400 d] by simp
qed

text \<open>The local day of an instant runs from its midnight to the next one.\<close>

lemma dayStart_le: "regular loc \<Longrightarrow> dayStart loc t \<le> t"
  using midnight_iff [of loc "localDay loc t" "t_unix t"] by (simp add: dayStart_def time_Date_def time_Unix_le localDay_def)

lemma localDay_time_Date:
  assumes "regular loc"
  shows "localDay loc (time_Unix (dateSec loc d 0)) = d" "localClock loc (time_Unix (dateSec loc d 0)) = 0"
  using dateSec_midnight [OF assms] by (auto simp: localDay_def localClock_def)

lemma AddDays_dayStart:
  assumes "regular loc"
  shows "AddDays loc (time_Unix (dateSec loc d 0)) n = time_Unix (dateSec loc (d + n) 0)"
  by (simp add: AddDays_def localDay_time_Date [OF assms] time_Date_def)

lemma dayStart_eq: "dayStart loc t = time_Unix (dateSec loc (localDay loc t) 0)"
  by (simp add: dayStart_def time_Date_def)

lemma localDay_iff:
  assumes "regular loc"
  shows "localDay loc t = d \<longleftrightarrow> time_Unix (dateSec loc d 0) \<le> t \<and> t < time_Unix (dateSec loc (d + 1) 0)"
  using midnight_iff [OF assms, of d "t_unix t"] midnight_iff [OF assms, of "d + 1" "t_unix t"]
  by (auto simp: time_Unix_le less_time_Unix localDay_def)

lemma dateSec_mono:
  assumes "regular loc" "d < d'"
  shows "dateSec loc d 0 < dateSec loc d' 0"
proof -
  have "\<not> dateSec loc d' 0 \<le> dateSec loc d 0"
    using midnight_iff [OF assms(1), of d' "dateSec loc d 0"] dateSec_midnight [OF assms(1), of d] assms(2) by simp
  then show ?thesis by simp
qed

text \<open>A local day has at least 22 hours and at most three days.\<close>

lemma day_length:
  assumes reg: "regular loc"
  shows "79200 \<le> dateSec loc (d + 1) 0 - dateSec loc d 0" "dateSec loc (d + 1) 0 - dateSec loc d 0 \<le> 259200"
proof -
  let ?a = "dateSec loc d 0" and ?b = "dateSec loc (d + 1) 0"
  obtain z s e where l: "lookup loc ?a = (z, s, e)" by (metis prod_cases3)
  obtain z' s' e' where l': "lookup loc ?b = (z', s', e')" by (metis prod_cases3)
  have eqs: "?a + z = d * 86400" "?b + z' = (d + 1) * 86400"
    using dateSec_midnight [OF reg, of d] dateSec_midnight [OF reg, of "d + 1"] l l' by (auto simp: localSec_def offset_at_def)
  have "\<bar>z\<bar> \<le> 86400" "\<bar>z'\<bar> \<le> 86400" using lookup_bound [OF reg l] lookup_bound [OF reg l'] .
  with eqs show "?b - ?a \<le> 259200" by auto
  show "79200 \<le> ?b - ?a"
  proof (cases "outside ?b s e")
    case True
    have "?a < ?b" using dateSec_mono [OF reg, of d "d + 1"] by simp
    with True lookup_inside [OF l] obtain w where w: "e = Some w" "?a < w" "w \<le> ?b"
      by (auto simp: outside_def split: option.splits)
    obtain z2 e2 where q: "quiet_change w z z2"
      and after: "\<And>v. w \<le> v \<Longrightarrow> v \<le> w + 2 * 86400 \<Longrightarrow> lookup loc v = (z2, Some w, e2)"
      using lookup_next [OF reg] l w(1) by metis
    show ?thesis
    proof (rule ccontr)
      assume "\<not> 79200 \<le> ?b - ?a"
      then have "z' = z2" using after [of ?b] w l' by auto
      then show False using q eqs \<open>\<not> 79200 \<le> ?b - ?a\<close> by (auto simp: quiet_change_def)
    qed
  next
    case False
    then show ?thesis using lookup_period [OF reg l] l' eqs by auto
  qed
qed

end
