(* ===== verification/Activity_Grain.thy ===== *)
theory Activity_Grain
  imports Local_Time "HOL-Library.Signed_Division"
begin

text \<open>
  The time buckets of the activity heat maps: \<^verbatim>\<open>internal/activity/grain.go\<close>. Each grain divides the
  time line into half-open buckets: 364 per local day, per seven and per thirty days, and one per
  local day. The loops that correct an estimated bucket index are partial functions in the option
  monad where the source gives no bound; \<open>None\<close> stands for a call that does not return a value (a
  loop without end, a division by zero).
\<close>

section \<open>grain.go\<close>

type_synonym UsageActivityGrain = string

definition UsageActivityGrainShort :: UsageActivityGrain where "UsageActivityGrainShort = ''short''"
definition UsageActivityGrainMedium :: UsageActivityGrain where "UsageActivityGrainMedium = ''medium''"
definition UsageActivityGrainLong :: UsageActivityGrain where "UsageActivityGrainLong = ''long''"
definition UsageActivityGrainDaily :: UsageActivityGrain where "UsageActivityGrainDaily = ''daily''"

lemmas grain_defs = UsageActivityGrainShort_def UsageActivityGrainMedium_def UsageActivityGrainLong_def
  UsageActivityGrainDaily_def

datatype activityError = UnsupportedGrain UsageActivityGrain

definition NormalizeAPIGroupKey :: "string \<Rightarrow> string" where
  "NormalizeAPIGroupKey v = (let trimmed = TrimSpace v in if trimmed = [] then ''unknown'' else trimmed)"

definition HeatmapBlocks :: int where
  "HeatmapBlocks = 364"

definition mediumWindowSeconds :: int where
  "mediumWindowSeconds = 7 * 24 * 60 * 60"

definition longWindowSeconds :: int where
  "longWindowSeconds = 30 * 24 * 60 * 60"

record Bucket =
  b_Start :: gotime
  b_End :: gotime

text \<open>Go's division truncates towards zero.\<close>

definition floorDiv :: "int \<Rightarrow> int \<Rightarrow> int" where
  "floorDiv v divisor =
     (let quotient = v sdiv divisor in if v smod divisor < 0 then quotient - 1 else quotient)"

definition fixedWindowSeconds :: "UsageActivityGrain \<Rightarrow> activityError + int" where
  "fixedWindowSeconds grain =
     (if grain = UsageActivityGrainMedium then Inr mediumWindowSeconds
      else if grain = UsageActivityGrainLong then Inr longWindowSeconds
      else Inl (UnsupportedGrain grain))"

definition fixedBoundary :: "int \<Rightarrow> int \<Rightarrow> gotime" where
  "fixedBoundary windowSeconds index = time_Unix (floorDiv (i64 (index * windowSeconds)) HeatmapBlocks)"

definition fixedBucket :: "int \<Rightarrow> int \<Rightarrow> Bucket" where
  "fixedBucket windowSeconds index =
     \<lparr>b_Start = fixedBoundary windowSeconds index, b_End = fixedBoundary windowSeconds (i64 (index + 1))\<rparr>"

partial_function (option) indexUp :: "gotime \<Rightarrow> int \<Rightarrow> int \<Rightarrow> int option" where
  "indexUp t windowSeconds index =
     (if \<not> t < fixedBoundary windowSeconds (i64 (index + 1))
      then indexUp t windowSeconds (i64 (index + 1)) else Some index)"

partial_function (option) indexDown :: "gotime \<Rightarrow> int \<Rightarrow> int \<Rightarrow> int option" where
  "indexDown t windowSeconds index =
     (if t < fixedBoundary windowSeconds index
      then indexDown t windowSeconds (i64 (index - 1)) else Some index)"

declare indexUp.simps [code] indexDown.simps [code]

definition fixedBucketIndex :: "gotime \<Rightarrow> int \<Rightarrow> int option" where
  "fixedBucketIndex t windowSeconds =
     Option.bind (indexUp t windowSeconds (floorDiv (i64 (t_unix t * HeatmapBlocks)) windowSeconds))
       (indexDown t windowSeconds)"

definition calendarBoundary :: "gotime \<Rightarrow> int \<Rightarrow> int \<Rightarrow> gotime" where
  "calendarBoundary start windowSeconds index =
     time_Unix (t_unix start + floorDiv (i64 (index * windowSeconds)) HeatmapBlocks)"

definition calendarBucket :: "gotime \<Rightarrow> int \<Rightarrow> int \<Rightarrow> Bucket" where
  "calendarBucket start windowSeconds index =
     \<lparr>b_Start = calendarBoundary start windowSeconds index,
      b_End = calendarBoundary start windowSeconds (index + 1)\<rparr>"

function shortUp :: "gotime \<Rightarrow> gotime \<Rightarrow> int \<Rightarrow> int \<Rightarrow> int" where
  "shortUp t start windowSeconds index =
     (if index + 1 < HeatmapBlocks \<and> \<not> t < calendarBoundary start windowSeconds (index + 1)
      then shortUp t start windowSeconds (index + 1) else index)"
  by pat_completeness auto
termination
  by (relation "measure (\<lambda>(t, start, w, index). nat (HeatmapBlocks - index))") auto

function shortDown :: "gotime \<Rightarrow> gotime \<Rightarrow> int \<Rightarrow> int \<Rightarrow> int" where
  "shortDown t start windowSeconds index =
     (if index > 0 \<and> t < calendarBoundary start windowSeconds index
      then shortDown t start windowSeconds (index - 1) else index)"
  by pat_completeness auto
termination
  by (relation "measure (\<lambda>(t, start, w, index). nat index)") auto

declare shortUp.simps [simp del] shortDown.simps [simp del]

definition shortBucketForTimestamp :: "Location \<Rightarrow> gotime \<Rightarrow> Bucket option" where
  "shortBucketForTimestamp loc t =
     (let start = dayStart loc t;
          dayEnd = AddDays loc start 1;
          windowSeconds = t_unix dayEnd - t_unix start
      in if windowSeconds = 0 then None
         else
           (let index = floorDiv (i64 ((t_unix t - t_unix start) * HeatmapBlocks)) windowSeconds in
            Some (calendarBucket start windowSeconds
                    (shortDown t start windowSeconds (shortUp t start windowSeconds index)))))"

definition BucketForTimestamp :: "Location \<Rightarrow> UsageActivityGrain \<Rightarrow> gotime \<Rightarrow> (activityError + Bucket) option" where
  "BucketForTimestamp loc grain t =
     (if grain = UsageActivityGrainShort then map_option Inr (shortBucketForTimestamp loc t)
      else if grain = UsageActivityGrainDaily then
        (let start = dayStart loc t in Some (Inr \<lparr>b_Start = start, b_End = AddDays loc start 1\<rparr>))
      else
        (case fixedWindowSeconds grain of
           Inl e \<Rightarrow> Some (Inl e)
         | Inr windowSeconds \<Rightarrow>
             map_option (\<lambda>index. Inr (fixedBucket windowSeconds index)) (fixedBucketIndex t windowSeconds)))"

text \<open>The loop over the slots from the last to the first: \<open>n\<close> slots are left, \<open>rest\<close> is filled.\<close>

fun shortWindowFrom :: "Location \<Rightarrow> nat \<Rightarrow> gotime \<Rightarrow> Bucket list \<Rightarrow> Bucket list option" where
  "shortWindowFrom loc 0 cursor rest = Some rest"
| "shortWindowFrom loc (Suc n) cursor rest =
     (case shortBucketForTimestamp loc (cursor - 1) of
        None \<Rightarrow> None
      | Some bucket \<Rightarrow> shortWindowFrom loc n (b_Start bucket) (bucket # rest))"

definition shortWindowEndingAt :: "Location \<Rightarrow> gotime \<Rightarrow> Bucket list option" where
  "shortWindowEndingAt loc referenceEnd =
     (case shortBucketForTimestamp loc referenceEnd of
        None \<Rightarrow> None
      | Some containing \<Rightarrow>
          (let cursor = (if referenceEnd \<noteq> b_Start containing then b_End containing else b_Start containing)
           in shortWindowFrom loc (nat HeatmapBlocks) cursor []))"

definition dailyWindowEndingAt :: "Location \<Rightarrow> gotime \<Rightarrow> Bucket list" where
  "dailyWindowEndingAt loc referenceEnd =
     (let end0 = dayStart loc referenceEnd;
          end1 = (if referenceEnd \<noteq> end0 then AddDays loc end0 1 else end0);
          start = AddDays loc end1 (- HeatmapBlocks)
      in map (\<lambda>index. let bucketStart = AddDays loc start (int index) in
                \<lparr>b_Start = bucketStart, b_End = AddDays loc bucketStart 1\<rparr>) [0..<nat HeatmapBlocks])"

definition WindowEndingAt :: "Location \<Rightarrow> UsageActivityGrain \<Rightarrow> gotime \<Rightarrow> (activityError + Bucket list) option" where
  "WindowEndingAt loc grain referenceEnd =
     (if grain = UsageActivityGrainShort then map_option Inr (shortWindowEndingAt loc referenceEnd)
      else if grain = UsageActivityGrainDaily then Some (Inr (dailyWindowEndingAt loc referenceEnd))
      else
        (case fixedWindowSeconds grain of
           Inl e \<Rightarrow> Some (Inl e)
         | Inr windowSeconds \<Rightarrow>
             (case fixedBucketIndex referenceEnd windowSeconds of
                None \<Rightarrow> None
              | Some index \<Rightarrow>
                  (let containing = fixedBucket windowSeconds index;
                       endIndex = (if referenceEnd \<noteq> b_Start containing then i64 (index + 1) else index);
                       startIndex = i64 (endIndex - HeatmapBlocks)
                   in Some (Inr (map (\<lambda>offset. fixedBucket windowSeconds (i64 (startIndex + int offset)))
                                   [0..<nat HeatmapBlocks]))))))"

section \<open>Boundaries\<close>

lemma floorDiv_div: "floorDiv v k = v div k" if "0 < k"
proof -
  have q: "v = (v sdiv k) * k + v smod k" by (simp add: sdiv_mult_smod_eq)
  have r: "- k < v smod k" "v smod k < k" using smod_int_range [of k v] that by auto
  show ?thesis
  proof (cases "v smod k < 0")
    case True
    have "v = (v sdiv k - 1) * k + (v smod k + k)" using q by (simp add: algebra_simps)
    moreover have "0 \<le> v smod k + k" "v smod k + k < k" using r True by auto
    ultimately have "v div k = v sdiv k - 1" by (metis add.commute div_mult_self3 div_pos_pos_trivial mult.commute not_less_iff_gr_or_eq add.right_neutral that)
    with True show ?thesis by (simp add: floorDiv_def)
  next
    case False
    then have "v div k = v sdiv k" using q r by (metis add.commute div_mult_self3 div_pos_pos_trivial not_less add.right_neutral less_irrefl that)
    with False show ?thesis by (simp add: floorDiv_def)
  qed
qed

lemma div_le_iff_int: "a div k \<le> u \<longleftrightarrow> a < (u + 1) * k" if "0 < k" for a k u :: int
  using le_div_iff_int [OF that, of "u + 1" a] by auto

text \<open>\<open>edge w i\<close> is the offset of boundary \<open>i\<close> when 364 buckets make up \<open>w\<close> seconds.\<close>

definition edge :: "int \<Rightarrow> int \<Rightarrow> int" where
  "edge w i = i * w div 364"

lemma edge_mono: "364 \<le> w \<Longrightarrow> i < j \<Longrightarrow> edge w i < edge w j"
proof -
  assume w: "364 \<le> w" and "i < j"
  then have "(i + 1) * w \<le> j * w" by (intro mult_right_mono) auto
  then have "edge w i + 1 \<le> edge w j"
    using w le_div_iff_int [of 364 "edge w i + 1" "j * w"] le_div_iff_int [of 364 "edge w i" "i * w"]
    by (simp add: edge_def algebra_simps)
  then show ?thesis by simp
qed

lemma edge_mono_le: "364 \<le> w \<Longrightarrow> i \<le> j \<Longrightarrow> edge w i \<le> edge w j"
  using edge_mono [of w i j] by (cases "i = j") auto

lemma edge_unique:
  assumes "364 \<le> w" "edge w i \<le> u" "u < edge w (i + 1)" "edge w j \<le> u" "u < edge w (j + 1)"
  shows "i = j"
proof (rule ccontr)
  assume "i \<noteq> j"
  then consider "i + 1 \<le> j" | "j + 1 \<le> i" by linarith
  then show False
    using assms edge_mono_le [OF assms(1), of "i + 1" j] edge_mono_le [OF assms(1), of "j + 1" i] by cases auto
qed

text \<open>The estimate is the right index or the one before it.\<close>

lemma edge_estimate:
  assumes "364 \<le> w"
  shows "edge w (u * 364 div w) \<le> u" "u < edge w (u * 364 div w + 2)"
    "u * 364 div w * w \<le> u * 364" "u * 364 < (u * 364 div w + 1) * w"
proof -
  let ?i = "u * 364 div w"
  show a: "?i * w \<le> u * 364" using le_div_iff_int [of w ?i "u * 364"] assms by simp
  show b: "u * 364 < (?i + 1) * w" using div_le_iff_int [of w "u * 364" ?i] assms by simp
  show "edge w ?i \<le> u" using a by (simp add: edge_def div_le_iff_int)
  have "u + 1 \<le> edge w (?i + 2)" unfolding edge_def using b assms by (simp add: le_div_iff_int algebra_simps)
  then show "u < edge w (?i + 2)" by simp
qed

lemma in_i64I: "\<bar>x\<bar> \<le> 4611686018427387904 \<Longrightarrow> in_i64 x"
  by (auto simp: in_i64_def MaxInt64_def MinInt64_def)

lemma fixedBoundary_edge: "\<bar>i * w\<bar> \<le> 4611686018427387904 \<Longrightarrow> fixedBoundary w i = time_Unix (edge w i)"
  by (simp add: fixedBoundary_def in_i64I floorDiv_div HeatmapBlocks_def edge_def)

section \<open>Medium and long buckets\<close>

definition fixed_window :: "int \<Rightarrow> bool" where
  "fixed_window w \<longleftrightarrow> 364 \<le> w \<and> w \<le> 2592000"

text \<open>The times that the proofs cover: 285 million years around 1970.\<close>

definition sane :: "gotime \<Rightarrow> bool" where
  "sane t \<longleftrightarrow> \<bar>t_unix t\<bar> \<le> 9007199254740992"

definition small :: "int \<Rightarrow> int \<Rightarrow> bool" where
  "small w i \<longleftrightarrow> \<bar>i\<bar> * w \<le> 4611686000000000000"

lemma smallD:
  assumes "small w i" "fixed_window w" "\<bar>k\<bar> \<le> 1000"
  shows "i64 (i + k) = i + k" "\<bar>(i + k) * w\<bar> \<le> 4611686018427387904" "fixedBoundary w (i + k) = time_Unix (edge w (i + k))"
proof -
  have w: "364 \<le> w" "w \<le> 2592000" using assms by (auto simp: fixed_window_def)
  have "\<bar>i + k\<bar> * w \<le> (\<bar>i\<bar> + \<bar>k\<bar>) * w" using w by (intro mult_right_mono) auto
  moreover have "\<bar>k\<bar> * w \<le> 1000 * 2592000" using assms(3) w by (intro mult_mono) auto
  ultimately have "\<bar>i + k\<bar> * w \<le> 4611686018427387904"
    using assms(1) by (simp add: small_def distrib_right)
  then show *: "\<bar>(i + k) * w\<bar> \<le> 4611686018427387904" using w by (simp only: abs_mult abs_of_nonneg)
  have "\<bar>i + k\<bar> * 1 \<le> \<bar>i + k\<bar> * w" using w by (intro mult_left_mono) auto
  with * w have "\<bar>i + k\<bar> \<le> 4611686018427387904" by (simp add: abs_mult)
  then show "i64 (i + k) = i + k" by (simp add: in_i64I)
  show "fixedBoundary w (i + k) = time_Unix (edge w (i + k))" by (rule fixedBoundary_edge [OF *])
qed

lemma fixedBucketIndex_finds:
  assumes w: "fixed_window w" and t: "sane t"
  shows "\<exists>i. fixedBucketIndex t w = Some i \<and> small w i \<and> edge w i \<le> t_unix t \<and> t_unix t < edge w (i + 1)"
proof -
  let ?u = "t_unix t" and ?i = "t_unix t * 364 div w"
  have w': "364 \<le> w" "w \<le> 2592000" using w by (auto simp: fixed_window_def)
  note est = edge_estimate [OF w'(1), of ?u]
  have "\<bar>?i\<bar> * w = \<bar>?i * w\<bar>" using w' by (simp add: abs_mult)
  also have "\<dots> \<le> \<bar>?u * 364\<bar> + w" using est(3,4) by (auto simp: algebra_simps abs_if)
  finally have iw: "\<bar>?i\<bar> * w \<le> 364 * 9007199254740992 + 2592000"
    using t w' by (auto simp: sane_def abs_mult)
  then have small: "small w ?i" by (simp add: small_def)
  have i0: "floorDiv (i64 (?u * HeatmapBlocks)) w = ?i"
    using t w' by (simp add: HeatmapBlocks_def floorDiv_div in_i64I sane_def abs_mult)
  have b: "i64 (?i + 1) = ?i + 1" "i64 (?i + 1 + 1) = ?i + 2" "fixedBoundary w ?i = time_Unix (edge w ?i)"
    "fixedBoundary w (?i + 1) = time_Unix (edge w (?i + 1))" "fixedBoundary w (?i + 2) = time_Unix (edge w (?i + 2))"
    using smallD [OF small w, of 0] smallD [OF small w, of 1] smallD [OF small w, of 2] by (auto simp: add.commute)
  define i where "i = (if edge w (?i + 1) \<le> ?u then ?i + 1 else ?i)"
  have up: "indexUp t w ?i = Some i"
    using b est(2) by (simp add: indexUp.simps [of t w ?i] indexUp.simps [of t w "?i + 1"] less_time_Unix i_def)
  have down: "indexDown t w i = Some i"
    using b est(1) by (subst indexDown.simps) (auto simp: less_time_Unix i_def)
  have "\<bar>?i + 1\<bar> * w \<le> (\<bar>?i\<bar> + 1) * w" using w' by (intro mult_right_mono) auto
  then have "small w i" using iw w' by (auto simp: small_def i_def distrib_right)
  moreover have "edge w i \<le> ?u \<and> ?u < edge w (i + 1)" using est by (auto simp: i_def add.assoc)
  ultimately show ?thesis using up down i0 by (auto simp: fixedBucketIndex_def)
qed

lemma fixedBucket_edges:
  assumes "small w i" "fixed_window w"
  shows "fixedBucket w i = \<lparr>b_Start = time_Unix (edge w i), b_End = time_Unix (edge w (i + 1))\<rparr>"
  using smallD [OF assms, of 0] smallD [OF assms, of 1] by (simp add: fixedBucket_def)

text \<open>An index whose bucket holds a covered time is found by the loops.\<close>

lemma fixedBucketIndex_unique:
  assumes "fixed_window w" "sane t" "edge w i \<le> t_unix t" "t_unix t < edge w (i + 1)"
  shows "fixedBucketIndex t w = Some i" "small w i"
proof -
  obtain j where "fixedBucketIndex t w = Some j" "small w j" "edge w j \<le> t_unix t" "t_unix t < edge w (j + 1)"
    using fixedBucketIndex_finds [OF assms(1,2)] by blast
  moreover from this have "i = j" using assms edge_unique by (auto simp: fixed_window_def)
  ultimately show "fixedBucketIndex t w = Some i" "small w i" by auto
qed

section \<open>Short buckets\<close>

text \<open>The bounds of the local day \<open>d\<close> and its length, which is the window of the short buckets.\<close>

lemma day_bounds:
  assumes "regular loc"
  shows "dayStart loc t = time_Unix (dateSec loc (localDay loc t) 0)"
    "AddDays loc (dayStart loc t) 1 = time_Unix (dateSec loc (localDay loc t + 1) 0)"
  using assms by (simp_all add: dayStart_eq AddDays_dayStart)

lemma calendarBoundary_edge:
  assumes "0 \<le> i" "i \<le> 364" "0 < w" "w \<le> 259200"
  shows "calendarBoundary (time_Unix a) w i = time_Unix (a + edge w i)"
proof -
  have "i * w \<le> 364 * 259200" using assms by (intro mult_mono) auto
  moreover have "0 \<le> i * w" using assms by simp
  ultimately have "in_i64 (i * w)" by (intro in_i64I) simp
  then show ?thesis by (simp add: calendarBoundary_def floorDiv_div HeatmapBlocks_def edge_def)
qed

definition daySlot :: "Location \<Rightarrow> int \<Rightarrow> int \<Rightarrow> int" where
  "daySlot loc d i = dateSec loc d 0 + edge (dateSec loc (d + 1) 0 - dateSec loc d 0) i"

definition slotBucket :: "Location \<Rightarrow> int \<Rightarrow> int \<Rightarrow> Bucket" where
  "slotBucket loc d i = \<lparr>b_Start = time_Unix (daySlot loc d i), b_End = time_Unix (daySlot loc d (i + 1))\<rparr>"

lemma daySlot_ends: "daySlot loc d 0 = dateSec loc d 0" "daySlot loc d 364 = dateSec loc (d + 1) 0"
  by (simp_all add: daySlot_def edge_def)

lemma shortBucket_slot:
  assumes reg: "regular loc"
  shows "\<exists>i. 0 \<le> i \<and> i < 364 \<and> shortBucketForTimestamp loc t = Some (slotBucket loc (localDay loc t) i) \<and>
             daySlot loc (localDay loc t) i \<le> t_unix t \<and> t_unix t < daySlot loc (localDay loc t) (i + 1)"
proof -
  let ?d = "localDay loc t"
  let ?a = "dateSec loc ?d 0" and ?b = "dateSec loc (?d + 1) 0"
  let ?w = "?b - ?a" and ?u = "t_unix t - ?a"
  have w: "79200 \<le> ?w" "?w \<le> 259200" using day_length [OF reg] by auto
  have in_day: "?a \<le> t_unix t" "t_unix t < ?b"
    using localDay_iff [OF reg, of t ?d] by (auto simp: time_Unix_le less_time_Unix)
  define i0 where "i0 = ?u * 364 div ?w"
  have est: "edge ?w i0 \<le> ?u" "?u < edge ?w (i0 + 2)" using edge_estimate [of ?w ?u] w by (auto simp: i0_def)
  have i0: "0 \<le> i0" "i0 < 364"
  proof -
    have "0 \<le> ?u * 364" "0 < ?w" using in_day w by auto
    then show "0 \<le> i0" unfolding i0_def by (simp only: pos_imp_zdiv_nonneg_iff)
    have "i0 \<le> 363" unfolding i0_def using in_day w by (simp add: div_le_iff_int)
    then show "i0 < 364" by simp
  qed
  have cb: "calendarBoundary (time_Unix ?a) ?w i = time_Unix (?a + edge ?w i)" if "0 \<le> i" "i \<le> 364" for i
    using calendarBoundary_edge [OF that, of ?w ?a] w by simp
  have idx: "floorDiv (i64 (?u * HeatmapBlocks)) ?w = i0"
    using w in_day by (simp add: HeatmapBlocks_def floorDiv_div in_i64I i0_def)
  define i where "i = (if edge ?w (i0 + 1) \<le> ?u then i0 + 1 else i0)"
  have e364: "edge ?w 364 = ?w" by (simp add: edge_def)
  have i: "0 \<le> i" "i < 364" "edge ?w i \<le> ?u" "?u < edge ?w (i + 1)"
    using i0 est e364 in_day by (cases "i0 = 363"; auto simp: i_def add.assoc)+
  have stop: "shortUp t (time_Unix ?a) ?w i = i"
    using i cb by (subst shortUp.simps) (auto simp: HeatmapBlocks_def less_time_Unix)
  have up: "shortUp t (time_Unix ?a) ?w i0 = i"
  proof (cases "i = i0")
    case False
    then have "i = i0 + 1" "edge ?w (i0 + 1) \<le> ?u" by (auto simp: i_def split: if_splits)
    then show ?thesis using stop i i0 cb [of "i0 + 1"] by (subst shortUp.simps) (auto simp: HeatmapBlocks_def less_time_Unix)
  qed (use stop in simp)
  have down: "shortDown t (time_Unix ?a) ?w i = i"
    using i cb [of i] by (subst shortDown.simps) (auto simp: less_time_Unix)
  have "shortBucketForTimestamp loc t = Some (calendarBucket (time_Unix ?a) ?w i)"
    using w idx up down by (simp add: shortBucketForTimestamp_def Let_def day_bounds [OF reg] AddDays_dayStart [OF reg])
  moreover have "calendarBucket (time_Unix ?a) ?w i = slotBucket loc ?d i"
    using i cb by (simp add: calendarBucket_def slotBucket_def daySlot_def)
  ultimately show ?thesis using i by (intro exI [of _ i]) (auto simp: daySlot_def)
qed

lemma short_unique:
  assumes reg: "regular loc" and i: "0 \<le> i" "i < 364" "daySlot loc d i \<le> t_unix t" "t_unix t < daySlot loc d (i + 1)"
  shows "shortBucketForTimestamp loc t = Some (slotBucket loc d i)" "localDay loc t = d"
proof -
  let ?w = "dateSec loc (d + 1) 0 - dateSec loc d 0"
  have w: "364 \<le> ?w" using day_length(1) [OF reg, of d] by simp
  have "daySlot loc d 0 \<le> daySlot loc d i" "daySlot loc d (i + 1) \<le> daySlot loc d 364"
    using edge_mono_le [OF w, of 0 i] edge_mono_le [OF w, of "i + 1" 364] i by (auto simp: daySlot_def)
  then have "time_Unix (dateSec loc d 0) \<le> t" "t < time_Unix (dateSec loc (d + 1) 0)"
    using i by (auto simp: daySlot_ends time_Unix_le less_time_Unix)
  then show d: "localDay loc t = d" using localDay_iff [OF reg] by auto
  obtain j where j: "shortBucketForTimestamp loc t = Some (slotBucket loc d j)"
    "daySlot loc d j \<le> t_unix t" "t_unix t < daySlot loc d (j + 1)"
    using shortBucket_slot [OF reg, of t] d by auto
  have "i = j" using edge_unique [OF w, of i "t_unix t - dateSec loc d 0" j] i j by (auto simp: daySlot_def)
  with j show "shortBucketForTimestamp loc t = Some (slotBucket loc d i)" by simp
qed

lemma short_partition:
  assumes "regular loc"
  obtains b where "shortBucketForTimestamp loc t = Some b" "b_Start b \<le> t" "t < b_End b"
    "\<And>u. b_Start b \<le> u \<Longrightarrow> u < b_End b \<Longrightarrow> shortBucketForTimestamp loc u = Some b"
proof -
  obtain i where i: "0 \<le> i" "i < 364" "shortBucketForTimestamp loc t = Some (slotBucket loc (localDay loc t) i)"
    "daySlot loc (localDay loc t) i \<le> t_unix t" "t_unix t < daySlot loc (localDay loc t) (i + 1)"
    using shortBucket_slot [OF assms] by blast
  show ?thesis
  proof (rule that)
    show "shortBucketForTimestamp loc t = Some (slotBucket loc (localDay loc t) i)" by (rule i(3))
    show "b_Start (slotBucket loc (localDay loc t) i) \<le> t" "t < b_End (slotBucket loc (localDay loc t) i)"
      using i(4,5) by (simp_all add: slotBucket_def time_Unix_le less_time_Unix)
  next
    fix u
    assume "b_Start (slotBucket loc (localDay loc t) i) \<le> u" "u < b_End (slotBucket loc (localDay loc t) i)"
    then have "daySlot loc (localDay loc t) i \<le> t_unix u" "t_unix u < daySlot loc (localDay loc t) (i + 1)"
      by (simp_all add: slotBucket_def time_Unix_le less_time_Unix)
    then show "shortBucketForTimestamp loc u = Some (slotBucket loc (localDay loc t) i)"
      by (rule short_unique(1) [OF assms i(1,2)])
  qed
qed

section \<open>Daily buckets\<close>

definition dayBucket :: "Location \<Rightarrow> int \<Rightarrow> Bucket" where
  "dayBucket loc d = \<lparr>b_Start = time_Unix (dateSec loc d 0), b_End = time_Unix (dateSec loc (d + 1) 0)\<rparr>"

lemma daily_bucket:
  assumes "regular loc"
  shows "BucketForTimestamp loc UsageActivityGrainDaily t = Some (Inr (dayBucket loc (localDay loc t)))"
  by (simp add: BucketForTimestamp_def grain_defs day_bounds [OF assms] AddDays_dayStart [OF assms] dayBucket_def Let_def)

lemma dayBucket_iff:
  assumes "regular loc"
  shows "localDay loc t = d \<longleftrightarrow> b_Start (dayBucket loc d) \<le> t \<and> t < b_End (dayBucket loc d)"
  using localDay_iff [OF assms] by (simp add: dayBucket_def)

section \<open>The partition\<close>

definition allGrains :: "UsageActivityGrain list" where
  "allGrains = [UsageActivityGrainShort, UsageActivityGrainMedium, UsageActivityGrainLong, UsageActivityGrainDaily]"

lemma fixedWindowSeconds_ok: "fixedWindowSeconds grain = Inr w \<Longrightarrow> fixed_window w"
  by (auto simp: fixedWindowSeconds_def fixed_window_def mediumWindowSeconds_def longWindowSeconds_def split: if_splits)

lemma edge_shift:
  assumes "fixed_window w"
  shows "edge w (i + 1) - edge w i \<le> 7200"
proof -
  have "(i + 1) * w < (edge w i + 7201) * 364"
    using assms div_le_iff_int [of 364 "i * w" "edge w i"] by (simp add: edge_def fixed_window_def algebra_simps)
  then have "edge w (i + 1) \<le> edge w i + 7200" unfolding edge_def [of w "i + 1"] by (simp add: div_le_iff_int)
  then show ?thesis by simp
qed

text \<open>Every covered time has a bucket that holds it and is the bucket of all times in it.\<close>

lemma bucket_holds:
  assumes reg: "regular loc" and t: "\<bar>t_unix t\<bar> \<le> 4503599627370496" and grain: "grain \<in> set allGrains"
  obtains b where "BucketForTimestamp loc grain t = Some (Inr b)" "b_Start b \<le> t" "t < b_End b"
    "\<And>u. b_Start b \<le> u \<Longrightarrow> u < b_End b \<Longrightarrow> BucketForTimestamp loc grain u = Some (Inr b)"
proof -
  consider (short) "grain = UsageActivityGrainShort" | (daily) "grain = UsageActivityGrainDaily"
    | (fixed) w where "grain \<noteq> UsageActivityGrainShort" "grain \<noteq> UsageActivityGrainDaily" "fixedWindowSeconds grain = Inr w"
    using grain by (auto simp: allGrains_def fixedWindowSeconds_def grain_defs)
  then show ?thesis
  proof cases
    case short
    then have "BucketForTimestamp loc grain u = map_option Inr (shortBucketForTimestamp loc u)" for u
      by (simp add: BucketForTimestamp_def)
    then show ?thesis using short_partition [OF reg, of t] that by (metis option.simps(9))
  next
    case daily
    show ?thesis
      using daily daily_bucket [OF reg] dayBucket_iff [OF reg] that by metis
  next
    case fixed
    have w: "fixed_window w" using fixed fixedWindowSeconds_ok by blast
    have "sane t" using t by (simp add: sane_def)
    then obtain i where i: "fixedBucketIndex t w = Some i" "small w i" "edge w i \<le> t_unix t" "t_unix t < edge w (i + 1)"
      using fixedBucketIndex_finds [OF w] by blast
    have same: "fixedBucketIndex u w = Some i" if "time_Unix (edge w i) \<le> u" "u < time_Unix (edge w (i + 1))" for u
    proof -
      have "edge w i \<le> t_unix u" "t_unix u < edge w (i + 1)" using that by (auto simp: time_Unix_le less_time_Unix)
      moreover from this have "sane u" using i edge_shift [OF w, of i] t by (auto simp: sane_def)
      ultimately show ?thesis using fixedBucketIndex_unique [OF w] by blast
    qed
    show ?thesis
      using i same fixed
      by (intro that [of "fixedBucket w i"])
         (auto simp: BucketForTimestamp_def fixedBucket_edges [OF i(2) w] time_Unix_le less_time_Unix)
  qed
qed

text \<open>
  C39. In a regular zone, whose clock does not change at midnight, the buckets of a grain partition the
  times up to \<open>2^52\<close> seconds around 1970: \<open>BucketForTimestamp\<close> returns for every such time and each of
  the four grains a half-open bucket that holds the time, and every other time in that bucket gets
  the same bucket. In particular the correction loops of the fixed windows end, also before 1970.
\<close>

theorem BucketForTimestamp_partition:
  assumes "regular loc" "\<bar>t_unix t\<bar> \<le> 4503599627370496" "grain \<in> set allGrains"
  shows "\<exists>b. BucketForTimestamp loc grain t = Some (Inr b) \<and> b_Start b \<le> t \<and> t < b_End b \<and>
             (\<forall>u. b_Start b \<le> u \<and> u < b_End b \<longrightarrow> BucketForTimestamp loc grain u = Some (Inr b))"
  using bucket_holds [OF assms] by metis

text \<open>Berlin in 2024, two clock changes; 2024-03-31 12:00:00.5 UTC, a day of 23 hours.\<close>

definition Berlin :: Location where
  "Berlin = (3600, [(1711846800, 7200), (1729990800, 3600)])"

lemma Berlin_regular: "regular Berlin"
  by (simp add: Berlin_def regular_def quiet_change_def)

theorem BucketForTimestamp_partition_witness:
  "\<exists>b. BucketForTimestamp Berlin UsageActivityGrainShort (time_Unix 1711886400 + 500000000) = Some (Inr b) \<and>
       b_Start b \<le> time_Unix 1711886400 + 500000000 \<and> time_Unix 1711886400 + 500000000 < b_End b \<and>
       (\<forall>u. b_Start b \<le> u \<and> u < b_End b \<longrightarrow> BucketForTimestamp Berlin UsageActivityGrainShort u = Some (Inr b))"
  by (rule BucketForTimestamp_partition [OF Berlin_regular])
     (simp_all add: allGrains_def t_unix_def time_Unix_def unixToInternal_def)

section \<open>The windows\<close>

text \<open>
  A window: consecutive buckets of the grain, the last of which ends at or after the reference
  time and starts before it.
\<close>

definition window_of :: "(gotime \<Rightarrow> Bucket option) \<Rightarrow> gotime \<Rightarrow> Bucket list \<Rightarrow> bool" where
  "window_of f t bs \<longleftrightarrow> bs \<noteq> [] \<and> (\<forall>i. Suc i < length bs \<longrightarrow> b_End (bs ! i) = b_Start (bs ! Suc i)) \<and>
     b_Start (last bs) < t \<and> t \<le> b_End (last bs) \<and> (\<forall>b \<in> set bs. f (b_Start b) = Some b)"

text \<open>Short: the walk back meets the bucket that ends where the walk stands.\<close>

definition starts_at :: "Location \<Rightarrow> gotime \<Rightarrow> bool" where
  "starts_at loc c \<longleftrightarrow> (\<exists>b. shortBucketForTimestamp loc c = Some b \<and> b_Start b = c)"

lemma starts_at_Start: "regular loc \<Longrightarrow> shortBucketForTimestamp loc t = Some b \<Longrightarrow> starts_at loc (b_Start b)"
  using short_partition [of loc t] unfolding starts_at_def
  by (metis dual_order.refl le_less_trans option.inject)

lemma starts_at_End:
  assumes reg: "regular loc" and b: "shortBucketForTimestamp loc t = Some b"
  shows "starts_at loc (b_End b)"
proof -
  obtain b2 where b2: "shortBucketForTimestamp loc (b_End b) = Some b2" "b_Start b2 \<le> b_End b" "b_End b < b_End b2"
    and same2: "\<And>u. b_Start b2 \<le> u \<Longrightarrow> u < b_End b2 \<Longrightarrow> shortBucketForTimestamp loc u = Some b2"
    using short_partition [OF reg] by metis
  have lt: "b_Start b < b_End b" and same: "\<And>u. b_Start b \<le> u \<Longrightarrow> u < b_End b \<Longrightarrow> shortBucketForTimestamp loc u = Some b"
    using short_partition [OF reg, of t] b by (metis le_less_trans option.inject)+
  have "\<not> b_Start b2 < b_End b"
  proof
    assume "b_Start b2 < b_End b"
    then have "shortBucketForTimestamp loc (b_End b - 1) = Some b2" "shortBucketForTimestamp loc (b_End b - 1) = Some b"
      using same [of "b_End b - 1"] same2 [of "b_End b - 1"] lt b2 by auto
    then show False using b2 by auto
  qed
  then show ?thesis using b2 by (auto simp: starts_at_def)
qed

lemma short_back:
  assumes reg: "regular loc" and c: "starts_at loc c" and b: "shortBucketForTimestamp loc (c - 1) = Some b"
  shows "b_End b = c" "b_Start b < c"
proof -
  have b': "b_Start b \<le> c - 1" "c - 1 < b_End b"
    and same: "\<And>u. b_Start b \<le> u \<Longrightarrow> u < b_End b \<Longrightarrow> shortBucketForTimestamp loc u = Some b"
    using short_partition [OF reg, of "c - 1"] b by (metis option.inject)+
  then show "b_Start b < c" by simp
  show "b_End b = c"
  proof (rule ccontr)
    assume "b_End b \<noteq> c"
    then have "shortBucketForTimestamp loc c = Some b" using same [of c] b' by auto
    then show False using c b' by (auto simp: starts_at_def)
  qed
qed

lemma shortWindowFrom_window:
  assumes reg: "regular loc" and "starts_at loc c"
    and "rest = [] \<or> b_Start (hd rest) = c"
    and "\<forall>i. Suc i < length rest \<longrightarrow> b_End (rest ! i) = b_Start (rest ! Suc i)"
    and "\<forall>b \<in> set rest. shortBucketForTimestamp loc (b_Start b) = Some b"
  shows "\<exists>bs. shortWindowFrom loc n c rest = Some bs \<and> length bs = n + length rest \<and>
     (\<forall>i. Suc i < length bs \<longrightarrow> b_End (bs ! i) = b_Start (bs ! Suc i)) \<and>
     (\<forall>b \<in> set bs. shortBucketForTimestamp loc (b_Start b) = Some b) \<and>
     (rest \<noteq> [] \<longrightarrow> last bs = last rest) \<and> (rest = [] \<longrightarrow> 0 < n \<longrightarrow> shortBucketForTimestamp loc (c - 1) = Some (last bs))"
  using assms(2-)
proof (induction n arbitrary: c rest)
  case (Suc n)
  obtain b where b: "shortBucketForTimestamp loc (c - 1) = Some b" using short_partition [OF reg] by metis
  note prev = short_back [OF reg Suc.prems(1) b]
  have sb: "starts_at loc (b_Start b)" by (rule starts_at_Start [OF reg b])
  then have fb: "shortBucketForTimestamp loc (b_Start b) = Some b"
    using short_partition [OF reg, of "c - 1"] b by (metis dual_order.refl le_less_trans option.inject)
  have chain: "\<forall>i. Suc i < length (b # rest) \<longrightarrow> b_End ((b # rest) ! i) = b_Start ((b # rest) ! Suc i)"
    using Suc.prems(2,3) prev(1) by (auto simp: nth_Cons hd_conv_nth split: nat.splits)
  from Suc.IH [OF sb _ chain] fb Suc.prems(4) obtain bs where
    "shortWindowFrom loc n (b_Start b) (b # rest) = Some bs" "length bs = n + length (b # rest)"
    "\<forall>i. Suc i < length bs \<longrightarrow> b_End (bs ! i) = b_Start (bs ! Suc i)"
    "\<forall>b \<in> set bs. shortBucketForTimestamp loc (b_Start b) = Some b" "last bs = last (b # rest)"
    by auto
  then show ?case using b by auto
qed auto

lemma short_window:
  assumes reg: "regular loc"
  obtains bs where "shortWindowEndingAt loc t = Some bs" "length bs = 364" "window_of (shortBucketForTimestamp loc) t bs"
proof -
  obtain b where b: "shortBucketForTimestamp loc t = Some b" "b_Start b \<le> t" "t < b_End b"
    using short_partition [OF reg] by metis
  define c where "c = (if t \<noteq> b_Start b then b_End b else b_Start b)"
  have c: "starts_at loc c" using starts_at_Start [OF reg b(1)] starts_at_End [OF reg b(1)] by (simp add: c_def)
  obtain bs where bs: "shortWindowFrom loc 364 c [] = Some bs" "length bs = 364"
    "\<forall>i. Suc i < length bs \<longrightarrow> b_End (bs ! i) = b_Start (bs ! Suc i)"
    "\<forall>b \<in> set bs. shortBucketForTimestamp loc (b_Start b) = Some b" "shortBucketForTimestamp loc (c - 1) = Some (last bs)"
    using shortWindowFrom_window [OF reg c, of "[]" 364] by auto
  note prev = short_back [OF reg c bs(5)]
  have "b_Start (last bs) < t"
  proof (cases "t = b_Start b")
    case False
    have "shortBucketForTimestamp loc (b_End b - 1) = Some b"
      using short_partition [OF reg, of t] b by (metis diff_add_cancel less_add_one option.inject zle_diff1_eq le_less_trans)
    then show ?thesis using bs(5) False b by (auto simp: c_def)
  qed (use prev in \<open>simp add: c_def\<close>)
  moreover have "t \<le> b_End (last bs)" using prev b by (auto simp: c_def)
  moreover have "shortWindowEndingAt loc t = Some bs"
    using bs(1) b(1) by (simp add: shortWindowEndingAt_def HeatmapBlocks_def Let_def c_def split: if_splits)
  moreover have "bs \<noteq> []" using bs(2) by auto
  ultimately show ?thesis using that bs(2-4) unfolding window_of_def by blast
qed

lemma daily_window:
  assumes reg: "regular loc"
  shows "length (dailyWindowEndingAt loc t) = 364 \<and>
         window_of (\<lambda>u. Some (dayBucket loc (localDay loc u))) t (dailyWindowEndingAt loc t)"
proof -
  define e where "e = (if t \<noteq> dayStart loc t then localDay loc t + 1 else localDay loc t)"
  have "(if t \<noteq> dayStart loc t then AddDays loc (dayStart loc t) 1 else dayStart loc t) = time_Unix (dateSec loc e 0)"
    using day_bounds [OF reg, of t] by (auto simp: e_def)
  then have eq: "dailyWindowEndingAt loc t = map (\<lambda>i. dayBucket loc (e - 364 + int i)) [0..<364]"
    unfolding dailyWindowEndingAt_def by (simp only: Let_def) (simp add: HeatmapBlocks_def AddDays_dayStart [OF reg] dayBucket_def)
  have l: "last (map (\<lambda>i. dayBucket loc (e - 364 + int i)) [0..<364]) = dayBucket loc (e - 1)"
    by (simp add: last_conv_nth)
  have d: "localDay loc (b_Start (dayBucket loc k)) = k" for k
    using dateSec_mono [OF reg, of k "k + 1"] by (subst dayBucket_iff [OF reg]) (simp add: dayBucket_def)
  have t: "b_Start (dayBucket loc (localDay loc t)) \<le> t" "t < b_End (dayBucket loc (localDay loc t))"
    using dayBucket_iff [OF reg] by blast+
  have "b_Start (dayBucket loc (e - 1)) < t \<and> t \<le> b_End (dayBucket loc (e - 1))"
  proof (cases "t = dayStart loc t")
    case True
    then show ?thesis using dateSec_mono [OF reg, of "localDay loc t - 1" "localDay loc t"] dayStart_eq [of loc t]
      by (simp add: e_def dayBucket_def) (metis time_Unix_less order_refl)
  next
    case False
    then show ?thesis using t dayStart_eq [of loc t] by (auto simp: e_def dayBucket_def)
  qed
  then show ?thesis unfolding eq window_of_def l
    by (auto simp: dayBucket_def algebra_simps localDay_time_Date [OF reg])
qed

lemma edge_near:
  assumes "fixed_window w" "\<bar>k\<bar> \<le> 400"
  shows "\<bar>edge w (i + k) - edge w i\<bar> \<le> 3000000"
proof -
  have "\<bar>k * w\<bar> \<le> 400 * 2592000" unfolding abs_mult using assms by (intro mult_mono) (auto simp: fixed_window_def)
  then have kw: "- 1036800000 \<le> k * w" "k * w \<le> 1036800000" by auto
  have "(i + k) * w = i * w + k * w" by (simp add: distrib_right)
  moreover have "edge w i * 364 \<le> i * w" "i * w < (edge w i + 1) * 364"
    using le_div_iff_int [of 364 "edge w i" "i * w"] div_le_iff_int [of 364 "i * w" "edge w i"] by (auto simp: edge_def)
  ultimately have "(edge w i - 3000000) * 364 \<le> (i + k) * w" "(i + k) * w < (edge w i + 3000000 + 1) * 364"
    using kw by auto
  then have "edge w i - 3000000 \<le> edge w (i + k)" "edge w (i + k) \<le> edge w i + 3000000"
    unfolding edge_def [of w "i + k"] by (auto simp only: le_div_iff_int div_le_iff_int)
  then show ?thesis by auto
qed

lemma fixed_window_of:
  assumes w: "fixed_window w" and t: "\<bar>t_unix t\<bar> \<le> 4503599627370496" and i: "fixedBucketIndex t w = Some i"
  defines "e \<equiv> if t \<noteq> b_Start (fixedBucket w i) then i64 (i + 1) else i"
  defines "bs \<equiv> map (\<lambda>k. fixedBucket w (i64 (i64 (e - 364) + int k))) [0..<364]"
  shows "window_of (\<lambda>u. map_option (fixedBucket w) (fixedBucketIndex u w)) t bs"
proof -
  have w': "364 \<le> w" using w by (simp add: fixed_window_def)
  have "sane t" using t by (simp add: sane_def)
  then have sm: "small w i" and hold: "edge w i \<le> t_unix t" "t_unix t < edge w (i + 1)"
    using fixedBucketIndex_finds [OF w, of t] i by (metis option.inject)+
  define r where "r = (if t \<noteq> b_Start (fixedBucket w i) then 1 else 0 :: int)"
  have e: "e = i + r" using smallD(1) [OF sm w, of 1] by (simp add: e_def r_def)
  have idx: "i64 (i64 (e - 364) + int k) = i + (r - 364 + int k)" if "k < 364" for k
  proof -
    have "i64 (i + (r - 364)) = i + (r - 364)" "i64 (i + (r - 364 + int k)) = i + (r - 364 + int k)"
      using smallD(1) [OF sm w, of "r - 364"] smallD(1) [OF sm w, of "r - 364 + int k"] that by (auto simp: r_def)
    moreover have "e - 364 = i + (r - 364)" "i + (r - 364) + int k = i + (r - 364 + int k)" using e by auto
    ultimately show ?thesis by metis
  qed
  have bk: "fixedBucket w (i + k) = \<lparr>b_Start = time_Unix (edge w (i + k)), b_End = time_Unix (edge w (i + k + 1))\<rparr>"
    if "\<bar>k\<bar> \<le> 400" for k
    using smallD [OF sm w, of k] smallD [OF sm w, of "k + 1"] that by (simp add: fixedBucket_def add_ac)
  have found: "fixedBucketIndex (b_Start (fixedBucket w (i + k))) w = Some (i + k)" if k: "\<bar>k\<bar> \<le> 400" for k
  proof (rule fixedBucketIndex_unique(1) [OF w])
    show "edge w (i + k) \<le> t_unix (b_Start (fixedBucket w (i + k)))" using bk [OF k] by simp
    show "t_unix (b_Start (fixedBucket w (i + k))) < edge w (i + k + 1)"
      using bk [OF k] edge_mono [OF w', of "i + k" "i + k + 1"] by simp
    have "\<bar>edge w (i + k)\<bar> \<le> 9007199254740992"
      using edge_near [OF w k, of i] edge_shift [OF w, of i] hold t by auto
    then show "sane (b_Start (fixedBucket w (i + k)))" using bk [OF k] by (simp add: sane_def)
  qed
  have bs: "bs = map (\<lambda>k. fixedBucket w (i + (r - 364 + int k))) [0..<364]" unfolding bs_def using idx by simp
  have l: "last bs = fixedBucket w (i + (r - 1))" unfolding bs by (simp add: last_conv_nth)
  have small_k: "\<bar>r - 364 + int k\<bar> \<le> 400" if "k < 364" for k using that by (auto simp: r_def)
  have "b_Start (last bs) < t \<and> t \<le> b_End (last bs)"
  proof (cases "t = b_Start (fixedBucket w i)")
    case True
    then show ?thesis using bk [of "- 1"] bk [of 0] edge_mono [OF w', of "i - 1" i] unfolding l by (simp add: r_def)
  next
    case False
    have "time_Unix (edge w i) \<le> t" "t < time_Unix (edge w (i + 1))" using hold by (simp_all add: time_Unix_le less_time_Unix)
    then show ?thesis using bk [of 0] False unfolding l by (simp add: r_def)
  qed
  moreover have "b_End (bs ! k) = b_Start (bs ! Suc k)" if "Suc k < length bs" for k
    using that bk [OF small_k [of k]] bk [OF small_k [of "Suc k"]] by (simp add: bs algebra_simps)
  moreover have "map_option (fixedBucket w) (fixedBucketIndex (b_Start b) w) = Some b" if "b \<in> set bs" for b
    using that found [OF small_k] by (auto simp: bs)
  ultimately show ?thesis unfolding window_of_def by (auto simp: bs)
qed

text \<open>
  A heat map window: for every reference time and each grain \<open>WindowEndingAt\<close> returns exactly
  364 buckets without gap or overlap, in order; the last one starts before the reference time and
  does not end before it; and each is the bucket under which \<open>BucketForTimestamp\<close> stores events,
  so that storage and query agree on every boundary.
\<close>

theorem WindowEndingAt_tiles:
  assumes reg: "regular loc" and t: "\<bar>t_unix t\<bar> \<le> 4503599627370496" and grain: "grain \<in> set allGrains"
  shows "\<exists>bs. WindowEndingAt loc grain t = Some (Inr bs) \<and> length bs = 364 \<and>
     (\<forall>i. Suc i < length bs \<longrightarrow> b_End (bs ! i) = b_Start (bs ! Suc i)) \<and>
     b_Start (last bs) < t \<and> t \<le> b_End (last bs) \<and>
     (\<forall>b \<in> set bs. BucketForTimestamp loc grain (b_Start b) = Some (Inr b))"
proof -
  consider (short) "grain = UsageActivityGrainShort" | (daily) "grain = UsageActivityGrainDaily"
    | (fixed) w where "grain \<noteq> UsageActivityGrainShort" "grain \<noteq> UsageActivityGrainDaily" "fixedWindowSeconds grain = Inr w"
    using grain by (auto simp: allGrains_def fixedWindowSeconds_def grain_defs)
  then show ?thesis
  proof cases
    case short
    obtain bs where "shortWindowEndingAt loc t = Some bs" "length bs = 364" "window_of (shortBucketForTimestamp loc) t bs"
      using short_window [OF reg] by blast
    then show ?thesis using short by (auto simp: WindowEndingAt_def BucketForTimestamp_def window_of_def)
  next
    case daily
    then show ?thesis using daily_window [OF reg, of t] daily_bucket [OF reg]
      by (auto simp: WindowEndingAt_def window_of_def grain_defs)
  next
    case fixed
    have w: "fixed_window w" using fixed fixedWindowSeconds_ok by blast
    have "sane t" using t by (simp add: sane_def)
    then obtain i where i: "fixedBucketIndex t w = Some i" using fixedBucketIndex_finds [OF w] by blast
    show ?thesis using fixed_window_of [OF w t i] i fixed
      by (auto simp: WindowEndingAt_def BucketForTimestamp_def window_of_def HeatmapBlocks_def Let_def option.map_comp comp_def)
  qed
qed

theorem WindowEndingAt_tiles_witness:
  "\<exists>bs. WindowEndingAt Berlin UsageActivityGrainLong (time_Unix 1711886400) = Some (Inr bs) \<and> length bs = 364 \<and>
     (\<forall>i. Suc i < length bs \<longrightarrow> b_End (bs ! i) = b_Start (bs ! Suc i)) \<and>
     b_Start (last bs) < time_Unix 1711886400 \<and> time_Unix 1711886400 \<le> b_End (last bs) \<and>
     (\<forall>b \<in> set bs. BucketForTimestamp Berlin UsageActivityGrainLong (b_Start b) = Some (Inr b))"
  by (rule WindowEndingAt_tiles [OF Berlin_regular]) (simp_all add: allGrains_def)

text \<open>A zone whose clock is put forward at midnight, on 2018-11-04.\<close>

definition SaoPaulo :: Location where
  "SaoPaulo = (- 10800, [(1541300400, - 7200), (1550368800, - 10800)])"

text \<open>
  The partition needs a zone that does not skip midnight: in Sao Paulo on 2018-11-04
  \<open>time.Date\<close> turns the missing midnight into 23:00 of the day before, and the daily bucket of an
  event at 23:30 on that day ends half an hour before the event.
\<close>

lemma daily_bucket_skipped_midnight:
  "BucketForTimestamp SaoPaulo UsageActivityGrainDaily (time_Unix 1541381400) =
     Some (Inr \<lparr>b_Start = time_Unix 1541296800, b_End = time_Unix 1541379600\<rparr>)"
  by (simp add: BucketForTimestamp_def grain_defs dayStart_def AddDays_def time_Date_def dateSec_def Let_def
      lookup_def SaoPaulo_def localDay_def localClock_def localSec_def offset_at_def outside_def)

end
