(* ===== verification/Rollup_Rows.thy ===== *)
theory Rollup_Rows
  imports Activity_Grain Usage_Counts "HOL-Library.AList" "HOL-Library.Char_ord" "HOL-Library.List_Lexorder"
begin

text \<open>
  The in-memory half of two rollups: \<^verbatim>\<open>internal/overview/aggregate.go\<close> and
  \<^verbatim>\<open>internal/activity/aggregate.go\<close> turn a page of usage events into sparse rows, one per key,
  with the counters of the events of that key. The counters wrap around like \<open>int64\<close>. A Go map is
  an association list; the rows are sorted before they leave, so the order of the map is not
  visible. The activity table lacks the columns \<open>RequestCount\<close> and \<open>CachedTokens\<close>, which stay 0.
\<close>

section \<open>Counters of activity rows\<close>

definition activityCounts :: "UsageEvent \<Rightarrow> Counts" where
  "activityCounts e = Counts 0 (if ev_Failed e then 0 else 1) (if ev_Failed e then 1 else 0)
     (ev_InputTokens e) (ev_OutputTokens e) (ev_ReasoningTokens e) 0
     (ev_CacheReadTokens e) (ev_CacheCreationTokens e) (ev_TotalTokens e)"

section \<open>overview/aggregate.go\<close>

record aggregateKey =
  k_BucketStart :: gotime
  k_APIGroupKey :: string
  k_Model :: string
  k_AuthIndex :: string
  k_ModelAlias :: string
  k_ServiceTier :: string
  k_ResponseServiceTier :: string
  k_ReasoningEffort :: string
  k_Endpoint :: string
  k_ExecutorType :: string

text \<open>A row of \<open>usage_overview_hourly_stats\<close> or \<open>usage_overview_daily_stats\<close>: both tables have these columns.\<close>

record UsageOverviewStat =
  os_ID :: int
  os_key :: aggregateKey
  os_counts :: Counts
  os_CreatedAt :: gotime
  os_UpdatedAt :: gotime

definition normalizeRequiredDimension :: "string \<Rightarrow> string" where
  "normalizeRequiredDimension v = (let trimmed = TrimSpace v in if trimmed = [] then ''unknown'' else trimmed)"

definition normalizeOptionalDimension :: "string \<Rightarrow> string" where
  "normalizeOptionalDimension v = TrimSpace v"

text \<open>The dimensions of an event without its bucket.\<close>

definition dimensionsOf :: "UsageEvent \<Rightarrow> aggregateKey" where
  "dimensionsOf e =
     \<lparr>k_BucketStart = zero_time,
      k_APIGroupKey = normalizeRequiredDimension (APIGroupKey e),
      k_Model = normalizeRequiredDimension (Model e),
      k_AuthIndex = normalizeOptionalDimension (AuthIndex e),
      k_ModelAlias = (case ModelAlias e of None \<Rightarrow> [] | Some a \<Rightarrow> normalizeOptionalDimension a),
      k_ServiceTier = normalizeOptionalDimension (ServiceTier e),
      k_ResponseServiceTier = normalizeOptionalDimension (ResponseServiceTier e),
      k_ReasoningEffort = normalizeOptionalDimension (ReasoningEffort e),
      k_Endpoint = normalizeOptionalDimension (Endpoint e),
      k_ExecutorType = normalizeOptionalDimension (ev_ExecutorType e)\<rparr>"

text \<open>\<open>Truncate(time.Hour)\<close> rounds down to a multiple of an hour since the zero time.\<close>

definition truncateHour :: "gotime \<Rightarrow> gotime" where
  "truncateHour t = t - t mod Hour"

definition hourKey :: "UsageEvent \<Rightarrow> aggregateKey" where
  "hourKey e = (dimensionsOf e)\<lparr>k_BucketStart := truncateHour (Timestamp e)\<rparr>"

definition dayKey :: "Location \<Rightarrow> UsageEvent \<Rightarrow> aggregateKey" where
  "dayKey loc e = (dimensionsOf e)\<lparr>k_BucketStart := dayStart loc (Timestamp e)\<rparr>"

text \<open>\<open>addEventToHourlyRow\<close> and \<open>addEventToDailyRow\<close> have the same body.\<close>

definition addEventToRow :: "Counts \<Rightarrow> UsageEvent \<Rightarrow> Counts" where
  "addEventToRow row e = Counts
     (i64 (RequestCount row + 1))
     (if ev_Failed e then SuccessCount row else i64 (SuccessCount row + 1))
     (if ev_Failed e then i64 (FailureCount row + 1) else FailureCount row)
     (i64 (c_InputTokens row + ev_InputTokens e)) (i64 (c_OutputTokens row + ev_OutputTokens e))
     (i64 (c_ReasoningTokens row + ev_ReasoningTokens e)) (i64 (c_CachedTokens row + ev_CachedTokens e))
     (i64 (c_CacheReadTokens row + ev_CacheReadTokens e)) (i64 (c_CacheCreationTokens row + ev_CacheCreationTokens e))
     (i64 (c_TotalTokens row + ev_TotalTokens e))"

text \<open>The row of a key, created with zero counters when it is missing, gets one more event.\<close>

definition addToKey :: "(Counts \<Rightarrow> Counts) \<Rightarrow> 'k \<Rightarrow> ('k \<times> Counts) list \<Rightarrow> ('k \<times> Counts) list" where
  "addToKey f key rows =
     AList.update key (f (case map_of rows key of None \<Rightarrow> 0 | Some c \<Rightarrow> c)) rows"

fun overviewLoop ::
  "Location \<Rightarrow> UsageEvent list \<Rightarrow> (aggregateKey \<times> Counts) list \<Rightarrow> (aggregateKey \<times> Counts) list \<Rightarrow> int
   \<Rightarrow> (aggregateKey \<times> Counts) list \<times> (aggregateKey \<times> Counts) list \<times> int" where
  "overviewLoop loc [] hourly daily maxEventID = (hourly, daily, maxEventID)"
| "overviewLoop loc (e # es) hourly daily maxEventID =
     overviewLoop loc es
       (addToKey (\<lambda>row. addEventToRow row e) (hourKey e) hourly)
       (addToKey (\<lambda>row. addEventToRow row e) (dayKey loc e) daily)
       (if ev_ID e > maxEventID then ev_ID e else maxEventID)"

fun firstDifference :: "string list \<Rightarrow> string list \<Rightarrow> bool" where
  "firstDifference (l # ls) (r # rs) = (if l \<noteq> r then l < r else firstDifference ls rs)"
| "firstDifference _ _ = False"

definition dimensionValues :: "aggregateKey \<Rightarrow> string list" where
  "dimensionValues k = [k_APIGroupKey k, k_Model k, k_AuthIndex k, k_ModelAlias k, k_ServiceTier k,
     k_ResponseServiceTier k, k_ReasoningEffort k, k_Endpoint k, k_ExecutorType k]"

definition dimensionsLess :: "aggregateKey \<Rightarrow> aggregateKey \<Rightarrow> bool" where
  "dimensionsLess l r =
     (if k_BucketStart l \<noteq> k_BucketStart r then k_BucketStart l < k_BucketStart r
      else firstDifference (dimensionValues l) (dimensionValues r))"

text \<open>\<open>sort.Slice\<close> by a comparison of keys that are pairwise different.\<close>

fun insertBy :: "('a \<Rightarrow> 'a \<Rightarrow> bool) \<Rightarrow> 'a \<Rightarrow> 'a list \<Rightarrow> 'a list" where
  "insertBy lt x [] = [x]"
| "insertBy lt x (y # ys) = (if lt x y then x # y # ys else y # insertBy lt x ys)"

definition sortSlice :: "('a \<Rightarrow> 'a \<Rightarrow> bool) \<Rightarrow> 'a list \<Rightarrow> 'a list" where
  "sortSlice lt xs = foldr (insertBy lt) xs []"

definition overviewRow :: "aggregateKey \<times> Counts \<Rightarrow> UsageOverviewStat" where
  "overviewRow kc = \<lparr>os_ID = 0, os_key = fst kc, os_counts = snd kc, os_CreatedAt = zero_time, os_UpdatedAt = zero_time\<rparr>"

definition rowLess :: "UsageOverviewStat \<Rightarrow> UsageOverviewStat \<Rightarrow> bool" where
  "rowLess l r = dimensionsLess (os_key l) (os_key r)"

definition overview_BuildRows ::
  "Location \<Rightarrow> UsageEvent list \<Rightarrow> UsageOverviewStat list \<times> UsageOverviewStat list \<times> int" where
  "overview_BuildRows loc events =
     (case overviewLoop loc events [] [] 0 of
        (hourly, daily, maxEventID) \<Rightarrow>
          (sortSlice rowLess (map overviewRow hourly), sortSlice rowLess (map overviewRow daily), maxEventID))"

section \<open>activity/aggregate.go\<close>

record activityKey =
  a_Grain :: UsageActivityGrain
  a_BucketStart :: gotime
  a_APIGroupKey :: string

record UsageActivityStat =
  as_ID :: int
  as_key :: activityKey
  as_BucketEnd :: gotime
  as_counts :: Counts
  as_CreatedAt :: gotime
  as_UpdatedAt :: gotime

text \<open>\<open>None\<close> for a grain without a limit (\<open>limited = false\<close>).\<close>

definition Retention :: "UsageActivityGrain \<Rightarrow> duration option" where
  "Retention grain =
     (if grain = UsageActivityGrainShort then Some (3 * 24 * Hour)
      else if grain = UsageActivityGrainMedium then Some (8 * 24 * Hour)
      else if grain = UsageActivityGrainLong then Some (31 * 24 * Hour) else None)"

definition addActivity :: "Counts \<Rightarrow> UsageEvent \<Rightarrow> Counts" where
  "addActivity row e = Counts (RequestCount row)
     (if ev_Failed e then SuccessCount row else i64 (SuccessCount row + 1))
     (if ev_Failed e then i64 (FailureCount row + 1) else FailureCount row)
     (i64 (c_InputTokens row + ev_InputTokens e)) (i64 (c_OutputTokens row + ev_OutputTokens e))
     (i64 (c_ReasoningTokens row + ev_ReasoningTokens e)) (c_CachedTokens row)
     (i64 (c_CacheReadTokens row + ev_CacheReadTokens e)) (i64 (c_CacheCreationTokens row + ev_CacheCreationTokens e))
     (i64 (c_TotalTokens row + ev_TotalTokens e))"

text \<open>The event is older than what its grain keeps.\<close>

definition expired :: "gotime \<Rightarrow> UsageActivityGrain \<Rightarrow> UsageEvent \<Rightarrow> bool" where
  "expired now grain e =
     (case Retention grain of None \<Rightarrow> False | Some retention \<Rightarrow> Timestamp e < t_add now (- retention))"

text \<open>The loop over the grains of one event; rows are kept with the end of their bucket.\<close>

fun activityGrains ::
  "Location \<Rightarrow> gotime \<Rightarrow> UsageEvent \<Rightarrow> UsageActivityGrain list \<Rightarrow> ((activityKey \<times> gotime) \<times> Counts) list
   \<Rightarrow> (activityError + ((activityKey \<times> gotime) \<times> Counts) list) option" where
  "activityGrains loc now e [] rows = Some (Inr rows)"
| "activityGrains loc now e (grain # grains) rows =
     (if expired now grain e then activityGrains loc now e grains rows
      else case BucketForTimestamp loc grain (Timestamp e) of
             None \<Rightarrow> None
           | Some (Inl err) \<Rightarrow> Some (Inl err)
           | Some (Inr bucket) \<Rightarrow>
               (let key = \<lparr>a_Grain = grain, a_BucketStart = b_Start bucket,
                           a_APIGroupKey = NormalizeAPIGroupKey (APIGroupKey e)\<rparr>;
                    slot = (case map_of (map fst rows) key of None \<Rightarrow> (key, b_End bucket) | Some end \<Rightarrow> (key, end))
                in activityGrains loc now e grains (addToKey (\<lambda>row. addActivity row e) slot rows)))"

fun activityLoop ::
  "Location \<Rightarrow> gotime \<Rightarrow> UsageEvent list \<Rightarrow> ((activityKey \<times> gotime) \<times> Counts) list
   \<Rightarrow> (activityError + ((activityKey \<times> gotime) \<times> Counts) list) option" where
  "activityLoop loc now [] rows = Some (Inr rows)"
| "activityLoop loc now (e # es) rows =
     (case activityGrains loc now e allGrains rows of
        Some (Inr rows') \<Rightarrow> activityLoop loc now es rows'
      | r \<Rightarrow> r)"

definition activityRow :: "(activityKey \<times> gotime) \<times> Counts \<Rightarrow> UsageActivityStat" where
  "activityRow kc = \<lparr>as_ID = 0, as_key = fst (fst kc), as_BucketEnd = snd (fst kc), as_counts = snd kc,
                     as_CreatedAt = zero_time, as_UpdatedAt = zero_time\<rparr>"

definition activityLess :: "UsageActivityStat \<Rightarrow> UsageActivityStat \<Rightarrow> bool" where
  "activityLess l r =
     (let a = as_key l; b = as_key r in
      if a_Grain a \<noteq> a_Grain b then a_Grain a < a_Grain b
      else if a_BucketStart a \<noteq> a_BucketStart b then a_BucketStart a < a_BucketStart b
      else a_APIGroupKey a < a_APIGroupKey b)"

definition activity_BuildRows ::
  "Location \<Rightarrow> UsageEvent list \<Rightarrow> gotime \<Rightarrow> (activityError + UsageActivityStat list) option" where
  "activity_BuildRows loc events now =
     (case activityLoop loc now events [] of
        None \<Rightarrow> None
      | Some (Inl e) \<Rightarrow> Some (Inl e)
      | Some (Inr rows) \<Rightarrow> Some (Inr (sortSlice activityLess (map activityRow rows))))"

section \<open>Sums of rows\<close>

lemma addEventToRow_exact: "fits (row + eventCounts e) \<Longrightarrow> addEventToRow row e = row + eventCounts e"
  by (cases "ev_Failed e") (simp_all add: addEventToRow_def eventCounts_def plus_Counts_def fits_def nonneg_def i64_small)

lemma addActivity_exact: "fits (row + activityCounts e) \<Longrightarrow> addActivity row e = row + activityCounts e"
  by (cases "ev_Failed e") (simp_all add: addActivity_def activityCounts_def plus_Counts_def fits_def nonneg_def i64_small)

text \<open>The sum of the rows of a key.\<close>

definition keyTotal :: "('k \<times> Counts) list \<Rightarrow> 'k \<Rightarrow> Counts" where
  "keyTotal rows key = sum_list (map snd (filter (\<lambda>kc. fst kc = key) rows))"

lemma keyTotal_Nil [simp]: "keyTotal [] key = 0"
  by (simp add: keyTotal_def)

lemma keyTotal_Cons [simp]: "keyTotal (kc # rows) key = (if fst kc = key then snd kc else 0) + keyTotal rows key"
  by (simp add: keyTotal_def)

lemma keyTotal_append [simp]: "keyTotal (xs @ ys) key = keyTotal xs key + keyTotal ys key"
  by (simp add: keyTotal_def)

lemma keyTotal_absent: "key \<notin> fst ` set rows \<Longrightarrow> keyTotal rows key = 0"
  by (induction rows) auto

lemma keyTotal_distinct:
  "distinct (map fst rows) \<Longrightarrow> keyTotal rows key = (case map_of rows key of None \<Rightarrow> 0 | Some c \<Rightarrow> c)"
proof (induction rows)
  case (Cons kc rows)
  then show ?case
  proof (cases "fst kc = key")
    case True
    then have "key \<notin> fst ` set rows" using Cons.prems by auto
    with True show ?thesis by (simp add: keyTotal_absent)
  qed simp
qed simp

lemma keyTotal_mset:
  assumes "mset xs = mset ys"
  shows "keyTotal xs key = keyTotal ys key"
proof -
  have "mset (map snd (filter (\<lambda>kc. fst kc = key) xs)) = mset (map snd (filter (\<lambda>kc. fst kc = key) ys))"
    using assms by simp
  then show ?thesis unfolding keyTotal_def by (metis sum_mset_sum_list)
qed

lemma addToKey_distinct: "distinct (map fst rows) \<Longrightarrow> distinct (map fst (addToKey f key rows))"
  by (simp add: addToKey_def distinct_update)

lemma addToKey_total:
  assumes "distinct (map fst rows)"
  shows "keyTotal (addToKey f key rows) k = (if k = key then f (keyTotal rows key) else keyTotal rows k)"
  using assms by (simp add: keyTotal_distinct addToKey_distinct) (simp add: addToKey_def update_conv')

text \<open>Contributions of events to keys, added one after the other.\<close>

definition addAll :: "(Counts \<Rightarrow> 'e \<Rightarrow> Counts) \<Rightarrow> ('k \<times> 'e) list \<Rightarrow> ('k \<times> Counts) list \<Rightarrow> ('k \<times> Counts) list" where
  "addAll add ps rows = foldl (\<lambda>m (key, e). addToKey (\<lambda>row. add row e) key m) rows ps"

lemma addAll_simps [simp]:
  "addAll add [] rows = rows"
  "addAll add ((key, e) # ps) rows = addAll add ps (addToKey (\<lambda>row. add row e) key rows)"
  "addAll add (ps @ qs) rows = addAll add qs (addAll add ps rows)"
  by (simp_all add: addAll_def)

lemma addAll_distinct: "distinct (map fst rows) \<Longrightarrow> distinct (map fst (addAll add ps rows))"
  by (induction ps arbitrary: rows) (auto simp: addToKey_distinct)

lemma addToKey_keys: "fst ` set (addToKey f key rows) = insert key (fst ` set rows)"
  by (simp add: addToKey_def dom_update)

lemma addAll_keys: "fst ` set (addAll add ps rows) = fst ` set rows \<union> fst ` set ps"
proof (induction ps arbitrary: rows)
  case (Cons p ps)
  then show ?case by (cases p) (simp add: addToKey_keys Un_commute insert_commute)
qed simp

definition contributed :: "('e \<Rightarrow> Counts) \<Rightarrow> ('k \<times> 'e) list \<Rightarrow> 'k \<Rightarrow> Counts" where
  "contributed cnt ps key = sum_list (map (\<lambda>p. cnt (snd p)) (filter (\<lambda>p. fst p = key) ps))"

lemma contributed_simps [simp]:
  "contributed cnt [] key = 0"
  "contributed cnt (p # ps) key = (if fst p = key then cnt (snd p) else 0) + contributed cnt ps key"
  "contributed cnt (ps @ qs) key = contributed cnt ps key + contributed cnt qs key"
  by (simp_all add: contributed_def)

lemma nonneg_contributed: "\<forall>p \<in> set ps. nonneg (cnt (snd p)) \<Longrightarrow> nonneg (contributed cnt ps key)"
  by (simp add: contributed_def nonneg_sum_list)

lemma addAll_total:
  assumes "distinct (map fst rows)"
    and "\<And>row e. fits (row + cnt e) \<Longrightarrow> add row e = row + cnt e"
    and "\<And>key. nonneg (keyTotal rows key)" "\<forall>p \<in> set ps. nonneg (cnt (snd p))"
    and "\<And>key. fits (keyTotal rows key + contributed cnt ps key)"
  shows "keyTotal (addAll add ps rows) key = keyTotal rows key + contributed cnt ps key"
  using assms(1,3-)
proof (induction ps arbitrary: rows)
  case (Cons p ps)
  obtain k e where p: "p = (k, e)" by (cases p)
  let ?rows = "addToKey (\<lambda>row. add row e) k rows"
  have nn: "nonneg (cnt e)" "\<forall>p \<in> set ps. nonneg (cnt (snd p))" using Cons.prems(3) p by auto
  have "fits (keyTotal rows k + cnt e)"
    by (rule fits_part [of _ "contributed cnt ps k"])
       (use Cons.prems(4) [of k] Cons.prems(2) [of k] nn p in \<open>auto simp: add.assoc nonneg_contributed\<close>)
  then have step: "keyTotal ?rows key = keyTotal rows key + (if key = k then cnt e else 0)" for key
    using assms(2) by (simp add: addToKey_total [OF Cons.prems(1)])
  have "keyTotal (addAll add ps ?rows) key = keyTotal ?rows key + contributed cnt ps key"
  proof (rule Cons.IH)
    show "fits (keyTotal ?rows key + contributed cnt ps key)" for key
      unfolding step using Cons.prems(4) [of key] p by (auto simp: add.assoc)
    show "nonneg (keyTotal ?rows key)" for key using Cons.prems(2) nn by (simp add: step)
  qed (use Cons.prems nn in \<open>auto simp: addToKey_distinct\<close>)
  then show ?case using p step by (simp add: add.assoc)
qed simp

section \<open>Sorting\<close>

lemma mset_insertBy [simp]: "mset (insertBy lt x xs) = add_mset x (mset xs)"
  by (induction xs) auto

lemma mset_sortSlice [simp]: "mset (sortSlice lt xs) = mset xs"
  by (induction xs) (auto simp: sortSlice_def)

lemma set_sortSlice [simp]: "set (sortSlice lt xs) = set xs"
  by (metis mset_sortSlice set_mset_mset)

text \<open>Sorting rows whose keys are different by a strict total order of the keys.\<close>

lemma set_insertBy [simp]: "set (insertBy lt x xs) = insert x (set xs)"
  by (metis mset_insertBy set_mset_add_mset_insert set_mset_mset)

lemma sorted_insertBy:
  assumes "\<And>x y z. lt x y \<Longrightarrow> lt y z \<Longrightarrow> lt x z"
    and "\<And>y. y \<in> set xs \<Longrightarrow> lt x y \<or> lt y x" "sorted_wrt lt xs"
  shows "sorted_wrt lt (insertBy lt x xs)"
  using assms(2,3)
proof (induction xs)
  case (Cons y ys)
  then show ?case using assms(1) by (cases "lt x y") auto
qed simp

lemma sorted_sortSlice:
  assumes "\<And>x y z. lt x y \<Longrightarrow> lt y z \<Longrightarrow> lt x z"
    and "\<And>x y. x \<in> set xs \<Longrightarrow> y \<in> set xs \<Longrightarrow> x \<noteq> y \<Longrightarrow> lt x y \<or> lt y x" "distinct xs"
  shows "sorted_wrt lt (sortSlice lt xs)"
  using assms(2,3)
proof (induction xs)
  case (Cons x xs)
  then have "sorted_wrt lt (sortSlice lt xs)" by auto
  moreover have "y \<in> set (sortSlice lt xs) \<Longrightarrow> lt x y \<or> lt y x" for y using Cons.prems by auto
  ultimately show ?case using sorted_insertBy [of lt, OF assms(1)] by (simp add: sortSlice_def)
qed (simp add: sortSlice_def)

lemma firstDifference_lex: "length ls = length rs \<Longrightarrow> firstDifference ls rs \<longleftrightarrow> ls < rs"
  by (induction ls rs rule: firstDifference.induct) auto

lemma dimensionsLess_lex:
  "dimensionsLess l r \<longleftrightarrow>
     k_BucketStart l < k_BucketStart r \<or> k_BucketStart l = k_BucketStart r \<and> dimensionValues l < dimensionValues r"
  by (auto simp: dimensionsLess_def firstDifference_lex dimensionValues_def)

lemma dimensions_eq: "k_BucketStart l = k_BucketStart r \<Longrightarrow> dimensionValues l = dimensionValues r \<Longrightarrow> l = r"
  for l r :: aggregateKey
  by (simp add: dimensionValues_def)

lemma dimensionsLess_trans: "dimensionsLess a b \<Longrightarrow> dimensionsLess b c \<Longrightarrow> dimensionsLess a c"
  unfolding dimensionsLess_lex by (auto intro: less_trans)

lemma dimensionsLess_total: "a \<noteq> b \<Longrightarrow> dimensionsLess a b \<or> dimensionsLess b a"
  unfolding dimensionsLess_lex using dimensions_eq [of a b] by (metis less_linear)

section \<open>Overview rows\<close>

definition overviewCells :: "UsageOverviewStat list \<Rightarrow> (aggregateKey \<times> Counts) list" where
  "overviewCells rows = map (\<lambda>r. (os_key r, os_counts r)) rows"

lemma contributed_keyed: "contributed cnt (map (\<lambda>e. (key e, e)) es) k = eventSum cnt (\<lambda>e. key e = k) es"
  by (simp add: contributed_def eventSum_def filter_map comp_def)

lemma overviewLoop_addAll:
  "overviewLoop loc es hourly daily m =
     (addAll addEventToRow (map (\<lambda>e. (hourKey e, e)) es) hourly,
      addAll addEventToRow (map (\<lambda>e. (dayKey loc e, e)) es) daily,
      foldl max m (map ev_ID es))"
  by (induction es arbitrary: hourly daily m) (auto simp: max_def)

lemma page_rows_total:
  assumes "countable_events eventCounts es"
  shows "keyTotal (addAll addEventToRow (map (\<lambda>e. (key e, e)) es) []) k = eventSum eventCounts (\<lambda>e. key e = k) es"
proof -
  have "keyTotal (addAll addEventToRow (map (\<lambda>e. (key e, e)) es) []) k =
        keyTotal [] k + contributed eventCounts (map (\<lambda>e. (key e, e)) es) k"
  proof (rule addAll_total)
    show "fits (keyTotal [] k + contributed eventCounts (map (\<lambda>e. (key e, e)) es) k)" for k
      using assms by (simp add: contributed_keyed countable_fits)
  qed (use assms in \<open>auto simp: addEventToRow_exact countable_events_def\<close>)
  then show ?thesis by (simp add: contributed_keyed)
qed

lemma overviewCells_sort:
  "mset (overviewCells (sortSlice lt (map overviewRow al))) = mset al"
  by (simp add: overviewCells_def multiset.map_comp comp_def overviewRow_def)

lemma sorted_overview_rows:
  assumes "distinct (map fst al)"
  shows "sorted_wrt rowLess (sortSlice rowLess (map overviewRow al))"
proof (rule sorted_sortSlice)
  fix x y z
  assume "rowLess x y" "rowLess y z"
  then show "rowLess x z" using dimensionsLess_trans by (auto simp: rowLess_def)
next
  fix x y
  assume x: "x \<in> set (map overviewRow al)" and y: "y \<in> set (map overviewRow al)" and "x \<noteq> y"
  have "os_key x \<noteq> os_key y"
    using x y \<open>x \<noteq> y\<close> assms by (auto simp: overviewRow_def dest: eq_key_imp_eq_value)
  then show "rowLess x y \<or> rowLess y x" using dimensionsLess_total by (auto simp: rowLess_def)
next
  have "distinct (map os_key (map overviewRow al))" using assms by (simp add: overviewRow_def comp_def)
  then show "distinct (map overviewRow al)" by (auto simp: distinct_map intro: inj_on_imageI2)
qed

lemma overview_BuildRows_parts:
  "overview_BuildRows loc es =
     (sortSlice rowLess (map overviewRow (addAll addEventToRow (map (\<lambda>e. (hourKey e, e)) es) [])),
      sortSlice rowLess (map overviewRow (addAll addEventToRow (map (\<lambda>e. (dayKey loc e, e)) es) [])),
      foldl max 0 (map ev_ID es))"
  by (simp add: overview_BuildRows_def overviewLoop_addAll)

lemma overview_keys_distinct:
  "overview_BuildRows loc es = (hourly, daily, m) \<Longrightarrow> distinct (map os_key hourly) \<and> distinct (map os_key daily)"
proof -
  have *: "distinct (map os_key (sortSlice lt (map overviewRow al)))" if "distinct (map fst al)" for lt al
  proof -
    have "mset (map fst (overviewCells (sortSlice lt (map overviewRow al)))) = mset (map fst al)"
      by (metis mset_map overviewCells_sort)
    then show ?thesis using that by (metis (no_types, lifting) mset_eq_imp_distinct_iff overviewCells_def map_map comp_def fst_conv map_cong)
  qed
  assume "overview_BuildRows loc es = (hourly, daily, m)"
  then show ?thesis using * addAll_distinct [of "[]"] by (auto simp: overview_BuildRows_parts)
qed

text \<open>
  \<open>overview.BuildRows\<close> is exact: for every key the hourly (and the daily) rows hold the sums of
  the counters of exactly the page's events of that key, with one row per key and the rows in
  strictly increasing order of the key; the returned cursor is the largest event id. The counts
  of the page must be non-negative with sums below \<open>2^63\<close>; otherwise they wrap.
\<close>

lemma overview_BuildRows_exact:
  assumes "countable_events eventCounts es" "overview_BuildRows loc es = (hourly, daily, maxEventID)"
  shows "keyTotal (overviewCells hourly) k = eventSum eventCounts (\<lambda>e. hourKey e = k) es"
    and "keyTotal (overviewCells daily) k = eventSum eventCounts (\<lambda>e. dayKey loc e = k) es"
    and "sorted_wrt rowLess hourly \<and> sorted_wrt rowLess daily"
    and "distinct (map os_key hourly) \<and> distinct (map os_key daily)"
    and "\<forall>e \<in> set es. ev_ID e \<le> maxEventID"
proof -
  note parts = overview_BuildRows_parts [of loc es] assms(2)
  show "keyTotal (overviewCells hourly) k = eventSum eventCounts (\<lambda>e. hourKey e = k) es"
    using parts keyTotal_mset [OF overviewCells_sort] page_rows_total [OF assms(1), of hourKey k] by auto
  show "keyTotal (overviewCells daily) k = eventSum eventCounts (\<lambda>e. dayKey loc e = k) es"
    using parts keyTotal_mset [OF overviewCells_sort] page_rows_total [OF assms(1), of "dayKey loc" k] by auto
  show "sorted_wrt rowLess hourly \<and> sorted_wrt rowLess daily"
    using parts sorted_overview_rows addAll_distinct [of "[]"] by auto
  show "distinct (map os_key hourly) \<and> distinct (map os_key daily)"
    using overview_keys_distinct [OF assms(2)] .
  have "x \<in> set xs \<Longrightarrow> x \<le> foldl max m xs" "m \<le> foldl max m xs" for x m :: int and xs
    by (induction xs arbitrary: m) (auto intro: order_trans [OF max.cobounded1] order_trans [OF max.cobounded2])
  then show "\<forall>e \<in> set es. ev_ID e \<le> maxEventID" using parts by auto
qed

section \<open>Activity rows\<close>

definition activityCells :: "UsageActivityStat list \<Rightarrow> (activityKey \<times> Counts) list" where
  "activityCells rows = map (\<lambda>r. (as_key r, as_counts r)) rows"

text \<open>The keys to which an event contributes when it is aggregated at time \<open>now\<close>.\<close>

definition grainKey :: "Location \<Rightarrow> UsageEvent \<Rightarrow> UsageActivityGrain \<Rightarrow> activityKey list" where
  "grainKey loc e grain =
     (case BucketForTimestamp loc grain (Timestamp e) of
        Some (Inr bucket) \<Rightarrow>
          [\<lparr>a_Grain = grain, a_BucketStart = b_Start bucket, a_APIGroupKey = NormalizeAPIGroupKey (APIGroupKey e)\<rparr>]
      | _ \<Rightarrow> [])"

definition activityKeys :: "Location \<Rightarrow> gotime \<Rightarrow> UsageActivityGrain list \<Rightarrow> UsageEvent \<Rightarrow> activityKey list" where
  "activityKeys loc now grains e = concat (map (grainKey loc e) (filter (\<lambda>g. \<not> expired now g e) grains))"

definition bucketEnd :: "Location \<Rightarrow> activityKey \<Rightarrow> gotime" where
  "bucketEnd loc k = (case BucketForTimestamp loc (a_Grain k) (a_BucketStart k) of Some (Inr b) \<Rightarrow> b_End b | _ \<Rightarrow> 0)"

definition slotOf :: "Location \<Rightarrow> activityKey \<Rightarrow> activityKey \<times> gotime" where
  "slotOf loc k = (k, bucketEnd loc k)"

definition covered :: "UsageEvent \<Rightarrow> bool" where
  "covered e \<longleftrightarrow> \<bar>t_unix (Timestamp e)\<bar> \<le> 4503599627370496"

lemma map_of_slots: "map_of (map (\<lambda>k. (k, bucketEnd loc k)) ks) key = (if key \<in> set ks then Some (bucketEnd loc key) else None)"
  by (induction ks) auto

lemma activityGrains_addAll:
  assumes reg: "regular loc" and cov: "covered e" and "set grains \<subseteq> set allGrains" and "map fst rows = map (slotOf loc) ks"
  shows "activityGrains loc now e grains rows =
           Some (Inr (addAll addActivity (map (\<lambda>k. (slotOf loc k, e)) (activityKeys loc now grains e)) rows)) \<and>
         (\<exists>ks'. map fst (addAll addActivity (map (\<lambda>k. (slotOf loc k, e)) (activityKeys loc now grains e)) rows) = map (slotOf loc) ks')"
  using assms(3,4)
proof (induction grains arbitrary: rows ks)
  case Nil
  then show ?case by (auto simp: activityKeys_def)
next
  case (Cons g gs)
  show ?case
  proof (cases "expired now g e")
    case True
    then show ?thesis using Cons by (simp add: activityKeys_def)
  next
    case False
    obtain b where b: "BucketForTimestamp loc g (Timestamp e) = Some (Inr b)" "BucketForTimestamp loc g (b_Start b) = Some (Inr b)"
      using bucket_holds [OF reg, of "Timestamp e" g] cov Cons.prems(1) unfolding covered_def
      by (metis insert_subset le_less_trans list.simps(15) order_refl)
    define k where "k = \<lparr>a_Grain = g, a_BucketStart = b_Start b, a_APIGroupKey = NormalizeAPIGroupKey (APIGroupKey e)\<rparr>"
    have k_end: "bucketEnd loc k = b_End b" using b by (simp add: bucketEnd_def k_def)
    have slot: "(case map_of (map fst rows) k of None \<Rightarrow> (k, b_End b) | Some end \<Rightarrow> (k, end)) = slotOf loc k"
    proof -
      have "map fst rows = map (\<lambda>k. (k, bucketEnd loc k)) ks" using Cons.prems(2) by (simp add: slotOf_def)
      then have "map_of (map fst rows) k = (if k \<in> set ks then Some (bucketEnd loc k) else None)"
        by (simp only: map_of_slots)
      then show ?thesis using k_end by (simp add: slotOf_def)
    qed
    let ?rows = "addToKey (\<lambda>row. addActivity row e) (slotOf loc k) rows"
    have "\<exists>ks'. map fst ?rows = map (slotOf loc) ks'"
    proof -
      have "fst ` set rows = slotOf loc ` set ks" using Cons.prems(2) by (metis list.set_map)
      then have "set (map fst ?rows) = insert (slotOf loc k) (slotOf loc ` set ks)" by (simp add: addToKey_keys)
      then have "\<forall>x \<in> set (map fst ?rows). \<exists>k. x = slotOf loc k" by blast
      then show ?thesis by (simp only: ex_map_conv)
    qed
    then obtain ks' where "map fst ?rows = map (slotOf loc) ks'" by blast
    then have IH: "activityGrains loc now e gs ?rows =
           Some (Inr (addAll addActivity (map (\<lambda>k. (slotOf loc k, e)) (activityKeys loc now gs e)) ?rows)) \<and>
         (\<exists>ks'. map fst (addAll addActivity (map (\<lambda>k. (slotOf loc k, e)) (activityKeys loc now gs e)) ?rows) = map (slotOf loc) ks')"
      using Cons.IH Cons.prems(1) by simp
    have keys: "activityKeys loc now (g # gs) e = k # activityKeys loc now gs e"
      using False b(1) by (simp add: activityKeys_def grainKey_def k_def)
    have "activityGrains loc now e (g # gs) rows = activityGrains loc now e gs ?rows"
      using False b(1) slot by (simp add: Let_def flip: k_def)
    then show ?thesis using IH unfolding keys by simp
  qed
qed

definition activityPairs :: "Location \<Rightarrow> gotime \<Rightarrow> UsageEvent list \<Rightarrow> (activityKey \<times> UsageEvent) list" where
  "activityPairs loc now es = concat (map (\<lambda>e. map (\<lambda>k. (k, e)) (activityKeys loc now allGrains e)) es)"

lemma activityLoop_addAll:
  assumes "regular loc" "\<forall>e \<in> set es. covered e" "map fst rows = map (slotOf loc) ks"
  shows "\<exists>rows' ks'. activityLoop loc now es rows = Some (Inr rows') \<and> map fst rows' = map (slotOf loc) ks' \<and>
           rows' = addAll addActivity (map (\<lambda>(k, e). (slotOf loc k, e)) (activityPairs loc now es)) rows"
  using assms(2,3)
proof (induction es arbitrary: rows ks)
  case (Cons e es)
  let ?rows = "addAll addActivity (map (\<lambda>k. (slotOf loc k, e)) (activityKeys loc now allGrains e)) rows"
  obtain ks' where "activityGrains loc now e allGrains rows = Some (Inr ?rows)" "map fst ?rows = map (slotOf loc) ks'"
    using activityGrains_addAll [OF assms(1), of e allGrains rows ks now] Cons.prems by auto
  with Cons.IH [of ?rows ks'] Cons.prems(1) show ?case by (auto simp: activityPairs_def comp_def)
qed (auto simp: activityPairs_def)

lemma keyTotal_rename:
  "(\<And>x. x \<in> set rows \<Longrightarrow> f (fst x) = k \<longleftrightarrow> fst x = k') \<Longrightarrow> keyTotal (map (\<lambda>x. (f (fst x), snd x)) rows) k = keyTotal rows k'"
  by (induction rows) auto

lemma contributed_rename: "inj f \<Longrightarrow> contributed cnt (map (\<lambda>(k, e). (f k, e)) ps) (f k) = contributed cnt ps k"
  by (induction ps) (auto simp: inj_eq)

lemma activityCells_sort: "mset (activityCells (sortSlice lt (map activityRow al))) = mset (map (\<lambda>x. (fst (fst x), snd x)) al)"
  by (simp add: activityCells_def multiset.map_comp comp_def activityRow_def)

text \<open>A countable page is countable without the two columns that activity lacks.\<close>

lemma countable_activity:
  assumes "countable_events eventCounts es"
  shows "countable_events activityCounts es"
proof -
  have "sum_list (map activityCounts es) =
        (let c = sum_list (map eventCounts es) in
         Counts 0 (SuccessCount c) (FailureCount c) (c_InputTokens c) (c_OutputTokens c) (c_ReasoningTokens c) 0
           (c_CacheReadTokens c) (c_CacheCreationTokens c) (c_TotalTokens c))"
    by (induction es) (simp_all add: zero_Counts_def plus_Counts_def activityCounts_def eventCounts_def Let_def)
  moreover have "nonneg (eventCounts e) \<Longrightarrow> nonneg (activityCounts e)" for e
    by (simp add: nonneg_def eventCounts_def activityCounts_def)
  ultimately show ?thesis
    using assms by (auto simp: countable_events_def fits_def nonneg_def Let_def MaxInt64_def)
qed

lemma grainKey_grain: "k \<in> set (grainKey loc e g) \<Longrightarrow> a_Grain k = g"
  by (auto simp: grainKey_def split: option.splits sum.splits)

lemma grainKeys_distinct: "distinct grains \<Longrightarrow> distinct (concat (map (grainKey loc e) grains))"
proof (induction grains)
  case (Cons g grains)
  have "distinct (grainKey loc e g)" by (auto simp: grainKey_def split: option.splits sum.splits)
  moreover have "set (grainKey loc e g) \<inter> set (concat (map (grainKey loc e) grains)) = {}"
    using grainKey_grain Cons.prems by (auto dest!: grainKey_grain)
  ultimately show ?case using Cons by (simp only: list.map concat.simps distinct_append distinct.simps)
qed simp

lemma activityKeys_distinct: "distinct (activityKeys loc now allGrains e)"
  unfolding activityKeys_def by (rule grainKeys_distinct) (simp add: allGrains_def grain_defs)

lemma contributed_once:
  "distinct ks \<Longrightarrow> contributed cnt (map (\<lambda>k. (k, e)) ks) k = (if k \<in> set ks then cnt e else 0)"
  by (induction ks) auto

lemma contributed_activity:
  "contributed activityCounts (activityPairs loc now es) k =
     eventSum activityCounts (\<lambda>e. k \<in> set (activityKeys loc now allGrains e)) es"
proof (induction es)
  case (Cons e es)
  have "activityPairs loc now (e # es) = map (\<lambda>k. (k, e)) (activityKeys loc now allGrains e) @ activityPairs loc now es"
    by (simp add: activityPairs_def)
  then show ?case
    using Cons by (simp only: contributed_simps contributed_once [OF activityKeys_distinct]) (simp add: eventSum_def)
qed (simp add: activityPairs_def)

text \<open>
  \<open>activity.BuildRows\<close> is exact: it returns, and for every key its rows hold the sums of the
  counters of the page's events that contribute to the key, with one row per key and the end of
  the bucket beside it.
\<close>

lemma activity_BuildRows_exact:
  assumes reg: "regular loc" and cov: "\<forall>e \<in> set es. covered e" and cnt: "countable_events eventCounts es"
  obtains rows where "activity_BuildRows loc es now = Some (Inr rows)"
    "\<And>k. keyTotal (activityCells rows) k = eventSum activityCounts (\<lambda>e. k \<in> set (activityKeys loc now allGrains e)) es"
    "distinct (map as_key rows)" "\<And>r. r \<in> set rows \<Longrightarrow> as_BucketEnd r = bucketEnd loc (as_key r)"
proof -
  let ?ps = "map (\<lambda>(k, e). (slotOf loc k, e)) (activityPairs loc now es)"
  obtain al ks where al: "activityLoop loc now es [] = Some (Inr al)" "map fst al = map (slotOf loc) ks"
    "al = addAll addActivity ?ps []"
    using activityLoop_addAll [OF reg cov, of "[]" "[]" now] by auto
  have inj: "inj (slotOf loc)" by (auto simp: slotOf_def inj_def)
  have slots: "fst x = slotOf loc (fst (fst x))" if "x \<in> set al" for x
  proof -
    have "fst x \<in> set (map (slotOf loc) ks)" using that al(2) by (metis image_eqI list.set_map)
    then show ?thesis by (auto simp: slotOf_def)
  qed
  have "keyTotal al (slotOf loc k) = contributed activityCounts (activityPairs loc now es) k" for k
  proof -
    have cf: "fits (contributed activityCounts (activityPairs loc now es) k)" for k
      unfolding contributed_activity by (rule countable_fits [OF countable_activity [OF cnt]])
    have "fits (keyTotal [] s + contributed activityCounts ?ps s)" for s
    proof (cases "\<exists>k. s = slotOf loc k")
      case True
      then show ?thesis using cf by (auto simp: contributed_rename [OF inj])
    next
      case False
      then have "filter (\<lambda>p. fst p = s) ?ps = []" by (auto simp: filter_empty_conv)
      then have "contributed activityCounts ?ps s = 0" by (simp only: contributed_def) simp
      then show ?thesis by simp
    qed
    moreover have "\<forall>p \<in> set ?ps. nonneg (activityCounts (snd p))"
      using countable_activity [OF cnt] by (auto simp: activityPairs_def countable_events_def)
    ultimately have "keyTotal al (slotOf loc k) = keyTotal [] (slotOf loc k) + contributed activityCounts ?ps (slotOf loc k)"
      unfolding al(3) by (intro addAll_total) (auto simp: addActivity_exact)
    then show ?thesis by (simp add: contributed_rename [OF inj])
  qed
  moreover have "keyTotal (map (\<lambda>x. (fst (fst x), snd x)) al) k = keyTotal al (slotOf loc k)" for k
    by (rule keyTotal_rename) (metis slots slotOf_def fst_conv)
  ultimately have total: "keyTotal (activityCells (sortSlice activityLess (map activityRow al))) k =
      eventSum activityCounts (\<lambda>e. k \<in> set (activityKeys loc now allGrains e)) es" for k
    using keyTotal_mset [OF activityCells_sort] by (simp add: contributed_activity)
  have "distinct (map fst al)" unfolding al(3) by (rule addAll_distinct) simp
  then have "distinct ks" using al(2) by (metis distinct_map)
  moreover have "map (\<lambda>x. fst (fst x)) al = ks"
    using al(2) by (metis (no_types, lifting) map_map comp_def map_idI map_cong fst_conv slotOf_def)
  ultimately have "distinct (map as_key (map activityRow al))" by (simp add: activityRow_def comp_def)
  then have "distinct (map as_key (sortSlice activityLess (map activityRow al)))"
    by (metis mset_eq_imp_distinct_iff mset_map mset_sortSlice)
  moreover have "as_BucketEnd r = bucketEnd loc (as_key r)" if "r \<in> set (sortSlice activityLess (map activityRow al))" for r
  proof -
    have "r \<in> activityRow ` set al" using that by (simp only: set_sortSlice list.set_map)
    then obtain x where x: "x \<in> set al" "r = activityRow x" by (rule imageE)
    then show ?thesis using slots [OF x(1)] by (simp add: activityRow_def slotOf_def) (metis snd_conv)
  qed
  ultimately show ?thesis using that total al(1) by (simp add: activity_BuildRows_def)
qed

end
