(* ===== verification/Latency_Rows.thy ===== *)
theory Latency_Rows
  imports Latency_Sketch Latency_Samples Rollup_Rows
begin

text \<open>
  The latency rollup between events and rows: \<^verbatim>\<open>internal/latency/aggregate.go\<close> builds hour and
  day rows from a page of events, \<^verbatim>\<open>internal/repository/latencystore/store.go\<close> decodes, merges and
  queries rows. A row holds two encoded sketches and an encoded sample set. The bucket function of
  the sketches is the parameter \<open>bucket\<close>, as in \<open>Latency_Sketch\<close>.
\<close>

section \<open>aggregate.go\<close>

definition UsageLatencyBucketHour :: string where "UsageLatencyBucketHour = ''hour''"
definition UsageLatencyBucketDay :: string where "UsageLatencyBucketDay = ''day''"

record latencyKey =
  lk_BucketType :: string
  lk_BucketStart :: gotime
  lk_APIGroupKey :: string

record UsageLatencyStat =
  ls_ID :: int
  ls_key :: latencyKey
  ls_SampleCount :: int
  ls_MaxTTFTMS :: int
  ls_MaxLatencyMS :: int
  ls_FormatVersion :: int
  ls_TTFTSketch :: bytes
  ls_LatencySketch :: bytes
  ls_SamplePoints :: bytes
  ls_CreatedAt :: gotime
  ls_UpdatedAt :: gotime

datatype latencyRowError =
    RetentionTimeZero
  | UnsupportedBucketType string
  | BuildFailed int latencyError
  | EncodeFailed string latencyError
  | UnsupportedFormatVersion int
  | InvalidLatencyCounters
  | DecodeFailed string latencyError
  | PayloadCountMismatch int
  | SampleCountOverflow
  | PayloadMergeFailed latencyError
  | DuplicateRowKey latencyKey
  | RowFailed string latencyKey latencyRowError
  | DiagnosticsRowFailed nat latencyRowError
  | MergedCountMismatch int
  | TooManySamplePoints latencyKey nat

definition HourRetentionDays :: int where "HourRetentionDays = 3"
definition DayRetentionDays :: int where "DayRetentionDays = 365"

definition localHourStart :: "Location \<Rightarrow> gotime \<Rightarrow> gotime" where
  "localHourStart loc t =
     t - (localClock loc t div 60 mod 60) * Minute - (localClock loc t mod 60) * Second - t_nsec t"

definition RetentionBucketStartCutoff :: "Location \<Rightarrow> string \<Rightarrow> gotime \<Rightarrow> latencyRowError + gotime" where
  "RetentionBucketStartCutoff loc bucketType now =
     (if now = zero_time then Inl RetentionTimeZero
      else if bucketType = UsageLatencyBucketHour
      then Inr (localHourStart loc (t_add now (- (HourRetentionDays * 24 * Hour))))
      else if bucketType = UsageLatencyBucketDay
      then Inr (AddDays loc (dayStart loc now) (- (DayRetentionDays - 1)))
      else Inl (UnsupportedBucketType bucketType))"

record aggregateRowBuilder =
  rb_SampleCount :: int
  rb_MaxTTFTMS :: int
  rb_MaxLatencyMS :: int
  rb_TTFTSketch :: Sketch
  rb_LatencySketch :: Sketch
  rb_SamplePoints :: SampleSet

definition newBuilder :: aggregateRowBuilder where
  "newBuilder = \<lparr>rb_SampleCount = 0, rb_MaxTTFTMS = 0, rb_MaxLatencyMS = 0, rb_TTFTSketch = NewSketch,
                 rb_LatencySketch = NewSketch, rb_SamplePoints = NewSampleSet\<rparr>"

definition builder_add ::
  "(int \<Rightarrow> int) \<Rightarrow> aggregateRowBuilder \<Rightarrow> int \<Rightarrow> int \<Rightarrow> int \<Rightarrow> latencyError + aggregateRowBuilder" where
  "builder_add bucket b eventID ttftMS latencyMS =
     (case sketch_Add bucket (Some (rb_TTFTSketch b)) ttftMS of
        Inl e \<Rightarrow> Inl e
      | Inr ttft \<Rightarrow>
          (case sketch_Add bucket (Some (rb_LatencySketch b)) latencyMS of
             Inl e \<Rightarrow> Inl e
           | Inr lat \<Rightarrow>
               (case sampleSet_Add (Some (rb_SamplePoints b)) eventID ttftMS latencyMS of
                  Inl e \<Rightarrow> Inl e
                | Inr points \<Rightarrow>
                    Inr \<lparr>rb_SampleCount = i64 (rb_SampleCount b + 1),
                         rb_MaxTTFTMS = (if ttftMS > rb_MaxTTFTMS b then ttftMS else rb_MaxTTFTMS b),
                         rb_MaxLatencyMS = (if latencyMS > rb_MaxLatencyMS b then latencyMS else rb_MaxLatencyMS b),
                         rb_TTFTSketch = ttft, rb_LatencySketch = lat, rb_SamplePoints = points\<rparr>)))"

text \<open>The sample of an event: its time to first token, when it is a successful generation with positive times.\<close>

definition latencySample :: "UsageEvent \<Rightarrow> int option" where
  "latencySample e =
     (if ev_Failed e \<or> Generate e \<noteq> Some True then None
      else case UsageEvent.TTFTMS e of
             None \<Rightarrow> None
           | Some ttft \<Rightarrow> if ttft \<le> 0 \<or> UsageEvent.LatencyMS e \<le> 0 then None else Some ttft)"

definition latencyKeys :: "Location \<Rightarrow> UsageEvent \<Rightarrow> latencyKey list" where
  "latencyKeys loc e =
     (let group = NormalizeAPIGroupKey (APIGroupKey e) in
      [\<lparr>lk_BucketType = UsageLatencyBucketHour, lk_BucketStart = localHourStart loc (Timestamp e), lk_APIGroupKey = group\<rparr>,
       \<lparr>lk_BucketType = UsageLatencyBucketDay, lk_BucketStart = dayStart loc (Timestamp e), lk_APIGroupKey = group\<rparr>])"

definition pastCutoff :: "gotime \<Rightarrow> gotime \<Rightarrow> latencyKey \<Rightarrow> bool" where
  "pastCutoff hourCutoff dayCutoff key \<longleftrightarrow>
     lk_BucketType key = UsageLatencyBucketHour \<and> lk_BucketStart key < hourCutoff \<or>
     lk_BucketType key = UsageLatencyBucketDay \<and> lk_BucketStart key < dayCutoff"

text \<open>The contributions of a page, in the order of the loops: key, event id, time to first token, latency.\<close>

fun latencyKeyLoop ::
  "(int \<Rightarrow> int) \<Rightarrow> gotime \<Rightarrow> gotime \<Rightarrow> UsageEvent \<Rightarrow> int \<Rightarrow> latencyKey list \<Rightarrow> (latencyKey \<times> aggregateRowBuilder) list
   \<Rightarrow> latencyRowError + (latencyKey \<times> aggregateRowBuilder) list" where
  "latencyKeyLoop bucket hourCutoff dayCutoff e ttft [] builders = Inr builders"
| "latencyKeyLoop bucket hourCutoff dayCutoff e ttft (key # keys) builders =
     (if pastCutoff hourCutoff dayCutoff key then latencyKeyLoop bucket hourCutoff dayCutoff e ttft keys builders
      else
        (let b = (case map_of builders key of None \<Rightarrow> newBuilder | Some b \<Rightarrow> b) in
         case builder_add bucket b (ev_ID e) ttft (UsageEvent.LatencyMS e) of
           Inl err \<Rightarrow> Inl (BuildFailed (ev_ID e) err)
         | Inr b' \<Rightarrow> latencyKeyLoop bucket hourCutoff dayCutoff e ttft keys (AList.update key b' builders)))"

fun latencyEventLoop ::
  "Location \<Rightarrow> (int \<Rightarrow> int) \<Rightarrow> gotime \<Rightarrow> gotime \<Rightarrow> UsageEvent list \<Rightarrow> (latencyKey \<times> aggregateRowBuilder) list
   \<Rightarrow> latencyRowError + (latencyKey \<times> aggregateRowBuilder) list" where
  "latencyEventLoop loc bucket hourCutoff dayCutoff [] builders = Inr builders"
| "latencyEventLoop loc bucket hourCutoff dayCutoff (e # es) builders =
     (case latencySample e of
        None \<Rightarrow> latencyEventLoop loc bucket hourCutoff dayCutoff es builders
      | Some ttft \<Rightarrow>
          (case latencyKeyLoop bucket hourCutoff dayCutoff e ttft (latencyKeys loc e) builders of
             Inl err \<Rightarrow> Inl err
           | Inr builders' \<Rightarrow> latencyEventLoop loc bucket hourCutoff dayCutoff es builders'))"

definition encodeBuilder :: "latencyKey \<Rightarrow> aggregateRowBuilder \<Rightarrow> latencyRowError + UsageLatencyStat" where
  "encodeBuilder key b =
     (case sketch_MarshalBinary (Some (rb_TTFTSketch b)) of
        Inl e \<Rightarrow> Inl (EncodeFailed ''encode TTFT sketch'' e)
      | Inr ttft \<Rightarrow>
          (case sketch_MarshalBinary (Some (rb_LatencySketch b)) of
             Inl e \<Rightarrow> Inl (EncodeFailed ''encode latency sketch'' e)
           | Inr lat \<Rightarrow>
               (case sampleSet_MarshalBinary (Some (rb_SamplePoints b)) of
                  Inl e \<Rightarrow> Inl (EncodeFailed ''encode latency sample points'' e)
                | Inr points \<Rightarrow>
                    Inr \<lparr>ls_ID = 0, ls_key = key, ls_SampleCount = rb_SampleCount b, ls_MaxTTFTMS = rb_MaxTTFTMS b,
                         ls_MaxLatencyMS = rb_MaxLatencyMS b, ls_FormatVersion = uint FormatVersion,
                         ls_TTFTSketch = ttft, ls_LatencySketch = lat, ls_SamplePoints = points,
                         ls_CreatedAt = zero_time, ls_UpdatedAt = zero_time\<rparr>)))"

fun encodeRows :: "(latencyKey \<times> aggregateRowBuilder) list \<Rightarrow> latencyRowError + UsageLatencyStat list" where
  "encodeRows [] = Inr []"
| "encodeRows ((key, b) # rest) =
     (case encodeBuilder key b of
        Inl e \<Rightarrow> Inl e
      | Inr row \<Rightarrow> (case encodeRows rest of Inl e \<Rightarrow> Inl e | Inr rows \<Rightarrow> Inr (row # rows)))"

definition latencyLess :: "UsageLatencyStat \<Rightarrow> UsageLatencyStat \<Rightarrow> bool" where
  "latencyLess l r =
     (let a = ls_key l; b = ls_key r in
      if lk_BucketType a \<noteq> lk_BucketType b then lk_BucketType a < lk_BucketType b
      else if lk_BucketStart a \<noteq> lk_BucketStart b then lk_BucketStart a < lk_BucketStart b
      else lk_APIGroupKey a < lk_APIGroupKey b)"

definition latency_BuildRows ::
  "Location \<Rightarrow> (int \<Rightarrow> int) \<Rightarrow> UsageEvent list \<Rightarrow> gotime \<Rightarrow> latencyRowError + UsageLatencyStat list" where
  "latency_BuildRows loc bucket events now =
     (case RetentionBucketStartCutoff loc UsageLatencyBucketHour now of
        Inl e \<Rightarrow> Inl e
      | Inr hourCutoff \<Rightarrow>
          (case RetentionBucketStartCutoff loc UsageLatencyBucketDay now of
             Inl e \<Rightarrow> Inl e
           | Inr dayCutoff \<Rightarrow>
               (case latencyEventLoop loc bucket hourCutoff dayCutoff events [] of
                  Inl e \<Rightarrow> Inl e
                | Inr builders \<Rightarrow>
                    (case encodeRows builders of
                       Inl e \<Rightarrow> Inl e
                     | Inr rows \<Rightarrow> Inr (sortSlice latencyLess rows)))))"

section \<open>latencystore/store.go\<close>

record decodedRow =
  d_TTFTSketch :: Sketch
  d_LatencySketch :: Sketch
  d_SamplePoints :: SampleSet

definition decodeLatencyRow :: "UsageLatencyStat \<Rightarrow> latencyRowError + decodedRow" where
  "decodeLatencyRow row =
     (if ls_FormatVersion row \<noteq> uint FormatVersion then Inl (UnsupportedFormatVersion (ls_FormatVersion row))
      else if ls_SampleCount row < 0 \<or> ls_MaxTTFTMS row \<le> 0 \<or> ls_MaxLatencyMS row \<le> 0 then Inl InvalidLatencyCounters
      else
        (case UnmarshalSketch (ls_TTFTSketch row) of
           Inl e \<Rightarrow> Inl (DecodeFailed ''decode TTFT sketch'' e)
         | Inr ttft \<Rightarrow>
             (case UnmarshalSketch (ls_LatencySketch row) of
                Inl e \<Rightarrow> Inl (DecodeFailed ''decode latency sketch'' e)
              | Inr lat \<Rightarrow>
                  (case UnmarshalSampleSet (ls_SamplePoints row) of
                     Inl e \<Rightarrow> Inl (DecodeFailed ''decode sample points'' e)
                   | Inr points \<Rightarrow>
                       if sketch_Count (Some ttft) \<noteq> uint64_of_int64 (ls_SampleCount row) \<or>
                          sketch_Count (Some lat) \<noteq> uint64_of_int64 (ls_SampleCount row) \<or>
                          int (sampleSet_Count (Some points)) > ls_SampleCount row
                       then Inl (PayloadCountMismatch (ls_SampleCount row))
                       else Inr \<lparr>d_TTFTSketch = ttft, d_LatencySketch = lat, d_SamplePoints = points\<rparr>))))"

text \<open>\<open>existing\<close> is \<open>None\<close> for \<open>hasExisting = false\<close>.\<close>

definition mergeLatencyRows ::
  "UsageLatencyStat option \<Rightarrow> UsageLatencyStat \<Rightarrow> gotime \<Rightarrow> latencyRowError + UsageLatencyStat" where
  "mergeLatencyRows existing incoming now =
     (case decodeLatencyRow incoming of
        Inl e \<Rightarrow> Inl e
      | Inr new \<Rightarrow>
          (case existing of
             None \<Rightarrow> Inr (incoming\<lparr>ls_CreatedAt := now, ls_UpdatedAt := now\<rparr>)
           | Some old \<Rightarrow>
               (case decodeLatencyRow old of
                  Inl e \<Rightarrow> Inl e
                | Inr was \<Rightarrow>
                    if ls_SampleCount old > MaxInt64 - ls_SampleCount incoming then Inl SampleCountOverflow
                    else
                      (case sketch_Merge (Some (d_TTFTSketch was)) (Some (d_TTFTSketch new)) of
                         (_, Some e) \<Rightarrow> Inl (PayloadMergeFailed e)
                       | (ttft, None) \<Rightarrow>
                      (case sketch_Merge (Some (d_LatencySketch was)) (Some (d_LatencySketch new)) of
                         (_, Some e) \<Rightarrow> Inl (PayloadMergeFailed e)
                       | (lat, None) \<Rightarrow>
                      (case sampleSet_Merge (Some (d_SamplePoints was)) (Some (d_SamplePoints new)) of
                         (_, Some e) \<Rightarrow> Inl (PayloadMergeFailed e)
                       | (points, None) \<Rightarrow>
                      (case sketch_MarshalBinary ttft of
                         Inl e \<Rightarrow> Inl (PayloadMergeFailed e)
                       | Inr ttftBytes \<Rightarrow>
                      (case sketch_MarshalBinary lat of
                         Inl e \<Rightarrow> Inl (PayloadMergeFailed e)
                       | Inr latBytes \<Rightarrow>
                      (case sampleSet_MarshalBinary points of
                         Inl e \<Rightarrow> Inl (PayloadMergeFailed e)
                       | Inr sampleBytes \<Rightarrow>
                           Inr (old\<lparr>ls_SampleCount := ls_SampleCount old + ls_SampleCount incoming,
                                    ls_MaxTTFTMS := max (ls_MaxTTFTMS old) (ls_MaxTTFTMS incoming),
                                    ls_MaxLatencyMS := max (ls_MaxLatencyMS old) (ls_MaxLatencyMS incoming),
                                    ls_FormatVersion := uint FormatVersion, ls_TTFTSketch := ttftBytes,
                                    ls_LatencySketch := latBytes, ls_SamplePoints := sampleBytes,
                                    ls_UpdatedAt := now\<rparr>))))))))))"

record DiagnosticsAggregate =
  da_SampleCount :: int
  da_MaxTTFTMS :: int
  da_MaxLatencyMS :: int
  da_TTFTSketch :: "Sketch option"
  da_LatencySketch :: "Sketch option"
  da_SamplePoints :: "SampleSet option"

text \<open>The three mergers of a query.\<close>

type_synonym mergers = "QuerySampleMerger \<times> QuerySketchMerger \<times> QuerySketchMerger"

definition decodeQueryLatencyRow :: "UsageLatencyStat \<Rightarrow> mergers \<Rightarrow> mergers \<times> latencyRowError option" where
  "decodeQueryLatencyRow row ms =
     (case ms of (samples, ttft, lat) \<Rightarrow>
        if ls_FormatVersion row \<noteq> uint FormatVersion
        then (ms, Some (UnsupportedFormatVersion (ls_FormatVersion row)))
        else if ls_SampleCount row < 0 \<or> ls_MaxTTFTMS row \<le> 0 \<or> ls_MaxLatencyMS row \<le> 0
        then (ms, Some InvalidLatencyCounters)
        else
          (case querySketch_MergeBinary ttft (ls_TTFTSketch row) of
             (ttft', Inl e) \<Rightarrow> ((samples, ttft', lat), Some (DecodeFailed ''decode TTFT sketch'' e))
           | (ttft', Inr ttftCount) \<Rightarrow>
               (case querySketch_MergeBinary lat (ls_LatencySketch row) of
                  (lat', Inl e) \<Rightarrow> ((samples, ttft', lat'), Some (DecodeFailed ''decode latency sketch'' e))
                | (lat', Inr latencyCount) \<Rightarrow>
                    (case querySample_MergeBinary samples (ls_SamplePoints row) of
                       (samples', Inl e) \<Rightarrow> ((samples', ttft', lat'), Some (DecodeFailed ''decode sample points'' e))
                     | (samples', Inr cnt) \<Rightarrow>
                         ((samples', ttft', lat'),
                          if ttftCount \<noteq> uint64_of_int64 (ls_SampleCount row) \<or>
                             latencyCount \<noteq> uint64_of_int64 (ls_SampleCount row) \<or> int cnt > ls_SampleCount row
                          then Some (PayloadCountMismatch (ls_SampleCount row)) else None)))))"

fun diagnosticsLoop ::
  "nat \<Rightarrow> UsageLatencyStat list \<Rightarrow> mergers \<Rightarrow> int \<times> int \<times> int \<Rightarrow> latencyRowError + mergers \<times> int \<times> int \<times> int" where
  "diagnosticsLoop index [] ms acc = Inr (ms, acc)"
| "diagnosticsLoop index (row # rows) ms acc =
     (case decodeQueryLatencyRow row ms of
        (_, Some e) \<Rightarrow> Inl (DiagnosticsRowFailed index e)
      | (ms', None) \<Rightarrow>
          (case acc of (cnt, maxTTFT, maxLatency) \<Rightarrow>
             if cnt > MaxInt64 - ls_SampleCount row then Inl SampleCountOverflow
             else diagnosticsLoop (Suc index) rows ms'
                    (cnt + ls_SampleCount row, max maxTTFT (ls_MaxTTFTMS row), max maxLatency (ls_MaxLatencyMS row))))"

definition MergeDiagnosticsRows :: "UsageLatencyStat list \<Rightarrow> latencyRowError + DiagnosticsAggregate" where
  "MergeDiagnosticsRows rows =
     (case diagnosticsLoop 0 rows (NewQuerySampleMerger, NewQuerySketchMerger, NewQuerySketchMerger) (0, 0, 0) of
        Inl e \<Rightarrow> Inl e
      | Inr ((samples, ttft, lat), cnt, maxTTFT, maxLatency) \<Rightarrow>
          (let ttftSketch = fst (querySketch_TakeSketch ttft); latencySketch = fst (querySketch_TakeSketch lat) in
           if sketch_Count ttftSketch \<noteq> uint64_of_int64 cnt \<or> sketch_Count latencySketch \<noteq> uint64_of_int64 cnt
           then Inl (MergedCountMismatch cnt)
           else Inr \<lparr>da_SampleCount = cnt, da_MaxTTFTMS = maxTTFT, da_MaxLatencyMS = maxLatency,
                     da_TTFTSketch = ttftSketch, da_LatencySketch = latencySketch,
                     da_SamplePoints = fst (querySample_TakeSamples samples)\<rparr>))"

end
