(* ===== verification/Rollup_Store.thy ===== *)
theory Rollup_Store
  imports Latency_Rows Usage_Sync
begin

text \<open>
  The database half of the rollups: the checkpoints
  (\<^verbatim>\<open>internal/repository/usage_aggregation_checkpoint.go\<close>), the event pages
  (\<^verbatim>\<open>usage_aggregation_page.go\<close>), the tables of overview, activity and latency rows
  (\<^verbatim>\<open>overviewstore\<close>, \<^verbatim>\<open>activitystore\<close>, \<^verbatim>\<open>latencystore\<close>) and the page transactions of
  \<^verbatim>\<open>usage_overview_stats.go\<close>, \<^verbatim>\<open>usage_activity_stats.go\<close> and \<^verbatim>\<open>usage_latency_stats.go\<close>.

  The database extends the one of \<open>Usage_Inbox\<close>, whose list of faults decides which statements
  fail. Bucket times are compared by their stored text, which is a function of the instant, so the
  model compares instants. SQLite adds integers exactly while the sum is an \<open>int64\<close>.
\<close>

section \<open>The tables\<close>

record UsageAggregationCheckpoint =
  cp_Name :: string
  cp_Cursor :: int
  cp_StatsUpdatedAt :: "gotime option"
  cp_CreatedAt :: gotime
  cp_UpdatedAt :: gotime

definition UsageAggregationCheckpointOverview :: string where "UsageAggregationCheckpointOverview = ''overview''"
definition UsageAggregationCheckpointActivity :: string where "UsageAggregationCheckpointActivity = ''activity''"
definition UsageAggregationCheckpointLatency :: string where "UsageAggregationCheckpointLatency = ''latency''"

lemmas checkpoint_names = UsageAggregationCheckpointOverview_def UsageAggregationCheckpointActivity_def
  UsageAggregationCheckpointLatency_def

record rollup_db =
  sync_db :: db
  checkpoints :: "UsageAggregationCheckpoint list"
  overview_hourly :: "UsageOverviewStat list"
  overview_daily :: "UsageOverviewStat list"
  activity_stats :: "UsageActivityStat list"
  latency_stats :: "UsageLatencyStat list"
  next_row :: int

datatype rollupError =
    DbFailed string string
  | UnsupportedCheckpoint string
  | InvalidAdvance string int int
  | CheckpointConflict string int
  | InvalidBounds int int
  | InvalidLimit
  | InsertRetryFailed string string "string option"
  | LatencyUpdateMissed int nat
  | LatencyRow latencyRowError
  | ActivityBuild activityError
  | EmptyPage string int int
  | Joined "rollupError list"

text \<open>A statement: the next fault makes it fail without an effect; it may also violate a constraint.\<close>

definition exec :: "(rollup_db \<Rightarrow> rollup_db \<times> (string + 'r)) \<Rightarrow> rollup_db \<Rightarrow> rollup_db \<times> (string + 'r)" where
  "exec f s =
     (case query (\<lambda>_. ()) (sync_db s) of
        (t, Inl e) \<Rightarrow> (s\<lparr>sync_db := t\<rparr>, Inl e)
      | (t, Inr _) \<Rightarrow> f (s\<lparr>sync_db := t\<rparr>))"

definition select :: "(rollup_db \<Rightarrow> 'r) \<Rightarrow> rollup_db \<Rightarrow> rollup_db \<times> (string + 'r)" where
  "select f = exec (\<lambda>s. (s, Inr (f s)))"

definition restore :: "rollup_db \<Rightarrow> rollup_db \<Rightarrow> rollup_db" where
  "restore s s' = s\<lparr>sync_db := (sync_db s)\<lparr>faults := faults (sync_db s')\<rparr>\<rparr>"

definition atomically ::
  "(rollup_db \<Rightarrow> rollup_db \<times> rollupError option) \<Rightarrow> rollup_db \<Rightarrow> rollup_db \<times> rollupError option" where
  "atomically body s =
     (case body s of
        (s1, Some e) \<Rightarrow> (restore s s1, Some e)
      | (s1, None) \<Rightarrow>
          (case exec (\<lambda>t. (t, Inr ())) s1 of
             (s2, Inr _) \<Rightarrow> (s2, None)
           | (s2, Inl e) \<Rightarrow> (restore s s2, Some (DbFailed ''commit'' e))))"

section \<open>usage\_aggregation\_checkpoint.go\<close>

record UsageAggregationCheckpointSnapshot =
  OverviewCursor :: int
  ActivityCursor :: int
  LatencyCursor :: int

definition snapshot_Equal :: "UsageAggregationCheckpointSnapshot \<Rightarrow> bool" where
  "snapshot_Equal sn \<longleftrightarrow> OverviewCursor sn = ActivityCursor sn \<and> ActivityCursor sn = LatencyCursor sn"

definition cursorOf :: "UsageAggregationCheckpoint list \<Rightarrow> string \<Rightarrow> int" where
  "cursorOf cps name = (case find (\<lambda>cp. cp_Name cp = name) (rev cps) of None \<Rightarrow> 0 | Some cp \<Rightarrow> cp_Cursor cp)"

definition LoadUsageAggregationCheckpointSnapshot ::
  "rollup_db \<Rightarrow> rollup_db \<times> (rollupError + UsageAggregationCheckpointSnapshot)" where
  "LoadUsageAggregationCheckpointSnapshot s =
     (case select checkpoints s of
        (s', Inl e) \<Rightarrow> (s', Inl (DbFailed ''load usage aggregation checkpoints'' e))
      | (s', Inr cps) \<Rightarrow>
          (s', Inr \<lparr>OverviewCursor = cursorOf cps UsageAggregationCheckpointOverview,
                    ActivityCursor = cursorOf cps UsageAggregationCheckpointActivity,
                    LatencyCursor = cursorOf cps UsageAggregationCheckpointLatency\<rparr>))"

text \<open>\<open>INSERT ... ON CONFLICT DO NOTHING\<close> of a zero checkpoint, then the conditional \<open>UPDATE\<close>.\<close>

definition ensureCheckpoint :: "string \<Rightarrow> gotime \<Rightarrow> rollup_db \<Rightarrow> rollup_db \<times> (string + unit)" where
  "ensureCheckpoint name now =
     exec (\<lambda>s. (if name \<in> cp_Name ` set (checkpoints s) then s
                else s\<lparr>checkpoints := checkpoints s @ [\<lparr>cp_Name = name, cp_Cursor = 0, cp_StatsUpdatedAt = None,
                          cp_CreatedAt = now, cp_UpdatedAt = now\<rparr>]\<rparr>, Inr ()))"

definition advanceRow :: "string \<Rightarrow> int \<Rightarrow> int \<Rightarrow> gotime \<Rightarrow> UsageAggregationCheckpoint \<Rightarrow> UsageAggregationCheckpoint" where
  "advanceRow name expectedCursor nextCursor now cp =
     (if cp_Name cp = name \<and> cp_Cursor cp = expectedCursor
      then cp\<lparr>cp_Cursor := nextCursor, cp_StatsUpdatedAt := Some now, cp_UpdatedAt := now\<rparr> else cp)"

definition advanceCheckpoint ::
  "string \<Rightarrow> int \<Rightarrow> int \<Rightarrow> gotime \<Rightarrow> rollup_db \<Rightarrow> rollup_db \<times> (string + nat)" where
  "advanceCheckpoint name expectedCursor nextCursor now =
     exec (\<lambda>s. (s\<lparr>checkpoints := map (advanceRow name expectedCursor nextCursor now) (checkpoints s)\<rparr>,
                Inr (length (filter (\<lambda>cp. cp_Name cp = name \<and> cp_Cursor cp = expectedCursor) (checkpoints s)))))"

definition AdvanceUsageAggregationCheckpoint ::
  "string \<Rightarrow> int \<Rightarrow> int \<Rightarrow> gotime \<Rightarrow> rollup_db \<Rightarrow> rollup_db \<times> rollupError option" where
  "AdvanceUsageAggregationCheckpoint name expectedCursor nextCursor now s =
     (if name \<notin> {UsageAggregationCheckpointOverview, UsageAggregationCheckpointActivity, UsageAggregationCheckpointLatency}
      then (s, Some (UnsupportedCheckpoint name))
      else if expectedCursor < 0 \<or> nextCursor \<le> expectedCursor then (s, Some (InvalidAdvance name expectedCursor nextCursor))
      else
        (case ensureCheckpoint name now s of
           (s1, Inl e) \<Rightarrow> (s1, Some (DbFailed ''ensure usage aggregation checkpoint'' e))
         | (s1, Inr _) \<Rightarrow>
             (case advanceCheckpoint name expectedCursor nextCursor now s1 of
                (s2, Inl e) \<Rightarrow> (s2, Some (DbFailed ''advance usage aggregation checkpoint'' e))
              | (s2, Inr affected) \<Rightarrow>
                  if affected \<noteq> 1 then (s2, Some (CheckpointConflict name expectedCursor)) else (s2, None))))"

section \<open>usage\_aggregation\_page.go\<close>

definition usageAggregationEventPageLimit :: int where
  "usageAggregationEventPageLimit = 1000"

definition LoadUsageAggregationTargetEventID :: "rollup_db \<Rightarrow> rollup_db \<times> (rollupError + int)" where
  "LoadUsageAggregationTargetEventID s =
     (case select (\<lambda>s. let ids = map ev_ID (usage_events (sync_db s)) in if ids = [] then 0 else Max (set ids)) s of
        (s', Inl e) \<Rightarrow> (s', Inl (DbFailed ''load usage aggregation target event id'' e))
      | (s', Inr target) \<Rightarrow> (s', Inr target))"

text \<open>\<open>WHERE id > ? AND id <= ? ORDER BY id LIMIT ?\<close>.\<close>

definition pageOf :: "UsageEvent list \<Rightarrow> int \<Rightarrow> int \<Rightarrow> nat \<Rightarrow> UsageEvent list" where
  "pageOf evs afterID targetID n = take n (sort_key ev_ID (filter (\<lambda>e. afterID < ev_ID e \<and> ev_ID e \<le> targetID) evs))"

definition LoadUsageAggregationEventPage ::
  "int \<Rightarrow> int \<Rightarrow> int \<Rightarrow> rollup_db \<Rightarrow> rollup_db \<times> (rollupError + UsageEvent list)" where
  "LoadUsageAggregationEventPage afterID targetID limit s =
     (if targetID \<le> afterID then (s, Inr [])
      else if afterID < 0 \<or> targetID < 0 then (s, Inl (InvalidBounds afterID targetID))
      else if limit \<le> 0 then (s, Inl InvalidLimit)
      else
        (let n = nat (if limit > usageAggregationEventPageLimit then usageAggregationEventPageLimit else limit) in
         case select (\<lambda>s. pageOf (usage_events (sync_db s)) afterID targetID n) s of
           (s', Inl e) \<Rightarrow> (s', Inl (DbFailed ''load usage aggregation event page'' e))
         | (s', Inr events) \<Rightarrow> (s', Inr events)))"

section \<open>overviewstore/store.go\<close>

datatype overviewTable = Hourly | Daily

fun tableOf :: "overviewTable \<Rightarrow> rollup_db \<Rightarrow> UsageOverviewStat list" where
  "tableOf Hourly s = overview_hourly s"
| "tableOf Daily s = overview_daily s"

fun setTable :: "overviewTable \<Rightarrow> UsageOverviewStat list \<Rightarrow> rollup_db \<Rightarrow> rollup_db" where
  "setTable Hourly rows s = s\<lparr>overview_hourly := rows\<rparr>"
| "setTable Daily rows s = s\<lparr>overview_daily := rows\<rparr>"

text \<open>The \<open>UPDATE\<close> adds the counters to the row of the key and counts the rows it met.\<close>

definition addCounts :: "UsageOverviewStat \<Rightarrow> gotime \<Rightarrow> UsageOverviewStat \<Rightarrow> UsageOverviewStat" where
  "addCounts row now r =
     (if os_key r = os_key row then r\<lparr>os_counts := os_counts r + os_counts row, os_UpdatedAt := now\<rparr> else r)"

definition updateOverview :: "overviewTable \<Rightarrow> UsageOverviewStat \<Rightarrow> gotime \<Rightarrow> rollup_db \<Rightarrow> rollup_db \<times> (string + nat)" where
  "updateOverview tbl row now =
     exec (\<lambda>s. (setTable tbl (map (addCounts row now) (tableOf tbl s)) s,
                Inr (length (filter (\<lambda>r. os_key r = os_key row) (tableOf tbl s)))))"

definition createOverview :: "overviewTable \<Rightarrow> UsageOverviewStat \<Rightarrow> rollup_db \<Rightarrow> rollup_db \<times> (string + unit)" where
  "createOverview tbl row =
     exec (\<lambda>s. if os_key row \<in> os_key ` set (tableOf tbl s) then (s, Inl ''UNIQUE constraint failed'')
               else ((setTable tbl (tableOf tbl s @ [row\<lparr>os_ID := next_row s\<rparr>]) s)\<lparr>next_row := next_row s + 1\<rparr>, Inr ()))"

definition applyOverviewRow ::
  "overviewTable \<Rightarrow> gotime \<Rightarrow> UsageOverviewStat \<Rightarrow> rollup_db \<Rightarrow> rollup_db \<times> rollupError option" where
  "applyOverviewRow tbl now row s =
     (case updateOverview tbl row now s of
        (s1, Inl e) \<Rightarrow> (s1, Some (DbFailed ''update usage overview stat'' e))
      | (s1, Inr affected) \<Rightarrow>
          if affected > 0 then (s1, None)
          else
            (case createOverview tbl (row\<lparr>os_CreatedAt := now, os_UpdatedAt := now\<rparr>) s1 of
               (s2, Inr _) \<Rightarrow> (s2, None)
             | (s2, Inl insertErr) \<Rightarrow>
                 (case updateOverview tbl row now s2 of
                    (s3, Inl retryErr) \<Rightarrow> (s3, Some (InsertRetryFailed ''insert usage overview stat'' insertErr (Some retryErr)))
                  | (s3, Inr hits) \<Rightarrow>
                      if hits = 0 then (s3, Some (InsertRetryFailed ''insert usage overview stat'' insertErr None))
                      else (s3, None))))"

text \<open>A loop over rows that stops at the first error.\<close>

fun applyEach :: "('r \<Rightarrow> rollup_db \<Rightarrow> rollup_db \<times> rollupError option) \<Rightarrow> 'r list \<Rightarrow> rollup_db \<Rightarrow> rollup_db \<times> rollupError option" where
  "applyEach f [] s = (s, None)"
| "applyEach f (row # rows) s =
     (case f row s of (s', Some e) \<Rightarrow> (s', Some e) | (s', None) \<Rightarrow> applyEach f rows s')"

definition overview_ApplyRows ::
  "UsageOverviewStat list \<Rightarrow> UsageOverviewStat list \<Rightarrow> gotime \<Rightarrow> rollup_db \<Rightarrow> rollup_db \<times> rollupError option" where
  "overview_ApplyRows hourlyRows dailyRows now s =
     (case applyEach (applyOverviewRow Hourly now) hourlyRows s of
        (s', Some e) \<Rightarrow> (s', Some e)
      | (s', None) \<Rightarrow> applyEach (applyOverviewRow Daily now) dailyRows s')"

definition ApplyUsageOverviewAggregationPage ::
  "int \<Rightarrow> int \<Rightarrow> UsageOverviewStat list \<Rightarrow> UsageOverviewStat list \<Rightarrow> gotime \<Rightarrow> rollup_db \<Rightarrow> rollup_db \<times> rollupError option" where
  "ApplyUsageOverviewAggregationPage expectedCursor nextCursor hourly daily now =
     atomically (\<lambda>s. case overview_ApplyRows hourly daily now s of
        (s', Some e) \<Rightarrow> (s', Some e)
      | (s', None) \<Rightarrow> AdvanceUsageAggregationCheckpoint UsageAggregationCheckpointOverview expectedCursor nextCursor now s')"

section \<open>activitystore/store.go\<close>

definition addActivityCounts :: "UsageActivityStat \<Rightarrow> gotime \<Rightarrow> UsageActivityStat \<Rightarrow> UsageActivityStat" where
  "addActivityCounts row now r =
     (if as_key r = as_key row
      then r\<lparr>as_BucketEnd := as_BucketEnd row, as_counts := as_counts r + as_counts row, as_UpdatedAt := now\<rparr> else r)"

definition updateActivity :: "UsageActivityStat \<Rightarrow> gotime \<Rightarrow> rollup_db \<Rightarrow> rollup_db \<times> (string + nat)" where
  "updateActivity row now =
     exec (\<lambda>s. (s\<lparr>activity_stats := map (addActivityCounts row now) (activity_stats s)\<rparr>,
                Inr (length (filter (\<lambda>r. as_key r = as_key row) (activity_stats s)))))"

text \<open>The table also checks that a bucket starts before it ends.\<close>

definition createActivity :: "UsageActivityStat \<Rightarrow> rollup_db \<Rightarrow> rollup_db \<times> (string + unit)" where
  "createActivity row =
     exec (\<lambda>s. if as_key row \<in> as_key ` set (activity_stats s) then (s, Inl ''UNIQUE constraint failed'')
               else if \<not> a_BucketStart (as_key row) < as_BucketEnd row then (s, Inl ''CHECK constraint failed'')
               else (s\<lparr>activity_stats := activity_stats s @ [row\<lparr>as_ID := next_row s\<rparr>], next_row := next_row s + 1\<rparr>, Inr ()))"

definition applyActivityRow :: "gotime \<Rightarrow> UsageActivityStat \<Rightarrow> rollup_db \<Rightarrow> rollup_db \<times> rollupError option" where
  "applyActivityRow now row s =
     (case updateActivity row now s of
        (s1, Inl e) \<Rightarrow> (s1, Some (DbFailed ''update usage activity row'' e))
      | (s1, Inr affected) \<Rightarrow>
          if affected > 0 then (s1, None)
          else
            (case createActivity (row\<lparr>as_CreatedAt := now, as_UpdatedAt := now\<rparr>) s1 of
               (s2, Inl e) \<Rightarrow> (s2, Some (DbFailed ''insert usage activity row'' e))
             | (s2, Inr _) \<Rightarrow> (s2, None)))"

definition activity_ApplyRows :: "UsageActivityStat list \<Rightarrow> gotime \<Rightarrow> rollup_db \<Rightarrow> rollup_db \<times> rollupError option" where
  "activity_ApplyRows rows now = applyEach (applyActivityRow now) rows"

definition ApplyUsageActivityAggregationPage ::
  "int \<Rightarrow> int \<Rightarrow> UsageActivityStat list \<Rightarrow> gotime \<Rightarrow> rollup_db \<Rightarrow> rollup_db \<times> rollupError option" where
  "ApplyUsageActivityAggregationPage expectedCursor nextCursor rows now =
     atomically (\<lambda>s. case activity_ApplyRows rows now s of
        (s', Some e) \<Rightarrow> (s', Some e)
      | (s', None) \<Rightarrow> AdvanceUsageAggregationCheckpoint UsageAggregationCheckpointActivity expectedCursor nextCursor now s')"

definition expiredActivity :: "gotime \<Rightarrow> UsageActivityGrain \<Rightarrow> UsageActivityStat \<Rightarrow> bool" where
  "expiredActivity now grain r \<longleftrightarrow>
     a_Grain (as_key r) = grain \<and>
     (case Retention grain of None \<Rightarrow> False | Some retention \<Rightarrow> as_BucketEnd r < t_add now (- retention))"

fun cleanupGrains :: "gotime \<Rightarrow> UsageActivityGrain list \<Rightarrow> rollup_db \<Rightarrow> rollup_db \<times> rollupError option" where
  "cleanupGrains now [] s = (s, None)"
| "cleanupGrains now (grain # grains) s =
     (if Retention grain = None then cleanupGrains now grains s
      else case exec (\<lambda>t. (t\<lparr>activity_stats := filter (\<lambda>r. \<not> expiredActivity now grain r) (activity_stats t)\<rparr>, Inr ())) s of
             (s', Inl e) \<Rightarrow> (s', Some (DbFailed ''cleanup usage activity stats'' e))
           | (s', Inr _) \<Rightarrow> cleanupGrains now grains s')"

definition CleanupUsageActivityStats :: "gotime \<Rightarrow> rollup_db \<Rightarrow> rollup_db \<times> rollupError option" where
  "CleanupUsageActivityStats now =
     cleanupGrains now [UsageActivityGrainShort, UsageActivityGrainMedium, UsageActivityGrainLong]"

section \<open>latencystore/store.go\<close>

definition loadKeyBatchSize :: nat where
  "loadKeyBatchSize = 200"

text \<open>The first loop of \<open>PrepareRows\<close>: keys must be different and rows decodable.\<close>

fun checkIncoming :: "latencyKey list \<Rightarrow> UsageLatencyStat list \<Rightarrow> latencyRowError option" where
  "checkIncoming seen [] = None"
| "checkIncoming seen (row # rows) =
     (if ls_key row \<in> set seen then Some (DuplicateRowKey (ls_key row))
      else case decodeLatencyRow row of
             Inl e \<Rightarrow> Some (RowFailed ''decode incoming latency row'' (ls_key row) e)
           | Inr _ \<Rightarrow> checkIncoming (ls_key row # seen) rows)"

definition existingByKey :: "UsageLatencyStat list \<Rightarrow> latencyKey \<Rightarrow> UsageLatencyStat option" where
  "existingByKey existing key = find (\<lambda>r. ls_key r = key) (rev existing)"

fun mergeChunk ::
  "UsageLatencyStat list \<Rightarrow> gotime \<Rightarrow> UsageLatencyStat list \<Rightarrow> latencyRowError + UsageLatencyStat list" where
  "mergeChunk existing now [] = Inr []"
| "mergeChunk existing now (row # rows) =
     (case mergeLatencyRows (existingByKey existing (ls_key row)) row now of
        Inl e \<Rightarrow> Inl (RowFailed ''merge latency row'' (ls_key row) e)
      | Inr merged \<Rightarrow>
          (case mergeChunk existing now rows of Inl e \<Rightarrow> Inl e | Inr rest \<Rightarrow> Inr (merged # rest)))"

function prepareChunks ::
  "UsageLatencyStat list \<Rightarrow> gotime \<Rightarrow> rollup_db \<Rightarrow> rollup_db \<times> (rollupError + UsageLatencyStat list)" where
  "prepareChunks rows now s =
     (if rows = [] then (s, Inr [])
      else
        (let chunk = take loadKeyBatchSize rows in
         case select (\<lambda>t. filter (\<lambda>r. ls_key r \<in> ls_key ` set chunk) (latency_stats t)) s of
           (s1, Inl e) \<Rightarrow> (s1, Inl (DbFailed ''load latency rows'' e))
         | (s1, Inr existing) \<Rightarrow>
             (case mergeChunk existing now chunk of
                Inl e \<Rightarrow> (s1, Inl (LatencyRow e))
              | Inr merged \<Rightarrow>
                  (case prepareChunks (drop loadKeyBatchSize rows) now s1 of
                     (s2, Inl e) \<Rightarrow> (s2, Inl e)
                   | (s2, Inr rest) \<Rightarrow> (s2, Inr (merged @ rest))))))"
  by pat_completeness auto
termination
  by (relation "measure (\<lambda>(rows, now, s). length rows)") (auto simp: loadKeyBatchSize_def)

declare prepareChunks.simps [simp del]

definition PrepareRows ::
  "UsageLatencyStat list \<Rightarrow> gotime \<Rightarrow> rollup_db \<Rightarrow> rollup_db \<times> (rollupError + UsageLatencyStat list)" where
  "PrepareRows rows now s =
     (if rows = [] then (s, Inr [])
      else case checkIncoming [] rows of
             Some e \<Rightarrow> (s, Inl (LatencyRow e))
           | None \<Rightarrow> prepareChunks rows now s)"

text \<open>The columns that the \<open>UPDATE\<close> of a prepared row sets.\<close>

definition copyPrepared :: "UsageLatencyStat \<Rightarrow> UsageLatencyStat \<Rightarrow> UsageLatencyStat" where
  "copyPrepared row r =
     (if ls_ID r = ls_ID row
      then r\<lparr>ls_SampleCount := ls_SampleCount row, ls_MaxTTFTMS := ls_MaxTTFTMS row, ls_MaxLatencyMS := ls_MaxLatencyMS row,
             ls_FormatVersion := ls_FormatVersion row, ls_TTFTSketch := ls_TTFTSketch row,
             ls_LatencySketch := ls_LatencySketch row, ls_SamplePoints := ls_SamplePoints row,
             ls_UpdatedAt := ls_UpdatedAt row\<rparr> else r)"

definition updateLatency :: "UsageLatencyStat \<Rightarrow> rollup_db \<Rightarrow> rollup_db \<times> (string + nat)" where
  "updateLatency row =
     exec (\<lambda>s. (s\<lparr>latency_stats := map (copyPrepared row) (latency_stats s)\<rparr>,
                Inr (length (filter (\<lambda>r. ls_ID r = ls_ID row) (latency_stats s)))))"

definition createLatency :: "UsageLatencyStat \<Rightarrow> rollup_db \<Rightarrow> rollup_db \<times> (string + unit)" where
  "createLatency row =
     exec (\<lambda>s. if ls_key row \<in> ls_key ` set (latency_stats s) then (s, Inl ''UNIQUE constraint failed'')
               else (s\<lparr>latency_stats := latency_stats s @ [row\<lparr>ls_ID := next_row s\<rparr>], next_row := next_row s + 1\<rparr>, Inr ()))"

fun writeLatencyRows :: "latencyKey list \<Rightarrow> UsageLatencyStat list \<Rightarrow> rollup_db \<Rightarrow> rollup_db \<times> rollupError option" where
  "writeLatencyRows seen [] s = (s, None)"
| "writeLatencyRows seen (row # rows) s =
     (if ls_key row \<in> set seen then (s, Some (LatencyRow (DuplicateRowKey (ls_key row))))
      else case decodeLatencyRow row of
             Inl e \<Rightarrow> (s, Some (LatencyRow (RowFailed ''decode prepared latency row'' (ls_key row) e)))
           | Inr decoded \<Rightarrow>
               if sampleSet_Count (Some (d_SamplePoints decoded)) > MaxSamplePoints
               then (s, Some (LatencyRow (TooManySamplePoints (ls_key row) (sampleSet_Count (Some (d_SamplePoints decoded))))))
               else if ls_ID row > 0 then
                 (case updateLatency row s of
                    (s', Inl e) \<Rightarrow> (s', Some (DbFailed ''update latency row'' e))
                  | (s', Inr affected) \<Rightarrow>
                      if affected \<noteq> 1 then (s', Some (LatencyUpdateMissed (ls_ID row) affected))
                      else writeLatencyRows (ls_key row # seen) rows s')
               else
                 (case createLatency row s of
                    (s', Inl e) \<Rightarrow> (s', Some (DbFailed ''insert latency row'' e))
                  | (s', Inr _) \<Rightarrow> writeLatencyRows (ls_key row # seen) rows s'))"

definition WritePreparedRows :: "UsageLatencyStat list \<Rightarrow> rollup_db \<Rightarrow> rollup_db \<times> rollupError option" where
  "WritePreparedRows rows = writeLatencyRows [] rows"

definition ApplyUsageLatencyAggregationPage ::
  "int \<Rightarrow> int \<Rightarrow> UsageLatencyStat list \<Rightarrow> gotime \<Rightarrow> rollup_db \<Rightarrow> rollup_db \<times> rollupError option" where
  "ApplyUsageLatencyAggregationPage expectedCursor nextCursor rows now s =
     (case PrepareRows rows now s of
        (s1, Inl e) \<Rightarrow> (s1, Some e)
      | (s1, Inr prepared) \<Rightarrow>
          atomically (\<lambda>t. case WritePreparedRows prepared t of
             (t', Some e) \<Rightarrow> (t', Some e)
           | (t', None) \<Rightarrow> AdvanceUsageAggregationCheckpoint UsageAggregationCheckpointLatency expectedCursor nextCursor now t') s1)"

fun cleanupLatencyTypes ::
  "Location \<Rightarrow> (gotime \<Rightarrow> gotime \<Rightarrow> bool) \<Rightarrow> gotime \<Rightarrow> string list \<Rightarrow> rollup_db \<Rightarrow> rollup_db \<times> rollupError option" where
  "cleanupLatencyTypes loc older now [] s = (s, None)"
| "cleanupLatencyTypes loc older now (bucketType # types) s =
     (case RetentionBucketStartCutoff loc bucketType now of
        Inl e \<Rightarrow> (s, Some (LatencyRow e))
      | Inr cutoff \<Rightarrow>
          (case exec (\<lambda>t. (t\<lparr>latency_stats := filter (\<lambda>r. \<not> (lk_BucketType (ls_key r) = bucketType \<and>
                       older (lk_BucketStart (ls_key r)) cutoff)) (latency_stats t)\<rparr>, Inr ())) s of
             (s', Inl e) \<Rightarrow> (s', Some (DbFailed ''cleanup usage latency stats'' e))
           | (s', Inr _) \<Rightarrow> cleanupLatencyTypes loc older now types s'))"

text \<open>\<open>older\<close> is the order of the stored local time texts.\<close>

definition CleanupUsageLatencyStats ::
  "Location \<Rightarrow> (gotime \<Rightarrow> gotime \<Rightarrow> bool) \<Rightarrow> gotime \<Rightarrow> rollup_db \<Rightarrow> rollup_db \<times> rollupError option" where
  "CleanupUsageLatencyStats loc older now =
     cleanupLatencyTypes loc older now [UsageLatencyBucketHour, UsageLatencyBucketDay]"

section \<open>Statements and transactions\<close>

text \<open>What a statement can do: fail without an effect but for the fault it took, or take effect.\<close>

definition refault :: "rollup_db \<Rightarrow> string option list \<Rightarrow> rollup_db" where
  "refault s fs = s\<lparr>sync_db := (sync_db s)\<lparr>faults := fs\<rparr>\<rparr>"

lemma exec_cases:
  assumes "exec f s = (s', r)"
  obtains (failed) fs e where "s' = refault s fs" "r = Inl e" | (effect) fs where "f (refault s fs) = (s', r)"
proof (cases "faults (sync_db s)")
  case Nil
  then have "refault s [] = s" by (simp add: refault_def)
  with Nil assms that(2) [of "[]"] show ?thesis by (simp add: exec_def query_def)
next
  case (Cons a fs)
  with assms that show ?thesis by (cases a) (auto simp: exec_def query_def refault_def)
qed

lemma select_cases:
  assumes "select f s = (s', r)"
  obtains fs where "s' = refault s fs" "r = Inr (f (refault s fs)) \<or> (\<exists>e. r = Inl e)"
  using assms unfolding select_def by (rule exec_cases) auto

lemma exec_faultless: "faults (sync_db s) = [] \<Longrightarrow> exec f s = f s"
  by (simp add: exec_def query_def)

lemma refault_simps [simp]:
  "checkpoints (refault s fs) = checkpoints s" "overview_hourly (refault s fs) = overview_hourly s"
  "overview_daily (refault s fs) = overview_daily s" "activity_stats (refault s fs) = activity_stats s"
  "latency_stats (refault s fs) = latency_stats s" "next_row (refault s fs) = next_row s"
  "usage_events (sync_db (refault s fs)) = usage_events (sync_db s)" "inbox (sync_db (refault s fs)) = inbox (sync_db s)"
  "next_event (sync_db (refault s fs)) = next_event (sync_db s)" "faults (sync_db (refault s fs)) = fs"
  "refault (refault s fs) gs = refault s gs" "tableOf tbl (refault s fs) = tableOf tbl s"
  by (simp_all add: refault_def) (cases tbl; simp add: refault_def)

lemma restore_refault: "restore s s' = refault s (faults (sync_db s'))"
  by (simp add: restore_def refault_def)

lemma atomically_cases:
  assumes "atomically body s = (s', r)"
  obtains (rolled_back) fs e where "s' = refault s fs" "r = Some e"
    | (committed) s1 fs where "body s = (s1, None)" "s' = refault s1 fs" "r = None"
proof (cases "body s")
  case (Pair s1 r1)
  show ?thesis
  proof (cases r1)
    case (Some e)
    with Pair assms that(1) show ?thesis by (auto simp: atomically_def restore_refault)
  next
    case None
    obtain s2 r2 where c: "exec (\<lambda>t. (t, Inr ())) s1 = (s2, r2)" by (cases "exec (\<lambda>t. (t, Inr ())) s1")
    from c obtain fs where "s2 = refault s1 fs" "r2 = Inr () \<or> (\<exists>e. r2 = Inl e)"
      by (rule exec_cases) auto
    with c None Pair assms that show ?thesis by (auto simp: atomically_def restore_refault)
  qed
qed

end
