(* ===== verification/Inbox_Growth.thy ===== *)
theory Inbox_Growth
  imports Usage_Sync
begin

text \<open>
  What the two users of the inbox, the ingest writer and the processor, do to the rest of the
  database: events are appended with the next ids, nothing else changes.
\<close>

inductive inbox_work :: "db \<Rightarrow> db \<Rightarrow> bool" where
  receive: "InsertRedisUsageInboxRawMessages hash columns src messages at t = (t', r) \<Longrightarrow> inbox_work t t'"
| process: "ProcessRedisUsageInbox (productionDeps unmarshal parseIP (buildSnapshot :: string \<Rightarrow> UsageEvent \<Rightarrow> string \<Rightarrow> unit option)
    columns) configured now t = (t', notices, res, e) \<Longrightarrow> inbox_work t t'"

definition grows :: "db \<Rightarrow> UsageEvent list \<Rightarrow> db \<Rightarrow> bool" where
  "grows t new t' \<longleftrightarrow> usage_events t' = usage_events t @ new \<and> next_event t' = next_event t + int (length new) \<and>
     numberEvents (next_event t) new = new"

lemma createInBatches_events:
  "createInBatches sz rows t = (t', r) \<Longrightarrow> usage_events t' = usage_events t \<and> next_event t' = next_event t \<and> usage_identities t' = usage_identities t"
proof (induction sz rows t arbitrary: t' r rule: createInBatches.induct)
  case (1 sz rows t)
  show ?case
  proof (cases "rows = [] \<or> sz = 0")
    case True
    then show ?thesis using 1(2) by (auto simp: createInBatches.simps [of sz rows])
  next
    case False
    obtain t1 e where st: "stmt (createRows (take sz rows)) t = (t1, e)" by fastforce
    have keep: "usage_events t1 = usage_events t \<and> next_event t1 = next_event t \<and> usage_identities t1 = usage_identities t"
      using st by (cases rule: stmt_cases) (auto simp: createRows_def)
    show ?thesis
      using 1(1) [OF False st [symmetric]] 1(2) False st keep
      by (cases e) (simp_all add: createInBatches.simps [of sz rows])
  qed
qed

lemma receive_events:
  assumes "InsertRedisUsageInboxRawMessages hash columns src messages at t = (t', r)"
  shows "usage_events t' = usage_events t \<and> next_event t' = next_event t \<and> usage_identities t' = usage_identities t"
proof (cases "messages = []")
  case False
  obtain out where "transaction (createInBatches (nat (insertBatchSize columns)) (map (inboxRow hash src at) messages)) t = (t', out)"
    using assms False by (auto simp: InsertRedisUsageInboxRawMessages_def Let_def split: prod.splits sum.splits)
  then show ?thesis by (cases rule: transaction_cases) (auto dest: createInBatches_events)
qed (use assms in \<open>simp add: InsertRedisUsageInboxRawMessages_def\<close>)

lemma inbox_work_grows:
  assumes "inbox_work t t'" "pipelineOK t"
  obtains new where "grows t new t'" "pipelineOK t'" "usage_identities t' = usage_identities t"
  using assms(1)
proof (cases rule: inbox_work.cases)
  case (receive hash columns src messages at r)
  then show ?thesis using that [of "[]"] receive_events insert_ok assms(2) by (fastforce simp: grows_def)
next
  case (process unmarshal parseIP buildSnapshot columns configured now notices res e)
  have "distinct (map in_ID (inbox t))" using assms(2) by (simp add: pipelineOK_def)
  from round_booked [OF process production_given this] obtain A evs where "booked A evs t t'" by blast
  then show ?thesis using that [of evs] booked_pipeline(1) [OF _ assms(2)] by (auto simp: grows_def booked_def progress_def moved_def)
qed

section \<open>Numbered events\<close>

text \<open>Events are stored in the order of their ids, which are the numbers given so far.\<close>

definition numbered :: "UsageEvent list \<Rightarrow> int \<Rightarrow> bool" where
  "numbered evs n \<longleftrightarrow> 0 < n \<and> sorted_wrt (<) (map ev_ID evs) \<and> (\<forall>e \<in> set evs. 0 < ev_ID e \<and> ev_ID e < n)"

lemma numberEvents_ids:
  "sorted_wrt (<) (map ev_ID (numberEvents n es)) \<and> (\<forall>e \<in> set (numberEvents n es). n \<le> ev_ID e \<and> ev_ID e < n + int (length es))"
proof (induction es arbitrary: n)
  case (Cons e es)
  show ?case using Cons.IH [of "n + 1"] by (auto simp: less_le_trans)
qed simp

lemma numbered_append:
  assumes "numbered evs n" "numberEvents n new = new"
  shows "numbered (evs @ new) (n + int (length new))"
  using assms numberEvents_ids [of n new] by (force simp: numbered_def sorted_wrt_append)

abbreviation upto_id :: "int \<Rightarrow> UsageEvent list \<Rightarrow> UsageEvent list" where
  "upto_id i evs \<equiv> filter (\<lambda>e. ev_ID e \<le> i) evs"

lemma upto_append:
  assumes "numberEvents n new = new" "i < n"
  shows "upto_id i (evs @ new) = upto_id i evs"
proof -
  have "\<forall>e \<in> set new. n \<le> ev_ID e" using numberEvents_ids [of n new] assms(1) by simp
  then show ?thesis using assms(2) by (auto simp: filter_empty_conv)
qed

section \<open>The sample messages\<close>

text \<open>The one event that the sample messages of \<open>Usage_Sync\<close> become.\<close>

definition sampleEvent :: UsageEvent where
  "sampleEvent = \<lparr>ev_ID = 1, EventKey = ''r1'', APIGroupKey = ''codex'', ev_Provider = ''codex'', Endpoint = [],
     AuthType = ''apikey'', RequestID = ''r1'', SessionID = [], ParentSessionID = None, ClientIP = None, XForwardedFor = None,
     UserAgent = None, Model = ''m'', ModelAlias = None, ResponseModel = [], ReasoningEffort = [], ServiceTier = [],
     ResponseServiceTier = [], ev_ExecutorType = ''CodexExecutor'', Timestamp = 5, ev_Source = [], AuthIndex = [],
     ev_Failed = False, StatusCode = None, Generate = Some True, ev_Stream = None, UsageEvent.LatencyMS = 7,
     UsageEvent.TTFTMS = None, ev_InputTokens = 10, ev_OutputTokens = 4, ev_ReasoningTokens = 0, ev_CachedTokens = 0,
     ev_CacheReadTokens = 0, ev_CacheReadPresent = True, ev_CacheCreationTokens = 0, ev_TotalTokens = 14\<rparr>"

definition tablesOf :: "db \<Rightarrow> UsageEvent list \<times> UsageIdentity list \<times> string option list" where
  "tablesOf s = (usage_events s, usage_identities s, faults s)"

lemma sample_tables: "tablesOf (fst (sampleRound [])) = ([sampleEvent], [], [])"
  by code_simp

lemma stored_sync: "usage_events (fst (sampleRound [])) = [sampleEvent]" "faults (fst (sampleRound [])) = []"
  "usage_identities (fst (sampleRound [])) = []"
  using sample_tables by (simp_all add: tablesOf_def)

lemma sample_work: "inbox_work (emptyStore []) filledStore" "inbox_work filledStore (fst (sampleRound []))"
proof -
  show "inbox_work (emptyStore []) filledStore" unfolding filledStore_def by (rule receive) (rule prod.collapse [symmetric])
  obtain t notices r e where out: "sampleRound [] = (t, notices, r, e)" using prod_cases4 by blast
  have "filledStore\<lparr>faults := []\<rparr> = filledStore" by code_simp
  then show "inbox_work filledStore (fst (sampleRound []))" using out unfolding sampleRound_def sampleDeps_def by (metis fst_conv process)
qed

end
