(* ===== verification/Rollup_Exact.thy ===== *)
theory Rollup_Exact
  imports Rollup_Store Inbox_Growth
begin

text \<open>
  What the page transactions of \<open>Rollup_Store\<close> do to the tables: they add the rows of a page and
  move the checkpoint in one step or leave everything as it was, and every event enters each rollup
  exactly once, whatever the order in which pages are loaded, applied, retried or abandoned and
  whatever statements fail.
\<close>

section \<open>Tables of counters\<close>

text \<open>An \<open>UPDATE\<close> that adds counters to the rows of a key.\<close>

definition bump :: "'k \<Rightarrow> Counts \<Rightarrow> ('k \<times> Counts) list \<Rightarrow> ('k \<times> Counts) list" where
  "bump key c cells = map (\<lambda>kc. if fst kc = key then (fst kc, snd kc + c) else kc) cells"

lemma bump_keys [simp]: "map fst (bump key c cells) = map fst cells"
  by (simp add: bump_def)

lemma bump_total:
  assumes "distinct (map fst cells)"
  shows "keyTotal (bump key c cells) k = keyTotal cells k + (if key = k \<and> key \<in> fst ` set cells then c else 0)"
  using assms
proof (induction cells)
  case (Cons kc cells)
  then show ?case by (cases "fst kc = key") (auto simp: bump_def add_ac)
qed (simp add: bump_def)

text \<open>
  The contract of a table of counters: a row that is applied without an error adds its counters to
  its key, keeps one row per key and changes nothing else that is looked at.
\<close>

locale counter_table =
  fixes cells :: "rollup_db \<Rightarrow> ('k \<times> Counts) list"
    and cell :: "'row \<Rightarrow> 'k \<times> Counts"
    and rest :: "rollup_db \<Rightarrow> 'f"
    and apply_row :: "'row \<Rightarrow> rollup_db \<Rightarrow> rollup_db \<times> rollupError option"
  assumes row_distinct: "apply_row row s = (s', None) \<Longrightarrow> distinct (map fst (cells s)) \<Longrightarrow> distinct (map fst (cells s'))"
    and row_rest: "apply_row row s = (s', None) \<Longrightarrow> distinct (map fst (cells s)) \<Longrightarrow> rest s' = rest s"
    and row_total: "apply_row row s = (s', None) \<Longrightarrow> distinct (map fst (cells s)) \<Longrightarrow>
      keyTotal (cells s') k = keyTotal (cells s) k + keyTotal [cell row] k"
begin

lemma rows_distinct: "applyEach apply_row rows s = (s', None) \<Longrightarrow> distinct (map fst (cells s)) \<Longrightarrow> distinct (map fst (cells s'))"
proof (induction rows arbitrary: s)
  case (Cons row rows)
  then show ?case using row_distinct by (fastforce split: prod.splits option.splits)
qed simp

lemma rows_rest: "applyEach apply_row rows s = (s', None) \<Longrightarrow> distinct (map fst (cells s)) \<Longrightarrow> rest s' = rest s"
proof (induction rows arbitrary: s)
  case (Cons row rows)
  obtain s1 where s1: "apply_row row s = (s1, None)" "applyEach apply_row rows s1 = (s', None)"
    using Cons.prems(1) by (auto split: prod.splits option.splits)
  then show ?case using Cons.IH [OF s1(2) row_distinct [OF s1(1) Cons.prems(2)]] row_rest [OF s1(1) Cons.prems(2)] by simp
qed simp

lemma rows_total:
  "applyEach apply_row rows s = (s', None) \<Longrightarrow> distinct (map fst (cells s)) \<Longrightarrow>
   keyTotal (cells s') k = keyTotal (cells s) k + keyTotal (map cell rows) k"
proof (induction rows arbitrary: s)
  case (Cons row rows)
  obtain s1 where s1: "apply_row row s = (s1, None)" "applyEach apply_row rows s1 = (s', None)"
    using Cons.prems(1) by (auto split: prod.splits option.splits)
  then show ?case
    using Cons.IH [OF s1(2) row_distinct [OF s1(1) Cons.prems(2)]] row_total [OF s1(1) Cons.prems(2), of k]
    by (simp add: add_ac)
qed simp

end

text \<open>The rest of the database, seen from one table.\<close>

definition events_part :: "rollup_db \<Rightarrow> db" where
  "events_part s = (sync_db s)\<lparr>faults := []\<rparr>"

lemma refault_sync [simp]: "(sync_db (refault s fs))\<lparr>faults := gs\<rparr> = (sync_db s)\<lparr>faults := gs\<rparr>"
  by (simp add: refault_def)

definition beside_hourly where
  "beside_hourly s = (overview_daily s, activity_stats s, latency_stats s, checkpoints s, events_part s)"

definition beside_daily where
  "beside_daily s = (overview_hourly s, activity_stats s, latency_stats s, checkpoints s, events_part s)"

definition beside_activity where
  "beside_activity s = (overview_hourly s, overview_daily s, latency_stats s, checkpoints s, events_part s)"

fun beside :: "overviewTable \<Rightarrow> rollup_db \<Rightarrow> UsageOverviewStat list \<times> UsageActivityStat list \<times> UsageLatencyStat list \<times>
    UsageAggregationCheckpoint list \<times> db" where
  "beside Hourly s = beside_hourly s"
| "beside Daily s = beside_daily s"

lemmas beside_defs = beside_hourly_def beside_daily_def beside_activity_def events_part_def

lemma beside_refault [simp]: "beside tbl (refault s fs) = beside tbl s" "beside_activity (refault s fs) = beside_activity s"
  by (cases tbl) (simp_all add: beside_defs)

lemma setTable_simps [simp]:
  "tableOf tbl (setTable tbl rows s) = rows" "beside tbl (setTable tbl rows s) = beside tbl s"
  "next_row (setTable tbl rows s) = next_row s"
  "tableOf tbl (s\<lparr>next_row := n\<rparr>) = tableOf tbl s" "beside tbl (s\<lparr>next_row := n\<rparr>) = beside tbl s"
  by (cases tbl; simp add: beside_defs)+

abbreviation cellsOf :: "overviewTable \<Rightarrow> rollup_db \<Rightarrow> (aggregateKey \<times> Counts) list" where
  "cellsOf tbl s \<equiv> overviewCells (tableOf tbl s)"

lemma overviewCells_simps [simp]:
  "overviewCells (map (addCounts row now) rows) = bump (os_key row) (os_counts row) (overviewCells rows)"
  "overviewCells (rows @ [r]) = overviewCells rows @ [(os_key r, os_counts r)]"
  "map fst (overviewCells rows) = map os_key rows" "fst ` set (overviewCells rows) = os_key ` set rows"
  by (simp_all add: overviewCells_def bump_def addCounts_def image_image)

lemma updateOverview_effect:
  assumes "updateOverview tbl row now s = (s', Inr hits)" "distinct (map fst (cellsOf tbl s))"
  shows "map fst (cellsOf tbl s') = map fst (cellsOf tbl s)" "beside tbl s' = beside tbl s"
    "hits > 0 \<longleftrightarrow> os_key row \<in> os_key ` set (tableOf tbl s)"
    "keyTotal (cellsOf tbl s') k = keyTotal (cellsOf tbl s) k + (if hits > 0 \<and> os_key row = k then os_counts row else 0)"
proof -
  obtain fs where s': "s' = setTable tbl (map (addCounts row now) (tableOf tbl s)) (refault s fs)"
    and hits: "hits = length (filter (\<lambda>r. os_key r = os_key row) (tableOf tbl s))"
    using assms(1) unfolding updateOverview_def by (rule exec_cases) auto
  show pos: "hits > 0 \<longleftrightarrow> os_key row \<in> os_key ` set (tableOf tbl s)"
    unfolding hits by (auto simp: filter_empty_conv intro: rev_image_eqI)
  show "map fst (cellsOf tbl s') = map fst (cellsOf tbl s)" "beside tbl s' = beside tbl s"
    by (simp_all add: s' del: overviewCells_simps(3))
  show "keyTotal (cellsOf tbl s') k = keyTotal (cellsOf tbl s) k + (if hits > 0 \<and> os_key row = k then os_counts row else 0)"
    unfolding pos by (auto simp: s' bump_total [OF assms(2)])
qed

lemma createOverview_effect:
  assumes "createOverview tbl row s = (s', r)" "distinct (map fst (cellsOf tbl s))"
  shows "distinct (map fst (cellsOf tbl s'))" "beside tbl s' = beside tbl s"
    "keyTotal (cellsOf tbl s') k = keyTotal (cellsOf tbl s) k + (if (\<exists>u. r = Inr u) \<and> os_key row = k then os_counts row else 0)"
  using assms unfolding createOverview_def
  by (auto elim!: exec_cases split: if_splits)

lemma applyOverviewRow_effect:
  assumes "applyOverviewRow tbl now row s = (s', None)" "distinct (map fst (cellsOf tbl s))"
  shows "distinct (map fst (cellsOf tbl s')) \<and> beside tbl s' = beside tbl s \<and>
    keyTotal (cellsOf tbl s') k = keyTotal (cellsOf tbl s) k + (if os_key row = k then os_counts row else 0)"
proof -
  obtain s1 hits where u: "updateOverview tbl row now s = (s1, Inr hits)"
    using assms(1) by (cases "updateOverview tbl row now s") (auto simp: applyOverviewRow_def split: sum.splits)
  note U = updateOverview_effect [OF u assms(2)]
  show ?thesis
  proof (cases "hits > 0")
    case True
    then have "s' = s1" using assms(1) u by (simp add: applyOverviewRow_def)
    then show ?thesis using U True assms(2) by simp
  next
    case False
    let ?row = "row\<lparr>os_CreatedAt := now, os_UpdatedAt := now\<rparr>"
    obtain s2 r where c: "createOverview tbl ?row s1 = (s2, r)" by (cases "createOverview tbl ?row s1")
    have d1: "distinct (map fst (cellsOf tbl s1))" using U(1) assms(2) by simp
    note C = createOverview_effect [OF c d1]
    show ?thesis
    proof (cases r)
      case (Inr u)
      then have "s' = s2" using assms(1) u False c by (simp add: applyOverviewRow_def)
      then show ?thesis using U(2,4) C False Inr by simp
    next
      case (Inl e)
      then obtain hits' where u2: "updateOverview tbl row now s2 = (s', Inr hits')" "hits' > 0"
        using assms(1) u False c by (auto simp: applyOverviewRow_def split: prod.splits sum.splits if_splits)
      note U2 = updateOverview_effect [OF u2(1) C(1)]
      show ?thesis using U(2,4) C U2 u2(2) False Inl by simp
    qed
  qed
qed

interpretation overview_rows: counter_table "cellsOf tbl" "\<lambda>row. (os_key row, os_counts row)" "beside tbl" "applyOverviewRow tbl now"
  for tbl now
proof unfold_locales
  fix row s s' k
  assume "applyOverviewRow tbl now row s = (s', None)" and "distinct (map fst (cellsOf tbl s))"
  from applyOverviewRow_effect [OF this]
  show "distinct (map fst (cellsOf tbl s'))" "beside tbl s' = beside tbl s"
    "keyTotal (cellsOf tbl s') k = keyTotal (cellsOf tbl s) k + keyTotal [(os_key row, os_counts row)] k"
    by auto
qed

text \<open>The table of activity rows.\<close>

abbreviation activityCellsOf :: "rollup_db \<Rightarrow> (activityKey \<times> Counts) list" where
  "activityCellsOf s \<equiv> activityCells (activity_stats s)"

lemma activityCells_simps [simp]:
  "activityCells (map (addActivityCounts row now) rows) = bump (as_key row) (as_counts row) (activityCells rows)"
  "activityCells (rows @ [r]) = activityCells rows @ [(as_key r, as_counts r)]"
  "map fst (activityCells rows) = map as_key rows" "fst ` set (activityCells rows) = as_key ` set rows"
  by (simp_all add: activityCells_def bump_def addActivityCounts_def image_image)

lemma applyActivityRow_effect:
  assumes "applyActivityRow now row s = (s', None)" "distinct (map fst (activityCellsOf s))"
  shows "distinct (map fst (activityCellsOf s')) \<and> beside_activity s' = beside_activity s \<and>
    keyTotal (activityCellsOf s') k = keyTotal (activityCellsOf s) k + (if as_key row = k then as_counts row else 0)"
proof -
  obtain s1 hits where u: "updateActivity row now s = (s1, Inr hits)"
    using assms(1) by (cases "updateActivity row now s") (auto simp: applyActivityRow_def split: sum.splits)
  then obtain fs where s1: "s1 = (refault s fs)\<lparr>activity_stats := map (addActivityCounts row now) (activity_stats s)\<rparr>"
    and hits: "hits = length (filter (\<lambda>r. as_key r = as_key row) (activity_stats s))"
    unfolding updateActivity_def by (rule exec_cases) auto
  have pos: "hits > 0 \<longleftrightarrow> as_key row \<in> as_key ` set (activity_stats s)"
    unfolding hits by (auto simp: filter_empty_conv intro: rev_image_eqI)
  have total: "keyTotal (activityCellsOf s1) k =
      keyTotal (activityCellsOf s) k + (if as_key row = k \<and> hits > 0 then as_counts row else 0)"
    unfolding pos by (auto simp: s1 bump_total [OF assms(2)])
  have keys: "map as_key (activity_stats s1) = map as_key (activity_stats s)" "beside_activity s1 = beside_activity s"
    by (simp_all add: s1 addActivityCounts_def beside_defs comp_def if_distrib cong: if_cong)
  show ?thesis
  proof (cases "hits > 0")
    case True
    then have "s' = s1" using assms(1) u by (simp add: applyActivityRow_def)
    then show ?thesis using True total keys assms(2) by simp
  next
    case False
    then obtain v where c: "createActivity (row\<lparr>as_CreatedAt := now, as_UpdatedAt := now\<rparr>) s1 = (s', Inr v)"
      using assms(1) u by (auto simp: applyActivityRow_def split: prod.splits sum.splits)
    have "as_key ` set (activity_stats s1) = as_key ` set (activity_stats s)" using keys(1) by (metis list.set_map)
    then have new: "as_key row \<notin> as_key ` set (activity_stats s1)" using pos False by simp
    obtain fs where "s' = (refault s1 fs)\<lparr>activity_stats := activity_stats s1 @
        [row\<lparr>as_CreatedAt := now, as_UpdatedAt := now, as_ID := next_row s1\<rparr>], next_row := next_row s1 + 1\<rparr>"
      using c unfolding createActivity_def by (rule exec_cases) (auto split: if_splits)
    then show ?thesis using new total keys assms(2) False pos by (auto simp: beside_defs)
  qed
qed

interpretation activity_rows: counter_table activityCellsOf "\<lambda>row. (as_key row, as_counts row)" beside_activity "applyActivityRow now"
  for now
proof unfold_locales
  fix row s s' k
  assume "applyActivityRow now row s = (s', None)" and "distinct (map fst (activityCellsOf s))"
  from applyActivityRow_effect [OF this]
  show "distinct (map fst (activityCellsOf s'))" "beside_activity s' = beside_activity s"
    "keyTotal (activityCellsOf s') k = keyTotal (activityCellsOf s) k + keyTotal [(as_key row, as_counts row)] k"
    by auto
qed

text \<open>Stored activity rows keep the true end of their bucket, and the table checks that it is after the start.\<close>

definition row_ends :: "Location \<Rightarrow> UsageActivityStat list \<Rightarrow> bool" where
  "row_ends loc rows \<longleftrightarrow> (\<forall>r \<in> set rows. as_BucketEnd r = bucketEnd loc (as_key r))"

definition true_ends :: "Location \<Rightarrow> UsageActivityStat list \<Rightarrow> bool" where
  "true_ends loc rows \<longleftrightarrow> row_ends loc rows \<and> (\<forall>r \<in> set rows. a_BucketStart (as_key r) < as_BucketEnd r)"

lemma applyActivityRow_ends:
  assumes "applyActivityRow now row s = (s', None)" "true_ends loc (activity_stats s)" "row_ends loc [row]"
  shows "true_ends loc (activity_stats s')"
proof -
  obtain s1 hits where u: "updateActivity row now s = (s1, Inr hits)"
    using assms(1) by (cases "updateActivity row now s") (auto simp: applyActivityRow_def split: sum.splits)
  have ends: "true_ends loc (activity_stats s1)"
    using u assms(2,3) unfolding updateActivity_def
    by (elim exec_cases) (auto simp: true_ends_def row_ends_def addActivityCounts_def, metis)
  show ?thesis
  proof (cases "hits > 0")
    case True
    then show ?thesis using assms(1) u ends by (simp add: applyActivityRow_def)
  next
    case False
    then obtain v where "createActivity (row\<lparr>as_CreatedAt := now, as_UpdatedAt := now\<rparr>) s1 = (s', Inr v)"
      using assms(1) u by (auto simp: applyActivityRow_def split: prod.splits sum.splits)
    then show ?thesis
      using ends assms(3) unfolding createActivity_def
      by (elim exec_cases) (auto simp: true_ends_def row_ends_def split: if_splits)
  qed
qed

lemma applyEach_ends:
  "applyEach (applyActivityRow now) rows s = (s', None) \<Longrightarrow> true_ends loc (activity_stats s) \<Longrightarrow> row_ends loc rows \<Longrightarrow>
   true_ends loc (activity_stats s')"
proof (induction rows arbitrary: s)
  case (Cons row rows)
  have "row_ends loc [row]" "row_ends loc rows" using Cons.prems(3) by (simp_all add: row_ends_def)
  moreover obtain s1 where s1: "applyActivityRow now row s = (s1, None)" "applyEach (applyActivityRow now) rows s1 = (s', None)"
    using Cons.prems(1) by (auto split: prod.splits option.splits)
  ultimately show ?case using Cons.IH [OF s1(2)] applyActivityRow_ends [OF s1(1) Cons.prems(2)] by blast
qed simp

section \<open>Checkpoints\<close>

definition names_distinct :: "rollup_db \<Rightarrow> bool" where
  "names_distinct s \<longleftrightarrow> distinct (map cp_Name (checkpoints s))"

abbreviation cursor :: "string \<Rightarrow> rollup_db \<Rightarrow> int" where
  "cursor name s \<equiv> cursorOf (checkpoints s) name"

definition beside_checkpoints where
  "beside_checkpoints s = (overview_hourly s, overview_daily s, activity_stats s, latency_stats s, events_part s)"

lemma beside_checkpoints_refault [simp]: "beside_checkpoints (refault s fs) = beside_checkpoints s"
  by (simp add: beside_checkpoints_def events_part_def)

lemma cursorOf_distinct:
  assumes "distinct (map cp_Name cps)"
  shows "cursorOf cps name = (case find (\<lambda>cp. cp_Name cp = name) cps of None \<Rightarrow> 0 | Some cp \<Rightarrow> cp_Cursor cp)"
proof -
  have "find (\<lambda>cp. cp_Name cp = name) (rev cps) = find (\<lambda>cp. cp_Name cp = name) cps"
    using assms
  proof (induction cps)
    case (Cons cp cps)
    have "find (\<lambda>c. cp_Name c = name) (xs @ [cp]) =
        (case find (\<lambda>c. cp_Name c = name) xs of None \<Rightarrow> if cp_Name cp = name then Some cp else None | Some c \<Rightarrow> Some c)" for xs
      by (induction xs) auto
    moreover have "cp_Name cp = name \<Longrightarrow> find (\<lambda>c. cp_Name c = name) cps = None"
      using Cons.prems by (auto simp: find_None_iff intro: rev_image_eqI)
    ultimately show ?case using Cons by (auto split: option.splits)
  qed simp
  then show ?thesis by (simp add: cursorOf_def)
qed

lemma find_names:
  assumes "distinct (map cp_Name cps)" "\<And>cp. cp_Name (f cp) = cp_Name cp"
  shows "find (\<lambda>cp. cp_Name cp = name) (map f cps) = map_option f (find (\<lambda>cp. cp_Name cp = name) cps)"
  by (induction cps) (simp_all add: assms(2))

text \<open>The cursor moves by compare and swap: only from the expected value, and only this one.\<close>

lemma Advance_effect:
  assumes "AdvanceUsageAggregationCheckpoint name expected next now s = (s', None)" "names_distinct s"
  shows "names_distinct s'" "beside_checkpoints s' = beside_checkpoints s" "0 \<le> expected" "expected < next"
    "cursor name s = expected" "cursor m s' = (if m = name then next else cursor m s)"
proof -
  let ?f = "advanceRow name expected next now" and ?z = "\<lparr>cp_Name = name, cp_Cursor = 0, cp_StatsUpdatedAt = None,
      cp_CreatedAt = now, cp_UpdatedAt = now\<rparr>"
  let ?hit = "\<lambda>cp. cp_Name cp = name \<and> cp_Cursor cp = expected"
  obtain s1 s2 n where e: "ensureCheckpoint name now s = (s1, Inr ())"
    and a: "advanceCheckpoint name expected next now s1 = (s', Inr 1)" and bounds: "0 \<le> expected" "expected < next"
    using assms(1) by (auto simp: AdvanceUsageAggregationCheckpoint_def split: if_splits prod.splits sum.splits)
  show "0 \<le> expected" "expected < next" by (fact bounds)+
  define cps where "cps = (if name \<in> cp_Name ` set (checkpoints s) then checkpoints s else checkpoints s @ [?z])"
  obtain fs where s1: "s1 = (refault s fs)\<lparr>checkpoints := cps\<rparr>"
    using e unfolding ensureCheckpoint_def by (rule exec_cases) (auto simp: cps_def refault_def split: if_splits)
  obtain gs where s': "s' = (refault s1 gs)\<lparr>checkpoints := map ?f cps\<rparr>" and one: "length (filter ?hit cps) = 1"
    using a unfolding advanceCheckpoint_def by (rule exec_cases) (auto simp: s1)
  have d: "distinct (map cp_Name cps)" using assms(2) by (auto simp: cps_def names_distinct_def)
  have names: "cp_Name (?f cp) = cp_Name cp" for cp by (simp add: advanceRow_def)
  then have "map cp_Name (map ?f cps) = map cp_Name cps" by simp
  with d have d': "distinct (map cp_Name (map ?f cps))" by metis
  show "names_distinct s'" using d' by (simp add: names_distinct_def s')
  show "beside_checkpoints s' = beside_checkpoints s" by (simp add: s' s1 beside_checkpoints_def events_part_def)
  have same: "cursorOf cps m = cursor m s" for m
  proof (cases "name \<in> cp_Name ` set (checkpoints s)")
    case False
    then have "find (\<lambda>cp. cp_Name cp = name) (rev (checkpoints s)) = None" by (auto simp: find_None_iff intro: rev_image_eqI)
    then show ?thesis using False by (auto simp: cps_def cursorOf_def)
  qed (simp add: cps_def)
  have "filter ?hit cps \<noteq> []" using one by auto
  then obtain cp where cp: "cp \<in> set cps" "?hit cp" by (auto simp: filter_empty_conv)
  have found: "find (\<lambda>c. cp_Name c = name) cps = Some cp"
  proof (cases "find (\<lambda>c. cp_Name c = name) cps")
    case None
    then show ?thesis using cp by (auto simp: find_None_iff)
  next
    case (Some c)
    then have "c \<in> set cps" "cp_Name c = name" by (auto simp: find_Some_iff in_set_conv_nth)
    then show ?thesis using Some cp d by (auto simp: distinct_map inj_on_def)
  qed
  have "cursorOf cps name = expected" using found cp(2) by (simp add: cursorOf_distinct [OF d])
  then show "cursor name s = expected" by (simp add: same)
  have "cursorOf (map ?f cps) m = (if m = name then next else cursorOf cps m)"
  proof (cases "m = name")
    case True
    then show ?thesis
      using found cp(2) by (simp only: cursorOf_distinct [OF d'] find_names [OF d names]) (simp add: advanceRow_def)
  next
    case False
    have "find (\<lambda>c. cp_Name c = m) cps = Some c \<Longrightarrow> ?f c = c" for c
      using False by (auto simp: find_Some_iff advanceRow_def)
    then show ?thesis
      using False by (simp only: cursorOf_distinct [OF d'] cursorOf_distinct [OF d] find_names [OF d names])
        (auto split: option.splits)
  qed
  then show "cursor m s' = (if m = name then next else cursor m s)" by (simp add: s' same)
qed

section \<open>Page transactions\<close>

definition tables_keyed :: "rollup_db \<Rightarrow> bool" where
  "tables_keyed s \<longleftrightarrow> names_distinct s \<and> distinct (map os_key (overview_hourly s)) \<and> distinct (map os_key (overview_daily s)) \<and>
     distinct (map as_key (activity_stats s))"

lemma tables_keyed_refault [simp]:
  "names_distinct (refault s fs) = names_distinct s" "tables_keyed (refault s fs) = tables_keyed s"
  by (simp_all add: tables_keyed_def names_distinct_def)

text \<open>A page transaction that reports an error has no effect.\<close>

lemma page_failed:
  "ApplyUsageOverviewAggregationPage c n hourly daily now s = (s', Some e) \<Longrightarrow> \<exists>fs. s' = refault s fs"
  "ApplyUsageActivityAggregationPage c n rows now s = (s', Some e) \<Longrightarrow> \<exists>fs. s' = refault s fs"
  unfolding ApplyUsageOverviewAggregationPage_def ApplyUsageActivityAggregationPage_def
  by (auto elim!: atomically_cases)

lemma overview_page_applied:
  assumes "ApplyUsageOverviewAggregationPage c n hourly daily now s = (s', None)" and keyed: "tables_keyed s"
  shows "tables_keyed s'" "cursor UsageAggregationCheckpointOverview s = c" "0 \<le> c" "c < n"
    "cursor m s' = (if m = UsageAggregationCheckpointOverview then n else cursor m s)"
    "activity_stats s' = activity_stats s" "latency_stats s' = latency_stats s" "events_part s' = events_part s"
    "keyTotal (overviewCells (overview_hourly s')) k = keyTotal (overviewCells (overview_hourly s)) k + keyTotal (overviewCells hourly) k"
    "keyTotal (overviewCells (overview_daily s')) k = keyTotal (overviewCells (overview_daily s)) k + keyTotal (overviewCells daily) k"
proof -
  obtain s1 s2 s3 fs where h: "applyEach (applyOverviewRow Hourly now) hourly s = (s1, None)"
    and d: "applyEach (applyOverviewRow Daily now) daily s1 = (s2, None)"
    and adv: "AdvanceUsageAggregationCheckpoint UsageAggregationCheckpointOverview c n now s2 = (s3, None)" and s': "s' = refault s3 fs"
    using assms(1) unfolding ApplyUsageOverviewAggregationPage_def
    by (rule atomically_cases) (auto simp: overview_ApplyRows_def split: prod.splits option.splits)
  have dh: "distinct (map fst (cellsOf Hourly s))" using keyed by (simp add: tables_keyed_def)
  note H = overview_rows.rows_distinct [OF h dh] overview_rows.rows_rest [OF h dh] overview_rows.rows_total [OF h dh]
  then have dd: "distinct (map fst (cellsOf Daily s1))" using keyed by (simp add: tables_keyed_def beside_defs)
  note D = overview_rows.rows_distinct [OF d dd] overview_rows.rows_rest [OF d dd] overview_rows.rows_total [OF d dd]
  have "checkpoints s2 = checkpoints s" using H(2) D(2) by (simp add: beside_defs)
  then have n2: "names_distinct s2" and c2: "cursor m s2 = cursor m s" for m
    using keyed by (simp_all add: tables_keyed_def names_distinct_def)
  note A = Advance_effect [OF adv n2]
  show "tables_keyed s'"
    using H(1,2) D(1,2) A(1,2) keyed unfolding s' by (simp add: tables_keyed_def beside_defs beside_checkpoints_def)
  show "cursor UsageAggregationCheckpointOverview s = c" "0 \<le> c" "c < n" using A(3-5) c2 by simp_all
  show "cursor m s' = (if m = UsageAggregationCheckpointOverview then n else cursor m s)" using A(6) c2 by (simp add: s')
  show "activity_stats s' = activity_stats s" "latency_stats s' = latency_stats s" "events_part s' = events_part s"
    using H(2) D(2) A(2) unfolding s' by (simp_all add: beside_defs beside_checkpoints_def)
  show "keyTotal (overviewCells (overview_hourly s')) k = keyTotal (overviewCells (overview_hourly s)) k + keyTotal (overviewCells hourly) k"
    using H(3) D(2) A(2) unfolding s' by (simp add: beside_defs beside_checkpoints_def overviewCells_def)
  show "keyTotal (overviewCells (overview_daily s')) k = keyTotal (overviewCells (overview_daily s)) k + keyTotal (overviewCells daily) k"
    using H(2) D(3) A(2) unfolding s' by (simp add: beside_defs beside_checkpoints_def overviewCells_def)
qed

lemma activity_page_applied:
  assumes "ApplyUsageActivityAggregationPage c n rows now s = (s', None)" and keyed: "tables_keyed s"
  shows "tables_keyed s'" "cursor UsageAggregationCheckpointActivity s = c" "0 \<le> c" "c < n"
    "cursor m s' = (if m = UsageAggregationCheckpointActivity then n else cursor m s)"
    "overview_hourly s' = overview_hourly s" "overview_daily s' = overview_daily s" "latency_stats s' = latency_stats s"
    "events_part s' = events_part s"
    "keyTotal (activityCellsOf s') k = keyTotal (activityCellsOf s) k + keyTotal (activityCells rows) k"
    "true_ends loc (activity_stats s) \<Longrightarrow> row_ends loc rows \<Longrightarrow> true_ends loc (activity_stats s')"
proof -
  obtain s2 s3 fs where h: "applyEach (applyActivityRow now) rows s = (s2, None)"
    and adv: "AdvanceUsageAggregationCheckpoint UsageAggregationCheckpointActivity c n now s2 = (s3, None)" and s': "s' = refault s3 fs"
    using assms(1) unfolding ApplyUsageActivityAggregationPage_def
    by (rule atomically_cases) (auto simp: activity_ApplyRows_def split: prod.splits option.splits)
  have dh: "distinct (map fst (activityCellsOf s))" using keyed by (simp add: tables_keyed_def)
  note H = activity_rows.rows_distinct [OF h dh] activity_rows.rows_rest [OF h dh] activity_rows.rows_total [OF h dh]
  have "checkpoints s2 = checkpoints s" using H(2) by (simp add: beside_defs)
  then have n2: "names_distinct s2" and c2: "cursor m s2 = cursor m s" for m
    using keyed by (simp_all add: tables_keyed_def names_distinct_def)
  note A = Advance_effect [OF adv n2]
  show "tables_keyed s'"
    using H(1,2) A(1,2) keyed unfolding s' by (simp add: tables_keyed_def beside_defs beside_checkpoints_def)
  show "cursor UsageAggregationCheckpointActivity s = c" "0 \<le> c" "c < n" using A(3-5) c2 by simp_all
  show "cursor m s' = (if m = UsageAggregationCheckpointActivity then n else cursor m s)" using A(6) c2 by (simp add: s')
  show "overview_hourly s' = overview_hourly s" "overview_daily s' = overview_daily s" "latency_stats s' = latency_stats s"
    "events_part s' = events_part s"
    using H(2) A(2) unfolding s' by (simp_all add: beside_defs beside_checkpoints_def)
  show "keyTotal (activityCellsOf s') k = keyTotal (activityCellsOf s) k + keyTotal (activityCells rows) k"
    using H(3) A(2) unfolding s' by (simp add: beside_defs beside_checkpoints_def activityCells_def)
  show "true_ends loc (activity_stats s) \<Longrightarrow> row_ends loc rows \<Longrightarrow> true_ends loc (activity_stats s')"
    using applyEach_ends [OF h] A(2) unfolding s' by (simp add: beside_checkpoints_def)
qed

section \<open>Pages of numbered events\<close>

lemma upto_split:
  assumes "sorted_wrt (<) (map ev_ID evs)" "a \<le> m"
  shows "upto_id m evs = upto_id a evs @ filter (\<lambda>e. a < ev_ID e \<and> ev_ID e \<le> m) evs"
  using assms
proof (induction evs)
  case (Cons e evs)
  show ?case
  proof (cases "ev_ID e \<le> a")
    case False
    then have "upto_id a evs = []" using Cons.prems by (force simp: filter_empty_conv)
    then show ?thesis using Cons False by auto
  qed (use Cons in auto)
qed simp

text \<open>
  \<open>next_page evs a page\<close>: the page holds the events that follow id \<open>a\<close>, without a gap, up to its
  last id.
\<close>

definition next_page :: "UsageEvent list \<Rightarrow> int \<Rightarrow> UsageEvent list \<Rightarrow> bool" where
  "next_page evs a page \<longleftrightarrow> page \<noteq> [] \<and> 0 \<le> a \<and> sorted_wrt (<) (map ev_ID page) \<and> (\<forall>e \<in> set page. a < ev_ID e) \<and>
     upto_id (ev_ID (last page)) evs = upto_id a evs @ page"

lemma next_page_append:
  assumes "next_page evs a page" "ev_ID (last page) < n" "numberEvents n new = new"
  shows "next_page (evs @ new) a page"
proof -
  have "a < n" using assms(1,2) unfolding next_page_def by (meson last_in_set order_less_trans)
  then show ?thesis using assms upto_append [OF assms(3)] by (simp add: next_page_def del: filter_append)
qed

lemma last_largest: "sorted_wrt (<) (map ev_ID es) \<Longrightarrow> e \<in> set es \<Longrightarrow> ev_ID e \<le> ev_ID (last es)"
  by (induction es) (auto simp: less_imp_le)

lemma pageOf_next:
  assumes "sorted_wrt (<) (map ev_ID evs)" "0 \<le> a" "page = pageOf evs a target n" "page \<noteq> []"
  shows "next_page evs a page" "ev_ID (last page) \<in> ev_ID ` set evs" "ev_ID (last page) \<le> target"
    "length page < n \<Longrightarrow> upto_id (ev_ID (last page)) evs = upto_id target evs"
proof -
  define F where "F = filter (\<lambda>e. a < ev_ID e \<and> ev_ID e \<le> target) evs"
  have F: "sorted_wrt (<) (map ev_ID F)" using assms(1) sorted_wrt_filter [of "\<lambda>x y. ev_ID x < ev_ID y"]
    by (simp add: F_def sorted_wrt_map)
  have "sorted (map ev_ID F)" using F by (simp add: strict_sorted_iff)
  then have page: "page = take n F" unfolding assms(3) pageOf_def F_def [symmetric] by (metis sort_key_id_if_sorted)
  let ?m = "ev_ID (last page)"
  have sub: "set page \<subseteq> set F" unfolding page by (rule set_take_subset)
  have lastF: "last page \<in> set F" using sub assms(4) by auto
  then show "?m \<in> ev_ID ` set evs" "?m \<le> target" by (auto simp: F_def)
  have am: "a < ?m" using lastF by (simp add: F_def)
  have sp: "sorted_wrt (<) (map ev_ID page)" unfolding page using F by (simp add: sorted_wrt_take flip: take_map)
  have "sorted_wrt (<) (map ev_ID (take n F @ drop n F))" using F by simp
  then have gap: "\<forall>x \<in> set page. \<forall>y \<in> set (drop n F). ev_ID x < ev_ID y"
    unfolding page map_append sorted_wrt_append by auto
  have "filter (\<lambda>e. ev_ID e \<le> ?m) F = filter (\<lambda>e. ev_ID e \<le> ?m) (take n F) @ filter (\<lambda>e. ev_ID e \<le> ?m) (drop n F)"
    by (metis append_take_drop_id filter_append)
  also have "filter (\<lambda>e. ev_ID e \<le> ?m) (take n F) = page"
    using last_largest [OF sp] by (simp add: filter_id_conv flip: page)
  also have "filter (\<lambda>e. ev_ID e \<le> ?m) (drop n F) = []"
    using gap assms(4) by (metis (no_types, lifting) filter_False last_in_set not_le)
  finally have "filter (\<lambda>e. ev_ID e \<le> ?m) F = page" by simp
  moreover have "filter (\<lambda>e. a < ev_ID e \<and> ev_ID e \<le> ?m) evs = filter (\<lambda>e. ev_ID e \<le> ?m) F"
    unfolding F_def filter_filter using \<open>?m \<le> target\<close> by (intro filter_cong) auto
  ultimately have "filter (\<lambda>e. a < ev_ID e \<and> ev_ID e \<le> ?m) evs = page" by simp
  then have "upto_id ?m evs = upto_id a evs @ page" using upto_split [OF assms(1), of a ?m] am by simp
  then show "next_page evs a page"
    using assms(2,4) sp sub by (auto simp: next_page_def F_def)
  show "upto_id ?m evs = upto_id target evs" if "length page < n"
  proof -
    have "page = F" using that unfolding page by simp
    then show ?thesis
      using \<open>upto_id ?m evs = upto_id a evs @ page\<close> upto_split [OF assms(1), of a target] am \<open>?m \<le> target\<close> F_def by simp
  qed
qed

lemma build_cursor:
  assumes "overview_BuildRows loc page = (hourly, daily, m)" "sorted_wrt (<) (map ev_ID page)" "page \<noteq> []" "\<forall>e \<in> set page. 0 \<le> ev_ID e"
  shows "m = ev_ID (last page)"
proof -
  have "foldl max i xs = max i (last xs)" if "sorted_wrt (<) xs" "xs \<noteq> []" for i :: int and xs
    using that by (induction xs arbitrary: i) (auto simp: max_def less_imp_le dest: last_in_set)
  from this [OF assms(2)] show ?thesis
    using assms(1,3,4) by (auto simp: overview_BuildRows_parts last_map max_def)
qed

section \<open>The latency transaction\<close>

definition beside_latency where
  "beside_latency s = (overview_hourly s, overview_daily s, activity_stats s, checkpoints s, events_part s)"

lemma beside_latency_refault [simp]:
  "events_part (refault s fs) = events_part s" "beside_latency (refault s fs) = beside_latency s"
  by (simp_all add: beside_latency_def events_part_def)

lemma prepareChunks_reads: "prepareChunks rows now s = (s', r) \<Longrightarrow> \<exists>fs. s' = refault s fs"
proof (induction rows now s arbitrary: s' r rule: prepareChunks.induct)
  case (1 rows now s)
  show ?case
  proof (cases "rows = []")
    case True
    then have "s' = refault s (faults (sync_db s))" using 1(2) by (simp add: prepareChunks.simps [of "[]"] refault_def)
    then show ?thesis by blast
  next
    case False
    let ?sel = "select (\<lambda>t. filter (\<lambda>r. ls_key r \<in> ls_key ` set (take loadKeyBatchSize rows)) (latency_stats t)) s"
    obtain s1 out where sel: "?sel = (s1, out)" by fastforce
    then obtain fs where s1: "s1 = refault s fs" by (rule select_cases)
    show ?thesis
    proof (cases "\<exists>existing merged. out = Inr existing \<and> mergeChunk existing now (take loadKeyBatchSize rows) = Inr merged")
      case True
      then obtain existing merged where out: "out = Inr existing"
        and m: "mergeChunk existing now (take loadKeyBatchSize rows) = Inr merged" by blast
      obtain s2 r2 where rec: "prepareChunks (drop loadKeyBatchSize rows) now s1 = (s2, r2)" by fastforce
      have "s' = s2" using 1(2) False sel out m rec by (auto simp: prepareChunks.simps [of rows] Let_def split: sum.splits)
      then show ?thesis using 1(1) [OF False refl sel [symmetric] out m rec] s1 by auto
    next
      case False
      then have "s' = s1" using 1(2) \<open>rows \<noteq> []\<close> sel
        by (auto simp: prepareChunks.simps [of rows] Let_def split: sum.splits)
      then show ?thesis using s1 by blast
    qed
  qed
qed

lemma PrepareRows_reads: "PrepareRows rows now s = (s', r) \<Longrightarrow> \<exists>fs. s' = refault s fs"
proof -
  assume "PrepareRows rows now s = (s', r)"
  moreover have "s = refault s (faults (sync_db s))" by (simp add: refault_def)
  ultimately show ?thesis using prepareChunks_reads by (auto simp: PrepareRows_def split: if_splits option.splits)
qed

lemma writeLatencyRows_beside: "writeLatencyRows seen rows s = (s', None) \<Longrightarrow> beside_latency s' = beside_latency s"
proof (induction rows arbitrary: seen s)
  case (Cons row rows)
  have u: "updateLatency row s = (s1, r) \<Longrightarrow> beside_latency s1 = beside_latency s" for s1 r
    unfolding updateLatency_def by (elim exec_cases) (auto simp: beside_latency_def events_part_def)
  have c: "createLatency row s = (s1, r) \<Longrightarrow> beside_latency s1 = beside_latency s" for s1 r
    unfolding createLatency_def by (elim exec_cases) (auto simp: beside_latency_def events_part_def split: if_splits)
  from Cons.prems consider (up) s1 n seen' where "updateLatency row s = (s1, Inr n)" "writeLatencyRows seen' rows s1 = (s', None)"
    | (new) s1 v seen' where "createLatency row s = (s1, Inr v)" "writeLatencyRows seen' rows s1 = (s', None)"
    by (auto split: if_splits sum.splits prod.splits)
  then show ?case using Cons.IH u c by cases metis+
qed simp

lemma latency_page_failed: "ApplyUsageLatencyAggregationPage c n rows now s = (s', Some e) \<Longrightarrow> \<exists>fs. s' = refault s fs"
proof -
  assume *: "ApplyUsageLatencyAggregationPage c n rows now s = (s', Some e)"
  obtain s1 out where p: "PrepareRows rows now s = (s1, out)" by fastforce
  then obtain fs where "s1 = refault s fs" using PrepareRows_reads by blast
  then show ?thesis using * p
    by (cases out) (auto simp: ApplyUsageLatencyAggregationPage_def elim!: atomically_cases)
qed

lemma latency_page_applied:
  assumes "ApplyUsageLatencyAggregationPage c n rows now s = (s', None)" and keyed: "tables_keyed s"
  shows "tables_keyed s'" "cursor UsageAggregationCheckpointLatency s = c" "0 \<le> c" "c < n"
    "cursor m s' = (if m = UsageAggregationCheckpointLatency then n else cursor m s)"
    "overview_hourly s' = overview_hourly s" "overview_daily s' = overview_daily s" "activity_stats s' = activity_stats s"
    "events_part s' = events_part s"
proof -
  obtain s1 prepared where p: "PrepareRows rows now s = (s1, Inr prepared)"
    using assms(1) by (auto simp: ApplyUsageLatencyAggregationPage_def split: prod.splits sum.splits)
  then obtain fs where s1: "s1 = refault s fs" using PrepareRows_reads by blast
  have "atomically (\<lambda>t. case WritePreparedRows prepared t of (t', Some e) \<Rightarrow> (t', Some e)
      | (t', None) \<Rightarrow> AdvanceUsageAggregationCheckpoint UsageAggregationCheckpointLatency c n now t') s1 = (s', None)"
    using assms(1) p by (simp add: ApplyUsageLatencyAggregationPage_def)
  then obtain s2 s3 gs where w: "writeLatencyRows [] prepared s1 = (s2, None)"
    and adv: "AdvanceUsageAggregationCheckpoint UsageAggregationCheckpointLatency c n now s2 = (s3, None)" and s': "s' = refault s3 gs"
    by (rule atomically_cases) (auto simp: WritePreparedRows_def split: prod.splits option.splits)
  have W: "beside_latency s2 = beside_latency s" using writeLatencyRows_beside [OF w] s1 by simp
  then have n2: "names_distinct s2" and c2: "cursor m s2 = cursor m s" for m
    using keyed by (simp_all add: tables_keyed_def names_distinct_def beside_latency_def)
  note A = Advance_effect [OF adv n2]
  show "tables_keyed s'"
    using W A(1,2) keyed unfolding s' by (simp add: tables_keyed_def beside_latency_def beside_checkpoints_def)
  show "cursor UsageAggregationCheckpointLatency s = c" "0 \<le> c" "c < n" using A(3-5) c2 by simp_all
  show "cursor m s' = (if m = UsageAggregationCheckpointLatency then n else cursor m s)" using A(6) c2 by (simp add: s')
  show "overview_hourly s' = overview_hourly s" "overview_daily s' = overview_daily s" "activity_stats s' = activity_stats s"
    "events_part s' = events_part s"
    using W A(2) unfolding s' by (simp_all add: beside_latency_def beside_checkpoints_def)
qed

end
