(* ===== verification/Rollup_Once.thy ===== *)
theory Rollup_Once
  imports Rollup_Exact
begin

text \<open>
  The database under everything that happens to it: messages arrive and are processed, workers load
  event pages, apply them to the rollups, retry or abandon them, old rows are cleaned up, and any
  statement may fail. In every reachable database each rollup holds exactly the sums of the events
  up to its checkpoint.
\<close>

section \<open>Everything that happens to the database\<close>

text \<open>The inbox side: messages arrive, the inbox is processed, the environment changes.\<close>

inductive inbox_step :: "db \<Rightarrow> db \<Rightarrow> bool" where
  work: "inbox_work t t' \<Longrightarrow> inbox_step t t'"
| environment: "inbox_step t (t\<lparr>faults := fs, gorm_now := at, usage_identities := known\<rparr>)"

lemma inbox_step_grows:
  assumes "inbox_step t t'" "pipelineOK t"
  obtains new where "grows t new t'" "pipelineOK t'"
  using assms(1)
proof (cases rule: inbox_step.cases)
  case work
  then show ?thesis using inbox_work_grows [OF _ assms(2)] that by metis
next
  case (environment fs at known)
  then show ?thesis using that [of "[]"] assms(2) by (simp add: grows_def pipelineOK_def)
qed

text \<open>
  The reachable databases. \<open>pages\<close> are the event pages that some worker has loaded since the start,
  with the id after which they begin: any of them may be applied at any later time, any number of
  times, or never, whatever the checkpoint is by then. \<open>latest\<close> bounds the clock readings that were
  used so far.
\<close>

inductive rolled :: "Location \<Rightarrow> (int \<Rightarrow> int) \<Rightarrow> gotime \<Rightarrow> (int \<times> UsageEvent list) list \<Rightarrow> rollup_db \<Rightarrow> bool"
  for loc :: Location and bucket :: "int \<Rightarrow> int" where
  start: "inbox (sync_db s) = [] \<Longrightarrow> usage_events (sync_db s) = [] \<Longrightarrow> next_event (sync_db s) = 1 \<Longrightarrow>
    checkpoints s = [] \<Longrightarrow> overview_hourly s = [] \<Longrightarrow> overview_daily s = [] \<Longrightarrow> activity_stats s = [] \<Longrightarrow>
    latency_stats s = [] \<Longrightarrow> next_row s = 1 \<Longrightarrow> rolled loc bucket latest [] s"
| clock: "rolled loc bucket earlier pages s \<Longrightarrow> earlier \<le> latest \<Longrightarrow> rolled loc bucket latest pages s"
| ingest: "rolled loc bucket latest pages s \<Longrightarrow> inbox_step (sync_db s) t \<Longrightarrow> rolled loc bucket latest pages (s\<lparr>sync_db := t\<rparr>)"
| load: "rolled loc bucket latest pages s \<Longrightarrow> LoadUsageAggregationEventPage after target limit s = (s', Inr page) \<Longrightarrow>
    page \<noteq> [] \<Longrightarrow> rolled loc bucket latest ((after, page) # pages) s'"
| overview: "rolled loc bucket latest pages s \<Longrightarrow> (after, page) \<in> set pages \<Longrightarrow>
    overview_BuildRows loc page = (hourly, daily, next) \<Longrightarrow>
    ApplyUsageOverviewAggregationPage after next hourly daily now s = (s', r) \<Longrightarrow> rolled loc bucket latest pages s'"
| activity: "rolled loc bucket latest pages s \<Longrightarrow> (after, page) \<in> set pages \<Longrightarrow> now \<le> latest \<Longrightarrow>
    activity_BuildRows loc page now = Some (Inr rows) \<Longrightarrow>
    ApplyUsageActivityAggregationPage after (ev_ID (last page)) rows now s = (s', r) \<Longrightarrow> rolled loc bucket latest pages s'"
| latency: "rolled loc bucket latest pages s \<Longrightarrow> (after, page) \<in> set pages \<Longrightarrow> now \<le> latest \<Longrightarrow>
    latency_BuildRows loc bucket page now = Inr rows \<Longrightarrow>
    ApplyUsageLatencyAggregationPage after (ev_ID (last page)) rows now s = (s', r) \<Longrightarrow> rolled loc bucket latest pages s'"
| clean_activity: "rolled loc bucket latest pages s \<Longrightarrow> now \<le> latest \<Longrightarrow> CleanupUsageActivityStats now s = (s', r) \<Longrightarrow>
    rolled loc bucket latest pages s'"
| clean_latency: "rolled loc bucket latest pages s \<Longrightarrow> now \<le> latest \<Longrightarrow> CleanupUsageLatencyStats loc older now s = (s', r) \<Longrightarrow>
    rolled loc bucket latest pages s'"

section \<open>The structure of a reachable database\<close>

abbreviation events :: "rollup_db \<Rightarrow> UsageEvent list" where
  "events s \<equiv> usage_events (sync_db s)"

definition rollOK :: "Location \<Rightarrow> (int \<times> UsageEvent list) list \<Rightarrow> rollup_db \<Rightarrow> bool" where
  "rollOK loc pages s \<longleftrightarrow> pipelineOK (sync_db s) \<and> numbered (events s) (next_event (sync_db s)) \<and> tables_keyed s \<and>
     (\<forall>name. 0 \<le> cursor name s \<and> cursor name s < next_event (sync_db s)) \<and>
     (\<forall>(a, page) \<in> set pages. next_page (events s) a page \<and> ev_ID (last page) < next_event (sync_db s))"

lemma rollOK_refault [simp]: "rollOK loc pages (refault s fs) = rollOK loc pages s"
proof -
  have "pipelineOK (sync_db (refault s fs)) = pipelineOK (sync_db s)" by (simp add: refault_def)
  then show ?thesis by (simp add: rollOK_def)
qed

lemma load_cases:
  assumes "LoadUsageAggregationEventPage after target limit s = (s', Inr page)" "page \<noteq> []"
  obtains fs n where "s' = refault s fs" "page = pageOf (events s) after target n" "0 \<le> after"
    "n = nat (min limit usageAggregationEventPageLimit)"
proof -
  have b: "0 \<le> after" "\<not> target \<le> after" "\<not> limit \<le> 0"
    using assms by (auto simp: LoadUsageAggregationEventPage_def split: if_splits)
  define n where "n = nat (if limit > usageAggregationEventPageLimit then usageAggregationEventPageLimit else limit)"
  obtain r where "select (\<lambda>s. pageOf (events s) after target n) s = (s', r)" "r = Inr page"
    using assms(1) b unfolding LoadUsageAggregationEventPage_def n_def
    by (auto simp: Let_def split: if_splits prod.splits sum.splits)
  then obtain fs where "s' = refault s fs" "page = pageOf (events s) after target n"
    by (elim select_cases) auto
  moreover have "n = nat (min limit usageAggregationEventPageLimit)" by (simp add: n_def min_def)
  ultimately show ?thesis using that b(1) by blast
qed

lemma page_in_order:
  assumes "numbered evs n" "next_page evs a page"
  shows "sorted_wrt (<) (map ev_ID page)" "page \<noteq> []" "\<forall>e \<in> set page. 0 \<le> ev_ID e" "set page \<subseteq> set evs"
proof -
  show "sorted_wrt (<) (map ev_ID page)" "page \<noteq> []" using assms(2) by (simp_all add: next_page_def)
  have "set (upto_id (ev_ID (last page)) evs) = set (upto_id a evs) \<union> set page" using assms(2) by (simp add: next_page_def)
  then show sub: "set page \<subseteq> set evs" by auto
  then show "\<forall>e \<in> set page. 0 \<le> ev_ID e" using assms(1) by (auto simp: numbered_def less_imp_le)
qed

lemma events_part_simps:
  assumes "events_part s' = events_part s"
  shows "events s' = events s" "next_event (sync_db s') = next_event (sync_db s)" "pipelineOK (sync_db s') = pipelineOK (sync_db s)"
proof -
  have "pipelineOK (sync_db s') = pipelineOK (events_part s')" "pipelineOK (sync_db s) = pipelineOK (events_part s)"
    by (simp_all add: events_part_def)
  with assms show "pipelineOK (sync_db s') = pipelineOK (sync_db s)" by simp
  have "usage_events (events_part s) = events s" "next_event (events_part s) = next_event (sync_db s)" for s
    by (simp_all add: events_part_def)
  with assms show "events s' = events s" "next_event (sync_db s') = next_event (sync_db s)" by metis+
qed

text \<open>An applied page moves one cursor to the last id of the page; other steps move none.\<close>

lemma rollOK_advanced:
  assumes "rollOK loc pages s" "(a, page) \<in> set pages" "tables_keyed s'" "events_part s' = events_part s"
    "\<And>m. cursor m s' = (if m = name then ev_ID (last page) else cursor m s)"
  shows "rollOK loc pages s'"
proof -
  have "0 \<le> ev_ID (last page)" "ev_ID (last page) < next_event (sync_db s)"
    using assms(1,2) unfolding rollOK_def next_page_def by (fastforce dest: last_in_set)+
  then show ?thesis using assms(1,3,5) unfolding rollOK_def events_part_simps [OF assms(4)] by auto
qed

lemma rollOK_kept:
  assumes "rollOK loc pages s" "tables_keyed s'" "events_part s' = events_part s" "checkpoints s' = checkpoints s"
  shows "rollOK loc pages s'"
  using assms(1,2,4) unfolding rollOK_def events_part_simps [OF assms(3)] by simp

lemma cleanupGrains_effect:
  "cleanupGrains now grains s = (s', r) \<Longrightarrow>
   \<exists>P fs. s' = (refault s fs)\<lparr>activity_stats := filter P (activity_stats s)\<rparr> \<and>
     (\<forall>x \<in> set (activity_stats s). P x \<or> (\<exists>g. expiredActivity now g x))"
proof (induction grains arbitrary: s)
  case Nil
  then have "s' = s" by simp
  then show ?case by (intro exI [of _ "\<lambda>_. True"] exI [of _ "faults (sync_db s)"]) (simp add: refault_def)
next
  case (Cons g grains)
  show ?case
  proof (cases "Retention g = None")
    case True
    then show ?thesis using Cons by simp
  next
    case False
    let ?del = "\<lambda>t. (t\<lparr>activity_stats := filter (\<lambda>r. \<not> expiredActivity now g r) (activity_stats t)\<rparr>, Inr ())"
    obtain s1 out where ex: "exec ?del s = (s1, out)" by fastforce
    show ?thesis
    proof (cases out)
      case (Inl e)
      then obtain fs where "s1 = refault s fs" using ex by (elim exec_cases) auto
      moreover have "s' = s1" using Cons.prems False ex Inl by simp
      ultimately show ?thesis by (intro exI [of _ "\<lambda>_. True"] exI [of _ fs]) (simp add: refault_def)
    next
      case (Inr u)
      then obtain fs where s1: "s1 = (refault s fs)\<lparr>activity_stats := filter (\<lambda>r. \<not> expiredActivity now g r) (activity_stats s)\<rparr>"
        using ex by (elim exec_cases) auto
      have "cleanupGrains now grains s1 = (s', r)" using Cons.prems False ex Inr by simp
      from Cons.IH [OF this] obtain P gs where
        "s' = (refault s1 gs)\<lparr>activity_stats := filter P (activity_stats s1)\<rparr>"
        "\<forall>x \<in> set (activity_stats s1). P x \<or> (\<exists>g. expiredActivity now g x)" by blast
      then show ?thesis
        by (intro exI [of _ "\<lambda>x. \<not> expiredActivity now g x \<and> P x"] exI [of _ gs]) (auto simp: s1 refault_def)
    qed
  qed
qed

lemma cleanupLatency_beside: "cleanupLatencyTypes loc older now types s = (s', r) \<Longrightarrow>
  beside_latency s' = beside_latency s"
proof (induction types arbitrary: s)
  case (Cons ty types)
  show ?case
  proof (cases "RetentionBucketStartCutoff loc ty now")
    case (Inl e)
    then show ?thesis using Cons.prems by simp
  next
    case (Inr cutoff)
    let ?del = "\<lambda>t. (t\<lparr>latency_stats := filter (\<lambda>r. \<not> (lk_BucketType (ls_key r) = ty \<and> older (lk_BucketStart (ls_key r)) cutoff))
      (latency_stats t)\<rparr>, Inr ())"
    obtain s1 out where ex: "exec ?del s = (s1, out)" by fastforce
    then have "beside_latency s1 = beside_latency s"
      by (elim exec_cases) (auto simp: beside_latency_def events_part_def)
    then show ?thesis using Cons.prems Inr ex Cons.IH [of s1] by (cases out) auto
  qed
qed simp

lemma cleanupLatency_keeps:
  assumes "CleanupUsageLatencyStats loc older now s = (s', r)"
  shows "overview_hourly s' = overview_hourly s" "overview_daily s' = overview_daily s" "activity_stats s' = activity_stats s"
    "checkpoints s' = checkpoints s" "events s' = events s"
proof -
  have "beside_latency s' = beside_latency s"
    using assms unfolding CleanupUsageLatencyStats_def by (rule cleanupLatency_beside)
  then show "overview_hourly s' = overview_hourly s" "overview_daily s' = overview_daily s" "activity_stats s' = activity_stats s"
    "checkpoints s' = checkpoints s" "events s' = events s"
    by (auto simp: beside_latency_def dest: events_part_simps(1))
qed

lemma rolled_OK: "rolled loc bucket latest pages s \<Longrightarrow> rollOK loc pages s"
proof (induction rule: rolled.induct)
  case (start s latest)
  then show ?case
    by (simp add: rollOK_def pipelineOK_def numbered_def tables_keyed_def names_distinct_def cursorOf_def bookedKeys_def)
next
  case (ingest latest pages s t)
  then obtain new where new: "grows (sync_db s) new t" "pipelineOK t"
    using inbox_step_grows [OF ingest.hyps(2)] by (auto simp: rollOK_def)
  have n: "numbered (usage_events t) (next_event t)"
    using ingest.IH new(1) numbered_append by (auto simp: rollOK_def grows_def)
  moreover have "\<forall>(a, page) \<in> set pages. next_page (usage_events t) a page \<and> ev_ID (last page) < next_event t"
    using ingest.IH new(1) next_page_append [of _ _ _ "next_event (sync_db s)"] unfolding rollOK_def grows_def by fastforce
  ultimately show ?case
    using ingest.IH new by (auto simp: rollOK_def grows_def tables_keyed_def names_distinct_def intro: less_le_trans)
next
  case (load latest pages s after target limit s' page)
  obtain fs n where l: "s' = refault s fs" "page = pageOf (events s) after target n" "0 \<le> after"
    using load_cases [OF load.hyps(2,3)] by metis
  have "sorted_wrt (<) (map ev_ID (events s))" using load.IH by (simp add: rollOK_def numbered_def)
  note p = pageOf_next [OF this l(3,2) load.hyps(3)]
  have "ev_ID (last page) < next_event (sync_db s)" using p(2) load.IH by (auto simp: rollOK_def numbered_def)
  with p(1) have "rollOK loc ((after, page) # pages) s" using load.IH by (simp add: rollOK_def)
  then show ?case by (simp add: l(1))
next
  case (overview latest pages s after page hourly daily "next" now s' r)
  have keyed: "tables_keyed s" using overview.IH by (simp add: rollOK_def)
  show ?case
  proof (cases r)
    case None
    have "numbered (events s) (next_event (sync_db s))" "next_page (events s) after page"
      using overview.IH overview.hyps(2) by (auto simp: rollOK_def)
    from page_in_order [OF this] have "next = ev_ID (last page)" using build_cursor [OF overview.hyps(3)] by blast
    then show ?thesis
      using overview_page_applied [OF overview.hyps(4) [unfolded None] keyed] rollOK_advanced [OF overview.IH overview.hyps(2)] by metis
  next
    case (Some e)
    then show ?thesis using page_failed(1) overview.hyps(4) overview.IH by fastforce
  qed
next
  case (activity latest pages s after page now rows s' r)
  have keyed: "tables_keyed s" using activity.IH by (simp add: rollOK_def)
  show ?case
  proof (cases r)
    case None
    then show ?thesis
      using activity_page_applied [OF activity.hyps(5) [unfolded None] keyed] rollOK_advanced [OF activity.IH activity.hyps(2)] by metis
  next
    case (Some e)
    then show ?thesis using page_failed(2) activity.hyps(5) activity.IH by fastforce
  qed
next
  case (latency latest pages s after page now rows s' r)
  have keyed: "tables_keyed s" using latency.IH by (simp add: rollOK_def)
  show ?case
  proof (cases r)
    case None
    then show ?thesis
      using latency_page_applied [OF latency.hyps(5) [unfolded None] keyed] rollOK_advanced [OF latency.IH latency.hyps(2)] by metis
  next
    case (Some e)
    then show ?thesis using latency_page_failed latency.hyps(5) latency.IH by fastforce
  qed
next
  case (clean_activity latest pages s now s' r)
  obtain P fs where "s' = (refault s fs)\<lparr>activity_stats := filter P (activity_stats s)\<rparr>"
    using clean_activity.hyps(3) unfolding CleanupUsageActivityStats_def by (blast dest: cleanupGrains_effect)
  then show ?case
    by (intro rollOK_kept [OF clean_activity.IH])
       (use clean_activity.IH in \<open>auto simp: rollOK_def tables_keyed_def names_distinct_def events_part_def distinct_map_filter\<close>)
next
  case (clean_latency latest pages s now older s' r)
  have "beside_latency s' = beside_latency s"
    using clean_latency.hyps(3) unfolding CleanupUsageLatencyStats_def by (rule cleanupLatency_beside)
  then show ?case
    by (intro rollOK_kept [OF clean_latency.IH])
       (use clean_latency.IH in \<open>auto simp: rollOK_def tables_keyed_def names_distinct_def beside_latency_def\<close>)
qed

section \<open>The sums\<close>

lemma countable_page:
  assumes "countable_events cnt evs" "next_page evs a page"
  shows "countable_events cnt page"
  using countable_filter [OF assms(1), of "\<lambda>e. ev_ID e \<le> ev_ID (last page)"] assms(2) countable_append(2)
  by (simp add: next_page_def)

text \<open>The sum over the events of a key with an id up to the cursor.\<close>

definition sumUpTo :: "(UsageEvent \<Rightarrow> Counts) \<Rightarrow> (UsageEvent \<Rightarrow> bool) \<Rightarrow> string \<Rightarrow> rollup_db \<Rightarrow> Counts" where
  "sumUpTo cnt P name s = eventSum cnt P (upto_id (cursor name s) (events s))"

lemma sumUpTo_page:
  assumes "next_page (events s) (cursor name s) page" "events s' = events s" "cursor name s' = ev_ID (last page)"
  shows "sumUpTo cnt P name s' = sumUpTo cnt P name s + eventSum cnt P page"
  using assms by (simp add: sumUpTo_def next_page_def)

lemma sumUpTo_ingest:
  assumes "rollOK loc pages s" "grows (sync_db s) new t"
  shows "sumUpTo cnt P name (s\<lparr>sync_db := t\<rparr>) = sumUpTo cnt P name s"
proof -
  have "numberEvents (next_event (sync_db s)) new = new" "usage_events t = events s @ new" "cursor name s < next_event (sync_db s)"
    using assms by (auto simp: grows_def rollOK_def)
  then show ?thesis using upto_append [of "next_event (sync_db s)" new] by (simp add: sumUpTo_def del: filter_append)
qed

lemma ingest_grows:
  assumes "rollOK loc pages s" "inbox_step (sync_db s) t"
  obtains new where "grows (sync_db s) new t"
  using inbox_step_grows [OF assms(2)] assms(1) by (metis rollOK_def)

lemma sumUpTo_kept: "events s' = events s \<Longrightarrow> cursor name s' = cursor name s \<Longrightarrow> sumUpTo cnt P name s' = sumUpTo cnt P name s"
  by (simp add: sumUpTo_def)

definition overview_exact :: "Location \<Rightarrow> rollup_db \<Rightarrow> bool" where
  "overview_exact loc s \<longleftrightarrow> (\<forall>k.
     keyTotal (overviewCells (overview_hourly s)) k =
       sumUpTo eventCounts (\<lambda>e. hourKey e = k) UsageAggregationCheckpointOverview s \<and>
     keyTotal (overviewCells (overview_daily s)) k =
       sumUpTo eventCounts (\<lambda>e. dayKey loc e = k) UsageAggregationCheckpointOverview s)"

lemma overview_kept:
  assumes "overview_exact loc s" "overview_hourly s' = overview_hourly s" "overview_daily s' = overview_daily s"
    "events s' = events s" "cursor UsageAggregationCheckpointOverview s' = cursor UsageAggregationCheckpointOverview s"
  shows "overview_exact loc s'"
  using assms by (simp add: overview_exact_def sumUpTo_def)

lemma overview_refault: "overview_exact loc s \<Longrightarrow> overview_exact loc (refault s fs)"
  by (rule overview_kept) simp_all

lemma rolled_overview:
  "rolled loc bucket latest pages s \<Longrightarrow> countable_events eventCounts (events s) \<Longrightarrow> overview_exact loc s"
proof (induction rule: rolled.induct)
  case (start s latest)
  then show ?case by (simp add: overview_exact_def overviewCells_def sumUpTo_def)
next
  case (ingest latest pages s t)
  have ok: "rollOK loc pages s" using rolled_OK ingest.hyps(1) .
  obtain new where new: "grows (sync_db s) new t" using ingest_grows [OF ok ingest.hyps(2)] .
  then have "countable_events eventCounts (events s)" using ingest.prems countable_append(1) by (simp add: grows_def)
  then show ?case using ingest.IH sumUpTo_ingest [OF ok new] by (simp add: overview_exact_def)
next
  case (load latest pages s after target limit s' page)
  then obtain fs where "s' = refault s fs" using load_cases by metis
  then show ?case using load overview_refault by simp
next
  case (overview latest pages s after page hourly daily "next" now s' r)
  have ok: "rollOK loc pages s" using rolled_OK overview.hyps(1) .
  then have keyed: "tables_keyed s" and np: "next_page (events s) after page" and num: "numbered (events s) (next_event (sync_db s))"
    using overview.hyps(2) by (auto simp: rollOK_def)
  show ?case
  proof (cases r)
    case None
    note A = overview_page_applied [OF overview.hyps(4) [unfolded None] keyed]
    note E = events_part_simps [OF A(8)]
    have cnt: "countable_events eventCounts (events s)" using overview.prems E by simp
    note B = overview_BuildRows_exact(1,2) [OF countable_page [OF cnt np] overview.hyps(3)]
    have "next = ev_ID (last page)" using build_cursor [OF overview.hyps(3)] page_in_order [OF num np] by blast
    then have "sumUpTo eventCounts P UsageAggregationCheckpointOverview s' =
        sumUpTo eventCounts P UsageAggregationCheckpointOverview s + eventSum eventCounts P page" for P
      using np A(2,5) E(1) by (intro sumUpTo_page) simp_all
    then show ?thesis using overview.IH [OF cnt] A(9,10) B by (simp add: overview_exact_def)
  next
    case (Some e)
    then obtain fs where "s' = refault s fs" using page_failed(1) overview.hyps(4) by blast
    then show ?thesis using overview.IH overview.prems overview_refault by simp
  qed
next
  case (activity latest pages s after page now rows s' r)
  have keyed: "tables_keyed s" using rolled_OK [OF activity.hyps(1)] by (simp add: rollOK_def)
  show ?case
  proof (cases r)
    case None
    note A = activity_page_applied [OF activity.hyps(5) [unfolded None] keyed]
    show ?thesis
      using activity.IH activity.prems A(5,6,7) events_part_simps [OF A(9)] overview_kept by (simp add: checkpoint_names)
  next
    case (Some e)
    then obtain fs where "s' = refault s fs" using page_failed(2) activity.hyps(5) by blast
    then show ?thesis using activity.IH activity.prems overview_refault by simp
  qed
next
  case (latency latest pages s after page now rows s' r)
  have keyed: "tables_keyed s" using rolled_OK [OF latency.hyps(1)] by (simp add: rollOK_def)
  show ?case
  proof (cases r)
    case None
    note A = latency_page_applied [OF latency.hyps(5) [unfolded None] keyed]
    show ?thesis
      using latency.IH latency.prems A(5,6,7) events_part_simps [OF A(9)] overview_kept by (simp add: checkpoint_names)
  next
    case (Some e)
    then obtain fs where "s' = refault s fs" using latency_page_failed latency.hyps(5) by blast
    then show ?thesis using latency.IH latency.prems overview_refault by simp
  qed
next
  case (clean_activity latest pages s now s' r)
  then obtain P fs where "s' = (refault s fs)\<lparr>activity_stats := filter P (activity_stats s)\<rparr>"
    unfolding CleanupUsageActivityStats_def by (blast dest: cleanupGrains_effect)
  then show ?case using clean_activity.IH clean_activity.prems by - (rule overview_kept [of loc s], simp_all)
next
  case (clean_latency latest pages s now older s' r)
  note K = cleanupLatency_keeps [OF clean_latency.hyps(3)]
  then show ?case using clean_latency.IH clean_latency.prems by - (rule overview_kept [of loc s], simp_all)
next
  case (clock earlier pages s latest)
  then show ?case by blast
qed

text \<open>
  Activity rows of the limited grains are kept for a while only. A key is live as long as its
  bucket starts within the retention of every clock reading so far; the daily grain always is.
\<close>

definition live :: "gotime \<Rightarrow> activityKey \<Rightarrow> bool" where
  "live latest k \<longleftrightarrow> a_Grain k \<in> set allGrains \<and>
     (case Retention (a_Grain k) of None \<Rightarrow> True | Some retention \<Rightarrow> t_add latest (- retention) \<le> a_BucketStart k)"

lemma live_earlier: "live latest k \<Longrightarrow> now \<le> latest \<Longrightarrow> live now k"
  by (auto simp: live_def t_add_def split: option.splits)

lemma live_keys:
  assumes "regular loc" "covered e" "live now k"
  shows "k \<in> set (activityKeys loc now allGrains e) \<longleftrightarrow> k \<in> set (grainKey loc e (a_Grain k))"
proof
  assume "k \<in> set (activityKeys loc now allGrains e)"
  then show "k \<in> set (grainKey loc e (a_Grain k))" by (auto simp: activityKeys_def dest: grainKey_grain)
next
  assume k: "k \<in> set (grainKey loc e (a_Grain k))"
  have g: "a_Grain k \<in> set allGrains" using assms(3) by (simp add: live_def)
  obtain b where b: "BucketForTimestamp loc (a_Grain k) (Timestamp e) = Some (Inr b)" "b_Start b \<le> Timestamp e"
    using bucket_holds [OF assms(1) _ g] assms(2) unfolding covered_def by metis
  then have "a_BucketStart k = b_Start b" using k by (simp add: grainKey_def) (metis activityKey.select_convs(2))
  with b(2) have "a_BucketStart k \<le> Timestamp e" by simp
  then have "\<not> expired now (a_Grain k) e" using assms(3) by (auto simp: live_def expired_def split: option.splits)
  then show "k \<in> set (activityKeys loc now allGrains e)" using k g by (auto simp: activityKeys_def)
qed

definition activity_exact :: "Location \<Rightarrow> gotime \<Rightarrow> rollup_db \<Rightarrow> bool" where
  "activity_exact loc latest s \<longleftrightarrow> true_ends loc (activity_stats s) \<and> (\<forall>k. live latest k \<longrightarrow>
     keyTotal (activityCellsOf s) k =
       sumUpTo activityCounts (\<lambda>e. k \<in> set (grainKey loc e (a_Grain k))) UsageAggregationCheckpointActivity s)"

lemma activity_kept:
  assumes "activity_exact loc latest s" "activity_stats s' = activity_stats s"
    "events s' = events s" "cursor UsageAggregationCheckpointActivity s' = cursor UsageAggregationCheckpointActivity s"
  shows "activity_exact loc latest s'"
  using assms by (simp add: activity_exact_def sumUpTo_def)

lemma activity_refault: "activity_exact loc latest s \<Longrightarrow> activity_exact loc latest (refault s fs)"
  by (rule activity_kept) simp_all

lemma activity_page_exact:
  assumes reg: "regular loc" and cov: "\<forall>e \<in> set page. covered e" and cnt: "countable_events eventCounts page"
    and rows: "activity_BuildRows loc page now = Some (Inr rows)"
  shows "row_ends loc rows" "live now k \<Longrightarrow>
    keyTotal (activityCells rows) k = eventSum activityCounts (\<lambda>e. k \<in> set (grainKey loc e (a_Grain k))) page"
proof -
  note B = activity_BuildRows_exact [OF reg cov cnt, of now]
  show "row_ends loc rows" using B rows unfolding row_ends_def by (metis option.inject sum.inject(2))
  assume k: "live now k"
  have "keyTotal (activityCells rows) k = eventSum activityCounts (\<lambda>e. k \<in> set (activityKeys loc now allGrains e)) page"
    using B rows by (metis option.inject sum.inject(2))
  also have "\<dots> = eventSum activityCounts (\<lambda>e. k \<in> set (grainKey loc e (a_Grain k))) page"
    unfolding eventSum_def using cov live_keys [OF reg _ k] by (metis (mono_tags, lifting) filter_cong)
  finally show "keyTotal (activityCells rows) k = eventSum activityCounts (\<lambda>e. k \<in> set (grainKey loc e (a_Grain k))) page" .
qed

lemma cleanup_keeps_live:
  assumes "true_ends loc rows" "live now k" "\<forall>x \<in> set rows. P x \<or> (\<exists>g. expiredActivity now g x)"
  shows "keyTotal (activityCells (filter P rows)) k = keyTotal (activityCells rows) k"
  using assms(1,3)
proof (induction rows)
  case (Cons r rows)
  have "P r" if "as_key r = k"
  proof (rule ccontr)
    assume "\<not> P r"
    then obtain g where "expiredActivity now g r" using Cons.prems(2) by auto
    moreover have "a_BucketStart (as_key r) < as_BucketEnd r" using Cons.prems(1) by (simp add: true_ends_def)
    ultimately show False using that assms(2) by (auto simp: expiredActivity_def live_def split: option.splits)
  qed
  then show ?case using Cons by (auto simp: activityCells_def true_ends_def row_ends_def)
qed simp

lemma rolled_activity:
  "rolled loc bucket latest pages s \<Longrightarrow> regular loc \<Longrightarrow> countable_events eventCounts (events s) \<Longrightarrow> \<forall>e \<in> set (events s). covered e \<Longrightarrow>
   activity_exact loc latest s"
proof (induction rule: rolled.induct)
  case (start s latest)
  then show ?case by (simp add: activity_exact_def activityCells_def sumUpTo_def true_ends_def row_ends_def)
next
  case (clock earlier pages s latest)
  then show ?case by (auto simp: activity_exact_def dest: live_earlier)
next
  case (ingest latest pages s t)
  have ok: "rollOK loc pages s" using rolled_OK ingest.hyps(1) .
  obtain new where new: "grows (sync_db s) new t" using ingest_grows [OF ok ingest.hyps(2)] .
  then have "countable_events eventCounts (events s)" "\<forall>e \<in> set (events s). covered e"
    using ingest.prems countable_append(1) by (simp_all add: grows_def)
  then show ?case using ingest.IH ingest.prems(1) sumUpTo_ingest [OF ok new] by (simp add: activity_exact_def)
next
  case (load latest pages s after target limit s' page)
  then obtain fs where "s' = refault s fs" using load_cases by metis
  then show ?case using load activity_refault by simp
next
  case (overview latest pages s after page hourly daily "next" now s' r)
  have keyed: "tables_keyed s" using rolled_OK [OF overview.hyps(1)] by (simp add: rollOK_def)
  show ?case
  proof (cases r)
    case None
    note A = overview_page_applied [OF overview.hyps(4) [unfolded None] keyed]
    show ?thesis
      using overview.IH overview.prems A(5,6) events_part_simps [OF A(8)] activity_kept by (simp add: checkpoint_names)
  next
    case (Some e)
    then obtain fs where "s' = refault s fs" using page_failed(1) overview.hyps(4) by blast
    then show ?thesis using overview.IH overview.prems activity_refault by simp
  qed
next
  case (activity latest pages s after page now rows s' r)
  have ok: "rollOK loc pages s" using rolled_OK activity.hyps(1) .
  then have keyed: "tables_keyed s" and np: "next_page (events s) after page" and num: "numbered (events s) (next_event (sync_db s))"
    using activity.hyps(2) by (auto simp: rollOK_def)
  show ?case
  proof (cases r)
    case None
    note A = activity_page_applied [OF activity.hyps(5) [unfolded None] keyed]
    note E = events_part_simps [OF A(9)]
    have cnt: "countable_events eventCounts (events s)" "\<forall>e \<in> set (events s). covered e" using activity.prems E by simp_all
    then have cov: "\<forall>e \<in> set page. covered e" using page_in_order(4) [OF num np] by blast
    note B = activity_page_exact [OF activity.prems(1) cov countable_page [OF cnt(1) np] activity.hyps(4)]
    have "sumUpTo activityCounts P UsageAggregationCheckpointActivity s' =
        sumUpTo activityCounts P UsageAggregationCheckpointActivity s + eventSum activityCounts P page" for P
      using np A(2,5) E(1) by (intro sumUpTo_page) simp_all
    then show ?thesis
      using activity.IH [OF activity.prems(1) cnt] A(10,11) B live_earlier [OF _ activity.hyps(3)] by (simp add: activity_exact_def)
  next
    case (Some e)
    then obtain fs where "s' = refault s fs" using page_failed(2) activity.hyps(5) by blast
    then show ?thesis using activity.IH activity.prems activity_refault by simp
  qed
next
  case (latency latest pages s after page now rows s' r)
  have keyed: "tables_keyed s" using rolled_OK [OF latency.hyps(1)] by (simp add: rollOK_def)
  show ?case
  proof (cases r)
    case None
    note A = latency_page_applied [OF latency.hyps(5) [unfolded None] keyed]
    show ?thesis
      using latency.IH latency.prems A(5,8) events_part_simps [OF A(9)] activity_kept by (simp add: checkpoint_names)
  next
    case (Some e)
    then obtain fs where "s' = refault s fs" using latency_page_failed latency.hyps(5) by blast
    then show ?thesis using latency.IH latency.prems activity_refault by simp
  qed
next
  case (clean_activity latest pages s now s' r)
  then obtain P fs where s': "s' = (refault s fs)\<lparr>activity_stats := filter P (activity_stats s)\<rparr>"
    and gone: "\<forall>x \<in> set (activity_stats s). P x \<or> (\<exists>g. expiredActivity now g x)"
    unfolding CleanupUsageActivityStats_def by (blast dest: cleanupGrains_effect)
  have IH: "activity_exact loc latest s" using clean_activity.IH clean_activity.prems by (simp add: s')
  then have ends: "true_ends loc (activity_stats s)" by (simp add: activity_exact_def)
  then have "true_ends loc (activity_stats s')" by (auto simp: s' true_ends_def row_ends_def)
  then show ?case
    using IH cleanup_keeps_live [OF ends _ gone] live_earlier [OF _ clean_activity.hyps(2)]
    by (simp add: activity_exact_def s' sumUpTo_def)
next
  case (clean_latency latest pages s now older s' r)
  note K = cleanupLatency_keeps [OF clean_latency.hyps(3)]
  then show ?case using clean_latency.IH clean_latency.prems by - (rule activity_kept [of loc latest s], simp_all)
qed

section \<open>Exactly once\<close>

lemma distinct_row_total: "distinct (map key rows) \<Longrightarrow> r \<in> set rows \<Longrightarrow> keyTotal (map (\<lambda>r. (key r, cnt r)) rows) (key r) = cnt r"
proof (induction rows)
  case (Cons x rows)
  show ?case
  proof (cases "r = x")
    case True
    then have "key r \<notin> fst ` set (map (\<lambda>r. (key r, cnt r)) rows)" using Cons.prems by auto
    then show ?thesis using True keyTotal_absent [of "key r" "map (\<lambda>r. (key r, cnt r)) rows"] by simp
  next
    case False
    then have "r \<in> set rows" using Cons.prems(2) by simp
    then have "key x \<noteq> key r" using Cons.prems(1) by (auto intro: rev_image_eqI)
    then show ?thesis using Cons \<open>r \<in> set rows\<close> by simp
  qed
qed simp

lemma sum_requests: "RequestCount (sum_list (map eventCounts es)) = int (length es)"
  by (induction es) (simp_all add: zero_Counts_def plus_Counts_def eventCounts_def)

text \<open>An event that is counted has a row.\<close>

lemma counted_has_row:
  assumes "\<And>k. keyTotal (overviewCells rows) k = sumUpTo eventCounts (\<lambda>e. key e = k) name s"
    and "e \<in> set (events s)" "ev_ID e \<le> cursor name s"
  shows "key e \<in> os_key ` set rows"
proof (rule ccontr)
  assume "key e \<notin> os_key ` set rows"
  then have "keyTotal (overviewCells rows) (key e) = 0" by (intro keyTotal_absent) simp
  then have "RequestCount (sumUpTo eventCounts (\<lambda>x. key x = key e) name s) = 0" using assms(1) by (simp add: zero_Counts_def)
  moreover have "e \<in> set (filter (\<lambda>x. key x = key e) (upto_id (cursor name s) (events s)))" using assms(2,3) by simp
  ultimately show False by (simp add: sumUpTo_def eventSum_def sum_requests filter_empty_conv)
qed

text \<open>
  C2. The overview rollup counts every event exactly once: in every database that messages, inbox
  rounds, page loads, page applications (repeated, stale or failed), cleanups and failing
  statements can lead to, there is one hourly and one daily row per key, each holds exactly the sums
  over the events of its key with an id up to the overview checkpoint, and every event up to the
  checkpoint has its rows. The counts must be non-negative with a total below \<open>2^63\<close>.
\<close>

theorem overview_exactly_once:
  assumes "rolled loc bucket latest pages s" "countable_events eventCounts (usage_events (sync_db s))"
  shows "distinct (map os_key (overview_hourly s)) \<and> distinct (map os_key (overview_daily s)) \<and>
    (\<forall>r \<in> set (overview_hourly s).
       os_counts r = sumUpTo eventCounts (\<lambda>e. hourKey e = os_key r) UsageAggregationCheckpointOverview s) \<and>
    (\<forall>r \<in> set (overview_daily s).
       os_counts r = sumUpTo eventCounts (\<lambda>e. dayKey loc e = os_key r) UsageAggregationCheckpointOverview s) \<and>
    (\<forall>e \<in> set (usage_events (sync_db s)). ev_ID e \<le> cursorOf (checkpoints s) UsageAggregationCheckpointOverview \<longrightarrow>
       hourKey e \<in> os_key ` set (overview_hourly s) \<and> dayKey loc e \<in> os_key ` set (overview_daily s))"
proof -
  have keyed: "distinct (map os_key (overview_hourly s))" "distinct (map os_key (overview_daily s))"
    using rolled_OK [OF assms(1)] by (simp_all add: rollOK_def tables_keyed_def)
  have exact: "keyTotal (overviewCells (overview_hourly s)) k = sumUpTo eventCounts (\<lambda>e. hourKey e = k) UsageAggregationCheckpointOverview s"
    "keyTotal (overviewCells (overview_daily s)) k = sumUpTo eventCounts (\<lambda>e. dayKey loc e = k) UsageAggregationCheckpointOverview s" for k
    using rolled_overview [OF assms] by (simp_all add: overview_exact_def)
  have "os_counts r = keyTotal (overviewCells (overview_hourly s)) (os_key r)" if "r \<in> set (overview_hourly s)" for r
    unfolding overviewCells_def using distinct_row_total [OF keyed(1) that] by simp
  moreover have "os_counts r = keyTotal (overviewCells (overview_daily s)) (os_key r)" if "r \<in> set (overview_daily s)" for r
    unfolding overviewCells_def using distinct_row_total [OF keyed(2) that] by simp
  ultimately show ?thesis
    using keyed exact counted_has_row [OF exact(1)] counted_has_row [OF exact(2)] by auto
qed

text \<open>
  C13. The activity rollup counts every event exactly once per grain: whatever led to the database,
  there is at most one row per key, and for a key whose bucket starts within the retention of every
  clock reading used so far (every key of the daily grain) the stored counters are exactly the sums
  over the events of the bucket and API group with an id up to the activity checkpoint, 0 when there
  is no row, although rows are written and cleaned up at different times.
\<close>

theorem activity_exactly_once:
  assumes "rolled loc bucket latest pages s" "regular loc" "\<forall>e \<in> set (usage_events (sync_db s)). covered e"
    and "countable_events eventCounts (usage_events (sync_db s))"
  shows "distinct (map as_key (activity_stats s)) \<and>
    (\<forall>k. live latest k \<longrightarrow> keyTotal (activityCells (activity_stats s)) k =
       sumUpTo activityCounts (\<lambda>e. k \<in> set (grainKey loc e (a_Grain k))) UsageAggregationCheckpointActivity s)"
  using rolled_OK [OF assms(1)] rolled_activity [OF assms(1,2,4,3)]
  by (simp add: rollOK_def tables_keyed_def activity_exact_def)

section \<open>A concrete run\<close>

text \<open>
  The sample messages of \<open>Usage_Sync\<close> arrive and are processed; the page of their one event is
  loaded and applied to the overview and the activity, and then to the overview again by a worker
  that does not know.
\<close>

definition sampleDb :: rollup_db where
  "sampleDb = \<lparr>sync_db = emptyStore [], checkpoints = [], overview_hourly = [], overview_daily = [], activity_stats = [],
               latency_stats = [], next_row = 1\<rparr>"

definition storedDb :: rollup_db where
  "storedDb = sampleDb\<lparr>sync_db := fst (sampleRound [])\<rparr>"

lemma stored_rolled: "rolled Berlin bucket 20 [(0, [sampleEvent])] storedDb"
proof -
  have "rolled Berlin bucket 20 [] sampleDb" by (rule start) (simp_all add: sampleDb_def emptyStore_def)
  moreover have "inbox_step (sync_db sampleDb) filledStore" using work [OF sample_work(1)] by (simp add: sampleDb_def)
  ultimately have filled: "rolled Berlin bucket 20 [] (sampleDb\<lparr>sync_db := filledStore\<rparr>)" by (rule ingest)
  have "inbox_step filledStore (fst (sampleRound []))" by (rule work [OF sample_work(2)])
  then have "rolled Berlin bucket 20 [] (sampleDb\<lparr>sync_db := filledStore, sync_db := fst (sampleRound [])\<rparr>)"
    using ingest [OF filled, of "fst (sampleRound [])"] by simp
  then have "rolled Berlin bucket 20 [] storedDb" by (simp add: storedDb_def)
  moreover have "LoadUsageAggregationEventPage 0 1 1000 storedDb = (storedDb, Inr [sampleEvent])"
    by (simp add: LoadUsageAggregationEventPage_def pageOf_def select_def exec_faultless storedDb_def stored_sync
        usageAggregationEventPageLimit_def) (simp add: sampleEvent_def)
  ultimately show ?thesis by (rule load) simp
qed

lemma overview_one_event:
  "overview_BuildRows loc [e] = ([overviewRow (hourKey e, addEventToRow 0 e)], [overviewRow (dayKey loc e, addEventToRow 0 e)], max 0 (ev_ID e))"
  by (simp add: overview_BuildRows_def addToKey_def sortSlice_def max_def)

definition onceDb :: rollup_db where
  "onceDb = fst (ApplyUsageOverviewAggregationPage 0 1 [overviewRow (hourKey sampleEvent, addEventToRow 0 sampleEvent)]
     [overviewRow (dayKey Berlin sampleEvent, addEventToRow 0 sampleEvent)] 20 storedDb)"

definition twiceDb :: rollup_db where
  "twiceDb = fst (ApplyUsageOverviewAggregationPage 0 1 [overviewRow (hourKey sampleEvent, addEventToRow 0 sampleEvent)]
     [overviewRow (dayKey Berlin sampleEvent, addEventToRow 0 sampleEvent)] 20 onceDb)"

lemmas overview_page_defs = ApplyUsageOverviewAggregationPage_def atomically_def overview_ApplyRows_def applyOverviewRow_def
  updateOverview_def createOverview_def AdvanceUsageAggregationCheckpoint_def ensureCheckpoint_def advanceCheckpoint_def
  advanceRow_def checkpoint_names

lemma first_application:
  assumes "faults (sync_db s) = []" "overview_hourly s = []" "overview_daily s = []" "checkpoints s = []" "0 < n"
  shows "snd (ApplyUsageOverviewAggregationPage 0 n [h] [d] now s) = None"
  using assms by (simp add: overview_page_defs exec_faultless)

lemma once_applied:
  "ApplyUsageOverviewAggregationPage 0 1 [overviewRow (hourKey sampleEvent, addEventToRow 0 sampleEvent)]
     [overviewRow (dayKey Berlin sampleEvent, addEventToRow 0 sampleEvent)] 20 storedDb = (onceDb, None)"
  using first_application [of storedDb 1 "overviewRow (hourKey sampleEvent, addEventToRow 0 sampleEvent)"
      "overviewRow (dayKey Berlin sampleEvent, addEventToRow 0 sampleEvent)" 20]
  by (simp add: onceDb_def storedDb_def sampleDb_def stored_sync prod_eq_iff)

lemma page_rows: "overview_BuildRows Berlin [sampleEvent] = ([overviewRow (hourKey sampleEvent, addEventToRow 0 sampleEvent)],
     [overviewRow (dayKey Berlin sampleEvent, addEventToRow 0 sampleEvent)], 1)"
  by (simp only: overview_one_event) (simp add: sampleEvent_def)

lemma once_rolled: "rolled Berlin bucket 20 [(0, [sampleEvent])] onceDb"
  by (rule overview [OF stored_rolled _ page_rows once_applied]) simp

lemma twice_rolled: "rolled Berlin bucket 20 [(0, [sampleEvent])] twiceDb"
  unfolding twiceDb_def by (rule overview [OF once_rolled _ page_rows prod.collapse [symmetric]]) simp

lemma once_state: "cursor UsageAggregationCheckpointOverview onceDb = 1" "events onceDb = [sampleEvent]" "activity_stats onceDb = []"
  "cursor UsageAggregationCheckpointActivity onceDb = 0"
proof -
  have "tables_keyed storedDb" using rolled_OK [OF stored_rolled] by (simp add: rollOK_def)
  note A = overview_page_applied [OF once_applied this]
  show "cursor UsageAggregationCheckpointOverview onceDb = 1" by (simp add: A(5))
  show "cursor UsageAggregationCheckpointActivity onceDb = 0" unfolding A(5) by (simp add: checkpoint_names storedDb_def sampleDb_def cursorOf_def)
  show "activity_stats onceDb = []" by (simp add: A(6) storedDb_def sampleDb_def)
  show "events onceDb = [sampleEvent]" using events_part_simps(1) [OF A(8)] by (simp add: storedDb_def stored_sync)
qed

text \<open>The second application is refused, since the cursor has moved.\<close>

lemma twice_state: "\<exists>fs. twiceDb = refault onceDb fs"
proof -
  have keyed: "tables_keyed onceDb" using rolled_OK [OF once_rolled] by (simp add: rollOK_def)
  obtain r where r: "ApplyUsageOverviewAggregationPage 0 1 [overviewRow (hourKey sampleEvent, addEventToRow 0 sampleEvent)]
     [overviewRow (dayKey Berlin sampleEvent, addEventToRow 0 sampleEvent)] 20 onceDb = (twiceDb, r)"
    unfolding twiceDb_def by (metis prod.collapse)
  show ?thesis
  proof (cases r)
    case None
    then show ?thesis using overview_page_applied(2) [OF r [unfolded None] keyed] once_state(1) by simp
  next
    case (Some e)
    then show ?thesis using page_failed(1) r by blast
  qed
qed

lemma sample_countable: "countable_events eventCounts [sampleEvent]" "covered sampleEvent"
  by (simp_all add: countable_events_def fits_def nonneg_def eventCounts_def sampleEvent_def MaxInt64_def covered_def t_unix_def
      unixToInternal_def zero_Counts_def plus_Counts_def)

theorem overview_exactly_once_witness:
  "distinct (map os_key (overview_hourly twiceDb)) \<and>
   (\<exists>r \<in> set (overview_hourly twiceDb). os_key r = hourKey sampleEvent \<and> RequestCount (os_counts r) = 1 \<and> c_TotalTokens (os_counts r) = 14)"
proof -
  obtain fs where t: "twiceDb = refault onceDb fs" using twice_state by blast
  have s: "events twiceDb = [sampleEvent]" "cursor UsageAggregationCheckpointOverview twiceDb = 1"
    using once_state by (simp_all add: t)
  have "countable_events eventCounts (usage_events (sync_db twiceDb))" using sample_countable s by simp
  note T = overview_exactly_once [OF twice_rolled [of id] this]
  have "ev_ID sampleEvent = 1" by (simp add: sampleEvent_def)
  then have "hourKey sampleEvent \<in> os_key ` set (overview_hourly twiceDb)" using T s by simp
  then obtain r where r: "r \<in> set (overview_hourly twiceDb)" "os_key r = hourKey sampleEvent" by auto
  then have "os_counts r = eventCounts sampleEvent"
    using T s \<open>ev_ID sampleEvent = 1\<close> by (simp add: sumUpTo_def eventSum_def)
  then have "RequestCount (os_counts r) = 1 \<and> c_TotalTokens (os_counts r) = 14" by (simp add: eventCounts_def sampleEvent_def)
  then show ?thesis using T r by blast
qed

text \<open>The same event in the activity: its daily bucket in Berlin.\<close>

definition sampleActivity :: "UsageActivityStat list" where
  "sampleActivity = map (\<lambda>(g, b, e). \<lparr>as_ID = 0, as_key = \<lparr>a_Grain = g, a_BucketStart = b, a_APIGroupKey = ''codex''\<rparr>,
       as_BucketEnd = e, as_counts = Counts 0 1 0 10 4 0 0 0 0 14, as_CreatedAt = 0, as_UpdatedAt = 0\<rparr>)
     [(''daily'', - 3600000000000, 82800000000000), (''long'', - 5222000000000, 1898000000000),
      (''medium'', 0, 1661000000000), (''short'', - 40000000000, 197000000000)]"

lemma activity_rows_built: "activity_BuildRows Berlin [sampleEvent] 20 = Some (Inr sampleActivity)"
  by code_simp

definition activityDb :: rollup_db where
  "activityDb = fst (ApplyUsageActivityAggregationPage 0 1 sampleActivity 20 storedDb)"

lemmas activity_page_defs = ApplyUsageActivityAggregationPage_def atomically_def activity_ApplyRows_def applyActivityRow_def
  updateActivity_def createActivity_def AdvanceUsageAggregationCheckpoint_def ensureCheckpoint_def advanceCheckpoint_def
  advanceRow_def checkpoint_names

lemma activity_applied: "ApplyUsageActivityAggregationPage 0 1 sampleActivity 20 storedDb = (activityDb, None)"
proof -
  have "snd (ApplyUsageActivityAggregationPage 0 1 sampleActivity 20 storedDb) = None"
    by (simp add: activity_page_defs exec_faultless sampleActivity_def addActivityCounts_def storedDb_def sampleDb_def stored_sync)
  then show ?thesis by (simp add: activityDb_def prod_eq_iff)
qed

lemma activity_rolled: "rolled Berlin bucket 20 [(0, [sampleEvent])] activityDb"
proof (rule activity [OF stored_rolled _ _ activity_rows_built])
  show "ApplyUsageActivityAggregationPage 0 (ev_ID (last [sampleEvent])) sampleActivity 20 storedDb = (activityDb, None)"
    using activity_applied by (simp add: sampleEvent_def)
qed simp_all

lemma sample_daily:
  "\<lparr>a_Grain = UsageActivityGrainDaily, a_BucketStart = - 3600000000000, a_APIGroupKey = ''codex''\<rparr> \<in> set (grainKey Berlin sampleEvent UsageActivityGrainDaily)"
  by code_simp

theorem activity_exactly_once_witness:
  "keyTotal (activityCells (activity_stats activityDb))
     \<lparr>a_Grain = UsageActivityGrainDaily, a_BucketStart = - 3600000000000, a_APIGroupKey = ''codex''\<rparr> = Counts 0 1 0 10 4 0 0 0 0 14"
proof -
  have "tables_keyed storedDb" using rolled_OK [OF stored_rolled] by (simp add: rollOK_def)
  note A = activity_page_applied [OF activity_applied this]
  have s: "events activityDb = [sampleEvent]" "cursor UsageAggregationCheckpointActivity activityDb = 1"
    using events_part_simps(1) [OF A(9)] by (simp_all add: storedDb_def stored_sync A(5))
  have "\<forall>e \<in> set (usage_events (sync_db activityDb)). covered e" "countable_events eventCounts (usage_events (sync_db activityDb))"
    using sample_countable s by simp_all
  note T = activity_exactly_once [OF activity_rolled [of id] Berlin_regular this]
  let ?k = "\<lparr>a_Grain = UsageActivityGrainDaily, a_BucketStart = - 3600000000000, a_APIGroupKey = ''codex''\<rparr>"
  have "live 20 ?k" by (simp add: live_def allGrains_def Retention_def grain_defs)
  then have "keyTotal (activityCells (activity_stats activityDb)) ?k =
      sumUpTo activityCounts (\<lambda>e. ?k \<in> set (grainKey Berlin e UsageActivityGrainDaily)) UsageAggregationCheckpointActivity activityDb"
    using T by simp
  also have "\<dots> = activityCounts sampleEvent"
    using sample_daily unfolding sumUpTo_def s by (simp add: eventSum_def) (simp add: sampleEvent_def)
  finally show ?thesis by (simp add: activityCounts_def sampleEvent_def)
qed

end
