(* ===== verification/Identity_Sync.thy ===== *)
theory Identity_Sync
  imports Usage_Sync
begin

text \<open>
  The synchronisation of the credentials that CPA reports into \<open>usage_identities\<close>, and the edits
  made in Keeper (\<^verbatim>\<open>internal/repository/usage_identities.go\<close>). A replacement reads the rows of its
  authentication type, plans creations, field updates and deletions outside the writer, and then
  applies the plan in one transaction; an edit may come between the two.
  Times are instants, so that the normalisation to the storage zone is the identity.
  \<open>julianday\<close> is SQLite's function of that name, \<open>columns\<close> the column count that sizes the batches.
\<close>

section \<open>Normalisation\<close>

definition trimOptionalString :: "string option \<Rightarrow> string option" where
  "trimOptionalString v =
     (case v of None \<Rightarrow> None | Some x \<Rightarrow> (let trimmed = TrimSpace x in if trimmed = [] then None else Some trimmed))"

definition normalizeUsageIdentity :: "UsageIdentityAuthType \<Rightarrow> string \<Rightarrow> UsageIdentity \<Rightarrow> UsageIdentity" where
  "normalizeUsageIdentity authType authIndex i =
     i\<lparr>id_ID := 0, id_Alias := None, id_AuthType := authType, Identity := authIndex,
       id_Name := TrimSpace (id_Name i), id_AuthTypeName := TrimSpace (id_AuthTypeName i), id_Type := TrimSpace (id_Type i),
       id_Provider := TrimSpace (id_Provider i), id_LookupKey := TrimSpace (id_LookupKey i), id_Prefix := TrimSpace (id_Prefix i),
       id_BaseURL := TrimSpace (id_BaseURL i), id_FileName := trimOptionalString (id_FileName i),
       id_FilePath := trimOptionalString (id_FilePath i), id_Note := trimOptionalString (id_Note i),
       id_AccountID := trimOptionalString (id_AccountID i), id_ProjectID := trimOptionalString (id_ProjectID i),
       id_PlanType := trimOptionalString (id_PlanType i), IsDeleted := False, id_DeletedAt := None\<rparr>"

text \<open>The loop; the map of seen indexes has the keys \<open>incoming\<close>.\<close>

fun normalizeFrom ::
  "UsageIdentityAuthType \<Rightarrow> UsageIdentity list \<Rightarrow> UsageIdentity list \<Rightarrow> string list \<Rightarrow> UsageIdentity list \<times> string list" where
  "normalizeFrom authType [] normalized incoming = (normalized, incoming)"
| "normalizeFrom authType (i # is) normalized incoming =
     (let authIndex = TrimSpace (Identity i) in
      if authIndex = [] \<or> authIndex \<in> set incoming then normalizeFrom authType is normalized incoming
      else normalizeFrom authType is (normalized @ [normalizeUsageIdentity authType authIndex i]) (incoming @ [authIndex]))"

definition normalizeUsageIdentities ::
  "UsageIdentity list \<Rightarrow> UsageIdentityAuthType \<Rightarrow> UsageIdentity list \<times> string list" where
  "normalizeUsageIdentities is authType = normalizeFrom authType is [] []"

fun uniqueTrimmed :: "string list \<Rightarrow> string list \<Rightarrow> string list" where
  "uniqueTrimmed [] types = types"
| "uniqueTrimmed (p # ps) types =
     (let t = TrimSpace p in if t = [] \<or> t \<in> set types then uniqueTrimmed ps types else uniqueTrimmed ps (types @ [t]))"

definition normalizeProviderTypes :: "string list \<Rightarrow> string list" where
  "normalizeProviderTypes providerTypes = uniqueTrimmed providerTypes []"

section \<open>The difference of two rows\<close>

text \<open>A value for a column; \<open>F_active_until_later\<close> is the conditional expression for Codex subscriptions.\<close>

datatype identityField =
    F_name string | F_auth_type_name string | F_type string | F_provider string | F_lookup_key string
  | F_prefix string | F_base_url string | F_file_name "string option" | F_file_path "string option"
  | F_priority "int option" | F_disabled "bool option" | F_note "string option" | F_account_id "string option"
  | F_project_id "string option" | F_xai_user_id "string option" | F_active_start "gotime option"
  | F_plan_type "string option" | F_active_until "gotime option" | F_active_until_later gotime
  | F_is_deleted bool | F_deleted_at "gotime option" | F_updated_at gotime

fun setField :: "(gotime \<Rightarrow> int) \<Rightarrow> UsageIdentity \<Rightarrow> identityField \<Rightarrow> UsageIdentity" where
  "setField julianday r (F_name v) = r\<lparr>id_Name := v\<rparr>"
| "setField julianday r (F_auth_type_name v) = r\<lparr>id_AuthTypeName := v\<rparr>"
| "setField julianday r (F_type v) = r\<lparr>id_Type := v\<rparr>"
| "setField julianday r (F_provider v) = r\<lparr>id_Provider := v\<rparr>"
| "setField julianday r (F_lookup_key v) = r\<lparr>id_LookupKey := v\<rparr>"
| "setField julianday r (F_prefix v) = r\<lparr>id_Prefix := v\<rparr>"
| "setField julianday r (F_base_url v) = r\<lparr>id_BaseURL := v\<rparr>"
| "setField julianday r (F_file_name v) = r\<lparr>id_FileName := v\<rparr>"
| "setField julianday r (F_file_path v) = r\<lparr>id_FilePath := v\<rparr>"
| "setField julianday r (F_priority v) = r\<lparr>id_Priority := v\<rparr>"
| "setField julianday r (F_disabled v) = r\<lparr>id_Disabled := v\<rparr>"
| "setField julianday r (F_note v) = r\<lparr>id_Note := v\<rparr>"
| "setField julianday r (F_account_id v) = r\<lparr>id_AccountID := v\<rparr>"
| "setField julianday r (F_project_id v) = r\<lparr>id_ProjectID := v\<rparr>"
| "setField julianday r (F_xai_user_id v) = r\<lparr>id_XAIUserID := v\<rparr>"
| "setField julianday r (F_active_start v) = r\<lparr>id_ActiveStart := v\<rparr>"
| "setField julianday r (F_plan_type v) = r\<lparr>id_PlanType := v\<rparr>"
| "setField julianday r (F_active_until v) = r\<lparr>id_ActiveUntil := v\<rparr>"
| "setField julianday r (F_active_until_later v) =
     r\<lparr>id_ActiveUntil := (case id_ActiveUntil r of None \<Rightarrow> Some v
                          | Some old \<Rightarrow> if julianday old < julianday v then Some v else Some old)\<rparr>"
| "setField julianday r (F_is_deleted v) = r\<lparr>IsDeleted := v\<rparr>"
| "setField julianday r (F_deleted_at v) = r\<lparr>id_DeletedAt := v\<rparr>"
| "setField julianday r (F_updated_at v) = r\<lparr>id_UpdatedAt := v\<rparr>"

definition setFields :: "(gotime \<Rightarrow> int) \<Rightarrow> identityField list \<Rightarrow> UsageIdentity \<Rightarrow> UsageIdentity" where
  "setFields julianday fs r = foldl (setField julianday) r fs"

text \<open>\<open>optionalEqual\<close> and \<open>optionalTimeEqual\<close> are equality of options.\<close>

definition whenChanged :: "'a \<Rightarrow> 'a \<Rightarrow> ('a \<Rightarrow> identityField) \<Rightarrow> identityField list" where
  "whenChanged old new F = (if old \<noteq> new then [F new] else [])"

definition isCodexAuthFile :: "UsageIdentity \<Rightarrow> bool" where
  "isCodexAuthFile i \<longleftrightarrow> id_AuthType i = UsageIdentityAuthTypeAuthFile \<and> ToLower (TrimSpace (id_Type i)) = ''codex''"

definition activeUntilDiff :: "UsageIdentity \<Rightarrow> UsageIdentity \<Rightarrow> identityField list" where
  "activeUntilDiff existing incoming =
     (if isCodexAuthFile incoming then
        (case id_ActiveUntil incoming of
           None \<Rightarrow> []
         | Some new \<Rightarrow>
             (case id_ActiveUntil existing of
                None \<Rightarrow> [F_active_until_later new]
              | Some old \<Rightarrow> if old < new then [F_active_until_later new] else []))
      else whenChanged (id_ActiveUntil existing) (id_ActiveUntil incoming) F_active_until)"

definition usageIdentityMetadataDiff :: "UsageIdentity \<Rightarrow> UsageIdentity \<Rightarrow> identityField list" where
  "usageIdentityMetadataDiff existing incoming =
     whenChanged (id_Name existing) (id_Name incoming) F_name @
     whenChanged (id_AuthTypeName existing) (id_AuthTypeName incoming) F_auth_type_name @
     whenChanged (id_Type existing) (id_Type incoming) F_type @
     whenChanged (id_Provider existing) (id_Provider incoming) F_provider @
     whenChanged (id_LookupKey existing) (id_LookupKey incoming) F_lookup_key @
     whenChanged (id_Prefix existing) (id_Prefix incoming) F_prefix @
     whenChanged (id_BaseURL existing) (id_BaseURL incoming) F_base_url @
     whenChanged (id_FileName existing) (id_FileName incoming) F_file_name @
     whenChanged (id_FilePath existing) (id_FilePath incoming) F_file_path @
     whenChanged (id_Priority existing) (id_Priority incoming) F_priority @
     whenChanged (id_Disabled existing) (id_Disabled incoming) F_disabled @
     whenChanged (id_Note existing) (id_Note incoming) F_note @
     whenChanged (id_AccountID existing) (id_AccountID incoming) F_account_id @
     whenChanged (id_ProjectID existing) (id_ProjectID incoming) F_project_id @
     whenChanged (id_XAIUserID existing) (id_XAIUserID incoming) F_xai_user_id @
     whenChanged (id_ActiveStart existing) (id_ActiveStart incoming) F_active_start @
     whenChanged (id_PlanType existing) (id_PlanType incoming) F_plan_type @
     activeUntilDiff existing incoming @
     (if IsDeleted existing then [F_is_deleted False] else []) @
     (if id_DeletedAt existing \<noteq> None then [F_deleted_at None] else [])"

section \<open>The plan\<close>

record usageIdentityUpdate =
  up_id :: int
  up_fields :: "identityField list"
  up_oldPriority :: "int option"
  up_oldDisabled :: "bool option"

record usageIdentityChanges =
  ch_create :: "UsageIdentity list"
  ch_update :: "usageIdentityUpdate list"
  ch_staleIDs :: "int list"

definition byIdentity :: "UsageIdentity list \<Rightarrow> string \<rightharpoonup> UsageIdentity" where
  "byIdentity existing = map_of (map (\<lambda>row. (Identity row, row)) (rev existing))"

fun planIdentities ::
  "(string \<rightharpoonup> UsageIdentity) \<Rightarrow> gotime \<Rightarrow> UsageIdentity list \<Rightarrow> UsageIdentity list \<times> usageIdentityUpdate list" where
  "planIdentities known now [] = ([], [])"
| "planIdentities known now (i # is) =
     (let (create, update) = planIdentities known now is in
      case known (Identity i) of
        Some row \<Rightarrow>
          (let fields = usageIdentityMetadataDiff row i in
           (create,
            (if fields \<noteq> [] then [\<lparr>up_id = id_ID row, up_fields = fields @ [F_updated_at now],
                                     up_oldPriority = id_Priority row, up_oldDisabled = id_Disabled row\<rparr>] else []) @ update))
      | None \<Rightarrow> (i\<lparr>id_CreatedAt := now, id_UpdatedAt := now\<rparr> # create, update))"

definition isStale :: "string list \<Rightarrow> string list option \<Rightarrow> UsageIdentity \<Rightarrow> bool" where
  "isStale incoming providerTypes row \<longleftrightarrow> \<not> IsDeleted row \<and> Identity row \<notin> set incoming \<and>
     (case providerTypes of None \<Rightarrow> True | Some types \<Rightarrow> id_Type row \<in> set types)"

text \<open>\<open>providerTypes\<close> is \<open>None\<close> when the replacement is not scoped to provider types.\<close>

definition usageIdentityPlan ::
  "UsageIdentity list \<Rightarrow> string list \<Rightarrow> string list option \<Rightarrow> gotime \<Rightarrow> UsageIdentity list \<Rightarrow> usageIdentityChanges" where
  "usageIdentityPlan is incoming providerTypes now existing =
     (let (create, update) = planIdentities (byIdentity existing) now is in
      \<lparr>ch_create = create, ch_update = update, ch_staleIDs = map id_ID (filter (isStale incoming providerTypes) existing)\<rparr>)"

definition prepareUsageIdentitySync ::
  "UsageIdentity list \<Rightarrow> string list \<Rightarrow> UsageIdentityAuthType \<Rightarrow> string list option \<Rightarrow> gotime \<Rightarrow> db \<Rightarrow> db \<times> (string + usageIdentityChanges)" where
  "prepareUsageIdentitySync is incoming authType providerTypes now s =
     (case query (\<lambda>t. filter (\<lambda>r. id_AuthType r = authType) (usage_identities t)) s of
        (s', Inl e) \<Rightarrow> (s', Inl e)
      | (s', Inr existing) \<Rightarrow> (s', Inr (usageIdentityPlan is incoming providerTypes now existing)))"

section \<open>The writes\<close>

definition isPriority :: "identityField \<Rightarrow> bool" where
  "isPriority f = (case f of F_priority _ \<Rightarrow> True | _ \<Rightarrow> False)"

definition isDisabled :: "identityField \<Rightarrow> bool" where
  "isDisabled f = (case f of F_disabled _ \<Rightarrow> True | _ \<Rightarrow> False)"

text \<open>The row is written only if the editable columns of the update still have the values that were read.\<close>

definition updateApplies :: "usageIdentityUpdate \<Rightarrow> UsageIdentity \<Rightarrow> bool" where
  "updateApplies c r \<longleftrightarrow> id_ID r = up_id c \<and>
     (list_ex isPriority (up_fields c) \<longrightarrow> id_Priority r = up_oldPriority c) \<and>
     (list_ex isDisabled (up_fields c) \<longrightarrow> id_Disabled r = up_oldDisabled c)"

definition mapIdentities :: "(UsageIdentity \<Rightarrow> UsageIdentity) \<Rightarrow> db \<Rightarrow> db" where
  "mapIdentities f s = s\<lparr>usage_identities := map f (usage_identities s)\<rparr>"

definition applyUpdate :: "(gotime \<Rightarrow> int) \<Rightarrow> usageIdentityUpdate \<Rightarrow> UsageIdentity \<Rightarrow> UsageIdentity" where
  "applyUpdate julianday c r = (if updateApplies c r then setFields julianday (up_fields c) r else r)"

fun updateIdentities :: "(gotime \<Rightarrow> int) \<Rightarrow> usageIdentityUpdate list \<Rightarrow> db \<Rightarrow> db \<times> string option" where
  "updateIdentities julianday [] s = (s, None)"
| "updateIdentities julianday (c # cs) s =
     (case stmt (mapIdentities (applyUpdate julianday c)) s of
        (s', Some e) \<Rightarrow> (s', Some (''update usage identity: '' @ e))
      | (s', None) \<Rightarrow> updateIdentities julianday cs s')"

text \<open>
  An \<open>INSERT\<close> of several rows: ids go on from the largest one (rows are never removed), and a second
  row for an authentication type and identity violates the unique index.
\<close>

definition nextIdentityID :: "UsageIdentity list \<Rightarrow> int" where
  "nextIdentityID rows = Max (insert 0 (id_ID ` set rows)) + 1"

fun numberIdentities :: "int \<Rightarrow> UsageIdentity list \<Rightarrow> UsageIdentity list" where
  "numberIdentities n [] = []"
| "numberIdentities n (r # rs) = r\<lparr>id_ID := n\<rparr> # numberIdentities (n + 1) rs"

definition identityOf :: "UsageIdentity \<Rightarrow> identityKey" where
  "identityOf r = (id_AuthType r, Identity r)"

definition identitiesClash :: "UsageIdentity list \<Rightarrow> db \<Rightarrow> bool" where
  "identitiesClash rows s \<longleftrightarrow> \<not> distinct (map identityOf (usage_identities s @ rows))"

definition appendIdentities :: "UsageIdentity list \<Rightarrow> db \<Rightarrow> db" where
  "appendIdentities rows s = s\<lparr>usage_identities := usage_identities s @ numberIdentities (nextIdentityID (usage_identities s)) rows\<rparr>"

definition insertIdentities :: "UsageIdentity list \<Rightarrow> db \<Rightarrow> db \<times> string option" where
  "insertIdentities rows s =
     (if identitiesClash rows s then
        (case stmt (\<lambda>t. t) s of
           (s', Some e) \<Rightarrow> (s', Some e)
         | (s', None) \<Rightarrow> (s', Some ''UNIQUE constraint failed: usage_identities.auth_type, usage_identities.identity''))
      else stmt (appendIdentities rows) s)"

function createIdentities :: "nat \<Rightarrow> UsageIdentity list \<Rightarrow> db \<Rightarrow> db \<times> string option" where
  "createIdentities sz rows s =
     (if rows = [] \<or> sz = 0 then (s, None)
      else case insertIdentities (take sz rows) s of
             (s', Some e) \<Rightarrow> (s', Some (''create usage identities: '' @ e))
           | (s', None) \<Rightarrow> createIdentities sz (drop sz rows) s')"
  by pat_completeness auto
termination
  by (relation "measure (\<lambda>(sz, rows, s). length rows)") auto

declare createIdentities.simps [simp del]

definition markDeleted :: "int list \<Rightarrow> gotime \<Rightarrow> UsageIdentity \<Rightarrow> UsageIdentity" where
  "markDeleted staleIDs now r =
     (if id_ID r \<in> set staleIDs then r\<lparr>IsDeleted := True, id_DeletedAt := Some now, id_UpdatedAt := now\<rparr> else r)"

function markStaleUsageIdentityRowsDeleted :: "nat \<Rightarrow> int list \<Rightarrow> gotime \<Rightarrow> string \<Rightarrow> db \<Rightarrow> db \<times> string option" where
  "markStaleUsageIdentityRowsDeleted sz staleIDs now context s =
     (if staleIDs = [] \<or> sz = 0 then (s, None)
      else case stmt (mapIdentities (markDeleted (take sz staleIDs) now)) s of
             (s', Some e) \<Rightarrow> (s', Some (context @ '': '' @ e))
           | (s', None) \<Rightarrow> markStaleUsageIdentityRowsDeleted sz (drop sz staleIDs) now context s')"
  by pat_completeness auto
termination
  by (relation "measure (\<lambda>(sz, staleIDs, now, context, s). length staleIDs)") auto

declare markStaleUsageIdentityRowsDeleted.simps [simp del]

definition writeIdentityChanges ::
  "(gotime \<Rightarrow> int) \<Rightarrow> int \<Rightarrow> usageIdentityChanges \<Rightarrow> gotime \<Rightarrow> string \<Rightarrow> db \<Rightarrow> db \<times> (string + unit)" where
  "writeIdentityChanges julianday columns changes now staleContext s =
     (let sz = nat (insertBatchSize columns) in
      case updateIdentities julianday (ch_update changes) s of
        (s1, Some e) \<Rightarrow> (s1, Inl e)
      | (s1, None) \<Rightarrow>
          (case createIdentities sz (ch_create changes) s1 of
             (s2, Some e) \<Rightarrow> (s2, Inl e)
           | (s2, None) \<Rightarrow>
               (case markStaleUsageIdentityRowsDeleted sz (ch_staleIDs changes) now staleContext s2 of
                  (s3, Some e) \<Rightarrow> (s3, Inl e)
                | (s3, None) \<Rightarrow> (s3, Inr ()))))"

definition applyUsageIdentitySync ::
  "(gotime \<Rightarrow> int) \<Rightarrow> int \<Rightarrow> usageIdentityChanges \<Rightarrow> gotime \<Rightarrow> string \<Rightarrow> db \<Rightarrow> db \<times> string option" where
  "applyUsageIdentitySync julianday columns changes now staleContext s =
     (if ch_create changes = [] \<and> ch_update changes = [] \<and> ch_staleIDs changes = [] then (s, None)
      else
        (case transaction (writeIdentityChanges julianday columns changes now staleContext) s of
           (s', Inl e) \<Rightarrow> (s', Some e)
         | (s', Inr _) \<Rightarrow> (s', None)))"

definition ReplaceUsageIdentitiesForAuthType ::
  "(gotime \<Rightarrow> int) \<Rightarrow> int \<Rightarrow> UsageIdentity list \<Rightarrow> UsageIdentityAuthType \<Rightarrow> gotime \<Rightarrow> db \<Rightarrow> db \<times> string option" where
  "ReplaceUsageIdentitiesForAuthType julianday columns is authType now s =
     (if now = zero_time then (s, Some ''usage identity sync time is zero'')
      else
        (let (normalized, incoming) = normalizeUsageIdentities is authType in
         case prepareUsageIdentitySync normalized incoming authType None now s of
           (s', Inl e) \<Rightarrow> (s', Some (''list usage identities for sync: '' @ e))
         | (s', Inr changes) \<Rightarrow>
             applyUsageIdentitySync julianday columns changes now ''mark stale usage identities deleted'' s'))"

definition ReplaceUsageIdentitiesForProviderTypes ::
  "(gotime \<Rightarrow> int) \<Rightarrow> int \<Rightarrow> UsageIdentity list \<Rightarrow> string list \<Rightarrow> gotime \<Rightarrow> db \<Rightarrow> db \<times> string option" where
  "ReplaceUsageIdentitiesForProviderTypes julianday columns is providerTypes now s =
     (if now = zero_time then (s, Some ''usage identity sync time is zero'')
      else
        (let (normalized, incoming) = normalizeUsageIdentities is UsageIdentityAuthTypeAIProvider;
             types = normalizeProviderTypes providerTypes in
         case prepareUsageIdentitySync normalized incoming UsageIdentityAuthTypeAIProvider (Some types) now s of
           (s', Inl e) \<Rightarrow> (s', Some (''list provider usage identities for sync: '' @ e))
         | (s', Inr changes) \<Rightarrow>
             applyUsageIdentitySync julianday columns changes now ''mark stale provider usage identities deleted'' s'))"

section \<open>Edits\<close>

text \<open>GORM's \<open>Update\<close> of one column, which also stamps the row; it reports whether a row matched.\<close>

definition editIdentities ::
  "(UsageIdentity \<Rightarrow> bool) \<Rightarrow> (UsageIdentity \<Rightarrow> UsageIdentity) \<Rightarrow> db \<Rightarrow> db \<times> string option" where
  "editIdentities p f s =
     (let found = list_ex p (usage_identities s) in
      case stmt (\<lambda>t. mapIdentities (\<lambda>r. if p r then (f r)\<lparr>id_UpdatedAt := gorm_now t\<rparr> else r) t) s of
        (s', Some e) \<Rightarrow> (s', Some e)
      | (s', None) \<Rightarrow> (s', if found then None else Some ''record not found''))"

definition UpdateUsageIdentityAlias :: "int \<Rightarrow> string \<Rightarrow> db \<Rightarrow> db \<times> string option" where
  "UpdateUsageIdentityAlias n alias s =
     (let trimmed = TrimSpace alias in
      editIdentities (\<lambda>r. id_ID r = n \<and> \<not> IsDeleted r) (\<lambda>r. r\<lparr>id_Alias := if trimmed \<noteq> [] then Some trimmed else None\<rparr>) s)"

definition activeIdentity :: "UsageIdentityAuthType \<Rightarrow> string \<Rightarrow> UsageIdentity \<Rightarrow> bool" where
  "activeIdentity authType identity r \<longleftrightarrow> id_AuthType r = authType \<and> Identity r = identity \<and> \<not> IsDeleted r"

definition UpdateUsageIdentityDisabled :: "UsageIdentityAuthType \<Rightarrow> string \<Rightarrow> bool \<Rightarrow> db \<Rightarrow> db \<times> string option" where
  "UpdateUsageIdentityDisabled authType identity disabled s =
     (let trimmed = TrimSpace identity in
      if trimmed = [] then (s, Some ''usage identity is required'')
      else editIdentities (activeIdentity authType trimmed) (\<lambda>r. r\<lparr>id_Disabled := Some disabled\<rparr>) s)"

definition UpdateUsageIdentityPriority :: "UsageIdentityAuthType \<Rightarrow> string \<Rightarrow> int \<Rightarrow> db \<Rightarrow> db \<times> string option" where
  "UpdateUsageIdentityPriority authType identity priority s =
     editIdentities (activeIdentity authType (TrimSpace identity)) (\<lambda>r. r\<lparr>id_Priority := Some priority\<rparr>) s"

text \<open>The official subscription end; a row that does not match is not an error. SQLite's \<open>TRIM\<close>
  removes blanks only, \<open>LOWER\<close> folds ASCII.\<close>

definition sqlTrim :: "string \<Rightarrow> string" where
  "sqlTrim x = rev (dropWhile (\<lambda>c. c = CHR '' '') (rev (dropWhile (\<lambda>c. c = CHR '' '') x)))"

definition UpdateCodexUsageIdentityActiveUntil :: "UsageIdentity \<Rightarrow> gotime \<Rightarrow> db \<Rightarrow> db \<times> string option" where
  "UpdateCodexUsageIdentityActiveUntil i activeUntil s =
     (case id_AccountID i of
        None \<Rightarrow> (s, None)
      | Some account \<Rightarrow>
          if id_ID i = 0 \<or> TrimSpace account = [] \<or> activeUntil = zero_time then (s, None)
          else
            stmt (\<lambda>t. mapIdentities (\<lambda>r.
              if id_ID r = id_ID i \<and> id_AuthType r = UsageIdentityAuthTypeAuthFile \<and> Identity r = Identity i \<and>
                 id_AccountID r = Some account \<and> ToLower (sqlTrim (id_Type r)) = ''codex'' \<and> \<not> IsDeleted r
              then r\<lparr>id_ActiveUntil := Some activeUntil, id_UpdatedAt := gorm_now t\<rparr> else r) t) s)"

section \<open>Normalised input\<close>

definition reported :: "UsageIdentityAuthType \<Rightarrow> UsageIdentity list \<Rightarrow> bool" where
  "reported T inc \<longleftrightarrow> distinct (map Identity inc) \<and> (\<forall>i \<in> set inc. id_AuthType i = T \<and> \<not> IsDeleted i \<and> id_DeletedAt i = None \<and> Identity i \<noteq> [])"

lemma normalizeFrom_reported:
  "reported T acc \<Longrightarrow> normalizeFrom T is acc (map Identity acc) = (norm, inc) \<Longrightarrow> reported T norm \<and> inc = map Identity norm"
proof (induction "is" arbitrary: acc)
  case (Cons i "is")
  let ?a = "TrimSpace (Identity i)" and ?n = "normalizeUsageIdentity T (TrimSpace (Identity i)) i"
  show ?case
  proof (cases "?a = [] \<or> ?a \<in> Identity ` set acc")
    case True
    then have "normalizeFrom T is acc (map Identity acc) = (norm, inc)" using Cons.prems(2) by (auto simp: Let_def)
    then show ?thesis using Cons.IH Cons.prems(1) by blast
  next
    case False
    then have "reported T (acc @ [?n])" using Cons.prems(1) by (auto simp: reported_def normalizeUsageIdentity_def)
    moreover have "normalizeFrom T is (acc @ [?n]) (map Identity (acc @ [?n])) = (norm, inc)"
      using False Cons.prems(2) by (simp add: normalizeUsageIdentity_def Let_def)
    ultimately show ?thesis using Cons.IH by blast
  qed
qed simp

lemma normalize_reported:
  "normalizeUsageIdentities is T = (norm, inc) \<Longrightarrow> reported T norm \<and> inc = map Identity norm"
  using normalizeFrom_reported [of T "[]" "is"] by (simp add: normalizeUsageIdentities_def reported_def)

section \<open>Writing the difference\<close>

definition mergedUntil :: "(gotime \<Rightarrow> int) \<Rightarrow> UsageIdentity \<Rightarrow> UsageIdentity \<Rightarrow> gotime option" where
  "mergedUntil julianday r i =
     (if isCodexAuthFile i then
        (case (id_ActiveUntil i, id_ActiveUntil r) of
           (None, old) \<Rightarrow> old
         | (Some new, None) \<Rightarrow> Some new
         | (Some new, Some old) \<Rightarrow> if old < new \<and> julianday old < julianday new then Some new else Some old)
      else id_ActiveUntil i)"

text \<open>The row with everything that CPA reports taken over.\<close>

definition takeOver :: "(gotime \<Rightarrow> int) \<Rightarrow> UsageIdentity \<Rightarrow> UsageIdentity \<Rightarrow> UsageIdentity" where
  "takeOver julianday i r =
     r\<lparr>id_Name := id_Name i, id_AuthTypeName := id_AuthTypeName i, id_Type := id_Type i, id_Provider := id_Provider i,
       id_LookupKey := id_LookupKey i, id_Prefix := id_Prefix i, id_BaseURL := id_BaseURL i, id_FileName := id_FileName i,
       id_FilePath := id_FilePath i, id_Priority := id_Priority i, id_Disabled := id_Disabled i, id_Note := id_Note i,
       id_AccountID := id_AccountID i, id_ProjectID := id_ProjectID i, id_XAIUserID := id_XAIUserID i,
       id_ActiveStart := id_ActiveStart i, id_PlanType := id_PlanType i, id_ActiveUntil := mergedUntil julianday r i,
       IsDeleted := False, id_DeletedAt := None\<rparr>"

lemma setFields_append [simp]: "setFields j (fs @ gs) r = setFields j gs (setFields j fs r)"
  by (simp add: setFields_def)

lemma setFields_changed [simp]:
  "id_Name r = old \<Longrightarrow> setFields j (whenChanged old v F_name) r = r\<lparr>id_Name := v\<rparr>"
  "id_AuthTypeName r = old \<Longrightarrow> setFields j (whenChanged old v F_auth_type_name) r = r\<lparr>id_AuthTypeName := v\<rparr>"
  "id_Type r = old \<Longrightarrow> setFields j (whenChanged old v F_type) r = r\<lparr>id_Type := v\<rparr>"
  "id_Provider r = old \<Longrightarrow> setFields j (whenChanged old v F_provider) r = r\<lparr>id_Provider := v\<rparr>"
  "id_LookupKey r = old \<Longrightarrow> setFields j (whenChanged old v F_lookup_key) r = r\<lparr>id_LookupKey := v\<rparr>"
  "id_Prefix r = old \<Longrightarrow> setFields j (whenChanged old v F_prefix) r = r\<lparr>id_Prefix := v\<rparr>"
  "id_BaseURL r = old \<Longrightarrow> setFields j (whenChanged old v F_base_url) r = r\<lparr>id_BaseURL := v\<rparr>"
  "id_FileName r = oldo \<Longrightarrow> setFields j (whenChanged oldo vo F_file_name) r = r\<lparr>id_FileName := vo\<rparr>"
  "id_FilePath r = oldo \<Longrightarrow> setFields j (whenChanged oldo vo F_file_path) r = r\<lparr>id_FilePath := vo\<rparr>"
  "id_Priority r = oldp \<Longrightarrow> setFields j (whenChanged oldp vp F_priority) r = r\<lparr>id_Priority := vp\<rparr>"
  "id_Disabled r = oldd \<Longrightarrow> setFields j (whenChanged oldd vd F_disabled) r = r\<lparr>id_Disabled := vd\<rparr>"
  "id_Note r = oldo \<Longrightarrow> setFields j (whenChanged oldo vo F_note) r = r\<lparr>id_Note := vo\<rparr>"
  "id_AccountID r = oldo \<Longrightarrow> setFields j (whenChanged oldo vo F_account_id) r = r\<lparr>id_AccountID := vo\<rparr>"
  "id_ProjectID r = oldo \<Longrightarrow> setFields j (whenChanged oldo vo F_project_id) r = r\<lparr>id_ProjectID := vo\<rparr>"
  "id_XAIUserID r = oldo \<Longrightarrow> setFields j (whenChanged oldo vo F_xai_user_id) r = r\<lparr>id_XAIUserID := vo\<rparr>"
  "id_ActiveStart r = oldt \<Longrightarrow> setFields j (whenChanged oldt vt F_active_start) r = r\<lparr>id_ActiveStart := vt\<rparr>"
  "id_PlanType r = oldo \<Longrightarrow> setFields j (whenChanged oldo vo F_plan_type) r = r\<lparr>id_PlanType := vo\<rparr>"
  "id_ActiveUntil r = oldt \<Longrightarrow> setFields j (whenChanged oldt vt F_active_until) r = r\<lparr>id_ActiveUntil := vt\<rparr>"
  by (simp_all add: setFields_def whenChanged_def)

lemma setFields_undelete [simp]:
  "IsDeleted r = old \<Longrightarrow> setFields j (if old then [F_is_deleted False] else []) r = r\<lparr>IsDeleted := False\<rparr>"
  "id_DeletedAt r = at \<Longrightarrow> setFields j (if at \<noteq> None then [F_deleted_at None] else []) r = r\<lparr>id_DeletedAt := None\<rparr>"
  by (auto simp: setFields_def)

lemma setFields_until [simp]:
  "id_ActiveUntil r = id_ActiveUntil r0 \<Longrightarrow> setFields j (activeUntilDiff r0 i) r = r\<lparr>id_ActiveUntil := mergedUntil j r0 i\<rparr>"
  by (cases "isCodexAuthFile i"; cases "id_ActiveUntil i"; cases "id_ActiveUntil r0")
     (auto simp: activeUntilDiff_def mergedUntil_def setFields_def whenChanged_def)

lemma diff_takes_over: "setFields j (usageIdentityMetadataDiff r i) r = takeOver j i r"
  unfolding usageIdentityMetadataDiff_def takeOver_def setFields_append by (simp del: not_None_eq)

section \<open>The effect of a plan\<close>

text \<open>The table: ids and keys are unique, ids are positive.\<close>

definition keyed :: "UsageIdentity list \<Rightarrow> bool" where
  "keyed rows \<longleftrightarrow> distinct (map id_ID rows) \<and> distinct (map identityOf rows) \<and> (\<forall>r \<in> set rows. 0 < id_ID r)"

definition rowUpdate :: "(string \<rightharpoonup> UsageIdentity) \<Rightarrow> gotime \<Rightarrow> UsageIdentity \<Rightarrow> usageIdentityUpdate list" where
  "rowUpdate known now i =
     (case known (Identity i) of
        None \<Rightarrow> []
      | Some row \<Rightarrow>
          if usageIdentityMetadataDiff row i = [] then []
          else [\<lparr>up_id = id_ID row, up_fields = usageIdentityMetadataDiff row i @ [F_updated_at now],
                 up_oldPriority = id_Priority row, up_oldDisabled = id_Disabled row\<rparr>])"

lemma planIdentities_conv:
  "planIdentities known now is =
     (map (\<lambda>i. i\<lparr>id_CreatedAt := now, id_UpdatedAt := now\<rparr>) (filter (\<lambda>i. known (Identity i) = None) is),
      concat (map (rowUpdate known now) is))"
  by (induction "is") (auto simp: rowUpdate_def Let_def split: option.splits)

lemma byIdentity_rows:
  assumes "keyed rows" "existing = filter (\<lambda>r. id_AuthType r = T) rows"
  shows "byIdentity existing k = Some r \<longleftrightarrow> r \<in> set rows \<and> identityOf r = (T, k)"
    "byIdentity existing k = None \<longleftrightarrow> (T, k) \<notin> identityOf ` set rows"
proof -
  have "distinct (map identityOf existing)" using assms by (simp add: keyed_def distinct_map_filter)
  then have inj: "inj_on identityOf (set existing)" "distinct existing" by (simp_all add: distinct_map)
  then have "distinct (map Identity (rev existing))"
    using assms(2) by (auto simp: distinct_map inj_on_def identityOf_def)
  then have "byIdentity existing k = Some r \<longleftrightarrow> r \<in> set existing \<and> Identity r = k" for r
    unfolding byIdentity_def by (subst map_of_eq_Some_iff) (auto simp: rev_map comp_def)
  then show *: "byIdentity existing k = Some r \<longleftrightarrow> r \<in> set rows \<and> identityOf r = (T, k)" for r
    using assms(2) by (auto simp: identityOf_def)
  have "byIdentity existing k = None \<longleftrightarrow> (\<forall>r. byIdentity existing k \<noteq> Some r)" by (metis not_Some_eq)
  then show "byIdentity existing k = None \<longleftrightarrow> (T, k) \<notin> identityOf ` set rows" by (auto simp: * image_iff)
qed

text \<open>Each update finds its row as it was read.\<close>

lemma updates_elsewhere: "\<forall>c \<in> set cs. up_id c \<noteq> id_ID r \<Longrightarrow> foldl (\<lambda>r c. applyUpdate j c r) r cs = r"
  by (induction cs arbitrary: r) (auto simp: applyUpdate_def updateApplies_def)

definition refresh :: "(gotime \<Rightarrow> int) \<Rightarrow> gotime \<Rightarrow> UsageIdentity \<Rightarrow> UsageIdentity \<Rightarrow> UsageIdentity" where
  "refresh j now i r = (if usageIdentityMetadataDiff r i = [] then r else (takeOver j i r)\<lparr>id_UpdatedAt := now\<rparr>)"

lemma rowUpdate_applied:
  assumes "known (Identity i) = Some r"
  shows "foldl (\<lambda>r c. applyUpdate j c r) r (rowUpdate known now i) = refresh j now i r"
  using assms by (simp add: rowUpdate_def refresh_def applyUpdate_def updateApplies_def diff_takes_over)
     (simp add: setFields_def)

lemma refresh_keys [simp]: "id_ID (refresh j now i r) = id_ID r" "identityOf (refresh j now i r) = identityOf r"
  "id_AuthType (refresh j now i r) = id_AuthType r" "Identity (refresh j now i r) = Identity r"
  by (simp_all add: refresh_def takeOver_def identityOf_def)

definition findIdentity :: "UsageIdentity list \<Rightarrow> string \<Rightarrow> UsageIdentity option" where
  "findIdentity inc k = find (\<lambda>i. Identity i = k) inc"

lemma rowUpdate_from:
  assumes "c \<in> set (rowUpdate known now k)"
  obtains row where "known (Identity k) = Some row" "up_id c = id_ID row" "up_oldPriority c = id_Priority row"
    "up_oldDisabled c = id_Disabled row"
  using assms that by (cases "known (Identity k)") (auto simp: rowUpdate_def split: if_splits)

lemma plan_updates_row:
  assumes "keyed rows" "known = byIdentity (filter (\<lambda>r. id_AuthType r = T) rows)" "r \<in> set rows"
    and "distinct (map Identity inc)"
  shows "foldl (\<lambda>r c. applyUpdate j c r) r (concat (map (rowUpdate known now) inc)) =
    (case findIdentity inc (Identity r) of
       Some i \<Rightarrow> if id_AuthType r = T then refresh j now i r else r
     | None \<Rightarrow> r)"
  using assms(4)
proof (induction inc)
  case (Cons i inc)
  note K = byIdentity_rows [OF assms(1) refl, where T = T, folded assms(2)]
  have other: "up_id c \<noteq> id_ID r" if c: "c \<in> set (rowUpdate known now k)" and "\<not> (id_AuthType r = T \<and> Identity k = Identity r)" for c k
  proof -
    obtain row where row: "row \<in> set rows" "identityOf row = (T, Identity k)" "up_id c = id_ID row"
      using c by (rule rowUpdate_from) (auto simp: K)
    then have "row \<noteq> r" using that(2) by (auto simp: identityOf_def)
    then show ?thesis using row(1,3) assms(1,3) by (auto simp: keyed_def distinct_map dest: inj_onD)
  qed
  show ?case
  proof (cases "Identity i = Identity r \<and> id_AuthType r = T")
    case True
    then have "known (Identity i) = Some r" using K(1) assms(3) by (simp add: identityOf_def)
    note here = rowUpdate_applied [where j = j and now = now and known = known and i = i and r = r, OF this]
    have "\<forall>c \<in> set (concat (map (rowUpdate known now) inc)). up_id c \<noteq> id_ID r"
    proof
      fix c assume "c \<in> set (concat (map (rowUpdate known now) inc))"
      then obtain k where k: "k \<in> set inc" "c \<in> set (rowUpdate known now k)" by auto
      then have "Identity k \<noteq> Identity i" using Cons.prems by (auto intro: rev_image_eqI)
      then show "up_id c \<noteq> id_ID r" using True by (intro other [OF k(2)]) auto
    qed
    then have "\<forall>c \<in> set (concat (map (rowUpdate known now) inc)). up_id c \<noteq> id_ID (refresh j now i r)" by simp
    from updates_elsewhere [OF this] here show ?thesis using True by (simp add: findIdentity_def)
  next
    case False
    then have "foldl (\<lambda>r c. applyUpdate j c r) r (rowUpdate known now i) = r"
      by (intro updates_elsewhere ballI other) auto
    then show ?thesis using Cons False by (auto simp: findIdentity_def split: option.splits)
  qed
qed (simp add: findIdentity_def)

section \<open>The writes without faults\<close>

lemma updateIdentities_clean:
  "faults s = [] \<Longrightarrow> updateIdentities j cs s = (mapIdentities (\<lambda>r. foldl (\<lambda>r c. applyUpdate j c r) r cs) s, None)"
  by (induction cs arbitrary: s) (simp_all add: mapIdentities_def comp_def)

lemma numberIdentities_append:
  "numberIdentities n (a @ b) = numberIdentities n a @ numberIdentities (n + int (length a)) b"
  by (induction a arbitrary: n) (simp_all add: algebra_simps)

lemma numberIdentities_keys [simp]:
  "map identityOf (numberIdentities n rows) = map identityOf rows"
  "map id_ID (numberIdentities n rows) = map (\<lambda>k. n + int k) [0..<length rows]"
proof (induction rows arbitrary: n)
  case (Cons r rows)
  { case 1 then show ?case using Cons by (simp add: identityOf_def) }
  { case 2
    have "map (\<lambda>k. n + int k) [0..<length (r # rows)] = n # map (\<lambda>k. n + 1 + int k) [0..<length rows]"
      by (simp add: upt_conv_Cons del: upt_Suc flip: map_Suc_upt)
    then show ?case using Cons by simp }
qed simp_all

lemma nextIdentityID_bound: "r \<in> set rows \<Longrightarrow> id_ID r < nextIdentityID rows" "0 < nextIdentityID rows"
proof -
  have "id_ID r \<le> Max (insert 0 (id_ID ` set rows))" if "r \<in> set rows" using that by (intro Max_ge) auto
  moreover have "0 \<le> Max (insert 0 (id_ID ` set rows))" by (rule Max_ge) auto
  ultimately show "r \<in> set rows \<Longrightarrow> id_ID r < nextIdentityID rows" "0 < nextIdentityID rows"
    by (simp_all add: nextIdentityID_def)
qed

lemma nextIdentityID_append:
  "nextIdentityID (rows @ numberIdentities (nextIdentityID rows) b) = nextIdentityID rows + int (length b)"
proof -
  let ?n = "nextIdentityID rows"
  have new: "id_ID ` set (numberIdentities ?n b) = (\<lambda>k. ?n + int k) ` {..<length b}"
    using numberIdentities_keys(2) [of ?n b] by (metis atLeast0LessThan atLeastLessThan_upt list.set_map)
  have "Max (insert 0 (id_ID ` set (rows @ numberIdentities ?n b))) = ?n + int (length b) - 1"
  proof (rule Max_eqI)
    fix y
    assume "y \<in> insert 0 (id_ID ` set (rows @ numberIdentities ?n b))"
    then consider "y = 0" | r where "r \<in> set rows" "y = id_ID r" | k where "k < length b" "y = ?n + int k"
      unfolding set_append image_Un new by blast
    then show "y \<le> ?n + int (length b) - 1"
      by cases (use nextIdentityID_bound [where rows = rows] in \<open>fastforce simp: algebra_simps\<close>)+
  next
    show "?n + int (length b) - 1 \<in> insert 0 (id_ID ` set (rows @ numberIdentities ?n b))"
    proof (cases b)
      case Nil
      have "Max (insert 0 (id_ID ` set rows)) \<in> insert 0 (id_ID ` set rows)" by (rule Max_in) auto
      then show ?thesis using Nil by (simp add: nextIdentityID_def)
    next
      case (Cons x xs)
      then have "?n + int (length b) - 1 \<in> (\<lambda>k. ?n + int k) ` {..<length b}" by (intro image_eqI [of _ _ "length xs"]) auto
      then show ?thesis by (simp only: set_append image_Un new) blast
    qed
  qed simp
  then show ?thesis by (simp add: nextIdentityID_def)
qed

lemma appendIdentities_append: "appendIdentities b (appendIdentities a s) = appendIdentities (a @ b) s"
  by (simp add: appendIdentities_def numberIdentities_append nextIdentityID_append)

lemma createIdentities_clean:
  "faults s = [] \<Longrightarrow> distinct (map identityOf (usage_identities s @ rows)) \<Longrightarrow> 0 < sz \<Longrightarrow>
   createIdentities sz rows s = (appendIdentities rows s, None)"
proof (induction sz rows s rule: createIdentities.induct)
  case (1 sz rows s)
  show ?case
  proof (cases "rows = []")
    case False
    let ?s = "appendIdentities (take sz rows) s"
    have d: "distinct (map identityOf (usage_identities s @ take sz rows) @ map identityOf (drop sz rows))"
      using 1(3) by (metis append.assoc append_take_drop_id map_append)
    then have "\<not> identitiesClash (take sz rows) s" unfolding distinct_append identitiesClash_def by blast
    then have ins: "insertIdentities (take sz rows) s = (?s, None)" using 1(2) by (simp add: insertIdentities_def)
    have "createIdentities sz (drop sz rows) ?s = (appendIdentities (drop sz rows) ?s, None)"
    proof (rule 1(1) [OF _ ins [symmetric]])
      show "distinct (map identityOf (usage_identities ?s @ drop sz rows))" using d by (simp only: appendIdentities_def) simp
    qed (use 1(2,4) False in \<open>simp_all add: appendIdentities_def\<close>)
    then show ?thesis using False 1(4) ins by (simp add: createIdentities.simps [of sz rows] appendIdentities_append)
  qed (simp add: createIdentities.simps appendIdentities_def)
qed

lemma markDeleted_append: "markDeleted b now (markDeleted a now r) = markDeleted (a @ b) now r"
  by (auto simp: markDeleted_def)

lemma markStale_clean:
  "faults s = [] \<Longrightarrow> 0 < sz \<Longrightarrow>
   markStaleUsageIdentityRowsDeleted sz staleIDs now c s = (mapIdentities (markDeleted staleIDs now) s, None)"
proof (induction sz staleIDs now c s rule: markStaleUsageIdentityRowsDeleted.induct)
  case (1 sz staleIDs now c s)
  show ?case
  proof (cases "staleIDs = []")
    case False
    let ?s = "mapIdentities (markDeleted (take sz staleIDs) now) s"
    have st: "stmt (mapIdentities (markDeleted (take sz staleIDs) now)) s = (?s, None)" using 1(2) by simp
    have "markStaleUsageIdentityRowsDeleted sz (drop sz staleIDs) now c ?s =
        (mapIdentities (markDeleted (drop sz staleIDs) now) ?s, None)"
      using 1(2,3) False by (intro 1(1) [OF _ st [symmetric]]) (simp_all add: mapIdentities_def)
    then show ?thesis using False 1(3) st
      by (simp add: markStaleUsageIdentityRowsDeleted.simps [of sz staleIDs] mapIdentities_def comp_def markDeleted_append)
  qed (simp add: markStaleUsageIdentityRowsDeleted.simps mapIdentities_def markDeleted_def [abs_def])
qed

section \<open>A replacement in one pass\<close>

text \<open>
  What a replacement means for a row: reported credentials are taken over, other active rows of the
  scope are deleted, everything else stays. Reported credentials without a row are appended.
\<close>

definition replaceRow ::
  "(gotime \<Rightarrow> int) \<Rightarrow> UsageIdentityAuthType \<Rightarrow> UsageIdentity list \<Rightarrow> string list option \<Rightarrow> gotime \<Rightarrow> UsageIdentity \<Rightarrow> UsageIdentity" where
  "replaceRow j T inc types now r =
     (if id_AuthType r \<noteq> T then r
      else case findIdentity inc (Identity r) of
             Some i \<Rightarrow> refresh j now i r
           | None \<Rightarrow>
               if IsDeleted r \<or> (case types of None \<Rightarrow> False | Some ts \<Rightarrow> id_Type r \<notin> set ts) then r
               else r\<lparr>IsDeleted := True, id_DeletedAt := Some now, id_UpdatedAt := now\<rparr>)"

definition createdRows :: "UsageIdentityAuthType \<Rightarrow> UsageIdentity list \<Rightarrow> gotime \<Rightarrow> UsageIdentity list \<Rightarrow> UsageIdentity list" where
  "createdRows T inc now rows =
     numberIdentities (nextIdentityID rows)
       (map (\<lambda>i. i\<lparr>id_CreatedAt := now, id_UpdatedAt := now\<rparr>) (filter (\<lambda>i. (T, Identity i) \<notin> identityOf ` set rows) inc))"

definition replaced ::
  "(gotime \<Rightarrow> int) \<Rightarrow> UsageIdentityAuthType \<Rightarrow> UsageIdentity list \<Rightarrow> string list option \<Rightarrow> gotime \<Rightarrow> UsageIdentity list \<Rightarrow> UsageIdentity list" where
  "replaced j T inc types now rows = map (replaceRow j T inc types now) rows @ createdRows T inc now rows"

lemma findIdentity_None: "findIdentity inc k = None \<longleftrightarrow> k \<notin> set (map Identity inc)"
  by (auto simp: findIdentity_def find_None_iff)

lemma findIdentity_Some: "findIdentity inc k = Some i \<Longrightarrow> i \<in> set inc \<and> Identity i = k"
  by (auto simp: findIdentity_def find_Some_iff)

lemma stale_row:
  assumes "keyed rows" "r \<in> set rows"
    and stale: "stale = map id_ID (filter (isStale (map Identity inc) types) (filter (\<lambda>r. id_AuthType r = T) rows))"
  shows "markDeleted stale now
      (case findIdentity inc (Identity r) of Some i \<Rightarrow> if id_AuthType r = T then refresh j now i r else r | None \<Rightarrow> r) =
    replaceRow j T inc types now r"
proof -
  have "id_ID r \<in> set stale \<longleftrightarrow> id_AuthType r = T \<and> isStale (map Identity inc) types r"
  proof
    assume "id_ID r \<in> set stale"
    then obtain x where "x \<in> set rows" "id_AuthType x = T" "isStale (map Identity inc) types x" "id_ID x = id_ID r"
      by (auto simp: stale)
    then show "id_AuthType r = T \<and> isStale (map Identity inc) types r"
      using assms(1,2) by (metis distinct_map inj_onD keyed_def)
  qed (use assms(2) in \<open>auto simp: stale\<close>)
  moreover have "isStale (map Identity inc) types r \<longleftrightarrow> \<not> IsDeleted r \<and> findIdentity inc (Identity r) = None \<and>
      \<not> (case types of None \<Rightarrow> False | Some ts \<Rightarrow> id_Type r \<notin> set ts)"
    unfolding isStale_def findIdentity_None by (cases types) simp_all
  ultimately show ?thesis
    by (cases "findIdentity inc (Identity r)"; cases "id_AuthType r = T") (simp_all add: markDeleted_def replaceRow_def)
qed

lemma write_clean:
  assumes clean: "faults s = []" and k: "keyed (usage_identities s)" and inc: "reported T inc"
    and ch: "ch = usageIdentityPlan inc (map Identity inc) types now (filter (\<lambda>r. id_AuthType r = T) (usage_identities s))"
  shows "writeIdentityChanges j columns ch now c s = (s\<lparr>usage_identities := replaced j T inc types now (usage_identities s)\<rparr>, Inr ())"
proof -
  let ?rows = "usage_identities s"
  define known where "known = byIdentity (filter (\<lambda>r. id_AuthType r = T) ?rows)"
  define updated where "updated r = (case findIdentity inc (Identity r) of Some i \<Rightarrow> if id_AuthType r = T then refresh j now i r else r | None \<Rightarrow> r)" for r
  define create where "create = map (\<lambda>i. i\<lparr>id_CreatedAt := now, id_UpdatedAt := now\<rparr>) (filter (\<lambda>i. (T, Identity i) \<notin> identityOf ` set ?rows) inc)"
  define stale where "stale = map id_ID (filter (isStale (map Identity inc) types) (filter (\<lambda>r. id_AuthType r = T) ?rows))"
  have sz: "0 < nat (insertBatchSize columns)" using insertBatchSize_pos by simp
  have ch': "ch_create ch = create" "ch_update ch = concat (map (rowUpdate known now) inc)" "ch_staleIDs ch = stale"
    using byIdentity_rows(2) [OF k refl, where T = T]
    by (simp_all add: ch usageIdentityPlan_def planIdentities_conv create_def known_def stale_def)
  have up: "updateIdentities j (ch_update ch) s = (mapIdentities updated s, None)"
  proof -
    have "foldl (\<lambda>r c. applyUpdate j c r) r (concat (map (rowUpdate known now) inc)) = updated r" if "r \<in> set ?rows" for r
      unfolding updated_def using plan_updates_row [OF k known_def that] inc by (simp add: reported_def)
    then show ?thesis unfolding updateIdentities_clean [OF clean] ch' mapIdentities_def by simp
  qed
  let ?s1 = "mapIdentities updated s"
  have keys: "map id_ID (usage_identities ?s1) = map id_ID ?rows" "map identityOf (usage_identities ?s1) = map identityOf ?rows"
    by (auto simp: mapIdentities_def updated_def split: option.splits)
  have "distinct (map identityOf create)"
    using inc by (auto simp: create_def reported_def distinct_map identityOf_def inj_on_def)
  moreover have "set (map identityOf create) \<inter> set (map identityOf ?rows) = {}"
    using inc by (auto simp: create_def reported_def identityOf_def)
  ultimately have "distinct (map identityOf (usage_identities ?s1 @ create))"
    unfolding map_append keys using k by (auto simp: keyed_def)
  with clean sz have cr: "createIdentities (nat (insertBatchSize columns)) create ?s1 = (appendIdentities create ?s1, None)"
    by (intro createIdentities_clean) (auto simp: mapIdentities_def)
  have "nextIdentityID (usage_identities ?s1) = nextIdentityID ?rows" unfolding nextIdentityID_def by (metis keys(1) list.set_map)
  then have s2: "usage_identities (appendIdentities create ?s1) = map updated ?rows @ createdRows T inc now ?rows"
    by (simp add: appendIdentities_def mapIdentities_def createdRows_def create_def)
  have "markDeleted stale now r = r" if "r \<in> set (createdRows T inc now ?rows)" for r
  proof -
    have "id_ID r \<in> set (map id_ID (createdRows T inc now ?rows))" using that by simp
    then have "nextIdentityID ?rows \<le> id_ID r" unfolding createdRows_def numberIdentities_keys by auto
    then have "id_ID r \<notin> set stale" using nextIdentityID_bound(1) [of _ ?rows] by (force simp: stale_def)
    then show ?thesis by (simp add: markDeleted_def)
  qed
  moreover have "markDeleted stale now (updated r) = replaceRow j T inc types now r" if "r \<in> set ?rows" for r
    unfolding updated_def by (rule stale_row [OF k that stale_def])
  ultimately have "map (markDeleted stale now) (usage_identities (appendIdentities create ?s1)) = replaced j T inc types now ?rows"
    unfolding s2 replaced_def by (simp add: map_idI)
  then have "mapIdentities (markDeleted stale now) (appendIdentities create ?s1) = s\<lparr>usage_identities := replaced j T inc types now ?rows\<rparr>"
    by (simp add: mapIdentities_def appendIdentities_def)
  moreover have "faults (appendIdentities create ?s1) = []" using clean by (simp add: appendIdentities_def mapIdentities_def)
  ultimately show ?thesis
    using up cr markStale_clean [OF _ sz] by (simp add: writeIdentityChanges_def ch'(1,3))
qed

lemma sync_clean:
  assumes clean: "faults s = []" and k: "keyed (usage_identities s)" and inc: "reported T inc"
  shows "\<exists>ch. prepareUsageIdentitySync inc (map Identity inc) T types now s = (s, Inr ch) \<and>
    applyUsageIdentitySync j columns ch now c s = (s\<lparr>usage_identities := replaced j T inc types now (usage_identities s)\<rparr>, None)"
proof -
  define ch where "ch = usageIdentityPlan inc (map Identity inc) types now (filter (\<lambda>r. id_AuthType r = T) (usage_identities s))"
  note W = write_clean [where j = j and columns = columns and c = c, OF clean k inc ch_def]
  have "prepareUsageIdentitySync inc (map Identity inc) T types now s = (s, Inr ch)"
    using clean by (simp add: prepareUsageIdentitySync_def ch_def)
  moreover have "applyUsageIdentitySync j columns ch now c s = (s\<lparr>usage_identities := replaced j T inc types now (usage_identities s)\<rparr>, None)"
  proof (cases "ch_create ch = [] \<and> ch_update ch = [] \<and> ch_staleIDs ch = []")
    case True
    then have "writeIdentityChanges j columns ch now c s = (s, Inr ())"
      by (simp add: writeIdentityChanges_def createIdentities.simps markStaleUsageIdentityRowsDeleted.simps)
    then show ?thesis using True W by (simp add: applyUsageIdentitySync_def)
  next
    case False
    then show ?thesis using W clean by (auto simp: applyUsageIdentitySync_def transaction_def)
  qed
  ultimately show ?thesis by blast
qed

lemma replace_clean:
  assumes "faults s = []" "keyed (usage_identities s)" "now \<noteq> zero_time"
  shows "ReplaceUsageIdentitiesForAuthType j columns is T now s =
      (s\<lparr>usage_identities := replaced j T (fst (normalizeUsageIdentities is T)) None now (usage_identities s)\<rparr>, None)"
    "ReplaceUsageIdentitiesForProviderTypes j columns is types now s =
      (s\<lparr>usage_identities := replaced j UsageIdentityAuthTypeAIProvider (fst (normalizeUsageIdentities is UsageIdentityAuthTypeAIProvider))
          (Some (normalizeProviderTypes types)) now (usage_identities s)\<rparr>, None)"
proof -
  obtain inc names where n: "normalizeUsageIdentities is T = (inc, names)" by fastforce
  from normalize_reported [OF n] have "reported T inc" and names: "names = map Identity inc" by simp_all
  from sync_clean [OF assms(1,2) this(1), where c = "''mark stale usage identities deleted''" and j = j and columns = columns
      and types = None and now = now] n assms(3)
  show "ReplaceUsageIdentitiesForAuthType j columns is T now s =
      (s\<lparr>usage_identities := replaced j T (fst (normalizeUsageIdentities is T)) None now (usage_identities s)\<rparr>, None)"
    unfolding ReplaceUsageIdentitiesForAuthType_def names by auto
next
  let ?T = UsageIdentityAuthTypeAIProvider
  obtain inc names where n: "normalizeUsageIdentities is ?T = (inc, names)" by fastforce
  from normalize_reported [OF n] have "reported ?T inc" and names: "names = map Identity inc" by simp_all
  from sync_clean [OF assms(1,2) this(1), where c = "''mark stale provider usage identities deleted''" and j = j
      and columns = columns and types = "Some (normalizeProviderTypes types)" and now = now] n assms(3)
  show "ReplaceUsageIdentitiesForProviderTypes j columns is types now s =
      (s\<lparr>usage_identities := replaced j ?T (fst (normalizeUsageIdentities is ?T)) (Some (normalizeProviderTypes types)) now (usage_identities s)\<rparr>, None)"
    unfolding ReplaceUsageIdentitiesForProviderTypes_def names by auto
qed

text \<open>What CPA reports of a credential, and what belongs to Keeper.\<close>

definition reportOf :: "UsageIdentity \<Rightarrow> (string list \<times> string option list \<times> int option \<times> bool option \<times> gotime option)" where
  "reportOf r =
     ([id_Name r, id_AuthTypeName r, id_Type r, id_Provider r, id_LookupKey r, id_Prefix r, id_BaseURL r],
      [id_FileName r, id_FilePath r, id_Note r, id_AccountID r, id_ProjectID r, id_XAIUserID r, id_PlanType r],
      id_Priority r, id_Disabled r, id_ActiveStart r)"

definition keeperPart ::
  "UsageIdentity \<Rightarrow> int \<times> identityKey \<times> string option \<times> Counts \<times> Counts \<times> gotime option list \<times> int \<times> gotime" where
  "keeperPart r = (id_ID r, identityOf r, id_Alias r, id_totals r, id_reset r,
     [id_StatsResetAt r, id_FirstUsedAt r, id_LastUsedAt r, id_StatsUpdatedAt r], id_LastAggregatedUsageEventID r, id_CreatedAt r)"

lemma refresh_effect:
  "reportOf (refresh j now i r) = reportOf i" "\<not> IsDeleted (refresh j now i r)" "keeperPart (refresh j now i r) = keeperPart r"
  "id_DeletedAt (refresh j now i r) = None" "id_ActiveUntil (refresh j now i r) = mergedUntil j r i"
proof -
  have "usageIdentityMetadataDiff r i = [] \<Longrightarrow> takeOver j i r = r" using diff_takes_over [of j r i] by (simp add: setFields_def)
  then have "refresh j now i r = takeOver j i r \<or> refresh j now i r = (takeOver j i r)\<lparr>id_UpdatedAt := now\<rparr>"
    by (auto simp: refresh_def)
  then show "reportOf (refresh j now i r) = reportOf i" "\<not> IsDeleted (refresh j now i r)" "keeperPart (refresh j now i r) = keeperPart r"
    "id_DeletedAt (refresh j now i r) = None" "id_ActiveUntil (refresh j now i r) = mergedUntil j r i"
    by (elim disjE; simp add: reportOf_def keeperPart_def takeOver_def identityOf_def)+
qed

lemma replaceRow_keeps: "keeperPart (replaceRow j T inc types now r) = keeperPart r"
  by (cases "findIdentity inc (Identity r)"; cases types)
     (simp_all add: replaceRow_def refresh_effect, simp_all add: keeperPart_def identityOf_def)

lemma keeperPart_keys: "keeperPart r' = keeperPart r \<Longrightarrow> id_ID r' = id_ID r \<and> identityOf r' = identityOf r"
  by (simp add: keeperPart_def)

lemma createdRows_set:
  assumes "r \<in> set (createdRows T inc now rows)" "reported T inc"
  obtains i where "i \<in> set inc" "(T, Identity i) \<notin> identityOf ` set rows" "identityOf r = (T, Identity i)"
    "reportOf r = reportOf i" "\<not> IsDeleted r" "id_DeletedAt r = None" "id_ActiveUntil r = id_ActiveUntil i"
    "id_totals r = id_totals i" "id_LastAggregatedUsageEventID r = id_LastAggregatedUsageEventID i"
proof -
  have "\<exists>i \<in> set b. \<exists>n. r = i\<lparr>id_ID := n\<rparr>" if "r \<in> set (numberIdentities n b)" for n b
    using that by (induction b arbitrary: n) auto
  from this [OF assms(1) [unfolded createdRows_def]] obtain i n where
    "i \<in> set inc" "(T, Identity i) \<notin> identityOf ` set rows" "r = i\<lparr>id_CreatedAt := now, id_UpdatedAt := now, id_ID := n\<rparr>"
    by auto
  then show ?thesis using that [of i] assms(2) by (auto simp: reported_def identityOf_def reportOf_def)
qed

lemma createdRows_complete:
  assumes "i \<in> set inc" "(T, Identity i) \<notin> identityOf ` set rows" "reported T inc"
  obtains r where "r \<in> set (createdRows T inc now rows)" "identityOf r = (T, Identity i)"
proof -
  have "(T, Identity i) \<in> set (map identityOf (createdRows T inc now rows))"
    unfolding createdRows_def numberIdentities_keys using assms by (auto simp: reported_def identityOf_def image_iff)
  then show ?thesis using that by auto
qed

lemma replaced_keyed:
  assumes "keyed rows" "reported T inc"
  shows "keyed (replaced j T inc types now rows)"
proof -
  have ids: "map id_ID (map (replaceRow j T inc types now) rows) = map id_ID rows"
    "map identityOf (map (replaceRow j T inc types now) rows) = map identityOf rows"
    using keeperPart_keys [OF replaceRow_keeps] by auto
  have newids: "map id_ID (createdRows T inc now rows) = map (\<lambda>k. nextIdentityID rows + int k) [0..<length (createdRows T inc now rows)]"
  proof -
    have "length (numberIdentities n b) = length b" for n b by (induction b arbitrary: n) auto
    then show ?thesis unfolding createdRows_def numberIdentities_keys by simp
  qed
  have above: "nextIdentityID rows \<le> id_ID r" if "r \<in> set (createdRows T inc now rows)" for r
  proof -
    have "id_ID r \<in> set (map id_ID (createdRows T inc now rows))" using that by simp
    then show ?thesis unfolding newids by auto
  qed
  have "set (map id_ID rows) \<inter> set (map id_ID (createdRows T inc now rows)) = {}"
    using above nextIdentityID_bound(1) [of _ rows] by fastforce
  moreover have "identityOf r \<notin> identityOf ` set rows" if "r \<in> set (createdRows T inc now rows)" for r
    by (rule createdRows_set [OF that assms(2)]) simp
  then have "set (map identityOf rows) \<inter> set (map identityOf (createdRows T inc now rows)) = {}"
    unfolding set_map disjoint_iff by blast
  moreover have "distinct (map id_ID (createdRows T inc now rows))" unfolding newids by (simp add: distinct_map inj_on_def)
  moreover have "distinct (map identityOf (createdRows T inc now rows))"
    unfolding createdRows_def numberIdentities_keys using assms(2)
    by (auto simp: reported_def distinct_map identityOf_def inj_on_def)
  moreover have "\<forall>r \<in> set (map (replaceRow j T inc types now) rows). 0 < id_ID r"
    using assms(1) keeperPart_keys [OF replaceRow_keeps] by (auto simp: keyed_def)
  moreover have "\<forall>r \<in> set (createdRows T inc now rows). 0 < id_ID r" using above nextIdentityID_bound(2) [of rows] by fastforce
  ultimately show ?thesis using assms(1) unfolding keyed_def replaced_def map_append ids by (auto simp: keyed_def)
qed

lemma replaced_reports:
  assumes "keyed rows" "reported T inc" "i \<in> set inc"
  shows "\<exists>r \<in> set (replaced j T inc types now rows). identityOf r = (T, Identity i) \<and> reportOf r = reportOf i \<and> \<not> IsDeleted r"
proof (cases "(T, Identity i) \<in> identityOf ` set rows")
  case True
  then obtain r where r: "r \<in> set rows" "id_AuthType r = T" "Identity r = Identity i" by (auto simp: identityOf_def)
  have "findIdentity inc (Identity i) = Some i"
  proof (cases "findIdentity inc (Identity i)")
    case None
    then show ?thesis using assms(3) by (auto simp: findIdentity_None)
  next
    case (Some k)
    then have "k \<in> set inc" "Identity k = Identity i" using findIdentity_Some by blast+
    then show ?thesis using Some assms(2,3) by (auto simp: reported_def distinct_map dest: inj_onD)
  qed
  then have "replaceRow j T inc types now r = refresh j now i r" using r by (simp add: replaceRow_def)
  moreover have "replaceRow j T inc types now r \<in> set (replaced j T inc types now rows)" using r(1) by (simp add: replaced_def)
  moreover have "identityOf r = (T, Identity i)" using r by (simp add: identityOf_def)
  ultimately show ?thesis using refresh_effect(1,2) [of j now i r] by (metis refresh_keys(2))
next
  case False
  from createdRows_complete [OF assms(3) this assms(2)] obtain r
    where r: "r \<in> set (createdRows T inc now rows)" "identityOf r = (T, Identity i)" .
  from createdRows_set [OF r(1) assms(2)] obtain k
    where "k \<in> set inc" "identityOf r = (T, Identity k)" "reportOf r = reportOf k" "\<not> IsDeleted r" by metis
  moreover from this have "k = i" using r(2) assms(2,3) by (auto simp: reported_def distinct_map dest: inj_onD)
  ultimately show ?thesis using r by (auto simp: replaced_def)
qed

lemma replaced_active:
  assumes "reported T inc" "r' \<in> set (replaced j T inc types now rows)" "id_AuthType r' = T" "\<not> IsDeleted r'"
  shows "Identity r' \<in> Identity ` set inc \<or> r' \<in> set rows \<and> (\<exists>ts. types = Some ts \<and> id_Type r' \<notin> set ts)"
proof -
  consider r where "r \<in> set rows" "r' = replaceRow j T inc types now r" | "r' \<in> set (createdRows T inc now rows)"
    using assms(2) by (auto simp: replaced_def)
  then show ?thesis
  proof cases
    case (1 r)
    have same: "identityOf r' = identityOf r" unfolding 1(2) using keeperPart_keys [OF replaceRow_keeps] by blast
    show ?thesis
    proof (cases "findIdentity inc (Identity r)")
      case None
      then show ?thesis using 1 assms(3,4) by (auto simp: replaceRow_def split: if_splits option.splits)
    next
      case (Some i)
      then show ?thesis using same findIdentity_Some [OF Some] by (auto simp: identityOf_def intro: rev_image_eqI)
    qed
  next
    case 2
    then show ?thesis by (rule createdRows_set [OF _ assms(1)]) (auto simp: identityOf_def)
  qed
qed

lemma replaced_prefix:
  "list_all2 (\<lambda>r r'. keeperPart r' = keeperPart r \<and> (id_AuthType r \<noteq> T \<longrightarrow> r' = r)) rows
     (take (length rows) (replaced j T inc types now rows))"
proof -
  have "replaceRow j T inc types now r = r" if "id_AuthType r \<noteq> T" for r using that by (simp add: replaceRow_def)
  then show ?thesis by (simp add: replaced_def list_all2_map2 list_all2_same replaceRow_keeps)
qed

section \<open>What the replacements promise\<close>

text \<open>
  C31. A synchronisation of the auth files, or of the AI providers as a whole, returns without an
  error when the database works. Then the active rows of the authentication type are exactly the
  reported credentials (trimmed, the first of equal ones), each showing what was reported (the end of a
  subscription apart, which is merged); rows that existed keep their id, alias, counters, cursor and
  times of use, rows of the other type are unchanged, and the table is well formed again.
\<close>

theorem replace_auth_type_exact:
  assumes "keyed (usage_identities s)" "faults s = []" "now \<noteq> zero_time" "normalizeUsageIdentities is T = (inc, incoming)"
  shows "\<exists>s'. ReplaceUsageIdentitiesForAuthType julianday columns is T now s = (s', None) \<and> keyed (usage_identities s') \<and>
    {Identity r | r. r \<in> set (usage_identities s') \<and> id_AuthType r = T \<and> \<not> IsDeleted r} = set incoming \<and>
    (\<forall>i \<in> set inc. \<exists>r \<in> set (usage_identities s'). identityOf r = (T, Identity i) \<and> reportOf r = reportOf i \<and> \<not> IsDeleted r) \<and>
    list_all2 (\<lambda>r r'. keeperPart r' = keeperPart r \<and> (id_AuthType r \<noteq> T \<longrightarrow> r' = r)) (usage_identities s)
      (take (length (usage_identities s)) (usage_identities s')) \<and>
    usage_events s' = usage_events s \<and> inbox s' = inbox s"
proof -
  let ?rows = "replaced julianday T inc None now (usage_identities s)"
  have rep: "reported T inc" "incoming = map Identity inc" using normalize_reported [OF assms(4)] by simp_all
  have "{Identity r | r. r \<in> set ?rows \<and> id_AuthType r = T \<and> \<not> IsDeleted r} = set incoming"
  proof (intro equalityI subsetI)
    fix k
    assume "k \<in> set incoming"
    then obtain i where "i \<in> set inc" "k = Identity i" using rep(2) by auto
    then show "k \<in> {Identity r | r. r \<in> set ?rows \<and> id_AuthType r = T \<and> \<not> IsDeleted r}"
      using replaced_reports [OF assms(1) rep(1), of i julianday None now] by (auto simp: identityOf_def intro: sym)
  qed (use replaced_active [OF rep(1)] rep(2) in fastforce)
  then show ?thesis
    using replace_clean(1) [OF assms(2,1,3)] assms(4) replaced_keyed [OF assms(1) rep(1)] replaced_reports [OF assms(1) rep(1)] replaced_prefix
    by (intro exI [of _ "s\<lparr>usage_identities := ?rows\<rparr>"]) (simp add: replaced_prefix)
qed

text \<open>
  A synchronisation of AI providers after only some provider types could be fetched: active
  rows are the reported credentials and the rows of the types that could not be fetched, and the
  latter are left exactly as they were.
\<close>

theorem replace_provider_types_scoped:
  assumes "keyed (usage_identities s)" "faults s = []" "now \<noteq> zero_time"
    and "normalizeUsageIdentities is UsageIdentityAuthTypeAIProvider = (inc, incoming)"
  shows "\<exists>s'. ReplaceUsageIdentitiesForProviderTypes julianday columns is types now s = (s', None) \<and> keyed (usage_identities s') \<and>
    (\<forall>i \<in> set inc. \<exists>r \<in> set (usage_identities s'). identityOf r = (UsageIdentityAuthTypeAIProvider, Identity i) \<and>
       reportOf r = reportOf i \<and> \<not> IsDeleted r) \<and>
    (\<forall>r' \<in> set (usage_identities s'). id_AuthType r' = UsageIdentityAuthTypeAIProvider \<and> \<not> IsDeleted r' \<longrightarrow>
       Identity r' \<in> set incoming \<or> r' \<in> set (usage_identities s) \<and> id_Type r' \<notin> set (normalizeProviderTypes types)) \<and>
    (\<forall>r \<in> set (usage_identities s). id_AuthType r = UsageIdentityAuthTypeAIProvider \<and> Identity r \<notin> set incoming \<and>
       id_Type r \<notin> set (normalizeProviderTypes types) \<longrightarrow> r \<in> set (usage_identities s')) \<and>
    list_all2 (\<lambda>r r'. keeperPart r' = keeperPart r \<and> (id_AuthType r \<noteq> UsageIdentityAuthTypeAIProvider \<longrightarrow> r' = r)) (usage_identities s)
      (take (length (usage_identities s)) (usage_identities s'))"
proof -
  let ?T = UsageIdentityAuthTypeAIProvider and ?ts = "normalizeProviderTypes types"
  let ?rows = "replaced julianday ?T inc (Some ?ts) now (usage_identities s)"
  have rep: "reported ?T inc" "incoming = map Identity inc" using normalize_reported [OF assms(4)] by simp_all
  have "r \<in> set ?rows" if "r \<in> set (usage_identities s)" "Identity r \<notin> set incoming" "id_Type r \<notin> set ?ts" for r
  proof -
    have "replaceRow julianday ?T inc (Some ?ts) now r = r"
      using that(2,3) findIdentity_None [of inc "Identity r"] rep(2) by (simp add: replaceRow_def)
    then have "r \<in> set (map (replaceRow julianday ?T inc (Some ?ts) now) (usage_identities s))" using that(1) by (auto intro: rev_image_eqI)
    then show ?thesis by (simp add: replaced_def)
  qed
  moreover have "Identity r' \<in> set incoming \<or> r' \<in> set (usage_identities s) \<and> id_Type r' \<notin> set ?ts"
    if "r' \<in> set ?rows" "id_AuthType r' = ?T" "\<not> IsDeleted r'" for r'
    using replaced_active [OF rep(1) that] rep(2) by auto
  ultimately show ?thesis
    using replace_clean(2) [OF assms(2,1,3)] assms(4) replaced_keyed [OF assms(1) rep(1)] replaced_reports [OF assms(1) rep(1)]
    by (intro exI [of _ "s\<lparr>usage_identities := ?rows\<rparr>"]) (simp add: replaced_prefix)
qed

section \<open>A repeated report changes nothing\<close>

lemma diff_settled:
  assumes "reportOf r = reportOf i" "\<not> IsDeleted r" "id_DeletedAt r = None"
  shows "usageIdentityMetadataDiff r i = activeUntilDiff r i"
  using assms by (simp add: usageIdentityMetadataDiff_def reportOf_def whenChanged_def)

lemma until_settled:
  assumes "id_ActiveUntil r' = mergedUntil j r i"
    and "\<And>a b. id_ActiveUntil i = Some a \<Longrightarrow> id_ActiveUntil r = Some b \<Longrightarrow> b < a \<Longrightarrow> j b < j a"
  shows "activeUntilDiff r' i = []"
  using assms by (cases "id_ActiveUntil i"; cases "id_ActiveUntil r")
    (auto simp: activeUntilDiff_def mergedUntil_def whenChanged_def split: if_splits)

lemma replaced_again:
  assumes k: "keyed rows" and rep: "reported T inc"
    and sep: "\<And>i r a b. i \<in> set inc \<Longrightarrow> r \<in> set rows \<Longrightarrow> id_ActiveUntil i = Some a \<Longrightarrow> id_ActiveUntil r = Some b \<Longrightarrow> b < a \<Longrightarrow> j b < j a"
  shows "replaced j T inc types later (replaced j T inc types now rows) = replaced j T inc types now rows"
proof -
  let ?rows = "replaced j T inc types now rows"
  have "replaceRow j T inc types later r' = r'" if "r' \<in> set ?rows" for r'
  proof (cases "findIdentity inc (Identity r')")
    case None
    then have "Identity r' \<notin> Identity ` set inc" by (simp add: findIdentity_None)
    then show ?thesis using None replaced_active [OF rep that] by (cases types) (auto simp: replaceRow_def)
  next
    case (Some i)
    then have i: "i \<in> set inc" "Identity i = Identity r'" using findIdentity_Some by blast+
    have "usageIdentityMetadataDiff r' i = []" if "id_AuthType r' = T"
    proof -
      consider r where "r \<in> set rows" "r' = replaceRow j T inc types now r" | "r' \<in> set (createdRows T inc now rows)"
        using \<open>r' \<in> set ?rows\<close> by (auto simp: replaced_def)
      then show ?thesis
      proof cases
        case (1 r)
        then have "identityOf r' = identityOf r" using keeperPart_keys [OF replaceRow_keeps] by metis
        then have "Identity r = Identity r'" "id_AuthType r = T" using \<open>id_AuthType r' = T\<close> by (auto simp: identityOf_def)
        then have "r' = refresh j now i r" using 1 Some by (simp add: replaceRow_def)
        then show ?thesis using refresh_effect [of j now i r] diff_settled until_settled [of r' j r i] sep [OF i(1) 1(1)] by simp
      next
        case 2
        then show ?thesis
        proof (rule createdRows_set [OF _ rep])
          fix k
          assume k: "k \<in> set inc" "identityOf r' = (T, Identity k)" "reportOf r' = reportOf k" "\<not> IsDeleted r'"
            "id_DeletedAt r' = None" "id_ActiveUntil r' = id_ActiveUntil k"
          then have "k = i" using i rep by (auto simp: identityOf_def reported_def distinct_map dest: inj_onD)
          then show ?thesis using k diff_settled [of r' i] by (auto simp: activeUntilDiff_def whenChanged_def split: option.splits)
        qed
      qed
    qed
    then show ?thesis using Some by (auto simp: replaceRow_def refresh_def)
  qed
  moreover have "createdRows T inc later ?rows = []"
  proof -
    have "(T, Identity i) \<in> identityOf ` set ?rows" if "i \<in> set inc" for i
      using replaced_reports [OF k rep that] by (metis rev_image_eqI)
    then have "filter (\<lambda>i. (T, Identity i) \<notin> identityOf ` set ?rows) inc = []" by (simp add: filter_empty_conv)
    then show ?thesis unfolding createdRows_def by simp
  qed
  ultimately show ?thesis by (simp add: replaced_def [of j T inc types later] map_idI)
qed

text \<open>
  Synchronising the same report again, at any later time, changes nothing: no row is stamped,
  created or deleted. The hypothesis on \<open>julianday\<close> says that SQLite tells apart the subscription
  ends that Go tells apart.
\<close>

theorem replace_idempotent:
  assumes "keyed (usage_identities s)" "faults s = []" "now \<noteq> zero_time" "later \<noteq> zero_time"
    and "normalizeUsageIdentities is T = (inc, incoming)"
    and "\<forall>i \<in> set inc. \<forall>r \<in> set (usage_identities s). \<forall>a b. id_ActiveUntil i = Some a \<longrightarrow> id_ActiveUntil r = Some b \<longrightarrow> b < a \<longrightarrow>
           julianday b < julianday a"
    and "ReplaceUsageIdentitiesForAuthType julianday columns is T now s = (s', e)"
  shows "ReplaceUsageIdentitiesForAuthType julianday columns is T later s' = (s', None)"
proof -
  let ?rows = "replaced julianday T inc None now (usage_identities s)"
  have rep: "reported T inc" using normalize_reported [OF assms(5)] by simp
  have s': "s' = s\<lparr>usage_identities := ?rows\<rparr>" using assms(5,7) replace_clean(1) [OF assms(2,1,3)] by simp
  have "replaced julianday T inc None later ?rows = ?rows"
    by (rule replaced_again [OF assms(1) rep]) (use assms(6) in blast)
  moreover have "keyed ?rows" by (rule replaced_keyed [OF assms(1) rep])
  ultimately show ?thesis
    using replace_clean(1) [of s' later julianday columns "is" T] assms(2,4,5) by (simp add: s')
qed

section \<open>Edits between reading and writing\<close>

definition edited :: "int option \<Rightarrow> bool option \<Rightarrow> UsageIdentity \<Rightarrow> UsageIdentity \<Rightarrow> bool" where
  "edited p d r r' \<longleftrightarrow> id_ID r' = id_ID r \<and> (id_Priority r \<noteq> p \<longrightarrow> id_Priority r' = id_Priority r) \<and>
     (id_Disabled r \<noteq> d \<longrightarrow> id_Disabled r' = id_Disabled r)"

lemma setFields_untouched:
  "id_ID (setFields j fs r) = id_ID r"
  "\<not> list_ex isPriority fs \<Longrightarrow> id_Priority (setFields j fs r) = id_Priority r"
  "\<not> list_ex isDisabled fs \<Longrightarrow> id_Disabled (setFields j fs r) = id_Disabled r"
proof -
  have one: "id_ID (setField j r f) = id_ID r" "\<not> isPriority f \<Longrightarrow> id_Priority (setField j r f) = id_Priority r"
    "\<not> isDisabled f \<Longrightarrow> id_Disabled (setField j r f) = id_Disabled r" for r f
    by (cases f; simp add: isPriority_def isDisabled_def)+
  show "id_ID (setFields j fs r) = id_ID r"
    "\<not> list_ex isPriority fs \<Longrightarrow> id_Priority (setFields j fs r) = id_Priority r"
    "\<not> list_ex isDisabled fs \<Longrightarrow> id_Disabled (setFields j fs r) = id_Disabled r"
    unfolding setFields_def by (induction fs arbitrary: r) (simp_all add: one)
qed

lemma applyUpdate_edited:
  assumes "edited p d r r1" "up_id c = id_ID r \<Longrightarrow> up_oldPriority c = p \<and> up_oldDisabled c = d"
  shows "edited p d r (applyUpdate j c r1)"
  using assms setFields_untouched [where j = j and fs = "up_fields c" and r = r1]
  by (auto simp: applyUpdate_def updateApplies_def edited_def)

definition holdsEdit :: "int option \<Rightarrow> bool option \<Rightarrow> UsageIdentity \<Rightarrow> db \<Rightarrow> bool" where
  "holdsEdit p d r s \<longleftrightarrow> (\<exists>r' \<in> set (usage_identities s). edited p d r r')"

lemma holdsEdit_faults [simp]: "holdsEdit p d r (s\<lparr>faults := fs\<rparr>) = holdsEdit p d r s"
  by (simp add: holdsEdit_def)

lemma holdsEdit_stmt:
  assumes "stmt f s = (s', e)" "holdsEdit p d r s" "\<And>t. holdsEdit p d r t \<Longrightarrow> holdsEdit p d r (f t)"
  shows "holdsEdit p d r s'"
  using assms by (auto elim!: stmt_cases)

lemma holdsEdit_map:
  "holdsEdit p d r s \<Longrightarrow> (\<And>x. edited p d r x \<Longrightarrow> edited p d r (f x)) \<Longrightarrow> holdsEdit p d r (mapIdentities f s)"
  by (auto simp: holdsEdit_def mapIdentities_def)

lemma updateIdentities_holds:
  "updateIdentities j cs s = (s', e) \<Longrightarrow> holdsEdit p d r s \<Longrightarrow>
   \<forall>c \<in> set cs. up_id c = id_ID r \<longrightarrow> up_oldPriority c = p \<and> up_oldDisabled c = d \<Longrightarrow> holdsEdit p d r s'"
proof (induction cs arbitrary: s)
  case (Cons c cs)
  obtain s1 e1 where st: "stmt (mapIdentities (applyUpdate j c)) s = (s1, e1)" by fastforce
  have "holdsEdit p d r s1"
    by (rule holdsEdit_stmt [OF st Cons.prems(2)]) (use Cons.prems(3) in \<open>auto intro: holdsEdit_map applyUpdate_edited\<close>)
  then show ?case using Cons st by (cases e1) auto
qed simp

lemma createIdentities_holds:
  "createIdentities sz rows s = (s', e) \<Longrightarrow> holdsEdit p d r s \<Longrightarrow> holdsEdit p d r s'"
proof (induction sz rows s arbitrary: s' e rule: createIdentities.induct)
  case (1 sz rows s)
  show ?case
  proof (cases "rows = [] \<or> sz = 0")
    case False
    obtain s1 e1 where ins: "insertIdentities (take sz rows) s = (s1, e1)" by fastforce
    have "holdsEdit p d r s1"
    proof (cases "identitiesClash (take sz rows) s")
      case True
      obtain s2 e2 where "stmt (\<lambda>t. t) s = (s2, e2)" by fastforce
      then show ?thesis using holdsEdit_stmt [of "\<lambda>t. t"] ins True 1(3) by (cases e2) (auto simp: insertIdentities_def)
    next
      case False
      then have "stmt (appendIdentities (take sz rows)) s = (s1, e1)" using ins by (simp add: insertIdentities_def)
      then show ?thesis by (rule holdsEdit_stmt [OF _ 1(3)]) (auto simp: holdsEdit_def appendIdentities_def)
    qed
    then show ?thesis using 1(1) [OF False ins [symmetric]] 1(2) False ins
      by (cases e1) (auto simp: createIdentities.simps [of sz rows])
  qed (use 1 in \<open>auto simp: createIdentities.simps\<close>)
qed

lemma markStale_holds:
  "markStaleUsageIdentityRowsDeleted sz staleIDs now c s = (s', e) \<Longrightarrow> holdsEdit p d r s \<Longrightarrow> holdsEdit p d r s'"
proof (induction sz staleIDs now c s arbitrary: s' e rule: markStaleUsageIdentityRowsDeleted.induct)
  case (1 sz staleIDs now c s)
  show ?case
  proof (cases "staleIDs = [] \<or> sz = 0")
    case False
    obtain s1 e1 where st: "stmt (mapIdentities (markDeleted (take sz staleIDs) now)) s = (s1, e1)" by fastforce
    have "holdsEdit p d r s1"
      by (rule holdsEdit_stmt [OF st 1(3)]) (auto intro!: holdsEdit_map simp: markDeleted_def edited_def)
    then show ?thesis using 1(1) [OF False st [symmetric]] 1(2) False st
      by (cases e1) (auto simp: markStaleUsageIdentityRowsDeleted.simps [of sz staleIDs])
  qed (use 1 in \<open>auto simp: markStaleUsageIdentityRowsDeleted.simps\<close>)
qed

text \<open>
  C32. An edit that Keeper makes while a synchronisation runs is not lost. If the priority (or the
  disabled flag) of a row has changed between the reading of the snapshot and the writing of the
  plan, the row has the new value afterwards, whatever else the plan writes and whichever
  statement fails.
\<close>

theorem sync_keeps_concurrent_edit:
  assumes "keyed (usage_identities s0)" "prepareUsageIdentitySync inc incoming T types now s0 = (s1, Inr ch)"
    and "applyUsageIdentitySync julianday columns ch now context s = (s', e)"
    and "r0 \<in> set (usage_identities s0)" "r \<in> set (usage_identities s)" "id_ID r = id_ID r0"
  shows "\<exists>r' \<in> set (usage_identities s'). id_ID r' = id_ID r \<and>
    (id_Priority r \<noteq> id_Priority r0 \<longrightarrow> id_Priority r' = id_Priority r) \<and>
    (id_Disabled r \<noteq> id_Disabled r0 \<longrightarrow> id_Disabled r' = id_Disabled r)"
proof -
  let ?p = "id_Priority r0" and ?d = "id_Disabled r0"
  define known where "known = byIdentity (filter (\<lambda>r. id_AuthType r = T) (usage_identities s0))"
  have "ch = usageIdentityPlan inc incoming types now (filter (\<lambda>r. id_AuthType r = T) (usage_identities s0))"
    using assms(2) by (auto simp: prepareUsageIdentitySync_def elim: query_cases split: prod.splits sum.splits)
  then have upd: "ch_update ch = concat (map (rowUpdate known now) inc)"
    by (simp add: usageIdentityPlan_def planIdentities_conv known_def)
  have old: "\<forall>c \<in> set (ch_update ch). up_id c = id_ID r \<longrightarrow> up_oldPriority c = ?p \<and> up_oldDisabled c = ?d"
  proof (intro ballI impI)
    fix c
    assume c: "c \<in> set (ch_update ch)" "up_id c = id_ID r"
    then obtain i where "c \<in> set (rowUpdate known now i)" by (auto simp: upd)
    then obtain row where row: "known (Identity i) = Some row" "id_ID row = id_ID r0" "up_oldPriority c = id_Priority row"
        "up_oldDisabled c = id_Disabled row"
      by (rule rowUpdate_from) (use c(2) assms(6) in simp)
    then have "row \<in> set (usage_identities s0)" using byIdentity_rows(1) [OF assms(1) refl] by (simp add: known_def)
    then have "row = r0" using assms(1,4) row(2) by (auto simp: keyed_def distinct_map dest: inj_onD)
    then show "up_oldPriority c = ?p \<and> up_oldDisabled c = ?d" using row(3,4) by simp
  qed
  have here: "holdsEdit ?p ?d r s" using assms(5) by (auto simp: holdsEdit_def edited_def)
  have body: "holdsEdit ?p ?d r t" if "writeIdentityChanges julianday columns ch now context s = (t, x)" for t x
    using that here updateIdentities_holds [OF _ _ old] createIdentities_holds markStale_holds
    by (fastforce simp: writeIdentityChanges_def Let_def split: prod.splits option.splits)
  have "holdsEdit ?p ?d r s'"
  proof (cases "ch_create ch = [] \<and> ch_update ch = [] \<and> ch_staleIDs ch = []")
    case True
    then show ?thesis using assms(3) here by (simp add: applyUsageIdentitySync_def)
  next
    case False
    then obtain x where "transaction (writeIdentityChanges julianday columns ch now context) s = (s', x)"
      using assms(3) by (auto simp: applyUsageIdentitySync_def split: prod.splits sum.splits)
    then show ?thesis by (cases rule: transaction_cases) (use here body in auto)
  qed
  then show ?thesis by (auto simp: holdsEdit_def edited_def)
qed

section \<open>Concrete replacements\<close>

definition sampleIdentity :: "int \<Rightarrow> UsageIdentityAuthType \<Rightarrow> string \<Rightarrow> string \<Rightarrow> UsageIdentity" where
  "sampleIdentity n authType identity name =
     \<lparr>id_ID = n, id_Name = name, id_Alias = None, id_AuthType = authType, id_AuthTypeName = [], Identity = identity,
      id_Type = ''codex'', id_Provider = [], id_LookupKey = [], id_Prefix = [], id_BaseURL = [], id_FileName = None,
      id_FilePath = None, id_Priority = None, id_Disabled = None, id_Note = None, id_AccountID = None, id_ProjectID = None,
      id_XAIUserID = None, id_ActiveStart = None, id_ActiveUntil = Some (5000000 * n), id_PlanType = None, id_totals = 0,
      id_StatsResetAt = None, id_reset = 0, id_LastAggregatedUsageEventID = 0, id_FirstUsedAt = None, id_LastUsedAt = None,
      id_StatsUpdatedAt = None, IsDeleted = False, id_CreatedAt = 1, id_UpdatedAt = 1, id_DeletedAt = None\<rparr>"

definition sampleStore :: db where
  "sampleStore = \<lparr>inbox = [], usage_events = [],
     usage_identities = [sampleIdentity 1 UsageIdentityAuthTypeAuthFile ''a'' ''old'', sampleIdentity 2 UsageIdentityAuthTypeAuthFile ''b'' ''b'',
       sampleIdentity 3 UsageIdentityAuthTypeAIProvider ''a'' ''key''],
     next_inbox = 1, next_event = 1, gorm_now = 0, faults = []\<rparr>"

definition sampleReport :: "UsageIdentity list" where
  "sampleReport = [sampleIdentity 9 UsageIdentityAuthTypeAuthFile '' a '' ''new '', sampleIdentity 9 UsageIdentityAuthTypeAuthFile ''c'' ''c'']"

lemma sampleStore_keyed: "keyed (usage_identities sampleStore)" "faults sampleStore = []"
  by (simp_all add: keyed_def sampleStore_def sampleIdentity_def identityOf_def)

theorem replace_auth_type_exact_witness:
  "\<exists>s'. ReplaceUsageIdentitiesForAuthType (\<lambda>t. t div 1000000) 30 sampleReport UsageIdentityAuthTypeAuthFile 7 sampleStore = (s', None) \<and>
    {Identity r | r. r \<in> set (usage_identities s') \<and> id_AuthType r = UsageIdentityAuthTypeAuthFile \<and> \<not> IsDeleted r} = {''a'', ''c''}"
proof -
  have "snd (normalizeUsageIdentities sampleReport UsageIdentityAuthTypeAuthFile) = [''a'', ''c'']" by code_simp
  then obtain inc where "normalizeUsageIdentities sampleReport UsageIdentityAuthTypeAuthFile = (inc, [''a'', ''c''])" by (metis prod.collapse)
  from replace_auth_type_exact [OF sampleStore_keyed _ this, of 7 "\<lambda>t. t div 1000000" 30]
  show ?thesis by (auto simp: zero_time_def)
qed

theorem replace_provider_types_scoped_witness:
  "\<exists>s'. ReplaceUsageIdentitiesForProviderTypes (\<lambda>t. t div 1000000) 30 [sampleIdentity 9 UsageIdentityAuthTypeAIProvider ''c'' ''c'']
      ['' gemini ''] 7 sampleStore = (s', None) \<and>
    sampleIdentity 3 UsageIdentityAuthTypeAIProvider ''a'' ''key'' \<in> set (usage_identities s')"
proof -
  let ?is = "[sampleIdentity 9 UsageIdentityAuthTypeAIProvider ''c'' ''c'']"
  have "snd (normalizeUsageIdentities ?is UsageIdentityAuthTypeAIProvider) = [''c'']" "normalizeProviderTypes ['' gemini ''] = [''gemini'']"
    by code_simp+
  then obtain inc where n: "normalizeUsageIdentities ?is UsageIdentityAuthTypeAIProvider = (inc, [''c''])"
    and g: "normalizeProviderTypes ['' gemini ''] = [''gemini'']" by (metis prod.collapse)
  have "sampleIdentity 3 UsageIdentityAuthTypeAIProvider ''a'' ''key'' \<in> set (usage_identities sampleStore)" by (simp add: sampleStore_def)
  then show ?thesis
    using replace_provider_types_scoped [OF sampleStore_keyed _ n, of 7 "\<lambda>t. t div 1000000" 30 "['' gemini '']"]
    by (force simp: zero_time_def g sampleIdentity_def)
qed

theorem replace_idempotent_witness:
  "\<exists>s'. fst (ReplaceUsageIdentitiesForAuthType (\<lambda>t. t div 1000000) 30 sampleReport UsageIdentityAuthTypeAuthFile 7 sampleStore) = s' \<and>
    ReplaceUsageIdentitiesForAuthType (\<lambda>t. t div 1000000) 30 sampleReport UsageIdentityAuthTypeAuthFile 8 s' = (s', None)"
proof -
  obtain inc names where n: "normalizeUsageIdentities sampleReport UsageIdentityAuthTypeAuthFile = (inc, names)" by fastforce
  obtain s' e where run: "ReplaceUsageIdentitiesForAuthType (\<lambda>t. t div 1000000) 30 sampleReport UsageIdentityAuthTypeAuthFile 7 sampleStore = (s', e)"
    by fastforce
  have "map id_ActiveUntil (fst (normalizeUsageIdentities sampleReport UsageIdentityAuthTypeAuthFile)) = [Some 45000000, Some 45000000]"
    by code_simp
  then have until: "map id_ActiveUntil inc = [Some 45000000, Some 45000000]" unfolding n by simp
  have inc: "id_ActiveUntil i = Some 45000000" if "i \<in> set inc" for i
  proof -
    have "id_ActiveUntil i \<in> set (map id_ActiveUntil inc)" using that by simp
    then show ?thesis unfolding until by simp
  qed
  have rows: "id_ActiveUntil r \<in> {Some 5000000, Some 10000000, Some 15000000}" if "r \<in> set (usage_identities sampleStore)" for r
    using that by (auto simp: sampleStore_def sampleIdentity_def)
  have "\<forall>i \<in> set inc. \<forall>r \<in> set (usage_identities sampleStore). \<forall>a b. id_ActiveUntil i = Some a \<longrightarrow> id_ActiveUntil r = Some b \<longrightarrow> b < a \<longrightarrow>
      b div 1000000 < a div 1000000"
    using inc rows by fastforce
  from replace_idempotent [OF sampleStore_keyed _ _ n this run, of 8] run show ?thesis by (auto simp: zero_time_def)
qed

theorem sync_keeps_concurrent_edit_witness:
  "\<exists>r' \<in> set (usage_identities (fst (applyUsageIdentitySync (\<lambda>t. t div 1000000) 30
      (usageIdentityPlan [(sampleIdentity 0 UsageIdentityAuthTypeAuthFile ''a'' ''new'')\<lparr>id_Priority := Some 3\<rparr>] [''a''] None 7
        (filter (\<lambda>r. id_AuthType r = UsageIdentityAuthTypeAuthFile) (usage_identities sampleStore))) 7 []
      (sampleStore\<lparr>usage_identities := [(sampleIdentity 1 UsageIdentityAuthTypeAuthFile ''a'' ''old'')\<lparr>id_Priority := Some 5\<rparr>]\<rparr>)))).
    id_ID r' = 1 \<and> id_Priority r' = Some 5"
proof -
  let ?i = "(sampleIdentity 0 UsageIdentityAuthTypeAuthFile ''a'' ''new'')\<lparr>id_Priority := Some 3\<rparr>"
  let ?ch = "usageIdentityPlan [?i] [''a''] None 7 (filter (\<lambda>r. id_AuthType r = UsageIdentityAuthTypeAuthFile) (usage_identities sampleStore))"
  let ?r = "(sampleIdentity 1 UsageIdentityAuthTypeAuthFile ''a'' ''old'')\<lparr>id_Priority := Some 5\<rparr>"
  let ?s = "sampleStore\<lparr>usage_identities := [?r]\<rparr>"
  obtain s' e where run: "applyUsageIdentitySync (\<lambda>t. t div 1000000) 30 ?ch 7 [] ?s = (s', e)" by fastforce
  have "prepareUsageIdentitySync [?i] [''a''] UsageIdentityAuthTypeAuthFile None 7 sampleStore = (sampleStore, Inr ?ch)"
    using sampleStore_keyed(2) by (simp add: prepareUsageIdentitySync_def)
  from sync_keeps_concurrent_edit [OF sampleStore_keyed(1) this run, of "sampleIdentity 1 UsageIdentityAuthTypeAuthFile ''a'' ''old''" ?r]
  show ?thesis unfolding run by (simp add: sampleStore_def sampleIdentity_def)
qed

end
