(* ===== verification/Identity_Stats.thy ===== *)
theory Identity_Stats
  imports Identity_Sync Inbox_Growth
begin

text \<open>
  Usage statistics per credential: the aggregation and the reset of
  \<^verbatim>\<open>internal/repository/usage_identities.go\<close> and \<^verbatim>\<open>usage_identity_stats_reset.go\<close>. Every identity
  row has its own cursor into the events; a batch adds to each row of a page the events of the
  identity after the cursor. The counters of a row are \<^typ>\<open>Counts\<close> without cache creation.
  \<open>older\<close> is the order of the stored time texts, which \<open>MIN\<close> and \<open>MAX\<close> use. The two messages that
  quote an identity leave the quotation out.
\<close>

section \<open>usage\_identities.go: aggregation\<close>

definition UsageIdentityAggregationBatchSize :: nat where
  "UsageIdentityAggregationBatchSize = 25"

record UsageIdentityAggregationBatchResult =
  ProcessedIdentities :: nat
  LastIdentityID :: int
  ReachedEnd :: bool

record UsageIdentityStatsDelta =
  d_counts :: Counts
  d_FirstUsedAt :: "gotime option"
  d_LastUsedAt :: "gotime option"
  d_MaxUsageEventID :: int

text \<open>The events of an identity; both authentication types have a filter.\<close>

fun eventAuthType :: "UsageIdentityAuthType \<Rightarrow> string" where
  "eventAuthType UsageIdentityAuthTypeAuthFile = ''oauth''"
| "eventAuthType UsageIdentityAuthTypeAIProvider = ''apikey''"

definition usageIdentityEventsQuery :: "UsageIdentity \<Rightarrow> UsageEvent \<Rightarrow> bool" where
  "usageIdentityEventsQuery i e \<longleftrightarrow> AuthType e = eventAuthType (id_AuthType i) \<and> AuthIndex e = Identity i"

definition identityCounts :: "UsageEvent \<Rightarrow> Counts" where
  "identityCounts e = Counts 1 (if ev_Failed e then 0 else 1) (if ev_Failed e then 1 else 0)
     (ev_InputTokens e) (ev_OutputTokens e) (ev_ReasoningTokens e) (ev_CachedTokens e)
     (ev_CacheReadTokens e) 0 (ev_TotalTokens e)"

definition minText :: "(gotime \<Rightarrow> gotime \<Rightarrow> bool) \<Rightarrow> gotime list \<Rightarrow> gotime option" where
  "minText older ts = (case ts of [] \<Rightarrow> None | t # ts \<Rightarrow> Some (foldl (\<lambda>m t. if older t m then t else m) t ts))"

text \<open>\<open>SUM\<close> of integers is exact or fails with an overflow.\<close>

definition sumOverflows :: "Counts \<Rightarrow> bool" where
  "sumOverflows c \<longleftrightarrow> \<not> (in_i64 (c_InputTokens c) \<and> in_i64 (c_OutputTokens c) \<and> in_i64 (c_ReasoningTokens c) \<and>
     in_i64 (c_CachedTokens c) \<and> in_i64 (c_CacheReadTokens c) \<and> in_i64 (c_TotalTokens c))"

definition deltaOf :: "(gotime \<Rightarrow> gotime \<Rightarrow> bool) \<Rightarrow> UsageEvent list \<Rightarrow> UsageIdentityStatsDelta" where
  "deltaOf older evs =
     \<lparr>d_counts = sum_list (map identityCounts evs),
      d_FirstUsedAt = minText older (map Timestamp evs),
      d_LastUsedAt = minText (\<lambda>a b. older b a) (map Timestamp evs),
      d_MaxUsageEventID = (if evs = [] then 0 else Max (ev_ID ` set evs))\<rparr>"

definition aggregateUsageIdentityDelta ::
  "(gotime \<Rightarrow> gotime \<Rightarrow> bool) \<Rightarrow> UsageIdentity \<Rightarrow> db \<Rightarrow> db \<times> (string + UsageIdentityStatsDelta)" where
  "aggregateUsageIdentityDelta older i s =
     (case query (\<lambda>t. deltaOf older (filter (\<lambda>e. usageIdentityEventsQuery i e \<and> id_LastAggregatedUsageEventID i < ev_ID e)
                        (usage_events t))) s of
        (s', Inl e) \<Rightarrow> (s', Inl (''aggregate usage identity stats: '' @ e))
      | (s', Inr delta) \<Rightarrow>
          (s', if sumOverflows (d_counts delta) then Inl ''aggregate usage identity stats: integer overflow'' else Inr delta))"

text \<open>The sums of the row and the delta are computed in Go.\<close>

definition addTotals :: "Counts \<Rightarrow> Counts \<Rightarrow> Counts" where
  "addTotals a b = Counts
     (i64 (RequestCount a + RequestCount b)) (i64 (SuccessCount a + SuccessCount b)) (i64 (FailureCount a + FailureCount b))
     (i64 (c_InputTokens a + c_InputTokens b)) (i64 (c_OutputTokens a + c_OutputTokens b))
     (i64 (c_ReasoningTokens a + c_ReasoningTokens b)) (i64 (c_CachedTokens a + c_CachedTokens b))
     (i64 (c_CacheReadTokens a + c_CacheReadTokens b)) (c_CacheCreationTokens a)
     (i64 (c_TotalTokens a + c_TotalTokens b))"

definition earlierOf :: "gotime option \<Rightarrow> gotime option \<Rightarrow> gotime option" where
  "earlierOf old new = (case (new, old) of (None, _) \<Rightarrow> old | (Some n, None) \<Rightarrow> Some n | (Some n, Some f) \<Rightarrow> if n < f then Some n else old)"

definition laterOf :: "gotime option \<Rightarrow> gotime option \<Rightarrow> gotime option" where
  "laterOf old new = (case (new, old) of (None, _) \<Rightarrow> old | (Some n, None) \<Rightarrow> Some n | (Some n, Some l) \<Rightarrow> if n > l then Some n else old)"

text \<open>The columns that the \<open>UPDATE\<close> sets, beside GORM's time stamp; \<open>i\<close> is the row as it was read.\<close>

definition identityUpdate :: "gotime \<Rightarrow> UsageIdentity \<Rightarrow> UsageIdentityStatsDelta \<Rightarrow> UsageIdentity \<Rightarrow> UsageIdentity" where
  "identityUpdate now i delta r =
     r\<lparr>id_totals := (addTotals (id_totals i) (d_counts delta)),
       id_FirstUsedAt := earlierOf (id_FirstUsedAt i) (d_FirstUsedAt delta),
       id_LastUsedAt := laterOf (id_LastUsedAt i) (d_LastUsedAt delta),
       id_StatsUpdatedAt := Some now, id_LastAggregatedUsageEventID := d_MaxUsageEventID delta\<rparr>"

definition updateIdentity :: "int \<Rightarrow> (UsageIdentity \<Rightarrow> UsageIdentity) \<Rightarrow> db \<Rightarrow> db" where
  "updateIdentity n f s = s\<lparr>usage_identities := map (\<lambda>r. if id_ID r = n then f r else r) (usage_identities s)\<rparr>"

fun aggregateUsageIdentityRows ::
  "(gotime \<Rightarrow> gotime \<Rightarrow> bool) \<Rightarrow> gotime \<Rightarrow> UsageIdentity list \<Rightarrow> nat \<Rightarrow> db \<Rightarrow> db \<times> (string + nat)" where
  "aggregateUsageIdentityRows older now [] processed s = (s, Inr processed)"
| "aggregateUsageIdentityRows older now (i # is) processed s =
     (case aggregateUsageIdentityDelta older i s of
        (s1, Inl e) \<Rightarrow> (s1, Inl e)
      | (s1, Inr delta) \<Rightarrow>
          if RequestCount (d_counts delta) = 0 then aggregateUsageIdentityRows older now is processed s1
          else
            (case stmt (\<lambda>t. updateIdentity (id_ID i) (\<lambda>r. (identityUpdate now i delta r)\<lparr>id_UpdatedAt := gorm_now t\<rparr>) t) s1 of
               (s2, Some e) \<Rightarrow> (s2, Inl (''update usage identity stats: '' @ e))
             | (s2, None) \<Rightarrow> aggregateUsageIdentityRows older now is (Suc processed) s2))"

definition identityPage :: "int \<Rightarrow> UsageIdentity list \<Rightarrow> UsageIdentity list" where
  "identityPage afterIdentityID is =
     take UsageIdentityAggregationBatchSize (sort_key id_ID (filter (\<lambda>i. afterIdentityID < id_ID i) is))"

definition identityBatchBody ::
  "(gotime \<Rightarrow> gotime \<Rightarrow> bool) \<Rightarrow> gotime \<Rightarrow> int \<Rightarrow> db \<Rightarrow> db \<times> (string + UsageIdentityAggregationBatchResult)" where
  "identityBatchBody older now afterIdentityID s =
     (case query (\<lambda>t. identityPage afterIdentityID (usage_identities t)) s of
        (s1, Inl e) \<Rightarrow> (s1, Inl (''list usage identities for aggregation batch: '' @ e))
      | (s1, Inr page) \<Rightarrow>
          if page = [] then (s1, Inr \<lparr>ProcessedIdentities = 0, LastIdentityID = afterIdentityID, ReachedEnd = True\<rparr>)
          else
            (case aggregateUsageIdentityRows older now page 0 s1 of
               (s2, Inl e) \<Rightarrow> (s2, Inl e)
             | (s2, Inr processed) \<Rightarrow>
                 (s2, Inr \<lparr>ProcessedIdentities = processed, LastIdentityID = id_ID (last page),
                           ReachedEnd = length page < UsageIdentityAggregationBatchSize\<rparr>)))"

definition AggregateUsageIdentityStatsBatch ::
  "(gotime \<Rightarrow> gotime \<Rightarrow> bool) \<Rightarrow> gotime \<Rightarrow> int \<Rightarrow> db \<Rightarrow> db \<times> (string + UsageIdentityAggregationBatchResult)" where
  "AggregateUsageIdentityStatsBatch older now afterIdentityID s =
     (if afterIdentityID < 0 then (s, Inl ''usage identity aggregation cursor is negative'')
      else transaction (identityBatchBody older now afterIdentityID) s)"

text \<open>The complete scan is a loop whose end depends on the pages; \<open>None\<close> stands for not returning.\<close>

partial_function (option) identityScan ::
  "(gotime \<Rightarrow> gotime \<Rightarrow> bool) \<Rightarrow> gotime \<Rightarrow> int \<Rightarrow> db \<Rightarrow> (db \<times> string option) option" where
  "identityScan older now afterIdentityID s =
     (case AggregateUsageIdentityStatsBatch older now afterIdentityID s of
        (s', Inl e) \<Rightarrow> Some (s', Some e)
      | (s', Inr result) \<Rightarrow>
          if ReachedEnd result then Some (s', None) else identityScan older now (LastIdentityID result) s')"

declare identityScan.simps [code]

definition AggregateUsageIdentityStats :: "(gotime \<Rightarrow> gotime \<Rightarrow> bool) \<Rightarrow> gotime \<Rightarrow> db \<Rightarrow> (db \<times> string option) option" where
  "AggregateUsageIdentityStats older now s = identityScan older now 0 s"

definition hasPendingUsageIdentityAggregation :: "db \<Rightarrow> bool" where
  "hasPendingUsageIdentityAggregation t \<longleftrightarrow>
     list_ex (\<lambda>i. list_ex (\<lambda>e. id_LastAggregatedUsageEventID i < ev_ID e \<and> usageIdentityEventsQuery i e) (usage_events t))
       (usage_identities t)"

definition HasPendingUsageIdentityAggregation :: "db \<Rightarrow> db \<times> (string + bool)" where
  "HasPendingUsageIdentityAggregation s =
     (case query hasPendingUsageIdentityAggregation s of
        (s', Inl e) \<Rightarrow> (s', Inl (''check pending usage identity aggregation: '' @ e))
      | (s', Inr pending) \<Rightarrow> (s', Inr pending))"

section \<open>usage\_identity\_stats\_reset.go\<close>

text \<open>The baselines take the current counters of six columns.\<close>

definition resetBaseline :: "Counts \<Rightarrow> Counts" where
  "resetBaseline c = Counts (RequestCount c) (SuccessCount c) (FailureCount c) (c_InputTokens c) 0 0 0
     (c_CacheReadTokens c) 0 (c_TotalTokens c)"

definition resetRow :: "gotime \<Rightarrow> UsageIdentity \<Rightarrow> UsageIdentity" where
  "resetRow now r = r\<lparr>id_StatsResetAt := Some now, id_reset := resetBaseline (id_totals r)\<rparr>"

definition ResetUsageIdentityStats :: "int \<Rightarrow> gotime \<Rightarrow> db \<Rightarrow> db \<times> string option" where
  "ResetUsageIdentityStats n now s =
     (if now = zero_time then (s, Some ''usage identity stats reset time is zero'')
      else
        (let found = n \<in> id_ID ` set (usage_identities s) in
         case stmt (updateIdentity n (resetRow now)) s of
           (s', Some e) \<Rightarrow> (s', Some (''reset usage identity stats: '' @ e))
         | (s', None) \<Rightarrow> (s', if found then None else Some ''record not found'')))"

section \<open>What a row counts\<close>

definition matched :: "UsageIdentity \<Rightarrow> UsageEvent list \<Rightarrow> UsageEvent list" where
  "matched i evs = filter (usageIdentityEventsQuery i) evs"

definition countedSum :: "UsageIdentity \<Rightarrow> UsageEvent list \<Rightarrow> Counts" where
  "countedSum i evs = sum_list (map identityCounts (filter (\<lambda>e. ev_ID e \<le> id_LastAggregatedUsageEventID i) (matched i evs)))"

definition tallyOK :: "UsageIdentity \<Rightarrow> UsageEvent list \<Rightarrow> int \<Rightarrow> bool" where
  "tallyOK i evs n \<longleftrightarrow> 0 \<le> id_LastAggregatedUsageEventID i \<and> id_LastAggregatedUsageEventID i < n \<and> id_totals i = countedSum i evs"

definition identitiesOK :: "db \<Rightarrow> bool" where
  "identitiesOK s \<longleftrightarrow> distinct (map id_ID (usage_identities s)) \<and> 0 < next_event s \<and>
     (\<forall>e \<in> set (usage_events s). 0 < ev_ID e \<and> ev_ID e < next_event s) \<and>
     (\<forall>i \<in> set (usage_identities s). tallyOK i (usage_events s) (next_event s))"

lemma identitiesOK_faults [simp]: "identitiesOK (s\<lparr>faults := fs\<rparr>) = identitiesOK s"
  by (simp add: identitiesOK_def)

lemma matched_cong: "id_AuthType j = id_AuthType i \<Longrightarrow> Identity j = Identity i \<Longrightarrow> matched j evs = matched i evs"
  by (simp add: matched_def usageIdentityEventsQuery_def [abs_def])

lemma countable_identity:
  assumes "countable_events eventCounts es"
  shows "countable_events identityCounts es"
proof -
  have "sum_list (map identityCounts es) =
        (let c = sum_list (map eventCounts es) in
         Counts (RequestCount c) (SuccessCount c) (FailureCount c) (c_InputTokens c) (c_OutputTokens c) (c_ReasoningTokens c)
           (c_CachedTokens c) (c_CacheReadTokens c) 0 (c_TotalTokens c))"
    by (induction es) (simp_all add: zero_Counts_def plus_Counts_def identityCounts_def eventCounts_def Let_def)
  moreover have "nonneg (eventCounts e) \<Longrightarrow> nonneg (identityCounts e)" for e
    by (simp add: nonneg_def eventCounts_def identityCounts_def)
  ultimately show ?thesis
    using assms by (auto simp: countable_events_def fits_def nonneg_def Let_def MaxInt64_def)
qed

lemma addTotals_exact:
  assumes "fits (a + b)" "c_CacheCreationTokens b = 0"
  shows "addTotals a b = a + b"
  using assms by (simp add: addTotals_def plus_Counts_def fits_def nonneg_def i64_small)

lemma no_cache_creation: "c_CacheCreationTokens (sum_list (map identityCounts es)) = 0"
  by (induction es) (simp_all add: zero_Counts_def plus_Counts_def identityCounts_def)

lemma request_total: "RequestCount (sum_list (map identityCounts es)) = int (length es)"
  by (induction es) (simp_all add: zero_Counts_def plus_Counts_def identityCounts_def)

text \<open>The new row counts the events of the identity without exception.\<close>

lemma identityUpdate_exact:
  assumes ok: "tallyOK i evs n" and cnt: "countable_events identityCounts evs" and bounded: "\<forall>e \<in> set evs. 0 < ev_ID e \<and> ev_ID e < n"
    and delta: "delta = deltaOf older (filter (\<lambda>e. usageIdentityEventsQuery i e \<and> id_LastAggregatedUsageEventID i < ev_ID e) evs)"
    and new: "RequestCount (d_counts delta) \<noteq> 0"
  shows "tallyOK ((identityUpdate now i delta i)\<lparr>id_UpdatedAt := at\<rparr>) evs n"
    "\<forall>e \<in> set (matched i evs). ev_ID e \<le> d_MaxUsageEventID delta"
    "id_LastAggregatedUsageEventID i < d_MaxUsageEventID delta"
proof -
  let ?F = "filter (\<lambda>e. usageIdentityEventsQuery i e \<and> id_LastAggregatedUsageEventID i < ev_ID e) evs"
  let ?max = "d_MaxUsageEventID delta" and ?old = "id_LastAggregatedUsageEventID i"
  have "?F \<noteq> []"
  proof
    assume "?F = []"
    then have "RequestCount (d_counts delta) = 0" by (simp only: delta deltaOf_def) (simp add: zero_Counts_def)
    then show False using new by simp
  qed
  then have max: "?max = Max (ev_ID ` set ?F)" by (simp add: delta deltaOf_def)
  have ne: "ev_ID ` set ?F \<noteq> {}" using \<open>?F \<noteq> []\<close> by blast
  have le: "ev_ID e \<le> ?max" if "e \<in> set ?F" for e using that unfolding max by (intro Max_ge) auto
  have in_F: "?max \<in> ev_ID ` set ?F" unfolding max by (rule Max_in [OF _ ne]) simp
  then have bounds: "?old < ?max" "?max < n" using bounded by auto
  show "?old < ?max" by (rule bounds(1))
  show all: "\<forall>e \<in> set (matched i evs). ev_ID e \<le> ?max"
  proof
    fix e
    assume "e \<in> set (matched i evs)"
    then show "ev_ID e \<le> ?max"
      using le [of e] bounds(1) by (cases "?old < ev_ID e") (auto simp: matched_def)
  qed
  have upto: "filter (\<lambda>e. ev_ID e \<le> ?max) (matched i evs) = matched i evs" using all by (simp add: filter_id_conv)
  have F: "?F = filter (\<lambda>e. \<not> ev_ID e \<le> ?old) (matched i evs)" by (auto simp: matched_def intro!: filter_cong)
  have split: "sum_list (map identityCounts (matched i evs)) = countedSum i evs + sum_list (map identityCounts ?F)"
    unfolding countedSum_def F by (rule sum_list_split)
  have "fits (sum_list (map identityCounts (matched i evs)))"
    unfolding matched_def using cnt by (intro fits_filter) (auto simp: countable_events_def)
  then have "addTotals (id_totals i) (d_counts delta) = sum_list (map identityCounts (matched i evs))"
    using ok split addTotals_exact no_cache_creation by (simp add: tallyOK_def delta deltaOf_def)
  moreover have "matched ((identityUpdate now i delta i)\<lparr>id_UpdatedAt := at\<rparr>) evs = matched i evs"
    by (rule matched_cong) (simp_all add: identityUpdate_def)
  ultimately show "tallyOK ((identityUpdate now i delta i)\<lparr>id_UpdatedAt := at\<rparr>) evs n"
    using upto bounds ok by (simp add: tallyOK_def countedSum_def identityUpdate_def)
qed

text \<open>What a scan must leave of a row: its id, what it matches and how far it was counted.\<close>

definition sameKeys :: "UsageIdentity \<Rightarrow> UsageIdentity \<Rightarrow> bool" where
  "sameKeys i j \<longleftrightarrow> id_ID j = id_ID i \<and> id_AuthType j = id_AuthType i \<and> Identity j = Identity i"

definition caughtUp :: "UsageEvent list \<Rightarrow> UsageIdentity \<Rightarrow> bool" where
  "caughtUp evs i \<longleftrightarrow> (\<forall>e \<in> set (matched i evs). ev_ID e \<le> id_LastAggregatedUsageEventID i)"

definition scanned :: "int set \<Rightarrow> db \<Rightarrow> db \<Rightarrow> bool" where
  "scanned A s s' \<longleftrightarrow> usage_events s' = usage_events s \<and> next_event s' = next_event s \<and> inbox s' = inbox s \<and>
     next_inbox s' = next_inbox s \<and>
     list_all2 (\<lambda>i j. sameKeys i j \<and> (id_ID i \<notin> A \<longrightarrow> j = i) \<and> (caughtUp (usage_events s) i \<longrightarrow> caughtUp (usage_events s) j) \<and>
       id_reset j = id_reset i \<and> id_LastAggregatedUsageEventID i \<le> id_LastAggregatedUsageEventID j)
       (usage_identities s) (usage_identities s')"

lemma scanned_refl [simp]: "scanned A s (s\<lparr>faults := fs\<rparr>)" "scanned A s s"
  by (simp_all add: scanned_def sameKeys_def list_all2_same)

lemma scanned_trans:
  assumes "scanned A s s'" "scanned B s' s''"
  shows "scanned (A \<union> B) s s''"
proof -
  have ev: "usage_events s' = usage_events s" using assms(1) by (simp add: scanned_def)
  let ?P = "\<lambda>C i j. sameKeys i j \<and> (id_ID i \<notin> C \<longrightarrow> j = i) \<and> (caughtUp (usage_events s) i \<longrightarrow> caughtUp (usage_events s) j) \<and>
       id_reset j = id_reset i \<and> id_LastAggregatedUsageEventID i \<le> id_LastAggregatedUsageEventID j"
  have "list_all2 (?P (A \<union> B)) (usage_identities s) (usage_identities s'')"
  proof (rule list_all2_trans [of "?P A" "?P B"])
    show "list_all2 (?P A) (usage_identities s) (usage_identities s')" "list_all2 (?P B) (usage_identities s') (usage_identities s'')"
      using assms ev by (simp_all add: scanned_def)
  qed (auto simp: sameKeys_def)
  then show ?thesis using assms by (simp add: scanned_def)
qed

lemma scanned_ids: "scanned A s s' \<Longrightarrow> map id_ID (usage_identities s') = map id_ID (usage_identities s)"
proof -
  assume "scanned A s s'"
  then have "list_all2 (\<lambda>i j. id_ID j = id_ID i) (usage_identities s) (usage_identities s')"
    unfolding scanned_def by (auto simp: sameKeys_def elim: list_all2_mono)
  then show ?thesis by (induction rule: list_all2_induct) auto
qed

lemma scanned_faults [simp]: "scanned A s (s'\<lparr>faults := fs\<rparr>) = scanned A s s'" "scanned A (s\<lparr>faults := fs\<rparr>) s' = scanned A s s'"
  by (simp_all add: scanned_def)

lemma scanned_mono: "scanned A s s' \<Longrightarrow> A \<subseteq> B \<Longrightarrow> scanned B s s'"
  unfolding scanned_def by (auto elim!: list_all2_mono)

lemma update_one_identity:
  assumes "identitiesOK s" "countable_events eventCounts (usage_events s)" "i \<in> set (usage_identities s)"
    and "delta = deltaOf older (filter (\<lambda>e. usageIdentityEventsQuery i e \<and> id_LastAggregatedUsageEventID i < ev_ID e) (usage_events s))"
    and "RequestCount (d_counts delta) \<noteq> 0"
    and s'_def: "s' = updateIdentity (id_ID i) (\<lambda>r. (identityUpdate now i delta r)\<lparr>id_UpdatedAt := at\<rparr>) s"
  shows "identitiesOK s'" "scanned {id_ID i} s s'" "\<exists>j \<in> set (usage_identities s'). id_ID j = id_ID i \<and> caughtUp (usage_events s) j"
proof -
  let ?new = "(identityUpdate now i delta i)\<lparr>id_UpdatedAt := at\<rparr>"
  have d: "distinct (map id_ID (usage_identities s))" using assms(1) by (simp add: identitiesOK_def)
  then have only: "r = i" if "r \<in> set (usage_identities s)" "id_ID r = id_ID i" for r
    using that assms(3) by (auto simp: distinct_map inj_on_def)
  have rows: "usage_identities s' = map (\<lambda>r. if id_ID r = id_ID i then ?new else r) (usage_identities s)"
    unfolding s'_def updateIdentity_def using only by (auto intro: map_cong)
  have same: "sameKeys i ?new" "id_reset ?new = id_reset i" by (simp_all add: sameKeys_def identityUpdate_def)
  have keep: "usage_events s' = usage_events s" "next_event s' = next_event s" "inbox s' = inbox s" "next_inbox s' = next_inbox s"
    by (simp_all add: s'_def updateIdentity_def)
  have "tallyOK i (usage_events s) (next_event s)" "\<forall>e \<in> set (usage_events s). 0 < ev_ID e \<and> ev_ID e < next_event s"
    using assms(1,3) by (simp_all add: identitiesOK_def)
  note U = identityUpdate_exact [OF this(1) countable_identity [OF assms(2)] this(2) assms(4,5)]
  have "matched ?new (usage_events s) = matched i (usage_events s)" using same by (intro matched_cong) (simp_all add: sameKeys_def)
  moreover have grown: "id_LastAggregatedUsageEventID i \<le> id_LastAggregatedUsageEventID ?new" using U(3) by (simp add: identityUpdate_def)
  ultimately have caught: "caughtUp (usage_events s) ?new" using U(2) by (simp add: caughtUp_def) (simp add: identityUpdate_def)
  have "map id_ID (usage_identities s') = map id_ID (usage_identities s)"
    unfolding rows using same by (simp add: sameKeys_def)
  with d have "distinct (map id_ID (usage_identities s'))" by metis
  moreover have "\<forall>j \<in> set (usage_identities s'). tallyOK j (usage_events s) (next_event s)"
    using assms(1) U(1) by (auto simp: identitiesOK_def rows)
  ultimately show "identitiesOK s'" using assms(1) keep by (simp add: identitiesOK_def)
  show "scanned {id_ID i} s s'"
    using same caught grown only keep unfolding scanned_def rows by (auto simp: list_all2_map2 list_all2_same sameKeys_def)
  show "\<exists>j \<in> set (usage_identities s'). id_ID j = id_ID i \<and> caughtUp (usage_events s) j"
    using assms(3) same caught unfolding rows by (intro bexI [of _ ?new]) (auto simp: sameKeys_def)
qed

definition caughtUpIds :: "int set \<Rightarrow> db \<Rightarrow> bool" where
  "caughtUpIds A s \<longleftrightarrow> (\<forall>j \<in> set (usage_identities s). id_ID j \<in> A \<longrightarrow> caughtUp (usage_events s) j)"

lemma caughtUpIds_faults [simp]: "caughtUpIds A (s\<lparr>faults := fs\<rparr>) = caughtUpIds A s"
  by (simp add: caughtUpIds_def)

lemma scanned_caught: "scanned B s s' \<Longrightarrow> caughtUpIds A s \<Longrightarrow> caughtUpIds A s'"
proof -
  assume sc: "scanned B s s'" and c: "caughtUpIds A s"
  then have ev: "usage_events s' = usage_events s" by (simp add: scanned_def)
  have "caughtUp (usage_events s) j" if "j \<in> set (usage_identities s')" "id_ID j \<in> A" for j
  proof -
    have "list_all2 (\<lambda>i j. sameKeys i j \<and> (caughtUp (usage_events s) i \<longrightarrow> caughtUp (usage_events s) j))
      (usage_identities s) (usage_identities s')"
      using sc unfolding scanned_def by (auto elim: list_all2_mono)
    from list_all2_forward [OF this that(1)]
    obtain i where "i \<in> set (usage_identities s)" "sameKeys i j" "caughtUp (usage_events s) i \<longrightarrow> caughtUp (usage_events s) j" by blast
    then show ?thesis using c that(2) by (auto simp: caughtUpIds_def sameKeys_def)
  qed
  then show ?thesis by (simp add: caughtUpIds_def ev)
qed

lemma caughtUpIds_insert: "distinct (map id_ID (usage_identities s)) \<Longrightarrow> j \<in> set (usage_identities s) \<Longrightarrow> caughtUp (usage_events s) j \<Longrightarrow>
  caughtUpIds A s \<Longrightarrow> caughtUpIds (insert (id_ID j) A) s"
  by (auto simp: caughtUpIds_def distinct_map inj_on_def)

lemma rows_scanned:
  "aggregateUsageIdentityRows older now is n s = (s', r) \<Longrightarrow> identitiesOK s \<Longrightarrow> countable_events eventCounts (usage_events s) \<Longrightarrow>
   set is \<subseteq> set (usage_identities s) \<Longrightarrow> distinct (map id_ID is) \<Longrightarrow> caughtUpIds A s \<Longrightarrow>
   identitiesOK s' \<and> scanned (id_ID ` set is) s s' \<and> ((\<exists>m. r = Inr m) \<longrightarrow> caughtUpIds (A \<union> id_ID ` set is) s')"
proof (induction "is" arbitrary: n s A)
  case (Cons i "is")
  let ?F = "filter (\<lambda>e. usageIdentityEventsQuery i e \<and> id_LastAggregatedUsageEventID i < ev_ID e) (usage_events s)"
  obtain s1 d where del: "aggregateUsageIdentityDelta older i s = (s1, d)" by fastforce
  then obtain fs where s1: "s1 = s\<lparr>faults := fs\<rparr>" and d: "\<forall>x. d = Inr x \<longrightarrow> x = deltaOf older ?F"
    unfolding aggregateUsageIdentityDelta_def by (cases "query (\<lambda>t. deltaOf older (filter (\<lambda>e. usageIdentityEventsQuery i e \<and>
      id_LastAggregatedUsageEventID i < ev_ID e) (usage_events t))) s") (auto elim!: query_cases split: if_splits)
  have ok1: "identitiesOK s1" and c1: "caughtUpIds A s1" and i1: "i \<in> set (usage_identities s1)" and ev1: "usage_events s1 = usage_events s"
    and dist: "distinct (map id_ID (usage_identities s1))"
    using Cons.prems by (auto simp: s1 identitiesOK_def)
  show ?case
  proof (cases d)
    case (Inl e)
    then show ?thesis using Cons.prems del s1 by auto
  next
    case (Inr delta)
    then have delta: "delta = deltaOf older ?F" using d by simp
    show ?thesis
    proof (cases "RequestCount (d_counts delta) = 0")
      case True
      then have "?F = []" unfolding delta by (simp add: deltaOf_def request_total)
      then have "caughtUp (usage_events s1) i" by (force simp: ev1 caughtUp_def matched_def filter_empty_conv)
      from caughtUpIds_insert [OF dist i1 this c1] have c2: "caughtUpIds (insert (id_ID i) A) s1" .
      have "aggregateUsageIdentityRows older now is n s1 = (s', r)" using Cons.prems(1) del Inr True by simp
      from Cons.IH [OF this ok1 _ _ _ c2] Cons.prems(3-5) show ?thesis
        by (auto simp: s1 elim: scanned_mono)
    next
      case False
      let ?up = "\<lambda>t. updateIdentity (id_ID i) (\<lambda>r. (identityUpdate now i delta r)\<lparr>id_UpdatedAt := gorm_now t\<rparr>) t"
      obtain s2 e where st: "stmt ?up s1 = (s2, e)" by fastforce
      show ?thesis
      proof (cases e)
        case (Some m)
        then obtain gs where "s2 = s1\<lparr>faults := gs\<rparr>" using st by (elim stmt_cases) auto
        then show ?thesis using Cons.prems del Inr False st Some s1 by auto
      next
        case None
        then obtain gs where s2: "s2 = ?up (s1\<lparr>faults := gs\<rparr>)" using st by (elim stmt_cases) auto
        have ok: "identitiesOK (s1\<lparr>faults := gs\<rparr>)" and cnt: "countable_events eventCounts (usage_events (s1\<lparr>faults := gs\<rparr>))"
          and i: "i \<in> set (usage_identities (s1\<lparr>faults := gs\<rparr>))"
          and dl: "delta = deltaOf older (filter (\<lambda>e. usageIdentityEventsQuery i e \<and> id_LastAggregatedUsageEventID i < ev_ID e)
            (usage_events (s1\<lparr>faults := gs\<rparr>)))"
          using ok1 Cons.prems(3) i1 delta by (simp_all add: ev1)
        note U = update_one_identity [OF ok cnt i dl False s2]
        have sc: "scanned {id_ID i} s s2" using U(2) by (simp add: s1)
        have ev2: "usage_events s2 = usage_events s" using sc by (simp add: scanned_def)
        have c2: "caughtUpIds A s2" using scanned_caught [OF sc] Cons.prems(6) .
        obtain j where "j \<in> set (usage_identities s2)" "id_ID j = id_ID i" "caughtUp (usage_events s2) j"
          using U(3) by (auto simp: ev1 ev2)
        then have c3: "caughtUpIds (insert (id_ID i) A) s2"
          using caughtUpIds_insert [of s2 j] U(1) c2 by (auto simp: identitiesOK_def)
        have sub: "set is \<subseteq> set (usage_identities s2)"
        proof
          fix x
          assume x: "x \<in> set is"
          then have "x \<in> set (usage_identities s)" "id_ID x \<noteq> id_ID i" using Cons.prems(4,5) by (auto intro: rev_image_eqI)
          then show "x \<in> set (usage_identities s2)" by (force simp: s2 s1 updateIdentity_def)
        qed
        have "aggregateUsageIdentityRows older now is (Suc n) s2 = (s', r)" using Cons.prems(1) del Inr False st None by simp
        from Cons.IH [OF this U(1) _ sub _ c3] Cons.prems(3,5)
        have *: "identitiesOK s'" "scanned (id_ID ` set is) s2 s'" "(\<exists>m. r = Inr m) \<longrightarrow> caughtUpIds (insert (id_ID i) A \<union> id_ID ` set is) s'"
          by (auto simp: ev2)
        have "scanned (id_ID ` set (i # is)) s s'" using scanned_trans [OF sc *(2)] by simp
        then show ?thesis using * by auto
      qed
    qed
  qed
qed simp

lemma identityPage_facts:
  assumes "distinct (map id_ID is)" "page = identityPage a is"
  shows "set page \<subseteq> set is" "distinct (map id_ID page)" "\<forall>i \<in> set page. a < id_ID i"
    "page \<noteq> [] \<Longrightarrow> \<forall>i \<in> set is. a < id_ID i \<and> id_ID i \<le> id_ID (last page) \<longrightarrow> i \<in> set page"
    "length page < UsageIdentityAggregationBatchSize \<Longrightarrow> \<forall>i \<in> set is. a < id_ID i \<longrightarrow> i \<in> set page"
proof -
  define F where "F = sort_key id_ID (filter (\<lambda>i. a < id_ID i) is)"
  have page: "page = take UsageIdentityAggregationBatchSize F" by (simp add: assms(2) identityPage_def F_def)
  have setF: "set F = {i \<in> set is. a < id_ID i}" by (simp add: F_def)
  have sub: "set page \<subseteq> set F" unfolding page by (rule set_take_subset)
  then show "set page \<subseteq> set is" "\<forall>i \<in> set page. a < id_ID i" using setF by auto
  have "distinct (map id_ID F)" using assms(1) unfolding F_def
    by (metis distinct_map_filter distinct_sort mset_eq_imp_distinct_iff mset_map mset_sort)
  then have dF: "distinct (map id_ID F)" .
  then show "distinct (map id_ID page)" unfolding page by (simp add: distinct_take flip: take_map)
  show "\<forall>i \<in> set is. a < id_ID i \<longrightarrow> i \<in> set page" if "length page < UsageIdentityAggregationBatchSize"
  proof -
    have "page = F" using that unfolding page by simp
    then show ?thesis using setF by auto
  qed
  show "\<forall>i \<in> set is. a < id_ID i \<and> id_ID i \<le> id_ID (last page) \<longrightarrow> i \<in> set page" if "page \<noteq> []"
  proof (intro ballI impI)
    fix i
    assume i: "i \<in> set is" "a < id_ID i \<and> id_ID i \<le> id_ID (last page)"
    then have "i \<in> set F" using setF by simp
    moreover have "sorted (map id_ID (page @ drop UsageIdentityAggregationBatchSize F))" unfolding page by (simp add: F_def)
    then have "\<forall>x \<in> set page. \<forall>y \<in> set (drop UsageIdentityAggregationBatchSize F). id_ID x \<le> id_ID y"
      by (auto simp: sorted_append)
    moreover have "last page \<in> set page" using that by simp
    moreover have "set F = set page \<union> set (drop UsageIdentityAggregationBatchSize F)"
      unfolding page by (metis append_take_drop_id set_append)
    moreover have "id_ID i \<noteq> id_ID (last page)" if "i \<in> set (drop UsageIdentityAggregationBatchSize F)"
    proof -
      have "distinct (map id_ID (page @ drop UsageIdentityAggregationBatchSize F))" using dF unfolding page by simp
      then show ?thesis using that \<open>last page \<in> set page\<close> by (auto simp: distinct_append)
    qed
    ultimately show "i \<in> set page" using i(2) by (metis UnE order_antisym)
  qed
qed

definition batchScanned :: "int \<Rightarrow> db \<Rightarrow> db \<Rightarrow> UsageIdentityAggregationBatchResult \<Rightarrow> bool" where
  "batchScanned a s s' v \<longleftrightarrow>
     (if ReachedEnd v then caughtUpIds UNIV s'
      else a < LastIdentityID v \<and> caughtUpIds {i. i \<le> LastIdentityID v} s' \<and>
           (\<exists>i \<in> set (usage_identities s). id_ID i = LastIdentityID v))"

lemma batchScanned_faults [simp]: "batchScanned a s (s'\<lparr>faults := fs\<rparr>) v = batchScanned a s s' v"
  by (simp add: batchScanned_def)

lemma caughtUpIds_cover:
  assumes "caughtUpIds B s'" "map id_ID (usage_identities s') = map id_ID (usage_identities s)"
    and "\<And>i. i \<in> set (usage_identities s) \<Longrightarrow> id_ID i \<in> A \<Longrightarrow> id_ID i \<in> B"
  shows "caughtUpIds A s'"
proof -
  have "id_ID ` set (usage_identities s') = id_ID ` set (usage_identities s)" using assms(2) by (metis list.set_map)
  then show ?thesis using assms(1,3) by (force simp: caughtUpIds_def)
qed

lemma batch_body_scanned:
  assumes b: "identityBatchBody older now a s = (s1, Inr v)" and ok: "identitiesOK s"
    and cnt: "countable_events eventCounts (usage_events s)"
  shows "identitiesOK s1 \<and> scanned UNIV s s1 \<and> (caughtUpIds {i. i \<le> a} s \<longrightarrow> batchScanned a s s1 v)"
proof -
  define page where "page = identityPage a (usage_identities s)"
  have d: "distinct (map id_ID (usage_identities s))" using ok by (simp add: identitiesOK_def)
  note P = identityPage_facts [OF d page_def]
  obtain s0 q where q: "query (\<lambda>t. identityPage a (usage_identities t)) s = (s0, q)" by fastforce
  have nofail: "q \<noteq> Inl e" for e using b q by (auto simp: identityBatchBody_def)
  from q obtain fs where s0: "s0 = s\<lparr>faults := fs\<rparr>" and q': "q = Inr page"
    by (cases rule: query_cases) (use nofail in \<open>auto simp: page_def\<close>)
  show ?thesis
  proof (cases "page = []")
    case True
    then have "\<forall>i \<in> set (usage_identities s). id_ID i \<le> a" using P(5) by (auto simp: UsageIdentityAggregationBatchSize_def not_less)
    moreover have "s1 = s0" "ReachedEnd v" using b q q' True by (auto simp: identityBatchBody_def)
    ultimately show ?thesis using ok by (auto simp: s0 caughtUpIds_def batchScanned_def)
  next
    case False
    obtain m where rows: "aggregateUsageIdentityRows older now page 0 s0 = (s1, Inr m)"
      and v: "v = \<lparr>ProcessedIdentities = m, LastIdentityID = id_ID (last page), ReachedEnd = length page < UsageIdentityAggregationBatchSize\<rparr>"
      using b q q' False by (auto simp: identityBatchBody_def split: prod.splits sum.splits)
    have R: "identitiesOK s1" "scanned (id_ID ` set page) s0 s1"
      using rows_scanned [OF rows, of "{}"] ok cnt P(1,2) by (auto simp: s0 caughtUpIds_def)
    then have sc: "scanned UNIV s s1" by (auto simp: s0 elim: scanned_mono)
    have "last page \<in> set page" using False by simp
    then have lst: "a < id_ID (last page)" "\<exists>i \<in> set (usage_identities s). id_ID i = id_ID (last page)" using P(1,3) by auto
    have caught: "caughtUpIds ({i. i \<le> a} \<union> id_ID ` set page) s1" if "caughtUpIds {i. i \<le> a} s"
      using rows_scanned [OF rows, of "{i. i \<le> a}"] ok cnt P(1,2) that by (auto simp: s0)
    have "caughtUpIds {i. i \<le> id_ID (last page)} s1" if c: "caughtUpIds {i. i \<le> a} s"
      using caughtUpIds_cover [OF caught [OF c] scanned_ids [OF sc]] P(4) [OF False] by (metis (no_types, lifting) UnI1 UnI2 image_eqI mem_Collect_eq not_le_imp_less)
    moreover have "caughtUpIds UNIV s1" if c: "caughtUpIds {i. i \<le> a} s" and full: "length page < UsageIdentityAggregationBatchSize"
      using caughtUpIds_cover [OF caught [OF c] scanned_ids [OF sc]] P(5) [OF full] by (metis (no_types, lifting) UnI1 UnI2 image_eqI mem_Collect_eq not_le_imp_less)
    ultimately show ?thesis using R sc lst by (simp add: v batchScanned_def)
  qed
qed

text \<open>
  A batch, whatever fails: rows keep counting exactly the events up to their cursor; when it
  succeeds the rows of its page have counted everything.
\<close>

lemma batch_cases:
  assumes "AggregateUsageIdentityStatsBatch older now a s = (s', r)"
  obtains (failed) e fs where "s' = s\<lparr>faults := fs\<rparr>" "r = Inl e"
    | (committed) s1 v fs where "identityBatchBody older now a s = (s1, Inr v)" "r = Inr v" "s' = s1\<lparr>faults := fs\<rparr>"
proof (cases "a < 0")
  case True
  then show ?thesis using assms failed [of "faults s"] by (auto simp: AggregateUsageIdentityStatsBatch_def)
next
  case False
  then have "transaction (identityBatchBody older now a) s = (s', r)" using assms by (simp add: AggregateUsageIdentityStatsBatch_def)
  then show ?thesis using failed committed by (cases rule: transaction_cases) auto
qed

lemma batch_scanned:
  assumes run: "AggregateUsageIdentityStatsBatch older now a s = (s', r)" and ok: "identitiesOK s"
    and cnt: "countable_events eventCounts (usage_events s)"
  shows "identitiesOK s'" "scanned UNIV s s'" "r = Inr v \<Longrightarrow> caughtUpIds {i. i \<le> a} s \<Longrightarrow> batchScanned a s s' v"
proof -
  have "identitiesOK s' \<and> scanned UNIV s s' \<and> (r = Inr v \<longrightarrow> caughtUpIds {i. i \<le> a} s \<longrightarrow> batchScanned a s s' v)"
    using run
  proof (cases rule: batch_cases)
    case (committed s1 w fs)
    then show ?thesis using batch_body_scanned [OF committed(1) ok cnt] by auto
  qed (simp add: ok scanned_refl)
  then show "identitiesOK s'" "scanned UNIV s s'" "r = Inr v \<Longrightarrow> caughtUpIds {i. i \<le> a} s \<Longrightarrow> batchScanned a s s' v" by auto
qed

section \<open>The scan returns\<close>

lemma delta_clean:
  assumes "faults s = []" "countable_events eventCounts (usage_events s)"
  shows "aggregateUsageIdentityDelta older i s =
    (s, Inr (deltaOf older (filter (\<lambda>e. usageIdentityEventsQuery i e \<and> id_LastAggregatedUsageEventID i < ev_ID e) (usage_events s))))"
proof -
  let ?F = "filter (\<lambda>e. usageIdentityEventsQuery i e \<and> id_LastAggregatedUsageEventID i < ev_ID e) (usage_events s)"
  have "fits (sum_list (map identityCounts ?F))"
    using countable_identity [OF assms(2)] by (intro fits_filter) (auto simp: countable_events_def)
  then have "\<not> sumOverflows (d_counts (deltaOf older ?F))"
    by (simp add: sumOverflows_def deltaOf_def fits_def nonneg_def in_i64_def MinInt64_def)
  then show ?thesis using assms(1) by (simp add: aggregateUsageIdentityDelta_def)
qed

lemma rows_clean:
  "faults s = [] \<Longrightarrow> countable_events eventCounts (usage_events s) \<Longrightarrow>
   \<exists>s' m. aggregateUsageIdentityRows older now is n s = (s', Inr m) \<and> faults s' = []"
proof (induction "is" arbitrary: n s)
  case (Cons i "is")
  then show ?case by (auto simp: delta_clean updateIdentity_def)
qed simp

lemma batch_clean:
  assumes "faults s = []" "countable_events eventCounts (usage_events s)" "0 \<le> a"
  shows "\<exists>s' v. AggregateUsageIdentityStatsBatch older now a s = (s', Inr v) \<and> faults s' = []"
proof -
  have "\<exists>s' v. identityBatchBody older now a s = (s', Inr v) \<and> faults s' = []"
    using assms(1) rows_clean [OF assms(1,2), of older now "identityPage a (usage_identities s)" 0]
    by (auto simp: identityBatchBody_def)
  then show ?thesis using assms(3) by (auto simp: AggregateUsageIdentityStatsBatch_def transaction_def)
qed

text \<open>
  Every page but the last ends at a larger id of a row, so that the scan ends; without faults
  every row has then counted all its events.
\<close>

lemma scan_returns:
  "identitiesOK s \<Longrightarrow> countable_events eventCounts (usage_events s) \<Longrightarrow> caughtUpIds {i. i \<le> a} s \<Longrightarrow> 0 \<le> a \<Longrightarrow>
   \<exists>s' e. identityScan older now a s = Some (s', e) \<and> scanned UNIV s s' \<and> (e = None \<longrightarrow> caughtUpIds UNIV s') \<and>
     (faults s = [] \<longrightarrow> e = None \<and> faults s' = [])"
proof (induction "card {i \<in> id_ID ` set (usage_identities s). a < i}" arbitrary: a s rule: less_induct)
  case less
  obtain s1 r where b: "AggregateUsageIdentityStatsBatch older now a s = (s1, r)" by fastforce
  have clean: "\<exists>v. r = Inr v \<and> faults s1 = []" if "faults s = []" using batch_clean [OF that less.prems(2,4), of older now] b by auto
  note B = batch_scanned [OF b less.prems(1,2)]
  show ?case
  proof (cases r)
    case (Inl m)
    then show ?thesis using b B(2) clean by (auto simp: identityScan.simps [of older now a s])
  next
    case (Inr v)
    note b = b [unfolded Inr] and C = B(3) [OF Inr less.prems(3)]
    show ?thesis
    proof (cases "ReachedEnd v")
      case True
      then have "caughtUpIds UNIV s1" using C less.prems(3) by (simp add: batchScanned_def)
      then show ?thesis using True B(2) b clean by (simp add: identityScan.simps [of older now a s])
    next
      case False
      let ?c = "LastIdentityID v"
      have c: "a < ?c" "caughtUpIds {i. i \<le> ?c} s1" "\<exists>i \<in> set (usage_identities s). id_ID i = ?c"
        using C False less.prems(3) by (simp_all add: batchScanned_def)
      have ids: "id_ID ` set (usage_identities s1) = id_ID ` set (usage_identities s)"
        using scanned_ids [OF B(2)] by (metis list.set_map)
      have "?c \<in> {i \<in> id_ID ` set (usage_identities s). a < i}" using c(1,3) by force
      then have "card {i \<in> id_ID ` set (usage_identities s1). ?c < i} < card {i \<in> id_ID ` set (usage_identities s). a < i}"
        unfolding ids using c(1) by (intro psubset_card_mono psubsetI) (auto simp: set_eq_iff)
      from less.hyps [OF this B(1) _ c(2)] obtain s' e
        where "identityScan older now ?c s1 = Some (s', e)" "scanned UNIV s1 s'" "e = None \<longrightarrow> caughtUpIds UNIV s'"
          "faults s1 = [] \<longrightarrow> e = None \<and> faults s' = []"
        using less.prems(2,4) c(1) B(2) by (auto simp: scanned_def)
      then show ?thesis using False b clean scanned_trans [OF B(2)] by (auto simp: identityScan.simps [of older now a s])
    qed
  qed
qed

section \<open>Everything that happens to the identities\<close>

definition sameTally :: "UsageIdentity \<Rightarrow> UsageIdentity \<Rightarrow> bool" where
  "sameTally i j \<longleftrightarrow> sameKeys i j \<and> id_totals j = id_totals i \<and> id_reset j = id_reset i \<and>
     id_LastAggregatedUsageEventID j = id_LastAggregatedUsageEventID i"

definition freshTally :: "UsageIdentity \<Rightarrow> bool" where
  "freshTally i \<longleftrightarrow> id_totals i = 0 \<and> id_reset i = 0 \<and> id_LastAggregatedUsageEventID i = 0"

definition positiveIds :: "db \<Rightarrow> bool" where
  "positiveIds s \<longleftrightarrow> (\<forall>n \<in> set (map id_ID (usage_identities s)). 0 < n)"

lemma positiveIds_cong: "map id_ID (usage_identities s') = map id_ID (usage_identities s) \<Longrightarrow> positiveIds s' = positiveIds s"
  unfolding positiveIds_def by presburger

definition talliesKept :: "db \<Rightarrow> db \<Rightarrow> bool" where
  "talliesKept s s' \<longleftrightarrow> usage_events s' = usage_events s \<and> next_event s' = next_event s \<and> inbox s' = inbox s \<and> next_inbox s' = next_inbox s \<and>
     (distinct (map id_ID (usage_identities s)) \<longrightarrow> distinct (map id_ID (usage_identities s'))) \<and>
     (positiveIds s \<longrightarrow> positiveIds s') \<and>
     (\<exists>old new. usage_identities s' = old @ new \<and> list_all2 sameTally (usage_identities s) old \<and> list_all freshTally new)"

lemma talliesKeptI:
  assumes "usage_identities s' = old @ new" "list_all2 sameTally (usage_identities s) old" "list_all freshTally new"
    and "usage_events s' = usage_events s" "next_event s' = next_event s" "inbox s' = inbox s" "next_inbox s' = next_inbox s"
    and "distinct (map id_ID (usage_identities s)) \<Longrightarrow> distinct (map id_ID (usage_identities s'))" "positiveIds s \<Longrightarrow> positiveIds s'"
  shows "talliesKept s s'"
  using assms unfolding talliesKept_def by blast

lemma sameTally_self [simp]: "sameTally r r"
  by (simp add: sameTally_def sameKeys_def)

lemma talliesKept_refl [simp]: "talliesKept s (s\<lparr>faults := fs\<rparr>)" "talliesKept s s"
  by (rule talliesKeptI [of _ "usage_identities s" "[]"]; simp add: list_all2_same positiveIds_def)+

lemma talliesKept_faults [simp]: "talliesKept s (s'\<lparr>faults := fs\<rparr>) = talliesKept s s'" "talliesKept (s\<lparr>faults := fs\<rparr>) s' = talliesKept s s'"
  by (simp_all add: talliesKept_def positiveIds_def)

lemma talliesKept_trans:
  assumes "talliesKept s s'" "talliesKept s' s''"
  shows "talliesKept s s''"
proof -
  obtain old new where 1: "usage_identities s' = old @ new" "list_all2 sameTally (usage_identities s) old" "list_all freshTally new"
    using assms(1) by (auto simp: talliesKept_def)
  obtain old' new' where 2: "usage_identities s'' = old' @ new'" "list_all2 sameTally (old @ new) old'" "list_all freshTally new'"
    using assms(2) 1(1) by (auto simp: talliesKept_def)
  obtain a b where ab: "old' = a @ b" "list_all2 sameTally old a" "list_all2 sameTally new b"
    using 2(2) by (auto simp: list_all2_append1)
  have "list_all2 sameTally (usage_identities s) a"
    by (rule list_all2_trans [OF _ 1(2) ab(2)]) (auto simp: sameTally_def sameKeys_def)
  moreover have "list_all freshTally b"
    using ab(3) 1(3) by (induction rule: list_all2_induct) (auto simp: freshTally_def sameTally_def)
  ultimately have "\<exists>old new. usage_identities s'' = old @ new \<and> list_all2 sameTally (usage_identities s) old \<and> list_all freshTally new"
    using 2(1,3) ab(1) by (intro exI [of _ a] exI [of _ "b @ new'"]) simp
  then show ?thesis using assms by (simp add: talliesKept_def)
qed

lemma talliesKept_map:
  assumes "\<And>r. sameTally r (f r)"
  shows "talliesKept s (mapIdentities f s)"
proof -
  have "map id_ID (map f rows) = map id_ID rows" for rows using assms by (auto simp: sameTally_def sameKeys_def)
  then have "map id_ID (usage_identities (mapIdentities f s)) = map id_ID (usage_identities s)" by (simp add: mapIdentities_def)
  then have "distinct (map id_ID (usage_identities s)) \<longrightarrow> distinct (map id_ID (usage_identities (mapIdentities f s)))"
    "positiveIds s \<longrightarrow> positiveIds (mapIdentities f s)" by (metis, metis positiveIds_def)
  then show ?thesis
    using assms by (intro talliesKeptI [of _ "map f (usage_identities s)" "[]"]) (simp_all, simp_all add: mapIdentities_def list_all2_map2 list_all2_same)
qed

lemma talliesKept_stmt:
  assumes "stmt f s = (s', e)" "\<And>t. talliesKept t (f t)"
  shows "talliesKept s s'"
  using assms(1) by (cases rule: stmt_cases) (use assms(2) [of "s\<lparr>faults := _\<rparr>"] in auto)

lemma setFields_tally: "sameTally r (setFields j fs r)"
proof -
  have "sameTally r (setField j r f)" for r f by (cases f) (simp_all add: sameTally_def sameKeys_def)
  then show ?thesis unfolding setFields_def
    by (induction fs arbitrary: r) (auto simp: sameTally_def sameKeys_def)
qed

lemma talliesKept_append:
  assumes "\<forall>r \<in> set rows. freshTally r"
  shows "talliesKept s (appendIdentities rows s)"
proof -
  let ?n = "nextIdentityID (usage_identities s)"
  have "list_all freshTally (numberIdentities n rows)" for n
    using assms by (induction rows arbitrary: n) (auto simp: freshTally_def)
  moreover have "distinct (map id_ID (numberIdentities ?n rows))" by (simp add: distinct_map inj_on_def)
  moreover have "set (map id_ID (usage_identities s)) \<inter> set (map id_ID (numberIdentities ?n rows)) = {}"
    unfolding numberIdentities_keys using nextIdentityID_bound(1) [of _ "usage_identities s"] by fastforce
  moreover have "0 < k" if "k \<in> set (map id_ID (numberIdentities ?n rows))" for k
    using that nextIdentityID_bound(2) [of "usage_identities s"] unfolding numberIdentities_keys by auto
  ultimately show ?thesis
    by (intro talliesKeptI [of _ "usage_identities s" "numberIdentities ?n rows"])
       (auto simp: appendIdentities_def list_all2_same positiveIds_def simp del: numberIdentities_keys)
qed

lemma updateIdentities_tally: "updateIdentities j cs s = (s', e) \<Longrightarrow> talliesKept s s'"
proof (induction cs arbitrary: s)
  case (Cons c cs)
  obtain s1 e1 where st: "stmt (mapIdentities (applyUpdate j c)) s = (s1, e1)" by fastforce
  have "talliesKept s s1"
    by (rule talliesKept_stmt [OF st talliesKept_map]) (simp add: applyUpdate_def setFields_tally)
  then show ?case using Cons st talliesKept_trans by (cases e1) auto
qed simp

lemma insertIdentities_tally:
  assumes "insertIdentities rows s = (s', e)" "\<forall>r \<in> set rows. freshTally r"
  shows "talliesKept s s'"
proof (cases "identitiesClash rows s")
  case True
  obtain s1 e1 where st: "stmt (\<lambda>t. t) s = (s1, e1)" by fastforce
  then have "talliesKept s s1" by (rule talliesKept_stmt) simp
  then show ?thesis using assms(1) True st by (cases e1) (auto simp: insertIdentities_def)
next
  case False
  then have "stmt (appendIdentities rows) s = (s', e)" using assms(1) by (simp add: insertIdentities_def)
  then show ?thesis by (rule talliesKept_stmt) (rule talliesKept_append [OF assms(2)])
qed

lemma createIdentities_tally:
  "createIdentities sz rows s = (s', e) \<Longrightarrow> \<forall>r \<in> set rows. freshTally r \<Longrightarrow> talliesKept s s'"
proof (induction sz rows s arbitrary: s' e rule: createIdentities.induct)
  case (1 sz rows s)
  show ?case
  proof (cases "rows = [] \<or> sz = 0")
    case False
    obtain s1 e1 where ins: "insertIdentities (take sz rows) s = (s1, e1)" by fastforce
    have "talliesKept s s1" by (rule insertIdentities_tally [OF ins]) (use 1(3) in \<open>auto dest: in_set_takeD\<close>)
    moreover have "\<forall>r \<in> set (drop sz rows). freshTally r" using 1(3) by (auto dest: in_set_dropD)
    ultimately show ?thesis using 1(1) [OF False ins [symmetric]] 1(2) False ins talliesKept_trans
      by (cases e1) (auto simp: createIdentities.simps [of sz rows])
  qed (use 1 in \<open>auto simp: createIdentities.simps\<close>)
qed

lemma markStale_tally: "markStaleUsageIdentityRowsDeleted sz staleIDs now c s = (s', e) \<Longrightarrow> talliesKept s s'"
proof (induction sz staleIDs now c s arbitrary: s' e rule: markStaleUsageIdentityRowsDeleted.induct)
  case (1 sz staleIDs now c s)
  show ?case
  proof (cases "staleIDs = [] \<or> sz = 0")
    case False
    obtain s1 e1 where st: "stmt (mapIdentities (markDeleted (take sz staleIDs) now)) s = (s1, e1)" by fastforce
    have "talliesKept s s1"
      by (rule talliesKept_stmt [OF st talliesKept_map]) (simp add: markDeleted_def sameTally_def sameKeys_def)
    then show ?thesis using 1(1) [OF False st [symmetric]] 1(2) False st talliesKept_trans
      by (cases e1) (auto simp: markStaleUsageIdentityRowsDeleted.simps [of sz staleIDs])
  qed (use 1 in \<open>auto simp: markStaleUsageIdentityRowsDeleted.simps\<close>)
qed

lemma applySync_tally:
  assumes "applyUsageIdentitySync j columns ch now c s = (s', e)" "\<forall>r \<in> set (ch_create ch). freshTally r"
  shows "talliesKept s s'"
proof (cases "ch_create ch = [] \<and> ch_update ch = [] \<and> ch_staleIDs ch = []")
  case True
  then show ?thesis using assms(1) by (simp add: applyUsageIdentitySync_def)
next
  case False
  have body: "talliesKept s t" if "writeIdentityChanges j columns ch now c s = (t, x)" for t x
    using that updateIdentities_tally createIdentities_tally [OF _ assms(2)] markStale_tally talliesKept_trans
    unfolding writeIdentityChanges_def Let_def by (simp split: prod.splits option.splits) (metis (no_types, lifting))+
  obtain x where "transaction (writeIdentityChanges j columns ch now c) s = (s', x)"
    using assms(1) False by (auto simp: applyUsageIdentitySync_def split: prod.splits sum.splits)
  then show ?thesis by (cases rule: transaction_cases) (use body in auto)
qed

lemma edit_tally:
  assumes "editIdentities p f s = (s', e)" "\<And>r. sameTally r (f r)"
  shows "talliesKept s s'"
proof -
  let ?g = "\<lambda>t r. if p r then (f r)\<lparr>id_UpdatedAt := gorm_now t\<rparr> else r"
  obtain s1 e1 where st: "stmt (\<lambda>t. mapIdentities (?g t) t) s = (s1, e1)" by fastforce
  have "talliesKept s s1"
    by (rule talliesKept_stmt [OF st talliesKept_map]) (use assms(2) in \<open>auto simp: sameTally_def sameKeys_def\<close>)
  moreover have "s' = s1" using assms(1) st by (auto simp: editIdentities_def Let_def split: option.splits)
  ultimately show ?thesis by simp
qed

text \<open>
  The reachable databases: messages arrive and are processed, synchronisations write plans (made
  from whatever snapshot) whose new rows have not counted anything, Keeper's edits, resets, and
  aggregation batches from any cursor. Any statement of any of them may fail. The history carries
  along what the database does not store: \<open>rc n\<close> is the cursor that the row \<open>n\<close> had when its last
  reset succeeded, 0 when there was none.
\<close>

definition statsCursor :: "int \<Rightarrow> db \<Rightarrow> int" where
  "statsCursor n s = (case find (\<lambda>i. id_ID i = n) (usage_identities s) of None \<Rightarrow> 0 | Some i \<Rightarrow> id_LastAggregatedUsageEventID i)"

inductive tallied :: "(int \<Rightarrow> int) \<Rightarrow> db \<Rightarrow> bool" where
  start: "inbox s = [] \<Longrightarrow> usage_events s = [] \<Longrightarrow> usage_identities s = [] \<Longrightarrow> next_event s = 1 \<Longrightarrow> tallied (\<lambda>_. 0) s"
| work: "tallied rc s \<Longrightarrow> inbox_work s s' \<Longrightarrow> tallied rc s'"
| environment: "tallied rc s \<Longrightarrow> tallied rc (s\<lparr>faults := fs, gorm_now := at\<rparr>)"
| sync: "tallied rc s \<Longrightarrow> \<forall>r \<in> set (ch_create ch). freshTally r \<Longrightarrow> applyUsageIdentitySync julianday columns ch now context s = (s', e) \<Longrightarrow>
    tallied rc s'"
| renamed: "tallied rc s \<Longrightarrow> UpdateUsageIdentityAlias n name s = (s', e) \<Longrightarrow> tallied rc s'"
| disabled: "tallied rc s \<Longrightarrow> UpdateUsageIdentityDisabled authType identity flag s = (s', e) \<Longrightarrow> tallied rc s'"
| priority: "tallied rc s \<Longrightarrow> UpdateUsageIdentityPriority authType identity p s = (s', e) \<Longrightarrow> tallied rc s'"
| subscription: "tallied rc s \<Longrightarrow> UpdateCodexUsageIdentityActiveUntil i until s = (s', e) \<Longrightarrow> tallied rc s'"
| batch: "tallied rc s \<Longrightarrow> AggregateUsageIdentityStatsBatch older now after s = (s', r) \<Longrightarrow> tallied rc s'"
| reset: "tallied rc s \<Longrightarrow> ResetUsageIdentityStats n now s = (s', e) \<Longrightarrow>
    tallied (if e = None then rc(n := statsCursor n s) else rc) s'"

definition countedUpTo :: "UsageIdentity \<Rightarrow> int \<Rightarrow> UsageEvent list \<Rightarrow> Counts" where
  "countedUpTo i c evs = sum_list (map identityCounts (filter (\<lambda>e. ev_ID e \<le> c) (matched i evs)))"

definition resetOK :: "int \<Rightarrow> UsageEvent list \<Rightarrow> UsageIdentity \<Rightarrow> bool" where
  "resetOK c evs i \<longleftrightarrow> 0 \<le> c \<and> c \<le> id_LastAggregatedUsageEventID i \<and> id_reset i = resetBaseline (countedUpTo i c evs)"

definition talliesOK :: "(int \<Rightarrow> int) \<Rightarrow> db \<Rightarrow> bool" where
  "talliesOK rc s \<longleftrightarrow> identitiesOK s \<and> (\<forall>i \<in> set (usage_identities s). resetOK (rc (id_ID i)) (usage_events s) i)"

definition resetsKnown :: "(int \<Rightarrow> int) \<Rightarrow> db \<Rightarrow> bool" where
  "resetsKnown rc s \<longleftrightarrow> (\<forall>n. rc n \<noteq> 0 \<longrightarrow> n \<in> set (map id_ID (usage_identities s)))"

lemma countedSum_upTo: "countedSum i evs = countedUpTo i (id_LastAggregatedUsageEventID i) evs"
  by (simp add: countedSum_def countedUpTo_def)

lemma countedUpTo_keys: "sameKeys i j \<Longrightarrow> countedUpTo j c evs = countedUpTo i c evs"
  by (simp add: countedUpTo_def sameKeys_def matched_cong [of j i])

lemma countedUpTo_grows:
  assumes "numberEvents n new = new" "c < n"
  shows "countedUpTo i c (evs @ new) = countedUpTo i c evs"
proof -
  have "filter (\<lambda>e. ev_ID e \<le> c) (matched i x) = matched i (upto_id c x)" for x by (simp add: matched_def conj_commute)
  then show ?thesis using upto_append [OF assms] by (simp only: countedUpTo_def)
qed

lemma countedUpTo_zero: "\<forall>e \<in> set evs. 0 < ev_ID e \<Longrightarrow> countedUpTo i 0 evs = 0"
proof -
  assume "\<forall>e \<in> set evs. 0 < ev_ID e"
  then have "filter (\<lambda>e. ev_ID e \<le> 0) (matched i evs) = []" by (auto simp: matched_def filter_empty_conv)
  then show ?thesis unfolding countedUpTo_def by simp
qed

lemma resetBaseline_zero [simp]: "resetBaseline 0 = 0"
  by (simp add: resetBaseline_def zero_Counts_def)

lemma tally_cong:
  "sameTally i j \<Longrightarrow> tallyOK j evs n = tallyOK i evs n" "sameTally i j \<Longrightarrow> resetOK c evs j = resetOK c evs i"
  by (simp_all add: tallyOK_def resetOK_def countedSum_upTo sameTally_def countedUpTo_keys [of i j])

lemma sameTally_ids: "list_all2 sameTally xs ys \<Longrightarrow> map id_ID ys = map id_ID xs"
  by (induction rule: list_all2_induct) (auto simp: sameTally_def sameKeys_def)

lemma talliesKept_OK:
  assumes "talliesKept s s'" "talliesOK rc s" "resetsKnown rc s"
  shows "talliesOK rc s'"
proof -
  obtain old new where rows: "usage_identities s' = old @ new" "list_all2 sameTally (usage_identities s) old" "list_all freshTally new"
    and same: "usage_events s' = usage_events s" "next_event s' = next_event s"
    and d: "distinct (map id_ID (usage_identities s'))"
    using assms by (auto simp: talliesKept_def talliesOK_def identitiesOK_def)
  have ev: "\<forall>e \<in> set (usage_events s). 0 < ev_ID e \<and> ev_ID e < next_event s" "0 < next_event s"
    using assms(2) by (auto simp: talliesOK_def identitiesOK_def)
  have "tallyOK j (usage_events s) (next_event s) \<and> resetOK (rc (id_ID j)) (usage_events s) j" if "j \<in> set (usage_identities s')" for j
  proof (cases "j \<in> set old")
    case True
    from list_all2_forward [OF rows(2) this] obtain i where i: "i \<in> set (usage_identities s)" "sameTally i j" by blast
    then have "id_ID j = id_ID i" by (simp add: sameTally_def sameKeys_def)
    then show ?thesis using assms(2) i tally_cong [of i j] by (auto simp: talliesOK_def identitiesOK_def)
  next
    case False
    then have "freshTally j" "j \<in> set new" using that rows(1,3) by (auto simp: list_all_iff)
    moreover have "id_ID j \<notin> set (map id_ID (usage_identities s))"
      using d \<open>j \<in> set new\<close> sameTally_ids [OF rows(2)] by (auto simp: rows(1))
    then have "rc (id_ID j) = 0" using assms(3) by (auto simp: resetsKnown_def)
    ultimately show ?thesis using countedUpTo_zero ev by (simp add: tallyOK_def resetOK_def countedSum_upTo freshTally_def)
  qed
  then show ?thesis using d ev same by (simp add: talliesOK_def identitiesOK_def)
qed

lemma resetsKnown_kept:
  assumes "talliesKept s s'" "resetsKnown rc s"
  shows "resetsKnown rc s'"
proof -
  obtain old new where "usage_identities s' = old @ new" "list_all2 sameTally (usage_identities s) old"
    using assms(1) by (auto simp: talliesKept_def)
  then have "set (map id_ID (usage_identities s)) \<subseteq> set (map id_ID (usage_identities s'))"
    using sameTally_ids [of "usage_identities s" old] by (simp flip: set_map)
  then show ?thesis using assms(2) unfolding resetsKnown_def by blast
qed

lemma resetsKnown_cong: "map id_ID (usage_identities s') = map id_ID (usage_identities s) \<Longrightarrow> resetsKnown rc s' = resetsKnown rc s"
  unfolding resetsKnown_def by presburger

lemma scanned_tallies:
  assumes "scanned UNIV s s'" "identitiesOK s'" "talliesOK rc s"
  shows "talliesOK rc s'"
proof -
  have rel: "list_all2 (\<lambda>i j. sameKeys i j \<and> id_reset j = id_reset i \<and> id_LastAggregatedUsageEventID i \<le> id_LastAggregatedUsageEventID j)
      (usage_identities s) (usage_identities s')" and ev: "usage_events s' = usage_events s"
    using assms(1) by (auto simp: scanned_def elim: list_all2_mono)
  have "resetOK (rc (id_ID j)) (usage_events s) j" if "j \<in> set (usage_identities s')" for j
  proof -
    from list_all2_forward [OF rel that] obtain i where i: "i \<in> set (usage_identities s)" "sameKeys i j" "id_reset j = id_reset i"
      "id_LastAggregatedUsageEventID i \<le> id_LastAggregatedUsageEventID j" by blast
    then have "resetOK (rc (id_ID j)) (usage_events s) i" using assms(3) by (simp add: talliesOK_def sameKeys_def)
    then show ?thesis using i(3,4) countedUpTo_keys [OF i(2)] by (auto simp: resetOK_def)
  qed
  then show ?thesis using assms(2) ev by (simp add: talliesOK_def)
qed

text \<open>A reset either changes nothing or, when it reports success, one row that exists.\<close>

lemma reset_cases:
  assumes "ResetUsageIdentityStats n now s = (s', e)"
  obtains fs where "e = None" "s' = updateIdentity n (resetRow now) (s\<lparr>faults := fs\<rparr>)" "n \<in> set (map id_ID (usage_identities s))"
  | fs where "e \<noteq> None" "s' = s\<lparr>faults := fs\<rparr>"
proof (cases "now = zero_time")
  case True
  then show ?thesis using assms that(2) [of "faults s"] by (auto simp: ResetUsageIdentityStats_def)
next
  case False
  obtain s1 e1 where st: "stmt (updateIdentity n (resetRow now)) s = (s1, e1)" by fastforce
  have none: "updateIdentity n g t = t" if "n \<notin> id_ID ` set (usage_identities t)" for g t
    using that by (auto simp: updateIdentity_def intro!: store.equality map_idI)
  show ?thesis using assms False st that
    by (elim stmt_cases; auto simp: ResetUsageIdentityStats_def Let_def none split: if_splits)
qed

lemma statsCursor_row:
  assumes "distinct (map id_ID (usage_identities s))" "i \<in> set (usage_identities s)"
  shows "statsCursor (id_ID i) s = id_LastAggregatedUsageEventID i"
proof -
  obtain k where "find (\<lambda>j. id_ID j = id_ID i) (usage_identities s) = Some k"
    using assms(2) by (cases "find (\<lambda>j. id_ID j = id_ID i) (usage_identities s)") (auto simp: find_None_iff)
  moreover from this have "k \<in> set (usage_identities s)" "id_ID k = id_ID i" by (auto simp: find_Some_iff)
  ultimately show ?thesis using assms by (auto simp: statsCursor_def distinct_map dest: inj_onD)
qed

lemma resetRow_tally:
  assumes "tallyOK r evs m"
  shows "tallyOK (resetRow now r) evs m \<and> resetOK (id_LastAggregatedUsageEventID r) evs (resetRow now r)"
proof -
  have "sameKeys r (resetRow now r)" by (simp add: sameKeys_def resetRow_def)
  from countedUpTo_keys [OF this] show ?thesis using assms
    by (auto simp: tallyOK_def resetOK_def countedSum_upTo) (auto simp: resetRow_def)
qed

lemma reset_tallies:
  assumes "ResetUsageIdentityStats n now s = (s', e)" "talliesOK rc s"
  shows "talliesOK (if e = None then rc(n := statsCursor n s) else rc) s'"
  using assms(1)
proof (cases rule: reset_cases)
  case (1 fs)
  define g where "g r = (if id_ID r = n then resetRow now r else r)" for r
  have d: "distinct (map id_ID (usage_identities s))" and
    ok: "\<And>r. r \<in> set (usage_identities s) \<Longrightarrow> tallyOK r (usage_events s) (next_event s) \<and> resetOK (rc (id_ID r)) (usage_events s) r"
    using assms(2) by (auto simp: talliesOK_def identitiesOK_def)
  have id: "id_ID (g r) = id_ID r" for r by (simp add: g_def resetRow_def)
  have "tallyOK (g r) (usage_events s) (next_event s) \<and> (id_ID r = n \<longrightarrow> resetOK (statsCursor n s) (usage_events s) (g r)) \<and>
      (id_ID r \<noteq> n \<longrightarrow> resetOK (rc (id_ID r)) (usage_events s) (g r))" if "r \<in> set (usage_identities s)" for r
    using ok [OF that] resetRow_tally statsCursor_row [OF d that] by (auto simp: g_def)
  moreover have "usage_identities s' = map g (usage_identities s)" "usage_events s' = usage_events s" "next_event s' = next_event s"
    using 1(2) by (simp_all add: updateIdentity_def g_def)
  ultimately show ?thesis using 1(1) assms(2) by (simp add: talliesOK_def identitiesOK_def id comp_def)
next
  case (2 fs)
  then show ?thesis using assms(2) by (auto simp: talliesOK_def)
qed

lemma reset_tables:
  assumes "ResetUsageIdentityStats n now s = (s', e)"
  shows "usage_events s' = usage_events s \<and> next_event s' = next_event s \<and> inbox s' = inbox s \<and> next_inbox s' = next_inbox s \<and>
    map id_ID (usage_identities s') = map id_ID (usage_identities s)"
  using assms by (cases rule: reset_cases) (auto simp: updateIdentity_def resetRow_def)

lemma resetsKnown_reset:
  assumes "ResetUsageIdentityStats n now s = (s', e)" "resetsKnown rc s"
  shows "resetsKnown (if e = None then rc(n := statsCursor n s) else rc) s'"
  using assms(1)
  by (cases rule: reset_cases) (use assms(2) reset_tables [OF assms(1)] in \<open>auto simp: resetsKnown_def simp flip: set_map\<close>)

text \<open>The tables that a batch leaves alone, whatever fits into 64 bits.\<close>

lemma rows_tables:
  "aggregateUsageIdentityRows older now is n s = (s', r) \<Longrightarrow>
   usage_events s' = usage_events s \<and> next_event s' = next_event s \<and> inbox s' = inbox s \<and> next_inbox s' = next_inbox s \<and>
   map id_ID (usage_identities s') = map id_ID (usage_identities s)"
proof (induction "is" arbitrary: n s)
  case (Cons i "is")
  obtain s1 d where del: "aggregateUsageIdentityDelta older i s = (s1, d)" by fastforce
  then have s1: "\<exists>fs. s1 = s\<lparr>faults := fs\<rparr>"
    unfolding aggregateUsageIdentityDelta_def by (cases "query (\<lambda>t. deltaOf older (filter (\<lambda>e. usageIdentityEventsQuery i e \<and>
      id_LastAggregatedUsageEventID i < ev_ID e) (usage_events t))) s") (auto elim!: query_cases split: if_splits)
  show ?case
  proof (cases d)
    case (Inr delta)
    let ?up = "\<lambda>t. updateIdentity (id_ID i) (\<lambda>r. (identityUpdate now i delta r)\<lparr>id_UpdatedAt := gorm_now t\<rparr>) t"
    obtain s2 e where st: "stmt ?up s1 = (s2, e)" by fastforce
    then have "usage_events s2 = usage_events s1 \<and> next_event s2 = next_event s1 \<and> inbox s2 = inbox s1 \<and> next_inbox s2 = next_inbox s1 \<and>
        map id_ID (usage_identities s2) = map id_ID (usage_identities s1)"
      by (elim stmt_cases) (auto simp: updateIdentity_def identityUpdate_def)
    then show ?thesis using Cons.prems Cons.IH [of n s1] Cons.IH [of "Suc n" s2] del st Inr s1
      by (auto split: if_splits option.splits)
  qed (use Cons.prems del s1 in auto)
qed simp

lemma batch_tables:
  assumes "AggregateUsageIdentityStatsBatch older now a s = (s', r)"
  shows "usage_events s' = usage_events s \<and> next_event s' = next_event s \<and> inbox s' = inbox s \<and> next_inbox s' = next_inbox s \<and>
    map id_ID (usage_identities s') = map id_ID (usage_identities s)"
  using assms
proof (cases rule: batch_cases)
  case (committed s1 v fs)
  obtain s0 q where q: "query (\<lambda>t. identityPage a (usage_identities t)) s = (s0, q)" by fastforce
  then have "\<exists>fs. s0 = s\<lparr>faults := fs\<rparr>" by (elim query_cases) auto
  then show ?thesis using committed q rows_tables [where s = s0]
    by (auto simp: identityBatchBody_def split: if_splits prod.splits sum.splits)
qed simp

text \<open>The structure that does not depend on what fits into 64 bits, and the tallies when it does.\<close>

definition tallyState :: "(int \<Rightarrow> int) \<Rightarrow> db \<Rightarrow> bool" where
  "tallyState rc s \<longleftrightarrow> pipelineOK s \<and> numbered (usage_events s) (next_event s) \<and> positiveIds s \<and> resetsKnown rc s \<and>
     (countable_events eventCounts (usage_events s) \<longrightarrow> talliesOK rc s)"

lemma tallyState_kept:
  assumes "tallyState rc s" "talliesKept s s'"
  shows "tallyState rc s'"
proof -
  have "inbox s' = inbox s" "usage_events s' = usage_events s" "next_event s' = next_event s" "next_inbox s' = next_inbox s"
    using assms(2) by (simp_all add: talliesKept_def)
  moreover have "positiveIds s \<Longrightarrow> positiveIds s'" using assms(2) by (simp add: talliesKept_def)
  ultimately show ?thesis using assms(1) talliesKept_OK [OF assms(2)] resetsKnown_kept [OF assms(2)]
    by (auto simp: tallyState_def pipelineOK_def)
qed

lemma tallyState_work:
  assumes "tallyState rc s" "inbox_work s s'"
  shows "tallyState rc s'"
proof -
  have "pipelineOK s" "numbered (usage_events s) (next_event s)" using assms(1) by (simp_all add: tallyState_def)
  from inbox_work_grows [OF assms(2) this(1)] obtain new
    where g: "grows s new s'" "pipelineOK s'" "usage_identities s' = usage_identities s" .
  have num: "numberEvents (next_event s) new = new" and ev: "usage_events s' = usage_events s @ new"
    and n: "next_event s' = next_event s + int (length new)" using g(1) by (simp_all add: grows_def)
  have numb: "numbered (usage_events s') (next_event s')"
    unfolding ev n using \<open>numbered _ _\<close> num by (rule numbered_append)
  have "talliesOK rc s'" if "countable_events eventCounts (usage_events s')"
  proof -
    have ok: "talliesOK rc s" using assms(1) that countable_append(1) [of eventCounts "usage_events s" new] by (simp add: tallyState_def ev)
    have same: "countedUpTo i c (usage_events s') = countedUpTo i c (usage_events s)" if "c < next_event s" for i c
      unfolding ev by (rule countedUpTo_grows [OF num that])
    have "tallyOK i (usage_events s') (next_event s') \<and> resetOK (rc (id_ID i)) (usage_events s') i" if "i \<in> set (usage_identities s)" for i
    proof -
      have "tallyOK i (usage_events s) (next_event s)" "resetOK (rc (id_ID i)) (usage_events s) i"
        using ok that by (auto simp: talliesOK_def identitiesOK_def)
      then show ?thesis using same by (auto simp: tallyOK_def resetOK_def countedSum_upTo n)
    qed
    then show ?thesis using ok numb g(3) by (auto simp: talliesOK_def identitiesOK_def numbered_def)
  qed
  moreover have "positiveIds s'" "resetsKnown rc s'" using assms(1) g(3) by (simp_all add: tallyState_def positiveIds_def resetsKnown_def)
  ultimately show ?thesis using g(2) numb by (simp add: tallyState_def)
qed

lemma tallied_state: "tallied rc s \<Longrightarrow> tallyState rc s"
proof (induction rule: tallied.induct)
  case (start s)
  then show ?case
    by (simp add: tallyState_def pipelineOK_def bookedKeys_def numbered_def talliesOK_def identitiesOK_def positiveIds_def resetsKnown_def)
next
  case (work rc s s')
  then show ?case using tallyState_work by blast
next
  case (environment rc s at fs)
  have "talliesKept s (s\<lparr>faults := fs, gorm_now := at\<rparr>)"
    by (rule talliesKeptI [of _ "usage_identities s" "[]"]) (simp_all add: list_all2_same positiveIds_def)
  then show ?case using environment.IH tallyState_kept by blast
next
  case (sync rc s ch julianday columns now c s' e)
  then show ?case using tallyState_kept applySync_tally by blast
next
  case (renamed rc s n name s' e)
  then have "talliesKept s s'" unfolding UpdateUsageIdentityAlias_def Let_def
    by (elim edit_tally) (simp add: sameTally_def sameKeys_def)
  then show ?case using renamed.IH tallyState_kept by blast
next
  case (disabled rc s authType identity flag s' e)
  then have "talliesKept s s'" unfolding UpdateUsageIdentityDisabled_def Let_def
    by (auto split: if_splits elim!: edit_tally simp: sameTally_def sameKeys_def)
  then show ?case using disabled.IH tallyState_kept by blast
next
  case (priority rc s authType identity p s' e)
  then have "talliesKept s s'" unfolding UpdateUsageIdentityPriority_def
    by (elim edit_tally) (simp add: sameTally_def sameKeys_def)
  then show ?case using priority.IH tallyState_kept by blast
next
  case (subscription rc s i until s' e)
  then have "talliesKept s s'" unfolding UpdateCodexUsageIdentityActiveUntil_def
    by (auto split: option.splits if_splits elim!: talliesKept_stmt intro!: talliesKept_map simp: sameTally_def sameKeys_def)
  then show ?case using subscription.IH tallyState_kept by blast
next
  case (batch rc s older now after s' r)
  have tables: "usage_events s' = usage_events s \<and> next_event s' = next_event s \<and> inbox s' = inbox s \<and> next_inbox s' = next_inbox s \<and>
      map id_ID (usage_identities s') = map id_ID (usage_identities s)"
    using batch_tables [OF batch.hyps(2)] .
  have "talliesOK rc s'" if "countable_events eventCounts (usage_events s')"
  proof -
    have "countable_events eventCounts (usage_events s)" using that tables by simp
    then have ok: "talliesOK rc s" "identitiesOK s" using batch.IH by (simp_all add: tallyState_def talliesOK_def)
    show ?thesis
      by (rule scanned_tallies [OF batch_scanned(2,1) ok(1)]) (rule batch.hyps(2) ok(2) \<open>countable_events eventCounts (usage_events s)\<close>)+
  qed
  moreover have "positiveIds s'" "resetsKnown rc s'"
    using batch.IH tables positiveIds_cong [of s' s] resetsKnown_cong [of s' s] by (simp_all add: tallyState_def)
  ultimately show ?case using batch.IH tables by (simp add: tallyState_def pipelineOK_def)
next
  case (reset rc s n now s' e)
  note T = reset_tables [OF reset.hyps(2)] and R = resetsKnown_reset [OF reset.hyps(2)] reset_tallies [OF reset.hyps(2)]
  have "positiveIds s'" using reset.IH T positiveIds_cong [of s' s] by (simp add: tallyState_def)
  then show ?case using reset.IH T R [of rc] unfolding tallyState_def pipelineOK_def by simp
qed

section \<open>What the statistics promise\<close>

lemma countedUpTo_split:
  assumes "c \<le> d"
  shows "countedUpTo i d evs = countedUpTo i c evs +
    sum_list (map identityCounts (filter (\<lambda>e. usageIdentityEventsQuery i e \<and> c < ev_ID e \<and> ev_ID e \<le> d) evs))"
  unfolding countedUpTo_def matched_def using assms
  by (induction evs) (auto simp: algebra_simps)

text \<open>
  C6. Whatever happened to the database, in whatever order and with whichever failures, the lifetime
  counters of every credential are the sums over exactly its events up to its cursor, none twice and
  none left out. With \<open>rc\<close> the cursor that each credential had at its last successful reset (0 when
  it was never reset), the displayed differences, lifetime counter minus the value stored by the reset,
  are the sums over exactly its events after that cursor up to the cursor now. (The events of the table
  have non-negative counts whose sums fit into 64 bits.)
\<close>

theorem identity_statistics_exact:
  assumes "tallied rc s" "countable_events eventCounts (usage_events s)" "i \<in> set (usage_identities s)"
  shows "id_totals i = sum_list (map identityCounts (filter (\<lambda>e. usageIdentityEventsQuery i e \<and>
      ev_ID e \<le> id_LastAggregatedUsageEventID i) (usage_events s))) \<and>
    0 \<le> rc (id_ID i) \<and> rc (id_ID i) \<le> id_LastAggregatedUsageEventID i \<and>
    resetBaseline (id_totals i) = id_reset i + resetBaseline (sum_list (map identityCounts (filter (\<lambda>e. usageIdentityEventsQuery i e \<and>
      rc (id_ID i) < ev_ID e \<and> ev_ID e \<le> id_LastAggregatedUsageEventID i) (usage_events s))))"
proof -
  let ?d = "id_LastAggregatedUsageEventID i" and ?c = "rc (id_ID i)"
  have "talliesOK rc s" using tallied_state [OF assms(1)] assms(2) by (simp add: tallyState_def)
  then have tot: "id_totals i = countedUpTo i ?d (usage_events s)" and "resetOK ?c (usage_events s) i"
    using assms(3) by (auto simp: talliesOK_def identitiesOK_def tallyOK_def countedSum_upTo)
  then have c: "0 \<le> ?c" "?c \<le> ?d" "id_reset i = resetBaseline (countedUpTo i ?c (usage_events s))" by (auto simp: resetOK_def)
  moreover have "resetBaseline (a + b) = resetBaseline a + resetBaseline b" for a b by (simp add: resetBaseline_def plus_Counts_def)
  ultimately have "resetBaseline (id_totals i) = id_reset i + resetBaseline (sum_list (map identityCounts (filter (\<lambda>e.
      usageIdentityEventsQuery i e \<and> ?c < ev_ID e \<and> ev_ID e \<le> ?d) (usage_events s))))"
    by (simp add: tot countedUpTo_split)
  then show ?thesis using c(1,2) tot by (auto simp: countedUpTo_def matched_def conj_commute)
qed

text \<open>
  C30. Whichever statements fail, the complete scan returns, with the events untouched. When it returns
  without an error every credential is counted up to date and nothing is pending, and while no statement
  fails it does return without an error. (The events of the table have non-negative counts whose sums fit
  into 64 bits.)
\<close>

theorem identity_scan_catches_up:
  assumes "tallied rc s" "countable_events eventCounts (usage_events s)"
  shows "\<exists>s' e. AggregateUsageIdentityStats older now s = Some (s', e) \<and> usage_events s' = usage_events s \<and>
    (e = None \<longrightarrow> \<not> hasPendingUsageIdentityAggregation s') \<and>
    (faults s = [] \<longrightarrow> e = None \<and> snd (HasPendingUsageIdentityAggregation s') = Inr False)"
proof -
  have "identitiesOK s" using tallied_state [OF assms(1)] assms(2) by (simp add: tallyState_def talliesOK_def)
  moreover have "caughtUpIds {i. i \<le> 0} s" using tallied_state [OF assms(1)] by (auto simp: tallyState_def positiveIds_def caughtUpIds_def)
  ultimately obtain s' e where s': "identityScan older now 0 s = Some (s', e)" "scanned UNIV s s'" "e = None \<longrightarrow> caughtUpIds UNIV s'"
      "faults s = [] \<longrightarrow> e = None \<and> faults s' = []"
    using scan_returns [OF _ assms(2), of 0] by blast
  have "e = None \<longrightarrow> \<not> hasPendingUsageIdentityAggregation s'"
    using s'(3) by (fastforce simp: hasPendingUsageIdentityAggregation_def list_ex_iff caughtUpIds_def caughtUp_def matched_def)
  then show ?thesis using s' by (auto simp: AggregateUsageIdentityStats_def scanned_def HasPendingUsageIdentityAggregation_def)
qed

section \<open>A concrete history\<close>

text \<open>
  One event of the API key \<open>k\<close> is stored, then a synchronisation creates the credential, then a
  batch counts the event.
\<close>

definition sampleKey :: UsageIdentity where
  "sampleKey = sampleIdentity 0 UsageIdentityAuthTypeAIProvider [] ''key''"

definition samplePlan :: usageIdentityChanges where
  "samplePlan = \<lparr>ch_create = [sampleKey], ch_update = [], ch_staleIDs = []\<rparr>"

definition knownStore :: db where
  "knownStore = fst (applyUsageIdentitySync (\<lambda>t. t) 30 samplePlan 7 [] (fst (sampleRound [])))"

lemma knownStore_rows: "knownStore = (fst (sampleRound []))\<lparr>usage_identities := [sampleKey\<lparr>id_ID := 1\<rparr>]\<rparr>"
proof -
  have "nat (insertBatchSize 30) = 33" by code_simp
  then show ?thesis
    by (simp add: knownStore_def applyUsageIdentitySync_def samplePlan_def transaction_def writeIdentityChanges_def stored_sync
        createIdentities.simps insertIdentities_def identitiesClash_def appendIdentities_def nextIdentityID_def
        markStaleUsageIdentityRowsDeleted.simps)
qed

lemma knownStore_tallied: "tallied (\<lambda>_. 0) knownStore"
proof -
  have "tallied (\<lambda>_. 0) (emptyStore [])" by (rule start) (simp_all add: emptyStore_def)
  from work [OF work [OF this sample_work(1)] sample_work(2)] have "tallied (\<lambda>_. 0) (fst (sampleRound []))" .
  moreover have "\<forall>r \<in> set (ch_create samplePlan). freshTally r"
    by (simp add: samplePlan_def sampleKey_def sampleIdentity_def freshTally_def)
  ultimately show ?thesis unfolding knownStore_def by (rule sync) (rule prod.collapse [symmetric])
qed

lemma knownStore_events: "faults knownStore = []" "usage_events knownStore = [sampleEvent]"
  "usage_identities knownStore = [sampleKey\<lparr>id_ID := 1\<rparr>]"
  by (simp_all add: knownStore_rows stored_sync)

lemma sampleEvent_counts: "identityCounts sampleEvent = Counts 1 1 0 10 4 0 0 0 0 14" "eventCounts sampleEvent = Counts 1 1 0 10 4 0 0 0 0 14"
  by (simp_all add: sampleEvent_def identityCounts_def eventCounts_def)

lemma knownStore_countable: "countable_events eventCounts (usage_events knownStore)"
  by (simp add: knownStore_events countable_events_def sampleEvent_counts nonneg_def fits_def plus_Counts_def zero_Counts_def MaxInt64_def)

lemma sampleKey_matches: "usageIdentityEventsQuery (sampleKey\<lparr>id_ID := n\<rparr>) sampleEvent" "ev_ID sampleEvent = 1"
  by (simp_all add: usageIdentityEventsQuery_def sampleKey_def sampleIdentity_def sampleEvent_def)

theorem identity_scan_catches_up_witness:
  "\<exists>s'. AggregateUsageIdentityStats (<) 9 knownStore = Some (s', None) \<and> hasPendingUsageIdentityAggregation knownStore \<and>
     snd (HasPendingUsageIdentityAggregation s') = Inr False"
proof -
  have "hasPendingUsageIdentityAggregation knownStore"
    by (simp add: hasPendingUsageIdentityAggregation_def knownStore_events sampleKey_matches) (simp add: sampleKey_def sampleIdentity_def)
  then show ?thesis using identity_scan_catches_up [OF knownStore_tallied knownStore_countable, of "(<)" 9] knownStore_events(1) by blast
qed

text \<open>Then the batch counts the event and the credential is reset, at the cursor 1.\<close>

definition countedStore :: db where
  "countedStore = fst (AggregateUsageIdentityStatsBatch (<) 9 0 knownStore)"

definition resetStore :: db where
  "resetStore = fst (ResetUsageIdentityStats 1 20 countedStore)"

lemma countedStore_rows:
  "\<exists>i. usage_identities countedStore = [i] \<and> id_ID i = 1 \<and> id_LastAggregatedUsageEventID i = 1 \<and> id_totals i = Counts 1 1 0 10 4 0 0 0 0 14"
  "usage_events countedStore = [sampleEvent]" "faults countedStore = []"
proof -
  let ?k = "sampleKey\<lparr>id_ID := 1\<rparr>"
  have k: "id_ID ?k = 1" "id_LastAggregatedUsageEventID ?k = 0" "id_totals ?k = 0" by (simp_all add: sampleKey_def sampleIdentity_def)
  have page: "identityPage 0 [?k] = [?k]" by (simp add: identityPage_def UsageIdentityAggregationBatchSize_def)
  have delta: "aggregateUsageIdentityDelta (<) ?k knownStore = (knownStore, Inr (deltaOf (<) [sampleEvent]))"
    using delta_clean [OF knownStore_events(1) knownStore_countable, of "(<)" ?k] by (simp add: knownStore_events sampleKey_matches k)
  have "d_counts (deltaOf (<) [sampleEvent]) = Counts 1 1 0 10 4 0 0 0 0 14"
    by (simp add: deltaOf_def sampleEvent_counts plus_Counts_def zero_Counts_def)
  moreover have "d_MaxUsageEventID (deltaOf (<) [sampleEvent]) = 1" by (simp add: deltaOf_def sampleKey_matches)
  ultimately show "\<exists>i. usage_identities countedStore = [i] \<and> id_ID i = 1 \<and> id_LastAggregatedUsageEventID i = 1 \<and>
      id_totals i = Counts 1 1 0 10 4 0 0 0 0 14" "faults countedStore = []"
    by (simp_all add: countedStore_def AggregateUsageIdentityStatsBatch_def transaction_def identityBatchBody_def knownStore_events page delta
        updateIdentity_def identityUpdate_def k addTotals_def zero_Counts_def i64_def)
  show "usage_events countedStore = [sampleEvent]"
    using batch_tables [OF prod.collapse [symmetric], of "(<)" 9 0 knownStore] by (simp add: countedStore_def knownStore_events)
qed

lemma resetStore_rows:
  "\<exists>i. usage_identities resetStore = [i] \<and> id_ID i = 1 \<and> id_LastAggregatedUsageEventID i = 1 \<and> id_totals i = Counts 1 1 0 10 4 0 0 0 0 14"
  "usage_events resetStore = [sampleEvent]"
proof -
  obtain i where i: "usage_identities countedStore = [i]" "id_ID i = 1" "id_LastAggregatedUsageEventID i = 1"
    "id_totals i = Counts 1 1 0 10 4 0 0 0 0 14" using countedStore_rows(1) by blast
  then show "\<exists>i. usage_identities resetStore = [i] \<and> id_ID i = 1 \<and> id_LastAggregatedUsageEventID i = 1 \<and>
      id_totals i = Counts 1 1 0 10 4 0 0 0 0 14" "usage_events resetStore = [sampleEvent]"
    by (simp_all add: resetStore_def ResetUsageIdentityStats_def zero_time_def countedStore_rows(2,3) updateIdentity_def resetRow_def)
qed

lemma resetStore_tallied: "tallied ((\<lambda>_. 0)(1 := 1)) resetStore"
proof -
  have t: "tallied (\<lambda>_. 0) countedStore" unfolding countedStore_def by (rule batch [OF knownStore_tallied]) (rule prod.collapse [symmetric])
  obtain i where i: "usage_identities countedStore = [i]" "id_ID i = 1" "id_LastAggregatedUsageEventID i = 1"
    using countedStore_rows(1) by blast
  then have "ResetUsageIdentityStats 1 20 countedStore = (resetStore, None)"
    by (simp add: resetStore_def ResetUsageIdentityStats_def zero_time_def countedStore_rows(3))
  from reset [OF t this] show ?thesis by (simp add: statsCursor_def i)
qed

theorem identity_statistics_exact_witness:
  "\<exists>i \<in> set (usage_identities resetStore). id_totals i = Counts 1 1 0 10 4 0 0 0 0 14 \<and> id_reset i = Counts 1 1 0 10 0 0 0 0 0 14 \<and>
     id_totals i = sum_list (map identityCounts (filter (\<lambda>e. usageIdentityEventsQuery i e \<and>
       ev_ID e \<le> id_LastAggregatedUsageEventID i) (usage_events resetStore)))"
proof -
  obtain i where i: "usage_identities resetStore = [i]" "id_ID i = 1" "id_totals i = Counts 1 1 0 10 4 0 0 0 0 14"
    using resetStore_rows(1) by blast
  have "countable_events eventCounts (usage_events resetStore)"
    using knownStore_countable by (simp add: resetStore_rows knownStore_events)
  note X = identity_statistics_exact [OF resetStore_tallied this, of i, unfolded i(1,2) fun_upd_same]
  have "filter (\<lambda>e. usageIdentityEventsQuery i e \<and> 1 < ev_ID e \<and> ev_ID e \<le> id_LastAggregatedUsageEventID i) (usage_events resetStore) = []"
    by (simp add: resetStore_rows(2) sampleKey_matches)
  with X have "resetBaseline (id_totals i) = id_reset i" by (metis add.right_neutral list.set_intros(1) list.simps(8) resetBaseline_zero sum_list.Nil)
  then have "id_reset i = Counts 1 1 0 10 0 0 0 0 0 14" by (simp add: i(3) resetBaseline_def)
  then show ?thesis using X i by simp
qed

end
