(* ===== verification/Rollup_Runner.thy ===== *)
theory Rollup_Runner
  imports Rollup_Once Identity_Stats
begin

text \<open>
  The aggregation runner (\<^verbatim>\<open>internal/poller/usage_aggregation_runner.go\<close>): one goroutine that
  alternates between the rollups and the credential statistics, catches up with a frozen target event
  and gives way to the inbox. Other goroutines notify it and write to the database at any time: a
  \<open>world\<close> is the database with what others do to it before each of the runner's next accesses, and
  notifications reach the runner between its critical sections. The transaction deadline is one of
  the reasons for a statement to fail.
\<close>

section \<open>State\<close>

datatype UsageAggregationKind = UsageAggregationKindRollups | UsageAggregationKindIdentity

record UsageAggregationRunResult =
  Kind :: UsageAggregationKind
  Processed :: bool
  DeferredForInbox :: bool

record UsageAggregationRunner =
  nextKind :: UsageAggregationKind
  startupTargetLoaded :: bool
  activeRound :: bool
  activeTargetEventID :: int
  rollupsReachedTarget :: bool
  pendingTargetEventID :: int
  identityAfterID :: int
  identityTargetGeneration :: "64 word"
  identityScanGeneration :: "64 word"
  wake :: bool

definition usageAggregationEventPageSize :: int where
  "usageAggregationEventPageSize = 1000"

definition usageAggregationErrorBackoffInitial :: int where
  "usageAggregationErrorBackoffInitial = 100000000"

definition usageAggregationErrorBackoffMax :: int where
  "usageAggregationErrorBackoffMax = 2000000000"

definition NewUsageAggregationRunner :: UsageAggregationRunner where
  "NewUsageAggregationRunner =
     \<lparr>nextKind = UsageAggregationKindRollups, startupTargetLoaded = False, activeRound = False, activeTargetEventID = 0,
      rollupsReachedTarget = False, pendingTargetEventID = 0, identityAfterID = 0, identityTargetGeneration = 1,
      identityScanGeneration = 0, wake = False\<rparr>"

section \<open>Notifications\<close>

text \<open>A send to the wake channel of capacity one that does not block.\<close>

definition signalWake :: "UsageAggregationRunner \<Rightarrow> UsageAggregationRunner" where
  "signalWake r = r\<lparr>wake := True\<rparr>"

definition maxEventID :: "UsageEvent list \<Rightarrow> int" where
  "maxEventID evs = foldl (\<lambda>m event. if ev_ID event > m then ev_ID event else m) 0 evs"

definition NotifyUsageEventsCommitted :: "UsageEvent list \<Rightarrow> UsageAggregationRunner \<Rightarrow> UsageAggregationRunner" where
  "NotifyUsageEventsCommitted evs r =
     (let m = maxEventID evs in
      if m \<le> 0 then r
      else signalWake (r\<lparr>pendingTargetEventID := (if m > pendingTargetEventID r then m else pendingTargetEventID r),
                         identityTargetGeneration := identityTargetGeneration r + 1\<rparr>))"

definition NotifyUsageIdentitiesChanged :: "UsageAggregationRunner \<Rightarrow> UsageAggregationRunner" where
  "NotifyUsageIdentitiesChanged r = signalWake (r\<lparr>identityTargetGeneration := identityTargetGeneration r + 1\<rparr>)"

datatype signal = EventsCommitted "UsageEvent list" | IdentitiesChanged

fun notify :: "UsageAggregationRunner \<Rightarrow> signal \<Rightarrow> UsageAggregationRunner" where
  "notify r (EventsCommitted evs) = NotifyUsageEventsCommitted evs r"
| "notify r IdentitiesChanged = NotifyUsageIdentitiesChanged r"

section \<open>The critical sections\<close>

definition freezePendingTarget :: "UsageAggregationRunner \<Rightarrow> UsageAggregationRunner" where
  "freezePendingTarget r =
     (if pendingTargetEventID r \<le> 0 then r
      else if activeRound r \<and> pendingTargetEventID r \<le> activeTargetEventID r then r\<lparr>pendingTargetEventID := 0\<rparr>
      else r\<lparr>activeRound := True, activeTargetEventID := pendingTargetEventID r, pendingTargetEventID := 0,
             rollupsReachedTarget := False\<rparr>)"

definition identityWorkPendingLocked :: "UsageAggregationRunner \<Rightarrow> bool" where
  "identityWorkPendingLocked r \<longleftrightarrow> identityAfterID r \<noteq> 0 \<or> identityScanGeneration r < identityTargetGeneration r"

definition hasRunnableWorkLocked :: "UsageAggregationRunner \<Rightarrow> bool" where
  "hasRunnableWorkLocked r \<longleftrightarrow> activeRound r \<or> identityWorkPendingLocked r"

definition nextRunnableKindLocked :: "UsageAggregationRunner \<Rightarrow> UsageAggregationKind \<times> bool" where
  "nextRunnableKindLocked r =
     (if activeRound r \<and> identityWorkPendingLocked r then (nextKind r, True)
      else if activeRound r then (UsageAggregationKindRollups, True)
      else if identityWorkPendingLocked r then (UsageAggregationKindIdentity, True)
      else (nextKind r, False))"

definition completeRollupRoundIfReadyLocked :: "UsageAggregationRunner \<Rightarrow> UsageAggregationRunner" where
  "completeRollupRoundIfReadyLocked r =
     (if \<not> activeRound r \<or> \<not> rollupsReachedTarget r then r
      else r\<lparr>activeRound := False, activeTargetEventID := 0, rollupsReachedTarget := False,
             pendingTargetEventID := (if pendingTargetEventID r \<le> activeTargetEventID r then 0 else pendingTargetEventID r)\<rparr>)"

fun advanceAfterFailure :: "UsageAggregationKind \<Rightarrow> UsageAggregationRunner \<Rightarrow> UsageAggregationRunner" where
  "advanceAfterFailure UsageAggregationKindRollups r = r\<lparr>nextKind := UsageAggregationKindIdentity\<rparr>"
| "advanceAfterFailure UsageAggregationKindIdentity r = r\<lparr>nextKind := UsageAggregationKindRollups\<rparr>"

section \<open>Database access\<close>

type_synonym world = "(rollup_db \<Rightarrow> rollup_db) list \<times> rollup_db"

fun access :: "(rollup_db \<Rightarrow> rollup_db \<times> 'r) \<Rightarrow> world \<Rightarrow> world \<times> 'r" where
  "access f ([], s) = (case f s of (s', r) \<Rightarrow> (([], s'), r))"
| "access f (other # others, s) = (case f (other s) of (s', r) \<Rightarrow> ((others, s'), r))"

definition inboxWaiting :: "rollup_db \<Rightarrow> rollup_db \<times> (rollupError + bool)" where
  "inboxWaiting s =
     (case HasProcessableRedisUsageInbox (sync_db s) of
        (t, Inl e) \<Rightarrow> (s\<lparr>sync_db := t\<rparr>, Inl (DbFailed ''check inbox'' e))
      | (t, Inr found) \<Rightarrow> (s\<lparr>sync_db := t\<rparr>, Inr found))"

definition deferForInbox :: "world \<Rightarrow> world \<times> (rollupError + bool)" where
  "deferForInbox w = access inboxWaiting w"

definition ensureStartupTarget ::
  "signal list \<Rightarrow> UsageAggregationRunner \<Rightarrow> world \<Rightarrow> world \<times> UsageAggregationRunner \<times> rollupError option" where
  "ensureStartupTarget signals r w =
     (if startupTargetLoaded r then (w, foldl notify r signals, None)
      else
        (case access LoadUsageAggregationTargetEventID w of
           (w', Inl e) \<Rightarrow> (w', foldl notify r signals, Some e)
         | (w', Inr target) \<Rightarrow>
             (let r1 = foldl notify r signals in
              (w', r1\<lparr>startupTargetLoaded := True, activeRound := True, activeTargetEventID := target,
                      rollupsReachedTarget := (target = 0),
                      pendingTargetEventID := (if pendingTargetEventID r1 \<le> target then 0 else pendingTargetEventID r1)\<rparr>, None))))"

section \<open>A turn of the rollups\<close>

text \<open>What a turn reports: processed, deferred, reached its target, error.\<close>

type_synonym turnReport = "bool \<times> bool \<times> bool \<times> rollupError option"

definition joinPageErrors :: "rollupError list \<Rightarrow> rollupError option" where
  "joinPageErrors es = (if es = [] then None else Some (Joined es))"

text \<open>
  One page: give way to the inbox, or apply. \<open>Inl\<close> is an early return of the turn, \<open>Inr\<close> the new
  values of \<open>processed\<close> and \<open>pageErrors\<close> and whether the page was applied.
\<close>

definition applyUnlessInbox ::
  "bool \<Rightarrow> rollupError list \<Rightarrow> rollupError + (rollup_db \<Rightarrow> rollup_db \<times> rollupError option) \<Rightarrow> world
   \<Rightarrow> world \<times> (turnReport + bool \<times> rollupError list \<times> bool)" where
  "applyUnlessInbox processed pageErrors page w =
     (case deferForInbox w of
        (w1, Inl e) \<Rightarrow> (w1, Inl (processed, False, False, joinPageErrors (pageErrors @ [e])))
      | (w1, Inr True) \<Rightarrow> (w1, Inl (processed, True, False, joinPageErrors pageErrors))
      | (w1, Inr False) \<Rightarrow>
          (case page of
             Inl buildErr \<Rightarrow> (w1, Inr (processed, pageErrors @ [buildErr], False))
           | Inr apply \<Rightarrow>
               (case access apply w1 of
                  (w2, Some e) \<Rightarrow> (w2, Inr (processed, pageErrors @ [e], False))
                | (w2, None) \<Rightarrow> (w2, Inr (True, pageErrors, True)))))"

definition activityPage ::
  "Location \<Rightarrow> int \<Rightarrow> int \<Rightarrow> UsageEvent list \<Rightarrow> gotime \<Rightarrow> (rollupError + (rollup_db \<Rightarrow> rollup_db \<times> rollupError option)) option" where
  "activityPage loc after next evs now =
     (case activity_BuildRows loc evs now of
        None \<Rightarrow> None
      | Some (Inl e) \<Rightarrow> Some (Inl (ActivityBuild e))
      | Some (Inr rows) \<Rightarrow> Some (Inr (ApplyUsageActivityAggregationPage after next rows now)))"

definition latencyPage ::
  "Location \<Rightarrow> (int \<Rightarrow> int) \<Rightarrow> int \<Rightarrow> int \<Rightarrow> UsageEvent list \<Rightarrow> gotime \<Rightarrow> rollupError + (rollup_db \<Rightarrow> rollup_db \<times> rollupError option)" where
  "latencyPage loc bucket after next evs now =
     (case latency_BuildRows loc bucket evs now of
        Inl e \<Rightarrow> Inl (LatencyRow e)
      | Inr rows \<Rightarrow> Inr (ApplyUsageLatencyAggregationPage after next rows now))"

definition overviewPage ::
  "Location \<Rightarrow> int \<Rightarrow> UsageEvent list \<Rightarrow> gotime \<Rightarrow> int \<times> (rollup_db \<Rightarrow> rollup_db \<times> rollupError option)" where
  "overviewPage loc after evs now =
     (case overview_BuildRows loc evs of
        (hourly, daily, next) \<Rightarrow> (next, ApplyUsageOverviewAggregationPage after next hourly daily now))"

definition runSharedRollupsPage ::
  "Location \<Rightarrow> (int \<Rightarrow> int) \<Rightarrow> int \<Rightarrow> int \<Rightarrow> gotime \<Rightarrow> world \<Rightarrow> (world \<times> turnReport) option" where
  "runSharedRollupsPage loc bucket after target now w =
     (case access (LoadUsageAggregationEventPage after target usageAggregationEventPageSize) w of
        (w0, Inl e) \<Rightarrow> Some (w0, False, False, False, Some e)
      | (w0, Inr evs) \<Rightarrow>
          if evs = [] then Some (w0, False, False, False, Some (EmptyPage ''shared'' target after))
          else
            (case overviewPage loc after evs now of
               (next, overview) \<Rightarrow>
                 (case activityPage loc after next evs now of
                    None \<Rightarrow> None
                  | Some activity \<Rightarrow> Some
                      (case applyUnlessInbox False [] (Inr overview) w0 of
                         (w1, Inl report) \<Rightarrow> (w1, report)
                       | (w1, Inr (processed1, errors1, _)) \<Rightarrow>
                           (case applyUnlessInbox processed1 errors1 activity w1 of
                              (w2, Inl report) \<Rightarrow> (w2, report)
                            | (w2, Inr (processed2, errors2, _)) \<Rightarrow>
                                (case applyUnlessInbox processed2 errors2 (latencyPage loc bucket after next evs now) w2 of
                                   (w3, Inl report) \<Rightarrow> (w3, report)
                                 | (w3, Inr (processed3, errors3, _)) \<Rightarrow>
                                     if errors3 \<noteq> [] then (w3, processed3, False, False, joinPageErrors errors3)
                                     else (w3, processed3, False, next \<ge> target, None)))))))"

text \<open>
  One kind of the fallback: its own page from its own cursor. A build error is recorded before the
  inbox is checked. \<open>Inr\<close> also has the new cursor.
\<close>

definition fallbackKind ::
  "string \<Rightarrow> (UsageEvent list \<Rightarrow> (int \<times> (rollupError + (rollup_db \<Rightarrow> rollup_db \<times> rollupError option))) option) \<Rightarrow> int \<Rightarrow> int
   \<Rightarrow> bool \<Rightarrow> rollupError list \<Rightarrow> world \<Rightarrow> (world \<times> (turnReport + int \<times> bool \<times> rollupError list)) option" where
  "fallbackKind name build after target processed pageErrors w =
     (if \<not> after < target then Some (w, Inr (after, processed, pageErrors))
      else
        (case access (LoadUsageAggregationEventPage after target usageAggregationEventPageSize) w of
           (w1, Inl e) \<Rightarrow> Some (w1, Inr (after, processed, pageErrors @ [e]))
         | (w1, Inr evs) \<Rightarrow>
             if evs = [] then Some (w1, Inr (after, processed, pageErrors @ [EmptyPage name target after]))
             else
               (case build evs of
                  None \<Rightarrow> None
                | Some (_, Inl e) \<Rightarrow> Some (w1, Inr (after, processed, pageErrors @ [e]))
                | Some (next, Inr apply) \<Rightarrow> Some
                    (case applyUnlessInbox processed pageErrors (Inr apply) w1 of
                       (w2, Inl report) \<Rightarrow> (w2, Inl report)
                     | (w2, Inr (processed', errors', applied)) \<Rightarrow>
                         (w2, Inr (if applied then next else after, processed', errors'))))))"

definition runFallbackRollupsPages ::
  "Location \<Rightarrow> (int \<Rightarrow> int) \<Rightarrow> UsageAggregationCheckpointSnapshot \<Rightarrow> int \<Rightarrow> gotime \<Rightarrow> world \<Rightarrow> (world \<times> turnReport) option" where
  "runFallbackRollupsPages loc bucket snapshot target now w =
     (case fallbackKind ''overview'' (\<lambda>evs. case overviewPage loc (OverviewCursor snapshot) evs now of (next, f) \<Rightarrow> Some (next, Inr f))
             (OverviewCursor snapshot) target False [] w of
        None \<Rightarrow> None
      | Some (w1, Inl report) \<Rightarrow> Some (w1, report)
      | Some (w1, Inr (overview, processed1, errors1)) \<Rightarrow>
     (case fallbackKind ''activity'' (\<lambda>evs. let next = ev_ID (last evs) in
               map_option (Pair next) (activityPage loc (ActivityCursor snapshot) next evs now))
             (ActivityCursor snapshot) target processed1 errors1 w1 of
        None \<Rightarrow> None
      | Some (w2, Inl report) \<Rightarrow> Some (w2, report)
      | Some (w2, Inr (activity, processed2, errors2)) \<Rightarrow>
     (case fallbackKind ''latency'' (\<lambda>evs. let next = ev_ID (last evs) in
               Some (next, latencyPage loc bucket (LatencyCursor snapshot) next evs now))
             (LatencyCursor snapshot) target processed2 errors2 w2 of
        None \<Rightarrow> None
      | Some (w3, Inl report) \<Rightarrow> Some (w3, report)
      | Some (w3, Inr (latency, processed3, errors3)) \<Rightarrow>
          Some (w3, processed3, False, overview \<ge> target \<and> activity \<ge> target \<and> latency \<ge> target, joinPageErrors errors3))))"

definition runRollupsTurn ::
  "Location \<Rightarrow> (int \<Rightarrow> int) \<Rightarrow> bool \<Rightarrow> int \<Rightarrow> gotime \<Rightarrow> world \<Rightarrow> (world \<times> turnReport) option" where
  "runRollupsTurn loc bucket active target now w =
     (if \<not> active then Some (w, False, False, True, None)
      else
        (case access LoadUsageAggregationCheckpointSnapshot w of
           (w1, Inl e) \<Rightarrow> Some (w1, False, False, False, Some e)
         | (w1, Inr snapshot) \<Rightarrow>
             if OverviewCursor snapshot \<ge> target \<and> ActivityCursor snapshot \<ge> target \<and> LatencyCursor snapshot \<ge> target
             then Some (w1, False, False, True, None)
             else if snapshot_Equal snapshot then runSharedRollupsPage loc bucket (OverviewCursor snapshot) target now w1
             else runFallbackRollupsPages loc bucket snapshot target now w1))"

section \<open>A turn\<close>

text \<open>The page of credentials, on the part of the database that holds them.\<close>

definition identityBatch ::
  "(gotime \<Rightarrow> gotime \<Rightarrow> bool) \<Rightarrow> gotime \<Rightarrow> int \<Rightarrow> rollup_db \<Rightarrow> rollup_db \<times> (rollupError + UsageIdentityAggregationBatchResult)" where
  "identityBatch older now afterID s =
     (case AggregateUsageIdentityStatsBatch older now afterID (sync_db s) of
        (t, Inl e) \<Rightarrow> (s\<lparr>sync_db := t\<rparr>, Inl (DbFailed ''identity'' e))
      | (t, Inr batch) \<Rightarrow> (s\<lparr>sync_db := t\<rparr>, Inr batch))"

text \<open>The second critical section of a rollup turn and of an identity turn.\<close>

definition finishRollups :: "bool \<Rightarrow> int \<Rightarrow> bool \<Rightarrow> UsageAggregationRunner \<Rightarrow> UsageAggregationRunner" where
  "finishRollups active target reached r =
     (let r1 = r\<lparr>nextKind := UsageAggregationKindIdentity\<rparr>;
          r2 = (if active \<and> activeRound r1 \<and> activeTargetEventID r1 = target \<and> reached
                then r1\<lparr>rollupsReachedTarget := True\<rparr> else r1) in
      completeRollupRoundIfReadyLocked r2)"

definition finishIdentity ::
  "64 word \<Rightarrow> UsageIdentityAggregationBatchResult \<Rightarrow> UsageAggregationRunner \<Rightarrow> UsageAggregationRunner" where
  "finishIdentity generation batch r =
     r\<lparr>nextKind := UsageAggregationKindRollups,
       identityAfterID := (if ReachedEnd batch then 0 else LastIdentityID batch),
       identityScanGeneration := generation\<rparr>"

text \<open>\<open>signals\<close> are the notifications that arrive while the turn works.\<close>

definition runPreparedOnce ::
  "Location \<Rightarrow> (int \<Rightarrow> int) \<Rightarrow> (gotime \<Rightarrow> gotime \<Rightarrow> bool) \<Rightarrow> gotime \<Rightarrow> signal list \<Rightarrow> UsageAggregationRunner \<Rightarrow> world
   \<Rightarrow> (world \<times> UsageAggregationRunner \<times> UsageAggregationRunResult \<times> rollupError option) option" where
  "runPreparedOnce loc bucket older now signals r w =
     (case nextRunnableKindLocked r of
        (kind, runnable) \<Rightarrow>
          (let target = activeTargetEventID r;
               active = activeRound r;
               identityPending = identityWorkPendingLocked r;
               afterID = identityAfterID r;
               generation = (if kind = UsageAggregationKindIdentity \<and> identityPending \<and> afterID = 0
                             then identityTargetGeneration r else identityScanGeneration r);
               r1 = foldl notify r signals in
           if \<not> runnable then Some (w, r1, \<lparr>Kind = kind, Processed = False, DeferredForInbox = False\<rparr>, None)
           else
             (case deferForInbox w of
                (w1, Inl e) \<Rightarrow> Some (w1, r1, \<lparr>Kind = kind, Processed = False, DeferredForInbox = False\<rparr>, Some e)
              | (w1, Inr True) \<Rightarrow> Some (w1, r1, \<lparr>Kind = kind, Processed = False, DeferredForInbox = True\<rparr>, None)
              | (w1, Inr False) \<Rightarrow>
                  (case kind of
                     UsageAggregationKindRollups \<Rightarrow>
                       (case runRollupsTurn loc bucket active target now w1 of
                          None \<Rightarrow> None
                        | Some (w2, processed, deferred, reached, Some e) \<Rightarrow>
                            Some (w2, r1, \<lparr>Kind = kind, Processed = processed, DeferredForInbox = deferred\<rparr>, Some e)
                        | Some (w2, processed, deferred, reached, None) \<Rightarrow>
                            Some (w2, finishRollups active target reached r1,
                                  \<lparr>Kind = kind, Processed = processed, DeferredForInbox = deferred\<rparr>, None))
                   | UsageAggregationKindIdentity \<Rightarrow>
                       if \<not> identityPending
                       then Some (w1, r1\<lparr>nextKind := UsageAggregationKindRollups\<rparr>,
                                  \<lparr>Kind = kind, Processed = False, DeferredForInbox = False\<rparr>, None)
                       else
                         (case access (identityBatch older now afterID) w1 of
                            (w2, Inl e) \<Rightarrow>
                              Some (w2, r1, \<lparr>Kind = kind, Processed = False, DeferredForInbox = False\<rparr>, Some e)
                          | (w2, Inr batch) \<Rightarrow>
                              (let r2 = finishIdentity generation batch r1 in
                               Some (w2, r2, \<lparr>Kind = kind,
                                     Processed = (ProcessedIdentities batch > 0 \<or> \<not> ReachedEnd batch \<or> identityWorkPendingLocked r2),
                                     DeferredForInbox = False\<rparr>, None)))))))"

definition RunOnce ::
  "Location \<Rightarrow> (int \<Rightarrow> int) \<Rightarrow> (gotime \<Rightarrow> gotime \<Rightarrow> bool) \<Rightarrow> gotime \<Rightarrow> signal list \<Rightarrow> signal list \<Rightarrow> UsageAggregationRunner \<Rightarrow> world
   \<Rightarrow> (world \<times> UsageAggregationRunner \<times> UsageAggregationRunResult \<times> rollupError option) option" where
  "RunOnce loc bucket older now starting signals r w =
     (case ensureStartupTarget starting r w of
        (w1, r1, Some e) \<Rightarrow>
          Some (w1, r1, \<lparr>Kind = UsageAggregationKindRollups, Processed = False, DeferredForInbox = False\<rparr>, Some e)
      | (w1, r1, None) \<Rightarrow> runPreparedOnce loc bucket older now signals (freezePendingTarget r1) w1)"

end
