(* ===== verification/Rollup_Turns.thy ===== *)
theory Rollup_Turns
  imports Rollup_Runner
begin

text \<open>
  What the turns of the aggregation runner do to the database and to the runner, whatever other
  goroutines do meanwhile: the database stays within the reachable ones of \<open>Rollup_Once\<close>, no
  notification is lost, and a turn without an error makes progress.
\<close>

section \<open>What others do\<close>

inductive other_step :: "Location \<Rightarrow> gotime \<Rightarrow> rollup_db \<Rightarrow> rollup_db \<Rightarrow> bool" for loc :: Location and latest :: gotime where
  idle: "other_step loc latest s s"
| ingest: "inbox_step (sync_db s) t \<Longrightarrow> other_step loc latest s (s\<lparr>sync_db := t\<rparr>)"
| clean_activity: "now \<le> latest \<Longrightarrow> CleanupUsageActivityStats now s = (s', r) \<Longrightarrow> other_step loc latest s s'"
| clean_latency: "now \<le> latest \<Longrightarrow> CleanupUsageLatencyStats loc older now s = (s', r) \<Longrightarrow> other_step loc latest s s'"

lemma other_rolled: "other_step loc latest s s' \<Longrightarrow> rolled loc bucket latest pages s \<Longrightarrow> rolled loc bucket latest pages s'"
  by (induction rule: other_step.induct) (auto intro: rolled.ingest rolled.clean_activity rolled.clean_latency)

lemma other_checkpoints: "other_step loc latest s s' \<Longrightarrow> checkpoints s' = checkpoints s"
proof (induction rule: other_step.induct)
  case (clean_activity now s s' r)
  from cleanupGrains_effect [OF clean_activity(2) [unfolded CleanupUsageActivityStats_def]] show ?case by auto
next
  case (clean_latency now older s s' r)
  then show ?case using cleanupLatency_keeps(4) by blast
qed simp_all

lemma refault_rolled: "rolled loc bucket latest pages s \<Longrightarrow> rolled loc bucket latest pages (refault s fs)"
  using rolled.ingest [OF _ inbox_step.environment [where t = "sync_db s" and fs = fs and at = "gorm_now (sync_db s)" and known = "usage_identities (sync_db s)"]]
  by (simp add: refault_def)

section \<open>Accesses\<close>

text \<open>The database is reachable, and only others act on it besides.\<close>

definition sound :: "Location \<Rightarrow> (int \<Rightarrow> int) \<Rightarrow> gotime \<Rightarrow> (int \<times> UsageEvent list) list \<Rightarrow> world \<Rightarrow> bool" where
  "sound loc bucket latest pages w \<longleftrightarrow> rolled loc bucket latest pages (snd w) \<and> (\<forall>g \<in> set (fst w). \<forall>s. other_step loc latest s (g s))"

abbreviation cursors :: "world \<Rightarrow> string \<Rightarrow> int" where
  "cursors w name \<equiv> cursor name (snd w)"

lemma access_cases:
  assumes "access f w = (w', r)" "sound loc bucket latest pages w"
  obtains s where "rolled loc bucket latest pages s" "checkpoints s = checkpoints (snd w)" "f s = (snd w', r)"
    "\<forall>g \<in> set (fst w'). \<forall>s. other_step loc latest s (g s)"
proof (cases w)
  case (Pair others s)
  show ?thesis
  proof (cases others)
    case Nil
    then show ?thesis using assms that [of s] Pair by (auto simp: sound_def split: prod.splits)
  next
    case (Cons g gs)
    then have "other_step loc latest s (g s)" using assms(2) Pair by (simp add: sound_def)
    then show ?thesis
      using assms that [of "g s"] Pair Cons other_rolled other_checkpoints by (auto simp: sound_def split: prod.splits)
  qed
qed

lemma read_sound:
  assumes "access f w = (w', r)" "sound loc bucket latest pages w" "\<And>s s' r. f s = (s', r) \<Longrightarrow> \<exists>fs. s' = refault s fs"
  shows "sound loc bucket latest pages w' \<and> checkpoints (snd w') = checkpoints (snd w)"
proof (rule access_cases [OF assms(1,2)])
  fix s
  assume s: "rolled loc bucket latest pages s" "checkpoints s = checkpoints (snd w)" "f s = (snd w', r)"
    "\<forall>g \<in> set (fst w'). \<forall>s. other_step loc latest s (g s)"
  then obtain fs where "snd w' = refault s fs" using assms(3) by blast
  then show ?thesis using s refault_rolled by (simp add: sound_def)
qed

lemma inboxWaiting_reads: "inboxWaiting s = (s', r) \<Longrightarrow> \<exists>fs. s' = refault s fs"
proof -
  assume *: "inboxWaiting s = (s', r)"
  obtain t q where q: "query (\<lambda>t. list_ex processable (inbox t)) (sync_db s) = (t, q)" by fastforce
  then obtain fs where "t = (sync_db s)\<lparr>faults := fs\<rparr>" by (elim query_cases) auto
  then show ?thesis using * q by (cases q) (auto simp: inboxWaiting_def HasProcessableRedisUsageInbox_def refault_def)
qed

lemma snapshot_reads:
  assumes "LoadUsageAggregationCheckpointSnapshot s = (s', r)"
  shows "\<exists>fs. s' = refault s fs"
    "r = Inr sn \<Longrightarrow> OverviewCursor sn = cursor UsageAggregationCheckpointOverview s \<and>
       ActivityCursor sn = cursor UsageAggregationCheckpointActivity s \<and> LatencyCursor sn = cursor UsageAggregationCheckpointLatency s"
proof -
  obtain s1 q where q: "select checkpoints s = (s1, q)" by fastforce
  then show "\<exists>fs. s' = refault s fs"
    "r = Inr sn \<Longrightarrow> OverviewCursor sn = cursor UsageAggregationCheckpointOverview s \<and>
       ActivityCursor sn = cursor UsageAggregationCheckpointActivity s \<and> LatencyCursor sn = cursor UsageAggregationCheckpointLatency s"
    using assms by (auto simp: LoadUsageAggregationCheckpointSnapshot_def elim!: select_cases)
qed

lemma target_reads: "LoadUsageAggregationTargetEventID s = (s', r) \<Longrightarrow> \<exists>fs. s' = refault s fs"
  by (auto simp: LoadUsageAggregationTargetEventID_def elim!: select_cases split: prod.splits sum.splits)

lemma page_reads: "LoadUsageAggregationEventPage a target n s = (s', r) \<Longrightarrow> \<exists>fs. s' = refault s fs"
proof -
  assume *: "LoadUsageAggregationEventPage a target n s = (s', r)"
  have self: "\<exists>fs. s = refault s fs" by (intro exI [of _ "faults (sync_db s)"]) (simp add: refault_def)
  show ?thesis using * self
    by (auto simp: LoadUsageAggregationEventPage_def Let_def elim!: select_cases split: if_splits prod.splits sum.splits)
qed

lemma load_sound:
  assumes "access (LoadUsageAggregationEventPage a target n) w = (w', Inr page)" "sound loc bucket latest pages w" "page \<noteq> []"
  shows "sound loc bucket latest ((a, page) # pages) w' \<and> checkpoints (snd w') = checkpoints (snd w)"
proof (rule access_cases [OF assms(1,2)])
  fix s
  assume s: "rolled loc bucket latest pages s" "checkpoints s = checkpoints (snd w)"
    "LoadUsageAggregationEventPage a target n s = (snd w', Inr page)" "\<forall>g \<in> set (fst w'). \<forall>s. other_step loc latest s (g s)"
  have "rolled loc bucket latest ((a, page) # pages) (snd w')" using rolled.load [OF s(1,3) assms(3)] .
  moreover have "checkpoints (snd w') = checkpoints s" using page_reads [OF s(3)] by auto
  ultimately show ?thesis using s by (simp add: sound_def)
qed

section \<open>Pages\<close>

text \<open>\<open>applies\<close>: the function applies a page of events to the table of a checkpoint.\<close>

definition applies ::
  "Location \<Rightarrow> (int \<Rightarrow> int) \<Rightarrow> gotime \<Rightarrow> int \<times> UsageEvent list \<Rightarrow> string \<Rightarrow> (rollup_db \<Rightarrow> rollup_db \<times> rollupError option) \<Rightarrow> bool" where
  "applies loc bucket latest page name f \<longleftrightarrow>
     (\<forall>pages s s' r. rolled loc bucket latest pages s \<longrightarrow> page \<in> set pages \<longrightarrow> f s = (s', r) \<longrightarrow>
        rolled loc bucket latest pages s' \<and>
        (case r of
           Some _ \<Rightarrow> checkpoints s' = checkpoints s
         | None \<Rightarrow> cursor name s = fst page \<and> fst page < ev_ID (last (snd page)) \<and>
             (\<forall>m. cursor m s' = (if m = name then ev_ID (last (snd page)) else cursor m s))))"

lemma rolled_page:
  assumes "rolled loc bucket latest pages s" "(a, page) \<in> set pages"
  shows "sorted_wrt (<) (map ev_ID page)" "page \<noteq> []" "\<forall>e \<in> set page. 0 \<le> ev_ID e" "tables_keyed s"
proof -
  have "rollOK loc pages s" by (rule rolled_OK [OF assms(1)])
  then have "numbered (usage_events (sync_db s)) (next_event (sync_db s))" "next_page (usage_events (sync_db s)) a page" "tables_keyed s"
    using assms(2) by (auto simp: rollOK_def)
  then show "sorted_wrt (<) (map ev_ID page)" "page \<noteq> []" "\<forall>e \<in> set page. 0 \<le> ev_ID e" "tables_keyed s"
    using page_in_order by blast+
qed

lemma overview_applies:
  assumes "overviewPage loc a page now = (next, f)"
  shows "applies loc bucket latest (a, page) UsageAggregationCheckpointOverview f"
    "rolled loc bucket latest pages s \<Longrightarrow> (a, page) \<in> set pages \<Longrightarrow> next = ev_ID (last page)"
proof -
  obtain hourly daily where b: "overview_BuildRows loc page = (hourly, daily, next)"
    and f: "f = ApplyUsageOverviewAggregationPage a next hourly daily now"
    using assms by (auto simp: overviewPage_def split: prod.splits)
  show nxt: "next = ev_ID (last page)" if "rolled loc bucket latest pages s" "(a, page) \<in> set pages" for pages s
    using build_cursor [OF b] rolled_page [OF that] by blast
  show "applies loc bucket latest (a, page) UsageAggregationCheckpointOverview f"
    unfolding applies_def
  proof (intro allI impI)
    fix pages s s' r
    assume s: "rolled loc bucket latest pages s" "(a, page) \<in> set pages" "f s = (s', r)"
    show "rolled loc bucket latest pages s' \<and> (case r of Some _ \<Rightarrow> checkpoints s' = checkpoints s
         | None \<Rightarrow> cursor UsageAggregationCheckpointOverview s = fst (a, page) \<and> fst (a, page) < ev_ID (last (snd (a, page))) \<and>
             (\<forall>m. cursor m s' = (if m = UsageAggregationCheckpointOverview then ev_ID (last (snd (a, page))) else cursor m s)))"
      using rolled.overview [OF s(1,2) b s(3) [unfolded f]] page_failed(1) [of a "next" hourly daily now s s']
        overview_page_applied(2-5) [OF _ rolled_page(4) [OF s(1,2)], of a "next" hourly daily now s'] s(3) nxt [OF s(1,2)]
      by (auto simp: f split: option.splits)
  qed
qed

lemma activity_applies:
  assumes "activityPage loc a (ev_ID (last page)) page now = Some (Inr f)" "now \<le> latest"
  shows "applies loc bucket latest (a, page) UsageAggregationCheckpointActivity f"
proof -
  obtain rows where b: "activity_BuildRows loc page now = Some (Inr rows)"
    and f: "f = ApplyUsageActivityAggregationPage a (ev_ID (last page)) rows now"
    using assms by (auto simp: activityPage_def split: option.splits sum.splits)
  show ?thesis unfolding applies_def
  proof (intro allI impI)
    fix pages s s' r
    assume s: "rolled loc bucket latest pages s" "(a, page) \<in> set pages" "f s = (s', r)"
    show "rolled loc bucket latest pages s' \<and> (case r of Some _ \<Rightarrow> checkpoints s' = checkpoints s
         | None \<Rightarrow> cursor UsageAggregationCheckpointActivity s = fst (a, page) \<and> fst (a, page) < ev_ID (last (snd (a, page))) \<and>
             (\<forall>m. cursor m s' = (if m = UsageAggregationCheckpointActivity then ev_ID (last (snd (a, page))) else cursor m s)))"
      using rolled.activity [OF s(1,2) assms(2) b s(3) [unfolded f]] page_failed(2) [of a "ev_ID (last page)" rows now s s']
        activity_page_applied(2-5) [OF _ rolled_page(4) [OF s(1,2)], of a "ev_ID (last page)" rows now s'] s(3)
      by (auto simp: f split: option.splits)
  qed
qed

lemma latency_applies:
  assumes "latencyPage loc bucket a (ev_ID (last page)) page now = Inr f" "now \<le> latest"
  shows "applies loc bucket latest (a, page) UsageAggregationCheckpointLatency f"
proof -
  obtain rows where b: "latency_BuildRows loc bucket page now = Inr rows"
    and f: "f = ApplyUsageLatencyAggregationPage a (ev_ID (last page)) rows now"
    using assms by (auto simp: latencyPage_def split: sum.splits)
  show ?thesis unfolding applies_def
  proof (intro allI impI)
    fix pages s s' r
    assume s: "rolled loc bucket latest pages s" "(a, page) \<in> set pages" "f s = (s', r)"
    show "rolled loc bucket latest pages s' \<and> (case r of Some _ \<Rightarrow> checkpoints s' = checkpoints s
         | None \<Rightarrow> cursor UsageAggregationCheckpointLatency s = fst (a, page) \<and> fst (a, page) < ev_ID (last (snd (a, page))) \<and>
             (\<forall>m. cursor m s' = (if m = UsageAggregationCheckpointLatency then ev_ID (last (snd (a, page))) else cursor m s)))"
      using rolled.latency [OF s(1,2) assms(2) b s(3) [unfolded f]] latency_page_failed [of a "ev_ID (last page)" rows now s s']
        latency_page_applied(2-5) [OF _ rolled_page(4) [OF s(1,2)], of a "ev_ID (last page)" rows now s'] s(3)
      by (auto simp: f split: option.splits)
  qed
qed

section \<open>Turns\<close>

definition ahead :: "world \<Rightarrow> world \<Rightarrow> bool" where
  "ahead w w' \<longleftrightarrow> (\<forall>m. cursors w m \<le> cursors w' m)"

lemma ahead_trans: "ahead w w' \<Longrightarrow> ahead w' w'' \<Longrightarrow> ahead w w''"
  unfolding ahead_def by (meson order_trans)

lemma ahead_same: "checkpoints (snd w') = checkpoints (snd w) \<Longrightarrow> ahead w w'"
  by (simp add: ahead_def)

definition advanced :: "string \<Rightarrow> int \<times> UsageEvent list \<Rightarrow> world \<Rightarrow> world \<Rightarrow> bool" where
  "advanced name page w w' \<longleftrightarrow> cursors w name = fst page \<and> cursors w name < cursors w' name \<and> cursors w' name = ev_ID (last (snd page))"

definition endsTurn :: "turnReport \<Rightarrow> bool" where
  "endsTurn report = (case report of (processed, deferred, reached, e) \<Rightarrow> \<not> reached \<and> (deferred \<or> e \<noteq> None))"

lemma joinPageErrors_Some [simp]: "joinPageErrors es = None \<longleftrightarrow> es = []"
  by (simp add: joinPageErrors_def)

lemma deferForInbox_sound:
  "deferForInbox w = (w', r) \<Longrightarrow> sound loc bucket latest pages w \<Longrightarrow> sound loc bucket latest pages w' \<and> checkpoints (snd w') = checkpoints (snd w)"
  unfolding deferForInbox_def by (rule read_sound) (auto dest: inboxWaiting_reads)

lemma apply_sound:
  assumes "access f w = (w', r)" "sound loc bucket latest pages w" "p \<in> set pages" "applies loc bucket latest p name f"
  shows "sound loc bucket latest pages w'" "ahead w w'" "\<forall>m. m \<noteq> name \<longrightarrow> cursors w' m = cursors w m"
    "r = None \<Longrightarrow> advanced name p w w'"
proof -
  obtain s where s: "rolled loc bucket latest pages s" "checkpoints s = checkpoints (snd w)" "f s = (snd w', r)"
    and o: "\<forall>g \<in> set (fst w'). \<forall>s. other_step loc latest s (g s)"
    by (rule access_cases [OF assms(1,2)])
  have A: "rolled loc bucket latest pages (snd w')" "case r of Some _ \<Rightarrow> checkpoints (snd w') = checkpoints s
       | None \<Rightarrow> cursor name s = fst p \<and> fst p < ev_ID (last (snd p)) \<and>
           (\<forall>m. cursor m (snd w') = (if m = name then ev_ID (last (snd p)) else cursor m s))"
    using assms(3,4) s(1,3) unfolding applies_def by blast+
  then show "sound loc bucket latest pages w'" using o by (simp add: sound_def)
  show "ahead w w'" "\<forall>m. m \<noteq> name \<longrightarrow> cursors w' m = cursors w m" "r = None \<Longrightarrow> advanced name p w w'"
    using A(2) s(2) by (auto simp: ahead_def advanced_def split: option.splits)
qed

lemma unlessInbox_sound:
  assumes run: "applyUnlessInbox processed errs page w = (w', out)" and w: "sound loc bucket latest pages w" and p: "p \<in> set pages"
    and page: "\<forall>f. page = Inr f \<longrightarrow> applies loc bucket latest p name f"
  shows "sound loc bucket latest pages w'" "ahead w w'" "\<forall>m. m \<noteq> name \<longrightarrow> cursors w' m = cursors w m"
    "out = Inl report \<Longrightarrow> endsTurn report"
    "out = Inr (processed', errs', applied) \<Longrightarrow> if applied then errs' = errs \<and> advanced name p w w' else errs' \<noteq> []"
proof -
  obtain w1 d where d: "deferForInbox w = (w1, d)" by fastforce
  then have w1: "sound loc bucket latest pages w1" "checkpoints (snd w1) = checkpoints (snd w)" using deferForInbox_sound [OF _ w] by auto
  have all: "sound loc bucket latest pages w' \<and> ahead w w' \<and> (\<forall>m. m \<noteq> name \<longrightarrow> cursors w' m = cursors w m) \<and>
     (case out of Inl report \<Rightarrow> endsTurn report
      | Inr (processed', errs', applied) \<Rightarrow> if applied then errs' = errs \<and> advanced name p w w' else errs' \<noteq> [])"
  proof (cases "\<exists>f. d = Inr False \<and> page = Inr f")
    case True
    then obtain f where f: "d = Inr False" "page = Inr f" by blast
    obtain w2 r where ac: "access f w1 = (w2, r)" by fastforce
    note A = apply_sound [OF ac w1(1) p mp [OF spec [OF page] f(2)]]
    have "w' = w2" "out = Inr (if r = None then (True, errs, True) else (processed, errs @ [the r], False))"
      using run d f ac by (auto simp: applyUnlessInbox_def split: option.splits)
    then show ?thesis using A w1(2) by (auto simp: ahead_def advanced_def)
  next
    case False
    then have "w' = w1 \<and> (case out of Inl report \<Rightarrow> endsTurn report | Inr (processed', errs', applied) \<Rightarrow> \<not> applied \<and> errs' \<noteq> [])"
      using run d by (cases d; cases page) (auto simp: applyUnlessInbox_def endsTurn_def joinPageErrors_def split: bool.splits)
    then show ?thesis using w1 by (auto simp: ahead_def split: sum.splits)
  qed
  then show "sound loc bucket latest pages w'" "ahead w w'" "\<forall>m. m \<noteq> name \<longrightarrow> cursors w' m = cursors w m"
    "out = Inl report \<Longrightarrow> endsTurn report"
    "out = Inr (processed', errs', applied) \<Longrightarrow> if applied then errs' = errs \<and> advanced name p w w' else errs' \<noteq> []"
    by auto
qed

abbreviation threeNames :: "string set" where
  "threeNames \<equiv> {UsageAggregationCheckpointOverview, UsageAggregationCheckpointActivity, UsageAggregationCheckpointLatency}"

text \<open>A report is honest: it reaches the target only with all checkpoints, and without an error or a deferral every checkpoint behind moved.\<close>

definition honest :: "int \<Rightarrow> world \<Rightarrow> world \<Rightarrow> turnReport \<Rightarrow> bool" where
  "honest target w w' report \<longleftrightarrow>
     (case report of (processed, deferred, reached, e) \<Rightarrow>
        (reached \<and> e = None \<longrightarrow> (\<forall>m \<in> threeNames. target \<le> cursors w' m)) \<and>
        (e = None \<and> \<not> deferred \<longrightarrow> (\<forall>m \<in> threeNames. cursors w m < target \<longrightarrow> cursors w m < cursors w' m)))"

lemma endsTurn_honest: "endsTurn report \<Longrightarrow> honest target w w' report"
  by (auto simp: endsTurn_def honest_def)

lemma failed_honest: "honest target w w' (a, b, c, Some e)"
  by (simp add: honest_def)

definition keepsSound :: "Location \<Rightarrow> (int \<Rightarrow> int) \<Rightarrow> gotime \<Rightarrow> (int \<times> UsageEvent list) list \<Rightarrow> world \<Rightarrow> world \<Rightarrow> bool" where
  "keepsSound loc bucket latest pages w w' \<longleftrightarrow> (\<exists>loaded. sound loc bucket latest (loaded @ pages) w') \<and> ahead w w'"

lemma advanced_ahead: "advanced name p w w' \<Longrightarrow> ahead w' w'' \<Longrightarrow> fst p < cursors w'' name \<and> ev_ID (last (snd p)) \<le> cursors w'' name"
  by (auto simp: advanced_def ahead_def dest!: spec [of _ name])

lemma shared_pages:
  assumes o: "applyUnlessInbox False [] (Inr fo) w0 = (w1, out1)" and w: "sound loc bucket latest pages w0" and p: "(a, page) \<in> set pages"
    and fo: "applies loc bucket latest (a, page) UsageAggregationCheckpointOverview fo"
    and fa: "\<forall>f. activity = Inr f \<longrightarrow> applies loc bucket latest (a, page) UsageAggregationCheckpointActivity f"
    and fl: "\<forall>f. latency = Inr f \<longrightarrow> applies loc bucket latest (a, page) UsageAggregationCheckpointLatency f"
    and equal: "\<forall>m \<in> threeNames. cursors w0 m = a"
    and run: "(case out1 of Inl report \<Rightarrow> (w1, report)
       | Inr (processed1, errors1, _) \<Rightarrow>
           (case applyUnlessInbox processed1 errors1 activity w1 of
              (w2, Inl report) \<Rightarrow> (w2, report)
            | (w2, Inr (processed2, errors2, _)) \<Rightarrow>
                (case applyUnlessInbox processed2 errors2 latency w2 of
                   (w3, Inl report) \<Rightarrow> (w3, report)
                 | (w3, Inr (processed3, errors3, _)) \<Rightarrow>
                     if errors3 \<noteq> [] then (w3, processed3, False, False, joinPageErrors errors3)
                     else (w3, processed3, False, ev_ID (last page) \<ge> target, None)))) = (w', report)"
  shows "sound loc bucket latest pages w' \<and> ahead w0 w' \<and> honest target w0 w' report"
proof -
  have "\<forall>f. Inr fo = Inr f \<longrightarrow> applies loc bucket latest (a, page) UsageAggregationCheckpointOverview f" using fo by simp
  note U1 = unlessInbox_sound [OF o w p this]
  have U1: "sound loc bucket latest pages w1" "ahead w0 w1" "\<And>r. out1 = Inl r \<Longrightarrow> endsTurn r"
    "\<And>pr es ap. out1 = Inr (pr, es, ap) \<Longrightarrow> if ap then es = [] \<and> advanced UsageAggregationCheckpointOverview (a, page) w0 w1 else es \<noteq> []"
    using U1 by blast+
  show ?thesis
  proof (cases out1)
    case (Inl r)
    then show ?thesis using run U1 endsTurn_honest by auto
  next
    case (Inr x)
    then obtain pr1 es1 ap1 where x1: "out1 = Inr (pr1, es1, ap1)" by (metis prod_cases3)
    obtain w2 out2 where o2: "applyUnlessInbox pr1 es1 activity w1 = (w2, out2)" by fastforce
    note U2 = unlessInbox_sound [OF o2 U1(1) p, OF fa]
    show ?thesis
    proof (cases out2)
      case (Inl r)
      then show ?thesis using run x1 o2 U2(1,2,4) U1(2) ahead_trans endsTurn_honest by fastforce
    next
      case (Inr y)
      then obtain pr2 es2 ap2 where x2: "out2 = Inr (pr2, es2, ap2)" by (metis prod_cases3)
      obtain w3 out3 where o3: "applyUnlessInbox pr2 es2 latency w2 = (w3, out3)" by fastforce
      note U3 = unlessInbox_sound [OF o3 U2(1) p, OF fl]
      have ah: "ahead w0 w3" "ahead w0 w2" using U1(2) U2(2) U3(2) ahead_trans by blast+
      show ?thesis
      proof (cases out3)
        case (Inl r)
        then show ?thesis using run x1 o2 x2 o3 U3(1,4) ah endsTurn_honest by fastforce
      next
        case (Inr z)
        then obtain pr3 es3 ap3 where x3: "out3 = Inr (pr3, es3, ap3)" by (metis prod_cases3)
        have w': "w' = w3" "report = (pr3, False, es3 = [] \<and> ev_ID (last page) \<ge> target, joinPageErrors es3)"
          using run x1 o2 x2 o3 x3 by (auto split: if_splits simp: joinPageErrors_def)
        have "honest target w0 w3 report"
        proof (cases "es3 = []")
          case True
          then have es2: "es2 = []" and A3: "advanced UsageAggregationCheckpointLatency (a, page) w2 w3" using U3(5) [OF x3] by (auto split: if_splits)
          then have es1: "es1 = []" and A2: "advanced UsageAggregationCheckpointActivity (a, page) w1 w2" using U2(5) [OF x2] by (auto split: if_splits)
          then have A1: "advanced UsageAggregationCheckpointOverview (a, page) w0 w1" using U1(4) [OF x1] by (auto split: if_splits)
          have "ahead w3 w3" by (simp add: ahead_def)
          then have "\<forall>m \<in> threeNames. a < cursors w3 m \<and> ev_ID (last page) \<le> cursors w3 m"
            using advanced_ahead [OF A1 ahead_trans [OF U2(2) U3(2)]] advanced_ahead [OF A2 U3(2)] advanced_ahead [OF A3] by simp
          then show ?thesis using equal True w'(2) by (auto simp: honest_def)
        next
          case False
          then show ?thesis using w'(2) by (auto simp: honest_def joinPageErrors_def)
        qed
        then show ?thesis using w' U3(1) ah by simp
      qed
    qed
  qed
qed

lemma honest_same: "checkpoints (snd w0) = checkpoints (snd w) \<Longrightarrow> honest target w0 w' report = honest target w w' report"
  by (simp add: honest_def)

lemma keepsSound_same: "checkpoints (snd w0) = checkpoints (snd w) \<Longrightarrow> sound loc bucket latest (loaded @ pages) w' \<Longrightarrow> ahead w0 w' \<Longrightarrow> keepsSound loc bucket latest pages w w'"
  by (auto simp: keepsSound_def ahead_def)

lemma shared_turn:
  assumes run: "runSharedRollupsPage loc bucket a target now w = Some (w', report)" and w: "sound loc bucket latest pages w"
    and now: "now \<le> latest" and equal: "\<forall>m \<in> threeNames. cursors w m = a"
  shows "keepsSound loc bucket latest pages w w' \<and> honest target w w' report"
proof -
  obtain w0 out where ld: "access (LoadUsageAggregationEventPage a target usageAggregationEventPageSize) w = (w0, out)" by fastforce
  have r: "sound loc bucket latest pages w0 \<and> checkpoints (snd w0) = checkpoints (snd w)" by (rule read_sound [OF ld w]) (rule page_reads)
  show ?thesis
  proof (cases "\<exists>page. out = Inr page \<and> page \<noteq> []")
    case False
    then have "w' = w0 \<and> (\<exists>e. report = (False, False, False, Some e))"
      using run ld by (cases out) (auto simp: runSharedRollupsPage_def)
    then show ?thesis using r keepsSound_same [of w0 w loc bucket latest "[]"] by (auto simp: honest_def ahead_same)
  next
    case True
    then obtain page where page: "out = Inr page" "page \<noteq> []" by blast
    then have s0: "sound loc bucket latest ((a, page) # pages) w0" "checkpoints (snd w0) = checkpoints (snd w)"
      using load_sound [OF _ w] ld by auto
    obtain nxt fo where o: "overviewPage loc a page now = (nxt, fo)" by fastforce
    have nxt: "nxt = ev_ID (last page)" using overview_applies(2) [OF o] s0(1) by (auto simp: sound_def)
    obtain activity where act: "activityPage loc a nxt page now = Some activity"
      using run ld page o by (auto simp: runSharedRollupsPage_def split: option.splits)
    obtain w1 out1 where o1: "applyUnlessInbox False [] (Inr fo) w0 = (w1, out1)" by fastforce
    have fa: "\<forall>f. activity = Inr f \<longrightarrow> applies loc bucket latest (a, page) UsageAggregationCheckpointActivity f"
      using act nxt activity_applies [OF _ now] by blast
    have fl: "\<forall>f. latencyPage loc bucket a (ev_ID (last page)) page now = Inr f \<longrightarrow> applies loc bucket latest (a, page) UsageAggregationCheckpointLatency f"
      using nxt latency_applies [OF _ now] by blast
    have eq: "\<forall>m \<in> threeNames. cursors w0 m = a" using equal s0(2) by simp
    have "sound loc bucket latest ((a, page) # pages) w' \<and> ahead w0 w' \<and> honest target w0 w' report"
      by (rule shared_pages [OF o1 s0(1) _ overview_applies(1) [OF o] fa fl eq])
         (simp, use run ld page o act o1 in \<open>simp add: runSharedRollupsPage_def nxt\<close>)
    then show ?thesis using keepsSound_same [OF s0(2), of loc bucket latest "[(a, page)]" pages w'] honest_same [OF s0(2)] by simp
  qed
qed

lemma fallback_sound:
  assumes run: "fallbackKind name build a target processed errs w = Some (w', out)" and w: "sound loc bucket latest pages w"
    and a: "cursors w m = a"
    and build: "\<And>page nxt x. build page = Some (nxt, x) \<Longrightarrow> (\<exists>pages s. rolled loc bucket latest pages s \<and> (a, page) \<in> set pages) \<Longrightarrow>
      nxt = ev_ID (last page) \<and> (\<forall>f. x = Inr f \<longrightarrow> applies loc bucket latest (a, page) m f)"
  shows "\<exists>loaded. sound loc bucket latest (loaded @ pages) w' \<and> ahead w w' \<and> (\<forall>k. k \<noteq> m \<longrightarrow> cursors w' k = cursors w k) \<and>
    (case out of Inl report \<Rightarrow> endsTurn report
     | Inr (c, processed', errs') \<Rightarrow> c \<le> cursors w' m \<and> (errs' = [] \<longrightarrow> errs = [] \<and> (a < target \<longrightarrow> a < c)))"
proof (cases "a < target")
  case False
  then show ?thesis using run w a by (auto simp: fallbackKind_def ahead_def intro: exI [of _ "[]"])
next
  case True
  obtain w0 ld where ld: "access (LoadUsageAggregationEventPage a target usageAggregationEventPageSize) w = (w0, ld)" by fastforce
  have r: "sound loc bucket latest pages w0" "checkpoints (snd w0) = checkpoints (snd w)" using read_sound [OF ld w page_reads] by auto
  show ?thesis
  proof (cases "\<exists>page nxt f. ld = Inr page \<and> page \<noteq> [] \<and> build page = Some (nxt, Inr f)")
    case False
    then have "w' = w0 \<and> (\<exists>e. out = Inr (a, processed, errs @ [e]))"
      using run ld True by (cases ld) (auto simp: fallbackKind_def split: option.splits sum.splits if_splits)
    then show ?thesis using r a by (auto simp: ahead_def intro!: exI [of _ "[]"])
  next
    case True
    then obtain page nxt f where page: "ld = Inr page" "page \<noteq> []" "build page = Some (nxt, Inr f)" by blast
    then have s0: "sound loc bucket latest ((a, page) # pages) w0" using load_sound [OF _ w] ld by auto
    then have rl: "\<exists>pages s. rolled loc bucket latest pages s \<and> (a, page) \<in> set pages"
      by (intro exI [of _ "(a, page) # pages"] exI [of _ "snd w0"]) (simp add: sound_def)
    have nxt: "nxt = ev_ID (last page)" and f: "\<forall>g. Inr f = Inr g \<longrightarrow> applies loc bucket latest (a, page) m g"
      using build [OF page(3) rl] by auto
    obtain w1 out1 where o1: "applyUnlessInbox processed errs (Inr f) w0 = (w1, out1)" by fastforce
    note U = unlessInbox_sound [OF o1 s0 _ f]
    have w': "w' = w1" and out: "out = (case out1 of Inl report \<Rightarrow> Inl report | Inr (p', e', ap) \<Rightarrow> Inr (if ap then nxt else a, p', e'))"
      using run ld page o1 \<open>a < target\<close> by (auto simp: fallbackKind_def split: sum.splits)
    have "case out of Inl report \<Rightarrow> endsTurn report
     | Inr (c, processed', errs') \<Rightarrow> c \<le> cursors w' m \<and> (errs' = [] \<longrightarrow> errs = [] \<and> (a < target \<longrightarrow> a < c))"
    proof (cases out1)
      case (Inl report)
      then show ?thesis using U(4) out by simp
    next
      case (Inr y)
      then obtain p' e' ap where y: "out1 = Inr (p', e', ap)" by (metis prod_cases3)
      have "a \<le> cursors w1 m" using U(2) a r(2) by (auto simp: ahead_def dest!: spec [of _ m])
      then show ?thesis using U(5) [OF _ y] out y w' nxt by (auto simp: advanced_def split: if_splits)
    qed
    moreover have "ahead w w'" "\<forall>k. k \<noteq> m \<longrightarrow> cursors w' k = cursors w k" using U(2,3) r(2) w' by (auto simp: ahead_def)
    ultimately show ?thesis using U(1) w' by (intro exI [of _ "[(a, page)]"]) simp
  qed
qed

lemma fallback_turn:
  assumes run: "runFallbackRollupsPages loc bucket sn target now w = Some (w', report)" and w: "sound loc bucket latest pages w"
    and now: "now \<le> latest"
    and sn: "OverviewCursor sn = cursors w UsageAggregationCheckpointOverview" "ActivityCursor sn = cursors w UsageAggregationCheckpointActivity"
      "LatencyCursor sn = cursors w UsageAggregationCheckpointLatency"
  shows "keepsSound loc bucket latest pages w w' \<and> honest target w w' report"
proof -
  let ?O = UsageAggregationCheckpointOverview and ?A = UsageAggregationCheckpointActivity and ?L = UsageAggregationCheckpointLatency
  let ?bo = "\<lambda>evs. case overviewPage loc (OverviewCursor sn) evs now of (next, f) \<Rightarrow> Some (next, Inr f)"
  let ?ba = "\<lambda>evs. let next = ev_ID (last evs) in map_option (Pair next) (activityPage loc (ActivityCursor sn) next evs now)"
  let ?bl = "\<lambda>evs. let next = ev_ID (last evs) in Some (next, latencyPage loc bucket (LatencyCursor sn) next evs now)"
  obtain w1 out1 where r1: "fallbackKind ''overview'' ?bo (OverviewCursor sn) target False [] w = Some (w1, out1)"
    using run by (auto simp: runFallbackRollupsPages_def split: option.splits)
  have distinct: "?O \<noteq> ?A" "?O \<noteq> ?L" "?A \<noteq> ?L" by (simp_all add: checkpoint_names)
  have "nxt = ev_ID (last page) \<and> (\<forall>f. x = Inr f \<longrightarrow> applies loc bucket latest (OverviewCursor sn, page) ?O f)"
    if b: "?bo page = Some (nxt, x)" and rl: "\<exists>pages s. rolled loc bucket latest pages s \<and> (OverviewCursor sn, page) \<in> set pages" for page nxt x
  proof -
    obtain f where f: "overviewPage loc (OverviewCursor sn) page now = (nxt, f)" "x = Inr f" using b by (auto split: prod.splits)
    show ?thesis using overview_applies [OF f(1)] rl f(2) by blast
  qed
  from fallback_sound [OF r1 w sn(1) [symmetric] this] obtain l1 where F1: "sound loc bucket latest (l1 @ pages) w1" "ahead w w1"
    "\<forall>k. k \<noteq> ?O \<longrightarrow> cursors w1 k = cursors w k"
    "case out1 of Inl report \<Rightarrow> endsTurn report
     | Inr (c, p', e') \<Rightarrow> c \<le> cursors w1 ?O \<and> (e' = [] \<longrightarrow> ([] :: rollupError list) = [] \<and> (OverviewCursor sn < target \<longrightarrow> OverviewCursor sn < c))" by blast
  show ?thesis
  proof (cases out1)
    case (Inl r)
    then have "w' = w1" "report = r" using run r1 by (auto simp: runFallbackRollupsPages_def)
    then show ?thesis using F1 Inl endsTurn_honest by (auto simp: keepsSound_def)
  next
    case (Inr y)
    then obtain c1 p1 e1 where y1: "out1 = Inr (c1, p1, e1)" by (metis prod_cases3)
    have k1: "c1 \<le> cursors w1 ?O" "e1 = [] \<Longrightarrow> OverviewCursor sn < target \<Longrightarrow> OverviewCursor sn < c1" using F1(4) y1 by auto
    obtain w2 out2 where r2: "fallbackKind ''activity'' ?ba (ActivityCursor sn) target p1 e1 w1 = Some (w2, out2)"
      using run r1 y1 by (auto simp: runFallbackRollupsPages_def split: option.splits)
    have b2: "nxt = ev_ID (last page) \<and> (\<forall>f. x = Inr f \<longrightarrow> applies loc bucket latest (ActivityCursor sn, page) ?A f)"
      if "?ba page = Some (nxt, x)" for page nxt x
      using that by (auto simp: Let_def dest!: activity_applies [where bucket = bucket, OF _ now])
    have a2: "cursors w1 ?A = ActivityCursor sn" using F1(3) distinct sn(2) by auto
    from fallback_sound [OF r2 F1(1) a2 b2] obtain l2 where F2: "sound loc bucket latest (l2 @ l1 @ pages) w2" "ahead w1 w2"
      "\<forall>k. k \<noteq> ?A \<longrightarrow> cursors w2 k = cursors w1 k"
      "case out2 of Inl report \<Rightarrow> endsTurn report
       | Inr (c, p', e') \<Rightarrow> c \<le> cursors w2 ?A \<and> (e' = [] \<longrightarrow> e1 = [] \<and> (ActivityCursor sn < target \<longrightarrow> ActivityCursor sn < c))" by auto
    show ?thesis
    proof (cases out2)
      case (Inl r)
      then have w': "w' = w2" "report = r" using run r1 y1 r2 by (auto simp: runFallbackRollupsPages_def)
      have "sound loc bucket latest ((l2 @ l1) @ pages) w2" "ahead w w2" using F2(1) ahead_trans [OF F1(2) F2(2)] by simp_all
      then have "keepsSound loc bucket latest pages w w2" unfolding keepsSound_def by blast
      then show ?thesis using w' F2(4) Inl endsTurn_honest by simp
    next
      case (Inr z)
      then obtain c2 p2 e2 where y2: "out2 = Inr (c2, p2, e2)" by (metis prod_cases3)
      have k2: "c2 \<le> cursors w2 ?A" "e2 = [] \<Longrightarrow> e1 = []" "e2 = [] \<Longrightarrow> ActivityCursor sn < target \<Longrightarrow> ActivityCursor sn < c2"
        using F2(4) y2 by auto
      obtain w3 out3 where r3: "fallbackKind ''latency'' ?bl (LatencyCursor sn) target p2 e2 w2 = Some (w3, out3)"
        using run r1 y1 r2 y2 by (auto simp: runFallbackRollupsPages_def split: option.splits)
      have b3: "nxt = ev_ID (last page) \<and> (\<forall>f. x = Inr f \<longrightarrow> applies loc bucket latest (LatencyCursor sn, page) ?L f)"
        if "?bl page = Some (nxt, x)" for page nxt x
        using that by (auto simp: Let_def dest!: latency_applies [OF _ now])
      have a3: "cursors w2 ?L = LatencyCursor sn" using F1(3) F2(3) distinct sn(3) by auto
      from fallback_sound [OF r3 F2(1) a3 b3] obtain l3 where F3: "sound loc bucket latest (l3 @ l2 @ l1 @ pages) w3" "ahead w2 w3"
        "case out3 of Inl report \<Rightarrow> endsTurn report
         | Inr (c, p', e') \<Rightarrow> c \<le> cursors w3 ?L \<and> (e' = [] \<longrightarrow> e2 = [] \<and> (LatencyCursor sn < target \<longrightarrow> LatencyCursor sn < c))" by auto
      have ah: "ahead w w3" using ahead_trans [OF F1(2) ahead_trans [OF F2(2) F3(2)]] .
      have "sound loc bucket latest ((l3 @ l2 @ l1) @ pages) w3" using F3(1) by simp
      then have k: "keepsSound loc bucket latest pages w w3" using ah unfolding keepsSound_def by blast
      show ?thesis
      proof (cases out3)
        case (Inl r)
        then have "w' = w3" "report = r" using run r1 y1 r2 y2 r3 by (auto simp: runFallbackRollupsPages_def)
        then show ?thesis using F3(3) Inl endsTurn_honest k by simp
      next
        case (Inr u)
        then obtain c3 p3 e3 where y3: "out3 = Inr (c3, p3, e3)" by (metis prod_cases3)
        have rep: "w' = w3" "report = (p3, False, c1 \<ge> target \<and> c2 \<ge> target \<and> c3 \<ge> target, joinPageErrors e3)"
          using run r1 y1 r2 y2 r3 y3 by (auto simp: runFallbackRollupsPages_def)
        have "c1 \<le> cursors w3 ?O" "c2 \<le> cursors w3 ?A" "c3 \<le> cursors w3 ?L"
          using k1(1) k2(1) F3(3) y3 ahead_trans [OF F2(2) F3(2)] F3(2) unfolding ahead_def by (auto intro: order_trans)
        moreover have "e3 = [] \<Longrightarrow> e2 = [] \<and> e1 = []" "e3 = [] \<Longrightarrow> LatencyCursor sn < target \<Longrightarrow> LatencyCursor sn < c3"
          using F3(3) y3 k2(2) by auto
        ultimately have "honest target w w3 report"
          using rep(2) sn k1(2) k2(3) by (fastforce simp: honest_def joinPageErrors_def split: if_splits)
        then show ?thesis using rep(1) k by simp
      qed
    qed
  qed
qed

lemma rollups_turn:
  assumes run: "runRollupsTurn loc bucket active target now w = Some (w', report)" and w: "sound loc bucket latest pages w"
    and now: "now \<le> latest" and active: "active"
  shows "keepsSound loc bucket latest pages w w' \<and> honest target w w' report"
proof -
  let ?O = UsageAggregationCheckpointOverview and ?A = UsageAggregationCheckpointActivity and ?L = UsageAggregationCheckpointLatency
  obtain w1 out where ld: "access LoadUsageAggregationCheckpointSnapshot w = (w1, out)" by fastforce
  have w1: "sound loc bucket latest pages w1" "checkpoints (snd w1) = checkpoints (snd w)"
    using read_sound [OF ld w] snapshot_reads(1) by blast+
  have pass: "?thesis" if "keepsSound loc bucket latest pages w1 w' \<and> honest target w1 w' report"
    using that w1(2) by (simp add: keepsSound_def ahead_def honest_def)
  have keep: "keepsSound loc bucket latest pages w1 w1" using w1(1) by (auto simp: keepsSound_def ahead_def intro: exI [of _ "[]"])
  show ?thesis
  proof (cases out)
    case (Inl e)
    then have "w' = w1" "report = (False, False, False, Some e)" using run ld active by (auto simp: runRollupsTurn_def)
    then show ?thesis using pass keep by (simp add: honest_def)
  next
    case (Inr sn)
    obtain s where "checkpoints s = checkpoints (snd w)" "LoadUsageAggregationCheckpointSnapshot s = (snd w1, Inr sn)"
      using access_cases [OF ld w] Inr by metis
    then have sn: "OverviewCursor sn = cursors w1 ?O" "ActivityCursor sn = cursors w1 ?A" "LatencyCursor sn = cursors w1 ?L"
      using snapshot_reads(2) [of s "snd w1" "Inr sn" sn] w1(2) by simp_all
    show ?thesis
    proof (cases "OverviewCursor sn \<ge> target \<and> ActivityCursor sn \<ge> target \<and> LatencyCursor sn \<ge> target")
      case True
      then have "w' = w1" "report = (False, False, True, None)" using run ld active Inr by (auto simp: runRollupsTurn_def)
      then show ?thesis using pass keep True sn by (simp add: honest_def)
    next
      case False
      then have r: "(if snapshot_Equal sn then runSharedRollupsPage loc bucket (OverviewCursor sn) target now w1
          else runFallbackRollupsPages loc bucket sn target now w1) = Some (w', report)"
        using run ld active Inr unfolding runRollupsTurn_def by (auto split: if_splits)
      show ?thesis
      proof (cases "snapshot_Equal sn")
        case True
        then have "\<forall>m \<in> threeNames. cursors w1 m = OverviewCursor sn" using sn by (auto simp: snapshot_Equal_def)
        then show ?thesis using pass shared_turn [OF _ w1(1) now] r True by simp
      next
        case False
        then show ?thesis using pass fallback_turn [OF _ w1(1) now sn] r by simp
      qed
    qed
  qed
qed

text \<open>The identity page changes only the credentials.\<close>

lemma identityBatch_other:
  assumes "identityBatch older now a s = (s', r)"
  shows "other_step loc latest s s'"
proof -
  let ?t = "sync_db s"
  obtain t b where b: "AggregateUsageIdentityStatsBatch older now a ?t = (t, b)" by fastforce
  then have s': "s' = s\<lparr>sync_db := t\<rparr>" using assms by (cases b) (auto simp: identityBatch_def)
  have "t = ?t\<lparr>faults := faults t, gorm_now := gorm_now t, usage_identities := usage_identities t\<rparr>"
    using batch_tables [OF b] by simp
  then have "inbox_step ?t t" using inbox_step.environment [of ?t] by metis
  then show ?thesis unfolding s' by (rule other_step.ingest)
qed

lemma identity_sound:
  assumes "access (identityBatch older now a) w = (w', r)" "sound loc bucket latest pages w"
  shows "sound loc bucket latest pages w' \<and> checkpoints (snd w') = checkpoints (snd w)"
proof (rule access_cases [OF assms])
  fix s
  assume s: "rolled loc bucket latest pages s" "checkpoints s = checkpoints (snd w)" "identityBatch older now a s = (snd w', r)"
    "\<forall>g \<in> set (fst w'). \<forall>s. other_step loc latest s (g s)"
  from identityBatch_other [where loc = loc and latest = latest, OF s(3)] have "other_step loc latest s (snd w')" .
  then show ?thesis using s(2,4) other_rolled [OF _ s(1)] other_checkpoints [of loc latest s "snd w'"] by (simp add: sound_def)
qed

section \<open>The runner\<close>

definition largestSignal :: "int \<Rightarrow> signal \<Rightarrow> int" where
  "largestSignal n sig = (case sig of EventsCommitted evs \<Rightarrow> max n (maxEventID evs) | IdentitiesChanged \<Rightarrow> n)"

text \<open>
  The states of the runner and the database: \<open>n\<close> is the largest event id that the runner was told
  of. \<open>Run\<close> and \<open>RunOnce\<close> load the startup target before anything else; afterwards the timer
  freezes targets and turns run in any order, each turn with any interference.
\<close>

inductive running :: "Location \<Rightarrow> (int \<Rightarrow> int) \<Rightarrow> gotime \<Rightarrow> int \<Rightarrow> UsageAggregationRunner \<Rightarrow> rollup_db \<Rightarrow> bool"
  for loc :: Location and bucket :: "int \<Rightarrow> int" where
  start: "rolled loc bucket latest pages s \<Longrightarrow> running loc bucket latest 0 NewUsageAggregationRunner s"
| clock: "running loc bucket earlier n r s \<Longrightarrow> earlier \<le> latest \<Longrightarrow> running loc bucket latest n r s"
| other: "running loc bucket latest n r s \<Longrightarrow> other_step loc latest s s' \<Longrightarrow> running loc bucket latest n r s'"
| signalled: "running loc bucket latest n r s \<Longrightarrow> running loc bucket latest (largestSignal n sig) (notify r sig) s"
| woken: "running loc bucket latest n r s \<Longrightarrow> running loc bucket latest n (r\<lparr>wake := False\<rparr>) s"
| startup: "running loc bucket latest n r s \<Longrightarrow> \<forall>g \<in> set others. \<forall>s. other_step loc latest s (g s) \<Longrightarrow>
    ensureStartupTarget signals r (others, s) = ((rest, s'), r', e) \<Longrightarrow> running loc bucket latest (foldl largestSignal n signals) r' s'"
| freeze: "running loc bucket latest n r s \<Longrightarrow> startupTargetLoaded r \<Longrightarrow> running loc bucket latest n (freezePendingTarget r) s"
| failed: "running loc bucket latest n r s \<Longrightarrow> running loc bucket latest n (advanceAfterFailure kind r) s"
| turn: "running loc bucket latest n r s \<Longrightarrow> startupTargetLoaded r \<Longrightarrow> \<forall>g \<in> set others. \<forall>s. other_step loc latest s (g s) \<Longrightarrow> now \<le> latest \<Longrightarrow>
    runPreparedOnce loc bucket older now signals r (others, s) = Some ((rest, s'), r', result, e) \<Longrightarrow>
    running loc bucket latest (foldl largestSignal n signals) r' s'"

text \<open>Nothing the runner was told of is forgotten: it is pending, or in the frozen target, or below all checkpoints.\<close>

definition remembers :: "int \<Rightarrow> UsageAggregationRunner \<Rightarrow> rollup_db \<Rightarrow> bool" where
  "remembers n r s \<longleftrightarrow> (n \<le> pendingTargetEventID r \<or> activeRound r \<and> n \<le> activeTargetEventID r \<or> (\<forall>m \<in> threeNames. n \<le> cursor m s)) \<and>
     (activeRound r \<and> rollupsReachedTarget r \<longrightarrow> (\<forall>m \<in> threeNames. activeTargetEventID r \<le> cursor m s)) \<and>
     (\<not> startupTargetLoaded r \<longrightarrow> \<not> activeRound r \<and> n \<le> pendingTargetEventID r) \<and> 0 \<le> n \<and> 0 \<le> pendingTargetEventID r"

lemma remembers_ahead: "remembers n r s \<Longrightarrow> ahead (x, s) (y, s') \<Longrightarrow> remembers n r s'"
  unfolding remembers_def ahead_def by (auto intro: order_trans)

lemma remembers_notify: "remembers n r s \<Longrightarrow> remembers (largestSignal n sig) (notify r sig) s"
  by (cases sig) (auto simp: remembers_def largestSignal_def NotifyUsageEventsCommitted_def NotifyUsageIdentitiesChanged_def signalWake_def Let_def max_def)

lemma remembers_notifies: "remembers n r s \<Longrightarrow> remembers (foldl largestSignal n sigs) (foldl notify r sigs) s"
  by (induction sigs arbitrary: n r) (simp_all add: remembers_notify)

lemma notify_keeps:
  "activeRound (foldl notify r sigs) = activeRound r" "activeTargetEventID (foldl notify r sigs) = activeTargetEventID r"
  "rollupsReachedTarget (foldl notify r sigs) = rollupsReachedTarget r" "startupTargetLoaded (foldl notify r sigs) = startupTargetLoaded r"
proof -
  have one: "activeRound (notify r sig) = activeRound r \<and> activeTargetEventID (notify r sig) = activeTargetEventID r \<and>
      rollupsReachedTarget (notify r sig) = rollupsReachedTarget r \<and> startupTargetLoaded (notify r sig) = startupTargetLoaded r" for r sig
    by (cases sig) (auto simp: NotifyUsageEventsCommitted_def NotifyUsageIdentitiesChanged_def signalWake_def Let_def)
  show "activeRound (foldl notify r sigs) = activeRound r" "activeTargetEventID (foldl notify r sigs) = activeTargetEventID r"
    "rollupsReachedTarget (foldl notify r sigs) = rollupsReachedTarget r" "startupTargetLoaded (foldl notify r sigs) = startupTargetLoaded r"
    by (induction sigs arbitrary: r) (simp_all add: one)
qed

lemma remembers_freeze: "remembers n r s \<Longrightarrow> startupTargetLoaded r \<Longrightarrow> remembers n (freezePendingTarget r) s"
  by (auto simp: remembers_def freezePendingTarget_def)

lemma remembers_complete: "remembers n r s \<Longrightarrow> remembers n (completeRollupRoundIfReadyLocked r) s"
  by (auto simp: remembers_def completeRollupRoundIfReadyLocked_def intro: order_trans)

lemma remembers_finish:
  assumes "remembers n r s" "reached \<Longrightarrow> \<forall>m \<in> threeNames. target \<le> cursor m s" "startupTargetLoaded r"
  shows "remembers n (finishRollups active target reached r) s"
  unfolding finishRollups_def Let_def
  by (rule remembers_complete) (use assms in \<open>auto simp: remembers_def\<close>)

lemma remembers_same: "checkpoints s' = checkpoints s \<Longrightarrow> remembers n r s' = remembers n r s"
  by (simp add: remembers_def)

lemma remembers_identity:
  "remembers n (finishIdentity g v r) s = remembers n r s" "remembers n (r\<lparr>nextKind := k\<rparr>) s = remembers n r s"
  by (simp_all add: remembers_def finishIdentity_def)

lemma startup_remembers:
  assumes run: "ensureStartupTarget signals r w = (w', r', e)" and w: "sound loc bucket latest pages w" and r: "remembers n r (snd w)"
  shows "sound loc bucket latest pages w' \<and> remembers (foldl largestSignal n signals) r' (snd w')"
proof (cases "startupTargetLoaded r")
  case True
  then show ?thesis using run w remembers_notifies [OF r] by (auto simp: ensureStartupTarget_def)
next
  case False
  obtain w1 out where ld: "access LoadUsageAggregationTargetEventID w = (w1, out)" by fastforce
  have w1: "sound loc bucket latest pages w1" "checkpoints (snd w1) = checkpoints (snd w)"
    using read_sound [OF ld w target_reads] by auto
  have nonneg: "0 \<le> cursor m (snd w1)" for m using rolled_OK [of loc bucket latest pages] w1(1) by (auto simp: sound_def rollOK_def)
  have R: "remembers (foldl largestSignal n signals) (foldl notify r signals) (snd w1)"
    using remembers_notifies [OF r] w1(2) by (simp add: remembers_def)
  show ?thesis
  proof (cases out)
    case (Inl e1)
    then show ?thesis using run ld False w1(1) R by (auto simp: ensureStartupTarget_def)
  next
    case (Inr target)
    have "w' = w1" "r' = (foldl notify r signals)\<lparr>startupTargetLoaded := True, activeRound := True, activeTargetEventID := target,
        rollupsReachedTarget := (target = 0),
        pendingTargetEventID := (if pendingTargetEventID (foldl notify r signals) \<le> target then 0 else pendingTargetEventID (foldl notify r signals))\<rparr>"
      using run ld False Inr by (auto simp: ensureStartupTarget_def Let_def)
    then show ?thesis using R w1(1) nonneg False by (auto simp: remembers_def notify_keeps)
  qed
qed

lemma turn_remembers:
  assumes run: "runPreparedOnce loc bucket older now signals r w = Some (w', r', result, e)" and w: "sound loc bucket latest pages w"
    and r: "remembers n r (snd w)" and now: "now \<le> latest" and loaded: "startupTargetLoaded r"
  shows "\<exists>pages'. sound loc bucket latest pages' w' \<and> remembers (foldl largestSignal n signals) r' (snd w')"
proof -
  let ?r = "foldl notify r signals" and ?n = "foldl largestSignal n signals"
  obtain kind runnable where k: "nextRunnableKindLocked r = (kind, runnable)" by fastforce
  obtain w1 d where d: "deferForInbox w = (w1, d)" by fastforce
  have w1: "sound loc bucket latest pages w1" "checkpoints (snd w1) = checkpoints (snd w)" using deferForInbox_sound [OF d w] by auto
  have R: "remembers ?n ?r (snd w)" "remembers ?n ?r (snd w1)" using remembers_notifies [OF r] w1(2) by (simp_all add: remembers_def)
  show ?thesis
  proof (cases "runnable \<and> d = Inr False")
    case False
    then have "(w' = w \<or> w' = w1) \<and> r' = ?r" using run k d by (cases d) (auto simp: runPreparedOnce_def Let_def split: if_splits bool.splits)
    then show ?thesis using w w1 R by auto
  next
    case True
    show ?thesis
    proof (cases kind)
      case UsageAggregationKindRollups
      then have active: "activeRound r" using k True by (auto simp: nextRunnableKindLocked_def split: if_splits)
      obtain w2 pr df reached er where t: "runRollupsTurn loc bucket (activeRound r) (activeTargetEventID r) now w1 = Some (w2, pr, df, reached, er)"
        using run k d True UsageAggregationKindRollups by (auto simp: runPreparedOnce_def Let_def split: option.splits)
      from rollups_turn [OF t w1(1) now active] have T: "keepsSound loc bucket latest pages w1 w2"
          "honest (activeTargetEventID r) w1 w2 (pr, df, reached, er)" by simp_all
      then have R2: "remembers ?n ?r (snd w2)"
        using remembers_ahead [OF R(2), of "fst w1" "fst w2" "snd w2"] by (simp add: keepsSound_def)
      obtain l where l: "sound loc bucket latest (l @ pages) w2" using T(1) by (auto simp: keepsSound_def)
      have "remembers ?n (finishRollups (activeRound r) (activeTargetEventID r) reached ?r) (snd w2)" if "er = None"
        by (rule remembers_finish [OF R2]) (use T(2) that loaded in \<open>simp_all add: honest_def notify_keeps\<close>)
      then show ?thesis using run k d True UsageAggregationKindRollups t R2 l
        by (cases er) (auto simp: runPreparedOnce_def Let_def)
    next
      case UsageAggregationKindIdentity
      obtain w2 b where b: "access (identityBatch older now (identityAfterID r)) w1 = (w2, b)" by fastforce
      have w2: "sound loc bucket latest pages w2" "checkpoints (snd w2) = checkpoints (snd w1)" using identity_sound [OF b w1(1)] by auto
      have "(w' = w1 \<or> w' = w2) \<and> (r' = ?r \<or> (\<exists>g v. r' = finishIdentity g v ?r) \<or> r' = ?r\<lparr>nextKind := UsageAggregationKindRollups\<rparr>)"
        using run k d True UsageAggregationKindIdentity b by (cases b) (auto simp: runPreparedOnce_def Let_def split: if_splits)
      moreover have "remembers ?n ?r (snd w')" if "w' = w1 \<or> w' = w2" using that R(2) remembers_same [OF w2(2)] by auto
      ultimately have "remembers ?n r' (snd w')" using remembers_identity by metis
      moreover have "sound loc bucket latest pages w'" using w1(1) w2(1) \<open>(w' = w1 \<or> w' = w2) \<and> _\<close> by metis
      ultimately show ?thesis by blast
    qed
  qed
qed

lemma rolled_later: "rolled loc bucket earlier pages s \<Longrightarrow> earlier \<le> latest \<Longrightarrow> rolled loc bucket latest pages s"
  by (rule rolled.clock)

lemma running_invariant: "running loc bucket latest n r s \<Longrightarrow> (\<exists>pages. rolled loc bucket latest pages s) \<and> remembers n r s"
proof (induction rule: running.induct)
  case (start latest pages s)
  then show ?case by (auto simp: remembers_def NewUsageAggregationRunner_def)
next
  case (clock earlier n r s latest)
  then show ?case using rolled_later by blast
next
  case (other latest n r s s')
  then show ?case using other_rolled other_checkpoints remembers_same by metis
next
  case (signalled latest n r s sig)
  then show ?case using remembers_notify by blast
next
  case (woken latest n r s)
  then show ?case by (simp add: remembers_def)
next
  case (startup latest n r s others signals rest s' r' e)
  then obtain pages where "sound loc bucket latest pages (others, s)" by (auto simp: sound_def)
  from startup_remembers [OF startup.hyps(3) this, of n] startup.IH show ?case by (auto simp: sound_def)
next
  case (freeze latest n r s)
  then show ?case using remembers_freeze by blast
next
  case (failed latest n r s kind)
  then show ?case by (cases kind) (auto simp: remembers_def)
next
  case (turn latest n r s others now older signals rest s' r' result e)
  then obtain pages where "sound loc bucket latest pages (others, s)" by (auto simp: sound_def)
  from turn_remembers [OF turn.hyps(5) this, of n] turn.IH turn.hyps(2,4) show ?case by (auto simp: sound_def)
qed

section \<open>What the runner promises\<close>

text \<open>
  C4. The runner loses no notification and never double counts. In every state that it can reach,
  with any interference, failure and order of notifications, the database is one of the reachable
  databases of the rollups, where each event is counted exactly once; and when it has no frozen and
  no pending target, all three checkpoints have passed every event that it was told of.
\<close>

theorem runner_loses_nothing:
  assumes "running loc bucket latest n r s"
  shows "(\<exists>pages. rolled loc bucket latest pages s) \<and>
    (startupTargetLoaded r \<and> \<not> activeRound r \<and> pendingTargetEventID r = 0 \<longrightarrow> n = 0 \<or>
       n \<le> cursor UsageAggregationCheckpointOverview s \<and> n \<le> cursor UsageAggregationCheckpointActivity s \<and>
       n \<le> cursor UsageAggregationCheckpointLatency s)"
  using running_invariant [OF assms] by (auto simp: remembers_def)

text \<open>
  C29. A rollup turn that ends without an error and without giving way to the inbox moves every
  checkpoint that is behind the target, and it reports the target as reached only if all three
  checkpoints have reached it. Whatever it reports, no checkpoint ever moves back.
\<close>

theorem rollup_turn_progress:
  assumes "runRollupsTurn loc bucket True target now (others, s) = Some ((rest, s'), processed, deferred, reached, e)"
    and "rolled loc bucket latest pages s" "\<forall>g \<in> set others. \<forall>s. other_step loc latest s (g s)" "now \<le> latest"
  shows "(\<forall>name. cursor name s \<le> cursor name s') \<and>
    (e = None \<and> \<not> deferred \<longrightarrow> (\<forall>name \<in> threeNames. cursor name s < target \<longrightarrow> cursor name s < cursor name s')) \<and>
    (e = None \<and> reached \<longrightarrow> (\<forall>name \<in> threeNames. target \<le> cursor name s'))"
proof -
  have "sound loc bucket latest pages (others, s)" using assms(2,3) by (simp add: sound_def)
  from rollups_turn [OF assms(1) this assms(4) TrueI] show ?thesis by (auto simp: keepsSound_def ahead_def honest_def)
qed

section \<open>A concrete turn\<close>

text \<open>The one event of the sample messages is rolled up in one turn, from an empty database to its target.\<close>

lemma stored_quiet: "\<not> list_ex processable (inbox (fst (sampleRound [])))"
  by code_simp

lemma sample_latency: "latency_BuildRows Berlin (\<lambda>_. 0) [sampleEvent] 20 = Inr []"
  by code_simp

lemma onceDb_parts: "faults (sync_db onceDb) = []" "map cp_Name (checkpoints onceDb) = [UsageAggregationCheckpointOverview]"
  "\<not> list_ex processable (inbox (sync_db onceDb))"
  by (simp_all add: onceDb_def overview_page_defs exec_faultless storedDb_def sampleDb_def stored_sync stored_quiet)

definition bothDb :: rollup_db where
  "bothDb = fst (ApplyUsageActivityAggregationPage 0 1 sampleActivity 20 onceDb)"

lemma both_applied: "ApplyUsageActivityAggregationPage 0 1 sampleActivity 20 onceDb = (bothDb, None)"
  and bothDb_parts: "faults (sync_db bothDb) = []" "UsageAggregationCheckpointLatency \<notin> cp_Name ` set (checkpoints bothDb)"
  "\<not> list_ex processable (inbox (sync_db bothDb))"
proof -
  obtain cp where cp: "checkpoints onceDb = [cp]" "cp_Name cp = UsageAggregationCheckpointOverview" using onceDb_parts(2) by auto
  note eval = activity_page_defs exec_faultless sampleActivity_def addActivityCounts_def onceDb_parts(1,3) once_state(3) cp
    cp(2) [unfolded checkpoint_names]
  have "snd (ApplyUsageActivityAggregationPage 0 1 sampleActivity 20 onceDb) = None" by (simp add: eval)
  then show "ApplyUsageActivityAggregationPage 0 1 sampleActivity 20 onceDb = (bothDb, None)" by (simp add: bothDb_def prod_eq_iff)
  show "faults (sync_db bothDb) = []" "UsageAggregationCheckpointLatency \<notin> cp_Name ` set (checkpoints bothDb)"
    "\<not> list_ex processable (inbox (sync_db bothDb))" unfolding bothDb_def by (simp_all add: eval)
qed

lemma latency_empty_page:
  assumes "faults (sync_db s) = []" "UsageAggregationCheckpointLatency \<notin> cp_Name ` set (checkpoints s)"
  shows "snd (ApplyUsageLatencyAggregationPage 0 1 [] 20 s) = None"
  using assms by (simp add: ApplyUsageLatencyAggregationPage_def PrepareRows_def WritePreparedRows_def activity_page_defs exec_faultless)
    (force simp: filter_empty_conv image_iff)

definition caughtUpDb :: rollup_db where
  "caughtUpDb = fst (ApplyUsageLatencyAggregationPage 0 1 [] 20 bothDb)"

lemma quiet_access:
  "faults (sync_db s) = [] \<Longrightarrow> \<not> list_ex processable (inbox (sync_db s)) \<Longrightarrow> deferForInbox ([], s) = (([], s), Inr False)"
  by (simp add: deferForInbox_def inboxWaiting_def HasProcessableRedisUsageInbox_def query_def)

lemma stored_page: "LoadUsageAggregationEventPage 0 1 usageAggregationEventPageSize storedDb = (storedDb, Inr [sampleEvent])"
  by (simp add: LoadUsageAggregationEventPage_def pageOf_def select_def exec_faultless storedDb_def stored_sync
        usageAggregationEventPageLimit_def usageAggregationEventPageSize_def) (simp add: sampleEvent_def)

lemma stored_snapshot:
  "LoadUsageAggregationCheckpointSnapshot storedDb = (storedDb, Inr \<lparr>OverviewCursor = 0, ActivityCursor = 0, LatencyCursor = 0\<rparr>)"
  by (simp add: LoadUsageAggregationCheckpointSnapshot_def select_def exec_faultless storedDb_def sampleDb_def stored_sync cursorOf_def)

lemma sample_turn:
  "runRollupsTurn Berlin (\<lambda>_. 0) True 1 20 ([], storedDb) = Some (([], caughtUpDb), True, False, True, None)"
proof -
  have "ApplyUsageLatencyAggregationPage 0 1 [] 20 bothDb = (caughtUpDb, None)"
    using latency_empty_page [OF bothDb_parts(1,2)] by (simp add: caughtUpDb_def prod_eq_iff)
  moreover have "deferForInbox ([], storedDb) = (([], storedDb), Inr False)"
    by (rule quiet_access) (simp_all add: storedDb_def stored_sync stored_quiet)
  ultimately show ?thesis
    by (simp add: runRollupsTurn_def runSharedRollupsPage_def stored_snapshot stored_page snapshot_Equal_def overviewPage_def page_rows
        activityPage_def activity_rows_built latencyPage_def sample_latency applyUnlessInbox_def once_applied both_applied
        quiet_access [OF onceDb_parts(1,3)] quiet_access [OF bothDb_parts(1,3)])
qed

theorem rollup_turn_progress_witness:
  "0 < cursor UsageAggregationCheckpointOverview caughtUpDb \<and> 1 \<le> cursor UsageAggregationCheckpointActivity caughtUpDb \<and>
   1 \<le> cursor UsageAggregationCheckpointLatency caughtUpDb"
proof -
  have "cursor UsageAggregationCheckpointOverview storedDb = 0" by (simp add: storedDb_def sampleDb_def cursorOf_def)
  then show ?thesis using rollup_turn_progress [OF sample_turn stored_rolled] by simp
qed

text \<open>The runner that starts on this database, is told of the event while it loads its target, and takes its first turn.\<close>

definition toldRunner :: UsageAggregationRunner where
  "toldRunner = fst (snd (ensureStartupTarget [EventsCommitted [sampleEvent]] NewUsageAggregationRunner ([], storedDb)))"

lemma told_started:
  "ensureStartupTarget [EventsCommitted [sampleEvent]] NewUsageAggregationRunner ([], storedDb) = (([], storedDb), toldRunner, None)"
  "startupTargetLoaded toldRunner" "activeRound toldRunner" "activeTargetEventID toldRunner = 1" "nextKind toldRunner = UsageAggregationKindRollups"
  "pendingTargetEventID toldRunner = 0"
  by (simp_all add: toldRunner_def ensureStartupTarget_def LoadUsageAggregationTargetEventID_def select_def exec_faultless storedDb_def
      stored_sync NewUsageAggregationRunner_def NotifyUsageEventsCommitted_def maxEventID_def signalWake_def sampleEvent_def)

lemma told_turn:
  "runPreparedOnce Berlin (\<lambda>_. 0) (<) 20 [] toldRunner ([], storedDb) =
     Some (([], caughtUpDb), finishRollups True 1 True toldRunner,
       \<lparr>Kind = UsageAggregationKindRollups, Processed = True, DeferredForInbox = False\<rparr>, None)"
proof -
  have "deferForInbox ([], storedDb) = (([], storedDb), Inr False)"
    by (rule quiet_access) (simp_all add: storedDb_def stored_sync stored_quiet)
  then show ?thesis using told_started(2-) sample_turn by (simp add: runPreparedOnce_def nextRunnableKindLocked_def Let_def)
qed

theorem runner_loses_nothing_witness:
  "let r = finishRollups True 1 True toldRunner in startupTargetLoaded r \<and> \<not> activeRound r \<and> pendingTargetEventID r = 0 \<and>
     1 \<le> cursor UsageAggregationCheckpointOverview caughtUpDb \<and> 1 \<le> cursor UsageAggregationCheckpointLatency caughtUpDb"
proof -
  have "running Berlin (\<lambda>_. 0) 20 0 NewUsageAggregationRunner storedDb" by (rule running.start [OF stored_rolled])
  from running.startup [OF this _ told_started(1)] have "running Berlin (\<lambda>_. 0) 20 1 toldRunner storedDb"
    by (simp add: largestSignal_def maxEventID_def sampleEvent_def)
  then have run: "running Berlin (\<lambda>_. 0) 20 1 (finishRollups True 1 True toldRunner) caughtUpDb"
    using running.turn [of Berlin "\<lambda>_. 0" 20 1 toldRunner storedDb "[]" 20 "(<)" "[]"] told_started(2) told_turn by simp
  have "startupTargetLoaded (finishRollups True 1 True toldRunner) \<and> \<not> activeRound (finishRollups True 1 True toldRunner) \<and>
      pendingTargetEventID (finishRollups True 1 True toldRunner) = 0"
    using told_started(2-) by (simp add: finishRollups_def completeRollupRoundIfReadyLocked_def)
  then show ?thesis using runner_loses_nothing [OF run] by (simp add: Let_def)
qed

end
