(* ===== verification/Rollup_Loop.thy ===== *)
theory Rollup_Loop
  imports Rollup_Turns
begin

text \<open>
  The outer loop of the aggregation runner (\<open>Run\<close> in \<^verbatim>\<open>internal/poller/usage_aggregation_runner.go\<close>).
  A \<open>situation\<close> is what one iteration meets: whether the application stops, whether the one-shot
  window has run out, what others do to the database before each access, the notifications that
  arrive before the iteration, during the turn and while the loop waits, how a wait ends and which ready case a blocking
  \<open>select\<close> takes. A run is driven by a list of situations of any length.
\<close>

section \<open>Situations\<close>

definition usageAggregationInboxRetryInterval :: duration where
  "usageAggregationInboxRetryInterval = 100000000"

datatype waitEnd = WaitCancelled | WaitWoken | WaitTimer

datatype idleEnd = IdleDone | IdleWake | IdleTimer

record situation =
  si_arrivals :: "signal list"
  si_done :: bool
  si_fired :: bool
  si_others :: "(rollup_db \<Rightarrow> rollup_db) list"
  si_now :: gotime
  si_signals :: "signal list"
  si_cancelled :: bool
  si_waitSignals :: "signal list"
  si_wait :: waitEnd
  si_idle :: idleEnd

record aggregationLoop =
  lo_runner :: UsageAggregationRunner
  lo_db :: rollup_db
  errorBackoffs :: "UsageAggregationKind \<Rightarrow> duration"
  debounceTimer :: bool
  lo_waits :: "duration list"
  lo_heard :: "signal list"

text \<open>
  \<open>lo_waits\<close> and \<open>lo_heard\<close> record the waits and the notifications so far; a backoff of zero is a missing
  entry of the map. An iteration goes on, returns, stays blocked, or never ends in a loop of the activity buckets.
\<close>

datatype iteration = GoOn aggregationLoop | Returned aggregationLoop | Blocked aggregationLoop | Hangs

section \<open>Waiting\<close>

text \<open>The runner after the wait, and whether it goes on. A wake-up can only end the wait when there is one.\<close>

definition waitForRetry :: "signal list \<Rightarrow> waitEnd \<Rightarrow> UsageAggregationRunner \<Rightarrow> UsageAggregationRunner \<times> bool" where
  "waitForRetry signals wait r =
     (let r1 = foldl notify r signals in
      case wait of
        WaitCancelled \<Rightarrow> (r1, False)
      | WaitWoken \<Rightarrow> (if wake r1 then r1\<lparr>wake := False\<rparr> else r1, True)
      | WaitTimer \<Rightarrow> (r1, True))"

definition retryAfter :: "duration \<Rightarrow> situation \<Rightarrow> aggregationLoop \<Rightarrow> aggregationLoop \<times> bool" where
  "retryAfter delay si l =
     (case waitForRetry (si_waitSignals si) (si_wait si) (lo_runner l) of
        (r, goes) \<Rightarrow> (l\<lparr>lo_runner := r, lo_waits := lo_waits l @ [delay], lo_heard := lo_heard l @ si_waitSignals si\<rparr>, goes))"

section \<open>The startup loop\<close>

fun startupLoop :: "duration \<Rightarrow> situation list \<Rightarrow> aggregationLoop \<Rightarrow> situation list \<times> iteration" where
  "startupLoop startupBackoff [] l = ([], Blocked l)"
| "startupLoop startupBackoff (si # sis) l =
     (case ensureStartupTarget (si_signals si) (lo_runner l) (si_others si, lo_db l) of
        ((_, s), r, None) \<Rightarrow> (sis, GoOn (l\<lparr>lo_runner := r, lo_db := s, lo_heard := lo_heard l @ si_signals si\<rparr>))
      | ((_, s), r, Some e) \<Rightarrow>
          (let l1 = l\<lparr>lo_runner := r, lo_db := s, lo_heard := lo_heard l @ si_signals si\<rparr> in
           if si_cancelled si then (sis, Returned l1)
           else case retryAfter startupBackoff si l1 of
             (l2, False) \<Rightarrow> (sis, Returned l2)
           | (l2, True) \<Rightarrow> startupLoop (min (startupBackoff * 2) usageAggregationErrorBackoffMax) sis l2))"

section \<open>An iteration\<close>

text \<open>A turn: failures advance to the other kind and back off, a turn that gave way waits shortly.\<close>

definition runTurn ::
  "Location \<Rightarrow> (int \<Rightarrow> int) \<Rightarrow> (gotime \<Rightarrow> gotime \<Rightarrow> bool) \<Rightarrow> situation \<Rightarrow> aggregationLoop \<Rightarrow> iteration" where
  "runTurn loc bucket older si l =
     (case runPreparedOnce loc bucket older (si_now si) (si_signals si) (lo_runner l) (si_others si, lo_db l) of
        None \<Rightarrow> Hangs
      | Some ((_, s), r, result, Some e) \<Rightarrow>
          (let l1 = l\<lparr>lo_runner := r, lo_db := s, lo_heard := lo_heard l @ si_signals si\<rparr>; kind = Kind result in
           if si_cancelled si then Returned l1
           else
             (let backoff = (if errorBackoffs l kind = 0 then usageAggregationErrorBackoffInitial else errorBackoffs l kind) in
              case retryAfter backoff si (l1\<lparr>lo_runner := advanceAfterFailure kind r\<rparr>) of
                (l2, False) \<Rightarrow> Returned l2
              | (l2, True) \<Rightarrow>
                  GoOn (l2\<lparr>errorBackoffs := (errorBackoffs l)(kind := min (backoff * 2) usageAggregationErrorBackoffMax)\<rparr>)))
      | Some ((_, s), r, result, None) \<Rightarrow>
          (let l1 = l\<lparr>lo_runner := r, lo_db := s, errorBackoffs := (errorBackoffs l)(Kind result := 0),
                     lo_heard := lo_heard l @ si_signals si\<rparr> in
           if DeferredForInbox result
           then (case retryAfter usageAggregationInboxRetryInterval si l1 of
                   (l2, False) \<Rightarrow> Returned l2
                 | (l2, True) \<Rightarrow> GoOn l2)
           else GoOn l1))"

text \<open>The two blocking \<open>select\<close> statements, with and without a timer; without anything ready the loop stays blocked.\<close>

definition idleSelect :: "situation \<Rightarrow> aggregationLoop \<Rightarrow> iteration" where
  "idleSelect si l =
     (let r = foldl notify (lo_runner l) (si_waitSignals si); l1 = l\<lparr>lo_runner := r, lo_heard := lo_heard l @ si_waitSignals si\<rparr> in
      if si_idle si = IdleDone then Returned l1
      else if si_idle si = IdleTimer \<and> debounceTimer l
      then GoOn (l1\<lparr>debounceTimer := False, lo_runner := freezePendingTarget r\<rparr>)
      else if wake r then GoOn (l1\<lparr>lo_runner := r\<lparr>wake := False\<rparr>\<rparr>)
      else Blocked l1)"

definition pendingRollupWindow :: "UsageAggregationRunner \<Rightarrow> bool" where
  "pendingRollupWindow r \<longleftrightarrow> pendingTargetEventID r > 0 \<and> (\<not> activeRound r \<or> pendingTargetEventID r > activeTargetEventID r)"

definition loopIteration ::
  "Location \<Rightarrow> (int \<Rightarrow> int) \<Rightarrow> (gotime \<Rightarrow> gotime \<Rightarrow> bool) \<Rightarrow> situation \<Rightarrow> aggregationLoop \<Rightarrow> iteration" where
  "loopIteration loc bucket older si l =
     (if si_done si then Returned l
      else
        (let r = foldl notify (lo_runner l) (si_arrivals si);
             l1 = l\<lparr>lo_runner := r, debounceTimer := (pendingRollupWindow r \<or> debounceTimer l), lo_heard := lo_heard l @ si_arrivals si\<rparr>;
             runnable = hasRunnableWorkLocked r
         in if debounceTimer l1 \<and> si_fired si
            then GoOn (l1\<lparr>debounceTimer := False, lo_runner := freezePendingTarget (lo_runner l1)\<rparr>)
            else if runnable then runTurn loc bucket older si l1
            else idleSelect si l1))"

fun aggregation_loop ::
  "Location \<Rightarrow> (int \<Rightarrow> int) \<Rightarrow> (gotime \<Rightarrow> gotime \<Rightarrow> bool) \<Rightarrow> situation list \<Rightarrow> aggregationLoop \<Rightarrow> iteration" where
  "aggregation_loop loc bucket older [] l = GoOn l"
| "aggregation_loop loc bucket older (si # sis) l =
     (case loopIteration loc bucket older si l of
        GoOn l1 \<Rightarrow> aggregation_loop loc bucket older sis l1
      | out \<Rightarrow> out)"

definition aggregation_Run ::
  "Location \<Rightarrow> (int \<Rightarrow> int) \<Rightarrow> (gotime \<Rightarrow> gotime \<Rightarrow> bool) \<Rightarrow> situation list \<Rightarrow> UsageAggregationRunner \<Rightarrow> rollup_db \<Rightarrow> iteration" where
  "aggregation_Run loc bucket older sis r s =
     (case startupLoop usageAggregationErrorBackoffInitial sis
             \<lparr>lo_runner = r, lo_db = s, errorBackoffs = (\<lambda>_. 0), debounceTimer = False, lo_waits = [],
                lo_heard = []\<rparr> of
        (rest, GoOn l) \<Rightarrow> aggregation_loop loc bucket older rest l
      | (_, out) \<Rightarrow> out)"

section \<open>What the loop keeps\<close>

fun stateOf :: "iteration \<Rightarrow> aggregationLoop option" where
  "stateOf (GoOn l) = Some l"
| "stateOf (Returned l) = Some l"
| "stateOf (Blocked l) = Some l"
| "stateOf Hangs = None"

definition calm :: "Location \<Rightarrow> gotime \<Rightarrow> situation \<Rightarrow> bool" where
  "calm loc latest si \<longleftrightarrow> si_now si \<le> latest \<and> (\<forall>g \<in> set (si_others si). \<forall>s. other_step loc latest s (g s))"

text \<open>The largest event id that the runner has been told of.\<close>

definition heard :: "aggregationLoop \<Rightarrow> int" where
  "heard l = foldl largestSignal 0 (lo_heard l)"

definition backoffOK :: "duration \<Rightarrow> bool" where
  "backoffOK d \<longleftrightarrow> usageAggregationErrorBackoffInitial \<le> d \<and> d \<le> usageAggregationErrorBackoffMax"

text \<open>The state is reachable, and waits and backoffs are within their limits.\<close>

definition loopOK :: "Location \<Rightarrow> (int \<Rightarrow> int) \<Rightarrow> gotime \<Rightarrow> aggregationLoop \<Rightarrow> bool" where
  "loopOK loc bucket latest l \<longleftrightarrow> running loc bucket latest (heard l) (lo_runner l) (lo_db l) \<and>
     (\<forall>d \<in> set (lo_waits l). backoffOK d) \<and> (\<forall>k. errorBackoffs l k = 0 \<or> backoffOK (errorBackoffs l k))"

lemma running_notifies:
  "running loc bucket latest n r s \<Longrightarrow> running loc bucket latest (foldl largestSignal n sigs) (foldl notify r sigs) s"
  by (induction sigs arbitrary: n r) (simp_all add: running.signalled)

lemma heard_append: "lo_heard l' = lo_heard l @ sigs \<Longrightarrow> heard l' = foldl largestSignal (heard l) sigs"
  by (simp add: heard_def)

lemma wait_ok:
  assumes "retryAfter delay si l = (l', goes)" "loopOK loc bucket latest l" "backoffOK delay"
  shows "loopOK loc bucket latest l'" "errorBackoffs l' = errorBackoffs l" "startupTargetLoaded (lo_runner l') = startupTargetLoaded (lo_runner l)"
proof -
  let ?r = "foldl notify (lo_runner l) (si_waitSignals si)"
  have R: "running loc bucket latest (foldl largestSignal (heard l) (si_waitSignals si)) ?r (lo_db l)"
    using running_notifies assms(2) by (simp add: loopOK_def)
  then have W: "running loc bucket latest (foldl largestSignal (heard l) (si_waitSignals si)) (?r\<lparr>wake := False\<rparr>) (lo_db l)" by (rule running.woken)
  from assms(1) have l': "lo_runner l' = ?r \<or> lo_runner l' = ?r\<lparr>wake := False\<rparr>" "lo_db l' = lo_db l" "lo_waits l' = lo_waits l @ [delay]"
    "errorBackoffs l' = errorBackoffs l" "lo_heard l' = lo_heard l @ si_waitSignals si"
    by (auto simp: retryAfter_def waitForRetry_def Let_def split: prod.splits waitEnd.splits if_splits)
  show "loopOK loc bucket latest l'" using R W l' assms(2,3) by (auto simp: loopOK_def heard_append)
  show "errorBackoffs l' = errorBackoffs l" by (fact l')
  show "startupTargetLoaded (lo_runner l') = startupTargetLoaded (lo_runner l)" using l'(1) notify_keeps(4) [of "lo_runner l"] by auto
qed

lemma backoff_next:
  "backoffOK usageAggregationErrorBackoffInitial" "backoffOK usageAggregationInboxRetryInterval"
  "backoffOK d \<Longrightarrow> backoffOK (min (d * 2) usageAggregationErrorBackoffMax)"
  by (auto simp: backoffOK_def usageAggregationErrorBackoffInitial_def usageAggregationErrorBackoffMax_def usageAggregationInboxRetryInterval_def)

lemma startup_ok:
  assumes "startupLoop startupBackoff sis l = (rest, out)" "loopOK loc bucket latest l" "backoffOK startupBackoff" "\<forall>si \<in> set sis. calm loc latest si"
  shows "\<exists>l'. stateOf out = Some l' \<and> loopOK loc bucket latest l' \<and> set rest \<subseteq> set sis \<and> (out = GoOn l' \<longrightarrow> startupTargetLoaded (lo_runner l'))"
  using assms
proof (induction sis arbitrary: startupBackoff l)
  case Nil
  then show ?case by auto
next
  case (Cons si sis)
  obtain w s r e where run: "ensureStartupTarget (si_signals si) (lo_runner l) (si_others si, lo_db l) = ((w, s), r, e)"
    using prod_cases4 by (metis prod.collapse)
  let ?l = "l\<lparr>lo_runner := r, lo_db := s, lo_heard := lo_heard l @ si_signals si\<rparr>"
  have "running loc bucket latest (foldl largestSignal (heard l) (si_signals si)) r s"
    using running.startup [OF _ _ run] Cons.prems(2,4) by (simp add: loopOK_def calm_def)
  then have ok: "loopOK loc bucket latest ?l" using Cons.prems(2) by (simp add: loopOK_def heard_def)
  show ?case
  proof (cases e)
    case None
    have "startupTargetLoaded r" using run None
      by (auto simp: ensureStartupTarget_def Let_def notify_keeps split: if_splits prod.splits sum.splits)
    then show ?thesis using Cons.prems(1) run None ok by auto
  next
    case (Some e')
    obtain l2 goes where w: "retryAfter startupBackoff si ?l = (l2, goes)" by fastforce
    note W = wait_ok [OF w ok Cons.prems(3)]
    show ?thesis
    proof (cases "si_cancelled si \<or> \<not> goes")
      case True
      then show ?thesis using Cons.prems(1) run Some ok w W(1) by (auto simp: Let_def split: if_splits)
    next
      case False
      then have "startupLoop (min (startupBackoff * 2) usageAggregationErrorBackoffMax) sis l2 = (rest, out)"
        using Cons.prems(1) run Some w by (simp add: Let_def)
      from Cons.IH [OF this W(1) backoff_next(3) [OF Cons.prems(3)]] Cons.prems(4) show ?thesis by auto
    qed
  qed
qed

lemma prepared_loaded:
  assumes "runPreparedOnce loc bucket older now signals r w = Some (w', r', result, e)" "startupTargetLoaded r"
  shows "startupTargetLoaded r'"
proof -
  have n: "startupTargetLoaded (foldl notify r signals)" using assms(2) by (simp add: notify_keeps)
  then have "startupTargetLoaded (finishRollups a t reached (foldl notify r signals))" "startupTargetLoaded (finishIdentity g b (foldl notify r signals))"
    for a t reached g b by (simp_all add: finishRollups_def finishIdentity_def completeRollupRoundIfReadyLocked_def Let_def)
  then show ?thesis using assms(1) n
    by (auto simp: runPreparedOnce_def Let_def split: if_splits prod.splits sum.splits option.splits bool.splits UsageAggregationKind.splits)
qed

text \<open>The startup loop can only stay blocked while the target is not loaded.\<close>

lemma startup_blocked:
  "startupLoop startupBackoff sis l = (rest, Blocked l') \<Longrightarrow> \<not> startupTargetLoaded (lo_runner l) \<Longrightarrow> \<not> startupTargetLoaded (lo_runner l')"
proof (induction sis arbitrary: startupBackoff l)
  case (Cons si sis)
  obtain w s r e where run: "ensureStartupTarget (si_signals si) (lo_runner l) (si_others si, lo_db l) = ((w, s), r, e)"
    using prod_cases4 by (metis prod.collapse)
  let ?l = "l\<lparr>lo_runner := r, lo_db := s, lo_heard := lo_heard l @ si_signals si\<rparr>"
  obtain l2 goes where w: "retryAfter startupBackoff si ?l = (l2, goes)" by fastforce
  have go: "e \<noteq> None" "startupLoop (min (startupBackoff * 2) usageAggregationErrorBackoffMax) sis l2 = (rest, Blocked l')"
    using Cons.prems(1) run w by (cases e; cases goes; auto simp: Let_def split: if_splits)+
  have "\<not> startupTargetLoaded r" using run go(1) Cons.prems(2)
    by (auto simp: ensureStartupTarget_def Let_def notify_keeps split: if_splits prod.splits sum.splits)
  then have "\<not> startupTargetLoaded (lo_runner l2)" using w
    by (auto simp: retryAfter_def waitForRetry_def Let_def notify_keeps split: waitEnd.splits if_splits)
  then show ?case using Cons.IH go(2) by blast
qed simp

lemma turn_ok:
  assumes "runTurn loc bucket older si l = out" "stateOf out = Some l'" "loopOK loc bucket latest l" "startupTargetLoaded (lo_runner l)" "calm loc latest si"
  shows "loopOK loc bucket latest l' \<and> out \<noteq> Blocked l' \<and> (out = GoOn l' \<longrightarrow> startupTargetLoaded (lo_runner l'))"
proof -
  obtain w s r result e where run: "runPreparedOnce loc bucket older (si_now si) (si_signals si) (lo_runner l) (si_others si, lo_db l) = Some ((w, s), r, result, e)"
    using assms(1,2) by (cases "runPreparedOnce loc bucket older (si_now si) (si_signals si) (lo_runner l) (si_others si, lo_db l)") (auto simp: runTurn_def)
  have R: "running loc bucket latest (foldl largestSignal (heard l) (si_signals si)) r s"
    using running.turn [OF _ assms(4) _ _ run] assms(3,5) by (simp add: loopOK_def calm_def)
  have loaded: "startupTargetLoaded r" using prepared_loaded [OF run assms(4)] .
  show ?thesis
  proof (cases e)
    case None
    let ?l = "l\<lparr>lo_runner := r, lo_db := s, errorBackoffs := (errorBackoffs l)(Kind result := 0), lo_heard := lo_heard l @ si_signals si\<rparr>"
    have ok: "loopOK loc bucket latest ?l" using R assms(3) by (auto simp: loopOK_def heard_def)
    obtain l2 goes where w: "retryAfter usageAggregationInboxRetryInterval si ?l = (l2, goes)" by fastforce
    show ?thesis using assms(1,2) run None ok wait_ok [OF w ok backoff_next(2)] w loaded
      by (cases goes) (auto simp: runTurn_def Let_def split: if_splits)
  next
    case (Some e')
    define backoff where "backoff = (if errorBackoffs l (Kind result) = 0 then usageAggregationErrorBackoffInitial else errorBackoffs l (Kind result))"
    let ?l = "l\<lparr>lo_runner := r, lo_db := s, lo_heard := lo_heard l @ si_signals si\<rparr>"
    let ?a = "?l\<lparr>lo_runner := advanceAfterFailure (Kind result) r\<rparr>"
    have b: "backoffOK backoff" using assms(3) backoff_next(1) by (auto simp: loopOK_def backoff_def)
    have ok: "loopOK loc bucket latest ?l" "loopOK loc bucket latest ?a" using R assms(3) running.failed by (auto simp: loopOK_def heard_def)
    obtain l2 goes where w: "retryAfter backoff si ?a = (l2, goes)" by fastforce
    note W = wait_ok [OF w ok(2) b]
    have "loopOK loc bucket latest (l2\<lparr>errorBackoffs := (errorBackoffs l)(Kind result := min (backoff * 2) usageAggregationErrorBackoffMax)\<rparr>)"
      using W(1,2) backoff_next(3) [OF b] by (auto simp: loopOK_def heard_def)
    moreover have "startupTargetLoaded (lo_runner l2)" using W(3) loaded by (cases "Kind result") simp_all
    ultimately show ?thesis using assms(1,2) run Some ok(1) w W(1)
      by (cases goes) (auto simp: runTurn_def Let_def backoff_def split: if_splits)
  qed
qed

lemma loopOK_kept:
  assumes "loopOK loc bucket latest l" "running loc bucket latest (foldl largestSignal (heard l) sigs) (lo_runner l') (lo_db l')"
    and "lo_heard l' = lo_heard l @ sigs" "lo_waits l' = lo_waits l" "errorBackoffs l' = errorBackoffs l"
  shows "loopOK loc bucket latest l'"
  using assms by (simp add: loopOK_def heard_def)

lemma idle_ok:
  assumes "idleSelect si l = out" "stateOf out = Some l'" "loopOK loc bucket latest l" "startupTargetLoaded (lo_runner l)"
  shows "loopOK loc bucket latest l' \<and> (out = GoOn l' \<longrightarrow> startupTargetLoaded (lo_runner l'))"
proof -
  let ?r = "foldl notify (lo_runner l) (si_waitSignals si)" and ?n = "foldl largestSignal (heard l) (si_waitSignals si)"
  have R: "running loc bucket latest ?n ?r (lo_db l)" using running_notifies assms(3) by (simp add: loopOK_def)
  have loaded: "startupTargetLoaded ?r" using assms(4) by (simp add: notify_keeps)
  have "running loc bucket latest ?n (freezePendingTarget ?r) (lo_db l)" "running loc bucket latest ?n (?r\<lparr>wake := False\<rparr>) (lo_db l)"
    using running.freeze [OF R loaded] running.woken [OF R] by simp_all
  moreover have "startupTargetLoaded (freezePendingTarget ?r)" using loaded by (simp add: freezePendingTarget_def)
  moreover have "lo_runner l' \<in> {?r, freezePendingTarget ?r, ?r\<lparr>wake := False\<rparr>} \<and> lo_db l' = lo_db l \<and> lo_heard l' = lo_heard l @ si_waitSignals si \<and>
      lo_waits l' = lo_waits l \<and> errorBackoffs l' = errorBackoffs l"
    using assms(1,2) by (auto simp: idleSelect_def Let_def split: if_splits)
  ultimately show ?thesis using loopOK_kept [OF assms(3), of "si_waitSignals si" l'] R loaded by auto
qed

text \<open>The state after the critical section at the head of an iteration.\<close>

definition entered :: "situation \<Rightarrow> aggregationLoop \<Rightarrow> aggregationLoop" where
  "entered si l = (let r = foldl notify (lo_runner l) (si_arrivals si) in
     l\<lparr>lo_runner := r, debounceTimer := (pendingRollupWindow r \<or> debounceTimer l), lo_heard := lo_heard l @ si_arrivals si\<rparr>)"

lemma entered_runner: "lo_runner (entered si l) = foldl notify (lo_runner l) (si_arrivals si)"
  "debounceTimer (entered si l) = (pendingRollupWindow (lo_runner (entered si l)) \<or> debounceTimer l)"
  by (simp_all add: entered_def Let_def)

lemma iteration_cases:
  "loopIteration loc bucket older si l =
     (if si_done si then Returned l
      else if debounceTimer (entered si l) \<and> si_fired si
      then GoOn ((entered si l)\<lparr>debounceTimer := False, lo_runner := freezePendingTarget (lo_runner (entered si l))\<rparr>)
      else if hasRunnableWorkLocked (lo_runner (entered si l)) then runTurn loc bucket older si (entered si l)
      else idleSelect si (entered si l))"
  by (simp add: loopIteration_def entered_def Let_def)

lemma entered_ok:
  assumes "loopOK loc bucket latest l" "startupTargetLoaded (lo_runner l)"
  shows "loopOK loc bucket latest (entered si l)" "startupTargetLoaded (lo_runner (entered si l))"
proof -
  have "running loc bucket latest (foldl largestSignal (heard l) (si_arrivals si)) (foldl notify (lo_runner l) (si_arrivals si)) (lo_db l)"
    using running_notifies assms(1) by (simp add: loopOK_def)
  then show "loopOK loc bucket latest (entered si l)" using assms(1) by (simp add: loopOK_def heard_def entered_def Let_def)
  show "startupTargetLoaded (lo_runner (entered si l))" using assms(2) by (simp add: entered_runner notify_keeps)
qed

lemma frozen_ok:
  assumes "loopOK loc bucket latest l" "startupTargetLoaded (lo_runner l)"
  shows "loopOK loc bucket latest (l\<lparr>debounceTimer := False, lo_runner := freezePendingTarget (lo_runner l)\<rparr>)"
    "startupTargetLoaded (freezePendingTarget (lo_runner l))"
  using assms running.freeze by (auto simp: loopOK_def heard_def freezePendingTarget_def)

lemma iteration_ok:
  assumes "loopIteration loc bucket older si l = out" "stateOf out = Some l'" "loopOK loc bucket latest l" "startupTargetLoaded (lo_runner l)" "calm loc latest si"
  shows "loopOK loc bucket latest l' \<and> (out = GoOn l' \<longrightarrow> startupTargetLoaded (lo_runner l'))"
proof -
  note E = entered_ok [OF assms(3,4), of si]
  show ?thesis
    using assms(1,2,3) frozen_ok [OF E] turn_ok [OF refl _ E assms(5), of older l'] idle_ok [OF refl _ E, of si l']
    by (auto simp: iteration_cases split: if_splits)
qed

section \<open>Blocking\<close>

text \<open>Notifications that leave no wake-up change nothing that the loop waits for.\<close>

lemma silent_signals:
  "\<not> wake (foldl notify r sigs) \<Longrightarrow> \<not> wake r \<and> pendingTargetEventID (foldl notify r sigs) = pendingTargetEventID r"
proof (induction sigs arbitrary: r)
  case (Cons sig sigs)
  have "\<not> wake (notify r sig)" and same: "pendingTargetEventID (foldl notify (notify r sig) sigs) = pendingTargetEventID (notify r sig)"
    using Cons by simp_all
  then have "notify r sig = r"
    by (cases sig) (auto simp: NotifyUsageEventsCommitted_def NotifyUsageIdentitiesChanged_def signalWake_def Let_def split: if_splits)
  then show ?case using same \<open>\<not> wake (notify r sig)\<close> by simp
qed simp

lemma blocked_idle:
  assumes "loopIteration loc bucket older si l = Blocked l'" "\<not> debounceTimer l'"
  shows "\<not> activeRound (lo_runner l') \<and> pendingTargetEventID (lo_runner l') \<le> 0"
proof -
  have not_turn: "runTurn loc bucket older si (entered si l) \<noteq> Blocked l'"
    by (auto simp: runTurn_def Let_def split: option.splits prod.splits if_splits bool.splits)
  have idle: "idleSelect si (entered si l) = Blocked l'" "\<not> hasRunnableWorkLocked (lo_runner (entered si l))"
    using assms(1) not_turn by (auto simp: iteration_cases split: if_splits)
  then have l': "lo_runner l' = foldl notify (lo_runner (entered si l)) (si_waitSignals si)" "\<not> wake (lo_runner l')"
    "debounceTimer l' = debounceTimer (entered si l)"
    by (auto simp: idleSelect_def Let_def split: if_splits)
  then have "\<not> pendingRollupWindow (lo_runner (entered si l))" "pendingTargetEventID (lo_runner l') = pendingTargetEventID (lo_runner (entered si l))"
    using assms(2) silent_signals [of "lo_runner (entered si l)" "si_waitSignals si"] by (simp_all add: entered_runner)
  then show ?thesis using idle(2) l'(1) by (auto simp: pendingRollupWindow_def hasRunnableWorkLocked_def notify_keeps)
qed

lemma loop_ok:
  assumes "aggregation_loop loc bucket older sis l = out" "stateOf out = Some l'" "loopOK loc bucket latest l" "startupTargetLoaded (lo_runner l)"
    "\<forall>si \<in> set sis. calm loc latest si"
  shows "loopOK loc bucket latest l' \<and>
    (out = Blocked l' \<and> \<not> debounceTimer l' \<longrightarrow> \<not> activeRound (lo_runner l') \<and> pendingTargetEventID (lo_runner l') \<le> 0)"
  using assms
proof (induction sis arbitrary: l)
  case Nil
  then show ?case by auto
next
  case (Cons si sis)
  obtain it where it: "loopIteration loc bucket older si l = it" by blast
  have calm: "calm loc latest si" using Cons.prems(5) by simp
  show ?case
  proof (cases it)
    case (GoOn l1)
    have "loopOK loc bucket latest l1 \<and> startupTargetLoaded (lo_runner l1)"
      using iteration_ok [OF it _ Cons.prems(3,4) calm] GoOn by simp
    moreover have "aggregation_loop loc bucket older sis l1 = out" using Cons.prems(1) it GoOn by simp
    ultimately show ?thesis using Cons.IH [of l1] Cons.prems(2,5) by simp
  qed (use Cons.prems it iteration_ok [OF it _ Cons.prems(3,4) calm, of l'] blocked_idle [of loc bucket older si l l'] in auto)
qed

lemma heard_events:
  assumes "EventsCommitted evs \<in> set sigs" "e \<in> set evs"
  shows "ev_ID e \<le> foldl largestSignal n sigs"
proof -
  have "m \<le> foldl (\<lambda>m event. if ev_ID event > m then ev_ID event else m) m evs \<and>
      (\<forall>e \<in> set evs. ev_ID e \<le> foldl (\<lambda>m event. if ev_ID event > m then ev_ID event else m) m evs)" for m evs
    by (induction evs arbitrary: m) (auto intro: order_trans, (meson le_less_linear less_imp_le order_trans)+)
  then have top: "e \<in> set evs \<Longrightarrow> ev_ID e \<le> maxEventID evs" for e evs unfolding maxEventID_def by blast
  have up: "n \<le> foldl largestSignal n sigs" for n sigs
  proof (induction sigs arbitrary: n)
    case (Cons sig sigs)
    have "n \<le> largestSignal n sig" by (simp add: largestSignal_def split: signal.split)
    then show ?case using Cons.IH [of "largestSignal n sig"] by simp
  qed simp
  obtain before after where "sigs = before @ EventsCommitted evs # after" using assms(1) by (meson split_list)
  then show ?thesis using top [OF assms(2)] up [of "max (foldl largestSignal n before) (maxEventID evs)" after] by (simp add: largestSignal_def)
qed

section \<open>What the loop promises\<close>

text \<open>
  C5. The goroutine never sleeps on work. However it is started, notified, disturbed by others and
  hit by failures, every state of its loop has a reachable database, where each event is counted once,
  and every wait is between a tenth of a second and two seconds; and whenever the loop stays blocked
  without a timer, all three checkpoints have passed every event that it was ever told of.
\<close>

theorem aggregation_loop_idle:
  assumes "rolled loc bucket latest pages s" "\<forall>si \<in> set sis. calm loc latest si"
    and "stateOf (aggregation_Run loc bucket older sis NewUsageAggregationRunner s) = Some l"
  shows "(\<exists>pages. rolled loc bucket latest pages (lo_db l)) \<and> (\<forall>d \<in> set (lo_waits l). 100000000 \<le> d \<and> d \<le> 2000000000) \<and>
    (aggregation_Run loc bucket older sis NewUsageAggregationRunner s = Blocked l \<and> startupTargetLoaded (lo_runner l) \<and> \<not> debounceTimer l \<longrightarrow>
      (\<forall>evs e. EventsCommitted evs \<in> set (lo_heard l) \<and> e \<in> set evs \<longrightarrow>
         ev_ID e \<le> cursor UsageAggregationCheckpointOverview (lo_db l) \<and> ev_ID e \<le> cursor UsageAggregationCheckpointActivity (lo_db l) \<and>
         ev_ID e \<le> cursor UsageAggregationCheckpointLatency (lo_db l)))"
proof -
  let ?l = "\<lparr>lo_runner = NewUsageAggregationRunner, lo_db = s, errorBackoffs = (\<lambda>_. 0), debounceTimer = False, lo_waits = [], lo_heard = []\<rparr>"
  let ?out = "aggregation_Run loc bucket older sis NewUsageAggregationRunner s"
  have ok: "loopOK loc bucket latest ?l" using running.start [OF assms(1)] by (simp add: loopOK_def heard_def)
  obtain rest started where st: "startupLoop usageAggregationErrorBackoffInitial sis ?l = (rest, started)" by fastforce
  obtain l1 where l1: "stateOf started = Some l1" "loopOK loc bucket latest l1" "set rest \<subseteq> set sis"
    "started = GoOn l1 \<longrightarrow> startupTargetLoaded (lo_runner l1)"
    using startup_ok [OF st ok backoff_next(1) assms(2)] by blast
  have L: "loopOK loc bucket latest l \<and> (?out = Blocked l \<and> startupTargetLoaded (lo_runner l) \<and> \<not> debounceTimer l \<longrightarrow>
      \<not> activeRound (lo_runner l) \<and> pendingTargetEventID (lo_runner l) \<le> 0)"
  proof (cases "started = GoOn l1")
    case True
    then have "aggregation_loop loc bucket older rest l1 = ?out" using st by (simp add: aggregation_Run_def)
    moreover have "\<forall>si \<in> set rest. calm loc latest si" using assms(2) l1(3) by blast
    ultimately show ?thesis using loop_ok [OF _ assms(3) l1(2)] l1(4) True by blast
  next
    case False
    then have out: "?out = started" using st l1(1) by (cases started) (auto simp: aggregation_Run_def)
    then have "l = l1" using assms(3) l1(1) by simp
    moreover have "started = Blocked l1 \<Longrightarrow> \<not> startupTargetLoaded (lo_runner l1)" using startup_blocked [of usageAggregationErrorBackoffInitial sis ?l rest l1] st by (simp add: NewUsageAggregationRunner_def)
    ultimately show ?thesis using l1(2) out by auto
  qed
  have inv: "(\<exists>pages. rolled loc bucket latest pages (lo_db l)) \<and> remembers (heard l) (lo_runner l) (lo_db l)"
    by (rule running_invariant) (use L in \<open>simp add: loopOK_def\<close>)
  then obtain pages' where "rolled loc bucket latest pages' (lo_db l)" by blast
  from rolled_OK [OF this] have nonneg: "0 \<le> cursor m (lo_db l)" for m by (simp add: rollOK_def)
  have "heard l \<le> cursor m (lo_db l)" if "\<not> activeRound (lo_runner l) \<and> pendingTargetEventID (lo_runner l) \<le> 0" "m \<in> threeNames" for m
    using inv that nonneg [of m] by (auto simp: remembers_def)
  then have "ev_ID e \<le> cursor m (lo_db l)" if "\<not> activeRound (lo_runner l) \<and> pendingTargetEventID (lo_runner l) \<le> 0"
    "EventsCommitted evs \<in> set (lo_heard l)" "e \<in> set evs" "m \<in> threeNames" for evs e m
    using heard_events [OF that(2,3), of 0] that(1,4) by (force simp: heard_def)
  moreover have "\<forall>d \<in> set (lo_waits l). 100000000 \<le> d \<and> d \<le> 2000000000"
    using L by (simp add: loopOK_def backoffOK_def usageAggregationErrorBackoffInitial_def usageAggregationErrorBackoffMax_def)
  ultimately show ?thesis using inv L by (intro conjI) blast+
qed

section \<open>A concrete run\<close>

text \<open>
  The goroutine starts on the database of the sample messages and is told of their event; it rolls the
  event up, scans the credentials, consumes the wake-up and then stays blocked.
\<close>

definition sampleSituation :: "signal list \<Rightarrow> situation" where
  "sampleSituation sigs = \<lparr>si_arrivals = [], si_done = False, si_fired = False, si_others = [], si_now = 20, si_signals = sigs, si_cancelled = False,
     si_waitSignals = [], si_wait = WaitTimer, si_idle = IdleWake\<rparr>"

lemma sampleSituation_parts:
  "si_arrivals (sampleSituation sigs) = []" "\<not> si_done (sampleSituation sigs)" "\<not> si_fired (sampleSituation sigs)" "si_others (sampleSituation sigs) = []"
  "si_now (sampleSituation sigs) = 20" "si_signals (sampleSituation sigs) = sigs" "si_waitSignals (sampleSituation sigs) = []"
  "si_idle (sampleSituation sigs) = IdleWake"
  by (simp_all add: sampleSituation_def)

lemma caughtUpDb_parts: "faults (sync_db caughtUpDb) = []" "usage_identities (sync_db caughtUpDb) = []" "\<not> list_ex processable (inbox (sync_db caughtUpDb))"
proof -
  have once: "usage_identities (sync_db onceDb) = []"
    by (simp add: onceDb_def overview_page_defs exec_faultless storedDb_def sampleDb_def stored_sync)
  obtain cp where cp: "checkpoints onceDb = [cp]" "cp_Name cp = UsageAggregationCheckpointOverview" using onceDb_parts(2) by auto
  have both: "usage_identities (sync_db bothDb) = []"
    by (simp add: bothDb_def activity_page_defs exec_faultless sampleActivity_def addActivityCounts_def onceDb_parts(1) once once_state(3) cp
        cp(2) [unfolded checkpoint_names])
  have none: "filter (\<lambda>cp. cp_Name cp = ''latency'' \<and> cp_Cursor cp = 0) (checkpoints bothDb) = []"
    using bothDb_parts(2) by (force simp: filter_empty_conv checkpoint_names image_iff)
  show "faults (sync_db caughtUpDb) = []" "usage_identities (sync_db caughtUpDb) = []" "\<not> list_ex processable (inbox (sync_db caughtUpDb))"
    using bothDb_parts both none
    by (simp_all add: caughtUpDb_def ApplyUsageLatencyAggregationPage_def PrepareRows_def WritePreparedRows_def activity_page_defs exec_faultless)
qed

definition rolledRunner :: UsageAggregationRunner where
  "rolledRunner = finishRollups True 1 True toldRunner"

definition scannedRunner :: UsageAggregationRunner where
  "scannedRunner = rolledRunner\<lparr>nextKind := UsageAggregationKindRollups, identityAfterID := 0, identityScanGeneration := 2\<rparr>"

lemma rolledRunner_parts:
  "activeRound rolledRunner = False" "pendingTargetEventID rolledRunner = 0" "identityAfterID rolledRunner = 0"
  "identityScanGeneration rolledRunner = 0" "identityTargetGeneration rolledRunner = 2" "wake rolledRunner" "startupTargetLoaded rolledRunner"
  "activeRound scannedRunner = False" "pendingTargetEventID scannedRunner = 0" "identityAfterID scannedRunner = 0"
  "identityScanGeneration scannedRunner = 2" "identityTargetGeneration scannedRunner = 2" "wake scannedRunner" "startupTargetLoaded scannedRunner"
  by (simp_all add: scannedRunner_def rolledRunner_def finishRollups_def completeRollupRoundIfReadyLocked_def toldRunner_def ensureStartupTarget_def
      LoadUsageAggregationTargetEventID_def select_def exec_faultless storedDb_def stored_sync NewUsageAggregationRunner_def
      NotifyUsageEventsCommitted_def maxEventID_def signalWake_def sampleEvent_def)

lemma scanned_turn:
  "runPreparedOnce Berlin (\<lambda>_. 0) (<) 20 [] rolledRunner ([], caughtUpDb) =
     Some (([], caughtUpDb), scannedRunner, \<lparr>Kind = UsageAggregationKindIdentity, Processed = False, DeferredForInbox = False\<rparr>, None)"
proof -
  have "identityBatch (<) 20 0 caughtUpDb = (caughtUpDb, Inr \<lparr>ProcessedIdentities = 0, LastIdentityID = 0, ReachedEnd = True\<rparr>)"
    using caughtUpDb_parts(1,2)
    by (simp add: identityBatch_def AggregateUsageIdentityStatsBatch_def identityBatchBody_def query_def identityPage_def transaction_def)
  then show ?thesis
    using quiet_access [OF caughtUpDb_parts(1,3)] rolledRunner_parts
    by (simp add: runPreparedOnce_def nextRunnableKindLocked_def identityWorkPendingLocked_def Let_def finishIdentity_def scannedRunner_def)
qed

definition loopAt :: "UsageAggregationRunner \<Rightarrow> rollup_db \<Rightarrow> aggregationLoop" where
  "loopAt r s = \<lparr>lo_runner = r, lo_db = s, errorBackoffs = (\<lambda>_. 0), debounceTimer = False, lo_waits = [],
     lo_heard = [EventsCommitted [sampleEvent]]\<rparr>"

lemma sample_iterations:
  "loopIteration Berlin (\<lambda>_. 0) (<) (sampleSituation []) (loopAt toldRunner storedDb) = GoOn (loopAt rolledRunner caughtUpDb)"
  "loopIteration Berlin (\<lambda>_. 0) (<) (sampleSituation []) (loopAt rolledRunner caughtUpDb) = GoOn (loopAt scannedRunner caughtUpDb)"
  "loopIteration Berlin (\<lambda>_. 0) (<) (sampleSituation []) (loopAt scannedRunner caughtUpDb) = GoOn (loopAt (scannedRunner\<lparr>wake := False\<rparr>) caughtUpDb)"
  "loopIteration Berlin (\<lambda>_. 0) (<) (sampleSituation []) (loopAt (scannedRunner\<lparr>wake := False\<rparr>) caughtUpDb) =
     Blocked (loopAt (scannedRunner\<lparr>wake := False\<rparr>) caughtUpDb)"
  using told_started(2-) told_turn scanned_turn
  by (simp_all add: loopIteration_def runTurn_def idleSelect_def sampleSituation_parts loopAt_def pendingRollupWindow_def hasRunnableWorkLocked_def
      identityWorkPendingLocked_def rolledRunner_parts Let_def rolledRunner_def [symmetric] fun_upd_idem)

lemma sample_run:
  "aggregation_Run Berlin (\<lambda>_. 0) (<)
     [sampleSituation [EventsCommitted [sampleEvent]], sampleSituation [], sampleSituation [], sampleSituation [], sampleSituation []]
     NewUsageAggregationRunner storedDb = Blocked (loopAt (scannedRunner\<lparr>wake := False\<rparr>) caughtUpDb)"
  using told_started(1) sample_iterations by (simp add: aggregation_Run_def sampleSituation_parts loopAt_def)

theorem aggregation_loop_idle_witness:
  "lo_heard (loopAt (scannedRunner\<lparr>wake := False\<rparr>) caughtUpDb) = [EventsCommitted [sampleEvent]] \<and> ev_ID sampleEvent = 1 \<and>
   1 \<le> cursor UsageAggregationCheckpointOverview caughtUpDb \<and> 1 \<le> cursor UsageAggregationCheckpointLatency caughtUpDb"
proof -
  have "\<forall>si \<in> set [sampleSituation [EventsCommitted [sampleEvent]], sampleSituation [], sampleSituation [], sampleSituation [], sampleSituation []].
      calm Berlin 20 si" by (simp add: calm_def sampleSituation_parts)
  from aggregation_loop_idle [OF stored_rolled this, of "\<lambda>_. 0" "(<)"] sample_run rolledRunner_parts(14)
  show ?thesis by (simp add: loopAt_def) (simp add: sampleEvent_def)
qed

end
