(* ===== verification/Recent_Cache.thy ===== *)
theory Recent_Cache
  imports Usage_Sync Rollup_Rows "HOL-Library.AList"
begin

text \<open>
  The memory of recent events: \<^verbatim>\<open>internal/repository/usage_recent_event_cache.go\<close> and
  \<^verbatim>\<open>usage_credential_health_cache.go\<close>. A window of projected events shares its strings through a pool
  with reference counts, and ten minute buckets count successes and failures of each credential. New
  events come through a bounded queue that never blocks the sender and is emptied by one worker.

  \<open>NormalizeStorageTime\<close> keeps the instant, so it does not show. Pointers that are cloned so that two
  goroutines do not share them are values here. \<open>older\<close> is the order of the stored time texts. The two
  success rates of a snapshot are floating point quotients of the counts in it and are left out.
\<close>

section \<open>usage\_recent\_event\_cache.go: data\<close>

definition usageRecentEventCacheDefaultWindow :: duration where
  "usageRecentEventCacheDefaultWindow = 70 * Minute"

definition usageRecentEventCacheDefaultQueueSize :: int where
  "usageRecentEventCacheDefaultQueueSize = 100"

datatype RecentUsageIdentityKind = RecentUsageIdentityUnknown | RecentUsageIdentityAuthFile | RecentUsageIdentityAIProvider

record RecentUsageEvent =
  re_Timestamp :: gotime
  re_APIGroupKey :: string
  re_Model :: string
  re_ModelAlias :: string
  re_AuthIndex :: string
  re_ServiceTier :: string
  re_ResponseServiceTier :: string
  re_ReasoningEffort :: string
  re_Endpoint :: string
  re_ExecutorType :: string
  re_IdentityFallbackKind :: RecentUsageIdentityKind
  re_IdentityFallbackLabel :: string
  re_Failed :: bool
  re_Generate :: bool
  re_LatencyMS :: int
  re_TTFTMS :: "int option"
  re_InputTokens :: int
  re_OutputTokens :: int
  re_ReasoningTokens :: int
  re_CachedTokens :: int
  re_CacheReadTokens :: int
  re_CacheCreationTokens :: int
  re_TotalTokens :: int

record recentUsageEventLoadRow =
  rr_APIGroupKey :: string
  rr_Provider :: string
  rr_AuthType :: string
  rr_Model :: string
  rr_ModelAlias :: string
  rr_Timestamp :: gotime
  rr_Source :: string
  rr_AuthIndex :: string
  rr_ServiceTier :: string
  rr_ResponseServiceTier :: string
  rr_ReasoningEffort :: string
  rr_Endpoint :: string
  rr_ExecutorType :: string
  rr_Failed :: bool
  rr_Generate :: bool
  rr_LatencyMS :: int
  rr_TTFTMS :: "int option"
  rr_InputTokens :: int
  rr_OutputTokens :: int
  rr_ReasoningTokens :: int
  rr_CachedTokens :: int
  rr_CacheReadTokens :: int
  rr_CacheCreationTokens :: int
  rr_TotalTokens :: int

section \<open>The string pool\<close>

text \<open>A pool maps a string to the count of its references; the interned copy has the same bytes.\<close>

type_synonym recentUsageStringPool = "string \<Rightarrow> int option"

definition pool_intern :: "recentUsageStringPool \<Rightarrow> string \<Rightarrow> recentUsageStringPool" where
  "pool_intern p v =
     (if v = [] then p
      else case p v of
        Some refs \<Rightarrow> p(v \<mapsto> refs + 1)
      | None \<Rightarrow> p(v \<mapsto> 1))"

definition pool_release :: "recentUsageStringPool \<Rightarrow> string \<Rightarrow> recentUsageStringPool" where
  "pool_release p v =
     (if v = [] then p
      else case p v of
        None \<Rightarrow> p
      | Some refs \<Rightarrow> if refs - 1 \<le> 0 then p(v := None) else p(v \<mapsto> refs - 1))"

section \<open>usage\_credential\_health\_cache.go: data\<close>

definition credentialHealthWindow :: duration where
  "credentialHealthWindow = 5 * Hour"

definition credentialHealthBucketSpan :: duration where
  "credentialHealthBucketSpan = 10 * Minute"

definition credentialHealthStartupBatchSize :: nat where
  "credentialHealthStartupBatchSize = 10000"

record credentialHealthKey =
  hk_authType :: string
  hk_authIndex :: string

record credentialHealthBucketCounts =
  hb_success :: int
  hb_failure :: int
  hb_inputTokens :: int
  hb_cacheReadTokens :: int

record credentialHealthCache =
  bucketsByCredential :: "(credentialHealthKey \<times> (int \<times> credentialHealthBucketCounts) list) list"
  lastFullPruneUnix :: int

record credentialHealthLoadRow =
  hr_AuthType :: string
  hr_AuthIndex :: string
  hr_Timestamp :: gotime
  hr_Failed :: bool
  hr_InputTokens :: int
  hr_CacheReadTokens :: int

record CredentialHealthBucket =
  hs_StartTime :: gotime
  hs_EndTime :: gotime
  hs_Success :: int
  hs_Failure :: int

record CredentialHealthSnapshot =
  hs_WindowSeconds :: int
  hs_BucketSeconds :: int
  hs_WindowStart :: gotime
  hs_WindowEnd :: gotime
  hs_TotalSuccess :: int
  hs_TotalFailure :: int
  hs_InputTokens :: int
  hs_CacheReadTokens :: int
  hs_Buckets :: "CredentialHealthBucket list"

text \<open>The cache; the worker is idle, has taken a batch, or has given its slot back.\<close>

datatype cacheWorker = WorkerIdle | WorkerTaken "UsageEvent list" | WorkerReleased "UsageEvent list" | WorkerExited

record UsageRecentEventCache =
  cached :: "RecentUsageEvent list"
  stringPool :: recentUsageStringPool
  credentialHealth :: credentialHealthCache
  cacheWindow :: duration
  appendCh :: "UsageEvent list list"
  appendSlots :: int
  queueSize :: int
  stopped :: bool
  worker :: cacheWorker

section \<open>Projection\<close>

definition usageEventGenerateEnabled :: "bool option \<Rightarrow> bool" where
  "usageEventGenerateEnabled generate \<longleftrightarrow> generate = None \<or> generate = Some True"

definition recentRow :: "UsageEvent \<Rightarrow> recentUsageEventLoadRow" where
  "recentRow event =
     \<lparr>rr_APIGroupKey = APIGroupKey event, rr_Provider = ev_Provider event, rr_AuthType = AuthType event,
      rr_Model = Model event, rr_ModelAlias = (case ModelAlias event of None \<Rightarrow> [] | Some modelAlias \<Rightarrow> modelAlias),
      rr_Timestamp = Timestamp event, rr_Source = ev_Source event, rr_AuthIndex = AuthIndex event,
      rr_ServiceTier = ServiceTier event, rr_ResponseServiceTier = ResponseServiceTier event,
      rr_ReasoningEffort = ReasoningEffort event, rr_Endpoint = Endpoint event, rr_ExecutorType = ev_ExecutorType event,
      rr_Failed = ev_Failed event, rr_Generate = usageEventGenerateEnabled (Generate event),
      rr_LatencyMS = UsageEvent.LatencyMS event, rr_TTFTMS = UsageEvent.TTFTMS event, rr_InputTokens = ev_InputTokens event,
      rr_OutputTokens = ev_OutputTokens event, rr_ReasoningTokens = ev_ReasoningTokens event,
      rr_CachedTokens = ev_CachedTokens event, rr_CacheReadTokens = ev_CacheReadTokens event,
      rr_CacheCreationTokens = ev_CacheCreationTokens event, rr_TotalTokens = ev_TotalTokens event\<rparr>"

definition normalizeRecentUsageAuthType :: "string \<Rightarrow> string" where
  "normalizeRecentUsageAuthType v =
     (let t = ToLower (TrimSpace v) in
      if t = ''oauth'' then ''oauth''
      else if t = ''apikey'' \<or> t = ''api_key'' then ''apikey''
      else [])"

definition usageRecentIdentityFallback :: "string \<Rightarrow> string \<Rightarrow> string \<Rightarrow> RecentUsageIdentityKind \<times> string" where
  "usageRecentIdentityFallback authType source provider =
     (let t = normalizeRecentUsageAuthType authType in
      if t = ''oauth'' then (RecentUsageIdentityAuthFile, TrimSpace source)
      else if t = ''apikey'' then (RecentUsageIdentityAIProvider, TrimSpace provider)
      else (RecentUsageIdentityUnknown, []))"

definition recentEvent :: "recentUsageEventLoadRow \<Rightarrow> RecentUsageEvent" where
  "recentEvent row =
     (case usageRecentIdentityFallback (rr_AuthType row) (rr_Source row) (rr_Provider row) of
        (identityKind, fallbackLabel) \<Rightarrow>
          \<lparr>re_Timestamp = rr_Timestamp row, re_APIGroupKey = TrimSpace (rr_APIGroupKey row), re_Model = TrimSpace (rr_Model row),
           re_ModelAlias = TrimSpace (rr_ModelAlias row), re_AuthIndex = TrimSpace (rr_AuthIndex row),
           re_ServiceTier = TrimSpace (rr_ServiceTier row), re_ResponseServiceTier = TrimSpace (rr_ResponseServiceTier row),
           re_ReasoningEffort = TrimSpace (rr_ReasoningEffort row), re_Endpoint = TrimSpace (rr_Endpoint row),
           re_ExecutorType = TrimSpace (rr_ExecutorType row), re_IdentityFallbackKind = identityKind,
           re_IdentityFallbackLabel = fallbackLabel, re_Failed = rr_Failed row, re_Generate = rr_Generate row,
           re_LatencyMS = rr_LatencyMS row, re_TTFTMS = rr_TTFTMS row, re_InputTokens = rr_InputTokens row,
           re_OutputTokens = rr_OutputTokens row, re_ReasoningTokens = rr_ReasoningTokens row,
           re_CachedTokens = rr_CachedTokens row, re_CacheReadTokens = rr_CacheReadTokens row,
           re_CacheCreationTokens = rr_CacheCreationTokens row, re_TotalTokens = rr_TotalTokens row\<rparr>)"

text \<open>The event with its ten strings interned one after the other.\<close>

definition recentEventFromRowLocked :: "recentUsageEventLoadRow \<Rightarrow> recentUsageStringPool \<Rightarrow> RecentUsageEvent \<times> recentUsageStringPool" where
  "recentEventFromRowLocked row p =
     (let event = recentEvent row in
      (event, foldl pool_intern p
        [re_APIGroupKey event, re_Model event, re_ModelAlias event, re_AuthIndex event, re_ServiceTier event,
         re_ResponseServiceTier event, re_ReasoningEffort event, re_Endpoint event, re_ExecutorType event,
         re_IdentityFallbackLabel event]))"

definition releaseEventStringsLocked :: "RecentUsageEvent \<Rightarrow> recentUsageStringPool \<Rightarrow> recentUsageStringPool" where
  "releaseEventStringsLocked event p =
     foldl pool_release p
       [re_APIGroupKey event, re_Model event, re_ModelAlias event, re_AuthIndex event, re_ServiceTier event,
        re_ResponseServiceTier event, re_ReasoningEffort event, re_Endpoint event, re_ExecutorType event,
        re_IdentityFallbackLabel event]"

fun appendRecentEventsLocked :: "recentUsageEventLoadRow list \<Rightarrow> UsageRecentEventCache \<Rightarrow> UsageRecentEventCache" where
  "appendRecentEventsLocked [] c = c"
| "appendRecentEventsLocked (row # rows) c =
     (case recentEventFromRowLocked row (stringPool c) of
        (event, p) \<Rightarrow> appendRecentEventsLocked rows (c\<lparr>cached := cached c @ [event], stringPool := p\<rparr>))"

fun pruneLoop :: "gotime \<Rightarrow> RecentUsageEvent list \<Rightarrow> RecentUsageEvent list \<Rightarrow> recentUsageStringPool
   \<Rightarrow> RecentUsageEvent list \<times> recentUsageStringPool" where
  "pruneLoop cutoff [] kept p = (kept, p)"
| "pruneLoop cutoff (event # evs) kept p =
     (if re_Timestamp event < cutoff then pruneLoop cutoff evs kept (releaseEventStringsLocked event p)
      else pruneLoop cutoff evs (kept @ [event]) p)"

definition pruneLocked :: "gotime \<Rightarrow> UsageRecentEventCache \<Rightarrow> UsageRecentEventCache" where
  "pruneLocked now c =
     (case pruneLoop (t_add now (- cacheWindow c)) (cached c) [] (stringPool c) of
        (kept, p) \<Rightarrow> c\<lparr>cached := kept, stringPool := p\<rparr>)"

definition recentUsageEventToEntity :: "RecentUsageEvent \<Rightarrow> UsageEvent" where
  "recentUsageEventToEntity event =
     \<lparr>ev_ID = 0, EventKey = [], APIGroupKey = re_APIGroupKey event, ev_Provider = [], Endpoint = re_Endpoint event,
      AuthType = [], RequestID = [], SessionID = [], ParentSessionID = None, ClientIP = None, XForwardedFor = None,
      UserAgent = None, Model = re_Model event,
      ModelAlias = (if TrimSpace (re_ModelAlias event) \<noteq> [] then Some (TrimSpace (re_ModelAlias event)) else None),
      ResponseModel = [], ReasoningEffort = re_ReasoningEffort event, ServiceTier = re_ServiceTier event,
      ResponseServiceTier = re_ResponseServiceTier event, ev_ExecutorType = re_ExecutorType event,
      Timestamp = re_Timestamp event, ev_Source = [], AuthIndex = re_AuthIndex event, ev_Failed = re_Failed event,
      StatusCode = None, Generate = Some (re_Generate event), ev_Stream = None, LatencyMS = re_LatencyMS event,
      TTFTMS = re_TTFTMS event, ev_InputTokens = re_InputTokens event, ev_OutputTokens = re_OutputTokens event,
      ev_ReasoningTokens = re_ReasoningTokens event, ev_CachedTokens = re_CachedTokens event,
      ev_CacheReadTokens = re_CacheReadTokens event, ev_CacheReadPresent = False,
      ev_CacheCreationTokens = re_CacheCreationTokens event, ev_TotalTokens = re_TotalTokens event\<rparr>"

section \<open>usage\_credential\_health\_cache.go: operations\<close>

text \<open>\<open>Truncate\<close> rounds the time since the zero time down to a multiple of the duration.\<close>

definition t_truncate :: "gotime \<Rightarrow> duration \<Rightarrow> gotime" where
  "t_truncate t d = t - t mod d"

definition newCredentialHealthKey :: "string \<Rightarrow> string \<Rightarrow> credentialHealthKey \<times> bool" where
  "newCredentialHealthKey authType authIndex =
     (\<lparr>hk_authType = authType, hk_authIndex = authIndex\<rparr>, authType \<noteq> [] \<and> authIndex \<noteq> [])"

definition credentialHealthBucketUnix :: "gotime \<Rightarrow> int" where
  "credentialHealthBucketUnix timestamp = t_unix (t_truncate timestamp credentialHealthBucketSpan)"

definition credentialHealthWindowEnd :: "gotime \<Rightarrow> gotime" where
  "credentialHealthWindowEnd now = t_add (t_truncate now credentialHealthBucketSpan) credentialHealthBucketSpan"

definition credentialHealthWindowStart :: "gotime \<Rightarrow> gotime" where
  "credentialHealthWindowStart now = t_add (credentialHealthWindowEnd now) (- credentialHealthWindow)"

definition saturatingAddCredentialHealthTokens :: "int \<Rightarrow> int \<Rightarrow> int" where
  "saturatingAddCredentialHealthTokens acc v =
     (if v \<le> 0 then acc
      else if acc > MaxInt64 - v then MaxInt64
      else acc + v)"

definition credentialHealthRowsFromUsageEvents :: "UsageEvent list \<Rightarrow> credentialHealthLoadRow list" where
  "credentialHealthRowsFromUsageEvents evs =
     map (\<lambda>event. \<lparr>hr_AuthType = AuthType event, hr_AuthIndex = AuthIndex event, hr_Timestamp = Timestamp event,
                    hr_Failed = ev_Failed event, hr_InputTokens = ev_InputTokens event,
                    hr_CacheReadTokens = ev_CacheReadTokens event\<rparr>) evs"

text \<open>A missing entry of a Go map reads as the zero value.\<close>

definition zeroCounts :: credentialHealthBucketCounts where
  "zeroCounts = \<lparr>hb_success = 0, hb_failure = 0, hb_inputTokens = 0, hb_cacheReadTokens = 0\<rparr>"

definition bucketsOf :: "credentialHealthKey \<Rightarrow> credentialHealthCache \<Rightarrow> (int \<times> credentialHealthBucketCounts) list" where
  "bucketsOf key h = (case map_of (bucketsByCredential h) key of None \<Rightarrow> [] | Some buckets \<Rightarrow> buckets)"

definition countsAt :: "int \<Rightarrow> (int \<times> credentialHealthBucketCounts) list \<Rightarrow> credentialHealthBucketCounts" where
  "countsAt bucketUnix buckets = (case map_of buckets bucketUnix of None \<Rightarrow> zeroCounts | Some counts \<Rightarrow> counts)"

definition addHealthRow :: "credentialHealthLoadRow \<Rightarrow> credentialHealthBucketCounts \<Rightarrow> credentialHealthBucketCounts" where
  "addHealthRow row counts =
     (let counted = (if hr_Failed row then counts\<lparr>hb_failure := i64 (hb_failure counts + 1)\<rparr>
                     else counts\<lparr>hb_success := i64 (hb_success counts + 1)\<rparr>)
      in counted\<lparr>hb_inputTokens := saturatingAddCredentialHealthTokens (hb_inputTokens counted) (max (hr_InputTokens row) 0),
                 hb_cacheReadTokens := saturatingAddCredentialHealthTokens (hb_cacheReadTokens counted) (max (hr_CacheReadTokens row) 0)\<rparr>)"

fun appendHealthLoop ::
  "credentialHealthLoadRow list \<Rightarrow> credentialHealthKey list \<Rightarrow> credentialHealthCache \<Rightarrow> credentialHealthCache \<times> credentialHealthKey list" where
  "appendHealthLoop [] touched h = (h, touched)"
| "appendHealthLoop (row # rows) touched h =
     (case newCredentialHealthKey (hr_AuthType row) (hr_AuthIndex row) of
        (key, False) \<Rightarrow> appendHealthLoop rows touched h
      | (key, True) \<Rightarrow>
          (let bucketUnix = credentialHealthBucketUnix (hr_Timestamp row);
               buckets = bucketsOf key h;
               counts = addHealthRow row (countsAt bucketUnix buckets)
           in appendHealthLoop rows (List.insert key touched)
                (h\<lparr>bucketsByCredential := AList.update key (AList.update bucketUnix counts buckets) (bucketsByCredential h)\<rparr>)))"

definition appendCredentialHealthRowsLocked ::
  "credentialHealthLoadRow list \<Rightarrow> UsageRecentEventCache \<Rightarrow> UsageRecentEventCache \<times> credentialHealthKey list" where
  "appendCredentialHealthRowsLocked rows c =
     (case appendHealthLoop rows [] (credentialHealth c) of (h, touched) \<Rightarrow> (c\<lparr>credentialHealth := h\<rparr>, touched))"

definition pruneCredentialHealthKeyLocked :: "int \<Rightarrow> credentialHealthKey \<Rightarrow> credentialHealthCache \<Rightarrow> credentialHealthCache" where
  "pruneCredentialHealthKeyLocked cutoff key h =
     (let buckets = filter (\<lambda>(bucketUnix, _). \<not> bucketUnix < cutoff) (bucketsOf key h) in
      if buckets = [] then h\<lparr>bucketsByCredential := AList.delete key (bucketsByCredential h)\<rparr>
      else h\<lparr>bucketsByCredential := AList.update key buckets (bucketsByCredential h)\<rparr>)"

definition shouldFullPruneCredentialHealthLocked :: "int \<Rightarrow> credentialHealthCache \<Rightarrow> bool" where
  "shouldFullPruneCredentialHealthLocked fullPruneUnix h \<longleftrightarrow>
     lastFullPruneUnix h = 0 \<or> fullPruneUnix - lastFullPruneUnix h \<ge> credentialHealthBucketSpan div Second"

text \<open>\<open>touched\<close> is \<open>None\<close> for the nil map of the startup.\<close>

definition pruneCredentialHealthLocked ::
  "gotime \<Rightarrow> credentialHealthKey list option \<Rightarrow> credentialHealthCache \<Rightarrow> credentialHealthCache" where
  "pruneCredentialHealthLocked now touched h =
     (let fullPruneUnix = t_unix (credentialHealthWindowEnd now) in
      if bucketsByCredential h = [] then h\<lparr>lastFullPruneUnix := fullPruneUnix\<rparr>
      else
        (let cutoff = t_unix (credentialHealthWindowStart now) in
         case (touched, shouldFullPruneCredentialHealthLocked fullPruneUnix h) of
           (Some keys, False) \<Rightarrow> fold (pruneCredentialHealthKeyLocked cutoff) keys h
         | _ \<Rightarrow> (fold (pruneCredentialHealthKeyLocked cutoff) (map fst (bucketsByCredential h)) h)\<lparr>lastFullPruneUnix := fullPruneUnix\<rparr>))"

text \<open>The loop over the buckets of the window; totals and buckets so far are its state.\<close>

function snapshotLoop ::
  "(int \<times> credentialHealthBucketCounts) list \<Rightarrow> gotime \<Rightarrow> gotime \<Rightarrow> CredentialHealthSnapshot \<Rightarrow> CredentialHealthSnapshot" where
  "snapshotLoop countsByUnix bucketStart windowEnd snap =
     (if \<not> bucketStart < windowEnd then snap
      else
        (let counts = countsAt (t_unix bucketStart) countsByUnix;
             bucketEnd = t_add bucketStart credentialHealthBucketSpan
         in snapshotLoop countsByUnix bucketEnd windowEnd
              (snap\<lparr>hs_Buckets := hs_Buckets snap @ [\<lparr>hs_StartTime = bucketStart, hs_EndTime = bucketEnd,
                                                      hs_Success = hb_success counts, hs_Failure = hb_failure counts\<rparr>],
                    hs_TotalSuccess := i64 (hs_TotalSuccess snap + hb_success counts),
                    hs_TotalFailure := i64 (hs_TotalFailure snap + hb_failure counts),
                    hs_InputTokens := saturatingAddCredentialHealthTokens (hs_InputTokens snap) (hb_inputTokens counts),
                    hs_CacheReadTokens := saturatingAddCredentialHealthTokens (hs_CacheReadTokens snap) (hb_cacheReadTokens counts)\<rparr>)))"
  by pat_completeness auto
termination
  by (relation "measure (\<lambda>(_, bucketStart, windowEnd, _). nat (windowEnd - bucketStart))")
     (auto simp: t_add_def credentialHealthBucketSpan_def Minute_def)

declare snapshotLoop.simps [simp del]

definition buildCredentialHealthSnapshot :: "(int \<times> credentialHealthBucketCounts) list \<Rightarrow> gotime \<Rightarrow> CredentialHealthSnapshot" where
  "buildCredentialHealthSnapshot countsByUnix now =
     (let windowEnd = credentialHealthWindowEnd now;
          windowStart = t_add windowEnd (- credentialHealthWindow)
      in snapshotLoop countsByUnix windowStart windowEnd
           \<lparr>hs_WindowSeconds = credentialHealthWindow div Second, hs_BucketSeconds = credentialHealthBucketSpan div Second,
            hs_WindowStart = windowStart, hs_WindowEnd = windowEnd, hs_TotalSuccess = 0, hs_TotalFailure = 0,
            hs_InputTokens = 0, hs_CacheReadTokens = 0, hs_Buckets = []\<rparr>)"

definition EmptyCredentialHealthSnapshot :: "gotime \<Rightarrow> CredentialHealthSnapshot" where
  "EmptyCredentialHealthSnapshot now = buildCredentialHealthSnapshot [] now"

definition CredentialHealth :: "string \<Rightarrow> string \<Rightarrow> gotime \<Rightarrow> UsageRecentEventCache option \<Rightarrow> CredentialHealthSnapshot option" where
  "CredentialHealth authType authIndex now cache =
     (case cache of
        None \<Rightarrow> None
      | Some c \<Rightarrow>
          (case newCredentialHealthKey authType authIndex of
             (key, False) \<Rightarrow> Some (buildCredentialHealthSnapshot [] now)
           | (key, True) \<Rightarrow> Some (buildCredentialHealthSnapshot (bucketsOf key (credentialHealth c)) now)))"

section \<open>Loading at startup\<close>

text \<open>\<open>ORDER BY timestamp\<close> by the stored texts, and then by id (the second query says so, the first leaves it open).\<close>

definition loadOrder :: "(gotime \<Rightarrow> gotime \<Rightarrow> bool) \<Rightarrow> UsageEvent \<Rightarrow> UsageEvent \<Rightarrow> bool" where
  "loadOrder older l r \<longleftrightarrow>
     older (Timestamp l) (Timestamp r) \<or> (\<not> older (Timestamp r) (Timestamp l) \<and> ev_ID l < ev_ID r)"

definition eventsFrom :: "(gotime \<Rightarrow> gotime \<Rightarrow> bool) \<Rightarrow> gotime \<Rightarrow> db \<Rightarrow> UsageEvent list" where
  "eventsFrom older start t = sortSlice (loadOrder older) (filter (\<lambda>e. \<not> older (Timestamp e) start) (usage_events t))"

definition loadUsageRecentEventCacheRows ::
  "(gotime \<Rightarrow> gotime \<Rightarrow> bool) \<Rightarrow> gotime \<Rightarrow> db \<Rightarrow> db \<times> (string + recentUsageEventLoadRow list)" where
  "loadUsageRecentEventCacheRows older start t =
     (case query (\<lambda>t. map recentRow (eventsFrom older start t)) t of
        (t', Inl e) \<Rightarrow> (t', Inl (''load usage recent event cache rows: '' @ e))
      | (t', Inr rows) \<Rightarrow> (t', Inr rows))"

text \<open>
  The rows are scanned one by one and handed over in batches; each scan, and the end of the
  iteration, can fail. \<open>handle\<close> is what the callback does to the cache; the one the code passes has no error.
\<close>

fun scanHealthRows ::
  "nat \<Rightarrow> (credentialHealthLoadRow list \<Rightarrow> 'c \<Rightarrow> 'c) \<Rightarrow> credentialHealthLoadRow list \<Rightarrow> credentialHealthLoadRow list \<Rightarrow> db \<Rightarrow> 'c
   \<Rightarrow> db \<times> 'c \<times> string option" where
  "scanHealthRows batchSize handle [] batch t c =
     (case query (\<lambda>_. ()) t of
        (t', Inl e) \<Rightarrow> (t', c, Some (''iterate credential health cache rows: '' @ e))
      | (t', Inr _) \<Rightarrow> (t', if batch = [] then c else handle batch c, None))"
| "scanHealthRows batchSize handle (row # rows) batch t c =
     (case query (\<lambda>_. ()) t of
        (t', Inl e) \<Rightarrow> (t', c, Some (''scan credential health cache row: '' @ e))
      | (t', Inr _) \<Rightarrow>
          (let batch' = batch @ [row] in
           if length batch' < batchSize then scanHealthRows batchSize handle rows batch' t' c
           else scanHealthRows batchSize handle rows [] t' (handle batch' c)))"

definition loadCredentialHealthCacheRowsBatched ::
  "(gotime \<Rightarrow> gotime \<Rightarrow> bool) \<Rightarrow> gotime \<Rightarrow> nat \<Rightarrow> (credentialHealthLoadRow list \<Rightarrow> 'c \<Rightarrow> 'c) \<Rightarrow> db \<Rightarrow> 'c \<Rightarrow> db \<times> 'c \<times> string option" where
  "loadCredentialHealthCacheRowsBatched older start requested handle t c =
     (let batchSize = (if requested = 0 then credentialHealthStartupBatchSize else requested) in
      case query (\<lambda>t. credentialHealthRowsFromUsageEvents (eventsFrom older start t)) t of
        (t', Inl e) \<Rightarrow> (t', c, Some (''load credential health cache rows: '' @ e))
      | (t', Inr rows) \<Rightarrow> scanHealthRows batchSize handle rows [] t' c)"

definition newEmptyUsageRecentEventCache :: "duration \<Rightarrow> int \<Rightarrow> UsageRecentEventCache" where
  "newEmptyUsageRecentEventCache windowOption sizeOption =
     (let slots = (if sizeOption \<le> 0 then usageRecentEventCacheDefaultQueueSize else sizeOption) in
      \<lparr>cached = [], stringPool = Map.empty, credentialHealth = \<lparr>bucketsByCredential = [], lastFullPruneUnix = 0\<rparr>,
       cacheWindow = (if windowOption \<le> 0 then usageRecentEventCacheDefaultWindow else windowOption),
       appendCh = [], appendSlots = slots, queueSize = slots, stopped = False, worker = WorkerIdle\<rparr>)"

definition NewUsageRecentEventCache ::
  "(gotime \<Rightarrow> gotime \<Rightarrow> bool) \<Rightarrow> duration \<Rightarrow> int \<Rightarrow> gotime \<Rightarrow> db option \<Rightarrow> db option \<times> (string + UsageRecentEventCache)" where
  "NewUsageRecentEventCache older windowOption sizeOption now database =
     (let c = newEmptyUsageRecentEventCache windowOption sizeOption in
      case database of
        None \<Rightarrow> (None, Inl ''database is nil'')
      | Some t \<Rightarrow>
          (case loadUsageRecentEventCacheRows older (t_add now (- cacheWindow c)) t of
             (t1, Inl e) \<Rightarrow> (Some t1, Inl e)
           | (t1, Inr rows) \<Rightarrow>
               (let c1 = pruneLocked now (appendRecentEventsLocked rows c) in
                case loadCredentialHealthCacheRowsBatched older (t_add now (- credentialHealthWindow)) credentialHealthStartupBatchSize
                       (\<lambda>batch c. fst (appendCredentialHealthRowsLocked batch c)) t1 c1 of
                  (t2, _, Some e) \<Rightarrow> (Some t2, Inl e)
                | (t2, c2, None) \<Rightarrow>
                    (Some t2, Inr (c2\<lparr>credentialHealth := pruneCredentialHealthLocked now None (credentialHealth c2)\<rparr>)))))"

section \<open>Appending and reading\<close>

definition appendEvents :: "gotime \<Rightarrow> UsageEvent list \<Rightarrow> UsageRecentEventCache \<Rightarrow> UsageRecentEventCache" where
  "appendEvents now evs c =
     (if evs = [] then c
      else
        (case appendCredentialHealthRowsLocked (credentialHealthRowsFromUsageEvents evs)
                (appendRecentEventsLocked (map recentRow evs) c) of
           (c1, touched) \<Rightarrow>
             (let c2 = pruneLocked now c1 in
              c2\<lparr>credentialHealth := pruneCredentialHealthLocked now (Some touched) (credentialHealth c2)\<rparr>)))"

definition cache_Events :: "gotime \<Rightarrow> gotime \<Rightarrow> bool \<Rightarrow> string \<Rightarrow> UsageRecentEventCache option \<Rightarrow> RecentUsageEvent list option" where
  "cache_Events start end' includeEnd apiGroupKey cache =
     (case cache of
        None \<Rightarrow> None
      | Some c \<Rightarrow>
          if end' < start \<or> (\<not> includeEnd \<and> end' = start) then Some []
          else
            (let key = TrimSpace apiGroupKey in
             Some (filter (\<lambda>event. \<not> re_Timestamp event < start \<and>
                             (if includeEnd then \<not> re_Timestamp event > end' else re_Timestamp event < end') \<and>
                             \<not> (key \<noteq> [] \<and> re_APIGroupKey event \<noteq> key)) (cached c))))"

definition cache_EventsSince :: "gotime \<Rightarrow> string \<Rightarrow> UsageRecentEventCache option \<Rightarrow> RecentUsageEvent list option" where
  "cache_EventsSince start apiGroupKey cache =
     (case cache of
        None \<Rightarrow> None
      | Some c \<Rightarrow>
          (let key = TrimSpace apiGroupKey in
           Some (filter (\<lambda>event. \<not> re_Timestamp event < start \<and> \<not> (key \<noteq> [] \<and> re_APIGroupKey event \<noteq> key)) (cached c))))"

definition Window :: "UsageRecentEventCache option \<Rightarrow> duration" where
  "Window cache = (case cache of None \<Rightarrow> 0 | Some c \<Rightarrow> cacheWindow c)"

section \<open>The queue\<close>

definition acquireAppendSlot :: "UsageRecentEventCache \<Rightarrow> UsageRecentEventCache \<times> bool" where
  "acquireAppendSlot c =
     (if stopped c then (c, False)
      else if appendSlots c > 0 then (c\<lparr>appendSlots := appendSlots c - 1\<rparr>, True)
      else (c, False))"

definition releaseAppendSlot :: "UsageRecentEventCache \<Rightarrow> UsageRecentEventCache" where
  "releaseAppendSlot c = (if appendSlots c < queueSize c then c\<lparr>appendSlots := appendSlots c + 1\<rparr> else c)"

text \<open>
  The \<open>select\<close> of \<open>TryAppend\<close>: a send that finds room, the stop signal, or neither. \<open>prefersStop\<close> is the
  choice of the runtime when both are possible.
\<close>

datatype sendOutcome = Sent | StopSeen | NoRoom

definition selectSend :: "bool \<Rightarrow> UsageEvent list \<Rightarrow> UsageRecentEventCache \<Rightarrow> UsageRecentEventCache \<times> sendOutcome" where
  "selectSend prefersStop evs c =
     (let room = (int (length (appendCh c)) < queueSize c) in
      if room \<and> \<not> (stopped c \<and> prefersStop) then (c\<lparr>appendCh := appendCh c @ [evs]\<rparr>, Sent)
      else if stopped c then (releaseAppendSlot c, StopSeen)
      else (releaseAppendSlot c, NoRoom))"

text \<open>The whole call, when nothing comes between; \<open>Recent_Window\<close> interleaves its two parts with everything else.\<close>

definition TryAppend :: "bool \<Rightarrow> UsageEvent list \<Rightarrow> UsageRecentEventCache option \<Rightarrow> UsageRecentEventCache option \<times> bool" where
  "TryAppend prefersStop evs cache =
     (case cache of
        None \<Rightarrow> (None, True)
      | Some c \<Rightarrow>
          if evs = [] then (Some c, True)
          else
            (case acquireAppendSlot c of
               (c1, False) \<Rightarrow> (Some c1, False)
             | (c1, True) \<Rightarrow> (case selectSend prefersStop evs c1 of (c2, out) \<Rightarrow> (Some c2, out = Sent))))"

text \<open>The steps of the worker: it takes a batch, gives the slot back and appends; it exits after the stop signal.\<close>

definition workerTake :: "UsageRecentEventCache \<Rightarrow> UsageRecentEventCache" where
  "workerTake c =
     (case (worker c, appendCh c) of
        (WorkerIdle, evs # rest) \<Rightarrow> c\<lparr>appendCh := rest, worker := WorkerTaken evs\<rparr>
      | _ \<Rightarrow> c)"

definition workerRelease :: "UsageRecentEventCache \<Rightarrow> UsageRecentEventCache" where
  "workerRelease c = (case worker c of WorkerTaken evs \<Rightarrow> (releaseAppendSlot c)\<lparr>worker := WorkerReleased evs\<rparr> | _ \<Rightarrow> c)"

definition workerAppend :: "gotime \<Rightarrow> UsageRecentEventCache \<Rightarrow> UsageRecentEventCache" where
  "workerAppend now c = (case worker c of WorkerReleased evs \<Rightarrow> (appendEvents now evs c)\<lparr>worker := WorkerIdle\<rparr> | _ \<Rightarrow> c)"

definition workerStop :: "UsageRecentEventCache \<Rightarrow> UsageRecentEventCache" where
  "workerStop c = (if worker c = WorkerIdle \<and> stopped c then c\<lparr>worker := WorkerExited\<rparr> else c)"

text \<open>\<open>Close\<close> sets the signal once and waits for the exit of the worker.\<close>

definition cache_Close :: "UsageRecentEventCache \<Rightarrow> UsageRecentEventCache" where
  "cache_Close c = c\<lparr>stopped := True\<rparr>"

end
