(* ===== verification/Recent_Window.thy ===== *)
theory Recent_Window
  imports Recent_Cache Inbox_Growth "HOL-Library.Multiset"
begin

text \<open>
  What the memory of recent events holds, for every interleaving of senders, worker and shutdown:
  the pool counts exactly the references of the cached events, the cache is exactly the window of
  the appended events, the health buckets are exactly the counts of the appended events, and a sender
  that has a slot always finds room.
\<close>

section \<open>The pool\<close>

text \<open>The pool that counts the strings of a multiset; the empty string is never in it.\<close>

definition refs :: "string multiset \<Rightarrow> recentUsageStringPool" where
  "refs M = (\<lambda>v. if v = [] \<or> count M v = 0 then None else Some (int (count M v)))"

definition pooled :: "RecentUsageEvent \<Rightarrow> string list" where
  "pooled event =
     [re_APIGroupKey event, re_Model event, re_ModelAlias event, re_AuthIndex event, re_ServiceTier event,
      re_ResponseServiceTier event, re_ReasoningEffort event, re_Endpoint event, re_ExecutorType event,
      re_IdentityFallbackLabel event]"

definition pooledIn :: "RecentUsageEvent list \<Rightarrow> string multiset" where
  "pooledIn evs = mset (concat (map pooled evs))"

lemma pooledIn_simps [simp]:
  "pooledIn [] = {#}" "pooledIn (e # evs) = mset (pooled e) + pooledIn evs" "pooledIn (xs @ ys) = pooledIn xs + pooledIn ys"
  by (simp_all add: pooledIn_def)

lemma intern_refs: "pool_intern (refs M) v = refs (add_mset v M)"
  by (auto simp: pool_intern_def refs_def fun_eq_iff count_eq_zero_iff)

lemma release_refs: "pool_release (refs (add_mset v M)) v = refs M"
  by (auto simp: pool_release_def refs_def fun_eq_iff count_eq_zero_iff)

lemma intern_all: "foldl pool_intern (refs M) vs = refs (mset vs + M)"
  by (induction vs arbitrary: M) (simp_all add: intern_refs)

lemma release_all: "foldl pool_release (refs (mset vs + M)) vs = refs M"
  by (induction vs arbitrary: M) (simp_all add: release_refs)

lemma append_rows:
  "stringPool c = refs (pooledIn (cached c)) \<Longrightarrow>
   appendRecentEventsLocked rows c = c\<lparr>cached := cached c @ map recentEvent rows, stringPool := refs (pooledIn (cached c @ map recentEvent rows))\<rparr>"
proof (induction rows arbitrary: c)
  case (Cons row rows)
  have p: "foldl pool_intern (stringPool c) (pooled (recentEvent row)) = refs (pooledIn (cached c @ [recentEvent row]))"
    using Cons.prems intern_all [of "pooledIn (cached c)"] by (simp add: add.commute)
  then have "recentEventFromRowLocked row (stringPool c) = (recentEvent row, refs (pooledIn (cached c @ [recentEvent row])))"
    by (simp add: recentEventFromRowLocked_def Let_def pooled_def)
  then show ?case using Cons.IH by (simp add: add.assoc)
qed simp

lemma prune_loop:
  "pruneLoop cutoff evs kept (refs (pooledIn evs + pooledIn kept)) =
     (let kept' = kept @ filter (\<lambda>e. cutoff \<le> re_Timestamp e) evs in (kept', refs (pooledIn kept')))"
proof (induction evs arbitrary: kept)
  case (Cons e evs)
  have release: "releaseEventStringsLocked e (refs (mset (pooled e) + M)) = refs M" for M
    using release_all [of "pooled e" M] by (simp add: releaseEventStringsLocked_def pooled_def)
  show ?case
  proof (cases "re_Timestamp e < cutoff")
    case True
    then show ?thesis using Cons.IH release [of "pooledIn evs + pooledIn kept"] by (simp add: Let_def add.assoc)
  next
    case False
    have "pooledIn (e # evs) + pooledIn kept = pooledIn evs + pooledIn (kept @ [e])" by (simp add: ac_simps)
    then show ?thesis using Cons.IH [of "kept @ [e]"] False by (simp add: Let_def ac_simps)
  qed
qed simp

lemma prune_cache:
  "stringPool c = refs (pooledIn (cached c)) \<Longrightarrow>
   pruneLocked now c = c\<lparr>cached := filter (\<lambda>e. now - cacheWindow c \<le> re_Timestamp e) (cached c),
     stringPool := refs (pooledIn (filter (\<lambda>e. now - cacheWindow c \<le> re_Timestamp e) (cached c)))\<rparr>"
  using prune_loop [of "now - cacheWindow c" "cached c" "[]"] by (simp add: pruneLocked_def t_add_def Let_def)

section \<open>Health counts\<close>

text \<open>The rows of a credential in a bucket, and the counts that they add up to.\<close>

definition rowsIn :: "credentialHealthKey \<Rightarrow> int \<Rightarrow> credentialHealthLoadRow list \<Rightarrow> credentialHealthLoadRow list" where
  "rowsIn key bucketUnix rows =
     filter (\<lambda>row. newCredentialHealthKey (hr_AuthType row) (hr_AuthIndex row) = (key, True) \<and>
                   credentialHealthBucketUnix (hr_Timestamp row) = bucketUnix) rows"

definition tally :: "credentialHealthLoadRow list \<Rightarrow> credentialHealthBucketCounts" where
  "tally rows = foldl (\<lambda>counts row. addHealthRow row counts) zeroCounts rows"

definition countOf :: "credentialHealthKey \<Rightarrow> int \<Rightarrow> credentialHealthCache \<Rightarrow> credentialHealthBucketCounts" where
  "countOf key bucketUnix h = countsAt bucketUnix (bucketsOf key h)"

lemma countOf_update:
  "countOf key b (h\<lparr>bucketsByCredential := AList.update key' (AList.update b' counts (bucketsOf key' h)) (bucketsByCredential h)\<rparr>) =
   (if key = key' \<and> b = b' then counts else countOf key b h)"
  by (auto simp: countOf_def countsAt_def bucketsOf_def update_conv')

lemma append_health_counts:
  "countOf key b (fst (appendHealthLoop rows touched h)) = foldl (\<lambda>counts row. addHealthRow row counts) (countOf key b h) (rowsIn key b rows)"
proof (induction rows arbitrary: touched h)
  case Nil
  then show ?case by (simp add: rowsIn_def)
next
  case (Cons row rows)
  obtain key' ok where k: "newCredentialHealthKey (hr_AuthType row) (hr_AuthIndex row) = (key', ok)" by fastforce
  then show ?case using Cons.IH
    by (cases ok) (simp_all add: rowsIn_def countOf_update Let_def countOf_def [symmetric])
qed

lemma delete_lookup: "map_of (AList.delete key xs) k = (if k = key then None else map_of xs k)"
  by (simp add: delete_conv')

lemma prune_key_counts:
  "countOf key b (pruneCredentialHealthKeyLocked cutoff key' h) = (if key = key' \<and> b < cutoff then zeroCounts else countOf key b h)"
proof -
  have kept: "map_of (filter (\<lambda>(u, _). \<not> u < cutoff) xs) b = (if b < cutoff then None else map_of xs b)"
    for xs :: "(int \<times> credentialHealthBucketCounts) list"
    by (induction xs) auto
  moreover have "b < cutoff \<or> countsAt b (bucketsOf key' h) = zeroCounts" if "filter (\<lambda>(u, _). \<not> u < cutoff) (bucketsOf key' h) = []"
    using that kept [of "bucketsOf key' h"] by (auto simp: countsAt_def split: option.splits if_splits)
  ultimately show ?thesis
    by (auto simp: pruneCredentialHealthKeyLocked_def Let_def countOf_def bucketsOf_def countsAt_def update_conv' delete_lookup split: option.splits)
qed

lemma prune_keys_counts:
  "countOf key b (fold (pruneCredentialHealthKeyLocked cutoff) keys h) = (if key \<in> set keys \<and> b < cutoff then zeroCounts else countOf key b h)"
  by (induction keys arbitrary: h) (auto simp: prune_key_counts)

text \<open>Pruning forgets nothing of the window.\<close>

lemma prune_health_counts:
  "t_unix (credentialHealthWindowStart now) \<le> b \<Longrightarrow> countOf key b (pruneCredentialHealthLocked now touched h) = countOf key b h"
  by (auto simp: pruneCredentialHealthLocked_def Let_def prune_keys_counts countOf_def [symmetric] split: option.splits bool.splits)
     (simp_all add: countOf_def bucketsOf_def prune_keys_counts [unfolded countOf_def bucketsOf_def])

lemma append_batch:
  "fst (appendCredentialHealthRowsLocked rows c) = c\<lparr>credentialHealth := fst (appendHealthLoop rows [] (credentialHealth c))\<rparr>"
  by (simp add: appendCredentialHealthRowsLocked_def split: prod.split)

lemma rowsIn_append: "rowsIn key b (xs @ ys) = rowsIn key b xs @ rowsIn key b ys"
  by (simp add: rowsIn_def)

text \<open>The batches of the startup add up to all the rows.\<close>

lemma scan_health:
  assumes "scanHealthRows n (\<lambda>batch c. fst (appendCredentialHealthRowsLocked batch c)) rows batch t c = (t', c', None)"
  shows "\<exists>h. c' = c\<lparr>credentialHealth := h\<rparr> \<and>
    (\<forall>key b. countOf key b h = foldl (\<lambda>counts row. addHealthRow row counts) (countOf key b (credentialHealth c)) (rowsIn key b (batch @ rows)))"
  using assms
proof (induction rows arbitrary: batch t c)
  case Nil
  show ?case
  proof (cases "batch = []")
    case True
    then show ?thesis using Nil by (intro exI [of _ "credentialHealth c"]) (auto simp: rowsIn_def split: prod.splits sum.splits)
  next
    case False
    then show ?thesis using Nil
      by (intro exI [of _ "fst (appendHealthLoop batch [] (credentialHealth c))"])
         (auto simp: append_batch append_health_counts split: prod.splits sum.splits)
  qed
next
  case (Cons row rows)
  obtain t1 where q: "query (\<lambda>_. ()) t = (t1, Inr ())" using Cons.prems by (auto split: prod.splits sum.splits)
  show ?case
  proof (cases "length (batch @ [row]) < n")
    case True
    then show ?thesis using Cons.prems Cons.IH [of "batch @ [row]" t1 c] q by (simp add: Let_def)
  next
    case False
    let ?c = "fst (appendCredentialHealthRowsLocked (batch @ [row]) c)"
    have "scanHealthRows n (\<lambda>batch c. fst (appendCredentialHealthRowsLocked batch c)) rows [] t1 ?c = (t', c', None)"
      using Cons.prems q False by (simp add: Let_def)
    from Cons.IH [OF this] show ?thesis
      by (auto simp: append_batch append_health_counts rowsIn_append simp flip: foldl_append append_assoc)
         (metis append.assoc append_Cons append_Nil rowsIn_append foldl_append)
  qed
qed

section \<open>Sums\<close>

lemma i64_add_left: "i64 (i64 x + y) = i64 (x + y)"
  using mod_add_left_eq [of "x + 9223372036854775808" 18446744073709551616 y] by (simp add: i64_def algebra_simps)

definition successOf :: "credentialHealthLoadRow \<Rightarrow> int" where
  "successOf row = (if hr_Failed row then 0 else 1)"

definition failureOf :: "credentialHealthLoadRow \<Rightarrow> int" where
  "failureOf row = (if hr_Failed row then 1 else 0)"

definition inputOf :: "credentialHealthLoadRow \<Rightarrow> int" where
  "inputOf row = max (hr_InputTokens row) 0"

definition cacheReadOf :: "credentialHealthLoadRow \<Rightarrow> int" where
  "cacheReadOf row = max (hr_CacheReadTokens row) 0"

abbreviation total_of :: "('a \<Rightarrow> int) \<Rightarrow> 'a list \<Rightarrow> int" where
  "total_of f rows \<equiv> sum_list (map f rows)"

lemma total_nonneg: "(\<And>x. 0 \<le> f x) \<Longrightarrow> 0 \<le> total_of f rows"
  by (induction rows) (auto simp: add_nonneg_nonneg)

lemma saturating_sum: "0 \<le> a \<Longrightarrow> 0 \<le> b \<Longrightarrow> saturatingAddCredentialHealthTokens (min MaxInt64 a) b = min MaxInt64 (a + b)"
  by (auto simp: saturatingAddCredentialHealthTokens_def MaxInt64_def)

lemma saturating_sum2:
  "0 \<le> a \<Longrightarrow> 0 \<le> b \<Longrightarrow> saturatingAddCredentialHealthTokens (min MaxInt64 a) (min MaxInt64 b) = min MaxInt64 (a + b)"
  by (auto simp: saturatingAddCredentialHealthTokens_def MaxInt64_def min_def)

lemma tally_snoc: "tally (rows @ [row]) = addHealthRow row (tally rows)"
  by (simp add: tally_def)

lemma tally_sums:
  "hb_success (tally rows) = i64 (total_of successOf rows)" "hb_failure (tally rows) = i64 (total_of failureOf rows)"
  "hb_inputTokens (tally rows) = min MaxInt64 (total_of inputOf rows)" "hb_cacheReadTokens (tally rows) = min MaxInt64 (total_of cacheReadOf rows)"
proof (induction rows rule: rev_induct)
  case Nil
  { case 1 show ?case by (simp add: tally_def zeroCounts_def) next
    case 2 show ?case by (simp add: tally_def zeroCounts_def) next
    case 3 show ?case by (simp add: tally_def zeroCounts_def MaxInt64_def) next
    case 4 show ?case by (simp add: tally_def zeroCounts_def MaxInt64_def) }
next
  case (snoc row rows)
  have nonneg: "0 \<le> total_of inputOf rows" "0 \<le> total_of cacheReadOf rows"
    by (simp_all add: total_nonneg inputOf_def cacheReadOf_def)
  { case 1 show ?case using snoc(1) by (simp add: tally_snoc addHealthRow_def Let_def successOf_def i64_add_left) next
    case 2 show ?case using snoc(2) by (simp add: tally_snoc addHealthRow_def Let_def failureOf_def i64_add_left) next
    case 3 show ?case using snoc(3) saturating_sum [OF nonneg(1), of "inputOf row"]
      by (simp add: tally_snoc addHealthRow_def Let_def inputOf_def [of row]) next
    case 4 show ?case using snoc(4) saturating_sum [OF nonneg(2), of "cacheReadOf row"]
      by (simp add: tally_snoc addHealthRow_def Let_def cacheReadOf_def [of row]) }
qed

section \<open>Snapshots\<close>

definition addBucket :: "(int \<times> credentialHealthBucketCounts) list \<Rightarrow> CredentialHealthSnapshot \<Rightarrow> gotime \<Rightarrow> CredentialHealthSnapshot" where
  "addBucket countsByUnix snap bucketStart =
     (let counts = countsAt (t_unix bucketStart) countsByUnix in
      snap\<lparr>hs_Buckets := hs_Buckets snap @ [\<lparr>hs_StartTime = bucketStart, hs_EndTime = bucketStart + credentialHealthBucketSpan,
                                               hs_Success = hb_success counts, hs_Failure = hb_failure counts\<rparr>],
           hs_TotalSuccess := i64 (hs_TotalSuccess snap + hb_success counts),
           hs_TotalFailure := i64 (hs_TotalFailure snap + hb_failure counts),
           hs_InputTokens := saturatingAddCredentialHealthTokens (hs_InputTokens snap) (hb_inputTokens counts),
           hs_CacheReadTokens := saturatingAddCredentialHealthTokens (hs_CacheReadTokens snap) (hb_cacheReadTokens counts)\<rparr>)"

definition bucketStarts :: "gotime \<Rightarrow> nat \<Rightarrow> gotime list" where
  "bucketStarts start n = map (\<lambda>i. start + int i * credentialHealthBucketSpan) [0..<n]"

lemma bucketStarts_Suc: "bucketStarts start (Suc n) = start # bucketStarts (start + credentialHealthBucketSpan) n"
  unfolding bucketStarts_def map_upt_Suc by (simp add: algebra_simps)

lemma span_pos: "0 < credentialHealthBucketSpan"
  by (simp add: credentialHealthBucketSpan_def Minute_def)

lemma snapshotLoop_fold:
  "snapshotLoop counts start (start + int n * credentialHealthBucketSpan) snap = foldl (addBucket counts) snap (bucketStarts start n)"
proof (induction n arbitrary: start snap)
  case 0
  then show ?case by (simp add: snapshotLoop.simps bucketStarts_def)
next
  case (Suc n)
  have "start < start + int (Suc n) * credentialHealthBucketSpan" using span_pos by simp
  then have "snapshotLoop counts start (start + int (Suc n) * credentialHealthBucketSpan) snap =
      snapshotLoop counts (start + credentialHealthBucketSpan) (start + credentialHealthBucketSpan + int n * credentialHealthBucketSpan)
        (addBucket counts snap start)"
    by (subst snapshotLoop.simps) (simp add: addBucket_def Let_def t_add_def algebra_simps)
  then show ?case using Suc.IH by (simp add: bucketStarts_Suc)
qed

text \<open>What a fold over buckets adds up to, when each bucket holds the tally of its rows.\<close>

lemma fold_buckets:
  assumes "\<forall>b \<in> set starts. countsAt (t_unix b) counts = tally (rowsAt b)"
    and "hs_TotalSuccess snap = i64 su" "hs_TotalFailure snap = i64 fa" "hs_InputTokens snap = min MaxInt64 inp" "hs_CacheReadTokens snap = min MaxInt64 rd"
    and "0 \<le> inp" "0 \<le> rd"
  shows "let s = foldl (addBucket counts) snap starts in
    hs_TotalSuccess s = i64 (su + total_of (\<lambda>b. total_of successOf (rowsAt b)) starts) \<and>
    hs_TotalFailure s = i64 (fa + total_of (\<lambda>b. total_of failureOf (rowsAt b)) starts) \<and>
    hs_InputTokens s = min MaxInt64 (inp + total_of (\<lambda>b. total_of inputOf (rowsAt b)) starts) \<and>
    hs_CacheReadTokens s = min MaxInt64 (rd + total_of (\<lambda>b. total_of cacheReadOf (rowsAt b)) starts) \<and>
    hs_WindowStart s = hs_WindowStart snap \<and> hs_WindowEnd s = hs_WindowEnd snap \<and>
    hs_Buckets s = hs_Buckets snap @ map (\<lambda>b. \<lparr>hs_StartTime = b, hs_EndTime = b + credentialHealthBucketSpan,
       hs_Success = i64 (total_of successOf (rowsAt b)), hs_Failure = i64 (total_of failureOf (rowsAt b))\<rparr>) starts"
  using assms
proof (induction starts arbitrary: snap su fa inp rd)
  case Nil
  then show ?case by simp
next
  case (Cons b starts)
  let ?s = "addBucket counts snap b"
  have nonneg: "0 \<le> total_of inputOf (rowsAt b)" "0 \<le> total_of cacheReadOf (rowsAt b)"
    by (simp_all add: total_nonneg inputOf_def cacheReadOf_def)
  have b: "countsAt (t_unix b) counts = tally (rowsAt b)" using Cons.prems(1) by simp
  have add: "i64 (i64 x + i64 y) = i64 (x + y)" for x y using i64_add_left [of x "i64 y"] i64_add_left [of y x] by (simp add: add.commute)
  have "hs_TotalSuccess ?s = i64 (su + total_of successOf (rowsAt b))" "hs_TotalFailure ?s = i64 (fa + total_of failureOf (rowsAt b))"
    "hs_InputTokens ?s = min MaxInt64 (inp + total_of inputOf (rowsAt b))"
    "hs_CacheReadTokens ?s = min MaxInt64 (rd + total_of cacheReadOf (rowsAt b))"
    using Cons.prems(2-) saturating_sum2 nonneg by (simp_all add: addBucket_def Let_def b tally_sums add)
  from Cons.IH [OF _ this] Cons.prems(1,6,7) nonneg show ?case
    by (simp add: Let_def add.assoc) (simp add: addBucket_def Let_def b tally_sums)
qed

text \<open>The buckets of a window partition it.\<close>

lemma bucketUnix_start:
  assumes "b mod credentialHealthBucketSpan = 0"
  shows "credentialHealthBucketUnix t = t_unix b \<longleftrightarrow> b \<le> t \<and> t < b + credentialHealthBucketSpan"
proof -
  let ?u = "t - t mod credentialHealthBucketSpan"
  have dvd: "credentialHealthBucketSpan dvd ?u" "credentialHealthBucketSpan dvd b" using assms by (auto simp: minus_mod_eq_mult_div dvd_eq_mod_eq_0)
  have sec: "1000000000 dvd credentialHealthBucketSpan" by (simp add: credentialHealthBucketSpan_def Minute_def)
  have "credentialHealthBucketUnix t = t_unix b \<longleftrightarrow> ?u div 1000000000 = b div 1000000000"
    by (auto simp: credentialHealthBucketUnix_def t_truncate_def t_unix_def)
  also have "\<dots> \<longleftrightarrow> ?u = b"
    using dvd_trans [OF sec dvd(1)] dvd_trans [OF sec dvd(2)] by (metis dvd_div_mult_self)
  also have "\<dots> \<longleftrightarrow> b \<le> t \<and> t < b + credentialHealthBucketSpan"
  proof
    assume "?u = b"
    then show "b \<le> t \<and> t < b + credentialHealthBucketSpan"
      using pos_mod_bound [OF span_pos, of t] pos_mod_sign [OF span_pos, of t] by linarith
  next
    assume r: "b \<le> t \<and> t < b + credentialHealthBucketSpan"
    then have "(t - b) mod credentialHealthBucketSpan = t - b" by simp
    then have "t mod credentialHealthBucketSpan = t - b" using assms by (metis diff_zero mod_diff_right_eq)
    then show "?u = b" by simp
  qed
  finally show ?thesis .
qed

lemma window_bucket:
  assumes "start mod credentialHealthBucketSpan = 0"
  shows "total_of (\<lambda>b. if credentialHealthBucketUnix t = t_unix b then x else 0) (bucketStarts start n) =
    (if start \<le> t \<and> t < start + int n * credentialHealthBucketSpan then x else 0)"
  using assms
proof (induction n arbitrary: start)
  case 0
  then show ?case by (simp add: bucketStarts_def)
next
  case (Suc n)
  have "(start + credentialHealthBucketSpan) mod credentialHealthBucketSpan = 0" using Suc.prems by simp
  note IH = Suc.IH [OF this]
  have "total_of (\<lambda>b. if credentialHealthBucketUnix t = t_unix b then x else 0) (bucketStarts start (Suc n)) =
      (if start \<le> t \<and> t < start + credentialHealthBucketSpan then x else 0) +
      (if start + credentialHealthBucketSpan \<le> t \<and> t < start + credentialHealthBucketSpan + int n * credentialHealthBucketSpan then x else 0)"
    using IH by (simp only: bucketStarts_Suc list.map sum_list.Cons bucketUnix_start [OF Suc.prems])
  moreover have "(if s \<le> t \<and> t < s + d then x else 0) + (if s + d \<le> t \<and> t < s + d + m then x else 0) =
      (if s \<le> t \<and> t < s + d + m then x else 0)" if "0 < d" "0 \<le> m" for s d m :: int
    using that by auto
  moreover have "start + int (Suc n) * credentialHealthBucketSpan = start + credentialHealthBucketSpan + int n * credentialHealthBucketSpan"
    by (simp add: algebra_simps)
  ultimately show ?case using span_pos by simp
qed

lemma window_sum:
  assumes "start mod credentialHealthBucketSpan = 0"
  shows "total_of (\<lambda>b. total_of f (rowsIn key (t_unix b) rows)) (bucketStarts start n) =
    total_of f (filter (\<lambda>row. newCredentialHealthKey (hr_AuthType row) (hr_AuthIndex row) = (key, True) \<and>
      start \<le> hr_Timestamp row \<and> hr_Timestamp row < start + int n * credentialHealthBucketSpan) rows)"
proof (induction rows)
  case Nil
  have "total_of (\<lambda>b. 0) bs = 0" for bs :: "'a list" by (induction bs) simp_all
  then show ?case by (simp add: rowsIn_def)
next
  case (Cons row rows)
  let ?ok = "newCredentialHealthKey (hr_AuthType row) (hr_AuthIndex row) = (key, True)"
  have "total_of (\<lambda>b. total_of f (rowsIn key (t_unix b) (row # rows))) bs =
      total_of (\<lambda>b. if credentialHealthBucketUnix (hr_Timestamp row) = t_unix b then (if ?ok then f row else 0) else 0) bs +
      total_of (\<lambda>b. total_of f (rowsIn key (t_unix b) rows)) bs" for bs
    by (induction bs) (auto simp: rowsIn_def)
  then show ?case using Cons.IH window_bucket [OF assms, of "hr_Timestamp row"] by auto
qed

lemma window_start: "credentialHealthWindowStart now mod credentialHealthBucketSpan = 0"
  "credentialHealthWindowEnd now = credentialHealthWindowStart now + int 30 * credentialHealthBucketSpan"
  "credentialHealthWindowEnd now \<le> now + credentialHealthBucketSpan" "now < credentialHealthWindowEnd now" "now' \<le> now \<Longrightarrow> credentialHealthWindowStart now' \<le> credentialHealthWindowStart now"
proof -
  have w: "credentialHealthWindow = 30 * credentialHealthBucketSpan"
    by (simp add: credentialHealthWindow_def credentialHealthBucketSpan_def Minute_def Hour_def)
  have m: "now - now mod credentialHealthBucketSpan = credentialHealthBucketSpan * (now div credentialHealthBucketSpan)" for now
    by (simp add: minus_mod_eq_mult_div)
  show "credentialHealthWindowStart now mod credentialHealthBucketSpan = 0"
    by (simp add: credentialHealthWindowStart_def credentialHealthWindowEnd_def t_add_def t_truncate_def m w mod_eq_0_iff_dvd)
  show "credentialHealthWindowEnd now = credentialHealthWindowStart now + int 30 * credentialHealthBucketSpan"
    by (simp add: credentialHealthWindowStart_def t_add_def w)
  show "credentialHealthWindowEnd now \<le> now + credentialHealthBucketSpan" "now < credentialHealthWindowEnd now"
    using pos_mod_bound [OF span_pos, of now] pos_mod_sign [OF span_pos, of now] span_pos
    unfolding credentialHealthWindowStart_def credentialHealthWindowEnd_def t_add_def t_truncate_def w by linarith+
  show "credentialHealthWindowStart now' \<le> credentialHealthWindowStart now" if "now' \<le> now"
    using zdiv_mono1 [OF that span_pos] span_pos
    by (simp add: credentialHealthWindowStart_def credentialHealthWindowEnd_def t_add_def t_truncate_def m)
qed

section \<open>Runs\<close>

text \<open>
  A run of the cache: the last clock reading, the events that were appended to the recent window and
  to the health buckets, and the number of senders that hold a slot and have not sent yet. The clock
  does not go back.
\<close>

inductive cache_run ::
  "(gotime \<Rightarrow> gotime \<Rightarrow> bool) \<Rightarrow> duration \<Rightarrow> int \<Rightarrow> gotime \<Rightarrow> UsageEvent list \<Rightarrow> UsageEvent list \<Rightarrow> nat \<Rightarrow> UsageRecentEventCache \<Rightarrow> bool"
  for older :: "gotime \<Rightarrow> gotime \<Rightarrow> bool" and windowOption :: duration and sizeOption :: int where
  start: "NewUsageRecentEventCache older windowOption sizeOption now (Some t) = (t', Inr c) \<Longrightarrow>
    cache_run older windowOption sizeOption now (eventsFrom older (now - cacheWindow c) t) (eventsFrom older (now - credentialHealthWindow) t) 0 c"
| acquire: "cache_run older windowOption sizeOption now recent health n c \<Longrightarrow> acquireAppendSlot c = (c', True) \<Longrightarrow>
    cache_run older windowOption sizeOption now recent health (Suc n) c'"
| send: "cache_run older windowOption sizeOption now recent health (Suc n) c \<Longrightarrow> evs \<noteq> [] \<Longrightarrow> selectSend prefersStop evs c = (c', out) \<Longrightarrow>
    cache_run older windowOption sizeOption now recent health n c'"
| take: "cache_run older windowOption sizeOption now recent health n c \<Longrightarrow> cache_run older windowOption sizeOption now recent health n (workerTake c)"
| release: "cache_run older windowOption sizeOption now recent health n c \<Longrightarrow> cache_run older windowOption sizeOption now recent health n (workerRelease c)"
| append: "cache_run older windowOption sizeOption now recent health n c \<Longrightarrow> worker c = WorkerReleased evs \<Longrightarrow> now \<le> now' \<Longrightarrow> evs \<noteq> [] \<Longrightarrow>
    cache_run older windowOption sizeOption now' (recent @ evs) (health @ evs) n (workerAppend now' c)"
| close: "cache_run older windowOption sizeOption now recent health n c \<Longrightarrow> cache_run older windowOption sizeOption now recent health n (cache_Close c)"
| exit: "cache_run older windowOption sizeOption now recent health n c \<Longrightarrow> cache_run older windowOption sizeOption now recent health n (workerStop c)"

abbreviation projected :: "UsageEvent list \<Rightarrow> RecentUsageEvent list" where
  "projected evs \<equiv> map (\<lambda>e. recentEvent (recentRow e)) evs"

definition cacheOK :: "gotime \<Rightarrow> UsageEvent list \<Rightarrow> UsageEvent list \<Rightarrow> UsageRecentEventCache \<Rightarrow> bool" where
  "cacheOK now recent health c \<longleftrightarrow>
     stringPool c = refs (pooledIn (cached c)) \<and>
     cached c = filter (\<lambda>e. now - cacheWindow c \<le> re_Timestamp e) (projected recent) \<and>
     (\<forall>key b. t_unix (credentialHealthWindowStart now) \<le> b \<longrightarrow>
        countOf key b (credentialHealth c) = tally (rowsIn key b (credentialHealthRowsFromUsageEvents health)))"

definition slotsOK :: "nat \<Rightarrow> UsageRecentEventCache \<Rightarrow> bool" where
  "slotsOK n c \<longleftrightarrow> 0 \<le> appendSlots c \<and> [] \<notin> set (appendCh c) \<and> worker c \<noteq> WorkerTaken [] \<and> worker c \<noteq> WorkerReleased [] \<and>
     appendSlots c + int n + int (length (appendCh c)) + (case worker c of WorkerTaken _ \<Rightarrow> 1 | _ \<Rightarrow> 0) = queueSize c"

lemma cacheOK_same:
  "cached c' = cached c \<Longrightarrow> stringPool c' = stringPool c \<Longrightarrow> credentialHealth c' = credentialHealth c \<Longrightarrow> cacheWindow c' = cacheWindow c \<Longrightarrow>
   cacheOK now recent health c' = cacheOK now recent health c"
  by (simp add: cacheOK_def)

lemma window_mono: "now' \<le> now \<Longrightarrow> t_unix (credentialHealthWindowStart now') \<le> t_unix (credentialHealthWindowStart now)"
  using window_start(5) [of now' now] by (simp add: t_unix_def zdiv_mono1)

lemma rows_append: "credentialHealthRowsFromUsageEvents (xs @ ys) = credentialHealthRowsFromUsageEvents xs @ credentialHealthRowsFromUsageEvents ys"
  by (simp add: credentialHealthRowsFromUsageEvents_def)

lemma appended_ok:
  assumes "cacheOK now recent health c" "now \<le> now'" "evs \<noteq> []"
  shows "cacheOK now' (recent @ evs) (health @ evs) (appendEvents now' evs c)"
    "appendEvents now' evs c = c\<lparr>cached := cached (appendEvents now' evs c), stringPool := stringPool (appendEvents now' evs c),
       credentialHealth := credentialHealth (appendEvents now' evs c)\<rparr>"
proof -
  let ?rows = "credentialHealthRowsFromUsageEvents evs" and ?h = "credentialHealth c"
  have pool: "stringPool c = refs (pooledIn (cached c))" using assms(1) by (simp add: cacheOK_def)
  let ?c = "c\<lparr>cached := cached c @ projected evs, stringPool := refs (pooledIn (cached c @ projected evs))\<rparr>"
  have a: "appendRecentEventsLocked (map recentRow evs) c = ?c" using append_rows [OF pool, of "map recentRow evs"] by (simp add: comp_def)
  obtain h touched where h: "appendHealthLoop ?rows [] ?h = (h, touched)" by fastforce
  let ?kept = "filter (\<lambda>e. now' - cacheWindow c \<le> re_Timestamp e) (cached c @ projected evs)"
  have r: "appendEvents now' evs c = c\<lparr>cached := ?kept, stringPool := refs (pooledIn ?kept),
      credentialHealth := pruneCredentialHealthLocked now' (Some touched) h\<rparr>"
    using assms(3) a h prune_cache [of "?c\<lparr>credentialHealth := h\<rparr>" now']
    by (simp add: appendEvents_def appendCredentialHealthRowsLocked_def)
  then show "appendEvents now' evs c = c\<lparr>cached := cached (appendEvents now' evs c), stringPool := stringPool (appendEvents now' evs c),
       credentialHealth := credentialHealth (appendEvents now' evs c)\<rparr>" by simp
  have "filter (\<lambda>e. now' - cacheWindow c \<le> re_Timestamp e) (cached c) = filter (\<lambda>e. now' - cacheWindow c \<le> re_Timestamp e) (projected recent)"
    using assms(1,2) by (auto simp: cacheOK_def filter_filter intro!: filter_cong)
  moreover have "countOf key b (pruneCredentialHealthLocked now' (Some touched) h) =
      tally (rowsIn key b (credentialHealthRowsFromUsageEvents (health @ evs)))" if b: "t_unix (credentialHealthWindowStart now') \<le> b" for key b
  proof -
    have "countOf key b h = foldl (\<lambda>counts row. addHealthRow row counts) (countOf key b ?h) (rowsIn key b ?rows)"
      using append_health_counts [of key b ?rows "[]" ?h] h by simp
    moreover have "countOf key b ?h = tally (rowsIn key b (credentialHealthRowsFromUsageEvents health))"
      using assms(1) order_trans [OF window_mono [OF assms(2)] b] by (simp add: cacheOK_def)
    ultimately show ?thesis using prune_health_counts [OF b] by (simp add: rows_append rowsIn_append tally_def)
  qed
  ultimately show "cacheOK now' (recent @ evs) (health @ evs) (appendEvents now' evs c)" by (simp add: r cacheOK_def)
qed

lemma eventsFrom_faults [simp]: "eventsFrom older start (t\<lparr>faults := fs\<rparr>) = eventsFrom older start t"
  by (simp add: eventsFrom_def)

lemma tally_from_zero: "foldl (\<lambda>counts row. addHealthRow row counts) (countOf key b \<lparr>bucketsByCredential = [], lastFullPruneUnix = u\<rparr>) rows = tally rows"
  by (simp add: countOf_def countsAt_def bucketsOf_def tally_def)

lemma started_ok:
  assumes "NewUsageRecentEventCache older windowOption sizeOption now (Some t) = (t', Inr c)"
  shows "cacheOK now (eventsFrom older (now - cacheWindow c) t) (eventsFrom older (now - credentialHealthWindow) t) c" "slotsOK 0 c"
proof -
  let ?e = "newEmptyUsageRecentEventCache windowOption sizeOption"
  let ?w = "cacheWindow ?e"
  obtain t1 rows where l: "loadUsageRecentEventCacheRows older (now - ?w) t = (t1, Inr rows)"
    using assms by (auto simp: NewUsageRecentEventCache_def Let_def t_add_def split: prod.splits sum.splits)
  then obtain fs where t1: "t1 = t\<lparr>faults := fs\<rparr>" and rows: "rows = map recentRow (eventsFrom older (now - ?w) t)"
    by (auto simp: loadUsageRecentEventCacheRows_def split: prod.splits sum.splits elim!: query_cases)
  have pool: "stringPool ?e = refs (pooledIn (cached ?e))" by (simp add: newEmptyUsageRecentEventCache_def Let_def refs_def fun_eq_iff)
  let ?kept = "filter (\<lambda>e. now - ?w \<le> re_Timestamp e) (projected (eventsFrom older (now - ?w) t))"
  let ?c = "?e\<lparr>cached := ?kept, stringPool := refs (pooledIn ?kept)\<rparr>"
  have c1: "pruneLocked now (appendRecentEventsLocked rows ?e) = ?c"
    using append_rows [OF pool, of rows] by (simp add: prune_cache rows comp_def) (simp add: newEmptyUsageRecentEventCache_def Let_def)
  obtain t2 c2 where ld: "loadCredentialHealthCacheRowsBatched older (now - credentialHealthWindow) credentialHealthStartupBatchSize
      (\<lambda>batch c. fst (appendCredentialHealthRowsLocked batch c)) t1 ?c = (t2, c2, None)"
    and c: "c = c2\<lparr>credentialHealth := pruneCredentialHealthLocked now None (credentialHealth c2)\<rparr>"
    using assms l c1 by (auto simp: NewUsageRecentEventCache_def Let_def t_add_def split: prod.splits option.splits)
  then obtain t3 n where "scanHealthRows n (\<lambda>batch c. fst (appendCredentialHealthRowsLocked batch c))
      (credentialHealthRowsFromUsageEvents (eventsFrom older (now - credentialHealthWindow) t)) [] t3 ?c = (t2, c2, None)"
    by (auto simp: loadCredentialHealthCacheRowsBatched_def Let_def t1 split: prod.splits sum.splits elim!: query_cases)
  from scan_health [OF this] obtain h where h: "c2 = ?c\<lparr>credentialHealth := h\<rparr>"
    "\<And>key b. countOf key b h = tally (rowsIn key b (credentialHealthRowsFromUsageEvents (eventsFrom older (now - credentialHealthWindow) t)))"
    by (auto simp: newEmptyUsageRecentEventCache_def Let_def tally_from_zero)
  show "cacheOK now (eventsFrom older (now - cacheWindow c) t) (eventsFrom older (now - credentialHealthWindow) t) c"
    using h(2) prune_health_counts by (simp add: cacheOK_def c h(1))
  show "slotsOK 0 c"
    by (simp add: slotsOK_def c h(1)) (simp add: newEmptyUsageRecentEventCache_def Let_def usageRecentEventCacheDefaultQueueSize_def)
qed

lemma release_keeps:
  "cached (releaseAppendSlot c) = cached c" "stringPool (releaseAppendSlot c) = stringPool c" "credentialHealth (releaseAppendSlot c) = credentialHealth c"
  "cacheWindow (releaseAppendSlot c) = cacheWindow c" "appendCh (releaseAppendSlot c) = appendCh c" "worker (releaseAppendSlot c) = worker c"
  "queueSize (releaseAppendSlot c) = queueSize c" "stopped (releaseAppendSlot c) = stopped c"
  by (simp_all add: releaseAppendSlot_def)

lemma send_keeps:
  assumes "selectSend prefersStop evs c = (c', out)"
  shows "cached c' = cached c" "stringPool c' = stringPool c" "credentialHealth c' = credentialHealth c" "cacheWindow c' = cacheWindow c"
  using assms by (auto simp: selectSend_def Let_def release_keeps split: if_splits)

text \<open>A sender with a slot always finds room.\<close>

lemma slot_means_room: "slotsOK (Suc n) c \<Longrightarrow> int (length (appendCh c)) < queueSize c"
  by (simp add: slotsOK_def split: cacheWorker.splits)

lemma send_slots: "slotsOK (Suc n) c \<Longrightarrow> evs \<noteq> [] \<Longrightarrow> selectSend prefersStop evs c = (c', out) \<Longrightarrow> slotsOK n c'"
  using slot_means_room [of n c]
  by (auto simp: selectSend_def Let_def slotsOK_def releaseAppendSlot_def split: if_splits cacheWorker.splits)

lemma worker_slots: "slotsOK n c \<Longrightarrow> slotsOK n (workerTake c)" "slotsOK n c \<Longrightarrow> slotsOK n (workerRelease c)"
  "slotsOK n c \<Longrightarrow> slotsOK n (workerStop c)" "slotsOK n c \<Longrightarrow> slotsOK n (cache_Close c)"
  by (auto simp: slotsOK_def workerTake_def workerRelease_def workerStop_def cache_Close_def releaseAppendSlot_def
      split: cacheWorker.splits list.splits if_splits)

lemma run_ok: "cache_run older windowOption sizeOption now recent health n c \<Longrightarrow> cacheOK now recent health c \<and> slotsOK n c"
proof (induction rule: cache_run.induct)
  case (start now t t' c)
  then show ?case using started_ok by blast
next
  case (acquire now recent health n c c')
  then have c': "c' = c\<lparr>appendSlots := appendSlots c - 1\<rparr>" "0 < appendSlots c" by (auto simp: acquireAppendSlot_def split: if_splits)
  then show ?case using acquire.IH by (auto simp: cacheOK_def slotsOK_def split: cacheWorker.splits)
next
  case (send now recent health n c evs prefersStop c' out)
  then show ?case using send_slots cacheOK_same [OF send_keeps] by metis
next
  case (take now recent health n c)
  have "cacheOK now recent health (workerTake c) = cacheOK now recent health c"
    by (rule cacheOK_same) (simp_all add: workerTake_def split: cacheWorker.split list.split)
  then show ?case using take.IH worker_slots(1) by blast
next
  case (release now recent health n c)
  have "cacheOK now recent health (workerRelease c) = cacheOK now recent health c"
    by (rule cacheOK_same) (simp_all add: workerRelease_def release_keeps split: cacheWorker.split)
  then show ?case using release.IH worker_slots(2) by blast
next
  case (append now recent health n c evs now')
  note A = appended_ok [OF conjunct1 [OF append.IH] append.hyps(3,4)]
  have w: "workerAppend now' c = (appendEvents now' evs c)\<lparr>worker := WorkerIdle\<rparr>" using append.hyps(2) by (simp add: workerAppend_def)
  have "cacheOK now' (recent @ evs) (health @ evs) (workerAppend now' c)" using A(1) by (simp add: w cacheOK_def)
  moreover have "slotsOK n (workerAppend now' c)" using append.IH append.hyps(2) unfolding w by (subst A(2)) (simp add: slotsOK_def)
  ultimately show ?case by blast
next
  case (close now recent health n c)
  then show ?case using worker_slots(4) by (simp add: cacheOK_def cache_Close_def)
next
  case (exit now recent health n c)
  have "cacheOK now recent health (workerStop c) = cacheOK now recent health c" by (rule cacheOK_same) (simp_all add: workerStop_def)
  then show ?case using exit.IH worker_slots(3) by blast
qed

section \<open>Starting\<close>

lemma query_faultless: "faults t = [] \<Longrightarrow> query f t = (t, Inr (f t))"
  by (simp add: query_def)

lemma scan_faultless: "faults t = [] \<Longrightarrow> \<exists>c'. scanHealthRows n handle rows batch t c = (t, c', None)"
  by (induction rows arbitrary: batch c) (auto simp: query_faultless Let_def)

lemma scan_keeps_window:
  "scanHealthRows n (\<lambda>batch c. fst (appendCredentialHealthRowsLocked batch c)) rows batch t c = (t', c', None) \<Longrightarrow>
   cacheWindow c' = cacheWindow c \<and> appendSlots c' = appendSlots c \<and> stopped c' = stopped c"
  using scan_health by fastforce

lemma start_faultless:
  assumes "faults t = []"
  shows "\<exists>c. NewUsageRecentEventCache older windowOption sizeOption now (Some t) = (Some t, Inr c) \<and>
    cacheWindow c = (if windowOption \<le> 0 then usageRecentEventCacheDefaultWindow else windowOption) \<and>
    appendSlots c = (if sizeOption \<le> 0 then usageRecentEventCacheDefaultQueueSize else sizeOption) \<and> \<not> stopped c"
proof -
  let ?e = "newEmptyUsageRecentEventCache windowOption sizeOption"
  let ?rows = "map recentRow (eventsFrom older (now - cacheWindow ?e) t)"
  let ?c = "pruneLocked now (appendRecentEventsLocked ?rows ?e)"
  have pool: "stringPool ?e = refs (pooledIn (cached ?e))" by (simp add: newEmptyUsageRecentEventCache_def Let_def refs_def fun_eq_iff)
  have w: "cacheWindow ?c = cacheWindow ?e \<and> appendSlots ?c = appendSlots ?e \<and> stopped ?c = stopped ?e" using append_rows [OF pool] by (simp add: prune_cache)
  obtain c2 where c2: "scanHealthRows credentialHealthStartupBatchSize (\<lambda>batch c. fst (appendCredentialHealthRowsLocked batch c))
      (credentialHealthRowsFromUsageEvents (eventsFrom older (now - credentialHealthWindow) t)) [] t ?c = (t, c2, None)"
    using scan_faultless [OF assms] by fast
  then have "loadCredentialHealthCacheRowsBatched older (now - credentialHealthWindow) credentialHealthStartupBatchSize
      (\<lambda>batch c. fst (appendCredentialHealthRowsLocked batch c)) t ?c = (t, c2, None)"
    using assms by (simp add: loadCredentialHealthCacheRowsBatched_def Let_def query_faultless credentialHealthStartupBatchSize_def)
  moreover note scan_keeps_window [OF c2]
  ultimately show ?thesis using assms w
    by (simp add: NewUsageRecentEventCache_def Let_def t_add_def loadUsageRecentEventCacheRows_def query_faultless)
       (simp add: newEmptyUsageRecentEventCache_def Let_def)
qed

section \<open>What the cache promises\<close>

text \<open>
  C27. The pool counts references exactly. In every run of the cache, with any interleaving of
  senders, worker and shutdown, a string is in the pool if and only if it is not empty and a cached
  event uses it, with the number of its uses as its count: no string leaks and none is dropped early.
\<close>

theorem pool_counts_references:
  assumes "cache_run older windowOption sizeOption now recent health n c"
  shows "stringPool c v =
    (let uses = length (filter (\<lambda>w. w = v) (concat (map pooled (cached c)))) in if v = [] \<or> uses = 0 then None else Some (int uses))"
proof -
  have uses: "count (mset xs) v = length (filter (\<lambda>w. w = v) xs)" for xs by (induction xs) auto
  have "stringPool c = refs (pooledIn (cached c))" using run_ok [OF assms] by (simp add: cacheOK_def)
  then show ?thesis by (simp only: refs_def pooledIn_def Let_def uses)
qed

text \<open>
  C26. The cache is exactly the window. A query that does not start before the window of the last
  append returns exactly the events that were loaded or appended so far, in order, whose time and
  API group it asks for, each as its projection; whatever else happens to the cache.
\<close>

theorem recent_cache_is_window:
  assumes "cache_run older windowOption sizeOption now recent health n c" "now - Window (Some c) \<le> from"
  shows "cache_EventsSince from apiGroup (Some c) = Some (filter (\<lambda>r. from \<le> re_Timestamp r \<and>
      (TrimSpace apiGroup = [] \<or> re_APIGroupKey r = TrimSpace apiGroup)) (map (\<lambda>e. recentEvent (recentRow e)) recent)) \<and>
    cache_Events from to includeEnd apiGroup (Some c) = Some (filter (\<lambda>r. from \<le> re_Timestamp r \<and>
      (re_Timestamp r < to \<or> includeEnd \<and> re_Timestamp r = to) \<and>
      (TrimSpace apiGroup = [] \<or> re_APIGroupKey r = TrimSpace apiGroup)) (map (\<lambda>e. recentEvent (recentRow e)) recent))"
proof -
  have c: "cached c = filter (\<lambda>r. now - cacheWindow c \<le> re_Timestamp r) (projected recent)" using run_ok [OF assms(1)] by (simp add: cacheOK_def)
  have w: "now - cacheWindow c \<le> from" using assms(2) by (simp add: Window_def)
  show ?thesis
  proof
    show "cache_EventsSince from apiGroup (Some c) = Some (filter (\<lambda>r. from \<le> re_Timestamp r \<and>
      (TrimSpace apiGroup = [] \<or> re_APIGroupKey r = TrimSpace apiGroup)) (map (\<lambda>e. recentEvent (recentRow e)) recent))"
      using w by (auto simp: cache_EventsSince_def Let_def c intro!: filter_cong)
    show "cache_Events from to includeEnd apiGroup (Some c) = Some (filter (\<lambda>r. from \<le> re_Timestamp r \<and>
      (re_Timestamp r < to \<or> includeEnd \<and> re_Timestamp r = to) \<and>
      (TrimSpace apiGroup = [] \<or> re_APIGroupKey r = TrimSpace apiGroup)) (map (\<lambda>e. recentEvent (recentRow e)) recent))"
      using w by (auto simp: cache_Events_def Let_def c filter_empty_conv intro!: filter_cong)
  qed
qed

text \<open>
  C28. A batch is dropped only when the queue is full or closed. When no slot is free, the cache is
  closed or all slots belong to waiting batches, to senders that are about to send or to the batch
  that the worker has just taken; a sender with a slot never finds the queue full, so that the
  defensive branch of the send is dead, and it delivers its batch unless the cache is closed.
\<close>

theorem append_drops_only_when_full:
  assumes "cache_run older windowOption sizeOption now recent health n c"
  shows "(\<not> snd (acquireAppendSlot c) \<longrightarrow> stopped c \<or>
      int n + int (length (appendCh c)) + (case worker c of WorkerTaken _ \<Rightarrow> 1 | _ \<Rightarrow> 0) = queueSize c) \<and>
    (0 < n \<longrightarrow> snd (selectSend prefersStop evs c) \<noteq> NoRoom \<and> (\<not> stopped c \<longrightarrow> snd (selectSend prefersStop evs c) = Sent))"
proof -
  have s: "slotsOK n c" using run_ok [OF assms] by blast
  moreover have "int (length (appendCh c)) < queueSize c" if "0 < n" using slot_means_room [of "n - 1" c] s that by simp
  ultimately show ?thesis
    by (auto simp: slotsOK_def acquireAppendSlot_def selectSend_def Let_def split: if_splits cacheWorker.splits)
qed

text \<open>The events of a credential within a span of time.\<close>

definition requestsOf :: "string \<Rightarrow> string \<Rightarrow> gotime \<Rightarrow> gotime \<Rightarrow> UsageEvent list \<Rightarrow> UsageEvent list" where
  "requestsOf authType authIndex from to evs =
     filter (\<lambda>e. AuthType e = authType \<and> AuthIndex e = authIndex \<and> from \<le> Timestamp e \<and> Timestamp e < to) evs"

lemma rows_of_requests:
  assumes "authType \<noteq> []" "authIndex \<noteq> []"
  shows "filter (\<lambda>row. newCredentialHealthKey (hr_AuthType row) (hr_AuthIndex row) = (\<lparr>hk_authType = authType, hk_authIndex = authIndex\<rparr>, True) \<and>
      from \<le> hr_Timestamp row \<and> hr_Timestamp row < to) (credentialHealthRowsFromUsageEvents evs) =
    credentialHealthRowsFromUsageEvents (requestsOf authType authIndex from to evs)"
  using assms by (induction evs) (auto simp: credentialHealthRowsFromUsageEvents_def requestsOf_def newCredentialHealthKey_def)

lemma request_totals:
  "total_of successOf (credentialHealthRowsFromUsageEvents evs) = int (length (filter (\<lambda>e. \<not> ev_Failed e) evs))"
  "total_of failureOf (credentialHealthRowsFromUsageEvents evs) = int (length (filter ev_Failed evs))"
  "total_of inputOf (credentialHealthRowsFromUsageEvents evs) = total_of (\<lambda>e. max (ev_InputTokens e) 0) evs"
  "total_of cacheReadOf (credentialHealthRowsFromUsageEvents evs) = total_of (\<lambda>e. max (ev_CacheReadTokens e) 0) evs"
  by (induction evs) (simp_all add: credentialHealthRowsFromUsageEvents_def successOf_def failureOf_def inputOf_def cacheReadOf_def)

lemma bucket_rows:
  assumes "b mod credentialHealthBucketSpan = 0"
  shows "rowsIn key (t_unix b) rows = filter (\<lambda>row. newCredentialHealthKey (hr_AuthType row) (hr_AuthIndex row) = (key, True) \<and>
      b \<le> hr_Timestamp row \<and> hr_Timestamp row < b + credentialHealthBucketSpan) rows"
  by (simp add: rowsIn_def bucketUnix_start [OF assms])

definition zeroSnapshot :: "gotime \<Rightarrow> CredentialHealthSnapshot" where
  "zeroSnapshot at = \<lparr>hs_WindowSeconds = credentialHealthWindow div Second, hs_BucketSeconds = credentialHealthBucketSpan div Second,
     hs_WindowStart = credentialHealthWindowStart at, hs_WindowEnd = credentialHealthWindowEnd at, hs_TotalSuccess = 0, hs_TotalFailure = 0,
     hs_InputTokens = 0, hs_CacheReadTokens = 0, hs_Buckets = []\<rparr>"

lemma build_fold:
  "buildCredentialHealthSnapshot counts at = foldl (addBucket counts) (zeroSnapshot at) (bucketStarts (credentialHealthWindowStart at) 30)"
proof -
  have "buildCredentialHealthSnapshot counts at =
      snapshotLoop counts (credentialHealthWindowStart at) (credentialHealthWindowEnd at) (zeroSnapshot at)"
    by (simp only: buildCredentialHealthSnapshot_def Let_def credentialHealthWindowStart_def zeroSnapshot_def)
  then show ?thesis using snapshotLoop_fold [of counts "credentialHealthWindowStart at" 30] by (simp only: window_start(2) [of at, symmetric])
qed

lemma window_cells:
  assumes "cacheOK now recent health c" "now \<le> at" "b \<in> set (bucketStarts (credentialHealthWindowStart at) 30)"
  shows "b mod credentialHealthBucketSpan = 0"
    "countsAt (t_unix b) (bucketsOf key (credentialHealth c)) = tally (rowsIn key (t_unix b) (credentialHealthRowsFromUsageEvents health))"
proof -
  have b: "b mod credentialHealthBucketSpan = 0 \<and> credentialHealthWindowStart at \<le> b"
    using assms(3) window_start(1) [of at] span_pos by (auto simp: bucketStarts_def)
  then have "t_unix (credentialHealthWindowStart at) \<le> t_unix b" by (simp add: t_unix_def zdiv_mono1)
  then have "t_unix (credentialHealthWindowStart now) \<le> t_unix b" using window_mono [OF assms(2)] by simp
  then show "b mod credentialHealthBucketSpan = 0"
    "countsAt (t_unix b) (bucketsOf key (credentialHealth c)) = tally (rowsIn key (t_unix b) (credentialHealthRowsFromUsageEvents health))"
    using assms(1) b by (simp_all add: cacheOK_def countOf_def)
qed

text \<open>
  C25. The health picture is exact. In every run of the cache the snapshot of a credential, taken at or
  after the last append, has thirty adjacent buckets whose last one contains the time of the query; its totals
  are the numbers of the successful and failed requests of the credential among all events loaded or
  appended within those five hours, its token sums are those of the same events (negative values count
  as nothing and the sums stop at the largest \<open>int64\<close>), and each bucket counts its own ten minutes.
\<close>

theorem health_snapshot_exact:
  assumes "cache_run older windowOption sizeOption now recent health n c" "now \<le> at" "authType \<noteq> []" "authIndex \<noteq> []"
  shows "\<exists>snap. CredentialHealth authType authIndex at (Some c) = Some snap \<and>
    hs_WindowStart snap mod (10 * Minute) = 0 \<and> at < hs_WindowEnd snap \<and> hs_WindowEnd snap \<le> at + 10 * Minute \<and>
    hs_WindowEnd snap = hs_WindowStart snap + 5 * Hour \<and>
    (let here = requestsOf authType authIndex (hs_WindowStart snap) (hs_WindowEnd snap) health in
      hs_TotalSuccess snap = i64 (int (length (filter (\<lambda>e. \<not> ev_Failed e) here))) \<and>
      hs_TotalFailure snap = i64 (int (length (filter ev_Failed here))) \<and>
      hs_InputTokens snap = min MaxInt64 (sum_list (map (\<lambda>e. max (ev_InputTokens e) 0) here)) \<and>
      hs_CacheReadTokens snap = min MaxInt64 (sum_list (map (\<lambda>e. max (ev_CacheReadTokens e) 0) here))) \<and>
    hs_Buckets snap = map (\<lambda>i. let b = hs_WindowStart snap + int i * (10 * Minute);
        here = requestsOf authType authIndex b (b + 10 * Minute) health in
        \<lparr>hs_StartTime = b, hs_EndTime = b + 10 * Minute, hs_Success = i64 (int (length (filter (\<lambda>e. \<not> ev_Failed e) here))),
         hs_Failure = i64 (int (length (filter ev_Failed here)))\<rparr>) [0..<30]"
proof -
  let ?key = "\<lparr>hk_authType = authType, hk_authIndex = authIndex\<rparr>" and ?ws = "credentialHealthWindowStart at"
  let ?counts = "bucketsOf ?key (credentialHealth c)" and ?rows = "credentialHealthRowsFromUsageEvents health"
  let ?snap = "foldl (addBucket ?counts) (zeroSnapshot at) (bucketStarts ?ws 30)"
  note C = window_cells [OF conjunct1 [OF run_ok [OF assms(1)]] assms(2)]
  have zero: "i64 0 = 0" "min MaxInt64 0 = 0" by (simp_all add: MaxInt64_def)
  have F: "let s = ?snap in
    hs_TotalSuccess s = i64 (total_of (\<lambda>b. total_of successOf (rowsIn ?key (t_unix b) ?rows)) (bucketStarts ?ws 30)) \<and>
    hs_TotalFailure s = i64 (total_of (\<lambda>b. total_of failureOf (rowsIn ?key (t_unix b) ?rows)) (bucketStarts ?ws 30)) \<and>
    hs_InputTokens s = min MaxInt64 (total_of (\<lambda>b. total_of inputOf (rowsIn ?key (t_unix b) ?rows)) (bucketStarts ?ws 30)) \<and>
    hs_CacheReadTokens s = min MaxInt64 (total_of (\<lambda>b. total_of cacheReadOf (rowsIn ?key (t_unix b) ?rows)) (bucketStarts ?ws 30)) \<and>
    hs_WindowStart s = ?ws \<and> hs_WindowEnd s = credentialHealthWindowEnd at \<and>
    hs_Buckets s = map (\<lambda>b. \<lparr>hs_StartTime = b, hs_EndTime = b + credentialHealthBucketSpan,
       hs_Success = i64 (total_of successOf (rowsIn ?key (t_unix b) ?rows)),
       hs_Failure = i64 (total_of failureOf (rowsIn ?key (t_unix b) ?rows))\<rparr>) (bucketStarts ?ws 30)"
    using fold_buckets [of "bucketStarts ?ws 30" ?counts "\<lambda>b. rowsIn ?key (t_unix b) ?rows" "zeroSnapshot at" 0 0 0 0] C(2)
    by (simp add: zeroSnapshot_def zero)
  have each: "rowsIn ?key (t_unix b) ?rows = credentialHealthRowsFromUsageEvents (requestsOf authType authIndex b (b + credentialHealthBucketSpan) health)"
    if "b \<in> set (bucketStarts ?ws 30)" for b
    using bucket_rows [of b ?key ?rows] rows_of_requests [OF assms(3,4)] C(1) [OF that] by simp
  have totals: "total_of (\<lambda>b. total_of f (rowsIn ?key (t_unix b) ?rows)) (bucketStarts ?ws 30) =
      total_of f (credentialHealthRowsFromUsageEvents (requestsOf authType authIndex ?ws (credentialHealthWindowEnd at) health))" for f
    unfolding window_sum [OF window_start(1)] window_start(2) [of at] rows_of_requests [OF assms(3,4)] ..
  have buckets: "hs_Buckets ?snap = map (\<lambda>b. let here = requestsOf authType authIndex b (b + credentialHealthBucketSpan) health in
        \<lparr>hs_StartTime = b, hs_EndTime = b + credentialHealthBucketSpan, hs_Success = i64 (int (length (filter (\<lambda>e. \<not> ev_Failed e) here))),
         hs_Failure = i64 (int (length (filter ev_Failed here)))\<rparr>) (bucketStarts ?ws 30)"
    using F each by (simp add: Let_def request_totals)
  show ?thesis
  proof (intro exI [of _ ?snap] conjI)
    show "CredentialHealth authType authIndex at (Some c) = Some ?snap"
      using assms(3,4) build_fold by (simp add: CredentialHealth_def newCredentialHealthKey_def)
    show "hs_WindowStart ?snap mod (10 * Minute) = 0" using F window_start(1) [of at] by (simp add: Let_def credentialHealthBucketSpan_def)
    show "at < hs_WindowEnd ?snap" "hs_WindowEnd ?snap \<le> at + 10 * Minute"
      using F window_start(4) [of at] window_start(3) [of at] by (simp_all add: Let_def credentialHealthBucketSpan_def)
    show "hs_WindowEnd ?snap = hs_WindowStart ?snap + 5 * Hour"
      using F window_start(2) [of at] by (simp add: Let_def credentialHealthBucketSpan_def Minute_def Hour_def)
    show "let here = requestsOf authType authIndex (hs_WindowStart ?snap) (hs_WindowEnd ?snap) health in
      hs_TotalSuccess ?snap = i64 (int (length (filter (\<lambda>e. \<not> ev_Failed e) here))) \<and>
      hs_TotalFailure ?snap = i64 (int (length (filter ev_Failed here))) \<and>
      hs_InputTokens ?snap = min MaxInt64 (sum_list (map (\<lambda>e. max (ev_InputTokens e) 0) here)) \<and>
      hs_CacheReadTokens ?snap = min MaxInt64 (sum_list (map (\<lambda>e. max (ev_CacheReadTokens e) 0) here))"
      using F by (simp add: Let_def totals request_totals)
    show "hs_Buckets ?snap = map (\<lambda>i. let b = hs_WindowStart ?snap + int i * (10 * Minute);
        here = requestsOf authType authIndex b (b + 10 * Minute) health in
        \<lparr>hs_StartTime = b, hs_EndTime = b + 10 * Minute, hs_Success = i64 (int (length (filter (\<lambda>e. \<not> ev_Failed e) here))),
         hs_Failure = i64 (int (length (filter ev_Failed here)))\<rparr>) [0..<30]"
      using buckets F by (simp add: bucketStarts_def comp_def credentialHealthBucketSpan_def Let_def)
  qed
qed

section \<open>A concrete run\<close>

text \<open>The cache starts on a database with one event of a credential; then a sender takes a slot.\<close>

definition keyEvent :: UsageEvent where
  "keyEvent = sampleEvent\<lparr>AuthIndex := ''k''\<rparr>"

lemma sample_start: "\<exists>c. cache_run (<) 0 0 20 [keyEvent] [keyEvent] 0 c \<and> cacheWindow c = 70 * Minute \<and> appendSlots c = 100 \<and> \<not> stopped c"
proof -
  let ?t = "(emptyStore [])\<lparr>usage_events := [keyEvent]\<rparr>"
  have "faults ?t = []" by (simp add: emptyStore_def)
  then obtain c where c: "NewUsageRecentEventCache (<) 0 0 20 (Some ?t) = (Some ?t, Inr c)" "cacheWindow c = 70 * Minute"
    "appendSlots c = 100 \<and> \<not> stopped c"
    using start_faultless [of ?t "(<)" 0 0 20] by (auto simp: usageRecentEventCacheDefaultWindow_def usageRecentEventCacheDefaultQueueSize_def)
  have "eventsFrom (<) (20 - 70 * Minute) ?t = [keyEvent]" "eventsFrom (<) (20 - credentialHealthWindow) ?t = [keyEvent]"
    by (simp_all add: eventsFrom_def sortSlice_def keyEvent_def sampleEvent_def credentialHealthWindow_def Minute_def Hour_def)
  then have "cache_run (<) 0 0 20 [keyEvent] [keyEvent] 0 c" using cache_run.start [OF c(1)] c(2) by simp
  then show ?thesis using c(2,3) by blast
qed

lemma keyEvent_parts: "Timestamp keyEvent = 5" "AuthType keyEvent = ''apikey''" "AuthIndex keyEvent = ''k''" "\<not> ev_Failed keyEvent"
  "re_Timestamp (recentEvent (recentRow keyEvent)) = 5" "re_APIGroupKey (recentEvent (recentRow keyEvent)) = ''codex''"
  by (simp_all add: keyEvent_def sampleEvent_def recentEvent_def recentRow_def split: prod.splits) code_simp

theorem recent_cache_is_window_witness:
  "\<exists>c. cache_EventsSince 0 ''codex'' (Some c) = Some [recentEvent (recentRow keyEvent)] \<and> cache_Events 0 5 False [] (Some c) = Some []"
proof -
  obtain c where c: "cache_run (<) 0 0 20 [keyEvent] [keyEvent] 0 c" "cacheWindow c = 70 * Minute" using sample_start by blast
  have "TrimSpace ''codex'' = ''codex''" by code_simp
  then show ?thesis
    using recent_cache_is_window [OF c(1), of 0 "''codex''" 5 False] recent_cache_is_window [OF c(1), of 0 "[]" 5 False] c(2)
    by (intro exI [of _ c]) (simp add: Window_def Minute_def keyEvent_parts)
qed

theorem pool_counts_references_witness: "\<exists>c :: UsageRecentEventCache. stringPool c ''codex'' = Some 2 \<and> stringPool c ''absent'' = None"
proof -
  obtain c where c: "cache_run (<) 0 0 20 [keyEvent] [keyEvent] 0 c" "cacheWindow c = 70 * Minute" using sample_start by blast
  have "cached c = [recentEvent (recentRow keyEvent)]" using run_ok [OF c(1)] c(2) by (simp add: cacheOK_def keyEvent_parts Minute_def)
  moreover have "length (filter (\<lambda>w. w = ''codex'') (pooled (recentEvent (recentRow keyEvent)))) = 2"
    "length (filter (\<lambda>w. w = ''absent'') (pooled (recentEvent (recentRow keyEvent)))) = 0" by code_simp+
  ultimately have "stringPool c ''codex'' = Some 2 \<and> stringPool c ''absent'' = None"
    using pool_counts_references [OF c(1), of "''codex''"] pool_counts_references [OF c(1), of "''absent''"] by (simp add: Let_def)
  then show ?thesis by blast
qed

theorem health_snapshot_exact_witness:
  "\<exists>c snap. CredentialHealth ''apikey'' ''k'' 20 (Some c) = Some snap \<and> hs_TotalSuccess snap = 1 \<and> length (hs_Buckets snap) = 30"
proof -
  obtain c where c: "cache_run (<) 0 0 20 [keyEvent] [keyEvent] 0 c" using sample_start by blast
  obtain snap where snap: "CredentialHealth ''apikey'' ''k'' 20 (Some c) = Some snap" "hs_WindowStart snap mod (10 * Minute) = 0"
    "20 < hs_WindowEnd snap" "hs_WindowEnd snap \<le> 20 + 10 * Minute" "hs_WindowEnd snap = hs_WindowStart snap + 5 * Hour"
    "hs_TotalSuccess snap = i64 (int (length (filter (\<lambda>e. \<not> ev_Failed e)
       (requestsOf ''apikey'' ''k'' (hs_WindowStart snap) (hs_WindowEnd snap) [keyEvent]))))"
    "length (hs_Buckets snap) = 30"
    using health_snapshot_exact [OF c, of 20 "''apikey''" "''k''"] by (auto simp: Let_def)
  have "hs_WindowStart snap \<le> 5" using snap(2,4,5) by (simp add: Minute_def Hour_def)
  then show ?thesis using snap by (auto simp: requestsOf_def keyEvent_parts i64_def)
qed

theorem append_drops_only_when_full_witness:
  "\<exists>c. appendSlots c = 99 \<and> snd (selectSend True [keyEvent] c) = Sent"
proof -
  obtain c where c: "cache_run (<) 0 0 20 [keyEvent] [keyEvent] 0 c" "appendSlots c = 100 \<and> \<not> stopped c" using sample_start by blast
  then have "acquireAppendSlot c = (c\<lparr>appendSlots := 99\<rparr>, True)" by (simp add: acquireAppendSlot_def)
  from append_drops_only_when_full [OF cache_run.acquire [OF c(1) this]] show ?thesis
    using c(2) by (intro exI [of _ "c\<lparr>appendSlots := 99\<rparr>"]) simp
qed

end
