(* ===== verification/Go_Decimal.thy ===== *)
theory Go_Decimal
  imports Prelude "HOL-Library.Char_ord" "HOL-Library.List_Lexorder"
begin

text \<open>
  Decimal numbers in texts, as Go's \<open>strconv.Itoa\<close> and \<open>strconv.Atoi\<close> write and read them and as
  the package \<open>time\<close> pads them (\<open>appendInt\<close>). A stored text is compared as SQLite compares it,
  byte by byte, which is the lexicographic order of the library on \<open>string\<close>. The lemmas show that
  reading inverts writing and that texts of one width are ordered as their numbers are.
\<close>

section \<open>Digits\<close>

definition isDigit :: "char \<Rightarrow> bool" where
  "isDigit c \<longleftrightarrow> 48 \<le> byte c \<and> byte c \<le> 57"

definition digit :: "int \<Rightarrow> char" where
  "digit d = char_of (48 + nat d)"

definition digitVal :: "char \<Rightarrow> int" where
  "digitVal c = int (byte c) - 48"

definition decValue :: "string \<Rightarrow> int" where
  "decValue s = foldl (\<lambda>v c. 10 * v + digitVal c) 0 s"

function digits :: "int \<Rightarrow> string" where
  "digits x = (if x < 10 then [digit x] else digits (x div 10) @ [digit (x mod 10)])"
  by pat_completeness auto
termination
  by (relation "measure nat") auto

declare digits.simps [simp del]

text \<open>\<open>strconv.Itoa\<close>, and \<open>strconv.Atoi\<close> with its syntax and range errors.\<close>

definition Itoa :: "int \<Rightarrow> string" where
  "Itoa x = (if x < 0 then CHR ''-'' # digits (- x) else digits x)"

definition Atoi :: "string \<Rightarrow> int option" where
  "Atoi s =
     (let neg = (s \<noteq> [] \<and> hd s = CHR ''-'');
          ds = (if s \<noteq> [] \<and> (hd s = CHR ''-'' \<or> hd s = CHR ''+'') then tl s else s) in
      if ds = [] \<or> \<not> list_all isDigit ds then None
      else let v = (if neg then - decValue ds else decValue ds) in
           if in_i64 v then Some v else None)"

text \<open>\<open>appendInt\<close> of the package \<open>time\<close>: a number padded with zeros to a width.\<close>

definition appendInt :: "nat \<Rightarrow> int \<Rightarrow> string" where
  "appendInt width x =
     (let ds = digits \<bar>x\<bar> in
      (if x < 0 then ''-'' else []) @ replicate (width - length ds) CHR ''0'' @ ds)"

section \<open>Reading inverts writing\<close>

lemma byte_digit [simp, go_str]: "0 \<le> d \<Longrightarrow> d < 10 \<Longrightarrow> byte (digit d) = 48 + nat d"
  by (simp add: byte_def digit_def of_char_of)

lemma digitVal_digit [simp, go_str]: "0 \<le> d \<Longrightarrow> d < 10 \<Longrightarrow> digitVal (digit d) = d"
  by (simp add: digitVal_def)

lemma isDigit_digit [simp, go_str]: "0 \<le> d \<Longrightarrow> d < 10 \<Longrightarrow> isDigit (digit d)"
  by (auto simp: isDigit_def)

lemma digit_less [simp, go_str]:
  "0 \<le> d \<Longrightarrow> d < 10 \<Longrightarrow> 0 \<le> e \<Longrightarrow> e < 10 \<Longrightarrow> digit d < digit e \<longleftrightarrow> d < e"
  using byte_digit [of d] byte_digit [of e] by (auto simp: less_char_def byte_def)

lemma digit_eq [simp, go_str]:
  "0 \<le> d \<Longrightarrow> d < 10 \<Longrightarrow> 0 \<le> e \<Longrightarrow> e < 10 \<Longrightarrow> digit d = digit e \<longleftrightarrow> d = e"
  by (metis digitVal_digit)

lemma not_digit [simp, go_str]:
  "\<not> isDigit CHR ''-''" "\<not> isDigit CHR ''+''" "\<not> isDigit CHR '':''" "\<not> isDigit CHR ''T''"
  "\<not> isDigit CHR ''Z''" "\<not> isDigit CHR ''.''" "\<not> isDigit CHR '',''" "\<not> isDigit CHR '' ''"
  by (simp_all add: isDigit_def byte_def)

lemma digit_zero: "CHR ''0'' = digit 0"
  by code_simp

lemma decimal_snoc [simp]: "decValue (s @ [c]) = 10 * decValue s + digitVal c"
  by (simp add: decValue_def)

lemma decimal_Nil [simp]: "decValue [] = 0"
  by (simp add: decValue_def)

lemma digits_induct [consumes 1, case_names small step]:
  assumes "0 \<le> x" "\<And>x. 0 \<le> x \<Longrightarrow> x < 10 \<Longrightarrow> P x"
    and "\<And>x. 10 \<le> x \<Longrightarrow> P (x div 10) \<Longrightarrow> P x"
  shows "P (x :: int)"
  using assms(1)
proof (induction x rule: digits.induct)
  case (1 x)
  then show ?case using assms(2,3) [of x] by (cases "x < 10") auto
qed

lemma digits_all [go_str]: "0 \<le> x \<Longrightarrow> list_all isDigit (digits x)"
  by (induction x rule: digits_induct) (simp_all add: digits.simps [of x for x])

lemma digits_ne [simp]: "digits x \<noteq> []"
  by (simp add: digits.simps [of x])

lemma decimal_digits [go_str]: "0 \<le> x \<Longrightarrow> decValue (digits x) = x"
proof (induction x rule: digits_induct)
  case (small x)
  then show ?case using decimal_snoc [of "[]"] by (simp add: digits.simps [of x])
next
  case (step x)
  then show ?case by (simp add: digits.simps [of x])
qed

lemma hd_digits: "0 \<le> x \<Longrightarrow> isDigit (hd (digits x))"
  using digits_all [of x] digits_ne [of x] by (cases "digits x") auto

lemma Atoi_Itoa: "in_i64 x \<Longrightarrow> Atoi (Itoa x) = Some x"
proof (cases "x < 0")
  case False
  assume r: "in_i64 x"
  from False have "hd (digits x) \<noteq> CHR ''-''" "hd (digits x) \<noteq> CHR ''+''"
    using hd_digits [of x] not_digit(1,2) by fastforce+
  with False r show ?thesis by (simp add: Itoa_def Atoi_def digits_all decimal_digits)
qed (simp add: Itoa_def Atoi_def digits_all decimal_digits)

section \<open>Numbers of a fixed width\<close>

fun fixed :: "nat \<Rightarrow> int \<Rightarrow> string" where
  "fixed 0 x = []"
| "fixed (Suc w) x = fixed w (x div 10) @ [digit (x mod 10)]"

lemma length_fixed [simp, go_str]: "length (fixed w x) = w"
  by (induction w arbitrary: x) auto

lemma fixed_zero: "fixed w 0 = replicate w CHR ''0''"
  by (induction w) (simp_all add: digit_zero replicate_append_same)

lemma fixed_all [simp, go_str]: "list_all isDigit (fixed w x)"
  by (induction w arbitrary: x) auto

lemma decimal_fixed [go_str]: "0 \<le> x \<Longrightarrow> x < 10 ^ w \<Longrightarrow> decValue (fixed w x) = x"
proof (induction w arbitrary: x)
  case (Suc w)
  then have "x div 10 < 10 ^ w" by (simp add: div_less_iff_less_mult mult.commute)
  with Suc show ?case by simp
qed simp

lemma pad_digits: "0 < w \<Longrightarrow> 0 \<le> x \<Longrightarrow> x < 10 ^ w \<Longrightarrow> replicate (w - length (digits x)) CHR ''0'' @ digits x = fixed w x"
proof (induction w arbitrary: x)
  case (Suc w)
  show ?case
  proof (cases "x < 10")
    case True
    then have "fixed w (x div 10) = replicate w CHR ''0''" using Suc.prems by (simp add: fixed_zero)
    with True Suc.prems show ?thesis by (simp add: digits.simps [of x])
  next
    case False
    then have "0 < w" using Suc.prems by (cases w) auto
    moreover have "x div 10 < 10 ^ w" using Suc.prems by (simp add: div_less_iff_less_mult mult.commute)
    ultimately have "replicate (w - length (digits (x div 10))) CHR ''0'' @ digits (x div 10) = fixed w (x div 10)"
      using Suc by simp
    with False show ?thesis by (simp add: digits.simps [of x])
  qed
qed simp

lemma appendInt_fixed [go_str]: "0 < w \<Longrightarrow> 0 \<le> x \<Longrightarrow> x < 10 ^ w \<Longrightarrow> appendInt w x = fixed w x"
  by (simp add: appendInt_def pad_digits)

lemma less_div_mod: "0 < n \<Longrightarrow> x < y \<longleftrightarrow> x div n < y div n \<or> x div n = y div n \<and> x mod n < y mod n"
  for n x y :: int
proof -
  assume n: "0 < n"
  have m: "x < y \<Longrightarrow> x div n \<le> y div n" "y \<le> x \<Longrightarrow> y div n \<le> x div n"
    using zdiv_mono1 [OF _ n] by simp_all
  consider "x div n < y div n" | "x div n = y div n" | "y div n < x div n" by linarith
  then show ?thesis
  proof cases
    case 2
    then have "x < y \<longleftrightarrow> x mod n < y mod n"
      by (metis add_less_cancel_left div_mult_mod_eq)
    with 2 show ?thesis by simp
  qed (use m in linarith)+
qed

lemma append_less: "length p = length p' \<Longrightarrow> p @ q < p' @ q' \<longleftrightarrow> p < p' \<or> p = p' \<and> q < q'"
  for p p' :: "'a :: order list"
  by (induction p p' rule: list_induct2) auto

lemma fixed_eq [go_str]:
  "0 \<le> x \<Longrightarrow> x < 10 ^ w \<Longrightarrow> 0 \<le> y \<Longrightarrow> y < 10 ^ w \<Longrightarrow> fixed w x = fixed w y \<longleftrightarrow> x = y"
  by (metis decimal_fixed)

lemma fixed_less [go_str]:
  "0 \<le> x \<Longrightarrow> x < 10 ^ w \<Longrightarrow> 0 \<le> y \<Longrightarrow> y < 10 ^ w \<Longrightarrow> fixed w x < fixed w y \<longleftrightarrow> x < y"
proof (induction w arbitrary: x y)
  case (Suc w)
  then have b: "x div 10 < 10 ^ w" "y div 10 < 10 ^ w"
    by (simp_all add: div_less_iff_less_mult mult.commute)
  then have lt: "fixed w (x div 10) < fixed w (y div 10) \<longleftrightarrow> x div 10 < y div 10"
    using Suc by simp
  have eq: "fixed w (x div 10) = fixed w (y div 10) \<longleftrightarrow> x div 10 = y div 10"
    using Suc.prems b by (intro fixed_eq) simp_all
  show ?case by (simp add: append_less lt eq less_div_mod [of 10 x y])
qed simp

end
