(* ===== verification/Calendar.thy ===== *)
theory Calendar
  imports Local_Time Go_Decimal "HOL-Library.Product_Lexorder"
begin

text \<open>
  The calendar of Go's package \<open>time\<close>: the date of a day number (days since 1970-01-01, as in
  \<open>Local_Time\<close>) by cycles of 400, 100, 4 and 1 years, and the day number of a date. The lemmas show
  that the two are inverse and that dates are ordered as days are.
\<close>

section \<open>Years\<close>

definition isLeap :: "int \<Rightarrow> bool" where
  "isLeap year \<longleftrightarrow> year mod 4 = 0 \<and> (year mod 100 \<noteq> 0 \<or> year mod 400 = 0)"

definition yearLength :: "int \<Rightarrow> int" where
  "yearLength year = (if isLeap year then 366 else 365)"

text \<open>The year of a day and the days before it in that year.\<close>

definition yearDay :: "int \<Rightarrow> int \<times> int" where
  "yearDay day =
     (let d = day + 719162;
          n400 = d div 146097; d1 = d mod 146097;
          n100 = min 3 (d1 div 36524); d2 = d1 - n100 * 36524;
          n4 = d2 div 1461; d3 = d2 mod 1461;
          n1 = min 3 (d3 div 365) in
      (1 + 400 * n400 + 100 * n100 + 4 * n4 + n1, d3 - n1 * 365))"

definition yearStart :: "int \<Rightarrow> int" where
  "yearStart year =
     365 * (year - 1) + (year - 1) div 4 - (year - 1) div 100 + (year - 1) div 400 - 719162"

section \<open>Months\<close>

definition monthLengths :: "int \<Rightarrow> int list" where
  "monthLengths year = [31, if isLeap year then 29 else 28, 31, 30, 31, 30, 31, 31, 30, 31, 30, 31]"

definition daysIn :: "int \<Rightarrow> int \<Rightarrow> int" where
  "daysIn month year = monthLengths year ! nat (month - 1)"

fun splitMonth :: "int \<Rightarrow> int list \<Rightarrow> int \<Rightarrow> int \<times> int" where
  "splitMonth m [] d = (m, d + 1)"
| "splitMonth m (n # ls) d = (if d < n then (m, d + 1) else splitMonth (m + 1) ls (d - n))"

definition dateOf :: "int \<Rightarrow> int \<times> int \<times> int" where
  "dateOf day = (case yearDay day of (y, yd) \<Rightarrow> (y, splitMonth 1 (monthLengths y) yd))"

definition dayOf :: "int \<Rightarrow> int \<Rightarrow> int \<Rightarrow> int" where
  "dayOf y m d = yearStart y + sum_list (take (nat (m - 1)) (monthLengths y)) + (d - 1)"

definition validDate :: "int \<Rightarrow> int \<Rightarrow> int \<Rightarrow> bool" where
  "validDate y m d \<longleftrightarrow> 1 \<le> m \<and> m \<le> 12 \<and> 1 \<le> d \<and> d \<le> daysIn m y"

section \<open>The year of a day\<close>

lemma div_step:
  fixes y k :: int
  assumes k: "0 < k"
  shows "(y + 1) div k = y div k + (if (y + 1) mod k = 0 then 1 else 0)"
proof -
  have y: "y + 1 = k * (y div k) + (y mod k + 1)" by simp
  show ?thesis
  proof (cases "y mod k + 1 = k")
    case True
    then have "y + 1 = k * (y div k + 1) + 0" using y by (simp add: algebra_simps)
    then have "(y + 1) div k = y div k + 1" "(y + 1) mod k = 0"
      using k by (metis int_div_pos_eq order_refl, metis mod_mult_self1_is_0 add.right_neutral)
    then show ?thesis by simp
  next
    case False
    then have "y mod k + 1 < k" "0 \<le> y mod k + 1"
      using pos_mod_bound [OF k, of y] pos_mod_sign [OF k, of y] by linarith+
    then have "(y + 1) div k = y div k" "(y + 1) mod k = y mod k + 1"
      using y int_div_pos_eq int_mod_pos_eq by blast+
    moreover have "y mod k + 1 \<noteq> 0" using pos_mod_sign [OF k, of y] by linarith
    ultimately show ?thesis by simp
  qed
qed

lemma leap_mods: "y mod 400 = 0 \<Longrightarrow> y mod 100 = 0" "y mod 100 = 0 \<Longrightarrow> y mod 4 = 0" for y :: int
  using dvd_trans [of 100 400 y] dvd_trans [of 4 100 y] by (simp_all add: dvd_eq_mod_eq_0 [symmetric])

lemma yearStart_Suc: "yearStart (y + 1) = yearStart y + yearLength y"
proof -
  define b where "b k = (if y mod k = 0 then 1 else 0 :: int)" for k
  have "y div k = (y - 1) div k + b k" if "0 < k" for k
    using div_step [OF that, of "y - 1"] by (simp add: b_def)
  from this [of 4] this [of 100] this [of 400]
  have "yearStart (y + 1) = yearStart y + 365 + b 4 - b 100 + b 400"
    unfolding yearStart_def by simp
  moreover have "yearLength y = 365 + b 4 - b 100 + b 400"
    using leap_mods [of y]
    by (cases "y mod 400 = 0"; cases "y mod 100 = 0"; cases "y mod 4 = 0")
       (simp_all only: yearLength_def isLeap_def b_def, simp_all)
  ultimately show ?thesis by simp
qed

lemma yearStart_mono: "y \<le> y' \<Longrightarrow> yearStart y \<le> yearStart y'"
proof (induction y' rule: int_ge_induct)
  case (step z)
  then show ?case using yearStart_Suc [of z] by (simp add: yearLength_def split: if_splits)
qed simp

lemma year_unique:
  assumes "yearStart y + r = yearStart y' + r'" "0 \<le> r" "r < yearLength y" "0 \<le> r'" "r' < yearLength y'"
  shows "y = y' \<and> r = r'"
proof -
  have "\<not> y < y'" "\<not> y' < y"
    using yearStart_mono [of "y + 1" y'] yearStart_mono [of "y' + 1" y] assms
    by (auto simp: yearStart_Suc)
  with assms show ?thesis by simp
qed

text \<open>A digit of a mixed radix number that is capped at 3.\<close>

lemma capped_digit:
  fixes x k :: int
  assumes "0 < k" "0 \<le> x" "q = min 3 (x div k)"
  shows "0 \<le> q" "q \<le> 3" "0 \<le> x - q * k" "q < 3 \<Longrightarrow> x - q * k < k"
proof -
  have x: "x = k * (x div k) + x mod k" "0 \<le> x mod k" "x mod k < k" using assms(1) by simp_all
  have "0 \<le> x div k" using assms by (simp add: pos_imp_zdiv_nonneg_iff)
  then show "0 \<le> q" "q \<le> 3" using assms(3) by simp_all
  have "q * k \<le> (x div k) * k" using assms(1,3) by (intro mult_right_mono) simp_all
  moreover have "(x div k) * k \<le> x" using x by (metis le_add_same_cancel1 mult.commute)
  ultimately show "0 \<le> x - q * k" by linarith
  show "x - q * k < k" if "q < 3" 
  proof -
    have "q = x div k" using that assms(3) by simp
    then have "x - q * k = x mod k" by (simp add: minus_div_mult_eq_mod)
    then show ?thesis using x(3) by simp
  qed
qed

lemma last_digit:
  fixes y k n f :: int
  assumes "y - 1 = n * k + f" "0 \<le> f" "f < n"
  shows "(y - 1) div n = k" "y mod n = 0 \<longleftrightarrow> f = n - 1"
proof -
  show k: "(y - 1) div n = k" using assms by (rule int_div_pos_eq)
  have y: "y = n * k + (f + 1)" using assms(1) by simp
  show "y mod n = 0 \<longleftrightarrow> f = n - 1"
  proof (cases "f = n - 1")
    case True
    then have "y = n * (k + 1)" using y by (simp add: algebra_simps)
    with True show ?thesis by simp
  next
    case False
    then have "y mod n = f + 1" using int_mod_pos_eq [OF y] assms by simp
    with False assms show ?thesis by simp
  qed
qed

lemma yearDay_year:
  assumes "yearDay day = (y, r)"
  shows "yearStart y + r = day \<and> 0 \<le> r \<and> r < yearLength y"
proof -
  define d where "d = day + 719162"
  define a where "a = d div 146097"
  define d1 where "d1 = d mod 146097"
  define b where "b = min 3 (d1 div 36524)"
  define d2 where "d2 = d1 - b * 36524"
  define c where "c = d2 div 1461"
  define d3 where "d3 = d2 mod 1461"
  define e where "e = min 3 (d3 div 365)"
  have "yearDay day = (1 + 400 * a + 100 * b + 4 * c + e, d3 - e * 365)"
    unfolding yearDay_def Let_def d_def [symmetric] a_def [symmetric] d1_def [symmetric] b_def [symmetric]
      d2_def [symmetric] c_def [symmetric] d3_def [symmetric] e_def [symmetric] by (rule refl)
  then have y: "y - 1 = 400 * a + 100 * b + 4 * c + e" and r: "r = d3 - e * 365"
    using assms by simp_all
  have d1: "0 \<le> d1" "d1 < 146097" "d = 146097 * a + d1" by (simp_all add: d1_def a_def)
  have b: "0 \<le> b" "b \<le> 3" "0 \<le> d2" "b < 3 \<Longrightarrow> d2 < 36524"
    unfolding d2_def using d1 capped_digit [OF _ _ b_def] by simp_all
  have c: "d2 = 1461 * c + d3" "0 \<le> d3" "d3 < 1461" by (simp_all add: c_def d3_def)
  have d2: "d2 \<le> 36524" using b d1 unfolding d2_def by (cases "b = 3") auto
  have c': "0 \<le> c" using b(3) by (simp add: c_def pos_imp_zdiv_nonneg_iff)
  have c24: "c \<le> 24" using d2 c by linarith
  have e: "0 \<le> e" "e \<le> 3" "0 \<le> r" "e < 3 \<Longrightarrow> r < 365"
    unfolding r using c capped_digit [OF _ _ e_def] by simp_all
  note y4 = last_digit [of y 4 "100 * a + 25 * b + c" e]
  note y100 = last_digit [of y 100 "4 * a + b" "4 * c + e"]
  note y400 = last_digit [of y 400 a "100 * b + 4 * c + e"]
  have "yearStart y + r = day"
    using y4(1) y100(1) y400(1) y r d1 c b c' c24 e unfolding yearStart_def d2_def d_def by simp
  moreover have "isLeap y \<longleftrightarrow> e = 3 \<and> (c = 24 \<longrightarrow> b = 3)"
    using y4(2) y100(2) y400(2) y b c' c24 e unfolding isLeap_def by auto
  moreover have "e = 3 \<Longrightarrow> r \<le> 365" "e = 3 \<Longrightarrow> c = 24 \<Longrightarrow> b \<noteq> 3 \<Longrightarrow> r \<le> 364"
    using r c b(2,4) by auto
  ultimately show ?thesis using e unfolding yearLength_def by (cases "e = 3") auto
qed

lemma yearDay_of: "0 \<le> r \<Longrightarrow> r < yearLength y \<Longrightarrow> yearDay (yearStart y + r) = (y, r)"
proof -
  assume "0 \<le> r" "r < yearLength y"
  moreover obtain y' r' where y': "yearDay (yearStart y + r) = (y', r')" by (cases "yearDay (yearStart y + r)")
  moreover have "yearStart y' + r' = yearStart y + r" "0 \<le> r'" "r' < yearLength y'"
    using yearDay_year [OF y'] by blast+
  ultimately have "y = y' \<and> r = r'" by (intro year_unique) simp_all
  with y' show ?thesis by simp
qed

section \<open>Dates and days are inverse\<close>

lemma splitMonth_within:
  "0 \<le> d \<Longrightarrow> d < sum_list ls \<Longrightarrow> \<forall>n\<in>set ls. 0 \<le> n \<Longrightarrow> splitMonth m ls d = (m', d') \<Longrightarrow>
     m \<le> m' \<and> m' < m + int (length ls) \<and> 1 \<le> d' \<and> d' \<le> ls ! nat (m' - m) \<and>
     sum_list (take (nat (m' - m)) ls) + (d' - 1) = d"
proof (induction m ls d arbitrary: m' d' rule: splitMonth.induct)
  case (2 m n ls d)
  show ?case
  proof (cases "d < n")
    case False
    then have ih: "m + 1 \<le> m' \<and> m' < m + 1 + int (length ls) \<and> 1 \<le> d' \<and> d' \<le> ls ! nat (m' - (m + 1)) \<and>
      sum_list (take (nat (m' - (m + 1))) ls) + (d' - 1) = d - n"
      using 2 by auto
    moreover have "nat (m' - m) = Suc (nat (m' - (m + 1)))" using conjunct1 [OF ih] by linarith
    ultimately show ?thesis by simp
  qed (use 2 in auto)
qed simp

lemma splitMonth_of:
  "i < length ls \<Longrightarrow> \<forall>n\<in>set ls. 0 \<le> n \<Longrightarrow> 1 \<le> d \<Longrightarrow> d \<le> ls ! i \<Longrightarrow>
     splitMonth m ls (sum_list (take i ls) + (d - 1)) = (m + int i, d)"
proof (induction ls arbitrary: i m)
  case (Cons n ls)
  show ?case
  proof (cases i)
    case (Suc j)
    have "0 \<le> sum_list (take j ls)" using Cons.prems(2) by (auto intro!: sum_list_nonneg dest: in_set_takeD)
    then have "splitMonth m (n # ls) (sum_list (take i (n # ls)) + (d - 1)) = splitMonth (m + 1) ls (sum_list (take j ls) + (d - 1))"
      using Suc Cons.prems by (simp add: algebra_simps)
    also have "\<dots> = (m + 1 + int j, d)" using Suc Cons.prems by (intro Cons.IH) auto
    finally show ?thesis using Suc by simp
  qed (use Cons.prems in simp)
qed simp

lemma monthLengths_facts:
  "length (monthLengths y) = 12" "sum_list (monthLengths y) = yearLength y" "\<forall>n\<in>set (monthLengths y). 0 \<le> n"
  by (auto simp: monthLengths_def yearLength_def)

lemma dateOf_valid:
  assumes "dateOf day = (y, m, d)"
  shows "validDate y m d" "dayOf y m d = day"
proof -
  obtain r where r: "yearDay day = (y, r)" "splitMonth 1 (monthLengths y) r = (m, d)"
    using assms by (auto simp: dateOf_def split: prod.splits)
  have y: "yearStart y + r = day" "0 \<le> r" "r < yearLength y" using yearDay_year [OF r(1)] by auto
  from splitMonth_within [OF y(2) _ _ r(2)] y(3) have
    "1 \<le> m" "m < 13" "1 \<le> d" "d \<le> daysIn m y" "sum_list (take (nat (m - 1)) (monthLengths y)) + (d - 1) = r"
    by (simp_all add: monthLengths_facts daysIn_def)
  with y show "validDate y m d" "dayOf y m d = day" by (auto simp: validDate_def dayOf_def)
qed

lemma dateOf_dayOf: "validDate y m d \<Longrightarrow> dateOf (dayOf y m d) = (y, m, d)"
proof -
  assume v: "validDate y m d"
  let ?i = "nat (m - 1)"
  let ?r = "sum_list (take ?i (monthLengths y)) + (d - 1)"
  have i: "?i < length (monthLengths y)" and d: "1 \<le> d" "d \<le> monthLengths y ! ?i"
    using v by (auto simp: validDate_def daysIn_def monthLengths_facts)
  have split: "monthLengths y = take ?i (monthLengths y) @ monthLengths y ! ?i # drop (Suc ?i) (monthLengths y)"
    using i by (simp add: id_take_nth_drop)
  have pos: "0 \<le> sum_list (take ?i (monthLengths y))" "0 \<le> sum_list (drop (Suc ?i) (monthLengths y))"
    using monthLengths_facts(3) [of y] by (auto intro!: sum_list_nonneg dest: in_set_takeD in_set_dropD)
  have "yearLength y = sum_list (take ?i (monthLengths y)) + (monthLengths y ! ?i + sum_list (drop (Suc ?i) (monthLengths y)))"
    unfolding monthLengths_facts(2) [symmetric] using arg_cong [OF split, of sum_list] by simp
  then have "0 \<le> ?r" "?r < yearLength y" using pos d by linarith+
  then have "yearDay (dayOf y m d) = (y, ?r)" using yearDay_of [of ?r y] by (simp add: dayOf_def add.assoc)
  moreover have "splitMonth 1 (monthLengths y) ?r = (m, d)"
    using splitMonth_of [OF i monthLengths_facts(3) d, of 1] v by (simp add: validDate_def)
  ultimately show ?thesis by (simp add: dateOf_def)
qed

section \<open>Dates are ordered as days\<close>

lemma splitMonth_ge: "m \<le> fst (splitMonth m ls c)"
  by (induction m ls c rule: splitMonth.induct) auto

lemma splitMonth_mono: "a < b \<Longrightarrow> splitMonth m ls a < splitMonth m ls b"
proof (induction m ls a arbitrary: b rule: splitMonth.induct)
  case (2 m n ls d)
  have "m < fst (splitMonth (m + 1) ls c)" for c
    using splitMonth_ge [of "m + 1" ls c] by linarith
  with 2 show ?case by (auto simp: less_prod_def')
qed simp

lemma dateOf_mono: "a < b \<Longrightarrow> dateOf a < dateOf b"
proof -
  assume ab: "a < b"
  obtain y r where y: "yearDay a = (y, r)" by (cases "yearDay a")
  obtain y' r' where y': "yearDay b = (y', r')" by (cases "yearDay b")
  note f = yearDay_year [OF y] yearDay_year [OF y']
  have "\<not> y' < y" using yearStart_mono [of "y' + 1" y] yearStart_Suc [of y'] f ab by auto
  moreover have "y = y' \<Longrightarrow> r < r'" using f ab by auto
  ultimately show ?thesis using splitMonth_mono [of r r' 1 "monthLengths y"]
    by (auto simp: dateOf_def y y' less_prod_def')
qed

lemma dateOf_less: "dateOf a < dateOf b \<longleftrightarrow> a < b"
  using dateOf_mono [of a b] dateOf_mono [of b a] by (cases a b rule: linorder_cases) auto

lemma dateOf_eq: "dateOf a = dateOf b \<longleftrightarrow> a = b"
  using dateOf_mono [of a b] dateOf_mono [of b a] by (cases a b rule: linorder_cases) auto

end
