(* ===== verification/Storage_Time.thy ===== *)
theory Storage_Time
  imports Calendar
begin

text \<open>
  \<^verbatim>\<open>internal/timeutil/storage.go\<close> and \<^verbatim>\<open>storage_serializer.go\<close>: the texts under which instants are stored.
  \<open>FormatStorageTime\<close> writes RFC 3339 in the project zone with a fraction of as many digits as are
  needed, \<open>FormatSortableStorageTime\<close> a text of fixed width in UTC, and \<open>ParseStorageTime\<close> reads either
  of them and the older layouts. \<open>time.Parse\<close> is modelled as the library's parser runs over a layout:
  a layout is the list of its elements, the separators as literals. The library's fast path for
  RFC 3339 accepts less and returns the same instants, so it is not modelled apart.
\<close>

section \<open>Writing\<close>

definition UTC :: Location where
  "UTC = (0, [])"

definition dateText :: "int \<times> int \<times> int \<Rightarrow> string" where
  "dateText date =
     (case date of (y, m, d) \<Rightarrow> appendInt 4 y @ ''-'' @ appendInt 2 m @ ''-'' @ appendInt 2 d)"

definition clockText :: "int \<Rightarrow> string" where
  "clockText c =
     appendInt 2 (c div 3600) @ '':'' @ appendInt 2 (c div 60 mod 60) @ '':'' @ appendInt 2 (c mod 60)"

definition dateTimeText :: "Location \<Rightarrow> gotime \<Rightarrow> string" where
  "dateTimeText loc t = dateText (dateOf (localDay loc t)) @ ''T'' @ clockText (localClock loc t)"

text \<open>\<open>.999999999\<close>: the fraction without trailing zeros, nothing for a whole second.\<close>

definition trimZeros :: "string \<Rightarrow> string" where
  "trimZeros s = rev (dropWhile (\<lambda>c. c = CHR ''0'') (rev s))"

definition appendNano :: "int \<Rightarrow> string" where
  "appendNano ns = (if ns = 0 then [] else ''.'' @ trimZeros (appendInt 9 ns))"

text \<open>\<open>Z07:00\<close>: the offset in whole minutes, truncated towards zero.\<close>

definition zoneText :: "int \<Rightarrow> string" where
  "zoneText offset =
     (if offset = 0 then ''Z''
      else let zone = (if offset < 0 then - (- offset div 60) else offset div 60) in
           (if zone < 0 then ''-'' else ''+'') @ appendInt 2 (\<bar>zone\<bar> div 60) @ '':'' @ appendInt 2 (\<bar>zone\<bar> mod 60))"

definition FormatStorageTime :: "Location \<Rightarrow> gotime \<Rightarrow> string" where
  "FormatStorageTime loc t = dateTimeText loc t @ appendNano (t_nsec t) @ zoneText (offset_at loc (t_unix t))"

definition FormatSortableStorageTime :: "gotime \<Rightarrow> string" where
  "FormatSortableStorageTime t = dateTimeText UTC t @ ''.'' @ appendInt 9 (t_nsec t) @ ''Z''"

section \<open>Reading\<close>

datatype std =
    Lit char
  | StdLongYear
  | StdZeroMonth
  | StdZeroDay
  | StdHour
  | StdZeroMinute
  | StdZeroSecond
  | StdFracSecond9
  | StdISO8601ColonTZ
  | StdNumColonTZ

record parsed =
  pYear :: int
  pMonth :: int
  pDay :: int
  pHour :: int
  pMin :: int
  pSec :: int
  pNsec :: int
  pZone :: "int option"

definition unparsed :: parsed where
  "unparsed = \<lparr>pYear = 0, pMonth = 1, pDay = 1, pHour = 0, pMin = 0, pSec = 0, pNsec = 0, pZone = None\<rparr>"

fun getnum :: "bool \<Rightarrow> string \<Rightarrow> (int \<times> string) option" where
  "getnum two [] = None"
| "getnum two (a # s) =
     (if \<not> isDigit a then None
      else if s \<noteq> [] \<and> isDigit (hd s) then Some (10 * digitVal a + digitVal (hd s), tl s)
      else if two then None else Some (digitVal a, s))"

definition getYear :: "string \<Rightarrow> (int \<times> string) option" where
  "getYear v =
     (if length v < 4 \<or> \<not> list_all isDigit (take 4 v) then None else Some (decValue (take 4 v), drop 4 v))"

definition commaOrPeriod :: "char \<Rightarrow> bool" where
  "commaOrPeriod c \<longleftrightarrow> c = CHR ''.'' \<or> c = CHR '',''"

definition fracStarts :: "string \<Rightarrow> bool" where
  "fracStarts v \<longleftrightarrow> 2 \<le> length v \<and> commaOrPeriod (hd v) \<and> isDigit (v ! 1)"

text \<open>\<open>parseNanoseconds\<close> of all the digits there are: those after the ninth are dropped.\<close>

definition parseFrac :: "string \<Rightarrow> int \<times> string" where
  "parseFrac v =
     (let ds = takeWhile isDigit (tl v); ns = take 9 ds in
      (decValue ns * 10 ^ (9 - length ns), dropWhile isDigit (tl v)))"

definition parseZone :: "bool \<Rightarrow> string \<Rightarrow> (int \<times> string) option" where
  "parseZone allowZ v =
     (if allowZ \<and> v \<noteq> [] \<and> hd v = CHR ''Z'' then Some (0, tl v)
      else if length v < 6 \<or> v ! 3 \<noteq> CHR '':'' then None
      else case getnum True (take 2 (drop 1 v)) of
        None \<Rightarrow> None
      | Some (hr, _) \<Rightarrow>
          (case getnum True (take 2 (drop 4 v)) of
             None \<Rightarrow> None
           | Some (mm, _) \<Rightarrow>
               (if 24 < hr \<or> 60 < mm then None
                else if hd v = CHR ''+'' then Some ((hr * 60 + mm) * 60, drop 6 v)
                else if hd v = CHR ''-'' then Some (- ((hr * 60 + mm) * 60), drop 6 v)
                else None)))"

fun isLit :: "std \<Rightarrow> bool" where
  "isLit (Lit _) = True"
| "isLit _ = False"

definition layoutHasFrac :: "std list \<Rightarrow> bool" where
  "layoutHasFrac layout \<longleftrightarrow> (case dropWhile isLit layout of StdFracSecond9 # _ \<Rightarrow> True | _ \<Rightarrow> False)"

text \<open>\<open>skip\<close> for one character of a literal: a space stands for any number of spaces.\<close>

fun skipLit :: "char \<Rightarrow> string \<Rightarrow> string option" where
  "skipLit c v =
     (if c = CHR '' '' then (if v \<noteq> [] \<and> hd v \<noteq> CHR '' '' then None else Some (dropWhile (\<lambda>x. x = CHR '' '') v))
      else if v = [] \<or> hd v \<noteq> c then None else Some (tl v))"

definition inRange :: "int \<Rightarrow> int \<Rightarrow> (int \<times> string) option \<Rightarrow> (int \<times> string) option" where
  "inRange lo hi r = (case r of Some (n, _) \<Rightarrow> if lo \<le> n \<and> n < hi then r else None | None \<Rightarrow> None)"

text \<open>One element of a layout.\<close>

fun parseStd :: "std \<Rightarrow> std list \<Rightarrow> string \<Rightarrow> parsed \<Rightarrow> (parsed \<times> string) option" where
  "parseStd (Lit c) layout v p = map_option (Pair p) (skipLit c v)"
| "parseStd StdLongYear layout v p = map_option (\<lambda>(n, r). (p\<lparr>pYear := n\<rparr>, r)) (getYear v)"
| "parseStd StdZeroMonth layout v p =
     map_option (\<lambda>(n, r). (p\<lparr>pMonth := n\<rparr>, r)) (inRange 1 13 (getnum True v))"
| "parseStd StdZeroDay layout v p = map_option (\<lambda>(n, r). (p\<lparr>pDay := n\<rparr>, r)) (getnum True v)"
| "parseStd StdHour layout v p =
     map_option (\<lambda>(n, r). (p\<lparr>pHour := n\<rparr>, r)) (inRange 0 24 (getnum False v))"
| "parseStd StdZeroMinute layout v p =
     map_option (\<lambda>(n, r). (p\<lparr>pMin := n\<rparr>, r)) (inRange 0 60 (getnum True v))"
| "parseStd StdZeroSecond layout v p =
     map_option (\<lambda>(n, r).
        if fracStarts r \<and> \<not> layoutHasFrac layout
        then (p\<lparr>pSec := n, pNsec := fst (parseFrac r)\<rparr>, snd (parseFrac r))
        else (p\<lparr>pSec := n\<rparr>, r)) (inRange 0 60 (getnum True v))"
| "parseStd StdFracSecond9 layout v p =
     Some (if fracStarts v then (p\<lparr>pNsec := fst (parseFrac v)\<rparr>, snd (parseFrac v)) else (p, v))"
| "parseStd StdISO8601ColonTZ layout v p = map_option (\<lambda>(n, r). (p\<lparr>pZone := Some n\<rparr>, r)) (parseZone True v)"
| "parseStd StdNumColonTZ layout v p = map_option (\<lambda>(n, r). (p\<lparr>pZone := Some n\<rparr>, r)) (parseZone False v)"

fun parseLayout :: "std list \<Rightarrow> string \<Rightarrow> parsed \<Rightarrow> parsed option" where
  "parseLayout [] v p = (if v = [] then Some p else None)"
| "parseLayout (std # layout) v p =
     (case parseStd std layout v p of None \<Rightarrow> None | Some (p', v') \<Rightarrow> parseLayout layout v' p')"

text \<open>\<open>time.ParseInLocation\<close>; \<open>time.Parse\<close> is the same with UTC for a layout that has no zone.\<close>

definition ParseInLocation :: "Location \<Rightarrow> std list \<Rightarrow> string \<Rightarrow> gotime option" where
  "ParseInLocation loc layout v =
     (case parseLayout layout v unparsed of
        None \<Rightarrow> None
      | Some p \<Rightarrow>
          if pDay p < 1 \<or> daysIn (pMonth p) (pYear p) < pDay p then None
          else let day = dayOf (pYear p) (pMonth p) (pDay p); clock = pHour p * 3600 + pMin p * 60 + pSec p in
               Some (case pZone p of
                  Some offset \<Rightarrow> time_Unix (day * 86400 + clock - offset) + pNsec p
                | None \<Rightarrow> time_Date loc day clock (pNsec p)))"

definition layoutDate :: "std list" where
  "layoutDate = [StdLongYear, Lit CHR ''-'', StdZeroMonth, Lit CHR ''-'', StdZeroDay]"

definition layoutClock :: "std list" where
  "layoutClock = [StdHour, Lit CHR '':'', StdZeroMinute, Lit CHR '':'', StdZeroSecond]"

definition zonedLayouts :: "std list list" where
  "zonedLayouts =
     [layoutDate @ Lit CHR ''T'' # layoutClock @ [StdFracSecond9, StdISO8601ColonTZ],
      layoutDate @ Lit CHR '' '' # layoutClock @ [StdFracSecond9, StdNumColonTZ],
      layoutDate @ Lit CHR '' '' # layoutClock @ [StdNumColonTZ]]"

definition localLayouts :: "std list list" where
  "localLayouts =
     [layoutDate @ Lit CHR '' '' # layoutClock @ [StdFracSecond9],
      layoutDate @ Lit CHR ''T'' # layoutClock @ [StdFracSecond9],
      layoutDate @ Lit CHR '' '' # layoutClock,
      layoutDate @ Lit CHR ''T'' # layoutClock]"

datatype storage_time_error = StorageTimeEmpty | StorageTimeUnparsed string | StorageTimeScan

text \<open>The first layout of the list that reads the text.\<close>

fun firstParsed :: "Location \<Rightarrow> std list list \<Rightarrow> string \<Rightarrow> gotime option" where
  "firstParsed loc [] v = None"
| "firstParsed loc (layout # ls) v =
     (case ParseInLocation loc layout v of Some t \<Rightarrow> Some t | None \<Rightarrow> firstParsed loc ls v)"

definition ParseStorageTime :: "Location \<Rightarrow> string \<Rightarrow> storage_time_error + gotime" where
  "ParseStorageTime loc text =
     (let trimmed = TrimSpace text in
      if trimmed = [] then Inl StorageTimeEmpty
      else case firstParsed UTC zonedLayouts trimmed of
        Some t \<Rightarrow> Inr t
      | None \<Rightarrow>
          (case firstParsed loc localLayouts trimmed of
             Some t \<Rightarrow> Inr t
           | None \<Rightarrow> Inl (StorageTimeUnparsed text)))"

section \<open>The serializers of the ORM\<close>

text \<open>
  A column value is NULL, a text, raw bytes, an instant the driver decoded or something else; a field
  is nil, an instant, a pointer to one, a value with its own \<open>Value\<close> method or something else.
\<close>

datatype 'v db_value = DbNull | DbText string | DbBytes string | DbTime gotime | DbOther 'v

datatype ('e, 'v) field_value =
    FieldNil
  | FieldTime gotime
  | FieldTimePtr "gotime option"
  | FieldValuer "'e + 'v db_value"
  | FieldOther 'v

text \<open>\<open>field.Set\<close> of nil leaves the zero value: \<open>None\<close> here.\<close>

fun StorageTime_Scan :: "Location \<Rightarrow> 'v db_value \<Rightarrow> storage_time_error + gotime option" where
  "StorageTime_Scan loc DbNull = Inr None"
| "StorageTime_Scan loc (DbTime t) = Inr (Some t)"
| "StorageTime_Scan loc (DbText raw) = map_sum id Some (ParseStorageTime loc raw)"
| "StorageTime_Scan loc (DbBytes raw) = map_sum id Some (ParseStorageTime loc raw)"
| "StorageTime_Scan loc (DbOther _) = Inl StorageTimeScan"

fun StorageTime_Value :: "Location \<Rightarrow> ('e, 'v) field_value \<Rightarrow> 'e + 'v db_value" where
  "StorageTime_Value loc FieldNil = Inr DbNull"
| "StorageTime_Value loc (FieldTime t) = Inr (if t = zero_time then DbNull else DbText (FormatStorageTime loc t))"
| "StorageTime_Value loc (FieldTimePtr p) =
     Inr (case p of None \<Rightarrow> DbNull | Some t \<Rightarrow> if t = zero_time then DbNull else DbText (FormatStorageTime loc t))"
| "StorageTime_Value loc (FieldValuer r) = r"
| "StorageTime_Value loc (FieldOther v) = Inr (DbOther v)"

definition SortableTime_Scan :: "Location \<Rightarrow> 'v db_value \<Rightarrow> storage_time_error + gotime option" where
  "SortableTime_Scan = StorageTime_Scan"

fun SortableTime_Value :: "('e, 'v) field_value \<Rightarrow> 'e + 'v db_value" where
  "SortableTime_Value FieldNil = Inr DbNull"
| "SortableTime_Value (FieldTime t) = Inr (if t = zero_time then DbNull else DbText (FormatSortableStorageTime t))"
| "SortableTime_Value (FieldTimePtr p) =
     Inr (case p of None \<Rightarrow> DbNull | Some t \<Rightarrow> if t = zero_time then DbNull else DbText (FormatSortableStorageTime t))"
| "SortableTime_Value (FieldValuer r) = r"
| "SortableTime_Value (FieldOther v) = Inr (DbOther v)"

section \<open>Texts of fixed width\<close>

text \<open>The years that have four digits.\<close>

definition fourDigitYear :: "Location \<Rightarrow> gotime \<Rightarrow> bool" where
  "fourDigitYear loc t \<longleftrightarrow> 0 \<le> fst (dateOf (localDay loc t)) \<and> fst (dateOf (localDay loc t)) \<le> 9999"

lemma dateOf_ranges:
  assumes "fourDigitYear loc t" "dateOf (localDay loc t) = (y, m, d)"
  shows "0 \<le> y" "y < 10 ^ 4" "0 \<le> m" "m < 10 ^ 2" "0 \<le> d" "d < 10 ^ 2" "1 \<le> m" "m < 13"
proof -
  have v: "validDate y m d" using assms(2) by (rule dateOf_valid)
  then show m: "0 \<le> m" "m < 10 ^ 2" "0 \<le> d" "1 \<le> m" "m < 13" by (auto simp: validDate_def)
  have "nat (m - 1) < 12" using m by auto
  then have "daysIn m y \<in> set (monthLengths y)"
    unfolding daysIn_def by (intro nth_mem) (simp add: monthLengths_facts)
  then have "daysIn m y \<le> 31" by (auto simp: monthLengths_def)
  with v show "d < 10 ^ 2" by (auto simp: validDate_def)
  show "0 \<le> y" "y < 10 ^ 4" using assms by (auto simp: fourDigitYear_def)
qed

lemma localClock_range: "0 \<le> localClock loc t" "localClock loc t < 86400"
  by (simp_all add: localClock_def)

lemma t_nsec_range: "0 \<le> t_nsec t" "t_nsec t < 10 ^ 9"
  by (simp_all add: t_nsec_def)

definition dateDigits :: "int \<times> int \<times> int \<Rightarrow> string" where
  "dateDigits date = (case date of (y, m, d) \<Rightarrow> fixed 4 y @ ''-'' @ fixed 2 m @ ''-'' @ fixed 2 d)"

definition clockDigits :: "int \<Rightarrow> string" where
  "clockDigits c = fixed 2 (c div 3600) @ '':'' @ fixed 2 (c div 60 mod 60) @ '':'' @ fixed 2 (c mod 60)"

lemma clock_ranges:
  fixes c :: int
  assumes "0 \<le> c" "c < 86400"
  shows "0 \<le> c div 3600" "c div 3600 < 24" "0 \<le> c div 60 mod 60" "c div 60 mod 60 < 60"
    "0 \<le> c mod 60" "c mod 60 < 60"
  using assms by (auto simp: div_less_iff_less_mult)

lemma dateTimeText_digits:
  assumes "fourDigitYear loc t"
  shows "dateTimeText loc t = dateDigits (dateOf (localDay loc t)) @ ''T'' @ clockDigits (localClock loc t)"
proof -
  obtain y m d where date: "dateOf (localDay loc t) = (y, m, d)" by (cases "dateOf (localDay loc t)")
  note r = dateOf_ranges [OF assms date]
  have "dateText (y, m, d) = dateDigits (y, m, d)"
    using r by (simp add: dateText_def dateDigits_def appendInt_fixed)
  moreover have "clockText c = clockDigits c" if "0 \<le> c" "c < 86400" for c
    using clock_ranges [OF that] by (simp add: clockText_def clockDigits_def appendInt_fixed)
  ultimately show ?thesis using localClock_range by (simp add: dateTimeText_def date)
qed

lemma length_digits: "length (dateDigits date) = 10" "length (clockDigits c) = 8"
  by (auto simp: dateDigits_def clockDigits_def split: prod.splits)

section \<open>Text order is the order of the instants\<close>

lemma dateDigits_less:
  assumes "fourDigitYear loc t" "fourDigitYear loc' u"
  shows "dateDigits (dateOf (localDay loc t)) < dateDigits (dateOf (localDay loc' u)) \<longleftrightarrow> localDay loc t < localDay loc' u"
proof -
  obtain y m d where date: "dateOf (localDay loc t) = (y, m, d)" by (cases "dateOf (localDay loc t)")
  obtain y' m' d' where date': "dateOf (localDay loc' u) = (y', m', d')" by (cases "dateOf (localDay loc' u)")
  note r = dateOf_ranges [OF assms(1) date] dateOf_ranges [OF assms(2) date']
  have "dateDigits (y, m, d) < dateDigits (y', m', d') \<longleftrightarrow> (y, m, d) < (y', m', d')"
    using r by (auto simp: dateDigits_def append_less fixed_less fixed_eq)
  then show ?thesis using dateOf_less [of "localDay loc t" "localDay loc' u"] by (simp add: date date')
qed

lemma clock_less:
  fixes c c' :: int
  shows "c < c' \<longleftrightarrow> c div 3600 < c' div 3600 \<or> c div 3600 = c' div 3600 \<and>
    (c div 60 mod 60 < c' div 60 mod 60 \<or> c div 60 mod 60 = c' div 60 mod 60 \<and> c mod 60 < c' mod 60)"
proof -
  have h: "x div 60 div 60 = x div 3600" for x :: int by (simp add: zdiv_zmult2_eq [symmetric])
  have minutes: "c div 60 = c' div 60 \<longleftrightarrow> c div 3600 = c' div 3600 \<and> c div 60 mod 60 = c' div 60 mod 60"
    by (metis h div_mult_mod_eq)
  show ?thesis
    using less_div_mod [of 60 c c'] less_div_mod [of 60 "c div 60" "c' div 60"] by (auto simp: h minutes)
qed

lemma clockDigits_less:
  assumes "0 \<le> c" "c < 86400" "0 \<le> c'" "c' < 86400"
  shows "clockDigits c < clockDigits c' \<longleftrightarrow> c < c'"
  unfolding clock_less [of c c']
  using clock_ranges [OF assms(1,2)] clock_ranges [OF assms(3,4)]
  by (simp add: clockDigits_def append_less fixed_less fixed_eq)

lemma UTC_day [simp]:
  "localDay UTC t = t_unix t div 86400" "localClock UTC t = t_unix t mod 86400" "offset_at UTC sec = 0"
  by (simp_all add: localDay_def localClock_def localSec_def offset_at_def lookup_def UTC_def)

lemma div_mod_inject: "x div n = y div n \<Longrightarrow> x mod n = y mod n \<Longrightarrow> x = y" for x n y :: int
  by (metis div_mult_mod_eq)

lemma instant_less: "t < u \<longleftrightarrow> t_unix t < t_unix u \<or> t_unix t = t_unix u \<and> t_nsec t < t_nsec u"
  using less_div_mod [of 1000000000 t u] by (simp add: t_unix_def t_nsec_def)

text \<open>
  C19. Texts written by \<open>FormatSortableStorageTime\<close> compare, byte by byte as SQLite compares TEXT,
  exactly as the instants they stand for, whatever the zone rules of the project: this is what the
  columns with the serializer \<open>sortableTime\<close> rely on. It holds for all years that have four digits.
\<close>

theorem sortable_text_order:
  assumes "fourDigitYear UTC t" "fourDigitYear UTC u"
  shows "FormatSortableStorageTime t < FormatSortableStorageTime u \<longleftrightarrow> t < u"
proof -
  have fmt: "FormatSortableStorageTime v =
      dateDigits (dateOf (localDay UTC v)) @ ''T'' @ clockDigits (localClock UTC v) @ ''.'' @ fixed 9 (t_nsec v) @ ''Z''"
    if "fourDigitYear UTC v" for v
    using that t_nsec_range [of v] by (simp add: FormatSortableStorageTime_def dateTimeText_digits appendInt_fixed)
  have date: "dateDigits (dateOf (localDay UTC t)) = dateDigits (dateOf (localDay UTC u)) \<longleftrightarrow> localDay UTC t = localDay UTC u"
    using dateDigits_less [OF assms] dateDigits_less [OF assms(2,1)] by (metis less_irrefl linorder_neqE)
  note clock = localClock_range [of UTC t] localClock_range [of UTC u]
  have clock_eq: "clockDigits (localClock UTC t) = clockDigits (localClock UTC u) \<longleftrightarrow> localClock UTC t = localClock UTC u"
    using clockDigits_less [OF clock] clockDigits_less [OF clock(3,4,1,2)] by (metis less_irrefl linorder_neqE)
  have "t < u \<longleftrightarrow> localDay UTC t < localDay UTC u \<or> localDay UTC t = localDay UTC u \<and>
      (localClock UTC t < localClock UTC u \<or> localClock UTC t = localClock UTC u \<and> t_nsec t < t_nsec u)"
    using instant_less [of t u] less_div_mod [of 86400 "t_unix t" "t_unix u"]
      div_mod_inject [of "t_unix t" 86400 "t_unix u"] by auto
  then show ?thesis
    unfolding fmt [OF assms(1)] fmt [OF assms(2)]
    using t_nsec_range [of t] t_nsec_range [of u]
    by (simp add: append_less length_digits dateDigits_less [OF assms] clockDigits_less [OF clock] date clock_eq fixed_less del: UTC_day)
qed

theorem sortable_text_order_witness:
  "fourDigitYear UTC (time_Unix 951782400) \<and> fourDigitYear UTC (time_Unix 951782400 + 5) \<and>
   FormatSortableStorageTime (time_Unix 951782400) < FormatSortableStorageTime (time_Unix 951782400 + 5)"
proof -
  have y: "fourDigitYear UTC (time_Unix 951782400)" "fourDigitYear UTC (time_Unix 951782400 + 5)" by code_simp+
  show ?thesis using sortable_text_order [OF y] y by simp
qed

section \<open>Reading inverts writing\<close>

text \<open>Each piece of a text is read back by the element of the layout it was written for.\<close>

lemma fixed2: "fixed 2 n = [digit (n div 10 mod 10), digit (n mod 10)]"
  by (simp add: numeral_2_eq_2)

lemma getnum_fixed: "0 \<le> n \<Longrightarrow> n < 100 \<Longrightarrow> getnum two (fixed 2 n @ r) = Some (n, r)"
proof -
  assume n: "0 \<le> n" "n < 100"
  then have "n div 10 mod 10 = n div 10" by (auto simp: div_less_iff_less_mult)
  with n show ?thesis by (simp add: fixed2 div_less_iff_less_mult)
qed

lemma getYear_fixed: "0 \<le> y \<Longrightarrow> y < 10 ^ 4 \<Longrightarrow> getYear (fixed 4 y @ r) = Some (y, r)"
  by (simp add: getYear_def decimal_fixed)

lemma parse_date:
  assumes "0 \<le> y" "y < 10 ^ 4" "1 \<le> m" "m < 13" "0 \<le> d" "d < 100"
  shows "parseLayout (layoutDate @ ls) (dateDigits (y, m, d) @ v) p =
    parseLayout ls v (p\<lparr>pYear := y, pMonth := m, pDay := d\<rparr>)"
  using assms by (simp add: layoutDate_def dateDigits_def getYear_fixed getnum_fixed inRange_def)

lemma parse_clock:
  assumes "0 \<le> c" "c < 86400" "layoutHasFrac ls"
  shows "parseLayout (layoutClock @ ls) (clockDigits c @ v) p =
    parseLayout ls v (p\<lparr>pHour := c div 3600, pMin := c div 60 mod 60, pSec := c mod 60\<rparr>)"
  using assms(3) clock_ranges [OF assms(1,2)]
  by (simp add: layoutClock_def clockDigits_def getnum_fixed inRange_def)

lemma decimal_zeros: "decValue (s @ replicate k CHR ''0'') = decValue s * 10 ^ k"
proof (induction k)
  case (Suc k)
  have "s @ replicate (Suc k) CHR ''0'' = (s @ replicate k CHR ''0'') @ [CHR ''0'']"
    by (simp add: replicate_append_same)
  then show ?case using Suc by (simp only: decimal_snoc) (simp add: digit_zero)
qed simp

lemma trimZeros_split: "\<exists>k. s = trimZeros s @ replicate k CHR ''0''"
proof -
  let ?z = "takeWhile (\<lambda>c. c = CHR ''0'') (rev s)"
  have "s = rev (?z @ dropWhile (\<lambda>c. c = CHR ''0'') (rev s))" by simp
  then have "s = trimZeros s @ rev ?z" unfolding trimZeros_def by (metis rev_append)
  moreover have "\<forall>x\<in>set (rev ?z). x = CHR ''0''" by (auto dest: set_takeWhileD)
  then have "rev ?z = replicate (length ?z) CHR ''0''" by (intro replicate_eqI) auto
  ultimately show ?thesis by metis
qed

lemma parseFrac_digits:
  assumes "list_all isDigit ds" "length ds \<le> 9" "v \<noteq> [] \<Longrightarrow> \<not> isDigit (hd v)"
  shows "parseFrac (c # ds @ v) = (decValue ds * 10 ^ (9 - length ds), v)"
proof -
  have "takeWhile isDigit (ds @ v) = ds" "dropWhile isDigit (ds @ v) = v"
    using assms(1,3) by (cases v; simp add: list_all_iff)+
  with assms(2) show ?thesis by (simp add: parseFrac_def)
qed

lemma parse_frac:
  assumes "list_all isDigit ds" "length ds \<le> 9" "ds \<noteq> []" "v \<noteq> [] \<Longrightarrow> \<not> isDigit (hd v)"
  shows "parseStd StdFracSecond9 ls (CHR ''.'' # ds @ v) p = Some (p\<lparr>pNsec := decValue ds * 10 ^ (9 - length ds)\<rparr>, v)"
  using assms parseFrac_digits [OF assms(1,2,4)] by (cases ds) (auto simp: fracStarts_def commaOrPeriod_def)

lemma parse_nano:
  assumes "0 \<le> ns" "ns < 10 ^ 9" "v \<noteq> []" "\<not> isDigit (hd v)" "\<not> commaOrPeriod (hd v)" "pNsec p = 0"
  shows "parseStd StdFracSecond9 ls (appendNano ns @ v) p = Some (p\<lparr>pNsec := ns\<rparr>, v)"
proof (cases "ns = 0")
  case False
  obtain k where k: "fixed 9 ns = trimZeros (fixed 9 ns) @ replicate k CHR ''0''" using trimZeros_split by blast
  let ?ds = "trimZeros (fixed 9 ns)"
  have len: "length ?ds + k = 9" using arg_cong [OF k, of length] by simp
  have val: "decValue ?ds * 10 ^ (9 - length ?ds) = ns"
    using decimal_zeros [of ?ds k] k decimal_fixed [OF assms(1,2)] len by (metis diff_add_inverse)
  have "list_all isDigit ?ds" using fixed_all [of 9 ns] k by (metis list_all_append)
  moreover have "?ds \<noteq> []" using val False by auto
  ultimately show ?thesis using False len val assms parse_frac [of ?ds v ls p]
    by (simp add: appendNano_def appendInt_fixed)
qed (use assms in \<open>auto simp: appendNano_def fracStarts_def\<close>)

text \<open>Offsets in whole minutes of at most a day, which is what the texts have room for.\<close>

definition minuteOffset :: "Location \<Rightarrow> gotime \<Rightarrow> bool" where
  "minuteOffset loc t \<longleftrightarrow>
     offset_at loc (t_unix t) mod 60 = 0 \<and> \<bar>offset_at loc (t_unix t)\<bar> \<le> 86400"

lemma zoneText_minutes:
  assumes "offset mod 60 = 0" "\<bar>offset\<bar> \<le> 86400" "offset \<noteq> 0"
  obtains a where "0 \<le> a div 60" "a div 60 < 25" "0 \<le> a mod 60" "a mod 60 < 60" "\<bar>offset\<bar> = a * 60"
    "zoneText offset = (if offset < 0 then CHR ''-'' else CHR ''+'') # fixed 2 (a div 60) @ CHR '':'' # fixed 2 (a mod 60)"
proof -
  obtain q where q: "offset = 60 * q" using assms(1) by (auto simp: mod_eq_0_iff_dvd)
  let ?a = "\<bar>q\<bar>"
  have "?a \<le> 1440" using assms(2) q by (simp add: abs_mult)
  then have r: "0 \<le> ?a div 60" "?a div 60 < 25" "0 \<le> ?a mod 60" "?a mod 60 < 60"
    by (auto simp: div_less_iff_less_mult)
  have "- offset = 60 * (- q)" using q by simp
  then have "- offset div 60 = - q" by (metis nonzero_mult_div_cancel_left zero_neq_numeral)
  then have "(if offset < 0 then - (- offset div 60) else offset div 60) = q" using q by simp
  then have "zoneText offset = (if offset < 0 then CHR ''-'' else CHR ''+'') # fixed 2 (?a div 60) @ CHR '':'' # fixed 2 (?a mod 60)"
    unfolding zoneText_def Let_def using assms(3) q r by (simp add: appendInt_fixed)
  then show ?thesis using that [of ?a] r q by (simp add: abs_mult)
qed

lemma parse_zone:
  assumes "offset mod 60 = 0" "\<bar>offset\<bar> \<le> 86400"
  shows "parseZone True (zoneText offset) = Some (offset, [])"
proof (cases "offset = 0")
  case False
  from zoneText_minutes [OF assms this] obtain a where
    a: "0 \<le> a div 60" "a div 60 < 25" "0 \<le> a mod 60" "a mod 60 < 60" "\<bar>offset\<bar> = a * 60"
    and z: "zoneText offset = (if offset < 0 then CHR ''-'' else CHR ''+'') # fixed 2 (a div 60) @ CHR '':'' # fixed 2 (a mod 60)"
    by blast
  let ?z = "zoneText offset"
  have "take 2 (drop 1 ?z) = fixed 2 (a div 60)" "take 2 (drop 4 ?z) = fixed 2 (a mod 60)"
    "?z ! 3 = CHR '':''" "length ?z = 6" "drop 6 ?z = []" unfolding z by (simp_all add: fixed2)
  moreover have "getnum True (fixed 2 (a div 60)) = Some (a div 60, [])" "getnum True (fixed 2 (a mod 60)) = Some (a mod 60, [])"
    using getnum_fixed [of "a div 60" True "[]"] getnum_fixed [of "a mod 60" True "[]"] a by simp_all
  moreover have "a div 60 * 60 + a mod 60 = a" by simp
  ultimately show ?thesis using a by (auto simp: parseZone_def z)
qed (simp add: parseZone_def zoneText_def)

lemma zoneText_start: "zoneText offset \<noteq> []" "\<not> isDigit (hd (zoneText offset))" "\<not> commaOrPeriod (hd (zoneText offset))"
  by (auto simp: zoneText_def Let_def commaOrPeriod_def)

text \<open>The instant of the local fields and the offset they were read at.\<close>

lemma local_fields:
  assumes "dateOf (localDay loc t) = (y, m, d)" and c: "c = localClock loc t"
  shows "time_Unix (dayOf y m d * 86400 + (c div 3600 * 3600 + c div 60 mod 60 * 60 + c mod 60) - offset_at loc (t_unix t)) + t_nsec t = t"
proof -
  have "c div 60 = c div 3600 * 60 + c div 60 mod 60"
    using div_mult_mod_eq [of "c div 60" 60] by (simp add: zdiv_zmult2_eq [symmetric])
  then have "c div 3600 * 3600 + c div 60 mod 60 * 60 + c mod 60 = c"
    using div_mult_mod_eq [of c 60] by linarith
  moreover have "localDay loc t * 86400 + c - offset_at loc (t_unix t) = t_unix t"
    using c by (simp add: localDay_def localClock_def localSec_def)
  moreover have "time_Unix (t_unix t) + t_nsec t = t" by (simp add: time_Unix_def t_unix_def t_nsec_def)
  ultimately show ?thesis using dateOf_valid(2) [OF assms(1)] by simp
qed

lemma ParseInLocation_written:
  assumes y: "fourDigitYear loc t"
    and frac: "\<And>p. pNsec p = 0 \<Longrightarrow> parseStd StdFracSecond9 [StdISO8601ColonTZ] f p = Some (p\<lparr>pNsec := t_nsec t\<rparr>, z)"
    and zone: "parseZone True z = Some (offset_at loc (t_unix t), [])"
  shows "ParseInLocation l (layoutDate @ Lit CHR ''T'' # layoutClock @ [StdFracSecond9, StdISO8601ColonTZ])
    (dateTimeText loc t @ f) = Some t"
proof -
  obtain y m d where date: "dateOf (localDay loc t) = (y, m, d)" by (cases "dateOf (localDay loc t)")
  let ?c = "localClock loc t"
  note r = dateOf_ranges [OF y date]
  have v: "\<not> (d < 1 \<or> daysIn m y < d)" using dateOf_valid(1) [OF date] by (auto simp: validDate_def)
  have "parseLayout (layoutDate @ Lit CHR ''T'' # layoutClock @ [StdFracSecond9, StdISO8601ColonTZ])
    (dateTimeText loc t @ f) unparsed =
    Some \<lparr>pYear = y, pMonth = m, pDay = d, pHour = ?c div 3600, pMin = ?c div 60 mod 60, pSec = ?c mod 60,
      pNsec = t_nsec t, pZone = Some (offset_at loc (t_unix t))\<rparr>"
    using r localClock_range [of loc t] zone frac
    by (simp add: dateTimeText_digits [OF y] date parse_date parse_clock layoutHasFrac_def unparsed_def del: parseStd.simps(8))
  then show ?thesis using v local_fields [OF date refl] by (simp add: ParseInLocation_def Let_def)
qed

lemma TrimSpace_plain:
  assumes "s \<noteq> []" "\<not> ascii_space (byte (hd s))" "byte (hd s) < 128" "\<not> ascii_space (byte (last s))" "byte (last s) < 128"
  shows "TrimSpace s = s"
proof -
  have "space_prefix s = 0"
    using assms(1-3) by (cases s) (auto simp: wide_space2_def wide_space3_def split: list.splits)
  moreover have "space_suffix_rev (rev s) = 0"
    using assms(1,4,5) by (cases "rev s") (auto simp: wide_space2_def wide_space3_def split: list.splits)
  ultimately show ?thesis by (simp add: TrimSpace_def trim_left_id trim_right_rev_id)
qed

lemma digit_plain: "isDigit c \<Longrightarrow> \<not> ascii_space (byte c) \<and> byte c < 128"
  by (auto simp: isDigit_def ascii_space_def)

lemma dateTimeText_hd: "fourDigitYear loc t \<Longrightarrow> dateTimeText loc t \<noteq> [] \<and> isDigit (hd (dateTimeText loc t))"
  by (simp add: dateTimeText_digits dateDigits_def numeral_eq_Suc hd_append split: prod.splits)

lemma zoneText_last:
  assumes "offset mod 60 = 0" "\<bar>offset\<bar> \<le> 86400"
  shows "\<not> ascii_space (byte (last (zoneText offset))) \<and> byte (last (zoneText offset)) < 128"
proof (cases "offset = 0")
  case False
  show ?thesis using digit_plain by (rule zoneText_minutes [OF assms False]) (simp add: fixed2)
qed (simp add: zoneText_def ascii_space_def byte_def)

lemma ParseStorageTime_written:
  assumes "fourDigitYear loc t"
    and "\<And>p. pNsec p = 0 \<Longrightarrow> parseStd StdFracSecond9 [StdISO8601ColonTZ] (f @ z) p = Some (p\<lparr>pNsec := t_nsec t\<rparr>, z)"
    and "parseZone True z = Some (offset_at loc (t_unix t), [])"
    and "z \<noteq> []" "\<not> ascii_space (byte (last z)) \<and> byte (last z) < 128"
  shows "ParseStorageTime l (dateTimeText loc t @ f @ z) = Inr t"
proof -
  have "TrimSpace (dateTimeText loc t @ f @ z) = dateTimeText loc t @ f @ z"
    using dateTimeText_hd [OF assms(1)] digit_plain assms(4,5) by (intro TrimSpace_plain) (simp_all add: hd_append)
  moreover have "ParseInLocation UTC (hd zonedLayouts) (dateTimeText loc t @ f @ z) = Some t"
    unfolding zonedLayouts_def list.sel using assms(1-3) by (rule ParseInLocation_written)
  ultimately show ?thesis using assms(4) by (simp add: ParseStorageTime_def zonedLayouts_def)
qed

lemma ParseStorageTime_Format: "fourDigitYear loc t \<Longrightarrow> minuteOffset loc t \<Longrightarrow> ParseStorageTime l (FormatStorageTime loc t) = Inr t"
  unfolding FormatStorageTime_def minuteOffset_def
  by (rule ParseStorageTime_written)
     (simp_all add: parse_nano t_nsec_range [simplified] zoneText_start parse_zone zoneText_last del: parseStd.simps)

lemma ParseStorageTime_Sortable: "fourDigitYear UTC t \<Longrightarrow> ParseStorageTime l (FormatSortableStorageTime t) = Inr t"
proof -
  assume y: "fourDigitYear UTC t"
  let ?f = "CHR ''.'' # fixed 9 (t_nsec t)"
  have ne: "fixed 9 (t_nsec t) \<noteq> []" by (metis length_fixed list.size(3) zero_neq_numeral)
  have "parseStd StdFracSecond9 [StdISO8601ColonTZ] (?f @ ''Z'') p = Some (p\<lparr>pNsec := t_nsec t\<rparr>, ''Z'')" for p
    using parse_frac [of "fixed 9 (t_nsec t)" "''Z''"] t_nsec_range [of t] ne
    by (auto simp: decimal_fixed simp del: parseStd.simps)
  moreover have "parseZone True ''Z'' = Some (offset_at UTC (t_unix t), [])" by (simp add: parseZone_def)
  ultimately have "ParseStorageTime l (dateTimeText UTC t @ ?f @ ''Z'') = Inr t"
    using y by (intro ParseStorageTime_written) (simp_all add: ascii_space_def byte_def del: parseStd.simps)
  then show ?thesis using t_nsec_range [of t] by (simp add: FormatSortableStorageTime_def appendInt_fixed)
qed

text \<open>
  C20. What the ORM writes for an instant under either serializer, it reads back as the same instant to
  the nanosecond, whatever the zone is at reading; the zero time is stored as NULL and read back as
  unset. It holds for years of four digits and offsets of whole minutes.
\<close>

theorem storage_time_roundtrip:
  assumes "fourDigitYear loc t" "minuteOffset loc t" "fourDigitYear UTC t"
  shows "\<exists>v w :: 'v db_value.
    StorageTime_Value loc (FieldTime t :: ('e, 'v) field_value) = Inr v \<and>
    SortableTime_Value (FieldTime t :: ('e, 'v) field_value) = Inr w \<and>
    StorageTime_Scan loc' v = Inr (if t = zero_time then None else Some t) \<and>
    SortableTime_Scan loc' w = Inr (if t = zero_time then None else Some t)"
  using ParseStorageTime_Format [OF assms(1,2)] ParseStorageTime_Sortable [OF assms(3)]
  by (simp add: SortableTime_Scan_def)

theorem storage_time_roundtrip_witness:
  "\<exists>v w :: nat db_value.
    StorageTime_Value (28800, []) (FieldTime (time_Unix 1700000000 + 120300) :: (nat, nat) field_value) = Inr v \<and>
    SortableTime_Value (FieldTime (time_Unix 1700000000 + 120300) :: (nat, nat) field_value) = Inr w \<and>
    StorageTime_Scan UTC v = Inr (Some (time_Unix 1700000000 + 120300)) \<and>
    SortableTime_Scan UTC w = Inr (Some (time_Unix 1700000000 + 120300))"
proof -
  have "fourDigitYear (28800, []) (time_Unix 1700000000 + 120300)" "minuteOffset (28800, []) (time_Unix 1700000000 + 120300)"
    "fourDigitYear UTC (time_Unix 1700000000 + 120300)" by code_simp+
  moreover have "time_Unix 1700000000 + 120300 \<noteq> zero_time" by code_simp
  ultimately show ?thesis using storage_time_roundtrip [of "(28800, [])" "time_Unix 1700000000 + 120300" UTC] by simp
qed

section \<open>Order of the texts in the project zone\<close>

text \<open>
  The fraction is trimmed, so the order of two texts of one second depends on the character that
  follows it: a sign sorts before every digit and before the point, the letter \<open>Z\<close> after them.
\<close>

lemma digit_ge: "isDigit c \<Longrightarrow> CHR ''0'' \<le> c"
  by (simp add: isDigit_def byte_def less_eq_char_def)

lemma not_less_zeros: "list_all isDigit ds \<Longrightarrow> \<not> ds < replicate n CHR ''0''" if "length ds = n"
  using that by (induction n arbitrary: ds) (auto simp: length_Suc_conv dest!: digit_ge)

lemma trimmed_less:
  assumes "length ds + k = length ds' + k'" "list_all isDigit ds" "list_all isDigit ds'" "z \<noteq> []" "hd z < CHR ''0''"
    and "ds @ replicate k CHR ''0'' < ds' @ replicate k' CHR ''0''"
  shows "ds @ z < ds' @ z"
  using assms(1-3,6)
proof (induction ds arbitrary: ds')
  case Nil
  then obtain b bs where b: "ds' = b # bs" by (cases ds') auto
  then have "hd z < b" using Nil assms(5) digit_ge [of b] by auto
  then show ?case using b assms(4) by (cases z) auto
next
  case (Cons a as)
  show ?case
  proof (cases ds')
    case Nil
    moreover have "list_all isDigit (a # as @ replicate k CHR ''0'')" using Cons.prems by (auto simp: digit_zero list_all_iff)
    ultimately show ?thesis using not_less_zeros [of "a # as @ replicate k CHR ''0''" k'] Cons.prems by simp
  next
    case (Cons b bs)
    with Cons.prems Cons.IH [of bs] show ?thesis by auto
  qed
qed

lemma appendNano_less:
  assumes n: "0 \<le> n" "n < 10 ^ 9" "0 \<le> n'" "n' < 10 ^ 9" and z: "z \<noteq> []" "hd z < CHR ''.''" and "n < n'"
  shows "appendNano n @ z < appendNano n' @ z"
proof (cases "n = 0")
  case True
  then show ?thesis using z \<open>n < n'\<close> by (cases z) (auto simp: appendNano_def)
next
  case False
  obtain k where k: "fixed 9 n = trimZeros (fixed 9 n) @ replicate k CHR ''0''" using trimZeros_split by blast
  obtain k' where k': "fixed 9 n' = trimZeros (fixed 9 n') @ replicate k' CHR ''0''" using trimZeros_split by blast
  have len: "length (trimZeros (fixed 9 n)) + k = length (trimZeros (fixed 9 n')) + k'"
    using arg_cong [OF k, of length] arg_cong [OF k', of length] by simp
  have ds: "list_all isDigit (trimZeros (fixed 9 n))" "list_all isDigit (trimZeros (fixed 9 n'))"
    using fixed_all [of 9 n] fixed_all [of 9 n'] k k' by (metis list_all_append)+
  have "fixed 9 n < fixed 9 n'" using assms by (simp add: fixed_less)
  then have "trimZeros (fixed 9 n) @ replicate k CHR ''0'' < trimZeros (fixed 9 n') @ replicate k' CHR ''0''"
    using k k' by metis
  moreover have "hd z < CHR ''0''" using z(2) by (rule less_trans) simp
  ultimately have "trimZeros (fixed 9 n) @ z < trimZeros (fixed 9 n') @ z"
    using len ds z(1) by (intro trimmed_less)
  then show ?thesis using False n \<open>n < n'\<close> by (simp add: appendNano_def appendInt_fixed)
qed

lemma zoneText_sign:
  assumes "offset mod 60 = 0" "\<bar>offset\<bar> \<le> 86400" "offset \<noteq> 0"
  shows "hd (zoneText offset) < CHR ''.''"
  by (rule zoneText_minutes [OF assms]) simp

lemma FormatStorageTime_mono:
  assumes "fourDigitYear loc t" "fourDigitYear loc u" "minuteOffset loc t"
    and off: "offset_at loc (t_unix t) = offset_at loc (t_unix u)" "offset_at loc (t_unix t) \<noteq> 0" and "t < u"
  shows "FormatStorageTime loc t < FormatStorageTime loc u"
proof -
  let ?z = "zoneText (offset_at loc (t_unix t))" and ?l = "localSec loc (t_unix t)" and ?k = "localSec loc (t_unix u)"
  have l: "?l < ?k \<or> ?l = ?k \<and> t_nsec t < t_nsec u"
    using instant_less [of t u] off(1) \<open>t < u\<close> by (auto simp: localSec_def)
  have nano: "t_nsec t < t_nsec u \<Longrightarrow> appendNano (t_nsec t) @ ?z < appendNano (t_nsec u) @ ?z"
    using t_nsec_range [of t] t_nsec_range [of u] zoneText_start(1) zoneText_sign [OF _ _ off(2)] assms(3)
    by (intro appendNano_less) (auto simp: minuteOffset_def)
  have clock: "localClock loc t < localClock loc u \<Longrightarrow> clockDigits (localClock loc t) < clockDigits (localClock loc u)"
    using clockDigits_less localClock_range by metis
  have "localDay loc t < localDay loc u \<or> localDay loc t = localDay loc u \<and>
      (localClock loc t < localClock loc u \<or> localClock loc t = localClock loc u \<and> t_nsec t < t_nsec u)"
    using l less_div_mod [of 86400 ?l ?k] by (auto simp: localDay_def localClock_def)
  then show ?thesis
    unfolding FormatStorageTime_def dateTimeText_digits [OF assms(1)] dateTimeText_digits [OF assms(2)] off(1) [symmetric]
    using nano clock dateDigits_less [OF assms(1,2)] by (auto simp: append_less length_digits)
qed

text \<open>
  C21. Texts written by \<open>FormatStorageTime\<close>, which the queries on \<open>timestamp\<close>, \<open>bucket_start\<close> and
  \<open>expires_at\<close> compare as SQLite TEXT, are ordered as their instants while the project zone keeps one
  offset of whole minutes other than zero, as in the default zone of the deployment.
\<close>

theorem storage_text_order:
  assumes "fourDigitYear loc t" "fourDigitYear loc u" "minuteOffset loc t"
    and "offset_at loc (t_unix t) = offset_at loc (t_unix u)" "offset_at loc (t_unix t) \<noteq> 0"
  shows "FormatStorageTime loc t < FormatStorageTime loc u \<longleftrightarrow> t < u"
proof -
  have "FormatStorageTime loc u < FormatStorageTime loc t" if "u < t"
    using assms that by (intro FormatStorageTime_mono) (simp_all add: minuteOffset_def)
  then show ?thesis using FormatStorageTime_mono [OF assms] by (metis less_asym less_irrefl linorder_neqE)
qed

theorem storage_text_order_witness:
  "FormatStorageTime (28800, []) (time_Unix 1700000000) < FormatStorageTime (28800, []) (time_Unix 1700000000 + 500000000)"
proof -
  let ?loc = "(28800, []) :: Location" and ?t = "time_Unix 1700000000"
  have "fourDigitYear ?loc ?t" "fourDigitYear ?loc (?t + 500000000)" "minuteOffset ?loc ?t"
    "offset_at ?loc (t_unix ?t) = offset_at ?loc (t_unix (?t + 500000000))" "offset_at ?loc (t_unix ?t) \<noteq> 0"
    by code_simp+
  then show ?thesis using storage_text_order [of ?loc ?t "?t + 500000000"] by simp
qed

text \<open>
  In UTC the order is wrong within a second: half a second after a whole second sorts before it, and
  so does every fraction; a query that starts at a whole second leaves the fractions of that second out.
\<close>

lemma storage_text_misorders_UTC:
  "FormatStorageTime UTC (time_Unix 1700000000 + 500000000) < FormatStorageTime UTC (time_Unix 1700000000)"
  by code_simp

end
