(* ===== verification/Query_Range.thy ===== *)
theory Query_Range
  imports Storage_Time
begin

text \<open>
  \<^verbatim>\<open>internal/timeutil/usage_range.go\<close> and \<^verbatim>\<open>usage_query_range.go\<close>: the time ranges of the usage queries. A
  rolling range is a canonical number of hours or days, a custom range two local dates or two local
  hours, checked against the current time. An error is a value of \<open>query_range_error\<close>; the one that
  the code marks as a conflict with the moving bounds is \<open>BoundsConflict\<close>. The project zone is an
  argument and \<open>NormalizeStorageTime\<close>, which changes the zone an instant is read in and not the
  instant, is the identity.
\<close>

section \<open>Rolling ranges\<close>

datatype UsageRollingUnit = UsageRollingUnitHour | UsageRollingUnitDay

record UsageRollingRange =
  rr_Value :: int
  rr_Unit :: UsageRollingUnit

definition rolling_Duration :: "UsageRollingRange \<Rightarrow> duration" where
  "rolling_Duration r =
     (if rr_Unit r = UsageRollingUnitDay then i64 (i64 (rr_Value r * 24) * Hour) else i64 (rr_Value r * Hour))"

definition rollingUnit :: "char \<Rightarrow> UsageRollingUnit option" where
  "rollingUnit c =
     (if c = CHR ''h'' then Some UsageRollingUnitHour else if c = CHR ''d'' then Some UsageRollingUnitDay else None)"

definition ParseUsageRollingRange :: "string \<Rightarrow> UsageRollingRange option" where
  "ParseUsageRollingRange text =
     (if length text < 2 then None
      else case rollingUnit (last text) of
        None \<Rightarrow> None
      | Some unit \<Rightarrow>
          (let numberText = butlast text in
           case Atoi numberText of
             None \<Rightarrow> None
           | Some number \<Rightarrow>
               if Itoa number \<noteq> numberText then None
               else let minimum = (if unit = UsageRollingUnitDay then 1 else 5);
                        maximum = (if unit = UsageRollingUnitDay then 30 else 24) in
                    if number < minimum \<or> maximum < number then None
                    else Some \<lparr>rr_Value = number, rr_Unit = unit\<rparr>))"

definition IsUsageRollingHourRange :: "string \<Rightarrow> bool" where
  "IsUsageRollingHourRange text \<longleftrightarrow>
     (case ParseUsageRollingRange text of None \<Rightarrow> False | Some r \<Rightarrow> rr_Unit r = UsageRollingUnitHour)"

definition IsUsageRollingDayRange :: "string \<Rightarrow> bool" where
  "IsUsageRollingDayRange text \<longleftrightarrow>
     (case ParseUsageRollingRange text of None \<Rightarrow> False | Some r \<Rightarrow> rr_Unit r = UsageRollingUnitDay)"

section \<open>Query ranges\<close>

datatype UsageQueryUnit = UsageQueryUnitHour | UsageQueryUnitDay

record UsageQueryRange =
  qr_Range :: string
  qr_Unit :: UsageQueryUnit
  qr_Count :: int
  qr_StartTime :: gotime
  qr_EndTime :: gotime
  qr_EndExclusive :: bool

datatype query_range_error =
    RangeRequired
  | AnchorRequired
  | UnsupportedRange string
  | CustomNeedsBounds
  | UnsupportedUnit string
  | InvalidStart
  | InvalidEnd
  | StartAfterEnd
  | DayRangeTooLong int
  | HourRangeSize
  | BoundsConflict string

definition IsUsageQueryRangeBoundsConflict :: "query_range_error \<Rightarrow> bool" where
  "IsUsageQueryRangeBoundsConflict err = (case err of BoundsConflict _ \<Rightarrow> True | _ \<Rightarrow> False)"

definition defaultCustomDayRangeMaxDays :: int where
  "defaultCustomDayRangeMaxDays = 30"

definition LongCustomDayRangeMaxDays :: int where
  "LongCustomDayRangeMaxDays = 365"

text \<open>The unit of a custom range: what the caller names, or days when both bounds are dates.\<close>

definition resolveUsageQueryUnit :: "Location \<Rightarrow> string \<Rightarrow> string \<Rightarrow> string \<Rightarrow> query_range_error + UsageQueryUnit" where
  "resolveUsageQueryUnit loc unitValue startValue endValue =
     (let unit = TrimSpace unitValue in
      if unit = [] then
        (if ParseInLocation loc layoutDate startValue \<noteq> None \<and> ParseInLocation loc layoutDate endValue \<noteq> None
         then Inr UsageQueryUnitDay else Inr UsageQueryUnitHour)
      else if unit = ''hour'' then Inr UsageQueryUnitHour
      else if unit = ''day'' then Inr UsageQueryUnitDay
      else Inl (UnsupportedUnit unit))"

text \<open>The loop that counts the calendar days; \<open>None\<close> when there are more than \<open>maxDays\<close>.\<close>

function countDays :: "Location \<Rightarrow> int \<Rightarrow> gotime \<Rightarrow> gotime \<Rightarrow> int \<Rightarrow> int option" where
  "countDays loc maxDays day endDay count =
     (if day < endDay
      then (if maxDays < count + 1 then None else countDays loc maxDays (AddDays loc day 1) endDay (count + 1))
      else Some count)"
  by pat_completeness auto
termination
  by (relation "measure (\<lambda>(_, maxDays, _, _, count). nat (maxDays - count))") auto

definition parseCustomUsageDayRange ::
  "Location \<Rightarrow> string \<Rightarrow> string \<Rightarrow> gotime \<Rightarrow> int \<Rightarrow> query_range_error + UsageQueryRange" where
  "parseCustomUsageDayRange loc startValue endValue anchor maxDays =
     (case ParseInLocation loc layoutDate startValue of
        None \<Rightarrow> Inl InvalidStart
      | Some startTime \<Rightarrow>
     (case ParseInLocation loc layoutDate endValue of
        None \<Rightarrow> Inl InvalidEnd
      | Some endDay \<Rightarrow>
          if endDay < startTime then Inl StartAfterEnd
          else case countDays loc maxDays startTime endDay 1 of
            None \<Rightarrow> Inl (DayRangeTooLong maxDays)
          | Some count \<Rightarrow>
              let today = dayStart loc anchor in
              if startTime < AddDays loc today (- (maxDays - 1))
              then Inl (BoundsConflict (''custom day range must stay within the most recent '' @ Itoa maxDays @ '' calendar days''))
              else if today < endDay then Inl (BoundsConflict ''custom day range cannot end in the future'')
              else Inr \<lparr>qr_Range = ''custom'', qr_Unit = UsageQueryUnitDay, qr_Count = count,
                qr_StartTime = startTime, qr_EndTime = AddDays loc endDay 1, qr_EndExclusive = True\<rparr>))"

definition layoutRFC3339 :: "std list" where
  "layoutRFC3339 = layoutDate @ Lit CHR ''T'' # layoutClock @ [StdISO8601ColonTZ]"

definition parseUsageQueryHour :: "Location \<Rightarrow> string \<Rightarrow> gotime option" where
  "parseUsageQueryHour loc text =
     (case ParseInLocation UTC layoutRFC3339 text of
        None \<Rightarrow> None
      | Some t \<Rightarrow>
          if localClock loc t div 60 mod 60 \<noteq> 0 \<or> localClock loc t mod 60 \<noteq> 0 \<or> t_nsec t \<noteq> 0 then None else Some t)"

text \<open>The start of the local hour of an instant.\<close>

definition currentHour :: "Location \<Rightarrow> gotime \<Rightarrow> gotime" where
  "currentHour loc t =
     t_add t (- (localClock loc t div 60 mod 60) * Minute - (localClock loc t mod 60) * Second - t_nsec t)"

definition parseCustomUsageHourRange ::
  "Location \<Rightarrow> string \<Rightarrow> string \<Rightarrow> gotime \<Rightarrow> query_range_error + UsageQueryRange" where
  "parseCustomUsageHourRange loc startValue endValue anchor =
     (case parseUsageQueryHour loc startValue of
        None \<Rightarrow> Inl InvalidStart
      | Some startTime \<Rightarrow>
     (case parseUsageQueryHour loc endValue of
        None \<Rightarrow> Inl InvalidEnd
      | Some endHour \<Rightarrow>
          if endHour < startTime then Inl StartAfterEnd
          else let selectedHours = t_sub endHour startTime div Hour + 1 in
               if t_sub endHour startTime mod Hour \<noteq> 0 \<or> selectedHours < 5 \<or> 24 < selectedHours then Inl HourRangeSize
               else if startTime < t_add (currentHour loc anchor) (- 23 * Hour)
               then Inl (BoundsConflict ''custom hour range cannot start more than 24 hours ago'')
               else if currentHour loc anchor < endHour
               then Inl (BoundsConflict ''custom hour range cannot end in the future'')
               else Inr \<lparr>qr_Range = ''custom'', qr_Unit = UsageQueryUnitHour, qr_Count = selectedHours,
                 qr_StartTime = startTime, qr_EndTime = t_add endHour Hour, qr_EndExclusive = True\<rparr>))"

definition parseCustomUsageQueryRange ::
  "Location \<Rightarrow> string \<Rightarrow> string \<Rightarrow> string \<Rightarrow> gotime \<Rightarrow> int \<Rightarrow> query_range_error + UsageQueryRange" where
  "parseCustomUsageQueryRange loc unitValue startValue endValue anchor maxCustomDayRangeDays =
     (let start = TrimSpace startValue; stop = TrimSpace endValue in
      if start = [] \<or> stop = [] then Inl CustomNeedsBounds
      else case resolveUsageQueryUnit loc unitValue start stop of
        Inl err \<Rightarrow> Inl err
      | Inr UsageQueryUnitDay \<Rightarrow>
          parseCustomUsageDayRange loc start stop anchor
            (if maxCustomDayRangeDays \<le> 0 then defaultCustomDayRangeMaxDays else maxCustomDayRangeDays)
      | Inr UsageQueryUnitHour \<Rightarrow> parseCustomUsageHourRange loc start stop anchor)"

definition ParseUsageQueryRangeWithOptions ::
  "Location \<Rightarrow> string \<Rightarrow> string \<Rightarrow> string \<Rightarrow> string \<Rightarrow> gotime \<Rightarrow> int \<Rightarrow> query_range_error + UsageQueryRange" where
  "ParseUsageQueryRangeWithOptions loc rangeValue unitValue startValue endValue anchor maxCustomDayRangeDays =
     (let range = TrimSpace rangeValue in
      if range = [] then Inl RangeRequired
      else if anchor = zero_time then Inl AnchorRequired
      else if range = ''today'' \<or> range = ''yesterday'' then
        (let localStart = (if range = ''yesterday'' then AddDays loc (dayStart loc anchor) (- 1) else dayStart loc anchor) in
         Inr \<lparr>qr_Range = range, qr_Unit = UsageQueryUnitDay, qr_Count = 1,
           qr_StartTime = localStart, qr_EndTime = t_add (AddDays loc localStart 1) (- 1), qr_EndExclusive = False\<rparr>)
      else if range = ''custom'' then parseCustomUsageQueryRange loc unitValue startValue endValue anchor maxCustomDayRangeDays
      else case ParseUsageRollingRange range of
        None \<Rightarrow> Inl (UnsupportedRange range)
      | Some rolling \<Rightarrow>
          Inr \<lparr>qr_Range = range,
            qr_Unit = (if rr_Unit rolling = UsageRollingUnitDay then UsageQueryUnitDay else UsageQueryUnitHour),
            qr_Count = rr_Value rolling,
            qr_StartTime = t_add anchor (i64 (- rolling_Duration rolling)), qr_EndTime = anchor, qr_EndExclusive = False\<rparr>)"

definition ParseUsageQueryRange ::
  "Location \<Rightarrow> string \<Rightarrow> string \<Rightarrow> string \<Rightarrow> string \<Rightarrow> gotime \<Rightarrow> query_range_error + UsageQueryRange" where
  "ParseUsageQueryRange loc rangeValue unitValue startValue endValue anchor =
     ParseUsageQueryRangeWithOptions loc rangeValue unitValue startValue endValue anchor 0"

declare countDays.simps [simp del]

section \<open>Canonical rolling ranges\<close>

fun unitChar :: "UsageRollingUnit \<Rightarrow> char" where
  "unitChar UsageRollingUnitHour = CHR ''h''"
| "unitChar UsageRollingUnitDay = CHR ''d''"

definition rollingBounds :: "UsageRollingRange \<Rightarrow> bool" where
  "rollingBounds r \<longleftrightarrow>
     (case rr_Unit r of UsageRollingUnitHour \<Rightarrow> 5 \<le> rr_Value r \<and> rr_Value r \<le> 24
      | UsageRollingUnitDay \<Rightarrow> 1 \<le> rr_Value r \<and> rr_Value r \<le> 30)"

lemma rollingUnit_iff: "rollingUnit c = Some u \<longleftrightarrow> c = unitChar u"
  by (cases u) (auto simp: rollingUnit_def)

text \<open>
  The rolling ranges that are accepted are exactly the canonical decimal numbers from 5 to 24
  followed by \<open>h\<close> and from 1 to 30 followed by \<open>d\<close>; no sign, leading zero or white space gets
  through, and the range that is returned has that number and unit.
\<close>

theorem rolling_range_exact:
  "ParseUsageRollingRange text = Some r \<longleftrightarrow>
     text = Itoa (rr_Value r) @ [unitChar (rr_Unit r)] \<and> rollingBounds (r :: UsageRollingRange)"
proof
  assume p: "ParseUsageRollingRange text = Some r"
  then have "text \<noteq> []" by (auto simp: ParseUsageRollingRange_def)
  then have t: "text = butlast text @ [last text]" by simp
  from p show "text = Itoa (rr_Value r) @ [unitChar (rr_Unit r)] \<and> rollingBounds r"
    by (subst t) (auto simp: ParseUsageRollingRange_def rollingUnit_iff Let_def rollingBounds_def
        split: if_splits option.splits UsageRollingUnit.splits)
next
  assume r: "text = Itoa (rr_Value r) @ [unitChar (rr_Unit r)] \<and> rollingBounds r"
  then have b: "1 \<le> rr_Value r" "rr_Value r \<le> 30" by (auto simp: rollingBounds_def split: UsageRollingUnit.splits)
  then have "in_i64 (rr_Value r)" by (simp add: in_i64_def MinInt64_def MaxInt64_def)
  moreover have "Itoa (rr_Value r) \<noteq> []" by (simp add: Itoa_def)
  moreover have "rollingUnit (unitChar (rr_Unit r)) = Some (rr_Unit r)" by (simp add: rollingUnit_iff)
  ultimately show "ParseUsageRollingRange text = Some r"
    using r b by (auto simp: ParseUsageRollingRange_def Atoi_Itoa Let_def rollingBounds_def Suc_le_eq
        split: UsageRollingUnit.splits)
qed

theorem rolling_range_exact_witness:
  "ParseUsageRollingRange ''24h'' = Some \<lparr>rr_Value = 24, rr_Unit = UsageRollingUnitHour\<rparr>"
proof -
  let ?r = "\<lparr>rr_Value = 24, rr_Unit = UsageRollingUnitHour\<rparr>"
  have "''24h'' = Itoa (rr_Value ?r) @ [unitChar (rr_Unit ?r)]" "rollingBounds ?r" by code_simp+
  then show ?thesis using rolling_range_exact [of "''24h''" ?r] by simp
qed

section \<open>Custom ranges of days\<close>

text \<open>The midnights that start the local days of a regular zone.\<close>

definition midnight :: "Location \<Rightarrow> int \<Rightarrow> gotime" where
  "midnight loc d = time_Unix (dateSec loc d 0)"

lemma midnight_less: "regular loc \<Longrightarrow> midnight loc a < midnight loc b \<longleftrightarrow> a < b"
  using dateSec_mono [of loc a b] dateSec_mono [of loc b a]
  by (cases a b rule: linorder_cases) (auto simp: midnight_def)

lemma midnight_facts:
  assumes "regular loc"
  shows "localDay loc (midnight loc d) = d" "AddDays loc (midnight loc d) n = midnight loc (d + n)"
    "dayStart loc t = midnight loc (localDay loc t)"
    "midnight loc a \<le> t \<longleftrightarrow> a \<le> localDay loc t" "t < midnight loc a \<longleftrightarrow> localDay loc t < a"
  using localDay_time_Date [OF assms] AddDays_dayStart [OF assms] midnight_iff [OF assms, of a "t_unix t"]
  by (auto simp: midnight_def dayStart_eq time_Unix_le less_time_Unix localDay_def)

lemma parse_layoutDate:
  assumes "parseLayout layoutDate v unparsed = Some p"
  shows "pHour p = 0 \<and> pMin p = 0 \<and> pSec p = 0 \<and> pNsec p = 0 \<and> pZone p = None"
  using assms by (auto simp: layoutDate_def unparsed_def split: option.splits if_splits)

lemma parsed_midnight:
  assumes "ParseInLocation loc layoutDate v = Some t"
  obtains d where "t = midnight loc d"
  using assms parse_layoutDate [of v]
  by (fastforce simp: ParseInLocation_def Let_def midnight_def time_Date_def split: option.splits if_splits)

lemma countDays_midnights:
  assumes "regular loc"
  shows "a \<le> b \<Longrightarrow> c \<le> mx \<Longrightarrow>
    countDays loc mx (midnight loc a) (midnight loc b) c = (if c + (b - a) \<le> mx then Some (c + (b - a)) else None)"
proof (induction "nat (b - a)" arbitrary: a c)
  case 0
  then show ?case by (simp add: countDays.simps [of loc mx "midnight loc a"])
next
  case (Suc n)
  then have "a < b" by simp
  then have step: "countDays loc mx (midnight loc a) (midnight loc b) c =
      (if mx < c + 1 then None else countDays loc mx (midnight loc (a + 1)) (midnight loc b) (c + 1))"
    by (simp add: countDays.simps [of loc mx "midnight loc a"] midnight_less [OF assms] midnight_facts(2) [OF assms])
  show ?case
  proof (cases "mx < c + 1")
    case False
    then show ?thesis using Suc.hyps(1) [of "a + 1" "c + 1"] Suc.hyps(2) \<open>a < b\<close> step by simp
  qed (use step \<open>a < b\<close> in simp)
qed

text \<open>
  C22. In a regular zone, whose clock does not change at midnight, a custom range of two dates is
  accepted exactly when the dates are in order, the last is not after today and the first is among the
  most recent \<open>maxDays\<close> days; the range then counts the calendar days and its half-open interval holds
  exactly the instants whose local date is one of them, days of 23 and 25 hours included.
\<close>

theorem custom_day_range_exact:
  assumes "regular loc" "1 \<le> maxDays"
    and "ParseInLocation loc layoutDate startText = Some s" "ParseInLocation loc layoutDate endText = Some e"
  shows "case parseCustomUsageDayRange loc startText endText anchor maxDays of
      Inl err \<Rightarrow> \<not> (localDay loc anchor - (maxDays - 1) \<le> localDay loc s \<and> localDay loc s \<le> localDay loc e \<and>
        localDay loc e \<le> localDay loc anchor)
    | Inr r \<Rightarrow> localDay loc anchor - (maxDays - 1) \<le> localDay loc s \<and> localDay loc s \<le> localDay loc e \<and>
        localDay loc e \<le> localDay loc anchor \<and>
        qr_Count r = localDay loc e - localDay loc s + 1 \<and> qr_EndExclusive r \<and>
        (\<forall>t. qr_StartTime r \<le> t \<and> t < qr_EndTime r \<longleftrightarrow> localDay loc s \<le> localDay loc t \<and> localDay loc t \<le> localDay loc e)"
proof -
  note m = midnight_facts [OF assms(1)] midnight_less [OF assms(1)]
  obtain a where a: "s = midnight loc a" using assms(3) by (rule parsed_midnight)
  obtain b where b: "e = midnight loc b" using assms(4) by (rule parsed_midnight)
  show ?thesis
  proof (cases "b < a")
    case True
    then show ?thesis by (simp add: parseCustomUsageDayRange_def assms(3,4) a b m)
  next
    case False
    then have "countDays loc maxDays s e 1 = (if b - a + 1 \<le> maxDays then Some (b - a + 1) else None)"
      using countDays_midnights [OF assms(1), of a b 1 maxDays] assms(2) by (simp add: a b)
    with False show ?thesis by (auto simp: parseCustomUsageDayRange_def assms(3,4) a b m Let_def)
  qed
qed

theorem custom_day_range_exact_witness:
  "case parseCustomUsageDayRange (28800, []) ''2023-11-10'' ''2023-11-15'' (time_Unix 1700000000) 30 of
     Inl err \<Rightarrow> False
   | Inr r \<Rightarrow> qr_Count r = 6 \<and> (\<forall>t. qr_StartTime r \<le> t \<and> t < qr_EndTime r \<longleftrightarrow>
       19671 \<le> localDay (28800, []) t \<and> localDay (28800, []) t \<le> 19676)"
proof -
  let ?loc = "(28800, []) :: Location"
  have s: "ParseInLocation ?loc layoutDate ''2023-11-10'' = Some (midnight ?loc 19671)"
    and e: "ParseInLocation ?loc layoutDate ''2023-11-15'' = Some (midnight ?loc 19676)" by code_simp+
  have d: "localDay ?loc (midnight ?loc 19671) = 19671" "localDay ?loc (midnight ?loc 19676) = 19676"
    "localDay ?loc (time_Unix 1700000000) = 19676" by code_simp+
  have "regular ?loc" by code_simp
  from custom_day_range_exact [OF this _ s e, of 30 "time_Unix 1700000000"] show ?thesis
    unfolding d by (auto split: sum.splits)
qed

section \<open>Named days and custom ranges of hours\<close>

lemma named_day_range:
  assumes "regular loc" "anchor \<noteq> zero_time" "TrimSpace name = ''today'' \<or> TrimSpace name = ''yesterday''"
  shows "\<exists>r. ParseUsageQueryRangeWithOptions loc name u s e anchor mx = Inr r \<and> qr_Count r = 1 \<and>
    (\<forall>t. qr_StartTime r \<le> t \<and> t \<le> qr_EndTime r \<longleftrightarrow>
       localDay loc t = localDay loc anchor - (if TrimSpace name = ''today'' then 0 else 1))"
proof -
  note m = midnight_facts [OF assms(1)]
  have before: "t \<le> t_add (midnight loc d) (- 1) \<longleftrightarrow> localDay loc t < d" for t d
    using m(5) [of t d] by (simp add: t_add_def zle_diff1_eq del: m)
  show ?thesis
    using assms(2,3) by (auto simp: ParseUsageQueryRangeWithOptions_def Let_def m before)
qed

text \<open>
  An accepted range of hours has 5 to 24 of them, ends with the current local hour or before and
  starts within the 24 hours that the current one completes.
\<close>

lemma custom_hour_range:
  assumes "parseCustomUsageHourRange loc startText endText anchor = Inr r"
  shows "qr_EndTime r - qr_StartTime r = qr_Count r * Hour" "5 \<le> qr_Count r" "qr_Count r \<le> 24"
    "currentHour loc anchor - 23 * Hour \<le> qr_StartTime r" "qr_EndTime r \<le> currentHour loc anchor + Hour"
    "qr_EndExclusive r"
proof -
  obtain s e where se: "parseUsageQueryHour loc startText = Some s" "parseUsageQueryHour loc endText = Some e"
    using assms by (auto simp: parseCustomUsageHourRange_def split: option.splits)
  let ?n = "t_sub e s div Hour + 1"
  from assms se have ok: "s \<le> e" "t_sub e s mod Hour = 0" "5 \<le> ?n" "?n \<le> 24"
    "\<not> s < t_add (currentHour loc anchor) (- 23 * Hour)" "\<not> currentHour loc anchor < e"
    and r: "r = \<lparr>qr_Range = ''custom'', qr_Unit = UsageQueryUnitHour, qr_Count = ?n,
      qr_StartTime = s, qr_EndTime = t_add e Hour, qr_EndExclusive = True\<rparr>"
    by (auto simp: parseCustomUsageHourRange_def Let_def split: if_splits)
  have h: "t_sub e s = (?n - 1) * Hour" using ok(2) by (simp add: minus_mod_eq_div_mult [symmetric])
  then have "t_sub e s \<le> 23 * Hour" using ok(4) by (simp add: Hour_def)
  then have "t_sub e s = e - s" using ok(1) by (auto simp: t_sub_def Hour_def MaxInt64_def MinInt64_def min_def max_def split: if_splits)
  then show "qr_EndTime r - qr_StartTime r = qr_Count r * Hour"
    unfolding r using h by (simp add: t_add_def algebra_simps)
  show "5 \<le> qr_Count r" "qr_Count r \<le> 24" "currentHour loc anchor - 23 * Hour \<le> qr_StartTime r"
    "qr_EndTime r \<le> currentHour loc anchor + Hour" "qr_EndExclusive r"
    unfolding r using ok by (simp_all add: t_add_def)
qed

end
