(* ===== verification/Update_Check.thy ===== *)
theory Update_Check
  imports Go_Decimal
begin

text \<open>
  \<^verbatim>\<open>internal/updatecheck/checker.go\<close>: the comparison of the running version with the releases and tags of
  the repository. The HTTP client and the decoding of a reply are a parameter, \<open>github\<close>: what the
  server answers to a URL, a failed request or a status with the decoded body, \<open>None\<close> for a body that is not
  the expected JSON.
\<close>

section \<open>Stable versions\<close>

text \<open>The submatches of \<^verbatim>\<open>^v(\d+)\.(\d+)\.(\d+)$\<close>.\<close>

definition takeNumber :: "string \<Rightarrow> (string \<times> string) option" where
  "takeNumber s = (let ds = takeWhile isDigit s in if ds = [] then None else Some (ds, dropWhile isDigit s))"

definition takePoint :: "string \<Rightarrow> string option" where
  "takePoint s = (if s \<noteq> [] \<and> hd s = CHR ''.'' then Some (tl s) else None)"

definition stableVersionPattern :: "string \<Rightarrow> string list option" where
  "stableVersionPattern s =
     (if s = [] \<or> hd s \<noteq> CHR ''v'' then None
      else Option.bind (takeNumber (tl s)) (\<lambda>(a, s1).
           Option.bind (takePoint s1) (\<lambda>s2.
           Option.bind (takeNumber s2) (\<lambda>(b, s3).
           Option.bind (takePoint s3) (\<lambda>s4.
           Option.bind (takeNumber s4) (\<lambda>(c, s5). if s5 = [] then Some [a, b, c] else None))))))"

definition IsStableVersion :: "string \<Rightarrow> bool" where
  "IsStableVersion text \<longleftrightarrow> stableVersionPattern (TrimSpace text) \<noteq> None"

fun parseParts :: "string list \<Rightarrow> int list option" where
  "parseParts [] = Some []"
| "parseParts (m # ms) =
     (case Atoi m of None \<Rightarrow> None | Some n \<Rightarrow> map_option ((#) n) (parseParts ms))"

definition parseStableVersion :: "string \<Rightarrow> int list option" where
  "parseStableVersion text =
     (case stableVersionPattern (TrimSpace text) of None \<Rightarrow> None | Some matches \<Rightarrow> parseParts matches)"

fun compareParts :: "int list \<Rightarrow> int list \<Rightarrow> int" where
  "compareParts (l # ls) (r # rs) = (if l < r then - 1 else if r < l then 1 else compareParts ls rs)"
| "compareParts _ _ = 0"

definition CompareStableVersions :: "string \<Rightarrow> string \<Rightarrow> int option" where
  "CompareStableVersions left right =
     (case parseStableVersion left of
        None \<Rightarrow> None
      | Some leftParts \<Rightarrow>
          (case parseStableVersion right of
             None \<Rightarrow> None
           | Some rightParts \<Rightarrow> Some (compareParts leftParts rightParts)))"

section \<open>The checker\<close>

datatype 'a http_reply = RequestFailed | Reply int "'a option"

record github =
  gh_release :: "string \<Rightarrow> string http_reply"
  gh_tags :: "string \<Rightarrow> string list http_reply"

datatype check_error = RequestError | UnexpectedStatus int | DecodeError

record Result =
  res_CurrentVersion :: string
  res_LatestVersion :: string
  res_UpdateAvailable :: bool
  res_CanCompare :: bool
  res_Message :: string

record Checker =
  ck_currentVersion :: string
  ck_baseURL :: string
  ck_owner :: string
  ck_repo :: string

definition defaultGitHubAPIBaseURL :: string where
  "defaultGitHubAPIBaseURL = ''https://api.github.com''"

definition defaultGitHubOwner :: string where
  "defaultGitHubOwner = ''vpromise''"

definition defaultGitHubRepo :: string where
  "defaultGitHubRepo = ''CodexKeeper''"

text \<open>An option is a change of the checker; \<open>None\<close> is a nil option. The HTTP client is \<open>github\<close>.\<close>

definition NewChecker :: "string \<Rightarrow> (Checker \<Rightarrow> Checker) option list \<Rightarrow> Checker" where
  "NewChecker currentVersion opts =
     (let c = foldl (\<lambda>c opt. case opt of None \<Rightarrow> c | Some f \<Rightarrow> f c)
           \<lparr>ck_currentVersion = TrimSpace currentVersion, ck_baseURL = defaultGitHubAPIBaseURL,
             ck_owner = defaultGitHubOwner, ck_repo = defaultGitHubRepo\<rparr> opts in
      c\<lparr>ck_baseURL := if ck_baseURL c = [] then defaultGitHubAPIBaseURL else ck_baseURL c,
        ck_owner := if ck_owner c = [] then defaultGitHubOwner else ck_owner c,
        ck_repo := if ck_repo c = [] then defaultGitHubRepo else ck_repo c\<rparr>)"

definition TrimRightSlash :: "string \<Rightarrow> string" where
  "TrimRightSlash s = rev (dropWhile (\<lambda>c. c = CHR ''/'') (rev s))"

definition WithBaseURL :: "string \<Rightarrow> Checker \<Rightarrow> Checker" where
  "WithBaseURL baseURL c = c\<lparr>ck_baseURL := TrimRightSlash (TrimSpace baseURL)\<rparr>"

definition WithRepository :: "string \<Rightarrow> string \<Rightarrow> Checker \<Rightarrow> Checker" where
  "WithRepository owner repo c = c\<lparr>ck_owner := TrimSpace owner, ck_repo := TrimSpace repo\<rparr>"

text \<open>\<open>DefaultChecker\<close> takes the version that the build sets.\<close>

definition DefaultChecker :: "string \<Rightarrow> Checker" where
  "DefaultChecker buildVersion = NewChecker buildVersion []"

text \<open>The status, 0 without one, and the payload or the error.\<close>

definition getJSON :: "'a http_reply \<Rightarrow> int \<times> (check_error + 'a)" where
  "getJSON reply =
     (case reply of
        RequestFailed \<Rightarrow> (0, Inl RequestError)
      | Reply status body \<Rightarrow>
          if status < 200 \<or> 300 \<le> status then (status, Inl (UnexpectedStatus status))
          else (status, case body of None \<Rightarrow> Inl DecodeError | Some payload \<Rightarrow> Inr payload))"

definition fetchLatestRelease :: "github \<Rightarrow> Checker \<Rightarrow> check_error + string" where
  "fetchLatestRelease gh c =
     (case getJSON (gh_release gh (ck_baseURL c @ ''/repos/'' @ ck_owner c @ ''/'' @ ck_repo c @ ''/releases/latest'')) of
        (status, Inl err) \<Rightarrow> if status = 404 then Inr [] else Inl err
      | (_, Inr tagName) \<Rightarrow> Inr (TrimSpace tagName))"

definition fetchTags :: "github \<Rightarrow> Checker \<Rightarrow> check_error + string list" where
  "fetchTags gh c =
     (case getJSON (gh_tags gh (ck_baseURL c @ ''/repos/'' @ ck_owner c @ ''/'' @ ck_repo c @ ''/tags?per_page=100'')) of
        (_, Inl err) \<Rightarrow> Inl err
      | (_, Inr names) \<Rightarrow> Inr (filter (\<lambda>name. name \<noteq> []) (map TrimSpace names)))"

text \<open>The loop over the tags.\<close>

fun latestTag :: "string \<Rightarrow> string list \<Rightarrow> string" where
  "latestTag best [] = best"
| "latestTag best (tag # tags) =
     (if \<not> IsStableVersion tag then latestTag best tags
      else if best = [] then latestTag tag tags
      else case CompareStableVersions best tag of
        Some comparison \<Rightarrow> latestTag (if comparison < 0 then tag else best) tags
      | None \<Rightarrow> latestTag best tags)"

definition latestStableVersion :: "github \<Rightarrow> Checker \<Rightarrow> check_error + string option" where
  "latestStableVersion gh c =
     (case fetchLatestRelease gh c of
        Inr latestRelease \<Rightarrow>
          if IsStableVersion latestRelease then Inr (Some latestRelease)
          else (case fetchTags gh c of
              Inl err \<Rightarrow> Inl err
            | Inr tags \<Rightarrow> Inr (let t = latestTag [] tags in if t = [] then None else Some t))
      | Inl _ \<Rightarrow>
          (case fetchTags gh c of
              Inl err \<Rightarrow> Inl err
            | Inr tags \<Rightarrow> Inr (let t = latestTag [] tags in if t = [] then None else Some t)))"

definition Check :: "github \<Rightarrow> Checker \<Rightarrow> check_error + Result" where
  "Check gh c =
     (if \<not> IsStableVersion (ck_currentVersion c) then
        Inr \<lparr>res_CurrentVersion = ck_currentVersion c, res_LatestVersion = [], res_UpdateAvailable = False,
          res_CanCompare = False, res_Message = ''current build is not comparable''\<rparr>
      else case latestStableVersion gh c of
        Inl err \<Rightarrow> Inl err
      | Inr None \<Rightarrow>
          Inr \<lparr>res_CurrentVersion = ck_currentVersion c, res_LatestVersion = [], res_UpdateAvailable = False,
            res_CanCompare = False, res_Message = ''no comparable release found''\<rparr>
      | Inr (Some latest) \<Rightarrow>
          (case CompareStableVersions (ck_currentVersion c) latest of
             None \<Rightarrow>
               Inr \<lparr>res_CurrentVersion = ck_currentVersion c, res_LatestVersion = latest, res_UpdateAvailable = False,
                 res_CanCompare = False, res_Message = ''current build is not comparable''\<rparr>
           | Some comparison \<Rightarrow>
               Inr \<lparr>res_CurrentVersion = ck_currentVersion c, res_LatestVersion = latest,
                 res_UpdateAvailable = comparison < 0, res_CanCompare = True,
                 res_Message =
                   (if comparison < 0 then ''new version available: '' @ latest else ''already on the latest version'')\<rparr>))"

section \<open>Versions are ordered by their numbers\<close>

lemma compareParts_less:
  "length ls = length rs \<Longrightarrow> (compareParts ls rs < 0 \<longleftrightarrow> ls < rs) \<and> (compareParts ls rs = 0 \<longleftrightarrow> ls = rs)"
  by (induction ls rs rule: list_induct2) auto

lemma parseParts_length: "parseParts ms = Some ns \<Longrightarrow> length ns = length ms"
  by (induction ms arbitrary: ns) (auto split: option.splits)

lemma pattern_length: "stableVersionPattern s = Some ms \<Longrightarrow> length ms = 3"
  by (auto simp: stableVersionPattern_def bind_eq_Some_conv split: if_splits)

lemma parse_length: "parseStableVersion s = Some ns \<Longrightarrow> length ns = 3"
  using pattern_length parseParts_length by (fastforce simp: parseStableVersion_def split: option.splits)

lemma Compare_less:
  assumes "parseStableVersion l = Some ls" "parseStableVersion r = Some rs"
  shows "\<exists>k. CompareStableVersions l r = Some k \<and> (k < 0 \<longleftrightarrow> ls < rs)"
  using assms compareParts_less [of ls rs] by (simp add: CompareStableVersions_def parse_length)

text \<open>Tags whose numbers all fit an \<open>int\<close>.\<close>

definition readable :: "string \<Rightarrow> bool" where
  "readable tag \<longleftrightarrow> IsStableVersion tag \<longrightarrow> parseStableVersion tag \<noteq> None"

lemma parse_stable: "parseStableVersion tag \<noteq> None \<Longrightarrow> IsStableVersion tag"
  by (auto simp: parseStableVersion_def IsStableVersion_def split: option.splits)

lemma stable_ne: "IsStableVersion tag \<Longrightarrow> tag \<noteq> []"
  by (auto simp: IsStableVersion_def stableVersionPattern_def)

text \<open>The loop keeps a greatest version of what it has seen.\<close>

definition greatest :: "string \<Rightarrow> string set \<Rightarrow> bool" where
  "greatest tag S \<longleftrightarrow> tag \<in> S \<and> parseStableVersion tag \<noteq> None \<and>
     (\<forall>other\<in>S. the (parseStableVersion other) \<le> the (parseStableVersion tag))"

lemma greatest_insert:
  assumes "greatest m (insert x S)" "the (parseStableVersion y) \<le> the (parseStableVersion x)"
  shows "greatest m (insert x (insert y S))"
  using assms by (auto simp: greatest_def intro: order_trans)

lemma latestTag_greatest:
  assumes "\<forall>tag\<in>set tags. readable tag" "parseStableVersion best \<noteq> None"
  shows "greatest (latestTag best tags) (insert best (set (filter IsStableVersion tags)))"
  using assms
proof (induction tags arbitrary: best)
  case Nil
  then show ?case by (simp add: greatest_def)
next
  case (Cons tag tags)
  have ne: "best \<noteq> []" using Cons.prems(2) parse_stable stable_ne by blast
  show ?case
  proof (cases "IsStableVersion tag")
    case True
    then obtain bs ts where p: "parseStableVersion best = Some bs" "parseStableVersion tag = Some ts"
      using Cons.prems by (auto simp: readable_def)
    obtain k where k: "CompareStableVersions best tag = Some k" "k < 0 \<longleftrightarrow> bs < ts" using Compare_less [OF p] by blast
    show ?thesis
    proof (cases "k < 0")
      case less: True
      then have "greatest (latestTag tag tags) (insert tag (set (filter IsStableVersion tags)))"
        using Cons p by simp
      then show ?thesis using True less k ne p greatest_insert [of _ tag _ best] by (simp add: insert_commute)
    next
      case False
      then have "greatest (latestTag best tags) (insert best (set (filter IsStableVersion tags)))"
        using Cons p by simp
      then show ?thesis using True False k ne p greatest_insert [of _ best _ tag] by simp
    qed
  qed (use Cons in simp)
qed

lemma latestTag_start:
  assumes "\<forall>tag\<in>set tags. readable tag"
  shows "if filter IsStableVersion tags = [] then latestTag [] tags = []
    else greatest (latestTag [] tags) (set (filter IsStableVersion tags))"
  using assms
proof (induction tags)
  case (Cons tag tags)
  then show ?case using latestTag_greatest [of tags tag] by (auto simp: readable_def)
qed simp

text \<open>The tags of the repository as the checker reads them.\<close>

lemma Check_tags:
  assumes "parseStableVersion (ck_currentVersion c) = Some cur" "\<And>v. fetchLatestRelease gh c = Inr v \<Longrightarrow> \<not> IsStableVersion v"
    and "fetchTags gh c = Inr tags" "\<forall>tag\<in>set tags. readable tag"
  shows "\<exists>r. Check gh c = Inr r \<and> (res_UpdateAvailable r \<longleftrightarrow>
    (\<exists>tag\<in>set tags. \<exists>v. parseStableVersion tag = Some v \<and> cur < v))"
proof -
  have latest: "latestStableVersion gh c = Inr (let t = latestTag [] tags in if t = [] then None else Some t)"
    using assms(2,3) by (auto simp: latestStableVersion_def split: sum.splits)
  have stable: "IsStableVersion (ck_currentVersion c)" using assms(1) parse_stable by blast
  show ?thesis
  proof (cases "filter IsStableVersion tags = []")
    case True
    then have "latestTag [] tags = []" using latestTag_start [OF assms(4)] by simp
    moreover have "\<forall>tag\<in>set tags. parseStableVersion tag = None" using True parse_stable unfolding filter_empty_conv by blast
    ultimately show ?thesis using latest stable by (simp add: Check_def)
  next
    case False
    let ?t = "latestTag [] tags"
    have g: "greatest ?t (set (filter IsStableVersion tags))" using latestTag_start [OF assms(4)] False by simp
    then obtain best where best: "parseStableVersion ?t = Some best" by (auto simp: greatest_def)
    obtain k where k: "CompareStableVersions (ck_currentVersion c) ?t = Some k" "k < 0 \<longleftrightarrow> cur < best"
      using Compare_less [OF assms(1) best] by blast
    have "?t \<noteq> []" using best parse_stable stable_ne by blast
    then have "\<exists>r. Check gh c = Inr r \<and> (res_UpdateAvailable r \<longleftrightarrow> cur < best)"
      using latest stable k by (simp add: Check_def)
    moreover have "cur < best \<longleftrightarrow> (\<exists>tag\<in>set tags. \<exists>v. parseStableVersion tag = Some v \<and> cur < v)"
    proof
      assume "\<exists>tag\<in>set tags. \<exists>v. parseStableVersion tag = Some v \<and> cur < v"
      then obtain tag v where v: "tag \<in> set tags" "parseStableVersion tag = Some v" "cur < v" by blast
      then have "tag \<in> set (filter IsStableVersion tags)" using parse_stable by auto
      then have "v \<le> best" using g v(2) best by (fastforce simp: greatest_def)
      then show "cur < best" using v(3) by simp
    qed (use g best in \<open>auto simp: greatest_def\<close>)
    ultimately show ?thesis by simp
  qed
qed

text \<open>
  C23. When the running build has a stable version, the latest release has none or cannot be fetched, the
  tags can be fetched and the numbers of all tags fit the machine's integers, the check returns and
  reports an update exactly when some tag of the repository has a greater version number than the running
  build, in whatever order the server lists the tags.
\<close>

theorem update_check_exact:
  assumes "parseStableVersion (ck_currentVersion c) = Some cur"
    and "case fetchLatestRelease gh c of Inl _ \<Rightarrow> True | Inr release \<Rightarrow> \<not> IsStableVersion release"
    and "fetchTags gh c = Inr tags" "\<forall>tag\<in>set tags. readable tag"
  shows "\<exists>r. Check gh c = Inr r \<and> (res_UpdateAvailable r \<longleftrightarrow>
    (\<exists>tag\<in>set tags. \<exists>v. parseStableVersion tag = Some v \<and> cur < v))"
  using assms by (intro Check_tags) (auto split: sum.splits)

text \<open>A server without releases that lists the given tags.\<close>

definition tagServer :: "string list \<Rightarrow> github" where
  "tagServer tags = \<lparr>gh_release = (\<lambda>_. Reply 404 None), gh_tags = (\<lambda>_. Reply 200 (Some tags))\<rparr>"

theorem update_check_exact_witness:
  "\<exists>r. Check (tagServer [''v1.2.0'', ''v1.10.0'', ''nightly'']) (NewChecker ''v1.9.3'' []) = Inr r \<and> res_UpdateAvailable r"
proof -
  let ?gh = "tagServer [''v1.2.0'', ''v1.10.0'', ''nightly'']" and ?c = "NewChecker ''v1.9.3'' []"
  have tags: "fetchTags ?gh ?c = Inr [''v1.2.0'', ''v1.10.0'', ''nightly'']" by code_simp
  have cur: "parseStableVersion (ck_currentVersion ?c) = Some [1, 9, 3]" by code_simp
  have rel: "case fetchLatestRelease ?gh ?c of Inl _ \<Rightarrow> True | Inr release \<Rightarrow> \<not> IsStableVersion release" by code_simp
  have readable: "\<forall>tag\<in>set [''v1.2.0'', ''v1.10.0'', ''nightly'']. readable tag" by code_simp
  have "parseStableVersion ''v1.10.0'' = Some [1, 10, 0]" by code_simp
  then show ?thesis using update_check_exact [OF cur rel tags readable] by fastforce
qed

text \<open>
  A tag that matches the pattern and whose number does not fit an \<open>int\<close> is kept as the latest one when
  it is listed first, since no comparison with it succeeds: the newer version after it is not reported.
\<close>

lemma overflowing_tag_hides_update:
  "Check (tagServer [''v99999999999999999999.0.0'', ''v2.0.0'']) (NewChecker ''v1.0.0'' []) =
   Inr \<lparr>res_CurrentVersion = ''v1.0.0'', res_LatestVersion = ''v99999999999999999999.0.0'', res_UpdateAvailable = False,
     res_CanCompare = False, res_Message = ''current build is not comparable''\<rparr>"
  by code_simp

end
