(* ===== verification/Cursor_Page.thy ===== *)
theory Cursor_Page
  imports Storage_Time
begin

text \<open>
  Pages of a list in descending order that are asked for with a cursor, the contract the lists of usage
  events and of error events share, and the cursor codec of \<^verbatim>\<open>internal/api/usage_filter.go\<close>.

  The locale \<open>cursor_pager\<close> states what one request gives: at most \<open>n\<close> rows after the cursor, in
  descending order of their keys, and the cursor of the last of them when there are more. Its lemma
  shows that a client that follows the cursors reads every row once, in order. The lists of the
  development are interpretations of it.
\<close>

section \<open>Descending lists\<close>

definition descending :: "('r \<Rightarrow> 'k :: linorder) \<Rightarrow> 'r list \<Rightarrow> 'r list" where
  "descending key rows = rev (sort_key key rows)"

lemma descending_filter: "descending key (filter keep rows) = filter keep (descending key rows)"
  by (simp add: descending_def filter_sort [symmetric] rev_filter)

lemma length_descending [simp]: "length (descending key rows) = length rows"
  by (simp add: descending_def)

lemma set_descending [simp]: "set (descending key rows) = set rows"
  by (simp add: descending_def)

lemma last_page_row:
  assumes "0 < n" "rows \<noteq> []"
  shows "take n (descending key rows) \<noteq> []" "last (take n (descending key rows)) \<in> set rows"
proof -
  have "descending key rows \<noteq> []" using assms(2) by (metis length_0_conv length_descending)
  then show ne: "take n (descending key rows) \<noteq> []" using assms(1) by simp
  show "last (take n (descending key rows)) \<in> set rows" using last_in_set [OF ne] by (metis in_set_takeD set_descending)
qed

lemma descending_sorted:
  assumes "distinct (map key rows)"
  shows "sorted_wrt (\<lambda>a b. key b < key a) (descending key rows)"
proof -
  have "sorted (map key (sort_key key rows))" by simp
  moreover have "distinct (map key (sort_key key rows))"
    using assms by (simp add: distinct_map)
  ultimately have "sorted_wrt (<) (map key (sort_key key rows))" by (simp add: strict_sorted_iff)
  then show ?thesis by (simp add: descending_def sorted_wrt_rev sorted_wrt_map)
qed

lemma sorted_below_last:
  fixes key :: "'r \<Rightarrow> 'k :: linorder"
  assumes "sorted_wrt (\<lambda>a b. key b < key a) xs" "0 < n" "n < length xs"
  shows "filter (\<lambda>x. key x < key (last (take n xs))) xs = drop n xs"
proof -
  define as where "as = butlast (take n xs)"
  define r where "r = last (take n xs)"
  have "take n xs \<noteq> []" using assms by auto
  then have "take n xs = as @ [r]" by (simp add: as_def r_def)
  then have xs: "xs = as @ r # drop n xs" by (metis append.assoc append_Cons append_Nil append_take_drop_id)
  have s: "sorted_wrt (\<lambda>a b. key b < key a) (as @ r # drop n xs)" using assms(1) xs by simp
  then have "\<forall>a\<in>set as. key r < key a" "\<forall>b\<in>set (drop n xs). key b < key r" by (auto simp: sorted_wrt_append)
  then have "filter (\<lambda>x. key x < key r) (as @ r # drop n xs) = drop n xs"
    by (auto simp: filter_empty_conv filter_id_conv dest: less_asym)
  then show ?thesis using xs by (simp add: r_def [symmetric])
qed

section \<open>Following the cursors\<close>

text \<open>A client that asks for pages until it gets no cursor, for at most the given number of requests.\<close>

fun followPages :: "nat \<Rightarrow> ('c option \<Rightarrow> 'r list \<times> 'c option) \<Rightarrow> 'c option \<Rightarrow> 'r list" where
  "followPages 0 page c = []"
| "followPages (Suc requests) page c =
     (case page c of
        (rows, None) \<Rightarrow> rows
      | (rows, Some c') \<Rightarrow> rows @ followPages requests page (Some c'))"

text \<open>One page of the rows that are left, with the cursor of its last row.\<close>

definition onePage :: "nat \<Rightarrow> ('r \<Rightarrow> 'k :: linorder) \<Rightarrow> ('r \<Rightarrow> 'c) \<Rightarrow> 'r list \<Rightarrow> 'r list \<times> 'c option" where
  "onePage n key mk left =
     (let rows = take n (descending key left) in
      (rows, if n < length left then Some (mk (last rows)) else None))"

text \<open>A paged list: the states the laws hold in and, of a state, its rows, their keys and cursors and the size of a page.\<close>

locale cursor_pager =
  fixes valid :: "'s \<Rightarrow> bool" and rows :: "'s \<Rightarrow> 'r list" and key :: "'s \<Rightarrow> 'r \<Rightarrow> 'k :: linorder"
    and mk :: "'s \<Rightarrow> 'r \<Rightarrow> 'c" and n :: "'s \<Rightarrow> nat" and page :: "'s \<Rightarrow> 'c option \<Rightarrow> 'r list \<times> 'c option"
  assumes size_pos: "valid s \<Longrightarrow> 0 < n s"
    and keys_distinct: "valid s \<Longrightarrow> distinct (map (key s) (rows s))"
    and first_page: "valid s \<Longrightarrow> page s None = onePage (n s) (key s) (mk s) (rows s)"
    and next_page: "valid s \<Longrightarrow> r \<in> set (rows s) \<Longrightarrow>
      page s (Some (mk s r)) = onePage (n s) (key s) (mk s) (filter (\<lambda>x. key s x < key s r) (rows s))"
begin

text \<open>The rows left are those whose keys are in a set that is closed downwards.\<close>

lemma follow_from:
  assumes valid: "valid s" and "page s c = onePage (n s) (key s) (mk s) left" "left = filter (\<lambda>x. key s x \<in> K) (rows s)"
    and "\<And>a b. a < b \<Longrightarrow> b \<in> K \<Longrightarrow> a \<in> K" "length left \<le> requests"
  shows "followPages (Suc requests) (page s) c = descending (key s) left"
  using assms(2-)
proof (induction requests arbitrary: c left K rule: less_induct)
  case (less requests)
  let ?d = "descending (key s) left"
  show ?case
  proof (cases "n s < length left")
    case True
    let ?r = "last (take (n s) ?d)"
    have distinct: "distinct (map (key s) left)" using keys_distinct [OF valid] less.prems(2) by (simp add: distinct_map_filter)
    have "?r \<in> set left" using True by (intro last_page_row size_pos [OF valid]) auto
    then have r: "?r \<in> set (rows s)" "key s ?r \<in> K" using less.prems(2) by auto
    define rest where "rest = filter (\<lambda>x. key s x < key s ?r) (rows s)"
    have "filter (\<lambda>x. key s x < k) (rows s) = filter (\<lambda>x. key s x < k) left" if "k \<in> K" for k
      unfolding less.prems(2) filter_filter using less.prems(3) that by (intro filter_cong) auto
    then have "rest = filter (\<lambda>x. key s x < key s ?r) left" using r(2) by (simp add: rest_def)
    then have dr: "descending (key s) rest = drop (n s) ?d"
      using sorted_below_last [OF descending_sorted [OF distinct] size_pos [OF valid]] True by (simp add: descending_filter)
    then have len: "length rest = length left - n s" by (metis length_descending length_drop)
    obtain m where m: "requests = Suc m" using True less.prems(4) by (cases requests) auto
    have "followPages (Suc m) (page s) (Some (mk s ?r)) = descending (key s) rest"
    proof (rule less.IH)
      show "page s (Some (mk s ?r)) = onePage (n s) (key s) (mk s) rest" unfolding rest_def using r(1) by (rule next_page [OF valid])
      show "rest = filter (\<lambda>x. key s x \<in> {k. k < key s ?r}) (rows s)" by (simp add: rest_def)
    qed (use m len True size_pos [OF valid] less.prems(4) in auto)
    moreover have "page s c = (take (n s) ?d, Some (mk s ?r))" using less.prems(1) True by (simp add: onePage_def Let_def)
    ultimately show ?thesis unfolding m by (simp add: dr)
  qed (use less.prems(1) in \<open>simp add: onePage_def Let_def\<close>)
qed

theorem follow_all: "valid s \<Longrightarrow> length (rows s) \<le> requests \<Longrightarrow> followPages (Suc requests) (page s) None = descending (key s) (rows s)"
  by (rule follow_from [where K = UNIV]) (simp_all add: first_page)

end

section \<open>Base 64\<close>

text \<open>\<open>base64.RawURLEncoding\<close>: no padding, line breaks are skipped, bits beyond the last byte are ignored.\<close>

definition b64char :: "nat \<Rightarrow> char" where
  "b64char n =
     char_of (if n < 26 then n + 65 else if n < 52 then n + 71 else if n < 62 then n - 4 else if n = 62 then 45 else 95)"

definition b64val :: "char \<Rightarrow> nat option" where
  "b64val c =
     (let b = byte c in
      if 65 \<le> b \<and> b \<le> 90 then Some (b - 65)
      else if 97 \<le> b \<and> b \<le> 122 then Some (b - 71)
      else if 48 \<le> b \<and> b \<le> 57 then Some (b + 4)
      else if b = 45 then Some 62
      else if b = 95 then Some 63
      else None)"

definition quad :: "nat \<Rightarrow> nat \<Rightarrow> nat \<Rightarrow> nat list" where
  "quad a b c =
     (let n = a * 65536 + b * 256 + c in [n div 262144, n div 4096 mod 64, n div 64 mod 64, n mod 64])"

definition triple :: "nat \<Rightarrow> nat \<Rightarrow> nat \<Rightarrow> nat \<Rightarrow> string" where
  "triple w x y z =
     (let n = w * 262144 + x * 4096 + y * 64 + z in
      [char_of (n div 65536), char_of (n div 256 mod 256), char_of (n mod 256)])"

fun EncodeToString :: "string \<Rightarrow> string" where
  "EncodeToString [] = []"
| "EncodeToString [a] = map b64char (take 2 (quad (byte a) 0 0))"
| "EncodeToString [a, b] = map b64char (take 3 (quad (byte a) (byte b) 0))"
| "EncodeToString (a # b # c # s) = map b64char (quad (byte a) (byte b) (byte c)) @ EncodeToString s"

fun decodeQuanta :: "nat list \<Rightarrow> string option" where
  "decodeQuanta [] = Some []"
| "decodeQuanta [w] = None"
| "decodeQuanta [w, x] = Some (take 1 (triple w x 0 0))"
| "decodeQuanta [w, x, y] = Some (take 2 (triple w x y 0))"
| "decodeQuanta (w # x # y # z # s) = map_option ((@) (triple w x y z)) (decodeQuanta s)"

definition DecodeString :: "string \<Rightarrow> string option" where
  "DecodeString text =
     (let src = filter (\<lambda>c. c \<noteq> char_of (10 :: nat) \<and> c \<noteq> char_of (13 :: nat)) text in
      if list_all (\<lambda>c. b64val c \<noteq> None) src then decodeQuanta (map (the \<circ> b64val) src) else None)"

lemma byte_b64char:
  "n < 64 \<Longrightarrow> byte (b64char n) =
     (if n < 26 then n + 65 else if n < 52 then n + 71 else if n < 62 then n - 4 else if n = 62 then 45 else 95)"
  by (simp add: b64char_def byte_def of_char_of)

lemma b64val_b64char: "n < 64 \<Longrightarrow> b64val (b64char n) = Some n"
  by (auto simp: b64val_def byte_b64char Let_def)

lemma b64char_plain: "n < 64 \<Longrightarrow> b64char n \<noteq> char_of (10 :: nat) \<and> b64char n \<noteq> char_of (13 :: nat)"
proof -
  assume "n < 64"
  then have "45 \<le> byte (b64char n)" unfolding byte_b64char [OF \<open>n < 64\<close>] by auto
  moreover have "byte (char_of (10 :: nat)) = 10" "byte (char_of (13 :: nat)) = 13" by (simp_all add: byte_def of_char_of)
  ultimately have "byte (b64char n) \<noteq> byte (char_of (10 :: nat))" "byte (b64char n) \<noteq> byte (char_of (13 :: nat))" by simp_all
  then show ?thesis by (intro conjI notI) (simp_all only: simp_thms)
qed

lemma quad_bounds: "a < 256 \<Longrightarrow> b < 256 \<Longrightarrow> c < 256 \<Longrightarrow> \<forall>q\<in>set (quad a b c). q < 64"
  by (auto simp: quad_def Let_def div_less_iff_less_mult)

lemma triple_quad:
  assumes "a < 256" "b < 256" "c < 256" "quad a b c = [w, x, y, z]"
  shows "triple w x y z = [char_of a, char_of b, char_of c]"
proof -
  let ?n = "a * 65536 + b * 256 + c"
  have q: "w = ?n div 262144" "x = ?n div 4096 mod 64" "y = ?n div 64 mod 64" "z = ?n mod 64"
    using assms(4) by (simp_all add: quad_def Let_def)
  have "?n div 64 = ?n div 4096 * 64 + y" "?n div 4096 = w * 64 + x"
    unfolding q using div_mult_mod_eq [of "?n div 64" 64] div_mult_mod_eq [of "?n div 4096" 64]
    by (simp_all add: div_mult2_eq [symmetric])
  moreover have "?n = ?n div 64 * 64 + z" unfolding q by simp
  ultimately have n: "w * 262144 + x * 4096 + y * 64 + z = ?n" by linarith
  have "?n = (b * 256 + c) + a * 65536" "?n = c + (a * 256 + b) * 256" by simp_all
  then have "?n div 65536 = a + (b * 256 + c) div 65536" "?n div 256 = a * 256 + b + c div 256" "?n mod 256 = c mod 256"
    by (metis div_mult_self1 zero_neq_numeral, metis div_mult_self1 zero_neq_numeral, metis mod_mult_self1)
  then have "?n div 65536 = a" "?n div 256 mod 256 = b" "?n mod 256 = c" using assms(1-3) by simp_all
  then show ?thesis unfolding triple_def n Let_def by simp
qed

lemma quad_list: "\<exists>w x y z. quad a b c = [w, x, y, z]"
  by (simp add: quad_def Let_def)

lemma quad_zeros: "quad a b 0 = [w, x, y, z] \<Longrightarrow> z = 0" "quad a 0 0 = [w, x, y, z] \<Longrightarrow> y = 0 \<and> z = 0"
proof -
  have n: "a * 65536 + b * 256 = 64 * (a * 1024 + b * 4)" "a * 65536 = 4096 * (a * 16)" by simp_all
  show "quad a b 0 = [w, x, y, z] \<Longrightarrow> z = 0" unfolding quad_def Let_def add_0_right n(1) by auto
  have "4096 * (a * 16) div 64 mod 64 = 0" by (simp add: mod_eq_0_iff_dvd)
  moreover have "4096 * (a * 16) mod 64 = 0" by (simp add: mod_eq_0_iff_dvd)
  ultimately show "quad a 0 0 = [w, x, y, z] \<Longrightarrow> y = 0 \<and> z = 0" by (auto simp: quad_def Let_def)
qed

lemma byte_less [simp]: "byte c < 256"
  by (simp add: byte_def)

lemma char_of_byte [simp]: "char_of (byte c) = c"
  by (simp add: byte_def)

fun sextets :: "string \<Rightarrow> nat list" where
  "sextets [] = []"
| "sextets [a] = take 2 (quad (byte a) 0 0)"
| "sextets [a, b] = take 3 (quad (byte a) (byte b) 0)"
| "sextets (a # b # c # s) = quad (byte a) (byte b) (byte c) @ sextets s"

lemma Encode_sextets: "EncodeToString s = map b64char (sextets s)"
  by (induction s rule: sextets.induct) simp_all

lemma sextets_bounds: "\<forall>q\<in>set (sextets s). q < 64"
proof (induction s rule: sextets.induct)
  case (2 a)
  show ?case using quad_bounds [of "byte a" 0 0] by (auto dest!: in_set_takeD)
next
  case (3 a b)
  show ?case using quad_bounds [of "byte a" "byte b" 0] by (auto dest!: in_set_takeD)
next
  case (4 a b c s)
  then show ?case using quad_bounds [of "byte a" "byte b" "byte c"] by auto
qed simp

lemma decode_sextets: "decodeQuanta (sextets s) = Some s"
proof (induction s rule: sextets.induct)
  case (2 a)
  obtain w x y z where q: "quad (byte a) 0 0 = [w, x, y, z]" using quad_list by blast
  with quad_zeros(2) [OF q] triple_quad [OF _ _ _ q] show ?case by simp
next
  case (3 a b)
  obtain w x y z where q: "quad (byte a) (byte b) 0 = [w, x, y, z]" using quad_list by blast
  with quad_zeros(1) [OF q] triple_quad [OF _ _ _ q] show ?case by simp
next
  case (4 a b c s)
  obtain w x y z where q: "quad (byte a) (byte b) (byte c) = [w, x, y, z]" using quad_list by blast
  with 4 triple_quad [OF _ _ _ q] show ?case by simp
qed simp

lemma Decode_Encode: "DecodeString (EncodeToString s) = Some s"
proof -
  have b: "\<forall>q\<in>set (sextets s). b64val (b64char q) = Some q \<and> b64char q \<noteq> char_of (10 :: nat) \<and> b64char q \<noteq> char_of (13 :: nat)"
    using sextets_bounds b64val_b64char b64char_plain by blast
  then have "filter (\<lambda>c. c \<noteq> char_of (10 :: nat) \<and> c \<noteq> char_of (13 :: nat)) (EncodeToString s) = EncodeToString s"
    by (auto simp: Encode_sextets filter_id_conv)
  moreover have "list_all (\<lambda>c. b64val c \<noteq> None) (EncodeToString s)" using b by (auto simp: Encode_sextets list_all_iff)
  moreover have "map (the \<circ> b64val) (EncodeToString s) = sextets s" using b by (simp add: Encode_sextets map_idI)
  ultimately show ?thesis by (simp add: DecodeString_def decode_sextets)
qed

section \<open>Encoded cursors\<close>

definition encodeUsageEventsCursor :: "Location \<Rightarrow> gotime \<Rightarrow> int \<Rightarrow> string" where
  "encodeUsageEventsCursor loc timestamp rowID = EncodeToString (FormatStorageTime loc timestamp @ ''|'' @ Itoa rowID)"

text \<open>\<open>strings.LastIndexByte\<close> of the bar: the text before it and the text after it.\<close>

definition splitLastBar :: "string \<Rightarrow> (string \<times> string) option" where
  "splitLastBar s =
     (let tail = takeWhile (\<lambda>c. c \<noteq> CHR ''|'') (rev s) in
      if length tail = length s then None else Some (rev (drop (Suc (length tail)) (rev s)), rev tail))"

text \<open>\<open>None\<close> is the error \<open>invalid cursor\<close>; \<open>ParseInt\<close> to base 10 and 64 bits reads what \<open>Atoi\<close> reads.\<close>

definition decodeUsageEventsCursor :: "string \<Rightarrow> (gotime \<times> int) option" where
  "decodeUsageEventsCursor text =
     (case DecodeString (TrimSpace text) of
        None \<Rightarrow> None
      | Some payload \<Rightarrow>
          (case splitLastBar payload of
             None \<Rightarrow> None
           | Some (before, behind) \<Rightarrow>
               if before = [] \<or> behind = [] then None
               else case ParseInLocation UTC (hd zonedLayouts) before of
                 None \<Rightarrow> None
               | Some timestamp \<Rightarrow>
                   (case Atoi behind of
                      None \<Rightarrow> None
                    | Some rowID \<Rightarrow> if rowID \<le> 0 then None else Some (timestamp, rowID))))"

lemma splitLastBar_append: "list_all (\<lambda>c. c \<noteq> CHR ''|'') b \<Longrightarrow> splitLastBar (a @ CHR ''|'' # b) = Some (a, b)"
proof -
  assume "list_all (\<lambda>c. c \<noteq> CHR ''|'') b"
  then have "takeWhile (\<lambda>c. c \<noteq> CHR ''|'') (rev b @ CHR ''|'' # rev a) = rev b"
    by (subst takeWhile_append2) (auto simp: list_all_iff)
  then show ?thesis by (simp add: splitLastBar_def)
qed

lemma Encode_plain:
  assumes "s \<noteq> []"
  shows "TrimSpace (EncodeToString s) = EncodeToString s"
proof -
  have ne: "sextets s \<noteq> []" using assms by (cases s rule: sextets.cases) (auto simp: quad_def Let_def)
  have plain: "q < 64 \<Longrightarrow> \<not> ascii_space (byte (b64char q)) \<and> byte (b64char q) < 128" for q
    by (auto simp: byte_b64char ascii_space_def)
  have "hd (sextets s) < 64" "last (sextets s) < 64" using sextets_bounds [of s] hd_in_set [OF ne] last_in_set [OF ne] by blast+
  then show ?thesis
    using ne plain by (intro TrimSpace_plain) (simp_all add: Encode_sextets hd_map last_map)
qed

text \<open>The instant that a storage text stands for, as the cursor decoder reads it.\<close>

lemma ParseInLocation_Format:
  assumes "fourDigitYear loc t" "minuteOffset loc t"
  shows "ParseInLocation l (hd zonedLayouts) (FormatStorageTime loc t) = Some t"
proof -
  let ?z = "zoneText (offset_at loc (t_unix t))"
  have "parseStd StdFracSecond9 [StdISO8601ColonTZ] (appendNano (t_nsec t) @ ?z) p = Some (p\<lparr>pNsec := t_nsec t\<rparr>, ?z)"
    if "pNsec p = 0" for p
    using that t_nsec_range [of t] zoneText_start by (intro parse_nano)
  moreover have "parseZone True ?z = Some (offset_at loc (t_unix t), [])"
    using assms(2) by (intro parse_zone) (simp_all add: minuteOffset_def)
  ultimately show ?thesis
    unfolding FormatStorageTime_def zonedLayouts_def list.sel using assms(1) by (intro ParseInLocation_written)
qed

lemma decode_encode_cursor:
  assumes "fourDigitYear loc t" "minuteOffset loc t" "0 < i" "in_i64 i"
  shows "decodeUsageEventsCursor (encodeUsageEventsCursor loc t i) = Some (t, i)"
proof -
  have "c \<noteq> CHR ''|''" if "isDigit c" for c using that by (auto simp: isDigit_def byte_def)
  then have "list_all (\<lambda>c. c \<noteq> CHR ''|'') (Itoa i)"
    using assms(3) digits_all [of i] by (auto simp: Itoa_def list_all_iff)
  moreover have "FormatStorageTime loc t \<noteq> []" "Itoa i \<noteq> []"
    using dateTimeText_hd [OF assms(1)] by (auto simp: FormatStorageTime_def Itoa_def)
  ultimately show ?thesis
    using ParseInLocation_Format [OF assms(1,2)] assms(3,4)
    by (simp add: decodeUsageEventsCursor_def encodeUsageEventsCursor_def Encode_plain Decode_Encode splitLastBar_append Atoi_Itoa)
qed

end
