(* ===== verification/Error_Events.thy ===== *)
theory Error_Events
  imports Cursor_Page Ingest_Control Identity_Sync
begin

text \<open>
  \<^verbatim>\<open>internal/service/error_events.go\<close>, \<^verbatim>\<open>internal/repository/error_events.go\<close> and the table of
  \<^verbatim>\<open>internal/entities/error_event.go\<close>: a message of the errors channel is decoded, mapped to a flat row
  and inserted; an administrator reads the rows of one credential in pages. \<open>unmarshal\<close>, the JSON
  decoding of a message, is a parameter. A statement that the database refuses is a \<open>False\<close> argument.
\<close>

section \<open>Messages and rows\<close>

record cpaErrorEventQuotaSnapshot =
  qs_Exceeded :: bool
  qs_Reason :: string
  qs_NextRecoverAt :: "gotime option"
  qs_BackoffLevel :: int

record cpaErrorEventModelSnapshot =
  ms_Name :: string
  ms_Status :: string
  ms_StatusMessage :: string
  ms_Unavailable :: bool
  ms_NextRetryAfter :: "gotime option"
  ms_Quota :: "cpaErrorEventQuotaSnapshot option"

record cpaErrorEventAuthSnapshot =
  as_Status :: string
  as_StatusMessage :: string
  as_Disabled :: bool
  as_Unavailable :: bool
  as_NextRetryAfter :: "gotime option"
  as_Quota :: "cpaErrorEventQuotaSnapshot option"
  as_Model :: "cpaErrorEventModelSnapshot option"

record cpaErrorEventPayload =
  ep_Timestamp :: gotime
  ep_Provider :: string
  ep_Model :: string
  ep_AuthID :: string
  ep_AuthIndex :: string
  ep_StatusCode :: int
  ep_Body :: string
  ep_Code :: string
  ep_Retryable :: bool
  ep_AuthStatus :: cpaErrorEventAuthSnapshot

record ErrorEvent =
  ee_ID :: int
  ee_Timestamp :: gotime
  ee_ReceivedAt :: gotime
  ee_Provider :: string
  ee_Model :: string
  ee_AuthID :: string
  ee_AuthIndex :: string
  ee_StatusCode :: int
  ee_Body :: string
  ee_Code :: string
  ee_Retryable :: bool
  ee_AuthStatus :: string
  ee_AuthStatusMessage :: string
  ee_AuthDisabled :: bool
  ee_AuthUnavailable :: bool
  ee_AuthNextRetryAfter :: "gotime option"
  ee_AuthQuotaExceeded :: "bool option"
  ee_AuthQuotaReason :: "string option"
  ee_AuthQuotaNextRecoverAt :: "gotime option"
  ee_AuthQuotaBackoffLevel :: "int option"
  ee_AuthModelName :: "string option"
  ee_AuthModelStatus :: "string option"
  ee_AuthModelStatusMessage :: "string option"
  ee_AuthModelUnavailable :: "bool option"
  ee_AuthModelNextRetryAfter :: "gotime option"
  ee_AuthModelQuotaExceeded :: "bool option"
  ee_AuthModelQuotaReason :: "string option"
  ee_AuthModelQuotaNextRecoverAt :: "gotime option"
  ee_AuthModelQuotaBackoffLevel :: "int option"

datatype error_event_error =
    ErrorEventJSON
  | ErrorEventTimestampRequired
  | ErrorEventAuthIndexRequired
  | ErrorEventInsertFailed
  | ErrInvalidID
  | ErrRecordNotFound
  | ErrorEventAuthIndexEmpty
  | ErrorEventQueryFailed

section \<open>Decoding\<close>

definition normalizeOptionalStorageTime :: "gotime option \<Rightarrow> gotime option" where
  "normalizeOptionalStorageTime t = (case t of None \<Rightarrow> None | Some v \<Rightarrow> if v = zero_time then None else Some v)"

text \<open>The four columns of a quota snapshot; all are NULL without one.\<close>

definition mapCPAErrorQuotaSnapshot ::
  "cpaErrorEventQuotaSnapshot option \<Rightarrow> bool option \<times> string option \<times> gotime option \<times> int option" where
  "mapCPAErrorQuotaSnapshot snapshot =
     (case snapshot of
        None \<Rightarrow> (None, None, None, None)
      | Some q \<Rightarrow> (Some (qs_Exceeded q), Some (qs_Reason q), normalizeOptionalStorageTime (qs_NextRecoverAt q),
          Some (qs_BackoffLevel q)))"

text \<open>The columns of the top level and of the credential.\<close>

definition eventColumns :: "cpaErrorEventPayload \<Rightarrow> gotime \<Rightarrow> ErrorEvent" where
  "eventColumns p receivedAt =
     (let auth = ep_AuthStatus p;
          (exceeded, reason, recover, level) = mapCPAErrorQuotaSnapshot (as_Quota auth) in
      \<lparr>ee_ID = 0, ee_Timestamp = ep_Timestamp p, ee_ReceivedAt = receivedAt, ee_Provider = ep_Provider p,
       ee_Model = ep_Model p, ee_AuthID = ep_AuthID p, ee_AuthIndex = TrimSpace (ep_AuthIndex p),
       ee_StatusCode = ep_StatusCode p, ee_Body = ep_Body p, ee_Code = ep_Code p, ee_Retryable = ep_Retryable p,
       ee_AuthStatus = as_Status auth, ee_AuthStatusMessage = as_StatusMessage auth,
       ee_AuthDisabled = as_Disabled auth, ee_AuthUnavailable = as_Unavailable auth,
       ee_AuthNextRetryAfter = normalizeOptionalStorageTime (as_NextRetryAfter auth),
       ee_AuthQuotaExceeded = exceeded, ee_AuthQuotaReason = reason, ee_AuthQuotaNextRecoverAt = recover,
       ee_AuthQuotaBackoffLevel = level,
       ee_AuthModelName = None, ee_AuthModelStatus = None, ee_AuthModelStatusMessage = None,
       ee_AuthModelUnavailable = None, ee_AuthModelNextRetryAfter = None, ee_AuthModelQuotaExceeded = None,
       ee_AuthModelQuotaReason = None, ee_AuthModelQuotaNextRecoverAt = None, ee_AuthModelQuotaBackoffLevel = None\<rparr>)"

text \<open>The columns of the model, when the message has one.\<close>

definition modelColumns :: "cpaErrorEventModelSnapshot option \<Rightarrow> ErrorEvent \<Rightarrow> ErrorEvent" where
  "modelColumns model event =
     (case model of
        None \<Rightarrow> event
      | Some m \<Rightarrow>
          (let (exceeded, reason, recover, level) = mapCPAErrorQuotaSnapshot (ms_Quota m) in
           event\<lparr>ee_AuthModelName := Some (ms_Name m), ee_AuthModelStatus := Some (ms_Status m),
             ee_AuthModelStatusMessage := Some (ms_StatusMessage m), ee_AuthModelUnavailable := Some (ms_Unavailable m),
             ee_AuthModelNextRetryAfter := normalizeOptionalStorageTime (ms_NextRetryAfter m),
             ee_AuthModelQuotaExceeded := exceeded, ee_AuthModelQuotaReason := reason,
             ee_AuthModelQuotaNextRecoverAt := recover, ee_AuthModelQuotaBackoffLevel := level\<rparr>))"

definition decodeCPAErrorEvent ::
  "(string \<Rightarrow> cpaErrorEventPayload option) \<Rightarrow> string \<Rightarrow> gotime \<Rightarrow> error_event_error + ErrorEvent" where
  "decodeCPAErrorEvent unmarshal raw receivedAt =
     (case unmarshal raw of
        None \<Rightarrow> Inl ErrorEventJSON
      | Some p \<Rightarrow>
          if ep_Timestamp p = zero_time then Inl ErrorEventTimestampRequired
          else if TrimSpace (ep_AuthIndex p) = [] then Inl ErrorEventAuthIndexRequired
          else Inr (modelColumns (as_Model (ep_AuthStatus p)) (eventColumns p receivedAt)))"

section \<open>The table\<close>

record error_table =
  et_rows :: "ErrorEvent list"
  et_seq :: int

text \<open>The insert of a row: SQLite gives it the next key of the table.\<close>

definition InsertErrorEvent :: "bool \<Rightarrow> ErrorEvent \<Rightarrow> error_table \<Rightarrow> error_event_error option \<times> error_table" where
  "InsertErrorEvent ok event db =
     (if ok then (None, db\<lparr>et_rows := et_rows db @ [event\<lparr>ee_ID := et_seq db + 1\<rparr>], et_seq := et_seq db + 1\<rparr>)
      else (Some ErrorEventInsertFailed, db))"

definition StoreErrorEvent ::
  "(string \<Rightarrow> cpaErrorEventPayload option) \<Rightarrow> bool \<Rightarrow> string \<Rightarrow> gotime \<Rightarrow> error_table \<Rightarrow> error_event_error option \<times> error_table" where
  "StoreErrorEvent unmarshal ok raw receivedAt db =
     (case decodeCPAErrorEvent unmarshal raw receivedAt of
        Inl err \<Rightarrow> (Some err, db)
      | Inr event \<Rightarrow>
          if \<not> Supported (ee_Provider event) then (None, db)
          else InsertErrorEvent ok (event\<lparr>ee_Provider := Normalize (ee_Provider event)\<rparr>) db)"

section \<open>Pages\<close>

record ErrorEventCursor =
  cu_Timestamp :: gotime
  cu_ID :: int

record ErrorEventPage =
  pg_Events :: "ErrorEvent list"
  pg_HasMore :: bool

definition defaultErrorEventPageSize :: int where
  "defaultErrorEventPageSize = 50"

definition maxErrorEventPageSize :: int where
  "maxErrorEventPageSize = 100"

text \<open>The columns that order the rows: the stored text of the time, compared as text, and the key.\<close>

definition rowKey :: "Location \<Rightarrow> ErrorEvent \<Rightarrow> string \<times> int" where
  "rowKey loc e = (FormatStorageTime loc (ee_Timestamp e), ee_ID e)"

definition cursorRows :: "Location \<Rightarrow> ErrorEventCursor option \<Rightarrow> ErrorEvent list \<Rightarrow> ErrorEvent list" where
  "cursorRows loc c rows =
     (case c of
        None \<Rightarrow> rows
      | Some cu \<Rightarrow>
          let cursorTimestamp = FormatStorageTime loc (cu_Timestamp cu) in
          filter (\<lambda>e. let ts = FormatStorageTime loc (ee_Timestamp e) in
             ts < cursorTimestamp \<or> ts = cursorTimestamp \<and> ee_ID e < cu_ID cu) rows)"

definition ListErrorEventsByAuthIndex ::
  "Location \<Rightarrow> bool \<Rightarrow> error_table \<Rightarrow> string \<Rightarrow> ErrorEventCursor option \<Rightarrow> int \<Rightarrow> error_event_error + ErrorEventPage" where
  "ListErrorEventsByAuthIndex loc ok db authIndex0 c pageSize0 =
     (let authIndex = TrimSpace authIndex0 in
      if authIndex = [] then Inl ErrorEventAuthIndexEmpty
      else let pageSize = (if pageSize0 \<le> 0 then defaultErrorEventPageSize else pageSize0) in
           if \<not> ok then Inl ErrorEventQueryFailed
           else let found = cursorRows loc c (filter (\<lambda>e. ee_AuthIndex e = authIndex) (et_rows db));
                    events = take (nat (pageSize + 1)) (descending (rowKey loc) found);
                    hasMore = pageSize < int (length events) in
                Inr \<lparr>pg_Events = (if hasMore then take (nat pageSize) events else events), pg_HasMore = hasMore\<rparr>)"

definition FindUsageIdentityByID :: "bool \<Rightarrow> UsageIdentity list \<Rightarrow> int \<Rightarrow> error_event_error + UsageIdentity" where
  "FindUsageIdentityByID ok idRows i =
     (if \<not> ok then Inl ErrorEventQueryFailed
      else case find (\<lambda>row. id_ID row = i) idRows of None \<Rightarrow> Inl ErrRecordNotFound | Some row \<Rightarrow> Inr row)"

record ErrorEventListRequest =
  rq_IdentityID :: int
  rq_Cursor :: "ErrorEventCursor option"
  rq_PageSize :: int

record ErrorEventListResponse =
  rs_Events :: "ErrorEvent list"
  rs_HasMore :: bool
  rs_APIKey :: string

definition servicePageSize :: "int \<Rightarrow> int" where
  "servicePageSize n = (if n \<le> 0 then 50 else if maxErrorEventPageSize < n then maxErrorEventPageSize else n)"

definition ListErrorEvents ::
  "Location \<Rightarrow> bool \<Rightarrow> bool \<Rightarrow> UsageIdentity list \<Rightarrow> error_table \<Rightarrow> ErrorEventListRequest \<Rightarrow> error_event_error + ErrorEventListResponse" where
  "ListErrorEvents loc findOK listOK idRows db request =
     (if rq_IdentityID request \<le> 0 then Inl ErrInvalidID
      else case FindUsageIdentityByID findOK idRows (rq_IdentityID request) of
        Inl err \<Rightarrow> Inl err
      | Inr identity \<Rightarrow>
          (case ListErrorEventsByAuthIndex loc listOK db (Identity identity) (rq_Cursor request)
                  (servicePageSize (rq_PageSize request)) of
             Inl err \<Rightarrow> Inl err
           | Inr page \<Rightarrow> Inr \<lparr>rs_Events = pg_Events page, rs_HasMore = pg_HasMore page, rs_APIKey = id_LookupKey identity\<rparr>))"

section \<open>Invariant\<close>

text \<open>Keys are positive, distinct and at most the sequence; every row has a time and a credential and a supported provider.\<close>

definition error_table_wf :: "error_table \<Rightarrow> bool" where
  "error_table_wf db \<longleftrightarrow> 0 \<le> et_seq db \<and> distinct (map ee_ID (et_rows db)) \<and>
     (\<forall>e\<in>set (et_rows db). 0 < ee_ID e \<and> ee_ID e \<le> et_seq db \<and> ee_Timestamp e \<noteq> zero_time \<and>
        ee_AuthIndex e \<noteq> [] \<and> TrimSpace (ee_AuthIndex e) = ee_AuthIndex e \<and> ee_Provider e \<in> {''codex'', ''claude''})"

lemma decode_fields:
  assumes "decodeCPAErrorEvent unmarshal raw receivedAt = Inr e"
  obtains p where "unmarshal raw = Some p" "ee_Timestamp e = ep_Timestamp p" "ep_Timestamp p \<noteq> zero_time"
    "ee_AuthIndex e = TrimSpace (ep_AuthIndex p)" "TrimSpace (ep_AuthIndex p) \<noteq> []" "ee_Provider e = ep_Provider p"
  using assms
  by (auto simp: decodeCPAErrorEvent_def eventColumns_def modelColumns_def Let_def split: option.splits if_splits prod.splits)

lemma StoreErrorEvent_wf:
  assumes "error_table_wf db"
  shows "error_table_wf (snd (StoreErrorEvent unmarshal ok raw receivedAt db))"
proof (cases "decodeCPAErrorEvent unmarshal raw receivedAt")
  case (Inr e)
  then have "ee_Timestamp e \<noteq> zero_time \<and> ee_AuthIndex e \<noteq> [] \<and> TrimSpace (ee_AuthIndex e) = ee_AuthIndex e"
    by (auto elim!: decode_fields)
  with Inr assms show ?thesis
    by (auto simp: StoreErrorEvent_def InsertErrorEvent_def error_table_wf_def Supported_def)
qed (use assms in \<open>simp add: StoreErrorEvent_def\<close>)

lemma page_size_pos: "0 < servicePageSize n"
  by (simp add: servicePageSize_def maxErrorEventPageSize_def)

section \<open>What a page holds\<close>

lemma ListErrorEventsByAuthIndex_page:
  fixes loc :: Location and c :: "ErrorEventCursor option" and db :: error_table
  assumes "TrimSpace a \<noteq> []" "0 < n"
  defines "found \<equiv> cursorRows loc c (filter (\<lambda>e. ee_AuthIndex e = TrimSpace a) (et_rows db))"
  shows "ListErrorEventsByAuthIndex loc True db a c n =
    Inr \<lparr>pg_Events = take (nat n) (descending (rowKey loc) found), pg_HasMore = nat n < length found\<rparr>"
proof -
  have "nat (n + 1) = Suc (nat n)" using assms(2) by simp
  then have "n < int (length (take (nat (n + 1)) (descending (rowKey loc) found))) \<longleftrightarrow> nat n < length found"
    by (auto simp: min_def)
  moreover have "take (nat n) (take (nat (n + 1)) xs) = take (nat n) xs" for xs :: "ErrorEvent list"
    using assms(2) by (simp add: min_def)
  moreover have "\<not> nat n < length xs \<Longrightarrow> take (nat (n + 1)) xs = take (nat n) xs" for xs :: "ErrorEvent list"
    using assms(2) by simp
  ultimately show ?thesis
    using assms(1,2) by (simp add: ListErrorEventsByAuthIndex_def Let_def found_def [symmetric])
qed

lemma cursorRows_row:
  "cursorRows loc (Some \<lparr>cu_Timestamp = ee_Timestamp r, cu_ID = ee_ID r\<rparr>) rows = filter (\<lambda>e. rowKey loc e < rowKey loc r) rows"
  by (auto simp: cursorRows_def rowKey_def Let_def less_prod_def' intro!: filter_cong)

lemma rowKey_distinct: "distinct (map ee_ID rows) \<Longrightarrow> distinct (map (rowKey loc) rows)"
  by (auto simp: distinct_map inj_on_def rowKey_def)

end
