(* ===== verification/Error_Page.thy ===== *)
theory Error_Page
  imports Error_Events
begin

text \<open>
  \<^verbatim>\<open>internal/api/error_events.go\<close>: the route that lists the errors of a credential, with the summary of
  an error body that is shown, and the completeness of its pages. A request is its path parameter and
  its query parameters, an absent one being empty; a reply is a value of \<open>api_reply\<close>.
\<close>

section \<open>Code points\<close>

text \<open>Go's UTF-8: a byte that starts no valid encoding is read as U+FFFD of width 1.\<close>

definition RuneError :: nat where
  "RuneError = 65533"

definition inBytes :: "nat \<Rightarrow> nat \<Rightarrow> string \<Rightarrow> nat \<Rightarrow> bool" where
  "inBytes lo hi s i \<longleftrightarrow> i < length s \<and> lo \<le> byte (s ! i) \<and> byte (s ! i) \<le> hi"

definition tailBits :: "string \<Rightarrow> nat \<Rightarrow> nat" where
  "tailBits s i = byte (s ! i) mod 64"

text \<open>The code point at the start of a text that is not empty, and its width.\<close>

definition DecodeRune :: "string \<Rightarrow> nat \<times> nat" where
  "DecodeRune s =
     (let a = byte (hd s) in
      if a < 128 then (a, 1)
      else if 194 \<le> a \<and> a \<le> 223 then
        (if inBytes 128 191 s 1 then (a mod 32 * 64 + tailBits s 1, 2) else (RuneError, 1))
      else if 224 \<le> a \<and> a \<le> 239 then
        (if inBytes (if a = 224 then 160 else 128) (if a = 237 then 159 else 191) s 1 \<and> inBytes 128 191 s 2
         then (a mod 16 * 4096 + tailBits s 1 * 64 + tailBits s 2, 3) else (RuneError, 1))
      else if 240 \<le> a \<and> a \<le> 244 then
        (if inBytes (if a = 240 then 144 else 128) (if a = 244 then 143 else 191) s 1 \<and>
            inBytes 128 191 s 2 \<and> inBytes 128 191 s 3
         then (a mod 8 * 262144 + tailBits s 1 * 4096 + tailBits s 2 * 64 + tailBits s 3, 4) else (RuneError, 1))
      else (RuneError, 1))"

lemma DecodeRune_width: "0 < snd (DecodeRune s)"
  by (simp add: DecodeRune_def Let_def)

function runes :: "string \<Rightarrow> nat list" where
  "runes s = (if s = [] then [] else fst (DecodeRune s) # runes (drop (snd (DecodeRune s)) s))"
  by pat_completeness auto
termination
  by (relation "measure length") (auto simp: DecodeRune_width)

declare runes.simps [simp del]

definition encodeRune :: "nat \<Rightarrow> string" where
  "encodeRune r =
     (if r < 128 then [char_of r]
      else if r < 2048 then [char_of (192 + r div 64), char_of (128 + r mod 64)]
      else if 1114111 < r \<or> 55296 \<le> r \<and> r \<le> 57343 then map char_of [239, 191, 189 :: nat]
      else if r < 65536 then [char_of (224 + r div 4096), char_of (128 + r div 64 mod 64), char_of (128 + r mod 64)]
      else [char_of (240 + r div 262144), char_of (128 + r div 4096 mod 64), char_of (128 + r div 64 mod 64),
            char_of (128 + r mod 64)])"

definition IsControl :: "nat \<Rightarrow> bool" where
  "IsControl r \<longleftrightarrow> r \<le> 31 \<or> 127 \<le> r \<and> r \<le> 159"

text \<open>\<open>strings.ReplaceAll\<close> of a text that is not empty: its leftmost occurrences, none overlapping.\<close>

function ReplaceAll :: "string \<Rightarrow> string \<Rightarrow> string \<Rightarrow> string" where
  "ReplaceAll old new s =
     (if s = [] \<or> old = [] then s
      else if take (length old) s = old then new @ ReplaceAll old new (drop (length old) s)
      else hd s # ReplaceAll old new (tl s))"
  by pat_completeness auto
termination
  by (relation "measure (\<lambda>(_, _, s). length s)") auto

declare ReplaceAll.simps [simp del]

section \<open>What is shown of an error\<close>

definition errorEventBodySummaryMaxRunes :: nat where
  "errorEventBodySummaryMaxRunes = 2048"

definition summarizeCPAErrorBody :: "string \<Rightarrow> string \<Rightarrow> nat \<Rightarrow> string \<times> bool" where
  "summarizeCPAErrorBody body apiKey0 maxRunes =
     (let cleaned = concat (map (\<lambda>r. encodeRune (if IsControl r then 32 else r)) (runes body));
          apiKey = TrimSpace apiKey0;
          redacted = (if apiKey \<noteq> [] then ReplaceAll apiKey ''[REDACTED]'' cleaned else cleaned);
          rs = runes (TrimSpace redacted) in
      if maxRunes = 0 \<or> length rs \<le> maxRunes then (concat (map encodeRune rs), False)
      else (concat (map encodeRune (take maxRunes rs)), True))"

record errorEventPayload =
  py_ID :: string
  py_Timestamp :: string
  py_Provider :: string
  py_Model :: string
  py_StatusCode :: int
  py_BodySummary :: string
  py_BodyTruncated :: bool
  py_Code :: string
  py_Retryable :: bool
  py_CredentialRetryAfter :: "string option"
  py_ModelRetryAfter :: "string option"

definition formatCPAErrorOptionalTime :: "Location \<Rightarrow> gotime option \<Rightarrow> string option" where
  "formatCPAErrorOptionalTime loc t =
     (case t of None \<Rightarrow> None | Some v \<Rightarrow> if v = zero_time then None else Some (FormatStorageTime loc v))"

definition mapErrorEventPayload :: "Location \<Rightarrow> string \<Rightarrow> ErrorEvent \<Rightarrow> errorEventPayload" where
  "mapErrorEventPayload loc apiKey e =
     (let (bodySummary, bodyTruncated) = summarizeCPAErrorBody (ee_Body e) apiKey errorEventBodySummaryMaxRunes in
      \<lparr>py_ID = Itoa (ee_ID e), py_Timestamp = FormatStorageTime loc (ee_Timestamp e), py_Provider = ee_Provider e,
       py_Model = ee_Model e, py_StatusCode = ee_StatusCode e, py_BodySummary = bodySummary,
       py_BodyTruncated = bodyTruncated, py_Code = ee_Code e, py_Retryable = ee_Retryable e,
       py_CredentialRetryAfter = formatCPAErrorOptionalTime loc (ee_AuthNextRetryAfter e),
       py_ModelRetryAfter = formatCPAErrorOptionalTime loc (ee_AuthModelNextRetryAfter e)\<rparr>)"

section \<open>The route\<close>

record errorEventsResponse =
  er_Events :: "errorEventPayload list"
  er_NextCursor :: string
  er_HasMore :: bool

datatype api_reply =
    BadRequest string
  | NotFound string
  | InternalError error_event_error
  | StatusOK errorEventsResponse

definition positiveQueryInt :: "string \<Rightarrow> int \<Rightarrow> int" where
  "positiveQueryInt text fallback =
     (case Atoi text of None \<Rightarrow> fallback | Some n \<Rightarrow> if n \<le> 0 then fallback else n)"

text \<open>The cursor of the request: none when the parameter is blank, \<open>None\<close> when it does not decode.\<close>

definition requestCursor :: "string \<Rightarrow> ErrorEventCursor option option" where
  "requestCursor text =
     (let rawCursor = TrimSpace text in
      if rawCursor = [] then Some None
      else case decodeUsageEventsCursor rawCursor of
        None \<Rightarrow> None
      | Some (timestamp, rowID) \<Rightarrow> Some (Some \<lparr>cu_Timestamp = timestamp, cu_ID = rowID\<rparr>))"

definition errorEventsRoute ::
  "Location \<Rightarrow> (ErrorEventListRequest \<Rightarrow> error_event_error + ErrorEventListResponse) option \<Rightarrow>
   string \<Rightarrow> string \<Rightarrow> string \<Rightarrow> api_reply" where
  "errorEventsRoute loc provider pathID pageSizeText cursorText =
     (case Atoi (TrimSpace pathID) of
        None \<Rightarrow> BadRequest ''invalid usage identity id''
      | Some identityID \<Rightarrow>
          if identityID \<le> 0 then BadRequest ''invalid usage identity id''
          else case provider of
            None \<Rightarrow> StatusOK \<lparr>er_Events = [], er_NextCursor = [], er_HasMore = False\<rparr>
          | Some listErrorEvents \<Rightarrow>
              (case requestCursor cursorText of
                 None \<Rightarrow> BadRequest ''invalid cursor''
               | Some c \<Rightarrow>
                   (case listErrorEvents \<lparr>rq_IdentityID = identityID, rq_Cursor = c,
                           rq_PageSize = positiveQueryInt pageSizeText 50\<rparr> of
                      Inl ErrInvalidID \<Rightarrow> BadRequest ''invalid usage identity id''
                    | Inl ErrRecordNotFound \<Rightarrow> NotFound ''usage identity not found''
                    | Inl err \<Rightarrow> InternalError err
                    | Inr result \<Rightarrow>
                        StatusOK \<lparr>er_Events = map (mapErrorEventPayload loc (rs_APIKey result)) (rs_Events result),
                          er_NextCursor =
                            (if rs_HasMore result \<and> rs_Events result \<noteq> []
                             then let lst = last (rs_Events result) in encodeUsageEventsCursor loc (ee_Timestamp lst) (ee_ID lst)
                             else []),
                          er_HasMore = rs_HasMore result\<rparr>)))"

text \<open>What a client makes of the reply to a cursor: the events and the cursor to go on with.\<close>

definition clientPage :: "(string \<Rightarrow> api_reply) \<Rightarrow> string option \<Rightarrow> errorEventPayload list \<times> string option" where
  "clientPage get c =
     (case get (case c of None \<Rightarrow> [] | Some text \<Rightarrow> text) of
        StatusOK r \<Rightarrow> (er_Events r, if er_NextCursor r = [] then None else Some (er_NextCursor r))
      | _ \<Rightarrow> ([], None))"

section \<open>Following the pages\<close>

lemma followPages_map:
  assumes "\<And>c. page' c = (map g (fst (page c)), snd (page c))"
  shows "followPages k page' c = map g (followPages k page c)"
  by (induction k arbitrary: c) (auto simp: assms split: prod.splits option.splits)

text \<open>The rows of a credential and one page of them, with the encoded cursor of its last row.\<close>

definition credentialRows :: "error_table \<Rightarrow> UsageIdentity \<Rightarrow> ErrorEvent list" where
  "credentialRows db identity = filter (\<lambda>e. ee_AuthIndex e = TrimSpace (Identity identity)) (et_rows db)"

definition rowCursor :: "Location \<Rightarrow> ErrorEvent \<Rightarrow> string" where
  "rowCursor loc e = encodeUsageEventsCursor loc (ee_Timestamp e) (ee_ID e)"

definition errorRowsPage ::
  "Location \<Rightarrow> error_table \<Rightarrow> UsageIdentity \<Rightarrow> int \<Rightarrow> string option \<Rightarrow> ErrorEvent list \<times> string option" where
  "errorRowsPage loc db identity n c =
     (case requestCursor (case c of None \<Rightarrow> [] | Some text \<Rightarrow> text) of
        None \<Rightarrow> ([], None)
      | Some cu \<Rightarrow> onePage (nat n) (rowKey loc) (rowCursor loc) (cursorRows loc cu (credentialRows db identity)))"

text \<open>Rows whose cursors can be written: times with four digits in the year and an offset in whole minutes.\<close>

definition writable :: "Location \<Rightarrow> error_table \<Rightarrow> bool" where
  "writable loc db \<longleftrightarrow> error_table_wf db \<and> et_seq db \<le> MaxInt64 \<and>
     (\<forall>e\<in>set (et_rows db). fourDigitYear loc (ee_Timestamp e) \<and> minuteOffset loc (ee_Timestamp e))"

lemma requestCursor_row:
  assumes "writable loc db" "e \<in> set (et_rows db)"
  shows "requestCursor (rowCursor loc e) = Some (Some \<lparr>cu_Timestamp = ee_Timestamp e, cu_ID = ee_ID e\<rparr>)" "rowCursor loc e \<noteq> []"
proof -
  have e: "0 < ee_ID e" "ee_ID e \<le> MaxInt64" "fourDigitYear loc (ee_Timestamp e)" "minuteOffset loc (ee_Timestamp e)"
    using assms by (force simp: writable_def error_table_wf_def)+
  let ?s = "FormatStorageTime loc (ee_Timestamp e) @ ''|'' @ Itoa (ee_ID e)"
  have d: "decodeUsageEventsCursor (rowCursor loc e) = Some (ee_Timestamp e, ee_ID e)"
    unfolding rowCursor_def using e by (intro decode_encode_cursor) (auto simp: in_i64_def MinInt64_def)
  have "TrimSpace (rowCursor loc e) = rowCursor loc e"
    unfolding rowCursor_def encodeUsageEventsCursor_def by (intro Encode_plain) simp
  moreover show ne: "rowCursor loc e \<noteq> []"
    using Decode_Encode [of ?s] by (auto simp: rowCursor_def encodeUsageEventsCursor_def DecodeString_def)
  ultimately show "requestCursor (rowCursor loc e) = Some (Some \<lparr>cu_Timestamp = ee_Timestamp e, cu_ID = ee_ID e\<rparr>)"
    using d by (simp add: requestCursor_def)
qed

text \<open>A listing: the zone, the table, the credential and the size of a page.\<close>

type_synonym listing = "Location \<times> error_table \<times> UsageIdentity \<times> int"

interpretation error_pages: cursor_pager
  "\<lambda>(loc, db, identity, n). writable loc db \<and> 0 < n" "\<lambda>(loc, db, identity, n). credentialRows db identity"
  "\<lambda>(loc, db, identity, n). rowKey loc" "\<lambda>(loc, db, identity, n). rowCursor loc" "\<lambda>(loc, db, identity, n). nat n"
  "\<lambda>(loc, db, identity, n). errorRowsPage loc db identity n"
proof
  fix s :: listing
  obtain loc db identity n where s: "s = (loc, db, identity, n)" by (cases s)
  assume "case s of (loc, db, identity, n) \<Rightarrow> writable loc db \<and> 0 < n"
  then have w: "writable loc db" "0 < n" by (simp_all add: s)
  show "0 < (case s of (loc, db, identity, n) \<Rightarrow> nat n)" using w by (simp add: s)
  have "distinct (map ee_ID (credentialRows db identity))"
    using w by (simp add: writable_def error_table_wf_def credentialRows_def distinct_map_filter)
  then show "distinct (map (case s of (loc, db, identity, n) \<Rightarrow> rowKey loc) (case s of (loc, db, identity, n) \<Rightarrow> credentialRows db identity))"
    by (simp add: s rowKey_distinct)
  show "(case s of (loc, db, identity, n) \<Rightarrow> errorRowsPage loc db identity n) None =
      onePage (case s of (loc, db, identity, n) \<Rightarrow> nat n) (case s of (loc, db, identity, n) \<Rightarrow> rowKey loc)
        (case s of (loc, db, identity, n) \<Rightarrow> rowCursor loc) (case s of (loc, db, identity, n) \<Rightarrow> credentialRows db identity)"
    by (simp add: s errorRowsPage_def requestCursor_def cursorRows_def)
  fix r
  assume "r \<in> set (case s of (loc, db, identity, n) \<Rightarrow> credentialRows db identity)"
  then have "r \<in> set (et_rows db)" by (simp add: s credentialRows_def)
  from requestCursor_row(1) [OF w(1) this]
  show "(case s of (loc, db, identity, n) \<Rightarrow> errorRowsPage loc db identity n) (Some ((case s of (loc, db, identity, n) \<Rightarrow> rowCursor loc) r)) =
      onePage (case s of (loc, db, identity, n) \<Rightarrow> nat n) (case s of (loc, db, identity, n) \<Rightarrow> rowKey loc)
        (case s of (loc, db, identity, n) \<Rightarrow> rowCursor loc)
        (filter (\<lambda>x. (case s of (loc, db, identity, n) \<Rightarrow> rowKey loc) x < (case s of (loc, db, identity, n) \<Rightarrow> rowKey loc) r)
          (case s of (loc, db, identity, n) \<Rightarrow> credentialRows db identity))"
    by (simp add: s errorRowsPage_def cursorRows_row)
qed

lemma cursorRows_subset: "set (cursorRows loc cu rows) \<subseteq> set rows"
  by (auto simp: cursorRows_def Let_def split: option.splits)

lemma route_page:
  fixes sizeText :: string
  assumes w: "writable loc db" and path: "Atoi (TrimSpace pathID) = Some i" "0 < i"
    and found: "FindUsageIdentityByID True idRows i = Inr identity" and named: "TrimSpace (Identity identity) \<noteq> []"
  defines "n \<equiv> servicePageSize (positiveQueryInt sizeText 50)"
    and "get \<equiv> errorEventsRoute loc (Some (ListErrorEvents loc True True idRows db)) pathID sizeText"
  shows "clientPage get c = (map (mapErrorEventPayload loc (id_LookupKey identity)) (fst (errorRowsPage loc db identity n c)),
    snd (errorRowsPage loc db identity n c))"
proof -
  let ?text = "case c of None \<Rightarrow> [] | Some text \<Rightarrow> text"
  have n: "0 < n" unfolding n_def by (rule page_size_pos)
  show ?thesis
  proof (cases "requestCursor ?text")
    case None
    then show ?thesis using path by (simp add: clientPage_def get_def errorEventsRoute_def errorRowsPage_def)
  next
    case (Some cu)
    let ?left = "cursorRows loc cu (credentialRows db identity)" and ?p = "errorRowsPage loc db identity n c"
    let ?rows = "take (nat n) (descending (rowKey loc) ?left)"
    have list: "ListErrorEvents loc True True idRows db \<lparr>rq_IdentityID = i, rq_Cursor = cu, rq_PageSize = positiveQueryInt sizeText 50\<rparr> =
        Inr \<lparr>rs_Events = ?rows, rs_HasMore = nat n < length ?left, rs_APIKey = id_LookupKey identity\<rparr>"
      using path(2) found ListErrorEventsByAuthIndex_page [OF named n, of loc db cu]
      by (simp add: ListErrorEvents_def n_def [symmetric] credentialRows_def)
    have p: "?p = onePage (nat n) (rowKey loc) (rowCursor loc) ?left" using Some by (simp add: errorRowsPage_def)
    have "last ?rows \<in> set ?left \<and> ?rows \<noteq> []" if "nat n < length ?left"
    proof -
      have "0 < nat n" "?left \<noteq> []" using that n by auto
      then show ?thesis using last_page_row [of "nat n" ?left "rowKey loc"] by blast
    qed
    then have more: "nat n < length ?left \<Longrightarrow> ?rows \<noteq> [] \<and> rowCursor loc (last ?rows) \<noteq> []"
      using requestCursor_row(2) [OF w] cursorRows_subset [of loc cu] by (fastforce simp: credentialRows_def)
    have "get ?text = StatusOK \<lparr>er_Events = map (mapErrorEventPayload loc (id_LookupKey identity)) ?rows,
        er_NextCursor = (if nat n < length ?left then rowCursor loc (last ?rows) else []), er_HasMore = nat n < length ?left\<rparr>"
      unfolding get_def errorEventsRoute_def using path Some list more
      by (simp add: rowCursor_def Let_def)
    then show ?thesis using more by (simp add: clientPage_def p onePage_def Let_def)
  qed
qed

text \<open>
  C16. A client that follows the cursors of the errors route sees every stored error of the credential
  exactly once and nothing else, in descending order of time text and key, whatever page size it asks
  for: equal timestamps, sizes out of range and the base 64 text of the cursors lose and repeat no row,
  and as many requests as there are rows plus one are enough.
\<close>

theorem error_pages_complete:
  assumes "writable loc db" "Atoi (TrimSpace pathID) = Some i" "0 < i"
    and "FindUsageIdentityByID True idRows i = Inr identity" "TrimSpace (Identity identity) \<noteq> []"
  shows "followPages (Suc (length (et_rows db)))
      (clientPage (errorEventsRoute loc (Some (ListErrorEvents loc True True idRows db)) pathID sizeText)) None =
    map (mapErrorEventPayload loc (id_LookupKey identity))
      (descending (rowKey loc) (filter (\<lambda>e. ee_AuthIndex e = TrimSpace (Identity identity)) (et_rows db)))"
proof -
  let ?n = "servicePageSize (positiveQueryInt sizeText 50)"
  have "followPages (Suc (length (et_rows db))) (errorRowsPage loc db identity ?n) None = descending (rowKey loc) (credentialRows db identity)"
    using error_pages.follow_all [of "(loc, db, identity, ?n)" "length (et_rows db)"] assms(1) page_size_pos
    by (simp add: credentialRows_def)
  then show ?thesis
    using followPages_map [OF route_page [OF assms]] by (simp add: credentialRows_def)
qed

text \<open>Three errors of one credential, two of them at the same time, and one of another.\<close>

definition sampleErrorPayload :: "gotime \<Rightarrow> string \<Rightarrow> cpaErrorEventPayload" where
  "sampleErrorPayload t index =
     \<lparr>ep_Timestamp = t, ep_Provider = ''Codex'', ep_Model = ''m'', ep_AuthID = ''a'', ep_AuthIndex = index, ep_StatusCode = 429,
      ep_Body = ''no'', ep_Code = ''c'', ep_Retryable = True,
      ep_AuthStatus = \<lparr>as_Status = ''error'', as_StatusMessage = [], as_Disabled = False, as_Unavailable = True,
        as_NextRetryAfter = None, as_Quota = None, as_Model = None\<rparr>\<rparr>"

definition sampleErrors :: error_table where
  "sampleErrors =
     fold (\<lambda>(t, index) db. snd (StoreErrorEvent (\<lambda>_. Some (sampleErrorPayload (time_Unix t) index)) True [] (time_Unix t) db))
       [(1700000000, ''k1''), (1700000007, ''k1''), (1700000007, ''k2''), (1700000007, ''k1'')] \<lparr>et_rows = [], et_seq = 0\<rparr>"

theorem error_pages_complete_witness:
  "length (followPages 5 (clientPage (errorEventsRoute (28800, [])
      (Some (ListErrorEvents (28800, []) True True [sampleIdentity 7 UsageIdentityAuthTypeAIProvider ''k1'' ''name''] sampleErrors))
      ''7'' ''1'')) None) = 3"
proof -
  let ?loc = "(28800, []) :: Location" and ?i = "sampleIdentity 7 UsageIdentityAuthTypeAIProvider ''k1'' ''name''"
  have w: "writable ?loc sampleErrors" by code_simp
  have path: "Atoi (TrimSpace ''7'') = Some 7" "(0 :: int) < 7" by code_simp+
  have found: "FindUsageIdentityByID True [?i] 7 = Inr ?i" by code_simp
  have named: "TrimSpace (Identity ?i) \<noteq> []" by code_simp
  have len: "Suc (length (et_rows sampleErrors)) = 5" by code_simp
  have "length (filter (\<lambda>e. ee_AuthIndex e = TrimSpace (Identity ?i)) (et_rows sampleErrors)) = 3" by code_simp
  then show ?thesis
    using arg_cong [OF error_pages_complete [OF w path found named, of "''1''"], of length] unfolding len by simp
qed

end
