(* ===== verification/Error_Redaction.thy ===== *)
theory Error_Redaction
  imports Error_Page "HOL-Library.Sublist"
begin

text \<open>
  The summary of an error body never shows the API key of the credential: the proof follows the text
  through the replacement, the trimming and the two passes over its code points, which keep the order
  of the bytes below 128 and put nothing between two of them that were adjacent.
\<close>

section \<open>Occurrences\<close>

lemma sublist_append_sep: "sublist k (a @ c # b) \<Longrightarrow> c \<notin> set k \<Longrightarrow> sublist k a \<or> sublist k b"
proof -
  assume "sublist k (a @ c # b)" and c: "c \<notin> set k"
  then obtain p q where "a @ c # b = p @ k @ q" by (auto simp: sublist_def)
  then consider u where "a = p @ u" "u @ c # b = k @ q" | u where "a @ u = p" "c # b = u @ k @ q"
    by (auto simp: append_eq_append_conv2)
  then show ?thesis
  proof cases
    case 1
    then consider v where "u = k @ v" | v where "u @ v = k" "c # b = v @ q" by (auto simp: append_eq_append_conv2)
    then show ?thesis
    proof cases
      case 2
      then have "v = []" using c by (cases v) auto
      with 2 1 have "a = p @ k @ []" by simp
      then show ?thesis unfolding sublist_def by blast
    qed (use 1 in \<open>auto simp: sublist_def\<close>)
  next
    case 2
    then show ?thesis
    proof (cases u)
      case Nil
      then have "k = []" using 2 c by (cases k) auto
      then show ?thesis by simp
    qed (auto simp: sublist_def)
  qed
qed

lemma sublist_append_foreign: "sublist k (e @ b) \<Longrightarrow> set e \<inter> set k = {} \<Longrightarrow> k \<noteq> [] \<Longrightarrow> sublist k b"
proof (induction e)
  case (Cons c e)
  then have "sublist k [] \<or> sublist k (e @ b)" using sublist_append_sep [of k "[]" c "e @ b"] by auto
  with Cons show ?case by auto
qed simp

section \<open>Replacement\<close>

text \<open>A key whose characters are all below 128, that has no bracket and is not a part of the replacement.\<close>

definition plainKey :: "string \<Rightarrow> bool" where
  "plainKey k \<longleftrightarrow> k \<noteq> [] \<and> list_all (\<lambda>c. byte c < 128 \<and> c \<noteq> CHR ''['' \<and> c \<noteq> CHR '']'') k \<and> \<not> sublist k ''REDACTED''"

lemma plainKey_brackets: "plainKey k \<Longrightarrow> CHR ''['' \<notin> set k \<and> CHR '']'' \<notin> set k"
  by (auto simp: plainKey_def list_all_iff)

lemma ReplaceAll_cases:
  "ReplaceAll k new [] = []"
  "s \<noteq> [] \<Longrightarrow> k \<noteq> [] \<Longrightarrow> take (length k) s = k \<Longrightarrow> ReplaceAll k new s = new @ ReplaceAll k new (drop (length k) s)"
  "s \<noteq> [] \<Longrightarrow> k \<noteq> [] \<Longrightarrow> take (length k) s \<noteq> k \<Longrightarrow> ReplaceAll k new s = hd s # ReplaceAll k new (tl s)"
  by (subst ReplaceAll.simps; simp)+

lemma ReplaceAll_prefix:
  "k \<noteq> [] \<Longrightarrow> CHR ''['' \<notin> set p \<Longrightarrow> prefix p (ReplaceAll k ''[REDACTED]'' s) \<Longrightarrow> prefix p s"
proof (induction s arbitrary: p rule: measure_induct_rule [of length])
  case (less s)
  consider "s = []" | "s \<noteq> []" "take (length k) s = k" | "s \<noteq> []" "take (length k) s \<noteq> k" by blast
  then show ?case
  proof cases
    case 1
    then show ?thesis using less.prems(3) by (simp add: ReplaceAll_cases(1))
  next
    case 2
    have "prefix p (''[REDACTED]'' @ ReplaceAll k ''[REDACTED]'' (drop (length k) s))"
      using less.prems(3) unfolding ReplaceAll_cases(2) [OF 2(1) less.prems(1) 2(2)] .
    then have "p = []" using less.prems(2) by (cases p) simp_all
    then show ?thesis by simp
  next
    case 3
    note r = ReplaceAll_cases(3) [OF 3(1) less.prems(1) 3(2), of "''[REDACTED]''"]
    show ?thesis
    proof (cases p)
      case (Cons c p')
      have "prefix (c # p') (hd s # ReplaceAll k ''[REDACTED]'' (tl s))" using less.prems(3) unfolding r Cons .
      then have c: "c = hd s" and p': "prefix p' (ReplaceAll k ''[REDACTED]'' (tl s))" by simp_all
      have "CHR ''['' \<notin> set p'" using less.prems(2) Cons by simp
      moreover have "length (tl s) < length s" using 3(1) by (simp add: length_tl)
      ultimately have "prefix p' (tl s)" using less.IH [of "tl s" p'] less.prems(1) p' by blast
      then show ?thesis using Cons 3(1) c by (cases s) simp_all
    qed simp
  qed
qed

lemma ReplaceAll_removes: "plainKey k \<Longrightarrow> \<not> sublist k (ReplaceAll k ''[REDACTED]'' s)"
proof (induction s rule: measure_induct_rule [of length])
  case (less s)
  note k = plainKey_brackets [OF less.prems]
  have ne: "k \<noteq> []" and other: "\<not> sublist k ''REDACTED''" using less.prems by (auto simp: plainKey_def)
  consider "s = []" | "s \<noteq> []" "take (length k) s = k" | "s \<noteq> []" "take (length k) s \<noteq> k" by blast
  then show ?case
  proof cases
    case 1
    then show ?thesis using ne by (simp add: ReplaceAll_cases(1))
  next
    case 2
    let ?rest = "ReplaceAll k ''[REDACTED]'' (drop (length k) s)"
    have "length (drop (length k) s) < length s" using 2(1) ne by simp
    then have "\<not> sublist k ?rest" using less.prems by (rule less.IH)
    then have "\<not> sublist k (''REDACTED'' @ CHR '']'' # ?rest)"
      using sublist_append_sep [of k "''REDACTED''" "CHR '']''" ?rest] k other by blast
    moreover have "\<not> sublist k []" using ne by simp
    ultimately have "\<not> sublist k ([] @ CHR ''['' # ''REDACTED'' @ CHR '']'' # ?rest)"
      using sublist_append_sep [of k "[]" "CHR ''[''" "''REDACTED'' @ CHR '']'' # ?rest"] k by blast
    then show ?thesis unfolding ReplaceAll_cases(2) [OF 2(1) ne 2(2)] by simp
  next
    case 3
    let ?rest = "ReplaceAll k ''[REDACTED]'' (tl s)"
    have r: "ReplaceAll k ''[REDACTED]'' s = hd s # ?rest" using 3 ne by (intro ReplaceAll_cases(3))
    have "length (tl s) < length s" using 3(1) by (simp add: length_tl)
    then have "\<not> sublist k ?rest" using less.prems by (rule less.IH)
    moreover have "\<not> prefix k (hd s # ?rest)"
      using ReplaceAll_prefix [of k k s] k ne 3(2) r by (metis append_eq_conv_conj prefix_def)
    ultimately show ?thesis by (simp add: r sublist_Cons_right)
  qed
qed

section \<open>Trimming and code points\<close>

lemma trim_left_suffix: "\<exists>u. s = u @ trim_left s"
proof (induction s rule: trim_left.induct)
  case (1 s)
  show ?case
  proof (cases "space_prefix s = 0 \<or> s = []")
    case False
    then obtain u where "drop (space_prefix s) s = u @ trim_left (drop (space_prefix s) s)" using 1 by blast
    then have "s = (take (space_prefix s) s @ u) @ trim_left (drop (space_prefix s) s)"
      by (metis append.assoc append_take_drop_id)
    with False show ?thesis unfolding trim_left.simps [of s] by (simp only: if_False) blast
  qed (auto simp: trim_left.simps [of s])
qed

lemma TrimSpace_sublist: "sublist (TrimSpace s) s"
proof -
  obtain u where u: "s = u @ trim_left s" using trim_left_suffix by blast
  obtain v where "rev (trim_left s) = v @ trim_right_rev (rev (trim_left s))" using trim_right_rev_suffix by blast
  then have "trim_left s = TrimSpace s @ rev v" unfolding TrimSpace_def by (metis rev_append rev_rev_ident)
  with u show ?thesis by (metis sublist_appendI)
qed

lemma byte_char_of: "n < 256 \<Longrightarrow> byte (char_of n) = n"
  by (simp add: byte_def of_char_of)

lemma encodeRune_high: "128 \<le> r \<Longrightarrow> \<forall>c\<in>set (encodeRune r). 128 \<le> byte c"
proof -
  assume r: "128 \<le> r"
  have t: "128 \<le> byte (char_of (128 + x mod 64))" for x :: nat by (subst byte_char_of) simp_all
  have "128 \<le> byte (char_of (192 + r div 64))" if "r < 2048" using that by (subst byte_char_of) (auto simp: div_less_iff_less_mult)
  moreover have "128 \<le> byte (char_of (224 + r div 4096))" if "r < 65536" using that by (subst byte_char_of) (auto simp: div_less_iff_less_mult)
  moreover have "128 \<le> byte (char_of (240 + r div 262144))" if "r \<le> 1114111"
    using that by (subst byte_char_of) (auto simp: div_less_iff_less_mult)
  moreover have "128 \<le> byte (char_of (239 :: nat))" "128 \<le> byte (char_of (191 :: nat))" "128 \<le> byte (char_of (189 :: nat))"
    by (subst byte_char_of; simp)+
  ultimately show ?thesis using r t by (auto simp: encodeRune_def)
qed

lemma DecodeRune_low: "s \<noteq> [] \<Longrightarrow> byte (hd s) < 128 \<Longrightarrow> DecodeRune s = (byte (hd s), 1)"
  by (simp add: DecodeRune_def)

text \<open>The lead byte of an encoding that is not overlong keeps its code point above 127.\<close>

lemma tailBits_ge: "inBytes lo hi s i \<Longrightarrow> 128 \<le> lo \<Longrightarrow> hi \<le> 191 \<Longrightarrow> lo - 128 \<le> tailBits s i"
proof -
  assume "inBytes lo hi s i" "128 \<le> lo" "hi \<le> 191"
  moreover from this have "byte (s ! i) mod 64 = byte (s ! i) - 128"
    by (intro mod_nat_eqI) (auto simp: inBytes_def)
  ultimately show ?thesis by (auto simp: inBytes_def tailBits_def)
qed

lemma DecodeRune_high: "128 \<le> byte (hd s) \<Longrightarrow> 128 \<le> fst (DecodeRune s)"
proof -
  let ?a = "byte (hd s)"
  assume a: "128 \<le> ?a"
  have two: "128 \<le> ?a mod 32 * 64 + x" if "194 \<le> ?a" "?a \<le> 223" for x
  proof -
    have "?a mod 32 = ?a - 192" using that by (simp add: mod_nat_eqI)
    then show ?thesis using that by simp
  qed
  have three: "128 \<le> ?a mod 16 * 4096 + tailBits s 1 * 64 + x"
    if "224 \<le> ?a" "?a \<le> 239" "inBytes (if ?a = 224 then 160 else 128) hi s 1" "hi \<le> 191" for x hi
  proof -
    have "?a mod 16 = ?a - 224" using that by (simp add: mod_nat_eqI)
    moreover have "tailBits s 1 \<ge> 32" if "?a = 224"
      using that tailBits_ge [OF \<open>inBytes _ _ s 1\<close> _ \<open>hi \<le> 191\<close>] by simp
    ultimately show ?thesis using that by (cases "?a = 224") auto
  qed
  have four: "128 \<le> ?a mod 8 * 262144 + tailBits s 1 * 4096 + x"
    if "240 \<le> ?a" "?a \<le> 244" "inBytes (if ?a = 240 then 144 else 128) hi s 1" "hi \<le> 191" for x hi
  proof -
    have "?a mod 8 = ?a - 240" using that by (simp add: mod_nat_eqI)
    moreover have "tailBits s 1 \<ge> 16" if "?a = 240"
      using that tailBits_ge [OF \<open>inBytes _ _ s 1\<close> _ \<open>hi \<le> 191\<close>] by simp
    ultimately show ?thesis using that by (cases "?a = 240") auto
  qed
  show ?thesis
    using a two three four by (auto simp: DecodeRune_def Let_def RuneError_def add.assoc)
qed

definition respell :: "string \<Rightarrow> string" where
  "respell s = concat (map encodeRune (runes s))"

lemma respell_low: "s \<noteq> [] \<Longrightarrow> byte (hd s) < 128 \<Longrightarrow> respell s = hd s # respell (tl s)"
  by (simp add: respell_def runes.simps [of s] DecodeRune_low encodeRune_def drop_Suc)

lemma respell_high:
  assumes "s \<noteq> []" "\<not> byte (hd s) < 128"
  obtains e w where "respell s = e @ respell (drop w s)" "0 < w" "\<forall>c\<in>set e. 128 \<le> byte c" "e \<noteq> []"
proof -
  have "respell s = encodeRune (fst (DecodeRune s)) @ respell (drop (snd (DecodeRune s)) s)"
    using assms(1) by (simp add: respell_def runes.simps [of s])
  moreover have "\<forall>c\<in>set (encodeRune (fst (DecodeRune s))). 128 \<le> byte c"
    using assms(2) by (intro encodeRune_high DecodeRune_high) simp
  moreover have "encodeRune (fst (DecodeRune s)) \<noteq> []" by (simp add: encodeRune_def)
  ultimately show ?thesis using that DecodeRune_width by blast
qed

lemma respell_prefix: "\<forall>c\<in>set p. byte c < 128 \<Longrightarrow> prefix p (respell s) \<Longrightarrow> prefix p s"
proof (induction s arbitrary: p rule: measure_induct_rule [of length])
  case (less s)
  show ?case
  proof (cases p)
    case (Cons c p')
    then have ne: "s \<noteq> []" using less.prems(2) by (auto simp: respell_def runes.simps [of "[]"])
    show ?thesis
    proof (cases "byte (hd s) < 128")
      case True
      have "prefix (c # p') (hd s # respell (tl s))" using less.prems(2) respell_low [OF ne True] Cons by simp
      then have "c = hd s" "prefix p' (respell (tl s))" by simp_all
      moreover have "length (tl s) < length s" using ne by (simp add: length_tl)
      ultimately have "prefix p' (tl s)" using less.IH [of "tl s" p'] less.prems(1) Cons by simp
      with \<open>c = hd s\<close> show ?thesis using Cons ne by (cases s) simp_all
    next
      case False
      then obtain e w where e: "respell s = e @ respell (drop w s)" "\<forall>c\<in>set e. 128 \<le> byte c" "e \<noteq> []"
        by (rule respell_high [OF ne])
      then have "128 \<le> byte c" using less.prems(2) Cons by (cases e) auto
      then show ?thesis using less.prems(1) Cons by simp
    qed
  qed simp
qed

lemma respell_sublist: "k \<noteq> [] \<Longrightarrow> \<forall>c\<in>set k. byte c < 128 \<Longrightarrow> sublist k (respell s) \<Longrightarrow> sublist k s"
proof (induction s rule: measure_induct_rule [of length])
  case (less s)
  have ne: "s \<noteq> []" using less.prems(1,3) by (auto simp: respell_def runes.simps [of "[]"])
  show ?case
  proof (cases "byte (hd s) < 128")
    case True
    have r: "respell s = hd s # respell (tl s)" using respell_low [OF ne True] .
    have "length (tl s) < length s" using ne by (simp add: length_tl)
    then have "sublist k (tl s)" if "sublist k (respell (tl s))" using less.IH [OF _ less.prems(1,2) that] by blast
    moreover have "prefix k s" if "prefix k (hd s # respell (tl s))"
      using that r less.prems(2) respell_prefix [of k s] by simp
    ultimately show ?thesis using less.prems(3) ne unfolding r by (cases s) (auto simp: sublist_Cons_right)
  next
    case False
    then obtain e w where e: "respell s = e @ respell (drop w s)" "0 < w" "\<forall>c\<in>set e. 128 \<le> byte c"
      by (rule respell_high [OF ne])
    have foreign: "set e \<inter> set k = {}" using e(3) less.prems(2) by fastforce
    have "sublist k (e @ respell (drop w s))" using less.prems(3) by (subst e(1) [symmetric])
    then have "sublist k (respell (drop w s))" using foreign less.prems(1) by (rule sublist_append_foreign)
    moreover have "length (drop w s) < length s" using e(2) ne by simp
    ultimately have "sublist k (drop w s)" using less.IH less.prems(1,2) by blast
    then show ?thesis using sublist_drop [of w s] by (meson sublist_order.order_trans)
  qed
qed

text \<open>
  C17. The summary of an error body that the route returns never contains the API key of the credential,
  wherever and however often the body has it, in whatever mix with control characters, other scripts,
  bytes that are no valid UTF-8 and truncation. It is stated for keys of ASCII characters without
  brackets that are not a part of the word put in their place.
\<close>

theorem body_summary_redacted:
  assumes "plainKey (TrimSpace apiKey)"
  shows "\<not> sublist (TrimSpace apiKey) (fst (summarizeCPAErrorBody body apiKey maxRunes))"
proof
  let ?k = "TrimSpace apiKey"
  define cleaned where "cleaned = concat (map (\<lambda>r. encodeRune (if IsControl r then 32 else r)) (runes body))"
  define trimmed where "trimmed = TrimSpace (ReplaceAll ?k ''[REDACTED]'' cleaned)"
  have k: "?k \<noteq> []" "\<forall>c\<in>set ?k. byte c < 128" using assms by (auto simp: plainKey_def list_all_iff)
  have "\<exists>n. fst (summarizeCPAErrorBody body apiKey maxRunes) = concat (map encodeRune (take n (runes trimmed)))"
    using k(1) by (auto simp: summarizeCPAErrorBody_def Let_def cleaned_def [symmetric] trimmed_def [symmetric]
        intro: exI [of _ "length (runes trimmed)"])
  then obtain n where n: "fst (summarizeCPAErrorBody body apiKey maxRunes) = concat (map encodeRune (take n (runes trimmed)))" ..
  have "respell trimmed = concat (map encodeRune (take n (runes trimmed))) @ concat (map encodeRune (drop n (runes trimmed)))"
    unfolding respell_def by (metis append_take_drop_id concat_append map_append)
  then have "sublist (fst (summarizeCPAErrorBody body apiKey maxRunes)) (respell trimmed)" unfolding n by simp
  moreover assume "sublist ?k (fst (summarizeCPAErrorBody body apiKey maxRunes))"
  ultimately have "sublist ?k (respell trimmed)" by (meson sublist_order.order_trans)
  then have "sublist ?k trimmed" using k respell_sublist by blast
  then have "sublist ?k (ReplaceAll ?k ''[REDACTED]'' cleaned)"
    using TrimSpace_sublist unfolding trimmed_def by (meson sublist_order.order_trans)
  then show False using ReplaceAll_removes [OF assms] by blast
qed

theorem body_summary_redacted_witness:
  "summarizeCPAErrorBody ''key sk-12 failed'' '' sk-12 '' 9 = (''key [REDA'', True) \<and>
   \<not> sublist ''sk-12'' (fst (summarizeCPAErrorBody ''key sk-12 failed'' '' sk-12 '' 9))"
proof -
  have t: "TrimSpace '' sk-12 '' = ''sk-12''" by code_simp
  have "plainKey (TrimSpace '' sk-12 '')" unfolding t by code_simp
  from body_summary_redacted [OF this, of "''key sk-12 failed''" 9]
  show ?thesis unfolding t by (intro conjI) code_simp
qed

end
