(* ===== verification/Error_Runner.thy ===== *)
theory Error_Runner
  imports Error_Events
begin

text \<open>
  \<^verbatim>\<open>internal/poller/redis_error_ingest_runner.go\<close>: the goroutine that subscribes to the errors channel and
  stores what it receives. The network, the clock and the database are a script with one entry per
  turn of the loop: how the subscription went, the messages that came through it with the error that
  ended it, whether the context was cancelled by then and whether the wait ran to its end. The table
  of errors, the waits and the log lines are part of the state.
\<close>

section \<open>The runner\<close>

datatype subscribe_error = ErrSubscribeUnsupported | ErrQueueAuth | ErrConnection

definition redisErrorDefaultRetryDelays :: "duration list" where
  "redisErrorDefaultRetryDelays = [10 * Second, 30 * Second, Minute, 3 * Minute, 10 * Minute]"

definition DefaultRedisErrorRetryDelays :: "duration list" where
  "DefaultRedisErrorRetryDelays = redisErrorDefaultRetryDelays"

definition redisErrorEventLogInterval :: duration where
  "redisErrorEventLogInterval = Minute"

text \<open>A message: its payload, the clock when it was received, whether the insert works and the clock at a log line.\<close>

record error_message =
  em_payload :: string
  em_receivedAt :: gotime
  em_insertOK :: bool
  em_logAt :: gotime

text \<open>A subscription fails, is nil, or delivers messages until an error ends it.\<close>

datatype subscription =
    SubscribeFails subscribe_error
  | SubscribesNil
  | Subscribed "error_message list" subscribe_error

record turn =
  tn_subscription :: subscription
  tn_cancelled :: bool
  tn_slept :: bool

record error_runner =
  rn_retryDelays :: "duration list"
  rn_lastEventErrorLogAt :: gotime
  rn_logged :: nat
  rn_waits :: "duration list"
  rn_table :: error_table

text \<open>A nil list of delays takes the default, an empty one means no retries.\<close>

definition NewRedisErrorIngestRunnerWithOptions :: "duration list option \<Rightarrow> error_table \<Rightarrow> error_runner" where
  "NewRedisErrorIngestRunnerWithOptions delays db =
     \<lparr>rn_retryDelays = (case delays of None \<Rightarrow> DefaultRedisErrorRetryDelays | Some ds \<Rightarrow> ds),
      rn_lastEventErrorLogAt = zero_time, rn_logged = 0, rn_waits = [], rn_table = db\<rparr>"

definition NewRedisErrorIngestRunner :: "error_table \<Rightarrow> error_runner" where
  "NewRedisErrorIngestRunner db = NewRedisErrorIngestRunnerWithOptions None db"

definition logEventFailure :: "gotime \<Rightarrow> error_runner \<Rightarrow> error_runner" where
  "logEventFailure now r =
     (if rn_lastEventErrorLogAt r \<noteq> zero_time \<and> t_sub now (rn_lastEventErrorLogAt r) < redisErrorEventLogInterval then r
      else r\<lparr>rn_lastEventErrorLogAt := now, rn_logged := rn_logged r + 1\<rparr>)"

fun receive :: "(string \<Rightarrow> cpaErrorEventPayload option) \<Rightarrow> error_message list \<Rightarrow> error_runner \<Rightarrow> error_runner" where
  "receive unmarshal [] r = r"
| "receive unmarshal (m # ms) r =
     (let (err, db) = StoreErrorEvent unmarshal (em_insertOK m) (em_payload m) (em_receivedAt m) (rn_table r);
          r' = r\<lparr>rn_table := db\<rparr> in
      receive unmarshal ms (if err = None then r' else logEventFailure (em_logAt m) r'))"

definition redisErrorPermanentSubscribeFailure :: "subscribe_error \<Rightarrow> bool" where
  "redisErrorPermanentSubscribeFailure err \<longleftrightarrow> err = ErrSubscribeUnsupported \<or> err = ErrQueueAuth"

text \<open>Why \<open>Run\<close> returned nil, or that it still runs at the end of the script.\<close>

datatype run_end = Unavailable | Cancelled | Disabled | RetryLimit | StillRunning

text \<open>One subscription: the error it ended with, the retry index and the runner after it.\<close>

fun subscribeTurn :: "(string \<Rightarrow> cpaErrorEventPayload option) \<Rightarrow> subscription \<Rightarrow> nat \<Rightarrow> error_runner \<Rightarrow>
    subscribe_error \<times> nat \<times> error_runner" where
  "subscribeTurn unmarshal (SubscribeFails err) retryIndex r = (err, retryIndex, r)"
| "subscribeTurn unmarshal SubscribesNil retryIndex r = (ErrConnection, retryIndex, r)"
| "subscribeTurn unmarshal (Subscribed ms err) retryIndex r = (err, 0, receive unmarshal ms r)"

fun errorLoop :: "(string \<Rightarrow> cpaErrorEventPayload option) \<Rightarrow> turn list \<Rightarrow> nat \<Rightarrow> error_runner \<Rightarrow> run_end \<times> error_runner" where
  "errorLoop unmarshal [] retryIndex r = (StillRunning, r)"
| "errorLoop unmarshal (t # script) retryIndex r =
     (let (err, index, r') = subscribeTurn unmarshal (tn_subscription t) retryIndex r in
      if tn_cancelled t then (Cancelled, r')
      else if redisErrorPermanentSubscribeFailure err then (Disabled, r')
      else if length (rn_retryDelays r') \<le> index then (RetryLimit, r')
      else let r'' = r'\<lparr>rn_waits := rn_waits r' @ [rn_retryDelays r' ! index]\<rparr> in
           if \<not> tn_slept t then (Cancelled, r'')
           else errorLoop unmarshal script (index + 1) r'')"

text \<open>\<open>wired\<close>: the runner has a source and a sink.\<close>

definition error_Run :: "(string \<Rightarrow> cpaErrorEventPayload option) \<Rightarrow> bool \<Rightarrow> turn list \<Rightarrow> error_runner \<Rightarrow> run_end \<times> error_runner" where
  "error_Run unmarshal wired script r = (if \<not> wired then (Unavailable, r) else errorLoop unmarshal script 0 r)"

section \<open>Every message is offered to the table once\<close>

fun isConnected :: "subscription \<Rightarrow> bool" where
  "isConnected (Subscribed _ _) = True"
| "isConnected _ = False"

fun messages :: "subscription \<Rightarrow> error_message list" where
  "messages (Subscribed ms _) = ms"
| "messages _ = []"

definition storeAll :: "(string \<Rightarrow> cpaErrorEventPayload option) \<Rightarrow> error_message list \<Rightarrow> error_table \<Rightarrow> error_table" where
  "storeAll unmarshal ms db =
     fold (\<lambda>m db. snd (StoreErrorEvent unmarshal (em_insertOK m) (em_payload m) (em_receivedAt m) db)) ms db"

lemma logEventFailure_keeps [simp]:
  "rn_table (logEventFailure now r) = rn_table r" "rn_retryDelays (logEventFailure now r) = rn_retryDelays r"
  "rn_waits (logEventFailure now r) = rn_waits r"
  by (simp_all add: logEventFailure_def)

lemma receive_keeps:
  "rn_table (receive unmarshal ms r) = storeAll unmarshal ms (rn_table r) \<and>
   rn_retryDelays (receive unmarshal ms r) = rn_retryDelays r \<and> rn_waits (receive unmarshal ms r) = rn_waits r"
  by (induction unmarshal ms r rule: receive.induct) (auto simp: storeAll_def Let_def split: prod.splits)

lemma subscribeTurn_keeps:
  assumes "subscribeTurn unmarshal sub i r = (err, index, r')"
  shows "rn_table r' = storeAll unmarshal (messages sub) (rn_table r)" "rn_retryDelays r' = rn_retryDelays r"
    "rn_waits r' = rn_waits r" "index = (if isConnected sub then 0 else i)"
  using assms receive_keeps by (cases sub; auto simp: storeAll_def)+

text \<open>The turns of a script that failed to connect since the last one that did.\<close>

definition failedSince :: "turn list \<Rightarrow> nat" where
  "failedSince script = length (takeWhile (\<lambda>t. \<not> isConnected (tn_subscription t)) (rev script))"

definition connects :: "turn list \<Rightarrow> bool" where
  "connects script \<longleftrightarrow> (\<exists>t\<in>set script. isConnected (tn_subscription t))"

lemma failedSince_Cons:
  "failedSince (t # script) =
     (if connects script then failedSince script
      else length script + (if isConnected (tn_subscription t) then 0 else 1))"
  by (auto simp: failedSince_def connects_def takeWhile_append takeWhile_eq_all_conv)

lemma failedSince_all: "\<not> connects script \<Longrightarrow> failedSince script = length script"
  by (simp add: failedSince_def connects_def takeWhile_eq_all_conv [THEN iffD2])

lemma connects_Cons [simp]: "connects (t # script) \<longleftrightarrow> isConnected (tn_subscription t) \<or> connects script"
  by (auto simp: connects_def)

lemma connects_Nil [simp]: "\<not> connects []" "failedSince [] = 0"
  by (simp_all add: connects_def failedSince_def)

section \<open>How a run ends\<close>

text \<open>The error that the last of the turns ended with.\<close>

fun turnError :: "subscription \<Rightarrow> subscribe_error" where
  "turnError (SubscribeFails err) = err"
| "turnError SubscribesNil = ErrConnection"
| "turnError (Subscribed _ err) = err"

definition ended :: "nat \<Rightarrow> duration list \<Rightarrow> turn list \<Rightarrow> turn list \<Rightarrow> duration list \<Rightarrow> duration list \<Rightarrow> run_end \<Rightarrow> bool" where
  "ended i delays used rest waits waits' res \<longleftrightarrow>
     (case res of
        Unavailable \<Rightarrow> False
      | StillRunning \<Rightarrow> rest = [] \<and> failedSince used + (if connects used then 1 else i) \<le> length delays
      | RetryLimit \<Rightarrow> failedSince used + (if connects used then 1 else i) = length delays + 1 \<and>
          (if connects used then \<exists>pre. waits' = pre @ delays else waits' = waits @ drop i delays)
      | Disabled \<Rightarrow> used \<noteq> [] \<and> redisErrorPermanentSubscribeFailure (turnError (tn_subscription (last used)))
      | Cancelled \<Rightarrow> used \<noteq> [] \<and> (tn_cancelled (last used) \<or> \<not> tn_slept (last used)))"

lemma subscribeTurn_error: "subscribeTurn unmarshal sub i r = (err, index, r') \<Longrightarrow> err = turnError sub"
  by (cases sub) auto

lemma ended_step:
  assumes "ended (index + 1) delays used rest (waits @ [delays ! index]) waits' res" "index < length delays"
    and index: "index = (if isConnected (tn_subscription t) then 0 else i)"
  shows "ended i delays (t # used) rest waits waits' res"
proof (cases res)
  case RetryLimit
  have d: "delays ! index # drop (Suc index) delays = drop index delays" using assms(2) by (rule Cons_nth_drop_Suc)
  show ?thesis
    using assms RetryLimit d failedSince_all [of used]
    by (cases "connects used"; cases "isConnected (tn_subscription t)") (auto simp: ended_def failedSince_Cons)
qed (use assms failedSince_all [of used] in \<open>auto simp: ended_def failedSince_Cons split: if_splits\<close>)

lemma errorLoop_ended:
  assumes "errorLoop unmarshal script i r = (res, r')" "i \<le> length (rn_retryDelays r)"
  shows "\<exists>used rest. script = used @ rest \<and>
    rn_table r' = storeAll unmarshal (concat (map (\<lambda>t. messages (tn_subscription t)) used)) (rn_table r) \<and>
    ended i (rn_retryDelays r) used rest (rn_waits r) (rn_waits r') res"
  using assms
proof (induction unmarshal script i r rule: errorLoop.induct)
  case (1 unmarshal i r)
  then show ?case by (auto simp: storeAll_def ended_def)
next
  case (2 unmarshal t script i r)
  obtain err index r1 where turn: "subscribeTurn unmarshal (tn_subscription t) i r = (err, index, r1)"
    by (metis prod_cases3)
  note k = subscribeTurn_keeps [OF turn]
  let ?r2 = "r1\<lparr>rn_waits := rn_waits r1 @ [rn_retryDelays r1 ! index]\<rparr>"
  show ?case
  proof (cases "tn_cancelled t \<or> redisErrorPermanentSubscribeFailure err \<or> length (rn_retryDelays r) \<le> index \<or> \<not> tn_slept t")
    case True
    have "ended i (rn_retryDelays r) [t] script (rn_waits r) (rn_waits r') res \<and> rn_table r' = rn_table r1"
      using True "2.prems" turn k subscribeTurn_error [OF turn]
      by (auto simp: ended_def failedSince_Cons Let_def split: if_splits)
    then show ?thesis using k(1) by (intro exI [of _ "[t]"] exI [of _ script]) simp
  next
    case False
    then have run: "errorLoop unmarshal script (index + 1) ?r2 = (res, r')" using "2.prems"(1) turn k(2) by (simp add: Let_def)
    have "index + 1 \<le> length (rn_retryDelays ?r2)" using False k(2) by simp
    then have "\<exists>used rest. script = used @ rest \<and>
      rn_table r' = storeAll unmarshal (concat (map (\<lambda>t. messages (tn_subscription t)) used)) (rn_table r1) \<and>
      ended (index + 1) (rn_retryDelays r) used rest (rn_waits ?r2) (rn_waits r') res"
      using "2.IH" [OF turn [symmetric] refl refl] False k(2) run by simp
    then obtain used rest where u: "script = used @ rest"
      "rn_table r' = storeAll unmarshal (concat (map (\<lambda>t. messages (tn_subscription t)) used)) (rn_table r1)"
      "ended (index + 1) (rn_retryDelays r) used rest (rn_waits r @ [rn_retryDelays r ! index]) (rn_waits r') res"
      using k(2,3) by auto
    have "ended i (rn_retryDelays r) (t # used) rest (rn_waits r) (rn_waits r') res"
      using u(3) k(4) False by (intro ended_step) simp_all
    then show ?thesis using u k(1)
      by (intro exI [of _ "t # used"] exI [of _ rest]) (simp add: storeAll_def)
  qed
qed

text \<open>
  C18. A run of the errors runner consumes a prefix of what its environment does. Every message received
  in it is offered to the table exactly once, in order, also after failures. The runner is still
  running only while it has fewer failed attempts since its last connection than it has delays; it gives up only after it
  has waited through the full list of delays, in order, since then; otherwise it ended because of a
  refusal that no retry can change or because of the cancellation.
\<close>

theorem error_runner_retries:
  assumes "error_Run unmarshal wired script r = (res, r')"
  shows "\<exists>used rest. script = used @ rest \<and>
    rn_table r' = storeAll unmarshal (concat (map (\<lambda>t. messages (tn_subscription t)) used)) (rn_table r) \<and>
    (case res of
       Unavailable \<Rightarrow> \<not> wired \<and> used = []
     | StillRunning \<Rightarrow> rest = [] \<and> failedSince used + (if connects used then 1 else 0) \<le> length (rn_retryDelays r)
     | RetryLimit \<Rightarrow> failedSince used + (if connects used then 1 else 0) = length (rn_retryDelays r) + 1 \<and>
         (\<exists>pre. rn_waits r' = pre @ rn_retryDelays r)
     | Disabled \<Rightarrow> used \<noteq> [] \<and> redisErrorPermanentSubscribeFailure (turnError (tn_subscription (last used)))
     | Cancelled \<Rightarrow> used \<noteq> [] \<and> (tn_cancelled (last used) \<or> \<not> tn_slept (last used)))"
proof (cases wired)
  case False
  then show ?thesis using assms by (intro exI [of _ "[]"] exI [of _ script]) (auto simp: error_Run_def storeAll_def)
next
  case True
  obtain used rest where "script = used @ rest"
    "rn_table r' = storeAll unmarshal (concat (map (\<lambda>t. messages (tn_subscription t)) used)) (rn_table r)"
    "ended 0 (rn_retryDelays r) used rest (rn_waits r) (rn_waits r') res"
    using errorLoop_ended [of unmarshal script 0 r res r'] assms True by (auto simp: error_Run_def)
  then show ?thesis
    by (intro exI [of _ used] exI [of _ rest]) (auto simp: ended_def split: run_end.splits if_splits)
qed

theorem error_runner_retries_witness:
  "fst (error_Run (\<lambda>_. None) True (replicate 7 \<lparr>tn_subscription = SubscribeFails ErrConnection, tn_cancelled = False, tn_slept = True\<rparr>)
     (NewRedisErrorIngestRunner \<lparr>et_rows = [], et_seq = 0\<rparr>)) = RetryLimit \<and>
   (\<exists>pre. rn_waits (snd (error_Run (\<lambda>_. None) True
     (replicate 7 \<lparr>tn_subscription = SubscribeFails ErrConnection, tn_cancelled = False, tn_slept = True\<rparr>)
     (NewRedisErrorIngestRunner \<lparr>et_rows = [], et_seq = 0\<rparr>))) = pre @ redisErrorDefaultRetryDelays)"
proof -
  let ?s = "replicate 7 \<lparr>tn_subscription = SubscribeFails ErrConnection, tn_cancelled = False, tn_slept = True\<rparr>"
    and ?r = "NewRedisErrorIngestRunner \<lparr>et_rows = [], et_seq = 0\<rparr>"
  have res: "fst (error_Run (\<lambda>_. None) True ?s ?r) = RetryLimit" by code_simp
  then have "error_Run (\<lambda>_. None) True ?s ?r = (RetryLimit, snd (error_Run (\<lambda>_. None) True ?s ?r))" by (metis prod.collapse)
  moreover have "rn_retryDelays ?r = redisErrorDefaultRetryDelays"
    by (simp add: NewRedisErrorIngestRunner_def NewRedisErrorIngestRunnerWithOptions_def DefaultRedisErrorRetryDelays_def)
  ultimately show ?thesis using res error_runner_retries [of "\<lambda>_. None" True ?s ?r RetryLimit] by auto
qed

end
