(* ===== verification/Spec2Isabelle.thy ===== *)
theory Spec2Isabelle
  imports Token_Process Latency_Sketch Latency_Samples Login_Limiter Auth_Session Ingest_Control Ingest_Runner Process_Runner
    Rollup_Loop Recent_Window Query_Range Update_Check
    Error_Redaction Error_Runner
begin

text \<open>
  A verification library for CodexKeeper, the usage dashboard of CodexProxy: a Go server that
  takes usage messages from a queue, keeps them in an inbox, turns them into usage events with
  canonical token counts, aggregates the events and shows them to an administrator.

  \<^bold>\<open>The program and its theories.\<close> All sources are under \<^verbatim>\<open>src/internal\<close>.

  \<^item> \<open>Prelude\<close>: what the sources use of Go and its standard library: \<open>int64\<close> as \<open>int\<close> with the
    wrap-around \<open>i64\<close> written out, \<open>uint64\<close> as \<open>64 word\<close>, time as nanoseconds, strings as byte
    lists with \<open>TrimSpace\<close> and \<open>ToLower\<close>.
  \<^item> \<open>Ingest_Runner\<close>: \<^verbatim>\<open>poller/redis_ingest_runner.go\<close> and its backoff. The loop subscribes,
    drains the backlog, receives live messages in batches and persists each batch before it reads
    on. The network, the clock and the inbox writer are scripts of replies, so a theorem over all
    scripts covers every behaviour of the environment; the lists of messages that were taken and
    accepted are part of the state.
  \<^item> \<open>Ingest_Control\<close>: \<^verbatim>\<open>providers\<close>, \<^verbatim>\<open>poller/control_message.go\<close> and
    \<^verbatim>\<open>poller/redis_inbox_writer.go\<close>, which decide what reaches the inbox.
  \<^item> \<open>Usage_Inbox\<close>, \<open>Usage_Event\<close>: the tables and statements of
    \<^verbatim>\<open>repository/redis_usage_inbox.go\<close>, \<^verbatim>\<open>service/redis_usage.go\<close> and the event insert of
    \<^verbatim>\<open>repository/db.go\<close>. A statement takes its outcome from a list of faults; a transaction that
    fails restores the tables.
  \<^item> \<open>Usage_Sync\<close>, \<open>Usage_Progress\<close>: the processing round of \<^verbatim>\<open>service/sync.go\<close>, which decodes
    rows, resolves the credential type, processes the tokens and commits events together with the
    processed marks.
  \<^item> \<open>Token_Registry\<close>, \<open>Token_Process\<close>: \<^verbatim>\<open>service/tokenprocessor\<close>, the canonical token counts
    of an event and the actions that record each correction.
  \<^item> \<open>Latency_Codec\<close>, \<open>Latency_Sketch\<close>, \<open>Latency_Samples\<close>: \<^verbatim>\<open>latency\<close>, mergeable latency
    distributions and bounded samples with their binary formats.
  \<^item> \<open>Login_Limiter\<close>, \<open>Auth_Session\<close>: \<^verbatim>\<open>auth\<close>, the login attempt limiter and the sessions with
    their cache, database and background writer. The second critical sections of \<open>Get\<close> and \<open>Touch\<close>
    are calls of their own, so that other calls may come between.

  \<^item> \<open>Local_Time\<close>: what the sources use of Go's \<open>time\<close> package beyond the instant: a location is a
    list of offset changes, with \<open>Date\<close> and \<open>AddDate\<close> as the standard library computes them.
  \<^item> \<open>Activity_Grain\<close>: \<^verbatim>\<open>activity/grain.go\<close>, the buckets and windows of the heat maps.
  \<^item> \<open>Rollup_Rows\<close>, \<open>Latency_Rows\<close>: \<^verbatim>\<open>overview/aggregate.go\<close>, \<^verbatim>\<open>activity/aggregate.go\<close>,
    \<^verbatim>\<open>latency/aggregate.go\<close> and the row codec of \<^verbatim>\<open>repository/latencystore\<close>: a page of events
    becomes one row per key, with the exact sums of the events of the key.
  \<^item> \<open>Rollup_Store\<close>, \<open>Rollup_Exact\<close>: the checkpoints, event pages, row tables and page transactions
    of \<^verbatim>\<open>repository\<close>; a page adds its rows and moves its checkpoint in one step or does nothing.
  \<^item> \<open>Rollup_Once\<close>: the databases that messages, inbox rounds, page loads and applications,
    cleanups and failing statements can lead to, in any order; every event is counted exactly once.

  \<^item> \<open>Usage_Counts\<close>, \<open>Inbox_Growth\<close>: what the aggregations share: counters with their sums, and how the
    inbox side makes the event table grow.
  \<^item> \<open>Identity_Sync\<close>, \<open>Identity_Stats\<close>: \<^verbatim>\<open>repository/usage_identities.go\<close> and
    \<^verbatim>\<open>usage_identity_stats_reset.go\<close>. The first plans and writes what CPA reports of the
    credentials and makes Keeper's edits; the plan is made from a snapshot and applied later, so that
    edits may come between. The second counts the events of each credential in batches and resets
    the displayed counters; the reachable databases interleave all of it with the inbox and carry
    along the cursor at which each credential was last reset, which the program does not store.
  \<^item> \<open>Process_Runner\<close>: \<^verbatim>\<open>poller/redis_process_runner.go\<close>, the goroutine that calls the processing round,
    and the status of the poller.
  \<^item> \<open>Recent_Cache\<close>, \<open>Recent_Window\<close>: \<^verbatim>\<open>repository/usage_recent_event_cache.go\<close> and
    \<^verbatim>\<open>usage_credential_health_cache.go\<close>, the memory of recent events with its string pool, health
    buckets and bounded queue; its runs interleave senders, worker and shutdown.
  \<^item> \<open>Rollup_Runner\<close>, \<open>Rollup_Turns\<close>, \<open>Rollup_Loop\<close>: \<^verbatim>\<open>poller/usage_aggregation_runner.go\<close>, the goroutine that drives the
    rollups and the credential statistics. Others notify it between its critical sections and write
    to the database between its accesses; no notification is lost, turns make progress, and the loop
    blocks only when nothing is left to do.

  \<^item> \<open>Go_Decimal\<close>, \<open>Calendar\<close>: decimal numbers and the calendar of Go's standard library; reading
    inverts writing, and texts and dates are ordered as what they stand for.
  \<^item> \<open>Storage_Time\<close>, \<open>Query_Range\<close>: \<^verbatim>\<open>timeutil\<close>, the texts under which instants are stored, with the parser
    of Go's time layouts and the serializers of the ORM, and the time ranges of the usage queries.
  \<^item> \<open>Update_Check\<close>: \<^verbatim>\<open>updatecheck/checker.go\<close>, the comparison of the running version with the tags.

  \<^item> \<open>Cursor_Page\<close>: pages that are asked for with cursors, their contract, and the cursor codec of
    \<^verbatim>\<open>api/usage_filter.go\<close> with the base 64 it uses.
  \<^item> \<open>Error_Events\<close>, \<open>Error_Page\<close>, \<open>Error_Redaction\<close>, \<open>Error_Runner\<close>: the errors that the proxy reports of
    credentials: \<^verbatim>\<open>service/error_events.go\<close> and \<^verbatim>\<open>repository/error_events.go\<close> store and list them,
    \<^verbatim>\<open>api/error_events.go\<close> shows them without the key of the credential, and
    \<^verbatim>\<open>poller/redis_error_ingest_runner.go\<close> receives them with a bounded number of retries. Pages lose and
    repeat nothing, and no key is shown.

  \<^bold>\<open>Interfaces.\<close> \<open>token_handler\<close> (the protocol handlers), \<open>alias_index\<close> (the registry indexes),
  \<open>field_codec\<close> and \<open>mergeable_summary\<close> (the latency formats), \<open>counter_table\<close> (the tables of
  rollup counters), \<open>cursor_pager\<close> (lists read with cursors) and \<open>session_store\<close> (what the session manager relies on) are locales, interpreted on the definitions that model the code.

  \<^bold>\<open>Bounds and fuel.\<close> No model of the code uses fuel (\<open>followPages\<close>, a client, counts its requests): loops over data are structural or have a termination
  proof, and loops that wait for the environment recurse on the script of replies, which may be of
  any length. The correction loops of the fixed activity buckets, for which the source gives no
  bound, are partial functions whose result \<open>None\<close> stands for not returning; they are shown to
  return for times within \<open>2^52\<close> seconds of 1970 in zones whose clock does not change at midnight
  (\<open>regular\<close>). The scan over the credentials, which goes on until a page is not full, is one too; it is
  shown to return whichever statements fail. Limits of the code (batch sizes, the five attempts of a row, sample and source
  bounds, backoff limits) are definitions with the values of the source.

  \<^bold>\<open>Not modelled.\<close> Network and file I/O, the HTTP interface but for the errors route, SQL text that only SQLite
  interprets, floating point costs and percentages, logging, migrations and the benchmark tool.
  JSON decoding, hashing, randomness and IP parsing are parameters; outside
  \<open>Storage_Time\<close> and the error events the models keep instants where the tables hold their texts.
\<close>

end
